(* ===== verification/Mach_Prelude.thy ===== *)
theory Mach_Prelude
  imports Main "HOL-Library.Word" "HOL-Library.Monad_Syntax"
begin

text \<open>
  Shared vocabulary of the development.

  The C code is translated into HOL functions. A C \<^verbatim>\<open>unsigned int\<close> is a
  32-bit word when the code computes with it modulo \<open>2^32\<close> or looks at its bits, and
  a \<open>nat\<close> when it only counts or indexes. A C pointer that the code treats as a number
  (it is hashed, or its low bit is used as a tag) is a 32-bit word too. A computation that the C
  code does not define (a null or wild pointer, an index outside an array), that fails an
  \<^verbatim>\<open>assert\<close> or that never ends has the value \<open>None\<close>; so a statement that a
  function returns \<open>Some\<close> also says that none of these happens.

  The named collections below gather the facts that component proofs rewrite with.
\<close>

named_theorems entry_simps \<open>how the table and tree operations read and write entries\<close>
named_theorems bits_simps \<open>fields of an ie_bits word\<close>

type_synonym u32 = "32 word"
type_synonym ptr = "32 word"

subsection \<open>Kernel return codes\<close>

text \<open>The codes of \<^verbatim>\<open>mach/kern_return.h\<close> that the modelled functions return.\<close>

datatype kern_return =
    KERN_SUCCESS
  | KERN_NO_SPACE
  | KERN_INVALID_ARGUMENT
  | KERN_FAILURE
  | KERN_RESOURCE_SHORTAGE
  | KERN_NAME_EXISTS
  | KERN_INVALID_NAME
  | KERN_INVALID_TASK
  | KERN_INVALID_RIGHT
  | KERN_INVALID_VALUE
  | KERN_UREFS_OVERFLOW
  | KERN_INVALID_CAPABILITY
  | KERN_RIGHT_EXISTS

subsection \<open>Checked array access\<close>

definition arr_get :: "'a list \<Rightarrow> nat \<Rightarrow> 'a option" where
  "arr_get xs i = (if i < length xs then Some (xs ! i) else None)"

definition arr_set :: "'a list \<Rightarrow> nat \<Rightarrow> 'a \<Rightarrow> 'a list option" where
  "arr_set xs i x = (if i < length xs then Some (xs[i := x]) else None)"

definition assert_that :: "bool \<Rightarrow> unit option" where
  "assert_that b = (if b then Some () else None)"

lemma arr_get_in [simp]: "i < length xs \<Longrightarrow> arr_get xs i = Some (xs ! i)"
  by (simp add: arr_get_def)

lemma arr_get_eq_Some [simp]: "arr_get xs i = Some x \<longleftrightarrow> i < length xs \<and> xs ! i = x"
  by (simp add: arr_get_def)

lemma arr_set_in [simp]: "i < length xs \<Longrightarrow> arr_set xs i x = Some (xs[i := x])"
  by (simp add: arr_set_def)

lemma arr_set_eq_Some [simp]: "arr_set xs i x = Some ys \<longleftrightarrow> i < length xs \<and> ys = xs[i := x]"
  by (auto simp: arr_set_def)

lemma assert_that_True [simp]: "assert_that True = Some ()"
  by (simp add: assert_that_def)

lemma assert_that_False [simp]: "assert_that False = None"
  by (simp add: assert_that_def)

lemma assert_that_eq_Some [simp]: "assert_that b = Some u \<longleftrightarrow> b"
  by (simp add: assert_that_def)

lemma nth_list_update_if: "i < length xs \<Longrightarrow> xs[i := x] ! j = (if i = j then x else xs ! j)"
  by auto

subsection \<open>Sorted association lists\<close>

text \<open>
  Name-ordered structures are compared with the list of their bindings in order: \<open>keys\<close>
  strictly increasing is the invariant, \<open>map_of\<close> the meaning.
\<close>

abbreviation keys :: "('k \<times> 'v) list \<Rightarrow> 'k list" where
  "keys xs \<equiv> map fst xs"

abbreviation sorted_keys :: "('k::linorder \<times> 'v) list \<Rightarrow> bool" where
  "sorted_keys xs \<equiv> sorted_wrt (<) (keys xs)"

lemma map_of_middle:
  fixes name :: "'k :: linorder"
  assumes "\<forall>x \<in> set xs. fst x < name" and "\<forall>x \<in> set ys. name < fst x"
  shows "map_of (xs @ a # ys) name = (if fst a = name then Some (snd a) else None)"
proof -
  have "name \<notin> fst ` set xs" "name \<notin> fst ` set ys" using assms by (metis imageE less_irrefl)+
  then have "map_of xs name = None" "map_of ys name = None" by (simp_all add: map_of_eq_None_iff)
  then show ?thesis by (cases a) (simp add: map_add_def)
qed

lemma filter_middle:
  fixes name :: "'k :: linorder"
  assumes "\<forall>x \<in> set xs. fst x < name" and "\<forall>x \<in> set ys. name < fst x"
  shows "filter (\<lambda>x. fst x < name) (xs @ a # ys) = xs @ (if fst a < name then [a] else [])"
    and "filter (\<lambda>x. name < fst x) (xs @ a # ys) = (if name < fst a then [a] else []) @ ys"
    and "filter (\<lambda>x. name \<le> fst x) (xs @ a # ys) = (if name \<le> fst a then [a] else []) @ ys"
    and "filter (\<lambda>x. fst x \<noteq> name) (xs @ a # ys) = xs @ (if fst a \<noteq> name then [a] else []) @ ys"
proof -
  have "filter (\<lambda>x. fst x < name) xs = xs \<and> filter (\<lambda>x. name < fst x) xs = [] \<and>
    filter (\<lambda>x. name \<le> fst x) xs = [] \<and> filter (\<lambda>x. fst x \<noteq> name) xs = xs"
    using assms(1) by (induction xs) auto
  moreover have "filter (\<lambda>x. fst x < name) ys = [] \<and> filter (\<lambda>x. name < fst x) ys = ys \<and>
    filter (\<lambda>x. name \<le> fst x) ys = ys \<and> filter (\<lambda>x. fst x \<noteq> name) ys = ys"
    using assms(2) by (induction ys) auto
  ultimately show "filter (\<lambda>x. fst x < name) (xs @ a # ys) = xs @ (if fst a < name then [a] else [])"
    and "filter (\<lambda>x. name < fst x) (xs @ a # ys) = (if name < fst a then [a] else []) @ ys"
    and "filter (\<lambda>x. name \<le> fst x) (xs @ a # ys) = (if name \<le> fst a then [a] else []) @ ys"
    and "filter (\<lambda>x. fst x \<noteq> name) (xs @ a # ys) = xs @ (if fst a \<noteq> name then [a] else []) @ ys"
    by simp_all
qed

lemma sorted_keys_insert:
  "sorted_keys xs \<Longrightarrow>
   sorted_keys (filter (\<lambda>x. fst x < k) xs @ (k, v) # filter (\<lambda>x. k < fst x) xs)"
  by (auto simp: sorted_wrt_append sorted_wrt_map sorted_wrt_filter)

lemma sorted_keys_remove:
  "sorted_keys (xs @ a # ys) \<Longrightarrow> sorted_keys (xs @ ys)"
  by (simp add: sorted_wrt_append)

lemma sorted_keys_filter: "sorted_keys xs \<Longrightarrow> sorted_keys (filter P xs)"
  by (simp add: sorted_wrt_map sorted_wrt_filter)

lemma map_of_filter_keys: "map_of (filter (\<lambda>x. P (fst x)) xs) = map_of xs |` {k. P k}"
  by (induction xs) (auto simp: restrict_map_def fun_eq_iff)

lemma map_of_insert_keys:
  fixes k :: "'k :: linorder"
  assumes "map_of xs k = None"
  shows "map_of (filter (\<lambda>x. fst x < k) xs @ (k, v) # filter (\<lambda>x. k < fst x) xs) =
         (map_of xs)(k \<mapsto> v)"
proof
  fix k'
  show "map_of (filter (\<lambda>x. fst x < k) xs @ (k, v) # filter (\<lambda>x. k < fst x) xs) k' =
        ((map_of xs)(k \<mapsto> v)) k'"
    using assms linorder_less_linear [of k' k]
    by (auto simp: map_add_def map_of_filter_keys [of "\<lambda>x. x < k"] map_of_filter_keys [of "\<lambda>x. k < x"]
        restrict_map_def split: option.splits)
qed

lemma map_of_delete_keys: "map_of (filter (\<lambda>x. fst x \<noteq> k) xs) = (map_of xs)(k := None)"
  by (simp add: map_of_filter_keys [of "\<lambda>x. x \<noteq> k"] restrict_map_def fun_eq_iff)

lemma sorted_keys_partition:
  "sorted_keys xs \<Longrightarrow> filter (\<lambda>x. fst x < k) xs @ filter (\<lambda>x. k \<le> fst x) xs = xs"
proof (induction xs)
  case (Cons a xs)
  have "filter (\<lambda>x. fst x < k) xs = []" if "\<not> fst a < k"
    using Cons.prems that by (fastforce simp: filter_empty_conv)
  with Cons show ?case by (auto simp: not_less)
qed simp

lemma ran_delete:
  assumes "m a = Some b" and "\<And>a'. m a' = Some b \<Longrightarrow> a' = a"
  shows "ran (m(a := None)) = ran m - {b}"
proof
  show "ran (m(a := None)) \<subseteq> ran m - {b}"
    using assms(2) by (fastforce simp: ran_def split: if_splits)
  show "ran m - {b} \<subseteq> ran (m(a := None))"
  proof
    fix x
    assume "x \<in> ran m - {b}"
    then obtain a' where "m a' = Some x" "x \<noteq> b" by (auto simp: ran_def)
    with assms(1) have "(m(a := None)) a' = Some x" by auto
    then show "x \<in> ran (m(a := None))" by (rule ranI)
  qed
qed

lemma append_Nil_id: "(@) [] = id"
  by (rule ext) simp

end
