(* ===== verification/Ipc_Names.thy ===== *)
theory Ipc_Names
  imports Mach_Prelude
begin

text \<open>
  Port names and entry bits: the macros of \<^verbatim>\<open>kernel/ipc/port.h\<close>,
  \<^verbatim>\<open>include/mach/port.h\<close> and \<^verbatim>\<open>kernel/ipc/ipc_entry.h\<close>, on 32-bit words.
  A name is an index and a generation number; \<^verbatim>\<open>PORT_GENERATIONS\<close> is not defined by
  any file of the tree, so the preprocessor takes it as 0 and the index is the whole name. The
  macros are written for both settings and the setting is one definition. The bit layout of
  \<^verbatim>\<open>ie_bits\<close> packs a 16-bit user-reference count, a 5-bit type, three flags and the
  generation into one word; the lemmas show that adjusting the count never spills into the
  other fields as long as the overflow and underflow macros say no.
\<close>

unbundle bit_operations_syntax

type_synonym mach_port = "32 word"

definition PORT_GENERATIONS :: bool where
  "PORT_GENERATIONS = False"

definition MACH_PORT_NULL :: mach_port where
  "MACH_PORT_NULL = 0"

definition MACH_PORT_DEAD :: mach_port where
  "MACH_PORT_DEAD = NOT 0"

definition MACH_PORT_VALID :: "mach_port \<Rightarrow> bool" where
  "MACH_PORT_VALID name \<longleftrightarrow> name \<noteq> MACH_PORT_NULL \<and> name \<noteq> MACH_PORT_DEAD"

definition MACH_PORT_INDEX :: "mach_port \<Rightarrow> u32" where
  "MACH_PORT_INDEX name = (if PORT_GENERATIONS then drop_bit 8 name else name)"

definition MACH_PORT_GEN :: "mach_port \<Rightarrow> u32" where
  "MACH_PORT_GEN name = (if PORT_GENERATIONS then push_bit 24 (name AND 0xff) else 0)"

definition MACH_PORT_MAKE :: "u32 \<Rightarrow> u32 \<Rightarrow> mach_port" where
  "MACH_PORT_MAKE index gen =
     (if PORT_GENERATIONS then push_bit 8 index OR drop_bit 24 gen else index)"

subsection \<open>Rights and types\<close>

definition MACH_PORT_TYPE :: "nat \<Rightarrow> u32" where
  "MACH_PORT_TYPE right = push_bit (right + 16) 1"

definition MACH_PORT_RIGHT_SEND :: nat where "MACH_PORT_RIGHT_SEND = 0"
definition MACH_PORT_RIGHT_RECEIVE :: nat where "MACH_PORT_RIGHT_RECEIVE = 1"
definition MACH_PORT_RIGHT_SEND_ONCE :: nat where "MACH_PORT_RIGHT_SEND_ONCE = 2"
definition MACH_PORT_RIGHT_PORT_SET :: nat where "MACH_PORT_RIGHT_PORT_SET = 3"
definition MACH_PORT_RIGHT_DEAD_NAME :: nat where "MACH_PORT_RIGHT_DEAD_NAME = 4"

definition MACH_PORT_TYPE_NONE :: u32 where "MACH_PORT_TYPE_NONE = 0"
definition MACH_PORT_TYPE_SEND :: u32 where
  "MACH_PORT_TYPE_SEND = MACH_PORT_TYPE MACH_PORT_RIGHT_SEND"
definition MACH_PORT_TYPE_RECEIVE :: u32 where
  "MACH_PORT_TYPE_RECEIVE = MACH_PORT_TYPE MACH_PORT_RIGHT_RECEIVE"
definition MACH_PORT_TYPE_SEND_ONCE :: u32 where
  "MACH_PORT_TYPE_SEND_ONCE = MACH_PORT_TYPE MACH_PORT_RIGHT_SEND_ONCE"
definition MACH_PORT_TYPE_PORT_SET :: u32 where
  "MACH_PORT_TYPE_PORT_SET = MACH_PORT_TYPE MACH_PORT_RIGHT_PORT_SET"
definition MACH_PORT_TYPE_DEAD_NAME :: u32 where
  "MACH_PORT_TYPE_DEAD_NAME = MACH_PORT_TYPE MACH_PORT_RIGHT_DEAD_NAME"

definition MACH_PORT_TYPE_SEND_RECEIVE :: u32 where
  "MACH_PORT_TYPE_SEND_RECEIVE = MACH_PORT_TYPE_SEND OR MACH_PORT_TYPE_RECEIVE"
definition MACH_PORT_TYPE_SEND_RIGHTS :: u32 where
  "MACH_PORT_TYPE_SEND_RIGHTS = MACH_PORT_TYPE_SEND OR MACH_PORT_TYPE_SEND_ONCE"
definition MACH_PORT_TYPE_PORT_RIGHTS :: u32 where
  "MACH_PORT_TYPE_PORT_RIGHTS = MACH_PORT_TYPE_SEND_RIGHTS OR MACH_PORT_TYPE_RECEIVE"
definition MACH_PORT_TYPE_PORT_OR_DEAD :: u32 where
  "MACH_PORT_TYPE_PORT_OR_DEAD = MACH_PORT_TYPE_PORT_RIGHTS OR MACH_PORT_TYPE_DEAD_NAME"
definition MACH_PORT_TYPE_ALL_RIGHTS :: u32 where
  "MACH_PORT_TYPE_ALL_RIGHTS = MACH_PORT_TYPE_PORT_OR_DEAD OR MACH_PORT_TYPE_PORT_SET"

definition MACH_PORT_TYPE_DNREQUEST :: u32 where "MACH_PORT_TYPE_DNREQUEST = 0x80000000"
definition MACH_PORT_TYPE_MAREQUEST :: u32 where "MACH_PORT_TYPE_MAREQUEST = 0x40000000"
definition MACH_PORT_TYPE_COMPAT :: u32 where "MACH_PORT_TYPE_COMPAT = 0x20000000"

subsection \<open>Entry bits\<close>

definition IE_BITS_UREFS_MASK :: u32 where "IE_BITS_UREFS_MASK = 0x0000ffff"
definition IE_BITS_TYPE_MASK :: u32 where "IE_BITS_TYPE_MASK = 0x001f0000"
definition IE_BITS_MAREQUEST :: u32 where "IE_BITS_MAREQUEST = 0x00200000"
definition IE_BITS_COMPAT :: u32 where "IE_BITS_COMPAT = 0x00400000"
definition IE_BITS_COLLISION :: u32 where "IE_BITS_COLLISION = 0x00800000"
definition IE_BITS_RIGHT_MASK :: u32 where "IE_BITS_RIGHT_MASK = 0x007fffff"

definition IE_BITS_UREFS :: "u32 \<Rightarrow> u32" where
  "IE_BITS_UREFS bits = bits AND IE_BITS_UREFS_MASK"

definition IE_BITS_TYPE :: "u32 \<Rightarrow> u32" where
  "IE_BITS_TYPE bits = bits AND IE_BITS_TYPE_MASK"

definition IE_BITS_GEN_MASK :: u32 where
  "IE_BITS_GEN_MASK = (if PORT_GENERATIONS then 0xff000000 else 0)"

definition IE_BITS_GEN :: "u32 \<Rightarrow> u32" where
  "IE_BITS_GEN bits = (if PORT_GENERATIONS then bits AND IE_BITS_GEN_MASK else 0)"

definition IE_BITS_GEN_ONE :: u32 where
  "IE_BITS_GEN_ONE = (if PORT_GENERATIONS then 0x01000000 else 0)"

definition MACH_PORT_MAKEB :: "u32 \<Rightarrow> u32 \<Rightarrow> mach_port" where
  "MACH_PORT_MAKEB index bits = MACH_PORT_MAKE index (IE_BITS_GEN bits)"

subsection \<open>Entries\<close>

text \<open>
  \<^verbatim>\<open>struct ipc_entry\<close>. The union \<^verbatim>\<open>index\<close> is the field \<open>ie_request\<close>
  (\<^verbatim>\<open>ie_next\<close> is its other name); of the union \<^verbatim>\<open>hash\<close> only
  \<^verbatim>\<open>ie_index\<close> is a field here, the chain link \<^verbatim>\<open>ite_next\<close> of tree entries
  is the order of the hash chains. An object is a kernel address.
\<close>

definition IO_NULL :: ptr where "IO_NULL = 0"
definition IO_DEAD :: ptr where "IO_DEAD = NOT 0"

definition IO_VALID :: "ptr \<Rightarrow> bool" where
  "IO_VALID obj \<longleftrightarrow> obj \<noteq> IO_NULL \<and> obj \<noteq> IO_DEAD"

record ipc_entry =
  ie_bits :: u32
  ie_object :: ptr
  ie_request :: nat
  ie_index :: nat

abbreviation ie_next :: "ipc_entry \<Rightarrow> nat" where "ie_next \<equiv> ie_request"

subsection \<open>User references\<close>

text \<open>
  \<^verbatim>\<open>mach_port_delta_t\<close> is a signed 32-bit integer, \<^verbatim>\<open>mach_port_urefs_t\<close> an
  unsigned one: the sums and the comparison with \<open>urefs\<close> are unsigned, the tests of the
  sign of \<open>delta\<close> are signed.
\<close>

definition MACH_PORT_UREFS_MAX :: u32 where "MACH_PORT_UREFS_MAX = push_bit 16 1 - 1"

definition MACH_PORT_UREFS_OVERFLOW :: "u32 \<Rightarrow> u32 \<Rightarrow> bool" where
  "MACH_PORT_UREFS_OVERFLOW urefs delta \<longleftrightarrow>
     0 < sint delta \<and> (urefs + delta \<le> urefs \<or> MACH_PORT_UREFS_MAX < urefs + delta)"

definition MACH_PORT_UREFS_UNDERFLOW :: "u32 \<Rightarrow> u32 \<Rightarrow> bool" where
  "MACH_PORT_UREFS_UNDERFLOW urefs delta \<longleftrightarrow> sint delta < 0 \<and> urefs < - delta"

subsection \<open>Adjusting the user-reference count\<close>

lemma sint_u32: "sint (w :: u32) = (if uint w < 2 ^ 31 then uint w else uint w - 2 ^ 32)"
proof (cases "uint w < 2 ^ 31")
  case True
  then have "signed_take_bit 31 (uint w) = uint w"
    by (intro signed_take_bit_int_eq_self) (auto intro: order_trans [OF _ uint_ge_0])
  with True show ?thesis by (simp add: sint_uint)
next
  case False
  have lt: "uint w < 2 ^ 32" using uint_bounded [of w] by simp
  have "signed_take_bit 31 (uint w) = signed_take_bit 31 (uint w - 2 ^ 32)"
    by (simp add: signed_take_bit_eq_iff_take_bit_eq take_bit_eq_mod)
  also have "\<dots> = uint w - 2 ^ 32"
    using False lt by (intro signed_take_bit_int_eq_self) auto
  finally show ?thesis using False by (simp add: sint_uint)
qed

lemma uint_plus_u32: "uint (a + b :: u32) = (uint a + uint b) mod 2 ^ 32"
  by (simp add: uint_word_ariths)

lemma uint_minus_u32: "uint (- a :: u32) = (- uint a) mod 2 ^ 32"
  by (simp add: uint_word_ariths)

lemma uint_u32_bounds: "0 \<le> uint (a::u32)" "uint (a::u32) < 2 ^ 32"
  using uint_bounded [of a] by simp_all

lemma UREFS_MAX_uint: "uint MACH_PORT_UREFS_MAX = 65535"
  by (simp add: MACH_PORT_UREFS_MAX_def push_bit_eq_mult)

lemma urefs_overflow_iff:
  assumes "urefs \<le> MACH_PORT_UREFS_MAX"
  shows "MACH_PORT_UREFS_OVERFLOW urefs delta \<longleftrightarrow> 65535 < uint urefs + sint delta"
proof -
  have u: "uint urefs \<le> 65535" using assms by (simp add: word_le_def UREFS_MAX_uint)
  note b = uint_u32_bounds [of delta] uint_u32_bounds [of urefs]
  show ?thesis
  proof (cases "uint delta < 2 ^ 31")
    case True
    then have "(uint urefs + uint delta) mod 2 ^ 32 = uint urefs + uint delta" using u b by simp
    with True u b show ?thesis
      by (auto simp: MACH_PORT_UREFS_OVERFLOW_def sint_u32 word_le_def word_less_def uint_plus_u32 UREFS_MAX_uint)
  next
    case False
    with u b show ?thesis by (auto simp: MACH_PORT_UREFS_OVERFLOW_def sint_u32)
  qed
qed

lemma urefs_underflow_iff:
  assumes "urefs \<le> MACH_PORT_UREFS_MAX"
  shows "MACH_PORT_UREFS_UNDERFLOW urefs delta \<longleftrightarrow> uint urefs + sint delta < 0"
proof -
  have u: "uint urefs \<le> 65535" using assms by (simp add: word_le_def UREFS_MAX_uint)
  note b = uint_u32_bounds [of delta] uint_u32_bounds [of urefs]
  show ?thesis
  proof (cases "uint delta < 2 ^ 31")
    case True
    have "0 \<le> uint urefs + uint delta" by simp
    with True show ?thesis by (simp add: MACH_PORT_UREFS_UNDERFLOW_def sint_u32 not_less)
  next
    case False
    have "(- uint delta) mod 2 ^ 32 = 2 ^ 32 - uint delta"
      using False b by (simp add: zmod_zminus1_eq_if)
    with False u b show ?thesis
      by (auto simp: MACH_PORT_UREFS_UNDERFLOW_def sint_u32 word_less_def uint_minus_u32)
  qed
qed

lemma urefs_le_max: "IE_BITS_UREFS bits \<le> MACH_PORT_UREFS_MAX"
proof -
  have "MACH_PORT_UREFS_MAX = IE_BITS_UREFS_MASK"
    by (simp add: MACH_PORT_UREFS_MAX_def IE_BITS_UREFS_MASK_def push_bit_eq_mult)
  then show ?thesis by (simp add: IE_BITS_UREFS_def word_and_le1)
qed

lemma bits_split: "bits = (bits AND NOT IE_BITS_UREFS_MASK) OR IE_BITS_UREFS bits"
  unfolding IE_BITS_UREFS_def by (simp flip: bit.conj_disj_distrib)

lemma mask_disjoint:
  assumes "a AND m = a"
  shows "(b AND NOT m) AND a = (0 :: u32)"
proof -
  have "(b AND NOT m) AND (a AND m) = 0" by (rule bit_eqI) (auto simp: bit_and_iff bit_not_iff)
  with assms show ?thesis by simp
qed

lemma urefs_adjust:
  assumes "\<not> MACH_PORT_UREFS_OVERFLOW (IE_BITS_UREFS bits) delta"
    and "\<not> MACH_PORT_UREFS_UNDERFLOW (IE_BITS_UREFS bits) delta"
  shows "IE_BITS_UREFS (bits + delta) = IE_BITS_UREFS bits + delta"
    and "(bits + delta) AND NOT IE_BITS_UREFS_MASK = bits AND NOT IE_BITS_UREFS_MASK"
    and "uint (IE_BITS_UREFS (bits + delta)) = uint (IE_BITS_UREFS bits) + sint delta"
proof -
  let ?u = "IE_BITS_UREFS bits" and ?h = "bits AND NOT IE_BITS_UREFS_MASK" and ?u' = "IE_BITS_UREFS bits + delta"
  have sum: "0 \<le> uint ?u + sint delta" "uint ?u + sint delta \<le> 65535"
    using assms urefs_overflow_iff [OF urefs_le_max] urefs_underflow_iff [OF urefs_le_max] by auto
  have u': "uint ?u' = uint ?u + sint delta"
  proof (cases "uint delta < 2 ^ 31")
    case True
    with sum show ?thesis by (simp add: uint_plus_u32 sint_u32)
  next
    case False
    have "(uint ?u + uint delta) mod 2 ^ 32 = (uint ?u + uint delta - 2 ^ 32) mod 2 ^ 32" by simp
    also have "\<dots> = uint ?u + uint delta - 2 ^ 32"
      using False sum by (intro mod_pos_pos_trivial) (simp_all add: sint_u32)
    finally show ?thesis using False by (simp add: uint_plus_u32 sint_u32)
  qed
  have "take_bit 16 (uint ?u') = uint ?u'"
    unfolding u' using sum by (intro take_bit_int_eq_self) simp_all
  then have "take_bit 16 ?u' = ?u'" by (simp add: word_uint_eq_iff unsigned_take_bit_eq)
  then have m: "?u' AND IE_BITS_UREFS_MASK = ?u'"
    by (simp add: take_bit_eq_mask mask_numeral IE_BITS_UREFS_MASK_def)
  have disj: "?h AND ?u = 0" by (rule mask_disjoint) (simp add: IE_BITS_UREFS_def and.assoc)
  have disj': "?h AND ?u' = 0" by (rule mask_disjoint [OF m])
  have hm: "?h AND IE_BITS_UREFS_MASK = 0" by (rule mask_disjoint) simp
  have "bits + delta = ?h + ?u'"
    using disj bits_split [of bits] by (simp add: disjunctive_add_eq_or)
  also have "\<dots> = ?h OR ?u'" by (rule disjunctive_add_eq_or [OF disj'])
  finally have eq: "bits + delta = ?h OR ?u'" .
  show "IE_BITS_UREFS (bits + delta) = ?u'"
    using hm unfolding eq IE_BITS_UREFS_def [of "_ OR _"] bit.conj_disj_distrib2 m by simp
  show "(bits + delta) AND NOT IE_BITS_UREFS_MASK = bits AND NOT IE_BITS_UREFS_MASK"
    unfolding eq bit.conj_disj_distrib2 using mask_disjoint [OF m, of "NOT 0"]
    by (simp add: ac_simps)
  show "uint (IE_BITS_UREFS (bits + delta)) = uint (IE_BITS_UREFS bits) + sint delta"
    using u' hm unfolding eq IE_BITS_UREFS_def [of "_ OR _"] bit.conj_disj_distrib2 m by simp
qed

lemma urefs_adjust_field:
  assumes "\<not> MACH_PORT_UREFS_OVERFLOW (IE_BITS_UREFS bits) delta"
    and "\<not> MACH_PORT_UREFS_UNDERFLOW (IE_BITS_UREFS bits) delta"
    and "m AND NOT IE_BITS_UREFS_MASK = m"
  shows "(bits + delta) AND m = bits AND m"
proof -
  have "x AND m = (x AND NOT IE_BITS_UREFS_MASK) AND m" for x
    using assms(3) by (metis and.assoc and.commute)
  then show ?thesis using urefs_adjust(2) [OF assms(1,2)] by metis
qed

text \<open>
  C35. The overflow and underflow macros are exact: they hold precisely when the user-reference count
  plus the signed adjustment leaves the range 0 to 65535. When neither holds, adding the adjustment
  to the whole \<open>ie_bits\<close> word adjusts the count and leaves the type, the flags and the generation
  alone.
\<close>

theorem urefs_macros_exact:
  "(MACH_PORT_UREFS_OVERFLOW (IE_BITS_UREFS bits) delta \<longleftrightarrow>
      65535 < uint (IE_BITS_UREFS bits) + sint delta) \<and>
   (MACH_PORT_UREFS_UNDERFLOW (IE_BITS_UREFS bits) delta \<longleftrightarrow>
      uint (IE_BITS_UREFS bits) + sint delta < 0) \<and>
   (\<not> MACH_PORT_UREFS_OVERFLOW (IE_BITS_UREFS bits) delta \<and>
    \<not> MACH_PORT_UREFS_UNDERFLOW (IE_BITS_UREFS bits) delta \<longrightarrow>
      uint (IE_BITS_UREFS (bits + delta)) = uint (IE_BITS_UREFS bits) + sint delta \<and>
      IE_BITS_TYPE (bits + delta) = IE_BITS_TYPE bits \<and>
      (bits + delta) AND 0xffe00000 = bits AND 0xffe00000)"
proof -
  have "IE_BITS_TYPE_MASK AND NOT IE_BITS_UREFS_MASK = IE_BITS_TYPE_MASK"
    and "(0xffe00000 :: u32) AND NOT IE_BITS_UREFS_MASK = 0xffe00000"
    by (simp_all add: IE_BITS_TYPE_MASK_def IE_BITS_UREFS_MASK_def)
  with urefs_overflow_iff [OF urefs_le_max] urefs_underflow_iff [OF urefs_le_max]
    urefs_adjust(3) urefs_adjust_field
  show ?thesis unfolding IE_BITS_TYPE_def by blast
qed

theorem urefs_macros_exact_witness:
  "uint (IE_BITS_UREFS (0x0021fffe + 1)) = 65535 \<and> IE_BITS_TYPE (0x0021fffe + 1) = IE_BITS_TYPE 0x0021fffe \<and>
   MACH_PORT_UREFS_OVERFLOW (IE_BITS_UREFS 0x0021fffe) 2"
proof -
  have u: "IE_BITS_UREFS 0x0021fffe = 0xfffe" by (simp add: IE_BITS_UREFS_def IE_BITS_UREFS_MASK_def)
  show ?thesis
    using urefs_macros_exact [of "0x0021fffe" 1] urefs_macros_exact [of "0x0021fffe" 2]
    unfolding u by (simp add: sint_u32)
qed

end
