(* ===== verification/Name_Map.thy ===== *)
theory Name_Map
  imports Ipc_Names
begin

text \<open>
  The contract between an IPC space and the structure that stores the entries whose names do not
  fit the space's table: a finite map from names to entries, with a lookup that may reorganise the
  structure, an insert that requires the name to be new and a delete that requires it to be
  present. \<open>run_cmds\<close> runs a sequence of such operations on an implementation, \<open>map_cmds\<close>
  on a plain map; the locale shows that an implementation of the contract cannot be told from the
  map, failures included.
\<close>

datatype 'e map_cmd =
    Cmd_lookup mach_port
  | Cmd_insert mach_port 'e
  | Cmd_delete mach_port

fun map_step :: "'e map_cmd \<Rightarrow> (mach_port \<rightharpoonup> 'e) \<Rightarrow> ('e option \<times> (mach_port \<rightharpoonup> 'e)) option" where
  "map_step (Cmd_lookup name) m = Some (m name, m)"
| "map_step (Cmd_insert name e) m = (if m name = None then Some (None, m(name \<mapsto> e)) else None)"
| "map_step (Cmd_delete name) m = (if m name \<noteq> None then Some (None, m(name := None)) else None)"

fun map_cmds :: "'e map_cmd list \<Rightarrow> (mach_port \<rightharpoonup> 'e) \<Rightarrow> ('e option list \<times> (mach_port \<rightharpoonup> 'e)) option" where
  "map_cmds [] m = Some ([], m)"
| "map_cmds (c # cs) m =
     do { (r, m') \<leftarrow> map_step c m; (rs, m'') \<leftarrow> map_cmds cs m'; Some (r # rs, m'') }"

fun run_cmd ::
  "('t \<Rightarrow> mach_port \<Rightarrow> 'e option \<times> 't) \<Rightarrow> ('t \<Rightarrow> mach_port \<Rightarrow> 'e \<Rightarrow> 't option) \<Rightarrow>
   ('t \<Rightarrow> mach_port \<Rightarrow> 't option) \<Rightarrow> 'e map_cmd \<Rightarrow> 't \<Rightarrow> ('e option \<times> 't) option" where
  "run_cmd lkp ins del (Cmd_lookup name) t = Some (lkp t name)"
| "run_cmd lkp ins del (Cmd_insert name e) t = map_option (Pair None) (ins t name e)"
| "run_cmd lkp ins del (Cmd_delete name) t = map_option (Pair None) (del t name)"

fun run_cmds ::
  "('t \<Rightarrow> mach_port \<Rightarrow> 'e option \<times> 't) \<Rightarrow> ('t \<Rightarrow> mach_port \<Rightarrow> 'e \<Rightarrow> 't option) \<Rightarrow>
   ('t \<Rightarrow> mach_port \<Rightarrow> 't option) \<Rightarrow> 'e map_cmd list \<Rightarrow> 't \<Rightarrow> ('e option list \<times> 't) option" where
  "run_cmds lkp ins del [] t = Some ([], t)"
| "run_cmds lkp ins del (c # cs) t =
     do { (r, t') \<leftarrow> run_cmd lkp ins del c t;
          (rs, t'') \<leftarrow> run_cmds lkp ins del cs t';
          Some (r # rs, t'') }"

locale name_map =
  fixes ok :: "'t \<Rightarrow> bool"
    and bindings :: "'t \<Rightarrow> mach_port \<rightharpoonup> 'e"
    and lkp :: "'t \<Rightarrow> mach_port \<Rightarrow> 'e option \<times> 't"
    and ins :: "'t \<Rightarrow> mach_port \<Rightarrow> 'e \<Rightarrow> 't option"
    and del :: "'t \<Rightarrow> mach_port \<Rightarrow> 't option"
  assumes lookup_law: "ok t \<Longrightarrow> lkp t name = (r, t') \<Longrightarrow>
        r = bindings t name \<and> ok t' \<and> bindings t' = bindings t"
    and insert_law: "ok t \<Longrightarrow> bindings t name = None \<Longrightarrow>
        \<exists>t'. ins t name e = Some t' \<and> ok t' \<and> bindings t' = (bindings t)(name \<mapsto> e)"
    and insert_present: "ok t \<Longrightarrow> bindings t name \<noteq> None \<Longrightarrow> ins t name e = None"
    and delete_law: "ok t \<Longrightarrow> bindings t name \<noteq> None \<Longrightarrow>
        \<exists>t'. del t name = Some t' \<and> ok t' \<and> bindings t' = (bindings t)(name := None)"
    and delete_absent: "ok t \<Longrightarrow> bindings t name = None \<Longrightarrow> del t name = None"
begin

lemma insert_SomeD:
  assumes "ok t" and "ins t name e = Some t'"
  shows "bindings t name = None" and "ok t'" and "bindings t' = (bindings t)(name \<mapsto> e)"
  using assms insert_law [of t name e] insert_present [of t name e]
  by (cases "bindings t name"; simp)+

lemma delete_SomeD:
  assumes "ok t" and "del t name = Some t'"
  shows "bindings t name \<noteq> None" and "ok t'" and "bindings t' = (bindings t)(name := None)"
  using assms delete_law [of t name] delete_absent [of t name]
  by (cases "bindings t name"; simp)+

lemma run_cmd_refines:
  assumes "ok t"
  shows "map_option (map_prod id bindings) (run_cmd lkp ins del c t) = map_step c (bindings t)"
    and "run_cmd lkp ins del c t = Some (r, t') \<Longrightarrow> ok t'"
proof -
  show "map_option (map_prod id bindings) (run_cmd lkp ins del c t) = map_step c (bindings t)"
  proof (cases c)
    case (Cmd_lookup name)
    with lookup_law [OF assms, of name] show ?thesis by (cases "lkp t name") auto
  next
    case (Cmd_insert name e)
    with insert_law [OF assms, of name e] insert_present [OF assms, of name e] show ?thesis by auto
  next
    case (Cmd_delete name)
    with delete_law [OF assms, of name] delete_absent [OF assms, of name] show ?thesis by auto
  qed
  show "run_cmd lkp ins del c t = Some (r, t') \<Longrightarrow> ok t'"
    by (cases c) (auto dest: lookup_law [OF assms] insert_SomeD(2) [OF assms] delete_SomeD(2) [OF assms])
qed

lemma run_cmds_refines:
  "ok t \<Longrightarrow>
   map_option (map_prod id bindings) (run_cmds lkp ins del cs t) = map_cmds cs (bindings t)"
proof (induction cs arbitrary: t)
  case (Cons c cs)
  note c = run_cmd_refines [OF Cons.prems, of c]
  show ?case
  proof (cases "run_cmd lkp ins del c t")
    case None
    with c(1) show ?thesis by (simp flip: c(1))
  next
    case (Some p)
    obtain r t' where p: "p = (r, t')" by (cases p)
    with Some c(2) have "ok t'" by simp
    from Cons.IH [OF this] show ?thesis
      using Some p c(1) [symmetric]
      by (cases "run_cmds lkp ins del cs t'") (auto split: bind_splits)
  qed
qed simp

lemma insert_delete_round_trip:
  assumes "ok t" and "bindings t name = None"
  shows "\<exists>t1 t2. ins t name e = Some t1 \<and> fst (lkp t1 name) = Some e \<and>
    del t1 name = Some t2 \<and> ok t2 \<and> bindings t2 = bindings t"
proof -
  obtain t1 where t1: "ins t name e = Some t1" "ok t1" "bindings t1 = (bindings t)(name \<mapsto> e)"
    using insert_law [OF assms] by blast
  obtain t2 where t2: "del t1 name = Some t2" "ok t2" "bindings t2 = (bindings t1)(name := None)"
    using delete_law [of t1 name] t1 by auto
  have "fst (lkp t1 name) = Some e"
    using lookup_law [OF t1(2), of name] t1(3) by (cases "lkp t1 name") auto
  with t1 t2 assms(2) show ?thesis by (auto simp: fun_upd_idem)
qed

end

end
