(* ===== verification/Ipc_Splay.thy ===== *)
theory Ipc_Splay
  imports Name_Map "HOL-Library.Tree"
begin

text \<open>
  The splay tree of \<^verbatim>\<open>kernel/ipc/ipc_splay.c\<close>, which holds the entries of an IPC
  space whose names do not fit the space's table.

  A tree node is a name with its payload \<open>'e\<close>. The C structure keeps the tree unassembled: the
  middle tree \<open>ist_root\<close>, and a left and a right tree with a pointer into each
  (\<^verbatim>\<open>ist_ltreep\<close> to the rchild field of the largest left node, \<^verbatim>\<open>ist_rtreep\<close>
  to the lchild field of the smallest right node), whose target is not initialised. Such a tree
  with a hole on its right (left) edge is a \<open>spine\<close>: the nodes on that edge, the one that holds
  the hole first, each with its other subtree. Storing \<open>t\<close> through the pointer and then reading
  the tree is \<open>ltree_fill\<close> (\<open>rtree_fill\<close>); the pointer is the address of the field in the
  splay structure itself exactly when the spine is \<open>[]\<close>.

  The operations are proved against the list \<open>ist_list\<close> of bindings in name order: lookup,
  insert and delete, split and join, the bounds query and the traversal that deletes as it goes.
  The last sections interpret the name-map contract.
\<close>

subsection \<open>The structure\<close>

type_synonym 'e ite = "mach_port \<times> 'e"
type_synonym 'e spine = "('e ite tree \<times> 'e ite) list"

abbreviation ITE_NULL :: "'e ite tree" where
  "ITE_NULL \<equiv> Leaf"

definition MACH_PORT_SMALLEST :: mach_port where "MACH_PORT_SMALLEST = 0"
definition MACH_PORT_LARGEST :: mach_port where "MACH_PORT_LARGEST = NOT 0"

record 'e ipc_splay_tree =
  ist_name :: mach_port
  ist_root :: "'e ite tree"
  ist_ltree :: "'e spine"
  ist_rtree :: "'e spine"

text \<open>
  The name in the node a tree pointer points to.
\<close>

definition ite_name :: "'e ite tree \<Rightarrow> mach_port" where
  "ite_name tree = fst (value tree)"

lemma ite_name_Node [simp]: "ite_name (Node l a r) = fst a"
  by (simp add: ite_name_def)

subsection \<open>Top-down splaying\<close>

text \<open>
  The four macros local to \<^verbatim>\<open>ipc_splay_prim_lookup\<close>, and one descent of its loop to
  the left and to the right; \<open>None\<close> is the \<^verbatim>\<open>break\<close> of the loop.
\<close>

definition link_left :: "'e ite tree \<Rightarrow> 'e spine \<Rightarrow> 'e ite tree \<times> 'e spine" where
  "link_left tree ltree =
     (case tree of Node l a r \<Rightarrow> (r, (l, a) # ltree) | Leaf \<Rightarrow> (tree, ltree))"

definition link_right :: "'e ite tree \<Rightarrow> 'e spine \<Rightarrow> 'e ite tree \<times> 'e spine" where
  "link_right tree rtree =
     (case tree of Node l a r \<Rightarrow> (l, (r, a) # rtree) | Leaf \<Rightarrow> (tree, rtree))"

definition rotate_left :: "'e ite tree \<Rightarrow> 'e ite tree" where
  "rotate_left tree =
     (case tree of Node l a (Node rl b rr) \<Rightarrow> Node (Node l a rl) b rr | _ \<Rightarrow> tree)"

definition rotate_right :: "'e ite tree \<Rightarrow> 'e ite tree" where
  "rotate_right tree =
     (case tree of Node (Node ll b lr) a r \<Rightarrow> Node ll b (Node lr a r) | _ \<Rightarrow> tree)"

lemmas splay_macro_defs = link_left_def link_right_def rotate_left_def rotate_right_def

definition splay_descend_left ::
  "mach_port \<Rightarrow> 'e ite tree \<Rightarrow> 'e spine \<Rightarrow> 'e spine \<Rightarrow> ('e ite tree \<times> 'e spine \<times> 'e spine) option" where
  "splay_descend_left name tree ltree rtree =
     (let lchild = left tree in
      if lchild = ITE_NULL then None
      else let tname = ite_name lchild;
               tree1 = (if name < tname \<and> left lchild \<noteq> ITE_NULL then rotate_right tree else tree);
               (tree2, rtree2) = link_right tree1 rtree;
               (tree3, ltree3) = (if tname < name \<and> right lchild \<noteq> ITE_NULL
                                  then link_left tree2 ltree else (tree2, ltree))
           in Some (tree3, ltree3, rtree2))"

definition splay_descend_right ::
  "mach_port \<Rightarrow> 'e ite tree \<Rightarrow> 'e spine \<Rightarrow> 'e spine \<Rightarrow> ('e ite tree \<times> 'e spine \<times> 'e spine) option" where
  "splay_descend_right name tree ltree rtree =
     (let rchild = right tree in
      if rchild = ITE_NULL then None
      else let tname = ite_name rchild;
               tree1 = (if tname < name \<and> right rchild \<noteq> ITE_NULL then rotate_left tree else tree);
               (tree2, ltree2) = link_left tree1 ltree;
               (tree3, rtree3) = (if name < tname \<and> left rchild \<noteq> ITE_NULL
                                  then link_right tree2 rtree else (tree2, rtree))
           in Some (tree3, ltree2, rtree3))"

definition splay_step ::
  "mach_port \<Rightarrow> 'e ite tree \<Rightarrow> 'e spine \<Rightarrow> 'e spine \<Rightarrow> ('e ite tree \<times> 'e spine \<times> 'e spine) option" where
  "splay_step name tree ltree rtree =
     (if tree = ITE_NULL \<or> name = ite_name tree then None
      else if name < ite_name tree then splay_descend_left name tree ltree rtree
      else splay_descend_right name tree ltree rtree)"

lemma splay_step_size:
  assumes "splay_step name t L R = Some (t', L', R')"
  shows "size t' < size t"
proof -
  obtain l a r where t: "t = Node l a r" using assms by (cases t) (auto simp: splay_step_def)
  show ?thesis
  proof (cases "name < fst a")
    case True
    with assms t show ?thesis
      by (cases l) (auto simp: splay_step_def splay_descend_left_def splay_macro_defs Let_def
          ite_name_def split: if_splits tree.splits)
  next
    case False
    with assms t show ?thesis
      by (cases r) (auto simp: splay_step_def splay_descend_right_def splay_macro_defs Let_def
          ite_name_def split: if_splits tree.splits)
  qed
qed

function ipc_splay_prim_lookup ::
  "mach_port \<Rightarrow> 'e ite tree \<Rightarrow> 'e spine \<Rightarrow> 'e spine \<Rightarrow> 'e ite tree \<times> 'e spine \<times> 'e spine" where
  "ipc_splay_prim_lookup name tree ltree rtree =
     (case splay_step name tree ltree rtree of
        None \<Rightarrow> (tree, ltree, rtree)
      | Some (tree', ltree', rtree') \<Rightarrow> ipc_splay_prim_lookup name tree' ltree' rtree')"
  by pat_completeness auto
termination
  by (relation "measure (\<lambda>(name, tree, ltree, rtree). size tree)") (auto dest: splay_step_size)

declare ipc_splay_prim_lookup.simps [simp del]

text \<open>
  Storing through \<^verbatim>\<open>ltreep\<close> and \<^verbatim>\<open>rtreep\<close>.
\<close>

primrec ltree_fill :: "'e spine \<Rightarrow> 'e ite tree \<Rightarrow> 'e ite tree" where
  "ltree_fill [] t = t"
| "ltree_fill (f # sp) t = ltree_fill sp (Node (fst f) (snd f) t)"

primrec rtree_fill :: "'e spine \<Rightarrow> 'e ite tree \<Rightarrow> 'e ite tree" where
  "rtree_fill [] t = t"
| "rtree_fill (f # sp) t = rtree_fill sp (Node t (snd f) (fst f))"

definition ipc_splay_prim_assemble ::
  "'e ite tree \<Rightarrow> 'e spine \<Rightarrow> 'e spine \<Rightarrow> 'e ite tree" where
  "ipc_splay_prim_assemble tree ltree rtree =
     (case tree of
        Leaf \<Rightarrow> Leaf
      | Node l a r \<Rightarrow> Node (ltree_fill ltree l) a (rtree_fill rtree r))"

subsection \<open>Operations\<close>

definition ipc_splay_tree_init :: "'e ipc_splay_tree \<Rightarrow> 'e ipc_splay_tree" where
  "ipc_splay_tree_init splay = splay\<lparr>ist_root := ITE_NULL\<rparr>"

definition ipc_splay_tree_pick :: "'e ipc_splay_tree \<Rightarrow> 'e ite option" where
  "ipc_splay_tree_pick splay =
     (case ist_root splay of Leaf \<Rightarrow> None | Node l a r \<Rightarrow> Some a)"

text \<open>
  Every operation starts by splaying \<open>name\<close> to the root of the middle tree, unless the last
  operation already did.
\<close>

definition ipc_splay_focus :: "'e ipc_splay_tree \<Rightarrow> mach_port \<Rightarrow> 'e ite tree \<times> 'e spine \<times> 'e spine" where
  "ipc_splay_focus splay name =
     (if ist_name splay \<noteq> name
      then ipc_splay_prim_lookup name
             (ipc_splay_prim_assemble (ist_root splay) (ist_ltree splay) (ist_rtree splay)) [] []
      else (ist_root splay, ist_ltree splay, ist_rtree splay))"

text \<open>
  The result is the payload of the entry found, and the reorganised structure.
\<close>

definition ipc_splay_tree_lookup ::
  "'e ipc_splay_tree \<Rightarrow> mach_port \<Rightarrow> 'e option \<times> 'e ipc_splay_tree" where
  "ipc_splay_tree_lookup splay name =
     (if ist_root splay = ITE_NULL then (None, splay)
      else let (root, ltree, rtree) = ipc_splay_focus splay name;
               splay' = splay\<lparr>ist_name := name, ist_root := root,
                              ist_ltree := ltree, ist_rtree := rtree\<rparr>
           in (if name \<noteq> ite_name root then None else Some (snd (value root)), splay'))"

definition ipc_splay_tree_insert ::
  "'e ipc_splay_tree \<Rightarrow> mach_port \<Rightarrow> 'e \<Rightarrow> 'e ipc_splay_tree option" where
  "ipc_splay_tree_insert splay name entry =
     do { (lchild, rchild) \<leftarrow>
            (if ist_root splay = ITE_NULL then Some (ITE_NULL, ITE_NULL)
             else let (root, ltree, rtree) = ipc_splay_focus splay name in
               do { assert_that (ite_name root \<noteq> name);
                    if name < ite_name root
                    then do { assert_that (left root = ITE_NULL);
                              Some (ltree_fill ltree ITE_NULL, rtree_fill rtree root) }
                    else do { assert_that (right root = ITE_NULL);
                              Some (ltree_fill ltree root, rtree_fill rtree ITE_NULL) } });
          Some (splay\<lparr>ist_root := Node lchild (name, entry) rchild, ist_name := name,
                      ist_ltree := [], ist_rtree := []\<rparr>) }"

text \<open>
  How delete, split, join and the end of a traversal install a whole tree.
\<close>

definition ist_set_root :: "'e ipc_splay_tree \<Rightarrow> 'e ite tree \<Rightarrow> 'e ipc_splay_tree" where
  "ist_set_root splay root =
     (if root \<noteq> ITE_NULL
      then splay\<lparr>ist_root := root, ist_name := ite_name root, ist_ltree := [], ist_rtree := []\<rparr>
      else splay\<lparr>ist_root := root\<rparr>)"

text \<open>
  The nodes come from \<^verbatim>\<open>ite_alloc\<close> and go back by \<^verbatim>\<open>ite_free\<close>; here a
  deleted node just leaves the tree.
\<close>

definition ipc_splay_tree_delete ::
  "'e ipc_splay_tree \<Rightarrow> mach_port \<Rightarrow> 'e ipc_splay_tree option" where
  "ipc_splay_tree_delete splay name =
     do { assert_that (ist_root splay \<noteq> ITE_NULL);
          let (root, ltree, rtree) = ipc_splay_focus splay name;
          assert_that (ite_name root = name);
          let root' = ltree_fill ltree (left root);
          let saved = rtree_fill rtree (right root);
          root'' \<leftarrow>
            (if root' = ITE_NULL then Some saved
             else if saved \<noteq> ITE_NULL
             then let (rt, lt, rr) = ipc_splay_prim_lookup MACH_PORT_LARGEST root' [] [];
                      t = ipc_splay_prim_assemble rt lt rr
                  in do { assert_that (right t = ITE_NULL);
                          Some (Node (left t) (value t) saved) }
             else Some root');
          Some (ist_set_root splay root'') }"

text \<open>
  \<open>small0\<close> is the uninitialised structure passed by the caller.
\<close>

definition ipc_splay_tree_split ::
  "'e ipc_splay_tree \<Rightarrow> mach_port \<Rightarrow> 'e ipc_splay_tree \<Rightarrow>
     ('e ipc_splay_tree \<times> 'e ipc_splay_tree) option" where
  "ipc_splay_tree_split splay name small0 =
     (let small = ipc_splay_tree_init small0 in
      if ist_root splay = ITE_NULL then Some (splay, small)
      else let (root, ltree, rtree) = ipc_splay_focus splay name in
        if ite_name root < name
        then do { assert_that (right root = ITE_NULL);
                  Some (ist_set_root splay (rtree_fill rtree ITE_NULL),
                        ist_set_root small
                          (Node (ltree_fill ltree (left root)) (value root) (right root))) }
        else Some (splay\<lparr>ist_root := Node ITE_NULL (value root) (right root), ist_name := name,
                         ist_ltree := [], ist_rtree := rtree\<rparr>,
                   ist_set_root small (ltree_fill ltree (left root))))"

definition ipc_splay_tree_join ::
  "'e ipc_splay_tree \<Rightarrow> 'e ipc_splay_tree \<Rightarrow>
     ('e ipc_splay_tree \<times> 'e ipc_splay_tree) option" where
  "ipc_splay_tree_join splay small =
     (let sroot = ipc_splay_prim_assemble (ist_root small) (ist_ltree small) (ist_rtree small);
          small' = small\<lparr>ist_root := ITE_NULL\<rparr>
      in if sroot = ITE_NULL then Some (splay, small')
         else do { root \<leftarrow>
                     (if ist_root splay = ITE_NULL then Some sroot
                      else let (rt, lt, rr) = ipc_splay_focus splay MACH_PORT_SMALLEST;
                               t = ipc_splay_prim_assemble rt lt rr
                           in do { assert_that (left t = ITE_NULL);
                                   assert_that (ite_name sroot < ite_name t);
                                   Some (Node sroot (value t) (right t)) });
                   Some (ist_set_root splay root, small') })"

definition ipc_splay_tree_bounds ::
  "'e ipc_splay_tree \<Rightarrow> mach_port \<Rightarrow> (mach_port \<times> mach_port) \<times> 'e ipc_splay_tree" where
  "ipc_splay_tree_bounds splay name =
     (if ist_root splay = ITE_NULL then ((MACH_PORT_LARGEST, MACH_PORT_SMALLEST), splay)
      else let (root, ltree, rtree) = ipc_splay_focus splay name;
               splay' = splay\<lparr>ist_name := name, ist_root := root,
                              ist_ltree := ltree, ist_rtree := rtree\<rparr>;
               rname = ite_name root;
               lower = (if rname \<le> name then rname
                        else case ltree of [] \<Rightarrow> MACH_PORT_LARGEST | f # _ \<Rightarrow> fst (snd f));
               upper = (if name \<le> rname then rname
                        else case rtree of [] \<Rightarrow> MACH_PORT_SMALLEST | f # _ \<Rightarrow> fst (snd f))
           in ((lower, upper), splay'))"

text \<open>
  A caller that got a pointer to an entry by a lookup writes the entry in place, without calling
  the splay code; the node is the one that bears the name, wherever it is.
\<close>

definition ite_write :: "mach_port \<Rightarrow> ('e \<Rightarrow> 'e) \<Rightarrow> 'e ite \<Rightarrow> 'e ite" where
  "ite_write name f a = (fst a, if fst a = name then f (snd a) else snd a)"

definition ist_write :: "'e ipc_splay_tree \<Rightarrow> mach_port \<Rightarrow> ('e \<Rightarrow> 'e) \<Rightarrow> 'e ipc_splay_tree" where
  "ist_write splay name f =
     splay\<lparr>ist_root := map_tree (ite_write name f) (ist_root splay),
           ist_ltree := map (map_prod (map_tree (ite_write name f)) (ite_write name f)) (ist_ltree splay),
           ist_rtree := map (map_prod (map_tree (ite_write name f)) (ite_write name f)) (ist_rtree splay)\<rparr>"

subsection \<open>The bindings in name order\<close>

fun ltree_list :: "'e spine \<Rightarrow> 'e ite list" where
  "ltree_list [] = []"
| "ltree_list ((t, a) # sp) = ltree_list sp @ inorder t @ [a]"

fun rtree_list :: "'e spine \<Rightarrow> 'e ite list" where
  "rtree_list [] = []"
| "rtree_list ((t, a) # sp) = a # inorder t @ rtree_list sp"

lemma inorder_ltree_fill [simp]: "inorder (ltree_fill sp t) = ltree_list sp @ inorder t"
  by (induction sp arbitrary: t) (auto split: prod.splits)

lemma inorder_rtree_fill [simp]: "inorder (rtree_fill sp t) = inorder t @ rtree_list sp"
  by (induction sp arbitrary: t) auto

lemma ltree_fill_Leaf [simp]: "ltree_fill sp t = Leaf \<longleftrightarrow> sp = [] \<and> t = Leaf"
  by (induction sp arbitrary: t) auto

lemma rtree_fill_Leaf [simp]: "rtree_fill sp t = Leaf \<longleftrightarrow> sp = [] \<and> t = Leaf"
  by (induction sp arbitrary: t) auto

definition zip_list :: "'e ite tree \<times> 'e spine \<times> 'e spine \<Rightarrow> 'e ite list" where
  "zip_list z = (case z of (t, L, R) \<Rightarrow> ltree_list L @ inorder t @ rtree_list R)"

definition splits_at :: "mach_port \<Rightarrow> 'e spine \<Rightarrow> 'e spine \<Rightarrow> bool" where
  "splits_at name L R \<longleftrightarrow>
     (\<forall>x \<in> set (ltree_list L). fst x < name) \<and> (\<forall>x \<in> set (rtree_list R). name < fst x)"

lemma splay_descend_left_Node:
  "splay_descend_left name (Node l a r) L R =
     (case l of Leaf \<Rightarrow> None | Node ll b lr \<Rightarrow>
       Some (if name < fst b \<and> ll \<noteq> Leaf then (ll, L, (Node lr a r, b) # R)
             else if fst b < name \<and> lr \<noteq> Leaf then (lr, (ll, b) # L, (r, a) # R)
             else (l, L, (r, a) # R)))"
  by (auto simp: splay_descend_left_def splay_macro_defs Let_def split: tree.splits)

lemma splay_descend_right_Node:
  "splay_descend_right name (Node l a r) L R =
     (case r of Leaf \<Rightarrow> None | Node rl b rr \<Rightarrow>
       Some (if fst b < name \<and> rr \<noteq> Leaf then (rr, (Node l a rl, b) # L, R)
             else if name < fst b \<and> rl \<noteq> Leaf then (rl, (l, a) # L, (rr, b) # R)
             else (r, (l, a) # L, R)))"
  by (auto simp: splay_descend_right_def splay_macro_defs Let_def split: tree.splits)

lemmas splay_step_eqs = splay_step_def splay_descend_left_Node splay_descend_right_Node

lemmas splits_at_simps = splits_at_def ltree_list.simps rtree_list.simps inorder.simps set_append
  ball_Un ball_simps list.set option.inject prod.inject tree.simps ite_name_Node if_True if_False

lemma splay_step_zip:
  assumes "splay_step name t L R = Some (t', L', R')"
  shows "zip_list (t', L', R') = zip_list (t, L, R) \<and> t' \<noteq> Leaf"
  using assms by (cases t) (auto simp: splay_step_eqs zip_list_def split: if_splits tree.splits)

lemma splay_step_splits_at:
  assumes "splay_step name t L R = Some (t', L', R')"
    and "sorted_keys (inorder t)" and "splits_at name L R"
  shows "splits_at name L' R'"
proof -
  obtain l a r where t: "t = Node l a r" and a: "name \<noteq> fst a"
    using assms(1) by (cases t) (auto simp: splay_step_def split: if_splits)
  have sort: "\<forall>x \<in> set (inorder l). fst x < fst a" "\<forall>x \<in> set (inorder r). fst a < fst x"
    using assms(2) t by (auto simp: sorted_wrt_append)
  have L: "\<forall>x \<in> set (ltree_list L). fst x < name" and R: "\<forall>x \<in> set (rtree_list R). name < fst x"
    using assms(3) by (auto simp: splits_at_def)
  show ?thesis
  proof (cases "name < fst a")
    case True
    with sort(2) have r: "\<forall>x \<in> set (inorder r). name < fst x" by (meson less_trans)
    from True assms(1) t a obtain ll b lr where l: "l = Node ll b lr"
      by (cases l) (simp_all add: splay_step_eqs)
    then have b: "\<forall>x \<in> set (inorder ll). fst x < fst b" "\<forall>x \<in> set (inorder lr). fst b < fst x"
      using assms(2) t by (auto simp: sorted_wrt_append)
    then have "name < fst b \<Longrightarrow> \<forall>x \<in> set (inorder lr). name < fst x"
      and "fst b < name \<Longrightarrow> \<forall>x \<in> set (inorder ll). fst x < name"
      by (meson less_trans)+
    with True a assms(1) t l L R r show ?thesis
      by (auto simp only: splay_step_eqs splits_at_simps split: if_splits)
  next
    case False
    with a have a': "fst a < name" by simp
    with sort(1) have l: "\<forall>x \<in> set (inorder l). fst x < name" by (meson less_trans)
    from False assms(1) t a obtain rl b rr where r: "r = Node rl b rr"
      by (cases r) (simp_all add: splay_step_eqs)
    then have b: "\<forall>x \<in> set (inorder rl). fst x < fst b" "\<forall>x \<in> set (inorder rr). fst b < fst x"
      using assms(2) t by (auto simp: sorted_wrt_append)
    then have "name < fst b \<Longrightarrow> \<forall>x \<in> set (inorder rr). name < fst x"
      and "fst b < name \<Longrightarrow> \<forall>x \<in> set (inorder rl). fst x < name"
      by (meson less_trans)+
    with False a' assms(1) t r L R l show ?thesis
      by (auto simp only: splay_step_eqs splits_at_simps split: if_splits)
  qed
qed

lemma splay_step_None:
  assumes "splay_step name t L R = None" and "t \<noteq> Leaf"
  shows "name < ite_name t \<Longrightarrow> left t = Leaf" and "ite_name t < name \<Longrightarrow> right t = Leaf"
  using assms by (auto simp: splay_step_def splay_descend_left_def splay_descend_right_def Let_def
      split: if_splits prod.splits)

lemma prim_lookup_unfold:
  "ipc_splay_prim_lookup name t L R =
     (case splay_step name t L R of None \<Rightarrow> (t, L, R)
      | Some (t', L', R') \<Rightarrow> ipc_splay_prim_lookup name t' L' R')"
  by (rule ipc_splay_prim_lookup.simps)

lemma prim_lookup_zip:
  "t \<noteq> Leaf \<Longrightarrow> ipc_splay_prim_lookup name t L R = (t', L', R') \<Longrightarrow>
   zip_list (t', L', R') = zip_list (t, L, R) \<and> t' \<noteq> Leaf"
proof (induction name t L R rule: ipc_splay_prim_lookup.induct)
  case (1 name t L R)
  show ?case
  proof (cases "splay_step name t L R")
    case None
    with "1.prems" show ?thesis by (simp add: prim_lookup_unfold [of name t])
  next
    case (Some z)
    then obtain t1 L1 R1 where z: "splay_step name t L R = Some (t1, L1, R1)" by (cases z) auto
    with "1.prems"(2) have "ipc_splay_prim_lookup name t1 L1 R1 = (t', L', R')"
      by (simp add: prim_lookup_unfold [of name t])
    with "1.IH" [OF z refl refl] splay_step_zip [OF z] show ?thesis by simp
  qed
qed

lemma sorted_keys_zipD: "sorted_keys (zip_list (t, L, R)) \<Longrightarrow> sorted_keys (inorder t)"
  by (simp add: zip_list_def sorted_wrt_append)

lemma prim_lookup_splits_at:
  "t \<noteq> Leaf \<Longrightarrow> ipc_splay_prim_lookup name t L R = (t', L', R') \<Longrightarrow>
   sorted_keys (zip_list (t, L, R)) \<Longrightarrow> splits_at name L R \<Longrightarrow>
   splits_at name L' R' \<and> (name < ite_name t' \<longrightarrow> left t' = Leaf) \<and> (ite_name t' < name \<longrightarrow> right t' = Leaf)"
proof (induction name t L R rule: ipc_splay_prim_lookup.induct)
  case (1 name t L R)
  show ?case
  proof (cases "splay_step name t L R")
    case None
    with "1.prems" splay_step_None [OF None "1.prems"(1)] show ?thesis
      by (simp add: prim_lookup_unfold [of name t])
  next
    case (Some z)
    then obtain t1 L1 R1 where z: "splay_step name t L R = Some (t1, L1, R1)" by (cases z) auto
    with "1.prems"(2) have "ipc_splay_prim_lookup name t1 L1 R1 = (t', L', R')"
      by (simp add: prim_lookup_unfold [of name t])
    with "1.IH" [OF z refl refl] splay_step_zip [OF z] "1.prems"
      splay_step_splits_at [OF z sorted_keys_zipD "1.prems"(4)] show ?thesis by simp
  qed
qed

text \<open>
  What a splay for \<open>name\<close> establishes, and what the structure keeps between operations for the
  name of the last one: the left tree holds smaller names, the right tree larger ones, and a root
  that is not \<open>name\<close> has no child on the side where \<open>name\<close> would be.
\<close>

definition focused :: "mach_port \<Rightarrow> 'e ite tree \<times> 'e spine \<times> 'e spine \<Rightarrow> bool" where
  "focused name z \<longleftrightarrow>
     (case z of (t, L, R) \<Rightarrow>
        t \<noteq> Leaf \<and> splits_at name L R \<and>
        (name < ite_name t \<longrightarrow> left t = Leaf) \<and> (ite_name t < name \<longrightarrow> right t = Leaf))"

definition ist_zip :: "'e ipc_splay_tree \<Rightarrow> 'e ite tree \<times> 'e spine \<times> 'e spine" where
  "ist_zip s = (ist_root s, ist_ltree s, ist_rtree s)"

definition ist_list :: "'e ipc_splay_tree \<Rightarrow> 'e ite list" where
  "ist_list s = (if ist_root s = Leaf then [] else zip_list (ist_zip s))"

definition ist_ok :: "'e ipc_splay_tree \<Rightarrow> bool" where
  "ist_ok s \<longleftrightarrow> sorted_keys (ist_list s) \<and> (ist_root s = Leaf \<or> focused (ist_name s) (ist_zip s))"

abbreviation ist_map :: "'e ipc_splay_tree \<Rightarrow> mach_port \<rightharpoonup> 'e" where
  "ist_map s \<equiv> map_of (ist_list s)"

lemma inorder_assemble:
  "t \<noteq> Leaf \<Longrightarrow> inorder (ipc_splay_prim_assemble t L R) = zip_list (t, L, R)"
  by (cases t) (simp_all add: ipc_splay_prim_assemble_def zip_list_def)

lemma assemble_Leaf_iff: "ipc_splay_prim_assemble t L R = Leaf \<longleftrightarrow> t = Leaf"
  by (cases t) (simp_all add: ipc_splay_prim_assemble_def)

lemma splits_at_Nil [simp]: "splits_at name [] []"
  by (simp add: splits_at_def)

lemma zip_list_Nil: "zip_list (t, [], []) = inorder t"
  by (simp add: zip_list_def)

lemma prim_lookup_focused:
  assumes "ipc_splay_prim_lookup name t [] [] = z" and "t \<noteq> Leaf" and "sorted_keys (inorder t)"
  shows "focused name z" and "zip_list z = inorder t"
proof -
  obtain t' L' R' where z: "z = (t', L', R')" by (cases z)
  with assms prim_lookup_zip [of t name "[]" "[]"] prim_lookup_splits_at [of t name "[]" "[]"]
  show "focused name z" and "zip_list z = inorder t"
    by (auto simp: focused_def zip_list_Nil)
qed

lemma focus_ok:
  assumes "ist_ok s" and "ist_root s \<noteq> Leaf" and "ipc_splay_focus s name = z"
  shows "focused name z" and "zip_list z = ist_list s"
proof -
  let ?t = "ipc_splay_prim_assemble (ist_root s) (ist_ltree s) (ist_rtree s)"
  have t: "?t \<noteq> Leaf" and io: "inorder ?t = ist_list s"
    using assms(2) by (simp_all add: assemble_Leaf_iff inorder_assemble ist_list_def ist_zip_def)
  have "focused name z \<and> zip_list z = ist_list s"
  proof (cases "ist_name s = name")
    case True
    with assms show ?thesis
      by (auto simp: ipc_splay_focus_def ist_ok_def ist_list_def ist_zip_def)
  next
    case False
    with assms have "ipc_splay_prim_lookup name ?t [] [] = z" by (simp add: ipc_splay_focus_def)
    from prim_lookup_focused [OF this t] io assms(1) show ?thesis by (simp add: ist_ok_def)
  qed
  then show "focused name z" and "zip_list z = ist_list s" by auto
qed

lemma focused_cases:
  assumes "focused name z" and "sorted_keys (zip_list z)"
  obtains l a r L R where "z = (Node l a r, L, R)"
    and "zip_list z = (ltree_list L @ inorder l) @ a # (inorder r @ rtree_list R)"
    and "\<forall>x \<in> set (ltree_list L @ inorder l). fst x < fst a \<and> fst x < name"
    and "\<forall>x \<in> set (inorder r @ rtree_list R). fst a < fst x \<and> name < fst x"
    and "name < fst a \<longrightarrow> l = Leaf" and "fst a < name \<longrightarrow> r = Leaf"
proof -
  obtain l a r L R where z: "z = (Node l a r, L, R)"
    using assms(1) by (cases z, cases "fst z") (auto simp: focused_def)
  have eq: "zip_list z = (ltree_list L @ inorder l) @ a # (inorder r @ rtree_list R)"
    by (simp add: z zip_list_def)
  have lt: "\<forall>x \<in> set (ltree_list L @ inorder l). fst x < fst a"
    and gt: "\<forall>x \<in> set (inorder r @ rtree_list R). fst a < fst x"
    using assms(2) unfolding eq by (auto simp: sorted_wrt_append)
  have f: "\<forall>x \<in> set (ltree_list L). fst x < name" "\<forall>x \<in> set (rtree_list R). name < fst x"
    "name < fst a \<longrightarrow> l = Leaf" "fst a < name \<longrightarrow> r = Leaf"
    using assms(1) z by (auto simp: focused_def splits_at_def)
  have l: "\<forall>x \<in> set (inorder l). fst x < name"
  proof (cases "name < fst a")
    case False
    with lt show ?thesis by (auto simp: not_less intro: less_le_trans)
  qed (simp add: f(3))
  have r: "\<forall>x \<in> set (inorder r). name < fst x"
  proof (cases "fst a < name")
    case False
    with gt show ?thesis by (auto simp: not_less intro: le_less_trans)
  qed (simp add: f(4))
  show thesis
    by (rule that [OF z eq _ _ f(3) f(4)]) (use lt gt l r f(1,2) in \<open>auto simp: ball_Un\<close>)
qed

lemma rooted_ok:
  assumes "ist_root s \<noteq> Leaf" and "ist_name s = ite_name (ist_root s)"
    and "ist_ltree s = []" and "ist_rtree s = []" and "sorted_keys (inorder (ist_root s))"
  shows "ist_ok s" and "ist_list s = inorder (ist_root s)"
  using assms by (auto simp: ist_ok_def ist_list_def ist_zip_def zip_list_Nil focused_def)

lemma set_root_ok:
  "sorted_keys (inorder t) \<Longrightarrow> ist_ok (ist_set_root s t)"
  "ist_list (ist_set_root s t) = inorder t"
  by (auto simp: ist_set_root_def ist_ok_def ist_list_def ist_zip_def zip_list_Nil focused_def)

lemma emptied_ok: "ist_ok (s\<lparr>ist_root := Leaf\<rparr>)" "ist_list (s\<lparr>ist_root := Leaf\<rparr>) = []"
  by (simp_all add: ist_ok_def ist_list_def)

lemma focus_cases:
  assumes "ist_ok s" and "ist_root s \<noteq> Leaf"
  obtains l a r L R where "ipc_splay_focus s name = (Node l a r, L, R)"
    and "focused name (Node l a r, L, R)"
    and "ist_list s = (ltree_list L @ inorder l) @ a # (inorder r @ rtree_list R)"
    and "\<forall>x \<in> set (ltree_list L @ inorder l). fst x < name"
    and "\<forall>x \<in> set (inorder r @ rtree_list R). name < fst x"
    and "name < fst a \<longrightarrow> l = Leaf" and "fst a < name \<longrightarrow> r = Leaf"
proof -
  obtain z where z: "ipc_splay_focus s name = z" by simp
  note foc = focus_ok [OF assms z]
  have sorted: "sorted_keys (zip_list z)" using assms(1) foc(2) by (simp add: ist_ok_def)
  from foc(1) sorted show thesis
  proof (rule focused_cases)
    fix l a r L R
    assume zz: "z = (Node l a r, L, R)"
      and eq: "zip_list z = (ltree_list L @ inorder l) @ a # (inorder r @ rtree_list R)"
      and b: "\<forall>x \<in> set (ltree_list L @ inorder l). fst x < fst a \<and> fst x < name"
        "\<forall>x \<in> set (inorder r @ rtree_list R). fst a < fst x \<and> name < fst x"
      and leaf: "name < fst a \<longrightarrow> l = Leaf" "fst a < name \<longrightarrow> r = Leaf"
    show thesis
      by (rule that [OF z [unfolded zz] foc(1) [unfolded zz] eq [unfolded foc(2)] _ _ leaf])
        (use b in blast)+
  qed
qed

subsection \<open>Correctness of the operations\<close>

lemma splay_lookup:
  assumes "ist_ok s"
  shows "fst (ipc_splay_tree_lookup s name) = ist_map s name"
    and "ist_list (snd (ipc_splay_tree_lookup s name)) = ist_list s"
    and "ist_ok (snd (ipc_splay_tree_lookup s name))"
proof -
  let ?r = "ipc_splay_tree_lookup s name"
  have "fst ?r = ist_map s name \<and> ist_list (snd ?r) = ist_list s \<and> ist_ok (snd ?r)"
  proof (cases "ist_root s = Leaf")
    case True
    with assms show ?thesis by (simp add: ipc_splay_tree_lookup_def ist_list_def)
  next
    case False
    from assms False obtain l a r L R where z: "ipc_splay_focus s name = (Node l a r, L, R)"
      and foc: "focused name (Node l a r, L, R)"
      and eq: "ist_list s = (ltree_list L @ inorder l) @ a # (inorder r @ rtree_list R)"
      and b: "\<forall>x \<in> set (ltree_list L @ inorder l). fst x < name"
        "\<forall>x \<in> set (inorder r @ rtree_list R). name < fst x"
      by (rule focus_cases [where name = name])
    have "ist_map s name = (if fst a = name then Some (snd a) else None)"
      unfolding eq by (rule map_of_middle [OF b])
    moreover have "?r = (if name \<noteq> fst a then None else Some (snd a),
        s\<lparr>ist_name := name, ist_root := Node l a r, ist_ltree := L, ist_rtree := R\<rparr>)"
      using False z by (simp add: ipc_splay_tree_lookup_def)
    ultimately show ?thesis
      using foc eq assms by (auto simp: ist_list_def ist_zip_def ist_ok_def zip_list_def)
  qed
  then show "fst ?r = ist_map s name" "ist_list (snd ?r) = ist_list s" "ist_ok (snd ?r)" by auto
qed

lemma splay_insert:
  assumes "ist_ok s" and "ist_map s name = None"
  shows "\<exists>s'. ipc_splay_tree_insert s name e = Some s' \<and> ist_ok s' \<and>
    ist_list s' = filter (\<lambda>x. fst x < name) (ist_list s) @ (name, e) #
                  filter (\<lambda>x. name < fst x) (ist_list s)"
proof -
  have "\<exists>s'. ipc_splay_tree_insert s name e = Some s' \<and> ist_root s' \<noteq> Leaf \<and>
     ist_name s' = ite_name (ist_root s') \<and> ist_ltree s' = [] \<and> ist_rtree s' = [] \<and>
    inorder (ist_root s') = filter (\<lambda>x. fst x < name) (ist_list s) @ (name, e) #
                  filter (\<lambda>x. name < fst x) (ist_list s)"
  proof (cases "ist_root s = Leaf")
    case True
    then show ?thesis by (simp add: ipc_splay_tree_insert_def ist_list_def)
  next
    case False
    from assms(1) False obtain l a r L R where z: "ipc_splay_focus s name = (Node l a r, L, R)"
      and foc: "focused name (Node l a r, L, R)"
      and eq: "ist_list s = (ltree_list L @ inorder l) @ a # (inorder r @ rtree_list R)"
      and b: "\<forall>x \<in> set (ltree_list L @ inorder l). fst x < name"
        "\<forall>x \<in> set (inorder r @ rtree_list R). name < fst x"
      and leaf: "name < fst a \<longrightarrow> l = Leaf" "fst a < name \<longrightarrow> r = Leaf"
      by (rule focus_cases [where name = name])
    have na: "fst a \<noteq> name"
      using assms(2) unfolding eq map_of_middle [OF b] by (auto split: if_splits)
    show ?thesis
    proof (cases "name < fst a")
      case True
      with False z na leaf(1) show ?thesis
        unfolding eq filter_middle [OF b] by (simp add: ipc_splay_tree_insert_def)
    next
      case nlt: False
      with na have "fst a < name" by simp
      with False z na leaf(2) nlt show ?thesis
        unfolding eq filter_middle [OF b] by (simp add: ipc_splay_tree_insert_def)
    qed
  qed
  then obtain s' where s': "ipc_splay_tree_insert s name e = Some s'" "ist_root s' \<noteq> Leaf"
    "ist_name s' = ite_name (ist_root s')" "ist_ltree s' = []" "ist_rtree s' = []"
    and io: "inorder (ist_root s') = filter (\<lambda>x. fst x < name) (ist_list s) @ (name, e) #
                  filter (\<lambda>x. name < fst x) (ist_list s)"
    by blast
  moreover have "sorted_keys (inorder (ist_root s'))"
    using assms(1) sorted_keys_insert [of "ist_list s" name e] io by (simp add: ist_ok_def)
  ultimately show ?thesis using rooted_ok [of s'] by auto
qed

lemma le_largest: "\<not> MACH_PORT_LARGEST < (x :: mach_port)"
  by (simp add: MACH_PORT_LARGEST_def not_less)

lemma ge_smallest: "\<not> (x :: mach_port) < MACH_PORT_SMALLEST"
  by (simp add: MACH_PORT_SMALLEST_def)

lemma prim_lookup_largest:
  assumes "ipc_splay_prim_lookup MACH_PORT_LARGEST t [] [] = (rt, lt, rr)"
    and "t \<noteq> Leaf" and "sorted_keys (inorder t)"
  shows "right (ipc_splay_prim_assemble rt lt rr) = Leaf"
    and "inorder (ipc_splay_prim_assemble rt lt rr) = inorder t"
proof -
  note foc = prim_lookup_focused [OF assms(1) assms(2,3)]
  have "sorted_keys (zip_list (rt, lt, rr))" using foc(2) assms(3) by simp
  with foc(1) obtain l a r L R where z: "(rt, lt, rr) = (Node l a r, L, R)"
    and "\<forall>x \<in> set (inorder r @ rtree_list R). fst a < fst x \<and> MACH_PORT_LARGEST < fst x"
    by (rule focused_cases)
  then have "inorder r @ rtree_list R = []" using le_largest by (metis hd_in_set)
  then have "inorder (right (ipc_splay_prim_assemble rt lt rr)) = []"
    using z by (simp add: ipc_splay_prim_assemble_def)
  then show "right (ipc_splay_prim_assemble rt lt rr) = Leaf" by simp
  show "inorder (ipc_splay_prim_assemble rt lt rr) = inorder t"
    using foc z inorder_assemble [of rt lt rr] by simp
qed

lemma splay_delete:
  assumes "ist_ok s" and "ist_map s name \<noteq> None"
  shows "\<exists>s'. ipc_splay_tree_delete s name = Some s' \<and> ist_ok s' \<and>
    ist_list s' = filter (\<lambda>x. fst x \<noteq> name) (ist_list s)"
proof -
  have ne: "ist_root s \<noteq> Leaf" using assms(2) by (auto simp: ist_list_def)
  from assms(1) ne obtain l a r L R where z: "ipc_splay_focus s name = (Node l a r, L, R)"
    and foc: "focused name (Node l a r, L, R)"
    and eq: "ist_list s = (ltree_list L @ inorder l) @ a # (inorder r @ rtree_list R)"
    and b: "\<forall>x \<in> set (ltree_list L @ inorder l). fst x < name"
      "\<forall>x \<in> set (inorder r @ rtree_list R). name < fst x"
    by (rule focus_cases [where name = name])
  have a: "fst a = name"
    using assms(2) unfolding eq map_of_middle [OF b] by (auto split: if_splits)
  let ?root = "ltree_fill L l" and ?saved = "rtree_fill R r"
  have fil: "filter (\<lambda>x. fst x \<noteq> name) (ist_list s) = inorder ?root @ inorder ?saved"
    unfolding eq filter_middle [OF b] using a by simp
  have sorted: "sorted_keys (inorder ?root @ inorder ?saved)"
    using assms(1) unfolding fil [symmetric]
    by (auto simp: ist_ok_def sorted_wrt_map sorted_wrt_filter)
  have "\<exists>t. ipc_splay_tree_delete s name = Some (ist_set_root s t) \<and>
    inorder t = inorder ?root @ inorder ?saved"
  proof (cases "?root = Leaf \<or> ?saved = Leaf")
    case True
    with ne z a show ?thesis
      by (intro exI [of _ "if ?root = Leaf then ?saved else ?root"])
        (auto simp: ipc_splay_tree_delete_def Let_def)
  next
    case False
    obtain rt lt rr where lk: "ipc_splay_prim_lookup MACH_PORT_LARGEST ?root [] [] = (rt, lt, rr)"
      by (metis prod_cases3)
    let ?t = "ipc_splay_prim_assemble rt lt rr"
    have "right ?t = Leaf" and io: "inorder ?t = inorder ?root"
      using prim_lookup_largest [OF lk] False sorted by (simp_all add: sorted_wrt_append)
    moreover from lk False have "?t \<noteq> Leaf"
      using prim_lookup_zip [OF _ lk] by (simp add: assemble_Leaf_iff)
    ultimately show ?thesis using False ne z a lk
      by (intro exI [of _ "Node (left ?t) (value ?t) ?saved"], cases ?t)
        (auto simp: ipc_splay_tree_delete_def Let_def)
  qed
  with sorted fil set_root_ok show ?thesis by metis
qed

lemma splay_split:
  assumes "ist_ok s"
  shows "\<exists>s' small. ipc_splay_tree_split s name small0 = Some (s', small) \<and>
    ist_ok s' \<and> ist_ok small \<and>
    ist_list s' = filter (\<lambda>x. name \<le> fst x) (ist_list s) \<and>
    ist_list small = filter (\<lambda>x. fst x < name) (ist_list s)"
proof (cases "ist_root s = Leaf")
  case True
  with assms show ?thesis
    by (simp add: ipc_splay_tree_split_def ipc_splay_tree_init_def ist_list_def ist_ok_def)
next
  case False
  from assms False obtain l a r L R where z: "ipc_splay_focus s name = (Node l a r, L, R)"
    and foc: "focused name (Node l a r, L, R)"
    and eq: "ist_list s = (ltree_list L @ inorder l) @ a # (inorder r @ rtree_list R)"
    and b: "\<forall>x \<in> set (ltree_list L @ inorder l). fst x < name"
      "\<forall>x \<in> set (inorder r @ rtree_list R). name < fst x"
    and leaf: "name < fst a \<longrightarrow> l = Leaf" "fst a < name \<longrightarrow> r = Leaf"
    by (rule focus_cases [where name = name])
  have sorted: "sorted_keys ((ltree_list L @ inorder l) @ a # (inorder r @ rtree_list R))"
    using assms eq by (simp add: ist_ok_def)
  show ?thesis
  proof (cases "fst a < name")
    case True
    let ?s = "ist_set_root s (rtree_fill R Leaf)"
    let ?small = "ist_set_root (ipc_splay_tree_init small0) (Node (ltree_fill L l) a Leaf)"
    have "ipc_splay_tree_split s name small0 = Some (?s, ?small)"
      using False True z leaf(2) by (simp add: ipc_splay_tree_split_def)
    moreover have "ist_ok ?s" and "ist_ok ?small"
      by (rule set_root_ok(1), use sorted leaf(2) True in \<open>simp add: sorted_wrt_append\<close>)+
    ultimately show ?thesis
      using True leaf(2) unfolding eq filter_middle [OF b] by (simp add: set_root_ok(2))
  next
    case nlt: False
    let ?s = "s\<lparr>ist_root := Node Leaf a r, ist_name := name, ist_ltree := [], ist_rtree := R\<rparr>"
    let ?small = "ist_set_root (ipc_splay_tree_init small0) (ltree_fill L l)"
    have "ipc_splay_tree_split s name small0 = Some (?s, ?small)"
      using False nlt z by (simp add: ipc_splay_tree_split_def)
    moreover have "ist_ok ?small"
      by (rule set_root_ok(1)) (use sorted in \<open>simp add: sorted_wrt_append\<close>)
    moreover have "ist_ok ?s" and "ist_list ?s = a # inorder r @ rtree_list R"
      using foc nlt sorted
      by (auto simp: ist_ok_def ist_list_def ist_zip_def zip_list_def focused_def splits_at_def
          sorted_wrt_append)
    ultimately show ?thesis
      using nlt unfolding eq filter_middle [OF b] by (simp add: set_root_ok(2) not_less)
  qed
qed

lemma prim_lookup_smallest:
  assumes "ist_ok s" and "ist_root s \<noteq> Leaf"
    and "ipc_splay_focus s MACH_PORT_SMALLEST = (rt, lt, rr)"
  shows "left (ipc_splay_prim_assemble rt lt rr) = Leaf"
    and "inorder (ipc_splay_prim_assemble rt lt rr) = ist_list s"
    and "ipc_splay_prim_assemble rt lt rr \<noteq> Leaf"
proof -
  from assms(1,2) obtain l a r L R
    where z: "ipc_splay_focus s MACH_PORT_SMALLEST = (Node l a r, L, R)"
    and eq: "ist_list s = (ltree_list L @ inorder l) @ a # (inorder r @ rtree_list R)"
    and b: "\<forall>x \<in> set (ltree_list L @ inorder l). fst x < MACH_PORT_SMALLEST"
    by (rule focus_cases [where name = MACH_PORT_SMALLEST])
  from b have "ltree_list L @ inorder l = []" using ge_smallest by (metis hd_in_set)
  then have "inorder (ltree_fill L l) = []" by simp
  then have "ltree_fill L l = Leaf" by (simp del: inorder_ltree_fill ltree_fill_Leaf)
  with z assms(3) show "left (ipc_splay_prim_assemble rt lt rr) = Leaf"
    by (simp add: ipc_splay_prim_assemble_def)
  show "inorder (ipc_splay_prim_assemble rt lt rr) = ist_list s"
    using z assms(3) eq by (simp add: ipc_splay_prim_assemble_def)
  show "ipc_splay_prim_assemble rt lt rr \<noteq> Leaf"
    using z assms(3) by (simp add: ipc_splay_prim_assemble_def)
qed

lemma splay_join:
  assumes "ist_ok s" and "ist_ok small"
    and "\<forall>x \<in> set (ist_list small). \<forall>y \<in> set (ist_list s). fst x < fst y"
  shows "\<exists>s' small'. ipc_splay_tree_join s small = Some (s', small') \<and>
    ist_ok s' \<and> ist_ok small' \<and> ist_list s' = ist_list small @ ist_list s \<and> ist_list small' = []"
proof (cases "ist_root small = Leaf")
  case True
  with assms show ?thesis
    by (simp add: ipc_splay_tree_join_def ipc_splay_prim_assemble_def ist_list_def ist_ok_def)
next
  case False
  let ?sroot = "ipc_splay_prim_assemble (ist_root small) (ist_ltree small) (ist_rtree small)"
  let ?small = "small\<lparr>ist_root := Leaf\<rparr>"
  have sr: "?sroot \<noteq> Leaf" "inorder ?sroot = ist_list small"
    using False by (simp_all add: assemble_Leaf_iff inorder_assemble ist_list_def ist_zip_def)
  have sorted: "sorted_keys (ist_list small @ ist_list s)"
    using assms by (auto simp: ist_ok_def sorted_wrt_append)
  have "\<exists>root. ipc_splay_tree_join s small = Some (ist_set_root s root, ?small) \<and>
    inorder root = ist_list small @ ist_list s"
  proof (cases "ist_root s = Leaf")
    case True
    with sr show ?thesis
      by (intro exI [of _ ?sroot]) (simp add: ipc_splay_tree_join_def ist_list_def)
  next
    case ne: False
    obtain rt lt rr where z: "ipc_splay_focus s MACH_PORT_SMALLEST = (rt, lt, rr)"
      by (metis prod_cases3)
    note t = prim_lookup_smallest [OF assms(1) ne z]
    let ?t = "ipc_splay_prim_assemble rt lt rr"
    obtain a r where ta: "?t = Node Leaf a r" using t(1,3) by (cases ?t) auto
    obtain sl sa sr' where sa: "?sroot = Node sl sa sr'" using sr(1) by (cases ?sroot) auto
    have "sa \<in> set (ist_list small)" and "a \<in> set (ist_list s)"
      using sr(2) t(2) sa ta by (auto simp flip: sr(2) t(2))
    with assms(3) have "fst sa < fst a" by blast
    with ne z ta sa t(2) sr(2) show ?thesis
      by (intro exI [of _ "Node ?sroot a r"]) (simp add: ipc_splay_tree_join_def)
  qed
  with sorted show ?thesis using set_root_ok emptied_ok [of small] by metis
qed

subsection \<open>Bounds\<close>

definition greatest_le :: "mach_port set \<Rightarrow> mach_port \<Rightarrow> mach_port \<Rightarrow> bool" where
  "greatest_le K name k \<longleftrightarrow> k \<in> K \<and> k \<le> name \<and> (\<forall>k' \<in> K. k' \<le> name \<longrightarrow> k' \<le> k)"

definition least_ge :: "mach_port set \<Rightarrow> mach_port \<Rightarrow> mach_port \<Rightarrow> bool" where
  "least_ge K name k \<longleftrightarrow> k \<in> K \<and> name \<le> k \<and> (\<forall>k' \<in> K. name \<le> k' \<longrightarrow> k \<le> k')"

definition is_lower :: "mach_port set \<Rightarrow> mach_port \<Rightarrow> mach_port \<Rightarrow> bool" where
  "is_lower K name k \<longleftrightarrow>
     (if \<exists>k \<in> K. k \<le> name then greatest_le K name k else k = MACH_PORT_LARGEST)"

definition is_upper :: "mach_port set \<Rightarrow> mach_port \<Rightarrow> mach_port \<Rightarrow> bool" where
  "is_upper K name k \<longleftrightarrow>
     (if \<exists>k \<in> K. name \<le> k then least_ge K name k else k = MACH_PORT_SMALLEST)"

lemma is_lowerI: "greatest_le K name k \<Longrightarrow> is_lower K name k"
  by (auto simp: is_lower_def greatest_le_def)

lemma is_upperI: "least_ge K name k \<Longrightarrow> is_upper K name k"
  by (auto simp: is_upper_def least_ge_def)

lemma lower_of_focus:
  assumes "sorted_keys ((ltree_list L @ inorder l) @ a # ys)"
    and "\<forall>x \<in> set ys. name < fst x" and "name < fst a \<longrightarrow> l = Leaf"
    and "\<forall>x \<in> set (ltree_list L @ inorder l). fst x < name"
  shows "is_lower (fst ` set ((ltree_list L @ inorder l) @ a # ys)) name
    (if fst a \<le> name then fst a else case L of [] \<Rightarrow> MACH_PORT_LARGEST | f # _ \<Rightarrow> fst (snd f))"
    (is "is_lower ?K name _")
proof (cases "fst a \<le> name")
  case True
  then have "greatest_le ?K name (fst a)"
    using assms(1,2) by (auto simp: greatest_le_def sorted_wrt_append ball_Un dest: less_imp_le leD)
  with True show ?thesis by (simp add: is_lowerI)
next
  case False
  then have l: "l = Leaf" using assms(3) by simp
  show ?thesis
  proof (cases L)
    case Nil
    with False l assms(2) show ?thesis by (auto simp: is_lower_def not_le)
  next
    case (Cons f L')
    obtain t c where f: "f = (t, c)" by (cases f)
    have "greatest_le ?K name (fst c)"
      using assms False l Cons f
      by (auto simp: greatest_le_def sorted_wrt_append ball_Un not_le dest: less_imp_le leD)
    with False Cons f show ?thesis by (simp add: is_lowerI)
  qed
qed

lemma upper_of_focus:
  assumes "sorted_keys (xs @ a # (inorder r @ rtree_list R))"
    and "\<forall>x \<in> set xs. fst x < name" and "fst a < name \<longrightarrow> r = Leaf"
    and "\<forall>x \<in> set (inorder r @ rtree_list R). name < fst x"
  shows "is_upper (fst ` set (xs @ a # (inorder r @ rtree_list R))) name
    (if name \<le> fst a then fst a else case R of [] \<Rightarrow> MACH_PORT_SMALLEST | f # _ \<Rightarrow> fst (snd f))"
    (is "is_upper ?K name _")
proof (cases "name \<le> fst a")
  case True
  then have "least_ge ?K name (fst a)"
    using assms(1,2) by (auto simp: least_ge_def sorted_wrt_append ball_Un dest: less_imp_le leD)
  with True show ?thesis by (simp add: is_upperI)
next
  case False
  then have r: "r = Leaf" using assms(3) by simp
  show ?thesis
  proof (cases R)
    case Nil
    with False r assms(2) show ?thesis by (auto simp: is_upper_def not_le)
  next
    case (Cons f R')
    obtain t c where f: "f = (t, c)" by (cases f)
    have "least_ge ?K name (fst c)"
      using assms False r Cons f
      by (auto simp: least_ge_def sorted_wrt_append ball_Un not_le dest: less_imp_le leD)
    with False Cons f show ?thesis by (simp add: is_upperI)
  qed
qed

lemma splay_bounds:
  assumes "ist_ok s" and "ipc_splay_tree_bounds s name = ((lower, upper), s')"
  shows "is_lower (dom (ist_map s)) name lower" and "is_upper (dom (ist_map s)) name upper"
    and "ist_ok s'" and "ist_list s' = ist_list s"
proof -
  have "is_lower (dom (ist_map s)) name lower \<and> is_upper (dom (ist_map s)) name upper \<and>
    ist_ok s' \<and> ist_list s' = ist_list s"
  proof (cases "ist_root s = Leaf")
    case True
    with assms show ?thesis
      by (auto simp: ipc_splay_tree_bounds_def ist_list_def is_lower_def is_upper_def)
  next
    case False
    from assms(1) False obtain l a r L R where z: "ipc_splay_focus s name = (Node l a r, L, R)"
      and foc: "focused name (Node l a r, L, R)"
      and eq: "ist_list s = (ltree_list L @ inorder l) @ a # (inorder r @ rtree_list R)"
      and b: "\<forall>x \<in> set (ltree_list L @ inorder l). fst x < name"
        "\<forall>x \<in> set (inorder r @ rtree_list R). name < fst x"
      and leaf: "name < fst a \<longrightarrow> l = Leaf" "fst a < name \<longrightarrow> r = Leaf"
      by (rule focus_cases [where name = name])
    have sorted: "sorted_keys ((ltree_list L @ inorder l) @ a # (inorder r @ rtree_list R))"
      using assms(1) eq by (simp add: ist_ok_def)
    have s': "s' = s\<lparr>ist_name := name, ist_root := Node l a r, ist_ltree := L, ist_rtree := R\<rparr>"
      and lo: "lower = (if fst a \<le> name then fst a
        else case L of [] \<Rightarrow> MACH_PORT_LARGEST | f # _ \<Rightarrow> fst (snd f))"
      and up: "upper = (if name \<le> fst a then fst a
        else case R of [] \<Rightarrow> MACH_PORT_SMALLEST | f # _ \<Rightarrow> fst (snd f))"
      using assms(2) False z by (auto simp: ipc_splay_tree_bounds_def Let_def)
    have "ist_ok s' \<and> ist_list s' = ist_list s"
      using foc eq assms(1) by (simp add: s' ist_list_def ist_zip_def ist_ok_def zip_list_def)
    with lower_of_focus [OF sorted b(2) leaf(1) b(1)] upper_of_focus [OF sorted b(1) leaf(2) b(2)]
    show ?thesis unfolding lo up dom_map_of_conv_image_fst eq by simp
  qed
  then show "is_lower (dom (ist_map s)) name lower" and "is_upper (dom (ist_map s)) name upper"
    and "ist_ok s'" and "ist_list s' = ist_list s" by blast+
qed

subsection \<open>Writing an entry in place\<close>

lemma ite_write_fst [simp]: "fst (ite_write name f a) = fst a"
  by (simp add: ite_write_def)

lemma ltree_list_map: "ltree_list (map (map_prod (map_tree g) g) sp) = map g (ltree_list sp)"
  by (induction sp rule: ltree_list.induct) (auto simp: inorder_map)

lemma rtree_list_map: "rtree_list (map (map_prod (map_tree g) g) sp) = map g (rtree_list sp)"
  by (induction sp rule: rtree_list.induct) (auto simp: inorder_map)

lemma map_of_ite_write:
  "map_of (map (ite_write name f) xs) = (map_of xs)(name := map_option f (map_of xs name))"
  by (induction xs) (auto simp: ite_write_def fun_eq_iff)

lemma ist_list_write: "ist_list (ist_write s name f) = map (ite_write name f) (ist_list s)"
  by (simp add: ist_list_def ist_zip_def ist_write_def zip_list_def ltree_list_map rtree_list_map
      inorder_map)

lemma ist_write_root_name:
  "ist_root (ist_write s name f) = Leaf \<longleftrightarrow> ist_root s = Leaf"
  "ist_name (ist_write s name f) = ist_name s"
  by (simp_all add: ist_write_def)

lemma fst_comp_ite_write [simp]: "fst \<circ> ite_write name f = fst"
  by (simp add: fun_eq_iff)

lemma splay_write:
  assumes "ist_ok s"
  shows "ist_ok (ist_write s name f)"
    and "ist_map (ist_write s name f) = (ist_map s)(name := map_option f (ist_map s name))"
proof -
  have "ist_root s \<noteq> Leaf \<Longrightarrow> focused (ist_name s) (ist_zip (ist_write s name f))"
    using assms
    by (cases "ist_root s")
      (auto simp: ist_ok_def focused_def ist_zip_def ist_write_def splits_at_def ltree_list_map
        rtree_list_map)
  with assms show "ist_ok (ist_write s name f)"
    by (auto simp: ist_ok_def ist_list_write ist_write_root_name)
  show "ist_map (ist_write s name f) = (ist_map s)(name := map_option f (ist_map s name))"
    by (simp add: ist_list_write map_of_ite_write)
qed

subsection \<open>The name-map contract\<close>

lemma splay_insert_present:
  assumes "ist_ok s" and "ist_map s name \<noteq> None"
  shows "ipc_splay_tree_insert s name e = None"
proof -
  have ne: "ist_root s \<noteq> Leaf" using assms(2) by (auto simp: ist_list_def)
  from assms(1) ne obtain l a r L R where z: "ipc_splay_focus s name = (Node l a r, L, R)"
    and eq: "ist_list s = (ltree_list L @ inorder l) @ a # (inorder r @ rtree_list R)"
    and b: "\<forall>x \<in> set (ltree_list L @ inorder l). fst x < name"
      "\<forall>x \<in> set (inorder r @ rtree_list R). name < fst x"
    by (rule focus_cases [where name = name])
  have "fst a = name"
    using assms(2) unfolding eq map_of_middle [OF b] by (auto split: if_splits)
  with ne z show ?thesis by (simp add: ipc_splay_tree_insert_def assert_that_def)
qed

lemma splay_delete_absent:
  assumes "ist_ok s" and "ist_map s name = None"
  shows "ipc_splay_tree_delete s name = None"
proof (cases "ist_root s = Leaf")
  case True
  then show ?thesis by (simp add: ipc_splay_tree_delete_def assert_that_def)
next
  case False
  from assms(1) False obtain l a r L R where z: "ipc_splay_focus s name = (Node l a r, L, R)"
    and eq: "ist_list s = (ltree_list L @ inorder l) @ a # (inorder r @ rtree_list R)"
    and b: "\<forall>x \<in> set (ltree_list L @ inorder l). fst x < name"
      "\<forall>x \<in> set (inorder r @ rtree_list R). name < fst x"
    by (rule focus_cases [where name = name])
  have "fst a \<noteq> name"
    using assms(2) unfolding eq map_of_middle [OF b] by (auto split: if_splits)
  with z False show ?thesis by (simp add: ipc_splay_tree_delete_def assert_that_def Let_def)
qed

interpretation ist: name_map ist_ok ist_map ipc_splay_tree_lookup ipc_splay_tree_insert
  ipc_splay_tree_delete
proof
  fix t :: "'e ipc_splay_tree" and name r t' e
  assume ok: "ist_ok t"
  show "r = ist_map t name \<and> ist_ok t' \<and> ist_map t' = ist_map t"
    if "ipc_splay_tree_lookup t name = (r, t')"
    using splay_lookup [OF ok, of name] that by simp
  show "\<exists>t'. ipc_splay_tree_insert t name e = Some t' \<and> ist_ok t' \<and> ist_map t' = (ist_map t)(name \<mapsto> e)"
    if "ist_map t name = None"
    using splay_insert [OF ok that, of e] map_of_insert_keys [OF that, of e] by auto
  show "ipc_splay_tree_insert t name e = None" if "ist_map t name \<noteq> None"
    by (rule splay_insert_present [OF ok that])
  show "\<exists>t'. ipc_splay_tree_delete t name = Some t' \<and> ist_ok t' \<and> ist_map t' = (ist_map t)(name := None)"
    if "ist_map t name \<noteq> None"
    using splay_delete [OF ok that] map_of_delete_keys [of name "ist_list t"] by auto
  show "ipc_splay_tree_delete t name = None" if "ist_map t name = None"
    by (rule splay_delete_absent [OF ok that])
qed

subsection \<open>Properties\<close>

text \<open>A small tree left unassembled by a lookup of 7, for the witnesses.\<close>

definition splay_example :: "nat ipc_splay_tree" where
  "splay_example = \<lparr>ist_name = 7, ist_root = Node Leaf (7, 70) Leaf,
     ist_ltree = [(Leaf, (3, 30))], ist_rtree = [(Leaf, (9, 90))]\<rparr>"

lemma splay_example_ok: "ist_ok splay_example" "ist_list splay_example = [(3, 30), (7, 70), (9, 90)]"
  by (simp_all add: splay_example_def ist_ok_def ist_list_def ist_zip_def zip_list_def focused_def
      splits_at_def)

text \<open>
  C38. Any sequence of lookups, insertions and deletions on a well-formed splay tree gives the
  results, and leaves the bindings, that it gives on a plain map; it fails (an assertion of the C
  code) exactly where an insertion meets a name that is present or a deletion one that is absent.
\<close>

theorem splay_refines_map:
  assumes "ist_ok s"
  shows "map_option (map_prod id ist_map)
      (run_cmds ipc_splay_tree_lookup ipc_splay_tree_insert ipc_splay_tree_delete cs s) =
    map_cmds cs (ist_map s)"
  by (rule ist.run_cmds_refines [OF assms])

theorem splay_refines_map_witness:
  "map_option (map_prod id ist_map)
     (run_cmds ipc_splay_tree_lookup ipc_splay_tree_insert ipc_splay_tree_delete
       [Cmd_insert 5 50, Cmd_lookup 9, Cmd_delete 7, Cmd_lookup 7, Cmd_insert 8 80, Cmd_delete 3]
       splay_example) =
   Some ([None, Some 90, None, None, None, None], [5 \<mapsto> 50, 8 \<mapsto> 80, 9 \<mapsto> 90])"
  unfolding splay_refines_map [OF splay_example_ok(1)] splay_example_ok(2)
  by (simp add: fun_eq_iff)

text \<open>
  Splitting a well-formed tree at a name puts exactly the smaller bindings into the small tree
  and keeps the others, and joining the two afterwards restores the tree's bindings and empties the
  small tree; no assertion of the C code fails on the way.
\<close>

theorem splay_split_join:
  assumes "ist_ok s"
  shows "\<exists>s1 small1 s2 small2.
    ipc_splay_tree_split s name small0 = Some (s1, small1) \<and>
    ist_list s1 = filter (\<lambda>x. name \<le> fst x) (ist_list s) \<and>
    ist_list small1 = filter (\<lambda>x. fst x < name) (ist_list s) \<and>
    ipc_splay_tree_join s1 small1 = Some (s2, small2) \<and>
    ist_ok s2 \<and> ist_list s2 = ist_list s \<and> ist_list small2 = []"
proof -
  obtain s1 small1 where sp: "ipc_splay_tree_split s name small0 = Some (s1, small1)"
    "ist_ok s1" "ist_ok small1" "ist_list s1 = filter (\<lambda>x. name \<le> fst x) (ist_list s)"
    "ist_list small1 = filter (\<lambda>x. fst x < name) (ist_list s)"
    using splay_split [OF assms, of name small0] by blast
  have "\<forall>x \<in> set (ist_list small1). \<forall>y \<in> set (ist_list s1). fst x < fst y"
    using sp(4,5) by (auto intro: less_le_trans)
  moreover have "ist_list small1 @ ist_list s1 = ist_list s"
    using assms sp(4,5) by (simp add: ist_ok_def sorted_keys_partition)
  ultimately show ?thesis using splay_join [OF sp(2,3)] sp by metis
qed

theorem splay_split_join_witness:
  "\<exists>s1 small1 s2 small2.
    ipc_splay_tree_split splay_example 8 splay_example = Some (s1, small1) \<and>
    ist_list s1 = [(9, 90)] \<and> ist_list small1 = [(3, 30), (7, 70)] \<and>
    ipc_splay_tree_join s1 small1 = Some (s2, small2) \<and>
    ist_ok s2 \<and> ist_list s2 = [(3, 30), (7, 70), (9, 90)] \<and> ist_list small2 = []"
  using splay_split_join [OF splay_example_ok(1), of 8 splay_example]
  by (simp add: splay_example_ok(2))

text \<open>
  The bounds query returns the largest name present that is at most the given one, or ~0 if
  there is none, and the smallest that is at least the given one, or 0; it changes no binding. In
  particular the pointer arithmetic that recovers an entry from a pointer into it reads the entry
  nearest to the name.
\<close>

theorem splay_bounds_tight:
  assumes "ist_ok s" and "ipc_splay_tree_bounds s name = ((lower, upper), s')"
  shows "is_lower (dom (ist_map s)) name lower \<and> is_upper (dom (ist_map s)) name upper \<and>
    ist_ok s' \<and> ist_list s' = ist_list s"
  using splay_bounds [OF assms] by blast

theorem splay_bounds_tight_witness:
  "ipc_splay_tree_bounds splay_example 8 =
     ((7, 9), snd (ipc_splay_tree_bounds splay_example 8)) \<and>
   is_lower (dom (ist_map splay_example)) 8 7 \<and> is_upper (dom (ist_map splay_example)) 8 9"
proof -
  have "ipc_splay_tree_bounds splay_example 8 =
     ((7, 9), snd (ipc_splay_tree_bounds splay_example 8))"
    by code_simp
  with splay_bounds_tight [OF splay_example_ok(1) this] show ?thesis by simp
qed

end
