(* ===== verification/Ipc_Traverse.thy ===== *)
theory Ipc_Traverse
  imports Ipc_Splay
begin

text \<open>
  The symmetric-order traversal of \<^verbatim>\<open>kernel/ipc/ipc_splay.c\<close>
  (\<^verbatim>\<open>ipc_splay_traverse_start\<close>, \<^verbatim>\<open>_next\<close>, \<^verbatim>\<open>_finish\<close>), by pointer
  inversion and with deletion on the way. A traversal ends, visits the bindings in name order, and
  leaves a well-formed tree of the bindings that were not deleted.
\<close>

subsection \<open>Symmetric-order traversal\<close>

text \<open>
  The C code inverts the child pointers on the path from the root to the current node. A frame is
  an ancestor and its other subtree; which child pointer of the ancestor was reversed is not
  recorded anywhere but decided, on the way back, by comparing names. \<open>Traverse_At\<close> is the state
  between two calls (\<^verbatim>\<open>ist_ltree\<close> the current node, \<^verbatim>\<open>ist_rtree\<close> its parent),
  \<open>Traverse_Done\<close> the state after \<^verbatim>\<open>ITE_NULL\<close> has been returned. The labels
  \<open>traverse_left\<close>, \<open>traverse_back\<close> and \<open>traverse_right\<close> of
  \<^verbatim>\<open>ipc_splay_traverse_next\<close> are functions of those names.
\<close>

type_synonym 'e frame = "'e ite \<times> 'e ite tree"

datatype 'e traversal =
    Traverse_Done "'e ite tree"
  | Traverse_At "'e ite tree" "'e frame list"

fun traverse_left :: "'e ite tree \<Rightarrow> 'e frame list \<Rightarrow> 'e traversal" where
  "traverse_left (Node (Node ll b lr) a r) parent = traverse_left (Node ll b lr) ((a, r) # parent)"
| "traverse_left current parent = Traverse_At current parent"

fun traverse_back :: "'e ite tree \<Rightarrow> 'e frame list \<Rightarrow> 'e traversal" where
  "traverse_back current [] = Traverse_Done current"
| "traverse_back current ((a, t) # parent) =
     (if ite_name current < fst a
      then Traverse_At (Node current a t) parent
      else traverse_back (Node t a current) parent)"

definition traverse_right :: "'e ite tree \<Rightarrow> 'e frame list \<Rightarrow> 'e traversal" where
  "traverse_right current parent =
     (if right current \<noteq> ITE_NULL
      then traverse_left (right current) ((value current, left current) # parent)
      else traverse_back current parent)"

definition ipc_splay_traverse_start :: "'e ipc_splay_tree \<Rightarrow> 'e traversal" where
  "ipc_splay_traverse_start splay =
     (if ist_root splay = ITE_NULL then Traverse_Done ITE_NULL
      else traverse_left
             (ipc_splay_prim_assemble (ist_root splay) (ist_ltree splay) (ist_rtree splay)) [])"

definition traverse_delete :: "'e ite tree \<Rightarrow> 'e frame list \<Rightarrow> 'e traversal option" where
  "traverse_delete current parent =
     (if left current = ITE_NULL
      then if right current = ITE_NULL
           then (case parent of
                   [] \<Rightarrow> Some (Traverse_Done ITE_NULL)
                 | (a, t) # parent' \<Rightarrow>
                     if ite_name current < fst a
                     then Some (Traverse_At (Node ITE_NULL a t) parent')
                     else Some (traverse_back (Node t a ITE_NULL) parent'))
           else Some (traverse_left (right current) parent)
      else if right current = ITE_NULL
           then Some (traverse_back (left current) parent)
           else let (rt, lt, rr) = ipc_splay_prim_lookup MACH_PORT_LARGEST (left current) [] [];
                    t = ipc_splay_prim_assemble rt lt rr
                in do { assert_that (right t = ITE_NULL);
                        Some (traverse_right (Node (left t) (value t) (right current)) parent) })"

definition ipc_splay_traverse_next ::
  "'e ite tree \<Rightarrow> 'e frame list \<Rightarrow> bool \<Rightarrow> 'e traversal option" where
  "ipc_splay_traverse_next current parent delete =
     (if \<not> delete then Some (traverse_right current parent)
      else traverse_delete current parent)"

definition ipc_splay_traverse_finish ::
  "'e ipc_splay_tree \<Rightarrow> 'e ite tree \<Rightarrow> 'e ipc_splay_tree" where
  "ipc_splay_traverse_finish splay root = ist_set_root splay root"

text \<open>
  The loop that the comment in the source prescribes. \<open>body\<close> is what the caller does with the
  current entry; it returns the \<^verbatim>\<open>delete\<close> argument of the next call.
\<close>

partial_function (option) traverse_loop ::
  "('s \<Rightarrow> 'e ite \<Rightarrow> ('s \<times> bool) option) \<Rightarrow> 's \<Rightarrow> 'e traversal \<Rightarrow> ('s \<times> 'e ite tree) option" where
  "traverse_loop body s tr =
     (case tr of
        Traverse_Done root \<Rightarrow> Some (s, root)
      | Traverse_At current parent \<Rightarrow>
          do { (s', delete) \<leftarrow> body s (value current);
               tr' \<leftarrow> ipc_splay_traverse_next current parent delete;
               traverse_loop body s' tr' })"

definition ipc_splay_traverse ::
  "('s \<Rightarrow> 'e ite \<Rightarrow> ('s \<times> bool) option) \<Rightarrow> 's \<Rightarrow> 'e ipc_splay_tree \<Rightarrow>
     ('s \<times> 'e ipc_splay_tree) option" where
  "ipc_splay_traverse body s splay =
     do { (s', root) \<leftarrow> traverse_loop body s (ipc_splay_traverse_start splay);
          Some (s', ipc_splay_traverse_finish splay root) }"

subsection \<open>Traversal\<close>

text \<open>
  \<open>before\<close> and \<open>after\<close> are the bindings outside the current subtree, to its left and to its
  right. \<open>tr_kept\<close> is what has been visited and kept, \<open>tr_todo\<close> what is still to be visited.
\<close>

fun before :: "mach_port \<Rightarrow> 'e frame list \<Rightarrow> 'e ite list" where
  "before n [] = []"
| "before n ((a, t) # p) =
     (if n < fst a then before (fst a) p else before (fst a) p @ inorder t @ [a])"

fun after :: "mach_port \<Rightarrow> 'e frame list \<Rightarrow> 'e ite list" where
  "after n [] = []"
| "after n ((a, t) # p) =
     (if n < fst a then a # inorder t @ after (fst a) p else after (fst a) p)"

fun tr_kept :: "'e traversal \<Rightarrow> 'e ite list" where
  "tr_kept (Traverse_Done root) = inorder root"
| "tr_kept (Traverse_At cur p) = before (ite_name cur) p @ inorder (left cur)"

fun tr_todo :: "'e traversal \<Rightarrow> 'e ite list" where
  "tr_todo (Traverse_Done root) = []"
| "tr_todo (Traverse_At cur p) = value cur # inorder (right cur) @ after (ite_name cur) p"

fun tr_node :: "'e traversal \<Rightarrow> bool" where
  "tr_node (Traverse_Done root) = True"
| "tr_node (Traverse_At cur p) = (cur \<noteq> Leaf)"

lemma traverse_left_spec:
  "cur \<noteq> Leaf \<Longrightarrow> sorted_keys (inorder cur) \<Longrightarrow>
   tr_kept (traverse_left cur p) = before (ite_name cur) p \<and>
   tr_todo (traverse_left cur p) = inorder cur @ after (ite_name cur) p \<and>
   tr_node (traverse_left cur p)"
  by (induction cur p rule: traverse_left.induct) (auto simp: sorted_wrt_append)

lemma traverse_back_spec:
  "cur \<noteq> Leaf \<Longrightarrow>
   tr_kept (traverse_back cur p) = before (ite_name cur) p @ inorder cur \<and>
   tr_todo (traverse_back cur p) = after (ite_name cur) p \<and>
   tr_node (traverse_back cur p)"
  by (induction cur p rule: traverse_back.induct) auto

lemma traverse_right_spec:
  assumes "sorted_keys (inorder (Node l a r))"
  shows "tr_kept (traverse_right (Node l a r) p) = before (fst a) p @ inorder l @ [a] \<and>
    tr_todo (traverse_right (Node l a r) p) = inorder r @ after (fst a) p \<and>
    tr_node (traverse_right (Node l a r) p)"
proof (cases r)
  case Leaf
  then show ?thesis using traverse_back_spec [of "Node l a r" p] by (simp add: traverse_right_def)
next
  case (Node rl b rr)
  then have "\<not> fst b < fst a" using assms by (auto simp: sorted_wrt_append)
  then show ?thesis
    using Node assms traverse_left_spec [of r "(a, l) # p"]
    by (simp add: traverse_right_def sorted_wrt_append)
qed

lemma gap_eq:
  assumes "sorted_keys (before n p @ xs @ after n p)" and "n \<in> set (keys xs)" and "m \<in> set (keys xs)"
  shows "before m p = before n p" and "after m p = after n p"
proof -
  have "before m p = before n p \<and> after m p = after n p"
  proof (cases p)
    case (Cons f p')
    obtain c t where f: "f = (c, t)" by (cases f)
    have "m < fst c \<longleftrightarrow> n < fst c"
    proof (cases "n < fst c")
      case True
      with assms(1) Cons f have "\<forall>x \<in> set (keys xs). x < fst c" by (simp add: sorted_wrt_append)
      with assms(2,3) show ?thesis by blast
    next
      case False
      with assms(1) Cons f have "\<forall>x \<in> set (keys xs). fst c < x" by (simp add: sorted_wrt_append)
      with assms(2,3) show ?thesis by (meson less_asym)
    qed
    with Cons f show ?thesis by simp
  qed simp
  then show "before m p = before n p" and "after m p = after n p" by auto
qed

lemma traverse_delete_spec:
  assumes "sorted_keys (before (fst a) p @ inorder (Node l a r) @ after (fst a) p)"
  shows "\<exists>tr. traverse_delete (Node l a r) p = Some tr \<and>
    tr_kept tr = before (fst a) p @ inorder l \<and> tr_todo tr = inorder r @ after (fst a) p \<and> tr_node tr"
proof -
  note gap = gap_eq [OF assms]
  consider "l = Leaf" "r = Leaf" | "l = Leaf" "r \<noteq> Leaf" | "l \<noteq> Leaf" "r = Leaf"
    | "l \<noteq> Leaf" "r \<noteq> Leaf" by blast
  then show ?thesis
  proof cases
    case 1
    then show ?thesis
      using traverse_back_spec by (cases p) (auto simp: traverse_delete_def split: prod.splits)
  next
    case 2
    then obtain rl b rr where r: "r = Node rl b rr" by (cases r) auto
    then have "before (fst b) p = before (fst a) p" "after (fst b) p = after (fst a) p"
      using gap [of "fst b"] by auto
    with 2 r assms show ?thesis
      using traverse_left_spec [of r p] by (simp add: traverse_delete_def sorted_wrt_append)
  next
    case 3
    then obtain ll b lr where l: "l = Node ll b lr" by (cases l) auto
    then have "before (fst b) p = before (fst a) p" "after (fst b) p = after (fst a) p"
      using gap [of "fst b"] by auto
    with 3 l show ?thesis
      using traverse_back_spec [of l p] by (simp add: traverse_delete_def)
  next
    case 4
    obtain rt lt rr where lk: "ipc_splay_prim_lookup MACH_PORT_LARGEST l [] [] = (rt, lt, rr)"
      by (metis prod_cases3)
    let ?t = "ipc_splay_prim_assemble rt lt rr"
    have sl: "sorted_keys (inorder l)" using assms by (simp add: sorted_wrt_append)
    note t = prim_lookup_largest [OF lk 4(1) sl]
    have "?t \<noteq> Leaf" using prim_lookup_zip [OF 4(1) lk] by (simp add: assemble_Leaf_iff)
    then obtain tl b where tt: "?t = Node tl b Leaf" using t(1) by (cases ?t) auto
    then have io: "inorder l = inorder tl @ [b]" using t(2) by simp
    then have "before (fst b) p = before (fst a) p" "after (fst b) p = after (fst a) p"
      using gap [of "fst b"] by auto
    moreover have "sorted_keys (inorder (Node tl b r))"
      using assms io by (auto simp: sorted_wrt_append)
    ultimately show ?thesis
      using 4 lk tt io traverse_right_spec [of tl b r p] by (simp add: traverse_delete_def)
  qed
qed

definition tr_ok :: "'e traversal \<Rightarrow> bool" where
  "tr_ok tr \<longleftrightarrow> tr_node tr \<and> sorted_keys (tr_kept tr @ tr_todo tr)"

lemma traverse_next_spec:
  assumes "tr_ok (Traverse_At cur p)"
  shows "\<exists>tr. ipc_splay_traverse_next cur p delete = Some tr \<and> tr_ok tr \<and>
    tr_todo tr = tl (tr_todo (Traverse_At cur p)) \<and>
    tr_kept tr = tr_kept (Traverse_At cur p) @ (if delete then [] else [value cur])"
proof -
  obtain l a r where cur: "cur = Node l a r" using assms by (cases cur) (auto simp: tr_ok_def)
  have sorted: "sorted_keys (before (fst a) p @ inorder (Node l a r) @ after (fst a) p)"
    using assms cur by (simp add: tr_ok_def)
  then have "sorted_keys (inorder (Node l a r))" by (simp add: sorted_wrt_append)
  moreover have "sorted_keys ((before (fst a) p @ inorder l) @ inorder r @ after (fst a) p)"
    by (rule sorted_keys_remove [of _ a]) (use sorted in simp)
  ultimately show ?thesis
    using traverse_right_spec [of l a r p] traverse_delete_spec [OF sorted] sorted cur
    by (cases delete)
      (auto simp: ipc_splay_traverse_next_def tr_ok_def)
qed

text \<open>
  What a traversal means: the body runs on the bindings in name order, and the bindings for which
  it asked deletion are gone.
\<close>

fun traverse_spec ::
  "('s \<Rightarrow> 'e ite \<Rightarrow> ('s \<times> bool) option) \<Rightarrow> 's \<Rightarrow> 'e ite list \<Rightarrow> ('s \<times> 'e ite list) option" where
  "traverse_spec body s [] = Some (s, [])"
| "traverse_spec body s (x # xs) =
     do { (s', delete) \<leftarrow> body s x;
          (s'', kept) \<leftarrow> traverse_spec body s' xs;
          Some (s'', if delete then kept else x # kept) }"

lemma traverse_loop_spec:
  "tr_ok tr \<Longrightarrow>
   map_option (map_prod id inorder) (traverse_loop body s tr) =
   map_option (map_prod id ((@) (tr_kept tr))) (traverse_spec body s (tr_todo tr))"
proof (induction "tr_todo tr" arbitrary: tr s)
  case Nil
  then show ?case by (cases tr) (simp_all add: traverse_loop.simps)
next
  case (Cons x xs)
  then obtain cur p where tr: "tr = Traverse_At cur p" by (cases tr) auto
  with Cons.hyps(2) have x: "x = value cur" by simp
  show ?case
  proof (cases "body s x")
    case None
    with tr x Cons.hyps(2) [symmetric] show ?thesis by (simp add: traverse_loop.simps [of _ _ "Traverse_At cur p"])
  next
    case (Some sd)
    obtain s' delete where sd: "sd = (s', delete)" by (cases sd)
    from traverse_next_spec [of cur p delete] Cons.prems tr obtain tr'
      where nxt: "ipc_splay_traverse_next cur p delete = Some tr'" and ok: "tr_ok tr'"
        and todo: "tr_todo tr' = tl (tr_todo tr)"
        and kept: "tr_kept tr' = tr_kept tr @ (if delete then [] else [value cur])"
      by auto
    have "xs = tr_todo tr'" using Cons.hyps(2) todo by (metis list.sel(3))
    from Cons.hyps(1) [OF this ok, of s'] Some sd tr x nxt kept \<open>xs = tr_todo tr'\<close> Cons.hyps(2) [symmetric]
    show ?thesis
      by (cases "traverse_spec body s' xs"; cases "traverse_loop body s' tr'")
        (auto simp: traverse_loop.simps [of _ _ "Traverse_At cur p"])
  qed
qed

lemma traverse_start_spec:
  assumes "ist_ok s"
  shows "tr_ok (ipc_splay_traverse_start s)" and "tr_kept (ipc_splay_traverse_start s) = []"
    and "tr_todo (ipc_splay_traverse_start s) = ist_list s"
proof -
  have "tr_ok (ipc_splay_traverse_start s) \<and> tr_kept (ipc_splay_traverse_start s) = [] \<and>
    tr_todo (ipc_splay_traverse_start s) = ist_list s"
  proof (cases "ist_root s = Leaf")
    case True
    then show ?thesis by (simp add: ipc_splay_traverse_start_def tr_ok_def ist_list_def)
  next
    case False
    let ?t = "ipc_splay_prim_assemble (ist_root s) (ist_ltree s) (ist_rtree s)"
    have "?t \<noteq> Leaf" and "inorder ?t = ist_list s"
      using False by (simp_all add: assemble_Leaf_iff inorder_assemble ist_list_def ist_zip_def)
    with False assms traverse_left_spec [of ?t "[]"] show ?thesis
      by (simp add: ipc_splay_traverse_start_def tr_ok_def ist_ok_def)
  qed
  then show "tr_ok (ipc_splay_traverse_start s)" and "tr_kept (ipc_splay_traverse_start s) = []"
    and "tr_todo (ipc_splay_traverse_start s) = ist_list s" by auto
qed

lemma traverse_spec_sorted:
  "traverse_spec body s xs = Some (s', kept) \<Longrightarrow> sorted_keys xs \<Longrightarrow> sorted_keys kept \<and> set kept \<subseteq> set xs"
  by (induction xs arbitrary: s s' kept) (fastforce split: bind_splits prod.splits if_splits)+

lemma splay_traverse:
  assumes "ist_ok s"
  shows "map_option (map_prod id ist_list) (ipc_splay_traverse body x s) =
         traverse_spec body x (ist_list s)"
    and "ipc_splay_traverse body x s = Some (x', s') \<Longrightarrow> ist_ok s'"
proof -
  note start = traverse_start_spec [OF assms]
  let ?loop = "traverse_loop body x (ipc_splay_traverse_start s)"
  have loop: "map_option (map_prod id inorder) ?loop = traverse_spec body x (ist_list s)"
    using traverse_loop_spec [OF start(1), of body x] start(2,3)
    by (simp add: append_Nil_id map_prod.id option.map_id)
  then show "map_option (map_prod id ist_list) (ipc_splay_traverse body x s) =
      traverse_spec body x (ist_list s)"
    by (cases ?loop)
      (auto simp: ipc_splay_traverse_def ipc_splay_traverse_finish_def set_root_ok(2))
  assume "ipc_splay_traverse body x s = Some (x', s')"
  then obtain root where l: "?loop = Some (x', root)" and s': "s' = ist_set_root s root"
    by (auto simp: ipc_splay_traverse_def ipc_splay_traverse_finish_def split: bind_splits)
  with loop traverse_spec_sorted [of body x "ist_list s" x' "inorder root"] assms [unfolded ist_ok_def]
  show "ist_ok s'" by (simp add: set_root_ok(1) flip: loop)
qed

text \<open>
  C37. A traversal of a well-formed tree returns whenever its body does: it runs the body on the
  bindings in name order, each one once, and the tree it leaves is well formed and holds exactly
  the bindings for which the body did not ask deletion, in order.
\<close>

theorem splay_traverse_in_order:
  assumes "ist_ok s"
  shows "map_option (\<lambda>(x', s'). (x', ist_list s', ist_ok s')) (ipc_splay_traverse body x s) =
    map_option (\<lambda>(x', kept). (x', kept, True)) (traverse_spec body x (ist_list s))"
proof (cases "ipc_splay_traverse body x s")
  case None
  then show ?thesis using splay_traverse(1) [OF assms, of body x] by simp
next
  case (Some p)
  obtain x' s' where "p = (x', s')" by (cases p)
  with Some splay_traverse [OF assms, of body x] show ?thesis
    by (simp flip: splay_traverse(1) [OF assms])
qed

text \<open>The body of the witness collects the names and asks for the deletion of 7.\<close>

theorem splay_traverse_in_order_witness:
  "map_option (\<lambda>(x', s'). (x', ist_list s', ist_ok s'))
     (ipc_splay_traverse (\<lambda>names x. Some (names @ [fst x], fst x = 7)) [] splay_example) =
   Some ([3, 7, 9], [(3, 30), (9, 90)], True)"
  unfolding splay_traverse_in_order [OF splay_example_ok(1)] splay_example_ok(2) by simp

end
