(* ===== verification/Ipc_State.thy ===== *)
theory Ipc_State
  imports Ipc_Traverse
begin

text \<open>
  An IPC space (\<^verbatim>\<open>struct ipc_space\<close> of \<^verbatim>\<open>kernel/ipc/ipc_space.h\<close>) and pointers
  to its entries. A space is addressed by \<open>is_self\<close>, the value of the C pointer to it.
  \<open>is_table_size\<close> is the length of \<open>is_table\<close>, and \<open>is_table_next\<close>, a pointer into the array
  \<^verbatim>\<open>ipc_table_entries\<close>, is an index into that array. The locks are not part of the state: an
  operation of the model runs with the space locked, and where the code drops the lock in between
  the model has a parameter for what other threads do meanwhile.
\<close>

record ipc_space =
  is_self :: ptr
  is_references :: nat
  is_active :: bool
  is_growing :: bool
  is_table :: "ipc_entry list"
  is_table_next :: nat
  is_tree :: "ipc_entry ipc_splay_tree"
  is_tree_total :: nat
  is_tree_small :: nat
  is_tree_hash :: nat

abbreviation is_table_size :: "ipc_space \<Rightarrow> nat" where
  "is_table_size space \<equiv> length (is_table space)"

definition IS_NULL :: ptr where "IS_NULL = 0"

text \<open>
  A pointer to an entry points into the table or to a node of the tree. Reading and writing
  through it do not reorganise the tree.
\<close>

datatype entry_ptr = Table_entry nat | Tree_entry mach_port

fun get_entry :: "ipc_space \<Rightarrow> entry_ptr \<Rightarrow> ipc_entry option" where
  "get_entry space (Table_entry i) = arr_get (is_table space) i"
| "get_entry space (Tree_entry name) = ist_map (is_tree space) name"

fun write_entry :: "ipc_space \<Rightarrow> entry_ptr \<Rightarrow> (ipc_entry \<Rightarrow> ipc_entry) \<Rightarrow> ipc_space option" where
  "write_entry space (Table_entry i) f =
     do { entry \<leftarrow> arr_get (is_table space) i;
          Some (space\<lparr>is_table := (is_table space)[i := f entry]\<rparr>) }"
| "write_entry space (Tree_entry name) f =
     do { _ \<leftarrow> ist_map (is_tree space) name;
          Some (space\<lparr>is_tree := ist_write (is_tree space) name f\<rparr>) }"

end
