(* ===== verification/Ipc_Hash_Local.thy ===== *)
theory Ipc_Hash_Local
  imports Ipc_State
begin

text \<open>
  The local reverse hash table of a space (\<^verbatim>\<open>kernel/ipc/ipc_hash.c\<close>), which finds the
  index of a send right from the object it denotes.

  It is an open-addressing table with linear probing that lives in the \<open>ie_index\<close> fields of the
  space's entry table: slot \<open>h\<close> holds the index of an entry, 0 for an empty slot. Its loops are
  \<open>partial_function\<close>s: a probe that never meets an empty slot, a failed assertion or an access
  outside the table is \<open>None\<close>. \<open>hash_ok table S\<close> says that the slots hold exactly the indices in
  \<open>S\<close>, each once, and that no probe sequence from an entry's home slot to the slot that holds it
  meets an empty slot; the lemmas show that lookup, insertion and deletion return, find, add and
  remove exactly what they should, and write nothing but \<open>ie_index\<close> fields. The contract
  \<open>reverse_map\<close> that both reverse tables meet is stated and interpreted here.
\<close>

subsection \<open>The local table\<close>

definition IH_LOCAL_HASH :: "ptr \<Rightarrow> nat \<Rightarrow> nat" where
  "IH_LOCAL_HASH obj sz = unat (drop_bit 6 obj) mod sz"

definition next_slot :: "nat \<Rightarrow> nat \<Rightarrow> nat" where
  "next_slot sz hindex = (if hindex + 1 = sz then 0 else hindex + 1)"

partial_function (option) local_lookup_loop ::
  "ipc_entry list \<Rightarrow> ptr \<Rightarrow> nat \<Rightarrow> (mach_port \<times> nat) option option" where
  "local_lookup_loop table obj hindex =
     do { slot \<leftarrow> arr_get table hindex;
          let index = ie_index slot;
          if index = 0 then Some None
          else do { entry \<leftarrow> arr_get table index;
                    if ie_object entry = obj
                    then Some (Some (MACH_PORT_MAKEB (of_nat index) (ie_bits entry), index))
                    else local_lookup_loop table obj (next_slot (length table) hindex) } }"

definition ipc_hash_local_lookup :: "ipc_entry list \<Rightarrow> ptr \<Rightarrow> (mach_port \<times> nat) option option" where
  "ipc_hash_local_lookup table obj =
     do { assert_that (obj \<noteq> IO_NULL);
          local_lookup_loop table obj (IH_LOCAL_HASH obj (length table)) }"

definition set_ie_index :: "ipc_entry list \<Rightarrow> nat \<Rightarrow> nat \<Rightarrow> ipc_entry list option" where
  "set_ie_index table hindex index =
     do { slot \<leftarrow> arr_get table hindex; arr_set table hindex (slot\<lparr>ie_index := index\<rparr>) }"

partial_function (option) local_insert_loop ::
  "ipc_entry list \<Rightarrow> nat \<Rightarrow> nat option" where
  "local_insert_loop table hindex =
     do { slot \<leftarrow> arr_get table hindex;
          if ie_index slot = 0 then Some hindex
          else local_insert_loop table (next_slot (length table) hindex) }"

text \<open>
  The C functions take the space and read its table and size; here they take the table.
\<close>

definition ipc_hash_local_insert :: "ipc_entry list \<Rightarrow> ptr \<Rightarrow> nat \<Rightarrow> ipc_entry list option" where
  "ipc_hash_local_insert table obj index =
     do { assert_that (index \<noteq> 0);
          assert_that (obj \<noteq> IO_NULL);
          entry \<leftarrow> arr_get table index;
          assert_that (ie_object entry = obj);
          hindex \<leftarrow> local_insert_loop table (IH_LOCAL_HASH obj (length table));
          set_ie_index table hindex index }"

partial_function (option) local_delete_find ::
  "ipc_entry list \<Rightarrow> nat \<Rightarrow> nat \<Rightarrow> nat option option" where
  "local_delete_find table index hindex =
     do { slot \<leftarrow> arr_get table hindex;
          if ie_index slot = index then Some (Some hindex)
          else if ie_index slot = 0 then Some None
          else local_delete_find table index (next_slot (length table) hindex) }"

text \<open>
  Deletion: find the slot, then scan the rest of the clump for an entry whose home slot is not
  after the hole, move it into the hole and repeat from its old slot.
\<close>

definition displaced :: "nat \<Rightarrow> nat \<Rightarrow> nat \<Rightarrow> bool" where
  "displaced dindex hindex tindex \<longleftrightarrow>
     (if dindex < hindex then dindex < tindex \<and> tindex \<le> hindex
      else dindex < tindex \<or> tindex \<le> hindex)"

partial_function (option) local_delete_scan ::
  "ipc_entry list \<Rightarrow> nat \<Rightarrow> nat \<Rightarrow> (nat \<times> nat) option" where
  "local_delete_scan table hindex dindex =
     do { let dindex = next_slot (length table) dindex;
          assert_that (dindex \<noteq> hindex);
          slot \<leftarrow> arr_get table dindex;
          let index = ie_index slot;
          if index = 0 then Some (dindex, 0)
          else do { entry \<leftarrow> arr_get table index;
                    assert_that (ie_object entry \<noteq> IO_NULL);
                    if displaced dindex hindex (IH_LOCAL_HASH (ie_object entry) (length table))
                    then Some (dindex, index)
                    else local_delete_scan table hindex dindex } }"

partial_function (option) local_delete_fill ::
  "ipc_entry list \<Rightarrow> nat \<Rightarrow> nat \<Rightarrow> nat \<Rightarrow> ipc_entry list option" where
  "local_delete_fill table hindex dindex index =
     (if index = 0 then Some table
      else do { (dindex, index) \<leftarrow> local_delete_scan table hindex dindex;
                table \<leftarrow> set_ie_index table hindex index;
                local_delete_fill table dindex dindex index })"

definition ipc_hash_local_delete :: "ipc_entry list \<Rightarrow> ptr \<Rightarrow> nat \<Rightarrow> ipc_entry list option" where
  "ipc_hash_local_delete table obj index =
     do { assert_that (index \<noteq> 0);
          assert_that (obj \<noteq> IO_NULL);
          entry \<leftarrow> arr_get table index;
          assert_that (ie_object entry = obj);
          found \<leftarrow> local_delete_find table index (IH_LOCAL_HASH obj (length table));
          case found of
            None \<Rightarrow> Some table
          | Some hindex \<Rightarrow> local_delete_fill table hindex hindex index }"

subsection \<open>Probe sequences\<close>

definition dist :: "nat \<Rightarrow> nat \<Rightarrow> nat \<Rightarrow> nat" where
  "dist n a b = (if a \<le> b then b - a else b + n - a)"

lemma dist_less: "a < n \<Longrightarrow> b < n \<Longrightarrow> dist n a b < n"
  by (auto simp: dist_def)

lemma dist_self [simp]: "dist n a a = 0"
  by (simp add: dist_def)

lemma dist_eq_0: "a < n \<Longrightarrow> b < n \<Longrightarrow> dist n a b = 0 \<longleftrightarrow> a = b"
  by (auto simp: dist_def)

lemma next_slot_less: "h < n \<Longrightarrow> next_slot n h < n"
  by (auto simp: next_slot_def)

lemma dist_next: "h < n \<Longrightarrow> e < n \<Longrightarrow> h \<noteq> e \<Longrightarrow> dist n h e = Suc (dist n (next_slot n h) e)"
  by (auto simp: dist_def next_slot_def)

lemma dist_to_next:
  "a < n \<Longrightarrow> h < n \<Longrightarrow> next_slot n h \<noteq> a \<Longrightarrow> dist n a (next_slot n h) = Suc (dist n a h)"
  by (auto simp: dist_def next_slot_def split: if_splits)

lemma dist_inj: "a < n \<Longrightarrow> b < n \<Longrightarrow> c < n \<Longrightarrow> dist n a b = dist n a c \<Longrightarrow> b = c"
  by (auto simp: dist_def split: if_splits)

lemma displaced_dist:
  "d < n \<Longrightarrow> h < n \<Longrightarrow> t < n \<Longrightarrow> d \<noteq> h \<Longrightarrow> displaced d h t \<longleftrightarrow> dist n t h < dist n t d"
  by (auto simp: displaced_def dist_def)

abbreviation slot_of :: "ipc_entry list \<Rightarrow> nat \<Rightarrow> nat" where
  "slot_of table h \<equiv> ie_index (table ! h)"

definition home :: "ipc_entry list \<Rightarrow> nat \<Rightarrow> nat" where
  "home table i = IH_LOCAL_HASH (ie_object (table ! i)) (length table)"

text \<open>
  \<open>dist n a b\<close> is the number of probes from slot \<open>a\<close> to slot \<open>b\<close>; the slots \<open>s\<close> with
  \<open>dist n a s < dist n a b\<close> are those probed on the way.
\<close>

definition probe_ok :: "ipc_entry list \<Rightarrow> nat option \<Rightarrow> nat \<Rightarrow> bool" where
  "probe_ok table hole d \<longleftrightarrow>
     (let a = home table (slot_of table d) in
      \<forall>s < length table. dist (length table) a s < dist (length table) a d \<longrightarrow>
        slot_of table s \<noteq> 0 \<or> hole = Some s)"

definition slots_ok :: "ipc_entry list \<Rightarrow> nat set \<Rightarrow> bool" where
  "slots_ok table S \<longleftrightarrow>
     S \<subseteq> {1..<length table} \<and>
     (\<forall>i \<in> S. ie_object (table ! i) \<noteq> IO_NULL) \<and>
     (\<forall>i \<in> S. \<forall>j \<in> S. ie_object (table ! i) = ie_object (table ! j) \<longrightarrow> i = j)"

definition hash_ok :: "ipc_entry list \<Rightarrow> nat set \<Rightarrow> bool" where
  "hash_ok table S \<longleftrightarrow>
     slots_ok table S \<and>
     bij_betw (slot_of table) {h. h < length table \<and> slot_of table h \<noteq> 0} S \<and>
     (\<forall>d < length table. slot_of table d \<noteq> 0 \<longrightarrow> probe_ok table None d)"

lemma home_less: "table \<noteq> [] \<Longrightarrow> home table i < length table"
  by (simp add: home_def IH_LOCAL_HASH_def)

subsection \<open>Lookup\<close>

lemma path_step:
  assumes "a < n" "h < n" "d < n" "dist n a h < dist n a d"
  shows "next_slot n h < n" and "dist n a (next_slot n h) = Suc (dist n a h)"
    and "dist n h d = Suc (dist n (next_slot n h) d)"
  using assms by (auto simp: dist_def next_slot_def split: if_splits)

lemma hash_ok_entry:
  assumes "hash_ok table S" and "h < length table" and "slot_of table h \<noteq> 0"
  shows "slot_of table h \<in> S" and "slot_of table h < length table"
    and "ie_object (table ! slot_of table h) \<noteq> IO_NULL"
proof -
  show "slot_of table h \<in> S" using assms by (auto simp: hash_ok_def bij_betw_def)
  then show "slot_of table h < length table" "ie_object (table ! slot_of table h) \<noteq> IO_NULL"
    using assms(1) by (auto simp: hash_ok_def slots_ok_def)
qed

lemma hash_ok_slot:
  assumes "hash_ok table S" and "i \<in> S"
  obtains d where "d < length table" and "slot_of table d = i" and "i \<noteq> 0" and "i < length table"
    and "\<And>s. s < length table \<Longrightarrow>
      dist (length table) (home table i) s < dist (length table) (home table i) d \<Longrightarrow> slot_of table s \<noteq> 0"
proof -
  have "i \<in> slot_of table ` {h. h < length table \<and> slot_of table h \<noteq> 0}" and "i \<in> {1..<length table}"
    using assms by (auto simp: hash_ok_def slots_ok_def bij_betw_def)
  then obtain d where d: "d < length table" "slot_of table d = i" "i \<noteq> 0" "i < length table" by auto
  then have "probe_ok table None d" using assms(1) by (simp add: hash_ok_def)
  with d show thesis by (intro that [OF d]) (auto simp: probe_ok_def Let_def)
qed

lemma hash_ok_inj:
  assumes "hash_ok table S" and "h < length table" and "d < length table"
    and "slot_of table h = slot_of table d" and "slot_of table d \<noteq> 0"
  shows "h = d"
  using assms by (auto simp: hash_ok_def bij_betw_def inj_on_def)

lemma hash_ok_empty_slot:
  assumes "hash_ok table S" and "table \<noteq> []"
  obtains e where "e < length table" and "slot_of table e = 0"
proof (rule ccontr)
  assume "\<not> thesis"
  with that have "{h. h < length table \<and> slot_of table h \<noteq> 0} = {..<length table}" by auto
  then have "card S = length table"
    using assms(1) by (auto simp: hash_ok_def dest: bij_betw_same_card)
  moreover have "card S \<le> card {1..<length table}"
    using assms(1) by (intro card_mono) (auto simp: hash_ok_def slots_ok_def)
  ultimately show False using assms(2) by (cases table) simp_all
qed

lemma local_lookup_loop_hit:
  assumes ok: "hash_ok table S" and i: "i \<in> S"
    and d: "d < length table" "slot_of table d = i" "i \<noteq> 0" "i < length table"
    and path: "\<And>s. s < length table \<Longrightarrow>
      dist (length table) (home table i) s < dist (length table) (home table i) d \<Longrightarrow> slot_of table s \<noteq> 0"
  shows "h < length table \<Longrightarrow>
    dist (length table) (home table i) h \<le> dist (length table) (home table i) d \<Longrightarrow>
    local_lookup_loop table (ie_object (table ! i)) h =
      Some (Some (MACH_PORT_MAKEB (of_nat i) (ie_bits (table ! i)), i))"
proof (induction "dist (length table) h d" arbitrary: h)
  case 0
  then have "h = d" using d dist_eq_0 by metis
  with d show ?case by (simp add: local_lookup_loop.simps [of table _ d] Let_def)
next
  case (Suc k)
  let ?n = "length table" and ?a = "home table i"
  have a: "?a < ?n" using d by (intro home_less) auto
  have "h \<noteq> d" using Suc.hyps(2) by auto
  then have lt: "dist ?n ?a h < dist ?n ?a d"
    using Suc.prems dist_inj [of ?a ?n h d] a d by (auto simp: le_less)
  note step = path_step [OF a Suc.prems(1) d(1) lt]
  have j: "slot_of table h \<noteq> 0" using path [OF Suc.prems(1) lt] .
  note e = hash_ok_entry [OF ok Suc.prems(1) j]
  have "slot_of table h \<noteq> i" using hash_ok_inj [OF ok Suc.prems(1) d(1)] d \<open>h \<noteq> d\<close> by auto
  then have "ie_object (table ! slot_of table h) \<noteq> ie_object (table ! i)"
    using ok i e(1) by (auto simp: hash_ok_def slots_ok_def)
  moreover have "k = dist ?n (next_slot ?n h) d" using Suc.hyps(2) step(3) by simp
  ultimately show ?case
    using Suc.hyps(1) [of "next_slot ?n h"] step(1,2) lt j e Suc.prems(1)
    by (simp add: local_lookup_loop.simps [of table _ h] Let_def)
qed

lemma local_lookup_loop_miss:
  assumes ok: "hash_ok table S" and none: "\<And>i. i \<in> S \<Longrightarrow> ie_object (table ! i) \<noteq> obj"
    and e: "e < length table" "slot_of table e = 0"
  shows "h < length table \<Longrightarrow> local_lookup_loop table obj h = Some None"
proof (induction "dist (length table) h e" arbitrary: h)
  case 0
  then have "h = e" using e dist_eq_0 by metis
  with e show ?case by (simp add: local_lookup_loop.simps [of table _ e] Let_def)
next
  case (Suc k)
  show ?case
  proof (cases "slot_of table h = 0")
    case True
    with Suc.prems show ?thesis by (simp add: local_lookup_loop.simps [of table _ h] Let_def)
  next
    case False
    note en = hash_ok_entry [OF ok Suc.prems False]
    have "h \<noteq> e" using False e by auto
    with Suc.hyps(2) have "k = dist (length table) (next_slot (length table) h) e"
      using dist_next [OF Suc.prems e(1)] by simp
    with Suc.hyps(1) [of "next_slot (length table) h"] next_slot_less [OF Suc.prems] none [OF en(1)]
      False en Suc.prems show ?thesis
      by (simp add: local_lookup_loop.simps [of table _ h] Let_def)
  qed
qed

lemma ipc_hash_local_lookup_hit:
  assumes "hash_ok table S" and "i \<in> S" 
  shows "ipc_hash_local_lookup table (ie_object (table ! i)) =
    Some (Some (MACH_PORT_MAKEB (of_nat i) (ie_bits (table ! i)), i))"
proof -
  have nn: "ie_object (table ! i) \<noteq> IO_NULL" using assms by (auto simp: hash_ok_def slots_ok_def)
  from assms show ?thesis
  proof (rule hash_ok_slot)
    fix d
    assume d: "d < length table" "slot_of table d = i" "i \<noteq> 0" "i < length table"
      and path: "\<And>s. s < length table \<Longrightarrow>
        dist (length table) (home table i) s < dist (length table) (home table i) d \<Longrightarrow> slot_of table s \<noteq> 0"
    have "home table i < length table" using d by (intro home_less) auto
    from local_lookup_loop_hit [OF assms d path this] nn show ?thesis
      by (simp add: ipc_hash_local_lookup_def home_def)
  qed
qed

lemma ipc_hash_local_lookup_miss:
  assumes "hash_ok table S" and "table \<noteq> []" and "obj \<noteq> IO_NULL"
    and "\<And>i. i \<in> S \<Longrightarrow> ie_object (table ! i) \<noteq> obj"
  shows "ipc_hash_local_lookup table obj = Some None"
proof -
  obtain e where "e < length table" "slot_of table e = 0"
    using hash_ok_empty_slot [OF assms(1,2)] .
  from local_lookup_loop_miss [OF assms(1,4) this] assms(2,3) show ?thesis
    by (simp add: ipc_hash_local_lookup_def IH_LOCAL_HASH_def)
qed

definition same_entries :: "ipc_entry list \<Rightarrow> ipc_entry list \<Rightarrow> bool" where
  "same_entries t t' \<longleftrightarrow> map (\<lambda>e. e\<lparr>ie_index := 0\<rparr>) t' = map (\<lambda>e. e\<lparr>ie_index := 0\<rparr>) t"

definition put_index :: "ipc_entry list \<Rightarrow> nat \<Rightarrow> nat \<Rightarrow> ipc_entry list" where
  "put_index table h i = table[h := (table ! h)\<lparr>ie_index := i\<rparr>]"

lemma set_ie_index_eq: "h < length table \<Longrightarrow> set_ie_index table h i = Some (put_index table h i)"
  by (simp add: set_ie_index_def put_index_def)

lemma put_index_simps [simp]:
  "length (put_index table h i) = length table"
  "ie_object (put_index table h i ! s) = ie_object (table ! s)"
  "ie_bits (put_index table h i ! s) = ie_bits (table ! s)"
  "home (put_index table h i) j = home table j"
proof -
  show obj: "ie_object (put_index table h i ! s) = ie_object (table ! s)" for s
    by (cases "h < length table") (auto simp: put_index_def nth_list_update_if list_update_beyond)
  show "ie_bits (put_index table h i ! s) = ie_bits (table ! s)"
    by (cases "h < length table") (auto simp: put_index_def nth_list_update_if list_update_beyond)
  show len: "length (put_index table h i) = length table" by (simp add: put_index_def)
  show "home (put_index table h i) j = home table j" by (simp add: home_def obj len)
qed

lemma slot_of_put_index [simp]:
  "h < length table \<Longrightarrow> slot_of (put_index table h i) s = (if s = h then i else slot_of table s)"
  by (simp add: put_index_def nth_list_update_if)

lemma same_entries_refl [simp]: "same_entries t t"
  by (simp add: same_entries_def)

lemma same_entries_trans: "same_entries t t' \<Longrightarrow> same_entries t' t'' \<Longrightarrow> same_entries t t''"
  by (simp add: same_entries_def)

lemma same_entries_length: "same_entries t t' \<Longrightarrow> length t' = length t"
  by (simp add: same_entries_def) (metis length_map)

lemma same_entries_nth:
  assumes "same_entries t t'" and "i < length t"
  shows "ie_bits (t' ! i) = ie_bits (t ! i)" and "ie_object (t' ! i) = ie_object (t ! i)"
    and "ie_request (t' ! i) = ie_request (t ! i)"
proof -
  have "(t' ! i)\<lparr>ie_index := 0\<rparr> = (t ! i)\<lparr>ie_index := 0\<rparr>"
    using assms same_entries_length [OF assms(1)] unfolding same_entries_def by (metis nth_map)
  then show "ie_bits (t' ! i) = ie_bits (t ! i)" "ie_object (t' ! i) = ie_object (t ! i)"
    "ie_request (t' ! i) = ie_request (t ! i)"
    by (metis ipc_entry.ext_inject ipc_entry.surjective ipc_entry.update_convs(4))+
qed

lemma same_entries_put_index: "same_entries t (put_index t h i)"
proof (cases "h < length t")
  case True
  then show ?thesis
    by (auto simp: same_entries_def put_index_def map_update intro!: list_update_same_conv [THEN iffD2])
qed (simp add: put_index_def list_update_beyond)

lemma slots_ok_put_index [simp]: "slots_ok (put_index table h i) S = slots_ok table S"
  by (simp add: slots_ok_def)

lemma hash_okI:
  assumes "slots_ok table S"
    and "\<And>h. h < length table \<Longrightarrow> slot_of table h \<noteq> 0 \<Longrightarrow> slot_of table h \<in> S"
    and "\<And>h d. h < length table \<Longrightarrow> d < length table \<Longrightarrow> slot_of table h = slot_of table d \<Longrightarrow>
          slot_of table d \<noteq> 0 \<Longrightarrow> h = d"
    and "\<And>i. i \<in> S \<Longrightarrow> \<exists>d < length table. slot_of table d = i"
    and "\<And>d s. d < length table \<Longrightarrow> slot_of table d \<noteq> 0 \<Longrightarrow> s < length table \<Longrightarrow>
          dist (length table) (home table (slot_of table d)) s <
          dist (length table) (home table (slot_of table d)) d \<Longrightarrow> slot_of table s \<noteq> 0"
  shows "hash_ok table S"
proof -
  have "0 \<notin> S" using assms(1) by (auto simp: slots_ok_def)
  have "slot_of table ` {h. h < length table \<and> slot_of table h \<noteq> 0} = S"
  proof
    show "slot_of table ` {h. h < length table \<and> slot_of table h \<noteq> 0} \<subseteq> S" using assms(2) by blast
    show "S \<subseteq> slot_of table ` {h. h < length table \<and> slot_of table h \<noteq> 0}"
    proof
      fix i
      assume "i \<in> S"
      with assms(4) \<open>0 \<notin> S\<close> obtain d where "d < length table" "slot_of table d = i" "i \<noteq> 0" by metis
      then show "i \<in> slot_of table ` {h. h < length table \<and> slot_of table h \<noteq> 0}" by blast
    qed
  qed
  moreover have "inj_on (slot_of table) {h. h < length table \<and> slot_of table h \<noteq> 0}"
    unfolding inj_on_def using assms(3) by blast
  ultimately show ?thesis
    using assms(1,5) by (simp add: hash_ok_def bij_betw_def probe_ok_def Let_def)
qed

lemma hash_okD:
  assumes "hash_ok table S"
  shows "slots_ok table S"
    and "\<And>d s. d < length table \<Longrightarrow> slot_of table d \<noteq> 0 \<Longrightarrow> s < length table \<Longrightarrow>
          dist (length table) (home table (slot_of table d)) s <
          dist (length table) (home table (slot_of table d)) d \<Longrightarrow> slot_of table s \<noteq> 0"
  using assms unfolding hash_ok_def probe_ok_def Let_def by blast+

subsection \<open>Insertion\<close>

lemma local_insert_loop_finds:
  assumes e: "e < length table" "slot_of table e = 0" and a: "a < length table"
  shows "h < length table \<Longrightarrow>
    (\<And>s. s < length table \<Longrightarrow> dist (length table) a s < dist (length table) a h \<Longrightarrow> slot_of table s \<noteq> 0) \<Longrightarrow>
    \<exists>h'. local_insert_loop table h = Some h' \<and> h' < length table \<and> slot_of table h' = 0 \<and>
      (\<forall>s < length table. dist (length table) a s < dist (length table) a h' \<longrightarrow> slot_of table s \<noteq> 0)"
proof (induction "dist (length table) h e" arbitrary: h)
  case 0
  then have "h = e" using e dist_eq_0 by metis
  with e 0 show ?case by (intro exI [of _ e]) (simp add: local_insert_loop.simps [of table e])
next
  case (Suc k)
  let ?n = "length table"
  show ?case
  proof (cases "slot_of table h = 0")
    case True
    with Suc.prems show ?thesis by (intro exI [of _ h]) (simp add: local_insert_loop.simps [of table h])
  next
    case False
    then have "h \<noteq> e" using e by auto
    with Suc.hyps(2) have k: "k = dist ?n (next_slot ?n h) e"
      using dist_next [OF Suc.prems(1) e(1)] by simp
    have "slot_of table s \<noteq> 0" if "s < ?n" "dist ?n a s < dist ?n a (next_slot ?n h)" for s
      using that False Suc.prems dist_to_next [OF a Suc.prems(1)] dist_inj [OF a that(1) Suc.prems(1)]
      by (cases "next_slot ?n h = a") (auto simp: less_Suc_eq)
    from Suc.hyps(1) [OF k next_slot_less [OF Suc.prems(1)] this] False Suc.prems(1) show ?thesis
      by (simp add: local_insert_loop.simps [of table h])
  qed
qed

lemma ipc_hash_local_insert_ok:
  assumes ok: "hash_ok table S" and i: "0 < i" "i < length table" "i \<notin> S"
    and obj: "ie_object (table ! i) = obj" "obj \<noteq> IO_NULL"
    and new: "\<And>j. j \<in> S \<Longrightarrow> ie_object (table ! j) \<noteq> obj"
  shows "\<exists>table'. ipc_hash_local_insert table obj i = Some table' \<and> hash_ok table' (insert i S) \<and>
    same_entries table table'"
proof -
  let ?n = "length table" and ?a = "home table i"
  have ne: "table \<noteq> []" using i(2) by auto
  obtain e where e: "e < ?n" "slot_of table e = 0" using hash_ok_empty_slot [OF ok ne] .
  obtain h where loop: "local_insert_loop table ?a = Some h" and h: "h < ?n" "slot_of table h = 0"
    and path: "\<forall>s < ?n. dist ?n ?a s < dist ?n ?a h \<longrightarrow> slot_of table s \<noteq> 0"
    using local_insert_loop_finds [OF e home_less [OF ne, of i] home_less [OF ne, of i]] by auto
  let ?t = "put_index table h i"
  have ins: "ipc_hash_local_insert table obj i = Some ?t"
    using i obj loop h by (simp add: ipc_hash_local_insert_def home_def set_ie_index_eq)
  have notin: "slot_of table d \<noteq> i" if "d < ?n" for d
    using hash_ok_entry(1) [OF ok that] i by (cases "slot_of table d = 0") auto
  have "hash_ok ?t (insert i S)"
  proof (rule hash_okI)
    show "slots_ok ?t (insert i S)"
      using hash_okD(1) [OF ok] i obj new by (simp add: slots_ok_def) metis
    show "slot_of ?t d \<in> insert i S" if "d < length ?t" "slot_of ?t d \<noteq> 0" for d
      using that h hash_ok_entry(1) [OF ok] by (auto split: if_splits)
    show "x = d" if "x < length ?t" "d < length ?t" "slot_of ?t x = slot_of ?t d" "slot_of ?t d \<noteq> 0" for x d
    proof -
      have "(if x = h then i else slot_of table x) = (if d = h then i else slot_of table d)"
        using that(3) h(1) by simp
      with that(1,2,4) h show ?thesis
        using notin [of d] notin [of x] hash_ok_inj [OF ok, of x d]
        by (cases "x = h"; cases "d = h") auto
    qed
    show "\<exists>d < length ?t. slot_of ?t d = j" if "j \<in> insert i S" for j
    proof (cases "j = i")
      case False
      with that obtain d where "d < ?n" "slot_of table d = j" "j \<noteq> 0"
        using hash_ok_slot [OF ok, of j] by blast
      with h show ?thesis by (intro exI [of _ d]) auto
    qed (use h in auto)
    show "slot_of ?t s \<noteq> 0"
      if "d < length ?t" "slot_of ?t d \<noteq> 0" "s < length ?t"
        "dist (length ?t) (home ?t (slot_of ?t d)) s < dist (length ?t) (home ?t (slot_of ?t d)) d"
      for d s
    proof (cases "d = h")
      case True
      with that h path i(1) show ?thesis by auto
    next
      case False
      with that h i(1) hash_okD(2) [OF ok, of d s] show ?thesis by auto
    qed
  qed
  with ins h show ?thesis by (auto intro: same_entries_put_index)
qed

subsection \<open>Deletion\<close>

lemma hash_ok_slot_ex: "hash_ok table S \<Longrightarrow> i \<in> S \<Longrightarrow> \<exists>d < length table. slot_of table d = i"
  by (erule hash_ok_slot) auto

definition on_path :: "ipc_entry list \<Rightarrow> nat \<Rightarrow> nat \<Rightarrow> bool" where
  "on_path table d s \<longleftrightarrow>
     dist (length table) (home table (slot_of table d)) s <
     dist (length table) (home table (slot_of table d)) d"

text \<open>
  The state inside a deletion: slot \<open>h\<close> is a hole whose content does not count, and the clump is
  scanned for \<open>k\<close> slots after it.
\<close>

definition hole_ok :: "ipc_entry list \<Rightarrow> nat set \<Rightarrow> nat \<Rightarrow> bool" where
  "hole_ok table S h \<longleftrightarrow>
     slots_ok table S \<and> h < length table \<and>
     (\<forall>d < length table. d \<noteq> h \<longrightarrow> slot_of table d \<noteq> 0 \<longrightarrow> slot_of table d \<in> S) \<and>
     (\<forall>c < length table. \<forall>d < length table. c \<noteq> h \<longrightarrow> d \<noteq> h \<longrightarrow> slot_of table d \<noteq> 0 \<longrightarrow>
        slot_of table c = slot_of table d \<longrightarrow> c = d) \<and>
     (\<forall>i \<in> S. \<exists>d < length table. d \<noteq> h \<and> slot_of table d = i) \<and>
     (\<forall>d < length table. d \<noteq> h \<longrightarrow> slot_of table d \<noteq> 0 \<longrightarrow>
        (\<forall>s < length table. on_path table d s \<longrightarrow> slot_of table s \<noteq> 0 \<or> s = h))"

definition scanned :: "ipc_entry list \<Rightarrow> nat \<Rightarrow> nat \<Rightarrow> bool" where
  "scanned table h k \<longleftrightarrow>
     (\<forall>d < length table. 0 < dist (length table) h d \<longrightarrow> dist (length table) h d < k \<longrightarrow>
        slot_of table d \<noteq> 0 \<and> \<not> on_path table d h)"

lemma hole_okD:
  assumes "hole_ok table S h"
  shows "slots_ok table S" and "h < length table"
    and "\<And>d. d < length table \<Longrightarrow> d \<noteq> h \<Longrightarrow> slot_of table d \<noteq> 0 \<Longrightarrow> slot_of table d \<in> S"
    and "\<And>c d. c < length table \<Longrightarrow> d < length table \<Longrightarrow> c \<noteq> h \<Longrightarrow> d \<noteq> h \<Longrightarrow> slot_of table d \<noteq> 0 \<Longrightarrow>
      slot_of table c = slot_of table d \<Longrightarrow> c = d"
    and "\<And>i. i \<in> S \<Longrightarrow> \<exists>d < length table. d \<noteq> h \<and> slot_of table d = i"
    and "\<And>d s. d < length table \<Longrightarrow> d \<noteq> h \<Longrightarrow> slot_of table d \<noteq> 0 \<Longrightarrow> s < length table \<Longrightarrow>
      on_path table d s \<Longrightarrow> slot_of table s \<noteq> 0 \<or> s = h"
  using assms unfolding hole_ok_def by blast+

lemma hole_ok_init:
  assumes ok: "hash_ok table S" and h: "h < length table" "slot_of table h = i" "i \<in> S"
  shows "hole_ok table (S - {i}) h"
  unfolding hole_ok_def
proof (intro conjI allI impI ballI)
  have i: "i \<noteq> 0" using ok h(3) by (auto simp: hash_ok_def slots_ok_def)
  show "slots_ok table (S - {i})" using hash_okD(1) [OF ok] by (auto simp: slots_ok_def)
  show "h < length table" by (rule h(1))
  show "slot_of table d \<in> S - {i}" if "d < length table" "d \<noteq> h" "slot_of table d \<noteq> 0" for d
  proof -
    have "slot_of table d \<noteq> i" using hash_ok_inj [OF ok that(1) h(1)] that(2) h(2) i by metis
    with hash_ok_entry(1) [OF ok that(1,3)] show ?thesis by blast
  qed
  show "c = d" if "c < length table" "d < length table" "slot_of table d \<noteq> 0"
    "slot_of table c = slot_of table d" for c d
    by (rule hash_ok_inj [OF ok that(1,2,4,3)])
  show "\<exists>d < length table. d \<noteq> h \<and> slot_of table d = j" if "j \<in> S - {i}" for j
  proof -
    from that have j: "j \<in> S" "j \<noteq> i" by auto
    obtain d where "d < length table" "slot_of table d = j" using hash_ok_slot_ex [OF ok j(1)] by auto
    with j h(2) show ?thesis by (intro exI [of _ d]) auto
  qed
  show "slot_of table s \<noteq> 0 \<or> s = h"
    if "d < length table" "slot_of table d \<noteq> 0" "s < length table" "on_path table d s" for d s
    using hash_okD(2) [OF ok that(1,2,3)] that(4) by (simp add: on_path_def)
qed

lemma dist_between:
  "h < n \<Longrightarrow> d < n \<Longrightarrow> e < n \<Longrightarrow> dist n h d < dist n h e \<Longrightarrow> next_slot n d \<noteq> h \<and>
   dist n h (next_slot n d) = Suc (dist n h d) \<and> dist n d e = Suc (dist n (next_slot n d) e)"
  by (auto simp: dist_def next_slot_def split: if_splits)

lemma dist_path_trans:
  "a < n \<Longrightarrow> h < n \<Longrightarrow> d < n \<Longrightarrow> c < n \<Longrightarrow> dist n a h < dist n a c \<Longrightarrow> dist n h d < dist n h c \<Longrightarrow>
   dist n a d < dist n a c"
  by (auto simp: dist_def split: if_splits)

lemma local_delete_scan_spec:
  assumes hole: "hole_ok table S h" and e: "e < length table" "slot_of table e = 0"
  shows "d < length table \<Longrightarrow> dist (length table) h d < dist (length table) h e \<Longrightarrow>
    scanned table h (Suc (dist (length table) h d)) \<Longrightarrow>
    \<exists>d' i. local_delete_scan table h d = Some (d', i) \<and> d' < length table \<and> d' \<noteq> h \<and>
      slot_of table d' = i \<and> dist (length table) h d' \<le> dist (length table) h e \<and>
      scanned table h (dist (length table) h d') \<and> (i = 0 \<or> on_path table d' h)"
proof (induction "dist (length table) d e" arbitrary: d)
  case 0
  then have "d = e" using e dist_eq_0 by metis
  with "0.prems" show ?case by simp
next
  case (Suc k)
  let ?n = "length table" and ?d = "next_slot (length table) d"
  note hole' = hole_okD [OF hole]
  note b = dist_between [OF hole'(2) Suc.prems(1) e(1) Suc.prems(2)]
  have dn: "?d < ?n" by (rule next_slot_less [OF Suc.prems(1)])
  have le: "dist ?n h ?d \<le> dist ?n h e" using b Suc.prems(2) by simp
  have sc: "scanned table h (dist ?n h ?d)" using Suc.prems(3) b by simp
  show ?case
  proof (cases "slot_of table ?d = 0")
    case True
    then have "local_delete_scan table h d = Some (?d, 0)"
      using dn b by (simp add: local_delete_scan.simps [of table h d] Let_def)
    with True dn b le sc show ?thesis by auto
  next
    case False
    let ?i = "slot_of table ?d"
    have "?i \<in> S" using hole'(3) [OF dn] b False by blast
    then have i: "?i < ?n" "ie_object (table ! ?i) \<noteq> IO_NULL"
      using hole'(1) by (auto simp: slots_ok_def)
    have home: "home table ?i < ?n" using i by (intro home_less) auto
    have disp: "displaced ?d h (IH_LOCAL_HASH (ie_object (table ! ?i)) ?n) \<longleftrightarrow> on_path table ?d h"
      using displaced_dist [OF dn hole'(2) home] b unfolding on_path_def home_def by simp
    show ?thesis
    proof (cases "on_path table ?d h")
      case True
      then have "local_delete_scan table h d = Some (?d, ?i)"
        using dn b False i disp by (simp add: local_delete_scan.simps [of table h d] Let_def)
      with True dn b le sc show ?thesis by auto
    next
      case nop: False
      have step: "local_delete_scan table h d = local_delete_scan table h ?d"
        using dn b False i disp nop by (simp add: local_delete_scan.simps [of table h d] Let_def)
      have "?d \<noteq> e" using False e by auto
      then have lt: "dist ?n h ?d < dist ?n h e"
        using le dist_inj [OF hole'(2) dn e(1)] by (auto simp: le_less)
      have "scanned table h (Suc (dist ?n h ?d))"
        using sc False nop dist_inj [OF hole'(2) _ dn] unfolding scanned_def
        by (metis less_Suc_eq)
      moreover have "k = dist ?n ?d e" using Suc.hyps(2) b by simp
      ultimately show ?thesis using Suc.hyps(1) [OF _ dn lt] step by simp
    qed
  qed
qed

lemma hole_close:
  assumes hole: "hole_ok table S h" and d: "d < length table" "d \<noteq> h" "slot_of table d = 0"
    and sc: "scanned table h (dist (length table) h d)"
  shows "hash_ok (put_index table h 0) S"
proof (rule hash_okI)
  let ?t = "put_index table h 0" and ?n = "length table"
  note hole' = hole_okD [OF hole]
  have S0: "0 \<notin> S" using hole'(1) by (auto simp: slots_ok_def)
  show "slots_ok ?t S" using hole'(1) by simp
  show "slot_of ?t c \<in> S" if "c < length ?t" "slot_of ?t c \<noteq> 0" for c
    using that hole'(2) hole'(3) [of c] by (simp split: if_splits)
  show "x = c" if "x < length ?t" "c < length ?t" "slot_of ?t x = slot_of ?t c" "slot_of ?t c \<noteq> 0" for x c
    using that hole'(2) hole'(4) [of x c] by (auto split: if_splits)
  show "\<exists>c < length ?t. slot_of ?t c = i" if "i \<in> S" for i
    using hole'(5) [OF that] hole'(2) by auto
  show "slot_of ?t s \<noteq> 0"
    if "c < length ?t" "slot_of ?t c \<noteq> 0" "s < length ?t"
      "dist (length ?t) (home ?t (slot_of ?t c)) s < dist (length ?t) (home ?t (slot_of ?t c)) c"
    for c s
  proof -
    have c: "c < ?n" "c \<noteq> h" "slot_of table c \<noteq> 0" and s: "s < ?n" "on_path table c s"
      using that hole'(2) by (auto simp: on_path_def split: if_splits)
    have a: "home table (slot_of table c) < ?n" using c(1) by (intro home_less) auto
    have "\<not> on_path table c h"
    proof
      assume onp: "on_path table c h"
      have "dist ?n h c \<noteq> 0" using dist_eq_0 [OF hole'(2) c(1)] c(2) by auto
      then have "\<not> dist ?n h c < dist ?n h d" using sc onp c unfolding scanned_def by auto
      moreover have "c \<noteq> d" using c d by auto
      ultimately have "dist ?n h d < dist ?n h c"
        using dist_inj [OF hole'(2) d(1) c(1)] by (metis linorder_neqE_nat)
      then have "on_path table c d"
        using onp dist_path_trans [OF a hole'(2) d(1) c(1)] unfolding on_path_def by blast
      with hole'(6) [OF c d(1)] d show False by auto
    qed
    with s have "s \<noteq> h" by auto
    with hole'(6) [OF c s] hole'(2) show ?thesis by simp
  qed
qed

lemma hole_move:
  assumes hole: "hole_ok table S h" and d: "d < length table" "d \<noteq> h" "slot_of table d \<noteq> 0"
    and onp: "on_path table d h"
  shows "hole_ok (put_index table h (slot_of table d)) S d"
  unfolding hole_ok_def
proof (intro conjI allI impI ballI)
  let ?i = "slot_of table d" and ?n = "length table"
  let ?t = "put_index table h ?i"
  note hole' = hole_okD [OF hole]
  show "slots_ok ?t S" using hole'(1) by simp
  show "d < length ?t" using d by simp
  show "slot_of ?t c \<in> S" if "c < length ?t" "c \<noteq> d" "slot_of ?t c \<noteq> 0" for c
    using that hole'(2) hole'(3) [of c] hole'(3) [OF d] by (cases "c = h") auto
  show "x = c" if "x < length ?t" "c < length ?t" "x \<noteq> d" "c \<noteq> d" "slot_of ?t c \<noteq> 0"
    "slot_of ?t x = slot_of ?t c" for x c
  proof (cases "x = h \<or> c = h")
    case True
    with that hole'(2) hole'(4) [of x d] hole'(4) [of c d] d show ?thesis by (auto split: if_splits)
  next
    case False
    with that hole'(2) hole'(4) [of x c] show ?thesis by auto
  qed
  show "\<exists>c < length ?t. c \<noteq> d \<and> slot_of ?t c = j" if "j \<in> S" for j
  proof (cases "j = ?i")
    case True
    with d hole'(2) show ?thesis by (intro exI [of _ h]) auto
  next
    case False
    with hole'(5) [OF that] hole'(2) show ?thesis by auto
  qed
  show "slot_of ?t s \<noteq> 0 \<or> s = d"
    if "c < length ?t" "c \<noteq> d" "slot_of ?t c \<noteq> 0" "s < length ?t" "on_path ?t c s" for c s
  proof (cases "c = h")
    case True
    then have "dist ?n (home table ?i) s < dist ?n (home table ?i) h"
      using that(5) hole'(2) by (simp add: on_path_def)
    then have "on_path table d s" and "s \<noteq> h" using onp by (auto simp: on_path_def)
    with hole'(6) [OF d, of s] that(4) hole'(2) show ?thesis by auto
  next
    case False
    then have "on_path table c s" using that(5) hole'(2) by (simp add: on_path_def)
    with False hole'(6) [of c s] that hole'(2) d show ?thesis by auto
  qed
qed

lemma local_delete_fill_spec:
  assumes e: "e < length table" "e \<noteq> h" "slot_of table e = 0"
    and hole: "hole_ok table S h" and "i \<noteq> 0"
  shows "\<exists>table'. local_delete_fill table h h i = Some table' \<and> hash_ok table' S \<and> same_entries table table'"
  using assms
proof (induction "dist (length table) h e" arbitrary: table h i rule: less_induct)
  case less
  let ?n = "length table"
  note hole' = hole_okD [OF less.prems(4)]
  have "0 < dist ?n h e" using less.prems(1,2) dist_eq_0 [OF hole'(2)] by (metis not_gr_zero)
  moreover have "scanned table h (Suc (dist ?n h h))" by (simp add: scanned_def)
  ultimately obtain d j where scan: "local_delete_scan table h h = Some (d, j)"
    and d: "d < ?n" "d \<noteq> h" "slot_of table d = j" and le: "dist ?n h d \<le> dist ?n h e"
    and sc: "scanned table h (dist ?n h d)" and j: "j = 0 \<or> on_path table d h"
    using local_delete_scan_spec [OF less.prems(4,1,3) hole'(2)] by auto
  let ?t = "put_index table h j"
  have step: "local_delete_fill table h h i = local_delete_fill ?t d d j"
    using less.prems(5) scan hole'(2)
    by (simp add: local_delete_fill.simps [of table h h i] set_ie_index_eq)
  show ?case
  proof (cases "j = 0")
    case True
    with step hole_close [OF less.prems(4) d(1,2) _ sc] d show ?thesis
      by (auto simp: local_delete_fill.simps [of _ _ _ 0] same_entries_put_index)
  next
    case False
    then have hole2: "hole_ok ?t S d" using hole_move [OF less.prems(4) d(1,2)] d j by auto
    have ed: "e \<noteq> d" using less.prems(3) d False by auto
    then have "dist ?n d e < dist ?n h e"
      using le d hole'(2) less.prems(1,2) by (auto simp: dist_def split: if_splits)
    then have "\<exists>t'. local_delete_fill ?t d d j = Some t' \<and> hash_ok t' S \<and> same_entries ?t t'"
      using less.hyps [of ?t d j] less.prems(1,2,3) ed hole2 False hole'(2) by auto
    with step show ?thesis
      by (metis same_entries_put_index same_entries_trans)
  qed
qed

lemma local_delete_find_hit:
  assumes d: "d < length table" "slot_of table d = i" "i \<noteq> 0"
    and uniq: "\<And>h. h < length table \<Longrightarrow> slot_of table h = i \<Longrightarrow> h = d"
    and path: "\<And>s. s < length table \<Longrightarrow>
      dist (length table) a s < dist (length table) a d \<Longrightarrow> slot_of table s \<noteq> 0"
    and a: "a < length table"
  shows "h < length table \<Longrightarrow> dist (length table) a h \<le> dist (length table) a d \<Longrightarrow>
    local_delete_find table i h = Some (Some d)"
proof (induction "dist (length table) h d" arbitrary: h)
  case 0
  then have "h = d" using d dist_eq_0 by metis
  with d show ?case by (simp add: local_delete_find.simps [of table _ d])
next
  case (Suc k)
  let ?n = "length table"
  have "h \<noteq> d" using Suc.hyps(2) by auto
  then have lt: "dist ?n a h < dist ?n a d"
    using Suc.prems dist_inj [of a ?n h d] a d by (auto simp: le_less)
  note step = path_step [OF a Suc.prems(1) d(1) lt]
  have j: "slot_of table h \<noteq> 0" "slot_of table h \<noteq> i"
    using path [OF Suc.prems(1) lt] uniq [OF Suc.prems(1)] \<open>h \<noteq> d\<close> by auto
  have "k = dist ?n (next_slot ?n h) d" using Suc.hyps(2) step(3) by simp
  with Suc.hyps(1) [of "next_slot ?n h"] step(1,2) lt j Suc.prems(1) show ?case
    by (simp add: local_delete_find.simps [of table _ h])
qed

lemma local_delete_find_miss:
  assumes none: "\<And>h. h < length table \<Longrightarrow> slot_of table h \<noteq> i"
    and e: "e < length table" "slot_of table e = 0"
  shows "h < length table \<Longrightarrow> local_delete_find table i h = Some None"
proof (induction "dist (length table) h e" arbitrary: h)
  case 0
  then have "h = e" using e dist_eq_0 by metis
  with e none [OF e(1)] show ?case by (simp add: local_delete_find.simps [of table _ e])
next
  case (Suc k)
  show ?case
  proof (cases "slot_of table h = 0")
    case True
    with Suc.prems none [OF Suc.prems] show ?thesis by (simp add: local_delete_find.simps [of table _ h])
  next
    case False
    then have "h \<noteq> e" using e by auto
    with Suc.hyps(2) have "k = dist (length table) (next_slot (length table) h) e"
      using dist_next [OF Suc.prems e(1)] by simp
    with Suc.hyps(1) [of "next_slot (length table) h"] next_slot_less [OF Suc.prems] none [OF Suc.prems]
      False Suc.prems show ?thesis
      by (simp add: local_delete_find.simps [of table _ h])
  qed
qed

lemma ipc_hash_local_delete_ok:
  assumes ok: "hash_ok table S" and i: "i \<in> S"
  shows "\<exists>table'. ipc_hash_local_delete table (ie_object (table ! i)) i = Some table' \<and>
    hash_ok table' (S - {i}) \<and> same_entries table table'"
  using ok i
proof (rule hash_ok_slot)
  fix d
  assume d: "d < length table" "slot_of table d = i" "i \<noteq> 0" "i < length table"
    and path: "\<And>s. s < length table \<Longrightarrow>
      dist (length table) (home table i) s < dist (length table) (home table i) d \<Longrightarrow> slot_of table s \<noteq> 0"
  have ne: "table \<noteq> []" using d by auto
  have nn: "ie_object (table ! i) \<noteq> IO_NULL" using ok i by (auto simp: hash_ok_def slots_ok_def)
  have uniq: "h = d" if "h < length table" "slot_of table h = i" for h
    using hash_ok_inj [OF ok that(1) d(1)] that(2) d(2,3) by simp
  have find: "local_delete_find table i (home table i) = Some (Some d)"
    using local_delete_find_hit [OF d(1-3) uniq path home_less [OF ne] home_less [OF ne]] by simp
  obtain e where e: "e < length table" "slot_of table e = 0" using hash_ok_empty_slot [OF ok ne] .
  have "e \<noteq> d" using e d by auto
  from local_delete_fill_spec [OF e(1) this e(2) hole_ok_init [OF ok d(1,2) i] d(3)] find d nn
  show ?thesis by (simp add: ipc_hash_local_delete_def home_def)
qed

lemma ipc_hash_local_delete_absent:
  assumes ok: "hash_ok table S" and i: "i \<notin> S" "0 < i" "i < length table"
    and obj: "ie_object (table ! i) = obj" "obj \<noteq> IO_NULL"
  shows "ipc_hash_local_delete table obj i = Some table"
proof -
  have ne: "table \<noteq> []" using i by auto
  have none: "slot_of table h \<noteq> i" if "h < length table" for h
    using hash_ok_entry(1) [OF ok that] i by (cases "slot_of table h = 0") auto
  obtain e where e: "e < length table" "slot_of table e = 0" using hash_ok_empty_slot [OF ok ne] .
  have "local_delete_find table i (home table i) = Some None"
    by (rule local_delete_find_miss [OF none e home_less [OF ne]])
  with i obj show ?thesis by (simp add: ipc_hash_local_delete_def home_def)
qed

lemma hash_ok_cong:
  assumes ok: "hash_ok table S" and len: "length table' = length table"
    and idx: "\<And>h. h < length table \<Longrightarrow> slot_of table' h = slot_of table h"
    and obj: "\<And>i. i \<in> S \<Longrightarrow> ie_object (table' ! i) = ie_object (table ! i)"
  shows "hash_ok table' S"
proof (rule hash_okI)
  have home: "home table' i = home table i" if "i \<in> S" for i
    using obj [OF that] len by (simp add: home_def)
  show "slots_ok table' S" using hash_okD(1) [OF ok] len obj by (auto simp: slots_ok_def)
  show "slot_of table' h \<in> S" if "h < length table'" "slot_of table' h \<noteq> 0" for h
    using that hash_ok_entry(1) [OF ok] len idx by simp
  show "h = d" if "h < length table'" "d < length table'" "slot_of table' h = slot_of table' d"
    "slot_of table' d \<noteq> 0" for h d
    using hash_ok_inj [OF ok, of h d] that len idx by simp
  show "\<exists>d < length table'. slot_of table' d = i" if "i \<in> S" for i
    using hash_ok_slot_ex [OF ok that] len idx by auto
  show "slot_of table' s \<noteq> 0"
    if "d < length table'" "slot_of table' d \<noteq> 0" "s < length table'"
      "dist (length table') (home table' (slot_of table' d)) s <
       dist (length table') (home table' (slot_of table' d)) d" for d s
  proof -
    have "slot_of table d \<noteq> 0" and "d < length table" using that len idx by auto
    moreover from this have "home table' (slot_of table d) = home table (slot_of table d)"
      using hash_ok_entry(1) [OF ok] home by blast
    ultimately show ?thesis using hash_okD(2) [OF ok, of d s] that len idx by simp
  qed
qed

subsection \<open>The contract of a reverse table\<close>

text \<open>
  Both tables promise the same: they represent a partial map from objects to keys (an index of the
  entry table, a name in the tree), on which lookup, insertion and deletion act as on a map.
\<close>

locale reverse_map =
  fixes rep :: "'t \<Rightarrow> (ptr \<rightharpoonup> 'k) \<Rightarrow> bool"
    and can :: "'t \<Rightarrow> ptr \<Rightarrow> 'k \<Rightarrow> bool"
    and lkp :: "'t \<Rightarrow> ptr \<Rightarrow> ('k option \<times> 't) option"
    and ins :: "'t \<Rightarrow> ptr \<Rightarrow> 'k \<Rightarrow> 't option"
    and del :: "'t \<Rightarrow> ptr \<Rightarrow> 'k \<Rightarrow> 't option"
  assumes lookup_law: "rep t m \<Longrightarrow> obj \<noteq> IO_NULL \<Longrightarrow> \<exists>t'. lkp t obj = Some (m obj, t') \<and> rep t' m"
    and insert_law: "rep t m \<Longrightarrow> can t obj k \<Longrightarrow> obj \<noteq> IO_NULL \<Longrightarrow> m obj = None \<Longrightarrow> k \<notin> ran m \<Longrightarrow>
      \<exists>t'. ins t obj k = Some t' \<and> rep t' (m(obj \<mapsto> k))"
    and delete_law: "rep t m \<Longrightarrow> m obj = Some k \<Longrightarrow> \<exists>t'. del t obj k = Some t' \<and> rep t' (m(obj := None))"
begin

lemma insert_then_lookup:
  assumes "rep t m" and "can t obj k" and "obj \<noteq> IO_NULL" and "m obj = None" and "k \<notin> ran m"
  shows "\<exists>t'. ins t obj k = Some t' \<and> rep t' (m(obj \<mapsto> k)) \<and>
    (\<forall>o'. o' \<noteq> IO_NULL \<longrightarrow> map_option fst (lkp t' o') = Some (if o' = obj then Some k else m o'))"
proof -
  obtain t' where t': "ins t obj k = Some t'" "rep t' (m(obj \<mapsto> k))" using insert_law [OF assms] by blast
  have "map_option fst (lkp t' o') = Some (if o' = obj then Some k else m o')" if "o' \<noteq> IO_NULL" for o'
    using lookup_law [OF t'(2) that] by auto
  with t' show ?thesis by blast
qed

lemma delete_then_lookup:
  assumes "rep t m" and "m obj = Some k"
  shows "\<exists>t'. del t obj k = Some t' \<and> rep t' (m(obj := None)) \<and>
    (\<forall>o'. o' \<noteq> IO_NULL \<longrightarrow> map_option fst (lkp t' o') = Some (if o' = obj then None else m o'))"
proof -
  obtain t' where t': "del t obj k = Some t'" "rep t' (m(obj := None))" using delete_law [OF assms] by blast
  have "map_option fst (lkp t' o') = Some (if o' = obj then None else m o')" if "o' \<noteq> IO_NULL" for o'
    using lookup_law [OF t'(2) that] by auto
  with t' show ?thesis by blast
qed

lemma insert_delete_round_trip:
  assumes "rep t m" and "can t obj k" and "obj \<noteq> IO_NULL" and "m obj = None" and "k \<notin> ran m"
  shows "\<exists>t1 t2. ins t obj k = Some t1 \<and> del t1 obj k = Some t2 \<and> rep t2 m"
proof -
  obtain t1 where t1: "ins t obj k = Some t1" "rep t1 (m(obj \<mapsto> k))" using insert_law [OF assms] by blast
  then obtain t2 where "del t1 obj k = Some t2" "rep t2 ((m(obj \<mapsto> k))(obj := None))"
    using delete_law [OF t1(2), of obj k] by auto
  with t1 assms(4) show ?thesis by (auto simp: fun_upd_idem)
qed

end

definition loc_rep :: "ipc_entry list \<Rightarrow> (ptr \<rightharpoonup> nat) \<Rightarrow> bool" where
  "loc_rep table m \<longleftrightarrow>
     table \<noteq> [] \<and> hash_ok table (ran m) \<and> (\<forall>obj i. m obj = Some i \<longrightarrow> ie_object (table ! i) = obj)"

definition loc_can :: "ipc_entry list \<Rightarrow> ptr \<Rightarrow> nat \<Rightarrow> bool" where
  "loc_can table obj i \<longleftrightarrow> 0 < i \<and> i < length table \<and> ie_object (table ! i) = obj"

definition loc_lookup :: "ipc_entry list \<Rightarrow> ptr \<Rightarrow> (nat option \<times> ipc_entry list) option" where
  "loc_lookup table obj = map_option (\<lambda>r. (map_option snd r, table)) (ipc_hash_local_lookup table obj)"

lemma loc_rep_cong:
  assumes "same_entries t t'" and "t \<noteq> []" and "hash_ok t' (ran m)" and "ran m \<subseteq> {..<length t}"
    and "\<And>obj i. m obj = Some i \<Longrightarrow> ie_object (t ! i) = obj"
  shows "loc_rep t' m"
proof -
  have "t' \<noteq> []" using same_entries_length [OF assms(1)] assms(2) by auto
  moreover have "ie_object (t' ! i) = obj" if "m obj = Some i" for obj i
    using same_entries_nth(2) [OF assms(1), of i] assms(4,5) that by (auto simp: ran_def)
  ultimately show ?thesis using assms(3) by (simp add: loc_rep_def)
qed

interpretation loc: reverse_map loc_rep loc_can loc_lookup ipc_hash_local_insert ipc_hash_local_delete
proof
  fix t m obj k
  assume rep: "loc_rep t m"
  then have ok: "hash_ok t (ran m)" and ne: "t \<noteq> []"
    and mo: "\<And>obj i. m obj = Some i \<Longrightarrow> ie_object (t ! i) = obj" by (auto simp: loc_rep_def)
  have sub: "ran m \<subseteq> {..<length t}" using ok by (auto simp: hash_ok_def slots_ok_def)
  show "\<exists>t'. loc_lookup t obj = Some (m obj, t') \<and> loc_rep t' m" if nn: "obj \<noteq> IO_NULL"
  proof (cases "m obj")
    case None
    then have "ie_object (t ! i) \<noteq> obj" if "i \<in> ran m" for i
      using that mo by (auto simp: ran_def)
    from ipc_hash_local_lookup_miss [OF ok ne nn this] None rep show ?thesis
      by (simp add: loc_lookup_def)
  next
    case (Some i)
    then have "i \<in> ran m" by (auto simp: ran_def)
    from ipc_hash_local_lookup_hit [OF ok this] mo [OF Some] Some rep show ?thesis
      by (simp add: loc_lookup_def)
  qed
  show "\<exists>t'. ipc_hash_local_insert t obj k = Some t' \<and> loc_rep t' (m(obj \<mapsto> k))"
    if can: "loc_can t obj k" and nn: "obj \<noteq> IO_NULL" and new: "m obj = None" "k \<notin> ran m"
  proof -
    have other: "ie_object (t ! j) \<noteq> obj" if "j \<in> ran m" for j
      using that mo new(1) by (auto simp: ran_def)
    obtain t' where t': "ipc_hash_local_insert t obj k = Some t'" "hash_ok t' (insert k (ran m))"
      "same_entries t t'"
      using ipc_hash_local_insert_ok [OF ok _ _ new(2) _ nn other] can by (auto simp: loc_can_def)
    have "loc_rep t' (m(obj \<mapsto> k))"
    proof (rule loc_rep_cong [OF t'(3) ne])
      show "hash_ok t' (ran (m(obj \<mapsto> k)))" using t'(2) new(1) by simp
      show "ran (m(obj \<mapsto> k)) \<subseteq> {..<length t}" using sub can new(1) by (simp add: loc_can_def)
      show "ie_object (t ! i) = o'" if "(m(obj \<mapsto> k)) o' = Some i" for o' i
        using that can mo [of o' i] by (simp add: loc_can_def split: if_splits)
    qed
    with t'(1) show ?thesis by blast
  qed
  show "\<exists>t'. ipc_hash_local_delete t obj k = Some t' \<and> loc_rep t' (m(obj := None))"
    if some: "m obj = Some k"
  proof -
    have k: "k \<in> ran m" "ie_object (t ! k) = obj" using some mo by (auto simp: ran_def)
    have "o' = obj" if "m o' = Some k" for o' using mo [OF that] k(2) by simp
    then have ran: "ran (m(obj := None)) = ran m - {k}" by (rule ran_delete [of m obj k, OF some])
    obtain t' where t': "ipc_hash_local_delete t obj k = Some t'" "hash_ok t' (ran m - {k})"
      "same_entries t t'"
      using ipc_hash_local_delete_ok [OF ok k(1)] k(2) by auto
    have "loc_rep t' (m(obj := None))"
    proof (rule loc_rep_cong [OF t'(3) ne], unfold ran)
      show "hash_ok t' (ran m - {k})" by (rule t'(2))
      show "ran m - {k} \<subseteq> {..<length t}" using sub by blast
      show "ie_object (t ! i) = o'" if "(m(obj := None)) o' = Some i" for o' i
        using that mo [of o' i] by (simp split: if_splits)
    qed
    with t'(1) show ?thesis by blast
  qed
qed

subsection \<open>Properties of the local table\<close>

text \<open>A table of size 4 with two objects whose home is slot 1, for the witnesses.\<close>

definition hash_example :: "ipc_entry list" where
  "hash_example =
    [\<lparr>ie_bits = 0, ie_object = 0, ie_request = 3, ie_index = 0\<rparr>,
     \<lparr>ie_bits = 0x10001, ie_object = 0x40, ie_request = 0, ie_index = 1\<rparr>,
     \<lparr>ie_bits = 0x10001, ie_object = 0x140, ie_request = 0, ie_index = 2\<rparr>,
     \<lparr>ie_bits = 0x10001, ie_object = 0x240, ie_request = 0, ie_index = 0\<rparr>]"

lemma less_4: "(h::nat) < 4 \<longleftrightarrow> h = 0 \<or> h = 1 \<or> h = 2 \<or> h = 3"
  by auto

lemma hash_example_ok: "hash_ok hash_example {1, 2}"
proof (rule hash_okI)
  have len: "length hash_example = 4" by (simp add: hash_example_def)
  have nth: "hash_example ! 0 = \<lparr>ie_bits = 0, ie_object = 0, ie_request = 3, ie_index = 0\<rparr>"
    "hash_example ! 1 = \<lparr>ie_bits = 0x10001, ie_object = 0x40, ie_request = 0, ie_index = 1\<rparr>"
    "hash_example ! 2 = \<lparr>ie_bits = 0x10001, ie_object = 0x140, ie_request = 0, ie_index = 2\<rparr>"
    "hash_example ! 3 = \<lparr>ie_bits = 0x10001, ie_object = 0x240, ie_request = 0, ie_index = 0\<rparr>"
    by (simp_all add: hash_example_def)
  have home: "home hash_example 1 = 1" "home hash_example 2 = 1"
    unfolding home_def nth len IH_LOCAL_HASH_def by code_simp+
  show "slots_ok hash_example {1, 2}" using nth by (simp add: slots_ok_def len IO_NULL_def)
  show "slot_of hash_example h \<in> {1, 2}" if "h < length hash_example" "slot_of hash_example h \<noteq> 0" for h
    using that nth unfolding len less_4 by auto
  show "h = d" if "h < length hash_example" "d < length hash_example"
    "slot_of hash_example h = slot_of hash_example d" "slot_of hash_example d \<noteq> 0" for h d
    using that nth unfolding len less_4 by auto
  show "\<exists>d < length hash_example. slot_of hash_example d = i" if "i \<in> {1, 2}" for i
    using that nth unfolding len by (intro exI [of _ i]) auto
  show "slot_of hash_example s \<noteq> 0" if "d < length hash_example" "slot_of hash_example d \<noteq> 0"
    "s < length hash_example"
    "dist (length hash_example) (home hash_example (slot_of hash_example d)) s <
     dist (length hash_example) (home hash_example (slot_of hash_example d)) d" for d s
  proof -
    have "d = 1 \<or> d = 2" using that(1,2) nth unfolding len less_4 by auto
    with that(3,4) nth home show ?thesis unfolding len less_4 by (auto simp: dist_def)
  qed
qed

text \<open>
  Deleting an entry from a well-formed local reverse hash table returns, removes that entry and
  no other, whatever the collisions: afterwards a lookup of its object fails and a lookup of every
  other hashed object still finds its entry, and only \<open>ie_index\<close> fields were written.
\<close>

theorem hash_local_delete_exact:
  assumes "hash_ok table S" and "i \<in> S"
  shows "\<exists>table'. ipc_hash_local_delete table (ie_object (table ! i)) i = Some table' \<and>
    hash_ok table' (S - {i}) \<and> same_entries table table' \<and>
    ipc_hash_local_lookup table' (ie_object (table ! i)) = Some None \<and>
    (\<forall>j \<in> S - {i}. ipc_hash_local_lookup table' (ie_object (table ! j)) =
       Some (Some (MACH_PORT_MAKEB (of_nat j) (ie_bits (table ! j)), j)))"
proof -
  obtain table' where d: "ipc_hash_local_delete table (ie_object (table ! i)) i = Some table'"
    "hash_ok table' (S - {i})" "same_entries table table'"
    using ipc_hash_local_delete_ok [OF assms] by blast
  have in_range: "j < length table" if "j \<in> S" for j
    using hash_okD(1) [OF assms(1)] that by (auto simp: slots_ok_def)
  note same = same_entries_nth [OF d(3) in_range]
  have ne: "table' \<noteq> []" using same_entries_length [OF d(3)] in_range [OF assms(2)] by auto
  have "ipc_hash_local_lookup table' (ie_object (table ! i)) = Some None"
  proof (rule ipc_hash_local_lookup_miss [OF d(2) ne])
    show "ie_object (table ! i) \<noteq> IO_NULL" using hash_okD(1) [OF assms(1)] assms(2) by (auto simp: slots_ok_def)
    show "ie_object (table' ! j) \<noteq> ie_object (table ! i)" if "j \<in> S - {i}" for j
      using that same(2) [of j] hash_okD(1) [OF assms(1)] assms(2) by (auto simp: slots_ok_def)
  qed
  moreover have "\<forall>j \<in> S - {i}. ipc_hash_local_lookup table' (ie_object (table ! j)) =
      Some (Some (MACH_PORT_MAKEB (of_nat j) (ie_bits (table ! j)), j))"
    using ipc_hash_local_lookup_hit [OF d(2)] same(1,2) by auto
  ultimately show ?thesis using d by blast
qed

theorem hash_local_delete_exact_witness:
  "\<exists>table'. ipc_hash_local_delete hash_example 0x40 1 = Some table' \<and>
    ipc_hash_local_lookup table' 0x40 = Some None \<and>
    ipc_hash_local_lookup table' 0x140 = Some (Some (2, 2))"
proof -
  have "ie_object (hash_example ! 1) = 0x40" "ie_object (hash_example ! 2) = 0x140"
    and "(2::nat) \<in> {1, 2} - {1}"
    by (simp_all add: hash_example_def)
  moreover have "MACH_PORT_MAKEB (of_nat 2) (ie_bits (hash_example ! 2)) = 2"
    by (simp add: MACH_PORT_MAKEB_def MACH_PORT_MAKE_def PORT_GENERATIONS_def)
  ultimately show ?thesis
    using hash_local_delete_exact [OF hash_example_ok, of 1] by force
qed

text \<open>
  Entering a table entry into a well-formed local reverse hash table returns, and afterwards a
  lookup of its object finds it and a lookup of any other object gives what it gave before; only
  \<open>ie_index\<close> fields were written.
\<close>

theorem hash_local_insert_exact:
  assumes "hash_ok table S" and "0 < i" "i < length table" "i \<notin> S"
    and "ie_object (table ! i) = obj" "obj \<noteq> IO_NULL"
    and "\<forall>j \<in> S. ie_object (table ! j) \<noteq> obj"
  shows "\<exists>table'. ipc_hash_local_insert table obj i = Some table' \<and>
    hash_ok table' (insert i S) \<and> same_entries table table' \<and>
    ipc_hash_local_lookup table' obj = Some (Some (MACH_PORT_MAKEB (of_nat i) (ie_bits (table ! i)), i)) \<and>
    (\<forall>o'. o' \<noteq> obj \<longrightarrow> ipc_hash_local_lookup table' o' = ipc_hash_local_lookup table o')"
proof -
  obtain table' where d: "ipc_hash_local_insert table obj i = Some table'"
    "hash_ok table' (insert i S)" "same_entries table table'"
    using ipc_hash_local_insert_ok [OF assms(1-6)] assms(7) by blast
  have in_range: "j < length table" if "j \<in> insert i S" for j
    using hash_okD(1) [OF assms(1)] that assms(3) by (auto simp: slots_ok_def)
  note same = same_entries_nth [OF d(3) in_range]
  have ne: "table \<noteq> []" "table' \<noteq> []" using same_entries_length [OF d(3)] assms(3) by auto
  have "ipc_hash_local_lookup table' o' = ipc_hash_local_lookup table o'" if o': "o' \<noteq> obj" for o'
  proof (cases "o' = IO_NULL")
    case True
    then show ?thesis by (simp add: ipc_hash_local_lookup_def)
  next
    case nn: False
    show ?thesis
    proof (cases "\<exists>j \<in> S. ie_object (table ! j) = o'")
      case True
      then obtain j where "j \<in> S" "ie_object (table ! j) = o'" by blast
      then show ?thesis
        using ipc_hash_local_lookup_hit [OF assms(1), of j] ipc_hash_local_lookup_hit [OF d(2), of j]
          same(1,2) [of j] by simp
    next
      case False
      then have "\<And>j. j \<in> insert i S \<Longrightarrow> ie_object (table' ! j) \<noteq> o'"
        using same(2) o' assms(5) by (metis insert_iff)
      with False ipc_hash_local_lookup_miss [OF assms(1) ne(1) nn] ipc_hash_local_lookup_miss [OF d(2) ne(2) nn]
      show ?thesis by auto
    qed
  qed
  with d ipc_hash_local_lookup_hit [OF d(2), of i] same(1,2) [of i] assms(5) show ?thesis by auto
qed

theorem hash_local_insert_exact_witness:
  "\<exists>table'. ipc_hash_local_insert hash_example 0x240 3 = Some table' \<and>
    ipc_hash_local_lookup table' 0x240 = Some (Some (3, 3)) \<and>
    ipc_hash_local_lookup table' 0x140 = ipc_hash_local_lookup hash_example 0x140"
proof -
  have "ie_object (hash_example ! 1) = 0x40" "ie_object (hash_example ! 2) = 0x140"
    "ie_object (hash_example ! 3) = 0x240" "3 < length hash_example"
    by (simp_all add: hash_example_def)
  moreover have "MACH_PORT_MAKEB (of_nat 3) (ie_bits (hash_example ! 3)) = 3"
    by (simp add: MACH_PORT_MAKEB_def MACH_PORT_MAKE_def PORT_GENERATIONS_def)
  ultimately show ?thesis
    using hash_local_insert_exact [OF hash_example_ok, of 3 "0x240"] by (auto simp: IO_NULL_def)
qed

end
