(* ===== verification/Ipc_Hash.thy ===== *)
theory Ipc_Hash
  imports Ipc_Hash_Local "HOL-Library.Multiset"
begin

text \<open>
  The global reverse hash table of \<^verbatim>\<open>kernel/ipc/ipc_hash.c\<close> and the operations that
  choose between the local and the global table.

  The global table holds the tree entries of all spaces in chains with move-to-front. A chain
  element is the address of a tree entry; \<open>tree_ref\<close> gives the fields that the chain code reads
  through it (space and name identify the entry, and its object is fixed from insertion to
  deletion, which both assert it).
\<close>

subsection \<open>The chains\<close>

record tree_ref =
  tr_space :: ptr
  tr_name :: mach_port
  tr_object :: ptr

record ipc_hash_global =
  ipc_hash_global_size :: u32
  ipc_hash_global_mask :: u32
  ipc_hash_global_table :: "tree_ref list list"

definition IH_GLOBAL_HASH :: "u32 \<Rightarrow> ptr \<Rightarrow> ptr \<Rightarrow> nat" where
  "IH_GLOBAL_HASH msk space obj = unat ((drop_bit 4 space + drop_bit 6 obj) AND msk)"

fun chain_take :: "('a \<Rightarrow> bool) \<Rightarrow> 'a list \<Rightarrow> ('a \<times> 'a list) option" where
  "chain_take P [] = None"
| "chain_take P (this # rest) =
     (if P this then Some (this, rest)
      else map_option (map_prod id (Cons this)) (chain_take P rest))"

definition chain_lookup :: "('a \<Rightarrow> bool) \<Rightarrow> 'a list \<Rightarrow> ('a \<times> 'a list) option" where
  "chain_lookup P bucket =
     (case bucket of
        [] \<Rightarrow> None
      | this # rest \<Rightarrow>
          if P this then Some (this, bucket)
          else (case chain_take P rest of
                  None \<Rightarrow> None
                | Some (found, rest') \<Rightarrow> Some (found, found # this # rest')))"

definition set_bucket :: "ipc_hash_global \<Rightarrow> nat \<Rightarrow> tree_ref list \<Rightarrow> ipc_hash_global option" where
  "set_bucket g h bucket =
     map_option (\<lambda>t. g\<lparr>ipc_hash_global_table := t\<rparr>) (arr_set (ipc_hash_global_table g) h bucket)"

definition ipc_hash_global_lookup ::
  "ipc_hash_global \<Rightarrow> ptr \<Rightarrow> ptr \<Rightarrow> (mach_port option \<times> ipc_hash_global) option" where
  "ipc_hash_global_lookup g space obj =
     do { assert_that (space \<noteq> IS_NULL);
          assert_that (obj \<noteq> IO_NULL);
          let h = IH_GLOBAL_HASH (ipc_hash_global_mask g) space obj;
          bucket \<leftarrow> arr_get (ipc_hash_global_table g) h;
          case chain_lookup (\<lambda>this. tr_object this = obj \<and> tr_space this = space) bucket of
            None \<Rightarrow> Some (None, g)
          | Some (this, bucket') \<Rightarrow>
              do { g' \<leftarrow> set_bucket g h bucket'; Some (Some (tr_name this), g') } }"

text \<open>
  The chain part of insertion and deletion.
\<close>

definition global_chain_insert ::
  "ipc_hash_global \<Rightarrow> ptr \<Rightarrow> ptr \<Rightarrow> mach_port \<Rightarrow> ipc_hash_global option" where
  "global_chain_insert g space obj name =
     do { assert_that (space \<noteq> IS_NULL);
          assert_that (obj \<noteq> IO_NULL);
          let h = IH_GLOBAL_HASH (ipc_hash_global_mask g) space obj;
          bucket \<leftarrow> arr_get (ipc_hash_global_table g) h;
          set_bucket g h (\<lparr>tr_space = space, tr_name = name, tr_object = obj\<rparr> # bucket) }"

definition global_chain_delete ::
  "ipc_hash_global \<Rightarrow> ptr \<Rightarrow> ptr \<Rightarrow> mach_port \<Rightarrow> ipc_hash_global option" where
  "global_chain_delete g space obj name =
     do { assert_that (space \<noteq> IS_NULL);
          assert_that (obj \<noteq> IO_NULL);
          let h = IH_GLOBAL_HASH (ipc_hash_global_mask g) space obj;
          bucket \<leftarrow> arr_get (ipc_hash_global_table g) h;
          (_, bucket') \<leftarrow> chain_take (\<lambda>this. tr_space this = space \<and> tr_name this = name) bucket;
          set_bucket g h bucket' }"

text \<open>
  The whole operations, with the space's count of hashed tree entries. \<open>tentry\<close> is the tree entry
  passed, with its name.
\<close>

definition ipc_hash_global_insert ::
  "ipc_space \<Rightarrow> ipc_hash_global \<Rightarrow> ptr \<Rightarrow> mach_port \<Rightarrow> ipc_entry ite \<Rightarrow>
     (ipc_space \<times> ipc_hash_global) option" where
  "ipc_hash_global_insert space g obj name tentry =
     do { assert_that (fst tentry = name);
          assert_that (ie_object (snd tentry) = obj);
          let space' = space\<lparr>is_tree_hash := is_tree_hash space + 1\<rparr>;
          assert_that (is_tree_hash space' \<le> is_tree_total space');
          g' \<leftarrow> global_chain_insert g (is_self space) obj name;
          Some (space', g') }"

definition ipc_hash_global_delete ::
  "ipc_space \<Rightarrow> ipc_hash_global \<Rightarrow> ptr \<Rightarrow> mach_port \<Rightarrow> ipc_entry ite \<Rightarrow>
     (ipc_space \<times> ipc_hash_global) option" where
  "ipc_hash_global_delete space g obj name tentry =
     do { assert_that (fst tentry = name);
          assert_that (ie_object (snd tentry) = obj);
          assert_that (0 < is_tree_hash space);
          g' \<leftarrow> global_chain_delete g (is_self space) obj name;
          Some (space\<lparr>is_tree_hash := is_tree_hash space - 1\<rparr>, g') }"

subsection \<open>Both tables\<close>

definition ipc_hash_lookup ::
  "ipc_space \<Rightarrow> ipc_hash_global \<Rightarrow> ptr \<Rightarrow> ((mach_port \<times> entry_ptr) option \<times> ipc_hash_global) option" where
  "ipc_hash_lookup space g obj =
     do { local \<leftarrow> ipc_hash_local_lookup (is_table space) obj;
          case local of
            Some (name, i) \<Rightarrow> Some (Some (name, Table_entry i), g)
          | None \<Rightarrow>
              if 0 < is_tree_hash space
              then do { (found, g') \<leftarrow> ipc_hash_global_lookup g (is_self space) obj;
                        Some (map_option (\<lambda>name. (name, Tree_entry name)) found, g') }
              else Some (None, g) }"

definition ipc_hash_insert ::
  "ipc_space \<Rightarrow> ipc_hash_global \<Rightarrow> ptr \<Rightarrow> mach_port \<Rightarrow> entry_ptr \<Rightarrow>
     (ipc_space \<times> ipc_hash_global) option" where
  "ipc_hash_insert space g obj name entry =
     (let index = unat (MACH_PORT_INDEX name) in
      if index < is_table_size space \<and> entry = Table_entry index
      then do { table \<leftarrow> ipc_hash_local_insert (is_table space) obj index;
                Some (space\<lparr>is_table := table\<rparr>, g) }
      else do { e \<leftarrow> get_entry space entry;
                ipc_hash_global_insert space g obj name
                  (case entry of Tree_entry tname \<Rightarrow> tname | Table_entry _ \<Rightarrow> MACH_PORT_NULL, e) })"

definition ipc_hash_delete ::
  "ipc_space \<Rightarrow> ipc_hash_global \<Rightarrow> ptr \<Rightarrow> mach_port \<Rightarrow> entry_ptr \<Rightarrow>
     (ipc_space \<times> ipc_hash_global) option" where
  "ipc_hash_delete space g obj name entry =
     (let index = unat (MACH_PORT_INDEX name) in
      if index < is_table_size space \<and> entry = Table_entry index
      then do { table \<leftarrow> ipc_hash_local_delete (is_table space) obj index;
                Some (space\<lparr>is_table := table\<rparr>, g) }
      else do { e \<leftarrow> get_entry space entry;
                ipc_hash_global_delete space g obj name
                  (case entry of Tree_entry tname \<Rightarrow> tname | Table_entry _ \<Rightarrow> MACH_PORT_NULL, e) })"

subsection \<open>Initialisation and statistics\<close>

text \<open>
  \<^verbatim>\<open>ipc_hash_init\<close> rounds the configured size up to a power of two by setting the low bits
  of the mask one after the other. \<open>size0\<close> is the configured size, 0 if there is none.
\<close>

partial_function (option) hash_round_loop :: "u32 \<Rightarrow> u32 \<Rightarrow> (u32 \<times> u32) option" where
  "hash_round_loop msk b =
     do { let msk = msk OR b;
          let sz = msk + 1;
          if sz AND msk = 0 then Some (sz, msk) else hash_round_loop msk (push_bit 1 b) }"

definition ipc_hash_init :: "u32 \<Rightarrow> u32 \<Rightarrow> ipc_hash_global option" where
  "ipc_hash_init size0 ipc_tree_entry_max =
     do { let sz = (if size0 = 0
                    then let sz = drop_bit 8 ipc_tree_entry_max in if sz < 32 then 32 else sz
                    else size0);
          let msk = sz - 1;
          (sz, msk) \<leftarrow> (if sz AND msk \<noteq> 0 then hash_round_loop msk 1 else Some (sz, msk));
          Some \<lparr>ipc_hash_global_size = sz, ipc_hash_global_mask = msk,
                ipc_hash_global_table = replicate (unat sz) []\<rparr> }"

definition ipc_hash_info :: "ipc_hash_global \<Rightarrow> u32 \<Rightarrow> u32 \<times> nat list" where
  "ipc_hash_info g cnt =
     (let cnt = (if ipc_hash_global_size g < cnt then ipc_hash_global_size g else cnt)
      in (ipc_hash_global_size g, map length (take (unat cnt) (ipc_hash_global_table g))))"

subsection \<open>The global table is correct\<close>

definition glob_refs :: "ipc_hash_global \<Rightarrow> tree_ref set" where
  "glob_refs g = (\<Union>bucket \<in> set (ipc_hash_global_table g). set bucket)"

definition ref_hash :: "ipc_hash_global \<Rightarrow> tree_ref \<Rightarrow> nat" where
  "ref_hash g r = IH_GLOBAL_HASH (ipc_hash_global_mask g) (tr_space r) (tr_object r)"

definition glob_ok :: "ipc_hash_global \<Rightarrow> bool" where
  "glob_ok g \<longleftrightarrow>
     length (ipc_hash_global_table g) = unat (ipc_hash_global_mask g) + 1 \<and>
     (\<forall>h < length (ipc_hash_global_table g).
        distinct (ipc_hash_global_table g ! h) \<and>
        (\<forall>r \<in> set (ipc_hash_global_table g ! h). ref_hash g r = h)) \<and>
     inj_on (\<lambda>r. (tr_space r, tr_object r)) (glob_refs g) \<and>
     inj_on (\<lambda>r. (tr_space r, tr_name r)) (glob_refs g)"

lemma chain_take_None: "chain_take P xs = None \<longleftrightarrow> (\<forall>x \<in> set xs. \<not> P x)"
  by (induction xs) auto

lemma chain_take_Some:
  "chain_take P xs = Some (y, rest) \<Longrightarrow> P y \<and> mset xs = add_mset y (mset rest)"
  by (induction xs arbitrary: rest) (auto split: if_splits)

lemma chain_lookup_None: "chain_lookup P xs = None \<longleftrightarrow> (\<forall>x \<in> set xs. \<not> P x)"
  using chain_take_None [of P "tl xs"]
  by (cases xs) (auto simp: chain_lookup_def split: option.splits)

lemma chain_lookup_Some:
  "chain_lookup P xs = Some (y, ys) \<Longrightarrow> P y \<and> y \<in> set xs \<and> mset ys = mset xs"
  by (auto simp: chain_lookup_def split: list.splits option.splits if_splits
      dest!: chain_take_Some)
     (metis union_single_eq_member set_mset_mset)

lemma glob_hash_less: "glob_ok g \<Longrightarrow> IH_GLOBAL_HASH (ipc_hash_global_mask g) sp obj < length (ipc_hash_global_table g)"
  by (simp add: glob_ok_def IH_GLOBAL_HASH_def less_Suc_eq_le word_and_le1 flip: word_le_nat_alt)

lemma glob_bucket:
  assumes "glob_ok g" and "h < length (ipc_hash_global_table g)"
  shows "set (ipc_hash_global_table g ! h) = {r \<in> glob_refs g. ref_hash g r = h}"
  using assms unfolding glob_ok_def glob_refs_def by (fastforce simp: in_set_conv_nth [of _ "ipc_hash_global_table g"])

definition put_bucket :: "ipc_hash_global \<Rightarrow> nat \<Rightarrow> tree_ref list \<Rightarrow> ipc_hash_global" where
  "put_bucket g h bucket = g\<lparr>ipc_hash_global_table := (ipc_hash_global_table g)[h := bucket]\<rparr>"

lemma set_bucket_eq: "h < length (ipc_hash_global_table g) \<Longrightarrow> set_bucket g h b = Some (put_bucket g h b)"
  by (simp add: set_bucket_def put_bucket_def)

lemma glob_refs_put_bucket:
  assumes "glob_ok g" and "h < length (ipc_hash_global_table g)"
  shows "glob_refs (put_bucket g h b) = {r \<in> glob_refs g. ref_hash g r \<noteq> h} \<union> set b"
proof
  let ?t = "ipc_hash_global_table g"
  show "glob_refs (put_bucket g h b) \<subseteq> {r \<in> glob_refs g. ref_hash g r \<noteq> h} \<union> set b"
  proof
    fix r
    assume "r \<in> glob_refs (put_bucket g h b)"
    then obtain k where k: "k < length ?t" "r \<in> set (?t[h := b] ! k)"
      by (auto simp: glob_refs_def put_bucket_def in_set_conv_nth [of _ "?t[h := b]"])
    show "r \<in> {r \<in> glob_refs g. ref_hash g r \<noteq> h} \<union> set b"
    proof (cases "k = h")
      case False
      with k glob_bucket [OF assms(1) k(1)] show ?thesis by auto
    qed (use k assms(2) in auto)
  qed
  show "{r \<in> glob_refs g. ref_hash g r \<noteq> h} \<union> set b \<subseteq> glob_refs (put_bucket g h b)"
  proof
    fix r
    assume r: "r \<in> {r \<in> glob_refs g. ref_hash g r \<noteq> h} \<union> set b"
    let ?k = "if r \<in> set b then h else ref_hash g r"
    have k: "?k < length ?t" using glob_hash_less [OF assms(1)] assms(2) by (simp add: ref_hash_def)
    moreover have "r \<in> set (?t[h := b] ! ?k)"
      using r assms(2) k glob_bucket [OF assms(1), of "ref_hash g r"] by (auto split: if_splits)
    ultimately show "r \<in> glob_refs (put_bucket g h b)"
      unfolding glob_refs_def put_bucket_def by (auto intro!: bexI [of _ "?t[h := b] ! ?k"] nth_mem)
  qed
qed

lemma glob_ok_put_bucket:
  assumes ok: "glob_ok g" and h: "h < length (ipc_hash_global_table g)"
    and b: "distinct b" "\<forall>r \<in> set b. ref_hash g r = h"
    and inj: "inj_on (\<lambda>r. (tr_space r, tr_object r)) ({r \<in> glob_refs g. ref_hash g r \<noteq> h} \<union> set b)"
      "inj_on (\<lambda>r. (tr_space r, tr_name r)) ({r \<in> glob_refs g. ref_hash g r \<noteq> h} \<union> set b)"
  shows "glob_ok (put_bucket g h b)"
proof -
  have "ref_hash (put_bucket g h b) = ref_hash g" by (simp add: fun_eq_iff ref_hash_def put_bucket_def)
  with assms glob_refs_put_bucket [OF ok h] show ?thesis
    by (simp add: glob_ok_def) (auto simp: put_bucket_def nth_list_update_if)
qed

definition mkref :: "ptr \<Rightarrow> mach_port \<Rightarrow> ptr \<Rightarrow> tree_ref" where
  "mkref sp name obj = \<lparr>tr_space = sp, tr_name = name, tr_object = obj\<rparr>"

lemma mkref_simps [simp]: "tr_space (mkref sp name obj) = sp" "tr_name (mkref sp name obj) = name"
  "tr_object (mkref sp name obj) = obj" "mkref (tr_space r) (tr_name r) (tr_object r) = r"
  by (simp_all add: mkref_def)

lemma mkref_inject: "mkref sp name obj = mkref sp' name' obj' \<longleftrightarrow> sp = sp' \<and> name = name' \<and> obj = obj'"
  by (simp add: mkref_def)

lemma glob_refs_key:
  assumes "glob_ok g" and "r \<in> glob_refs g" and "r' \<in> glob_refs g" and "tr_space r = tr_space r'"
    and "tr_object r = tr_object r' \<or> tr_name r = tr_name r'"
  shows "r = r'"
  using assms unfolding glob_ok_def inj_on_def by auto

lemma global_lookup_ok:
  assumes ok: "glob_ok g" and nn: "sp \<noteq> IS_NULL" "obj \<noteq> IO_NULL"
    and m: "\<And>name. m = Some name \<longleftrightarrow> mkref sp name obj \<in> glob_refs g"
  shows "\<exists>g'. ipc_hash_global_lookup g sp obj = Some (m, g') \<and> glob_ok g' \<and> glob_refs g' = glob_refs g"
proof -
  let ?P = "\<lambda>this. tr_object this = obj \<and> tr_space this = sp"
  let ?h = "IH_GLOBAL_HASH (ipc_hash_global_mask g) sp obj"
  let ?b = "ipc_hash_global_table g ! ?h"
  have h: "?h < length (ipc_hash_global_table g)" by (rule glob_hash_less [OF ok])
  note b = glob_bucket [OF ok h]
  show ?thesis
  proof (cases "chain_lookup ?P ?b")
    case None
    have "m = None"
    proof (rule ccontr)
      assume "m \<noteq> None"
      then obtain name where "mkref sp name obj \<in> glob_refs g" using m by auto
      then have "mkref sp name obj \<in> set ?b" by (simp add: b ref_hash_def)
      with None show False by (auto simp: chain_lookup_None)
    qed
    with None h nn ok show ?thesis by (simp add: ipc_hash_global_lookup_def Let_def)
  next
    case (Some p)
    obtain r b' where p: "p = (r, b')" by (cases p)
    note c = chain_lookup_Some [OF Some [unfolded p]]
    then have r: "r \<in> glob_refs g" "r = mkref sp (tr_name r) obj" by (auto simp: b mkref_def)
    then have mr: "m = Some (tr_name r)" using m by metis
    have set_b': "set b' = set ?b" using c by (metis set_mset_mset)
    have dist: "distinct b'"
      using c ok h by (metis glob_ok_def mset_eq_imp_distinct_iff)
    have refs: "{r \<in> glob_refs g. ref_hash g r \<noteq> ?h} \<union> set b' = glob_refs g"
      unfolding set_b' b by auto
    have "ipc_hash_global_lookup g sp obj = Some (m, put_bucket g ?h b')"
      using Some p h nn mr by (simp add: ipc_hash_global_lookup_def Let_def set_bucket_eq)
    moreover have "glob_ok (put_bucket g ?h b')"
    proof (rule glob_ok_put_bucket [OF ok h dist], unfold refs)
      show "\<forall>r \<in> set b'. ref_hash g r = ?h" unfolding set_b' b by blast
    qed (use ok in \<open>simp_all add: glob_ok_def\<close>)
    ultimately show ?thesis using glob_refs_put_bucket [OF ok h, of b'] refs by auto
  qed
qed

lemma global_insert_ok:
  assumes ok: "glob_ok g" and nn: "sp \<noteq> IS_NULL" "obj \<noteq> IO_NULL"
    and new: "\<And>r. r \<in> glob_refs g \<Longrightarrow> tr_space r = sp \<Longrightarrow> tr_object r \<noteq> obj \<and> tr_name r \<noteq> name"
  shows "\<exists>g'. global_chain_insert g sp obj name = Some g' \<and> glob_ok g' \<and>
    glob_refs g' = insert (mkref sp name obj) (glob_refs g)"
proof -
  let ?h = "IH_GLOBAL_HASH (ipc_hash_global_mask g) sp obj" and ?r = "mkref sp name obj"
  let ?b = "ipc_hash_global_table g ! ?h"
  have h: "?h < length (ipc_hash_global_table g)" by (rule glob_hash_less [OF ok])
  note b = glob_bucket [OF ok h]
  have r: "ref_hash g ?r = ?h" by (simp add: ref_hash_def)
  have notin: "?r \<notin> glob_refs g" using new [of ?r] by auto
  have keys: "(sp, obj) \<notin> (\<lambda>r. (tr_space r, tr_object r)) ` (glob_refs g - {?r})"
    "(sp, name) \<notin> (\<lambda>r. (tr_space r, tr_name r)) ` (glob_refs g - {?r})"
    using new by (blast, blast)
  have refs: "{r \<in> glob_refs g. ref_hash g r \<noteq> ?h} \<union> set (?r # ?b) = insert ?r (glob_refs g)"
    using b by auto
  have "global_chain_insert g sp obj name = Some (put_bucket g ?h (?r # ?b))"
    using h nn by (simp add: global_chain_insert_def Let_def set_bucket_eq mkref_def)
  moreover have "glob_ok (put_bucket g ?h (?r # ?b))"
  proof (rule glob_ok_put_bucket [OF ok h])
    have "distinct ?b" using ok h by (simp add: glob_ok_def)
    then show "distinct (?r # ?b)" using notin by (simp add: b)
    show "\<forall>r \<in> set (?r # ?b). ref_hash g r = ?h" by (simp add: b r)
    show "inj_on (\<lambda>r. (tr_space r, tr_object r)) ({r \<in> glob_refs g. ref_hash g r \<noteq> ?h} \<union> set (?r # ?b))"
      unfolding refs inj_on_insert using ok keys(1) by (simp add: glob_ok_def)
    show "inj_on (\<lambda>r. (tr_space r, tr_name r)) ({r \<in> glob_refs g. ref_hash g r \<noteq> ?h} \<union> set (?r # ?b))"
      unfolding refs inj_on_insert using ok keys(2) by (simp add: glob_ok_def)
  qed
  ultimately show ?thesis using glob_refs_put_bucket [OF ok h, of "?r # ?b"] refs by auto
qed

lemma global_delete_ok:
  assumes ok: "glob_ok g" and nn: "sp \<noteq> IS_NULL" "obj \<noteq> IO_NULL" and r: "mkref sp name obj \<in> glob_refs g"
  shows "\<exists>g'. global_chain_delete g sp obj name = Some g' \<and> glob_ok g' \<and>
    glob_refs g' = glob_refs g - {mkref sp name obj}"
proof -
  let ?h = "IH_GLOBAL_HASH (ipc_hash_global_mask g) sp obj" and ?r = "mkref sp name obj"
  let ?b = "ipc_hash_global_table g ! ?h"
  let ?P = "\<lambda>this. tr_space this = sp \<and> tr_name this = name"
  have h: "?h < length (ipc_hash_global_table g)" by (rule glob_hash_less [OF ok])
  note b = glob_bucket [OF ok h]
  have rb: "?r \<in> set ?b" using r by (simp add: b ref_hash_def)
  then obtain r' b' where take: "chain_take ?P ?b = Some (r', b')"
    using chain_take_None [of ?P ?b] by (cases "chain_take ?P ?b") auto
  note c = chain_take_Some [OF take]
  have "r' \<in> set ?b" using c by (metis union_single_eq_member set_mset_mset)
  then have r': "r' = ?r" using c glob_refs_key [OF ok _ r, of r'] b by auto
  have dist: "distinct ?b" using ok h by (simp add: glob_ok_def)
  have ms: "mset ?b = add_mset ?r (mset b')" using c r' by simp
  then have d': "distinct (?r # b')" using dist by (metis mset.simps(2) mset_eq_imp_distinct_iff)
  have "set ?b = insert ?r (set b')" using ms by (metis set_mset_add_mset_insert set_mset_mset)
  with d' have set_b': "set b' = set ?b - {?r}" by auto
  have refs: "{r \<in> glob_refs g. ref_hash g r \<noteq> ?h} \<union> set b' = glob_refs g - {?r}"
    using rb unfolding set_b' b by (auto simp: ref_hash_def)
  have "global_chain_delete g sp obj name = Some (put_bucket g ?h b')"
    using h nn take by (simp add: global_chain_delete_def Let_def set_bucket_eq)
  moreover have "glob_ok (put_bucket g ?h b')"
  proof (rule glob_ok_put_bucket [OF ok h])
    show "distinct b'" using d' by simp
    show "\<forall>r \<in> set b'. ref_hash g r = ?h" using set_b' b by auto
    show "inj_on (\<lambda>r. (tr_space r, tr_object r)) ({r \<in> glob_refs g. ref_hash g r \<noteq> ?h} \<union> set b')"
      unfolding refs using ok by (auto simp: glob_ok_def intro: inj_on_subset)
    show "inj_on (\<lambda>r. (tr_space r, tr_name r)) ({r \<in> glob_refs g. ref_hash g r \<noteq> ?h} \<union> set b')"
      unfolding refs using ok by (auto simp: glob_ok_def intro: inj_on_subset)
  qed
  ultimately show ?thesis using glob_refs_put_bucket [OF ok h, of b'] refs by auto
qed

subsection \<open>Initialisation\<close>

lemma and_Suc_power2: "(m::nat) AND Suc m = 0 \<Longrightarrow> \<exists>j. Suc m = 2 ^ j"
proof (induction m rule: less_induct)
  case (less m)
  show ?case
  proof (cases "even m")
    case True
    then obtain q where q: "m = 2 * q" by (elim evenE)
    have "m AND Suc m = m"
    proof (rule bit_eqI)
      fix n
      show "bit (m AND Suc m) n \<longleftrightarrow> bit m n"
        unfolding bit_and_iff using q by (cases n) (auto simp: bit_0 bit_Suc)
    qed
    with less.prems have "m = 0" by simp
    then show ?thesis by (intro exI [of _ 0]) simp
  next
    case False
    then obtain q where q: "m = 2 * q + 1" by (elim oddE)
    have "q AND Suc q = 0"
    proof (rule bit_eqI)
      fix n
      have "bit (m AND Suc m) (Suc n) = bit (0::nat) (Suc n)" using less.prems by simp
      then show "bit (q AND Suc q) n \<longleftrightarrow> bit (0::nat) n"
        unfolding bit_and_iff using q by (simp add: bit_Suc)
    qed
    with less.IH [of q] q obtain j where "Suc q = 2 ^ j" by auto
    with q show ?thesis by (intro exI [of _ "Suc j"]) simp
  qed
qed

lemma unat_and_eq: "unat (a AND b) = unat a AND unat b"
  by (rule bit_eqI) (simp add: bit_unsigned_iff bit_and_iff)

lemma unat_or_eq: "unat (a OR b) = unat a OR unat b"
  by (rule bit_eqI) (auto simp: bit_unsigned_iff bit_or_iff)

lemma unat_power2: "k < 32 \<Longrightarrow> unat (2 ^ k :: u32) = 2 ^ k"
  using unat_of_nat [of "2 ^ k", where 'a = 32] power_strict_increasing [of k 32 "2::nat"] by simp

lemma unat_Suc_word: "unat (w::u32) < 2 ^ 32 - 1 \<Longrightarrow> unat (w + 1) = Suc (unat w)"
  by (subst unat_plus_if') simp

lemma word_and_Suc:
  "unat (w::u32) < 2 ^ 32 - 1 \<Longrightarrow> (w + 1) AND w = 0 \<longleftrightarrow> unat w AND Suc (unat w) = 0"
  by (simp add: word_unat_eq_iff unat_and_eq unat_Suc_word and.commute)

lemma or_power2_nat:
  assumes "k < L" and "(m::nat) < 2 ^ L" and "take_bit k m = mask k"
  shows "m \<le> m OR 2 ^ k" and "m OR 2 ^ k < 2 ^ L" and "take_bit (Suc k) (m OR 2 ^ k) = mask (Suc k)"
proof -
  have "int m \<le> int (m OR 2 ^ k)" by (simp add: of_nat_or_eq or_greater_eq)
  then show "m \<le> m OR 2 ^ k" by simp
  have "take_bit L (m OR 2 ^ k) = m OR 2 ^ k"
    using assms(1,2) by (simp add: take_bit_or take_bit_nat_eq_self power_strict_increasing)
  then show "m OR 2 ^ k < 2 ^ L" by (metis take_bit_nat_less_exp)
  show "take_bit (Suc k) (m OR 2 ^ k) = mask (Suc k)"
  proof (rule bit_eqI)
    fix n
    have "bit (take_bit k m) n = bit (mask k :: nat) n" using assms(3) by simp
    then show "bit (take_bit (Suc k) (m OR 2 ^ k)) n = bit (mask (Suc k) :: nat) n"
      by (auto simp: bit_take_bit_iff bit_or_iff bit_mask_iff bit_exp_iff less_Suc_eq)
  qed
qed

lemma hash_round_loop_spec:
  assumes "L \<le> 31" and "2 ^ (L - 1) \<le> m0"
  shows "k \<le> L \<Longrightarrow> m0 \<le> unat msk \<Longrightarrow> unat msk < 2 ^ L \<Longrightarrow> take_bit k (unat msk) = mask k \<Longrightarrow>
    (msk + 1) AND msk \<noteq> 0 \<Longrightarrow>
    \<exists>sz msk'. hash_round_loop msk (2 ^ k) = Some (sz, msk') \<and> unat sz = 2 ^ L \<and> unat msk' = 2 ^ L - 1"
proof (induction "L - k" arbitrary: k msk)
  case 0
  have lt: "unat msk < 2 ^ 32 - 1"
    using "0.prems"(3) assms(1) power_increasing [of L 31 "2::nat"] by simp
  from 0 have "unat msk = mask L" by (metis diff_is_0_eq le_antisym take_bit_nat_eq_self)
  then have "unat msk AND Suc (unat msk) = 0"
    by (simp add: Suc_mask_eq_exp and.commute [of "mask L"] take_bit_of_exp flip: take_bit_eq_mask)
  with "0.prems"(5) show ?case by (simp add: word_and_Suc [OF lt])
next
  case (Suc d)
  let ?m = "msk OR 2 ^ k"
  have k: "k < L" using Suc.hyps(2) by simp
  have um: "unat ?m = unat msk OR 2 ^ k"
    using k assms(1) by (simp add: unat_or_eq unat_power2)
  note m = or_power2_nat [OF k Suc.prems(3,4), folded um]
  have lt: "unat ?m < 2 ^ 32 - 1"
    using m(2) assms(1) power_increasing [of L 31 "2::nat"] by simp
  show ?case
  proof (cases "(?m + 1) AND ?m = 0")
    case True
    then obtain j where j: "Suc (unat ?m) = 2 ^ j"
      using and_Suc_power2 word_and_Suc [OF lt] by blast
    have "(2::nat) ^ j \<le> 2 ^ L" using m(2) unfolding j [symmetric] by simp
    moreover have "(2::nat) ^ (L - 1) < 2 ^ j"
      using m(1) Suc.prems(2) assms(2) unfolding j [symmetric] by simp
    ultimately have "j = L" using k by simp
    with j True unat_Suc_word [OF lt] show ?thesis
      by (simp add: hash_round_loop.simps [of msk] Let_def)
  next
    case False
    with Suc.hyps(1) [of "Suc k" ?m] Suc.hyps(2) k m Suc.prems(2) show ?thesis
      by (simp add: hash_round_loop.simps [of msk] Let_def push_bit_eq_mult mult.commute)
  qed
qed

lemma exp_bracket: "(0::nat) < m \<Longrightarrow> \<exists>L. 0 < L \<and> 2 ^ (L - 1) \<le> m \<and> m < 2 ^ L"
proof (induction m)
  case (Suc m)
  show ?case
  proof (cases "m = 0")
    case True
    then show ?thesis by (intro exI [of _ 1]) simp
  next
    case False
    with Suc.IH obtain L where L: "0 < L" "2 ^ (L - 1) \<le> m" "m < 2 ^ L" by auto
    show ?thesis
    proof (cases "Suc m < 2 ^ L")
      case True
      with L show ?thesis by (intro exI [of _ L]) simp
    next
      case False
      with L have "Suc m = 2 ^ L" by simp
      then show ?thesis by (intro exI [of _ "Suc L"]) simp
    qed
  qed
qed simp

lemma hash_round_ok:
  assumes "0 < unat sz" and "unat sz \<le> 2 ^ 31" and "sz AND (sz - 1) \<noteq> 0"
  shows "\<exists>sz' msk L. hash_round_loop (sz - 1) 1 = Some (sz', msk) \<and> unat sz' = 2 ^ L \<and>
    unat msk = 2 ^ L - 1 \<and> unat sz \<le> 2 ^ L \<and> 2 ^ L < 2 * unat sz"
proof -
  have m: "unat (sz - 1) = unat sz - 1" using assms(1) by (simp add: unat_gt_0 unat_minus_one)
  have "sz \<noteq> 1" using assms(3) by auto
  then have "unat sz \<noteq> 1" by (metis unat_1 word_unat_eq_iff)
  with assms(1) have pos: "0 < unat sz - 1" by simp
  then obtain L where L: "0 < L" "2 ^ (L - 1) \<le> unat sz - 1" "unat sz - 1 < 2 ^ L"
    using exp_bracket by blast
  have "(2::nat) ^ (L - 1) < 2 ^ 31" using L(2) assms(2) pos by linarith
  then have "L - 1 < 31" by (rule power_less_imp_less_exp [rotated]) simp
  then have "L \<le> 31" using L(1) by simp
  from hash_round_loop_spec [OF this L(2), of 0 "sz - 1"] m L assms(3)
  obtain sz' msk where r: "hash_round_loop (sz - 1) 1 = Some (sz', msk)" "unat sz' = 2 ^ L"
    "unat msk = 2 ^ L - 1"
    by (auto simp: and.commute)
  have "(2::nat) ^ L = 2 * 2 ^ (L - 1)" using L(1) by (cases L) simp_all
  with L pos have "2 ^ L < 2 * unat sz" by linarith
  with r L(3) show ?thesis by fastforce
qed

lemma glob_ok_init:
  assumes "length (ipc_hash_global_table g) = unat (ipc_hash_global_mask g) + 1"
    and "\<forall>b \<in> set (ipc_hash_global_table g). b = []"
  shows "glob_ok g" and "glob_refs g = {}"
proof -
  show refs: "glob_refs g = {}" using assms(2) by (auto simp: glob_refs_def)
  have "ipc_hash_global_table g ! h = []" if "h < length (ipc_hash_global_table g)" for h
    using assms(2) that nth_mem by blast
  with assms(1) refs show "glob_ok g" by (simp add: glob_ok_def)
qed

definition glob_rep :: "ptr \<Rightarrow> ipc_hash_global \<Rightarrow> (ptr \<rightharpoonup> mach_port) \<Rightarrow> bool" where
  "glob_rep sp g m \<longleftrightarrow>
     glob_ok g \<and> sp \<noteq> IS_NULL \<and> m IO_NULL = None \<and>
     (\<forall>obj name. m obj = Some name \<longleftrightarrow> mkref sp name obj \<in> glob_refs g)"

interpretation glob: reverse_map "glob_rep sp" "\<lambda>_ _ _. True"
  "\<lambda>g obj. ipc_hash_global_lookup g sp obj" "\<lambda>g obj name. global_chain_insert g sp obj name"
  "\<lambda>g obj name. global_chain_delete g sp obj name" for sp
proof
  fix t m obj k
  assume rep: "glob_rep sp t m"
  then have ok: "glob_ok t" and sp: "sp \<noteq> IS_NULL" and null: "m IO_NULL = None"
    and m: "\<And>obj name. m obj = Some name \<longleftrightarrow> mkref sp name obj \<in> glob_refs t"
    by (auto simp: glob_rep_def)
  show "\<exists>t'. ipc_hash_global_lookup t sp obj = Some (m obj, t') \<and> glob_rep sp t' m" if "obj \<noteq> IO_NULL"
    using global_lookup_ok [OF ok sp that m] rep by (auto simp: glob_rep_def)
  show "\<exists>t'. global_chain_insert t sp obj k = Some t' \<and> glob_rep sp t' (m(obj \<mapsto> k))"
    if nn: "obj \<noteq> IO_NULL" and new: "m obj = None" "k \<notin> ran m"
  proof -
    have "tr_object r \<noteq> obj \<and> tr_name r \<noteq> k" if "r \<in> glob_refs t" "tr_space r = sp" for r
    proof -
      have "m (tr_object r) = Some (tr_name r)" using m that mkref_simps(4) [of r] by auto
      with new show ?thesis by (auto simp: ran_def)
    qed
    from global_insert_ok [OF ok sp nn this] obtain t' where t': "global_chain_insert t sp obj k = Some t'"
      "glob_ok t'" "glob_refs t' = insert (mkref sp k obj) (glob_refs t)" by blast
    have "(m(obj \<mapsto> k)) o' = Some name \<longleftrightarrow> mkref sp name o' \<in> glob_refs t'" for o' name
      using m [of o' name] m [of obj name] new(1) t'(3) by (cases "o' = obj") (auto simp: mkref_inject)
    then have "glob_rep sp t' (m(obj \<mapsto> k))" using sp null nn t'(2) by (simp add: glob_rep_def)
    with t' show ?thesis by blast
  qed
  show "\<exists>t'. global_chain_delete t sp obj k = Some t' \<and> glob_rep sp t' (m(obj := None))"
    if some: "m obj = Some k"
  proof -
    have nn: "obj \<noteq> IO_NULL" using some null by auto
    have r: "mkref sp k obj \<in> glob_refs t" using some m by simp
    from global_delete_ok [OF ok sp nn r] obtain t' where t': "global_chain_delete t sp obj k = Some t'"
      "glob_ok t'" "glob_refs t' = glob_refs t - {mkref sp k obj}" by blast
    have "(m(obj := None)) o' = Some name \<longleftrightarrow> mkref sp name o' \<in> glob_refs t'" for o' name
      using m [of o' name] m [of obj name] some t'(3) by (cases "o' = obj") (auto simp: mkref_inject)
    then have "glob_rep sp t' (m(obj := None))" using sp null t'(2) by (simp add: glob_rep_def)
    with t' show ?thesis by blast
  qed
qed

subsection \<open>Properties of the global table\<close>

text \<open>
  C39. The global reverse hash table behaves, for each space, as a map from objects to names: an
  insertion makes exactly that object found, deleting it again restores the map, no chain of
  another space is disturbed, and no assertion fails.
\<close>

theorem hash_global_round_trip:
  assumes "glob_rep sp g m" and "obj \<noteq> IO_NULL" and "m obj = None" and "name \<notin> ran m"
  shows "\<exists>g1 g2. global_chain_insert g sp obj name = Some g1 \<and>
    (\<forall>o'. o' \<noteq> IO_NULL \<longrightarrow> map_option fst (ipc_hash_global_lookup g1 sp o') =
       Some (if o' = obj then Some name else m o')) \<and>
    global_chain_delete g1 sp obj name = Some g2 \<and> glob_rep sp g2 m \<and> glob_refs g2 = glob_refs g"
proof -
  have ok: "glob_ok g" and sp: "sp \<noteq> IS_NULL" using assms(1) by (auto simp: glob_rep_def)
  obtain g1 where g1: "global_chain_insert g sp obj name = Some g1" "glob_rep sp g1 (m(obj \<mapsto> name))"
    and lk: "\<forall>o'. o' \<noteq> IO_NULL \<longrightarrow> map_option fst (ipc_hash_global_lookup g1 sp o') =
       Some (if o' = obj then Some name else m o')"
    using glob.insert_then_lookup [OF assms(1) TrueI assms(2-4)] by blast
  obtain g2 where g2: "global_chain_delete g1 sp obj name = Some g2"
    "glob_rep sp g2 ((m(obj \<mapsto> name))(obj := None))"
    using glob.delete_law [OF g1(2), of obj name] by auto
  have new: "tr_object r \<noteq> obj \<and> tr_name r \<noteq> name" if "r \<in> glob_refs g" "tr_space r = sp" for r
  proof -
    have "m (tr_object r) = Some (tr_name r)" using assms(1) that mkref_simps(4) [of r] by (auto simp: glob_rep_def)
    with assms(3,4) show ?thesis by (auto simp: ran_def)
  qed
  have r1: "glob_refs g1 = insert (mkref sp name obj) (glob_refs g)" and "glob_ok g1"
    using global_insert_ok [OF ok sp assms(2) new] g1(1) by auto
  then have "glob_refs g2 = glob_refs g1 - {mkref sp name obj}"
    using global_delete_ok [OF _ sp assms(2), of g1 name] g2(1) by auto
  moreover have "mkref sp name obj \<notin> glob_refs g" using new [of "mkref sp name obj"] by auto
  ultimately have "glob_refs g2 = glob_refs g" using r1 by auto
  with g1 g2 lk assms(3) show ?thesis by (auto simp: fun_upd_idem)
qed

definition glob_example :: ipc_hash_global where
  "glob_example = \<lparr>ipc_hash_global_size = 2, ipc_hash_global_mask = 1,
     ipc_hash_global_table = [[\<lparr>tr_space = 0x20, tr_name = 77, tr_object = 0x80\<rparr>], []]\<rparr>"

lemma glob_example_rep: "glob_rep 0x20 glob_example [0x80 \<mapsto> 77]"
proof -
  have refs: "glob_refs glob_example = {mkref 0x20 77 0x80}"
    by (simp add: glob_refs_def glob_example_def mkref_def)
  have "IH_GLOBAL_HASH 1 0x20 0x80 = 0" by code_simp
  then have "glob_ok glob_example"
    using refs by (simp add: glob_ok_def) (auto simp: glob_example_def less_Suc_eq ref_hash_def)
  with refs show ?thesis by (auto simp: glob_rep_def IS_NULL_def IO_NULL_def mkref_inject split: if_splits)
qed

theorem hash_global_round_trip_witness:
  "\<exists>g1 g2. global_chain_insert glob_example 0x20 0xc0 9 = Some g1 \<and>
    map_option fst (ipc_hash_global_lookup g1 0x20 0xc0) = Some (Some 9) \<and>
    map_option fst (ipc_hash_global_lookup g1 0x20 0x80) = Some (Some 77) \<and>
    global_chain_delete g1 0x20 0xc0 9 = Some g2 \<and> glob_rep 0x20 g2 [0x80 \<mapsto> 77]"
proof -
  have "\<exists>g1 g2. global_chain_insert glob_example 0x20 0xc0 9 = Some g1 \<and>
      (\<forall>o'. o' \<noteq> IO_NULL \<longrightarrow> map_option fst (ipc_hash_global_lookup g1 0x20 o') =
         Some (if o' = 0xc0 then Some 9 else [0x80 \<mapsto> 77] o')) \<and>
      global_chain_delete g1 0x20 0xc0 9 = Some g2 \<and> glob_rep 0x20 g2 [0x80 \<mapsto> 77]"
  proof -
    have "(0xc0::ptr) \<noteq> IO_NULL" "[0x80 \<mapsto> 77] (0xc0::ptr) = (None :: mach_port option)"
      "9 \<notin> ran [(0x80::ptr) \<mapsto> (77::mach_port)]"
      by (simp_all add: IO_NULL_def)
    from hash_global_round_trip [OF glob_example_rep this] show ?thesis by blast
  qed
  then obtain g1 g2 where g: "global_chain_insert glob_example 0x20 0xc0 9 = Some g1"
    "global_chain_delete g1 0x20 0xc0 9 = Some g2" "glob_rep 0x20 g2 [0x80 \<mapsto> 77]"
    and lk: "\<forall>o'. o' \<noteq> IO_NULL \<longrightarrow> map_option fst (ipc_hash_global_lookup g1 0x20 o') =
      Some (if o' = 0xc0 then Some 9 else [0x80 \<mapsto> 77] o')"
    by blast
  from lk [rule_format, of "0xc0"] lk [rule_format, of "0x80"] g show ?thesis
    by (simp add: IO_NULL_def)
qed

text \<open>
  Initialising the global table with a requested number of buckets between 1 and \<open>2^31\<close> returns
  an empty, well-formed table whose size is the smallest power of two that is at least the request.
\<close>

theorem hash_init_power_of_two:
  assumes "request = (if size0 = 0 then max 32 (drop_bit 8 entry_max) else size0)" and "unat request \<le> 2 ^ 31"
  shows "\<exists>g L. ipc_hash_init size0 entry_max = Some g \<and> glob_ok g \<and> glob_refs g = {} \<and>
    unat (ipc_hash_global_size g) = 2 ^ L \<and> unat request \<le> 2 ^ L \<and> 2 ^ L < 2 * unat request"
proof -
  let ?sz = "if size0 = 0 then let sz = drop_bit 8 entry_max in if sz < 32 then 32 else sz else size0"
  have sz: "?sz = request" using assms(1) by (auto simp: Let_def max_def)
  have pos: "0 < unat request" using assms(1) by (auto simp: unat_gt_0 max_def)
  let ?g = "\<lambda>sz msk. \<lparr>ipc_hash_global_size = sz, ipc_hash_global_mask = msk,
     ipc_hash_global_table = replicate (unat sz) []\<rparr>"
  show ?thesis
  proof (cases "request AND (request - 1) = 0")
    case True
    have m: "unat (request - 1) = unat request - 1" using pos by (simp add: unat_gt_0 unat_minus_one)
    have "unat (request AND (request - 1)) = 0" using True by simp
    with pos have "(unat request - 1) AND Suc (unat request - 1) = 0"
      unfolding unat_and_eq m by (simp add: and.commute)
    then obtain L where "Suc (unat request - 1) = 2 ^ L" using and_Suc_power2 by blast
    with pos have "unat request = 2 ^ L" by simp
    moreover have "ipc_hash_init size0 entry_max = Some (?g request (request - 1))"
      unfolding ipc_hash_init_def sz using True by (simp add: Let_def)
    moreover have "glob_ok (?g request (request - 1))" "glob_refs (?g request (request - 1)) = {}"
      by (rule glob_ok_init; use pos m in simp)+
    ultimately show ?thesis using pos by (intro exI [of _ "?g request (request - 1)"] exI [of _ L]) simp
  next
    case False
    obtain sz' msk L where r: "hash_round_loop (request - 1) 1 = Some (sz', msk)" "unat sz' = 2 ^ L"
      "unat msk = 2 ^ L - 1" "unat request \<le> 2 ^ L" "2 ^ L < 2 * unat request"
      using hash_round_ok [OF pos assms(2) False] by blast
    have "ipc_hash_init size0 entry_max = Some (?g sz' msk)"
      unfolding ipc_hash_init_def sz using False r(1) by (simp add: Let_def)
    moreover have "glob_ok (?g sz' msk)" "glob_refs (?g sz' msk) = {}"
      by (rule glob_ok_init; use r in simp)+
    ultimately show ?thesis using r by (intro exI [of _ "?g sz' msk"] exI [of _ L]) simp
  qed
qed

theorem hash_init_power_of_two_witness:
  "\<exists>g L. ipc_hash_init 100 0 = Some g \<and> glob_ok g \<and> unat (ipc_hash_global_size g) = 2 ^ L \<and>
    100 \<le> (2::nat) ^ L \<and> 2 ^ L < (200::nat)"
  using hash_init_power_of_two [of 100 100 0] by auto

end
