(* ===== verification/Ipc_Table.thy ===== *)
theory Ipc_Table
  imports Mach_Prelude
begin

text \<open>
  The size tables of \<^verbatim>\<open>kernel/ipc/ipc_table.c\<close>: the sizes through which an entry table or
  a table of dead-name requests grows. An array of \<^verbatim>\<open>struct ipc_table_size\<close> is the list of
  its \<^verbatim>\<open>its_size\<close> fields; the array being filled is the list written so far, so that
  \<^verbatim>\<open>index\<close> is its length. Sizes are natural numbers: \<open>table_fill_bound\<close> bounds every byte
  size that initialisation computes far below \<open>2^32\<close>, so that the unsigned arithmetic of the C code
  does not wrap.
\<close>

definition PAGE_SHIFT :: nat where "PAGE_SHIFT = 12"

definition PAGE_SIZE :: nat where "PAGE_SIZE = 2 ^ PAGE_SHIFT"

partial_function (option) fill_powers ::
  "nat \<Rightarrow> nat \<Rightarrow> nat \<Rightarrow> nat list \<Rightarrow> nat \<Rightarrow> (nat list \<times> nat) option" where
  "fill_powers num minsize elemsize its sz =
     (if length its < num \<and> sz < PAGE_SIZE
      then fill_powers num minsize elemsize
             (if minsize \<le> sz then its @ [sz div elemsize] else its) (sz * 2)
      else Some (its, sz))"

text \<open>The nested loops over pages, flattened: \<open>period\<close> is the counter of the inner one.\<close>

partial_function (option) fill_pages ::
  "nat \<Rightarrow> nat \<Rightarrow> nat \<Rightarrow> nat list \<Rightarrow> nat \<Rightarrow> nat \<Rightarrow> nat \<Rightarrow> nat list option" where
  "fill_pages num minsize elemsize its sz incrsize period =
     (if num \<le> length its then Some its
      else if period < 15
      then fill_pages num minsize elemsize
             (if minsize \<le> sz then its @ [sz div elemsize] else its)
             (sz + incrsize) incrsize (period + 1)
      else fill_pages num minsize elemsize its sz
             (if incrsize < PAGE_SIZE * 8 then incrsize * 2 else incrsize) 0)"

definition ipc_table_fill :: "nat \<Rightarrow> nat \<Rightarrow> nat \<Rightarrow> nat list option" where
  "ipc_table_fill num minn elemsize =
     do { let minsize = minn * elemsize;
          (its, sz) \<leftarrow> fill_powers num minsize elemsize [] 1;
          fill_pages num minsize elemsize its sz PAGE_SIZE 0 }"

text \<open>
  The sizes of \<^verbatim>\<open>struct ipc_entry\<close>, \<^verbatim>\<open>struct ipc_tree_entry\<close> and
  \<^verbatim>\<open>struct ipc_port_request\<close> with 4-byte integers and pointers.
\<close>

definition sizeof_ipc_entry :: nat where "sizeof_ipc_entry = 16"
definition sizeof_ipc_tree_entry :: nat where "sizeof_ipc_tree_entry = 32"
definition sizeof_ipc_port_request :: nat where "sizeof_ipc_port_request = 8"

definition ipc_table_entries_size :: nat where "ipc_table_entries_size = 512"
definition ipc_table_dnrequests_size :: nat where "ipc_table_dnrequests_size = 64"

definition ipc_table_init :: "(nat list \<times> nat list) option" where
  "ipc_table_init =
     do { entries \<leftarrow> ipc_table_fill (ipc_table_entries_size - 1) 4 sizeof_ipc_entry;
          prev \<leftarrow> arr_get entries (ipc_table_entries_size - 2);
          dnrequests \<leftarrow> ipc_table_fill (ipc_table_dnrequests_size - 1) 2 sizeof_ipc_port_request;
          Some (entries @ [prev], dnrequests @ [0]) }"

subsection \<open>The loops return increasing sizes\<close>

definition fill_inv :: "nat \<Rightarrow> nat \<Rightarrow> nat \<Rightarrow> nat list \<Rightarrow> nat \<Rightarrow> bool" where
  "fill_inv num minn elemsize its sz \<longleftrightarrow>
     length its \<le> num \<and> sorted_wrt (<) its \<and>
     (\<forall>x \<in> set its. minn \<le> x \<and> x < sz div elemsize)"

lemma fill_inv_step:
  assumes "fill_inv num minn e its sz" and "length its < num" and "0 < e" and "sz + incr \<le> sz'"
    and "minn * e \<le> sz \<Longrightarrow> e \<le> incr"
  shows "fill_inv num minn e (if minn * e \<le> sz then its @ [sz div e] else its) sz'"
proof -
  have mono: "sz div e \<le> sz' div e" using assms(4) by (intro div_le_mono) simp
  have "sz div e < sz' div e" if "minn * e \<le> sz"
  proof -
    have "(sz + e) div e \<le> sz' div e" using assms(4) assms(5) [OF that] by (intro div_le_mono) simp
    then show ?thesis using assms(3) by (simp add: div_add_self2)
  qed
  moreover have "minn \<le> sz div e" if "minn * e \<le> sz"
    using that assms(3) by (simp add: less_eq_div_iff_mult_less_eq)
  ultimately show ?thesis
    using assms(1,2) mono by (auto simp: fill_inv_def sorted_wrt_append intro: less_le_trans dest: less_trans)
qed

lemma fill_powers_returns:
  assumes "0 < e" and "0 < minn"
  shows "0 < sz \<Longrightarrow> fill_inv num minn e its sz \<Longrightarrow>
    \<exists>its' sz'. fill_powers num (minn * e) e its sz = Some (its', sz') \<and> fill_inv num minn e its' sz'"
proof (induction "PAGE_SIZE - sz" arbitrary: sz its rule: less_induct)
  case less
  show ?case
  proof (cases "length its < num \<and> sz < PAGE_SIZE")
    case True
    let ?its = "if minn * e \<le> sz then its @ [sz div e] else its"
    have "e \<le> sz" if "minn * e \<le> sz" using that assms(2) by (cases minn) auto
    then have "fill_inv num minn e ?its (sz * 2)"
      using True by (intro fill_inv_step [OF less.prems(2) _ assms(1), of sz]) auto
    moreover have "PAGE_SIZE - sz * 2 < PAGE_SIZE - sz" and "0 < sz * 2" using True less.prems(1) by auto
    ultimately show ?thesis
      using less.hyps [of "sz * 2" ?its] True by (simp add: fill_powers.simps [of num _ e its sz])
  next
    case False
    with less.prems show ?thesis by (auto simp: fill_powers.simps [of num _ e its sz])
  qed
qed

definition pages_measure :: "nat \<Rightarrow> nat \<Rightarrow> nat list \<Rightarrow> nat \<Rightarrow> nat \<Rightarrow> nat \<times> nat \<times> nat" where
  "pages_measure num minsize its sz period =
     (num - length its, minsize - sz, if period < 15 then 0 else 1)"

abbreviation pages_order :: "((nat \<times> nat \<times> nat) \<times> (nat \<times> nat \<times> nat)) set" where
  "pages_order \<equiv> less_than <*lex*> less_than <*lex*> less_than"

lemma wf_pages_order: "wf pages_order"
  by (intro wf_lex_prod wf_less_than)

lemma fill_pages_returns:
  assumes "0 < e" and "e \<le> PAGE_SIZE"
  shows "PAGE_SIZE \<le> incr \<Longrightarrow> fill_inv num minn e its sz \<Longrightarrow>
    \<exists>its'. fill_pages num (minn * e) e its sz incr period = Some its' \<and>
      length its' = num \<and> sorted_wrt (<) its' \<and> (\<forall>x \<in> set its'. minn \<le> x)"
proof (induction "pages_measure num (minn * e) its sz period" arbitrary: its sz incr period
    rule: wf_induct_rule [OF wf_pages_order])
  case (1 its sz period incr)
  have page: "0 < incr" using "1.prems"(1) by (simp add: PAGE_SIZE_def PAGE_SHIFT_def)
  consider "num \<le> length its" | "\<not> num \<le> length its" "period < 15"
    | "\<not> num \<le> length its" "\<not> period < 15" by blast
  then show ?case
  proof cases
    case 1
    with "1.prems" show ?thesis
      by (intro exI [of _ its]) (auto simp: fill_pages.simps [of num _ e its] fill_inv_def)
  next
    case 2
    let ?its = "if minn * e \<le> sz then its @ [sz div e] else its"
    have inv: "fill_inv num minn e ?its (sz + incr)"
      using 2 "1.prems" assms(2) by (intro fill_inv_step [OF "1.prems"(2) _ assms(1), of incr]) auto
    have "(pages_measure num (minn * e) ?its (sz + incr) (period + 1),
        pages_measure num (minn * e) its sz period) \<in> pages_order"
      using 2 page by (auto simp: pages_measure_def)
    from "1.hyps" [OF this "1.prems"(1) inv] 2 show ?thesis
      by (simp add: fill_pages.simps [of num _ e its sz incr period] split del: if_split)
  next
    case 3
    let ?incr = "if incr < PAGE_SIZE * 8 then incr * 2 else incr"
    have "(pages_measure num (minn * e) its sz 0, pages_measure num (minn * e) its sz period) \<in> pages_order"
      and "PAGE_SIZE \<le> ?incr"
      using 3 "1.prems"(1) by (auto simp: pages_measure_def)
    from "1.hyps" [OF this "1.prems"(2)] 3 show ?thesis
      by (simp add: fill_pages.simps [of num _ e its sz incr period] split del: if_split)
  qed
qed

lemma ipc_table_fill_returns:
  assumes "0 < e" and "e \<le> PAGE_SIZE" and "0 < minn"
  shows "\<exists>its. ipc_table_fill num minn e = Some its \<and> length its = num \<and> sorted_wrt (<) its \<and>
    (\<forall>x \<in> set its. minn \<le> x)"
proof -
  have "fill_inv num minn e [] 1" by (simp add: fill_inv_def)
  with fill_powers_returns [OF assms(1,3), of 1 num "[]"] obtain its sz
    where p: "fill_powers num (minn * e) e [] 1 = Some (its, sz)" "fill_inv num minn e its sz" by auto
  from fill_pages_returns [OF assms(1,2) _ p(2), of PAGE_SIZE 0] p(1) show ?thesis
    by (auto simp: ipc_table_fill_def Let_def)
qed

subsection \<open>No size wraps around\<close>

lemma fill_powers_bound:
  "fill_powers num minsize e its sz = Some (its', sz') \<Longrightarrow> 0 < sz \<Longrightarrow> sz < 2 * PAGE_SIZE \<Longrightarrow>
   (\<forall>x \<in> set its. x \<le> PAGE_SIZE) \<Longrightarrow>
   sz' < 2 * PAGE_SIZE \<and> (\<forall>x \<in> set its'. x \<le> PAGE_SIZE) \<and> (num \<le> length its' \<or> PAGE_SIZE \<le> sz')"
proof (induction "PAGE_SIZE - sz" arbitrary: sz its rule: less_induct)
  case less
  show ?case
  proof (cases "length its < num \<and> sz < PAGE_SIZE")
    case True
    let ?its = "if minsize \<le> sz then its @ [sz div e] else its"
    have "sz div e \<le> PAGE_SIZE" by (rule order_trans [OF div_le_dividend]) (use True in simp)
    then have "\<forall>x \<in> set ?its. x \<le> PAGE_SIZE" using less.prems(4) by simp
    moreover have "fill_powers num minsize e ?its (sz * 2) = Some (its', sz')"
      using less.prems(1) True by (simp add: fill_powers.simps [of num _ e its sz])
    moreover have "PAGE_SIZE - sz * 2 < PAGE_SIZE - sz" "0 < sz * 2" "sz * 2 < 2 * PAGE_SIZE"
      using True less.prems(2) by auto
    ultimately show ?thesis using less.hyps by blast
  next
    case False
    with less.prems show ?thesis by (auto simp: fill_powers.simps [of num _ e its sz] split: if_splits)
  qed
qed

lemma fill_pages_bound:
  assumes "fill_pages num minsize e its sz incr period = Some its'"
    and "0 < incr" "incr \<le> 16 * PAGE_SIZE" "minsize \<le> sz"
    and "\<forall>x \<in> set its. x \<le> B" and "sz + (num - length its) * (16 * PAGE_SIZE) \<le> B"
  shows "\<forall>x \<in> set its'. x \<le> B"
  using assms
proof (induction "pages_measure num minsize its sz period" arbitrary: its sz incr period
    rule: wf_induct_rule [OF wf_pages_order])
  case (1 its sz period incr)
  consider "num \<le> length its" | "\<not> num \<le> length its" "period < 15"
    | "\<not> num \<le> length its" "\<not> period < 15" by blast
  then show ?case
  proof cases
    case 1
    with "1.prems" show ?thesis by (simp add: fill_pages.simps [of num _ e its])
  next
    case 2
    let ?its = "its @ [sz div e]"
    have dec: "(pages_measure num minsize ?its (sz + incr) (period + 1),
        pages_measure num minsize its sz period) \<in> pages_order"
      using 2 by (auto simp: pages_measure_def)
    have r: "fill_pages num minsize e ?its (sz + incr) incr (period + 1) = Some its'"
      using "1.prems"(1,4) 2 by (simp add: fill_pages.simps [of num _ e its])
    have "num - length its = Suc (num - length ?its)" using 2(1) by simp
    then have b: "sz + incr + (num - length ?its) * (16 * PAGE_SIZE) \<le> B"
      using "1.prems"(3,6) by simp
    have "sz div e \<le> B" by (rule order_trans [OF div_le_dividend]) (use "1.prems"(6) in simp)
    then have "\<forall>x \<in> set ?its. x \<le> B" using "1.prems"(5) by simp
    with "1.hyps" [OF dec r "1.prems"(2,3)] "1.prems"(4) b show ?thesis by simp
  next
    case 3
    let ?incr = "if incr < PAGE_SIZE * 8 then incr * 2 else incr"
    have dec: "(pages_measure num minsize its sz 0, pages_measure num minsize its sz period) \<in> pages_order"
      using 3 by (simp add: pages_measure_def)
    have r: "fill_pages num minsize e its sz ?incr 0 = Some its'"
      using "1.prems"(1) 3 by (simp add: fill_pages.simps [of num _ e its])
    have "0 < ?incr" "?incr \<le> 16 * PAGE_SIZE" using "1.prems"(2,3) by auto
    from "1.hyps" [OF dec r this "1.prems"(4-6)] show ?thesis .
  qed
qed

lemma table_fill_bound:
  assumes "ipc_table_fill num minn e = Some its" and "minn * e \<le> PAGE_SIZE"
  shows "\<forall>x \<in> set its. x \<le> (num + 1) * (16 * PAGE_SIZE)"
proof -
  let ?B = "(num + 1) * (16 * PAGE_SIZE)"
  obtain its1 sz where p: "fill_powers num (minn * e) e [] 1 = Some (its1, sz)"
    "fill_pages num (minn * e) e its1 sz PAGE_SIZE 0 = Some its"
    using assms(1) by (auto simp: ipc_table_fill_def Let_def split: bind_splits)
  have page: "1 < PAGE_SIZE" by (simp add: PAGE_SIZE_def PAGE_SHIFT_def)
  have b: "sz < 2 * PAGE_SIZE" "\<forall>x \<in> set its1. x \<le> PAGE_SIZE" "num \<le> length its1 \<or> PAGE_SIZE \<le> sz"
    using fill_powers_bound [OF p(1)] page by auto
  have le: "PAGE_SIZE \<le> ?B" by simp
  show ?thesis
  proof (cases "num \<le> length its1")
    case True
    then have "its = its1" using p(2) by (simp add: fill_pages.simps [of num _ e its1])
    with b(2) le show ?thesis by (meson order_trans)
  next
    case False
    then have mins: "minn * e \<le> sz" using b(3) assms(2) by simp
    have B: "sz + (num - length its1) * (16 * PAGE_SIZE) \<le> ?B"
    proof -
      have "(num - length its1) * (16 * PAGE_SIZE) \<le> num * (16 * PAGE_SIZE)" by (intro mult_le_mono1) simp
      moreover have "sz \<le> 16 * PAGE_SIZE" using b(1) by simp
      ultimately have "sz + (num - length its1) * (16 * PAGE_SIZE) \<le> 16 * PAGE_SIZE + num * (16 * PAGE_SIZE)"
        by (intro add_le_mono)
      then show ?thesis by simp
    qed
    have "\<forall>x \<in> set its1. x \<le> ?B" using b(2) le by (meson order_trans)
    from fill_pages_bound [OF p(2) _ _ mins this B] page show ?thesis by simp
  qed
qed

subsection \<open>Properties\<close>

text \<open>
  What \<^verbatim>\<open>kernel/ipc/ipc_table.h\<close> asks of \<^verbatim>\<open>ipc_table_entries\<close>: the sizes are
  strictly increasing, except that the last two are the same. The upper bound is what keeps a
  name made from an index different from the dead name.
\<close>

definition its_ok :: "nat list \<Rightarrow> bool" where
  "its_ok its \<longleftrightarrow>
     2 \<le> length its \<and> sorted_wrt (<) (butlast its) \<and> its ! (length its - 1) = its ! (length its - 2) \<and>
     list_all (\<lambda>x. 4 \<le> x \<and> x < 2 ^ 32 - 1) its"

text \<open>
  The sizes of dead-name request tables: strictly increasing, at least 2, and ended by a 0.
\<close>

definition dn_sizes_ok :: "nat list \<Rightarrow> bool" where
  "dn_sizes_ok its \<longleftrightarrow>
     2 \<le> length its \<and> sorted_wrt (<) (butlast its) \<and> last its = 0 \<and>
     list_all (\<lambda>x. 2 \<le> x \<and> x < 2 ^ 32) (butlast its)"

text \<open>
  C40. Table initialisation returns. The entry table sizes are 512 sizes of at least 4 entries,
  strictly increasing except for the last two, which are equal, and below \<open>2^32 - 1\<close>; the sizes for
  dead-name requests are 63 strictly increasing sizes of at least 2 and below \<open>2^32\<close>, followed by 0.
\<close>

theorem table_init_sizes:
  "\<exists>entries dnrequests. ipc_table_init = Some (entries, dnrequests) \<and>
    length entries = 512 \<and> its_ok entries \<and>
    length dnrequests = 64 \<and> dn_sizes_ok dnrequests"
proof -
  have page: "PAGE_SIZE = 4096" by (simp add: PAGE_SIZE_def PAGE_SHIFT_def)
  obtain es where es: "ipc_table_fill 511 4 16 = Some es" "length es = 511" "sorted_wrt (<) es"
    "\<forall>x \<in> set es. 4 \<le> x"
    using ipc_table_fill_returns [of 16 4 511] page by auto
  obtain ds where ds: "ipc_table_fill 63 2 8 = Some ds" "length ds = 63" "sorted_wrt (<) ds"
    "\<forall>x \<in> set ds. 2 \<le> x"
    using ipc_table_fill_returns [of 8 2 63] page by auto
  have init: "ipc_table_init = Some (es @ [es ! 510], ds @ [0])"
    using es(1,2) ds(1)
    by (simp add: ipc_table_init_def ipc_table_entries_size_def ipc_table_dnrequests_size_def
        sizeof_ipc_entry_def sizeof_ipc_port_request_def)
  have "\<forall>x \<in> set es. x < 2 ^ 32 - 1"
    using table_fill_bound [OF es(1)] page by (auto dest!: bspec)
  moreover have "es ! 510 \<in> set es" using es(2) by simp
  ultimately have "its_ok (es @ [es ! 510])"
    using es by (auto simp: its_ok_def list_all_iff nth_append)
  moreover have "\<forall>x \<in> set ds. x < 2 ^ 32"
    using table_fill_bound [OF ds(1)] page by (auto dest!: bspec)
  then have "dn_sizes_ok (ds @ [0])" using ds by (simp add: dn_sizes_ok_def list_all_iff)
  ultimately show ?thesis
    using init es ds by (intro exI [of _ "es @ [es ! 510]"] exI [of _ "ds @ [0]"]) simp
qed

end
