(* ===== verification/Ipc_Entry.thy ===== *)
theory Ipc_Entry
  imports Ipc_Hash Ipc_Table
begin

text \<open>
  The entries of an IPC space (\<^verbatim>\<open>kernel/ipc/ipc_entry.c\<close>): lookup, allocation of a free or
  of a given name, deallocation, and growth of the table.

  The operations take and return the space, and the global reverse hash table where they change it.
  \<open>its\<close> is the array \<^verbatim>\<open>ipc_table_entries\<close>. An operation that returns a
  \<^verbatim>\<open>kern_return_t\<close> other than success returns it on the left of a sum.

  Allocation and growth drop the space's lock to allocate memory. A \<open>world\<close> gives, for the \<open>n\<close>-th
  time the lock is dropped, what other threads do to the space and the hash table meanwhile and
  whether the allocation succeeds.
\<close>

type_synonym ipc_state = "ipc_space \<times> ipc_hash_global"

record world =
  w_env :: "nat \<Rightarrow> ipc_state \<Rightarrow> ipc_state"
  w_mem :: "nat \<Rightarrow> bool"

subsection \<open>Lookup\<close>

definition ipc_entry_tree_collision :: "ipc_space \<Rightarrow> mach_port \<Rightarrow> (bool \<times> ipc_space) option" where
  "ipc_entry_tree_collision space name =
     do { assert_that (is_active space);
          let ((lower, upper), tree) = ipc_splay_tree_bounds (is_tree space) name;
          let index = MACH_PORT_INDEX name;
          Some ((lower \<noteq> NOT 0 \<and> MACH_PORT_INDEX lower = index) \<or>
                (upper \<noteq> 0 \<and> MACH_PORT_INDEX upper = index),
                space\<lparr>is_tree := tree\<rparr>) }"

definition entry_tree_lookup :: "ipc_space \<Rightarrow> mach_port \<Rightarrow> (entry_ptr option \<times> ipc_space) option" where
  "entry_tree_lookup space name =
     (let (found, tree) = ipc_splay_tree_lookup (is_tree space) name
      in do { assert_that (case found of None \<Rightarrow> True | Some e \<Rightarrow> IE_BITS_TYPE (ie_bits e) \<noteq> 0);
              Some (map_option (\<lambda>_. Tree_entry name) found, space\<lparr>is_tree := tree\<rparr>) })"

definition ipc_entry_lookup :: "ipc_space \<Rightarrow> mach_port \<Rightarrow> (entry_ptr option \<times> ipc_space) option" where
  "ipc_entry_lookup space name =
     do { assert_that (is_active space);
          let index = unat (MACH_PORT_INDEX name);
          if index < is_table_size space
          then do { entry \<leftarrow> arr_get (is_table space) index;
                    if IE_BITS_GEN (ie_bits entry) \<noteq> MACH_PORT_GEN name
                    then if ie_bits entry AND IE_BITS_COLLISION \<noteq> 0
                         then do { assert_that (0 < is_tree_total space);
                                   entry_tree_lookup space name }
                         else Some (None, space)
                    else if IE_BITS_TYPE (ie_bits entry) = MACH_PORT_TYPE_NONE
                    then Some (None, space)
                    else do { assert_that (IE_BITS_TYPE (ie_bits entry) \<noteq> 0);
                              Some (Some (Table_entry index), space) } }
          else if is_tree_total space = 0 then Some (None, space)
          else entry_tree_lookup space name }"

subsection \<open>Allocation from the free list\<close>

definition ipc_entry_get ::
  "ipc_space \<Rightarrow> ((kern_return + mach_port \<times> entry_ptr) \<times> ipc_space) option" where
  "ipc_entry_get space =
     do { assert_that (is_active space);
          let table = is_table space;
          head \<leftarrow> arr_get table 0;
          let first_free = ie_next head;
          if first_free = 0 then Some (Inl KERN_NO_SPACE, space)
          else do { free_entry \<leftarrow> arr_get table first_free;
                    table \<leftarrow> arr_set table 0 (head\<lparr>ie_request := ie_next free_entry\<rparr>);
                    assert_that (ie_bits free_entry AND NOT IE_BITS_GEN_MASK = 0);
                    let gen = ie_bits free_entry + IE_BITS_GEN_ONE;
                    let new_name = MACH_PORT_MAKE (of_nat first_free) gen;
                    table \<leftarrow> arr_set table first_free (free_entry\<lparr>ie_bits := gen, ie_request := 0\<rparr>);
                    assert_that (MACH_PORT_VALID new_name);
                    assert_that (ie_object free_entry = IO_NULL);
                    Some (Inr (new_name, Table_entry first_free), space\<lparr>is_table := table\<rparr>) } }"

subsection \<open>Deallocation\<close>

text \<open>
  The first part is the branch for a table entry whose collision bit is set: an entry with the same
  index moves from the tree to the table. \<open>pick\<close> takes the root of the tree of collisions.
\<close>

definition dealloc_collision ::
  "ipc_space \<Rightarrow> ipc_hash_global \<Rightarrow> nat \<Rightarrow> (ipc_space \<times> ipc_hash_global) option" where
  "dealloc_collision space g index =
     do { (tree, collisions) \<leftarrow>
            ipc_splay_tree_split (is_tree space) (MACH_PORT_MAKE (of_nat (index + 1)) 0) (is_tree space);
          (collisions, small) \<leftarrow>
            ipc_splay_tree_split collisions (MACH_PORT_MAKE (of_nat index) 0) collisions;
          (tname, tentry) \<leftarrow> ipc_splay_tree_pick collisions;
          assert_that (unat (MACH_PORT_INDEX tname) = index);
          entry \<leftarrow> arr_get (is_table space) index;
          let bits = ie_bits tentry;
          let obj = ie_object tentry;
          let entry = entry\<lparr>ie_bits := bits OR MACH_PORT_GEN tname, ie_object := obj,
                            ie_request := ie_request tentry\<rparr>;
          let space = space\<lparr>is_table := (is_table space)[index := entry]\<rparr>;
          (space, g) \<leftarrow>
            (if IE_BITS_TYPE bits = MACH_PORT_TYPE_SEND
             then do { (space, g) \<leftarrow> ipc_hash_global_delete space g obj tname (tname, tentry);
                       table \<leftarrow> ipc_hash_local_insert (is_table space) obj index;
                       Some (space\<lparr>is_table := table\<rparr>, g) }
             else Some (space, g));
          collisions \<leftarrow> ipc_splay_tree_delete collisions tname;
          assert_that (0 < is_tree_total space);
          let space = space\<lparr>is_tree_total := is_tree_total space - 1\<rparr>;
          (space, tree) \<leftarrow>
            (case ipc_splay_tree_pick collisions of
               Some _ \<Rightarrow>
                 do { space \<leftarrow> write_entry space (Table_entry index)
                                 (\<lambda>e. e\<lparr>ie_bits := ie_bits e OR IE_BITS_COLLISION\<rparr>);
                      (tree, _) \<leftarrow> ipc_splay_tree_join tree collisions;
                      Some (space, tree) }
             | None \<Rightarrow> Some (space, tree));
          (tree, _) \<leftarrow> ipc_splay_tree_join tree small;
          Some (space\<lparr>is_tree := tree\<rparr>, g) }"

definition ipc_entry_dealloc ::
  "nat list \<Rightarrow> ipc_space \<Rightarrow> ipc_hash_global \<Rightarrow> mach_port \<Rightarrow> entry_ptr \<Rightarrow>
     (ipc_space \<times> ipc_hash_global) option" where
  "ipc_entry_dealloc its space g name ptr =
     do { assert_that (is_active space);
          entry \<leftarrow> get_entry space ptr;
          assert_that (ie_object entry = IO_NULL);
          assert_that (ie_request entry = 0);
          let index = unat (MACH_PORT_INDEX name);
          if index < is_table_size space \<and> ptr = Table_entry index
          then do { assert_that (IE_BITS_GEN (ie_bits entry) = MACH_PORT_GEN name);
                    if ie_bits entry AND IE_BITS_COLLISION \<noteq> 0
                    then dealloc_collision space g index
                    else do { head \<leftarrow> arr_get (is_table space) 0;
                              let entry = entry\<lparr>ie_bits := ie_bits entry AND IE_BITS_GEN_MASK,
                                                ie_request := ie_next head\<rparr>;
                              table \<leftarrow> arr_set (is_table space) index entry;
                              head \<leftarrow> arr_get table 0;
                              table \<leftarrow> arr_set table 0 (head\<lparr>ie_request := index\<rparr>);
                              Some (space\<lparr>is_table := table\<rparr>, g) } }
          else do { assert_that (ptr = Tree_entry name);
                    tree \<leftarrow> ipc_splay_tree_delete (is_tree space) name;
                    let space = space\<lparr>is_tree := tree\<rparr>;
                    assert_that (0 < is_tree_total space);
                    let space = space\<lparr>is_tree_total := is_tree_total space - 1\<rparr>;
                    if index < is_table_size space
                    then do { ientry \<leftarrow> arr_get (is_table space) index;
                              assert_that (ie_bits ientry AND IE_BITS_COLLISION \<noteq> 0);
                              (coll, space) \<leftarrow> ipc_entry_tree_collision space name;
                              if \<not> coll
                              then do { space \<leftarrow> write_entry space (Table_entry index)
                                          (\<lambda>e. e\<lparr>ie_bits := ie_bits e AND NOT IE_BITS_COLLISION\<rparr>);
                                        Some (space, g) }
                              else Some (space, g) }
                    else do { next_size \<leftarrow> arr_get its (is_table_next space);
                              if index < next_size
                              then do { (coll, space) \<leftarrow> ipc_entry_tree_collision space name;
                                        if \<not> coll
                                        then do { assert_that (0 < is_tree_small space);
                                                  Some (space\<lparr>is_tree_small := is_tree_small space - 1\<rparr>, g) }
                                        else Some (space, g) }
                              else Some (space, g) } } }"

subsection \<open>Growing the table\<close>

definition zero_entry :: ipc_entry where
  "zero_entry = \<lparr>ie_bits = 0, ie_object = IO_NULL, ie_request = 0, ie_index = 0\<rparr>"

definition grow_copy :: "ipc_entry list \<Rightarrow> nat \<Rightarrow> ipc_entry list" where
  "grow_copy otable sz =
     map (\<lambda>e. e\<lparr>ie_index := 0\<rparr>) otable @ replicate (sz - length otable) zero_entry"

text \<open>The loops over the table: rehash the old entries, link the unused new ones.\<close>

fun grow_rehash :: "ipc_entry list \<Rightarrow> nat list \<Rightarrow> ipc_entry list option" where
  "grow_rehash table [] = Some table"
| "grow_rehash table (i # is) =
     do { entry \<leftarrow> arr_get table i;
          table \<leftarrow> (if IE_BITS_TYPE (ie_bits entry) = MACH_PORT_TYPE_SEND
                    then ipc_hash_local_insert table (ie_object entry) i else Some table);
          grow_rehash table is }"

fun grow_link :: "ipc_entry list \<Rightarrow> nat \<Rightarrow> nat list \<Rightarrow> (ipc_entry list \<times> nat) option" where
  "grow_link table free_index [] = Some (table, free_index)"
| "grow_link table free_index (i # is) =
     do { entry \<leftarrow> arr_get table i;
          if ie_bits entry = 0
          then do { table \<leftarrow> arr_set table i (entry\<lparr>ie_bits := IE_BITS_GEN_MASK, ie_request := free_index\<rparr>);
                    grow_link table i is }
          else grow_link table free_index is }"

text \<open>The bodies of the two traversals: move an entry into the table, count the small ones.\<close>

definition grow_move :: "nat \<Rightarrow> nat \<Rightarrow> ipc_state \<Rightarrow> ipc_entry ite \<Rightarrow> (ipc_state \<times> bool) option" where
  "grow_move osize sz st tentry =
     (let (space, g) = st; (name, te) = tentry;
          gen = MACH_PORT_GEN name; index = unat (MACH_PORT_INDEX name)
      in do { assert_that (osize \<le> index \<and> index < sz);
              entry \<leftarrow> arr_get (is_table space) index;
              if ie_bits entry \<noteq> 0
              then do { assert_that (IE_BITS_TYPE (ie_bits entry) \<noteq> 0);
                        assert_that (IE_BITS_GEN (ie_bits entry) \<noteq> gen);
                        space \<leftarrow> write_entry space (Table_entry index)
                                  (\<lambda>e. e\<lparr>ie_bits := ie_bits e OR IE_BITS_COLLISION\<rparr>);
                        Some ((space, g), False) }
              else do { let bits = ie_bits te;
                        assert_that (IE_BITS_TYPE bits \<noteq> MACH_PORT_TYPE_NONE);
                        space \<leftarrow> write_entry space (Table_entry index)
                                  (\<lambda>e. e\<lparr>ie_bits := bits OR gen, ie_object := ie_object te,
                                         ie_request := ie_request te\<rparr>);
                        (space, g) \<leftarrow>
                          (if IE_BITS_TYPE bits = MACH_PORT_TYPE_SEND
                           then do { (space, g) \<leftarrow> ipc_hash_global_delete space g (ie_object te) name tentry;
                                     table \<leftarrow> ipc_hash_local_insert (is_table space) (ie_object te) index;
                                     Some (space\<lparr>is_table := table\<rparr>, g) }
                           else Some (space, g));
                        Some ((space\<lparr>is_tree_total := is_tree_total space - 1\<rparr>, g), True) } })"

definition grow_count :: "nat \<times> nat \<Rightarrow> ipc_entry ite \<Rightarrow> ((nat \<times> nat) \<times> bool) option" where
  "grow_count st tentry =
     (let (nosmall, index) = st; nindex = unat (MACH_PORT_INDEX (fst tentry))
      in Some (if nindex \<noteq> index then (nosmall + 1, nindex) else (nosmall, index), False))"

definition grow_tree :: "nat \<Rightarrow> nat \<Rightarrow> nat \<Rightarrow> ipc_state \<Rightarrow> ipc_state option" where
  "grow_tree osize sz nsize st =
     (let (space, g) = st; tree = is_tree space in
      do { (tree, small) \<leftarrow> ipc_splay_tree_split tree (MACH_PORT_MAKE (of_nat nsize) 0) tree;
           (small, move) \<leftarrow> ipc_splay_tree_split small (MACH_PORT_MAKE (of_nat sz) 0) small;
           (move, ignore) \<leftarrow> ipc_splay_tree_split move (MACH_PORT_MAKE (of_nat osize) 0) move;
           ((space, g), move) \<leftarrow> ipc_splay_traverse (grow_move osize sz) (space, g) move;
           ((nosmall, _), small) \<leftarrow> ipc_splay_traverse grow_count (0, 0) small;
           assert_that (nosmall \<le> nsize - sz);
           assert_that (nosmall \<le> is_tree_total space);
           (tree, _) \<leftarrow> ipc_splay_tree_join tree small;
           (tree, _) \<leftarrow> ipc_splay_tree_join tree move;
           (tree, _) \<leftarrow> ipc_splay_tree_join tree ignore;
           Some (space\<lparr>is_tree := tree, is_tree_small := nosmall\<rparr>, g) })"

text \<open>One growth, from the installation of the new table to the new free list.\<close>

definition grow_install :: "nat \<Rightarrow> nat \<Rightarrow> nat \<Rightarrow> ipc_state \<Rightarrow> ipc_state option" where
  "grow_install osize sz nsize st =
     (let (space, g) = st in
      do { table \<leftarrow> grow_rehash (grow_copy (is_table space) sz) [0..<osize];
           let space = space\<lparr>is_table := table, is_table_next := is_table_next space + 1\<rparr>;
           (space, g) \<leftarrow> (if 0 < is_tree_total space then grow_tree osize sz nsize (space, g)
                          else Some (space, g));
           let table = is_table space;
           head \<leftarrow> arr_get table 0;
           (table, free_index) \<leftarrow> grow_link table (ie_next head) (rev [osize..<sz]);
           head \<leftarrow> arr_get table 0;
           table \<leftarrow> arr_set table 0 (head\<lparr>ie_request := free_index\<rparr>);
           Some (space\<lparr>is_table := table\<rparr>, g) })"

partial_function (option) ipc_entry_grow_table ::
  "nat list \<Rightarrow> world \<Rightarrow> nat \<Rightarrow> ipc_state \<Rightarrow> (kern_return \<times> ipc_state \<times> nat) option" where
  "ipc_entry_grow_table its w n st =
     do { let space = fst st;
          assert_that (is_active space);
          if is_growing space then Some (KERN_SUCCESS, w_env w n st, n + 1)
          else do {
            let nexti = is_table_next space;
            assert_that (0 < nexti);
            sz \<leftarrow> arr_get its nexti;
            osize \<leftarrow> arr_get its (nexti - 1);
            nsize \<leftarrow> arr_get its (nexti + 1);
            if osize = sz then Some (KERN_NO_SPACE, st, n)
            else do {
              assert_that (osize < sz \<and> sz \<le> nsize);
              let (space, g) = w_env w n (space\<lparr>is_growing := True\<rparr>, snd st);
              let space = space\<lparr>is_growing := False\<rparr>;
              if \<not> w_mem w n then Some (KERN_RESOURCE_SHORTAGE, (space, g), n + 1)
              else if \<not> is_active space
              then Some (KERN_SUCCESS, w_env w (n + 1) (space, g), n + 2)
              else do {
                assert_that (is_table_next space = nexti);
                assert_that (is_table_size space = osize);
                (space, g) \<leftarrow> grow_install osize sz nsize (space, g);
                let (space, g) = w_env w (n + 1) (space, g);
                if \<not> is_active space \<or> is_table_next space \<noteq> nexti + 1
                then Some (KERN_SUCCESS, (space, g), n + 2)
                else if 0 < is_tree_small space \<and>
                        (nsize - sz) * sizeof_ipc_entry < is_tree_small space * sizeof_ipc_tree_entry
                then ipc_entry_grow_table its w (n + 2) (space, g)
                else Some (KERN_SUCCESS, (space, g), n + 2) } } } }"

subsection \<open>Allocation\<close>

partial_function (option) ipc_entry_alloc ::
  "nat list \<Rightarrow> world \<Rightarrow> nat \<Rightarrow> ipc_state \<Rightarrow>
     ((kern_return + mach_port \<times> entry_ptr) \<times> ipc_state \<times> nat) option" where
  "ipc_entry_alloc its w n st =
     (let (space, g) = st in
      if \<not> is_active space then Some (Inl KERN_INVALID_TASK, st, n)
      else do { (r, space) \<leftarrow> ipc_entry_get space;
                case r of
                  Inr found \<Rightarrow> Some (Inr found, (space, g), n)
                | Inl _ \<Rightarrow>
                    do { (kr, st, n) \<leftarrow> ipc_entry_grow_table its w n (space, g);
                         if kr \<noteq> KERN_SUCCESS then Some (Inl kr, st, n)
                         else ipc_entry_alloc its w n st } })"

text \<open>The loop that finds the predecessor of \<open>index\<close> in the free list.\<close>

partial_function (option) free_list_prev :: "ipc_entry list \<Rightarrow> nat \<Rightarrow> nat \<Rightarrow> nat option" where
  "free_list_prev table index free_index =
     do { entry \<leftarrow> arr_get table free_index;
          let next_index = ie_next entry;
          if next_index = index then Some free_index else free_list_prev table index next_index }"

definition free_list_rip :: "ipc_entry list \<Rightarrow> nat \<Rightarrow> u32 \<Rightarrow> ipc_entry list option" where
  "free_list_rip table index gen =
     do { free_index \<leftarrow> free_list_prev table index 0;
          prev \<leftarrow> arr_get table free_index;
          nxt \<leftarrow> arr_get table index;
          table \<leftarrow> arr_set table free_index (prev\<lparr>ie_request := ie_next nxt\<rparr>);
          entry \<leftarrow> arr_get table index;
          assert_that (ie_object entry = IO_NULL);
          arr_set table index (entry\<lparr>ie_bits := gen, ie_request := 0\<rparr>) }"

text \<open>
  \<open>have\<close> says that a tree entry was allocated in an earlier round. The entry found or made is
  returned; a new tree entry goes into the tree.
\<close>

definition alloc_name_insert :: "nat list \<Rightarrow> ipc_space \<Rightarrow> mach_port \<Rightarrow> ipc_space option" where
  "alloc_name_insert its space name =
     do { let index = unat (MACH_PORT_INDEX name);
          next_size \<leftarrow> arr_get its (is_table_next space);
          let space = space\<lparr>is_tree_total := is_tree_total space + 1\<rparr>;
          space \<leftarrow>
            (if index < is_table_size space
             then write_entry space (Table_entry index)
                    (\<lambda>e. e\<lparr>ie_bits := ie_bits e OR IE_BITS_COLLISION\<rparr>)
             else if index < next_size
             then do { (coll, space) \<leftarrow> ipc_entry_tree_collision space name;
                       Some (if \<not> coll then space\<lparr>is_tree_small := is_tree_small space + 1\<rparr> else space) }
             else Some space);
          tree \<leftarrow> ipc_splay_tree_insert (is_tree space) name
                   \<lparr>ie_bits = 0, ie_object = IO_NULL, ie_request = 0, ie_index = 0\<rparr>;
          Some (space\<lparr>is_tree := tree\<rparr>) }"

partial_function (option) ipc_entry_alloc_name ::
  "nat list \<Rightarrow> world \<Rightarrow> bool \<Rightarrow> nat \<Rightarrow> ipc_state \<Rightarrow> mach_port \<Rightarrow>
     ((kern_return + entry_ptr) \<times> ipc_state \<times> nat) option" where
  "ipc_entry_alloc_name its w have n st name =
     (let (space, g) = st; index = unat (MACH_PORT_INDEX name); gen = MACH_PORT_GEN name in
      do {
        assert_that (MACH_PORT_VALID name);
        if \<not> is_active space then Some (Inl KERN_INVALID_TASK, st, n)
        else do {
          intable \<leftarrow>
            (if 0 < index \<and> index < is_table_size space
             then do { entry \<leftarrow> arr_get (is_table space) index;
                       if IE_BITS_TYPE (ie_bits entry) \<noteq> 0
                       then Some (if IE_BITS_GEN (ie_bits entry) = gen then Some space else None)
                       else do { table \<leftarrow> free_list_rip (is_table space) index gen;
                                 Some (Some (space\<lparr>is_table := table\<rparr>)) } }
             else Some None);
          case intable of
            Some space \<Rightarrow> Some (Inr (Table_entry index), (space, g), n)
          | None \<Rightarrow> do {
              (intree, space) \<leftarrow>
                (if 0 < is_tree_total space then entry_tree_lookup space name else Some (None, space));
              case intree of
                Some ptr \<Rightarrow> Some (Inr ptr, (space, g), n)
              | None \<Rightarrow> do {
                  next_size \<leftarrow> arr_get its (is_table_next space);
                  if is_table_size space \<le> index \<and> index < next_size \<and>
                     (next_size - is_table_size space) * sizeof_ipc_entry <
                     (is_tree_small space + 1) * sizeof_ipc_tree_entry
                  then do {
                    (kr, st, n) \<leftarrow> ipc_entry_grow_table its w n (space, g);
                    assert_that (kr \<noteq> KERN_NO_SPACE);
                    if kr \<noteq> KERN_SUCCESS then Some (Inl kr, st, n)
                    else ipc_entry_alloc_name its w have n st name }
                  else if have
                  then do { space \<leftarrow> alloc_name_insert its space name;
                            Some (Inr (Tree_entry name), (space, g), n) }
                  else if \<not> w_mem w n then Some (Inl KERN_RESOURCE_SHORTAGE, w_env w n (space, g), n + 1)
                  else ipc_entry_alloc_name its w True (n + 1) (w_env w n (space, g)) name } } } })"

end
