(* ===== verification/Ipc_Entry_Inv.thy ===== *)
theory Ipc_Entry_Inv
  imports Ipc_Entry "HOL-Library.Multiset"
begin

text \<open>
  Invariant of a space and correctness of lookup, allocation of a name, writing and deallocation of
  entries (\<^verbatim>\<open>kernel/ipc/ipc_entry.c\<close>).

  The free entries of the table form one chain from entry 0, without repetition, and the tree holds
  only names beyond the table; the counts \<^verbatim>\<open>is_tree_total\<close> and
  \<^verbatim>\<open>is_tree_small\<close> are those of the tree. \<open>R\<close> is the set of reserved names: allocated
  by an operation that has not yet set their type. \<open>entries\<close> abstracts the space to a partial map
  from names to entries, without the field that the reverse hash uses.
\<close>

lemmas nogen = MACH_PORT_INDEX_def MACH_PORT_GEN_def MACH_PORT_MAKE_def IE_BITS_GEN_def
  IE_BITS_GEN_MASK_def IE_BITS_GEN_ONE_def MACH_PORT_MAKEB_def PORT_GENERATIONS_def

abbreviation ie_type :: "ipc_entry \<Rightarrow> u32" where
  "ie_type e \<equiv> IE_BITS_TYPE (ie_bits e)"

subsection \<open>The table and its free list\<close>

fun free_chain :: "ipc_entry list \<Rightarrow> nat \<Rightarrow> nat list \<Rightarrow> bool" where
  "free_chain table i [] \<longleftrightarrow> ie_next (table ! i) = 0"
| "free_chain table i (j # js) \<longleftrightarrow>
     ie_next (table ! i) = j \<and> 0 < j \<and> j < length table \<and> free_chain table j js"

definition free_set :: "ipc_entry list \<Rightarrow> nat set \<Rightarrow> nat set" where
  "free_set table R = {i. 0 < i \<and> i < length table \<and> ie_type (table ! i) = 0} - R"

definition table_ok :: "ipc_entry list \<Rightarrow> nat set \<Rightarrow> bool" where
  "table_ok table R \<longleftrightarrow>
     table \<noteq> [] \<and> length table < 2 ^ 32 - 1 \<and> ie_type (table ! 0) = 0 \<and>
     (\<forall>i < length table. ie_bits (table ! i) AND IE_BITS_COLLISION = 0 \<and>
        (ie_type (table ! i) = 0 \<and> i \<notin> R \<longrightarrow> ie_bits (table ! i) = 0 \<and> ie_object (table ! i) = IO_NULL)) \<and>
     (\<exists>fl. free_chain table 0 fl \<and> distinct fl \<and> set fl = free_set table R)"

lemma free_chain_cong:
  assumes "free_chain table i fl" and "length table' = length table"
    and "\<And>k. k \<in> insert i (set fl) \<Longrightarrow> ie_next (table' ! k) = ie_next (table ! k)"
  shows "free_chain table' i fl"
  using assms by (induction fl arbitrary: i) auto

lemma free_chain_in_range: "free_chain table i fl \<Longrightarrow> k \<in> set fl \<Longrightarrow> 0 < k \<and> k < length table"
  by (induction fl arbitrary: i) auto

lemma IE_BITS_TYPE_0 [simp]: "IE_BITS_TYPE 0 = 0"
  by (simp add: IE_BITS_TYPE_def)

lemma of_nat_valid:
  assumes "0 < i" and "i < n" and "n < 2 ^ 32 - 1"
  shows "MACH_PORT_VALID (of_nat i)" and "unat (of_nat i :: mach_port) = i"
proof -
  have i: "i < 2 ^ 32 - 1" using assms by simp
  then show u: "unat (of_nat i :: mach_port) = i" by (simp add: unat_of_nat)
  have "unat (MACH_PORT_DEAD) = 2 ^ 32 - 1" by (simp add: MACH_PORT_DEAD_def unsigned_minus_1_eq_mask mask_eq_exp_minus_1)
  with u i assms(1) show "MACH_PORT_VALID (of_nat i)"
    unfolding MACH_PORT_VALID_def MACH_PORT_NULL_def by (metis less_irrefl unat_0)
qed

lemma entry_get_empty:
  assumes "table_ok (is_table space) R" and "is_active space" and "free_set (is_table space) R = {}"
  shows "ipc_entry_get space = Some (Inl KERN_NO_SPACE, space)"
proof -
  let ?t = "is_table space"
  obtain fl where "free_chain ?t 0 fl" "set fl = free_set ?t R" and ne: "?t \<noteq> []"
    using assms(1) by (auto simp: table_ok_def)
  with assms(3) have "ie_next (?t ! 0) = 0" by (cases fl) auto
  with ne assms(2) show ?thesis by (simp add: ipc_entry_get_def Let_def)
qed

definition put_next :: "ipc_entry list \<Rightarrow> nat \<Rightarrow> nat \<Rightarrow> ipc_entry list" where
  "put_next table i r = table[i := (table ! i)\<lparr>ie_request := r\<rparr>]"

lemma length_put_next [simp]: "length (put_next table i r) = length table"
  by (simp add: put_next_def)

lemma put_next_nth [simp]:
  "ie_bits (put_next table i r ! k) = ie_bits (table ! k)"
  "ie_object (put_next table i r ! k) = ie_object (table ! k)"
  "ie_index (put_next table i r ! k) = ie_index (table ! k)"
  by (cases "i < length table"; simp add: put_next_def nth_list_update_if list_update_beyond)+

lemma ie_next_put_next [simp]:
  "i < length table \<Longrightarrow> ie_next (put_next table i r ! k) = (if k = i then r else ie_next (table ! k))"
  by (simp add: put_next_def nth_list_update_if)

lemma ie_next_put_next_other [simp]: "k \<noteq> i \<Longrightarrow> ie_next (put_next table i r ! k) = ie_next (table ! k)"
  by (simp add: put_next_def)

lemma free_set_put_next [simp]: "free_set (put_next table i r) R = free_set table R"
  by (simp add: free_set_def)

lemma table_okI:
  assumes "table_ok t R" and "length t' = length t"
    and "\<And>k. k < length t \<Longrightarrow> ie_bits (t' ! k) = ie_bits (t ! k)"
    and "\<And>k. k < length t \<Longrightarrow> ie_object (t' ! k) = ie_object (t ! k)"
    and "free_chain t' 0 fl" "distinct fl" "set fl = free_set t' R'" "R \<subseteq> R'"
  shows "table_ok t' R'"
proof -
  have "t' \<noteq> []" "0 < length t" using assms(1,2) by (auto simp: table_ok_def)
  with assms show ?thesis unfolding table_ok_def by auto
qed

lemma entry_get_ok:
  assumes ok: "table_ok (is_table space) R" and act: "is_active space" and ne: "free_set (is_table space) R \<noteq> {}"
  shows "\<exists>i r. ipc_entry_get space = Some (Inr (of_nat i, Table_entry i),
        space\<lparr>is_table := put_next (put_next (is_table space) 0 r) i 0\<rparr>) \<and>
    i \<in> free_set (is_table space) R \<and>
    table_ok (put_next (put_next (is_table space) 0 r) i 0) (insert i R)"
proof -
  let ?t = "is_table space"
  obtain fl where fl: "free_chain ?t 0 fl" "distinct fl" "set fl = free_set ?t R" and tne: "?t \<noteq> []"
    and lim: "length ?t < 2 ^ 32 - 1"
    using ok by (auto simp: table_ok_def)
  from ne fl(3) obtain i rest where fli: "fl = i # rest" by (cases fl) auto
  have i: "ie_next (?t ! 0) = i" "0 < i" "i < length ?t" "free_chain ?t i rest" using fl(1) fli by auto
  have ifree: "i \<in> free_set ?t R" using fl(3) fli by auto
  have rest: "k \<noteq> i \<and> k \<noteq> 0" if "k \<in> set rest" for k
    using that fl(2) fli free_chain_in_range [OF i(4) that] by auto
  have bits: "ie_bits (?t ! i) = 0" "ie_object (?t ! i) = IO_NULL"
    using ok ifree by (auto simp: table_ok_def free_set_def)
  let ?t' = "put_next (put_next ?t 0 (ie_next (?t ! i))) i 0"
  have get: "ipc_entry_get space = Some (Inr (of_nat i, Table_entry i), space\<lparr>is_table := ?t'\<rparr>)"
    using act tne i bits of_nat_valid(1) [OF i(2,3) lim]
    by (simp add: ipc_entry_get_def Let_def nogen put_next_def nth_list_update_if)
  have "free_chain ?t' 0 rest"
  proof (cases rest)
    case Nil
    with i tne show ?thesis by simp
  next
    case (Cons j js)
    have "free_chain ?t' j js"
      by (rule free_chain_cong [of ?t]) (use i Cons rest in auto)
    with i Cons tne show ?thesis by simp
  qed
  then have "table_ok ?t' (insert i R)"
    by (rule table_okI [OF ok, rotated 3]) (use fl(2,3) fli in \<open>auto simp: free_set_def\<close>)
  with get ifree show ?thesis by blast
qed

lemma free_list_prev_spec:
  "free_chain table i (xs @ index # ys) \<Longrightarrow> i < length table \<Longrightarrow> index \<notin> set xs \<Longrightarrow>
   free_list_prev table index i = Some (last (i # xs))"
proof (induction xs arbitrary: i)
  case Nil
  then show ?case by (simp add: free_list_prev.simps [of table index i] Let_def)
next
  case (Cons x xs)
  then have "free_list_prev table index i = free_list_prev table index x"
    by (auto simp: free_list_prev.simps [of table index i] Let_def)
  with Cons show ?case by auto
qed

lemma free_chain_skip:
  "free_chain table i (xs @ index # ys) \<Longrightarrow> distinct (i # xs @ index # ys) \<Longrightarrow> i < length table \<Longrightarrow>
   free_chain (put_next (put_next table (last (i # xs)) (ie_next (table ! index))) index r) i (xs @ ys)"
proof (induction xs arbitrary: i)
  case Nil
  let ?t = "put_next (put_next table i (ie_next (table ! index))) index r"
  have i: "i \<noteq> index" "index < length table" "free_chain table index ys" using Nil by auto
  show ?case
  proof (cases ys)
    case Nil
    with i \<open>i < length table\<close> show ?thesis by simp
  next
    case (Cons j js)
    have "free_chain ?t j js"
      by (rule free_chain_cong [of table]) (use Nil.prems i Cons in auto)
    with Cons i \<open>i < length table\<close> show ?thesis by simp
  qed
next
  case (Cons x xs)
  have "i \<noteq> last (x # xs)" "i \<noteq> index" using Cons.prems(2) last_in_set [of "x # xs"] by auto
  with Cons show ?case by simp
qed

lemma bits_0_idem: "ie_bits e = 0 \<Longrightarrow> e\<lparr>ie_bits := 0, ie_request := r\<rparr> = e\<lparr>ie_request := r\<rparr>"
  by (cases e) simp

lemma free_list_rip_ok:
  assumes ok: "table_ok table R" and index: "index \<in> free_set table R"
  shows "\<exists>p. p < length table \<and> p \<noteq> index \<and> (p = 0 \<or> p \<in> free_set table R) \<and>
    free_list_rip table index 0 = Some (put_next (put_next table p (ie_next (table ! index))) index 0) \<and>
    table_ok (put_next (put_next table p (ie_next (table ! index))) index 0) (insert index R)"
proof -
  obtain fl where fl: "free_chain table 0 fl" "distinct fl" "set fl = free_set table R" and ne: "table \<noteq> []"
    using ok by (auto simp: table_ok_def)
  then obtain xs ys where split: "fl = xs @ index # ys" using index split_list by metis
  let ?p = "last (0 # xs)"
  let ?t = "put_next (put_next table ?p (ie_next (table ! index))) index 0"
  have zero: "0 \<notin> set fl" using free_chain_in_range [OF fl(1)] by blast
  have p: "?p < length table" "?p \<noteq> index"
    using free_chain_in_range [OF fl(1)] split fl(2) ne last_in_set [of xs] zero
    by (cases "xs = []"; auto)+
  have "?p = 0 \<or> ?p \<in> set fl" by (simp add: split)
  then have p': "?p = 0 \<or> ?p \<in> free_set table R" unfolding fl(3) .
  have i: "0 < index" "index < length table" "ie_bits (table ! index) = 0" "ie_object (table ! index) = IO_NULL"
    using index ok by (auto simp: free_set_def table_ok_def)
  have prev: "free_list_prev table index 0 = Some ?p"
    using free_list_prev_spec [of table 0 xs index ys] fl split ne by auto
  have rip: "free_list_rip table index 0 = Some ?t"
    using prev p i
    by (simp add: free_list_rip_def put_next_def nth_list_update_if bits_0_idem del: last.simps)
  have "distinct (0 # xs @ index # ys)" using fl(2) split zero by simp
  then have "free_chain ?t 0 (xs @ ys)"
    using free_chain_skip [OF fl(1) [unfolded split]] ne by blast
  then have "table_ok ?t (insert index R)"
    by (rule table_okI [OF ok, rotated 3]) (use fl(2,3) split in \<open>auto simp: free_set_def\<close>)
  with p p' rip show ?thesis by blast
qed

definition put_free :: "ipc_entry list \<Rightarrow> nat \<Rightarrow> ipc_entry list" where
  "put_free table i =
     put_next (table[i := (table ! i)\<lparr>ie_bits := 0, ie_request := ie_next (table ! 0)\<rparr>]) 0 i"

lemma put_free_simps:
  assumes "0 < i" and "i < length table"
  shows "length (put_free table i) = length table"
    and "ie_bits (put_free table i ! k) = (if k = i then 0 else ie_bits (table ! k))"
    and "ie_object (put_free table i ! k) = ie_object (table ! k)"
    and "ie_index (put_free table i ! k) = ie_index (table ! k)"
    and "ie_next (put_free table i ! k) =
      (if k = 0 then i else if k = i then ie_next (table ! 0) else ie_next (table ! k))"
proof -
  have "0 < length table" using assms by linarith
  with assms show "length (put_free table i) = length table"
    and "ie_bits (put_free table i ! k) = (if k = i then 0 else ie_bits (table ! k))"
    and "ie_object (put_free table i ! k) = ie_object (table ! k)"
    and "ie_index (put_free table i ! k) = ie_index (table ! k)"
    and "ie_next (put_free table i ! k) =
      (if k = 0 then i else if k = i then ie_next (table ! 0) else ie_next (table ! k))"
    by (simp_all add: put_free_def nth_list_update_if)
qed

lemma COLLISION_0 [simp]: "0 AND IE_BITS_COLLISION = 0"
  by simp

lemma free_list_push_ok:
  assumes ok: "table_ok table R" and i: "0 < i" "i < length table" "i \<notin> free_set table R"
    and obj: "ie_object (table ! i) = IO_NULL"
  shows "table_ok (put_free table i) (R - {i})"
proof -
  let ?t = "put_free table i"
  note simps = put_free_simps [OF i(1,2)]
  obtain fl where fl: "free_chain table 0 fl" "distinct fl" "set fl = free_set table R" and ne: "table \<noteq> []"
    using ok by (auto simp: table_ok_def)
  have range: "k \<noteq> 0 \<and> k \<noteq> i" if "k \<in> set fl" for k
    using free_chain_in_range [OF fl(1) that] that fl(3) i(3) by auto
  have "free_chain ?t i fl"
  proof (cases fl)
    case Nil
    with fl(1) i simps(5) show ?thesis by simp
  next
    case (Cons j js)
    have "free_chain ?t j js"
      by (rule free_chain_cong [of table]) (use fl(1) Cons range simps in auto)
    with Cons fl(1) simps i show ?thesis by auto
  qed
  then have chain: "free_chain ?t 0 (i # fl)" using i simps by simp
  have "distinct (i # fl)" using fl i by simp
  moreover have "set (i # fl) = free_set ?t (R - {i})"
    using fl(3) i simps by (auto simp: free_set_def)
  moreover have "?t \<noteq> []" using simps(1) ne by (metis length_0_conv)
  ultimately show ?thesis
    using ok chain simps obj i unfolding table_ok_def by (auto intro: exI [of _ "i # fl"])
qed

definition tree_ok :: "nat list \<Rightarrow> ipc_space \<Rightarrow> mach_port set \<Rightarrow> bool" where
  "tree_ok its space R \<longleftrightarrow>
     ist_ok (is_tree space) \<and>
     (\<forall>x \<in> set (ist_list (is_tree space)).
        is_table_size space \<le> unat (fst x) \<and> MACH_PORT_VALID (fst x) \<and>
        ie_bits (snd x) AND IE_BITS_COLLISION = 0 \<and>
        (ie_type (snd x) = 0 \<longrightarrow> fst x \<in> R)) \<and>
     is_tree_total space = length (ist_list (is_tree space)) \<and>
     is_tree_small space =
       length (filter (\<lambda>x. unat (fst x) < its ! is_table_next space) (ist_list (is_tree space)))"

definition space_ok :: "nat list \<Rightarrow> ipc_space \<Rightarrow> mach_port set \<Rightarrow> bool" where
  "space_ok its space R \<longleftrightarrow>
     its_ok its \<and> 0 < is_table_next space \<and> is_table_next space < length its \<and>
     is_table_size space = its ! (is_table_next space - 1) \<and>
     table_ok (is_table space) (unat ` R) \<and> tree_ok its space R"

definition raw_entry :: "ipc_space \<Rightarrow> mach_port \<Rightarrow> ipc_entry option" where
  "raw_entry space name =
     (if unat name < is_table_size space then Some (is_table space ! unat name)
      else ist_map (is_tree space) name)"

definition entries :: "ipc_space \<Rightarrow> mach_port \<rightharpoonup> ipc_entry" where
  "entries space name =
     (case raw_entry space name of
        None \<Rightarrow> None
      | Some e \<Rightarrow> if ie_type e = 0 then None else Some (e\<lparr>ie_index := 0\<rparr>))"

definition ptr_of :: "ipc_space \<Rightarrow> mach_port \<Rightarrow> entry_ptr" where
  "ptr_of space name =
     (if unat name < is_table_size space then Table_entry (unat name) else Tree_entry name)"

definition same_tree :: "ipc_space \<Rightarrow> ipc_space \<Rightarrow> bool" where
  "same_tree space space' \<longleftrightarrow>
     space' = space\<lparr>is_tree := is_tree space'\<rparr> \<and>
     ist_ok (is_tree space') \<and> ist_list (is_tree space') = ist_list (is_tree space)"

lemma same_treeI:
  "ist_ok t \<Longrightarrow> ist_list t = ist_list (is_tree space) \<Longrightarrow> same_tree space (space\<lparr>is_tree := t\<rparr>)"
  by (simp add: same_tree_def)

lemma same_tree_refl [simp]: "ist_ok (is_tree space) \<Longrightarrow> same_tree space space"
  by (simp add: same_tree_def)

lemma same_tree_eqs:
  assumes "same_tree space space'"
  shows "is_table space' = is_table space" "is_active space' = is_active space"
    "is_table_next space' = is_table_next space" "is_self space' = is_self space"
    "is_tree_total space' = is_tree_total space" "is_tree_small space' = is_tree_small space"
    "is_tree_hash space' = is_tree_hash space" "is_growing space' = is_growing space"
    "ist_list (is_tree space') = ist_list (is_tree space)" "ist_ok (is_tree space')"
    "is_references space' = is_references space"
proof -
  have "space' = space\<lparr>is_tree := is_tree space'\<rparr>" using assms by (simp add: same_tree_def)
  then show "is_table space' = is_table space" "is_active space' = is_active space"
    "is_table_next space' = is_table_next space" "is_self space' = is_self space"
    "is_tree_total space' = is_tree_total space" "is_tree_small space' = is_tree_small space"
    "is_tree_hash space' = is_tree_hash space" "is_growing space' = is_growing space"
    "is_references space' = is_references space"
    by (metis ipc_space.select_convs ipc_space.surjective ipc_space.update_convs(7))+
  show "ist_list (is_tree space') = ist_list (is_tree space)" "ist_ok (is_tree space')"
    using assms by (auto simp: same_tree_def)
qed

lemma same_tree_ok:
  assumes "same_tree space space'"
  shows "space_ok its space R \<Longrightarrow> space_ok its space' R"
    and "raw_entry space' = raw_entry space"
    and "entries space' = entries space"
    and "ptr_of space' = ptr_of space"
proof -
  note eqs = same_tree_eqs [OF assms]
  show "space_ok its space R \<Longrightarrow> space_ok its space' R"
    by (auto simp: space_ok_def tree_ok_def eqs)
  show raw: "raw_entry space' = raw_entry space" by (simp add: fun_eq_iff raw_entry_def eqs)
  show "entries space' = entries space" by (simp add: fun_eq_iff entries_def raw)
  show "ptr_of space' = ptr_of space" by (simp add: fun_eq_iff ptr_of_def eqs)
qed

lemma same_tree_trans: "same_tree s s' \<Longrightarrow> same_tree s' s'' \<Longrightarrow> same_tree s s''"
  unfolding same_tree_def
  by (metis (no_types, lifting) ipc_space.surjective ipc_space.update_convs(7))

lemma get_entry_ptr_of: "get_entry space (ptr_of space name) = raw_entry space name"
  by (simp add: ptr_of_def raw_entry_def)

lemma space_okD:
  assumes "space_ok its space R"
  shows "ist_ok (is_tree space)" and "table_ok (is_table space) (unat ` R)"
    and "is_tree_total space = length (ist_list (is_tree space))"
    and "is_table space \<noteq> []"
  using assms by (auto simp: space_ok_def tree_ok_def table_ok_def)

lemma tree_entryD:
  assumes "space_ok its space R" and "ist_map (is_tree space) name = Some e"
  shows "is_table_size space \<le> unat name" and "MACH_PORT_VALID name"
    and "ie_type e = 0 \<Longrightarrow> name \<in> R"
    and "ie_bits e AND IE_BITS_COLLISION = 0"
proof -
  have "(name, e) \<in> set (ist_list (is_tree space))" using assms(2) by (rule map_of_SomeD)
  then show "is_table_size space \<le> unat name" and "MACH_PORT_VALID name"
    and "ie_type e = 0 \<Longrightarrow> name \<in> R"
    and "ie_bits e AND IE_BITS_COLLISION = 0"
    using assms(1) by (auto simp: space_ok_def tree_ok_def)
qed

lemma entry_tree_lookup_ok:
  assumes "ist_ok (is_tree space)"
    and "\<And>e. ist_map (is_tree space) name = Some e \<Longrightarrow> ie_type e \<noteq> 0"
  shows "\<exists>space'. entry_tree_lookup space name =
      Some (map_option (\<lambda>_. Tree_entry name) (ist_map (is_tree space) name), space') \<and> same_tree space space'"
proof -
  obtain found tree where lk: "ipc_splay_tree_lookup (is_tree space) name = (found, tree)" by fastforce
  have t: "found = ist_map (is_tree space) name" "ist_ok tree" "ist_list tree = ist_list (is_tree space)"
    using splay_lookup [OF assms(1), of name] lk by auto
  have "entry_tree_lookup space name = Some (map_option (\<lambda>_. Tree_entry name) found, space\<lparr>is_tree := tree\<rparr>)"
    using lk assms(2) t(1) by (auto simp: entry_tree_lookup_def split: option.splits)
  with t same_treeI [OF t(2,3)] show ?thesis by auto
qed

lemma entry_lookup_ok:
  assumes ok: "space_ok its space R" and act: "is_active space" and name: "name \<notin> R"
  shows "\<exists>space'. ipc_entry_lookup space name =
      Some (if entries space name = None then None else Some (ptr_of space name), space') \<and>
    same_tree space space'"
proof (cases "unat name < is_table_size space")
  case True
  then have "ipc_entry_lookup space name =
      Some (if ie_type (is_table space ! unat name) = 0 then None else Some (Table_entry (unat name)), space)"
    using act by (simp add: ipc_entry_lookup_def Let_def nogen MACH_PORT_TYPE_NONE_def)
  with True space_okD(1) [OF ok] show ?thesis by (simp add: entries_def raw_entry_def ptr_of_def)
next
  case False
  have tyne: "ie_type e \<noteq> 0" if "ist_map (is_tree space) name = Some e" for e
    using tree_entryD(3) [OF ok that] name by auto
  have ent: "entries space name = None \<longleftrightarrow> ist_map (is_tree space) name = None"
    using False tyne by (auto simp: entries_def raw_entry_def split: option.splits)
  show ?thesis
  proof (cases "is_tree_total space = 0")
    case True
    then have "ist_map (is_tree space) name = None" using space_okD(3) [OF ok] by simp
    with True False act ent space_okD(1) [OF ok] show ?thesis
      by (simp add: ipc_entry_lookup_def Let_def nogen)
  next
    case tot: False
    from entry_tree_lookup_ok [OF space_okD(1) [OF ok] tyne] obtain space'
      where "entry_tree_lookup space name =
        Some (map_option (\<lambda>_. Tree_entry name) (ist_map (is_tree space) name), space')" "same_tree space space'"
      by blast
    with tot False act ent show ?thesis
      by (cases "ist_map (is_tree space) name")
        (auto simp: ipc_entry_lookup_def Let_def nogen ptr_of_def)
  qed
qed

subsection \<open>Counting the tree\<close>

lemma mset_insert_keys:
  assumes "map_of xs k = None"
  shows "mset (filter (\<lambda>x. fst x < k) xs @ (k, v) # filter (\<lambda>x. k < fst x) xs) = add_mset (k :: 'k :: linorder, v) (mset xs)"
proof -
  have "filter (\<lambda>x. k < fst x) xs = filter (\<lambda>x. \<not> fst x < k) xs"
  proof (rule filter_cong [OF refl])
    fix x assume "x \<in> set xs"
    then have "fst x \<noteq> k" using assms by (force simp: map_of_eq_None_iff)
    then show "k < fst x \<longleftrightarrow> \<not> fst x < k" by auto
  qed
  then show ?thesis using multiset_partition [of "mset xs" "\<lambda>x. fst x < k"] by simp
qed

lemma mset_delete_keys:
  assumes "distinct (map fst xs)" and "map_of xs k = Some v"
  shows "mset xs = add_mset (k, v) (mset (filter (\<lambda>x. fst x \<noteq> k) xs))"
  using assms
proof (induction xs)
  case (Cons x xs)
  show ?case
  proof (cases "fst x = k")
    case True
    with Cons.prems have "\<forall>y \<in> set xs. fst y \<noteq> k" by (auto simp: image_iff)
    then have "filter (\<lambda>x. fst x \<noteq> k) xs = xs" by (simp add: filter_id_conv)
    with True Cons.prems show ?thesis by (cases x) auto
  qed (use Cons in auto)
qed simp

lemma ist_ok_distinct: "ist_ok s \<Longrightarrow> distinct (map fst (ist_list s))"
  by (simp add: ist_ok_def strict_sorted_iff)

lemma tree_collision_absent:
  assumes "ist_ok (is_tree space)" and "is_active space" and "ist_map (is_tree space) name = None"
  shows "\<exists>space'. ipc_entry_tree_collision space name = Some (False, space') \<and> same_tree space space'"
proof -
  obtain lower upper tree where b: "ipc_splay_tree_bounds (is_tree space) name = ((lower, upper), tree)"
    by (metis surj_pair)
  note bounds = splay_bounds [OF assms(1) b]
  have "lower \<noteq> name \<or> lower = NOT 0" using bounds(1) assms(3)
    by (auto simp: is_lower_def greatest_le_def MACH_PORT_LARGEST_def split: if_splits)
  moreover have "upper \<noteq> name \<or> upper = 0" using bounds(2) assms(3)
    by (auto simp: is_upper_def least_ge_def MACH_PORT_SMALLEST_def split: if_splits)
  ultimately show ?thesis using assms(2) b same_treeI [OF bounds(3,4)]
    by (auto simp: ipc_entry_tree_collision_def nogen Let_def)
qed

subsection \<open>Deallocation\<close>

definition same_index :: "ipc_space \<Rightarrow> ipc_space \<Rightarrow> bool" where
  "same_index space space' \<longleftrightarrow>
     is_table_size space' = is_table_size space \<and> is_table_next space' = is_table_next space \<and>
     is_active space' = is_active space \<and> is_self space' = is_self space \<and>
     is_growing space' = is_growing space \<and> is_references space' = is_references space \<and>
     is_tree_hash space' = is_tree_hash space \<and>
     (\<forall>i < is_table_size space. ie_index (is_table space' ! i) = ie_index (is_table space ! i))"

lemma same_index_refl [simp]: "same_index space space"
  by (simp add: same_index_def)

lemma same_index_trans [trans]: "same_index s s' \<Longrightarrow> same_index s' s'' \<Longrightarrow> same_index s s''"
  by (auto simp: same_index_def)

lemma same_tree_index: "same_tree space space' \<Longrightarrow> same_index space space'"
  by (simp add: same_index_def same_tree_eqs)

lemma raw_entry_table: "unat name < is_table_size space \<Longrightarrow> raw_entry space name = Some (is_table space ! unat name)"
  and raw_entry_tree: "\<not> unat name < is_table_size space \<Longrightarrow> raw_entry space name = ist_map (is_tree space) name"
  by (simp_all add: raw_entry_def)

lemma dealloc_table:
  assumes ok: "space_ok its space R" and act: "is_active space"
    and name: "0 < unat name" "unat name < is_table_size space"
    and used: "ie_type (is_table space ! unat name) \<noteq> 0 \<or> name \<in> R"
    and e: "ie_object (is_table space ! unat name) = IO_NULL" "ie_request (is_table space ! unat name) = 0"
  shows "ipc_entry_dealloc its space g name (Table_entry (unat name)) =
      Some (space\<lparr>is_table := put_free (is_table space) (unat name)\<rparr>, g)"
    and "table_ok (put_free (is_table space) (unat name)) (unat ` (R - {name}))"
proof -
  let ?i = "unat name" and ?t = "is_table space"
  have tok: "table_ok ?t (unat ` R)" using space_okD [OF ok] by simp
  then have "ie_bits (?t ! ?i) AND IE_BITS_COLLISION = 0" "?t \<noteq> []" using name by (auto simp: table_ok_def)
  then show "ipc_entry_dealloc its space g name (Table_entry ?i) = Some (space\<lparr>is_table := put_free ?t ?i\<rparr>, g)"
    using act name e by (simp add: ipc_entry_dealloc_def Let_def nogen put_free_def put_next_def nth_list_update_if)
  have img: "unat ` (R - {name}) = unat ` R - {?i}" by (auto simp: word_unat_eq_iff)
  have "?i \<notin> free_set ?t (unat ` R)" using used by (auto simp: free_set_def)
  then show "table_ok (put_free ?t ?i) (unat ` (R - {name}))"
    unfolding img using tok name e by (intro free_list_push_ok) auto
qed

lemma table_ok_cong:
  assumes "\<And>i. i < length t \<Longrightarrow> i \<in> R \<longleftrightarrow> i \<in> R'"
  shows "table_ok t R \<longleftrightarrow> table_ok t R'"
proof -
  have "free_set t R = free_set t R'" using assms by (auto simp: free_set_def)
  then show ?thesis using assms by (auto simp: table_ok_def)
qed

lemma unat_image_range:
  assumes "\<And>n. unat n < k \<Longrightarrow> n \<in> R \<longleftrightarrow> n \<in> R'" and "i < k"
  shows "i \<in> unat ` R \<longleftrightarrow> i \<in> unat ` R'"
  using assms by auto

lemma space_ok_table:
  assumes "space_ok its space R" and "table_ok t (unat ` R')" and "length t = is_table_size space"
    and "\<And>n. is_table_size space \<le> unat n \<Longrightarrow> n \<in> R \<Longrightarrow> n \<in> R'"
  shows "space_ok its (space\<lparr>is_table := t\<rparr>) R'"
  using assms by (auto simp: space_ok_def tree_ok_def)

lemma put_free_other: "k \<noteq> 0 \<Longrightarrow> k \<noteq> i \<Longrightarrow> put_free table i ! k = table ! k"
  by (simp add: put_free_def put_next_def)

lemma table_zero_free: "space_ok its space R \<Longrightarrow> ie_type (is_table space ! 0) = 0"
  by (simp add: space_ok_def table_ok_def)

lemma entries_zero: "space_ok its space R \<Longrightarrow> entries space 0 = None"
  by (simp add: entries_def raw_entry_def space_okD(4) table_zero_free)

lemma unat_nz: "n \<noteq> 0 \<Longrightarrow> unat (n :: mach_port) \<noteq> 0"
  by (simp add: unat_eq_zero)

lemma entries_put_free:
  assumes ok: "space_ok its space R" and name: "0 < unat name" "unat name < is_table_size space"
    and ok': "space_ok its (space\<lparr>is_table := put_free (is_table space) (unat name)\<rparr>) R'"
  shows "entries (space\<lparr>is_table := put_free (is_table space) (unat name)\<rparr>) = (entries space)(name := None)"
proof
  fix n
  note simps = put_free_simps [OF name]
  let ?s = "space\<lparr>is_table := put_free (is_table space) (unat name)\<rparr>"
  consider "n = 0" | "n = name" | "n \<noteq> 0" "n \<noteq> name" by blast
  then show "entries ?s n = ((entries space)(name := None)) n"
  proof cases
    case 1
    with entries_zero [OF ok] entries_zero [OF ok'] show ?thesis by simp
  next
    case 2
    with simps name show ?thesis by (simp add: entries_def raw_entry_def)
  next
    case 3
    then have "unat n \<noteq> 0" "unat n \<noteq> unat name" by (simp_all add: unat_nz word_unat_eq_iff [symmetric])
    with 3 simps(1) show ?thesis by (simp add: entries_def raw_entry_def put_free_other)
  qed
qed

lemma tree_delete_ok:
  assumes ok: "space_ok its space R" and act: "is_active space"
    and name: "\<not> unat name < is_table_size space" "ist_map (is_tree space) name = Some e"
    and e: "ie_object e = IO_NULL" "ie_request e = 0"
  shows "\<exists>space'. ipc_entry_dealloc its space g name (Tree_entry name) = Some (space', g) \<and>
    space_ok its space' (R - {name}) \<and> is_table space' = is_table space \<and>
    ist_list (is_tree space') = filter (\<lambda>x. fst x \<noteq> name) (ist_list (is_tree space)) \<and> same_index space space'"
proof -
  let ?xs = "ist_list (is_tree space)" and ?k = "its ! is_table_next space"
  obtain tree where del: "ipc_splay_tree_delete (is_tree space) name = Some tree" "ist_ok tree"
    and lst: "ist_list tree = filter (\<lambda>x. fst x \<noteq> name) ?xs"
    using splay_delete [OF space_okD(1) [OF ok], of name] name by auto
  have ms: "mset ?xs = add_mset (name, e) (mset (ist_list tree))"
    unfolding lst by (rule mset_delete_keys [OF ist_ok_distinct [OF space_okD(1) [OF ok]] name(2)])
  have tot: "is_tree_total space = Suc (length (ist_list tree))"
    using space_okD(3) [OF ok] ms by (metis size_add_mset size_mset)
  have "length (filter (\<lambda>x. unat (fst x) < ?k) ?xs) =
      length (filter (\<lambda>x. unat (fst x) < ?k) (ist_list tree)) + (if unat name < ?k then 1 else 0)"
    using arg_cong [OF ms, of "\<lambda>m. size (filter_mset (\<lambda>x. unat (fst x) < ?k) m)"]
    by (simp flip: mset_filter)
  then have small: "is_tree_small space =
      length (filter (\<lambda>x. unat (fst x) < ?k) (ist_list tree)) + (if unat name < ?k then 1 else 0)"
    using ok by (simp add: space_ok_def tree_ok_def)
  have nexti: "is_table_next space < length its" using ok by (simp add: space_ok_def)
  let ?s = "space\<lparr>is_tree := tree, is_tree_total := is_tree_total space - 1\<rparr>"
  have "ist_map (is_tree ?s) name = None" by (auto simp: lst map_of_eq_None_iff)
  from tree_collision_absent [OF _ _ this] del act obtain s'
    where coll: "ipc_entry_tree_collision ?s name = Some (False, s')" "same_tree ?s s'" by auto
  note eqs = same_tree_eqs [OF coll(2)]
  have table: "table_ok (is_table space) (unat ` (R - {name}))"
    using space_okD(2) [OF ok] name(1) by (subst table_ok_cong [of _ _ "unat ` R"]) auto
  let ?r = "if unat name < ?k then s'\<lparr>is_tree_small := is_tree_small s' - 1\<rparr> else ?s"
  have run: "ipc_entry_dealloc its space g name (Tree_entry name) = Some (?r, g)"
    using act name e del tot small nexti coll eqs
    by (simp add: ipc_entry_dealloc_def Let_def nogen)
  have ok': "space_ok its ?r (R - {name})"
    using ok eqs table del tot small lst by (auto simp: space_ok_def tree_ok_def)
  have "same_index space ?r" "is_table ?r = is_table space" "ist_list (is_tree ?r) = ist_list tree"
    using eqs by (auto simp: same_index_def)
  with run ok' lst show ?thesis by auto
qed

lemma entry_dealloc_ok:
  assumes ok: "space_ok its space R" and act: "is_active space" and nz: "name \<noteq> 0"
    and e: "raw_entry space name = Some e" "ie_object e = IO_NULL" "ie_request e = 0"
    and used: "ie_type e \<noteq> 0 \<or> name \<in> R"
  shows "\<exists>space'. ipc_entry_dealloc its space g name (ptr_of space name) = Some (space', g) \<and>
    space_ok its space' (R - {name}) \<and> entries space' = (entries space)(name := None) \<and>
    same_index space space'"
proof (cases "unat name < is_table_size space")
  case True
  have pos: "0 < unat name" using unat_nz [OF nz] by simp
  note simps = put_free_simps [OF pos True]
  have ent: "is_table space ! unat name = e" using e True by (simp add: raw_entry_def)
  note d = dealloc_table [OF ok act pos True, unfolded ent, OF used e(2,3)]
  let ?s = "space\<lparr>is_table := put_free (is_table space) (unat name)\<rparr>"
  have ok': "space_ok its ?s (R - {name})"
    by (rule space_ok_table [OF ok d(2)]) (use simps True in auto)
  have "same_index space ?s" using simps by (simp add: same_index_def)
  with d(1) [of g] ok' entries_put_free [OF ok pos True ok'] True show ?thesis
    by (auto simp: ptr_of_def)
next
  case False
  then have m: "ist_map (is_tree space) name = Some e" using e by (simp add: raw_entry_def)
  obtain space' where s': "ipc_entry_dealloc its space g name (Tree_entry name) = Some (space', g)"
    "space_ok its space' (R - {name})" "is_table space' = is_table space"
    "ist_list (is_tree space') = filter (\<lambda>x. fst x \<noteq> name) (ist_list (is_tree space))" "same_index space space'"
    using tree_delete_ok [OF ok act False m e(2,3)] by blast
  have "entries space' = (entries space)(name := None)"
    using s'(3,4) False by (auto simp: fun_eq_iff entries_def raw_entry_def map_of_delete_keys)
  with s' False show ?thesis by (auto simp: ptr_of_def)
qed

subsection \<open>Reserving a free name\<close>

definition fresh_entry :: "ipc_space \<Rightarrow> mach_port \<Rightarrow> bool" where
  "fresh_entry space name \<longleftrightarrow>
     (\<exists>e. raw_entry space name = Some e \<and> ie_bits e = 0 \<and> ie_object e = IO_NULL \<and> ie_request e = 0)"

definition reserves :: "nat list \<Rightarrow> ipc_space \<Rightarrow> mach_port set \<Rightarrow> ipc_space \<Rightarrow> mach_port \<Rightarrow> bool" where
  "reserves its space R space' name \<longleftrightarrow>
     MACH_PORT_VALID name \<and> name \<notin> R \<and> entries space name = None \<and>
     space_ok its space' (insert name R) \<and> fresh_entry space' name \<and>
     entries space' = entries space \<and> same_index space space'"

lemma reserve_table:
  assumes ok: "space_ok its space R" and i: "i \<in> free_set (is_table space) (unat ` R)"
    and p: "p < is_table_size space" "p \<noteq> i" "p = 0 \<or> p \<in> free_set (is_table space) (unat ` R)"
    and tok: "table_ok (put_next (put_next (is_table space) p r) i 0) (insert i (unat ` R))"
  shows "reserves its space R (space\<lparr>is_table := put_next (put_next (is_table space) p r) i 0\<rparr>) (of_nat i)"
proof -
  let ?t = "is_table space" and ?t' = "put_next (put_next (is_table space) p r) i 0"
  let ?s = "space\<lparr>is_table := ?t'\<rparr>"
  have i': "0 < i" "i < length ?t" "ie_type (?t ! i) = 0" "i \<notin> unat ` R"
    using i by (auto simp: free_set_def)
  have tok0: "table_ok ?t (unat ` R)" using space_okD [OF ok] by simp
  then have lim: "length ?t < 2 ^ 32 - 1" by (simp add: table_ok_def)
  note n = of_nat_valid [OF i'(1,2) lim]
  have ins: "unat ` insert (of_nat i) R = insert i (unat ` R)" using n by simp
  have ok': "space_ok its ?s (insert (of_nat i) R)"
    by (rule space_ok_table [OF ok]) (use tok ins in auto)
  have typ0: "ie_type (?t ! k) = 0" if "k = i \<or> k = p" for k
    using that i' p(3) table_zero_free [OF ok] by (auto simp: free_set_def)
  have other: "?t' ! k = ?t ! k" if "k \<noteq> i" "k \<noteq> p" for k using that by (simp add: put_next_def)
  have ents: "entries ?s m = entries space m" for m
    using typ0 other by (cases "unat m = i \<or> unat m = p") (auto simp: entries_def raw_entry_def)
  have "entries space (of_nat i) = None" using i' n by (simp add: entries_def raw_entry_def)
  moreover have "ie_bits (?t ! i) = 0" "ie_object (?t ! i) = IO_NULL"
    using tok0 i' by (auto simp: table_ok_def)
  then have "fresh_entry ?s (of_nat i)" using i' n by (simp add: fresh_entry_def raw_entry_def)
  moreover have "(of_nat i :: mach_port) \<notin> R" using i' n by force
  moreover have "same_index space ?s" by (simp add: same_index_def)
  ultimately show ?thesis unfolding reserves_def using n ok' ents by (simp add: fun_eq_iff)
qed

lemma entry_get_reserves:
  assumes ok: "space_ok its space R" and act: "is_active space" and ne: "free_set (is_table space) (unat ` R) \<noteq> {}"
  shows "\<exists>name space'. ipc_entry_get space = Some (Inr (name, ptr_of space' name), space') \<and>
    reserves its space R space' name"
proof -
  from entry_get_ok [OF space_okD(2) [OF ok] act ne] obtain i r where
    get: "ipc_entry_get space = Some (Inr (of_nat i, Table_entry i),
        space\<lparr>is_table := put_next (put_next (is_table space) 0 r) i 0\<rparr>)"
    and i: "i \<in> free_set (is_table space) (unat ` R)"
    and tok: "table_ok (put_next (put_next (is_table space) 0 r) i 0) (insert i (unat ` R))" by blast
  have i': "0 < i" "i < is_table_size space" using i by (auto simp: free_set_def)
  have lim: "is_table_size space < 2 ^ 32 - 1" using space_okD(2) [OF ok] by (simp add: table_ok_def)
  from reserve_table [OF ok i _ _ _ tok] i' get of_nat_valid [OF i' lim] space_okD(4) [OF ok]
  show ?thesis by (auto simp: ptr_of_def intro!: exI [of _ "of_nat i"])
qed

lemma rip_reserves:
  assumes ok: "space_ok its space R" and free: "unat name \<in> free_set (is_table space) (unat ` R)"
  shows "\<exists>t. free_list_rip (is_table space) (unat name) 0 = Some t \<and>
    reserves its space R (space\<lparr>is_table := t\<rparr>) name \<and> length t = is_table_size space"
proof -
  from free_list_rip_ok [OF space_okD(2) [OF ok] free] obtain p where p: "p < is_table_size space" "p \<noteq> unat name"
    "p = 0 \<or> p \<in> free_set (is_table space) (unat ` R)"
    and rip: "free_list_rip (is_table space) (unat name) 0 =
      Some (put_next (put_next (is_table space) p (ie_next (is_table space ! unat name))) (unat name) 0)"
    and tok: "table_ok (put_next (put_next (is_table space) p (ie_next (is_table space ! unat name))) (unat name) 0)
      (insert (unat name) (unat ` R))" by blast
  from reserve_table [OF ok free p tok] rip show ?thesis by simp
qed

lemma alloc_name_insert_ok:
  assumes ok: "space_ok its space R" and act: "is_active space" and valid: "MACH_PORT_VALID name" "name \<notin> R"
    and name: "\<not> unat name < is_table_size space" "ist_map (is_tree space) name = None"
  shows "\<exists>space'. alloc_name_insert its space name = Some space' \<and> reserves its space R space' name \<and>
    is_table_size space' = is_table_size space"
proof -
  let ?xs = "ist_list (is_tree space)" and ?k = "its ! is_table_next space"
  let ?s = "space\<lparr>is_tree_total := is_tree_total space + 1\<rparr>"
  note d = space_okD [OF ok]
  have nexti: "is_table_next space < length its" using ok by (simp add: space_ok_def)
  from tree_collision_absent [of ?s name] d act name obtain s'
    where coll: "ipc_entry_tree_collision ?s name = Some (False, s')" "same_tree ?s s'" by auto
  let ?s1 = "if unat name < ?k then s'\<lparr>is_tree_small := is_tree_small s' + 1\<rparr> else ?s"
  note eqs = same_tree_eqs [OF coll(2)]
  have l1: "ist_list (is_tree ?s1) = ?xs" "ist_ok (is_tree ?s1)" using eqs d by auto
  then have "ist_map (is_tree ?s1) name = None" using name by simp
  from splay_insert [OF l1(2) this, of zero_entry, unfolded l1(1)] obtain tree
    where ins: "ipc_splay_tree_insert (is_tree ?s1) name zero_entry = Some tree" "ist_ok tree"
      and lst: "ist_list tree = filter (\<lambda>x. fst x < name) ?xs @ (name, zero_entry) # filter (\<lambda>x. name < fst x) ?xs"
    by blast
  let ?r = "?s1\<lparr>is_tree := tree\<rparr>"
  have run: "alloc_name_insert its space name = Some ?r"
    using nexti name coll ins unfolding zero_entry_def
    by (auto simp: alloc_name_insert_def Let_def nogen)
  have ms: "mset (ist_list tree) = add_mset (name, zero_entry) (mset ?xs)"
    unfolding lst by (rule mset_insert_keys [OF name(2)])
  have st: "set (ist_list tree) = insert (name, zero_entry) (set ?xs)"
    using arg_cong [OF ms, of set_mset] by simp
  have mp: "ist_map tree = (ist_map (is_tree space))(name \<mapsto> zero_entry)"
    unfolding lst by (rule map_of_insert_keys [OF name(2)])
  have tot: "length (ist_list tree) = Suc (length ?xs)"
    using arg_cong [OF ms, of size] by simp
  have small: "length (filter (\<lambda>x. unat (fst x) < ?k) (ist_list tree)) =
      length (filter (\<lambda>x. unat (fst x) < ?k) ?xs) + (if unat name < ?k then 1 else 0)"
    using arg_cong [OF ms, of "\<lambda>m. size (filter_mset (\<lambda>x. unat (fst x) < ?k) m)"]
    by (simp flip: mset_filter)
  have table: "table_ok (is_table space) (unat ` insert name R)"
    using d(2) name(1) by (subst table_ok_cong [of _ _ "unat ` R"]) auto
  have ok': "space_ok its ?r (insert name R)"
    using ok eqs table ins tot small name(1) valid(1) unfolding space_ok_def tree_ok_def
    by (auto simp: st zero_entry_def)
  have ents: "entries ?r n = entries space n" for n
    using name eqs by (auto simp: entries_def raw_entry_def mp zero_entry_def)
  have "fresh_entry ?r name" using name(1) eqs by (simp add: fresh_entry_def raw_entry_def mp zero_entry_def)
  moreover have "entries space name = None" using name by (simp add: entries_def raw_entry_def)
  moreover have "same_index space ?r" using eqs by (auto simp: same_index_def)
  ultimately have "reserves its space R ?r name"
    using valid ok' ents unfolding reserves_def by (simp add: fun_eq_iff)
  with run eqs show ?thesis by auto
qed

lemma table_write_ok:
  assumes tok: "table_ok t R" and i: "0 < i" "i < length t" "i \<notin> free_set t R"
    and e: "IE_BITS_TYPE (ie_bits e) \<noteq> 0" "ie_bits e AND IE_BITS_COLLISION = 0"
  shows "table_ok (t[i := e]) (R - {i})"
proof -
  obtain fl where fl: "free_chain t 0 fl" "distinct fl" "set fl = free_set t R" and ne: "t \<noteq> []"
    using tok by (auto simp: table_ok_def)
  have "free_chain (t[i := e]) 0 fl"
    by (rule free_chain_cong [OF fl(1)]) (use i fl(3) in \<open>auto simp: nth_list_update_if\<close>)
  moreover have "set fl = free_set (t[i := e]) (R - {i})"
    using fl(3) i e by (auto simp: free_set_def nth_list_update_if)
  ultimately show ?thesis
    using tok e i fl(2) unfolding table_ok_def by (auto simp: nth_list_update_if)
qed

lemma set_ite_write:
  assumes "distinct (map fst xs)" and "map_of xs name = Some e"
  shows "set (map (ite_write name f) xs) = insert (name, f e) {x \<in> set xs. fst x \<noteq> name}"
proof -
  let ?g = "\<lambda>x. if fst x = name then (name, f e) else x"
  have g: "ite_write name f x = ?g x" if "x \<in> set xs" for x
    using map_of_is_SomeI [OF assms(1), of "fst x" "snd x"] that assms(2) by (auto simp: ite_write_def)
  have "(name, e) \<in> set xs" using assms(2) by (rule map_of_SomeD)
  then have "?g ` set xs = insert (name, f e) {x \<in> set xs. fst x \<noteq> name}" by force
  then show ?thesis using g by (simp cong: image_cong)
qed

lemma length_filter_ite_write: "length (filter (\<lambda>x. P (fst x)) (map (ite_write name f) xs)) = length (filter (\<lambda>x. P (fst x)) xs)"
  by (induction xs) auto

lemma tree_write_ok:
  assumes ok: "space_ok its space R" and name: "\<not> unat name < is_table_size space" "ist_map (is_tree space) name = Some e"
    and f: "ie_type (f e) \<noteq> 0" "ie_bits (f e) AND IE_BITS_COLLISION = 0"
  shows "space_ok its (space\<lparr>is_tree := ist_write (is_tree space) name f\<rparr>) (R - {name})"
proof -
  note d = space_okD [OF ok]
  have st: "set (ist_list (ist_write (is_tree space) name f)) =
      insert (name, f e) {x \<in> set (ist_list (is_tree space)). fst x \<noteq> name}"
    unfolding ist_list_write by (rule set_ite_write [OF ist_ok_distinct [OF d(1)] name(2)])
  have "table_ok (is_table space) (unat ` (R - {name}))"
    using d(2) name(1) by (subst table_ok_cong [of _ _ "unat ` R"]) auto
  moreover have "is_tree_total space = length (ist_list (ist_write (is_tree space) name f))"
    using d(3) by (simp add: ist_list_write)
  moreover have "length (filter (\<lambda>x. unat (fst x) < k) (ist_list (ist_write (is_tree space) name f))) =
      length (filter (\<lambda>x. unat (fst x) < k) (ist_list (is_tree space)))" for k
    unfolding ist_list_write by (rule length_filter_ite_write)
  ultimately show ?thesis
    using ok name f tree_entryD(2) [OF ok name(2)] splay_write(1) [OF d(1)]
    unfolding space_ok_def tree_ok_def by (auto simp: st)
qed

lemma entry_write_ok:
  assumes ok: "space_ok its space R" and nz: "name \<noteq> 0"
    and e: "raw_entry space name = Some e" "ie_type e \<noteq> 0 \<or> name \<in> R"
    and f: "ie_type (f e) \<noteq> 0" "ie_bits (f e) AND IE_BITS_COLLISION = 0"
  shows "\<exists>space'. write_entry space (ptr_of space name) f = Some space' \<and>
    space_ok its space' (R - {name}) \<and> entries space' = (entries space)(name \<mapsto> (f e)\<lparr>ie_index := 0\<rparr>) \<and>
    raw_entry space' name = Some (f e) \<and>
    (ie_index (f e) = ie_index e \<longrightarrow> same_index space space')"
proof (cases "unat name < is_table_size space")
  case True
  let ?t = "is_table space" and ?i = "unat name"
  let ?s = "space\<lparr>is_table := ?t[?i := f e]\<rparr>"
  have ent: "?t ! ?i = e" using e True by (simp add: raw_entry_def)
  have pos: "0 < ?i" using unat_nz [OF nz] by simp
  have "?i \<notin> free_set ?t (unat ` R)" using e(2) ent by (auto simp: free_set_def)
  from table_write_ok [OF space_okD(2) [OF ok] pos True this f]
  have "table_ok (?t[?i := f e]) (unat ` (R - {name}))"
    by (subst table_ok_cong [of _ _ "unat ` R - {?i}"]) (auto simp: word_unat_eq_iff)
  then have "space_ok its ?s (R - {name})"
    by (rule space_ok_table [OF ok]) (use True in auto)
  moreover have "entries ?s = (entries space)(name \<mapsto> (f e)\<lparr>ie_index := 0\<rparr>)"
    using True f by (auto simp: fun_eq_iff entries_def raw_entry_def nth_list_update_if word_unat_eq_iff)
  ultimately show ?thesis using True ent
    by (auto simp: ptr_of_def raw_entry_def same_index_def nth_list_update_if)
next
  case False
  let ?t = "is_tree space"
  let ?s = "space\<lparr>is_tree := ist_write ?t name f\<rparr>"
  note w = splay_write [OF space_okD(1) [OF ok], of name f]
  have m: "ist_map ?t name = Some e" using e False by (simp add: raw_entry_def)
  have "space_ok its ?s (R - {name})" using tree_write_ok [of its space R name e f] ok False m f by blast
  moreover have "entries ?s = (entries space)(name \<mapsto> (f e)\<lparr>ie_index := 0\<rparr>)"
    using False f m by (auto simp: fun_eq_iff entries_def raw_entry_def w(2))
  ultimately show ?thesis using False m
    by (auto simp: ptr_of_def raw_entry_def same_index_def w(2))
qed

text \<open>Writes to a reserved entry are unrestricted: its type may be none, its other fields may be anything.\<close>

lemma table_write_reserved:
  assumes tok: "table_ok t R" and i: "0 < i" "i < length t" "i \<in> R" and e: "ie_bits e AND IE_BITS_COLLISION = 0"
  shows "table_ok (t[i := e]) R"
proof -
  obtain fl where fl: "free_chain t 0 fl" "distinct fl" "set fl = free_set t R" and ne: "t \<noteq> []"
    using tok by (auto simp: table_ok_def)
  have "free_chain (t[i := e]) 0 fl"
    by (rule free_chain_cong [OF fl(1)]) (use i fl(3) in \<open>auto simp: nth_list_update_if free_set_def\<close>)
  moreover have "set fl = free_set (t[i := e]) R"
    using fl(3) i by (auto simp: free_set_def nth_list_update_if)
  ultimately show ?thesis
    using tok e i fl(2) unfolding table_ok_def by (auto simp: nth_list_update_if)
qed

lemma tree_write_reserved:
  assumes ok: "space_ok its space R" and name: "\<not> unat name < is_table_size space" "ist_map (is_tree space) name = Some e"
    "name \<in> R" and f: "ie_bits (f e) AND IE_BITS_COLLISION = 0"
  shows "space_ok its (space\<lparr>is_tree := ist_write (is_tree space) name f\<rparr>) R"
proof -
  note d = space_okD [OF ok]
  have st: "set (ist_list (ist_write (is_tree space) name f)) =
      insert (name, f e) {x \<in> set (ist_list (is_tree space)). fst x \<noteq> name}"
    unfolding ist_list_write by (rule set_ite_write [OF ist_ok_distinct [OF d(1)] name(2)])
  have "is_tree_total space = length (ist_list (ist_write (is_tree space) name f))"
    using d(3) by (simp add: ist_list_write)
  moreover have "length (filter (\<lambda>x. unat (fst x) < k) (ist_list (ist_write (is_tree space) name f))) =
      length (filter (\<lambda>x. unat (fst x) < k) (ist_list (is_tree space)))" for k
    unfolding ist_list_write by (rule length_filter_ite_write)
  ultimately show ?thesis
    using ok name f tree_entryD(2) [OF ok name(2)] splay_write(1) [OF d(1)]
    unfolding space_ok_def tree_ok_def by (auto simp: st)
qed

lemma entry_write_reserved:
  assumes ok: "space_ok its space R" and nz: "name \<noteq> 0" and e: "raw_entry space name = Some e" "name \<in> R"
    and f: "ie_bits (f e) AND IE_BITS_COLLISION = 0"
  shows "\<exists>space'. write_entry space (ptr_of space name) f = Some space' \<and> space_ok its space' R \<and>
    raw_entry space' = (raw_entry space)(name \<mapsto> f e) \<and> (ie_index (f e) = ie_index e \<longrightarrow> same_index space space')"
proof (cases "unat name < is_table_size space")
  case True
  let ?t = "is_table space" and ?i = "unat name"
  let ?s = "space\<lparr>is_table := ?t[?i := f e]\<rparr>"
  have ent: "?t ! ?i = e" using e True by (simp add: raw_entry_def)
  have pos: "0 < ?i" using unat_nz [OF nz] by simp
  have "table_ok (?t[?i := f e]) (unat ` R)"
    using table_write_reserved [OF space_okD(2) [OF ok] pos True _ f] e(2) by simp
  then have "space_ok its ?s R" by (rule space_ok_table [OF ok]) (use True in auto)
  moreover have "raw_entry ?s = (raw_entry space)(name \<mapsto> f e)"
    using True f by (auto simp: fun_eq_iff raw_entry_def nth_list_update_if word_unat_eq_iff)
  ultimately show ?thesis using True ent by (auto simp: ptr_of_def same_index_def nth_list_update_if)
next
  case False
  let ?t = "is_tree space"
  let ?s = "space\<lparr>is_tree := ist_write ?t name f\<rparr>"
  note w = splay_write [OF space_okD(1) [OF ok], of name f]
  have m: "ist_map ?t name = Some e" using e False by (simp add: raw_entry_def)
  have "space_ok its ?s R" using tree_write_reserved [of its space R name e f] ok False m f e(2) by blast
  moreover have "raw_entry ?s = (raw_entry space)(name \<mapsto> f e)"
    using False m by (auto simp: fun_eq_iff raw_entry_def w(2))
  ultimately show ?thesis using False m by (auto simp: ptr_of_def same_index_def w(2))
qed

text \<open>Names in use may be reserved and released at will.\<close>

lemma space_ok_reserve:
  assumes ok: "space_ok its space R" and used: "\<And>n. n \<in> A \<Longrightarrow> \<exists>e. raw_entry space n = Some e \<and> ie_type e \<noteq> 0"
  shows "space_ok its space (R \<union> A)"
proof -
  have A: "ie_type (is_table space ! unat n) \<noteq> 0" if "n \<in> A" "unat n < is_table_size space" for n
    using used [OF that(1)] that(2) by (simp add: raw_entry_def)
  have "free_set (is_table space) (unat ` (R \<union> A)) = free_set (is_table space) (unat ` R)"
    using A by (auto simp: free_set_def)
  then have "table_ok (is_table space) (unat ` (R \<union> A))"
    using space_okD(2) [OF ok] by (auto simp: table_ok_def)
  then show ?thesis using ok by (auto simp: space_ok_def tree_ok_def)
qed

lemma space_ok_release:
  assumes ok: "space_ok its space R" and used: "\<And>n. n \<in> A \<Longrightarrow> \<exists>e. raw_entry space n = Some e \<and> ie_type e \<noteq> 0"
  shows "space_ok its space (R - A)"
proof -
  let ?t = "is_table space"
  have A: "ie_type (?t ! unat n) \<noteq> 0" if "n \<in> A" "unat n < is_table_size space" for n
    using used [OF that(1)] that(2) by (simp add: raw_entry_def)
  have R: "i \<in> unat ` (R - A) \<longleftrightarrow> i \<in> unat ` R" if "i < length ?t" "ie_type (?t ! i) = 0" for i
    using A that by auto
  then have "free_set ?t (unat ` (R - A)) = free_set ?t (unat ` R)" by (auto simp: free_set_def)
  then have "table_ok ?t (unat ` (R - A))"
    using space_okD(2) [OF ok] R unfolding table_ok_def by auto
  moreover have "fst x \<in> R - A" if "x \<in> set (ist_list (is_tree space))" "ie_type (snd x) = 0" for x
  proof -
    have "fst x \<in> R" "is_table_size space \<le> unat (fst x)" using ok that by (auto simp: space_ok_def tree_ok_def)
    moreover have "ist_map (is_tree space) (fst x) = Some (snd x)"
      using map_of_is_SomeI [OF ist_ok_distinct [OF space_okD(1) [OF ok]]] that(1) by simp
    ultimately show ?thesis using used [of "fst x"] that(2) by (auto simp: raw_entry_def)
  qed
  ultimately show ?thesis using ok unfolding space_ok_def tree_ok_def by auto
qed

end
