(* ===== verification/Ipc_Entry_Hash.thy ===== *)
theory Ipc_Entry_Hash
  imports Ipc_Entry_Inv
begin

text \<open>
  The reverse hash of a space, local and global part together (\<^verbatim>\<open>kernel/ipc/ipc_hash.c\<close>
  over the entries of \<^verbatim>\<open>kernel/ipc/ipc_entry.c\<close>).

  \<open>hash_inv space g H\<close> says that the names \<open>H\<close> are hashed under the objects of their entries: those in
  the table in the local part, those in the tree in the global table.
\<close>

subsection \<open>Changes that keep every entry\<close>

definition same_space :: "ipc_space \<Rightarrow> ipc_space \<Rightarrow> bool" where
  "same_space space space' \<longleftrightarrow>
     is_self space' = is_self space \<and> is_references space' = is_references space \<and>
     is_active space' = is_active space \<and> is_growing space' = is_growing space \<and>
     is_table_next space' = is_table_next space \<and> is_tree_total space' = is_tree_total space \<and>
     is_tree_small space' = is_tree_small space \<and> same_entries (is_table space) (is_table space') \<and>
     ist_ok (is_tree space') \<and> ist_list (is_tree space') = ist_list (is_tree space)"

lemma same_space_eqs:
  assumes "same_space space space'"
  shows "is_active space' = is_active space" "is_table_next space' = is_table_next space"
    "is_self space' = is_self space" "is_tree_total space' = is_tree_total space"
    "is_tree_small space' = is_tree_small space" "is_growing space' = is_growing space"
    "is_references space' = is_references space"
    "ist_list (is_tree space') = ist_list (is_tree space)" "ist_ok (is_tree space')"
    "is_table_size space' = is_table_size space"
  using assms by (auto simp: same_space_def same_entries_length)

lemma same_tree_space: "same_tree space space' \<Longrightarrow> same_space space space'"
  by (simp add: same_space_def same_tree_eqs)

lemma same_space_table:
  "ist_ok (is_tree space) \<Longrightarrow> same_entries (is_table space) t \<Longrightarrow> same_space space (space\<lparr>is_table := t\<rparr>)"
  by (simp add: same_space_def)

lemma same_space_hash:
  "ist_ok (is_tree space) \<Longrightarrow> same_space space (space\<lparr>is_tree_hash := k\<rparr>)"
  by (simp add: same_space_def)

lemma same_entries_zero:
  assumes "same_entries t t'" and "i < length t"
  shows "(t' ! i)\<lparr>ie_index := 0\<rparr> = (t ! i)\<lparr>ie_index := 0\<rparr>"
  using assms same_entries_length [OF assms(1)] unfolding same_entries_def by (metis nth_map)

lemma table_ok_same_entries:
  assumes "table_ok t R" and "same_entries t t'"
  shows "table_ok t' R"
proof -
  note nth = same_entries_nth [OF assms(2)] and len = same_entries_length [OF assms(2)]
  obtain fl where fl: "free_chain t 0 fl" "distinct fl" "set fl = free_set t R" and ne: "t \<noteq> []"
    using assms(1) by (auto simp: table_ok_def)
  have "free_chain t' 0 fl"
    by (rule free_chain_cong [OF fl(1) len]) (use nth ne free_chain_in_range [OF fl(1)] in auto)
  moreover have "free_set t' R = free_set t R" using nth len by (auto simp: free_set_def)
  ultimately show ?thesis using table_okI [OF assms(1) len] nth fl by simp
qed

lemma same_space_ok:
  assumes "same_space space space'"
  shows "space_ok its space R \<Longrightarrow> space_ok its space' R"
    and "entries space' = entries space" and "ptr_of space' = ptr_of space"
    and "map_option (\<lambda>e. e\<lparr>ie_index := 0\<rparr>) (raw_entry space' n) = map_option (\<lambda>e. e\<lparr>ie_index := 0\<rparr>) (raw_entry space n)"
proof -
  note eqs = same_space_eqs [OF assms]
  have se: "same_entries (is_table space) (is_table space')" using assms by (simp add: same_space_def)
  show "space_ok its space R \<Longrightarrow> space_ok its space' R"
    using table_ok_same_entries [OF _ se] by (auto simp: space_ok_def tree_ok_def eqs)
  show raw: "map_option (\<lambda>e. e\<lparr>ie_index := 0\<rparr>) (raw_entry space' n) = map_option (\<lambda>e. e\<lparr>ie_index := 0\<rparr>) (raw_entry space n)" for n
    using same_entries_zero [OF se] by (simp add: raw_entry_def eqs)
  show "entries space' = entries space"
  proof
    fix n
    show "entries space' n = entries space n"
      using same_entries_zero [OF se, of "unat n"] same_entries_nth(1) [OF se, of "unat n"]
      by (simp add: entries_def raw_entry_def eqs)
  qed
  show "ptr_of space' = ptr_of space" by (simp add: fun_eq_iff ptr_of_def eqs)
qed

lemma same_space_trans: "same_space s s' \<Longrightarrow> same_space s' s'' \<Longrightarrow> same_space s s''"
  unfolding same_space_def by (metis same_entries_trans)

lemma same_space_refl [simp]: "ist_ok (is_tree s) \<Longrightarrow> same_space s s"
  by (simp add: same_space_def)

subsection \<open>The reverse hash of a space\<close>

definition obj_of :: "ipc_space \<Rightarrow> mach_port \<Rightarrow> ptr" where
  "obj_of space n = ie_object (the (raw_entry space n))"

definition local_names :: "ipc_space \<Rightarrow> mach_port set \<Rightarrow> nat set" where
  "local_names space H = {i. i < is_table_size space \<and> of_nat i \<in> H}"

definition tree_refs :: "ipc_space \<Rightarrow> mach_port set \<Rightarrow> tree_ref set" where
  "tree_refs space H =
     (\<lambda>x. mkref (is_self space) (fst x) (ie_object (snd x))) ` {x \<in> set (ist_list (is_tree space)). fst x \<in> H}"

definition hash_inv :: "ipc_space \<Rightarrow> ipc_hash_global \<Rightarrow> mach_port set \<Rightarrow> bool" where
  "hash_inv space g H \<longleftrightarrow>
     is_self space \<noteq> IS_NULL \<and> glob_ok g \<and> is_table_size space < 2 ^ 32 \<and>
     H \<subseteq> dom (raw_entry space) \<and> (\<forall>n \<in> H. obj_of space n \<noteq> IO_NULL) \<and> inj_on (obj_of space) H \<and>
     hash_ok (is_table space) (local_names space H) \<and>
     {r \<in> glob_refs g. tr_space r = is_self space} = tree_refs space H \<and>
     is_tree_hash space = length (filter (\<lambda>x. fst x \<in> H) (ist_list (is_tree space)))"

lemma hash_invD:
  assumes "hash_inv space g H"
  shows "is_self space \<noteq> IS_NULL" "glob_ok g" "is_table_size space < 2 ^ 32"
    "hash_ok (is_table space) (local_names space H)"
    "{r \<in> glob_refs g. tr_space r = is_self space} = tree_refs space H"
    "is_tree_hash space = length (filter (\<lambda>x. fst x \<in> H) (ist_list (is_tree space)))"
    "inj_on (obj_of space) H"
  using assms by (auto simp: hash_inv_def)

lemma hash_inv_entry:
  assumes "hash_inv space g H" and "n \<in> H"
  shows "\<exists>e. raw_entry space n = Some e" "obj_of space n \<noteq> IO_NULL"
  using assms by (auto simp: hash_inv_def)

lemma local_names_iff: "unat n \<in> local_names space H \<longleftrightarrow> n \<in> H \<and> unat n < is_table_size space"
  by (auto simp: local_names_def)

lemma local_names_obj:
  assumes "hash_inv space g H" and "i \<in> local_names space H"
  shows "of_nat i \<in> H" and "unat (of_nat i :: mach_port) = i" and "i < is_table_size space"
    and "ie_object (is_table space ! i) = obj_of space (of_nat i)"
  using assms hash_invD(3) [OF assms(1)] by (auto simp: local_names_def unat_of_nat obj_of_def raw_entry_def)

lemma tree_refs_iff:
  assumes "ist_ok (is_tree space)" and "\<And>x. x \<in> set (ist_list (is_tree space)) \<Longrightarrow> is_table_size space \<le> unat (fst x)"
  shows "mkref (is_self space) n obj \<in> tree_refs space H \<longleftrightarrow>
    n \<in> H \<and> \<not> unat n < is_table_size space \<and> (\<exists>e. raw_entry space n = Some e \<and> ie_object e = obj)"
proof -
  have "(n, e) \<in> set (ist_list (is_tree space)) \<longleftrightarrow> ist_map (is_tree space) n = Some e" for e
    using ist_ok_distinct [OF assms(1)] by simp
  then show ?thesis using assms(2) [of "(n, _)"]
    by (auto simp: tree_refs_def mkref_inject raw_entry_def image_iff)
qed

lemma space_tree_range: "space_ok its space R \<Longrightarrow> x \<in> set (ist_list (is_tree space)) \<Longrightarrow> is_table_size space \<le> unat (fst x)"
  by (auto simp: space_ok_def tree_ok_def)

lemma tree_hash_pos:
  assumes "hash_inv space g H" and "n \<in> H" and "\<not> unat n < is_table_size space"
  shows "0 < is_tree_hash space"
proof -
  obtain e where "raw_entry space n = Some e" using hash_inv_entry [OF assms(1,2)] by blast
  then have "(n, e) \<in> set (filter (\<lambda>x. fst x \<in> H) (ist_list (is_tree space)))"
    using assms by (auto simp: raw_entry_def dest: map_of_SomeD)
  then show ?thesis using hash_invD(6) [OF assms(1)] by (metis length_pos_if_in_set)
qed

lemma hash_lookup_ok:
  assumes ok: "space_ok its space R" and inv: "hash_inv space g H" and obj: "obj \<noteq> IO_NULL"
  shows "\<exists>r g'. ipc_hash_lookup space g obj = Some (r, g') \<and> hash_inv space g' H \<and> glob_refs g' = glob_refs g \<and>
    (case r of None \<Rightarrow> \<forall>n \<in> H. obj_of space n \<noteq> obj
             | Some (n, ptr) \<Rightarrow> n \<in> H \<and> obj_of space n = obj \<and> ptr = ptr_of space n)"
proof (cases "\<exists>n \<in> H. unat n < is_table_size space \<and> obj_of space n = obj")
  case True
  then obtain n where n: "n \<in> H" "unat n < is_table_size space" "obj_of space n = obj" by blast
  then have i: "unat n \<in> local_names space H" by (simp add: local_names_iff)
  from ipc_hash_local_lookup_hit [OF hash_invD(4) [OF inv] i] local_names_obj(4) [OF inv i] n
  have "ipc_hash_local_lookup (is_table space) obj = Some (Some (n, unat n))" by (simp add: nogen)
  with n inv show ?thesis by (simp add: ipc_hash_lookup_def ptr_of_def)
next
  case notable: False
  have "ie_object (is_table space ! i) \<noteq> obj" if "i \<in> local_names space H" for i
    using local_names_obj [OF inv that] notable by auto
  then have loc: "ipc_hash_local_lookup (is_table space) obj = Some None"
    by (rule ipc_hash_local_lookup_miss [OF hash_invD(4) [OF inv] space_okD(4) [OF ok] obj])
  note tr = tree_refs_iff [OF space_okD(1) [OF ok] space_tree_range [OF ok]]
  have "\<exists>m. \<forall>n. m = Some n \<longleftrightarrow> n \<in> H \<and> obj_of space n = obj"
  proof (cases "\<exists>n \<in> H. obj_of space n = obj")
    case True
    then obtain n where "n \<in> H" "obj_of space n = obj" by blast
    with hash_invD(7) [OF inv] show ?thesis unfolding inj_on_def by blast
  qed (auto intro: exI [of _ None])
  then obtain m where m: "\<And>n. m = Some n \<longleftrightarrow> n \<in> H \<and> obj_of space n = obj" by blast
  have "m = Some n \<longleftrightarrow> mkref (is_self space) n obj \<in> glob_refs g" for n
    using hash_invD(5) [OF inv] tr [of n obj H] notable m hash_inv_entry(1) [OF inv, of n]
    by (auto simp: obj_of_def)
  from global_lookup_ok [OF hash_invD(2,1) [OF inv] obj this] obtain g' where
    g': "ipc_hash_global_lookup g (is_self space) obj = Some (m, g')" "glob_ok g'" "glob_refs g' = glob_refs g"
    by blast
  have inv': "hash_inv space g' H" using inv g' by (simp add: hash_inv_def)
  show ?thesis
  proof (cases "0 < is_tree_hash space")
    case True
    then have run: "ipc_hash_lookup space g obj = Some (map_option (\<lambda>name. (name, Tree_entry name)) m, g')"
      using loc g'(1) by (simp add: ipc_hash_lookup_def)
    show ?thesis
    proof (cases m)
      case None
      then have "\<forall>n \<in> H. obj_of space n \<noteq> obj" using m by blast
      with None run inv' g'(3) show ?thesis by simp
    next
      case (Some n)
      then have n: "n \<in> H" "obj_of space n = obj" using m by blast+
      then have "ptr_of space n = Tree_entry n" using notable by (auto simp: ptr_of_def)
      with Some n run inv' g'(3) show ?thesis by simp
    qed
  next
    case False
    have "\<forall>n \<in> H. obj_of space n \<noteq> obj"
    proof
      fix n assume "n \<in> H"
      with False notable show "obj_of space n \<noteq> obj"
        using tree_hash_pos [OF inv, of n] by (cases "unat n < is_table_size space") auto
    qed
    with False loc inv show ?thesis by (simp add: ipc_hash_lookup_def)
  qed
qed

lemma filter_insert_key:
  assumes "distinct (map fst xs)" and "map_of xs k = Some v" and "k \<notin> H"
  shows "length (filter (\<lambda>x. fst x \<in> insert k H) xs) = Suc (length (filter (\<lambda>x. fst x \<in> H) xs))"
proof -
  note ms = mset_delete_keys [OF assms(1,2)]
  have eq: "filter (\<lambda>x. fst x \<in> insert k H) (filter (\<lambda>x. fst x \<noteq> k) xs) = filter (\<lambda>x. fst x \<in> H) (filter (\<lambda>x. fst x \<noteq> k) xs)"
    by (rule filter_cong) auto
  have "length (filter P xs) = length (filter P (filter (\<lambda>x. fst x \<noteq> k) xs)) + (if P (k, v) then 1 else 0)" for P
    using arg_cong [OF ms, of "\<lambda>m. size (filter_mset P m)"] by (simp flip: mset_filter)
  from this [of "\<lambda>x. fst x \<in> insert k H"] this [of "\<lambda>x. fst x \<in> H"] assms(3) eq show ?thesis by simp
qed

lemma hash_inv_same:
  assumes inv: "hash_inv space g H" and same: "same_space space space'" and H': "H' \<subseteq> dom (raw_entry space)"
    "\<forall>n \<in> H'. obj_of space n \<noteq> IO_NULL" "inj_on (obj_of space) H'"
    and g': "glob_ok g'" "hash_ok (is_table space') (local_names space H')"
    "{r \<in> glob_refs g'. tr_space r = is_self space} = tree_refs space H'"
    "is_tree_hash space' = length (filter (\<lambda>x. fst x \<in> H') (ist_list (is_tree space)))"
  shows "hash_inv space' g' H'"
proof -
  note eqs = same_space_eqs [OF same]
  have se: "same_entries (is_table space) (is_table space')" using same by (simp add: same_space_def)
  have dom: "dom (raw_entry space') = dom (raw_entry space)" by (auto simp: dom_def raw_entry_def eqs)
  have obj: "obj_of space' n = obj_of space n" for n
    using same_entries_nth(2) [OF se, of "unat n"] by (simp add: obj_of_def raw_entry_def eqs)
  have sets: "local_names space' H' = local_names space H'" "tree_refs space' H' = tree_refs space H'"
    by (simp_all add: local_names_def tree_refs_def eqs)
  have "obj_of space' = obj_of space" using obj by (rule ext)
  then show ?thesis
    using inv H' g' eqs unfolding hash_inv_def dom sets by simp
qed

lemma tree_refs_in:
  assumes "space_ok its space R" and "hash_inv space g H" and "r \<in> glob_refs g" and "tr_space r = is_self space"
  shows "tr_name r \<in> H" and "obj_of space (tr_name r) = tr_object r" and "\<not> unat (tr_name r) < is_table_size space"
    and "r = mkref (is_self space) (tr_name r) (tr_object r)"
proof -
  have r: "mkref (is_self space) (tr_name r) (tr_object r) = r" using assms(4) by (simp add: mkref_def)
  have "r \<in> tree_refs space H" using hash_invD(5) [OF assms(2)] assms(3,4) by blast
  then have "mkref (is_self space) (tr_name r) (tr_object r) \<in> tree_refs space H" unfolding r .
  then show "tr_name r \<in> H" "obj_of space (tr_name r) = tr_object r" "\<not> unat (tr_name r) < is_table_size space"
    using tree_refs_iff [OF space_okD(1) [OF assms(1)] space_tree_range [OF assms(1)], of "tr_name r" "tr_object r" H]
    by (auto simp: obj_of_def)
  show "r = mkref (is_self space) (tr_name r) (tr_object r)" using r by simp
qed

lemma tree_refs_insert:
  assumes ok: "space_ok its space R" and n: "\<not> unat n < is_table_size space" "raw_entry space n = Some e"
  shows "tree_refs space (insert n H) = insert (mkref (is_self space) n (ie_object e)) (tree_refs space H)"
proof -
  have m: "ist_map (is_tree space) n = Some e" using n by (simp add: raw_entry_def)
  have "x \<in> set (ist_list (is_tree space)) \<and> fst x = n \<longleftrightarrow> x = (n, e)" for x
    using m map_of_is_SomeI [OF ist_ok_distinct [OF space_okD(1) [OF ok]], of "fst x" "snd x"] map_of_SomeD [OF m]
    by (cases x) auto
  then have "{x \<in> set (ist_list (is_tree space)). fst x \<in> insert n H} =
      insert (n, e) {x \<in> set (ist_list (is_tree space)). fst x \<in> H}" by blast
  then show ?thesis by (simp add: tree_refs_def)
qed

lemma tree_refs_insert_table:
  assumes ok: "space_ok its space R" and n: "unat n < is_table_size space"
  shows "tree_refs space (insert n H) = tree_refs space H"
    and "filter (\<lambda>x. fst x \<in> insert n H) (ist_list (is_tree space)) = filter (\<lambda>x. fst x \<in> H) (ist_list (is_tree space))"
proof -
  have ne: "x \<in> set (ist_list (is_tree space)) \<Longrightarrow> fst x \<in> insert n H \<longleftrightarrow> fst x \<in> H" for x
    using space_tree_range [OF ok, of x] n by auto
  then have "{x \<in> set (ist_list (is_tree space)). fst x \<in> insert n H} = {x \<in> set (ist_list (is_tree space)). fst x \<in> H}"
    by blast
  then show "tree_refs space (insert n H) = tree_refs space H" by (simp only: tree_refs_def)
  from ne show "filter (\<lambda>x. fst x \<in> insert n H) (ist_list (is_tree space)) = filter (\<lambda>x. fst x \<in> H) (ist_list (is_tree space))"
    by (rule filter_cong [OF refl])
qed

lemma local_names_insert:
  assumes "is_table_size space < 2 ^ 32"
  shows "local_names space (insert n H) =
    (if unat n < is_table_size space then insert (unat n) (local_names space H) else local_names space H)"
  using assms by (auto simp: local_names_def unat_of_nat)

abbreviation other_refs :: "ipc_space \<Rightarrow> ipc_hash_global \<Rightarrow> tree_ref set" where
  "other_refs space g \<equiv> {r \<in> glob_refs g. tr_space r \<noteq> is_self space}"

lemma hash_insert_ok:
  assumes ok: "space_ok its space R" and inv: "hash_inv space g H"
    and n: "n \<notin> H" "n \<noteq> 0" "raw_entry space n = Some e" "ie_object e \<noteq> IO_NULL"
    and new: "\<And>m. m \<in> H \<Longrightarrow> obj_of space m \<noteq> ie_object e"
  shows "\<exists>space' g'. ipc_hash_insert space g (ie_object e) n (ptr_of space n) = Some (space', g') \<and>
    same_space space space' \<and> hash_inv space' g' (insert n H) \<and> other_refs space g' = other_refs space g"
proof -
  note d = hash_invD [OF inv]
  have obj: "obj_of space n = ie_object e" using n by (simp add: obj_of_def)
  have H': "insert n H \<subseteq> dom (raw_entry space)" "\<forall>m \<in> insert n H. obj_of space m \<noteq> IO_NULL"
    "inj_on (obj_of space) (insert n H)"
  proof -
    have "obj_of space n \<notin> obj_of space ` (H - {n})"
    proof
      assume "obj_of space n \<in> obj_of space ` (H - {n})"
      then obtain m where "obj_of space n = obj_of space m" "m \<in> H" by (elim imageE DiffE)
      with new [of m] obj show False by simp
    qed
    then show "inj_on (obj_of space) (insert n H)" unfolding inj_on_insert using d(7) by (rule conjI [rotated])
    show "insert n H \<subseteq> dom (raw_entry space)" using inv n(3) by (auto simp: hash_inv_def)
    show "\<forall>m \<in> insert n H. obj_of space m \<noteq> IO_NULL"
      using hash_inv_entry(2) [OF inv] n(4) by (simp add: obj)
  qed
  note same = hash_inv_same [OF inv _ H']
  show ?thesis
  proof (cases "unat n < is_table_size space")
    case True
    have ent: "ie_object (is_table space ! unat n) = ie_object e" using n True by (simp add: raw_entry_def)
    have pos: "0 < unat n" using unat_nz [OF n(2)] by simp
    have "ie_object (is_table space ! j) \<noteq> ie_object e" if "j \<in> local_names space H" for j
      using local_names_obj [OF inv that] new by auto
    from ipc_hash_local_insert_ok [OF d(4) pos True _ ent n(4) this]
    obtain t where t: "ipc_hash_local_insert (is_table space) (ie_object e) (unat n) = Some t"
      "hash_ok t (insert (unat n) (local_names space H))" "same_entries (is_table space) t"
      using n by (auto simp: local_names_iff)
    let ?s = "space\<lparr>is_table := t\<rparr>"
    have ss: "same_space space ?s" by (rule same_space_table [OF space_okD(1) [OF ok] t(3)])
    have "hash_inv ?s g (insert n H)"
      by (rule same [OF ss d(2)])
        (use t True d in \<open>simp_all add: local_names_insert tree_refs_insert_table [OF ok] del: insert_iff\<close>)
    with t ss True show ?thesis by (simp add: ipc_hash_insert_def Let_def nogen ptr_of_def)
  next
    case False
    have m: "ist_map (is_tree space) n = Some e" using n False by (simp add: raw_entry_def)
    let ?s = "space\<lparr>is_tree_hash := is_tree_hash space + 1\<rparr>"
    have "tr_object r \<noteq> ie_object e \<and> tr_name r \<noteq> n" if "r \<in> glob_refs g" "tr_space r = is_self space" for r
      using tree_refs_in [OF ok inv that] new n by auto
    from global_insert_ok [OF d(2,1) n(4) this] obtain g'
      where g': "global_chain_insert g (is_self space) (ie_object e) n = Some g'" "glob_ok g'"
        "glob_refs g' = insert (mkref (is_self space) n (ie_object e)) (glob_refs g)" by blast
    have cnt: "length (filter (\<lambda>x. fst x \<in> insert n H) (ist_list (is_tree space))) = is_tree_hash space + 1"
      using filter_insert_key [OF ist_ok_distinct [OF space_okD(1) [OF ok]] m n(1)] d(6) by simp
    moreover have "length (filter (\<lambda>x. fst x \<in> insert n H) (ist_list (is_tree space))) \<le> is_tree_total space"
      using space_okD(3) [OF ok] by simp
    ultimately have "is_tree_hash space + 1 \<le> is_tree_total space" by simp
    then have run: "ipc_hash_insert space g (ie_object e) n (ptr_of space n) = Some (?s, g')"
      using g' m False by (simp add: ipc_hash_insert_def Let_def nogen ptr_of_def ipc_hash_global_insert_def)
    have ss: "same_space space ?s" by (rule same_space_hash [OF space_okD(1) [OF ok]])
    have refs: "{r \<in> glob_refs g'. tr_space r = is_self space} = tree_refs space (insert n H)"
      using g'(3) d(5) unfolding tree_refs_insert [OF ok False n(3)] by auto
    have "hash_inv ?s g' (insert n H)"
      by (rule same [OF ss g'(2) _ refs])
        (use d(4) cnt False in \<open>simp_all add: local_names_insert [OF d(3)] del: insert_iff\<close>)
    with run ss g'(3) show ?thesis by auto
  qed
qed

lemma hash_delete_ok:
  assumes ok: "space_ok its space R" and inv: "hash_inv space g H" and n: "n \<in> H" "raw_entry space n = Some e"
  shows "\<exists>space' g'. ipc_hash_delete space g (ie_object e) n (ptr_of space n) = Some (space', g') \<and>
    same_space space space' \<and> hash_inv space' g' (H - {n}) \<and> other_refs space g' = other_refs space g"
proof -
  note d = hash_invD [OF inv]
  have obj: "obj_of space n = ie_object e" using n by (simp add: obj_of_def)
  have H: "insert n (H - {n}) = H" using n by blast
  have H': "H - {n} \<subseteq> dom (raw_entry space)" "\<forall>m \<in> H - {n}. obj_of space m \<noteq> IO_NULL"
    "inj_on (obj_of space) (H - {n})"
    using inv unfolding hash_inv_def by (auto intro: inj_on_subset)
  note same = hash_inv_same [OF inv _ H']
  show ?thesis
  proof (cases "unat n < is_table_size space")
    case True
    have ent: "ie_object (is_table space ! unat n) = ie_object e" using n True by (simp add: raw_entry_def)
    have i: "unat n \<in> local_names space H" using n True by (simp add: local_names_iff)
    from ipc_hash_local_delete_ok [OF d(4) i] obtain t
      where t: "ipc_hash_local_delete (is_table space) (ie_object e) (unat n) = Some t"
        "hash_ok t (local_names space H - {unat n})" "same_entries (is_table space) t"
      unfolding ent by blast
    have "unat n \<notin> local_names space (H - {n})" by (simp add: local_names_iff)
    then have ln: "local_names space H - {unat n} = local_names space (H - {n})"
      using local_names_insert [OF d(3), of n "H - {n}"] True unfolding H by simp
    let ?s = "space\<lparr>is_table := t\<rparr>"
    have ss: "same_space space ?s" by (rule same_space_table [OF space_okD(1) [OF ok] t(3)])
    have "hash_inv ?s g (H - {n})"
    proof (rule same [OF ss d(2)])
      show "hash_ok (is_table ?s) (local_names space (H - {n}))" using t(2) by (simp add: ln)
      note tr = tree_refs_insert_table [OF ok True, of "H - {n}", unfolded H]
      show "{r \<in> glob_refs g. tr_space r = is_self space} = tree_refs space (H - {n})"
        using d(5) tr(1) by (rule trans)
      show "is_tree_hash ?s = length (filter (\<lambda>x. fst x \<in> H - {n}) (ist_list (is_tree space)))"
        using d(6) unfolding tr(2) by simp
    qed
    with t ss True show ?thesis by (simp add: ipc_hash_delete_def Let_def nogen ptr_of_def)
  next
    case False
    have m: "ist_map (is_tree space) n = Some e" using n False by (simp add: raw_entry_def)
    let ?s = "space\<lparr>is_tree_hash := is_tree_hash space - 1\<rparr>" and ?r = "mkref (is_self space) n (ie_object e)"
    have refs: "tree_refs space H = insert ?r (tree_refs space (H - {n}))"
      using tree_refs_insert [OF ok False n(2), of "H - {n}"] unfolding H .
    have nn: "ie_object e \<noteq> IO_NULL" using hash_inv_entry(2) [OF inv n(1)] obj by simp
    have "?r \<in> glob_refs g" using d(5) refs by blast
    from global_delete_ok [OF d(2,1) nn this] obtain g'
      where g': "global_chain_delete g (is_self space) (ie_object e) n = Some g'" "glob_ok g'"
        "glob_refs g' = glob_refs g - {?r}" by blast
    have cnt: "is_tree_hash space = Suc (length (filter (\<lambda>x. fst x \<in> H - {n}) (ist_list (is_tree space))))"
      using filter_insert_key [OF ist_ok_distinct [OF space_okD(1) [OF ok]] m, of "H - {n}"] d(6)
      unfolding H by simp
    have run: "ipc_hash_delete space g (ie_object e) n (ptr_of space n) = Some (?s, g')"
      using g' m False cnt by (simp add: ipc_hash_delete_def Let_def nogen ptr_of_def ipc_hash_global_delete_def)
    have ss: "same_space space ?s" by (rule same_space_hash [OF space_okD(1) [OF ok]])
    have "?r \<notin> tree_refs space (H - {n})"
      using tree_refs_iff [OF space_okD(1) [OF ok] space_tree_range [OF ok], of n "ie_object e" "H - {n}"] by simp
    then have refs': "{r \<in> glob_refs g'. tr_space r = is_self space} = tree_refs space (H - {n})"
      unfolding g'(3) using d(5) refs by blast
    have ln: "local_names space (H - {n}) = local_names space H"
      using local_names_insert [OF d(3), of n "H - {n}"] False unfolding H by simp
    have "hash_inv ?s g' (H - {n})"
      by (rule same [OF ss g'(2) _ refs']) (use d(4) cnt in \<open>simp_all add: ln\<close>)
    moreover have "other_refs space g' = other_refs space g" unfolding g'(3) by auto
    ultimately show ?thesis using run ss by blast
  qed
qed

lemma hash_delete_absent_local:
  assumes ok: "space_ok its space R" and inv: "hash_inv space g H" and n: "n \<notin> H" "n \<noteq> 0"
    and i: "unat n < is_table_size space" "ie_object (is_table space ! unat n) \<noteq> IO_NULL"
  shows "ipc_hash_delete space g (ie_object (is_table space ! unat n)) n (ptr_of space n) = Some (space, g)"
proof -
  have "unat n \<notin> local_names space H" using n by (simp add: local_names_iff)
  from ipc_hash_local_delete_absent [OF hash_invD(4) [OF inv] this _ i(1) refl i(2)] unat_nz [OF n(2)] i(1)
  show ?thesis by (simp add: ipc_hash_delete_def Let_def nogen ptr_of_def)
qed

subsection \<open>What the reverse hash depends on\<close>

lemma tree_names:
  assumes ok: "space_ok its space R" and H: "H \<subseteq> dom (raw_entry space)"
  shows "fst ` set (filter (\<lambda>x. fst x \<in> H) (ist_list (is_tree space))) = {n \<in> H. \<not> unat n < is_table_size space}"
proof -
  have "n \<in> fst ` set (ist_list (is_tree space)) \<longleftrightarrow> \<not> unat n < is_table_size space" if "n \<in> H" for n
  proof -
    have "(\<exists>e. raw_entry space n = Some e)" using H that by blast
    then show ?thesis using space_tree_range [OF ok]
      by (cases "unat n < is_table_size space") (force simp: raw_entry_def dest: map_of_SomeD)+
  qed
  then show ?thesis by force
qed

lemma tree_names_length:
  assumes ok: "space_ok its space R" and H: "H \<subseteq> dom (raw_entry space)"
  shows "length (filter (\<lambda>x. fst x \<in> H) (ist_list (is_tree space))) = card {n \<in> H. \<not> unat n < is_table_size space}"
proof -
  have "distinct (map fst (filter (\<lambda>x. fst x \<in> H) (ist_list (is_tree space))))"
    using ist_ok_distinct [OF space_okD(1) [OF ok]] by (simp add: distinct_map_filter)
  from distinct_card [OF this] show ?thesis unfolding set_map tree_names [OF assms] by simp
qed

lemma tree_refs_names:
  assumes ok: "space_ok its space R" and H: "H \<subseteq> dom (raw_entry space)"
  shows "tree_refs space H = (\<lambda>n. mkref (is_self space) n (obj_of space n)) ` {n \<in> H. \<not> unat n < is_table_size space}"
proof -
  have "ie_object (snd x) = obj_of space (fst x)" if "x \<in> set (ist_list (is_tree space))" for x
  proof -
    have "ist_map (is_tree space) (fst x) = Some (snd x)"
      using that ist_ok_distinct [OF space_okD(1) [OF ok]] by simp
    with space_tree_range [OF ok that] show ?thesis by (simp add: obj_of_def raw_entry_def)
  qed
  then have "tree_refs space H = (\<lambda>n. mkref (is_self space) n (obj_of space n)) `
      fst ` set (filter (\<lambda>x. fst x \<in> H) (ist_list (is_tree space)))"
    unfolding tree_refs_def image_image by (auto intro!: image_cong)
  then show ?thesis unfolding tree_names [OF assms] .
qed

lemma hash_inv_keep:
  assumes inv: "hash_inv space g H" and idx: "same_index space space'"
    and ok: "space_ok its space R" "space_ok its' space' R'"
    and obj: "\<And>n. n \<in> H \<Longrightarrow> \<exists>e. raw_entry space' n = Some e \<and> ie_object e = obj_of space n"
  shows "hash_inv space' g H"
proof -
  have lim: "is_table_size space < 2 ^ 32" using inv by (simp add: hash_inv_def)
  have H: "H \<subseteq> dom (raw_entry space)" using inv by (simp add: hash_inv_def)
  have H': "H \<subseteq> dom (raw_entry space')" using obj by blast
  have o': "obj_of space' n = obj_of space n" if "n \<in> H" for n
    using obj [OF that] by (auto simp: obj_of_def)
  have ln: "local_names space' H = local_names space H" using idx by (simp add: local_names_def same_index_def)
  have sz: "is_table_size space' = is_table_size space" "is_self space' = is_self space"
    "is_tree_hash space' = is_tree_hash space" using idx by (simp_all add: same_index_def)
  have refs: "tree_refs space' H = tree_refs space H"
    unfolding tree_refs_names [OF ok(1) H] tree_refs_names [OF ok(2) H'] using o' by (auto simp: sz)
  have len: "length (filter (\<lambda>x. fst x \<in> H) (ist_list (is_tree space'))) = length (filter (\<lambda>x. fst x \<in> H) (ist_list (is_tree space)))"
    unfolding tree_names_length [OF ok(1) H] tree_names_length [OF ok(2) H'] sz ..
  have "hash_ok (is_table space') (local_names space H)"
  proof (rule hash_ok_cong [OF hash_invD(4) [OF inv] sz(1)])
    show "slot_of (is_table space') h = slot_of (is_table space) h" if "h < is_table_size space" for h
      using that idx by (simp add: same_index_def)
    fix i assume i: "i \<in> local_names space H"
    show "ie_object (is_table space' ! i) = ie_object (is_table space ! i)"
      using obj [of "of_nat i"] local_names_obj [OF inv i] sz(1) by (auto simp: raw_entry_def)
  qed
  moreover have "inj_on (obj_of space') H" using hash_invD(7) [OF inv] o' by (simp add: inj_on_def)
  moreover have "\<forall>n \<in> H. obj_of space' n \<noteq> IO_NULL" using hash_inv_entry(2) [OF inv] o' by simp
  ultimately show ?thesis
    using inv H' sz ln refs len unfolding hash_inv_def by simp
qed

end
