(* ===== verification/Ipc_Entry_Grow.thy ===== *)
theory Ipc_Entry_Grow
  imports Ipc_Entry_Hash Ipc_Traverse
begin

text \<open>
  Growing the entry table (\<^verbatim>\<open>ipc_entry_grow_table\<close>): the old entries are copied and
  rehashed, the tree entries whose names now fall into the table move there, and the unused new
  entries join the free list. The lemmas follow these steps; \<open>grow_install_ok\<close> puts them together:
  the names keep their entries and both invariants hold again.
\<close>

definition send_slots :: "ipc_entry list \<Rightarrow> nat set" where
  "send_slots t = {i. i < length t \<and> ie_type (t ! i) = MACH_PORT_TYPE_SEND}"

lemma send_slots_same: "same_entries t t' \<Longrightarrow> send_slots t' = send_slots t"
  by (auto simp: send_slots_def same_entries_length same_entries_nth)

lemma slots_ok_same:
  assumes "same_entries t t'"
  shows "slots_ok t' S \<longleftrightarrow> slots_ok t S"
proof -
  have "S \<subseteq> {1..<length t} \<Longrightarrow> i \<in> S \<Longrightarrow> ie_object (t' ! i) = ie_object (t ! i)" for i
    using same_entries_nth(2) [OF assms, of i] by auto
  then show ?thesis using same_entries_length [OF assms] by (auto simp: slots_ok_def)
qed

lemma grow_rehash_ok:
  "hash_ok t S \<Longrightarrow> distinct is \<Longrightarrow> set is \<inter> S = {} \<Longrightarrow> set is \<subseteq> {..<length t} \<Longrightarrow>
   slots_ok t (S \<union> (set is \<inter> send_slots t)) \<Longrightarrow>
   \<exists>t'. grow_rehash t is = Some t' \<and> hash_ok t' (S \<union> (set is \<inter> send_slots t)) \<and> same_entries t t'"
proof (induction "is" arbitrary: t S)
  case (Cons i "is")
  have i: "i < length t" "i \<notin> S" using Cons.prems by auto
  show ?case
  proof (cases "ie_type (t ! i) = MACH_PORT_TYPE_SEND")
    case True
    then have snd: "i \<in> send_slots t" using i by (simp add: send_slots_def)
    have obj: "ie_object (t ! i) \<noteq> IO_NULL" "0 < i"
      using Cons.prems(5) snd by (auto simp: slots_ok_def)
    have new: "ie_object (t ! j) \<noteq> ie_object (t ! i)" if "j \<in> S" for j
    proof
      assume eq: "ie_object (t ! j) = ie_object (t ! i)"
      have "j \<in> S \<union> (set (i # is) \<inter> send_slots t)" "i \<in> S \<union> (set (i # is) \<inter> send_slots t)"
        using that snd by auto
      with Cons.prems(5) eq have "j = i" unfolding slots_ok_def by blast
      with that i show False by simp
    qed
    from ipc_hash_local_insert_ok [OF Cons.prems(1) obj(2) i refl obj(1) new]
    obtain t1 where t1: "ipc_hash_local_insert t (ie_object (t ! i)) i = Some t1" "hash_ok t1 (insert i S)"
      "same_entries t t1" by blast
    have eq: "S \<union> (set (i # is) \<inter> send_slots t) = insert i S \<union> (set is \<inter> send_slots t)" using snd by auto
    have "\<exists>t'. grow_rehash t1 is = Some t' \<and> hash_ok t' (insert i S \<union> (set is \<inter> send_slots t1)) \<and> same_entries t1 t'"
      by (rule Cons.IH [OF t1(2)])
        (use Cons.prems same_entries_length [OF t1(3)] eq in
          \<open>simp_all add: slots_ok_same [OF t1(3)] send_slots_same [OF t1(3)]\<close>)
    with t1 True i show ?thesis unfolding eq send_slots_same [OF t1(3)]
      by (auto intro: same_entries_trans)
  next
    case False
    then have eq: "S \<union> (set (i # is) \<inter> send_slots t) = S \<union> (set is \<inter> send_slots t)" by (auto simp: send_slots_def)
    have "\<exists>t'. grow_rehash t is = Some t' \<and> hash_ok t' (S \<union> (set is \<inter> send_slots t)) \<and> same_entries t t'"
      by (rule Cons.IH [OF Cons.prems(1)]) (use Cons.prems eq in auto)
    with False i show ?thesis unfolding eq by simp
  qed
qed simp

lemma grow_copy_nth:
  assumes "length ot \<le> sz"
  shows "length (grow_copy ot sz) = sz"
    and "i < length ot \<Longrightarrow> grow_copy ot sz ! i = (ot ! i)\<lparr>ie_index := 0\<rparr>"
    and "length ot \<le> i \<Longrightarrow> i < sz \<Longrightarrow> grow_copy ot sz ! i = zero_entry"
  using assms by (auto simp: grow_copy_def nth_append)

lemma grow_copy_hash: "length ot \<le> sz \<Longrightarrow> hash_ok (grow_copy ot sz) {}"
proof (rule hash_okI)
  assume le: "length ot \<le> sz"
  note nth = grow_copy_nth [OF le]
  have "slot_of (grow_copy ot sz) h = 0" if "h < length (grow_copy ot sz)" for h
    using that nth by (cases "h < length ot") (auto simp: zero_entry_def)
  then show "slot_of (grow_copy ot sz) h \<in> {}" if "h < length (grow_copy ot sz)" "slot_of (grow_copy ot sz) h \<noteq> 0" for h
    using that by simp
  then show "h = d" if "h < length (grow_copy ot sz)" "d < length (grow_copy ot sz)"
    "slot_of (grow_copy ot sz) h = slot_of (grow_copy ot sz) d" "slot_of (grow_copy ot sz) d \<noteq> 0" for h d
    using that by auto
  show "slot_of (grow_copy ot sz) s \<noteq> 0" if "d < length (grow_copy ot sz)" "slot_of (grow_copy ot sz) d \<noteq> 0" for d s
    using that \<open>\<And>h. h < length (grow_copy ot sz) \<Longrightarrow> slot_of (grow_copy ot sz) h = 0\<close> by auto
qed (auto simp: slots_ok_def)

subsection \<open>Moving entries from the tree to the table\<close>

definition place :: "ipc_entry list \<Rightarrow> ipc_entry ite \<Rightarrow> ipc_entry list" where
  "place t x = (let i = unat (fst x) in
     t[i := (t ! i)\<lparr>ie_bits := ie_bits (snd x), ie_object := ie_object (snd x), ie_request := ie_request (snd x)\<rparr>])"

lemma length_place [simp]: "length (place t x) = length t"
  by (simp add: place_def Let_def)

lemma place_other [simp]: "i \<noteq> unat (fst x) \<Longrightarrow> place t x ! i = t ! i"
  by (simp add: place_def Let_def)

lemma place_nth [simp]:
  "unat (fst x) < length t \<Longrightarrow> place t x ! unat (fst x) =
     (t ! unat (fst x))\<lparr>ie_bits := ie_bits (snd x), ie_object := ie_object (snd x), ie_request := ie_request (snd x)\<rparr>"
  by (simp add: place_def Let_def)

lemma slot_of_place [simp]: "slot_of (place t x) h = slot_of t h"
proof (cases "unat (fst x) < length t")
  case True
  then show ?thesis by (simp add: place_def Let_def nth_list_update_if)
qed (simp add: place_def Let_def list_update_beyond)

lemma same_entriesI:
  assumes "length t' = length t" and "\<And>i. i < length t \<Longrightarrow> (t' ! i)\<lparr>ie_index := 0\<rparr> = (t ! i)\<lparr>ie_index := 0\<rparr>"
  shows "same_entries t t'"
  using assms by (auto simp: same_entries_def intro!: nth_equalityI)

lemma place_same:
  assumes "same_entries t t'"
  shows "same_entries (place t x) (place t' x)"
proof (rule same_entriesI)
  show "length (place t' x) = length (place t x)" using same_entries_length [OF assms] by simp
  fix i assume i: "i < length (place t x)"
  then show "(place t' x ! i)\<lparr>ie_index := 0\<rparr> = (place t x ! i)\<lparr>ie_index := 0\<rparr>"
    using same_entries_zero [OF assms] same_entries_length [OF assms]
    by (cases "i = unat (fst x)") auto
qed

lemma places_same: "same_entries t t' \<Longrightarrow> same_entries (foldl place t xs) (foldl place t' xs)"
  by (induction xs arbitrary: t t') (auto intro: place_same)

lemma length_places [simp]: "length (foldl place t xs) = length t"
  by (induction xs arbitrary: t) auto

lemma places_other: "i \<notin> unat ` fst ` set xs \<Longrightarrow> foldl place t xs ! i = t ! i"
  by (induction xs arbitrary: t) auto

lemma places_nth:
  assumes "distinct (map fst xs)" and "(n, e) \<in> set xs" and "unat n < length t"
  shows "(foldl place t xs ! unat n)\<lparr>ie_index := 0\<rparr> = e\<lparr>ie_index := 0\<rparr>"
  using assms
proof (induction xs arbitrary: t)
  case (Cons x xs)
  show ?case
  proof (cases "x = (n, e)")
    case True
    then have "unat n \<notin> unat ` fst ` set xs" using Cons.prems(1) by (auto simp: image_iff word_unat_eq_iff [symmetric])
    with True Cons.prems(3) place_nth [of x t] show ?thesis by (simp add: places_other)
  next
    case False
    with Cons show ?thesis by auto
  qed
qed simp

definition is_send :: "ipc_entry ite \<Rightarrow> bool" where
  "is_send x \<longleftrightarrow> ie_type (snd x) = MACH_PORT_TYPE_SEND"

abbreviation ref_of :: "ipc_space \<Rightarrow> ipc_entry ite \<Rightarrow> tree_ref" where
  "ref_of space x \<equiv> mkref (is_self space) (fst x) (ie_object (snd x))"

definition move_state :: "ipc_space \<Rightarrow> ipc_entry list \<Rightarrow> nat \<Rightarrow> nat \<Rightarrow> ipc_space" where
  "move_state space t h k = space\<lparr>is_table := t, is_tree_hash := is_tree_hash space - h, is_tree_total := is_tree_total space - k\<rparr>"

lemma grow_move_ok:
  assumes x: "osize \<le> unat (fst x)" "unat (fst x) < sz" "is_table_size space = sz" "0 < osize"
    and free: "ie_bits (is_table space ! unat (fst x)) = 0" and type: "ie_type (snd x) \<noteq> 0"
    and S: "hash_ok (is_table space) S" "unat (fst x) \<notin> S"
    and snd: "is_send x \<Longrightarrow> ie_object (snd x) \<noteq> IO_NULL \<and> ref_of space x \<in> glob_refs g \<and> 0 < is_tree_hash space"
    and new: "\<And>j. is_send x \<Longrightarrow> j \<in> S \<Longrightarrow> ie_object (is_table space ! j) \<noteq> ie_object (snd x)"
    and g: "glob_ok g" "is_self space \<noteq> IS_NULL"
  shows "\<exists>t g'. grow_move osize sz (space, g) x =
      Some ((move_state space t (if is_send x then 1 else 0) 1, g'), True) \<and>
    same_entries (place (is_table space) x) t \<and>
    hash_ok t (if is_send x then insert (unat (fst x)) S else S) \<and> glob_ok g' \<and>
    glob_refs g' = (if is_send x then glob_refs g - {ref_of space x} else glob_refs g)"
proof -
  let ?t = "is_table space" and ?i = "unat (fst x)"
  obtain n e where xe: "x = (n, e)" by (cases x)
  have h1: "hash_ok (place ?t x) S"
  proof (rule hash_ok_cong [OF S(1)])
    show "ie_object (place ?t x ! i) = ie_object (?t ! i)" if "i \<in> S" for i
      using place_other [of i x ?t] that S(2) by metis
  qed simp_all
  have pl: "place ?t x = ?t[?i := (?t ! ?i)\<lparr>ie_bits := ie_bits e, ie_object := ie_object e, ie_request := ie_request e\<rparr>]"
    by (simp add: xe place_def Let_def)
  show ?thesis
  proof (cases "is_send x")
    case False
    then have "grow_move osize sz (space, g) x = Some ((move_state space (place ?t x) 0 1, g), True)"
      using x free type pl
      by (simp add: grow_move_def xe Let_def nogen is_send_def move_state_def MACH_PORT_TYPE_NONE_def)
    with False h1 g show ?thesis by auto
  next
    case True
    note s = snd [OF True]
    obtain g' where g': "global_chain_delete g (is_self space) (ie_object e) n = Some g'" "glob_ok g'"
      "glob_refs g' = glob_refs g - {ref_of space x}"
      using global_delete_ok [OF g(1,2), of "ie_object e" n] s xe by auto
    have pos: "0 < ?i" "?i < length (place ?t x)" using x by auto
    have obj: "ie_object (place ?t x ! ?i) = ie_object e" using x by (simp add: xe place_def Let_def)
    have "ie_object (place ?t x ! j) \<noteq> ie_object e" if "j \<in> S" for j
      using new [OF True that] S(2) that xe by (cases "j = ?i") (auto simp: place_other)
    from ipc_hash_local_insert_ok [OF h1 pos S(2) obj _ this] s xe obtain t
      where t: "ipc_hash_local_insert (place ?t x) (ie_object e) ?i = Some t" "hash_ok t (insert ?i S)"
        "same_entries (place ?t x) t" by auto
    have "grow_move osize sz (space, g) x = Some ((move_state space t 1 1, g'), True)"
      using x free type True s g' t(1) unfolding pl
      by (simp add: grow_move_def xe Let_def nogen is_send_def move_state_def MACH_PORT_TYPE_NONE_def
          ipc_hash_global_delete_def)
    with True t g' show ?thesis by auto
  qed
qed

definition movable :: "nat \<Rightarrow> nat \<Rightarrow> ipc_space \<Rightarrow> ipc_hash_global \<Rightarrow> nat set \<Rightarrow> ipc_entry ite list \<Rightarrow> bool" where
  "movable osize sz space g S xs \<longleftrightarrow>
     is_table_size space = sz \<and> 0 < osize \<and> is_self space \<noteq> IS_NULL \<and> distinct (map fst xs) \<and>
     (\<forall>x \<in> set xs. osize \<le> unat (fst x) \<and> unat (fst x) < sz \<and> unat (fst x) \<notin> S \<and>
        ie_bits (is_table space ! unat (fst x)) = 0 \<and> ie_type (snd x) \<noteq> 0) \<and>
     (\<forall>x \<in> set xs. is_send x \<longrightarrow> ie_object (snd x) \<noteq> IO_NULL \<and> ref_of space x \<in> glob_refs g \<and>
        (\<forall>j \<in> S. ie_object (is_table space ! j) \<noteq> ie_object (snd x)) \<and>
        (\<forall>y \<in> set xs. is_send y \<longrightarrow> ie_object (snd x) = ie_object (snd y) \<longrightarrow> x = y)) \<and>
     length (filter is_send xs) \<le> is_tree_hash space"

lemma move_state_simps [simp]:
  "is_self (move_state space t h k) = is_self space" "is_table (move_state space t h k) = t"
  "is_tree_hash (move_state space t h k) = is_tree_hash space - h"
  "move_state (move_state space t h k) t' h' k' = move_state space t' (h + h') (k + k')"
  by (simp_all add: move_state_def)

lemma movable_step:
  assumes mv: "movable osize sz space g S (x # xs)" and t: "same_entries (place (is_table space) x) t"
    and S: "S \<subseteq> {..<sz}"
    and g': "glob_refs g' = (if is_send x then glob_refs g - {ref_of space x} else glob_refs g)"
  shows "movable osize sz (move_state space t (if is_send x then 1 else 0) 1) g'
    (if is_send x then insert (unat (fst x)) S else S) xs"
proof -
  have mv': "is_table_size space = sz" "0 < osize" "is_self space \<noteq> IS_NULL" "distinct (map fst (x # xs))"
    "length (filter is_send (x # xs)) \<le> is_tree_hash space"
    using mv by (simp_all add: movable_def)
  have y: "osize \<le> unat (fst y)" "unat (fst y) < sz" "unat (fst y) \<notin> S"
    "ie_bits (is_table space ! unat (fst y)) = 0" "ie_type (snd y) \<noteq> 0" if "y \<in> set (x # xs)" for y
    using mv that by (auto simp: movable_def)
  have ys: "ie_object (snd y) \<noteq> IO_NULL" "ref_of space y \<in> glob_refs g"
    "\<forall>j \<in> S. ie_object (is_table space ! j) \<noteq> ie_object (snd y)"
    "\<forall>z \<in> set (x # xs). is_send z \<longrightarrow> ie_object (snd y) = ie_object (snd z) \<longrightarrow> y = z"
    if "y \<in> set (x # xs)" "is_send y" for y
    using mv that unfolding movable_def by blast+
  have ne: "fst y \<noteq> fst x" "unat (fst y) \<noteq> unat (fst x)" if "y \<in> set xs" for y
    using mv'(4) that by (auto simp: image_iff word_unat_eq_iff [symmetric])
  have len: "length t = sz" using same_entries_length [OF t] mv'(1) by simp
  have bits: "ie_bits (t ! unat (fst y)) = 0" if "y \<in> set xs" for y
    using same_entries_nth(1) [OF t, of "unat (fst y)"] y [of y] ne [OF that] that mv'(1) by simp
  have obj: "ie_object (t ! j) = ie_object (is_table space ! j)" if "j \<in> S" for j
    using same_entries_nth(2) [OF t, of j] S that mv'(1) y(3) [of x] by (cases "j = unat (fst x)") auto
  have objx: "ie_object (t ! unat (fst x)) = ie_object (snd x)"
    using same_entries_nth(2) [OF t, of "unat (fst x)"] y(2) [of x] mv'(1) by simp
  have refs: "ref_of space y \<in> glob_refs g'" if "y \<in> set xs" "is_send y" for y
    using ys(2) [of y] that ne [of y] g' by (auto simp: mkref_inject)
  have new: "ie_object (t ! j) \<noteq> ie_object (snd y)"
    if "y \<in> set xs" "is_send y" "j \<in> (if is_send x then insert (unat (fst x)) S else S)" for y j
  proof (cases "j \<in> S")
    case True
    with obj ys(3) [of y] that show ?thesis by simp
  next
    case False
    with that have "is_send x" "j = unat (fst x)" by (auto split: if_splits)
    with objx ys(4) [of x] that ne [of y] show ?thesis by auto
  qed
  have notin: "unat (fst y) \<notin> (if is_send x then insert (unat (fst x)) S else S)" if "y \<in> set xs" for y
    using y(3) [of y] ne(2) [OF that] that by simp
  have "length (filter is_send xs) \<le> is_tree_hash space - (if is_send x then 1 else 0)"
    using mv'(5) by (simp split: if_splits)
  moreover have "\<forall>z \<in> set xs. is_send z \<longrightarrow> ie_object (snd y) = ie_object (snd z) \<longrightarrow> y = z"
    if "y \<in> set xs" "is_send y" for y using ys(4) [of y] that by simp
  ultimately show ?thesis
    unfolding movable_def move_state_simps using mv'(2-4) len
    by (intro conjI ballI impI)
      (simp_all add: bits y ys(1) refs new notin split del: if_split)
qed

definition send_set :: "ipc_entry ite list \<Rightarrow> nat set" where
  "send_set xs = unat ` fst ` {x \<in> set xs. is_send x}"

lemma grow_moves_ok:
  "movable osize sz space g S xs \<Longrightarrow> S \<subseteq> {..<sz} \<Longrightarrow> hash_ok (is_table space) S \<Longrightarrow> glob_ok g \<Longrightarrow>
   \<exists>t g'. traverse_spec (grow_move osize sz) (space, g) xs =
      Some ((move_state space t (length (filter is_send xs)) (length xs), g'), []) \<and>
     same_entries (foldl place (is_table space) xs) t \<and> hash_ok t (S \<union> send_set xs) \<and> glob_ok g' \<and>
     glob_refs g' = glob_refs g - ref_of space ` {x \<in> set xs. is_send x}"
proof (induction xs arbitrary: space g S)
  case Nil
  have "move_state space (is_table space) 0 0 = space" by (simp add: move_state_def)
  with Nil show ?case by (intro exI [of _ "is_table space"] exI [of _ g]) (simp add: send_set_def)
next
  case (Cons x xs)
  note mv = Cons.prems(1)
  have m: "osize \<le> unat (fst x)" "unat (fst x) < sz" "is_table_size space = sz" "0 < osize"
    "ie_bits (is_table space ! unat (fst x)) = 0" "ie_type (snd x) \<noteq> 0" "unat (fst x) \<notin> S" "is_self space \<noteq> IS_NULL"
    "is_send x \<Longrightarrow> 0 < is_tree_hash space" using mv by (auto simp: movable_def)
  have s: "ie_object (snd x) \<noteq> IO_NULL \<and> ref_of space x \<in> glob_refs g \<and> 0 < is_tree_hash space"
    "\<And>j. j \<in> S \<Longrightarrow> ie_object (is_table space ! j) \<noteq> ie_object (snd x)" if "is_send x"
    using mv that m(9) unfolding movable_def by (meson list.set_intros(1))+
  let ?h = "if is_send x then 1 else (0::nat)" and ?S = "if is_send x then insert (unat (fst x)) S else S"
  from grow_move_ok [OF m(1-6) Cons.prems(3) m(7) s(1) s(2) Cons.prems(4) m(8)]
  obtain t g1 where run: "grow_move osize sz (space, g) x = Some ((move_state space t ?h 1, g1), True)"
    and t: "same_entries (place (is_table space) x) t" and h: "hash_ok t ?S" and g1: "glob_ok g1"
    "glob_refs g1 = (if is_send x then glob_refs g - {ref_of space x} else glob_refs g)" by blast
  have "?S \<subseteq> {..<sz}" using Cons.prems(2) m(2) by simp
  from Cons.IH [OF movable_step [OF mv t Cons.prems(2) g1(2)] this _ g1(1)] h obtain t' g'
    where t': "traverse_spec (grow_move osize sz) (move_state space t ?h 1, g1) xs =
      Some ((move_state (move_state space t ?h 1) t' (length (filter is_send xs)) (length xs), g'), [])"
      "same_entries (foldl place t xs) t'" "hash_ok t' (?S \<union> send_set xs)" "glob_ok g'"
      "glob_refs g' = glob_refs g1 - ref_of space ` {x \<in> set xs. is_send x}"
    unfolding move_state_simps by (metis (no_types, lifting))
  have "same_entries (foldl place (is_table space) (x # xs)) t'"
    using same_entries_trans [OF places_same [OF t] t'(2)] by simp
  moreover have "?S \<union> send_set xs = S \<union> send_set (x # xs)" by (auto simp: send_set_def)
  moreover have "glob_refs g' = glob_refs g - ref_of space ` {y \<in> set (x # xs). is_send y}"
    unfolding t'(5) g1(2) by auto
  moreover have "traverse_spec (grow_move osize sz) (space, g) (x # xs) =
      Some ((move_state space t' (length (filter is_send (x # xs))) (length (x # xs)), g'), [])"
    using run t'(1) by simp
  ultimately show ?case using t'(3,4) by auto
qed

lemma grow_counts_ok:
  "sorted_keys xs \<Longrightarrow> (\<forall>x \<in> set xs. i < unat (fst x)) \<Longrightarrow>
   \<exists>j. traverse_spec grow_count (k, i) xs = Some ((k + length xs, j), xs)"
proof (induction xs arbitrary: k i)
  case (Cons x xs)
  have "\<forall>y \<in> set xs. unat (fst x) < unat (fst y)" using Cons.prems(1) by (simp add: word_less_nat_alt)
  from Cons.IH [OF _ this, of "k + 1"] Cons.prems
  obtain j where "traverse_spec grow_count (k + 1, unat (fst x)) xs = Some ((k + 1 + length xs, j), xs)" by auto
  moreover have "grow_count (k, i) x = Some ((k + 1, unat (fst x)), False)"
    using Cons.prems(2) by (auto simp: grow_count_def nogen)
  ultimately show ?case by simp
qed simp

subsection \<open>Linking the new free entries\<close>

lemma grow_link_ok:
  "distinct is \<Longrightarrow> (\<forall>i \<in> set is. 0 < i \<and> i < length t \<and> i \<notin> set fl) \<Longrightarrow>
   (\<forall>i \<in> set fl. 0 < i \<and> i < length t) \<Longrightarrow>
   (case fl of [] \<Rightarrow> f = 0 | j # js \<Rightarrow> f = j \<and> free_chain t j js) \<Longrightarrow>
   \<exists>t' f' fl'. grow_link t f is = Some (t', f') \<and> length t' = length t \<and>
     (\<forall>k < length t. t' ! k = (t ! k)\<lparr>ie_request := ie_request (t' ! k)\<rparr>) \<and>
     (\<forall>k < length t. k \<notin> set is \<or> ie_bits (t ! k) \<noteq> 0 \<longrightarrow> t' ! k = t ! k) \<and>
     fl' = rev (filter (\<lambda>i. ie_bits (t ! i) = 0) is) @ fl \<and>
     (case fl' of [] \<Rightarrow> f' = 0 | j # js \<Rightarrow> f' = j \<and> free_chain t' j js)"
proof (induction "is" arbitrary: t f fl)
  case (Cons i "is")
  have i: "0 < i" "i < length t" "i \<notin> set fl" "i \<notin> set is" using Cons.prems by auto
  show ?case
  proof (cases "ie_bits (t ! i) = 0")
    case False
    from Cons.IH [of t fl f] Cons.prems False i show ?thesis by auto
  next
    case True
    let ?t = "put_next t i f"
    have eq: "t[i := (t ! i)\<lparr>ie_bits := 0, ie_request := f\<rparr>] = ?t"
      using bits_0_idem [OF True] by (simp add: put_next_def)
    have chain: "free_chain ?t i fl"
    proof (cases fl)
      case Nil
      with Cons.prems(4) i show ?thesis by simp
    next
      case (Cons j js)
      then have "free_chain t j js" "f = j" using Cons.prems(4) by auto
      moreover have "free_chain ?t j js"
        by (rule free_chain_cong [OF calculation(1)]) (use i Cons in auto)
      ultimately show ?thesis using Cons.prems(3) Cons i by simp
    qed
    have "\<exists>t' f' fl'. grow_link ?t i is = Some (t', f') \<and> length t' = length ?t \<and>
     (\<forall>k < length ?t. t' ! k = (?t ! k)\<lparr>ie_request := ie_request (t' ! k)\<rparr>) \<and>
     (\<forall>k < length ?t. k \<notin> set is \<or> ie_bits (?t ! k) \<noteq> 0 \<longrightarrow> t' ! k = ?t ! k) \<and>
     fl' = rev (filter (\<lambda>i. ie_bits (?t ! i) = 0) is) @ (i # fl) \<and>
     (case fl' of [] \<Rightarrow> f' = 0 | j # js \<Rightarrow> f' = j \<and> free_chain t' j js)"
      by (rule Cons.IH) (use Cons.prems i chain in auto)
    then obtain t' f' fl' where t': "grow_link ?t i is = Some (t', f')" "length t' = length t"
      "\<And>k. k < length t \<Longrightarrow> t' ! k = (?t ! k)\<lparr>ie_request := ie_request (t' ! k)\<rparr>"
      "\<And>k. k < length t \<Longrightarrow> k \<notin> set is \<or> ie_bits (t ! k) \<noteq> 0 \<Longrightarrow> t' ! k = ?t ! k"
      "fl' = rev (filter (\<lambda>i. ie_bits (t ! i) = 0) is) @ (i # fl)"
      "case fl' of [] \<Rightarrow> f' = 0 | j # js \<Rightarrow> f' = j \<and> free_chain t' j js" by auto
    have same: "?t ! k = t ! k" if "k \<noteq> i" for k using that by (simp add: put_next_def)
    have req: "(?t ! k)\<lparr>ie_request := r\<rparr> = (t ! k)\<lparr>ie_request := r\<rparr>" for k r
      using i by (cases "k = i") (simp_all add: put_next_def)
    have "grow_link t f (i # is) = Some (t', f')" using t'(1) True i by (simp add: IE_BITS_GEN_MASK_def PORT_GENERATIONS_def eq)
    moreover have "t' ! k = t ! k" if "k < length t" "k \<notin> set (i # is) \<or> ie_bits (t ! k) \<noteq> 0" for k
      using t'(4) [OF that(1)] that(2) same [of k] True by (cases "k = i") auto
    moreover have "fl' = rev (filter (\<lambda>i. ie_bits (t ! i) = 0) (i # is)) @ fl" using t'(5) True by simp
    ultimately show ?thesis using t'(2,3,6) req by (intro exI [of _ t'] exI [of _ f'] exI [of _ fl']) auto
  qed
qed simp

lemma unat_of_nat_bound: "k < 2 ^ 32 - 1 \<Longrightarrow> unat (of_nat k :: mach_port) = k"
  by (simp add: unat_of_nat)

lemma word_le_of_nat: "k < 2 ^ 32 - 1 \<Longrightarrow> of_nat k \<le> (n :: mach_port) \<longleftrightarrow> k \<le> unat n"
  and word_less_of_nat: "k < 2 ^ 32 - 1 \<Longrightarrow> (n :: mach_port) < of_nat k \<longleftrightarrow> unat n < k"
  by (simp_all add: word_le_nat_alt word_less_nat_alt unat_of_nat)

lemma sorted_range_length:
  assumes "sorted_keys (xs :: (mach_port \<times> 'a) list)" and "\<forall>x \<in> set xs. a \<le> unat (fst x) \<and> unat (fst x) < b"
  shows "length xs \<le> b - a"
proof -
  have d: "distinct (map (unat \<circ> fst) xs)"
    using assms(1) by (auto simp: strict_sorted_iff distinct_map comp_inj_on_iff [symmetric] inj_on_def word_unat_eq_iff)
  have "length xs = card (set (map (unat \<circ> fst) xs))" using distinct_card [OF d] by simp
  also have "\<dots> \<le> card {a..<b}" by (rule card_mono) (use assms(2) in auto)
  finally show ?thesis by simp
qed

lemma length_filter_conj: "length (filter (\<lambda>x. P x \<and> Q x) xs) \<le> length (filter P xs)"
  by (induction xs) auto

lemma traverse_ok:
  assumes "ist_ok s" and "traverse_spec body x (ist_list s) = Some (x', kept)"
  shows "\<exists>s'. ipc_splay_traverse body x s = Some (x', s') \<and> ist_ok s' \<and> ist_list s' = kept"
proof -
  have "map_option (map_prod id ist_list) (ipc_splay_traverse body x s) = Some (x', kept)"
    using splay_traverse(1) [OF assms(1), of body x] assms(2) by simp
  then obtain s' where s': "ipc_splay_traverse body x s = Some (x', s')" "ist_list s' = kept" by auto
  with splay_traverse(2) [OF assms(1) s'(1)] show ?thesis by blast
qed

lemma grow_tree_ok:
  fixes L :: "ipc_entry ite list"
  assumes ok: "ist_ok (is_tree space)" and L: "L = ist_list (is_tree space)" "\<forall>x \<in> set L. osize \<le> unat (fst x)"
    and sizes: "0 < osize" "osize < sz" "sz \<le> nsize" "nsize < 2 ^ 32 - 1" and tot: "is_tree_total space = length L"
    and mv: "mv = filter (\<lambda>x. unat (fst x) < sz) L" "movable osize sz space g S mv" "S \<subseteq> {..<sz}"
    and hash: "hash_ok (is_table space) S" "glob_ok g"
  shows "\<exists>t g' tree. grow_tree osize sz nsize (space, g) =
      Some ((move_state space t (length (filter is_send mv)) (length mv))
        \<lparr>is_tree := tree, is_tree_small := length (filter (\<lambda>x. sz \<le> unat (fst x) \<and> unat (fst x) < nsize) L)\<rparr>, g') \<and>
     ist_ok tree \<and> ist_list tree = filter (\<lambda>x. sz \<le> unat (fst x)) L \<and>
     same_entries (foldl place (is_table space) mv) t \<and> hash_ok t (S \<union> send_set mv) \<and> glob_ok g' \<and>
     glob_refs g' = glob_refs g - ref_of space ` {x \<in> set mv. is_send x}"
proof -
  have b: "osize < 2 ^ 32 - 1" "sz < 2 ^ 32 - 1" using sizes by auto
  note le = word_le_of_nat [OF b(1)] word_le_of_nat [OF b(2)] word_le_of_nat [OF sizes(4)]
    word_less_of_nat [OF b(1)] word_less_of_nat [OF b(2)] word_less_of_nat [OF sizes(4)]
  let ?small = "filter (\<lambda>x. sz \<le> unat (fst x) \<and> unat (fst x) < nsize) L"
  have sorted: "sorted_keys L" using ok by (simp add: ist_ok_def L)
  obtain big s1 where s1: "ipc_splay_tree_split (is_tree space) (of_nat nsize) (is_tree space) = Some (big, s1)"
    "ist_ok big" "ist_ok s1" "ist_list big = filter (\<lambda>x. nsize \<le> unat (fst x)) L"
    "ist_list s1 = filter (\<lambda>x. unat (fst x) < nsize) L"
    using splay_split [OF ok, of "of_nat nsize" "is_tree space"] by (auto simp: le L)
  have eqm: "filter (\<lambda>x. unat (fst x) < nsize \<and> unat (fst x) < sz) L = mv"
    unfolding mv(1) by (rule filter_cong) (use sizes in auto)
  obtain small m1 where s2: "ipc_splay_tree_split s1 (of_nat sz) s1 = Some (small, m1)"
    "ist_ok small" "ist_ok m1" "ist_list small = ?small" "ist_list m1 = mv"
    using splay_split [OF s1(3), of "of_nat sz" s1] by (auto simp: le s1(5) eqm conj_commute)
  have emp: "filter (\<lambda>x. osize \<le> unat (fst x)) mv = mv" "filter (\<lambda>x. unat (fst x) < osize) mv = []"
  proof -
    have "\<forall>x \<in> set mv. osize \<le> unat (fst x)" using L(2) by (simp add: mv(1))
    then show "filter (\<lambda>x. osize \<le> unat (fst x)) mv = mv" "filter (\<lambda>x. unat (fst x) < osize) mv = []"
      by (auto simp: filter_empty_conv filter_id_conv not_less)
  qed
  obtain move ign where s3: "ipc_splay_tree_split m1 (of_nat osize) m1 = Some (move, ign)"
    "ist_ok move" "ist_ok ign" "ist_list move = mv" "ist_list ign = []"
    using splay_split [OF s2(3), of "of_nat osize" m1] by (auto simp: le s2(5) emp)
  from grow_moves_ok [OF mv(2,3) hash] obtain t g' where mo: "traverse_spec (grow_move osize sz) (space, g) mv =
      Some ((move_state space t (length (filter is_send mv)) (length mv), g'), [])"
    and res: "same_entries (foldl place (is_table space) mv) t" "hash_ok t (S \<union> send_set mv)" "glob_ok g'"
     "glob_refs g' = glob_refs g - ref_of space ` {x \<in> set mv. is_send x}" by blast
  obtain move' where tm: "ipc_splay_traverse (grow_move osize sz) (space, g) move =
      Some ((move_state space t (length (filter is_send mv)) (length mv), g'), move')" "ist_ok move'" "ist_list move' = []"
    using traverse_ok [OF s3(2), unfolded s3(4), OF mo] by blast
  have sm: "sorted_keys ?small" "\<forall>x \<in> set ?small. 0 < unat (fst x)"
    using sorted sizes by (auto intro: sorted_keys_filter)
  from grow_counts_ok [OF this, of 0] obtain j where cn: "traverse_spec grow_count (0, 0) ?small = Some ((length ?small, j), ?small)"
    by auto
  obtain small' where ts: "ipc_splay_traverse grow_count (0, 0) small =
      Some ((length ?small, j), small')" "ist_ok small'" "ist_list small' = ?small"
    using traverse_ok [OF s2(2), unfolded s2(4), OF cn] by blast
  have n1: "length ?small \<le> nsize - sz" by (rule sorted_range_length [OF sm(1)]) auto
  have "length mv + length (filter (\<lambda>x. sz \<le> unat (fst x)) L) = length L"
    using sum_length_filter_compl [of "\<lambda>x. unat (fst x) < sz" L] by (simp add: mv(1) not_less)
  moreover have "length ?small \<le> length (filter (\<lambda>x. sz \<le> unat (fst x)) L)"
    by (rule length_filter_conj)
  ultimately have n2: "length ?small \<le> is_tree_total space - length mv" using tot by simp
  have "filter (\<lambda>x. fst x < of_nat nsize) (filter (\<lambda>x. sz \<le> unat (fst x)) L) = ?small" by (simp add: le conj_commute)
  moreover have "filter (\<lambda>x. of_nat nsize \<le> fst x) (filter (\<lambda>x. sz \<le> unat (fst x)) L) =
      filter (\<lambda>x. nsize \<le> unat (fst x)) L"
    unfolding filter_filter le by (rule filter_cong) (use sizes in auto)
  ultimately have cat: "?small @ filter (\<lambda>x. nsize \<le> unat (fst x)) L = filter (\<lambda>x. sz \<le> unat (fst x)) L"
    using sorted_keys_partition [OF sorted_keys_filter [OF sorted], of "of_nat nsize" "\<lambda>x. sz \<le> unat (fst x)"] by simp
  obtain t1 e1 where j1: "ipc_splay_tree_join big small' = Some (t1, e1)" "ist_ok t1"
    "ist_list t1 = filter (\<lambda>x. sz \<le> unat (fst x)) L"
    using splay_join [OF s1(2) ts(2)] unfolding s1(4) ts(3) cat by (auto simp: word_less_nat_alt)
  obtain t2 e2 where j2: "ipc_splay_tree_join t1 move' = Some (t2, e2)" "ist_ok t2" "ist_list t2 = ist_list t1"
    using splay_join [OF j1(2) tm(2)] tm(3) by auto
  obtain t3 e3 where j3: "ipc_splay_tree_join t2 ign = Some (t3, e3)" "ist_ok t3" "ist_list t3 = ist_list t1"
    using splay_join [OF j2(2) s3(3)] s3(5) j2(3) by auto
  have "grow_tree osize sz nsize (space, g) =
      Some ((move_state space t (length (filter is_send mv)) (length mv))\<lparr>is_tree := t3, is_tree_small := length ?small\<rparr>, g')"
    using s1(1) s2(1) s3(1) tm(1) ts(1) n1 n2 j1(1) j2(1) j3(1)
    by (simp add: grow_tree_def Let_def nogen move_state_def)
  with j3(2,3) j1(3) res show ?thesis by (intro exI [of _ t] exI [of _ g'] exI [of _ t3]) simp
qed

definition grown :: "ipc_entry list \<Rightarrow> ipc_entry ite list \<Rightarrow> nat \<Rightarrow> ipc_entry" where
  "grown ot L k =
     (if k < length ot then ot ! k else case map_of L (of_nat k) of None \<Rightarrow> zero_entry | Some e \<Rightarrow> e)\<lparr>ie_index := 0\<rparr>"

lemma grown_nth:
  assumes t1: "same_entries (grow_copy ot sz) t1" and mv: "mv = filter (\<lambda>x. unat (fst x) < sz) L"
    and t2: "same_entries (foldl place t1 mv) t2" and sz: "length ot \<le> sz" "sz < 2 ^ 32 - 1"
    and L: "distinct (map fst L)" "\<forall>x \<in> set L. length ot \<le> unat (fst x)" and k: "k < sz"
  shows "(t2 ! k)\<lparr>ie_index := 0\<rparr> = grown ot L k"
proof -
  note copy = grow_copy_nth [OF sz(1)]
  have len: "length t1 = sz" using same_entries_length [OF t1] copy(1) by simp
  have uk: "unat (of_nat k :: mach_port) = k" using k sz by (intro unat_of_nat_bound) simp
  have e2: "(t2 ! k)\<lparr>ie_index := 0\<rparr> = (foldl place t1 mv ! k)\<lparr>ie_index := 0\<rparr>"
    by (rule same_entries_zero [OF t2]) (use k len in simp)
  have e1: "(t1 ! k)\<lparr>ie_index := 0\<rparr> = (grow_copy ot sz ! k)\<lparr>ie_index := 0\<rparr>"
    by (rule same_entries_zero [OF t1]) (use k copy in simp)
  have inmv: "k \<in> unat ` fst ` set mv \<longleftrightarrow> (\<exists>e. (of_nat k, e) \<in> set L)"
    using uk k by (force simp: mv image_iff)
  show ?thesis
  proof (cases "map_of L (of_nat k)")
    case None
    then have "\<not> (\<exists>e. (of_nat k, e) \<in> set L)" by (force simp: map_of_eq_None_iff)
    then have "(t2 ! k)\<lparr>ie_index := 0\<rparr> = (grow_copy ot sz ! k)\<lparr>ie_index := 0\<rparr>"
      using e2 e1 places_other [of k mv t1] inmv by simp
    with None k copy(2,3) [of k] show ?thesis by (simp add: grown_def)
  next
    case (Some e)
    then have me: "(of_nat k, e) \<in> set L" by (rule map_of_SomeD)
    then have nk: "\<not> k < length ot" using L(2) uk by force
    have "(of_nat k, e) \<in> set mv" using me k uk by (simp add: mv)
    moreover have "distinct (map fst mv)" using L(1) by (simp add: mv distinct_map_filter)
    ultimately have "(foldl place t1 mv ! k)\<lparr>ie_index := 0\<rparr> = e\<lparr>ie_index := 0\<rparr>"
      using places_nth [of mv "of_nat k" e t1] uk k len by simp
    with e2 Some nk show ?thesis by (simp add: grown_def)
  qed
qed

lemma idx0_fields:
  assumes "e\<lparr>ie_index := 0\<rparr> = e'\<lparr>ie_index := 0\<rparr>"
  shows "ie_bits e = ie_bits e'" "ie_object e = ie_object e'" "ie_request e = ie_request e'"
  using assms by (cases e; cases e'; simp)+

lemma grown_entries:
  assumes t: "length t = sz" "\<And>k. k < sz \<Longrightarrow> ie_bits (t ! k) = ie_bits (grown (is_table space) (ist_list (is_tree space)) k)"
    "\<And>k. k < sz \<Longrightarrow> ie_bits (t ! k) \<noteq> 0 \<Longrightarrow>
      (t ! k)\<lparr>ie_index := 0\<rparr> = grown (is_table space) (ist_list (is_tree space)) k"
    and sz: "is_table_size space \<le> sz"
    and tree: "ist_list tree = filter (\<lambda>x. sz \<le> unat (fst x)) (ist_list (is_tree space))"
    and s': "is_table space' = t" "is_tree space' = tree"
  shows "entries space' = entries space"
proof
  fix n :: mach_port
  let ?k = "unat n" and ?L = "ist_list (is_tree space)"
  have mt: "ist_map tree n = (if sz \<le> ?k then map_of ?L n else None)"
    unfolding tree map_of_filter_keys [of "\<lambda>n. sz \<le> unat n"] by (simp add: restrict_map_def)
  show "entries space' n = entries space n"
  proof (cases "?k < sz")
    case False
    with sz mt show ?thesis by (simp add: entries_def raw_entry_def s' t(1))
  next
    case True
    have g: "(case raw_entry space n of None \<Rightarrow> zero_entry | Some e \<Rightarrow> e)\<lparr>ie_index := 0\<rparr> = grown (is_table space) ?L ?k"
      by (simp add: grown_def raw_entry_def)
    have b: "ie_bits (t ! ?k) = ie_bits (case raw_entry space n of None \<Rightarrow> zero_entry | Some e \<Rightarrow> e)"
      using t(2) [OF True] g by (metis ipc_entry.select_convs(1) ipc_entry.surjective ipc_entry.update_convs(4))
    show ?thesis
    proof (cases "ie_type (t ! ?k) = 0")
      case z: True
      with b True show ?thesis by (auto simp: entries_def raw_entry_def [of space'] s' t(1) split: option.splits)
    next
      case nz: False
      then have "ie_bits (t ! ?k) \<noteq> 0" by auto
      from t(3) [OF True this] g b nz True show ?thesis
        by (auto simp: entries_def raw_entry_def [of space'] s' t(1) zero_entry_def split: option.splits)
    qed
  qed
qed

lemma grow_relink:
  assumes tok: "table_ok ot {}" and t2: "length t2 = sz" "\<And>k. k < sz \<Longrightarrow> (t2 ! k)\<lparr>ie_index := 0\<rparr> = grown ot L k"
    and sz: "length ot \<le> sz" "sz < 2 ^ 32 - 1"
    and L: "\<forall>x \<in> set L. ie_type (snd x) \<noteq> 0 \<and> ie_bits (snd x) AND IE_BITS_COLLISION = 0"
  shows "\<exists>t3 f'. grow_link t2 (ie_next (t2 ! 0)) (rev [length ot..<sz]) = Some (t3, f') \<and> length t3 = sz \<and>
    table_ok (put_next t3 0 f') {} \<and>
    (\<forall>k < sz. t3 ! k = (t2 ! k)\<lparr>ie_request := ie_request (t3 ! k)\<rparr>) \<and>
    (\<forall>k < sz. ie_bits (t2 ! k) \<noteq> 0 \<longrightarrow> t3 ! k = t2 ! k)"
proof -
  let ?o = "length ot"
  obtain fl where fl: "free_chain ot 0 fl" "distinct fl" "set fl = free_set ot {}" and ne: "ot \<noteq> []"
    using tok by (auto simp: table_ok_def)
  have pos: "0 < ?o" using ne by simp
  then have geo: "?o \<le> k \<Longrightarrow> 0 < k" for k by linarith
  have old: "ie_bits (t2 ! k) = ie_bits (ot ! k)" "ie_object (t2 ! k) = ie_object (ot ! k)"
    "ie_request (t2 ! k) = ie_request (ot ! k)" if "k < ?o" for k
    using idx0_fields [OF t2(2) [of k, unfolded grown_def]] that sz by auto
  have chain: "free_chain t2 0 fl"
  proof -
    have "free_chain (take ?o t2) 0 fl"
      by (rule free_chain_cong [OF fl(1)]) (use t2(1) sz old pos free_chain_in_range [OF fl(1)] in auto)
    moreover have "free_chain (take ?o t2) i fl' \<Longrightarrow> i < ?o \<Longrightarrow> free_chain t2 i fl'" for i fl'
      by (induction fl' arbitrary: i) auto
    ultimately show ?thesis using pos by blast
  qed
  have range: "0 < k \<and> k < ?o" if "k \<in> set fl" for k using free_chain_in_range [OF fl(1) that] .
  from chain have hd: "case fl of [] \<Rightarrow> ie_next (t2 ! 0) = 0 | j # js \<Rightarrow> ie_next (t2 ! 0) = j \<and> free_chain t2 j js"
    by (cases fl) auto
  have "\<exists>t' f' fl'. grow_link t2 (ie_next (t2 ! 0)) (rev [?o..<sz]) = Some (t', f') \<and> length t' = length t2 \<and>
     (\<forall>k < length t2. t' ! k = (t2 ! k)\<lparr>ie_request := ie_request (t' ! k)\<rparr>) \<and>
     (\<forall>k < length t2. k \<notin> set (rev [?o..<sz]) \<or> ie_bits (t2 ! k) \<noteq> 0 \<longrightarrow> t' ! k = t2 ! k) \<and>
     fl' = rev (filter (\<lambda>i. ie_bits (t2 ! i) = 0) (rev [?o..<sz])) @ fl \<and>
     (case fl' of [] \<Rightarrow> f' = 0 | j # js \<Rightarrow> f' = j \<and> free_chain t' j js)"
  proof (rule grow_link_ok [OF _ _ _ hd])
    show "\<forall>i \<in> set (rev [?o..<sz]). 0 < i \<and> i < length t2 \<and> i \<notin> set fl"
    proof
      fix i assume "i \<in> set (rev [?o..<sz])"
      then have i: "?o \<le> i" "i < sz" by auto
      then have "0 < i" using pos by linarith
      moreover have "i \<notin> set fl" using range [of i] i by auto
      ultimately show "0 < i \<and> i < length t2 \<and> i \<notin> set fl" using i t2(1) by simp
    qed
    show "\<forall>i \<in> set fl. 0 < i \<and> i < length t2"
      unfolding t2(1) using range less_le_trans [OF _ sz(1)] by blast
  qed simp
  then obtain t3 f' fl' where l: "grow_link t2 (ie_next (t2 ! 0)) (rev [?o..<sz]) = Some (t3, f')" "length t3 = sz"
     "\<forall>k < sz. t3 ! k = (t2 ! k)\<lparr>ie_request := ie_request (t3 ! k)\<rparr>"
     "\<forall>k < sz. k \<notin> set (rev [?o..<sz]) \<or> ie_bits (t2 ! k) \<noteq> 0 \<longrightarrow> t3 ! k = t2 ! k"
     and fl0: "fl' = rev (filter (\<lambda>i. ie_bits (t2 ! i) = 0) (rev [?o..<sz])) @ fl"
     and f': "case fl' of [] \<Rightarrow> f' = 0 | j # js \<Rightarrow> f' = j \<and> free_chain t3 j js"
    unfolding t2(1) by blast
  have fl': "fl' = filter (\<lambda>i. ie_bits (t2 ! i) = 0) [?o..<sz] @ fl"
    "case fl' of [] \<Rightarrow> f' = 0 | j # js \<Rightarrow> f' = j \<and> free_chain t3 j js" using fl0 f' by (simp_all add: rev_filter)
  let ?t = "put_next t3 0 f'"
  have in_fl': "0 < k \<and> k < sz" if "k \<in> set fl'" for k using that range [of k] sz geo [of k] by (auto simp: fl'(1))
  have bits: "ie_bits (?t ! k) = ie_bits (t2 ! k)" "ie_object (?t ! k) = ie_object (t2 ! k)" if "k < sz" for k
  proof -
    have "t3 ! k = (t2 ! k)\<lparr>ie_request := ie_request (t3 ! k)\<rparr>" using l(3) that by blast
    then have "ie_bits (t3 ! k) = ie_bits ((t2 ! k)\<lparr>ie_request := ie_request (t3 ! k)\<rparr>)"
      "ie_object (t3 ! k) = ie_object ((t2 ! k)\<lparr>ie_request := ie_request (t3 ! k)\<rparr>)" by (rule arg_cong)+
    then show "ie_bits (?t ! k) = ie_bits (t2 ! k)" "ie_object (?t ! k) = ie_object (t2 ! k)" by simp_all
  qed
  have t3: "0 < length t3" using geo [OF sz(1)] l(2) by simp
  have c: "free_chain ?t 0 fl'"
  proof (cases fl')
    case Nil
    with fl'(2) t3 show ?thesis by simp
  next
    case (Cons j js)
    then have "free_chain t3 j js" using fl'(2) by simp
    then have "free_chain ?t j js"
      by (rule free_chain_cong) (use Cons in_fl' l(2) in auto)
    with Cons fl'(2) in_fl' [of j] l(2) t3 show ?thesis by simp
  qed
  have new: "ie_type (t2 ! k) = 0 \<longleftrightarrow> ie_bits (t2 ! k) = 0" "ie_bits (t2 ! k) AND IE_BITS_COLLISION = 0"
    "ie_type (t2 ! k) = 0 \<longrightarrow> ie_object (t2 ! k) = IO_NULL" if "k < sz" for k
  proof -
    have "(ie_type (t2 ! k) = 0 \<longleftrightarrow> ie_bits (t2 ! k) = 0) \<and> ie_bits (t2 ! k) AND IE_BITS_COLLISION = 0 \<and>
      (ie_type (t2 ! k) = 0 \<longrightarrow> ie_object (t2 ! k) = IO_NULL)"
    proof (cases "k < ?o")
      case True
      with old [OF True] tok show ?thesis by (auto simp: table_ok_def)
    next
      case False
      let ?e = "case map_of L (of_nat k) of None \<Rightarrow> zero_entry | Some e \<Rightarrow> e"
      have e: "ie_bits (t2 ! k) = ie_bits ?e" "ie_object (t2 ! k) = ie_object ?e"
        using idx0_fields [OF t2(2) [OF that, unfolded grown_def]] False by auto
      show ?thesis unfolding e
        using L by (cases "map_of L (of_nat k)") (auto simp: zero_entry_def dest!: map_of_SomeD)
    qed
    then show "ie_type (t2 ! k) = 0 \<longleftrightarrow> ie_bits (t2 ! k) = 0" "ie_bits (t2 ! k) AND IE_BITS_COLLISION = 0"
    "ie_type (t2 ! k) = 0 \<longrightarrow> ie_object (t2 ! k) = IO_NULL" by blast+
  qed
  have "i \<in> set fl' \<longleftrightarrow> i \<in> free_set ?t {}" for i
  proof (cases "i < ?o")
    case True
    with old [OF True] bits [of i] sz l(2) show ?thesis by (auto simp: fl'(1) fl(3) free_set_def)
  next
    case False
    with range [of i] bits [of i] new(1) [of i] geo [of i] l(2) show ?thesis by (auto simp: fl'(1) free_set_def)
  qed
  then have "set fl' = free_set ?t {}" by blast
  moreover have "distinct fl'" using fl(2) by (auto simp: fl'(1) dest: range)
  moreover have "ie_type (t2 ! 0) = 0" using old(1) [OF pos] tok by (simp add: table_ok_def)
  moreover have "?t \<noteq> []" using t3 by (metis length_greater_0_conv length_put_next)
  ultimately have "table_ok ?t {}"
    unfolding table_ok_def using c bits new sz(2) t3 l(2) by (auto simp del: put_next_nth)
  with l show ?thesis by blast
qed

definition send_names :: "ipc_space \<Rightarrow> mach_port set" where
  "send_names space = {n. \<exists>e. entries space n = Some e \<and> ie_type e = MACH_PORT_TYPE_SEND}"

lemma TYPE_SEND_nz: "MACH_PORT_TYPE_SEND \<noteq> 0"
  by (simp add: MACH_PORT_TYPE_SEND_def MACH_PORT_TYPE_def MACH_PORT_RIGHT_SEND_def)

lemma entries_Some:
  assumes "entries space n = Some e"
  shows "\<exists>e'. raw_entry space n = Some e' \<and> ie_type e' \<noteq> 0 \<and> e = e'\<lparr>ie_index := 0\<rparr>"
  using assms by (auto simp: entries_def split: option.splits if_splits)

lemma obj_of_entries: "entries space n = Some e \<Longrightarrow> obj_of space n = ie_object e"
  by (auto simp: obj_of_def dest!: entries_Some)

lemma send_names_raw:
  "n \<in> send_names space \<longleftrightarrow> (\<exists>e. raw_entry space n = Some e \<and> ie_type e = MACH_PORT_TYPE_SEND)"
  using TYPE_SEND_nz by (auto simp: send_names_def entries_def split: option.splits)

lemma send_names_table:
  "unat n < is_table_size space \<Longrightarrow> n \<in> send_names space \<longleftrightarrow> ie_type (is_table space ! unat n) = MACH_PORT_TYPE_SEND"
  by (simp add: send_names_raw raw_entry_def)

lemma send_names_tree:
  assumes "space_ok its space R" and "x \<in> set (ist_list (is_tree space))"
  shows "fst x \<in> send_names space \<longleftrightarrow> is_send x"
proof -
  have "ist_map (is_tree space) (fst x) = Some (snd x)"
    using assms(2) ist_ok_distinct [OF space_okD(1) [OF assms(1)]] by simp
  with space_tree_range [OF assms] show ?thesis by (simp add: send_names_raw raw_entry_def is_send_def)
qed

lemma grow_sizes:
  assumes "space_ok its space R" and "Suc (is_table_next space) < length its"
    and "its ! (is_table_next space - 1) \<noteq> its ! is_table_next space"
  shows "is_table_size space = its ! (is_table_next space - 1)" "0 < is_table_size space"
    "its ! (is_table_next space - 1) < its ! is_table_next space"
    "its ! is_table_next space \<le> its ! Suc (is_table_next space)" "its ! Suc (is_table_next space) < 2 ^ 32 - 1"
proof -
  let ?n = "is_table_next space"
  have its: "its_ok its" and n: "0 < ?n" "?n < length its" and sz: "is_table_size space = its ! (?n - 1)"
    using assms(1) by (auto simp: space_ok_def)
  show "is_table_size space = its ! (?n - 1)" by (rule sz)
  show "0 < is_table_size space" using space_okD(4) [OF assms(1)] by simp
  have so: "its ! i < its ! j" if "i < j" "j < length its - 1" for i j
    using its that by (auto simp: its_ok_def sorted_wrt_iff_nth_less nth_butlast)
  have la: "its ! (length its - 1) = its ! (length its - 2)" using its by (simp add: its_ok_def)
  show "its ! (?n - 1) < its ! ?n" using so [of "?n - 1" ?n] n assms(2) by auto
  show "its ! ?n \<le> its ! Suc ?n"
  proof (cases "Suc ?n < length its - 1")
    case True
    then show ?thesis using so [of ?n "Suc ?n"] by simp
  next
    case False
    then have "Suc ?n = length its - 1" "?n = length its - 2" using assms(2) by auto
    with la show ?thesis by simp
  qed
  show "its ! Suc ?n < 2 ^ 32 - 1" using its assms(2) by (auto simp: its_ok_def list_all_length)
qed

text \<open>The state before the tree is moved: the rehashed copy of the table.\<close>

lemma grow_rehash_install:
  assumes ok: "space_ok its space {}" and inv: "hash_inv space g (send_names space)" and sz: "is_table_size space \<le> sz"
  shows "\<exists>t. grow_rehash (grow_copy (is_table space) sz) [0..<is_table_size space] = Some t \<and>
    same_entries (grow_copy (is_table space) sz) t \<and> hash_ok t (local_names space (send_names space))"
proof -
  let ?t = "grow_copy (is_table space) sz" and ?o = "is_table_size space"
  note copy = grow_copy_nth [OF sz]
  have S: "set [0..<?o] \<inter> send_slots ?t = local_names space (send_names space)"
  proof -
    have "i \<in> send_slots ?t \<longleftrightarrow> i \<in> local_names space (send_names space)" if "i < ?o" for i
    proof -
      have "unat (of_nat i :: mach_port) = i" using that hash_invD(3) [OF inv] by (simp add: unat_of_nat)
      then show ?thesis using that sz copy(1) copy(2) [OF that] send_names_table [of "of_nat i" space]
        by (simp add: send_slots_def local_names_def)
    qed
    moreover have "local_names space (send_names space) \<subseteq> {..<?o}" by (auto simp: local_names_def)
    ultimately show ?thesis by auto
  qed
  have h: "slots_ok (is_table space) (local_names space (send_names space))"
    using hash_okD(1) [OF hash_invD(4) [OF inv]] .
  have "ie_object (?t ! i) = ie_object (is_table space ! i)" if "i \<in> local_names space (send_names space)" for i
    using copy(2) [of i] that by (auto simp: local_names_def)
  then have "slots_ok ?t (local_names space (send_names space))"
    using h sz copy(1) by (auto simp: slots_ok_def)
  moreover have "set [0..<?o] \<subseteq> {..<length ?t}" using sz copy(1) by auto
  ultimately show ?thesis using grow_rehash_ok [OF grow_copy_hash [OF sz], of "[0..<?o]"] S by auto
qed

text \<open>The state after the entries have moved, whether or not there is a tree.\<close>

lemma grow_tree_install:
  fixes space :: ipc_space
  defines "H \<equiv> send_names space" and "L \<equiv> ist_list (is_tree space)"
  assumes ok: "space_ok its space {}" and inv: "hash_inv space g (send_names space)"
    and sizes: "0 < osize" "is_table_size space = osize" "osize < sz" "sz \<le> nsize" "nsize < 2 ^ 32 - 1" 
    and its: "its ! is_table_next space = sz"
    and t1: "same_entries (grow_copy (is_table space) sz) t1" "hash_ok t1 (local_names space H)"
    and mv: "mv = filter (\<lambda>x. unat (fst x) < sz) L"
    and s1: "s1 = space\<lparr>is_table := t1, is_table_next := is_table_next space + 1\<rparr>"
  shows "\<exists>t g' tree.
     (if 0 < is_tree_total s1 then grow_tree osize sz nsize (s1, g) else Some (s1, g)) =
      Some ((move_state s1 t (length (filter is_send mv)) (length mv))
        \<lparr>is_tree := tree, is_tree_small := length (filter (\<lambda>x. sz \<le> unat (fst x) \<and> unat (fst x) < nsize) L)\<rparr>, g') \<and>
     ist_ok tree \<and> ist_list tree = filter (\<lambda>x. sz \<le> unat (fst x)) L \<and>
     same_entries (foldl place t1 mv) t \<and> hash_ok t (local_names space H \<union> send_set mv) \<and> glob_ok g' \<and>
     glob_refs g' = glob_refs g - ref_of space ` {x \<in> set mv. is_send x}"
proof (cases "is_tree_total space = 0")
  case True
  then have L: "L = []" using space_okD(3) [OF ok] by (simp add: L_def)
  have "is_tree_small space = 0" using ok L by (simp add: space_ok_def tree_ok_def L_def)
  then have "(move_state s1 t1 0 0)\<lparr>is_tree := is_tree space, is_tree_small := 0\<rparr> = s1"
    by (simp add: s1 move_state_def)
  with True L mv s1 t1(2) space_okD(1) [OF ok] hash_invD(2) [OF inv] show ?thesis
    by (intro exI [of _ t1] exI [of _ g] exI [of _ "is_tree space"]) (simp add: send_set_def flip: L_def)
next
  case False
  note copy = grow_copy_nth [of "is_table space" sz]
  have len: "length t1 = sz" using same_entries_length [OF t1(1)] copy(1) sizes by simp
  have rng: "\<forall>x \<in> set L. osize \<le> unat (fst x)" using space_tree_range [OF ok] sizes(2) by (auto simp: L_def)
  have lst: "ist_map (is_tree space) (fst x) = Some (snd x)" if "x \<in> set L" for x
    using that ist_ok_distinct [OF space_okD(1) [OF ok]] by (simp add: L_def)
  have raw: "raw_entry space (fst x) = Some (snd x)" if "x \<in> set L" for x
    using lst [OF that] rng that sizes(2) by (auto simp: raw_entry_def)
  have obj: "obj_of space (fst x) = ie_object (snd x)" if "x \<in> set L" for x using raw [OF that] by (simp add: obj_of_def)
  have HL: "fst x \<in> H \<longleftrightarrow> is_send x" if "x \<in> set L" for x
    unfolding H_def using send_names_tree [OF ok] that by (simp add: L_def)
  have objt: "ie_object (t1 ! j) = obj_of space (of_nat j)" "of_nat j \<in> H" "j < osize" "unat (of_nat j :: mach_port) = j"
    if "j \<in> local_names space H" for j
  proof -
    note lo = local_names_obj [OF inv [folded H_def] that]
    show "of_nat j \<in> H" "j < osize" "unat (of_nat j :: mach_port) = j" using lo sizes(2) by auto
    have "ie_object (t1 ! j) = ie_object (grow_copy (is_table space) sz ! j)"
      by (rule same_entries_nth(2) [OF t1(1)]) (use lo sizes copy(1) in simp)
    then show "ie_object (t1 ! j) = obj_of space (of_nat j)" using lo copy(2) [of j] sizes by simp
  qed
  have mvL: "x \<in> set L" if "x \<in> set mv" for x using that by (simp add: mv)
  have "movable osize sz s1 g (local_names space H) mv"
    unfolding movable_def
  proof (intro conjI ballI impI)
    show "is_table_size s1 = sz" "0 < osize" using len sizes by (simp_all add: s1)
    show "is_self s1 \<noteq> IS_NULL" using hash_invD(1) [OF inv] by (simp add: s1)
    show "distinct (map fst mv)"
      using ist_ok_distinct [OF space_okD(1) [OF ok]] by (simp add: mv L_def distinct_map_filter)
    have "length (filter is_send mv) \<le> length (filter is_send L)"
      unfolding mv filter_filter by (simp add: conj_commute length_filter_conj)
    also have "filter is_send L = filter (\<lambda>x. fst x \<in> H) L" using HL by (auto intro: filter_cong)
    finally show "length (filter is_send mv) \<le> is_tree_hash s1"
      using hash_invD(6) [OF inv] by (simp add: s1 H_def L_def)
  next
    fix x assume x: "x \<in> set mv"
    show r: "osize \<le> unat (fst x)" "unat (fst x) < sz" using rng x by (auto simp: mv)
    then show "unat (fst x) \<notin> local_names space H" using sizes(2) by (auto simp: local_names_def)
    show "ie_bits (is_table s1 ! unat (fst x)) = 0"
      using same_entries_nth(1) [OF t1(1), of "unat (fst x)"] copy(1) copy(3) [of "unat (fst x)"] r sizes
      by (simp add: s1 zero_entry_def)
    show "ie_type (snd x) \<noteq> 0" using tree_entryD(3) [OF ok lst [OF mvL [OF x]]] by auto
  next
    fix x assume x: "x \<in> set mv" "is_send x"
    then have xH: "fst x \<in> H" using HL mvL by blast
    show "ie_object (snd x) \<noteq> IO_NULL" using hash_inv_entry(2) [OF inv, of "fst x"] xH obj mvL [OF x(1)] by (simp add: H_def)
    have "ref_of space x \<in> tree_refs space H" unfolding tree_refs_def using xH mvL [OF x(1)] by (auto simp: L_def)
    then show "ref_of s1 x \<in> glob_refs g" using hash_invD(5) [OF inv] by (auto simp: s1 H_def)
    show "ie_object (is_table s1 ! j) \<noteq> ie_object (snd x)" if j: "j \<in> local_names space H" for j
    proof
      assume "ie_object (is_table s1 ! j) = ie_object (snd x)"
      then have "obj_of space (of_nat j) = obj_of space (fst x)" using objt(1) [OF j] obj [OF mvL [OF x(1)]] by (simp add: s1)
      then have "of_nat j = fst x" using inj_onD [OF hash_invD(7) [OF inv [folded H_def]]] objt(2) [OF j] xH by blast
      then show False using objt(3,4) [OF j] rng mvL [OF x(1)] by force
    qed
    show "x = y" if y: "y \<in> set mv" "is_send y" "ie_object (snd x) = ie_object (snd y)" for y
    proof -
      have "obj_of space (fst x) = obj_of space (fst y)" using obj [OF mvL [OF x(1)]] obj [OF mvL [OF y(1)]] y(3) by simp
      moreover have "fst y \<in> H" using HL mvL y by blast
      ultimately have "fst x = fst y" using inj_onD [OF hash_invD(7) [OF inv [folded H_def]]] xH by blast
      then show ?thesis using lst [OF mvL [OF x(1)]] lst [OF mvL [OF y(1)]] by (simp add: prod_eq_iff)
    qed
  qed
  moreover have "local_names space H \<subseteq> {..<sz}" using sizes by (auto simp: local_names_def)
  ultimately show ?thesis
    using grow_tree_ok [of s1 L osize sz nsize mv g "local_names space H"] space_okD(1,3) [OF ok] rng sizes mv t1(2)
      hash_invD(2) [OF inv] False
    by (simp add: s1 L_def)
qed

lemma grown_local_names:
  assumes ok: "space_ok its space {}" and sz: "is_table_size space \<le> sz" "sz < 2 ^ 32 - 1"
    and mv: "mv = filter (\<lambda>x. unat (fst x) < sz) (ist_list (is_tree space))" and s': "is_table_size space' = sz"
  shows "local_names space' (send_names space) = local_names space (send_names space) \<union> send_set mv"
proof -
  have "i \<in> local_names space' (send_names space) \<longleftrightarrow> i \<in> local_names space (send_names space) \<union> send_set mv" for i
  proof (cases "i < is_table_size space")
    case True
    then have "i \<notin> send_set mv" using space_tree_range [OF ok] by (fastforce simp: send_set_def mv)
    with True sz s' show ?thesis by (auto simp: local_names_def)
  next
    case False
    have "i \<in> send_set mv \<longleftrightarrow> i < sz \<and> of_nat i \<in> send_names space"
    proof
      assume "i \<in> send_set mv"
      then obtain x where "x \<in> set (ist_list (is_tree space))" "unat (fst x) < sz" "is_send x" "i = unat (fst x)"
        by (auto simp: send_set_def mv)
      then show "i < sz \<and> of_nat i \<in> send_names space" using send_names_tree [OF ok] by simp
    next
      assume i: "i < sz \<and> of_nat i \<in> send_names space"
      then have u: "unat (of_nat i :: mach_port) = i" using sz(2) by (intro unat_of_nat_bound) simp
      from i obtain e where e: "raw_entry space (of_nat i) = Some e" "ie_type e = MACH_PORT_TYPE_SEND"
        by (auto simp: send_names_raw)
      then have "(of_nat i, e) \<in> set (ist_list (is_tree space))"
        using False u by (auto simp: raw_entry_def dest: map_of_SomeD)
      then have "(of_nat i, e) \<in> {x \<in> set mv. is_send x}" using i u e by (simp add: mv is_send_def)
      then have "unat (fst (of_nat i :: mach_port, e)) \<in> send_set mv" unfolding send_set_def by (intro imageI)
      then show "i \<in> send_set mv" using u by simp
    qed
    with False s' show ?thesis by (auto simp: local_names_def)
  qed
  then show ?thesis by blast
qed

lemma length_filter_parts:
  "length (filter P xs) = length (filter P (filter Q xs)) + length (filter P (filter (\<lambda>x. \<not> Q x) xs))"
  by (induction xs) auto

lemma grown_space_ok:
  assumes ok: "space_ok its space {}" and nx: "Suc (is_table_next space) < length its"
    and sz: "sz = its ! is_table_next space"
    and tok: "table_ok (is_table s') {}" "is_table_size s' = sz"
    and tree: "ist_ok (is_tree s')" "ist_list (is_tree s') = filter (\<lambda>x. sz \<le> unat (fst x)) (ist_list (is_tree space))"
    and tot: "is_tree_total s' = is_tree_total space - length (filter (\<lambda>x. unat (fst x) < sz) (ist_list (is_tree space)))"
    and small: "is_tree_small s' =
      length (filter (\<lambda>x. sz \<le> unat (fst x) \<and> unat (fst x) < its ! Suc (is_table_next space)) (ist_list (is_tree space)))"
    and nxt: "is_table_next s' = Suc (is_table_next space)"
  shows "space_ok its s' {}"
proof -
  have "is_tree_total s' = length (ist_list (is_tree s'))"
    using tot space_okD(3) [OF ok] sum_length_filter_compl [of "\<lambda>x. unat (fst x) < sz" "ist_list (is_tree space)"]
    by (simp add: tree(2) not_less)
  moreover have "is_tree_small s' = length (filter (\<lambda>x. unat (fst x) < its ! Suc (is_table_next space)) (ist_list (is_tree s')))"
    unfolding small tree(2) filter_filter by (simp add: conj_commute)
  ultimately show ?thesis
    using ok nx tok tree sz nxt unfolding space_ok_def tree_ok_def by auto
qed

lemma grown_hash_inv:
  assumes ok: "space_ok its space {}" and inv: "hash_inv space g (send_names space)"
    and sz: "is_table_size space \<le> sz" "sz < 2 ^ 32 - 1"
    and mv: "mv = filter (\<lambda>x. unat (fst x) < sz) (ist_list (is_tree space))"
    and s': "is_table_size s' = sz" "is_self s' = is_self space" "entries s' = entries space"
      "ist_list (is_tree s') = filter (\<lambda>x. sz \<le> unat (fst x)) (ist_list (is_tree space))"
      "is_tree_hash s' = is_tree_hash space - length (filter is_send mv)"
    and hash: "hash_ok (is_table s') (local_names space (send_names space) \<union> send_set mv)"
    and g': "glob_ok g'" "glob_refs g' = glob_refs g - ref_of space ` {x \<in> set mv. is_send x}"
  shows "hash_inv s' g' (send_names s')"
proof -
  let ?L = "ist_list (is_tree space)" and ?H = "send_names space"
  have H: "send_names s' = ?H" by (simp add: send_names_def s'(3))
  have raw: "\<exists>e. raw_entry s' n = Some e" "obj_of s' n = obj_of space n" if n: "n \<in> ?H" for n
  proof -
    obtain e where e: "entries space n = Some e" using n by (auto simp: send_names_def)
    then have e': "entries s' n = Some e" by (simp add: s'(3))
    show "\<exists>e. raw_entry s' n = Some e" using entries_Some [OF e'] by blast
    show "obj_of s' n = obj_of space n" using obj_of_entries [OF e] obj_of_entries [OF e'] by simp
  qed
  have HL: "fst x \<in> ?H \<longleftrightarrow> is_send x" if "x \<in> set ?L" for x using send_names_tree [OF ok that] .
  then have fs: "filter (\<lambda>x. fst x \<in> ?H) (filter P ?L) = filter is_send (filter P ?L)" for P by (auto intro: filter_cong)
  have "length (filter is_send ?L) = length (filter is_send mv) + length (filter is_send (filter (\<lambda>x. sz \<le> unat (fst x)) ?L))"
    using length_filter_parts [of is_send ?L "\<lambda>x. unat (fst x) < sz"] by (simp add: mv not_less)
  moreover have "is_tree_hash space = length (filter is_send ?L)"
    using hash_invD(6) [OF inv] fs [of "\<lambda>_. True"] by simp
  ultimately have th: "is_tree_hash s' = length (filter (\<lambda>x. fst x \<in> ?H) (ist_list (is_tree s')))"
    unfolding s'(4,5) fs by simp
  have "ref_of space ` {x \<in> set mv. is_send x} \<subseteq> {r. tr_space r = is_self space}" by auto
  then have "{r \<in> glob_refs g'. tr_space r = is_self space} = tree_refs space ?H - ref_of space ` {x \<in> set mv. is_send x}"
    unfolding g'(2) using hash_invD(5) [OF inv] by auto
  also have "\<dots> = tree_refs s' ?H"
  proof -
    let ?A = "{x \<in> set ?L. fst x \<in> ?H}" and ?B = "{x \<in> set mv. is_send x}"
    have BA: "?B \<subseteq> ?A" using HL by (auto simp: mv)
    have "inj_on fst (set ?L)" using ist_ok_distinct [OF space_okD(1) [OF ok]] by (simp add: distinct_map)
    then have "inj_on (ref_of space) ?A" unfolding inj_on_def mkref_inject by auto
    then have "ref_of space ` ?A - ref_of space ` ?B = ref_of space ` (?A - ?B)"
      using BA by (simp add: inj_on_image_set_diff)
    moreover have "?A - ?B = {x \<in> set (ist_list (is_tree s')). fst x \<in> ?H}"
      using HL by (auto simp: mv s'(4))
    ultimately show ?thesis by (simp add: tree_refs_def s'(2))
  qed
  finally have refs: "{r \<in> glob_refs g'. tr_space r = is_self s'} = tree_refs s' ?H" by (simp add: s'(2))
  have "inj_on (obj_of s') ?H" using hash_invD(7) [OF inv] raw(2) by (simp add: inj_on_def)
  moreover have "\<forall>n \<in> ?H. obj_of s' n \<noteq> IO_NULL" using hash_inv_entry(2) [OF inv] raw(2) by simp
  moreover have "?H \<subseteq> dom (raw_entry s')" using raw(1) by blast
  moreover have "hash_ok (is_table s') (local_names s' ?H)"
    using hash grown_local_names [OF ok sz mv s'(1)] by simp
  ultimately show ?thesis
    unfolding hash_inv_def H using hash_invD(1) [OF inv] g'(1) sz(2) s'(1,2) th refs by simp
qed

lemma grow_install_ok:
  assumes ok: "space_ok its space {}" and inv: "hash_inv space g (send_names space)"
    and nx: "Suc (is_table_next space) < length its"
    and sz: "osize = its ! (is_table_next space - 1)" "sz = its ! is_table_next space" "nsize = its ! Suc (is_table_next space)"
    and ne: "osize \<noteq> sz"
  shows "\<exists>space' g'. grow_install osize sz nsize (space, g) = Some (space', g') \<and>
    space_ok its space' {} \<and> entries space' = entries space \<and> hash_inv space' g' (send_names space') \<and>
    other_refs space g' = other_refs space g \<and> is_table_next space' = Suc (is_table_next space) \<and>
    is_active space' = is_active space \<and> is_self space' = is_self space \<and> is_growing space' = is_growing space \<and>
    is_references space' = is_references space"
proof -
  let ?L = "ist_list (is_tree space)" and ?H = "send_names space"
  note szs = grow_sizes [OF ok nx ne [unfolded sz(1,2)], folded sz]
  have b: "sz < 2 ^ 32 - 1" using szs by linarith
  have le: "is_table_size space \<le> sz" using szs by simp
  obtain t1 where t1: "grow_rehash (grow_copy (is_table space) sz) [0..<osize] = Some t1"
    "same_entries (grow_copy (is_table space) sz) t1" "hash_ok t1 (local_names space ?H)"
    using grow_rehash_install [OF ok inv le] szs(1) by auto
  define mv where "mv = filter (\<lambda>x. unat (fst x) < sz) ?L"
  define s1 where "s1 = space\<lparr>is_table := t1, is_table_next := is_table_next space + 1\<rparr>"
  let ?small = "length (filter (\<lambda>x. sz \<le> unat (fst x) \<and> unat (fst x) < nsize) ?L)"
  obtain t2 g' tree where gt: "(if 0 < is_tree_total s1 then grow_tree osize sz nsize (s1, g) else Some (s1, g)) =
      Some ((move_state s1 t2 (length (filter is_send mv)) (length mv))\<lparr>is_tree := tree, is_tree_small := ?small\<rparr>, g')"
    and tree: "ist_ok tree" "ist_list tree = filter (\<lambda>x. sz \<le> unat (fst x)) ?L"
    and t2: "same_entries (foldl place t1 mv) t2" "hash_ok t2 (local_names space ?H \<union> send_set mv)"
    and g': "glob_ok g'" "glob_refs g' = glob_refs g - ref_of space ` {x \<in> set mv. is_send x}"
    using grow_tree_install [OF ok inv _ szs(1,3,4,5) sz(2) [symmetric] t1(2,3) mv_def s1_def] szs(1,2) by auto
  define s2 where "s2 = (move_state s1 t2 (length (filter is_send mv)) (length mv))\<lparr>is_tree := tree, is_tree_small := ?small\<rparr>"
  have len: "length t2 = sz"
    using same_entries_length [OF t2(1)] same_entries_length [OF t1(2)] grow_copy_nth(1) [OF le] by simp
  have rng: "\<forall>x \<in> set ?L. is_table_size space \<le> unat (fst x)" using space_tree_range [OF ok] by blast
  have gr: "(t2 ! k)\<lparr>ie_index := 0\<rparr> = grown (is_table space) ?L k" if "k < sz" for k
    by (rule grown_nth [OF t1(2) mv_def t2(1) le b ist_ok_distinct [OF space_okD(1) [OF ok]] rng that])
  have types: "\<forall>x \<in> set ?L. ie_type (snd x) \<noteq> 0 \<and> ie_bits (snd x) AND IE_BITS_COLLISION = 0"
    using ok by (auto simp: space_ok_def tree_ok_def)
  have tok: "table_ok (is_table space) {}" using space_okD(2) [OF ok] by simp
  obtain t3 f where t3: "grow_link t2 (ie_next (t2 ! 0)) (rev [osize..<sz]) = Some (t3, f)" "length t3 = sz"
    "table_ok (put_next t3 0 f) {}" "\<forall>k < sz. t3 ! k = (t2 ! k)\<lparr>ie_request := ie_request (t3 ! k)\<rparr>"
    "\<forall>k < sz. ie_bits (t2 ! k) \<noteq> 0 \<longrightarrow> t3 ! k = t2 ! k"
    using grow_relink [OF tok len gr le b types] szs(1) by auto
  let ?t = "put_next t3 0 f"
  define s' where "s' = s2\<lparr>is_table := ?t\<rparr>"
  have pos: "0 < sz" using szs by linarith
  have run: "grow_install osize sz nsize (space, g) = Some (s', g')"
  proof -
    have "grow_install osize sz nsize (space, g) =
      do { (space, g) \<leftarrow> (if 0 < is_tree_total s1 then grow_tree osize sz nsize (s1, g) else Some (s1, g));
           let table = is_table space;
           head \<leftarrow> arr_get table 0;
           (table, free_index) \<leftarrow> grow_link table (ie_next head) (rev [osize..<sz]);
           head \<leftarrow> arr_get table 0;
           table \<leftarrow> arr_set table 0 (head\<lparr>ie_request := free_index\<rparr>);
           Some (space\<lparr>is_table := table\<rparr>, g) }"
      by (simp add: grow_install_def t1(1) Let_def s1_def)
    then show ?thesis unfolding gt using t3(1,2) len pos
      by (simp add: s'_def s2_def s1_def move_state_def put_next_def)
  qed
  have fields: "is_table s' = ?t" "is_tree s' = tree" "is_tree_small s' = ?small"
    "is_tree_total s' = is_tree_total space - length mv"
    "is_tree_hash s' = is_tree_hash space - length (filter is_send mv)" "is_table_next s' = Suc (is_table_next space)"
    "is_active s' = is_active space" "is_self s' = is_self space" "is_growing s' = is_growing space"
    "is_references s' = is_references space"
    by (simp_all add: s'_def s2_def s1_def move_state_def)
  have t3f: "ie_bits (t3 ! k) = ie_bits (t2 ! k)" "ie_object (t3 ! k) = ie_object (t2 ! k)"
    "ie_index (t3 ! k) = ie_index (t2 ! k)" if "k < sz" for k
    using t3(4) [rule_format, OF that] by (metis ipc_entry.select_convs ipc_entry.surjective ipc_entry.update_convs(3))+
  have z: "ie_bits (t2 ! 0) = 0"
    using idx0_fields(1) [OF gr [OF pos, unfolded grown_def]] szs(2) tok by (auto simp: table_ok_def split: if_splits)
  have ents: "entries s' = entries space"
  proof (rule grown_entries [of ?t sz space, OF _ _ _ le tree(2) fields(1,2)])
    show "length ?t = sz" using t3(2) by simp
    show "ie_bits (?t ! k) = ie_bits (grown (is_table space) ?L k)" if "k < sz" for k
      using t3f(1) [OF that] gr [OF that] by (metis ipc_entry.select_convs(1) ipc_entry.surjective ipc_entry.update_convs(4) put_next_nth(1))
    show "(?t ! k)\<lparr>ie_index := 0\<rparr> = grown (is_table space) ?L k" if "k < sz" "ie_bits (?t ! k) \<noteq> 0" for k
    proof -
      have nz: "ie_bits (t2 ! k) \<noteq> 0" using that t3f(1) by simp
      then have "k \<noteq> 0" using z by metis
      then have "?t ! k = t2 ! k" using t3(5) nz that(1) by (simp add: put_next_def)
      with gr [OF that(1)] show ?thesis by simp
    qed
  qed
  have "space_ok its s' {}"
    by (rule grown_space_ok [OF ok nx sz(2)])
      (use t3(2,3) tree in \<open>simp_all add: fields mv_def sz(3)\<close>)
  moreover have "hash_ok ?t (local_names space ?H \<union> send_set mv)"
    by (rule hash_ok_cong [OF t2(2)]) (use t3(2) t3f len hash_okD(1) [OF t2(2)] in \<open>auto simp: slots_ok_def\<close>)
  then have "hash_inv s' g' (send_names s')"
    by (intro grown_hash_inv [OF ok inv le b mv_def _ fields(8) ents _ fields(5) _ g'])
      (use t3(2) tree in \<open>simp_all add: fields\<close>)
  moreover have "other_refs space g' = other_refs space g" unfolding g'(2) by auto
  ultimately show ?thesis using run fields ents by blast
qed

end
