(* ===== verification/Ipc_Entry_Alloc.thy ===== *)
theory Ipc_Entry_Alloc
  imports Ipc_Entry_Grow
begin

text \<open>
  The loops around the growth of the table: \<^verbatim>\<open>ipc_entry_grow_table\<close> with other threads running
  while the lock is dropped, and the allocation of a free or of a given name without interference.
  The properties of the entry layer are stated here.
\<close>

subsection \<open>Growing the table with other threads running\<close>

definition ipc_inv :: "nat list \<Rightarrow> ipc_state \<Rightarrow> bool" where
  "ipc_inv its st \<longleftrightarrow>
     (is_active (fst st) \<longrightarrow> space_ok its (fst st) {} \<and> hash_inv (fst st) (snd st) (send_names (fst st)))"

definition rely :: "nat list \<Rightarrow> ipc_state \<Rightarrow> ipc_state \<Rightarrow> bool" where
  "rely its st st' \<longleftrightarrow>
     (ipc_inv its st \<longrightarrow> ipc_inv its st') \<and>
     (is_active (fst st') \<longrightarrow> is_active (fst st) \<and> is_table_next (fst st) \<le> is_table_next (fst st')) \<and>
     (is_growing (fst st) \<and> is_active (fst st') \<longrightarrow>
        is_table_next (fst st') = is_table_next (fst st) \<and> is_table_size (fst st') = is_table_size (fst st))"

lemma same_growing: "ist_ok (is_tree space) \<Longrightarrow> space_ok its (space\<lparr>is_growing := b\<rparr>) R = space_ok its space R"
  "raw_entry (space\<lparr>is_growing := b\<rparr>) = raw_entry space"
  "entries (space\<lparr>is_growing := b\<rparr>) = entries space" "send_names (space\<lparr>is_growing := b\<rparr>) = send_names space"
  "hash_inv (space\<lparr>is_growing := b\<rparr>) g H = hash_inv space g H"
proof -
  show raw: "raw_entry (space\<lparr>is_growing := b\<rparr>) = raw_entry space" by (simp add: fun_eq_iff raw_entry_def)
  show ents: "entries (space\<lparr>is_growing := b\<rparr>) = entries space" by (simp add: fun_eq_iff entries_def raw)
  then show "send_names (space\<lparr>is_growing := b\<rparr>) = send_names space" by (simp add: send_names_def)
  have "obj_of (space\<lparr>is_growing := b\<rparr>) = obj_of space" by (simp add: fun_eq_iff obj_of_def raw)
  then show "hash_inv (space\<lparr>is_growing := b\<rparr>) g H = hash_inv space g H"
    by (simp add: hash_inv_def raw local_names_def tree_refs_def)
qed (simp add: space_ok_def tree_ok_def)

lemma ipc_inv_growing: "ipc_inv its (space\<lparr>is_growing := b\<rparr>, g) = ipc_inv its (space, g)"
proof -
  have "space_ok its (space\<lparr>is_growing := b\<rparr>) R = space_ok its space R" for R by (simp add: space_ok_def tree_ok_def)
  then show ?thesis by (simp add: ipc_inv_def same_growing)
qed

lemma its_nth_less:
  assumes "its_ok its" and "i < j" and "Suc j < length its"
  shows "its ! i < its ! j"
  using assms by (auto simp: its_ok_def sorted_wrt_iff_nth_less nth_butlast)

lemma small_zero_at_max:
  assumes "space_ok its space R" and "\<not> Suc (is_table_next space) < length its"
  shows "is_tree_small space = 0"
proof -
  have n: "is_table_next space = length its - 1" "is_table_next space - 1 = length its - 2"
    using assms by (auto simp: space_ok_def)
  have "its ! is_table_next space = is_table_size space"
    using assms(1) n unfolding space_ok_def its_ok_def by (metis)
  then show ?thesis using assms(1) space_tree_range [OF assms(1)]
    by (auto simp: space_ok_def tree_ok_def filter_empty_conv not_less)
qed

lemma ipc_entry_grow_table_ok:
  assumes env: "\<And>n st. rely its st (w_env w n st)"
  shows "ipc_inv its st \<Longrightarrow> is_active (fst st) \<Longrightarrow> is_growing (fst st) \<or> Suc (is_table_next (fst st)) < length its \<Longrightarrow>
    \<exists>kr st' n'. ipc_entry_grow_table its w n st = Some (kr, st', n') \<and> ipc_inv its st' \<and>
      kr \<in> {KERN_SUCCESS, KERN_RESOURCE_SHORTAGE}"
proof (induction "length its - is_table_next (fst st)" arbitrary: st n rule: less_induct)
  case (less st)
  obtain space g where st: "st = (space, g)" by (cases st)
  note unf = ipc_entry_grow_table.simps [of its w n st]
  show ?case
  proof (cases "is_growing space")
    case True
    then show ?thesis using less.prems env [of st n] unfolding unf by (auto simp: st rely_def)
  next
    case False
    let ?n = "is_table_next space"
    have ok: "space_ok its space {}" and nx: "Suc ?n < length its" using less.prems False by (auto simp: st ipc_inv_def)
    have its: "its_ok its" and pos: "0 < ?n" using ok by (auto simp: space_ok_def)
    have ne: "its ! (?n - 1) \<noteq> its ! ?n" using its_nth_less [OF its, of "?n - 1" ?n] nx pos by auto
    note szs = grow_sizes [OF ok nx ne]
    obtain s1 g1 where e1: "w_env w n (space\<lparr>is_growing := True\<rparr>, g) = (s1, g1)" by fastforce
    have r1: "rely its (space\<lparr>is_growing := True\<rparr>, g) (s1, g1)" using env [of _ n] e1 by metis
    have inv1: "ipc_inv its (s1\<lparr>is_growing := False\<rparr>, g1)"
      using r1 less.prems(1) by (simp add: rely_def ipc_inv_growing st)
    let ?s1 = "s1\<lparr>is_growing := False\<rparr>"
    let ?o = "its ! (?n - 1)" and ?z = "its ! ?n" and ?m = "its ! Suc ?n"
    have run: "ipc_entry_grow_table its w n st =
      (if \<not> w_mem w n then Some (KERN_RESOURCE_SHORTAGE, (?s1, g1), n + 1)
       else if \<not> is_active s1 then Some (KERN_SUCCESS, w_env w (n + 1) (?s1, g1), n + 2)
       else do {
         assert_that (is_table_next s1 = ?n);
         assert_that (is_table_size s1 = ?o);
         (space, g) \<leftarrow> grow_install ?o ?z ?m (?s1, g1);
         let (space, g) = w_env w (n + 1) (space, g);
         if \<not> is_active space \<or> is_table_next space \<noteq> ?n + 1
         then Some (KERN_SUCCESS, (space, g), n + 2)
         else if 0 < is_tree_small space \<and>
                 (?m - ?z) * sizeof_ipc_entry < is_tree_small space * sizeof_ipc_tree_entry
         then ipc_entry_grow_table its w (n + 2) (space, g)
         else Some (KERN_SUCCESS, (space, g), n + 2) })"
      unfolding unf using less.prems(2) False pos nx ne szs e1 by (simp add: st Let_def)
    show ?thesis
    proof (cases "w_mem w n \<and> is_active s1")
      case False
      then show ?thesis using inv1 env [of "(?s1, g1)" "n + 1"] unfolding run
        by (cases "w_env w (n + 1) (?s1, g1)") (auto simp: rely_def)
    next
      case True
      have same: "is_table_next s1 = ?n" "is_table_size s1 = ?o" using r1 True szs(1) by (simp_all add: rely_def)
      have ok1: "space_ok its ?s1 {}" and h1: "hash_inv ?s1 g1 (send_names ?s1)"
        using inv1 True by (simp_all add: ipc_inv_def)
      obtain s2 g2 where gi: "grow_install ?o ?z ?m (?s1, g1) = Some (s2, g2)"
        and s2: "space_ok its s2 {}" "hash_inv s2 g2 (send_names s2)" "is_table_next s2 = Suc ?n"
        using grow_install_ok [OF ok1 h1, of ?o ?z ?m] nx same ne by auto
      obtain s3 g3 where e3: "w_env w (n + 1) (s2, g2) = (s3, g3)" by fastforce
      have "rely its (s2, g2) (s3, g3)" using env [of "(s2, g2)" "n + 1"] e3 by simp
      then have inv3: "ipc_inv its (s3, g3)" using s2 by (simp add: rely_def ipc_inv_def)
      show ?thesis
      proof (cases "is_active s3 \<and> is_table_next s3 = Suc ?n \<and> 0 < is_tree_small s3 \<and>
          (?m - ?z) * sizeof_ipc_entry < is_tree_small s3 * sizeof_ipc_tree_entry")
        case False
        with inv3 gi e3 True same show ?thesis unfolding run by auto
      next
        case again: True
        have "Suc (is_table_next s3) < length its"
          using small_zero_at_max [of its s3 "{}"] inv3 again by (auto simp: ipc_inv_def)
        then have "\<exists>kr st' n'. ipc_entry_grow_table its w (n + 2) (s3, g3) = Some (kr, st', n') \<and> ipc_inv its st' \<and>
            kr \<in> {KERN_SUCCESS, KERN_RESOURCE_SHORTAGE}"
          using less.hyps [of "(s3, g3)" "n + 2"] inv3 again nx by (auto simp: st)
        with again gi e3 True same show ?thesis unfolding run by simp
      qed
    qed
  qed
qed

subsection \<open>Allocation without interference\<close>

definition quiet :: "world \<Rightarrow> bool" where
  "quiet w \<longleftrightarrow> (\<forall>n st. w_env w n st = st)"

definition space_inv :: "nat list \<Rightarrow> ipc_space \<Rightarrow> ipc_hash_global \<Rightarrow> bool" where
  "space_inv its space g \<longleftrightarrow>
     is_active space \<and> \<not> is_growing space \<and> space_ok its space {} \<and> hash_inv space g (send_names space)"

lemma quiet_grow_table:
  assumes quiet: "quiet w"
  shows "space_inv its space g \<Longrightarrow> Suc (is_table_next space) < length its \<Longrightarrow>
    \<exists>kr space' g' n'. ipc_entry_grow_table its w n (space, g) = Some (kr, (space', g'), n') \<and>
      space_inv its space' g' \<and> entries space' = entries space \<and> other_refs space g' = other_refs space g \<and>
      is_self space' = is_self space \<and>
      (kr = KERN_SUCCESS \<and> is_table_next space < is_table_next space' \<or> kr = KERN_RESOURCE_SHORTAGE \<and> (\<exists>k. \<not> w_mem w k))"
proof (induction "length its - is_table_next space" arbitrary: space g n rule: less_induct)
  case (less space g)
  let ?n = "is_table_next space"
  have env: "w_env w k st = st" for k st using quiet unfolding quiet_def by blast
  have ok: "space_ok its space {}" and inv: "hash_inv space g (send_names space)"
    and act: "is_active space" "\<not> is_growing space" using less.prems by (auto simp: space_inv_def)
  note nx = less.prems(2)
  have its: "its_ok its" and pos: "0 < ?n" using ok by (auto simp: space_ok_def)
  have ne: "its ! (?n - 1) \<noteq> its ! ?n" using its_nth_less [OF its, of "?n - 1" ?n] nx pos by auto
  note szs = grow_sizes [OF ok nx ne]
  have sp: "space\<lparr>is_growing := False\<rparr> = space" using act(2) by (cases space) simp
  obtain s2 g2 where gi: "grow_install (its ! (?n - 1)) (its ! ?n) (its ! Suc ?n) (space, g) = Some (s2, g2)"
    and s2: "space_ok its s2 {}" "hash_inv s2 g2 (send_names s2)" "is_table_next s2 = Suc ?n" "entries s2 = entries space"
      "is_active s2 = is_active space" "is_growing s2 = is_growing space" "other_refs space g2 = other_refs space g"
      "is_self s2 = is_self space"
    using grow_install_ok [OF ok inv nx refl refl refl ne] by blast
  have i2: "space_inv its s2 g2" using s2 act by (simp add: space_inv_def)
  have run: "ipc_entry_grow_table its w n (space, g) =
      (if \<not> w_mem w n then Some (KERN_RESOURCE_SHORTAGE, (space, g), n + 1)
       else if 0 < is_tree_small s2 \<and>
               (its ! Suc ?n - its ! ?n) * sizeof_ipc_entry < is_tree_small s2 * sizeof_ipc_tree_entry
       then ipc_entry_grow_table its w (n + 2) (s2, g2)
       else Some (KERN_SUCCESS, (s2, g2), n + 2))"
    unfolding ipc_entry_grow_table.simps [of its w n "(space, g)"]
    using act pos nx ne szs gi s2(3,5) by (simp add: env sp Let_def)
  show ?case
  proof (cases "w_mem w n \<and> 0 < is_tree_small s2 \<and>
               (its ! Suc ?n - its ! ?n) * sizeof_ipc_entry < is_tree_small s2 * sizeof_ipc_tree_entry")
    case False
    then show ?thesis unfolding run using less.prems(1) i2 s2 by auto
  next
    case True
    have "Suc (is_table_next s2) < length its" using small_zero_at_max [OF s2(1)] True by auto
    moreover have "length its - is_table_next s2 < length its - ?n" using s2(3) nx by simp
    ultimately obtain kr space' g' n' where r: "ipc_entry_grow_table its w (n + 2) (s2, g2) = Some (kr, (space', g'), n')"
      "space_inv its space' g'" "entries space' = entries s2" "other_refs s2 g' = other_refs s2 g2" "is_self space' = is_self s2"
      "kr = KERN_SUCCESS \<and> is_table_next s2 < is_table_next space' \<or> kr = KERN_RESOURCE_SHORTAGE \<and> (\<exists>k. \<not> w_mem w k)"
      using less.hyps [of s2 g2 "n + 2"] i2 by blast
    then show ?thesis unfolding run using True s2 by auto
  qed
qed

lemma full_table_card:
  assumes "space_ok its space {}" and "free_set (is_table space) {} = {}" and "finite (dom (entries space))"
  shows "is_table_size space - 1 \<le> card (dom (entries space))"
proof -
  let ?f = "\<lambda>i. of_nat i :: mach_port"
  have lim: "is_table_size space < 2 ^ 32 - 1" using space_okD(2) [OF assms(1)] by (simp add: table_ok_def)
  have "?f ` {1..<is_table_size space} \<subseteq> dom (entries space)"
  proof
    fix n assume "n \<in> ?f ` {1..<is_table_size space}"
    then obtain i where i: "n = of_nat i" "1 \<le> i" "i < is_table_size space" by auto
    then have "unat n = i" using lim by (simp add: unat_of_nat)
    moreover have "ie_type (is_table space ! i) \<noteq> 0" using assms(2) i by (auto simp: free_set_def)
    ultimately show "n \<in> dom (entries space)" using i by (simp add: dom_def entries_def raw_entry_def)
  qed
  moreover have "inj_on ?f {1..<is_table_size space}"
    by (rule inj_onI) (metis atLeastLessThan_iff less_trans lim unat_of_nat_bound)
  ultimately show ?thesis using card_mono [OF assms(3)] by (metis card_atLeastLessThan card_image)
qed

lemma not_at_max:
  assumes "space_ok its space {}" and "free_set (is_table space) {} = {}"
    and "finite (dom (entries space))" and "card (dom (entries space)) < its ! (length its - 1) - 1"
  shows "Suc (is_table_next space) < length its"
proof (rule ccontr)
  assume "\<not> Suc (is_table_next space) < length its"
  then have "is_table_next space = length its - 1" "is_table_next space - 1 = length its - 2"
    using assms(1) by (auto simp: space_ok_def)
  then have "is_table_size space = its ! (length its - 1)"
    using assms(1) unfolding space_ok_def its_ok_def by metis
  with full_table_card [OF assms(1-3)] assms(4) show False by simp
qed

lemma hash_inv_entries:
  assumes inv: "hash_inv space g (send_names space)" and idx: "same_index space space'"
    and ok: "space_ok its space R" "space_ok its space' R'" and ents: "entries space' = entries space"
  shows "hash_inv space' g (send_names space')"
proof -
  have "send_names space' = send_names space" by (simp add: send_names_def ents)
  moreover have "\<exists>e. raw_entry space' n = Some e \<and> ie_object e = obj_of space n" if n: "n \<in> send_names space" for n
  proof -
    obtain e where e: "entries space n = Some e" using n by (auto simp: send_names_def)
    then have "entries space' n = Some e" by (simp add: ents)
    from entries_Some [OF this] obj_of_entries [OF e] show ?thesis by auto
  qed
  ultimately show ?thesis using hash_inv_keep [OF inv idx ok] by simp
qed

definition allocates :: "nat list \<Rightarrow> ipc_space \<Rightarrow> ipc_hash_global \<Rightarrow> ipc_space \<Rightarrow> ipc_hash_global \<Rightarrow> mach_port \<Rightarrow> bool" where
  "allocates its space g space' g' name \<longleftrightarrow>
     MACH_PORT_VALID name \<and> entries space name = None \<and> fresh_entry space' name \<and>
     space_ok its space' {name} \<and> hash_inv space' g' (send_names space') \<and>
     entries space' = entries space \<and> other_refs space g' = other_refs space g \<and>
     is_active space' \<and> \<not> is_growing space' \<and> is_self space' = is_self space"

lemma allocates_reserves:
  assumes "space_inv its s g'" and "reserves its s {} space' name"
    and "entries s = entries space" and "other_refs space g' = other_refs space g" and "is_self s = is_self space"
  shows "allocates its space g space' g' name"
proof -
  have ok: "space_ok its s {}" "space_ok its space' {name}" and idx: "same_index s space'"
    and ents: "entries space' = entries s" and inv: "hash_inv s g' (send_names s)"
    using assms(1,2) by (simp_all add: space_inv_def reserves_def)
  from hash_inv_entries [OF inv idx ok ents] assms ok show ?thesis
    by (simp add: allocates_def reserves_def space_inv_def same_index_def)
qed

lemma quiet_alloc:
  assumes quiet: "quiet w"
  shows "space_inv its space g \<Longrightarrow> finite (dom (entries space)) \<Longrightarrow>
    card (dom (entries space)) < its ! (length its - 1) - 1 \<Longrightarrow>
    \<exists>r space' g' n'. ipc_entry_alloc its w n (space, g) = Some (r, (space', g'), n') \<and>
      (case r of
         Inr (name, ptr) \<Rightarrow> ptr = ptr_of space' name \<and> allocates its space g space' g' name
       | Inl kr \<Rightarrow> kr = KERN_RESOURCE_SHORTAGE \<and> (\<exists>k. \<not> w_mem w k) \<and>
           space_inv its space' g' \<and> entries space' = entries space)"
proof (induction "length its - is_table_next space" arbitrary: space g n rule: less_induct)
  case (less space g)
  have ok: "space_ok its space {}" and act: "is_active space" using less.prems by (auto simp: space_inv_def)
  note unf = ipc_entry_alloc.simps [of its w n "(space, g)"]
  show ?case
  proof (cases "free_set (is_table space) {} = {}")
    case False
    then obtain name space' where get: "ipc_entry_get space = Some (Inr (name, ptr_of space' name), space')"
      and r: "reserves its space {} space' name" using entry_get_reserves [OF ok act] by auto
    from allocates_reserves [OF less.prems(1) r refl refl refl]
    show ?thesis unfolding unf using get act by simp
  next
    case True
    have get: "ipc_entry_get space = Some (Inl KERN_NO_SPACE, space)"
      using entry_get_empty [of space "{}"] space_okD(2) [OF ok] act True by simp
    have "Suc (is_table_next space) < length its" by (rule not_at_max [OF ok True less.prems(2,3)])
    from quiet_grow_table [OF quiet less.prems(1) this, of n] obtain kr s1 g1 n1
      where gt: "ipc_entry_grow_table its w n (space, g) = Some (kr, (s1, g1), n1)"
        and s1: "space_inv its s1 g1" "entries s1 = entries space" "other_refs space g1 = other_refs space g"
          "is_self s1 = is_self space"
        and kr: "kr = KERN_SUCCESS \<and> is_table_next space < is_table_next s1 \<or> kr = KERN_RESOURCE_SHORTAGE \<and> (\<exists>k. \<not> w_mem w k)"
      by blast
    have run: "ipc_entry_alloc its w n (space, g) =
        (if kr \<noteq> KERN_SUCCESS then Some (Inl kr, (s1, g1), n1) else ipc_entry_alloc its w n1 (s1, g1))"
      unfolding unf using get act gt by simp
    show ?thesis
    proof (cases "kr = KERN_SUCCESS")
      case False
      with kr s1 show ?thesis unfolding run by simp
    next
      case succ: True
      then have "is_table_next space < is_table_next s1" using kr by auto
      moreover have "is_table_next s1 < length its" using s1(1) by (simp add: space_inv_def space_ok_def)
      ultimately have dec: "length its - is_table_next s1 < length its - is_table_next space" by simp
      obtain r space' g' n' where al: "ipc_entry_alloc its w n1 (s1, g1) = Some (r, (space', g'), n')"
        and c: "case r of Inr (name, ptr) \<Rightarrow> ptr = ptr_of space' name \<and> allocates its s1 g1 space' g' name
          | Inl kr \<Rightarrow> kr = KERN_RESOURCE_SHORTAGE \<and> (\<exists>k. \<not> w_mem w k) \<and> space_inv its space' g' \<and> entries space' = entries s1"
        using less.hyps [OF dec s1(1), of n1] less.prems(2,3) s1(2) by auto
      have "allocates its s1 g1 space' g' name \<Longrightarrow> allocates its space g space' g' name" for name
        using s1 by (simp add: allocates_def)
      with al c succ s1(2) show ?thesis unfolding run by (auto split: sum.splits)
    qed
  qed
qed

subsection \<open>Allocation of a given name\<close>

lemma space_inv_same_tree:
  assumes "space_inv its space g" and "same_tree space space'"
  shows "space_inv its space' g" and "entries space' = entries space"
proof -
  show ents: "entries space' = entries space" using same_tree_ok(3) [OF assms(2)] .
  have ok: "space_ok its space {}" "space_ok its space' {}"
    using assms same_tree_ok(1) [OF assms(2)] by (auto simp: space_inv_def)
  have "hash_inv space' g (send_names space')"
    by (rule hash_inv_entries [OF _ same_tree_index [OF assms(2)] ok ents]) (use assms in \<open>simp add: space_inv_def\<close>)
  with ok assms show "space_inv its space' g" by (simp add: space_inv_def same_tree_eqs)
qed

lemma tree_lookup_step:
  assumes ok: "space_ok its space {}" and nt: "\<not> unat name < is_table_size space"
  shows "\<exists>space'. (if 0 < is_tree_total space then entry_tree_lookup space name else Some (None, space)) =
      Some (if entries space name = None then None else Some (Tree_entry name), space') \<and> same_tree space space'"
proof -
  have nz: "ie_type e \<noteq> 0" if "ist_map (is_tree space) name = Some e" for e
    using tree_entryD(3) [OF ok that] by auto
  have ent: "entries space name = None \<longleftrightarrow> ist_map (is_tree space) name = None"
    using nt nz by (auto simp: entries_def raw_entry_def split: option.splits)
  show ?thesis
  proof (cases "0 < is_tree_total space")
    case True
    from entry_tree_lookup_ok [OF space_okD(1) [OF ok] nz] obtain space' where
      "entry_tree_lookup space name =
        Some (map_option (\<lambda>_. Tree_entry name) (ist_map (is_tree space) name), space')" "same_tree space space'" by blast
    with True ent show ?thesis by (cases "ist_map (is_tree space) name") auto
  next
    case False
    then have "ist_map (is_tree space) name = None" using space_okD(3) [OF ok] by simp
    with False ent space_okD(1) [OF ok] show ?thesis by auto
  qed
qed

definition alloc_name_post ::
  "nat list \<Rightarrow> world \<Rightarrow> ipc_space \<Rightarrow> ipc_hash_global \<Rightarrow> mach_port \<Rightarrow> kern_return + entry_ptr \<Rightarrow> ipc_space \<Rightarrow> ipc_hash_global \<Rightarrow> bool" where
  "alloc_name_post its w space g name r space' g' \<longleftrightarrow>
     (case r of
        Inr ptr \<Rightarrow> ptr = ptr_of space' name \<and>
          (if entries space name = None then allocates its space g space' g' name
           else space_inv its space' g' \<and> entries space' = entries space \<and> other_refs space g' = other_refs space g)
      | Inl kr \<Rightarrow> kr = KERN_RESOURCE_SHORTAGE \<and> (\<exists>k. \<not> w_mem w k) \<and> entries space name = None \<and>
          space_inv its space' g' \<and> entries space' = entries space)"

lemma alloc_name_post_cong:
  assumes "entries s = entries space" and "other_refs space g1 = other_refs space g" and "is_self s = is_self space"
    and "alloc_name_post its w s g1 name r space' g'"
  shows "alloc_name_post its w space g name r space' g'"
  using assms by (auto simp: alloc_name_post_def allocates_def split: sum.splits if_splits)

lemma alloc_name_in_table:
  assumes inv: "space_inv its space g" and name: "MACH_PORT_VALID name" "unat name < is_table_size space"
  shows "\<exists>p space'. ipc_entry_alloc_name its w hv n (space, g) name = Some (Inr p, (space', g), n) \<and>
    alloc_name_post its w space g name (Inr p) space' g"
proof -
  have ok: "space_ok its space {}" and act: "is_active space" using inv by (auto simp: space_inv_def)
  have pos: "0 < unat name" using name(1) unat_nz [of name] by (auto simp: MACH_PORT_VALID_def MACH_PORT_NULL_def)
  note unf = ipc_entry_alloc_name.simps [of its w hv n "(space, g)" name]
  show ?thesis
  proof (cases "ie_type (is_table space ! unat name) = 0")
    case False
    then have "entries space name \<noteq> None" using name by (simp add: entries_def raw_entry_def)
    then show ?thesis unfolding unf using act name pos False inv
      by (auto simp: nogen alloc_name_post_def ptr_of_def)
  next
    case True
    then have "unat name \<in> free_set (is_table space) (unat ` {})" using name pos by (simp add: free_set_def)
    from rip_reserves [OF ok this] obtain t where t: "free_list_rip (is_table space) (unat name) 0 = Some t"
      "reserves its space {} (space\<lparr>is_table := t\<rparr>) name" "length t = is_table_size space" by blast
    have "entries space name = None" using True name by (simp add: entries_def raw_entry_def)
    with allocates_reserves [OF inv t(2) refl refl refl] t name pos True act show ?thesis
      unfolding unf by (simp add: nogen alloc_name_post_def ptr_of_def)
  qed
qed

lemma next_size_not_max:
  assumes "space_ok its space R" and "is_table_size space < its ! is_table_next space"
  shows "Suc (is_table_next space) < length its"
proof (rule ccontr)
  assume c: "\<not> Suc (is_table_next space) < length its"
  then have "is_table_next space = length its - 1" "is_table_next space - 1 = length its - 2"
    using assms(1) by (auto simp: space_ok_def)
  then have "is_table_size space = its ! is_table_next space"
    using assms(1) unfolding space_ok_def its_ok_def by metis
  with assms(2) show False by simp
qed

lemma quiet_alloc_name:
  assumes quiet: "quiet w" and valid: "MACH_PORT_VALID name"
  shows "space_inv its space g \<Longrightarrow>
    \<exists>r space' g' n'. ipc_entry_alloc_name its w hv n (space, g) name = Some (r, (space', g'), n') \<and>
      alloc_name_post its w space g name r space' g'"
proof (induction "2 * (length its - is_table_next space) + (if hv then 0 else 1)" arbitrary: space g n hv rule: less_induct)
  case (less space hv g)
  show ?case
  proof (cases "unat name < is_table_size space")
    case True
    from alloc_name_in_table [OF less.prems valid True] show ?thesis by blast
  next
    case nt: False
    have ok: "space_ok its space {}" and act: "is_active space" using less.prems by (auto simp: space_inv_def)
    have env: "w_env w k st = st" for k st using quiet unfolding quiet_def by blast
    note unf = ipc_entry_alloc_name.simps [of its w hv n "(space, g)" name]
    obtain s1 where lk: "(if 0 < is_tree_total space then entry_tree_lookup space name else Some (None, space)) =
      Some (if entries space name = None then None else Some (Tree_entry name), s1)" and st: "same_tree space s1"
      using tree_lookup_step [OF ok nt] by blast
    note eqs = same_tree_eqs [OF st] and i1 = space_inv_same_tree [OF less.prems st]
    show ?thesis
    proof (cases "entries space name = None")
      case False
      with lk act nt valid i1 eqs show ?thesis unfolding unf
        by (auto simp: nogen alloc_name_post_def ptr_of_def)
    next
      case none: True
      let ?next = "its ! is_table_next space"
      let ?grow = "unat name < ?next \<and> (?next - is_table_size space) * sizeof_ipc_entry <
                   (is_tree_small space + 1) * sizeof_ipc_tree_entry"
      have nx: "is_table_next space < length its" using ok by (simp add: space_ok_def)
      have run: "ipc_entry_alloc_name its w hv n (space, g) name =
        (if ?grow
         then do { (kr, st, n) \<leftarrow> ipc_entry_grow_table its w n (s1, g);
                   assert_that (kr \<noteq> KERN_NO_SPACE);
                   if kr \<noteq> KERN_SUCCESS then Some (Inl kr, st, n)
                   else ipc_entry_alloc_name its w hv n st name }
         else if hv
         then do { space \<leftarrow> alloc_name_insert its s1 name;
                   Some (Inr (Tree_entry name), (space, g), n) }
         else if \<not> w_mem w n then Some (Inl KERN_RESOURCE_SHORTAGE, (s1, g), n + 1)
         else ipc_entry_alloc_name its w True (n + 1) (s1, g) name)"
        unfolding unf using lk act nt valid none eqs nx by (simp add: nogen env not_less)
      have post: "alloc_name_post its w s1 g name r space' g' \<Longrightarrow> alloc_name_post its w space g name r space' g'" for r space' g'
        by (rule alloc_name_post_cong [OF i1(2) refl eqs(4)])
      have ok1: "space_ok its s1 {}" using i1(1) by (simp add: space_inv_def)
      show ?thesis
      proof (cases ?grow)
        case True
        then have "is_table_size s1 < its ! is_table_next s1" using nt eqs by (simp add: not_less)
        then have "Suc (is_table_next s1) < length its" by (rule next_size_not_max [OF ok1])
        from quiet_grow_table [OF quiet i1(1) this, of n] obtain kr s2 g2 n2
          where gt: "ipc_entry_grow_table its w n (s1, g) = Some (kr, (s2, g2), n2)"
            and s2: "space_inv its s2 g2" "entries s2 = entries s1" "other_refs s1 g2 = other_refs s1 g" "is_self s2 = is_self s1"
            and kr: "kr = KERN_SUCCESS \<and> is_table_next s1 < is_table_next s2 \<or> kr = KERN_RESOURCE_SHORTAGE \<and> (\<exists>k. \<not> w_mem w k)"
          by blast
        show ?thesis
        proof (cases "kr = KERN_SUCCESS")
          case False
          with kr gt True s2 i1(2) none show ?thesis unfolding run by (simp add: alloc_name_post_def)
        next
          case succ: True
          have "is_table_next s2 < length its" using s2(1) by (simp add: space_inv_def space_ok_def)
          then have "2 * (length its - is_table_next s2) + (if hv then 0 else 1) <
              2 * (length its - is_table_next space) + (if hv then 0 else 1)"
            using kr succ eqs(3) by auto
          from less.hyps [OF this s2(1), of n2] obtain r space' g' n'
            where al: "ipc_entry_alloc_name its w hv n2 (s2, g2) name = Some (r, (space', g'), n')"
              "alloc_name_post its w s2 g2 name r space' g'" by blast
          from post [OF alloc_name_post_cong [OF s2(2-4) al(2)]] al(1) gt succ True show ?thesis
            unfolding run by simp
        qed
      next
        case ng: False
        show ?thesis
        proof (cases hv)
          case True
          have "ist_map (is_tree s1) name = None"
            using none nt tree_entryD(3) [OF ok] eqs(9) by (auto simp: entries_def raw_entry_def split: option.splits if_splits)
          with alloc_name_insert_ok [OF ok1, of name] valid nt act eqs obtain space'
            where ins: "alloc_name_insert its s1 name = Some space'" "reserves its s1 {} space' name"
              "is_table_size space' = is_table_size s1" by auto
          have "alloc_name_post its w s1 g name (Inr (Tree_entry name)) space' g"
            using allocates_reserves [OF i1(1) ins(2) refl refl refl] none i1(2) nt ins(3) eqs
            by (simp add: alloc_name_post_def ptr_of_def)
          from post [OF this] ins(1) True show ?thesis unfolding run if_not_P [OF ng] by simp
        next
          case False
          have "2 * (length its - is_table_next s1) + (if True then 0 else 1) <
              2 * (length its - is_table_next space) + (if hv then 0 else (1::nat))" using False eqs(3) by simp
          from less.hyps [OF this i1(1), of "n + 1"] obtain r space' g' n'
            where "ipc_entry_alloc_name its w True (n + 1) (s1, g) name = Some (r, (space', g'), n')"
              "alloc_name_post its w space g name r space' g'" using post by blast
          with False i1 none show ?thesis unfolding run if_not_P [OF ng]
            by (cases "w_mem w n") (auto simp: alloc_name_post_def)
        qed
      qed
    qed
  qed
qed

end
