(* ===== verification/Ipc_Entry_Props.thy ===== *)
theory Ipc_Entry_Props
  imports Ipc_Entry_Alloc
begin

text \<open>
  The properties of the entry layer of a space, the contract it offers to the code that manipulates
  rights, and a concrete space on which they are evaluated.
\<close>

subsection \<open>A concrete space\<close>

definition its_example :: "nat list" where
  "its_example = [4, 8, 12, 12]"

definition tree_example :: "ipc_entry ipc_splay_tree" where
  "tree_example = \<lparr>ist_name = 5,
     ist_root = Node Leaf (5, \<lparr>ie_bits = 0x10001, ie_object = 0x100, ie_request = 0, ie_index = 0\<rparr>) Leaf,
     ist_ltree = [],
     ist_rtree = [(Leaf, (9, \<lparr>ie_bits = 0x20000, ie_object = 0x140, ie_request = 0, ie_index = 0\<rparr>))]\<rparr>"

definition space_example :: ipc_space where
  "space_example = \<lparr>is_self = 0x20, is_references = 1, is_active = True, is_growing = False,
     is_table =
      [\<lparr>ie_bits = 0, ie_object = 0, ie_request = 0, ie_index = 0\<rparr>,
       \<lparr>ie_bits = 0x10001, ie_object = 0x40, ie_request = 0, ie_index = 1\<rparr>,
       \<lparr>ie_bits = 0x20000, ie_object = 0x80, ie_request = 0, ie_index = 0\<rparr>,
       \<lparr>ie_bits = 0x10001, ie_object = 0xc0, ie_request = 0, ie_index = 3\<rparr>],
     is_table_next = 1, is_tree = tree_example, is_tree_total = 2, is_tree_small = 1, is_tree_hash = 1\<rparr>"

definition hash_global_example :: ipc_hash_global where
  "hash_global_example = \<lparr>ipc_hash_global_size = 2, ipc_hash_global_mask = 1,
     ipc_hash_global_table = [[\<lparr>tr_space = 0x20, tr_name = 5, tr_object = 0x100\<rparr>], []]\<rparr>"

lemma its_example_ok: "its_ok its_example"
  by (simp add: its_ok_def its_example_def)

lemma tree_example_ok: "ist_ok tree_example"
  "ist_list tree_example = [(5, \<lparr>ie_bits = 0x10001, ie_object = 0x100, ie_request = 0, ie_index = 0\<rparr>),
     (9, \<lparr>ie_bits = 0x20000, ie_object = 0x140, ie_request = 0, ie_index = 0\<rparr>)]"
  by (simp_all add: tree_example_def ist_ok_def ist_list_def ist_zip_def zip_list_def focused_def splits_at_def)

lemma type_example: "IE_BITS_TYPE 0x10001 = MACH_PORT_TYPE_SEND" "IE_BITS_TYPE 0x20000 = MACH_PORT_TYPE_RECEIVE"
  "(0x10001::u32) AND IE_BITS_COLLISION = 0" "(0x20000::u32) AND IE_BITS_COLLISION = 0"
  "MACH_PORT_TYPE_RECEIVE \<noteq> 0" "MACH_PORT_TYPE_RECEIVE \<noteq> MACH_PORT_TYPE_SEND"
  "unat (5::mach_port) = 5" "unat (9::mach_port) = 9" "MACH_PORT_VALID 5" "MACH_PORT_VALID 9"
  by code_simp+

lemma space_example_nth: "is_table space_example ! 0 = \<lparr>ie_bits = 0, ie_object = 0, ie_request = 0, ie_index = 0\<rparr>"
  "is_table space_example ! 1 = \<lparr>ie_bits = 0x10001, ie_object = 0x40, ie_request = 0, ie_index = 1\<rparr>"
  "is_table space_example ! 2 = \<lparr>ie_bits = 0x20000, ie_object = 0x80, ie_request = 0, ie_index = 0\<rparr>"
  "is_table space_example ! 3 = \<lparr>ie_bits = 0x10001, ie_object = 0xc0, ie_request = 0, ie_index = 3\<rparr>"
  "is_table_size space_example = 4"
  by (simp_all add: space_example_def)

lemma space_example_ok: "space_ok its_example space_example {}"
proof -
  note nth = space_example_nth
  have ne: "is_table space_example \<noteq> []" using nth(5) by auto
  have "table_ok (is_table space_example) {}"
    unfolding table_ok_def nth(5) less_4
    using ne nth type_example TYPE_SEND_nz
    by (auto simp: free_set_def nth(5) less_4 IO_NULL_def intro!: exI [of _ "[]"])
  with ne show ?thesis
    using its_example_ok tree_example_ok type_example TYPE_SEND_nz nth(5)
    by (simp add: space_ok_def tree_ok_def) (simp add: space_example_def its_example_def)
qed

lemma send_names_example: "send_names space_example = {1, 3, 5}"
proof -
  have "n \<in> send_names space_example \<longleftrightarrow> n = 1 \<or> n = 3 \<or> n = 5" for n
  proof (cases "unat n < 4")
    case True
    then have "n = 0 \<or> n = 1 \<or> n = 2 \<or> n = 3" unfolding less_4 by (auto simp: word_unat_eq_iff)
    then show ?thesis
      using send_names_table [of n space_example] True space_example_nth type_example TYPE_SEND_nz by auto
  next
    case False
    have "ist_map (is_tree space_example) n = map_of (ist_list tree_example) n" by (simp add: space_example_def)
    with False show ?thesis
      using type_example tree_example_ok(2) unfolding send_names_raw raw_entry_def space_example_nth(5)
      by auto
  qed
  then show ?thesis by auto
qed

lemma local_names_example: "local_names space_example {1, 3, 5} = {1, 3}"
proof -
  have "of_nat i \<in> {1, 3, 5 :: mach_port} \<longleftrightarrow> i = 1 \<or> i = 3" if "i < 4" for i
    using that unfolding less_4 by auto
  then show ?thesis unfolding local_names_def space_example_nth(5) by auto
qed

lemma hash_ok_example: "hash_ok (is_table space_example) {1, 3}"
proof (rule hash_okI)
  let ?t = "is_table space_example"
  note nth = space_example_nth and len = space_example_nth(5)
  have home: "home ?t 1 = 1" "home ?t 3 = 3" unfolding home_def nth IH_LOCAL_HASH_def by code_simp+
  show "slots_ok ?t {1, 3}" using nth by (simp add: slots_ok_def IO_NULL_def)
  show "slot_of ?t h \<in> {1, 3}" if "h < length ?t" "slot_of ?t h \<noteq> 0" for h
    using that nth unfolding len less_4 by auto
  show "h = d" if "h < length ?t" "d < length ?t" "slot_of ?t h = slot_of ?t d" "slot_of ?t d \<noteq> 0" for h d
    using that nth unfolding len less_4 by auto
  show "\<exists>d < length ?t. slot_of ?t d = i" if "i \<in> {1, 3}" for i
    using that nth unfolding len by (intro exI [of _ i]) auto
  show "slot_of ?t s \<noteq> 0" if "d < length ?t" "slot_of ?t d \<noteq> 0" "s < length ?t"
    "dist (length ?t) (home ?t (slot_of ?t d)) s < dist (length ?t) (home ?t (slot_of ?t d)) d" for d s
    using that nth home unfolding len less_4 by (auto simp: dist_def)
qed

lemma obj_example: "obj_of space_example 1 = 0x40" "obj_of space_example 3 = 0xc0" "obj_of space_example 5 = 0x100"
  "{1, 3, 5} \<subseteq> dom (raw_entry space_example)"
proof -
  have tr: "ist_list (is_tree space_example) = ist_list tree_example" by (simp add: space_example_def)
  have u: "unat (1::mach_port) = 1" "unat (3::mach_port) = 3" by code_simp+
  have raw: "raw_entry space_example 1 = Some (is_table space_example ! 1)"
    "raw_entry space_example 3 = Some (is_table space_example ! 3)"
    "raw_entry space_example 5 = Some \<lparr>ie_bits = 0x10001, ie_object = 0x100, ie_request = 0, ie_index = 0\<rparr>"
    unfolding raw_entry_def space_example_nth(5) tr tree_example_ok(2) u type_example by simp_all
  then show "obj_of space_example 1 = 0x40" "obj_of space_example 3 = 0xc0" "obj_of space_example 5 = 0x100"
    using space_example_nth by (simp_all add: obj_of_def)
  show "{1, 3, 5} \<subseteq> dom (raw_entry space_example)" using raw by auto
qed

lemma hash_inv_example: "hash_inv space_example hash_global_example (send_names space_example)"
proof -
  have refs: "glob_refs hash_global_example = {mkref 0x20 5 0x100}"
    by (simp add: glob_refs_def hash_global_example_def mkref_def)
  have "IH_GLOBAL_HASH 1 0x20 0x100 = 0" by code_simp
  then have g: "glob_ok hash_global_example"
    using refs by (simp add: glob_ok_def) (auto simp: hash_global_example_def less_Suc_eq ref_hash_def)
  have tr: "ist_list (is_tree space_example) = ist_list tree_example" by (simp add: space_example_def)
  note obj = obj_example
  have self: "is_self space_example = 0x20" "is_tree_hash space_example = 1" by (simp_all add: space_example_def)
  show ?thesis
    unfolding hash_inv_def send_names_example local_names_example
  proof (intro conjI)
    show "is_self space_example \<noteq> IS_NULL" by (simp add: self IS_NULL_def)
    show "{1, 3, 5} \<subseteq> dom (raw_entry space_example)" by (rule obj(4))
    show "\<forall>n \<in> {1, 3, 5}. obj_of space_example n \<noteq> IO_NULL" using obj by (simp add: IO_NULL_def)
    show "inj_on (obj_of space_example) {1, 3, 5}" using obj by simp
    have "{x \<in> set (ist_list (is_tree space_example)). fst x \<in> {1, 3, 5}} =
        {(5, \<lparr>ie_bits = 0x10001, ie_object = 0x100, ie_request = 0, ie_index = 0\<rparr>)}"
      unfolding tr tree_example_ok(2) by auto
    then show "{r \<in> glob_refs hash_global_example. tr_space r = is_self space_example} = tree_refs space_example {1, 3, 5}"
      unfolding tree_refs_def refs self by auto
    show "is_tree_hash space_example = length (filter (\<lambda>x. fst x \<in> {1, 3, 5}) (ist_list (is_tree space_example)))"
      unfolding tr tree_example_ok(2) self by simp
  qed (use g hash_ok_example space_example_nth(5) in simp_all)
qed

lemma space_inv_example: "space_inv its_example space_example hash_global_example"
  using space_example_ok hash_inv_example by (simp add: space_inv_def) (simp add: space_example_def)

lemma entries_example: "entries space_example 5 = Some \<lparr>ie_bits = 0x10001, ie_object = 0x100, ie_request = 0, ie_index = 0\<rparr>"
  "entries space_example 2 = Some \<lparr>ie_bits = 0x20000, ie_object = 0x80, ie_request = 0, ie_index = 0\<rparr>"
  "entries space_example 6 = None"
proof -
  have u: "unat (2::mach_port) = 2" "unat (6::mach_port) = 6" by code_simp+
  have tr: "ist_list (is_tree space_example) = ist_list tree_example" by (simp add: space_example_def)
  show "entries space_example 5 = Some \<lparr>ie_bits = 0x10001, ie_object = 0x100, ie_request = 0, ie_index = 0\<rparr>"
    "entries space_example 2 = Some \<lparr>ie_bits = 0x20000, ie_object = 0x80, ie_request = 0, ie_index = 0\<rparr>"
    "entries space_example 6 = None"
    unfolding entries_def raw_entry_def space_example_nth(5) tr tree_example_ok(2) u type_example
    using space_example_nth(3) type_example TYPE_SEND_nz by simp_all
qed

subsection \<open>Properties of the entries of a space\<close>

text \<open>
  C3. Growing the table changes no right: every name denotes the same entry before and after, the
  space and its reverse hash satisfy their invariants again (entries moved from the tree included),
  the hash chains of other spaces keep their elements, and no assertion of the C code fails.
\<close>

theorem grow_keeps_names:
  assumes "space_inv its space g" and "Suc (is_table_next space) < length its"
    and "osize = its ! (is_table_next space - 1)" and "sz = its ! is_table_next space"
    and "nsize = its ! Suc (is_table_next space)"
  shows "\<exists>space' g'. grow_install osize sz nsize (space, g) = Some (space', g') \<and>
    space_inv its space' g' \<and> entries space' = entries space \<and> is_table_size space' = sz \<and>
    {r \<in> glob_refs g'. tr_space r \<noteq> is_self space} = {r \<in> glob_refs g. tr_space r \<noteq> is_self space}"
proof -
  have ok: "space_ok its space {}" and inv: "hash_inv space g (send_names space)"
    and act: "is_active space" "\<not> is_growing space" using assms(1) by (auto simp: space_inv_def)
  have "its_ok its" "0 < is_table_next space" using ok by (auto simp: space_ok_def)
  then have "osize \<noteq> sz" using its_nth_less [of its "is_table_next space - 1" "is_table_next space"] assms by auto
  from grow_install_ok [OF ok inv assms(2-5) this] obtain space' g' where
    gi: "grow_install osize sz nsize (space, g) = Some (space', g')" "space_ok its space' {}"
    "entries space' = entries space" "hash_inv space' g' (send_names space')" "other_refs space g' = other_refs space g"
    "is_table_next space' = Suc (is_table_next space)" "is_active space' = is_active space"
    "is_growing space' = is_growing space" by blast
  then have "space_inv its space' g'" using act by (simp add: space_inv_def)
  moreover have "is_table_size space' = sz" using gi(2,6) assms(4) by (simp add: space_ok_def)
  ultimately show ?thesis using gi by blast
qed

theorem grow_keeps_names_witness:
  "\<exists>space' g'. grow_install 4 8 12 (space_example, hash_global_example) = Some (space', g') \<and>
    space_inv its_example space' g' \<and> is_table_size space' = 8 \<and>
    entries space' 5 = Some \<lparr>ie_bits = 0x10001, ie_object = 0x100, ie_request = 0, ie_index = 0\<rparr>"
proof -
  have "is_table_next space_example = 1" "length its_example = 4" "its_example ! 0 = 4" "its_example ! 1 = 8"
    "its_example ! Suc 1 = 12" by (simp_all add: space_example_def its_example_def)
  with grow_keeps_names [OF space_inv_example, of 4 8 12] entries_example(1) show ?thesis by fastforce
qed

text \<open>
  C18. As long as the table does not have its maximum size, or while another thread is growing it, growing the
  table terminates with success or a memory shortage, whatever other threads do while the space is unlocked,
  provided that they keep the space's invariant, never shrink the table, and leave it alone while this
  thread is growing it; the invariant holds again at the end. (For a table of maximum size that
  nobody is growing, the call reads outside the array of sizes instead.)
\<close>

theorem grow_table_terminates:
  assumes "\<And>n st. rely its st (w_env w n st)" and "ipc_inv its (space, g)" and "is_active space"
    and "is_growing space \<or> Suc (is_table_next space) < length its"
  shows "\<exists>kr st' n'. ipc_entry_grow_table its w n (space, g) = Some (kr, st', n') \<and> ipc_inv its st' \<and>
    kr \<in> {KERN_SUCCESS, KERN_RESOURCE_SHORTAGE}"
  using ipc_entry_grow_table_ok [of its w "(space, g)" n] assms by auto

definition world_example :: world where
  "world_example = \<lparr>w_env = (\<lambda>n (space, g). if n = 1 then (space\<lparr>is_active := False\<rparr>, g) else (space, g)),
     w_mem = (\<lambda>n. n < 5)\<rparr>"

theorem grow_table_terminates_witness:
  "\<exists>kr st' n'. ipc_entry_grow_table its_example world_example 0 (space_example, hash_global_example) = Some (kr, st', n') \<and>
    kr \<in> {KERN_SUCCESS, KERN_RESOURCE_SHORTAGE}"
proof -
  have "rely its_example st (w_env world_example n st)" for n st
    by (cases st) (simp add: rely_def world_example_def ipc_inv_def)
  moreover have "ipc_inv its_example (space_example, hash_global_example)" "is_active space_example"
    using space_inv_example by (simp_all add: space_inv_def ipc_inv_def)
  moreover have "Suc (is_table_next space_example) < length its_example"
    by (simp add: space_example_def its_example_def)
  ultimately show ?thesis
    using grow_table_terminates [of its_example world_example space_example hash_global_example 0] by blast
qed

text \<open>
  C24. When the table has its maximum size already, \<^verbatim>\<open>ipc_entry_grow_table\<close> reads the size that
  follows the last element of \<^verbatim>\<open>ipc_table_entries\<close> before it compares the sizes: the path that
  should return \<^verbatim>\<open>KERN_NO_SPACE\<close> always makes a read outside the array, and no other path does.
\<close>

theorem grow_table_at_maximum:
  assumes "space_ok its space R" and "is_active space" and "\<not> is_growing space"
    and "its ! (is_table_next space - 1) = its ! is_table_next space"
  shows "length its \<le> is_table_next space + 1 \<and> ipc_entry_grow_table its w n (space, g) = None"
proof -
  have ok: "its_ok its" "0 < is_table_next space" "is_table_next space < length its"
    using assms(1) by (auto simp: space_ok_def)
  have "length its \<le> is_table_next space + 1"
  proof (rule ccontr)
    assume "\<not> length its \<le> is_table_next space + 1"
    with its_nth_less [OF ok(1), of "is_table_next space - 1" "is_table_next space"] ok(2) assms(4) show False by simp
  qed
  then show ?thesis
    unfolding ipc_entry_grow_table.simps [of its w n "(space, g)"] using assms ok
    by (simp add: Let_def arr_get_def)
qed

theorem grow_table_at_maximum_witness:
  "length [4, 4 :: nat] \<le> is_table_next (space_example\<lparr>is_tree_small := 0\<rparr>) + 1 \<and>
   ipc_entry_grow_table [4, 4] world_example 0 (space_example\<lparr>is_tree_small := 0\<rparr>, hash_global_example) = None"
proof -
  let ?s = "space_example\<lparr>is_tree_small := 0\<rparr>"
  have "space_ok its_example space_example {}" by (rule space_example_ok)
  then have "space_ok [4, 4] ?s {}"
    using tree_example_ok type_example by (simp add: space_ok_def tree_ok_def its_ok_def) (simp add: space_example_def)
  moreover have "is_active ?s" "\<not> is_growing ?s" "[4, 4 :: nat] ! (is_table_next ?s - 1) = [4, 4] ! is_table_next ?s"
    by (simp_all add: space_example_def)
  ultimately show ?thesis using grow_table_at_maximum [of "[4, 4]" ?s "{}"] by blast
qed

text \<open>
  C11. Without interference, allocating an entry terminates as long as the space holds fewer names
  than its largest table: it yields a valid name that denoted nothing, with an empty entry, every
  other name keeps its entry and the reverse hash stays exact; the only failure is a memory shortage,
  and it leaves the names unchanged.
\<close>

theorem entry_alloc_fresh:
  assumes "quiet w" and "space_inv its space g" and "finite (dom (entries space))"
    and "card (dom (entries space)) < its ! (length its - 1) - 1"
  shows "\<exists>r space' g' n'. ipc_entry_alloc its w n (space, g) = Some (r, (space', g'), n') \<and>
      (case r of
         Inr (name, ptr) \<Rightarrow> ptr = ptr_of space' name \<and> allocates its space g space' g' name
       | Inl kr \<Rightarrow> kr = KERN_RESOURCE_SHORTAGE \<and> (\<exists>k. \<not> w_mem w k) \<and>
           space_inv its space' g' \<and> entries space' = entries space)"
  by (rule quiet_alloc [OF assms])

lemma dom_entries_example: "dom (entries space_example) \<subseteq> {1, 2, 3, 5, 9}"
proof
  fix n assume "n \<in> dom (entries space_example)"
  then obtain e where e: "raw_entry space_example n = Some e" "ie_type e \<noteq> 0" by (auto dest!: entries_Some)
  show "n \<in> {1, 2, 3, 5, 9}"
  proof (cases "unat n < 4")
    case True
    then have "n = 0 \<or> n = 1 \<or> n = 2 \<or> n = 3" unfolding less_4 by (auto simp: word_unat_eq_iff)
    moreover have "n \<noteq> 0" using e space_example_nth(1) by (auto simp: raw_entry_def space_example_nth(5))
    ultimately show ?thesis by auto
  next
    case False
    have "ist_list (is_tree space_example) = ist_list tree_example" by (simp add: space_example_def)
    with e(1) False tree_example_ok(2) show ?thesis
      by (auto simp: raw_entry_def space_example_nth(5) split: if_splits)
  qed
qed

definition quiet_example :: world where
  "quiet_example = \<lparr>w_env = (\<lambda>n st. st), w_mem = (\<lambda>n. True)\<rparr>"

lemma quiet_example_ok: "quiet quiet_example" "w_mem quiet_example k"
  by (simp_all add: quiet_def quiet_example_def)

theorem entry_alloc_fresh_witness:
  "\<exists>name space' g' n'. ipc_entry_alloc its_example quiet_example 0 (space_example, hash_global_example) =
      Some (Inr (name, ptr_of space' name), (space', g'), n') \<and>
    allocates its_example space_example hash_global_example space' g' name"
proof -
  have fin: "finite (dom (entries space_example))" by (rule finite_subset [OF dom_entries_example]) simp
  have "card (dom (entries space_example)) \<le> card {1, 2, 3, 5, 9 :: mach_port}"
    by (rule card_mono [OF _ dom_entries_example]) simp
  then have "card (dom (entries space_example)) < its_example ! (length its_example - 1) - 1"
    by (simp add: its_example_def)
  from entry_alloc_fresh [OF quiet_example_ok(1) space_inv_example fin this, of 0]
  obtain r space' g' n' where r: "ipc_entry_alloc its_example quiet_example 0 (space_example, hash_global_example) =
      Some (r, (space', g'), n')" and c: "case r of
         Inr (name, ptr) \<Rightarrow> ptr = ptr_of space' name \<and> allocates its_example space_example hash_global_example space' g' name
       | Inl kr \<Rightarrow> kr = KERN_RESOURCE_SHORTAGE \<and> (\<exists>k. \<not> w_mem quiet_example k) \<and>
           space_inv its_example space' g' \<and> entries space' = entries space_example" by blast
  show ?thesis
  proof (cases r)
    case (Inr p)
    then show ?thesis using r c by (cases p) auto
  qed (use c quiet_example_ok(2) in simp)
qed

text \<open>
  C14. Without interference, allocating a given valid name terminates. A name that denotes an entry already
  yields that entry, whether or not there is memory. A name that denotes nothing is reserved with an
  empty entry, in the table or in the tree, after growing the table where that saves space; only if it lies
  beyond the table and memory runs out does the call fail, and then no name has changed. In all
  cases the other names keep their entries.
\<close>

theorem entry_alloc_name_exact:
  assumes "quiet w" and "MACH_PORT_VALID name" and "space_inv its space g"
  shows "\<exists>r space' g' n'. ipc_entry_alloc_name its w have n (space, g) name = Some (r, (space', g'), n') \<and>
    (case r of
       Inr ptr \<Rightarrow> ptr = ptr_of space' name \<and>
         (if entries space name = None then allocates its space g space' g' name
          else space_inv its space' g' \<and> entries space' = entries space)
     | Inl kr \<Rightarrow> kr = KERN_RESOURCE_SHORTAGE \<and> (\<exists>k. \<not> w_mem w k) \<and>
         entries space name = None \<and> is_table_size space \<le> unat name \<and>
         space_inv its space' g' \<and> entries space' = entries space)"
proof (cases "unat name < is_table_size space")
  case True
  with alloc_name_in_table [OF assms(3,2)] obtain p space'
    where "ipc_entry_alloc_name its w have n (space, g) name = Some (Inr p, (space', g), n)"
      "alloc_name_post its w space g name (Inr p) space' g" by blast
  then show ?thesis by (auto simp: alloc_name_post_def split: if_splits)
next
  case False
  obtain r space' g' n' where "ipc_entry_alloc_name its w have n (space, g) name = Some (r, (space', g'), n')"
    "alloc_name_post its w space g name r space' g'" using quiet_alloc_name [OF assms] by blast
  with False show ?thesis by (auto simp: alloc_name_post_def split: sum.splits if_splits)
qed

theorem entry_alloc_name_exact_witness:
  "\<exists>space' g' n'. ipc_entry_alloc_name its_example quiet_example False 0 (space_example, hash_global_example) 6 =
      Some (Inr (ptr_of space' 6), (space', g'), n') \<and>
    allocates its_example space_example hash_global_example space' g' 6"
proof -
  have "MACH_PORT_VALID 6" by code_simp
  from entry_alloc_name_exact [OF quiet_example_ok(1) this space_inv_example, of False 0]
  obtain r space' g' n' where r: "ipc_entry_alloc_name its_example quiet_example False 0 (space_example, hash_global_example) 6 =
      Some (r, (space', g'), n')" and c: "case r of
         Inr ptr \<Rightarrow> ptr = ptr_of space' 6 \<and>
           (if entries space_example 6 = None then allocates its_example space_example hash_global_example space' g' 6
            else space_inv its_example space' g' \<and> entries space' = entries space_example)
       | Inl kr \<Rightarrow> kr = KERN_RESOURCE_SHORTAGE \<and> (\<exists>k. \<not> w_mem quiet_example k) \<and>
           entries space_example 6 = None \<and> is_table_size space_example \<le> unat (6 :: mach_port) \<and>
           space_inv its_example space' g' \<and> entries space' = entries space_example" by blast
  show ?thesis
  proof (cases r)
    case (Inr p)
    then show ?thesis using r c entries_example(3) by auto
  qed (use c quiet_example_ok(2) in simp)
qed

subsection \<open>The contract of a name space\<close>

text \<open>
  What the code that manipulates rights relies on: it looks a name up, changes the entry it was
  given, and frees the name with that entry. \<open>ents\<close> is the map from names to entries, \<open>ptr\<close> the place
  of a name's entry; \<open>upd\<close> says that a change keeps the entry in use, \<open>clear\<close> that an entry can be
  freed.
\<close>

locale name_space =
  fixes inv :: "'s \<Rightarrow> bool"
    and ents :: "'s \<Rightarrow> mach_port \<Rightarrow> 'e option"
    and ptr :: "'s \<Rightarrow> mach_port \<Rightarrow> 'p"
    and upd :: "('e \<Rightarrow> 'e) \<Rightarrow> 'e \<Rightarrow> bool"
    and clear :: "'e \<Rightarrow> bool"
    and lkp :: "'s \<Rightarrow> mach_port \<Rightarrow> ('p option \<times> 's) option"
    and wr :: "'s \<Rightarrow> 'p \<Rightarrow> ('e \<Rightarrow> 'e) \<Rightarrow> 's option"
    and del :: "'s \<Rightarrow> mach_port \<Rightarrow> 'p \<Rightarrow> 's option"
  assumes lookup_law: "inv s \<Longrightarrow>
      \<exists>s'. lkp s n = Some (map_option (\<lambda>_. ptr s n) (ents s n), s') \<and> inv s' \<and> ents s' = ents s \<and> ptr s' = ptr s"
    and write_law: "inv s \<Longrightarrow> ents s n = Some e \<Longrightarrow> upd f e \<Longrightarrow>
      \<exists>s'. wr s (ptr s n) f = Some s' \<and> inv s' \<and> ents s' = (ents s)(n \<mapsto> f e) \<and> ptr s' = ptr s"
    and delete_law: "inv s \<Longrightarrow> ents s n = Some e \<Longrightarrow> clear e \<Longrightarrow>
      \<exists>s'. del s n (ptr s n) = Some s' \<and> inv s' \<and> ents s' = (ents s)(n := None)"
begin

lemma update_by_name:
  assumes "inv s" and "ents s n = Some e" and "upd f e"
  shows "\<exists>s1 s2. lkp s n = Some (Some (ptr s n), s1) \<and> wr s1 (ptr s n) f = Some s2 \<and> inv s2 \<and>
    ents s2 = (ents s)(n \<mapsto> f e) \<and> ptr s2 = ptr s"
proof -
  obtain s1 where s1: "lkp s n = Some (Some (ptr s n), s1)" "inv s1" "ents s1 = ents s" "ptr s1 = ptr s"
    using lookup_law [OF assms(1), of n] assms(2) by auto
  from write_law [OF s1(2), of n e f] s1 assms show ?thesis by auto
qed

lemma free_by_name:
  assumes "inv s" and "ents s n = Some e" and "upd f e" and "clear (f e)"
  shows "\<exists>s1 s2 s3. lkp s n = Some (Some (ptr s n), s1) \<and> wr s1 (ptr s n) f = Some s2 \<and>
    del s2 n (ptr s n) = Some s3 \<and> inv s3 \<and> ents s3 = (ents s)(n := None) \<and>
    map_option fst (lkp s3 n) = Some None"
proof -
  obtain s1 s2 where s2: "lkp s n = Some (Some (ptr s n), s1)" "wr s1 (ptr s n) f = Some s2" "inv s2"
    "ents s2 = (ents s)(n \<mapsto> f e)" "ptr s2 = ptr s" using update_by_name [OF assms(1-3)] by blast
  then obtain s3 where s3: "del s2 n (ptr s n) = Some s3" "inv s3" "ents s3 = (ents s)(n := None)"
    using delete_law [OF s2(3), of n "f e"] assms(4) by auto
  from lookup_law [OF s3(2), of n] s3(3) have "map_option fst (lkp s3 n) = Some None" by auto
  with s2 s3 show ?thesis by blast
qed

end

text \<open>The entry operations keep the contract.\<close>

definition entry_upd :: "(ipc_entry \<Rightarrow> ipc_entry) \<Rightarrow> ipc_entry \<Rightarrow> bool" where
  "entry_upd f e \<longleftrightarrow>
     (\<forall>i. f (e\<lparr>ie_index := i\<rparr>) = (f e)\<lparr>ie_index := i\<rparr>) \<and>
     ie_type (f e) \<noteq> 0 \<and> ie_bits (f e) AND IE_BITS_COLLISION = 0"

definition entry_clear :: "ipc_entry \<Rightarrow> bool" where
  "entry_clear e \<longleftrightarrow> ie_object e = IO_NULL \<and> ie_request e = 0"

definition live_space :: "nat list \<Rightarrow> ipc_space \<Rightarrow> bool" where
  "live_space its space \<longleftrightarrow> is_active space \<and> space_ok its space {}"

lemma entries_in_use:
  assumes "space_ok its space R" and "entries space n = Some e"
  shows "ie_type e \<noteq> 0" and "ie_bits e AND IE_BITS_COLLISION = 0"
proof -
  obtain e' where e': "raw_entry space n = Some e'" "ie_type e' \<noteq> 0" "e = e'\<lparr>ie_index := 0\<rparr>"
    using entries_Some [OF assms(2)] by blast
  then show "ie_type e \<noteq> 0" by simp
  have "ie_bits e' AND IE_BITS_COLLISION = 0"
  proof (cases "unat n < is_table_size space")
    case True
    then show ?thesis using e'(1) space_okD(2) [OF assms(1)] by (auto simp: raw_entry_def table_ok_def)
  next
    case False
    then show ?thesis using e'(1) tree_entryD(4) [OF assms(1), of n e'] by (simp add: raw_entry_def)
  qed
  then show "ie_bits e AND IE_BITS_COLLISION = 0" by (simp add: e'(3))
qed

lemma entries_nz: "space_ok its space R \<Longrightarrow> entries space n = Some e \<Longrightarrow> n \<noteq> 0"
  using entries_zero by force

interpretation ent: name_space "live_space its" entries ptr_of entry_upd entry_clear ipc_entry_lookup write_entry
  "\<lambda>space n p. map_option fst (ipc_entry_dealloc its space g n p)" for its g
proof
  fix s n assume "live_space its s"
  then have ok: "space_ok its s {}" and act: "is_active s" by (auto simp: live_space_def)
  from entry_lookup_ok [OF ok act, of n] obtain s' where
    "ipc_entry_lookup s n = Some (if entries s n = None then None else Some (ptr_of s n), s')" "same_tree s s'" by auto
  with ok act same_tree_ok [of s s'] show "\<exists>s'. ipc_entry_lookup s n = Some (map_option (\<lambda>_. ptr_of s n) (entries s n), s') \<and>
      live_space its s' \<and> entries s' = entries s \<and> ptr_of s' = ptr_of s"
    by (cases "entries s n") (auto simp: live_space_def same_tree_eqs)
next
  fix s n e f assume s: "live_space its s" "entries s n = Some e" "entry_upd f e"
  then have ok: "space_ok its s {}" and act: "is_active s" by (auto simp: live_space_def)
  obtain e' where e': "raw_entry s n = Some e'" "ie_type e' \<noteq> 0" "e = e'\<lparr>ie_index := 0\<rparr>" using entries_Some [OF s(2)] by blast
  have "e' = e\<lparr>ie_index := ie_index e'\<rparr>" using e'(3) by simp
  then have fe: "f e' = (f e)\<lparr>ie_index := ie_index e'\<rparr>" using s(3) unfolding entry_upd_def by metis
  then have "ie_type (f e') \<noteq> 0" "ie_bits (f e') AND IE_BITS_COLLISION = 0" "ie_index (f e') = ie_index e'"
    using s(3) by (simp_all add: entry_upd_def)
  from entry_write_ok [OF ok entries_nz [OF ok s(2)] e'(1), of f] this e'(2) obtain s' where
    s': "write_entry s (ptr_of s n) f = Some s'" "space_ok its s' {}"
    "entries s' = (entries s)(n \<mapsto> (f e')\<lparr>ie_index := 0\<rparr>)" "same_index s s'" by auto
  moreover have "(f e')\<lparr>ie_index := 0\<rparr> = f e"
  proof -
    have "f e = (f e)\<lparr>ie_index := 0\<rparr>" using s(3) e'(3) unfolding entry_upd_def
      by (metis ipc_entry.surjective ipc_entry.update_convs(4))
    with fe show ?thesis by simp
  qed
  moreover have "ptr_of s' = ptr_of s" using s'(4) by (simp add: fun_eq_iff ptr_of_def same_index_def)
  moreover have "live_space its s'" using s' act by (simp add: live_space_def same_index_def)
  ultimately show "\<exists>s'. write_entry s (ptr_of s n) f = Some s' \<and> live_space its s' \<and>
      entries s' = (entries s)(n \<mapsto> f e) \<and> ptr_of s' = ptr_of s" by simp
next
  fix s n e assume s: "live_space its s" "entries s n = Some e" "entry_clear e"
  then have ok: "space_ok its s {}" and act: "is_active s" by (auto simp: live_space_def)
  obtain e' where e': "raw_entry s n = Some e'" "ie_type e' \<noteq> 0" "e = e'\<lparr>ie_index := 0\<rparr>" using entries_Some [OF s(2)] by blast
  from entry_dealloc_ok [OF ok act entries_nz [OF ok s(2)] e'(1), of g] e' s(3)
  obtain s' where "ipc_entry_dealloc its s g n (ptr_of s n) = Some (s', g)" "space_ok its s' {}"
    "entries s' = (entries s)(n := None)" "same_index s s'" by (auto simp: entry_clear_def)
  with act show "\<exists>s'. map_option fst (ipc_entry_dealloc its s g n (ptr_of s n)) = Some s' \<and> live_space its s' \<and>
      entries s' = (entries s)(n := None)" by (auto simp: live_space_def same_index_def)
qed

text \<open>
  C22. A lookup finds exactly the names that denote an entry, in the table or in the tree, returns the
  place of that entry, and changes no name.
\<close>

theorem entry_lookup_exact:
  assumes "live_space its space"
  shows "\<exists>space'. ipc_entry_lookup space name = Some (map_option (\<lambda>_. ptr_of space name) (entries space name), space') \<and>
    live_space its space' \<and> entries space' = entries space \<and>
    get_entry space' (ptr_of space name) = raw_entry space name"
proof -
  have ok: "space_ok its space {}" and act: "is_active space" using assms by (auto simp: live_space_def)
  from entry_lookup_ok [OF ok act, of name] obtain space' where
    lk: "ipc_entry_lookup space name = Some (if entries space name = None then None else Some (ptr_of space name), space')"
    and st: "same_tree space space'" by auto
  have "get_entry space' (ptr_of space name) = raw_entry space name"
    using get_entry_ptr_of [of space' name] same_tree_ok(2,4) [OF st] by simp
  moreover have "live_space its space'"
    using ok act same_tree_ok(1) [OF st] by (simp add: live_space_def same_tree_eqs [OF st])
  ultimately show ?thesis using lk same_tree_ok(3) [OF st] by (cases "entries space name") auto
qed

lemma live_space_example: "live_space its_example space_example"
  using space_inv_example by (simp add: live_space_def space_inv_def)

theorem entry_lookup_exact_witness:
  "map_option fst (ipc_entry_lookup space_example 5) = Some (Some (Tree_entry 5)) \<and>
   map_option fst (ipc_entry_lookup space_example 2) = Some (Some (Table_entry 2)) \<and>
   map_option fst (ipc_entry_lookup space_example 6) = Some None"
proof -
  have "unat (2::mach_port) = 2" by code_simp
  then have "ptr_of space_example 5 = Tree_entry 5" "ptr_of space_example 2 = Table_entry 2"
    unfolding ptr_of_def space_example_nth(5) type_example by simp_all
  with entry_lookup_exact [OF live_space_example, of 5] entry_lookup_exact [OF live_space_example, of 2]
    entry_lookup_exact [OF live_space_example, of 6] entries_example show ?thesis by auto
qed

definition clear_entry :: "ipc_entry \<Rightarrow> ipc_entry" where
  "clear_entry e = e\<lparr>ie_object := IO_NULL, ie_request := 0\<rparr>"

text \<open>
  C21. Freeing a name: looking it up, clearing its entry and deallocating it succeeds, removes exactly
  that name, keeps the invariant (the entry joins the free list or leaves the tree), and a later
  lookup of the name finds nothing.
\<close>

theorem entry_free_by_name:
  assumes "live_space its space" and "entries space name = Some e"
  shows "\<exists>s1 s2 s3. ipc_entry_lookup space name = Some (Some (ptr_of space name), s1) \<and>
    write_entry s1 (ptr_of space name) clear_entry = Some s2 \<and>
    map_option fst (ipc_entry_dealloc its s2 g name (ptr_of space name)) = Some s3 \<and> live_space its s3 \<and>
    entries s3 = (entries space)(name := None) \<and> map_option fst (ipc_entry_lookup s3 name) = Some None"
proof (rule ent.free_by_name [OF assms])
  have ok: "space_ok its space {}" using assms(1) by (simp add: live_space_def)
  show "entry_upd clear_entry e"
    using entries_in_use [OF ok assms(2)] by (simp add: entry_upd_def clear_entry_def)
  show "entry_clear (clear_entry e)" by (simp add: entry_clear_def clear_entry_def)
qed

theorem entry_free_by_name_witness:
  "\<exists>s1 s2 s3. ipc_entry_lookup space_example 5 = Some (Some (Tree_entry 5), s1) \<and>
    write_entry s1 (Tree_entry 5) clear_entry = Some s2 \<and>
    map_option fst (ipc_entry_dealloc its_example s2 hash_global_example 5 (Tree_entry 5)) = Some s3 \<and>
    entries s3 5 = None \<and> entries s3 2 = Some \<lparr>ie_bits = 0x20000, ie_object = 0x80, ie_request = 0, ie_index = 0\<rparr>"
proof -
  have "ptr_of space_example 5 = Tree_entry 5" unfolding ptr_of_def space_example_nth(5) type_example by simp
  with entry_free_by_name [OF live_space_example entries_example(1), of hash_global_example] entries_example(2)
  show ?thesis by fastforce
qed

text \<open>
  C15. The reverse lookup, over the local table and the global chains together, is exact: it returns a
  name and the place of its entry if and only if some name denotes a pure send right for the object,
  and then it is that name; it disturbs neither invariant.
\<close>

theorem reverse_lookup_exact:
  assumes "space_inv its space g" and "obj \<noteq> IO_NULL"
  shows "\<exists>r g'. ipc_hash_lookup space g obj = Some (r, g') \<and> space_inv its space g' \<and> glob_refs g' = glob_refs g \<and>
    (\<forall>n ptr. r = Some (n, ptr) \<longleftrightarrow> ptr = ptr_of space n \<and>
      (\<exists>e. entries space n = Some e \<and> ie_type e = MACH_PORT_TYPE_SEND \<and> ie_object e = obj))"
proof -
  have ok: "space_ok its space {}" and inv: "hash_inv space g (send_names space)" using assms(1) by (auto simp: space_inv_def)
  from hash_lookup_ok [OF ok inv assms(2)] obtain r g' where r: "ipc_hash_lookup space g obj = Some (r, g')"
    "hash_inv space g' (send_names space)" "glob_refs g' = glob_refs g"
    and c: "case r of None \<Rightarrow> \<forall>n \<in> send_names space. obj_of space n \<noteq> obj
             | Some (n, ptr) \<Rightarrow> n \<in> send_names space \<and> obj_of space n = obj \<and> ptr = ptr_of space n" by blast
  have ex: "(\<exists>e. entries space n = Some e \<and> ie_type e = MACH_PORT_TYPE_SEND \<and> ie_object e = obj) \<longleftrightarrow>
      n \<in> send_names space \<and> obj_of space n = obj" for n
    using obj_of_entries [of space n] by (auto simp: send_names_def)
  have uniq: "n = n'" if "n \<in> send_names space" "n' \<in> send_names space" "obj_of space n = obj_of space n'" for n n'
    using inj_onD [OF hash_invD(7) [OF inv] that(3,1,2)] .
  have "r = Some (n, ptr) \<longleftrightarrow> ptr = ptr_of space n \<and> n \<in> send_names space \<and> obj_of space n = obj" for n ptr
  proof (cases r)
    case (Some p)
    then show ?thesis using c uniq by (cases p) auto
  qed (use c in auto)
  then show ?thesis unfolding ex using r assms(1) by (auto simp: space_inv_def)
qed

theorem reverse_lookup_exact_witness:
  "map_option fst (ipc_hash_lookup space_example hash_global_example 0x100) = Some (Some (5, Tree_entry 5)) \<and>
   map_option fst (ipc_hash_lookup space_example hash_global_example 0x80) = Some None"
proof -
  have p: "ptr_of space_example 5 = Tree_entry 5" unfolding ptr_of_def space_example_nth(5) type_example by simp
  have nn: "(0x100::ptr) \<noteq> IO_NULL" "(0x80::ptr) \<noteq> IO_NULL" by (simp_all add: IO_NULL_def)
  have "\<exists>e. entries space_example 5 = Some e \<and> ie_type e = MACH_PORT_TYPE_SEND \<and> ie_object e = 0x100"
    using entries_example(1) type_example(1) by simp
  with reverse_lookup_exact [OF space_inv_example nn(1)] p
  have "map_option fst (ipc_hash_lookup space_example hash_global_example 0x100) = Some (Some (5, Tree_entry 5))" by fastforce
  moreover have "ie_object e \<noteq> 0x80" if "entries space_example n = Some e" "ie_type e = MACH_PORT_TYPE_SEND" for n e
  proof -
    have "n \<in> {1, 3, 5}" using that send_names_example by (auto simp: send_names_def)
    moreover have "obj_of space_example 1 = 0x40" "obj_of space_example 3 = 0xc0" "obj_of space_example 5 = 0x100"
      using obj_example by simp_all
    ultimately show ?thesis using obj_of_entries [OF that(1)] by auto
  qed
  then have "map_option fst (ipc_hash_lookup space_example hash_global_example 0x80) = Some None"
    using reverse_lookup_exact [OF space_inv_example nn(2)] by (metis (no_types, lifting) fst_conv not_Some_eq option.simps(9) surj_pair)
  ultimately show ?thesis by blast
qed

end
