(* ===== verification/Ipc_Port.thy ===== *)
theory Ipc_Port
  imports Ipc_State Ipc_Table Ipc_Entry
begin

text \<open>
  Ports (\<^verbatim>\<open>struct ipc_port\<close> of \<^verbatim>\<open>kernel/ipc/ipc_port.h\<close>) and the operations of
  \<^verbatim>\<open>kernel/ipc/ipc_port.c\<close> on rights, requests and transit.

  The ports live in a store \<open>ports\<close> from pointers to records; freeing a port removes it from the
  store, so a later access is a wild access and has no result. \<open>locked\<close> is the set of ports that
  the running thread has locked: locking a port twice or unlocking a port that is not locked has no
  result either, nor has locking a second port without the multiple lock, which the comment at
  \<^verbatim>\<open>ipc_port_multiple_lock\<close> forbids. Calls into other components (sending a notification, waking
  a thread, destroying a message) are appended to \<open>events\<close>.
\<close>

subsection \<open>Objects and ports\<close>

definition IO_BITS_KOTYPE :: u32 where "IO_BITS_KOTYPE = 0x0000ffff"
definition IO_BITS_ACTIVE :: u32 where "IO_BITS_ACTIVE = 0x80000000"

definition io_active :: "u32 \<Rightarrow> bool" where
  "io_active bits \<longleftrightarrow> sint bits < 0"

definition IOT_PORT :: u32 where "IOT_PORT = 0"

definition io_makebits :: "bool \<Rightarrow> u32 \<Rightarrow> u32 \<Rightarrow> u32" where
  "io_makebits active otype kotype =
     or (or (if active then IO_BITS_ACTIVE else 0) (push_bit 16 otype)) kotype"

definition IP_NULL :: ptr where "IP_NULL = IO_NULL"
definition IP_DEAD :: ptr where "IP_DEAD = IO_DEAD"

definition IP_VALID :: "ptr \<Rightarrow> bool" where
  "IP_VALID port \<longleftrightarrow> IO_VALID port"

text \<open>
  An element of a dead-name request table. \<open>ipr_notify\<close> is the union of \<^verbatim>\<open>ipr_soright\<close> and
  \<^verbatim>\<open>ipr_next\<close>. Element 0 is the header of the table: its \<^verbatim>\<open>ipr_next\<close> starts the free list, and
  its \<^verbatim>\<open>ipr_size\<close>, a pointer into the array \<^verbatim>\<open>ipc_table_dnrequests\<close>, is the field \<open>dn_size\<close> of
  the table, an index into that array. \<open>dn_addr\<close> is the address of the table.
\<close>

record ipc_port_request =
  ipr_notify :: u32
  ipr_name :: mach_port

record dn_table =
  dn_addr :: ptr
  dn_size :: nat
  dn_elems :: "ipc_port_request list"

text \<open>
  \<open>ip_data\<close> is the union of \<^verbatim>\<open>ip_receiver\<close>, \<^verbatim>\<open>ip_destination\<close> and \<^verbatim>\<open>ip_timestamp\<close>. The message
  queue and the queue of blocked senders are lists of pointers.
\<close>

record ipc_port =
  ip_bits :: u32
  ip_references :: u32
  ip_receiver_name :: mach_port
  ip_data :: u32
  ip_mscount :: u32
  ip_srights :: u32
  ip_sorights :: u32
  ip_nsrequest :: ptr
  ip_pdrequest :: ptr
  ip_dnrequests :: "dn_table option"
  ip_pset :: ptr
  ip_seqno :: u32
  ip_msgcount :: u32
  ip_qlimit :: u32
  ip_messages :: "ptr list"
  ip_blocked :: "ptr list"

abbreviation ip_active :: "ipc_port \<Rightarrow> bool" where
  "ip_active port \<equiv> io_active (ip_bits port)"

abbreviation ip_destination :: "ipc_port \<Rightarrow> ptr" where
  "ip_destination \<equiv> ip_data"

abbreviation ip_destination_update :: "(ptr \<Rightarrow> ptr) \<Rightarrow> ipc_port \<Rightarrow> ipc_port" where
  "ip_destination_update \<equiv> ip_data_update"

datatype port_event =
    No_senders ptr u32
  | Port_destroyed ptr ptr
  | Port_destroyed_compat ptr ptr
  | Send_once ptr
  | Dead_name ptr mach_port
  | Delete_compat ptr ptr mach_port
  | Thread_go ptr
  | Kmsg_destroy ptr
  | Kobject_destroy ptr
  | Dnrequests_free nat ptr
  | Port_freed ptr
  | Port_deleted ptr mach_port
  | Port_deleted_compat ptr mach_port
  | Marequest_cancel ptr mach_port
  | Marequest_rename ptr mach_port mach_port
  | Pset_destroy ptr
  | Pset_remove ptr ptr
  | Pset_rename ptr mach_port mach_port
  | Receivers_wakeup ptr

record port_state =
  ports :: "ptr \<Rightarrow> ipc_port option"
  locked :: "ptr set"
  multiple :: bool
  timestamp_data :: u32
  events :: "port_event list"

definition upd_port :: "port_state \<Rightarrow> ptr \<Rightarrow> (ipc_port \<Rightarrow> ipc_port) \<Rightarrow> port_state option" where
  "upd_port st p f =
     do { port \<leftarrow> ports st p;
          Some (st\<lparr>ports := (ports st)(p \<mapsto> f port)\<rparr>) }"

definition emit :: "port_event list \<Rightarrow> port_state \<Rightarrow> port_state" where
  "emit es st = st\<lparr>events := events st @ es\<rparr>"

definition ip_lock :: "port_state \<Rightarrow> ptr \<Rightarrow> port_state option" where
  "ip_lock st p =
     do { _ \<leftarrow> ports st p;
          assert_that (p \<notin> locked st \<and> (locked st = {} \<or> multiple st));
          Some (st\<lparr>locked := insert p (locked st)\<rparr>) }"

text \<open>A lock that is only tried is taken unless another thread has it (\<open>free\<close> is false).\<close>

definition ip_lock_try :: "bool \<Rightarrow> port_state \<Rightarrow> ptr \<Rightarrow> (bool \<times> port_state) option" where
  "ip_lock_try free st p =
     do { _ \<leftarrow> ports st p;
          if free \<and> p \<notin> locked st then Some (True, st\<lparr>locked := insert p (locked st)\<rparr>)
          else Some (False, st) }"

definition ip_unlock :: "port_state \<Rightarrow> ptr \<Rightarrow> port_state option" where
  "ip_unlock st p =
     do { _ \<leftarrow> ports st p;
          assert_that (p \<in> locked st);
          Some (st\<lparr>locked := locked st - {p}\<rparr>) }"

definition ip_check_unlock :: "port_state \<Rightarrow> ptr \<Rightarrow> port_state option" where
  "ip_check_unlock st p =
     do { port \<leftarrow> ports st p;
          let refs = ip_references port;
          st \<leftarrow> ip_unlock st p;
          Some (if refs = 0 then emit [Port_freed p] (st\<lparr>ports := (ports st)(p := None)\<rparr>) else st) }"

definition ip_reference :: "port_state \<Rightarrow> ptr \<Rightarrow> port_state option" where
  "ip_reference st p = upd_port st p (\<lambda>port. port\<lparr>ip_references := ip_references port + 1\<rparr>)"

definition ip_release :: "port_state \<Rightarrow> ptr \<Rightarrow> port_state option" where
  "ip_release st p = upd_port st p (\<lambda>port. port\<lparr>ip_references := ip_references port - 1\<rparr>)"

definition ipc_port_reference :: "port_state \<Rightarrow> ptr \<Rightarrow> port_state option" where
  "ipc_port_reference st p =
     do { st \<leftarrow> ip_lock st p;
          port \<leftarrow> ports st p;
          assert_that (ip_references port > 0);
          st \<leftarrow> ip_reference st p;
          ip_unlock st p }"

definition ipc_port_release :: "port_state \<Rightarrow> ptr \<Rightarrow> port_state option" where
  "ipc_port_release st p =
     do { st \<leftarrow> ip_lock st p;
          port \<leftarrow> ports st p;
          assert_that (ip_references port > 0);
          st \<leftarrow> ip_release st p;
          ip_check_unlock st p }"

definition ipc_port_multiple_lock :: "port_state \<Rightarrow> port_state option" where
  "ipc_port_multiple_lock st =
     do { assert_that (\<not> multiple st \<and> locked st = {});
          Some (st\<lparr>multiple := True\<rparr>) }"

definition ipc_port_multiple_unlock :: "port_state \<Rightarrow> port_state option" where
  "ipc_port_multiple_unlock st =
     do { assert_that (multiple st);
          Some (st\<lparr>multiple := False\<rparr>) }"

subsection \<open>Timestamps\<close>

definition ipc_port_timestamp :: "port_state \<Rightarrow> u32 \<times> port_state" where
  "ipc_port_timestamp st = (timestamp_data st, st\<lparr>timestamp_data := timestamp_data st + 1\<rparr>)"

definition IP_TIMESTAMP_ORDER :: "u32 \<Rightarrow> u32 \<Rightarrow> bool" where
  "IP_TIMESTAMP_ORDER one two \<longleftrightarrow> sint (one - two) < 0"

subsection \<open>Dead-name requests\<close>

definition ipc_port_dnrequest ::
    "port_state \<Rightarrow> ptr \<Rightarrow> mach_port \<Rightarrow> ptr \<Rightarrow> ((kern_return + u32) \<times> port_state) option" where
  "ipc_port_dnrequest st p name soright =
     do { port \<leftarrow> ports st p;
          assert_that (ip_active port);
          assert_that (name \<noteq> MACH_PORT_NULL);
          assert_that (soright \<noteq> IP_NULL);
          case ip_dnrequests port of
            None \<Rightarrow> Some (Inl KERN_NO_SPACE, st)
          | Some table \<Rightarrow>
              do { header \<leftarrow> arr_get (dn_elems table) 0;
                   let index = ipr_notify header;
                   if index = 0 then Some (Inl KERN_NO_SPACE, st)
                   else
                     do { ipr \<leftarrow> arr_get (dn_elems table) (unat index);
                          assert_that (ipr_name ipr = MACH_PORT_NULL);
                          elems \<leftarrow> arr_set (dn_elems table) 0 (header\<lparr>ipr_notify := ipr_notify ipr\<rparr>);
                          elems \<leftarrow> arr_set elems (unat index)
                                     (ipr\<lparr>ipr_name := name, ipr_notify := soright\<rparr>);
                          st \<leftarrow> upd_port st p
                                 (\<lambda>port. port\<lparr>ip_dnrequests := Some (table\<lparr>dn_elems := elems\<rparr>)\<rparr>);
                          Some (Inr index, st) } } }"

text \<open>The loop that links the elements from \<open>i\<close> up to \<open>nsize\<close> into the free list.\<close>

function dngrow_link ::
    "nat \<Rightarrow> nat \<Rightarrow> u32 \<Rightarrow> ipc_port_request list \<Rightarrow> (u32 \<times> ipc_port_request list) option" where
  "dngrow_link nsize i free table =
     (if i < nsize then
        do { table \<leftarrow> arr_set table i \<lparr>ipr_notify = free, ipr_name = MACH_PORT_NULL\<rparr>;
             dngrow_link nsize (i + 1) (of_nat i) table }
      else Some (free, table))"
  by pat_completeness auto
termination by (relation "measure (\<lambda>(nsize, i, free, table). nsize - i)") auto

declare dngrow_link.simps [simp del]

text \<open>\<^verbatim>\<open>bcopy\<close> of the elements 1 to \<open>osize - 1\<close>.\<close>

definition dngrow_copy ::
    "nat \<Rightarrow> ipc_port_request list \<Rightarrow> ipc_port_request list \<Rightarrow> ipc_port_request list option" where
  "dngrow_copy osize otable ntable =
     do { assert_that (osize \<le> length otable \<and> osize \<le> length ntable \<and> 0 < osize);
          Some (take 1 ntable @ drop 1 (take osize otable) @ drop osize ntable) }"

text \<open>The part of \<^verbatim>\<open>ipc_port_dngrow\<close> that fills the new table \<open>ntable\<close>, whose address is \<open>addr\<close>.\<close>

definition dngrow_fill ::
    "nat list \<Rightarrow> dn_table option \<Rightarrow> nat \<Rightarrow> ptr \<Rightarrow> ipc_port_request list \<Rightarrow> dn_table option" where
  "dngrow_fill sizes otable its addr ntable =
     do { (osize, free, ntable) \<leftarrow>
            (case otable of
               Some otable \<Rightarrow>
                 do { osize \<leftarrow> arr_get sizes (dn_size otable);
                      header \<leftarrow> arr_get (dn_elems otable) 0;
                      ntable \<leftarrow> dngrow_copy osize (dn_elems otable) ntable;
                      Some (osize, ipr_notify header, ntable) }
             | None \<Rightarrow> Some (1, 0, ntable));
          nsize \<leftarrow> arr_get sizes its;
          assert_that (nsize > osize);
          (free, ntable) \<leftarrow> dngrow_link nsize osize free ntable;
          header \<leftarrow> arr_get ntable 0;
          ntable \<leftarrow> arr_set ntable 0 (header\<lparr>ipr_notify := free\<rparr>);
          Some \<lparr>dn_addr = addr, dn_size = its, dn_elems = ntable\<rparr> }"

text \<open>The check that the port is still active and that nobody else has grown the table.\<close>

definition dngrow_same :: "ipc_port \<Rightarrow> ptr option \<Rightarrow> nat \<Rightarrow> bool" where
  "dngrow_same port otable its \<longleftrightarrow>
     ip_active port \<and>
     map_option dn_addr (ip_dnrequests port) = otable \<and>
     (case ip_dnrequests port of None \<Rightarrow> True | Some table \<Rightarrow> dn_size table + 1 = its)"

text \<open>
  The part after the allocation of the new table. \<open>otable\<close> is the address of the table the port had
  before the port was unlocked.
\<close>

definition dngrow_install ::
    "nat list \<Rightarrow> ptr option \<Rightarrow> nat \<Rightarrow> ptr \<Rightarrow> ipc_port_request list \<Rightarrow> port_state \<Rightarrow> ptr \<Rightarrow>
     (kern_return \<times> port_state) option" where
  "dngrow_install sizes otable its addr ntable st p =
     do { st \<leftarrow> ip_lock st p;
          st \<leftarrow> ip_release st p;
          port \<leftarrow> ports st p;
          if dngrow_same port otable its then
            do { table \<leftarrow> dngrow_fill sizes (ip_dnrequests port) its addr ntable;
                 st \<leftarrow> upd_port st p (\<lambda>port. port\<lparr>ip_dnrequests := Some table\<rparr>);
                 st \<leftarrow> ip_unlock st p;
                 Some (KERN_SUCCESS,
                   (case ip_dnrequests port of
                      None \<Rightarrow> st
                    | Some t \<Rightarrow> emit [Dnrequests_free (dn_size t) (dn_addr t)] st)) }
          else
            do { st \<leftarrow> ip_check_unlock st p;
                 Some (KERN_SUCCESS, emit [Dnrequests_free its addr] st) } }"

text \<open>
  \<open>sizes\<close> is the array \<^verbatim>\<open>ipc_table_dnrequests\<close>, \<open>mem\<close> the allocator (the address and the
  arbitrary contents of a new table, or nothing), and \<open>env\<close> what other threads do while the port
  is unlocked.
\<close>

definition ipc_port_dngrow ::
    "nat list \<Rightarrow> (nat \<Rightarrow> (ptr \<times> ipc_port_request list) option) \<Rightarrow> (port_state \<Rightarrow> port_state) \<Rightarrow>
     port_state \<Rightarrow> ptr \<Rightarrow> (kern_return \<times> port_state) option" where
  "ipc_port_dngrow sizes mem env st p =
     do { port \<leftarrow> ports st p;
          assert_that (ip_active port);
          let otable = ip_dnrequests port;
          let its = (case otable of None \<Rightarrow> 0 | Some table \<Rightarrow> dn_size table + 1);
          st \<leftarrow> ip_reference st p;
          st \<leftarrow> ip_unlock st p;
          let st = env st;
          its_size \<leftarrow> arr_get sizes its;
          case (if its_size = 0 then None else mem its_size) of
            None \<Rightarrow>
              do { st \<leftarrow> ipc_port_release st p;
                   Some (KERN_RESOURCE_SHORTAGE, st) }
          | Some (addr, ntable) \<Rightarrow> dngrow_install sizes (map_option dn_addr otable) its addr ntable st p }"

definition ipc_port_dncancel ::
    "port_state \<Rightarrow> ptr \<Rightarrow> mach_port \<Rightarrow> u32 \<Rightarrow> (ptr \<times> port_state) option" where
  "ipc_port_dncancel st p name index =
     do { port \<leftarrow> ports st p;
          assert_that (ip_active port);
          assert_that (name \<noteq> MACH_PORT_NULL);
          assert_that (index \<noteq> 0);
          table \<leftarrow> ip_dnrequests port;
          ipr \<leftarrow> arr_get (dn_elems table) (unat index);
          let dnrequest = ipr_notify ipr;
          assert_that (ipr_name ipr = name);
          header \<leftarrow> arr_get (dn_elems table) 0;
          elems \<leftarrow> arr_set (dn_elems table) (unat index)
                     (ipr\<lparr>ipr_name := MACH_PORT_NULL, ipr_notify := ipr_notify header\<rparr>);
          elems \<leftarrow> arr_set elems 0 (header\<lparr>ipr_notify := index\<rparr>);
          st \<leftarrow> upd_port st p (\<lambda>port. port\<lparr>ip_dnrequests := Some (table\<lparr>dn_elems := elems\<rparr>)\<rparr>);
          Some (dnrequest, st) }"

definition ipc_port_dnrename ::
    "port_state \<Rightarrow> ptr \<Rightarrow> u32 \<Rightarrow> mach_port \<Rightarrow> mach_port \<Rightarrow> port_state option" where
  "ipc_port_dnrename st p index oname nname =
     do { port \<leftarrow> ports st p;
          assert_that (ip_active port);
          table \<leftarrow> ip_dnrequests port;
          ipr \<leftarrow> arr_get (dn_elems table) (unat index);
          assert_that (ipr_name ipr = oname);
          elems \<leftarrow> arr_set (dn_elems table) (unat index) (ipr\<lparr>ipr_name := nname\<rparr>);
          upd_port st p (\<lambda>port. port\<lparr>ip_dnrequests := Some (table\<lparr>dn_elems := elems\<rparr>)\<rparr>) }"

subsection \<open>Port-destroyed and no-senders requests, queue limit\<close>

definition ipc_port_pdrequest :: "port_state \<Rightarrow> ptr \<Rightarrow> ptr \<Rightarrow> (ptr \<times> port_state) option" where
  "ipc_port_pdrequest st p notify =
     do { port \<leftarrow> ports st p;
          assert_that (ip_active port);
          let previous = ip_pdrequest port;
          st \<leftarrow> upd_port st p (\<lambda>port. port\<lparr>ip_pdrequest := notify\<rparr>);
          st \<leftarrow> ip_unlock st p;
          Some (previous, st) }"

definition ipc_port_nsrequest ::
    "port_state \<Rightarrow> ptr \<Rightarrow> u32 \<Rightarrow> ptr \<Rightarrow> (ptr \<times> port_state) option" where
  "ipc_port_nsrequest st p sync notify =
     do { port \<leftarrow> ports st p;
          assert_that (ip_active port);
          let previous = ip_nsrequest port;
          let mscount = ip_mscount port;
          if ip_srights port = 0 \<and> sync \<le> mscount \<and> notify \<noteq> IP_NULL then
            do { st \<leftarrow> upd_port st p (\<lambda>port. port\<lparr>ip_nsrequest := IP_NULL\<rparr>);
                 st \<leftarrow> ip_unlock st p;
                 Some (previous, emit [No_senders notify mscount] st) }
          else
            do { st \<leftarrow> upd_port st p (\<lambda>port. port\<lparr>ip_nsrequest := notify\<rparr>);
                 st \<leftarrow> ip_unlock st p;
                 Some (previous, st) } }"

text \<open>Dequeue and wake at most \<open>n\<close> senders, until the queue is empty.\<close>

fun rouse_senders :: "nat \<Rightarrow> ptr list \<Rightarrow> port_event list \<times> ptr list" where
  "rouse_senders 0 blocked = ([], blocked)"
| "rouse_senders (Suc n) [] = ([], [])"
| "rouse_senders (Suc n) (th # blocked) =
     (let (es, rest) = rouse_senders n blocked in (Thread_go th # es, rest))"

definition ipc_port_set_qlimit :: "port_state \<Rightarrow> ptr \<Rightarrow> u32 \<Rightarrow> port_state option" where
  "ipc_port_set_qlimit st p qlimit =
     do { port \<leftarrow> ports st p;
          assert_that (ip_active port);
          st \<leftarrow> (if qlimit > ip_qlimit port then
                  let (es, rest) = rouse_senders (unat (qlimit - ip_qlimit port)) (ip_blocked port)
                  in upd_port (emit es st) p (\<lambda>port. port\<lparr>ip_blocked := rest\<rparr>)
                else Some st);
          upd_port st p (\<lambda>port. port\<lparr>ip_qlimit := qlimit\<rparr>) }"

subsection \<open>Initialisation\<close>

definition MACH_PORT_QLIMIT_DEFAULT :: u32 where "MACH_PORT_QLIMIT_DEFAULT = 5"

definition ipc_port_init :: "port_state \<Rightarrow> ptr \<Rightarrow> ptr \<Rightarrow> mach_port \<Rightarrow> port_state option" where
  "ipc_port_init st p space name =
     upd_port st p (\<lambda>port. port\<lparr>ip_receiver_name := name, ip_data := space,
       ip_mscount := 0, ip_srights := 0, ip_sorights := 0,
       ip_nsrequest := IP_NULL, ip_pdrequest := IP_NULL, ip_dnrequests := None,
       ip_pset := 0, ip_seqno := 0, ip_msgcount := 0, ip_qlimit := MACH_PORT_QLIMIT_DEFAULT,
       ip_messages := [], ip_blocked := []\<rparr>)"

text \<open>\<open>mem\<close> is the zone allocator: a pointer to a port with arbitrary contents, or nothing.\<close>

definition ipc_port_alloc_special ::
    "(ptr \<times> ipc_port) option \<Rightarrow> port_state \<Rightarrow> ptr \<Rightarrow> (ptr \<times> port_state) option" where
  "ipc_port_alloc_special mem st space =
     (case mem of
        None \<Rightarrow> Some (IP_NULL, st)
      | Some (p, garbage) \<Rightarrow>
          do { let st = st\<lparr>ports := (ports st)(p \<mapsto> garbage)\<rparr>;
               st \<leftarrow> upd_port st p (\<lambda>port. port\<lparr>ip_references := 1,
                        ip_bits := io_makebits True IOT_PORT 0\<rparr>);
               st \<leftarrow> ipc_port_init st p space p;
               Some (p, st) })"

subsection \<open>Send rights and send-once rights\<close>

definition ipc_port_lookup_notify ::
    "port_state \<Rightarrow> ipc_space \<Rightarrow> mach_port \<Rightarrow> (ptr \<times> ipc_space \<times> port_state) option" where
  "ipc_port_lookup_notify st space name =
     do { assert_that (is_active space);
          (found, space) \<leftarrow> ipc_entry_lookup space name;
          case found of
            None \<Rightarrow> Some (IP_NULL, space, st)
          | Some ep \<Rightarrow>
              do { entry \<leftarrow> get_entry space ep;
                   if and (ie_bits entry) MACH_PORT_TYPE_RECEIVE = 0 then Some (IP_NULL, space, st)
                   else
                     do { let p = ie_object entry;
                          assert_that (p \<noteq> IP_NULL);
                          st \<leftarrow> ip_lock st p;
                          port \<leftarrow> ports st p;
                          assert_that (ip_active port);
                          assert_that (ip_receiver_name port = name);
                          assert_that (ip_data port = is_self space);
                          st \<leftarrow> ip_reference st p;
                          st \<leftarrow> upd_port st p (\<lambda>port. port\<lparr>ip_sorights := ip_sorights port + 1\<rparr>);
                          st \<leftarrow> ip_unlock st p;
                          Some (p, space, st) } } }"

definition ipc_port_make_send :: "port_state \<Rightarrow> ptr \<Rightarrow> (ptr \<times> port_state) option" where
  "ipc_port_make_send st p =
     do { assert_that (IP_VALID p);
          st \<leftarrow> ip_lock st p;
          port \<leftarrow> ports st p;
          assert_that (ip_active port);
          st \<leftarrow> upd_port st p (\<lambda>port. port\<lparr>ip_mscount := ip_mscount port + 1\<rparr>);
          st \<leftarrow> upd_port st p (\<lambda>port. port\<lparr>ip_srights := ip_srights port + 1\<rparr>);
          st \<leftarrow> ip_reference st p;
          st \<leftarrow> ip_unlock st p;
          Some (p, st) }"

definition ipc_port_copy_send :: "port_state \<Rightarrow> ptr \<Rightarrow> (ptr \<times> port_state) option" where
  "ipc_port_copy_send st p =
     (if \<not> IP_VALID p then Some (p, st)
      else
        do { st \<leftarrow> ip_lock st p;
             port \<leftarrow> ports st p;
             (sright, st) \<leftarrow>
               (if ip_active port then
                  do { assert_that (ip_srights port > 0);
                       st \<leftarrow> ip_reference st p;
                       st \<leftarrow> upd_port st p (\<lambda>port. port\<lparr>ip_srights := ip_srights port + 1\<rparr>);
                       Some (p, st) }
                else Some (IP_DEAD, st));
             st \<leftarrow> ip_unlock st p;
             Some (sright, st) })"

definition ipc_port_release_send :: "port_state \<Rightarrow> ptr \<Rightarrow> port_state option" where
  "ipc_port_release_send st p =
     do { assert_that (IP_VALID p);
          st \<leftarrow> ip_lock st p;
          st \<leftarrow> ip_release st p;
          port \<leftarrow> ports st p;
          if \<not> ip_active port then ip_check_unlock st p
          else
            do { assert_that (ip_srights port > 0);
                 st \<leftarrow> upd_port st p (\<lambda>port. port\<lparr>ip_srights := ip_srights port - 1\<rparr>);
                 port \<leftarrow> ports st p;
                 let nsrequest = (if ip_srights port = 0 then ip_nsrequest port else IP_NULL);
                 let mscount = ip_mscount port;
                 st \<leftarrow> (if nsrequest \<noteq> IP_NULL
                        then upd_port st p (\<lambda>port. port\<lparr>ip_nsrequest := IP_NULL\<rparr>) else Some st);
                 st \<leftarrow> ip_unlock st p;
                 Some (if nsrequest \<noteq> IP_NULL then emit [No_senders nsrequest mscount] st else st) } }"

definition ipc_port_make_sonce :: "port_state \<Rightarrow> ptr \<Rightarrow> (ptr \<times> port_state) option" where
  "ipc_port_make_sonce st p =
     do { assert_that (IP_VALID p);
          st \<leftarrow> ip_lock st p;
          port \<leftarrow> ports st p;
          assert_that (ip_active port);
          st \<leftarrow> upd_port st p (\<lambda>port. port\<lparr>ip_sorights := ip_sorights port + 1\<rparr>);
          st \<leftarrow> ip_reference st p;
          st \<leftarrow> ip_unlock st p;
          Some (p, st) }"

definition ipc_port_release_sonce :: "port_state \<Rightarrow> ptr \<Rightarrow> port_state option" where
  "ipc_port_release_sonce st p =
     do { assert_that (IP_VALID p);
          st \<leftarrow> ip_lock st p;
          port \<leftarrow> ports st p;
          assert_that (ip_sorights port > 0);
          st \<leftarrow> upd_port st p (\<lambda>port. port\<lparr>ip_sorights := ip_sorights port - 1\<rparr>);
          st \<leftarrow> ip_release st p;
          if \<not> ip_active port then ip_check_unlock st p else ip_unlock st p }"

subsection \<open>Ports in transit\<close>

text \<open>
  \<open>not_in_transit\<close> is the condition that \<^verbatim>\<open>ipc_port_check_circularity\<close> tests three times.
  The loops over the chain of destinations end only if the chain does, so they are partial.
\<close>

definition not_in_transit :: "ipc_port \<Rightarrow> bool" where
  "not_in_transit port \<longleftrightarrow>
     \<not> ip_active port \<or> ip_receiver_name port \<noteq> MACH_PORT_NULL \<or> ip_destination port = IP_NULL"

definition in_limbo :: "ipc_port \<Rightarrow> bool" where
  "in_limbo port \<longleftrightarrow>
     ip_active port \<and> ip_receiver_name port = MACH_PORT_NULL \<and> ip_destination port = IP_NULL"

partial_function (option) lock_chain :: "port_state \<Rightarrow> ptr \<Rightarrow> (ptr \<times> port_state) option" where
  "lock_chain st base =
     do { st \<leftarrow> ip_lock st base;
          b \<leftarrow> ports st base;
          if not_in_transit b then Some (base, st) else lock_chain st (ip_destination b) }"

partial_function (option) unlock_circle :: "port_state \<Rightarrow> ptr \<Rightarrow> port_state option" where
  "unlock_circle st dest =
     (if dest = IP_NULL then Some st
      else
        do { d \<leftarrow> ports st dest;
             assert_that (ip_active d);
             assert_that (ip_receiver_name d = MACH_PORT_NULL);
             st \<leftarrow> ip_unlock st dest;
             unlock_circle st (ip_destination d) })"

partial_function (option) unlock_chain :: "port_state \<Rightarrow> ptr \<Rightarrow> ptr \<Rightarrow> port_state option" where
  "unlock_chain st base p =
     (if p = base then Some st
      else
        do { port \<leftarrow> ports st p;
             assert_that (ip_active port);
             assert_that (ip_receiver_name port = MACH_PORT_NULL);
             assert_that (ip_destination port \<noteq> IP_NULL);
             st \<leftarrow> ip_unlock st p;
             unlock_chain st base (ip_destination port) })"

definition not_circular :: "port_state \<Rightarrow> ptr \<Rightarrow> ptr \<Rightarrow> ptr \<Rightarrow> (bool \<times> port_state) option" where
  "not_circular st p dest base =
     do { port \<leftarrow> ports st p;
          assert_that (in_limbo port);
          st \<leftarrow> ip_reference st dest;
          st \<leftarrow> upd_port st p (\<lambda>port. port\<lparr>ip_data := dest\<rparr>);
          st \<leftarrow> unlock_chain st base p;
          b \<leftarrow> ports st base;
          assert_that (not_in_transit b);
          st \<leftarrow> ip_unlock st base;
          Some (False, st) }"

definition check_chain :: "port_state \<Rightarrow> ptr \<Rightarrow> ptr \<Rightarrow> (bool \<times> port_state) option" where
  "check_chain st p dest =
     do { st \<leftarrow> ipc_port_multiple_lock st;
          (base, st) \<leftarrow> lock_chain st dest;
          if p = base then
            do { st \<leftarrow> ipc_port_multiple_unlock st;
                 port \<leftarrow> ports st p;
                 assert_that (in_limbo port);
                 st \<leftarrow> unlock_circle st dest;
                 Some (True, st) }
          else
            do { st \<leftarrow> ip_lock st p;
                 st \<leftarrow> ipc_port_multiple_unlock st;
                 not_circular st p dest base } }"

text \<open>
  \<open>free\<close> says whether the lock of \<open>dest\<close> could be had at once, \<open>env\<close> what other threads do
  before this thread has the multiple lock.
\<close>

definition ipc_port_check_circularity ::
    "bool \<Rightarrow> (port_state \<Rightarrow> port_state) \<Rightarrow> port_state \<Rightarrow> ptr \<Rightarrow> ptr \<Rightarrow> (bool \<times> port_state) option" where
  "ipc_port_check_circularity free env st p dest =
     do { assert_that (p \<noteq> IP_NULL);
          assert_that (dest \<noteq> IP_NULL);
          if p = dest then Some (True, st)
          else
            do { st \<leftarrow> ip_lock st p;
                 (got, st) \<leftarrow> ip_lock_try free st dest;
                 d \<leftarrow> ports st dest;
                 if got \<and> not_in_transit d then not_circular st p dest dest
                 else
                   do { st \<leftarrow> (if got then ip_unlock st dest else Some st);
                        st \<leftarrow> ip_unlock st p;
                        check_chain (env st) p dest } } }"

subsection \<open>Destruction\<close>

definition ip_pdsendp :: "ptr \<Rightarrow> bool" where "ip_pdsendp soright \<longleftrightarrow> and soright 1 \<noteq> 0"
definition ip_pdsend :: "ptr \<Rightarrow> ptr" where "ip_pdsend soright = and soright (not 1)"
definition ipr_spacep :: "ptr \<Rightarrow> bool" where "ipr_spacep soright \<longleftrightarrow> and soright 1 \<noteq> 0"
definition ipr_space :: "ptr \<Rightarrow> ptr" where "ipr_space soright = and soright (not 1)"

definition IKOT_NONE :: u32 where "IKOT_NONE = 0"

text \<open>The loop over the queued messages; each holds a reference for the port.\<close>

primrec destroy_messages :: "ptr \<Rightarrow> ptr list \<Rightarrow> port_state \<Rightarrow> port_state option" where
  "destroy_messages p [] st = Some st"
| "destroy_messages p (kmsg # kmsgs) st =
     do { st \<leftarrow> upd_port st p (\<lambda>port. port\<lparr>ip_messages := kmsgs\<rparr>);
          st \<leftarrow> ipc_port_release st p;
          destroy_messages p kmsgs (emit [Kmsg_destroy kmsg] st) }"

text \<open>The loop that notifies the holders of dead-name requests, from \<open>index\<close> up to \<open>n\<close>.\<close>

function notify_dead_names ::
    "ptr \<Rightarrow> ipc_port_request list \<Rightarrow> nat \<Rightarrow> nat \<Rightarrow> port_state \<Rightarrow> port_state option" where
  "notify_dead_names p elems n index st =
     (if index < n then
        do { ipr \<leftarrow> arr_get elems index;
             let name = ipr_name ipr;
             if name = MACH_PORT_NULL then notify_dead_names p elems n (index + 1) st
             else
               do { let soright = ipr_notify ipr;
                    assert_that (soright \<noteq> IP_NULL);
                    notify_dead_names p elems n (index + 1)
                      (emit [if ipr_spacep soright then Delete_compat p (ipr_space soright) name
                             else Dead_name soright name] st) } }
      else Some st)"
  by pat_completeness auto
termination by (relation "measure (\<lambda>(p, elems, n, index, st). n - index)") auto

declare notify_dead_names.simps [simp del]

definition destroy_dnrequests :: "nat list \<Rightarrow> ptr \<Rightarrow> port_state \<Rightarrow> port_state option" where
  "destroy_dnrequests sizes p st =
     do { port \<leftarrow> ports st p;
          case ip_dnrequests port of
            None \<Rightarrow> Some st
          | Some table \<Rightarrow>
              do { n \<leftarrow> arr_get sizes (dn_size table);
                   st \<leftarrow> notify_dead_names p (dn_elems table) n 1 st;
                   Some (emit [Dnrequests_free (dn_size table) (dn_addr table)] st) } }"

text \<open>The part of \<^verbatim>\<open>ipc_port_destroy\<close> after the check for a backup port.\<close>

definition destroy_port :: "nat list \<Rightarrow> port_state \<Rightarrow> ptr \<Rightarrow> port_state option" where
  "destroy_port sizes st p =
     do { port \<leftarrow> ports st p;
          let st = emit (map Thread_go (ip_blocked port)) st;
          st \<leftarrow> upd_port st p (\<lambda>port. port\<lparr>ip_blocked := []\<rparr>);
          st \<leftarrow> upd_port st p (\<lambda>port. port\<lparr>ip_bits := and (ip_bits port) (not IO_BITS_ACTIVE)\<rparr>);
          let (timestamp, st) = ipc_port_timestamp st;
          st \<leftarrow> upd_port st p (\<lambda>port. port\<lparr>ip_data := timestamp\<rparr>);
          st \<leftarrow> ip_unlock st p;
          port \<leftarrow> ports st p;
          let st = (if ip_nsrequest port \<noteq> IP_NULL then emit [Send_once (ip_nsrequest port)] st else st);
          st \<leftarrow> destroy_messages p (ip_messages port) st;
          st \<leftarrow> destroy_dnrequests sizes p st;
          port \<leftarrow> ports st p;
          let st = (if and (ip_bits port) IO_BITS_KOTYPE \<noteq> IKOT_NONE
                    then emit [Kobject_destroy p] st else st);
          ipc_port_release st p }"

definition ipc_port_destroy ::
    "nat list \<Rightarrow> bool \<Rightarrow> (port_state \<Rightarrow> port_state) \<Rightarrow> port_state \<Rightarrow> ptr \<Rightarrow> port_state option" where
  "ipc_port_destroy sizes free env st p =
     do { port \<leftarrow> ports st p;
          assert_that (ip_active port);
          assert_that (ip_pset port = 0);
          assert_that (ip_mscount port = 0);
          assert_that (ip_seqno port = 0);
          let pdrequest = ip_pdrequest port;
          if pdrequest = IP_NULL then destroy_port sizes st p
          else
            do { st \<leftarrow> upd_port st p (\<lambda>port. port\<lparr>ip_pdrequest := IP_NULL,
                          ip_receiver_name := MACH_PORT_NULL, ip_data := IP_NULL\<rparr>);
                 st \<leftarrow> ip_unlock st p;
                 (circular, st) \<leftarrow> ipc_port_check_circularity free env st p
                    (if ip_pdsendp pdrequest then ip_pdsend pdrequest else pdrequest);
                 if \<not> circular then
                   Some (emit [if ip_pdsendp pdrequest
                               then Port_destroyed_compat (ip_pdsend pdrequest) p
                               else Port_destroyed pdrequest p] st)
                 else
                   do { st \<leftarrow> (if ip_pdsendp pdrequest then ipc_port_release_send st (ip_pdsend pdrequest)
                              else ipc_port_release_sonce st pdrequest);
                        st \<leftarrow> ip_lock st p;
                        port \<leftarrow> ports st p;
                        assert_that (ip_active port);
                        assert_that (ip_pset port = 0);
                        assert_that (ip_mscount port = 0);
                        assert_that (ip_seqno port = 0);
                        assert_that (ip_pdrequest port = IP_NULL);
                        assert_that (ip_receiver_name port = MACH_PORT_NULL);
                        assert_that (ip_destination port = IP_NULL);
                        destroy_port sizes st p } } }"

definition ipc_port_release_receive ::
    "nat list \<Rightarrow> bool \<Rightarrow> (port_state \<Rightarrow> port_state) \<Rightarrow> port_state \<Rightarrow> ptr \<Rightarrow> port_state option" where
  "ipc_port_release_receive sizes free env st p =
     do { assert_that (IP_VALID p);
          st \<leftarrow> ip_lock st p;
          port \<leftarrow> ports st p;
          assert_that (ip_active port);
          assert_that (ip_receiver_name port = MACH_PORT_NULL);
          let dest = ip_destination port;
          st \<leftarrow> ipc_port_destroy sizes free env st p;
          if dest \<noteq> IP_NULL then ipc_port_release st dest else Some st }"

end
