(* ===== verification/Ipc_Port_Requests.thy ===== *)
theory Ipc_Port_Requests
  imports Ipc_Port
begin

text \<open>
  Dead-name requests. The table of a port is an array whose free elements are linked through
  \<^verbatim>\<open>ipr_next\<close>; \<open>dn_elems_ok\<close> is its invariant and \<open>dn_requests\<close> its meaning, a map from slots to
  requests. Requesting and cancelling are insertion into and deletion from that map, growing keeps it
  and makes room, also when other threads change the port while it is unlocked.
\<close>

subsection \<open>The free list of a request table\<close>

definition dn_free :: "ipc_port_request list \<Rightarrow> nat set" where
  "dn_free elems = {i. 0 < i \<and> i < length elems \<and> ipr_name (elems ! i) = MACH_PORT_NULL}"

fun dn_chain :: "ipc_port_request list \<Rightarrow> u32 \<Rightarrow> nat list \<Rightarrow> bool" where
  "dn_chain elems next [] \<longleftrightarrow> next = 0"
| "dn_chain elems next (i # is) \<longleftrightarrow>
     unat next = i \<and> 0 < i \<and> i < length elems \<and> dn_chain elems (ipr_notify (elems ! i)) is"

definition dn_elems_ok :: "ipc_port_request list \<Rightarrow> bool" where
  "dn_elems_ok elems \<longleftrightarrow>
     elems \<noteq> [] \<and> length elems < 2 ^ 32 \<and>
     (\<exists>fl. dn_chain elems (ipr_notify (elems ! 0)) fl \<and> distinct fl \<and> set fl = dn_free elems)"

text \<open>The registered requests: the slot, the name and the send-once right to notify.\<close>

definition dn_requests :: "ipc_port_request list \<Rightarrow> nat \<Rightarrow> (mach_port \<times> ptr) option" where
  "dn_requests elems i =
     (if 0 < i \<and> i < length elems \<and> ipr_name (elems ! i) \<noteq> MACH_PORT_NULL
      then Some (ipr_name (elems ! i), ipr_notify (elems ! i)) else None)"

lemma dn_elems_okI:
  "elems \<noteq> [] \<Longrightarrow> length elems < 2 ^ 32 \<Longrightarrow> dn_chain elems (ipr_notify (elems ! 0)) fl \<Longrightarrow>
   distinct fl \<Longrightarrow> set fl = dn_free elems \<Longrightarrow> dn_elems_ok elems"
  unfolding dn_elems_ok_def by blast

lemma dn_chain_cong:
  assumes "dn_chain elems next fl" and "length elems' = length elems"
    and "\<And>i. i \<in> set fl \<Longrightarrow> elems' ! i = elems ! i"
  shows "dn_chain elems' next fl"
  using assms by (induction fl arbitrary: "next") auto

lemma nth_list_update_notin: "j \<in> A \<Longrightarrow> i \<notin> A \<Longrightarrow> xs[i := x] ! j = xs ! j"
  by (metis nth_list_update_neq)

lemma dn_chain_nil: "dn_chain elems 0 fl \<longleftrightarrow> fl = []"
  by (cases fl) auto

lemma dn_pop:
  assumes "dn_elems_ok elems" and "ipr_notify (elems ! 0) \<noteq> 0" and "name \<noteq> MACH_PORT_NULL"
    and i: "i = unat (ipr_notify (elems ! 0))"
    and elems': "elems' = elems[0 := (elems ! 0)\<lparr>ipr_notify := ipr_notify (elems ! i)\<rparr>,
                               i := (elems ! i)\<lparr>ipr_name := name, ipr_notify := soright\<rparr>]"
  shows "0 < i \<and> i < length elems \<and> ipr_name (elems ! i) = MACH_PORT_NULL \<and>
    dn_elems_ok elems' \<and> dn_requests elems' = (dn_requests elems)(i \<mapsto> (name, soright)) \<and>
    dn_requests elems i = None"
proof -
  obtain fl where fl: "dn_chain elems (ipr_notify (elems ! 0)) fl" "distinct fl" "set fl = dn_free elems"
    using assms(1) by (auto simp: dn_elems_ok_def)
  obtain rest where rest: "fl = i # rest"
    using fl(1) assms(2) i by (cases fl) auto
  have ran: "0 < i" "i < length elems" and ch: "dn_chain elems (ipr_notify (elems ! i)) rest"
    using fl(1) rest by auto
  have free: "i \<in> dn_free elems" and restfree: "set rest \<subseteq> dn_free elems" and irest: "i \<notin> set rest"
    using fl rest by auto
  have "0 \<notin> set rest" using restfree by (auto simp: dn_free_def)
  then have "dn_chain elems' (ipr_notify (elems ! i)) rest"
    by (intro dn_chain_cong [OF ch]) (use elems' irest in \<open>auto simp: nth_list_update_notin\<close>)
  moreover have "ipr_notify (elems' ! 0) = ipr_notify (elems ! i)" "elems' \<noteq> []" "length elems' < 2 ^ 32"
    using elems' ran assms(1) by (auto simp: nth_list_update_if dn_elems_ok_def)
  moreover have "dn_free elems' = dn_free elems - {i}"
    using assms(3) ran elems' by (auto simp: dn_free_def nth_list_update_if split: if_splits)
  then have "set rest = dn_free elems'" "distinct rest" using fl rest by auto
  ultimately have "dn_elems_ok elems'"
    by (intro dn_elems_okI) simp_all
  moreover have "dn_requests elems' = (dn_requests elems)(i \<mapsto> (name, soright))"
    using assms(3) ran elems' by (auto simp: dn_requests_def nth_list_update_if fun_eq_iff)
  ultimately show ?thesis using free ran by (simp add: dn_free_def dn_requests_def)
qed

lemma dn_push:
  assumes "dn_elems_ok elems" and "dn_requests elems i = Some (name, soright)"
    and elems': "elems' = elems[i := (elems ! i)\<lparr>ipr_name := MACH_PORT_NULL, ipr_notify := ipr_notify (elems ! 0)\<rparr>,
                               0 := (elems ! 0)\<lparr>ipr_notify := of_nat i\<rparr>]"
  shows "dn_elems_ok elems' \<and> dn_requests elems' = (dn_requests elems)(i := None)"
proof -
  obtain fl where fl: "dn_chain elems (ipr_notify (elems ! 0)) fl" "distinct fl" "set fl = dn_free elems"
    using assms(1) by (auto simp: dn_elems_ok_def)
  have ran: "0 < i" "i < length elems" and used: "ipr_name (elems ! i) \<noteq> MACH_PORT_NULL"
    using assms(2) by (auto simp: dn_requests_def split: if_splits)
  have ne: "elems \<noteq> []" and len: "length elems < 2 ^ 32" using assms(1) by (auto simp: dn_elems_ok_def)
  have ifl: "i \<notin> set fl" and z: "0 \<notin> set fl" using fl(3) used by (auto simp: dn_free_def)
  have "dn_chain elems' (ipr_notify (elems ! 0)) fl"
    by (rule dn_chain_cong [OF fl(1)]) (use elems' ifl z in \<open>auto simp: nth_list_update_notin\<close>)
  then have ch: "dn_chain elems' (ipr_notify (elems' ! 0)) (i # fl)"
    using elems' ran len ne by (auto simp: nth_list_update_if unat_of_nat take_bit_nat_eq_self)
  have "dn_free elems' = insert i (dn_free elems)"
    using ran elems' ne by (auto simp: dn_free_def nth_list_update_if split: if_splits)
  then have "set (i # fl) = dn_free elems'" "distinct (i # fl)" using fl ifl by auto
  then have "dn_elems_ok elems'"
    using dn_elems_okI [OF _ _ ch] elems' ne len by simp
  moreover have "dn_requests elems' = (dn_requests elems)(i := None)"
    using ran elems' ne by (auto simp: dn_requests_def nth_list_update_if fun_eq_iff)
  ultimately show ?thesis by simp
qed

lemma dngrow_link_ok:
  assumes "dn_chain table free fl" and "distinct fl" and "set fl = {j \<in> dn_free table. j < i}"
    and "0 < i" and "i \<le> n" and "length table = n" and "n < 2 ^ 32"
  shows "\<exists>free' table' fl'. dngrow_link n i free table = Some (free', table') \<and> length table' = n \<and>
    (\<forall>j < i. table' ! j = table ! j) \<and> (\<forall>j. i \<le> j \<and> j < n \<longrightarrow> ipr_name (table' ! j) = MACH_PORT_NULL) \<and>
    dn_chain table' free' fl' \<and> distinct fl' \<and> set fl' = dn_free table' \<and> (i < n \<longrightarrow> free' \<noteq> 0)"
  using assms
proof (induction "n - i" arbitrary: i free table fl)
  case 0
  then have "i = n" by simp
  moreover from this have "set fl = dn_free table" using "0.prems"(3,6) by (auto simp: dn_free_def)
  ultimately show ?case using "0.prems" by (auto simp: dngrow_link.simps [of n n])
next
  case (Suc k)
  then have less: "i < n" by simp
  let ?t = "table[i := \<lparr>ipr_notify = free, ipr_name = MACH_PORT_NULL\<rparr>]"
  have step: "dngrow_link n i free table = dngrow_link n (i + 1) (of_nat i) ?t"
    using less Suc.prems(6) by (simp add: dngrow_link.simps [of n i])
  have ifl: "i \<notin> set fl" using Suc.prems(3) by auto
  have unat: "unat (of_nat i :: u32) = i"
    using less Suc.prems(7) by (simp add: unat_of_nat take_bit_nat_eq_self)
  have "dn_chain ?t free fl"
    by (rule dn_chain_cong [OF Suc.prems(1)]) (use ifl in \<open>auto simp: nth_list_update_notin\<close>)
  then have ch: "dn_chain ?t (of_nat i) (i # fl)" using less Suc.prems(4,6) unat by simp
  have set': "set (i # fl) = {j \<in> dn_free ?t. j < i + 1}"
    using Suc.prems(3,4,6) less by (auto simp: dn_free_def nth_list_update_if less_Suc_eq)
  have dist: "distinct (i # fl)" using ifl Suc.prems(2) by simp
  have k: "k = n - (i + 1)" and len: "length ?t = n" using Suc.hyps(2) Suc.prems(6) by auto
  obtain free' table' fl' where r: "dngrow_link n (i + 1) (of_nat i) ?t = Some (free', table')"
    "length table' = n" "\<forall>j < i + 1. table' ! j = ?t ! j"
    "\<forall>j. i + 1 \<le> j \<and> j < n \<longrightarrow> ipr_name (table' ! j) = MACH_PORT_NULL"
    "dn_chain table' free' fl'" "distinct fl'" "set fl' = dn_free table'" "i + 1 < n \<longrightarrow> free' \<noteq> 0"
    using Suc.hyps(1) [OF k ch dist set' _ _ len Suc.prems(7)] less by auto
  have i: "ipr_name (table' ! i) = MACH_PORT_NULL" using r(3) less Suc.prems(6) by simp
  have "free' \<noteq> 0"
  proof
    assume "free' = 0"
    with r(5) have "fl' = []" by (simp add: dn_chain_nil)
    with r(7) i less r(2) Suc.prems(4) show False by (auto simp: dn_free_def)
  qed
  moreover have "\<forall>j < i. table' ! j = table ! j" using r(3) by auto
  moreover have "\<forall>j. i \<le> j \<and> j < n \<longrightarrow> ipr_name (table' ! j) = MACH_PORT_NULL"
    using r(4) i by (metis Suc_eq_plus1 le_eq_less_or_eq Suc_leI)
  ultimately show ?case
    using step r by (intro exI [of _ free'] exI [of _ table'] exI [of _ fl']) simp
qed

subsection \<open>The requests of a port\<close>

definition dn_ok :: "nat list \<Rightarrow> dn_table \<Rightarrow> bool" where
  "dn_ok sizes t \<longleftrightarrow>
     dn_size t + 1 < length sizes \<and> length (dn_elems t) = sizes ! dn_size t \<and> dn_elems_ok (dn_elems t) \<and>
     (\<forall>i name soright. dn_requests (dn_elems t) i = Some (name, soright) \<longrightarrow> soright \<noteq> IP_NULL)"

definition port_dn_ok :: "nat list \<Rightarrow> ipc_port \<Rightarrow> bool" where
  "port_dn_ok sizes port \<longleftrightarrow> (case ip_dnrequests port of None \<Rightarrow> True | Some t \<Rightarrow> dn_ok sizes t)"

definition port_requests :: "ipc_port \<Rightarrow> nat \<Rightarrow> (mach_port \<times> ptr) option" where
  "port_requests port =
     (case ip_dnrequests port of None \<Rightarrow> Map.empty | Some t \<Rightarrow> dn_requests (dn_elems t))"

text \<open>The index of the next size, as \<^verbatim>\<open>ipc_port_dngrow\<close> computes it.\<close>

definition dn_next_size :: "ipc_port \<Rightarrow> nat" where
  "dn_next_size port = (case ip_dnrequests port of None \<Rightarrow> 0 | Some t \<Rightarrow> dn_size t + 1)"

lemma port_dn_upd [simp]:
  "port_dn_ok sizes (port\<lparr>ip_references := r\<rparr>) = port_dn_ok sizes port"
  "port_requests (port\<lparr>ip_references := r\<rparr>) = port_requests port"
  "dn_next_size (port\<lparr>ip_references := r\<rparr>) = dn_next_size port"
  by (simp_all add: port_dn_ok_def port_requests_def dn_next_size_def)

lemma dn_sizes_next:
  assumes "dn_sizes_ok sizes" and "its < length sizes" and "sizes ! its \<noteq> 0"
  shows "its + 1 < length sizes \<and> 2 \<le> sizes ! its \<and> sizes ! its < 2 ^ 32 \<and>
    (\<forall>j < its. sizes ! j < sizes ! its)"
proof -
  have ne: "sizes \<noteq> []" using assms(2) by auto
  have less: "its + 1 < length sizes"
  proof (rule ccontr)
    assume "\<not> ?thesis"
    then have "its = length sizes - 1" using assms(2) by simp
    then have "sizes ! its = last sizes" using ne by (simp add: last_conv_nth)
    then show False using assms(1,3) by (simp add: dn_sizes_ok_def)
  qed
  have nth: "butlast sizes ! j = sizes ! j" if "j \<le> its" for j
    using that less by (simp add: nth_butlast)
  have len: "its < length (butlast sizes)" using less by simp
  have "2 \<le> sizes ! its \<and> sizes ! its < 2 ^ 32"
    using assms(1) nth_mem [OF len] nth [of its] by (simp add: dn_sizes_ok_def list_all_iff)
  moreover have "sizes ! j < sizes ! its" if "j < its" for j
    using assms(1) sorted_wrt_nth_less [of "(<)", OF _ that len] nth that by (simp add: dn_sizes_ok_def)
  ultimately show ?thesis using less by simp
qed

text \<open>Both branches of \<^verbatim>\<open>dngrow\<close> hand the loop a prefix with a free list and the old requests.\<close>

lemma dngrow_prefix:
  assumes "port_dn_ok sizes port" and "dn_sizes_ok sizes" and "its = dn_next_size port"
    and "its < length sizes" and "sizes ! its \<noteq> 0" and "length ntable = sizes ! its"
  shows "\<exists>osize free table fl.
    (case ip_dnrequests port of
       Some otable \<Rightarrow>
         do { osize \<leftarrow> arr_get sizes (dn_size otable);
              header \<leftarrow> arr_get (dn_elems otable) 0;
              ntable \<leftarrow> dngrow_copy osize (dn_elems otable) ntable;
              Some (osize, ipr_notify header, ntable) }
     | None \<Rightarrow> Some (1, 0, ntable)) = Some (osize, free, table) \<and>
    0 < osize \<and> osize < sizes ! its \<and> length table = sizes ! its \<and>
    dn_chain table free fl \<and> distinct fl \<and> set fl = {j \<in> dn_free table. j < osize} \<and>
    (\<forall>i. port_requests port i = (if i < osize then dn_requests table i else None))"
proof (cases "ip_dnrequests port")
  case None
  then show ?thesis
    using assms dn_sizes_next [OF assms(2,4,5)]
    by (intro exI [of _ 1] exI [of _ 0] exI [of _ ntable] exI [of _ "[]"])
      (auto simp: port_requests_def dn_requests_def dn_free_def)
next
  case (Some t)
  let ?o = "dn_elems t" and ?n = "sizes ! dn_size t"
  have ok: "dn_elems_ok ?o" "length ?o = ?n" "dn_size t + 1 < length sizes"
    using assms(1) Some by (auto simp: port_dn_ok_def dn_ok_def)
  have its: "its = dn_size t + 1" using assms(3) Some by (simp add: dn_next_size_def)
  have "0 < length ?o" using ok(1) by (simp add: dn_elems_ok_def)
  then have grow: "?n < sizes ! its" "0 < ?n"
    using dn_sizes_next [OF assms(2,4,5)] its ok(2) by auto
  obtain fl where fl: "dn_chain ?o (ipr_notify (?o ! 0)) fl" "distinct fl" "set fl = dn_free ?o"
    using ok(1) by (auto simp: dn_elems_ok_def)
  obtain T where T: "dngrow_copy ?n ?o ntable = Some T" and len: "length T = sizes ! its"
    and nth: "\<And>j. 0 < j \<Longrightarrow> j < ?n \<Longrightarrow> T ! j = ?o ! j"
    using assms(6) ok(2) grow by (simp add: dngrow_copy_def nth_append)
  have "dn_chain (take ?n T) (ipr_notify (?o ! 0)) fl"
    by (rule dn_chain_cong [OF fl(1)]) (use fl(3) ok(2) len grow nth in \<open>auto simp: dn_free_def\<close>)
  moreover have "dn_chain (take m xs) i fl \<Longrightarrow> dn_chain xs i fl" for m xs i
    by (induction fl arbitrary: i) auto
  ultimately have "dn_chain T (ipr_notify (?o ! 0)) fl" by blast
  moreover have "j \<in> set fl \<longleftrightarrow> j \<in> dn_free T \<and> j < ?n" for j
    unfolding fl(3) dn_free_def mem_Collect_eq len ok(2)
    using nth [of j] grow(1) by (cases "0 < j \<and> j < ?n") auto
  then have "set fl = {j \<in> dn_free T. j < ?n}" by blast
  moreover have "port_requests port i = (if i < ?n then dn_requests T i else None)" for i
    unfolding port_requests_def Some option.case dn_requests_def len ok(2)
    using nth [of i] grow(1) by (cases "0 < i \<and> i < ?n") auto
  ultimately show ?thesis
    using Some ok fl(2) grow len T \<open>0 < length ?o\<close>
    by (intro exI [of _ ?n] exI [of _ "ipr_notify (?o ! 0)"] exI [of _ T] exI [of _ fl]) simp
qed

lemma dngrow_fill_ok:
  assumes "port_dn_ok sizes port" and "dn_sizes_ok sizes" and "its = dn_next_size port"
    and "its < length sizes" and "sizes ! its \<noteq> 0" and "length ntable = sizes ! its"
  shows "\<exists>t. dngrow_fill sizes (ip_dnrequests port) its addr ntable = Some t \<and> dn_ok sizes t \<and>
    dn_size t = its \<and> dn_addr t = addr \<and> dn_requests (dn_elems t) = port_requests port \<and>
    ipr_notify (dn_elems t ! 0) \<noteq> 0"
proof -
  let ?n = "sizes ! its"
  obtain osize free table fl where pre:
    "(case ip_dnrequests port of
       Some otable \<Rightarrow>
         do { osize \<leftarrow> arr_get sizes (dn_size otable);
              header \<leftarrow> arr_get (dn_elems otable) 0;
              ntable \<leftarrow> dngrow_copy osize (dn_elems otable) ntable;
              Some (osize, ipr_notify header, ntable) }
     | None \<Rightarrow> Some (1, 0, ntable)) = Some (osize, free, table)"
    "0 < osize" "osize < ?n" "length table = ?n"
    "dn_chain table free fl" "distinct fl" "set fl = {j \<in> dn_free table. j < osize}"
    "\<forall>i. port_requests port i = (if i < osize then dn_requests table i else None)"
    using dngrow_prefix [OF assms] by blast
  have n: "its + 1 < length sizes" "?n < 2 ^ 32" using dn_sizes_next [OF assms(2,4,5)] by auto
  obtain free' table' fl' where link: "dngrow_link ?n osize free table = Some (free', table')"
    "length table' = ?n" "\<forall>j < osize. table' ! j = table ! j"
    "\<forall>j. osize \<le> j \<and> j < ?n \<longrightarrow> ipr_name (table' ! j) = MACH_PORT_NULL"
    "dn_chain table' free' fl'" "distinct fl'" "set fl' = dn_free table'" "free' \<noteq> 0"
    using dngrow_link_ok [OF pre(5-7,2) less_imp_le [OF pre(3)] pre(4) n(2)] pre(3) by blast
  let ?t = "table'[0 := (table' ! 0)\<lparr>ipr_notify := free'\<rparr>]"
  have ne: "0 < length table'" using link(2) pre(3) by simp
  have "dn_chain ?t free' fl'"
    by (rule dn_chain_cong [OF link(5)]) (use link(7) in \<open>auto simp: dn_free_def\<close>)
  moreover have "dn_free ?t = dn_free table'" by (auto simp: dn_free_def)
  ultimately have ok: "dn_elems_ok ?t"
    using link n(2) ne by (intro dn_elems_okI [of _ fl']) auto
  have req: "dn_requests ?t = port_requests port"
    using pre(3,4,8) link(2-4) by (auto simp: dn_requests_def fun_eq_iff not_less)
  have "soright \<noteq> IP_NULL" if "port_requests port i = Some (name, soright)" for i name soright
    using that assms(1) by (auto simp: port_requests_def port_dn_ok_def dn_ok_def split: option.splits)
  with ok req link(2) n(1) have "dn_ok sizes \<lparr>dn_addr = addr, dn_size = its, dn_elems = ?t\<rparr>"
    by (simp add: dn_ok_def)
  moreover have "dngrow_fill sizes (ip_dnrequests port) its addr ntable =
    Some \<lparr>dn_addr = addr, dn_size = its, dn_elems = ?t\<rparr>"
    unfolding dngrow_fill_def pre(1) using assms(4) pre(3) link(1) ne by simp
  ultimately show ?thesis using req link(8) ne by simp
qed

subsection \<open>Requesting, cancelling and growing\<close>

definition dn_capacity :: "ipc_port \<Rightarrow> nat" where
  "dn_capacity port = (case ip_dnrequests port of None \<Rightarrow> 0 | Some t \<Rightarrow> length (dn_elems t))"

abbreviation with_elems :: "ipc_port \<Rightarrow> dn_table \<Rightarrow> ipc_port_request list \<Rightarrow> ipc_port" where
  "with_elems port t elems \<equiv> port\<lparr>ip_dnrequests := Some (t\<lparr>dn_elems := elems\<rparr>)\<rparr>"

lemma dn_ok_elems:
  assumes "dn_ok sizes t" and "dn_elems_ok elems'" and "length elems' = length (dn_elems t)"
    and "\<And>i name soright. dn_requests elems' i = Some (name, soright) \<Longrightarrow>
      soright \<noteq> IP_NULL"
  shows "port_dn_ok sizes (with_elems port t elems')"
  using assms by (simp add: port_dn_ok_def dn_ok_def)

lemma dnrequest_full:
  assumes "dn_elems_ok elems"
  shows "ipr_notify (elems ! 0) = 0 \<longleftrightarrow> (\<forall>i. 0 < i \<and> i < length elems \<longrightarrow> dn_requests elems i \<noteq> None)"
proof -
  obtain fl where fl: "dn_chain elems (ipr_notify (elems ! 0)) fl" "set fl = dn_free elems"
    using assms by (auto simp: dn_elems_ok_def)
  have "ipr_notify (elems ! 0) = 0 \<longleftrightarrow> fl = []"
    using fl(1) by (cases fl) (auto simp: unat_eq_0)
  also have "\<dots> \<longleftrightarrow> dn_free elems = {}" using fl(2) by auto
  finally show ?thesis by (auto simp: dn_free_def dn_requests_def)
qed

lemma dnrequest_ok:
  assumes "ports st p = Some port" and "ip_active port" and "port_dn_ok sizes port"
    and "name \<noteq> MACH_PORT_NULL" and "soright \<noteq> IP_NULL"
    and room: "\<exists>i. 0 < i \<and> i < dn_capacity port \<and> port_requests port i = None"
  shows "\<exists>i st' port'. ipc_port_dnrequest st p name soright = Some (Inr i, st') \<and>
    st' = st\<lparr>ports := (ports st)(p \<mapsto> port')\<rparr> \<and> port_dn_ok sizes port' \<and>
    port_requests port (unat i) = None \<and>
    port_requests port' = (port_requests port)(unat i \<mapsto> (name, soright)) \<and>
    port' = port\<lparr>ip_dnrequests := ip_dnrequests port'\<rparr>"
proof -
  obtain t where t: "ip_dnrequests port = Some t" "dn_ok sizes t"
    using room assms(3) by (auto simp: dn_capacity_def port_dn_ok_def split: option.splits)
  let ?e = "dn_elems t"
  have ok: "dn_elems_ok ?e" and ne: "?e \<noteq> []" using t(2) by (auto simp: dn_ok_def dn_elems_ok_def)
  have idx: "ipr_notify (?e ! 0) \<noteq> 0"
    using dnrequest_full [OF ok] room t(1) by (auto simp: dn_capacity_def port_requests_def)
  obtain i where i: "i = unat (ipr_notify (?e ! 0))" by simp
  let ?e' = "?e[0 := (?e ! 0)\<lparr>ipr_notify := ipr_notify (?e ! i)\<rparr>,
                i := (?e ! i)\<lparr>ipr_name := name, ipr_notify := soright\<rparr>]"
  note pop = dn_pop [OF ok idx assms(4) i refl, of soright]
  let ?port = "with_elems port t ?e'"
  have "ipc_port_dnrequest st p name soright =
    Some (Inr (ipr_notify (?e ! 0)), st\<lparr>ports := (ports st)(p \<mapsto> ?port)\<rparr>)"
    using assms(1,2,4,5) t(1) idx pop ne i
    by (simp add: ipc_port_dnrequest_def upd_port_def Let_def)
  moreover have "port_dn_ok sizes ?port"
    using pop t(2) assms(5) by (intro dn_ok_elems) (auto simp: dn_ok_def split: if_splits)
  ultimately show ?thesis
    using pop i t(1) by (intro exI [of _ "ipr_notify (?e ! 0)"] exI) (auto simp: port_requests_def)
qed

lemma dnrequest_no_space:
  assumes "ports st p = Some port" and "ip_active port" and "port_dn_ok sizes port"
    and "name \<noteq> MACH_PORT_NULL" and "soright \<noteq> IP_NULL"
    and full: "\<not> (\<exists>i. 0 < i \<and> i < dn_capacity port \<and> port_requests port i = None)"
  shows "ipc_port_dnrequest st p name soright = Some (Inl KERN_NO_SPACE, st)"
proof (cases "ip_dnrequests port")
  case None
  then show ?thesis using assms(1,2,4,5) by (simp add: ipc_port_dnrequest_def)
next
  case (Some t)
  then have ok: "dn_elems_ok (dn_elems t)" using assms(3) by (simp add: port_dn_ok_def dn_ok_def)
  then have "ipr_notify (dn_elems t ! 0) = 0" "dn_elems t \<noteq> []"
    using dnrequest_full [OF ok] full Some
    by (auto simp: dn_capacity_def port_requests_def dn_elems_ok_def)
  then show ?thesis using assms(1,2,4,5) Some by (simp add: ipc_port_dnrequest_def)
qed

lemma dncancel_ok:
  assumes "ports st p = Some port" and "ip_active port" and "port_dn_ok sizes port"
    and "port_requests port (unat i) = Some (name, soright)"
  shows "\<exists>st' port'. ipc_port_dncancel st p name i = Some (soright, st') \<and>
    st' = st\<lparr>ports := (ports st)(p \<mapsto> port')\<rparr> \<and> port_dn_ok sizes port' \<and>
    port_requests port' = (port_requests port)(unat i := None) \<and>
    port' = port\<lparr>ip_dnrequests := ip_dnrequests port'\<rparr>"
proof -
  obtain t where t: "ip_dnrequests port = Some t" "dn_ok sizes t"
    using assms(3,4) by (auto simp: port_requests_def port_dn_ok_def split: option.splits)
  let ?e = "dn_elems t" and ?i = "unat i"
  have ok: "dn_elems_ok ?e" and ne: "?e \<noteq> []" using t(2) by (auto simp: dn_ok_def dn_elems_ok_def)
  have req: "dn_requests ?e ?i = Some (name, soright)" using assms(4) t(1) by (simp add: port_requests_def)
  then have i: "0 < ?i" "?i < length ?e" "ipr_name (?e ! ?i) = name" "ipr_notify (?e ! ?i) = soright"
    "name \<noteq> MACH_PORT_NULL"
    by (auto simp: dn_requests_def split: if_splits)
  then have i0: "i \<noteq> 0" by auto
  let ?e' = "?e[?i := (?e ! ?i)\<lparr>ipr_name := MACH_PORT_NULL, ipr_notify := ipr_notify (?e ! 0)\<rparr>,
                0 := (?e ! 0)\<lparr>ipr_notify := of_nat ?i\<rparr>]"
  note push = dn_push [OF ok req refl]
  let ?port = "with_elems port t ?e'"
  have "ipc_port_dncancel st p name i = Some (soright, st\<lparr>ports := (ports st)(p \<mapsto> ?port)\<rparr>)"
    using assms(1,2) t(1) i i0 ne by (simp add: ipc_port_dncancel_def upd_port_def Let_def)
  moreover have "port_dn_ok sizes ?port"
    using push t(2) by (intro dn_ok_elems) (auto simp: dn_ok_def split: if_splits)
  ultimately show ?thesis using push t(1) by (intro exI) (auto simp: port_requests_def)
qed

text \<open>One step of each primitive on a port that is there.\<close>

named_theorems port_step \<open>the effect of one primitive operation on a port\<close>

lemma upd_port_step [port_step]:
  "ports st p = Some port \<Longrightarrow> upd_port st p f = Some (st\<lparr>ports := (ports st)(p \<mapsto> f port)\<rparr>)"
  by (simp add: upd_port_def)

lemma ip_reference_step [port_step]:
  "ports st p = Some port \<Longrightarrow> ip_reference st p =
     Some (st\<lparr>ports := (ports st)(p \<mapsto> port\<lparr>ip_references := ip_references port + 1\<rparr>)\<rparr>)"
  by (simp add: ip_reference_def upd_port_def)

lemma ip_release_step [port_step]:
  "ports st p = Some port \<Longrightarrow> ip_release st p =
     Some (st\<lparr>ports := (ports st)(p \<mapsto> port\<lparr>ip_references := ip_references port - 1\<rparr>)\<rparr>)"
  by (simp add: ip_release_def upd_port_def)

lemma ip_lock_step [port_step]:
  "ports st p = Some port \<Longrightarrow> locked st = {} \<Longrightarrow> ip_lock st p = Some (st\<lparr>locked := {p}\<rparr>)"
  by (simp add: ip_lock_def)

lemma ip_unlock_step [port_step]:
  "ports st p = Some port \<Longrightarrow> locked st = {p} \<Longrightarrow> ip_unlock st p = Some (st\<lparr>locked := {}\<rparr>)"
  by (simp add: ip_unlock_def)

lemma ip_check_unlock_step [port_step]:
  "ports st p = Some port \<Longrightarrow> locked st = {p} \<Longrightarrow> ip_check_unlock st p =
     Some (if ip_references port = 0
           then emit [Port_freed p] (st\<lparr>locked := {}, ports := (ports st)(p := None)\<rparr>)
           else st\<lparr>locked := {}\<rparr>)"
  by (simp add: ip_check_unlock_def ip_unlock_def Let_def)

lemma emit_sel [simp]:
  "ports (emit es st) = ports st" "locked (emit es st) = locked st" "multiple (emit es st) = multiple st"
  "timestamp_data (emit es st) = timestamp_data st" "events (emit es st) = events st @ es"
  by (simp_all add: emit_def)

text \<open>
  What is left of a port after an operation that gave up one reference and may have changed the
  table: the same requests, or nothing if that was the last reference.
\<close>

definition dn_grown :: "nat list \<Rightarrow> ipc_port \<Rightarrow> ipc_port option \<Rightarrow> bool" where
  "dn_grown sizes port result \<longleftrightarrow>
     (case result of
        None \<Rightarrow> ip_references port = 1
      | Some port' \<Rightarrow> port_dn_ok sizes port' \<and> port_requests port' = port_requests port \<and>
          port' = port\<lparr>ip_references := ip_references port - 1, ip_dnrequests := ip_dnrequests port'\<rparr>)"

lemma dn_grown_release:
  "port_dn_ok sizes port \<Longrightarrow>
   dn_grown sizes port (if ip_references port = 1 then None
     else Some (port\<lparr>ip_references := ip_references port - 1\<rparr>))"
  by (simp add: dn_grown_def)

lemma ipc_port_release_step [port_step]:
  "ports st p = Some port \<Longrightarrow> locked st = {} \<Longrightarrow> 0 < ip_references port \<Longrightarrow>
   \<exists>st'. ipc_port_release st p = Some st' \<and> locked st' = {} \<and>
     ports st' = (ports st)(p := (if ip_references port = 1 then None
       else Some (port\<lparr>ip_references := ip_references port - 1\<rparr>))) \<and>
     events st' = events st @ (if ip_references port = 1 then [Port_freed p] else []) \<and>
     multiple st' = multiple st \<and> timestamp_data st' = timestamp_data st"
  by (simp add: ipc_port_release_def ip_lock_step ip_release_step ip_check_unlock_step)

lemma dngrow_install_ok:
  assumes "ports st p = Some port" "port_dn_ok sizes port" "locked st = {}"
    and sizes: "dn_sizes_ok sizes" "its < length sizes" "sizes ! its \<noteq> 0" "length ntable = sizes ! its"
    and none: "oaddr = None \<Longrightarrow> its = 0"
  shows "\<exists>st'. dngrow_install sizes oaddr its addr ntable st p = Some (KERN_SUCCESS, st') \<and>
    locked st' = {} \<and> dn_grown sizes port (ports st' p)"
proof (cases "dngrow_same (port\<lparr>ip_references := ip_references port - 1\<rparr>) oaddr its")
  case True
  then have its: "its = dn_next_size port"
    using none by (auto simp: dn_next_size_def dngrow_same_def split: option.splits)
  obtain t where t: "dngrow_fill sizes (ip_dnrequests port) its addr ntable = Some t" "dn_ok sizes t"
    "dn_requests (dn_elems t) = port_requests port"
    using dngrow_fill_ok [OF assms(2) sizes(1) its sizes(2-4)] by blast
  show ?thesis
    unfolding dngrow_install_def using assms(1,3) True t
    by (simp add: port_step dn_grown_def port_dn_ok_def port_requests_def split: option.splits)
next
  case False
  then have "dngrow_install sizes oaddr its addr ntable st p =
    do { st \<leftarrow> ip_check_unlock (st\<lparr>ports := (ports st)(p \<mapsto> port\<lparr>ip_references := ip_references port - 1\<rparr>),
                                  locked := {p}\<rparr>) p;
         Some (KERN_SUCCESS, emit [Dnrequests_free its addr] st) }"
    unfolding dngrow_install_def using assms(1,3) by (simp add: port_step)
  then show ?thesis using dn_grown_release [OF assms(2)] by (auto simp: port_step split: if_splits)
qed

lemma dn_next_size_in:
  "port_dn_ok sizes port \<Longrightarrow> dn_sizes_ok sizes \<Longrightarrow> dn_next_size port < length sizes"
  by (auto simp: dn_next_size_def dn_sizes_ok_def port_dn_ok_def dn_ok_def split: option.splits)

lemma dngrow_ok:
  assumes st: "ports st p = Some port" "ip_active port" "locked st = {p}" "dn_sizes_ok sizes"
      "port_dn_ok sizes port"
    and st1: "st1 = env (st\<lparr>ports := (ports st)(p \<mapsto> port\<lparr>ip_references := ip_references port + 1\<rparr>),
                          locked := {}\<rparr>)"
    and p1: "ports st1 p = Some port1" "0 < ip_references port1" "port_dn_ok sizes port1" "locked st1 = {}"
    and mem: "\<And>n addr t. mem n = Some (addr, t) \<Longrightarrow> length t = n"
  shows "\<exists>kr st'. ipc_port_dngrow sizes mem env st p = Some (kr, st') \<and> locked st' = {} \<and>
    kr = (if sizes ! dn_next_size port = 0 \<or> mem (sizes ! dn_next_size port) = None
          then KERN_RESOURCE_SHORTAGE else KERN_SUCCESS) \<and>
    dn_grown sizes port1 (ports st' p)"
proof -
  let ?its = "dn_next_size port"
  let ?m = "if sizes ! ?its = 0 then None else mem (sizes ! ?its)"
  have len: "?its < length sizes" using dn_next_size_in [OF st(5,4)] .
  have run: "ipc_port_dngrow sizes mem env st p =
    (case ?m of
       None \<Rightarrow> do { st \<leftarrow> ipc_port_release st1 p; Some (KERN_RESOURCE_SHORTAGE, st) }
     | Some (addr, ntable) \<Rightarrow>
         dngrow_install sizes (map_option dn_addr (ip_dnrequests port)) ?its addr ntable st1 p)"
    using st(1-3) len
    by (simp add: ipc_port_dngrow_def port_step st1 Let_def flip: dn_next_size_def
        split: option.split)
  show ?thesis
  proof (cases ?m)
    case None
    obtain st' where r: "ipc_port_release st1 p = Some st'" "locked st' = {}" "dn_grown sizes port1 (ports st' p)"
      using ipc_port_release_step [OF p1(1,4,2)] dn_grown_release [OF p1(3)] by (auto split: if_splits)
    from None have "sizes ! ?its = 0 \<or> mem (sizes ! ?its) = None" by (simp split: if_splits)
    with r run None show ?thesis by simp
  next
    case (Some m)
    obtain addr ntable where m: "m = (addr, ntable)" by (cases m)
    have nz: "sizes ! ?its \<noteq> 0" and memeq: "mem (sizes ! ?its) = Some (addr, ntable)"
      using Some m by (auto split: if_splits)
    have none: "map_option dn_addr (ip_dnrequests port) = None \<Longrightarrow> ?its = 0"
      by (simp add: dn_next_size_def)
    obtain st' where "dngrow_install sizes (map_option dn_addr (ip_dnrequests port)) ?its addr ntable st1 p
      = Some (KERN_SUCCESS, st')" "locked st' = {}" "dn_grown sizes port1 (ports st' p)"
      using dngrow_install_ok [OF p1(1,3,4) st(4) len nz mem [OF memeq] none] by blast
    with run Some m nz memeq show ?thesis by simp
  qed
qed

definition dn_room :: "ipc_port \<Rightarrow> bool" where
  "dn_room port \<longleftrightarrow> (\<exists>i. 0 < i \<and> i < dn_capacity port \<and> port_requests port i = None)"

lemma dngrow_quiet:
  assumes st: "ports st p = Some port" "ip_active port" "locked st = {p}" "dn_sizes_ok sizes"
      "port_dn_ok sizes port"
    and mem: "mem (sizes ! dn_next_size port) = Some (addr, table)" "length table = sizes ! dn_next_size port"
    and nz: "sizes ! dn_next_size port \<noteq> 0"
  shows "\<exists>st' port'. ipc_port_dngrow sizes mem id st p = Some (KERN_SUCCESS, st') \<and> locked st' = {} \<and>
    ports st' = (ports st)(p \<mapsto> port') \<and> port' = port\<lparr>ip_dnrequests := ip_dnrequests port'\<rparr> \<and>
    port_dn_ok sizes port' \<and> port_requests port' = port_requests port \<and> dn_room port'"
proof -
  let ?its = "dn_next_size port"
  have len: "?its < length sizes" using dn_next_size_in [OF st(5,4)] .
  obtain t where t: "dngrow_fill sizes (ip_dnrequests port) ?its addr table = Some t" "dn_ok sizes t"
    "dn_requests (dn_elems t) = port_requests port" "ipr_notify (dn_elems t ! 0) \<noteq> 0"
    using dngrow_fill_ok [OF st(5,4) refl len nz mem(2)] by blast
  let ?port = "port\<lparr>ip_dnrequests := Some t\<rparr>"
  have same: "dngrow_same (port\<lparr>ip_references := ip_references port\<rparr>)
      (map_option dn_addr (ip_dnrequests port)) ?its"
    using st(2) by (simp add: dngrow_same_def dn_next_size_def split: option.split)
  have ok: "dn_elems_ok (dn_elems t)" using t(2) by (simp add: dn_ok_def)
  have room: "dn_room ?port"
    using dnrequest_full [OF ok] t(4)
    by (simp add: dn_room_def dn_capacity_def port_requests_def del: not_None_eq)
  have "ipc_port_dngrow sizes mem id st p =
    dngrow_install sizes (map_option dn_addr (ip_dnrequests port)) ?its addr table
      (st\<lparr>ports := (ports st)(p \<mapsto> port\<lparr>ip_references := ip_references port + 1\<rparr>), locked := {}\<rparr>) p"
    using st(1-3) len nz mem(1)
    by (simp add: ipc_port_dngrow_def port_step Let_def flip: dn_next_size_def)
  moreover have "\<exists>st'. dngrow_install sizes (map_option dn_addr (ip_dnrequests port)) ?its addr table
      (st\<lparr>ports := (ports st)(p \<mapsto> port\<lparr>ip_references := ip_references port + 1\<rparr>), locked := {}\<rparr>) p =
      Some (KERN_SUCCESS, st') \<and> locked st' = {} \<and> ports st' = (ports st)(p \<mapsto> ?port)"
    using st(1) same t by (simp add: dngrow_install_def port_step split: option.split)
  moreover have "port_dn_ok sizes ?port" "port_requests ?port = port_requests port"
    using t(2,3) by (simp_all add: port_dn_ok_def port_requests_def)
  moreover have "?port = port\<lparr>ip_dnrequests := ip_dnrequests ?port\<rparr>" by simp
  ultimately show ?thesis using room by metis
qed

subsection \<open>Properties\<close>

text \<open>
  C16. Growing the table makes room: when the next table size exists and memory is available,
  \<^verbatim>\<open>ipc_port_dngrow\<close> succeeds, and \<^verbatim>\<open>ipc_port_dnrequest\<close>, retried with the port
  locked again, succeeds with a slot that was not in use. All requests registered before are kept,
  the new one is added, the table satisfies its invariant and the reference count is as before.
\<close>

theorem dnrequest_after_grow:
  assumes "ports st p = Some port" and "ip_active port" and "locked st = {p}"
    and "dn_sizes_ok sizes" and "port_dn_ok sizes port"
    and "sizes ! dn_next_size port \<noteq> 0"
    and "mem (sizes ! dn_next_size port) = Some (addr, table)" and "length table = sizes ! dn_next_size port"
    and "name \<noteq> MACH_PORT_NULL" and "soright \<noteq> IP_NULL"
  shows "\<exists>st1 st2 st3 i port'.
    ipc_port_dngrow sizes mem id st p = Some (KERN_SUCCESS, st1) \<and>
    ip_lock st1 p = Some st2 \<and>
    ipc_port_dnrequest st2 p name soright = Some (Inr i, st3) \<and>
    ports st3 = (ports st)(p \<mapsto> port') \<and> port_dn_ok sizes port' \<and>
    port_requests port (unat i) = None \<and>
    port_requests port' = (port_requests port)(unat i \<mapsto> (name, soright)) \<and>
    port' = port\<lparr>ip_dnrequests := ip_dnrequests port'\<rparr>"
proof -
  obtain st1 port1 where g: "ipc_port_dngrow sizes mem id st p = Some (KERN_SUCCESS, st1)"
    "locked st1 = {}" "ports st1 = (ports st)(p \<mapsto> port1)"
    "port1 = port\<lparr>ip_dnrequests := ip_dnrequests port1\<rparr>"
    "port_dn_ok sizes port1" "port_requests port1 = port_requests port" "dn_room port1"
    using dngrow_quiet [of st p port sizes mem, OF assms(1-5,7,8,6)] by metis
  let ?st2 = "st1\<lparr>locked := {p}\<rparr>"
  have p1: "ports ?st2 p = Some port1" using g(3) by simp
  have "ip_bits port1 = ip_bits port" using g(4) by (metis ipc_port.select_convs(1) ipc_port.surjective ipc_port.update_convs(10))
  then have act: "ip_active port1" using assms(2) by simp
  obtain i st3 port' where r: "ipc_port_dnrequest ?st2 p name soright = Some (Inr i, st3)"
    "st3 = ?st2\<lparr>ports := (ports ?st2)(p \<mapsto> port')\<rparr>" "port_dn_ok sizes port'"
    "port_requests port1 (unat i) = None"
    "port_requests port' = (port_requests port1)(unat i \<mapsto> (name, soright))"
    "port' = port1\<lparr>ip_dnrequests := ip_dnrequests port'\<rparr>"
    using dnrequest_ok [OF p1 act g(5) assms(9,10)] g(7) unfolding dn_room_def by blast
  have "port' = port\<lparr>ip_dnrequests := ip_dnrequests port'\<rparr>" using r(6) g(4) by (metis ipc_port.surjective ipc_port.update_convs(10))
  moreover have "ip_lock st1 p = Some ?st2" using g(2,3) by (simp add: port_step)
  ultimately show ?thesis using g r by auto
qed

text \<open>
  A port with one request in a table of two elements, in a system with the sizes 2 and 4, for
  the examples.
\<close>

definition ex_port :: ipc_port where
  "ex_port = \<lparr>ip_bits = IO_BITS_ACTIVE, ip_references = 1, ip_receiver_name = 7, ip_data = 0x3000,
     ip_mscount = 0, ip_srights = 0, ip_sorights = 0, ip_nsrequest = 0, ip_pdrequest = 0,
     ip_dnrequests = Some \<lparr>dn_addr = 0x2000, dn_size = 0,
       dn_elems = [\<lparr>ipr_notify = 0, ipr_name = 0\<rparr>, \<lparr>ipr_notify = 0x1000, ipr_name = 5\<rparr>]\<rparr>,
     ip_pset = 0, ip_seqno = 0, ip_msgcount = 0, ip_qlimit = 5, ip_messages = [], ip_blocked = []\<rparr>"

definition ex_sizes :: "nat list" where "ex_sizes = [2, 4, 0]"

definition ex_state :: port_state where
  "ex_state = \<lparr>ports = [0x4000 \<mapsto> ex_port], locked = {0x4000}, multiple = False, timestamp_data = 0, events = []\<rparr>"

definition ex_mem :: "nat \<Rightarrow> (ptr \<times> ipc_port_request list) option" where
  "ex_mem n = Some (0x5000, replicate n \<lparr>ipr_notify = 0xdead, ipr_name = 0xbeef\<rparr>)"

lemma ex_active [simp]: "ip_active ex_port"
  by (simp add: ex_port_def io_active_def IO_BITS_ACTIVE_def)

lemma ex_sizes_ok [simp]: "dn_sizes_ok ex_sizes"
  by (simp add: dn_sizes_ok_def ex_sizes_def)

lemma ex_sizes_1 [simp]: "ex_sizes ! Suc 0 = 4"
  by (simp add: ex_sizes_def)

lemma ex_requests: "port_requests ex_port = [1 \<mapsto> (5, 0x1000)]"
  by (auto simp: port_requests_def ex_port_def dn_requests_def MACH_PORT_NULL_def fun_eq_iff less_Suc_eq)

lemma ex_port_ok [simp]: "port_dn_ok ex_sizes ex_port"
proof -
  let ?e = "[\<lparr>ipr_notify = 0, ipr_name = 0\<rparr>, \<lparr>ipr_notify = 0x1000, ipr_name = 5\<rparr>]"
  have "dn_elems_ok ?e"
    by (rule dn_elems_okI [of _ "[]"]) (auto simp: dn_free_def MACH_PORT_NULL_def less_Suc_eq)
  then show ?thesis
    using ex_requests
    by (auto simp: port_dn_ok_def dn_ok_def ex_port_def ex_sizes_def port_requests_def IP_NULL_def IO_NULL_def
        split: if_splits)
qed

lemma port_dn_ok_None [simp]: "port_dn_ok sizes (port\<lparr>ip_dnrequests := None\<rparr>)"
  by (simp add: port_dn_ok_def)

lemma ex_capacity [simp]: "dn_capacity ex_port = 2"
  by (simp add: dn_capacity_def ex_port_def)

lemma ex_next_size [simp]: "dn_next_size ex_port = 1"
  by (simp add: dn_next_size_def ex_port_def)

theorem dnrequest_after_grow_witness:
  "\<exists>st1 st2 st3 i port'.
    ipc_port_dngrow ex_sizes ex_mem id ex_state 0x4000 = Some (KERN_SUCCESS, st1) \<and>
    ip_lock st1 0x4000 = Some st2 \<and>
    ipc_port_dnrequest st2 0x4000 9 0x1004 = Some (Inr i, st3) \<and>
    ports st3 = (ports ex_state)(0x4000 \<mapsto> port') \<and> port_dn_ok ex_sizes port' \<and>
    port_requests ex_port (unat i) = None \<and>
    port_requests port' = (port_requests ex_port)(unat i \<mapsto> (9, 0x1004)) \<and>
    port' = ex_port\<lparr>ip_dnrequests := ip_dnrequests port'\<rparr>"
  by (rule dnrequest_after_grow [where table = "replicate 4 \<lparr>ipr_notify = 0xdead, ipr_name = 0xbeef\<rparr>" and addr = "0x5000"])
    (simp_all add: ex_state_def ex_mem_def MACH_PORT_NULL_def IP_NULL_def IO_NULL_def)

text \<open>
  C17. Interference while the port is unlocked. Whatever other threads do while
  \<^verbatim>\<open>ipc_port_dngrow\<close> allocates memory (grow the table themselves, add and cancel requests, kill
  the port), as long as they leave the port with the reference this thread took, keep the table's
  invariant and hold no lock, the function returns, fails only for lack of memory, leaves nothing
  locked, gives up its reference, and keeps exactly the requests that the others left. The port is
  freed only if that was the last reference.
\<close>

theorem dngrow_interference:
  assumes "ports st p = Some port" and "ip_active port" and "locked st = {p}"
    and "dn_sizes_ok sizes" and "port_dn_ok sizes port"
    and "st1 = env (st\<lparr>ports := (ports st)(p \<mapsto> port\<lparr>ip_references := ip_references port + 1\<rparr>),
                     locked := {}\<rparr>)"
    and "ports st1 p = Some port1" and "0 < ip_references port1" and "port_dn_ok sizes port1"
    and "locked st1 = {}"
    and "\<And>n addr table. mem n = Some (addr, table) \<Longrightarrow> length table = n"
  shows "\<exists>kr st'. ipc_port_dngrow sizes mem env st p = Some (kr, st') \<and> locked st' = {} \<and>
    kr = (if sizes ! dn_next_size port = 0 \<or> mem (sizes ! dn_next_size port) = None
          then KERN_RESOURCE_SHORTAGE else KERN_SUCCESS) \<and>
    (case ports st' p of
       None \<Rightarrow> ip_references port1 = 1
     | Some port' \<Rightarrow> port_dn_ok sizes port' \<and> port_requests port' = port_requests port1 \<and>
         port' = port1\<lparr>ip_references := ip_references port1 - 1, ip_dnrequests := ip_dnrequests port'\<rparr>)"
  using dngrow_ok [of st p port sizes st1 env port1 mem, OF assms] unfolding dn_grown_def .

text \<open>Another thread that kills the port and drops its table.\<close>

definition ex_env :: "port_state \<Rightarrow> port_state" where
  "ex_env st = st\<lparr>ports := (ports st)(0x4000 := map_option (\<lambda>port. port\<lparr>ip_bits := 0, ip_references := 1,
     ip_dnrequests := None\<rparr>) (ports st 0x4000))\<rparr>"

theorem dngrow_interference_witness:
  "\<exists>kr st'. ipc_port_dngrow ex_sizes ex_mem ex_env ex_state 0x4000 = Some (kr, st') \<and> locked st' = {} \<and>
    kr = KERN_SUCCESS \<and>
    (case ports st' 0x4000 of
       None \<Rightarrow> ip_references (ex_port\<lparr>ip_bits := 0, ip_references := 1, ip_dnrequests := None\<rparr>) = 1
     | Some port' \<Rightarrow> port_requests port' = Map.empty)"
proof -
  let ?port1 = "ex_port\<lparr>ip_bits := 0, ip_references := 1, ip_dnrequests := None\<rparr>"
  have "\<exists>kr st'. ipc_port_dngrow ex_sizes ex_mem ex_env ex_state 0x4000 = Some (kr, st') \<and> locked st' = {} \<and>
    kr = (if ex_sizes ! dn_next_size ex_port = 0 \<or> ex_mem (ex_sizes ! dn_next_size ex_port) = None
          then KERN_RESOURCE_SHORTAGE else KERN_SUCCESS) \<and>
    (case ports st' 0x4000 of
       None \<Rightarrow> ip_references ?port1 = 1
     | Some port' \<Rightarrow> port_dn_ok ex_sizes port' \<and> port_requests port' = port_requests ?port1 \<and>
         port' = ?port1\<lparr>ip_references := ip_references ?port1 - 1, ip_dnrequests := ip_dnrequests port'\<rparr>)"
    by (rule dngrow_interference [OF _ _ _ _ _ refl])
      (auto simp: ex_state_def ex_env_def ex_mem_def)
  then show ?thesis
    by (simp add: ex_mem_def) (auto simp: port_requests_def split: option.splits)
qed

text \<open>
  The request table is a map from slots to requests. \<^verbatim>\<open>ipc_port_dnrequest\<close> puts the
  request into a slot that was empty and changes nothing else; it fails with
  \<^verbatim>\<open>KERN_NO_SPACE\<close>, changing nothing, exactly when every slot is taken. Cancelling that slot in
  any later state of the port that still has the request returns the send-once right and
  takes out this request only.
\<close>

theorem dnrequest_cancel:
  assumes "ports st p = Some port" and "ip_active port" and "port_dn_ok sizes port"
    and "name \<noteq> MACH_PORT_NULL" and "soright \<noteq> IP_NULL"
  shows "if dn_room port
    then \<exists>i st' port'. ipc_port_dnrequest st p name soright = Some (Inr i, st') \<and>
      ports st' = (ports st)(p \<mapsto> port') \<and> port_dn_ok sizes port' \<and> port_requests port (unat i) = None \<and>
      port_requests port' = (port_requests port)(unat i \<mapsto> (name, soright)) \<and>
      (\<forall>st2 port2. ports st2 p = Some port2 \<and> ip_active port2 \<and> port_dn_ok sizes port2 \<and>
         port_requests port2 (unat i) = Some (name, soright) \<longrightarrow>
         (\<exists>st3 port3. ipc_port_dncancel st2 p name i = Some (soright, st3) \<and>
            ports st3 = (ports st2)(p \<mapsto> port3) \<and> port_dn_ok sizes port3 \<and>
            port_requests port3 = (port_requests port2)(unat i := None)))
    else ipc_port_dnrequest st p name soright = Some (Inl KERN_NO_SPACE, st)"
proof (cases "dn_room port")
  case True
  obtain i st' port' where r: "ipc_port_dnrequest st p name soright = Some (Inr i, st')"
    "st' = st\<lparr>ports := (ports st)(p \<mapsto> port')\<rparr>" "port_dn_ok sizes port'"
    "port_requests port (unat i) = None"
    "port_requests port' = (port_requests port)(unat i \<mapsto> (name, soright))"
    using dnrequest_ok [OF assms] True unfolding dn_room_def by blast
  have "\<exists>st3 port3. ipc_port_dncancel st2 p name i = Some (soright, st3) \<and>
      ports st3 = (ports st2)(p \<mapsto> port3) \<and> port_dn_ok sizes port3 \<and>
      port_requests port3 = (port_requests port2)(unat i := None)"
    if "ports st2 p = Some port2" "ip_active port2" "port_dn_ok sizes port2"
      "port_requests port2 (unat i) = Some (name, soright)" for st2 port2
    using dncancel_ok [OF that] by auto
  with r True show ?thesis by auto
next
  case False
  with dnrequest_no_space [OF assms] show ?thesis by (simp add: dn_room_def)
qed

theorem dnrequest_cancel_witness:
  "ipc_port_dnrequest ex_state 0x4000 9 0x1004 = Some (Inl KERN_NO_SPACE, ex_state)"
proof -
  have "\<not> dn_room ex_port"
    by (auto simp: dn_room_def ex_requests)
  then show ?thesis
    using dnrequest_cancel [of ex_state "0x4000" ex_port ex_sizes 9 "0x1004"]
    by (simp add: ex_state_def MACH_PORT_NULL_def IP_NULL_def IO_NULL_def)
qed

end
