(* ===== verification/Ipc_Port_Rights.thy ===== *)
theory Ipc_Port_Rights
  imports Ipc_Port_Requests "HOL-Library.Multiset"
begin

text \<open>
  Runs of operations on the rights of one port. A run is a list of operations; the send-once rights
  that the no-senders requests hand over and get back are collected in multisets.
\<close>

datatype right_op =
    Make_send
  | Copy_send
  | Release_send
  | Make_sonce
  | Release_sonce
  | Nsrequest u32 ptr

text \<open>
  One operation on the port \<open>p\<close>: the previous no-senders request that it returns, if any, and the
  new state. \<^verbatim>\<open>ipc_port_nsrequest\<close> is called with the port locked.
\<close>

fun run_op :: "ptr \<Rightarrow> right_op \<Rightarrow> port_state \<Rightarrow> (ptr list \<times> port_state) option" where
  "run_op p Make_send st = do { (_, st) \<leftarrow> ipc_port_make_send st p; Some ([], st) }"
| "run_op p Copy_send st = do { (_, st) \<leftarrow> ipc_port_copy_send st p; Some ([], st) }"
| "run_op p Release_send st = do { st \<leftarrow> ipc_port_release_send st p; Some ([], st) }"
| "run_op p Make_sonce st = do { (_, st) \<leftarrow> ipc_port_make_sonce st p; Some ([], st) }"
| "run_op p Release_sonce st = do { st \<leftarrow> ipc_port_release_sonce st p; Some ([], st) }"
| "run_op p (Nsrequest sync notify) st =
     do { st \<leftarrow> ip_lock st p;
          (previous, st) \<leftarrow> ipc_port_nsrequest st p sync notify;
          Some (if previous = IP_NULL then [] else [previous], st) }"

fun run_ops :: "ptr \<Rightarrow> right_op list \<Rightarrow> port_state \<Rightarrow> (ptr list \<times> port_state) option" where
  "run_ops p [] st = Some ([], st)"
| "run_ops p (op # ops) st =
     do { (ret, st) \<leftarrow> run_op p op st;
          (rets, st) \<leftarrow> run_ops p ops st;
          Some (ret @ rets, st) }"

text \<open>
  The rights that exist: \<open>s\<close> send rights and \<open>so\<close> send-once rights. A run is legal if nobody copies
  or releases a right that does not exist.
\<close>

fun rights_after :: "right_op \<Rightarrow> nat \<times> nat \<Rightarrow> nat \<times> nat" where
  "rights_after Make_send (s, so) = (s + 1, so)"
| "rights_after Copy_send (s, so) = (s + 1, so)"
| "rights_after Release_send (s, so) = (s - 1, so)"
| "rights_after Make_sonce (s, so) = (s, so + 1)"
| "rights_after Release_sonce (s, so) = (s, so - 1)"
| "rights_after (Nsrequest sync notify) (s, so) = (s, so)"

fun legal_op :: "right_op \<Rightarrow> nat \<times> nat \<Rightarrow> bool" where
  "legal_op Copy_send (s, so) \<longleftrightarrow> 0 < s"
| "legal_op Release_send (s, so) \<longleftrightarrow> 0 < s"
| "legal_op Release_sonce (s, so) \<longleftrightarrow> 0 < so"
| "legal_op _ _ \<longleftrightarrow> True"

fun legal_ops :: "right_op list \<Rightarrow> nat \<times> nat \<Rightarrow> bool" where
  "legal_ops [] r \<longleftrightarrow> True"
| "legal_ops (op # ops) r \<longleftrightarrow> legal_op op r \<and> legal_ops ops (rights_after op r)"

definition rights :: "ipc_port \<Rightarrow> nat \<times> nat" where
  "rights port = (unat (ip_srights port), unat (ip_sorights port))"

fun given :: "right_op \<Rightarrow> ptr multiset" where
  "given (Nsrequest sync notify) = (if notify = IP_NULL then {#} else {#notify#})"
| "given _ = {#}"

definition pending :: "ipc_port \<Rightarrow> ptr multiset" where
  "pending port = (if ip_nsrequest port = IP_NULL then {#} else {#ip_nsrequest port#})"

fun notified :: "port_event list \<Rightarrow> ptr multiset" where
  "notified [] = {#}"
| "notified (No_senders notify mscount # es) = add_mset notify (notified es)"
| "notified (_ # es) = notified es"

lemma notified_append [simp]: "notified (es @ es') = notified es + notified es'"
  by (induction es rule: notified.induct) auto

text \<open>
  A live port with a reference for each right, and at least \<open>n\<close> references below the maximum.
\<close>

definition rights_ok :: "ptr \<Rightarrow> nat \<Rightarrow> port_state \<Rightarrow> ipc_port \<Rightarrow> bool" where
  "rights_ok p n st port \<longleftrightarrow>
     IP_VALID p \<and> ports st p = Some port \<and> locked st = {} \<and> ip_active port \<and>
     unat (ip_srights port) + unat (ip_sorights port) \<le> unat (ip_references port) \<and>
     unat (ip_references port) + n < 2 ^ 32"

definition op_result :: "ptr \<Rightarrow> nat \<Rightarrow> right_op \<Rightarrow> port_state \<Rightarrow> ipc_port \<Rightarrow> ptr list \<Rightarrow> port_state \<Rightarrow> ipc_port \<Rightarrow> bool" where
  "op_result p n op st port ret st' port' \<longleftrightarrow>
     rights_ok p n st' port' \<and> rights port' = rights_after op (rights port) \<and>
     unat (ip_references port') + unat (ip_srights port) + unat (ip_sorights port) =
       unat (ip_references port) + unat (ip_srights port') + unat (ip_sorights port') \<and>
     (\<exists>es. events st' = events st @ es \<and> given op + pending port = mset ret + notified es + pending port' \<and>
        (\<forall>notify mscount. No_senders notify mscount \<in> set es \<longrightarrow>
           ip_srights port' = 0 \<and> mscount = ip_mscount port'))"

lemma unat_inc: "unat (x :: u32) + 1 < 2 ^ 32 \<Longrightarrow> unat (x + 1) = unat x + 1"
  by (simp add: unat_plus_if' )

lemma unat_dec: "0 < unat (x :: u32) \<Longrightarrow> unat (x - 1) = unat x - 1"
  by (metis One_nat_def Suc_leI unat_1 unat_sub word_le_nat_alt)

lemma pending_simps [simp]:
  "pending (port\<lparr>ip_references := r\<rparr>) = pending port"
  "pending (port\<lparr>ip_mscount := r\<rparr>) = pending port"
  "pending (port\<lparr>ip_srights := r\<rparr>) = pending port"
  "pending (port\<lparr>ip_sorights := r\<rparr>) = pending port"
  "pending (port\<lparr>ip_nsrequest := n\<rparr>) = (if n = IP_NULL then {#} else {#n#})"
  by (simp_all add: pending_def)

lemma make_send_step:
  assumes "rights_ok p (Suc n) st port"
  shows "\<exists>ret st' port'. run_op p Make_send st = Some (ret, st') \<and> op_result p n Make_send st port ret st' port'"
  using assms unat_inc [of "ip_references port"] unat_inc [of "ip_srights port"]
  by (auto simp: rights_ok_def ipc_port_make_send_def port_step op_result_def rights_def)

lemma copy_send_step:
  assumes "rights_ok p (Suc n) st port" and "legal_op Copy_send (rights port)"
  shows "\<exists>ret st' port'. run_op p Copy_send st = Some (ret, st') \<and> op_result p n Copy_send st port ret st' port'"
  using assms unat_inc [of "ip_references port"] unat_inc [of "ip_srights port"]
  by (auto simp: rights_ok_def ipc_port_copy_send_def port_step op_result_def rights_def word_less_nat_alt)

lemma make_sonce_step:
  assumes "rights_ok p (Suc n) st port"
  shows "\<exists>ret st' port'. run_op p Make_sonce st = Some (ret, st') \<and> op_result p n Make_sonce st port ret st' port'"
  using assms unat_inc [of "ip_references port"] unat_inc [of "ip_sorights port"]
  by (auto simp: rights_ok_def ipc_port_make_sonce_def port_step op_result_def rights_def)

lemma release_sonce_step:
  assumes "rights_ok p (Suc n) st port" and "legal_op Release_sonce (rights port)"
  shows "\<exists>ret st' port'. run_op p Release_sonce st = Some (ret, st') \<and> op_result p n Release_sonce st port ret st' port'"
  using assms unat_dec [of "ip_references port"] unat_dec [of "ip_sorights port"]
  by (auto simp: rights_ok_def ipc_port_release_sonce_def port_step op_result_def rights_def word_less_nat_alt)

lemma release_send_step:
  assumes "rights_ok p (Suc n) st port" and "legal_op Release_send (rights port)"
  shows "\<exists>ret st' port'. run_op p Release_send st = Some (ret, st') \<and> op_result p n Release_send st port ret st' port'"
  using assms unat_dec [of "ip_references port"] unat_dec [of "ip_srights port"]
  by (auto simp: rights_ok_def ipc_port_release_send_def port_step op_result_def rights_def word_less_nat_alt
      Let_def pending_def)

lemma nsrequest_step:
  assumes "rights_ok p (Suc n) st port"
  shows "\<exists>ret st' port'. run_op p (Nsrequest sync notify) st = Some (ret, st') \<and>
    op_result p n (Nsrequest sync notify) st port ret st' port'"
  using assms
  by (auto simp: rights_ok_def ipc_port_nsrequest_def port_step op_result_def rights_def Let_def pending_def)

lemma run_op_step:
  assumes "rights_ok p (Suc n) st port" and "legal_op op (rights port)"
  shows "\<exists>ret st' port'. run_op p op st = Some (ret, st') \<and> op_result p n op st port ret st' port'"
  using assms
  by (cases op) (blast intro: make_send_step copy_send_step release_send_step make_sonce_step
      release_sonce_step nsrequest_step)+

lemma run_ops_steps:
  assumes "rights_ok p (length ops) st port" and "legal_ops ops (rights port)"
  shows "\<exists>rets st' port' es. run_ops p ops st = Some (rets, st') \<and> rights_ok p 0 st' port' \<and>
    rights port' = fold rights_after ops (rights port) \<and>
    unat (ip_references port') + unat (ip_srights port) + unat (ip_sorights port) =
      unat (ip_references port) + unat (ip_srights port') + unat (ip_sorights port') \<and>
    events st' = events st @ es \<and>
    (\<Sum>op\<leftarrow>ops. given op) + pending port = mset rets + notified es + pending port'"
  using assms
proof (induction ops arbitrary: st port)
  case Nil
  then show ?case by (auto intro: exI [of _ port])
next
  case (Cons op ops)
  obtain ret st1 port1 where op: "run_op p op st = Some (ret, st1)"
    "op_result p (length ops) op st port ret st1 port1"
    using run_op_step [of p "length ops" st port op] Cons.prems by auto
  from op(2) obtain es1 where r: "rights_ok p (length ops) st1 port1"
    "rights port1 = rights_after op (rights port)"
    "unat (ip_references port1) + unat (ip_srights port) + unat (ip_sorights port) =
       unat (ip_references port) + unat (ip_srights port1) + unat (ip_sorights port1)"
    "events st1 = events st @ es1" "given op + pending port = mset ret + notified es1 + pending port1"
    by (auto simp: op_result_def)
  have "legal_ops ops (rights port1)" using Cons.prems(2) r(2) by simp
  from Cons.IH [OF r(1) this] obtain rets st' port' es where s: "run_ops p ops st1 = Some (rets, st')"
    "rights_ok p 0 st' port'" "rights port' = fold rights_after ops (rights port1)"
    "unat (ip_references port') + unat (ip_srights port1) + unat (ip_sorights port1) =
       unat (ip_references port1) + unat (ip_srights port') + unat (ip_sorights port')"
    "events st' = events st1 @ es" "(\<Sum>op\<leftarrow>ops. given op) + pending port1 = mset rets + notified es + pending port'"
    by blast
  have "run_ops p (op # ops) st = Some (ret @ rets, st')" using op(1) s(1) by simp
  moreover have "(\<Sum>op\<leftarrow>op # ops. given op) + pending port =
      mset (ret @ rets) + notified (es1 @ es) + pending port'"
    using r(5) s(6) by (simp add: ac_simps) (metis (no_types, opaque_lifting) add.assoc add.commute)
  moreover have "events st' = events st @ (es1 @ es)" using r(4) s(5) by simp
  moreover have "rights port' = fold rights_after (op # ops) (rights port)" using r(2) s(3) by simp
  moreover have "unat (ip_references port') + unat (ip_srights port) + unat (ip_sorights port) =
      unat (ip_references port) + unat (ip_srights port') + unat (ip_sorights port')"
    using r(3) s(4) by linarith
  ultimately show ?case using s(2) by blast
qed

subsection \<open>Properties\<close>

text \<open>
  C8. Rights and no-senders requests are conserved over runs. Any run of operations that make,
  copy and release send and send-once rights and register no-senders requests, in which nobody
  releases a right that does not exist, returns. At its end the port counts exactly the rights that
  exist, holds as many more references as there are more rights, and every send-once right that was
  registered is in exactly one place: still registered, returned by a later registration, or used up by
  one no-senders notification.
\<close>

theorem no_senders_conserved:
  assumes "IP_VALID p" and "ports st p = Some port" and "locked st = {}" and "ip_active port"
    and "unat (ip_srights port) + unat (ip_sorights port) \<le> unat (ip_references port)"
    and "unat (ip_references port) + length ops < 2 ^ 32"
    and "legal_ops ops (rights port)"
  shows "\<exists>rets st' port' es. run_ops p ops st = Some (rets, st') \<and> ports st' p = Some port' \<and>
    rights port' = fold rights_after ops (rights port) \<and>
    unat (ip_references port') + unat (ip_srights port) + unat (ip_sorights port) =
      unat (ip_references port) + unat (ip_srights port') + unat (ip_sorights port') \<and>
    events st' = events st @ es \<and>
    (\<Sum>op\<leftarrow>ops. given op) + pending port = mset rets + notified es + pending port'"
proof -
  have "rights_ok p (length ops) st port" using assms(1-6) by (simp add: rights_ok_def)
  from run_ops_steps [OF this assms(7)] show ?thesis unfolding rights_ok_def by blast
qed

text \<open>
  Two makers of send rights, a request while they exist, the release of both, and a request that
  fires at once.
\<close>

definition ex_ops :: "right_op list" where
  "ex_ops = [Make_send, Nsrequest 0 0x1000, Copy_send, Release_send, Release_send, Nsrequest 1 0x1004]"

theorem no_senders_conserved_witness:
  "\<exists>rets st' port' es. run_ops 0x4000 ex_ops (ex_state\<lparr>locked := {}\<rparr>) = Some (rets, st') \<and>
    ports st' 0x4000 = Some port' \<and> rights port' = (0, 0) \<and> ip_references port' = 1 \<and> events st' = es \<and>
    {#0x1000, 0x1004#} = mset rets + notified es + pending port'"
proof -
  have z: "ip_srights ex_port = 0" "ip_sorights ex_port = 0" "ip_references ex_port = 1" "ip_nsrequest ex_port = 0"
    by (simp_all add: ex_port_def)
  have "\<exists>rets st' port' es. run_ops 0x4000 ex_ops (ex_state\<lparr>locked := {}\<rparr>) = Some (rets, st') \<and>
    ports st' 0x4000 = Some port' \<and> rights port' = fold rights_after ex_ops (rights ex_port) \<and>
    unat (ip_references port') + unat (ip_srights ex_port) + unat (ip_sorights ex_port) =
      unat (ip_references ex_port) + unat (ip_srights port') + unat (ip_sorights port') \<and>
    events st' = events (ex_state\<lparr>locked := {}\<rparr>) @ es \<and>
    (\<Sum>op\<leftarrow>ex_ops. given op) + pending ex_port = mset rets + notified es + pending port'"
    using z
    by (intro no_senders_conserved)
      (simp_all add: ex_state_def IP_VALID_def IO_VALID_def IO_NULL_def IO_DEAD_def ex_ops_def rights_def)
  then obtain rets st' port' es where
    r: "run_ops 0x4000 ex_ops (ex_state\<lparr>locked := {}\<rparr>) = Some (rets, st')" "ports st' 0x4000 = Some port'"
    "rights port' = fold rights_after ex_ops (rights ex_port)"
    "unat (ip_references port') + unat (ip_srights ex_port) + unat (ip_sorights ex_port) =
      unat (ip_references ex_port) + unat (ip_srights port') + unat (ip_sorights port')"
    "events st' = events (ex_state\<lparr>locked := {}\<rparr>) @ es"
    "(\<Sum>op\<leftarrow>ex_ops. given op) + pending ex_port = mset rets + notified es + pending port'"
    by blast
  have zero: "rights port' = (0, 0)" using r(3) z by (simp add: ex_ops_def rights_def)
  then have "unat (ip_references port') = 1" using r(4) z by (simp add: rights_def)
  then have "ip_references port' = 1" by (metis unat_1 word_unat_eq_iff)
  moreover have "{#0x1000, 0x1004#} = mset rets + notified es + pending port'"
    using r(6) z(4)
    by (simp add: ex_ops_def pending_def [of ex_port] IP_NULL_def IO_NULL_def add_mset_commute)
  moreover have "events st' = es" using r(5) by (simp add: ex_state_def)
  ultimately show ?thesis using r(1,2) zero by blast
qed

end
