(* ===== verification/Ipc_Port_Transit.thy ===== *)
theory Ipc_Port_Transit
  imports Ipc_Port
begin

text \<open>
  Ports in transit. A receive right that travels in a message is in transit to the port that
  the message is queued on. \<^verbatim>\<open>ipc_port_check_circularity\<close> must keep the graph of these
  destinations free of circles.
\<close>

definition transit :: "(ptr \<Rightarrow> ipc_port option) \<Rightarrow> (ptr \<times> ptr) set" where
  "transit h = {(p, q). \<exists>port. h p = Some port \<and> \<not> not_in_transit port \<and> ip_destination port = q}"

definition transit_ok :: "(ptr \<Rightarrow> ipc_port option) \<Rightarrow> bool" where
  "transit_ok h \<longleftrightarrow>
     finite (dom h) \<and> h IP_NULL = None \<and> acyclic (transit h) \<and> (\<forall>p q. (p, q) \<in> transit h \<longrightarrow> q \<in> dom h)"

text \<open>The ports from \<open>p\<close> along the destinations up to \<open>base\<close>, which is not in transit.\<close>

fun transit_path :: "(ptr \<Rightarrow> ipc_port option) \<Rightarrow> ptr \<Rightarrow> ptr list \<Rightarrow> ptr \<Rightarrow> bool" where
  "transit_path h p [] base \<longleftrightarrow> p = base \<and> (\<exists>b. h p = Some b \<and> not_in_transit b)"
| "transit_path h p (x # xs) base \<longleftrightarrow>
     p = x \<and> (\<exists>b. h p = Some b \<and> \<not> not_in_transit b \<and> transit_path h (ip_destination b) xs base)"

lemma transit_path_exists:
  assumes "transit_ok h" and "p \<in> dom h"
  shows "\<exists>xs base. transit_path h p xs base"
proof -
  have "transit h \<subseteq> dom h \<times> dom h" using assms(1) by (auto simp: transit_ok_def transit_def)
  then have "finite (transit h)" using assms(1) by (meson finite_SigmaI finite_subset transit_ok_def)
  then have "wf ((transit h)\<inverse>)"
    using assms(1) by (intro finite_acyclic_wf_converse) (simp_all add: transit_ok_def)
  then show ?thesis
    using assms(2)
  proof (induction p rule: wf_induct_rule)
    case (less p)
    obtain b where b: "h p = Some b" using less.prems by auto
    show ?case
    proof (cases "not_in_transit b")
      case True
      then have "transit_path h p [] p" using b by simp
      then show ?thesis by blast
    next
      case False
      then have edge: "(p, ip_destination b) \<in> transit h" using b by (auto simp: transit_def)
      then have "ip_destination b \<in> dom h" using assms(1) by (auto simp: transit_ok_def)
      with less.IH [of "ip_destination b"] edge obtain xs base where
        "transit_path h (ip_destination b) xs base" by blast
      then have "transit_path h p (p # xs) base" using b False by simp
      then show ?thesis by blast
    qed
  qed
qed

lemma transit_path_reach:
  "transit_path h p xs base \<Longrightarrow> x \<in> insert base (set xs) \<Longrightarrow> (p, x) \<in> (transit h)\<^sup>*"
proof (induction xs arbitrary: p)
  case (Cons y xs)
  then obtain b where b: "h p = Some b" "\<not> not_in_transit b" "transit_path h (ip_destination b) xs base" "p = y"
    by auto
  then have "(p, ip_destination b) \<in> transit h" by (auto simp: transit_def)
  with Cons.IH [OF b(3)] Cons.prems(2) b(4) show ?case
    by (auto intro: converse_rtrancl_into_rtrancl)
qed auto

lemma transit_path_distinct:
  "transit_path h p xs base \<Longrightarrow> acyclic (transit h) \<Longrightarrow> distinct (base # xs)"
proof (induction xs arbitrary: p)
  case (Cons y xs)
  then obtain b where b: "h y = Some b" "\<not> not_in_transit b" "transit_path h (ip_destination b) xs base"
    by auto
  then have "(y, ip_destination b) \<in> transit h" by (auto simp: transit_def)
  then have "(y, x) \<in> (transit h)\<^sup>+" if "x \<in> insert base (set xs)" for x
    using transit_path_reach [OF b(3) that] by (rule rtrancl_into_trancl2)
  then have "y \<notin> insert base (set xs)" using Cons.prems(2) by (auto simp: acyclic_def)
  with Cons.IH [OF b(3) Cons.prems(2)] show ?case by auto
qed simp

lemma transit_path_base:
  "transit_path h p xs base \<Longrightarrow> \<exists>b. h base = Some b \<and> not_in_transit b"
  by (induction xs arbitrary: p) auto

lemma transit_end:
  assumes "transit_path h p xs base" and "(p, q) \<in> (transit h)\<^sup>*" and "h q = Some port" "not_in_transit port"
  shows "q = base"
  using assms(2,1)
proof (induction arbitrary: xs rule: converse_rtrancl_induct)
  case base
  then show ?case using assms(3,4) by (cases xs) auto
next
  case (step y z)
  then obtain b where "h y = Some b" "\<not> not_in_transit b" "ip_destination b = z" by (auto simp: transit_def)
  with step.prems obtain xs' where "transit_path h z xs' base" by (cases xs) auto
  then show ?case by (rule step.IH)
qed

lemma transit_path_upd:
  assumes "transit_path h p xs base" and "q \<notin> insert base (set xs)"
  shows "transit_path (h(q := v)) p xs base"
  using assms by (induction xs arbitrary: p) auto

lemma transit_path_reference:
  assumes "transit_path h p xs base" and "h q = Some port"
  shows "transit_path (h(q \<mapsto> port\<lparr>ip_references := r\<rparr>)) p xs base"
  using assms by (induction xs arbitrary: p) (auto simp: not_in_transit_def)

subsection \<open>The loops\<close>

lemma lock_chain_path:
  assumes "transit_path (ports st) p xs base" and "distinct (base # xs)"
    and "insert base (set xs) \<inter> locked st = {}" and "multiple st"
  shows "lock_chain st p = Some (base, st\<lparr>locked := locked st \<union> insert base (set xs)\<rparr>)"
  using assms
proof (induction xs arbitrary: p st)
  case Nil
  then show ?case by (auto simp: lock_chain.simps [of st base] ip_lock_def)
next
  case (Cons x xs)
  obtain b where b: "ports st p = Some b" "\<not> not_in_transit b" "p = x"
    "transit_path (ports st) (ip_destination b) xs base"
    using Cons.prems(1) by auto
  let ?st = "st\<lparr>locked := insert p (locked st)\<rparr>"
  have "lock_chain ?st (ip_destination b) = Some (base, ?st\<lparr>locked := locked ?st \<union> insert base (set xs)\<rparr>)"
    using Cons.prems b by (intro Cons.IH) auto
  then show ?case
    using b Cons.prems by (auto simp: lock_chain.simps [of st x] ip_lock_def insert_commute)
qed

lemma unlock_chain_path:
  assumes "transit_path (ports st) p xs base" and "distinct (base # xs)" and "set xs \<subseteq> locked st"
  shows "unlock_chain st base p = Some (st\<lparr>locked := locked st - set xs\<rparr>)"
  using assms
proof (induction xs arbitrary: p st)
  case Nil
  then show ?case by (simp add: unlock_chain.simps [of st base])
next
  case (Cons x xs)
  obtain b where b: "ports st p = Some b" "\<not> not_in_transit b" "p = x"
    "transit_path (ports st) (ip_destination b) xs base"
    using Cons.prems(1) by auto
  let ?st = "st\<lparr>locked := locked st - {p}\<rparr>"
  have "unlock_chain ?st base (ip_destination b) = Some (?st\<lparr>locked := locked ?st - set xs\<rparr>)"
    using Cons.prems b by (intro Cons.IH) auto
  moreover have "locked st - {x} - set xs = locked st - insert x (set xs)" by auto
  ultimately show ?case
    using b Cons.prems by (auto simp: unlock_chain.simps [of st base x] ip_unlock_def not_in_transit_def)
qed

lemma unlock_circle_path:
  assumes "transit_path (ports st) p xs base" and "distinct (base # xs)" and "insert base (set xs) \<subseteq> locked st"
    and "ports st base = Some b" "in_limbo b" and "IP_NULL \<notin> insert base (set xs)"
  shows "unlock_circle st p = Some (st\<lparr>locked := locked st - insert base (set xs)\<rparr>)"
  using assms
proof (induction xs arbitrary: p st)
  case Nil
  then show ?case
    by (auto simp: unlock_circle.simps [of st base] unlock_circle.simps [of _ IP_NULL] ip_unlock_def in_limbo_def)
next
  case (Cons x xs)
  obtain d where d: "ports st p = Some d" "\<not> not_in_transit d" "p = x"
    "transit_path (ports st) (ip_destination d) xs base"
    using Cons.prems(1) by auto
  let ?st = "st\<lparr>locked := locked st - {p}\<rparr>"
  have "unlock_circle ?st (ip_destination d) = Some (?st\<lparr>locked := locked ?st - insert base (set xs)\<rparr>)"
    using Cons.prems d by (intro Cons.IH) auto
  moreover have "locked st - {x} - insert base (set xs) = locked st - insert base (insert x (set xs))" by auto
  ultimately show ?case
    using d Cons.prems by (auto simp: unlock_circle.simps [of st x] ip_unlock_def not_in_transit_def)
qed

subsection \<open>Putting a port in transit\<close>

text \<open>The store after \<open>p\<close> has been put in transit to \<open>dest\<close>, which gains a reference.\<close>

definition put_in_transit :: "ptr \<Rightarrow> ptr \<Rightarrow> (ptr \<Rightarrow> ipc_port option) \<Rightarrow> ptr \<Rightarrow> ipc_port option" where
  "put_in_transit p dest h =
     (let h' = h(dest := map_option (\<lambda>d. d\<lparr>ip_references := ip_references d + 1\<rparr>) (h dest))
      in h'(p := map_option (\<lambda>port. port\<lparr>ip_data := dest\<rparr>) (h' p)))"

lemma in_limbo_not_in_transit: "in_limbo port \<Longrightarrow> not_in_transit port"
  by (simp add: in_limbo_def not_in_transit_def)

lemma transit_put:
  assumes "h p = Some port" and "in_limbo port" and "h dest = Some d" and "p \<noteq> dest" and "dest \<noteq> IP_NULL"
  shows "transit (put_in_transit p dest h) = insert (p, dest) (transit h)"
  using assms
  by (auto simp: transit_def put_in_transit_def Let_def not_in_transit_def in_limbo_def split: if_splits)

lemma put_in_transit_ok:
  assumes "transit_ok h" and "h p = Some port" and "in_limbo port" and "h dest = Some d" and "p \<noteq> dest"
    and "(dest, p) \<notin> (transit h)\<^sup>*"
  shows "transit_ok (put_in_transit p dest h)"
proof -
  have nn: "dest \<noteq> IP_NULL" "p \<noteq> IP_NULL" using assms(1,2,4) by (auto simp: transit_ok_def)
  have dom: "dom (put_in_transit p dest h) = dom h"
    using assms(2,4) by (auto simp: put_in_transit_def Let_def split: if_splits)
  have tr: "transit (put_in_transit p dest h) = insert (p, dest) (transit h)"
    using assms(2-5) nn(1) by (rule transit_put)
  have "put_in_transit p dest h IP_NULL = None"
    using dom assms(1) by (auto simp: transit_ok_def domIff)
  then show ?thesis
    using assms(1,4,6) dom tr unfolding transit_ok_def by (auto simp: acyclic_insert)
qed

lemma not_circular_path:
  assumes "ports st p = Some port" and "in_limbo port" and "ports st dest = Some d" and "p \<noteq> dest"
    and "transit_path (ports st) dest xs base" and "distinct (base # xs)" and "p \<notin> insert base (set xs)"
    and "locked st = insert p (insert base (set xs))" and "dest \<noteq> IP_NULL"
  shows "not_circular st p dest base =
    Some (False, st\<lparr>ports := put_in_transit p dest (ports st), locked := {}\<rparr>)"
proof -
  let ?h = "put_in_transit p dest (ports st)"
  let ?st = "st\<lparr>ports := ?h\<rparr>"
  have h: "?h = (ports st)(dest \<mapsto> d\<lparr>ip_references := ip_references d + 1\<rparr>, p \<mapsto> port\<lparr>ip_data := dest\<rparr>)"
    using assms(1,3,4) by (simp add: put_in_transit_def Let_def)
  have path: "transit_path ?h dest xs base"
    unfolding h using assms(3,5,7) by (intro transit_path_upd transit_path_reference) auto
  have hp: "?h p = Some (port\<lparr>ip_data := dest\<rparr>)" by (simp add: h)
  have "transit_path ?h p (p # xs) base"
    using path hp assms(2,9) by (simp add: not_in_transit_def in_limbo_def)
  then have un: "unlock_chain ?st base p = Some (?st\<lparr>locked := locked st - set (p # xs)\<rparr>)"
    using unlock_chain_path [of ?st p "p # xs" base] assms(6-8) by auto
  have "base \<noteq> p" "base \<notin> set xs" using assms(6,7) by auto
  then have left: "locked st - set (p # xs) = {base}" using assms(8) by auto
  obtain b where b: "?h base = Some b" "not_in_transit b" using transit_path_base [OF path] by blast
  have "not_circular st p dest base =
    do { st \<leftarrow> unlock_chain ?st base p;
         b \<leftarrow> ports st base;
         assert_that (not_in_transit b);
         st \<leftarrow> ip_unlock st base;
         Some (False, st) }"
    using assms(1-4) h by (simp add: not_circular_def ip_reference_def upd_port_def)
  also have "\<dots> = Some (False, st\<lparr>ports := ?h, locked := {}\<rparr>)"
    unfolding un left using b by (simp add: ip_unlock_def)
  finally show ?thesis .
qed

lemma check_chain_ok:
  assumes "transit_ok (ports st)" and "locked st = {}" and "\<not> multiple st"
    and "ports st p = Some port" and "in_limbo port" and "ports st dest = Some d" and "p \<noteq> dest"
  shows "check_chain st p dest =
    (if (dest, p) \<in> (transit (ports st))\<^sup>* then Some (True, st)
     else Some (False, st\<lparr>ports := put_in_transit p dest (ports st)\<rparr>))"
proof -
  let ?h = "ports st"
  obtain xs base where path: "transit_path ?h dest xs base"
    using transit_path_exists [OF assms(1)] assms(6) by blast
  have dist: "distinct (base # xs)"
    using transit_path_distinct [OF path] assms(1) by (simp add: transit_ok_def)
  let ?L = "insert base (set xs)"
  let ?st = "st\<lparr>locked := ?L, multiple := True\<rparr>"
  have same: "st\<lparr>locked := {}, multiple := False\<rparr> = st" "st\<lparr>ports := h, locked := {}, multiple := False\<rparr> = st\<lparr>ports := h\<rparr>" for h
    using assms(2,3) by (cases st; simp)+
  have lock: "lock_chain (st\<lparr>multiple := True\<rparr>) dest = Some (base, ?st)"
    using lock_chain_path [of "st\<lparr>multiple := True\<rparr>" dest xs base] path dist assms(2) by simp
  have null: "IP_NULL \<notin> ?L" "dest \<noteq> IP_NULL"
  proof -
    have "x \<in> dom ?h" if "x \<in> ?L" for x
      using path that by (induction xs arbitrary: dest) auto
    then show "IP_NULL \<notin> ?L" using assms(1) by (auto simp: transit_ok_def)
    show "dest \<noteq> IP_NULL" using assms(1,6) by (auto simp: transit_ok_def)
  qed
  have iff: "(dest, p) \<in> (transit ?h)\<^sup>* \<longleftrightarrow> p = base"
    using transit_end [OF path _ assms(4) in_limbo_not_in_transit [OF assms(5)]]
      transit_path_reach [OF path, of base] by blast
  show ?thesis
  proof (cases "p = base")
    case True
    have "unlock_circle (st\<lparr>locked := ?L, multiple := False\<rparr>) dest =
      Some (st\<lparr>locked := {}, multiple := False\<rparr>)"
      using unlock_circle_path [of "st\<lparr>locked := ?L, multiple := False\<rparr>" dest xs base port] path dist
        assms(4,5) True null by simp
    then show ?thesis
      using iff True lock assms(2-5) same(1)
      by (simp add: check_chain_def ipc_port_multiple_lock_def ipc_port_multiple_unlock_def)
  next
    case False
    have "(dest, p) \<notin> (transit ?h)\<^sup>*" using iff False by simp
    then have pL: "p \<notin> ?L" using transit_path_reach [OF path] by blast
    have "not_circular (st\<lparr>locked := insert p ?L, multiple := False\<rparr>) p dest base =
      Some (False, st\<lparr>ports := put_in_transit p dest ?h, locked := {}, multiple := False\<rparr>)"
      using not_circular_path [of "st\<lparr>locked := insert p ?L, multiple := False\<rparr>" p port dest d xs base]
        assms(4-7) path dist pL null(2) by simp
    then show ?thesis
      using iff False lock assms(2-4) same(2) pL
      by (simp add: check_chain_def ipc_port_multiple_lock_def ipc_port_multiple_unlock_def ip_lock_def)
  qed
qed

lemma check_circularity_ok:
  assumes "transit_ok (ports st)" and "locked st = {}" and "\<not> multiple st"
    and "ports st p = Some port" and "in_limbo port" and "ports st dest = Some d"
    and "st1 = (if p = dest \<or> free \<and> not_in_transit d then st else env st)"
    and "transit_ok (ports st1)" and "locked st1 = {}" and "\<not> multiple st1"
    and "ports st1 p = Some port1" and "in_limbo port1" and "ports st1 dest = Some d1"
  shows "\<exists>st'. ipc_port_check_circularity free env st p dest =
      Some ((dest, p) \<in> (transit (ports st1))\<^sup>*, st') \<and>
    (if (dest, p) \<in> (transit (ports st1))\<^sup>* then st' = st1
     else st' = st1\<lparr>ports := put_in_transit p dest (ports st1)\<rparr>) \<and>
    locked st' = {} \<and> transit_ok (ports st')"
proof -
  have nn: "p \<noteq> IP_NULL" "dest \<noteq> IP_NULL" using assms(1,4,6) by (auto simp: transit_ok_def)
  have same: "st\<lparr>locked := {}\<rparr> = st" using assms(2) by (cases st) simp
  consider "p = dest" | (False) "p \<noteq> dest" by blast
  then show ?thesis
  proof cases
    case 1
    then show ?thesis using assms nn by (simp add: ipc_port_check_circularity_def)
  next
    case False
    show ?thesis
    proof (cases "free \<and> not_in_transit d")
      case True
      then have st1: "st1 = st" using assms(7) by simp
      have path: "transit_path (ports st) dest [] dest" using assms(6) True by simp
      have out: "(dest, p) \<notin> (transit (ports st))\<^sup>*"
        using transit_end [OF path _ assms(4) in_limbo_not_in_transit [OF assms(5)]] False by blast
      have "not_circular (st\<lparr>locked := {dest, p}\<rparr>) p dest dest =
        Some (False, st\<lparr>ports := put_in_transit p dest (ports st), locked := {}\<rparr>)"
        using not_circular_path [of "st\<lparr>locked := {dest, p}\<rparr>" p port dest d "[]" dest] assms(4-6) False path nn(2)
        by (simp add: insert_commute)
      moreover have "st\<lparr>ports := h, locked := {}\<rparr> = st\<lparr>ports := h\<rparr>" for h using assms(2) by (cases st) simp
      ultimately have "ipc_port_check_circularity free env st p dest =
        Some (False, st\<lparr>ports := put_in_transit p dest (ports st)\<rparr>)"
        using assms(2,4,6) False True nn
        by (simp add: ipc_port_check_circularity_def ip_lock_def ip_lock_try_def)
      with out st1 put_in_transit_ok [OF assms(1,4-6) False out] assms(2) show ?thesis by simp
    next
      case slow: False
      then have st1: "st1 = env st" using assms(7) False by auto
      have "ipc_port_check_circularity free env st p dest = check_chain (env st) p dest"
        using assms(2,4,6) False slow nn same
        by (auto simp: ipc_port_check_circularity_def ip_lock_def ip_lock_try_def ip_unlock_def insert_Diff_if same)
      with check_chain_ok [OF assms(8-13) False] put_in_transit_ok [OF assms(8,11-13) False] assms(8,9) st1
      show ?thesis by auto
    qed
  qed
qed

subsection \<open>Property\<close>

text \<open>
  C5. \<^verbatim>\<open>ipc_port_check_circularity\<close> decides circularity and keeps the transit graph acyclic.
  It returns for every port in limbo, whatever other threads do before it has the multiple lock (as
  long as the graph stays acyclic, the port stays in limbo and the destination stays allocated). It
  answers true exactly when the destination leads to the port along the chain of destinations, and
  then changes nothing; otherwise it puts the port in transit and takes a reference for the destination.
  Either way the graph is acyclic again, every lock taken is released, no port is locked twice and
  several ports are locked only under the multiple lock.
\<close>

theorem check_circularity_exact:
  assumes "transit_ok (ports st)" and "locked st = {}" and "\<not> multiple st"
    and "ports st p = Some port" and "in_limbo port" and "ports st dest = Some d"
    and "st1 = (if p = dest \<or> free \<and> not_in_transit d then st else env st)"
    and "transit_ok (ports st1)" and "locked st1 = {}" and "\<not> multiple st1"
    and "ports st1 p = Some port1" and "in_limbo port1" and "ports st1 dest = Some d1"
  shows "\<exists>st'. ipc_port_check_circularity free env st p dest =
      Some ((dest, p) \<in> (transit (ports st1))\<^sup>*, st') \<and>
    (if (dest, p) \<in> (transit (ports st1))\<^sup>* then st' = st1
     else st' = st1\<lparr>ports := put_in_transit p dest (ports st1)\<rparr>) \<and>
    locked st' = {} \<and> transit_ok (ports st')"
  using assms by (rule check_circularity_ok)

text \<open>A port in limbo and a port that is in transit to it.\<close>

definition ex_limbo :: ipc_port where
  "ex_limbo = \<lparr>ip_bits = IO_BITS_ACTIVE, ip_references = 1, ip_receiver_name = 0, ip_data = 0,
     ip_mscount = 0, ip_srights = 0, ip_sorights = 0, ip_nsrequest = 0, ip_pdrequest = 0,
     ip_dnrequests = None, ip_pset = 0, ip_seqno = 0, ip_msgcount = 0, ip_qlimit = 5,
     ip_messages = [], ip_blocked = []\<rparr>"

definition ex_circle :: port_state where
  "ex_circle = \<lparr>ports = [0x4000 \<mapsto> ex_limbo, 0x6000 \<mapsto> ex_limbo\<lparr>ip_data := 0x4000\<rparr>], locked = {},
     multiple = False, timestamp_data = 0, events = []\<rparr>"

lemma ex_circle_transit: "transit (ports ex_circle) = {(0x6000, 0x4000)}"
  by (auto simp: transit_def ex_circle_def ex_limbo_def not_in_transit_def io_active_def IO_BITS_ACTIVE_def
      MACH_PORT_NULL_def IP_NULL_def IO_NULL_def split: if_splits)

lemma ex_circle_ok: "transit_ok (ports ex_circle)"
  unfolding transit_ok_def ex_circle_transit
  by (auto simp: ex_circle_def IP_NULL_def IO_NULL_def acyclic_def trancl_insert)

theorem check_circularity_exact_witness:
  "\<exists>st'. ipc_port_check_circularity True id ex_circle 0x4000 0x6000 = Some (True, st') \<and>
    st' = ex_circle \<and> locked st' = {} \<and> transit_ok (ports st')"
proof -
  have limbo: "in_limbo ex_limbo"
    by (simp add: in_limbo_def ex_limbo_def io_active_def IO_BITS_ACTIVE_def MACH_PORT_NULL_def IP_NULL_def IO_NULL_def)
  have p: "ports ex_circle 0x4000 = Some ex_limbo"
    and d: "ports ex_circle 0x6000 = Some (ex_limbo\<lparr>ip_data := 0x4000\<rparr>)"
    and l: "locked ex_circle = {}" "\<not> multiple ex_circle"
    by (simp_all add: ex_circle_def)
  have "(0x6000, 0x4000) \<in> (transit (ports ex_circle))\<^sup>*" unfolding ex_circle_transit by auto
  then show ?thesis
    using check_circularity_exact [OF ex_circle_ok l p limbo d, of ex_circle True id ex_limbo]
      ex_circle_ok l p limbo d
    by simp
qed

end
