(* ===== verification/Ipc_Port_Destroy.thy ===== *)
theory Ipc_Port_Destroy
  imports Ipc_Port_Rights Ipc_Port_Transit
begin

text \<open>
  The destruction of ports. \<open>destroy_events\<close> is what the death of a port sets off, in order; a port
  with a backup does not die but travels to it. These proofs put the requests of
  \<^verbatim>\<open>Ipc_Port_Requests\<close> and the transit graph of \<^verbatim>\<open>Ipc_Port_Transit\<close> together.
\<close>

definition dn_note :: "ptr \<Rightarrow> (mach_port \<times> ptr) option \<Rightarrow> port_event list" where
  "dn_note p req =
     (case req of
        None \<Rightarrow> []
      | Some (name, soright) \<Rightarrow>
          [if ipr_spacep soright then Delete_compat p (ipr_space soright) name else Dead_name soright name])"

text \<open>One notification for each registered request, in the order of the slots.\<close>

definition dn_notes :: "ptr \<Rightarrow> ipc_port \<Rightarrow> port_event list" where
  "dn_notes p port =
     concat (map (\<lambda>i. dn_note p (port_requests port i)) [1..<dn_capacity port]) @
     (case ip_dnrequests port of None \<Rightarrow> [] | Some t \<Rightarrow> [Dnrequests_free (dn_size t) (dn_addr t)])"

lemma emit_emit [simp]: "emit es' (emit es st) = emit (es @ es') st"
  by (simp add: emit_def)

lemma emit_nil [simp]: "emit [] st = st"
  by (simp add: emit_def)

lemma notify_dead_names_ok:
  assumes "i \<le> length elems" and "0 < i"
    and "\<And>i name soright. dn_requests elems i = Some (name, soright) \<Longrightarrow> soright \<noteq> IP_NULL"
  shows "notify_dead_names p elems (length elems) i st =
    Some (emit (concat (map (\<lambda>i. dn_note p (dn_requests elems i)) [i..<length elems])) st)"
  using assms(1,2)
proof (induction "length elems - i" arbitrary: i st)
  case 0
  then have "i = length elems" by simp
  then show ?case by (simp add: notify_dead_names.simps [of p elems "length elems" "length elems"])
next
  case (Suc n)
  then have less: "i < length elems" by simp
  have IH: "notify_dead_names p elems (length elems) (i + 1) st' =
    Some (emit (concat (map (\<lambda>i. dn_note p (dn_requests elems i)) [i + 1..<length elems])) st')" for st'
    using Suc by (intro Suc.hyps(1)) auto
  have split: "[i..<length elems] = i # [i + 1..<length elems]" using less by (simp add: upt_conv_Cons)
  show ?case
    unfolding split notify_dead_names.simps [of p elems "length elems" i] IH
    using less Suc.prems(2) assms(3) [of i]
    by (auto simp: dn_requests_def dn_note_def Let_def)
qed

lemma destroy_dnrequests_ok:
  assumes "ports st p = Some port" and "port_dn_ok sizes port"
  shows "destroy_dnrequests sizes p st = Some (emit (dn_notes p port) st)"
proof (cases "ip_dnrequests port")
  case None
  then show ?thesis using assms(1) by (simp add: destroy_dnrequests_def dn_notes_def dn_capacity_def)
next
  case (Some t)
  have ok: "dn_ok sizes t" using assms(2) Some by (simp add: port_dn_ok_def)
  have len: "dn_size t < length sizes" "sizes ! dn_size t = length (dn_elems t)" "dn_elems t \<noteq> []"
    using ok by (auto simp: dn_ok_def dn_elems_ok_def)
  have "notify_dead_names p (dn_elems t) (length (dn_elems t)) 1 st =
    Some (emit (concat (map (\<lambda>i. dn_note p (dn_requests (dn_elems t) i)) [1..<length (dn_elems t)])) st)"
    using ok len(3) by (intro notify_dead_names_ok) (simp_all add: dn_ok_def Suc_le_eq del: length_greater_0_conv flip: length_greater_0_conv)
  then show ?thesis
    using assms(1) Some len
    by (simp add: destroy_dnrequests_def dn_notes_def dn_capacity_def port_requests_def)
qed

lemma destroy_messages_ok:
  assumes "ports st p = Some port" and "locked st = {}" and "length kmsgs < unat (ip_references port)"
    and "ip_messages port = kmsgs"
  shows "destroy_messages p kmsgs st =
    Some (emit (map Kmsg_destroy kmsgs) (st\<lparr>ports := (ports st)(p \<mapsto>
      port\<lparr>ip_references := ip_references port - of_nat (length kmsgs), ip_messages := []\<rparr>)\<rparr>))"
  using assms
proof (induction kmsgs arbitrary: st port)
  case Nil
  have "port\<lparr>ip_messages := []\<rparr> = port" using Nil.prems(4) by (cases port) simp
  then have "(ports st)(p \<mapsto> port\<lparr>ip_messages := []\<rparr>) = ports st"
    using Nil.prems(1) by (simp add: map_upd_triv)
  then show ?case by simp
next
  case (Cons k kmsgs)
  let ?r = "ip_references port - 1"
  let ?port = "port\<lparr>ip_messages := kmsgs, ip_references := ?r\<rparr>"
  have r: "unat ?r = unat (ip_references port) - 1" using Cons.prems(3) by (intro unat_dec) simp
  then have nz: "?r \<noteq> 0" "0 < ip_references port"
    using Cons.prems(3) by (auto simp: unat_eq_0 word_less_nat_alt)
  let ?st = "emit [Kmsg_destroy k] (st\<lparr>ports := (ports st)(p \<mapsto> ?port), locked := {}\<rparr>)"
  have "destroy_messages p (k # kmsgs) st = destroy_messages p kmsgs ?st"
    using Cons.prems(1,2) nz
    by (simp add: upd_port_step ipc_port_release_def ip_lock_step ip_release_step ip_check_unlock_step)
  also have "\<dots> = Some (emit (map Kmsg_destroy kmsgs) (?st\<lparr>ports := (ports ?st)(p \<mapsto>
      ?port\<lparr>ip_references := ip_references ?port - of_nat (length kmsgs), ip_messages := []\<rparr>)\<rparr>))"
    by (rule Cons.IH) (use Cons.prems(3) r in auto)
  finally have run: "destroy_messages p (k # kmsgs) st =
    Some (emit (map Kmsg_destroy kmsgs) (?st\<lparr>ports := (ports ?st)(p \<mapsto>
      ?port\<lparr>ip_references := ip_references ?port - of_nat (length kmsgs), ip_messages := []\<rparr>)\<rparr>))" .
  have "?r - of_nat (length kmsgs) = ip_references port - of_nat (length (k # kmsgs))" by simp
  then show ?case
    unfolding run using Cons.prems(2) by (cases st) (simp add: emit_def fun_eq_iff diff_diff_eq)
qed

text \<open>The port record after its destruction, before the caller's reference is given up.\<close>

definition dead_port :: "port_state \<Rightarrow> ipc_port \<Rightarrow> ipc_port" where
  "dead_port st port = port\<lparr>ip_bits := and (ip_bits port) (not IO_BITS_ACTIVE),
     ip_references := ip_references port - of_nat (length (ip_messages port)),
     ip_data := timestamp_data st, ip_messages := [], ip_blocked := []\<rparr>"

definition destroy_events :: "ptr \<Rightarrow> ipc_port \<Rightarrow> port_event list" where
  "destroy_events p port =
     map Thread_go (ip_blocked port) @
     (if ip_nsrequest port = IP_NULL then [] else [Send_once (ip_nsrequest port)]) @
     map Kmsg_destroy (ip_messages port) @ dn_notes p port @
     (if and (ip_bits port) IO_BITS_KOTYPE = IKOT_NONE then [] else [Kobject_destroy p])"

lemma kotype_kept: "and (and bits (not IO_BITS_ACTIVE)) IO_BITS_KOTYPE = and bits IO_BITS_KOTYPE"
  by (simp add: IO_BITS_ACTIVE_def IO_BITS_KOTYPE_def and.assoc)

lemma destroy_port_ok:
  assumes "ports st p = Some port" and "locked st = {p}" and "port_dn_ok sizes port"
    and "length (ip_messages port) < unat (ip_references port)"
  shows "destroy_port sizes st p =
    ipc_port_release (emit (destroy_events p port) (st\<lparr>locked := {}, timestamp_data := timestamp_data st + 1,
      ports := (ports st)(p \<mapsto> dead_port st port)\<rparr>)) p"
proof -
  let ?ns = "if ip_nsrequest port = IP_NULL then [] else [Send_once (ip_nsrequest port)]"
  let ?port = "port\<lparr>ip_blocked := [], ip_bits := and (ip_bits port) (not IO_BITS_ACTIVE),
    ip_data := timestamp_data st\<rparr>"
  let ?st = "emit (map Thread_go (ip_blocked port) @ ?ns) (st\<lparr>locked := {},
    timestamp_data := timestamp_data st + 1, ports := (ports st)(p \<mapsto> ?port)\<rparr>)"
  have "destroy_port sizes st p =
    do { st \<leftarrow> destroy_messages p (ip_messages port) ?st;
         st \<leftarrow> destroy_dnrequests sizes p st;
         port \<leftarrow> ports st p;
         let st = (if and (ip_bits port) IO_BITS_KOTYPE \<noteq> IKOT_NONE
                   then emit [Kobject_destroy p] st else st);
         ipc_port_release st p }"
    using assms(1,2)
    by (cases st) (simp add: destroy_port_def upd_port_step ip_unlock_step ipc_port_timestamp_def Let_def emit_def)
  also have "destroy_messages p (ip_messages port) ?st =
    Some (emit (map Kmsg_destroy (ip_messages port)) (?st\<lparr>ports := (ports ?st)(p \<mapsto>
      ?port\<lparr>ip_references := ip_references ?port - of_nat (length (ip_messages port)), ip_messages := []\<rparr>)\<rparr>))"
    using assms(4) by (intro destroy_messages_ok) auto
  also have "\<dots> = Some (emit (map Thread_go (ip_blocked port) @ ?ns @ map Kmsg_destroy (ip_messages port))
      (st\<lparr>locked := {}, timestamp_data := timestamp_data st + 1, ports := (ports st)(p \<mapsto> dead_port st port)\<rparr>))"
    (is "_ = Some ?st2")
    by (cases st; cases port) (simp add: emit_def dead_port_def)
  finally have run: "destroy_port sizes st p =
    do { st \<leftarrow> destroy_dnrequests sizes p ?st2;
         port \<leftarrow> ports st p;
         let st = (if and (ip_bits port) IO_BITS_KOTYPE \<noteq> IKOT_NONE
                   then emit [Kobject_destroy p] st else st);
         ipc_port_release st p }"
    by simp
  have "port_dn_ok sizes (dead_port st port)" "dn_notes p (dead_port st port) = dn_notes p port"
    using assms(3) by (simp_all add: port_dn_ok_def dead_port_def dn_notes_def dn_capacity_def port_requests_def)
  then have "destroy_dnrequests sizes p ?st2 = Some (emit (dn_notes p port) ?st2)"
    using destroy_dnrequests_ok [of ?st2 p "dead_port st port" sizes] by simp
  then show ?thesis
    unfolding run by (simp add: destroy_events_def Let_def dead_port_def kotype_kept)
qed

lemma destroyed_inactive: "\<not> io_active (and bits (not IO_BITS_ACTIVE))"
proof -
  have eq: "IO_BITS_ACTIVE = 2 ^ 31" by (simp add: IO_BITS_ACTIVE_def)
  have "bit IO_BITS_ACTIVE 31" unfolding eq bit_exp_iff by simp
  then have "\<not> bit (and bits (not IO_BITS_ACTIVE)) 31" by (simp only: bit_and_iff bit_not_iff) simp
  then show ?thesis using bit_last_iff [of "and bits (not IO_BITS_ACTIVE)"] by (simp add: io_active_def)
qed

text \<open>
  C19. Destroying a port without a backup. With a reference for the caller and one for each queued
  message, \<^verbatim>\<open>ipc_port_destroy\<close> returns with nothing locked and the port dead and
  timestamped. In this order it wakes every blocked sender, throws away the no-senders request, destroys every
  queued message, sends exactly one notification for each registered dead-name request, in the order of
  the slots, frees the table and destroys the kernel object. The port is freed exactly if no
  other reference is left.
\<close>

theorem destroy_notifies:
  assumes "ports st p = Some port" and "locked st = {p}" and "ip_active port"
    and "ip_pset port = 0" and "ip_mscount port = 0" and "ip_seqno port = 0" and "ip_pdrequest port = IP_NULL"
    and "port_dn_ok sizes port" and "length (ip_messages port) < unat (ip_references port)"
  shows "\<exists>st'. ipc_port_destroy sizes free env st p = Some st' \<and> locked st' = {} \<and>
    (if unat (ip_references port) = length (ip_messages port) + 1
     then ports st' = (ports st)(p := None) \<and>
       events st' = events st @ destroy_events p port @ [Port_freed p]
     else \<exists>port'. ports st' = (ports st)(p \<mapsto> port') \<and> \<not> ip_active port' \<and>
       ip_data port' = timestamp_data st \<and>
       unat (ip_references port') + length (ip_messages port) + 1 = unat (ip_references port) \<and>
       events st' = events st @ destroy_events p port)"
proof -
  let ?n = "length (ip_messages port)"
  let ?dead = "dead_port st port"
  let ?st = "emit (destroy_events p port) (st\<lparr>locked := {}, timestamp_data := timestamp_data st + 1,
      ports := (ports st)(p \<mapsto> ?dead)\<rparr>)"
  have run: "ipc_port_destroy sizes free env st p = ipc_port_release ?st p"
    using assms destroy_port_ok [OF assms(1,2,8,9)] by (simp add: ipc_port_destroy_def)
  have "unat (of_nat ?n :: u32) = ?n"
    using assms(9) unsigned_less [where ?'a = nat, of "ip_references port"] by (simp add: unat_of_nat take_bit_nat_eq_self)
  then have refs: "unat (ip_references ?dead) = unat (ip_references port) - ?n"
    using assms(9) by (simp add: dead_port_def unat_sub word_le_nat_alt)
  then have pos: "0 < ip_references ?dead" using assms(9) by (simp add: word_less_nat_alt)
  have one: "ip_references ?dead = 1 \<longleftrightarrow> unat (ip_references port) = ?n + 1"
    using refs assms(9) by (auto simp: word_unat_eq_iff)
  have ps: "ports ?st p = Some ?dead" "locked ?st = {}" by simp_all
  obtain st' where st': "ipc_port_release ?st p = Some st'" "locked st' = {}"
    "ports st' = (ports ?st)(p := (if ip_references ?dead = 1 then None
       else Some (?dead\<lparr>ip_references := ip_references ?dead - 1\<rparr>)))"
    "events st' = events ?st @ (if ip_references ?dead = 1 then [Port_freed p] else [])"
    using ipc_port_release_step [OF ps pos] by blast
  have "unat (ip_references ?dead - 1) = unat (ip_references ?dead) - 1"
    using pos by (intro unat_dec) (simp add: word_less_nat_alt)
  then have cnt: "ip_references ?dead \<noteq> 1 \<Longrightarrow>
      unat (ip_references ?dead - 1) + ?n + 1 = unat (ip_references port)"
    using refs one assms(9) by linarith
  have dead: "\<not> ip_active (?dead\<lparr>ip_references := r\<rparr>)" "ip_data (?dead\<lparr>ip_references := r\<rparr>) = timestamp_data st" for r
    by (simp_all add: dead_port_def destroyed_inactive)
  show ?thesis
  proof (cases "ip_references ?dead = 1")
    case True
    with st' run one show ?thesis by simp
  next
    case False
    with st' run one cnt dead show ?thesis
      by (intro exI [of _ st']) (simp add: exI [of _ "?dead\<lparr>ip_references := ip_references ?dead - 1\<rparr>"])
  qed
qed

text \<open>A port with a blocked sender, a no-senders request, a queued message and a dead-name request.\<close>

definition ex_dying :: ipc_port where
  "ex_dying = ex_port\<lparr>ip_references := 2, ip_nsrequest := 0x1008, ip_messages := [0x7000], ip_blocked := [0x8000]\<rparr>"

theorem destroy_notifies_witness:
  "\<exists>st'. ipc_port_destroy ex_sizes True id (ex_state\<lparr>ports := [0x4000 \<mapsto> ex_dying]\<rparr>) 0x4000 = Some st' \<and>
    locked st' = {} \<and> ports st' = Map.empty \<and>
    events st' = [Thread_go 0x8000, Send_once 0x1008, Kmsg_destroy 0x7000, Dead_name 0x1000 5,
      Dnrequests_free 0 0x2000, Port_freed 0x4000]"
proof -
  have "port_requests ex_dying = [1 \<mapsto> (5, 0x1000)]" "dn_capacity ex_dying = 2" "port_dn_ok ex_sizes ex_dying"
    using ex_requests ex_capacity ex_port_ok
    by (simp_all add: ex_dying_def port_requests_def dn_capacity_def port_dn_ok_def)
  moreover have "ip_dnrequests ex_dying = ip_dnrequests ex_port" "ip_bits ex_dying = IO_BITS_ACTIVE"
    by (simp_all add: ex_dying_def ex_port_def)
  moreover have "[Suc 0..<2] = [1]" by (simp add: numeral_2_eq_2)
  ultimately have "destroy_events 0x4000 ex_dying =
    [Thread_go 0x8000, Send_once 0x1008, Kmsg_destroy 0x7000, Dead_name 0x1000 5, Dnrequests_free 0 0x2000]"
    by (simp add: destroy_events_def dn_notes_def dn_note_def ex_port_def ipr_spacep_def
        IO_BITS_ACTIVE_def IO_BITS_KOTYPE_def IKOT_NONE_def)
      (simp add: ex_dying_def IP_NULL_def IO_NULL_def)
  moreover have "ip_pset ex_dying = 0" "ip_mscount ex_dying = 0" "ip_seqno ex_dying = 0"
    "ip_pdrequest ex_dying = IP_NULL" "ip_references ex_dying = 2" "ip_messages ex_dying = [0x7000]"
    "ip_active ex_dying"
    using ex_active by (simp_all add: ex_dying_def ex_port_def IP_NULL_def IO_NULL_def)
  ultimately show ?thesis
    using destroy_notifies [of "ex_state\<lparr>ports := [0x4000 \<mapsto> ex_dying]\<rparr>" "0x4000" ex_dying ex_sizes True id]
      \<open>port_dn_ok ex_sizes ex_dying\<close>
    by (simp add: ex_state_def)
qed

text \<open>The port as \<^verbatim>\<open>ipc_port_destroy\<close> leaves it before it looks for a circle: in limbo.\<close>

definition limbo_port :: "ipc_port \<Rightarrow> ipc_port" where
  "limbo_port port = port\<lparr>ip_pdrequest := IP_NULL, ip_receiver_name := MACH_PORT_NULL, ip_data := IP_NULL\<rparr>"

lemma limbo_port_in_limbo: "ip_active port \<Longrightarrow> in_limbo (limbo_port port)"
  by (simp add: in_limbo_def limbo_port_def)

lemma transit_limbo: "transit (h(p \<mapsto> limbo_port port)) = {(x, y) \<in> transit h. x \<noteq> p}"
  by (auto simp: transit_def limbo_port_def not_in_transit_def split: if_splits)

lemma transit_ok_limbo:
  assumes "transit_ok h" and "h p = Some port"
  shows "transit_ok (h(p \<mapsto> limbo_port port))"
proof -
  have "transit (h(p \<mapsto> limbo_port port)) \<subseteq> transit h" by (auto simp: transit_limbo)
  then show ?thesis
    using assms acyclic_subset by (auto simp: transit_ok_def domIff)
qed

text \<open>
  C20. Destroying a port with a backup. If the backup port does not lead back to the
  port through ports in transit, \<^verbatim>\<open>ipc_port_destroy\<close> does not destroy the port: it is put in transit to
  the backup, which gains a reference, exactly one port-destroyed notification carries it there, no
  other port changes, and the transit graph stays acyclic. This includes the send right that the low bit
  of the request marks for compatibility.
\<close>

theorem destroy_with_backup:
  assumes "transit_ok (ports st)" and "locked st = {p}" and "\<not> multiple st"
    and "ports st p = Some port" and "ip_active port"
    and "ip_pset port = 0" and "ip_mscount port = 0" and "ip_seqno port = 0" and "ip_pdrequest port \<noteq> IP_NULL"
    and "q = (if ip_pdsendp (ip_pdrequest port) then ip_pdsend (ip_pdrequest port) else ip_pdrequest port)"
    and "ports st q = Some d" and "q \<noteq> p"
    and "h = (ports st)(p \<mapsto> limbo_port port)" and "(q, p) \<notin> (transit h)\<^sup>*"
  shows "\<exists>st'. ipc_port_destroy sizes free id st p = Some st' \<and> locked st' = {} \<and>
    ports st' = put_in_transit p q h \<and> transit_ok (ports st') \<and>
    events st' = events st @ [if ip_pdsendp (ip_pdrequest port) then Port_destroyed_compat q p
                              else Port_destroyed q p]"
proof -
  let ?st = "st\<lparr>ports := h, locked := {}\<rparr>"
  have h: "transit_ok h" "h p = Some (limbo_port port)" "h q = Some d"
    using transit_ok_limbo [OF assms(1,4)] assms(11-13) by auto
  have "\<exists>st'. ipc_port_check_circularity free id ?st p q = Some ((q, p) \<in> (transit (ports ?st))\<^sup>*, st') \<and>
    (if (q, p) \<in> (transit (ports ?st))\<^sup>* then st' = ?st
     else st' = ?st\<lparr>ports := put_in_transit p q (ports ?st)\<rparr>) \<and> locked st' = {} \<and> transit_ok (ports st')"
    using h limbo_port_in_limbo [OF assms(5)] assms(3)
    by (intro check_circularity_ok) auto
  then have run: "ipc_port_check_circularity free id ?st p q = Some (False, ?st\<lparr>ports := put_in_transit p q h\<rparr>)"
    and ok: "transit_ok (put_in_transit p q h)"
    using assms(14) by auto
  have "ipc_port_destroy sizes free id st p =
    Some (emit [if ip_pdsendp (ip_pdrequest port) then Port_destroyed_compat q p else Port_destroyed q p]
      (?st\<lparr>ports := put_in_transit p q h\<rparr>))"
    using assms(2,4-9) run assms(13)
    by (auto simp: ipc_port_destroy_def upd_port_step ip_unlock_step limbo_port_def assms(10) Let_def)
  then show ?thesis using ok by simp
qed

text \<open>The port of the example with the backup port \<open>0x6000\<close>, which is in a space.\<close>

definition ex_backup :: port_state where
  "ex_backup = ex_state\<lparr>ports := [0x4000 \<mapsto> ex_port\<lparr>ip_pdrequest := 0x6000\<rparr>, 0x6000 \<mapsto> ex_port]\<rparr>"

theorem destroy_with_backup_witness:
  "\<exists>st'. ipc_port_destroy ex_sizes False id ex_backup 0x4000 = Some st' \<and> locked st' = {} \<and>
    transit_ok (ports st') \<and> events st' = [Port_destroyed 0x6000 0x4000]"
proof -
  let ?port = "ex_port\<lparr>ip_pdrequest := 0x6000\<rparr>"
  have name: "ip_receiver_name ex_port \<noteq> MACH_PORT_NULL" by (simp add: ex_port_def MACH_PORT_NULL_def)
  then have none: "transit (ports ex_backup) = {}"
    by (auto simp: transit_def ex_backup_def not_in_transit_def split: if_splits)
  then have ok: "transit_ok (ports ex_backup)"
    by (simp add: transit_ok_def acyclic_def) (simp add: ex_backup_def ex_state_def IP_NULL_def IO_NULL_def)
  have empty: "transit ((ports ex_backup)(0x4000 \<mapsto> limbo_port ?port)) = {}"
    using none by (simp add: transit_limbo)
  have "ip_pset ?port = 0" "ip_mscount ?port = 0" "ip_seqno ?port = 0" "ip_active ?port"
    using ex_active by (simp_all add: ex_port_def)
  moreover have "\<not> ip_pdsendp 0x6000" by (simp add: ip_pdsendp_def)
  moreover have "locked ex_backup = {0x4000}" "\<not> multiple ex_backup" "events ex_backup = []"
    "ports ex_backup 0x4000 = Some ?port" "ports ex_backup 0x6000 = Some ex_port"
    by (simp_all add: ex_backup_def ex_state_def)
  ultimately show ?thesis
    using destroy_with_backup [OF ok, of "0x4000" ?port "0x6000" ex_port _ ex_sizes False] empty
    by (simp add: IP_NULL_def IO_NULL_def) blast
qed

end
