(* ===== verification/Ipc_Right.thy ===== *)
theory Ipc_Right
  imports Ipc_Port
begin

text \<open>
  Rights in a space (\<^verbatim>\<open>kernel/ipc/ipc_right.c\<close>) and the operations on names that are built on them
  (\<^verbatim>\<open>kernel/ipc/ipc_object.c\<close>, \<^verbatim>\<open>kernel/ipc/mach_port.c\<close>). The state is the space, the global
  reverse hash table and the ports. An operation runs with the space locked; the calls that lock and
  unlock it are not part of the model. \<open>its\<close> is the array \<^verbatim>\<open>ipc_table_entries\<close>. Port sets and
  message-accepted requests are other components: what is done to them is recorded as events. \<open>moved p\<close> is the
  list of messages that the port set of \<open>p\<close> holds for \<open>p\<close>.
\<close>

subsection \<open>State\<close>

record right_state =
  rs_space :: ipc_space
  rs_hash :: ipc_hash_global
  rs_ports :: port_state

abbreviation rs_self :: "right_state \<Rightarrow> ptr" where
  "rs_self st \<equiv> is_self (rs_space st)"

abbreviation has :: "u32 \<Rightarrow> u32 \<Rightarrow> bool" where
  "has bits m \<equiv> bits AND m \<noteq> 0"

definition entry_at :: "right_state \<Rightarrow> entry_ptr \<Rightarrow> ipc_entry option" where
  "entry_at st ptr = get_entry (rs_space st) ptr"

definition upd_entry :: "right_state \<Rightarrow> entry_ptr \<Rightarrow> (ipc_entry \<Rightarrow> ipc_entry) \<Rightarrow> right_state option" where
  "upd_entry st ptr f = do { space \<leftarrow> write_entry (rs_space st) ptr f; Some (st\<lparr>rs_space := space\<rparr>) }"

definition port_at :: "right_state \<Rightarrow> ptr \<Rightarrow> ipc_port option" where
  "port_at st p = ports (rs_ports st) p"

definition on_ports :: "right_state \<Rightarrow> (port_state \<Rightarrow> port_state option) \<Rightarrow> right_state option" where
  "on_ports st f = do { ps \<leftarrow> f (rs_ports st); Some (st\<lparr>rs_ports := ps\<rparr>) }"

definition on_port :: "right_state \<Rightarrow> ptr \<Rightarrow> (ipc_port \<Rightarrow> ipc_port) \<Rightarrow> right_state option" where
  "on_port st p f = on_ports st (\<lambda>ps. upd_port ps p f)"

definition lock_port :: "right_state \<Rightarrow> ptr \<Rightarrow> right_state option" where
  "lock_port st p = on_ports st (\<lambda>ps. ip_lock ps p)"

definition unlock_port :: "right_state \<Rightarrow> ptr \<Rightarrow> right_state option" where
  "unlock_port st p = on_ports st (\<lambda>ps. ip_unlock ps p)"

definition send_events :: "port_event list \<Rightarrow> right_state \<Rightarrow> right_state" where
  "send_events es st = st\<lparr>rs_ports := emit es (rs_ports st)\<rparr>"

definition right_hash_insert :: "right_state \<Rightarrow> ptr \<Rightarrow> mach_port \<Rightarrow> entry_ptr \<Rightarrow> right_state option" where
  "right_hash_insert st obj name ptr =
     do { (space, g) \<leftarrow> ipc_hash_insert (rs_space st) (rs_hash st) obj name ptr;
          Some (st\<lparr>rs_space := space, rs_hash := g\<rparr>) }"

definition right_hash_delete :: "right_state \<Rightarrow> ptr \<Rightarrow> mach_port \<Rightarrow> entry_ptr \<Rightarrow> right_state option" where
  "right_hash_delete st obj name ptr =
     do { (space, g) \<leftarrow> ipc_hash_delete (rs_space st) (rs_hash st) obj name ptr;
          Some (st\<lparr>rs_space := space, rs_hash := g\<rparr>) }"

definition free_entry :: "nat list \<Rightarrow> right_state \<Rightarrow> mach_port \<Rightarrow> entry_ptr \<Rightarrow> right_state option" where
  "free_entry its st name ptr =
     do { (space, g) \<leftarrow> ipc_entry_dealloc its (rs_space st) (rs_hash st) name ptr;
          Some (st\<lparr>rs_space := space, rs_hash := g\<rparr>) }"

text \<open>The two notifications that the operations send at their end, if there is somebody to notify.\<close>

definition ns_event :: "ptr \<times> u32 \<Rightarrow> port_event list" where
  "ns_event r = (if fst r \<noteq> IP_NULL then [No_senders (fst r) (snd r)] else [])"

definition pd_event :: "ptr \<Rightarrow> mach_port \<Rightarrow> port_event list" where
  "pd_event dnrequest name = (if dnrequest \<noteq> IP_NULL then [Port_deleted dnrequest name] else [])"

text \<open>\<^verbatim>\<open>--port->ip_srights\<close> and what follows it: the no-senders request, if it is due, and the count.\<close>

definition drop_sright :: "right_state \<Rightarrow> ptr \<Rightarrow> ((ptr \<times> u32) \<times> right_state) option" where
  "drop_sright st p =
     do { port \<leftarrow> port_at st p;
          st \<leftarrow> on_port st p (\<lambda>port. port\<lparr>ip_srights := ip_srights port - 1\<rparr>);
          if ip_srights port - 1 = 0 \<and> ip_nsrequest port \<noteq> IP_NULL
          then do { st \<leftarrow> on_port st p (\<lambda>port. port\<lparr>ip_nsrequest := IP_NULL\<rparr>);
                    Some ((ip_nsrequest port, ip_mscount port), st) }
          else Some ((IP_NULL, 0), st) }"

text \<open>\<^verbatim>\<open>is_release\<close>, on a space that is still referenced afterwards.\<close>

definition is_release :: "right_state \<Rightarrow> right_state option" where
  "is_release st =
     do { assert_that (0 < is_references (rs_space st));
          Some (st\<lparr>rs_space := (rs_space st)\<lparr>is_references := is_references (rs_space st) - 1\<rparr>\<rparr>) }"

subsection \<open>Port operations\<close>

definition ipc_port_clear_receiver :: "(ptr \<Rightarrow> ptr list) \<Rightarrow> right_state \<Rightarrow> ptr \<Rightarrow> right_state option" where
  "ipc_port_clear_receiver moved st p =
     do { port \<leftarrow> port_at st p;
          assert_that (ip_active port);
          st \<leftarrow> (if ip_pset port \<noteq> 0
                 then do { st \<leftarrow> on_port st p (\<lambda>port. port\<lparr>ip_pset := 0, ip_messages := ip_messages port @ moved p\<rparr>);
                           Some (send_events [Pset_remove (ip_pset port) p] st) }
                 else Some (send_events [Receivers_wakeup p] st));
          on_port st p (\<lambda>port. port\<lparr>ip_mscount := 0, ip_seqno := 0\<rparr>) }"

subsection \<open>Lookup\<close>

definition ipc_right_lookup_write ::
    "right_state \<Rightarrow> mach_port \<Rightarrow> ((kern_return + entry_ptr) \<times> right_state) option" where
  "ipc_right_lookup_write st name =
     (if \<not> is_active (rs_space st) then Some (Inl KERN_INVALID_TASK, st)
      else
        do { (found, space) \<leftarrow> ipc_entry_lookup (rs_space st) name;
             let st = st\<lparr>rs_space := space\<rparr>;
             case found of
               None \<Rightarrow> Some (Inl KERN_INVALID_NAME, st)
             | Some ptr \<Rightarrow> Some (Inr ptr, st) })"

definition ipc_right_reverse ::
    "right_state \<Rightarrow> ptr \<Rightarrow> ((mach_port \<times> entry_ptr) option \<times> right_state) option" where
  "ipc_right_reverse st p =
     do { assert_that (is_active (rs_space st));
          st \<leftarrow> lock_port st p;
          port \<leftarrow> port_at st p;
          if \<not> ip_active port then do { st \<leftarrow> unlock_port st p; Some (None, st) }
          else if ip_data port = rs_self st then
            do { let name = ip_receiver_name port;
                 assert_that (name \<noteq> MACH_PORT_NULL);
                 (found, space) \<leftarrow> ipc_entry_lookup (rs_space st) name;
                 let st = st\<lparr>rs_space := space\<rparr>;
                 ptr \<leftarrow> found;
                 entry \<leftarrow> entry_at st ptr;
                 assert_that (has (ie_bits entry) MACH_PORT_TYPE_RECEIVE);
                 assert_that (p = ie_object entry);
                 Some (Some (name, ptr), st) }
          else
            do { (found, g) \<leftarrow> ipc_hash_lookup (rs_space st) (rs_hash st) p;
                 let st = st\<lparr>rs_hash := g\<rparr>;
                 case found of
                   Some (name, ptr) \<Rightarrow>
                     do { entry \<leftarrow> entry_at st ptr;
                          assert_that (IE_BITS_TYPE (ie_bits entry) = MACH_PORT_TYPE_SEND);
                          assert_that (p = ie_object entry);
                          Some (Some (name, ptr), st) }
                 | None \<Rightarrow> do { st \<leftarrow> unlock_port st p; Some (None, st) } } }"

subsection \<open>Dead-name requests and dead ports\<close>

definition ipc_right_dncancel ::
    "right_state \<Rightarrow> ptr \<Rightarrow> mach_port \<Rightarrow> entry_ptr \<Rightarrow> (ptr \<times> right_state) option" where
  "ipc_right_dncancel st p name ptr =
     do { port \<leftarrow> port_at st p;
          assert_that (ip_active port);
          entry \<leftarrow> entry_at st ptr;
          assert_that (p = ie_object entry);
          (dnrequest, ps) \<leftarrow> ipc_port_dncancel (rs_ports st) p name (of_nat (ie_request entry));
          st \<leftarrow> upd_entry (st\<lparr>rs_ports := ps\<rparr>) ptr (\<lambda>e. e\<lparr>ie_request := 0\<rparr>);
          assert_that (ipr_spacep dnrequest \<longleftrightarrow> has (ie_bits entry) IE_BITS_COMPAT);
          if has (ie_bits entry) IE_BITS_COMPAT then
            do { assert_that (rs_self st = ipr_space dnrequest);
                 st \<leftarrow> is_release st;
                 Some (IP_NULL, st) }
          else Some (dnrequest, st) }"

definition ipc_right_dncancel_macro ::
    "right_state \<Rightarrow> ptr \<Rightarrow> mach_port \<Rightarrow> entry_ptr \<Rightarrow> (ptr \<times> right_state) option" where
  "ipc_right_dncancel_macro st p name ptr =
     do { entry \<leftarrow> entry_at st ptr;
          if ie_request entry = 0 then Some (IP_NULL, st) else ipc_right_dncancel st p name ptr }"

definition ipc_right_check ::
    "nat list \<Rightarrow> right_state \<Rightarrow> ptr \<Rightarrow> mach_port \<Rightarrow> entry_ptr \<Rightarrow> (bool \<times> right_state) option" where
  "ipc_right_check its st p name ptr =
     do { assert_that (is_active (rs_space st));
          entry \<leftarrow> entry_at st ptr;
          assert_that (p = ie_object entry);
          st \<leftarrow> lock_port st p;
          port \<leftarrow> port_at st p;
          if ip_active port then Some (False, st)
          else
            do { st \<leftarrow> unlock_port st p;
                 let bits = ie_bits entry;
                 assert_that (\<not> has bits MACH_PORT_TYPE_RECEIVE);
                 assert_that (0 < IE_BITS_UREFS bits);
                 (bits, st) \<leftarrow>
                   (if has bits MACH_PORT_TYPE_SEND then
                      do { assert_that (IE_BITS_TYPE bits = MACH_PORT_TYPE_SEND);
                           let (bits, st) = (if has bits IE_BITS_MAREQUEST
                             then (bits AND NOT IE_BITS_MAREQUEST, send_events [Marequest_cancel (rs_self st) name] st)
                             else (bits, st));
                           st \<leftarrow> right_hash_delete st p name ptr;
                           Some (bits, st) }
                    else
                      do { assert_that (IE_BITS_TYPE bits = MACH_PORT_TYPE_SEND_ONCE);
                           assert_that (IE_BITS_UREFS bits = 1);
                           assert_that (\<not> has bits IE_BITS_MAREQUEST);
                           Some (bits, st) });
                 st \<leftarrow> on_ports st (\<lambda>ps. ipc_port_release ps p);
                 if has bits IE_BITS_COMPAT then
                   do { assert_that (ie_request entry \<noteq> 0);
                        st \<leftarrow> upd_entry st ptr (\<lambda>e. e\<lparr>ie_request := 0, ie_object := IO_NULL\<rparr>);
                        st \<leftarrow> free_entry its st name ptr;
                        Some (True, st) }
                 else
                   do { let bits = (bits AND NOT IE_BITS_TYPE_MASK) OR MACH_PORT_TYPE_DEAD_NAME;
                        assert_that (ie_request entry = 0 \<or> IE_BITS_UREFS bits < MACH_PORT_UREFS_MAX);
                        let bits = (if ie_request entry \<noteq> 0 then bits + 1 else bits);
                        st \<leftarrow> upd_entry st ptr (\<lambda>e. e\<lparr>ie_bits := bits, ie_object := IO_NULL, ie_request := 0\<rparr>);
                        Some (True, st) } } }"

definition ipc_right_inuse ::
    "right_state \<Rightarrow> mach_port \<Rightarrow> entry_ptr \<Rightarrow> (bool \<times> right_state) option" where
  "ipc_right_inuse st name ptr =
     do { entry \<leftarrow> entry_at st ptr;
          let bits = ie_bits entry;
          let tt = IE_BITS_TYPE bits;
          if tt = MACH_PORT_TYPE_NONE then Some (False, st)
          else if has bits IE_BITS_COMPAT \<and> (tt = MACH_PORT_TYPE_SEND \<or> tt = MACH_PORT_TYPE_SEND_ONCE) then
            do { assert_that (0 < IE_BITS_UREFS bits);
                 assert_that (ie_request entry \<noteq> 0);
                 let p = ie_object entry;
                 assert_that (p \<noteq> IP_NULL);
                 st \<leftarrow> lock_port st p;
                 port \<leftarrow> port_at st p;
                 st \<leftarrow> unlock_port st p;
                 if ip_active port then Some (True, st)
                 else
                   do { st \<leftarrow>
                          (if tt = MACH_PORT_TYPE_SEND then
                             right_hash_delete
                               (if has bits IE_BITS_MAREQUEST
                                then send_events [Marequest_cancel (rs_self st) name] st else st) p name ptr
                           else
                             do { assert_that (IE_BITS_UREFS bits = 1);
                                  assert_that (\<not> has bits IE_BITS_MAREQUEST);
                                  Some st });
                        st \<leftarrow> on_ports st (\<lambda>ps. ipc_port_release ps p);
                        st \<leftarrow> upd_entry st ptr (\<lambda>e. e\<lparr>ie_request := 0, ie_object := IO_NULL,
                                                    ie_bits := ie_bits e AND NOT IE_BITS_RIGHT_MASK\<rparr>);
                        Some (False, st) } }
          else Some (True, st) }"

subsection \<open>Destruction of rights\<close>

text \<open>
  The arguments of the destruction of a port: the array \<^verbatim>\<open>ipc_table_dnrequests\<close>, whether a lock can be had
  at once, what other threads do, the messages in the port set, and the notification port of the space.
\<close>

record right_world =
  rw_its :: "nat list"
  rw_sizes :: "nat list"
  rw_free :: bool
  rw_env :: "port_state \<Rightarrow> port_state"
  rw_moved :: "ptr \<Rightarrow> ptr list"
  rw_notify :: ptr

definition destroy_receive :: "right_world \<Rightarrow> right_state \<Rightarrow> ptr \<Rightarrow> right_state option" where
  "destroy_receive w st p =
     do { st \<leftarrow> ipc_port_clear_receiver (rw_moved w) st p;
          on_ports st (\<lambda>ps. ipc_port_destroy (rw_sizes w) (rw_free w) (rw_env w) ps p) }"

definition port_type :: "u32 \<Rightarrow> bool" where
  "port_type tt \<longleftrightarrow> tt \<in> {MACH_PORT_TYPE_SEND, MACH_PORT_TYPE_RECEIVE, MACH_PORT_TYPE_SEND_RECEIVE,
     MACH_PORT_TYPE_SEND_ONCE}"

text \<open>The end that \<^verbatim>\<open>ipc_right_clean\<close> and \<^verbatim>\<open>ipc_right_destroy\<close> share; the port is locked and active.\<close>

definition release_rights :: "right_world \<Rightarrow> right_state \<Rightarrow> ptr \<Rightarrow> u32 \<Rightarrow> ptr \<Rightarrow> mach_port \<Rightarrow> right_state option" where
  "release_rights w st p tt dnrequest name =
     do { (nsrequest, st) \<leftarrow>
            (if has tt MACH_PORT_TYPE_SEND
             then do { port \<leftarrow> port_at st p; assert_that (0 < ip_srights port); drop_sright st p }
             else Some ((IP_NULL, 0), st));
          port \<leftarrow> port_at st p;
          st \<leftarrow>
            (if has tt MACH_PORT_TYPE_RECEIVE
             then do { assert_that (ip_active port);
                       assert_that (ip_data port = rs_self st);
                       destroy_receive w st p }
             else if has tt MACH_PORT_TYPE_SEND_ONCE
             then do { assert_that (0 < ip_sorights port);
                       st \<leftarrow> unlock_port st p;
                       Some (send_events [Send_once p] st) }
             else do { assert_that (ip_data port \<noteq> rs_self st);
                       st \<leftarrow> on_ports st (\<lambda>ps. ip_release ps p);
                       unlock_port st p });
          Some (send_events (ns_event nsrequest @ pd_event dnrequest name) st) }"

definition ipc_right_clean :: "right_world \<Rightarrow> right_state \<Rightarrow> mach_port \<Rightarrow> entry_ptr \<Rightarrow> right_state option" where
  "ipc_right_clean w st name ptr =
     do { entry \<leftarrow> entry_at st ptr;
          let bits = ie_bits entry;
          let tt = IE_BITS_TYPE bits;
          assert_that (\<not> is_active (rs_space st));
          if tt = MACH_PORT_TYPE_DEAD_NAME then
            do { assert_that (ie_request entry = 0);
                 assert_that (ie_object entry = IO_NULL);
                 assert_that (\<not> has bits IE_BITS_MAREQUEST);
                 Some st }
          else if tt = MACH_PORT_TYPE_PORT_SET then
            do { assert_that (ie_request entry = 0);
                 assert_that (\<not> has bits IE_BITS_MAREQUEST);
                 assert_that (ie_object entry \<noteq> 0);
                 Some (send_events [Pset_destroy (ie_object entry)] st) }
          else
            do { assert_that (port_type tt);
                 let p = ie_object entry;
                 assert_that (p \<noteq> IP_NULL);
                 st \<leftarrow> lock_port st p;
                 port \<leftarrow> port_at st p;
                 if \<not> ip_active port then
                   on_ports st (\<lambda>ps. do { ps \<leftarrow> ip_release ps p; ip_check_unlock ps p })
                 else
                   do { (dnrequest, st) \<leftarrow> ipc_right_dncancel_macro st p name ptr;
                        assert_that (has tt MACH_PORT_TYPE_RECEIVE \<longrightarrow> ip_receiver_name port = name);
                        release_rights w st p tt dnrequest name } } }"

definition ipc_right_destroy ::
    "right_world \<Rightarrow> right_state \<Rightarrow> mach_port \<Rightarrow> entry_ptr \<Rightarrow> (kern_return \<times> right_state) option" where
  "ipc_right_destroy w st name ptr =
     do { entry \<leftarrow> entry_at st ptr;
          let bits = ie_bits entry;
          let tt = IE_BITS_TYPE bits;
          assert_that (is_active (rs_space st));
          if tt = MACH_PORT_TYPE_DEAD_NAME then
            do { assert_that (ie_request entry = 0);
                 assert_that (ie_object entry = IO_NULL);
                 assert_that (\<not> has bits IE_BITS_MAREQUEST);
                 st \<leftarrow> free_entry (rw_its w) st name ptr;
                 Some (KERN_SUCCESS, st) }
          else if tt = MACH_PORT_TYPE_PORT_SET then
            do { let pset = ie_object entry;
                 assert_that (ie_request entry = 0);
                 assert_that (pset \<noteq> 0);
                 st \<leftarrow> upd_entry st ptr (\<lambda>e. e\<lparr>ie_object := IO_NULL\<rparr>);
                 st \<leftarrow> free_entry (rw_its w) st name ptr;
                 Some (KERN_SUCCESS, send_events [Pset_destroy pset] st) }
          else
            do { assert_that (port_type tt);
                 let p = ie_object entry;
                 assert_that (p \<noteq> IP_NULL);
                 assert_that (has bits IE_BITS_MAREQUEST \<longrightarrow> has tt MACH_PORT_TYPE_SEND_RECEIVE);
                 let st = (if has bits IE_BITS_MAREQUEST
                           then send_events [Marequest_cancel (rs_self st) name] st else st);
                 st \<leftarrow> (if tt = MACH_PORT_TYPE_SEND then right_hash_delete st p name ptr else Some st);
                 st \<leftarrow> lock_port st p;
                 port \<leftarrow> port_at st p;
                 if \<not> ip_active port then
                   do { assert_that (\<not> has tt MACH_PORT_TYPE_RECEIVE);
                        st \<leftarrow> on_ports st (\<lambda>ps. do { ps \<leftarrow> ip_release ps p; ip_check_unlock ps p });
                        st \<leftarrow> upd_entry st ptr (\<lambda>e. e\<lparr>ie_request := 0, ie_object := IO_NULL\<rparr>);
                        st \<leftarrow> free_entry (rw_its w) st name ptr;
                        Some (if has bits IE_BITS_COMPAT then KERN_INVALID_NAME else KERN_SUCCESS, st) }
                 else
                   do { (dnrequest, st) \<leftarrow> ipc_right_dncancel_macro st p name ptr;
                        st \<leftarrow> upd_entry st ptr (\<lambda>e. e\<lparr>ie_object := IO_NULL\<rparr>);
                        st \<leftarrow> free_entry (rw_its w) st name ptr;
                        st \<leftarrow> release_rights w st p tt dnrequest name;
                        Some (KERN_SUCCESS, st) } } }"

subsection \<open>User references\<close>

text \<open>The label \<^verbatim>\<open>dead_name\<close> of \<^verbatim>\<open>ipc_right_dealloc\<close>.\<close>

definition dealloc_dead :: "nat list \<Rightarrow> right_state \<Rightarrow> mach_port \<Rightarrow> entry_ptr \<Rightarrow> (kern_return \<times> right_state) option" where
  "dealloc_dead its st name ptr =
     do { entry \<leftarrow> entry_at st ptr;
          let bits = ie_bits entry;
          assert_that (0 < IE_BITS_UREFS bits);
          assert_that (ie_request entry = 0);
          assert_that (ie_object entry = IO_NULL);
          assert_that (\<not> has bits IE_BITS_MAREQUEST);
          st \<leftarrow> (if IE_BITS_UREFS bits = 1 then free_entry its st name ptr
                 else upd_entry st ptr (\<lambda>e. e\<lparr>ie_bits := bits - 1\<rparr>));
          Some (KERN_SUCCESS, st) }"

text \<open>
  What a call that finds the port dead does: in compatibility mode the name is invalid, otherwise it is a
  dead name now.
\<close>

definition after_check ::
    "u32 \<Rightarrow> right_state \<Rightarrow> entry_ptr \<Rightarrow> (kern_return \<times> right_state) option \<Rightarrow> (kern_return \<times> right_state) option" where
  "after_check bits st ptr k =
     (if has bits IE_BITS_COMPAT then Some (KERN_INVALID_NAME, st)
      else
        do { entry \<leftarrow> entry_at st ptr;
             assert_that (IE_BITS_TYPE (ie_bits entry) = MACH_PORT_TYPE_DEAD_NAME);
             k })"

text \<open>The branches for a send-once right whose port is locked and active.\<close>

definition give_up_sonce ::
    "nat list \<Rightarrow> right_state \<Rightarrow> ptr \<Rightarrow> mach_port \<Rightarrow> entry_ptr \<Rightarrow> (kern_return \<times> right_state) option" where
  "give_up_sonce its st p name ptr =
     do { (dnrequest, st) \<leftarrow> ipc_right_dncancel_macro st p name ptr;
          st \<leftarrow> unlock_port st p;
          st \<leftarrow> upd_entry st ptr (\<lambda>e. e\<lparr>ie_object := IO_NULL\<rparr>);
          st \<leftarrow> free_entry its st name ptr;
          Some (KERN_SUCCESS, send_events (Send_once p # pd_event dnrequest name) st) }"

text \<open>The branches that give up the last user reference of a pure send right.\<close>

definition give_up_send ::
    "nat list \<Rightarrow> right_state \<Rightarrow> ptr \<Rightarrow> mach_port \<Rightarrow> entry_ptr \<Rightarrow> u32 \<Rightarrow> (ptr \<times> right_state) option" where
  "give_up_send its st p name ptr bits =
     do { (dnrequest, st) \<leftarrow> ipc_right_dncancel_macro st p name ptr;
          st \<leftarrow> right_hash_delete st p name ptr;
          let st = (if has bits IE_BITS_MAREQUEST then send_events [Marequest_cancel (rs_self st) name] st else st);
          st \<leftarrow> on_ports st (\<lambda>ps. ip_release ps p);
          st \<leftarrow> upd_entry st ptr (\<lambda>e. e\<lparr>ie_object := IO_NULL\<rparr>);
          st \<leftarrow> free_entry its st name ptr;
          Some (dnrequest, st) }"

definition ipc_right_dealloc ::
    "nat list \<Rightarrow> right_state \<Rightarrow> mach_port \<Rightarrow> entry_ptr \<Rightarrow> (kern_return \<times> right_state) option" where
  "ipc_right_dealloc its st name ptr =
     do { entry \<leftarrow> entry_at st ptr;
          let bits = ie_bits entry;
          let tt = IE_BITS_TYPE bits;
          let p = ie_object entry;
          assert_that (is_active (rs_space st));
          if tt = MACH_PORT_TYPE_DEAD_NAME then dealloc_dead its st name ptr
          else if tt = MACH_PORT_TYPE_SEND_ONCE then
            do { assert_that (IE_BITS_UREFS bits = 1);
                 assert_that (\<not> has bits IE_BITS_MAREQUEST);
                 assert_that (p \<noteq> IP_NULL);
                 (dead, st) \<leftarrow> ipc_right_check its st p name ptr;
                 if dead then after_check bits st ptr (dealloc_dead its st name ptr)
                 else
                   do { port \<leftarrow> port_at st p;
                        assert_that (0 < ip_sorights port);
                        give_up_sonce its st p name ptr } }
          else if tt = MACH_PORT_TYPE_SEND then
            do { assert_that (0 < IE_BITS_UREFS bits);
                 assert_that (p \<noteq> IP_NULL);
                 (dead, st) \<leftarrow> ipc_right_check its st p name ptr;
                 if dead then after_check bits st ptr (dealloc_dead its st name ptr)
                 else
                   do { port \<leftarrow> port_at st p;
                        assert_that (0 < ip_srights port);
                        if IE_BITS_UREFS bits = 1 then
                          do { (nsrequest, st) \<leftarrow> drop_sright st p;
                               (dnrequest, st) \<leftarrow> give_up_send its st p name ptr bits;
                               st \<leftarrow> unlock_port st p;
                               Some (KERN_SUCCESS, send_events (ns_event nsrequest @ pd_event dnrequest name) st) }
                        else
                          do { st \<leftarrow> upd_entry st ptr (\<lambda>e. e\<lparr>ie_bits := bits - 1\<rparr>);
                               st \<leftarrow> unlock_port st p;
                               Some (KERN_SUCCESS, st) } } }
          else if tt = MACH_PORT_TYPE_SEND_RECEIVE then
            do { assert_that (0 < IE_BITS_UREFS bits);
                 assert_that (p \<noteq> IP_NULL);
                 st \<leftarrow> lock_port st p;
                 port \<leftarrow> port_at st p;
                 assert_that (ip_active port);
                 assert_that (ip_receiver_name port = name);
                 assert_that (ip_data port = rs_self st);
                 assert_that (0 < ip_srights port);
                 if IE_BITS_UREFS bits = 1 then
                   do { (nsrequest, st) \<leftarrow> drop_sright st p;
                        st \<leftarrow> upd_entry st ptr
                               (\<lambda>e. e\<lparr>ie_bits := bits AND NOT (IE_BITS_UREFS_MASK OR MACH_PORT_TYPE_SEND)\<rparr>);
                        st \<leftarrow> unlock_port st p;
                        Some (KERN_SUCCESS, send_events (ns_event nsrequest) st) }
                 else
                   do { st \<leftarrow> upd_entry st ptr (\<lambda>e. e\<lparr>ie_bits := bits - 1\<rparr>);
                        st \<leftarrow> unlock_port st p;
                        Some (KERN_SUCCESS, st) } }
          else Some (KERN_INVALID_RIGHT, st) }"

text \<open>\<^verbatim>\<open>ipc_right_delta\<close>, one definition for each case of its switch over \<^verbatim>\<open>right\<close>.\<close>

definition delta_port_set ::
    "right_world \<Rightarrow> right_state \<Rightarrow> mach_port \<Rightarrow> entry_ptr \<Rightarrow> ipc_entry \<Rightarrow> u32 \<Rightarrow> (kern_return \<times> right_state) option" where
  "delta_port_set w st name ptr entry delta =
     (let bits = ie_bits entry in
      if \<not> has bits MACH_PORT_TYPE_PORT_SET then Some (KERN_INVALID_RIGHT, st)
      else
        do { assert_that (IE_BITS_TYPE bits = MACH_PORT_TYPE_PORT_SET);
             assert_that (IE_BITS_UREFS bits = 0);
             assert_that (\<not> has bits IE_BITS_MAREQUEST);
             assert_that (ie_request entry = 0);
             if delta = 0 then Some (KERN_SUCCESS, st)
             else if delta \<noteq> -1 then Some (KERN_INVALID_VALUE, st)
             else
               do { let pset = ie_object entry;
                    assert_that (pset \<noteq> 0);
                    st \<leftarrow> upd_entry st ptr (\<lambda>e. e\<lparr>ie_object := IO_NULL\<rparr>);
                    st \<leftarrow> free_entry (rw_its w) st name ptr;
                    Some (KERN_SUCCESS, send_events [Pset_destroy pset] st) } })"

definition delta_receive ::
    "right_world \<Rightarrow> right_state \<Rightarrow> mach_port \<Rightarrow> entry_ptr \<Rightarrow> ipc_entry \<Rightarrow> u32 \<Rightarrow> (kern_return \<times> right_state) option" where
  "delta_receive w st name ptr entry delta =
     (let bits = ie_bits entry in
      if \<not> has bits MACH_PORT_TYPE_RECEIVE then Some (KERN_INVALID_RIGHT, st)
      else if delta = 0 then Some (KERN_SUCCESS, st)
      else if delta \<noteq> -1 then Some (KERN_INVALID_VALUE, st)
      else
        do { let (bits, st) = (if has bits IE_BITS_MAREQUEST
               then (bits AND NOT IE_BITS_MAREQUEST, send_events [Marequest_cancel (rs_self st) name] st)
               else (bits, st));
             let p = ie_object entry;
             assert_that (p \<noteq> IP_NULL);
             st \<leftarrow> lock_port st p;
             port \<leftarrow> port_at st p;
             assert_that (ip_active port);
             assert_that (ip_receiver_name port = name);
             assert_that (ip_data port = rs_self st);
             (dnrequest, st) \<leftarrow>
               (if has bits IE_BITS_COMPAT then
                  do { assert_that (ie_request entry \<noteq> 0);
                       (dnrequest, st) \<leftarrow> ipc_right_dncancel st p name ptr;
                       assert_that (dnrequest = IP_NULL);
                       st \<leftarrow> upd_entry st ptr (\<lambda>e. e\<lparr>ie_object := IO_NULL\<rparr>);
                       st \<leftarrow> free_entry (rw_its w) st name ptr;
                       Some (dnrequest, st) }
                else if has bits MACH_PORT_TYPE_SEND then
                  do { assert_that (IE_BITS_TYPE bits = MACH_PORT_TYPE_SEND_RECEIVE);
                       assert_that (0 < IE_BITS_UREFS bits);
                       assert_that (IE_BITS_UREFS bits < MACH_PORT_UREFS_MAX);
                       assert_that (0 < ip_srights port);
                       let bits = (bits AND NOT IE_BITS_TYPE_MASK) OR MACH_PORT_TYPE_DEAD_NAME;
                       let bits = (if ie_request entry \<noteq> 0 then bits + 1 else bits);
                       st \<leftarrow> upd_entry st ptr (\<lambda>e. e\<lparr>ie_request := 0, ie_bits := bits, ie_object := IO_NULL\<rparr>);
                       Some (IP_NULL, st) }
                else
                  do { assert_that (IE_BITS_TYPE bits = MACH_PORT_TYPE_RECEIVE);
                       assert_that (IE_BITS_UREFS bits = 0);
                       (dnrequest, st) \<leftarrow> ipc_right_dncancel_macro st p name ptr;
                       st \<leftarrow> upd_entry st ptr (\<lambda>e. e\<lparr>ie_object := IO_NULL\<rparr>);
                       st \<leftarrow> free_entry (rw_its w) st name ptr;
                       Some (dnrequest, st) });
             st \<leftarrow> destroy_receive w st p;
             Some (KERN_SUCCESS, send_events (pd_event dnrequest name) st) })"

definition delta_send_once ::
    "nat list \<Rightarrow> right_state \<Rightarrow> mach_port \<Rightarrow> entry_ptr \<Rightarrow> ipc_entry \<Rightarrow> u32 \<Rightarrow> (kern_return \<times> right_state) option" where
  "delta_send_once its st name ptr entry delta =
     (let bits = ie_bits entry; p = ie_object entry in
      if \<not> has bits MACH_PORT_TYPE_SEND_ONCE then Some (KERN_INVALID_RIGHT, st)
      else
        do { assert_that (IE_BITS_TYPE bits = MACH_PORT_TYPE_SEND_ONCE);
             assert_that (IE_BITS_UREFS bits = 1);
             assert_that (\<not> has bits IE_BITS_MAREQUEST);
             if 0 < sint delta \<or> sint delta < -1 then Some (KERN_INVALID_VALUE, st)
             else
               do { assert_that (p \<noteq> IP_NULL);
                    (dead, st) \<leftarrow> ipc_right_check its st p name ptr;
                    if dead then
                      (if has bits IE_BITS_COMPAT then Some (KERN_INVALID_NAME, st)
                       else
                         do { entry \<leftarrow> entry_at st ptr;
                              assert_that (\<not> has (ie_bits entry) MACH_PORT_TYPE_SEND_ONCE);
                              Some (KERN_INVALID_RIGHT, st) })
                    else
                      do { port \<leftarrow> port_at st p;
                           assert_that (0 < ip_sorights port);
                           if delta = 0 then do { st \<leftarrow> unlock_port st p; Some (KERN_SUCCESS, st) }
                           else give_up_sonce its st p name ptr } } })"

definition delta_dead_name ::
    "nat list \<Rightarrow> right_state \<Rightarrow> mach_port \<Rightarrow> entry_ptr \<Rightarrow> ipc_entry \<Rightarrow> u32 \<Rightarrow> (kern_return \<times> right_state) option" where
  "delta_dead_name its st name ptr entry delta =
     do { let bits = ie_bits entry;
          (err, st) \<leftarrow>
            (if has bits MACH_PORT_TYPE_SEND_RIGHTS then
               do { let p = ie_object entry;
                    assert_that (p \<noteq> IP_NULL);
                    (dead, st) \<leftarrow> ipc_right_check its st p name ptr;
                    if \<not> dead then do { st \<leftarrow> unlock_port st p; Some (Some KERN_INVALID_RIGHT, st) }
                    else Some (if has bits IE_BITS_COMPAT then Some KERN_INVALID_NAME else None, st) }
             else Some (if \<not> has bits MACH_PORT_TYPE_DEAD_NAME then Some KERN_INVALID_RIGHT else None, st));
          case err of
            Some kr \<Rightarrow> Some (kr, st)
          | None \<Rightarrow>
              do { entry \<leftarrow> entry_at st ptr;
                   let bits = ie_bits entry;
                   assert_that (IE_BITS_TYPE bits = MACH_PORT_TYPE_DEAD_NAME);
                   assert_that (0 < IE_BITS_UREFS bits);
                   assert_that (\<not> has bits IE_BITS_MAREQUEST);
                   assert_that (ie_object entry = IO_NULL);
                   assert_that (ie_request entry = 0);
                   let urefs = IE_BITS_UREFS bits;
                   if MACH_PORT_UREFS_UNDERFLOW urefs delta then Some (KERN_INVALID_VALUE, st)
                   else if MACH_PORT_UREFS_OVERFLOW urefs delta then Some (KERN_UREFS_OVERFLOW, st)
                   else
                     do { st \<leftarrow> (if urefs + delta = 0 then free_entry its st name ptr
                                 else upd_entry st ptr (\<lambda>e. e\<lparr>ie_bits := bits + delta\<rparr>));
                          Some (KERN_SUCCESS, st) } } }"

definition delta_send ::
    "nat list \<Rightarrow> right_state \<Rightarrow> mach_port \<Rightarrow> entry_ptr \<Rightarrow> ipc_entry \<Rightarrow> u32 \<Rightarrow> (kern_return \<times> right_state) option" where
  "delta_send its st name ptr entry delta =
     (let bits = ie_bits entry; p = ie_object entry; urefs = IE_BITS_UREFS bits in
      if \<not> has bits MACH_PORT_TYPE_SEND then Some (KERN_INVALID_RIGHT, st)
      else if MACH_PORT_UREFS_UNDERFLOW urefs delta then Some (KERN_INVALID_VALUE, st)
      else if MACH_PORT_UREFS_OVERFLOW (urefs + 1) delta then Some (KERN_UREFS_OVERFLOW, st)
      else
        do { assert_that (p \<noteq> IP_NULL);
             (dead, st) \<leftarrow> ipc_right_check its st p name ptr;
             if dead then
               (if has bits IE_BITS_COMPAT then Some (KERN_INVALID_NAME, st)
                else
                  do { entry \<leftarrow> entry_at st ptr;
                       assert_that (\<not> has (ie_bits entry) MACH_PORT_TYPE_SEND);
                       Some (KERN_INVALID_RIGHT, st) })
             else
               do { port \<leftarrow> port_at st p;
                    assert_that (0 < ip_srights port);
                    if urefs + delta = 0 then
                      do { (nsrequest, st) \<leftarrow> drop_sright st p;
                           (dnrequest, st) \<leftarrow>
                             (if has bits MACH_PORT_TYPE_RECEIVE then
                                do { assert_that (ip_receiver_name port = name);
                                     assert_that (ip_data port = rs_self st);
                                     assert_that (IE_BITS_TYPE bits = MACH_PORT_TYPE_SEND_RECEIVE);
                                     st \<leftarrow> upd_entry st ptr
                                       (\<lambda>e. e\<lparr>ie_bits := bits AND NOT (IE_BITS_UREFS_MASK OR MACH_PORT_TYPE_SEND)\<rparr>);
                                     Some (IP_NULL, st) }
                              else
                                do { assert_that (IE_BITS_TYPE bits = MACH_PORT_TYPE_SEND);
                                     give_up_send its st p name ptr bits });
                           st \<leftarrow> unlock_port st p;
                           Some (KERN_SUCCESS, send_events (ns_event nsrequest @ pd_event dnrequest name) st) }
                    else
                      do { st \<leftarrow> upd_entry st ptr (\<lambda>e. e\<lparr>ie_bits := bits + delta\<rparr>);
                           st \<leftarrow> unlock_port st p;
                           Some (KERN_SUCCESS, st) } } })"

definition ipc_right_delta ::
    "right_world \<Rightarrow> right_state \<Rightarrow> mach_port \<Rightarrow> entry_ptr \<Rightarrow> nat \<Rightarrow> u32 \<Rightarrow> (kern_return \<times> right_state) option" where
  "ipc_right_delta w st name ptr rgt delta =
     do { entry \<leftarrow> entry_at st ptr;
          assert_that (is_active (rs_space st));
          if rgt = MACH_PORT_RIGHT_PORT_SET then delta_port_set w st name ptr entry delta
          else if rgt = MACH_PORT_RIGHT_RECEIVE then delta_receive w st name ptr entry delta
          else if rgt = MACH_PORT_RIGHT_SEND_ONCE then delta_send_once (rw_its w) st name ptr entry delta
          else if rgt = MACH_PORT_RIGHT_DEAD_NAME then delta_dead_name (rw_its w) st name ptr entry delta
          else if rgt = MACH_PORT_RIGHT_SEND then delta_send (rw_its w) st name ptr entry delta
          else None }"

text \<open>The type and the user references of a right.\<close>

definition ipc_right_info ::
    "nat list \<Rightarrow> right_state \<Rightarrow> mach_port \<Rightarrow> entry_ptr \<Rightarrow> ((kern_return + u32 \<times> u32) \<times> right_state) option" where
  "ipc_right_info its st name ptr =
     do { entry \<leftarrow> entry_at st ptr;
          let bits = ie_bits entry;
          (gone, st) \<leftarrow>
            (if has bits MACH_PORT_TYPE_SEND_RIGHTS then
               do { (dead, st) \<leftarrow> ipc_right_check its st (ie_object entry) name ptr;
                    if dead then
                      (if has bits IE_BITS_COMPAT then Some (True, st)
                       else
                         do { entry \<leftarrow> entry_at st ptr;
                              assert_that (IE_BITS_TYPE (ie_bits entry) = MACH_PORT_TYPE_DEAD_NAME);
                              Some (False, st) })
                    else do { st \<leftarrow> unlock_port st (ie_object entry); Some (False, st) } }
             else Some (False, st));
          if gone then Some (Inl KERN_INVALID_NAME, st)
          else
            do { entry \<leftarrow> entry_at st ptr;
                 let bits = ie_bits entry;
                 let tt = IE_BITS_TYPE bits;
                 let tt = (if has bits IE_BITS_COMPAT then tt OR MACH_PORT_TYPE_COMPAT
                           else if ie_request entry \<noteq> 0 then tt OR MACH_PORT_TYPE_DNREQUEST else tt);
                 let tt = (if has bits IE_BITS_MAREQUEST then tt OR MACH_PORT_TYPE_MAREQUEST else tt);
                 Some (Inr (tt, IE_BITS_UREFS bits), st) } }"

subsection \<open>Compatibility entries of dead ports\<close>

text \<open>\<^verbatim>\<open>ipc_space_make_notify\<close>; \<open>rw_notify\<close> is the field \<^verbatim>\<open>is_notify\<close> of the space.\<close>

definition ipc_space_make_notify :: "right_world \<Rightarrow> right_state \<Rightarrow> (ptr \<times> right_state) option" where
  "ipc_space_make_notify w st =
     do { (sright, ps) \<leftarrow> ipc_port_copy_send (rs_ports st) (rw_notify w);
          Some (sright, st\<lparr>rs_ports := ps\<rparr>) }"

definition pdc_event :: "ptr \<Rightarrow> mach_port \<Rightarrow> port_event list" where
  "pdc_event sright name = (if IP_VALID sright then [Port_deleted_compat sright name] else [])"

definition ipc_port_delete_compat :: "right_world \<Rightarrow> right_state \<Rightarrow> ptr \<Rightarrow> mach_port \<Rightarrow> right_state option" where
  "ipc_port_delete_compat w st p name =
     do { port \<leftarrow> port_at st p;
          assert_that (\<not> ip_active port);
          (found, st) \<leftarrow> ipc_right_lookup_write st name;
          st \<leftarrow>
            (case found of
               Inl _ \<Rightarrow> Some st
             | Inr ptr \<Rightarrow>
                 do { entry \<leftarrow> entry_at st ptr;
                      if ie_object entry = p then
                        do { assert_that (has (ie_bits entry) IE_BITS_COMPAT);
                             (sright, st) \<leftarrow> ipc_space_make_notify w st;
                             (kr, st) \<leftarrow> ipc_right_destroy w st name ptr;
                             assert_that (kr = KERN_INVALID_NAME);
                             Some (send_events (pdc_event sright name) st) }
                      else Some st });
          is_release st }"

subsection \<open>Dead-name requests on names\<close>

text \<open>
  When the request table of the port is full, \<^verbatim>\<open>ipc_right_dnrequest\<close> unlocks the space, lets
  \<^verbatim>\<open>ipc_port_dngrow\<close> make room and starts again. In round \<open>n\<close>, \<open>dw_mem\<close> is the allocator, \<open>dw_ports\<close>
  what other threads do while the port is unlocked, and \<open>dw_env\<close> what they have done by the time the space
  is locked again. A round ends with a result or asks for another one.
\<close>

record dn_world =
  dw_its :: "nat list"
  dw_sizes :: "nat list"
  dw_mem :: "nat \<Rightarrow> nat \<Rightarrow> (ptr \<times> ipc_port_request list) option"
  dw_ports :: "nat \<Rightarrow> port_state \<Rightarrow> port_state"
  dw_env :: "nat \<Rightarrow> right_state \<Rightarrow> right_state"

text \<open>The branch for a port that is locked and active; no result means \<^verbatim>\<open>continue\<close>.\<close>

definition dnrequest_live ::
    "dn_world \<Rightarrow> nat \<Rightarrow> right_state \<Rightarrow> mach_port \<Rightarrow> entry_ptr \<Rightarrow> u32 \<Rightarrow> ptr \<Rightarrow> ptr \<Rightarrow>
     ((kern_return + ptr) option \<times> right_state) option" where
  "dnrequest_live w n st name ptr bits p notify =
     (if notify = IP_NULL then
        do { (previous, st) \<leftarrow>
               (if has bits IE_BITS_COMPAT then
                  do { entry \<leftarrow> entry_at st ptr;
                       assert_that (ie_request entry \<noteq> 0);
                       Some (IP_NULL, st) }
                else ipc_right_dncancel_macro st p name ptr);
             st \<leftarrow> unlock_port st p;
             Some (Some (Inr previous), st) }
      else
        do { (previous, st) \<leftarrow> ipc_right_dncancel_macro st p name ptr;
             (r, ps) \<leftarrow> ipc_port_dnrequest (rs_ports st) p name notify;
             let st = st\<lparr>rs_ports := ps\<rparr>;
             case r of
               Inl _ \<Rightarrow>
                 do { assert_that (previous = IP_NULL);
                      (kr, ps) \<leftarrow> ipc_port_dngrow (dw_sizes w) (dw_mem w n) (dw_ports w n) (rs_ports st) p;
                      let st = st\<lparr>rs_ports := ps\<rparr>;
                      Some (if kr \<noteq> KERN_SUCCESS then (Some (Inl kr), st) else (None, dw_env w n st)) }
             | Inr request \<Rightarrow>
                 do { assert_that (request \<noteq> 0);
                      st \<leftarrow> unlock_port st p;
                      st \<leftarrow> upd_entry st ptr
                             (\<lambda>e. e\<lparr>ie_request := unat request, ie_bits := bits AND NOT IE_BITS_COMPAT\<rparr>);
                      Some (Some (Inr previous), st) } })"

text \<open>The rest of a round, for a name that denotes no live port.\<close>

definition dnrequest_dead ::
    "right_state \<Rightarrow> mach_port \<Rightarrow> entry_ptr \<Rightarrow> u32 \<Rightarrow> bool \<Rightarrow> ptr \<Rightarrow> ((kern_return + ptr) \<times> right_state) option" where
  "dnrequest_dead st name ptr bits immediate notify =
     (if has bits MACH_PORT_TYPE_DEAD_NAME \<and> immediate \<and> notify \<noteq> IP_NULL then
        do { let urefs = IE_BITS_UREFS bits;
             assert_that (IE_BITS_TYPE bits = MACH_PORT_TYPE_DEAD_NAME);
             assert_that (0 < urefs);
             if MACH_PORT_UREFS_OVERFLOW urefs 1 then Some (Inl KERN_UREFS_OVERFLOW, st)
             else
               do { st \<leftarrow> upd_entry st ptr (\<lambda>e. e\<lparr>ie_bits := bits + 1\<rparr>);
                    Some (Inr IP_NULL, send_events [Dead_name notify name] st) } }
      else Some (Inl (if has bits MACH_PORT_TYPE_PORT_OR_DEAD then KERN_INVALID_ARGUMENT else KERN_INVALID_RIGHT), st))"

definition dnrequest_round ::
    "dn_world \<Rightarrow> nat \<Rightarrow> right_state \<Rightarrow> mach_port \<Rightarrow> bool \<Rightarrow> ptr \<Rightarrow>
     ((kern_return + ptr) option \<times> right_state) option" where
  "dnrequest_round w n st name immediate notify =
     do { (found, st) \<leftarrow> ipc_right_lookup_write st name;
          case found of
            Inl kr \<Rightarrow> Some (Some (Inl kr), st)
          | Inr ptr \<Rightarrow>
              do { entry \<leftarrow> entry_at st ptr;
                   let bits = ie_bits entry;
                   (live, st) \<leftarrow>
                     (if has bits MACH_PORT_TYPE_PORT_RIGHTS then
                        do { assert_that (ie_object entry \<noteq> IP_NULL);
                             (dead, st) \<leftarrow> ipc_right_check (dw_its w) st (ie_object entry) name ptr;
                             Some (\<not> dead, st) }
                      else Some (False, st));
                   if live then dnrequest_live w n st name ptr bits (ie_object entry) notify
                   else if has bits MACH_PORT_TYPE_PORT_RIGHTS \<and> has bits IE_BITS_COMPAT
                   then Some (Some (Inl KERN_INVALID_NAME), st)
                   else
                     do { entry \<leftarrow> entry_at st ptr;
                          assert_that (has bits MACH_PORT_TYPE_PORT_RIGHTS \<longrightarrow> has (ie_bits entry) MACH_PORT_TYPE_DEAD_NAME);
                          (r, st) \<leftarrow> dnrequest_dead st name ptr (ie_bits entry) immediate notify;
                          Some (Some r, st) } } }"

partial_function (option) ipc_right_dnrequest ::
    "dn_world \<Rightarrow> nat \<Rightarrow> right_state \<Rightarrow> mach_port \<Rightarrow> bool \<Rightarrow> ptr \<Rightarrow>
     ((kern_return + ptr) \<times> right_state) option" where
  "ipc_right_dnrequest w n st name immediate notify =
     do { (r, st) \<leftarrow> dnrequest_round w n st name immediate notify;
          case r of
            Some r \<Rightarrow> Some (r, st)
          | None \<Rightarrow> ipc_right_dnrequest w (n + 1) st name immediate notify }"

end
