(* ===== verification/Ipc_Bits.thy ===== *)
theory Ipc_Bits
  imports Ipc_Right
begin

text \<open>
  Arithmetic on the bits of an entry: the low half counts the user references, the rights are in the high
  half. A change of the count that stays within its 16 bits changes nothing else.
\<close>

named_theorems bits_simps

lemma type_values [bits_simps]:
  "MACH_PORT_TYPE_NONE = 0" "MACH_PORT_TYPE_SEND = 0x10000" "MACH_PORT_TYPE_RECEIVE = 0x20000"
  "MACH_PORT_TYPE_SEND_ONCE = 0x40000" "MACH_PORT_TYPE_PORT_SET = 0x80000" "MACH_PORT_TYPE_DEAD_NAME = 0x100000"
  "MACH_PORT_TYPE_SEND_RECEIVE = 0x30000" "MACH_PORT_TYPE_SEND_RIGHTS = 0x50000"
  "MACH_PORT_TYPE_PORT_RIGHTS = 0x70000" "MACH_PORT_TYPE_PORT_OR_DEAD = 0x170000"
  by (simp_all add: MACH_PORT_TYPE_NONE_def MACH_PORT_TYPE_SEND_def MACH_PORT_TYPE_RECEIVE_def MACH_PORT_TYPE_SEND_ONCE_def
      MACH_PORT_TYPE_PORT_SET_def MACH_PORT_TYPE_DEAD_NAME_def MACH_PORT_TYPE_SEND_RECEIVE_def MACH_PORT_TYPE_SEND_RIGHTS_def
      MACH_PORT_TYPE_PORT_RIGHTS_def MACH_PORT_TYPE_PORT_OR_DEAD_def MACH_PORT_TYPE_def MACH_PORT_RIGHT_SEND_def
      MACH_PORT_RIGHT_RECEIVE_def MACH_PORT_RIGHT_SEND_ONCE_def MACH_PORT_RIGHT_PORT_SET_def MACH_PORT_RIGHT_DEAD_NAME_def)

lemma urefs_max [bits_simps]: "MACH_PORT_UREFS_MAX = 0xffff"
  by (simp add: MACH_PORT_UREFS_MAX_def)

lemmas mask_values = IE_BITS_UREFS_MASK_def IE_BITS_TYPE_MASK_def IE_BITS_MAREQUEST_def IE_BITS_COMPAT_def
  IE_BITS_COLLISION_def IE_BITS_RIGHT_MASK_def

text \<open>A test of type bits looks at the type only.\<close>

lemma has_type: "X AND IE_BITS_TYPE_MASK = X \<Longrightarrow> bits AND X = IE_BITS_TYPE bits AND X"
  by (metis IE_BITS_TYPE_def and.assoc and.commute)

lemma has_type_values:
  "bits AND 0x10000 = IE_BITS_TYPE bits AND 0x10000" "bits AND 0x20000 = IE_BITS_TYPE bits AND 0x20000"
  "bits AND 0x40000 = IE_BITS_TYPE bits AND 0x40000" "bits AND 0x80000 = IE_BITS_TYPE bits AND 0x80000"
  "bits AND 0x100000 = IE_BITS_TYPE bits AND 0x100000" "bits AND 0x30000 = IE_BITS_TYPE bits AND 0x30000"
  "bits AND 0x50000 = IE_BITS_TYPE bits AND 0x50000" "bits AND 0x70000 = IE_BITS_TYPE bits AND 0x70000"
  "bits AND 0x170000 = IE_BITS_TYPE bits AND 0x170000"
  by (rule has_type; simp add: IE_BITS_TYPE_MASK_def)+

subsection \<open>Counting\<close>

definition high_mask :: "u32 \<Rightarrow> bool" where
  "high_mask m \<longleftrightarrow> m AND NOT IE_BITS_UREFS_MASK = m"

lemma high_masks [simp]: "high_mask IE_BITS_TYPE_MASK" "high_mask IE_BITS_MAREQUEST" "high_mask IE_BITS_COMPAT"
  "high_mask IE_BITS_COLLISION"
  by (simp_all add: high_mask_def mask_values)

lemma bits_adjust:
  assumes "\<not> MACH_PORT_UREFS_OVERFLOW (IE_BITS_UREFS b) d" and "\<not> MACH_PORT_UREFS_UNDERFLOW (IE_BITS_UREFS b) d"
  shows "IE_BITS_UREFS (b + d) = IE_BITS_UREFS b + d" and "high_mask m \<Longrightarrow> (b + d) AND m = b AND m"
    and "IE_BITS_TYPE (b + d) = IE_BITS_TYPE b"
  using urefs_adjust(1) urefs_adjust_field assms high_masks(1) unfolding high_mask_def IE_BITS_TYPE_def by blast+

lemma sint_pm1: "sint (1 :: u32) = 1" "sint (- 1 :: u32) = - 1"
  by simp_all

lemma bits_dec:
  assumes "0 < IE_BITS_UREFS b"
  shows "IE_BITS_UREFS (b - 1) = IE_BITS_UREFS b - 1" and "high_mask m \<Longrightarrow> (b - 1) AND m = b AND m"
    and "IE_BITS_TYPE (b - 1) = IE_BITS_TYPE b"
proof -
  have "\<not> MACH_PORT_UREFS_OVERFLOW (IE_BITS_UREFS b) (- 1)" "\<not> MACH_PORT_UREFS_UNDERFLOW (IE_BITS_UREFS b) (- 1)"
    using assms by (simp_all add: MACH_PORT_UREFS_OVERFLOW_def MACH_PORT_UREFS_UNDERFLOW_def word_less_1)
  from bits_adjust [OF this] show "IE_BITS_UREFS (b - 1) = IE_BITS_UREFS b - 1"
    and "high_mask m \<Longrightarrow> (b - 1) AND m = b AND m" and "IE_BITS_TYPE (b - 1) = IE_BITS_TYPE b" by simp_all
qed

lemma bits_inc:
  assumes "IE_BITS_UREFS b < MACH_PORT_UREFS_MAX"
  shows "IE_BITS_UREFS (b + 1) = IE_BITS_UREFS b + 1" and "high_mask m \<Longrightarrow> (b + 1) AND m = b AND m"
    and "IE_BITS_TYPE (b + 1) = IE_BITS_TYPE b"
proof -
  have "uint (IE_BITS_UREFS b) < 65535" using assms by (simp add: word_less_def UREFS_MAX_uint)
  then have "\<not> MACH_PORT_UREFS_OVERFLOW (IE_BITS_UREFS b) 1" "\<not> MACH_PORT_UREFS_UNDERFLOW (IE_BITS_UREFS b) 1"
    using uint_u32_bounds(1) [of "IE_BITS_UREFS b"]
    by (simp_all add: urefs_overflow_iff [OF urefs_le_max] urefs_underflow_iff [OF urefs_le_max] not_less)
  from bits_adjust [OF this] show "IE_BITS_UREFS (b + 1) = IE_BITS_UREFS b + 1"
    and "high_mask m \<Longrightarrow> (b + 1) AND m = b AND m" and "IE_BITS_TYPE (b + 1) = IE_BITS_TYPE b" by simp_all
qed

subsection \<open>Masks\<close>

lemmas mask_rules = and.assoc bit.conj_disj_distrib2

lemma and_not_and: "(b AND NOT X) AND m = (b AND m) AND NOT (X :: u32)"
  by (simp add: ac_simps)

lemma TYPE_and_not [bits_simps]: "IE_BITS_TYPE (b AND NOT X) = IE_BITS_TYPE b AND NOT X"
  by (simp add: IE_BITS_TYPE_def ac_simps)

lemma UREFS_and_not [bits_simps]: "IE_BITS_UREFS (b AND NOT X) = IE_BITS_UREFS b AND NOT X"
  by (simp add: IE_BITS_UREFS_def ac_simps)

lemma TYPE_or [bits_simps]: "IE_BITS_TYPE (a OR b) = IE_BITS_TYPE a OR IE_BITS_TYPE b"
  by (simp add: IE_BITS_TYPE_def bit.conj_disj_distrib2)

lemma UREFS_or [bits_simps]: "IE_BITS_UREFS (a OR b) = IE_BITS_UREFS a OR IE_BITS_UREFS b"
  by (simp add: IE_BITS_UREFS_def bit.conj_disj_distrib2)

lemma UREFS_high: "X AND IE_BITS_UREFS_MASK = 0 \<Longrightarrow> IE_BITS_UREFS b AND NOT X = IE_BITS_UREFS b"
  by (rule bit_eqI) (metis IE_BITS_UREFS_def bit_0_eq bit_and_iff bit_not_iff bot_apply bot_bool_def)

text \<open>The bits of a dead name made from those of a send or send-once right.\<close>

definition dead_bits :: "u32 \<Rightarrow> bool \<Rightarrow> u32" where
  "dead_bits b req =
     (let d = ((b AND NOT IE_BITS_MAREQUEST) AND NOT IE_BITS_TYPE_MASK) OR MACH_PORT_TYPE_DEAD_NAME
      in if req then d + 1 else d)"

lemma dead_bits:
  assumes "req \<Longrightarrow> IE_BITS_UREFS b < MACH_PORT_UREFS_MAX"
  shows "IE_BITS_TYPE (dead_bits b req) = MACH_PORT_TYPE_DEAD_NAME"
    and "IE_BITS_UREFS (dead_bits b req) = (if req then IE_BITS_UREFS b + 1 else IE_BITS_UREFS b)"
    and "dead_bits b req AND IE_BITS_MAREQUEST = 0"
    and "dead_bits b req AND IE_BITS_COMPAT = b AND IE_BITS_COMPAT"
    and "dead_bits b req AND IE_BITS_COLLISION = b AND IE_BITS_COLLISION"
proof -
  define d where "d = ((b AND NOT IE_BITS_MAREQUEST) AND NOT IE_BITS_TYPE_MASK) OR MACH_PORT_TYPE_DEAD_NAME"
  have db: "dead_bits b req = (if req then d + 1 else d)" by (simp add: dead_bits_def d_def Let_def)
  have u: "IE_BITS_UREFS d = IE_BITS_UREFS b"
    by (simp add: d_def type_values IE_BITS_UREFS_def mask_values mask_rules)
  have t: "IE_BITS_TYPE d = MACH_PORT_TYPE_DEAD_NAME"
    by (simp add: d_def type_values IE_BITS_TYPE_def mask_values mask_rules)
  have f: "d AND IE_BITS_MAREQUEST = 0" "d AND IE_BITS_COMPAT = b AND IE_BITS_COMPAT"
    "d AND IE_BITS_COLLISION = b AND IE_BITS_COLLISION"
    by (simp_all add: d_def type_values mask_values mask_rules)
  note * = u t f bits_inc [of d] assms
  show "IE_BITS_TYPE (dead_bits b req) = MACH_PORT_TYPE_DEAD_NAME"
    and "IE_BITS_UREFS (dead_bits b req) = (if req then IE_BITS_UREFS b + 1 else IE_BITS_UREFS b)"
    and "dead_bits b req AND IE_BITS_MAREQUEST = 0"
    and "dead_bits b req AND IE_BITS_COMPAT = b AND IE_BITS_COMPAT"
    and "dead_bits b req AND IE_BITS_COLLISION = b AND IE_BITS_COLLISION"
    using * by (simp_all add: db)
qed

end
