(* ===== verification/Ipc_Right_Rules.thy ===== *)
theory Ipc_Right_Rules
  imports Ipc_Bits Ipc_Entry_Props Ipc_Port_Destroy
begin

text \<open>
  Rules for the operations on rights. \<open>rep its st R E H\<close> says that the state, in which the names \<open>R\<close> are reserved, represents the map \<open>E\<close> from names
  to entries, with the names \<open>H\<close> in the reverse hash table. Each primitive on the space changes \<open>E\<close> or \<open>H\<close>
  and keeps everything else (\<open>frame\<close>); \<open>returns m Q\<close> is total correctness: \<open>m\<close> has a result, and it
  satisfies \<open>Q\<close>.
\<close>

subsection \<open>Total correctness\<close>

definition returns :: "'a option \<Rightarrow> ('a \<Rightarrow> bool) \<Rightarrow> bool" where
  "returns m Q \<longleftrightarrow> (\<exists>x. m = Some x \<and> Q x)"

lemma returns_Some [simp]: "returns (Some x) Q = Q x"
  by (simp add: returns_def)

lemma returns_None [simp]: "\<not> returns None Q"
  by (simp add: returns_def)

lemma returns_bind [simp]: "returns (m \<bind> f) Q = returns m (\<lambda>x. returns (f x) Q)"
  by (cases m) (simp_all add: returns_def)

lemma returns_assert [simp]: "returns (assert_that b) Q = (b \<and> Q ())"
  by (cases b) simp_all

lemma returns_mono: "returns m P \<Longrightarrow> (\<And>x. P x \<Longrightarrow> Q x) \<Longrightarrow> returns m Q"
  by (auto simp: returns_def)

lemma returns_if: "(b \<Longrightarrow> returns x Q) \<Longrightarrow> (\<not> b \<Longrightarrow> returns y Q) \<Longrightarrow> returns (if b then x else y) Q"
  by simp

subsection \<open>Representation\<close>

text \<open>The entries in use and those of the reserved names.\<close>

definition rview :: "ipc_space \<Rightarrow> mach_port set \<Rightarrow> mach_port \<Rightarrow> ipc_entry option" where
  "rview space R n =
     (case raw_entry space n of
        None \<Rightarrow> None
      | Some e \<Rightarrow> if ie_type e \<noteq> 0 \<or> n \<in> R then Some (e\<lparr>ie_index := 0\<rparr>) else None)"

lemma rview_empty: "rview space {} = entries space"
  by (auto simp: rview_def entries_def fun_eq_iff split: option.splits)

lemma rview_entries: "n \<notin> R \<Longrightarrow> rview space R n = entries space n"
  by (auto simp: rview_def entries_def split: option.splits)

definition rep :: "nat list \<Rightarrow> right_state \<Rightarrow> mach_port set \<Rightarrow> (mach_port \<Rightarrow> ipc_entry option) \<Rightarrow> mach_port set \<Rightarrow> bool" where
  "rep its st R E H \<longleftrightarrow>
     is_active (rs_space st) \<and> \<not> is_growing (rs_space st) \<and> space_ok its (rs_space st) R \<and> 0 \<notin> R \<and>
     rview (rs_space st) R = E \<and> hash_inv (rs_space st) (rs_hash st) H"

definition frame :: "right_state \<Rightarrow> right_state \<Rightarrow> bool" where
  "frame st st' \<longleftrightarrow>
     rs_ports st' = rs_ports st \<and> is_self (rs_space st') = is_self (rs_space st) \<and>
     is_references (rs_space st') = is_references (rs_space st) \<and> ptr_of (rs_space st') = ptr_of (rs_space st) \<and>
     other_refs (rs_space st) (rs_hash st') = other_refs (rs_space st) (rs_hash st)"

lemma frameD:
  assumes "frame st st'"
  shows "rs_ports st' = rs_ports st" "is_self (rs_space st') = is_self (rs_space st)"
    "is_references (rs_space st') = is_references (rs_space st)" "ptr_of (rs_space st') = ptr_of (rs_space st)"
    "other_refs (rs_space st) (rs_hash st') = other_refs (rs_space st) (rs_hash st)"
  using assms by (simp_all add: frame_def)

lemma rep_ports [simp]: "rep its (st\<lparr>rs_ports := ps\<rparr>) R E H = rep its st R E H"
  by (simp add: rep_def)

lemma rep_active: "rep its st R E H \<Longrightarrow> is_active (rs_space st)"
  by (simp add: rep_def)

definition sends :: "(mach_port \<Rightarrow> ipc_entry option) \<Rightarrow> mach_port set" where
  "sends E = {n. \<exists>e. E n = Some e \<and> ie_type e = MACH_PORT_TYPE_SEND}"

lemma SEND_nz: "MACH_PORT_TYPE_SEND \<noteq> 0"
  by (simp add: type_values)

lemma send_names_sends: "send_names space = sends (entries space)"
  using SEND_nz by (auto simp: send_names_def sends_def)

lemma space_inv_rep: "space_inv its (rs_space st) (rs_hash st) \<longleftrightarrow>
    rep its st {} (entries (rs_space st)) (sends (entries (rs_space st)))"
  by (simp add: space_inv_def rep_def send_names_sends rview_empty)

lemma rep_space_inv: "rep its st {} E (sends E) \<Longrightarrow> space_inv its (rs_space st) (rs_hash st) \<and> entries (rs_space st) = E"
  by (auto simp: space_inv_rep rep_def rview_empty)

lemma same_index_frame:
  assumes "same_index (rs_space st) s'"
  shows "frame st (st\<lparr>rs_space := s'\<rparr>)"
  using assms by (simp add: frame_def same_index_def ptr_of_def fun_eq_iff)

lemma index_update: "e\<lparr>ie_index := i, ie_index := j\<rparr> = e\<lparr>ie_index := j\<rparr>" "e\<lparr>ie_index := ie_index e\<rparr> = (e :: ipc_entry)"
  by simp_all

lemma index_same: "ie_index e = i \<Longrightarrow> e\<lparr>ie_index := i\<rparr> = (e :: ipc_entry)"
  by (cases e) simp

lemma index_eqE:
  assumes "e\<lparr>ie_index := i\<rparr> = e'\<lparr>ie_index := j\<rparr>"
  obtains "ie_bits e = ie_bits e'" and "ie_object e = ie_object e'" and "ie_request e = ie_request e'"
  using assms by (cases e; cases e') simp

lemma rep_raw:
  assumes "rep its st R E H" and "E n = Some e"
  shows "\<exists>i. raw_entry (rs_space st) n = Some (e\<lparr>ie_index := i\<rparr>)"
proof -
  obtain e' where e': "raw_entry (rs_space st) n = Some e'" "e = e'\<lparr>ie_index := 0\<rparr>"
    using assms by (auto simp: rep_def rview_def split: option.splits if_splits)
  then have "e\<lparr>ie_index := ie_index e'\<rparr> = e'" by simp
  with e'(1) show ?thesis by metis
qed

lemma rep_entry:
  assumes "rep its st R E H" and "E n = Some e"
  shows "\<exists>i. entry_at st (ptr_of (rs_space st) n) = Some (e\<lparr>ie_index := i\<rparr>)"
  using rep_raw [OF assms] by (auto simp: entry_at_def get_entry_ptr_of)

lemma raw_zero: "space_ok its space R \<Longrightarrow> raw_entry space 0 = Some (is_table space ! 0) \<and> ie_type (is_table space ! 0) = 0"
  using space_okD(4) [of its space R] by (simp add: raw_entry_def table_zero_free)

lemma rep_nz:
  assumes "rep its st R E H" and "E n = Some e"
  shows "n \<noteq> 0"
  using assms raw_zero [of its "rs_space st" R] by (auto simp: rep_def rview_def)

lemma rep_in_use:
  assumes "rep its st R E H" and "E n = Some e"
  shows "ie_type e \<noteq> 0 \<or> n \<in> R" and "ie_bits e AND IE_BITS_COLLISION = 0" and "ie_index e = 0"
proof -
  have ok: "space_ok its (rs_space st) R" using assms by (simp add: rep_def)
  obtain e' where e': "raw_entry (rs_space st) n = Some e'" "e = e'\<lparr>ie_index := 0\<rparr>" "ie_type e' \<noteq> 0 \<or> n \<in> R"
    using assms by (auto simp: rep_def rview_def split: option.splits if_splits)
  then show "ie_type e \<noteq> 0 \<or> n \<in> R" "ie_index e = 0" by simp_all
  show "ie_bits e AND IE_BITS_COLLISION = 0"
    using e' space_okD(2) [OF ok] tree_entryD(4) [OF ok, of n e']
    by (auto simp: raw_entry_def table_ok_def split: if_splits)
qed

lemma obj_of_rep: "rep its st R E H \<Longrightarrow> E n = Some e \<Longrightarrow> obj_of (rs_space st) n = ie_object e"
  using rep_raw [of its st R E H n e] by (auto simp: obj_of_def)

subsection \<open>Rules\<close>

lemma entry_at_rule:
  assumes "rep its st R E H" and "E n = Some e" and "ptr = ptr_of (rs_space st) n"
    and "\<And>i. Q (e\<lparr>ie_index := i\<rparr>)"
  shows "returns (entry_at st ptr) Q"
  using rep_entry [OF assms(1,2)] assms(3,4) by auto

lemma rep_reserve:
  assumes rep: "rep its st R E H" and e: "E n = Some e"
  shows "rep its st (insert n R) E H"
proof (cases "n \<in> R")
  case True
  then show ?thesis using rep by (simp add: insert_absorb)
next
  case False
  have raw: "\<exists>e. raw_entry (rs_space st) n = Some e \<and> ie_type e \<noteq> 0"
    using rep_raw [OF rep e] rep_in_use(1) [OF rep e] False by auto
  have "space_ok its (rs_space st) (R \<union> {n})" by (rule space_ok_reserve) (use rep raw in \<open>auto simp: rep_def\<close>)
  moreover have "rview (rs_space st) (insert n R) = rview (rs_space st) R"
    using raw by (auto simp: rview_def fun_eq_iff split: option.splits)
  ultimately show ?thesis using rep rep_nz [OF rep e] by (simp add: rep_def)
qed

lemma rep_release:
  assumes rep: "rep its st R E H" and e: "E n = Some e" "ie_type e \<noteq> 0"
  shows "rep its st (R - {n}) E H"
proof -
  have raw: "\<exists>e. raw_entry (rs_space st) n = Some e \<and> ie_type e \<noteq> 0"
    using rep_raw [OF rep e(1)] e(2) by auto
  have "space_ok its (rs_space st) (R - {n})" by (rule space_ok_release) (use rep raw in \<open>auto simp: rep_def\<close>)
  moreover have "rview (rs_space st) (R - {n}) = rview (rs_space st) R"
    using raw by (auto simp: rview_def fun_eq_iff split: option.splits)
  ultimately show ?thesis using rep by (simp add: rep_def)
qed

text \<open>A write of a reserved entry, and of an entry in use that stays in use.\<close>

lemma upd_reserved:
  assumes rep: "rep its st R E H" and e: "E n = Some e" "n \<in> R"
    and f: "\<And>i. f (e\<lparr>ie_index := i\<rparr>) = (f e)\<lparr>ie_index := i\<rparr>" "ie_bits (f e) AND IE_BITS_COLLISION = 0"
    and obj: "n \<in> H \<Longrightarrow> ie_object (f e) = ie_object e"
  shows "\<exists>st'. upd_entry st (ptr_of (rs_space st) n) f = Some st' \<and> rep its st' R (E(n \<mapsto> f e)) H \<and> frame st st'"
proof -
  obtain i where raw: "raw_entry (rs_space st) n = Some (e\<lparr>ie_index := i\<rparr>)" using rep_raw [OF rep e(1)] by blast
  have ok: "space_ok its (rs_space st) R" and inv: "hash_inv (rs_space st) (rs_hash st) H" using rep by (simp_all add: rep_def)
  have fi: "f (e\<lparr>ie_index := i\<rparr>) = (f e)\<lparr>ie_index := i\<rparr>" by (rule f(1))
  obtain s' where s': "write_entry (rs_space st) (ptr_of (rs_space st) n) f = Some s'" "space_ok its s' R"
      "raw_entry s' = (raw_entry (rs_space st))(n \<mapsto> (f e)\<lparr>ie_index := i\<rparr>)" "same_index (rs_space st) s'"
    using entry_write_reserved [OF ok rep_nz [OF rep e(1)] raw e(2), of f] f(2) by (auto simp: fi)
  have "\<exists>e'. raw_entry s' m = Some e' \<and> ie_object e' = obj_of (rs_space st) m" if m: "m \<in> H" for m
    using hash_inv_entry(1) [OF inv m] obj m raw by (auto simp: s'(3) obj_of_def)
  then have "hash_inv s' (rs_hash st) H" by (rule hash_inv_keep [OF inv s'(4) ok s'(2)])
  moreover have f0: "(f e)\<lparr>ie_index := 0\<rparr> = f e"
    using f(1) [of 0] by (simp only: index_same [OF rep_in_use(3) [OF rep e(1)]])
  have "rview s' R = (rview (rs_space st) R)(n \<mapsto> (f e)\<lparr>ie_index := 0\<rparr>)"
    using e(2) by (simp add: rview_def s'(3) fun_eq_iff)
  then have "rview s' R = E(n \<mapsto> f e)" using rep by (simp only: f0) (simp add: rep_def)
  ultimately have "rep its (st\<lparr>rs_space := s'\<rparr>) R (E(n \<mapsto> f e)) H"
    using rep s' by (simp add: rep_def same_index_def)
  moreover have "frame st (st\<lparr>rs_space := s'\<rparr>)"
    by (rule same_index_frame [OF s'(4)])
  ultimately show ?thesis using s'(1) by (simp add: upd_entry_def)
qed

lemma upd_reserved_rule:
  assumes "rep its st R E H" and "E n = Some e" and "ptr = ptr_of (rs_space st) n" and "n \<in> R"
    and "\<And>i. f (e\<lparr>ie_index := i\<rparr>) = (f e)\<lparr>ie_index := i\<rparr>" and "ie_bits (f e) AND IE_BITS_COLLISION = 0"
    and "n \<in> H \<Longrightarrow> ie_object (f e) = ie_object e"
    and "\<And>st'. rep its st' R (E(n \<mapsto> f e)) H \<Longrightarrow> frame st st' \<Longrightarrow> Q st'"
  shows "returns (upd_entry st ptr f) Q"
  using upd_reserved [of its st R E H n e f] assms by (auto simp: returns_def)

lemma upd_entry_rule:
  assumes rep: "rep its st R E H" and e: "E n = Some e" and ptr: "ptr = ptr_of (rs_space st) n"
    and f: "\<And>i. f (e\<lparr>ie_index := i\<rparr>) = (f e)\<lparr>ie_index := i\<rparr>" "ie_bits (f e) AND IE_BITS_COLLISION = 0" "ie_type (f e) \<noteq> 0"
    and obj: "n \<in> H \<Longrightarrow> ie_object (f e) = ie_object e" and n: "n \<notin> R"
    and Q: "\<And>st'. rep its st' R (E(n \<mapsto> f e)) H \<Longrightarrow> frame st st' \<Longrightarrow> Q st'"
  shows "returns (upd_entry st ptr f) Q"
proof (rule upd_reserved_rule [OF rep_reserve [OF rep e] e ptr _ f(1,2) obj], simp)
  fix st' assume st': "rep its st' (insert n R) (E(n \<mapsto> f e)) H" "frame st st'"
  have "rep its st' (insert n R - {n}) (E(n \<mapsto> f e)) H" by (rule rep_release [OF st'(1)]) (use f(3) in auto)
  then show "Q st'" using Q [OF _ st'(2)] n by simp
qed

lemma rep_same_space:
  assumes rep: "rep its st R E H" and same: "same_space (rs_space st) s'" and inv: "hash_inv s' g' H'"
  shows "rep its (st\<lparr>rs_space := s', rs_hash := g'\<rparr>) R E H'"
proof -
  note eqs = same_space_eqs [OF same]
  have "rview s' R = rview (rs_space st) R"
  proof
    fix n
    show "rview s' R n = rview (rs_space st) R n"
      using same_space_ok(4) [OF same, of n]
      by (cases "raw_entry s' n"; cases "raw_entry (rs_space st) n")
        (auto simp: rview_def elim!: index_eqE)
  qed
  then show ?thesis using rep eqs inv same_space_ok(1) [OF same, of its R] by (simp add: rep_def)
qed

lemma same_space_frame:
  assumes "same_space (rs_space st) s'" and "other_refs (rs_space st) g' = other_refs (rs_space st) (rs_hash st)"
  shows "frame st (st\<lparr>rs_space := s', rs_hash := g'\<rparr>)"
  using assms same_space_eqs [OF assms(1)] same_space_ok(3) [OF assms(1)] by (simp add: frame_def)

lemma hash_delete_rule:
  assumes rep: "rep its st R E H" and e: "E n = Some e" and ptr: "ptr = ptr_of (rs_space st) n"
    and n: "n \<in> H" "p = ie_object e"
    and Q: "\<And>st'. rep its st' R E (H - {n}) \<Longrightarrow> frame st st' \<Longrightarrow> Q st'"
  shows "returns (right_hash_delete st p n ptr) Q"
proof -
  obtain i where raw: "raw_entry (rs_space st) n = Some (e\<lparr>ie_index := i\<rparr>)" using rep_raw [OF rep e] by blast
  obtain s' g' where d: "ipc_hash_delete (rs_space st) (rs_hash st) p n ptr = Some (s', g')"
      "same_space (rs_space st) s'" "hash_inv s' g' (H - {n})"
      "other_refs (rs_space st) g' = other_refs (rs_space st) (rs_hash st)"
    using hash_delete_ok [of its "rs_space st" R "rs_hash st" H n "e\<lparr>ie_index := i\<rparr>"] rep raw n ptr by (auto simp: rep_def)
  show ?thesis
    using d(1) Q [OF rep_same_space [OF rep d(2,3)] same_space_frame [OF d(2,4)]]
    by (simp add: right_hash_delete_def)
qed

lemma hash_insert_rule:
  assumes rep: "rep its st R E H" and e: "E n = Some e" and ptr: "ptr = ptr_of (rs_space st) n"
    and n: "n \<notin> H" "p = ie_object e" "p \<noteq> IO_NULL"
    and new: "\<And>m e'. m \<in> H \<Longrightarrow> E m = Some e' \<Longrightarrow> ie_object e' \<noteq> p" and dom: "H \<subseteq> dom E"
    and Q: "\<And>st'. rep its st' R E (insert n H) \<Longrightarrow> frame st st' \<Longrightarrow> Q st'"
  shows "returns (right_hash_insert st p n ptr) Q"
proof -
  obtain i where raw: "raw_entry (rs_space st) n = Some (e\<lparr>ie_index := i\<rparr>)" using rep_raw [OF rep e] by blast
  have "obj_of (rs_space st) m \<noteq> p" if m: "m \<in> H" for m
    using new [OF m] obj_of_rep [OF rep, of m] dom m by auto
  then obtain s' g' where d: "ipc_hash_insert (rs_space st) (rs_hash st) p n ptr = Some (s', g')"
      "same_space (rs_space st) s'" "hash_inv s' g' (insert n H)"
      "other_refs (rs_space st) g' = other_refs (rs_space st) (rs_hash st)"
    using hash_insert_ok [of its "rs_space st" R "rs_hash st" H n "e\<lparr>ie_index := i\<rparr>"] rep raw n ptr rep_nz [OF rep e]
    by (auto simp: rep_def)
  show ?thesis
    using d(1) Q [OF rep_same_space [OF rep d(2,3)] same_space_frame [OF d(2,4)]]
    by (simp add: right_hash_insert_def)
qed

lemma free_entry_rule:
  assumes rep: "rep its st R E H" and e: "E n = Some e" and ptr: "ptr = ptr_of (rs_space st) n"
    and clear: "ie_object e = IO_NULL" "ie_request e = 0" and dom: "H \<subseteq> dom E" and R: "R \<subseteq> {n}"
    and Q: "\<And>st'. rep its st' {} (E(n := None)) H \<Longrightarrow> frame st st' \<Longrightarrow> Q st'"
  shows "returns (free_entry its st n ptr) Q"
proof -
  obtain i where raw: "raw_entry (rs_space st) n = Some (e\<lparr>ie_index := i\<rparr>)" using rep_raw [OF rep e] by blast
  have ok: "space_ok its (rs_space st) R" and inv: "hash_inv (rs_space st) (rs_hash st) H"
    and act: "is_active (rs_space st)" using rep by (simp_all add: rep_def)
  have nH: "n \<notin> H" using hash_inv_entry(2) [OF inv, of n] obj_of_rep [OF rep e] clear(1) by auto
  obtain s' where d: "ipc_entry_dealloc its (rs_space st) (rs_hash st) n ptr = Some (s', rs_hash st)"
      "space_ok its s' {}" "same_index (rs_space st) s'" and ent: "entries s' = (entries (rs_space st))(n := None)"
    using entry_dealloc_ok [OF ok act _ raw, of "rs_hash st"] rep_nz [OF rep e] clear ptr R rep_in_use [OF rep e]
    by (auto simp: subset_singleton_iff)
  have "E m = entries (rs_space st) m" if "m \<noteq> n" for m
    using rview_entries [of m R "rs_space st"] rep R that by (auto simp: rep_def)
  then have raw': "rview s' {} = E(n := None)" by (simp add: rview_empty ent fun_eq_iff)
  have "\<exists>e'. raw_entry s' m = Some e' \<and> ie_object e' = obj_of (rs_space st) m" if m: "m \<in> H" for m
  proof -
    obtain e' where e': "E m = Some e'" using dom m by auto
    have "m \<noteq> n" using m nH by auto
    then have "rview s' {} m = Some e'" using raw' e' rep by (simp add: rep_def)
    then show ?thesis using obj_of_rep [OF rep e'] by (auto simp: rview_def split: option.splits if_splits)
  qed
  then have "hash_inv s' (rs_hash st) H" by (rule hash_inv_keep [OF inv d(3) ok d(2)])
  then have "rep its (st\<lparr>rs_space := s', rs_hash := rs_hash st\<rparr>) {} (E(n := None)) H"
    using rep d raw' by (simp add: rep_def same_index_def)
  then show ?thesis using d(1) Q same_index_frame [OF d(3)] by (simp add: free_entry_def)
qed

lemma same_tree_hash:
  assumes same: "same_tree space s'" and ok: "space_ok its space R" and inv: "hash_inv space g H"
  shows "hash_inv s' g H"
  by (rule hash_inv_keep [OF inv same_tree_index [OF same] ok same_tree_ok(1) [OF same ok]])
    (use hash_inv_entry(1) [OF inv] in \<open>force simp: same_tree_ok(2) [OF same] obj_of_def\<close>)

lemma lookup_rule:
  assumes rep: "rep its st R E H" and n: "n \<notin> R"
    and Q: "\<And>st'. rep its st' R E H \<Longrightarrow> frame st st' \<Longrightarrow>
      Q (if E n = None then Inl KERN_INVALID_NAME else Inr (ptr_of (rs_space st) n), st')"
  shows "returns (ipc_right_lookup_write st n) Q"
proof -
  have ok: "space_ok its (rs_space st) R" and act: "is_active (rs_space st)" using rep by (simp_all add: rep_def)
  obtain s' where s': "ipc_entry_lookup (rs_space st) n =
      Some (if entries (rs_space st) n = None then None else Some (ptr_of (rs_space st) n), s')" "same_tree (rs_space st) s'"
    using entry_lookup_ok [OF ok act n] by blast
  have E: "entries (rs_space st) n = E n"
    using rep rview_entries [OF n] by (auto simp: rep_def)
  have "rep its (st\<lparr>rs_space := s', rs_hash := rs_hash st\<rparr>) R E H"
    by (rule rep_same_space [OF rep same_tree_space [OF s'(2)] same_tree_hash [OF s'(2) ok]])
      (use rep in \<open>simp add: rep_def\<close>)
  moreover have "frame st (st\<lparr>rs_space := s'\<rparr>)" by (rule same_index_frame [OF same_tree_index [OF s'(2)]])
  ultimately show ?thesis using act s'(1) E Q by (auto simp: ipc_right_lookup_write_def Let_def)
qed

end
