(* ===== verification/Ipc_Right_Copy.thy ===== *)
theory Ipc_Right_Copy
  imports Ipc_Right
begin

text \<open>
  Moving rights out of a space and into it, and renaming (the second half of
  \<^verbatim>\<open>kernel/ipc/ipc_right.c\<close>). A copyin that takes the last right of a name leaves its entry with type none;
  the caller deallocates it.
\<close>

subsection \<open>Copying rights in\<close>

datatype msgt_name =
    MACH_MSG_TYPE_MOVE_RECEIVE
  | MACH_MSG_TYPE_MOVE_SEND
  | MACH_MSG_TYPE_MOVE_SEND_ONCE
  | MACH_MSG_TYPE_COPY_SEND
  | MACH_MSG_TYPE_MAKE_SEND
  | MACH_MSG_TYPE_MAKE_SEND_ONCE
  | MSG_TYPE_PORT
  | MSG_TYPE_PORT_ALL

abbreviation MACH_MSG_TYPE_PORT_RECEIVE :: msgt_name where
  "MACH_MSG_TYPE_PORT_RECEIVE \<equiv> MACH_MSG_TYPE_MOVE_RECEIVE"
abbreviation MACH_MSG_TYPE_PORT_SEND :: msgt_name where
  "MACH_MSG_TYPE_PORT_SEND \<equiv> MACH_MSG_TYPE_MOVE_SEND"
abbreviation MACH_MSG_TYPE_PORT_SEND_ONCE :: msgt_name where
  "MACH_MSG_TYPE_PORT_SEND_ONCE \<equiv> MACH_MSG_TYPE_MOVE_SEND_ONCE"

definition ipc_right_copyin_check ::
    "right_state \<Rightarrow> entry_ptr \<Rightarrow> msgt_name \<Rightarrow> (bool \<times> right_state) option" where
  "ipc_right_copyin_check st ptr msgt =
     do { entry \<leftarrow> entry_at st ptr;
          let bits = ie_bits entry;
          assert_that (is_active (rs_space st));
          if msgt \<in> {MACH_MSG_TYPE_MAKE_SEND, MACH_MSG_TYPE_MAKE_SEND_ONCE, MACH_MSG_TYPE_MOVE_RECEIVE}
          then Some (has bits MACH_PORT_TYPE_RECEIVE, st)
          else if msgt \<notin> {MACH_MSG_TYPE_COPY_SEND, MACH_MSG_TYPE_MOVE_SEND, MACH_MSG_TYPE_MOVE_SEND_ONCE} then None
          else if has bits MACH_PORT_TYPE_DEAD_NAME then Some (True, st)
          else if \<not> has bits MACH_PORT_TYPE_SEND_RIGHTS then Some (False, st)
          else
            do { let p = ie_object entry;
                 assert_that (p \<noteq> IP_NULL);
                 st \<leftarrow> lock_port st p;
                 port \<leftarrow> port_at st p;
                 st \<leftarrow> unlock_port st p;
                 Some (if \<not> ip_active port then \<not> has bits IE_BITS_COMPAT
                       else if msgt = MACH_MSG_TYPE_MOVE_SEND_ONCE then has bits MACH_PORT_TYPE_SEND_ONCE
                       else has bits MACH_PORT_TYPE_SEND, st) } }"

text \<open>
  A copyin yields an error, or an object and a send-once right for a port-deleted notification. The
  labels \<^verbatim>\<open>copy_dead\<close> and \<^verbatim>\<open>move_dead\<close>:
\<close>

type_synonym copyin_result = "(kern_return + ptr \<times> ptr) \<times> right_state"

definition copyin_dead :: "bool \<Rightarrow> bool \<Rightarrow> right_state \<Rightarrow> entry_ptr \<Rightarrow> copyin_result option" where
  "copyin_dead move deadok st ptr =
     do { entry \<leftarrow> entry_at st ptr;
          let bits = ie_bits entry;
          assert_that (IE_BITS_TYPE bits = MACH_PORT_TYPE_DEAD_NAME);
          assert_that (0 < IE_BITS_UREFS bits);
          assert_that (\<not> has bits IE_BITS_MAREQUEST);
          assert_that (ie_request entry = 0);
          assert_that (ie_object entry = IO_NULL);
          if \<not> deadok then Some (Inl KERN_INVALID_RIGHT, st)
          else
            do { st \<leftarrow> (if \<not> move then Some st
                        else if IE_BITS_UREFS bits = 1
                        then upd_entry st ptr (\<lambda>e. e\<lparr>ie_bits := bits AND NOT MACH_PORT_TYPE_DEAD_NAME\<rparr>)
                        else upd_entry st ptr (\<lambda>e. e\<lparr>ie_bits := bits - 1\<rparr>));
                 Some (Inr (IO_DEAD, IP_NULL), st) } }"

text \<open>The cases that make a right from a receive right; \<open>f\<close> is what they do to the port.\<close>

definition copyin_make ::
    "right_state \<Rightarrow> mach_port \<Rightarrow> ipc_entry \<Rightarrow> (ipc_port \<Rightarrow> ipc_port) \<Rightarrow> copyin_result option" where
  "copyin_make st name entry f =
     (if \<not> has (ie_bits entry) MACH_PORT_TYPE_RECEIVE then Some (Inl KERN_INVALID_RIGHT, st)
      else
        do { let p = ie_object entry;
             assert_that (p \<noteq> IP_NULL);
             st \<leftarrow> lock_port st p;
             port \<leftarrow> port_at st p;
             assert_that (ip_active port);
             assert_that (ip_receiver_name port = name);
             assert_that (ip_data port = rs_self st);
             st \<leftarrow> on_port st p f;
             st \<leftarrow> on_ports st (\<lambda>ps. ip_reference ps p);
             st \<leftarrow> unlock_port st p;
             Some (Inr (p, IP_NULL), st) })"

definition copyin_receive ::
    "right_world \<Rightarrow> right_state \<Rightarrow> mach_port \<Rightarrow> entry_ptr \<Rightarrow> ipc_entry \<Rightarrow> copyin_result option" where
  "copyin_receive w st name ptr entry =
     (let bits = ie_bits entry in
      if \<not> has bits MACH_PORT_TYPE_RECEIVE then Some (Inl KERN_INVALID_RIGHT, st)
      else
        do { let p = ie_object entry;
             assert_that (p \<noteq> IP_NULL);
             st \<leftarrow> lock_port st p;
             port \<leftarrow> port_at st p;
             assert_that (ip_active port);
             assert_that (ip_receiver_name port = name);
             assert_that (ip_data port = rs_self st);
             (dnrequest, st) \<leftarrow>
               (if has bits MACH_PORT_TYPE_SEND then
                  do { assert_that (IE_BITS_TYPE bits = MACH_PORT_TYPE_SEND_RECEIVE);
                       assert_that (0 < IE_BITS_UREFS bits);
                       assert_that (0 < ip_srights port);
                       st \<leftarrow> right_hash_insert st p name ptr;
                       st \<leftarrow> on_ports st (\<lambda>ps. ip_reference ps p);
                       Some (IP_NULL, st) }
                else
                  do { assert_that (IE_BITS_TYPE bits = MACH_PORT_TYPE_RECEIVE);
                       assert_that (IE_BITS_UREFS bits = 0);
                       (dnrequest, st) \<leftarrow> ipc_right_dncancel_macro st p name ptr;
                       let st = (if has bits IE_BITS_MAREQUEST
                                 then send_events [Marequest_cancel (rs_self st) name] st else st);
                       st \<leftarrow> upd_entry st ptr (\<lambda>e. e\<lparr>ie_object := IO_NULL\<rparr>);
                       Some (dnrequest, st) });
             st \<leftarrow> upd_entry st ptr (\<lambda>e. e\<lparr>ie_bits := bits AND NOT MACH_PORT_TYPE_RECEIVE\<rparr>);
             st \<leftarrow> ipc_port_clear_receiver (rw_moved w) st p;
             st \<leftarrow> on_port st p (\<lambda>port. port\<lparr>ip_receiver_name := MACH_PORT_NULL, ip_data := IP_NULL\<rparr>);
             st \<leftarrow> unlock_port st p;
             Some (Inr (p, dnrequest), st) })"

text \<open>
  The first part of the cases for send and send-once rights. \<open>move\<close> tells which label is the target
  for dead names, \<open>k\<close> is the rest of the case, for a port that is locked and active.
\<close>

definition copyin_live ::
    "nat list \<Rightarrow> bool \<Rightarrow> bool \<Rightarrow> right_state \<Rightarrow> mach_port \<Rightarrow> entry_ptr \<Rightarrow> ipc_entry \<Rightarrow>
     (right_state \<Rightarrow> copyin_result option) \<Rightarrow> copyin_result option" where
  "copyin_live its move deadok st name ptr entry k =
     (let bits = ie_bits entry; p = ie_object entry in
      if has bits MACH_PORT_TYPE_DEAD_NAME then copyin_dead move deadok st ptr
      else if \<not> has bits MACH_PORT_TYPE_SEND_RIGHTS then Some (Inl KERN_INVALID_RIGHT, st)
      else
        do { assert_that (0 < IE_BITS_UREFS bits);
             assert_that (p \<noteq> IP_NULL);
             (dead, st) \<leftarrow> ipc_right_check its st p name ptr;
             if dead then
               (if has bits IE_BITS_COMPAT then Some (Inl KERN_INVALID_NAME, st)
                else copyin_dead move deadok st ptr)
             else k st })"

text \<open>A send-once right where a send right is wanted.\<close>

definition not_send :: "right_state \<Rightarrow> ptr \<Rightarrow> u32 \<Rightarrow> copyin_result option" where
  "not_send st p bits =
     do { assert_that (IE_BITS_TYPE bits = MACH_PORT_TYPE_SEND_ONCE);
          port \<leftarrow> port_at st p;
          assert_that (0 < ip_sorights port);
          st \<leftarrow> unlock_port st p;
          Some (Inl KERN_INVALID_RIGHT, st) }"

definition copyin_copy :: "right_state \<Rightarrow> ipc_entry \<Rightarrow> copyin_result option" where
  "copyin_copy st entry =
     (let bits = ie_bits entry; p = ie_object entry in
      if \<not> has bits MACH_PORT_TYPE_SEND then not_send st p bits
      else
        do { port \<leftarrow> port_at st p;
             assert_that (0 < ip_srights port);
             st \<leftarrow> on_port st p (\<lambda>port. port\<lparr>ip_srights := ip_srights port + 1\<rparr>);
             st \<leftarrow> on_ports st (\<lambda>ps. ip_reference ps p);
             st \<leftarrow> unlock_port st p;
             Some (Inr (p, IP_NULL), st) })"

definition copyin_move :: "right_state \<Rightarrow> mach_port \<Rightarrow> entry_ptr \<Rightarrow> ipc_entry \<Rightarrow> copyin_result option" where
  "copyin_move st name ptr entry =
     (let bits = ie_bits entry; p = ie_object entry in
      if \<not> has bits MACH_PORT_TYPE_SEND then not_send st p bits
      else
        do { port \<leftarrow> port_at st p;
             assert_that (0 < ip_srights port);
             (dnrequest, st) \<leftarrow>
               (if IE_BITS_UREFS bits = 1 then
                  do { (dnrequest, st) \<leftarrow>
                         (if has bits MACH_PORT_TYPE_RECEIVE then
                            do { assert_that (ip_receiver_name port = name);
                                 assert_that (ip_data port = rs_self st);
                                 assert_that (IE_BITS_TYPE bits = MACH_PORT_TYPE_SEND_RECEIVE);
                                 st \<leftarrow> on_ports st (\<lambda>ps. ip_reference ps p);
                                 Some (IP_NULL, st) }
                          else
                            do { assert_that (IE_BITS_TYPE bits = MACH_PORT_TYPE_SEND);
                                 (dnrequest, st) \<leftarrow> ipc_right_dncancel_macro st p name ptr;
                                 st \<leftarrow> right_hash_delete st p name ptr;
                                 let st = (if has bits IE_BITS_MAREQUEST
                                           then send_events [Marequest_cancel (rs_self st) name] st else st);
                                 st \<leftarrow> upd_entry st ptr (\<lambda>e. e\<lparr>ie_object := IO_NULL\<rparr>);
                                 Some (dnrequest, st) });
                       st \<leftarrow> upd_entry st ptr
                              (\<lambda>e. e\<lparr>ie_bits := bits AND NOT (IE_BITS_UREFS_MASK OR MACH_PORT_TYPE_SEND)\<rparr>);
                       Some (dnrequest, st) }
                else
                  do { st \<leftarrow> on_port st p (\<lambda>port. port\<lparr>ip_srights := ip_srights port + 1\<rparr>);
                       st \<leftarrow> on_ports st (\<lambda>ps. ip_reference ps p);
                       st \<leftarrow> upd_entry st ptr (\<lambda>e. e\<lparr>ie_bits := bits - 1\<rparr>);
                       Some (IP_NULL, st) });
             st \<leftarrow> unlock_port st p;
             Some (Inr (p, dnrequest), st) })"

definition copyin_move_once :: "right_state \<Rightarrow> mach_port \<Rightarrow> entry_ptr \<Rightarrow> ipc_entry \<Rightarrow> copyin_result option" where
  "copyin_move_once st name ptr entry =
     (let bits = ie_bits entry; p = ie_object entry in
      do { port \<leftarrow> port_at st p;
           if \<not> has bits MACH_PORT_TYPE_SEND_ONCE then
             do { assert_that (has bits MACH_PORT_TYPE_SEND);
                  assert_that (0 < ip_srights port);
                  st \<leftarrow> unlock_port st p;
                  Some (Inl KERN_INVALID_RIGHT, st) }
           else
             do { assert_that (IE_BITS_TYPE bits = MACH_PORT_TYPE_SEND_ONCE);
                  assert_that (IE_BITS_UREFS bits = 1);
                  assert_that (\<not> has bits IE_BITS_MAREQUEST);
                  assert_that (0 < ip_sorights port);
                  (dnrequest, st) \<leftarrow> ipc_right_dncancel_macro st p name ptr;
                  st \<leftarrow> unlock_port st p;
                  st \<leftarrow> upd_entry st ptr (\<lambda>e. e\<lparr>ie_object := IO_NULL, ie_bits := bits AND NOT MACH_PORT_TYPE_SEND_ONCE\<rparr>);
                  Some (Inr (p, dnrequest), st) } })"

definition ipc_right_copyin ::
    "right_world \<Rightarrow> right_state \<Rightarrow> mach_port \<Rightarrow> entry_ptr \<Rightarrow> msgt_name \<Rightarrow> bool \<Rightarrow> copyin_result option" where
  "ipc_right_copyin w st name ptr msgt deadok =
     do { entry \<leftarrow> entry_at st ptr;
          assert_that (is_active (rs_space st));
          case msgt of
            MACH_MSG_TYPE_MAKE_SEND \<Rightarrow>
              copyin_make st name entry (\<lambda>port. port\<lparr>ip_mscount := ip_mscount port + 1, ip_srights := ip_srights port + 1\<rparr>)
          | MACH_MSG_TYPE_MAKE_SEND_ONCE \<Rightarrow>
              copyin_make st name entry (\<lambda>port. port\<lparr>ip_sorights := ip_sorights port + 1\<rparr>)
          | MACH_MSG_TYPE_MOVE_RECEIVE \<Rightarrow> copyin_receive w st name ptr entry
          | MACH_MSG_TYPE_COPY_SEND \<Rightarrow>
              copyin_live (rw_its w) False deadok st name ptr entry (\<lambda>st. copyin_copy st entry)
          | MACH_MSG_TYPE_MOVE_SEND \<Rightarrow>
              copyin_live (rw_its w) True deadok st name ptr entry (\<lambda>st. copyin_move st name ptr entry)
          | MACH_MSG_TYPE_MOVE_SEND_ONCE \<Rightarrow>
              copyin_live (rw_its w) True deadok st name ptr entry (\<lambda>st. copyin_move_once st name ptr entry)
          | _ \<Rightarrow> None }"

definition ipc_right_copyin_undo ::
    "nat list \<Rightarrow> right_state \<Rightarrow> mach_port \<Rightarrow> entry_ptr \<Rightarrow> msgt_name \<Rightarrow> ptr \<Rightarrow> ptr \<Rightarrow> right_state option" where
  "ipc_right_copyin_undo its st name ptr msgt obj soright =
     do { entry \<leftarrow> entry_at st ptr;
          let bits = ie_bits entry;
          assert_that (is_active (rs_space st));
          assert_that (msgt \<in> {MACH_MSG_TYPE_MOVE_SEND, MACH_MSG_TYPE_COPY_SEND, MACH_MSG_TYPE_MOVE_SEND_ONCE});
          st \<leftarrow>
            (if soright \<noteq> IP_NULL then
               do { assert_that (msgt \<in> {MACH_MSG_TYPE_MOVE_SEND, MACH_MSG_TYPE_MOVE_SEND_ONCE});
                    assert_that (IE_BITS_TYPE bits = MACH_PORT_TYPE_NONE);
                    assert_that (ie_object entry = IO_NULL);
                    assert_that (obj \<noteq> IO_DEAD);
                    upd_entry st ptr
                      (\<lambda>e. e\<lparr>ie_bits := (bits AND NOT IE_BITS_RIGHT_MASK) OR MACH_PORT_TYPE_DEAD_NAME OR 2\<rparr>) }
             else if IE_BITS_TYPE bits = MACH_PORT_TYPE_NONE then
               do { assert_that (msgt \<in> {MACH_MSG_TYPE_MOVE_SEND, MACH_MSG_TYPE_MOVE_SEND_ONCE});
                    assert_that (ie_object entry = IO_NULL);
                    upd_entry st ptr
                      (\<lambda>e. e\<lparr>ie_bits := (bits AND NOT IE_BITS_RIGHT_MASK) OR MACH_PORT_TYPE_DEAD_NAME OR 1\<rparr>) }
             else if IE_BITS_TYPE bits = MACH_PORT_TYPE_DEAD_NAME then
               do { assert_that (ie_object entry = IO_NULL);
                    assert_that (obj = IO_DEAD);
                    assert_that (0 < IE_BITS_UREFS bits);
                    if msgt \<noteq> MACH_MSG_TYPE_COPY_SEND then
                      do { assert_that (IE_BITS_UREFS bits < MACH_PORT_UREFS_MAX);
                           upd_entry st ptr (\<lambda>e. e\<lparr>ie_bits := bits + 1\<rparr>) }
                    else Some st }
             else
               do { assert_that (msgt \<in> {MACH_MSG_TYPE_MOVE_SEND, MACH_MSG_TYPE_COPY_SEND});
                    assert_that (IE_BITS_TYPE bits = MACH_PORT_TYPE_SEND);
                    assert_that (obj \<noteq> IO_DEAD);
                    assert_that (ie_object entry = obj);
                    assert_that (0 < IE_BITS_UREFS bits);
                    st \<leftarrow>
                      (if msgt \<noteq> MACH_MSG_TYPE_COPY_SEND then
                         do { assert_that (IE_BITS_UREFS bits < MACH_PORT_UREFS_MAX - 1);
                              upd_entry st ptr (\<lambda>e. e\<lparr>ie_bits := bits + 1\<rparr>) }
                       else Some st);
                    (_, st) \<leftarrow> ipc_right_check its st obj name ptr;
                    Some st });
          if obj \<noteq> IO_DEAD then on_ports st (\<lambda>ps. ipc_port_release ps obj) else Some st }"

text \<open>Two send rights at once, for a message whose destination and reply port are the same.\<close>

definition copyin_two_last ::
    "right_state \<Rightarrow> mach_port \<Rightarrow> entry_ptr \<Rightarrow> ipc_entry \<Rightarrow> (ptr \<times> right_state) option" where
  "copyin_two_last st name ptr entry =
     (let bits = ie_bits entry; p = ie_object entry in
      do { port \<leftarrow> port_at st p;
           (dnrequest, st) \<leftarrow>
             (if has bits MACH_PORT_TYPE_RECEIVE then
                do { assert_that (ip_receiver_name port = name);
                     assert_that (ip_data port = rs_self st);
                     assert_that (IE_BITS_TYPE bits = MACH_PORT_TYPE_SEND_RECEIVE);
                     st \<leftarrow> on_port st p (\<lambda>port. port\<lparr>ip_srights := ip_srights port + 1\<rparr>);
                     st \<leftarrow> on_ports st (\<lambda>ps. ip_reference ps p);
                     st \<leftarrow> on_ports st (\<lambda>ps. ip_reference ps p);
                     Some (IP_NULL, st) }
              else
                do { assert_that (IE_BITS_TYPE bits = MACH_PORT_TYPE_SEND);
                     (dnrequest, st) \<leftarrow> ipc_right_dncancel_macro st p name ptr;
                     st \<leftarrow> right_hash_delete st p name ptr;
                     let st = (if has bits IE_BITS_MAREQUEST
                               then send_events [Marequest_cancel (rs_self st) name] st else st);
                     st \<leftarrow> on_port st p (\<lambda>port. port\<lparr>ip_srights := ip_srights port + 1\<rparr>);
                     st \<leftarrow> on_ports st (\<lambda>ps. ip_reference ps p);
                     st \<leftarrow> upd_entry st ptr (\<lambda>e. e\<lparr>ie_object := IO_NULL\<rparr>);
                     Some (dnrequest, st) });
           st \<leftarrow> upd_entry st ptr
                  (\<lambda>e. e\<lparr>ie_bits := bits AND NOT (IE_BITS_UREFS_MASK OR MACH_PORT_TYPE_SEND)\<rparr>);
           Some (dnrequest, st) })"

definition ipc_right_copyin_two ::
    "nat list \<Rightarrow> right_state \<Rightarrow> mach_port \<Rightarrow> entry_ptr \<Rightarrow> copyin_result option" where
  "ipc_right_copyin_two its st name ptr =
     do { entry \<leftarrow> entry_at st ptr;
          let bits = ie_bits entry;
          let p = ie_object entry;
          assert_that (is_active (rs_space st));
          if \<not> has bits MACH_PORT_TYPE_SEND \<or> IE_BITS_UREFS bits < 2 then Some (Inl KERN_INVALID_RIGHT, st)
          else
            do { assert_that (p \<noteq> IP_NULL);
                 (dead, st) \<leftarrow> ipc_right_check its st p name ptr;
                 if dead then
                   Some (Inl (if has bits IE_BITS_COMPAT then KERN_INVALID_NAME else KERN_INVALID_RIGHT), st)
                 else
                   do { port \<leftarrow> port_at st p;
                        assert_that (0 < ip_srights port);
                        (dnrequest, st) \<leftarrow>
                          (if IE_BITS_UREFS bits = 2 then copyin_two_last st name ptr entry
                           else
                             do { st \<leftarrow> on_port st p (\<lambda>port. port\<lparr>ip_srights := ip_srights port + 2\<rparr>);
                                  st \<leftarrow> on_ports st (\<lambda>ps. ip_reference ps p);
                                  st \<leftarrow> on_ports st (\<lambda>ps. ip_reference ps p);
                                  st \<leftarrow> upd_entry st ptr (\<lambda>e. e\<lparr>ie_bits := bits - 2\<rparr>);
                                  Some (IP_NULL, st) });
                        st \<leftarrow> unlock_port st p;
                        Some (Inr (p, dnrequest), st) } } }"

subsection \<open>Copying rights out\<close>

definition copyout_send ::
    "right_state \<Rightarrow> mach_port \<Rightarrow> entry_ptr \<Rightarrow> u32 \<Rightarrow> bool \<Rightarrow> ptr \<Rightarrow> ipc_port \<Rightarrow> (kern_return \<times> right_state) option" where
  "copyout_send st name ptr bits ovf p port =
     do { assert_that (0 < ip_srights port);
          if has bits MACH_PORT_TYPE_SEND then
            do { let urefs = IE_BITS_UREFS bits;
                 assert_that (1 < ip_srights port);
                 assert_that (0 < urefs);
                 assert_that (urefs < MACH_PORT_UREFS_MAX);
                 if urefs + 1 = MACH_PORT_UREFS_MAX \<and> \<not> ovf
                 then do { st \<leftarrow> unlock_port st p; Some (KERN_UREFS_OVERFLOW, st) }
                 else
                   do { st \<leftarrow> on_port st p (\<lambda>port. port\<lparr>ip_srights := ip_srights port - 1\<rparr>);
                        st \<leftarrow> on_ports st (\<lambda>ps. ip_release ps p);
                        st \<leftarrow> unlock_port st p;
                        st \<leftarrow> (if urefs + 1 = MACH_PORT_UREFS_MAX then Some st
                               else upd_entry st ptr (\<lambda>e. e\<lparr>ie_bits := (bits OR MACH_PORT_TYPE_SEND) + 1\<rparr>));
                        Some (KERN_SUCCESS, st) } }
          else
            do { assert_that (IE_BITS_UREFS bits = 0);
                 st \<leftarrow>
                   (if has bits MACH_PORT_TYPE_RECEIVE then
                      do { assert_that (IE_BITS_TYPE bits = MACH_PORT_TYPE_RECEIVE);
                           st \<leftarrow> on_ports st (\<lambda>ps. ip_release ps p);
                           unlock_port st p }
                    else
                      do { assert_that (IE_BITS_TYPE bits = MACH_PORT_TYPE_NONE);
                           st \<leftarrow> unlock_port st p;
                           right_hash_insert st p name ptr });
                 st \<leftarrow> upd_entry st ptr (\<lambda>e. e\<lparr>ie_bits := (bits OR MACH_PORT_TYPE_SEND) + 1\<rparr>);
                 Some (KERN_SUCCESS, st) } }"

definition copyout_receive ::
    "right_state \<Rightarrow> mach_port \<Rightarrow> entry_ptr \<Rightarrow> u32 \<Rightarrow> ptr \<Rightarrow> ipc_port \<Rightarrow> (kern_return \<times> right_state) option" where
  "copyout_receive st name ptr bits p port =
     do { assert_that (ip_mscount port = 0);
          assert_that (ip_receiver_name port = MACH_PORT_NULL);
          let dest = ip_destination port;
          st \<leftarrow> on_port st p (\<lambda>port. port\<lparr>ip_receiver_name := name, ip_data := rs_self st\<rparr>);
          assert_that (\<not> has bits MACH_PORT_TYPE_RECEIVE);
          st \<leftarrow>
            (if has bits MACH_PORT_TYPE_SEND then
               do { assert_that (IE_BITS_TYPE bits = MACH_PORT_TYPE_SEND);
                    assert_that (0 < IE_BITS_UREFS bits);
                    assert_that (0 < ip_srights port);
                    st \<leftarrow> on_ports st (\<lambda>ps. ip_release ps p);
                    st \<leftarrow> unlock_port st p;
                    right_hash_delete st p name ptr }
             else
               do { assert_that (IE_BITS_TYPE bits = MACH_PORT_TYPE_NONE);
                    assert_that (IE_BITS_UREFS bits = 0);
                    unlock_port st p });
          st \<leftarrow> upd_entry st ptr (\<lambda>e. e\<lparr>ie_bits := bits OR MACH_PORT_TYPE_RECEIVE\<rparr>);
          st \<leftarrow> (if dest \<noteq> IP_NULL then on_ports st (\<lambda>ps. ipc_port_release ps dest) else Some st);
          Some (KERN_SUCCESS, st) }"

definition ipc_right_copyout ::
    "right_state \<Rightarrow> mach_port \<Rightarrow> entry_ptr \<Rightarrow> msgt_name \<Rightarrow> bool \<Rightarrow> ptr \<Rightarrow> (kern_return \<times> right_state) option" where
  "ipc_right_copyout st name ptr msgt ovf p =
     do { entry \<leftarrow> entry_at st ptr;
          let bits = ie_bits entry;
          assert_that (IO_VALID p);
          port \<leftarrow> port_at st p;
          assert_that (ip_active port);
          assert_that (ie_object entry = p);
          case msgt of
            MACH_MSG_TYPE_MOVE_SEND_ONCE \<Rightarrow>
              do { assert_that (IE_BITS_TYPE bits = MACH_PORT_TYPE_NONE);
                   assert_that (0 < ip_sorights port);
                   st \<leftarrow> unlock_port st p;
                   st \<leftarrow> upd_entry st ptr (\<lambda>e. e\<lparr>ie_bits := bits OR (MACH_PORT_TYPE_SEND_ONCE OR 1)\<rparr>);
                   Some (KERN_SUCCESS, st) }
          | MACH_MSG_TYPE_MOVE_SEND \<Rightarrow> copyout_send st name ptr bits ovf p port
          | MACH_MSG_TYPE_MOVE_RECEIVE \<Rightarrow> copyout_receive st name ptr bits p port
          | _ \<Rightarrow> None }"

subsection \<open>Renaming\<close>

text \<open>
  The dead-name request follows the name. The result is the right mask, request and object that the new
  entry takes over, or nothing if the old entry was a compatibility entry of a dead port.
\<close>

definition rename_request ::
    "nat list \<Rightarrow> right_state \<Rightarrow> mach_port \<Rightarrow> entry_ptr \<Rightarrow> mach_port \<Rightarrow>
     ((u32 \<times> nat \<times> ptr) option \<times> right_state) option" where
  "rename_request its st oname optr nname =
     do { oentry \<leftarrow> entry_at st optr;
          let bits = ie_bits oentry;
          let p = ie_object oentry;
          if ie_request oentry = 0 then Some (Some (bits, 0, p), st)
          else
            do { assert_that (has bits MACH_PORT_TYPE_PORT_RIGHTS);
                 assert_that (p \<noteq> IP_NULL);
                 (dead, st) \<leftarrow> ipc_right_check its st p oname optr;
                 if dead then
                   (if has bits IE_BITS_COMPAT then Some (None, st)
                    else
                      do { oentry \<leftarrow> entry_at st optr;
                           assert_that (IE_BITS_TYPE (ie_bits oentry) = MACH_PORT_TYPE_DEAD_NAME);
                           assert_that (ie_request oentry = 0);
                           assert_that (ie_object oentry = IO_NULL);
                           Some (Some (ie_bits oentry, 0, IO_NULL), st) })
                 else
                   do { st \<leftarrow> on_ports st
                          (\<lambda>ps. ipc_port_dnrename ps p (of_nat (ie_request oentry)) oname nname);
                        st \<leftarrow> unlock_port st p;
                        st \<leftarrow> upd_entry st optr (\<lambda>e. e\<lparr>ie_request := 0\<rparr>);
                        Some (Some (bits, ie_request oentry, p), st) } } }"

text \<open>The switch over the type: what else knows the name.\<close>

definition rename_right ::
    "right_state \<Rightarrow> mach_port \<Rightarrow> entry_ptr \<Rightarrow> mach_port \<Rightarrow> entry_ptr \<Rightarrow> u32 \<Rightarrow> ptr \<Rightarrow> right_state option" where
  "rename_right st oname optr nname nptr tt obj =
     (if tt = MACH_PORT_TYPE_SEND then
        do { assert_that (obj \<noteq> IP_NULL);
             st \<leftarrow> right_hash_delete st obj oname optr;
             right_hash_insert st obj nname nptr }
      else if tt = MACH_PORT_TYPE_RECEIVE \<or> tt = MACH_PORT_TYPE_SEND_RECEIVE then
        do { assert_that (obj \<noteq> IP_NULL);
             st \<leftarrow> lock_port st obj;
             port \<leftarrow> port_at st obj;
             assert_that (ip_active port);
             assert_that (ip_receiver_name port = oname);
             assert_that (ip_data port = rs_self st);
             st \<leftarrow> on_port st obj (\<lambda>port. port\<lparr>ip_receiver_name := nname\<rparr>);
             unlock_port st obj }
      else if tt = MACH_PORT_TYPE_PORT_SET then
        do { assert_that (obj \<noteq> 0);
             Some (send_events [Pset_rename obj oname nname] st) }
      else if tt = MACH_PORT_TYPE_SEND_ONCE \<or> tt = MACH_PORT_TYPE_DEAD_NAME then Some st
      else None)"

definition ipc_right_rename ::
    "nat list \<Rightarrow> right_state \<Rightarrow> mach_port \<Rightarrow> entry_ptr \<Rightarrow> mach_port \<Rightarrow> entry_ptr \<Rightarrow> (kern_return \<times> right_state) option" where
  "ipc_right_rename its st oname optr nname nptr =
     do { assert_that (is_active (rs_space st));
          assert_that (oname \<noteq> nname);
          (r, st) \<leftarrow> rename_request its st oname optr nname;
          case r of
            None \<Rightarrow> do { st \<leftarrow> free_entry its st nname nptr; Some (KERN_INVALID_NAME, st) }
          | Some (bits, request, obj) \<Rightarrow>
              do { assert_that (has bits IE_BITS_MAREQUEST \<longrightarrow> has bits MACH_PORT_TYPE_SEND_RECEIVE);
                   let st = (if has bits IE_BITS_MAREQUEST
                             then send_events [Marequest_rename (rs_self st) oname nname] st else st);
                   nentry \<leftarrow> entry_at st nptr;
                   assert_that (ie_bits nentry AND IE_BITS_RIGHT_MASK = 0);
                   st \<leftarrow> upd_entry st nptr (\<lambda>e. e\<lparr>ie_bits := ie_bits e OR (bits AND IE_BITS_RIGHT_MASK),
                                                ie_request := request, ie_object := obj\<rparr>);
                   st \<leftarrow> rename_right st oname optr nname nptr (IE_BITS_TYPE bits) obj;
                   oentry \<leftarrow> entry_at st optr;
                   assert_that (ie_request oentry = 0);
                   st \<leftarrow> upd_entry st optr (\<lambda>e. e\<lparr>ie_object := IO_NULL\<rparr>);
                   st \<leftarrow> free_entry its st oname optr;
                   Some (KERN_SUCCESS, st) } }"

subsection \<open>Compatibility\<close>

text \<open>
  \<^verbatim>\<open>ipc_right_copyin_compat\<close>, one definition for each of its four branches. \<open>compat_live\<close> is the common
  part of the branches for \<^verbatim>\<open>MSG_TYPE_PORT\<close>; \<open>k\<close> continues with the port locked and active.
\<close>

type_synonym compat_result = "(kern_return + ptr) \<times> right_state"

definition compat_live ::
    "nat list \<Rightarrow> right_state \<Rightarrow> mach_port \<Rightarrow> entry_ptr \<Rightarrow> ipc_entry \<Rightarrow>
     (right_state \<Rightarrow> ipc_port \<Rightarrow> compat_result option) \<Rightarrow> compat_result option" where
  "compat_live its st name ptr entry k =
     (let bits = ie_bits entry; p = ie_object entry in
      do { assert_that (p \<noteq> IP_NULL);
           (dead, st) \<leftarrow> ipc_right_check its st p name ptr;
           if dead then
             Some (Inl (if has bits IE_BITS_COMPAT then KERN_INVALID_NAME else KERN_INVALID_RIGHT), st)
           else do { port \<leftarrow> port_at st p; k st port } })"

definition compat_move_send ::
    "nat list \<Rightarrow> right_state \<Rightarrow> mach_port \<Rightarrow> entry_ptr \<Rightarrow> ipc_entry \<Rightarrow> compat_result option" where
  "compat_move_send its st name ptr entry =
     (let bits = ie_bits entry; p = ie_object entry in
      if IE_BITS_TYPE bits \<noteq> MACH_PORT_TYPE_SEND then Some (Inl KERN_INVALID_RIGHT, st)
      else
        compat_live its st name ptr entry (\<lambda>st port.
          do { (dnrequest, st) \<leftarrow> ipc_right_dncancel_macro st p name ptr;
               assert_that (0 < ip_srights port);
               st \<leftarrow> unlock_port st p;
               let st = (if has bits IE_BITS_MAREQUEST
                         then send_events [Marequest_cancel (rs_self st) name] st else st);
               st \<leftarrow> upd_entry st ptr (\<lambda>e. e\<lparr>ie_object := IO_NULL\<rparr>);
               st \<leftarrow> free_entry its st name ptr;
               Some (Inr p, send_events (pd_event dnrequest name) st) }))"

definition compat_copy_send ::
    "nat list \<Rightarrow> right_state \<Rightarrow> mach_port \<Rightarrow> entry_ptr \<Rightarrow> ipc_entry \<Rightarrow> compat_result option" where
  "compat_copy_send its st name ptr entry =
     (let bits = ie_bits entry; p = ie_object entry in
      if \<not> has bits MACH_PORT_TYPE_SEND_RECEIVE then Some (Inl KERN_INVALID_RIGHT, st)
      else
        compat_live its st name ptr entry (\<lambda>st port.
          do { st \<leftarrow>
                 (if \<not> has bits MACH_PORT_TYPE_SEND then
                    do { assert_that (IE_BITS_TYPE bits = MACH_PORT_TYPE_RECEIVE);
                         assert_that (IE_BITS_UREFS bits = 0);
                         on_port st p (\<lambda>port. port\<lparr>ip_mscount := ip_mscount port + 1\<rparr>) }
                  else Some st);
               st \<leftarrow> on_port st p (\<lambda>port. port\<lparr>ip_srights := ip_srights port + 1\<rparr>);
               st \<leftarrow> on_ports st (\<lambda>ps. ip_reference ps p);
               st \<leftarrow> unlock_port st p;
               Some (Inr p, st) }))"

definition to_limbo :: "right_world \<Rightarrow> right_state \<Rightarrow> ptr \<Rightarrow> right_state option" where
  "to_limbo w st p =
     do { st \<leftarrow> ipc_port_clear_receiver (rw_moved w) st p;
          on_port st p (\<lambda>port. port\<lparr>ip_receiver_name := MACH_PORT_NULL, ip_data := IP_NULL\<rparr>) }"

definition compat_move_all ::
    "right_world \<Rightarrow> right_state \<Rightarrow> mach_port \<Rightarrow> entry_ptr \<Rightarrow> ipc_entry \<Rightarrow> compat_result option" where
  "compat_move_all w st name ptr entry =
     (let bits = ie_bits entry; p = ie_object entry in
      if \<not> has bits MACH_PORT_TYPE_RECEIVE then Some (Inl KERN_INVALID_RIGHT, st)
      else
        do { assert_that (p \<noteq> IP_NULL);
             st \<leftarrow> lock_port st p;
             port \<leftarrow> port_at st p;
             assert_that (ip_active port);
             assert_that (ip_receiver_name port = name);
             assert_that (ip_data port = rs_self st);
             (dnrequest, st) \<leftarrow> ipc_right_dncancel_macro st p name ptr;
             let st = (if has bits IE_BITS_MAREQUEST
                       then send_events [Marequest_cancel (rs_self st) name] st else st);
             st \<leftarrow> upd_entry st ptr (\<lambda>e. e\<lparr>ie_object := IO_NULL\<rparr>);
             st \<leftarrow> free_entry (rw_its w) st name ptr;
             (nsrequest, st) \<leftarrow>
               (if has bits MACH_PORT_TYPE_SEND then
                  do { assert_that (IE_BITS_TYPE bits = MACH_PORT_TYPE_SEND_RECEIVE);
                       assert_that (0 < IE_BITS_UREFS bits);
                       assert_that (0 < ip_srights port);
                       drop_sright st p }
                else Some ((IP_NULL, 0), st));
             st \<leftarrow> to_limbo w st p;
             st \<leftarrow> unlock_port st p;
             Some (Inr p, send_events (ns_event nsrequest @ pd_event dnrequest name) st) })"

definition compat_copy_all ::
    "right_world \<Rightarrow> right_state \<Rightarrow> mach_port \<Rightarrow> entry_ptr \<Rightarrow> ipc_entry \<Rightarrow> compat_result option" where
  "compat_copy_all w st name ptr entry =
     (let bits = ie_bits entry; p = ie_object entry in
      if \<not> has bits MACH_PORT_TYPE_RECEIVE then Some (Inl KERN_INVALID_RIGHT, st)
      else
        do { assert_that (p \<noteq> IP_NULL);
             st \<leftarrow> lock_port st p;
             port \<leftarrow> port_at st p;
             assert_that (ip_active port);
             assert_that (ip_receiver_name port = name);
             assert_that (ip_data port = rs_self st);
             (bits, st) \<leftarrow>
               (if \<not> has bits MACH_PORT_TYPE_SEND then
                  do { assert_that (IE_BITS_TYPE bits = MACH_PORT_TYPE_RECEIVE);
                       assert_that (IE_BITS_UREFS bits = 0);
                       st \<leftarrow> on_port st p (\<lambda>port. port\<lparr>ip_srights := ip_srights port + 1\<rparr>);
                       Some (bits OR (MACH_PORT_TYPE_SEND OR 1), st) }
                else Some (bits, st));
             st \<leftarrow> right_hash_insert st p name ptr;
             st \<leftarrow> upd_entry st ptr (\<lambda>e. e\<lparr>ie_bits := bits AND NOT MACH_PORT_TYPE_RECEIVE\<rparr>);
             st \<leftarrow> to_limbo w st p;
             st \<leftarrow> on_ports st (\<lambda>ps. ip_reference ps p);
             st \<leftarrow> unlock_port st p;
             Some (Inr p, st) })"

definition ipc_right_copyin_compat ::
    "right_world \<Rightarrow> right_state \<Rightarrow> mach_port \<Rightarrow> entry_ptr \<Rightarrow> msgt_name \<Rightarrow> bool \<Rightarrow> compat_result option" where
  "ipc_right_copyin_compat w st name ptr msgt dealloc =
     do { entry \<leftarrow> entry_at st ptr;
          assert_that (is_active (rs_space st));
          case msgt of
            MSG_TYPE_PORT \<Rightarrow>
              (if dealloc then compat_move_send (rw_its w) st name ptr entry
               else compat_copy_send (rw_its w) st name ptr entry)
          | MSG_TYPE_PORT_ALL \<Rightarrow>
              (if dealloc then compat_move_all w st name ptr entry else compat_copy_all w st name ptr entry)
          | _ \<Rightarrow> None }"

text \<open>The right for the header of an old-style message: the type decides what is taken.\<close>

definition header_send ::
    "nat list \<Rightarrow> right_state \<Rightarrow> mach_port \<Rightarrow> entry_ptr \<Rightarrow> ipc_entry \<Rightarrow> compat_result option" where
  "header_send its st name ptr entry =
     do { assert_that (0 < IE_BITS_UREFS (ie_bits entry));
          compat_live its st name ptr entry (\<lambda>st port.
            do { let p = ie_object entry;
                 assert_that (0 < ip_srights port);
                 st \<leftarrow> on_port st p (\<lambda>port. port\<lparr>ip_srights := ip_srights port + 1\<rparr>);
                 st \<leftarrow> on_ports st (\<lambda>ps. ip_reference ps p);
                 st \<leftarrow> unlock_port st p;
                 Some (Inr p, st) }) }"

definition header_send_once ::
    "right_world \<Rightarrow> right_state \<Rightarrow> mach_port \<Rightarrow> entry_ptr \<Rightarrow> ipc_entry \<Rightarrow> compat_result option" where
  "header_send_once w st name ptr entry =
     do { assert_that (IE_BITS_UREFS (ie_bits entry) = 1);
          assert_that (\<not> has (ie_bits entry) IE_BITS_MAREQUEST);
          compat_live (rw_its w) st name ptr entry (\<lambda>st port.
            do { let p = ie_object entry;
                 assert_that (0 < ip_sorights port);
                 (dnrequest, st) \<leftarrow> ipc_right_dncancel_macro st p name ptr;
                 st \<leftarrow> unlock_port st p;
                 st \<leftarrow> upd_entry st ptr (\<lambda>e. e\<lparr>ie_object := IO_NULL\<rparr>);
                 st \<leftarrow> free_entry (rw_its w) st name ptr;
                 (notify, st) \<leftarrow> ipc_space_make_notify w st;
                 Some (Inr p, send_events (pd_event dnrequest name @ pdc_event notify name) st) }) }"

definition ipc_right_copyin_header ::
    "right_world \<Rightarrow> right_state \<Rightarrow> mach_port \<Rightarrow> entry_ptr \<Rightarrow>
     ((kern_return + ptr \<times> msgt_name) \<times> right_state) option" where
  "ipc_right_copyin_header w st name ptr =
     do { entry \<leftarrow> entry_at st ptr;
          let tt = IE_BITS_TYPE (ie_bits entry);
          assert_that (is_active (rs_space st));
          (r, st) \<leftarrow>
            (if tt = MACH_PORT_TYPE_PORT_SET \<or> tt = MACH_PORT_TYPE_DEAD_NAME then Some (Inl KERN_INVALID_RIGHT, st)
             else if tt = MACH_PORT_TYPE_RECEIVE then
               do { (r, st) \<leftarrow> copyin_make st name entry
                      (\<lambda>port. port\<lparr>ip_mscount := ip_mscount port + 1, ip_srights := ip_srights port + 1\<rparr>);
                    Some (map_sum id fst r, st) }
             else if tt = MACH_PORT_TYPE_SEND \<or> tt = MACH_PORT_TYPE_SEND_RECEIVE
             then header_send (rw_its w) st name ptr entry
             else if tt = MACH_PORT_TYPE_SEND_ONCE then header_send_once w st name ptr entry
             else None);
          Some (map_sum id (\<lambda>p. (p, if tt = MACH_PORT_TYPE_SEND_ONCE then MACH_MSG_TYPE_PORT_SEND_ONCE
                                     else MACH_MSG_TYPE_PORT_SEND)) r, st) }"

end
