(* ===== verification/Ipc_Object.thy ===== *)
theory Ipc_Object
  imports Ipc_Right_Copy
begin

text \<open>
  Objects by name (\<^verbatim>\<open>kernel/ipc/ipc_object.c\<close>): allocation, copyin, copyout and renaming in a space, and
  the rights that the kernel itself holds. The only objects of the model are ports. Where the code drops
  the space's lock to get memory, an \<open>object_world\<close> says what other threads do meanwhile to the space
  (\<open>ow_space\<close>) and to the ports (\<open>ow_ports\<close>), and \<open>ow_mem\<close> is what the zone of ports returns.
\<close>

record object_world =
  ow_right :: right_world
  ow_space :: world
  ow_ports :: "nat \<Rightarrow> port_state \<Rightarrow> port_state"
  ow_mem :: "(ptr \<times> ipc_port) option"

abbreviation ow_its :: "object_world \<Rightarrow> nat list" where
  "ow_its w \<equiv> rw_its (ow_right w)"

text \<open>\<^verbatim>\<open>ipc_entry_alloc\<close>, \<^verbatim>\<open>ipc_entry_alloc_name\<close> and \<^verbatim>\<open>ipc_entry_grow_table\<close> on the state with ports.\<close>

definition with_space :: "right_state \<Rightarrow> ipc_state \<Rightarrow> right_state" where
  "with_space st s = st\<lparr>rs_space := fst s, rs_hash := snd s\<rparr>"

definition meanwhile :: "object_world \<Rightarrow> nat \<Rightarrow> right_state \<Rightarrow> right_state" where
  "meanwhile w n st = st\<lparr>rs_ports := ow_ports w n (rs_ports st)\<rparr>"

definition alloc_entry ::
    "object_world \<Rightarrow> nat \<Rightarrow> right_state \<Rightarrow> ((kern_return + mach_port \<times> entry_ptr) \<times> right_state \<times> nat) option" where
  "alloc_entry w n st =
     do { (r, s, n') \<leftarrow> ipc_entry_alloc (ow_its w) (ow_space w) n (rs_space st, rs_hash st);
          Some (r, meanwhile w n (with_space st s), n') }"

definition alloc_named ::
    "object_world \<Rightarrow> nat \<Rightarrow> right_state \<Rightarrow> mach_port \<Rightarrow> ((kern_return + entry_ptr) \<times> right_state \<times> nat) option" where
  "alloc_named w n st name =
     do { (r, s, n') \<leftarrow> ipc_entry_alloc_name (ow_its w) (ow_space w) False n (rs_space st, rs_hash st) name;
          Some (r, meanwhile w n (with_space st s), n') }"

definition grow_entries :: "object_world \<Rightarrow> nat \<Rightarrow> right_state \<Rightarrow> (kern_return \<times> right_state \<times> nat) option" where
  "grow_entries w n st =
     do { (kr, s, n') \<leftarrow> ipc_entry_grow_table (ow_its w) (ow_space w) n (rs_space st, rs_hash st);
          Some (kr, meanwhile w n (with_space st s), n') }"

subsection \<open>Lookup and allocation\<close>

definition ipc_object_translate ::
    "right_state \<Rightarrow> mach_port \<Rightarrow> nat \<Rightarrow> ((kern_return + ptr) \<times> right_state) option" where
  "ipc_object_translate st name rgt =
     do { (found, st) \<leftarrow> ipc_right_lookup_write st name;
          case found of
            Inl kr \<Rightarrow> Some (Inl kr, st)
          | Inr ptr \<Rightarrow>
              do { entry \<leftarrow> entry_at st ptr;
                   if \<not> has (ie_bits entry) (MACH_PORT_TYPE rgt) then Some (Inl KERN_INVALID_RIGHT, st)
                   else
                     do { assert_that (ie_object entry \<noteq> IO_NULL);
                          st \<leftarrow> lock_port st (ie_object entry);
                          Some (Inr (ie_object entry), st) } } }"

definition ipc_object_alloc_dead ::
    "object_world \<Rightarrow> nat \<Rightarrow> right_state \<Rightarrow> ((kern_return + mach_port) \<times> right_state) option" where
  "ipc_object_alloc_dead w n st =
     do { (r, st, n) \<leftarrow> alloc_entry w n st;
          case r of
            Inl kr \<Rightarrow> Some (Inl kr, st)
          | Inr (name, ptr) \<Rightarrow>
              do { entry \<leftarrow> entry_at st ptr;
                   assert_that (ie_object entry = IO_NULL);
                   st \<leftarrow> upd_entry st ptr (\<lambda>e. e\<lparr>ie_bits := ie_bits e OR (MACH_PORT_TYPE_DEAD_NAME OR 1)\<rparr>);
                   Some (Inr name, st) } }"

definition ipc_object_alloc_dead_name ::
    "object_world \<Rightarrow> nat \<Rightarrow> right_state \<Rightarrow> mach_port \<Rightarrow> (kern_return \<times> right_state) option" where
  "ipc_object_alloc_dead_name w n st name =
     do { (r, st, n) \<leftarrow> alloc_named w n st name;
          case r of
            Inl kr \<Rightarrow> Some (kr, st)
          | Inr ptr \<Rightarrow>
              do { (used, st) \<leftarrow> ipc_right_inuse st name ptr;
                   if used then Some (KERN_NAME_EXISTS, st)
                   else
                     do { entry \<leftarrow> entry_at st ptr;
                          assert_that (ie_object entry = IO_NULL);
                          st \<leftarrow> upd_entry st ptr (\<lambda>e. e\<lparr>ie_bits := ie_bits e OR (MACH_PORT_TYPE_DEAD_NAME OR 1)\<rparr>);
                          Some (KERN_SUCCESS, st) } } }"

text \<open>\<^verbatim>\<open>bzero\<close> of a port, and the end of both allocations: the object is locked and has one reference.\<close>

definition zero_port :: ipc_port where
  "zero_port = \<lparr>ip_bits = 0, ip_references = 0, ip_receiver_name = 0, ip_data = 0, ip_mscount = 0, ip_srights = 0,
     ip_sorights = 0, ip_nsrequest = 0, ip_pdrequest = 0, ip_dnrequests = None, ip_pset = 0, ip_seqno = 0,
     ip_msgcount = 0, ip_qlimit = 0, ip_messages = [], ip_blocked = []\<rparr>"

definition io_alloc :: "object_world \<Rightarrow> right_state \<Rightarrow> (ptr \<times> right_state) option" where
  "io_alloc w st =
     map_option (\<lambda>(p, garbage). (p, st\<lparr>rs_ports := (rs_ports st)\<lparr>ports := (ports (rs_ports st))(p \<mapsto> zero_port)\<rparr>\<rparr>))
       (ow_mem w)"

definition io_free :: "right_state \<Rightarrow> ptr \<Rightarrow> right_state" where
  "io_free st p = st\<lparr>rs_ports := (rs_ports st)\<lparr>ports := (ports (rs_ports st))(p := None)\<rparr>\<rparr>"

definition object_install :: "right_state \<Rightarrow> entry_ptr \<Rightarrow> ptr \<Rightarrow> u32 \<Rightarrow> u32 \<Rightarrow> right_state option" where
  "object_install st ptr p tt urefs =
     do { st \<leftarrow> upd_entry st ptr (\<lambda>e. e\<lparr>ie_bits := ie_bits e OR (tt OR urefs), ie_object := p\<rparr>);
          st \<leftarrow> lock_port st p;
          on_port st p (\<lambda>port. port\<lparr>ip_references := 1, ip_bits := io_makebits True IOT_PORT 0\<rparr>) }"

definition ipc_object_alloc ::
    "object_world \<Rightarrow> nat \<Rightarrow> right_state \<Rightarrow> u32 \<Rightarrow> u32 \<Rightarrow> ((kern_return + mach_port \<times> ptr) \<times> right_state) option" where
  "ipc_object_alloc w n st tt urefs =
     do { assert_that (tt AND MACH_PORT_TYPE_ALL_RIGHTS = tt);
          assert_that (tt \<noteq> MACH_PORT_TYPE_NONE);
          assert_that (urefs \<le> MACH_PORT_UREFS_MAX);
          case io_alloc w st of
            None \<Rightarrow> Some (Inl KERN_RESOURCE_SHORTAGE, st)
          | Some (p, st) \<Rightarrow>
              do { (r, st, n) \<leftarrow> alloc_entry w n st;
                   case r of
                     Inl kr \<Rightarrow> Some (Inl kr, io_free st p)
                   | Inr (name, ptr) \<Rightarrow>
                       do { st \<leftarrow> object_install st ptr p tt urefs;
                            Some (Inr (name, p), st) } } }"

definition ipc_object_alloc_name ::
    "object_world \<Rightarrow> nat \<Rightarrow> right_state \<Rightarrow> u32 \<Rightarrow> u32 \<Rightarrow> mach_port \<Rightarrow> ((kern_return + ptr) \<times> right_state) option" where
  "ipc_object_alloc_name w n st tt urefs name =
     do { assert_that (tt AND MACH_PORT_TYPE_ALL_RIGHTS = tt);
          assert_that (tt \<noteq> MACH_PORT_TYPE_NONE);
          assert_that (urefs \<le> MACH_PORT_UREFS_MAX);
          case io_alloc w st of
            None \<Rightarrow> Some (Inl KERN_RESOURCE_SHORTAGE, st)
          | Some (p, st) \<Rightarrow>
              do { (r, st, n) \<leftarrow> alloc_named w n st name;
                   case r of
                     Inl kr \<Rightarrow> Some (Inl kr, io_free st p)
                   | Inr ptr \<Rightarrow>
                       do { (used, st) \<leftarrow> ipc_right_inuse st name ptr;
                            if used then Some (Inl KERN_NAME_EXISTS, io_free st p)
                            else
                              do { st \<leftarrow> object_install st ptr p tt urefs;
                                   Some (Inr p, st) } } } }"

text \<open>\<^verbatim>\<open>ipc_port_alloc\<close> and \<^verbatim>\<open>ipc_port_alloc_name\<close>; the port is returned locked.\<close>

definition ipc_port_alloc ::
    "object_world \<Rightarrow> nat \<Rightarrow> right_state \<Rightarrow> ((kern_return + mach_port \<times> ptr) \<times> right_state) option" where
  "ipc_port_alloc w n st =
     do { (r, st) \<leftarrow> ipc_object_alloc w n st MACH_PORT_TYPE_RECEIVE 0;
          case r of
            Inl kr \<Rightarrow> Some (Inl kr, st)
          | Inr (name, p) \<Rightarrow>
              do { st \<leftarrow> on_ports st (\<lambda>ps. ipc_port_init ps p (rs_self st) name);
                   Some (Inr (name, p), st) } }"

definition ipc_port_alloc_name ::
    "object_world \<Rightarrow> nat \<Rightarrow> right_state \<Rightarrow> mach_port \<Rightarrow> ((kern_return + ptr) \<times> right_state) option" where
  "ipc_port_alloc_name w n st name =
     do { (r, st) \<leftarrow> ipc_object_alloc_name w n st MACH_PORT_TYPE_RECEIVE 0 name;
          case r of
            Inl kr \<Rightarrow> Some (Inl kr, st)
          | Inr p \<Rightarrow>
              do { st \<leftarrow> on_ports st (\<lambda>ps. ipc_port_init ps p (rs_self st) name);
                   Some (Inr p, st) } }"

subsection \<open>Copyin\<close>

fun ipc_object_copyin_type :: "msgt_name \<Rightarrow> msgt_name" where
  "ipc_object_copyin_type MACH_MSG_TYPE_MOVE_RECEIVE = MACH_MSG_TYPE_PORT_RECEIVE"
| "ipc_object_copyin_type MACH_MSG_TYPE_MOVE_SEND_ONCE = MACH_MSG_TYPE_PORT_SEND_ONCE"
| "ipc_object_copyin_type MACH_MSG_TYPE_MAKE_SEND_ONCE = MACH_MSG_TYPE_PORT_SEND_ONCE"
| "ipc_object_copyin_type MACH_MSG_TYPE_MOVE_SEND = MACH_MSG_TYPE_PORT_SEND"
| "ipc_object_copyin_type MACH_MSG_TYPE_MAKE_SEND = MACH_MSG_TYPE_PORT_SEND"
| "ipc_object_copyin_type MACH_MSG_TYPE_COPY_SEND = MACH_MSG_TYPE_PORT_SEND"
| "ipc_object_copyin_type MSG_TYPE_PORT = MACH_MSG_TYPE_PORT_SEND"
| "ipc_object_copyin_type MSG_TYPE_PORT_ALL = MACH_MSG_TYPE_PORT_RECEIVE"

fun ipc_object_copyout_type_compat :: "msgt_name \<Rightarrow> msgt_name option" where
  "ipc_object_copyout_type_compat MACH_MSG_TYPE_MOVE_SEND = Some MSG_TYPE_PORT"
| "ipc_object_copyout_type_compat MACH_MSG_TYPE_MOVE_SEND_ONCE = Some MSG_TYPE_PORT"
| "ipc_object_copyout_type_compat MACH_MSG_TYPE_MOVE_RECEIVE = Some MSG_TYPE_PORT_ALL"
| "ipc_object_copyout_type_compat _ = None"

definition ipc_object_copyin ::
    "right_world \<Rightarrow> right_state \<Rightarrow> mach_port \<Rightarrow> msgt_name \<Rightarrow> ((kern_return + ptr) \<times> right_state) option" where
  "ipc_object_copyin w st name msgt =
     do { (found, st) \<leftarrow> ipc_right_lookup_write st name;
          case found of
            Inl kr \<Rightarrow> Some (Inl kr, st)
          | Inr ptr \<Rightarrow>
              do { (r, st) \<leftarrow> ipc_right_copyin w st name ptr msgt True;
                   entry \<leftarrow> entry_at st ptr;
                   st \<leftarrow> (if IE_BITS_TYPE (ie_bits entry) = MACH_PORT_TYPE_NONE
                          then free_entry (rw_its w) st name ptr else Some st);
                   case r of
                     Inl kr \<Rightarrow> Some (Inl kr, st)
                   | Inr (obj, soright) \<Rightarrow> Some (Inr obj, send_events (pd_event soright name) st) } }"

text \<open>Rights that the kernel holds outside of any space; \<open>ksp\<close> is \<^verbatim>\<open>ipc_space_kernel\<close>.\<close>

definition kernel_port :: "ptr \<Rightarrow> port_state \<Rightarrow> ptr \<Rightarrow> (ipc_port \<Rightarrow> ipc_port) \<Rightarrow> port_state option" where
  "kernel_port ksp st p f =
     do { st \<leftarrow> ip_lock st p;
          port \<leftarrow> ports st p;
          assert_that (ip_active port);
          assert_that (ip_receiver_name port \<noteq> MACH_PORT_NULL);
          assert_that (ip_data port = ksp);
          st \<leftarrow> upd_port st p f;
          ip_unlock st p }"

definition ipc_object_copyin_from_kernel :: "ptr \<Rightarrow> port_state \<Rightarrow> ptr \<Rightarrow> msgt_name \<Rightarrow> port_state option" where
  "ipc_object_copyin_from_kernel ksp st p msgt =
     do { assert_that (IO_VALID p);
          case msgt of
            MACH_MSG_TYPE_MOVE_RECEIVE \<Rightarrow>
              kernel_port ksp st p
                (\<lambda>port. port\<lparr>ip_mscount := 0, ip_receiver_name := MACH_PORT_NULL, ip_data := IP_NULL\<rparr>)
          | MACH_MSG_TYPE_COPY_SEND \<Rightarrow>
              do { st \<leftarrow> ip_lock st p;
                   port \<leftarrow> ports st p;
                   st \<leftarrow> (if ip_active port then
                            do { assert_that (0 < ip_srights port);
                                 upd_port st p (\<lambda>port. port\<lparr>ip_srights := ip_srights port + 1\<rparr>) }
                          else Some st);
                   st \<leftarrow> ip_reference st p;
                   ip_unlock st p }
          | MACH_MSG_TYPE_MAKE_SEND \<Rightarrow>
              kernel_port ksp st p (\<lambda>port. port\<lparr>ip_references := ip_references port + 1,
                ip_mscount := ip_mscount port + 1, ip_srights := ip_srights port + 1\<rparr>)
          | MACH_MSG_TYPE_MOVE_SEND \<Rightarrow> Some st
          | MACH_MSG_TYPE_MAKE_SEND_ONCE \<Rightarrow>
              kernel_port ksp st p (\<lambda>port. port\<lparr>ip_references := ip_references port + 1,
                ip_sorights := ip_sorights port + 1\<rparr>)
          | MACH_MSG_TYPE_MOVE_SEND_ONCE \<Rightarrow> Some st
          | _ \<Rightarrow> None }"

definition ipc_object_destroy :: "right_world \<Rightarrow> port_state \<Rightarrow> ptr \<Rightarrow> msgt_name \<Rightarrow> port_state option" where
  "ipc_object_destroy w st p msgt =
     do { assert_that (IO_VALID p);
          case msgt of
            MACH_MSG_TYPE_MOVE_SEND \<Rightarrow> ipc_port_release_send st p
          | MACH_MSG_TYPE_MOVE_SEND_ONCE \<Rightarrow> Some (emit [Send_once p] st)
          | MACH_MSG_TYPE_MOVE_RECEIVE \<Rightarrow> ipc_port_release_receive (rw_sizes w) (rw_free w) (rw_env w) st p
          | _ \<Rightarrow> None }"

text \<open>The compatibility copyins by name.\<close>

definition ipc_object_copyin_compat ::
    "right_world \<Rightarrow> right_state \<Rightarrow> mach_port \<Rightarrow> msgt_name \<Rightarrow> bool \<Rightarrow> compat_result option" where
  "ipc_object_copyin_compat w st name msgt dealloc =
     do { (found, st) \<leftarrow> ipc_right_lookup_write st name;
          case found of
            Inl kr \<Rightarrow> Some (Inl kr, st)
          | Inr ptr \<Rightarrow> ipc_right_copyin_compat w st name ptr msgt dealloc }"

definition ipc_object_copyin_header ::
    "right_world \<Rightarrow> right_state \<Rightarrow> mach_port \<Rightarrow> ((kern_return + ptr \<times> msgt_name) \<times> right_state) option" where
  "ipc_object_copyin_header w st name =
     do { (found, st) \<leftarrow> ipc_right_lookup_write st name;
          case found of
            Inl kr \<Rightarrow> Some (Inl kr, st)
          | Inr ptr \<Rightarrow> ipc_right_copyin_header w st name ptr }"

subsection \<open>Copyout\<close>

text \<open>
  The new entry that a copyout takes: the object goes into it if it is alive, otherwise the entry is freed
  again. \<open>k\<close> continues with the port locked and active.
\<close>

definition claim_entry ::
    "nat list \<Rightarrow> right_state \<Rightarrow> ptr \<Rightarrow> mach_port \<Rightarrow> entry_ptr \<Rightarrow>
     (right_state \<Rightarrow> ('a option \<times> right_state) option) \<Rightarrow>
     ((kern_return + 'a) option \<times> right_state) option" where
  "claim_entry its st p name ptr k =
     do { entry \<leftarrow> entry_at st ptr;
          assert_that (IE_BITS_TYPE (ie_bits entry) = MACH_PORT_TYPE_NONE);
          assert_that (ie_object entry = IO_NULL);
          st \<leftarrow> lock_port st p;
          port \<leftarrow> port_at st p;
          if \<not> ip_active port then
            do { st \<leftarrow> unlock_port st p;
                 st \<leftarrow> free_entry its st name ptr;
                 Some (Some (Inl KERN_INVALID_CAPABILITY), st) }
          else
            do { (r, st) \<leftarrow> k st;
                 Some (map_option Inr r, st) } }"

definition put_object ::
    "ptr \<Rightarrow> mach_port \<Rightarrow> entry_ptr \<Rightarrow> right_state \<Rightarrow> ((mach_port \<times> entry_ptr) option \<times> right_state) option" where
  "put_object p name ptr st =
     do { st \<leftarrow> upd_entry st ptr (\<lambda>e. e\<lparr>ie_object := p\<rparr>);
          Some (Some (name, ptr), st) }"

text \<open>One round of the loop of \<^verbatim>\<open>ipc_object_copyout\<close>: an error, an entry, or \<^verbatim>\<open>continue\<close>.\<close>

definition reverse_for ::
    "right_state \<Rightarrow> ptr \<Rightarrow> msgt_name \<Rightarrow> ((mach_port \<times> entry_ptr) option \<times> right_state) option" where
  "reverse_for st p msgt =
     (if msgt \<noteq> MACH_MSG_TYPE_PORT_SEND_ONCE then ipc_right_reverse st p else Some (None, st))"

definition copyout_round ::
    "object_world \<Rightarrow> nat \<Rightarrow> right_state \<Rightarrow> ptr \<Rightarrow> msgt_name \<Rightarrow>
     (mach_port \<Rightarrow> entry_ptr \<Rightarrow> right_state \<Rightarrow> ((mach_port \<times> entry_ptr) option \<times> right_state) option) \<Rightarrow>
     ((kern_return + mach_port \<times> entry_ptr) option \<times> right_state \<times> nat) option" where
  "copyout_round w n st p msgt put =
     (if \<not> is_active (rs_space st) then Some (Some (Inl KERN_INVALID_TASK), st, n)
      else
        do { (found, st) \<leftarrow> reverse_for st p msgt;
             case found of
               Some (name, ptr) \<Rightarrow>
                 do { entry \<leftarrow> entry_at st ptr;
                      assert_that (has (ie_bits entry) MACH_PORT_TYPE_SEND_RECEIVE);
                      Some (Some (Inr (name, ptr)), st, n) }
             | None \<Rightarrow>
                 do { (r, space) \<leftarrow> ipc_entry_get (rs_space st);
                      let st = st\<lparr>rs_space := space\<rparr>;
                      case r of
                        Inl _ \<Rightarrow>
                          do { (kr, st, n) \<leftarrow> grow_entries w n st;
                               Some (if kr \<noteq> KERN_SUCCESS then Some (Inl kr) else None, st, n) }
                      | Inr (name, ptr) \<Rightarrow>
                          do { (r, st) \<leftarrow> claim_entry (ow_its w) st p name ptr (put name ptr);
                               Some (r, st, n) } } })"

text \<open>The end of all copyouts.\<close>

definition copyout_finish ::
    "right_state \<Rightarrow> ptr \<Rightarrow> msgt_name \<Rightarrow> bool \<Rightarrow> mach_port \<Rightarrow> entry_ptr \<Rightarrow>
     ((kern_return + mach_port) \<times> right_state) option" where
  "copyout_finish st p msgt ovf name ptr =
     do { (kr, st) \<leftarrow> ipc_right_copyout st name ptr msgt ovf p;
          Some (if kr = KERN_SUCCESS then Inr name else Inl kr, st) }"

partial_function (option) ipc_object_copyout ::
    "object_world \<Rightarrow> nat \<Rightarrow> right_state \<Rightarrow> ptr \<Rightarrow> msgt_name \<Rightarrow> bool \<Rightarrow>
     ((kern_return + mach_port) \<times> right_state) option" where
  "ipc_object_copyout w n st p msgt ovf =
     do { assert_that (IO_VALID p);
          (r, st, n) \<leftarrow> copyout_round w n st p msgt (put_object p);
          case r of
            None \<Rightarrow> ipc_object_copyout w n st p msgt ovf
          | Some (Inl kr) \<Rightarrow> Some (Inl kr, st)
          | Some (Inr (name, ptr)) \<Rightarrow> copyout_finish st p msgt ovf name ptr }"

definition ipc_object_copyout_name ::
    "object_world \<Rightarrow> nat \<Rightarrow> right_state \<Rightarrow> ptr \<Rightarrow> msgt_name \<Rightarrow> bool \<Rightarrow> mach_port \<Rightarrow> (kern_return \<times> right_state) option" where
  "ipc_object_copyout_name w n st p msgt ovf name =
     do { assert_that (IO_VALID p);
          (r, st, n) \<leftarrow> alloc_named w n st name;
          case r of
            Inl kr \<Rightarrow> Some (kr, st)
          | Inr ptr \<Rightarrow>
              do { (found, st) \<leftarrow> reverse_for st p msgt;
                   case found of
                     Some (oname, optr) \<Rightarrow>
                       do { entry \<leftarrow> entry_at st ptr;
                            if name \<noteq> oname then
                              do { st \<leftarrow> unlock_port st p;
                                   st \<leftarrow> (if IE_BITS_TYPE (ie_bits entry) = MACH_PORT_TYPE_NONE
                                          then free_entry (ow_its w) st name ptr else Some st);
                                   Some (KERN_RIGHT_EXISTS, st) }
                            else
                              do { assert_that (ptr = optr);
                                   assert_that (has (ie_bits entry) MACH_PORT_TYPE_SEND_RECEIVE);
                                   ipc_right_copyout st name ptr msgt ovf p } }
                   | None \<Rightarrow>
                       do { (used, st) \<leftarrow> ipc_right_inuse st name ptr;
                            if used then Some (KERN_NAME_EXISTS, st)
                            else
                              do { (r, st) \<leftarrow> claim_entry (ow_its w) st p name ptr (put_object p name ptr);
                                   case r of
                                     Some (Inr _) \<Rightarrow> ipc_right_copyout st name ptr msgt ovf p
                                   | Some (Inl kr) \<Rightarrow> Some (kr, st)
                                   | None \<Rightarrow> None } } } }"

text \<open>The destination right of a message that is received: it is consumed.\<close>

definition ipc_object_copyout_dest ::
    "ptr \<Rightarrow> right_state \<Rightarrow> ptr \<Rightarrow> msgt_name \<Rightarrow> (mach_port \<times> right_state) option" where
  "ipc_object_copyout_dest self st p msgt =
     do { assert_that (IO_VALID p);
          port \<leftarrow> port_at st p;
          assert_that (ip_active port);
          st \<leftarrow> on_ports st (\<lambda>ps. ip_release ps p);
          case msgt of
            MACH_MSG_TYPE_MOVE_SEND \<Rightarrow>
              do { assert_that (0 < ip_srights port);
                   (nsrequest, st) \<leftarrow> drop_sright st p;
                   st \<leftarrow> unlock_port st p;
                   Some (if ip_data port = self then ip_receiver_name port else MACH_PORT_NULL,
                         send_events (ns_event nsrequest) st) }
          | MACH_MSG_TYPE_MOVE_SEND_ONCE \<Rightarrow>
              do { assert_that (0 < ip_sorights port);
                   if ip_data port = self then
                     do { st \<leftarrow> on_port st p (\<lambda>port. port\<lparr>ip_sorights := ip_sorights port - 1\<rparr>);
                          st \<leftarrow> unlock_port st p;
                          Some (ip_receiver_name port, st) }
                   else
                     do { st \<leftarrow> on_ports st (\<lambda>ps. ip_reference ps p);
                          st \<leftarrow> unlock_port st p;
                          Some (MACH_PORT_NULL, send_events [Send_once p] st) } }
          | _ \<Rightarrow> None }"

definition ipc_object_rename ::
    "object_world \<Rightarrow> nat \<Rightarrow> right_state \<Rightarrow> mach_port \<Rightarrow> mach_port \<Rightarrow> (kern_return \<times> right_state) option" where
  "ipc_object_rename w n st oname nname =
     do { (r, st, n) \<leftarrow> alloc_named w n st nname;
          case r of
            Inl kr \<Rightarrow> Some (kr, st)
          | Inr nptr \<Rightarrow>
              do { (used, st) \<leftarrow> ipc_right_inuse st nname nptr;
                   if used then Some (KERN_NAME_EXISTS, st)
                   else
                     do { (found, space) \<leftarrow>
                            (if oname = nname then Some (None, rs_space st) else ipc_entry_lookup (rs_space st) oname);
                          let st = st\<lparr>rs_space := space\<rparr>;
                          case found of
                            None \<Rightarrow>
                              do { st \<leftarrow> free_entry (ow_its w) st nname nptr;
                                   Some (KERN_INVALID_NAME, st) }
                          | Some optr \<Rightarrow> ipc_right_rename (ow_its w) st oname optr nname nptr } } }"

subsection \<open>Copyout for compatibility\<close>

text \<open>
  A new entry is marked \<^verbatim>\<open>IE_BITS_COMPAT\<close>, and the space itself is registered for the death of the port.
  No slot for the registration means: free the entry, grow the table of the port, start again.
\<close>

definition ipr_spacem :: "ptr \<Rightarrow> ptr" where "ipr_spacem space = space OR 1"

definition is_reference :: "right_state \<Rightarrow> right_state" where
  "is_reference st = st\<lparr>rs_space := (rs_space st)\<lparr>is_references := is_references (rs_space st) + 1\<rparr>\<rparr>"

definition put_compat ::
    "nat list \<Rightarrow> ptr \<Rightarrow> mach_port \<Rightarrow> entry_ptr \<Rightarrow> right_state \<Rightarrow> ((mach_port \<times> entry_ptr) option \<times> right_state) option" where
  "put_compat its p name ptr st =
     do { (r, ps) \<leftarrow> ipc_port_dnrequest (rs_ports st) p name (ipr_spacem (rs_self st));
          let st = st\<lparr>rs_ports := ps\<rparr>;
          case r of
            Inl _ \<Rightarrow>
              do { st \<leftarrow> free_entry its st name ptr;
                   Some (None, st) }
          | Inr request \<Rightarrow>
              do { st \<leftarrow> upd_entry (is_reference st) ptr
                          (\<lambda>e. e\<lparr>ie_object := p, ie_request := unat request, ie_bits := ie_bits e OR IE_BITS_COMPAT\<rparr>);
                   Some (Some (name, ptr), st) } }"

text \<open>
  After a round that did not end, the port is locked and its table is full if \<open>put_compat\<close> failed; if the
  table of the space was grown, the port is unlocked.
\<close>

definition compat_grow :: "dn_world \<Rightarrow> nat \<Rightarrow> right_state \<Rightarrow> ptr \<Rightarrow> (kern_return \<times> right_state) option" where
  "compat_grow dw n st p =
     (if p \<notin> locked (rs_ports st) then Some (KERN_SUCCESS, st)
      else
        do { (kr, ps) \<leftarrow> ipc_port_dngrow (dw_sizes dw) (dw_mem dw n) (dw_ports dw n) (rs_ports st) p;
             Some (kr, dw_env dw n (st\<lparr>rs_ports := ps\<rparr>)) })"

partial_function (option) ipc_object_copyout_compat ::
    "object_world \<Rightarrow> dn_world \<Rightarrow> nat \<Rightarrow> right_state \<Rightarrow> ptr \<Rightarrow> msgt_name \<Rightarrow>
     ((kern_return + mach_port) \<times> right_state) option" where
  "ipc_object_copyout_compat w dw n st p msgt =
     do { assert_that (IO_VALID p);
          (r, st, n) \<leftarrow> copyout_round w n st p msgt (put_compat (ow_its w) p);
          case r of
            None \<Rightarrow>
              do { (kr, st) \<leftarrow> compat_grow dw n st p;
                   if kr \<noteq> KERN_SUCCESS then Some (Inl kr, st)
                   else ipc_object_copyout_compat w dw (n + 1) st p msgt }
          | Some (Inl kr) \<Rightarrow> Some (Inl kr, st)
          | Some (Inr (name, ptr)) \<Rightarrow> copyout_finish st p msgt True name ptr }"

definition name_compat_round ::
    "object_world \<Rightarrow> nat \<Rightarrow> right_state \<Rightarrow> ptr \<Rightarrow> msgt_name \<Rightarrow> mach_port \<Rightarrow>
     ((kern_return + mach_port \<times> entry_ptr) option \<times> right_state \<times> nat) option" where
  "name_compat_round w n st p msgt name =
     do { (r, st, n) \<leftarrow> alloc_named w n st name;
          case r of
            Inl kr \<Rightarrow> Some (Some (Inl kr), st, n)
          | Inr ptr \<Rightarrow>
              do { (used, st) \<leftarrow> ipc_right_inuse st name ptr;
                   if used then Some (Some (Inl KERN_NAME_EXISTS), st, n)
                   else
                     do { entry \<leftarrow> entry_at st ptr;
                          assert_that (IE_BITS_TYPE (ie_bits entry) = MACH_PORT_TYPE_NONE);
                          assert_that (ie_object entry = IO_NULL);
                          (found, st) \<leftarrow> reverse_for st p msgt;
                          if found \<noteq> None then
                            do { st \<leftarrow> unlock_port st p;
                                 st \<leftarrow> free_entry (ow_its w) st name ptr;
                                 Some (Some (Inl KERN_RIGHT_EXISTS), st, n) }
                          else
                            do { (r, st) \<leftarrow> claim_entry (ow_its w) st p name ptr (put_compat (ow_its w) p name ptr);
                                 Some (r, st, n) } } } }"

partial_function (option) ipc_object_copyout_name_compat ::
    "object_world \<Rightarrow> dn_world \<Rightarrow> nat \<Rightarrow> right_state \<Rightarrow> ptr \<Rightarrow> msgt_name \<Rightarrow> mach_port \<Rightarrow>
     (kern_return \<times> right_state) option" where
  "ipc_object_copyout_name_compat w dw n st p msgt name =
     do { assert_that (IO_VALID p);
          (r, st, n) \<leftarrow> name_compat_round w n st p msgt name;
          case r of
            None \<Rightarrow>
              do { (kr, st) \<leftarrow> compat_grow dw n st p;
                   if kr \<noteq> KERN_SUCCESS then Some (kr, st)
                   else ipc_object_copyout_name_compat w dw (n + 1) st p msgt name }
          | Some (Inl kr) \<Rightarrow> Some (kr, st)
          | Some (Inr (name, ptr)) \<Rightarrow>
              do { (kr, st) \<leftarrow> ipc_right_copyout st name ptr msgt True p;
                   assert_that (kr = KERN_SUCCESS);
                   Some (kr, st) } }"

end
