(* ===== verification/Mach_Port.thy ===== *)
theory Mach_Port
  imports Ipc_Object
begin

text \<open>
  Kernel calls on port names (\<^verbatim>\<open>kernel/ipc/mach_port.c\<close>). A call whose task port is not valid gets the
  null space: a state whose space has address \<^verbatim>\<open>IS_NULL\<close>.
\<close>

definition MACH_PORT_RIGHT_NUMBER :: nat where "MACH_PORT_RIGHT_NUMBER = 5"
definition MACH_PORT_QLIMIT_MAX :: u32 where "MACH_PORT_QLIMIT_MAX = 16"

text \<open>The lookup with which most calls begin; \<open>k\<close> continues with the space locked and active.\<close>

definition by_name ::
    "(kern_return \<Rightarrow> 'r) \<Rightarrow> right_state \<Rightarrow> mach_port \<Rightarrow> (right_state \<Rightarrow> entry_ptr \<Rightarrow> ('r \<times> right_state) option) \<Rightarrow>
     ('r \<times> right_state) option" where
  "by_name err st name k =
     (if rs_self st = IS_NULL then Some (err KERN_INVALID_TASK, st)
      else
        do { (found, st) \<leftarrow> ipc_right_lookup_write st name;
             case found of
               Inl kr \<Rightarrow> Some (err kr, st)
             | Inr ptr \<Rightarrow> k st ptr })"

definition mach_port_type ::
    "nat list \<Rightarrow> right_state \<Rightarrow> mach_port \<Rightarrow> ((kern_return + u32) \<times> right_state) option" where
  "mach_port_type its st name =
     by_name Inl st name (\<lambda>st ptr.
       do { (r, st) \<leftarrow> ipc_right_info its st name ptr;
            Some (map_sum id fst r, st) })"

definition mach_port_rename ::
    "object_world \<Rightarrow> nat \<Rightarrow> right_state \<Rightarrow> mach_port \<Rightarrow> mach_port \<Rightarrow> (kern_return \<times> right_state) option" where
  "mach_port_rename w n st oname nname =
     (if rs_self st = IS_NULL then Some (KERN_INVALID_TASK, st)
      else if \<not> MACH_PORT_VALID nname then Some (KERN_INVALID_VALUE, st)
      else ipc_object_rename w n st oname nname)"

definition mach_port_destroy ::
    "right_world \<Rightarrow> right_state \<Rightarrow> mach_port \<Rightarrow> (kern_return \<times> right_state) option" where
  "mach_port_destroy w st name = by_name id st name (\<lambda>st ptr. ipc_right_destroy w st name ptr)"

definition mach_port_deallocate ::
    "nat list \<Rightarrow> right_state \<Rightarrow> mach_port \<Rightarrow> (kern_return \<times> right_state) option" where
  "mach_port_deallocate its st name = by_name id st name (\<lambda>st ptr. ipc_right_dealloc its st name ptr)"

definition mach_port_get_refs ::
    "nat list \<Rightarrow> right_state \<Rightarrow> mach_port \<Rightarrow> nat \<Rightarrow> ((kern_return + u32) \<times> right_state) option" where
  "mach_port_get_refs its st name rgt =
     (if rs_self st = IS_NULL then Some (Inl KERN_INVALID_TASK, st)
      else if MACH_PORT_RIGHT_NUMBER \<le> rgt then Some (Inl KERN_INVALID_VALUE, st)
      else
        by_name Inl st name (\<lambda>st ptr.
          do { (r, st) \<leftarrow> ipc_right_info its st name ptr;
               case r of
                 Inl kr \<Rightarrow> Some (Inl kr, st)
               | Inr (tt, urefs) \<Rightarrow>
                   if has tt (MACH_PORT_TYPE rgt) then
                     (if rgt = MACH_PORT_RIGHT_SEND_ONCE then
                        do { assert_that (urefs = 1); Some (Inr 1, st) }
                      else if rgt = MACH_PORT_RIGHT_PORT_SET \<or> rgt = MACH_PORT_RIGHT_RECEIVE then Some (Inr 1, st)
                      else do { assert_that (0 < urefs); Some (Inr urefs, st) })
                   else Some (Inr 0, st) }))"

definition mach_port_mod_refs ::
    "right_world \<Rightarrow> right_state \<Rightarrow> mach_port \<Rightarrow> nat \<Rightarrow> u32 \<Rightarrow> (kern_return \<times> right_state) option" where
  "mach_port_mod_refs w st name rgt delta =
     (if rs_self st = IS_NULL then Some (KERN_INVALID_TASK, st)
      else if MACH_PORT_RIGHT_NUMBER \<le> rgt then Some (KERN_INVALID_VALUE, st)
      else by_name id st name (\<lambda>st ptr. ipc_right_delta w st name ptr rgt delta))"

text \<open>Calls on receive rights; \<open>k\<close> continues with the port locked.\<close>

definition by_receive ::
    "(kern_return \<Rightarrow> 'r) \<Rightarrow> right_state \<Rightarrow> mach_port \<Rightarrow> (right_state \<Rightarrow> ptr \<Rightarrow> ('r \<times> right_state) option) \<Rightarrow>
     ('r \<times> right_state) option" where
  "by_receive err st name k =
     do { (r, st) \<leftarrow> ipc_object_translate st name MACH_PORT_RIGHT_RECEIVE;
          case r of
            Inl kr \<Rightarrow> Some (err kr, st)
          | Inr p \<Rightarrow> k st p }"

definition mach_port_set_qlimit ::
    "right_state \<Rightarrow> mach_port \<Rightarrow> u32 \<Rightarrow> (kern_return \<times> right_state) option" where
  "mach_port_set_qlimit st name qlimit =
     (if rs_self st = IS_NULL then Some (KERN_INVALID_TASK, st)
      else if MACH_PORT_QLIMIT_MAX < qlimit then Some (KERN_INVALID_VALUE, st)
      else
        by_receive id st name (\<lambda>st p.
          do { st \<leftarrow> on_ports st (\<lambda>ps. ipc_port_set_qlimit ps p qlimit);
               st \<leftarrow> unlock_port st p;
               Some (KERN_SUCCESS, st) }))"

definition mach_port_set_mscount ::
    "right_state \<Rightarrow> mach_port \<Rightarrow> u32 \<Rightarrow> (kern_return \<times> right_state) option" where
  "mach_port_set_mscount st name mscount =
     (if rs_self st = IS_NULL then Some (KERN_INVALID_TASK, st)
      else
        by_receive id st name (\<lambda>st p.
          do { port \<leftarrow> port_at st p;
               assert_that (ip_active port);
               st \<leftarrow> on_port st p (\<lambda>port. port\<lparr>ip_mscount := mscount\<rparr>);
               st \<leftarrow> unlock_port st p;
               Some (KERN_SUCCESS, st) }))"

datatype notify_id = MACH_NOTIFY_PORT_DESTROYED | MACH_NOTIFY_NO_SENDERS | MACH_NOTIFY_DEAD_NAME | Other_id u32

definition mach_port_request_notification ::
    "dn_world \<Rightarrow> right_state \<Rightarrow> mach_port \<Rightarrow> notify_id \<Rightarrow> u32 \<Rightarrow> ptr \<Rightarrow>
     ((kern_return + ptr) \<times> right_state) option" where
  "mach_port_request_notification w st name msgid sync notify =
     (if rs_self st = IS_NULL then Some (Inl KERN_INVALID_TASK, st)
      else if notify = IP_DEAD then Some (Inl KERN_INVALID_CAPABILITY, st)
      else
        case msgid of
          MACH_NOTIFY_PORT_DESTROYED \<Rightarrow>
            if sync \<noteq> 0 then Some (Inl KERN_INVALID_VALUE, st)
            else
              by_receive Inl st name (\<lambda>st p.
                do { (previous, ps) \<leftarrow> ipc_port_pdrequest (rs_ports st) p notify;
                     let st = st\<lparr>rs_ports := ps\<rparr>;
                     if previous \<noteq> IP_NULL \<and> ip_pdsendp previous then
                       do { st \<leftarrow> on_ports st (\<lambda>ps. ipc_port_release_send ps (ip_pdsend previous));
                            Some (Inr IP_NULL, st) }
                     else Some (Inr previous, st) })
        | MACH_NOTIFY_NO_SENDERS \<Rightarrow>
            by_receive Inl st name (\<lambda>st p.
              do { (previous, ps) \<leftarrow> ipc_port_nsrequest (rs_ports st) p sync notify;
                   Some (Inr previous, st\<lparr>rs_ports := ps\<rparr>) })
        | MACH_NOTIFY_DEAD_NAME \<Rightarrow> ipc_right_dnrequest w 0 st name (sync \<noteq> 0) notify
        | Other_id _ \<Rightarrow> Some (Inl KERN_INVALID_VALUE, st))"

text \<open>\<^verbatim>\<open>MACH_MSG_TYPE_PORT_ANY\<close> and \<^verbatim>\<open>MACH_MSG_TYPE_PORT_ANY_RIGHT\<close>.\<close>

definition MACH_MSG_TYPE_PORT_ANY :: "msgt_name \<Rightarrow> bool" where
  "MACH_MSG_TYPE_PORT_ANY msgt \<longleftrightarrow> msgt \<noteq> MSG_TYPE_PORT \<and> msgt \<noteq> MSG_TYPE_PORT_ALL"

definition MACH_MSG_TYPE_PORT_ANY_RIGHT :: "msgt_name \<Rightarrow> bool" where
  "MACH_MSG_TYPE_PORT_ANY_RIGHT msgt \<longleftrightarrow>
     msgt \<in> {MACH_MSG_TYPE_MOVE_RECEIVE, MACH_MSG_TYPE_MOVE_SEND, MACH_MSG_TYPE_MOVE_SEND_ONCE}"

definition mach_port_insert_right ::
    "object_world \<Rightarrow> nat \<Rightarrow> right_state \<Rightarrow> mach_port \<Rightarrow> ptr \<Rightarrow> msgt_name \<Rightarrow> (kern_return \<times> right_state) option" where
  "mach_port_insert_right w n st name poly polyPoly =
     (if rs_self st = IS_NULL then Some (KERN_INVALID_TASK, st)
      else if \<not> MACH_PORT_VALID name \<or> \<not> MACH_MSG_TYPE_PORT_ANY_RIGHT polyPoly then Some (KERN_INVALID_VALUE, st)
      else if \<not> IO_VALID poly then Some (KERN_INVALID_CAPABILITY, st)
      else ipc_object_copyout_name w n st poly polyPoly False name)"

definition mach_port_extract_right ::
    "right_world \<Rightarrow> right_state \<Rightarrow> mach_port \<Rightarrow> msgt_name \<Rightarrow> ((kern_return + ptr \<times> msgt_name) \<times> right_state) option" where
  "mach_port_extract_right w st name msgt =
     (if rs_self st = IS_NULL then Some (Inl KERN_INVALID_TASK, st)
      else if \<not> MACH_MSG_TYPE_PORT_ANY msgt then Some (Inl KERN_INVALID_VALUE, st)
      else
        do { (r, st) \<leftarrow> ipc_object_copyin w st name msgt;
             Some (map_sum id (\<lambda>obj. (obj, ipc_object_copyin_type msgt)) r, st) })"

end
