(* ===== verification/Ipc_Right_View.thy ===== *)
theory Ipc_Right_View
  imports Ipc_Right_Rules Mach_Port
begin

text \<open>
  What the name operations promise, without locks, hash tables and the storage of entries. A \<open>rights_view\<close> is
  the map from names to entries and the state of the ports.
\<close>

subsection \<open>Steps on ports\<close>

named_theorems right_step \<open>the effect of one operation on a port, for a state with a space\<close>

lemma lock_port_step [right_step]:
  "ports (rs_ports st) p = Some port \<Longrightarrow> locked (rs_ports st) = {} \<Longrightarrow>
   lock_port st p = Some (st\<lparr>rs_ports := (rs_ports st)\<lparr>locked := {p}\<rparr>\<rparr>)"
  by (simp add: lock_port_def on_ports_def port_step)

lemma unlock_port_step [right_step]:
  "ports (rs_ports st) p = Some port \<Longrightarrow> locked (rs_ports st) = {p} \<Longrightarrow>
   unlock_port st p = Some (st\<lparr>rs_ports := (rs_ports st)\<lparr>locked := {}\<rparr>\<rparr>)"
  by (simp add: unlock_port_def on_ports_def port_step)

lemma on_port_step [right_step]:
  "ports (rs_ports st) p = Some port \<Longrightarrow>
   on_port st p f = Some (st\<lparr>rs_ports := (rs_ports st)\<lparr>ports := (ports (rs_ports st))(p \<mapsto> f port)\<rparr>\<rparr>)"
  by (simp add: on_port_def on_ports_def port_step)

lemma ip_release_right [right_step]:
  "ports (rs_ports st) p = Some port \<Longrightarrow>
   on_ports st (\<lambda>ps. ip_release ps p) =
     Some (st\<lparr>rs_ports := (rs_ports st)\<lparr>ports := (ports (rs_ports st))(p \<mapsto> port\<lparr>ip_references := ip_references port - 1\<rparr>)\<rparr>\<rparr>)"
  by (simp add: on_ports_def port_step)

lemma ip_reference_right [right_step]:
  "ports (rs_ports st) p = Some port \<Longrightarrow>
   on_ports st (\<lambda>ps. ip_reference ps p) =
     Some (st\<lparr>rs_ports := (rs_ports st)\<lparr>ports := (ports (rs_ports st))(p \<mapsto> port\<lparr>ip_references := ip_references port + 1\<rparr>)\<rparr>\<rparr>)"
  by (simp add: on_ports_def port_step)

text \<open>A reference given up when the port is not locked: the last one frees the port.\<close>

definition release_ref :: "ptr \<Rightarrow> port_state \<Rightarrow> port_state" where
  "release_ref p ps =
     (case ports ps p of
        None \<Rightarrow> ps
      | Some port \<Rightarrow>
          if ip_references port = 1 then emit [Port_freed p] (ps\<lparr>ports := (ports ps)(p := None)\<rparr>)
          else ps\<lparr>ports := (ports ps)(p \<mapsto> port\<lparr>ip_references := ip_references port - 1\<rparr>)\<rparr>)"

lemma port_state_eqI:
  "ports a = ports b \<Longrightarrow> locked a = locked b \<Longrightarrow> multiple a = multiple b \<Longrightarrow> timestamp_data a = timestamp_data b \<Longrightarrow>
   events a = events b \<Longrightarrow> a = (b :: port_state)"
  by (cases a; cases b) simp

lemma ipc_port_release_right [right_step]:
  assumes "ports (rs_ports st) p = Some port" and "locked (rs_ports st) = {}" and "0 < unat (ip_references port)"
  shows "on_ports st (\<lambda>ps. ipc_port_release ps p) = Some (st\<lparr>rs_ports := release_ref p (rs_ports st)\<rparr>)"
proof -
  obtain ps where ps: "ipc_port_release (rs_ports st) p = Some ps" "locked ps = {}"
      "ports ps = (ports (rs_ports st))(p := (if ip_references port = 1 then None
         else Some (port\<lparr>ip_references := ip_references port - 1\<rparr>)))"
      "events ps = events (rs_ports st) @ (if ip_references port = 1 then [Port_freed p] else [])"
      "multiple ps = multiple (rs_ports st)" "timestamp_data ps = timestamp_data (rs_ports st)"
    using ipc_port_release_step [OF assms(1,2)] assms(3) by (auto simp: word_less_nat_alt)
  have "ps = release_ref p (rs_ports st)"
    by (rule port_state_eqI) (use ps assms in \<open>simp_all add: release_ref_def\<close>)
  then show ?thesis using ps(1) by (simp add: on_ports_def)
qed

text \<open>A send right given up: the no-senders request that is due then, and the port that is left.\<close>

definition ns_due :: "ipc_port \<Rightarrow> ptr \<times> u32" where
  "ns_due port = (if ip_srights port = 1 \<and> ip_nsrequest port \<noteq> IP_NULL then (ip_nsrequest port, ip_mscount port) else (IP_NULL, 0))"

definition less_send :: "ipc_port \<Rightarrow> ipc_port" where
  "less_send port = port\<lparr>ip_srights := ip_srights port - 1,
     ip_nsrequest := (if ip_srights port = 1 then IP_NULL else ip_nsrequest port)\<rparr>"

lemma drop_sright_step [right_step]:
  assumes "ports (rs_ports st) p = Some port"
  shows "drop_sright st p = Some (ns_due port,
    st\<lparr>rs_ports := (rs_ports st)\<lparr>ports := (ports (rs_ports st))(p \<mapsto> less_send port)\<rparr>\<rparr>)"
  using assms
  by (cases port; cases "ip_srights port = 1"; cases "ip_nsrequest port = IP_NULL")
    (simp_all add: drop_sright_def port_at_def ns_due_def less_send_def on_port_step)

subsection \<open>Requests\<close>

definition cancel_request :: "nat \<Rightarrow> ipc_port \<Rightarrow> ipc_port" where
  "cancel_request i port =
     (case ip_dnrequests port of
        None \<Rightarrow> port
      | Some t \<Rightarrow>
          if i = 0 then port
          else
            let header = dn_elems t ! 0;
                elems = (dn_elems t)[i := (dn_elems t ! i)\<lparr>ipr_name := MACH_PORT_NULL, ipr_notify := ipr_notify header\<rparr>,
                                     0 := header\<lparr>ipr_notify := of_nat i\<rparr>]
            in port\<lparr>ip_dnrequests := Some (t\<lparr>dn_elems := elems\<rparr>)\<rparr>)"

definition request_port :: "ipc_port \<Rightarrow> nat \<Rightarrow> ptr" where
  "request_port port i = (case port_requests port i of None \<Rightarrow> IP_NULL | Some (_, notify) \<Rightarrow> notify)"

lemma dncancel_exact:
  assumes port: "ports st p = Some port" "ip_active port" "port_dn_ok sizes port"
    and req: "port_requests port i = Some (name, soright)" and i: "i < 2 ^ 32"
  shows "ipc_port_dncancel st p name (of_nat i) = Some (soright, st\<lparr>ports := (ports st)(p \<mapsto> cancel_request i port)\<rparr>)"
    and "port_dn_ok sizes (cancel_request i port)"
    and "port_requests (cancel_request i port) = (port_requests port)(i := None)"
proof -
  have ui: "unat (of_nat i :: u32) = i" using i by (simp add: unat_of_nat)
  obtain port' where r: "ipc_port_dncancel st p name (of_nat i) = Some (soright, st\<lparr>ports := (ports st)(p \<mapsto> port')\<rparr>)"
    "port_dn_ok sizes port'" "port_requests port' = (port_requests port)(i := None)"
    using dncancel_ok [OF port, of "of_nat i" name soright] req ui by auto
  have "port' = cancel_request i port"
  proof -
    have "Some (soright, st\<lparr>ports := (ports st)(p \<mapsto> port')\<rparr>) = Some (soright, st\<lparr>ports := (ports st)(p \<mapsto> cancel_request i port)\<rparr>)"
      using r(1) port(1) ui unfolding ipc_port_dncancel_def
      by (auto simp: cancel_request_def Let_def upd_port_def arr_get_def arr_set_def assert_that_def split: option.splits if_splits)
    then have "ports (st\<lparr>ports := (ports st)(p \<mapsto> port')\<rparr>) p = ports (st\<lparr>ports := (ports st)(p \<mapsto> cancel_request i port)\<rparr>) p"
      by simp
    then show ?thesis by simp
  qed
  with r show "ipc_port_dncancel st p name (of_nat i) = Some (soright, st\<lparr>ports := (ports st)(p \<mapsto> cancel_request i port)\<rparr>)"
    "port_dn_ok sizes (cancel_request i port)" "port_requests (cancel_request i port) = (port_requests port)(i := None)"
    by simp_all
qed

end
