(* ===== verification/Ipc_Right_Ops.thy ===== *)
theory Ipc_Right_Ops
  imports Ipc_Right_View
begin

text \<open>
  The operations that give up rights, as functions on views, and the proof that the code does what they say.
\<close>

subsection \<open>Views\<close>

record rights_view =
  rv_self :: ptr
  rv_entries :: "mach_port \<Rightarrow> ipc_entry option"
  rv_ports :: port_state

definition models :: "nat list \<Rightarrow> right_state \<Rightarrow> rights_view \<Rightarrow> bool" where
  "models its st v \<longleftrightarrow>
     rep its st {} (rv_entries v) (sends (rv_entries v)) \<and> rs_ports st = rv_ports v \<and> rs_self st = rv_self v"

definition put_entry :: "mach_port \<Rightarrow> ipc_entry \<Rightarrow> rights_view \<Rightarrow> rights_view" where
  "put_entry n e v = v\<lparr>rv_entries := (rv_entries v)(n \<mapsto> e)\<rparr>"

definition remove_entry :: "mach_port \<Rightarrow> rights_view \<Rightarrow> rights_view" where
  "remove_entry n v = v\<lparr>rv_entries := (rv_entries v)(n := None)\<rparr>"

definition map_port :: "ptr \<Rightarrow> (ipc_port \<Rightarrow> ipc_port) \<Rightarrow> rights_view \<Rightarrow> rights_view" where
  "map_port p f v = v\<lparr>rv_ports := (rv_ports v)\<lparr>ports := (ports (rv_ports v))(p := map_option f (ports (rv_ports v) p))\<rparr>\<rparr>"

definition post :: "port_event list \<Rightarrow> rights_view \<Rightarrow> rights_view" where
  "post es v = v\<lparr>rv_ports := emit es (rv_ports v)\<rparr>"

lemmas view_defs = put_entry_def remove_entry_def map_port_def post_def

text \<open>The event of a name whose message-accepted request is cancelled with its right.\<close>

definition ma_event :: "ptr \<Rightarrow> mach_port \<Rightarrow> u32 \<Rightarrow> port_event list" where
  "ma_event self n bits = (if has bits IE_BITS_MAREQUEST then [Marequest_cancel self n] else [])"

text \<open>The entry of a right whose port has died, and the name after this was noticed.\<close>

definition dead_name :: "ipc_entry \<Rightarrow> ipc_entry" where
  "dead_name e = e\<lparr>ie_bits := dead_bits (ie_bits e) (ie_request e \<noteq> 0), ie_object := IO_NULL, ie_request := 0\<rparr>"

definition bury :: "mach_port \<Rightarrow> ipc_entry \<Rightarrow> rights_view \<Rightarrow> rights_view" where
  "bury n e v =
     (let v = post (ma_event (rv_self v) n (ie_bits e)) (put_entry n (dead_name e) v)
      in v\<lparr>rv_ports := release_ref (ie_object e) (rv_ports v)\<rparr>)"

subsection \<open>Invariant\<close>

text \<open>
  How many names denote the port \<open>p\<close> with a type in \<open>T\<close>. A name with any right on a port holds a
  reference, one with \<^verbatim>\<open>MACH_PORT_TYPE_SEND\<close> or \<^verbatim>\<open>MACH_PORT_TYPE_SEND_RECEIVE\<close> one send right (whatever its
  number of user references), one with \<^verbatim>\<open>MACH_PORT_TYPE_SEND_ONCE\<close> one send-once right.
\<close>

definition denotes :: "u32 set \<Rightarrow> ptr \<Rightarrow> ipc_entry option \<Rightarrow> bool" where
  "denotes T p x = (case x of None \<Rightarrow> False | Some e \<Rightarrow> ie_object e = p \<and> ie_type e \<in> T)"

definition names_of :: "u32 set \<Rightarrow> (mach_port \<Rightarrow> ipc_entry option) \<Rightarrow> ptr \<Rightarrow> nat" where
  "names_of T E p = card {n. denotes T p (E n)}"

definition send_types :: "u32 set" where
  "send_types = {MACH_PORT_TYPE_SEND, MACH_PORT_TYPE_SEND_RECEIVE}"
definition receive_types :: "u32 set" where
  "receive_types = {MACH_PORT_TYPE_RECEIVE, MACH_PORT_TYPE_SEND_RECEIVE}"
definition once_types :: "u32 set" where
  "once_types = {MACH_PORT_TYPE_SEND_ONCE}"
definition port_types :: "u32 set" where
  "port_types = {MACH_PORT_TYPE_SEND, MACH_PORT_TYPE_RECEIVE, MACH_PORT_TYPE_SEND_RECEIVE, MACH_PORT_TYPE_SEND_ONCE}"

lemmas type_sets = send_types_def receive_types_def once_types_def port_types_def

text \<open>What is held outside of the space: send rights, send-once rights and references.\<close>

definition outside :: "u32 set \<Rightarrow> (ipc_port \<Rightarrow> u32) \<Rightarrow> rights_view \<Rightarrow> ptr \<Rightarrow> int" where
  "outside T f v p =
     (case ports (rv_ports v) p of None \<Rightarrow> 0 | Some port \<Rightarrow> uint (f port) - int (names_of T (rv_entries v) p))"

abbreviation outside_sends :: "rights_view \<Rightarrow> ptr \<Rightarrow> int" where
  "outside_sends \<equiv> outside send_types ip_srights"
abbreviation outside_onces :: "rights_view \<Rightarrow> ptr \<Rightarrow> int" where
  "outside_onces \<equiv> outside once_types ip_sorights"
abbreviation outside_refs :: "rights_view \<Rightarrow> ptr \<Rightarrow> int" where
  "outside_refs \<equiv> outside port_types ip_references"

text \<open>An entry agrees with the port it denotes.\<close>

definition request_ok :: "mach_port \<Rightarrow> ipc_entry \<Rightarrow> ipc_port \<Rightarrow> bool" where
  "request_ok n e port \<longleftrightarrow>
     ie_request e < 2 ^ 32 \<and>
     (ie_request e \<noteq> 0 \<and> ip_active port \<longrightarrow>
        (case port_requests port (ie_request e) of
           None \<Rightarrow> False
         | Some (name, notify) \<Rightarrow> name = n \<and> \<not> ipr_spacep notify))"

definition port_entry_ok :: "ptr \<Rightarrow> mach_port \<Rightarrow> ipc_entry \<Rightarrow> ipc_port \<Rightarrow> bool" where
  "port_entry_ok self n e port \<longleftrightarrow>
     request_ok n e port \<and>
     (let t = ie_type e; u = IE_BITS_UREFS (ie_bits e) in
      (t = MACH_PORT_TYPE_SEND \<longrightarrow> 0 < u \<and> u < MACH_PORT_UREFS_MAX \<and> (ip_active port \<longrightarrow> ip_data port \<noteq> self)) \<and>
      (t = MACH_PORT_TYPE_SEND_ONCE \<longrightarrow> u = 1 \<and> \<not> has (ie_bits e) IE_BITS_MAREQUEST) \<and>
      (t = MACH_PORT_TYPE_RECEIVE \<longrightarrow> u = 0) \<and>
      (t = MACH_PORT_TYPE_SEND_RECEIVE \<longrightarrow> 0 < u \<and> u < MACH_PORT_UREFS_MAX) \<and>
      (t \<in> receive_types \<longrightarrow> ip_active port \<and> ip_receiver_name port = n \<and> ip_data port = self))"

definition entry_fits :: "rights_view \<Rightarrow> mach_port \<Rightarrow> ipc_entry \<Rightarrow> bool" where
  "entry_fits v n e \<longleftrightarrow>
     \<not> has (ie_bits e) IE_BITS_COMPAT \<and>
     (if ie_type e = MACH_PORT_TYPE_DEAD_NAME then
        ie_object e = IO_NULL \<and> ie_request e = 0 \<and> \<not> has (ie_bits e) IE_BITS_MAREQUEST \<and> 0 < IE_BITS_UREFS (ie_bits e)
      else if ie_type e = MACH_PORT_TYPE_PORT_SET then
        ie_object e \<noteq> IO_NULL \<and> ie_request e = 0 \<and> \<not> has (ie_bits e) IE_BITS_MAREQUEST \<and> IE_BITS_UREFS (ie_bits e) = 0
      else
        ie_type e \<in> port_types \<and> IO_VALID (ie_object e) \<and>
        (case ports (rv_ports v) (ie_object e) of None \<Rightarrow> False | Some port \<Rightarrow> port_entry_ok (rv_self v) n e port))"

text \<open>
  A port has a reference for each name, and a live port whose receive right is not in the space one more.
\<close>

definition port_fits :: "nat list \<Rightarrow> rights_view \<Rightarrow> ptr \<Rightarrow> ipc_port \<Rightarrow> bool" where
  "port_fits sizes v p port \<longleftrightarrow>
     port_dn_ok sizes port \<and> 0 \<le> outside_refs v p \<and>
     (ip_active port \<longrightarrow>
        0 \<le> outside_sends v p \<and> 0 \<le> outside_onces v p \<and>
        (if ip_data port = rv_self v
         then denotes receive_types p (rv_entries v (ip_receiver_name port))
         else 0 < outside_refs v p))"

definition view_ok :: "nat list \<Rightarrow> rights_view \<Rightarrow> bool" where
  "view_ok sizes v \<longleftrightarrow>
     rv_self v \<noteq> IS_NULL \<and> locked (rv_ports v) = {} \<and>
     (\<forall>n e. rv_entries v n = Some e \<longrightarrow> entry_fits v n e) \<and>
     (\<forall>p port. ports (rv_ports v) p = Some port \<longrightarrow> port_fits sizes v p port)"

lemma names_of_upd: "names_of T (E(n := x)) p = names_of T (E(n := None)) p + (if denotes T p x then 1 else 0)"
proof -
  have "{m. denotes T p ((E(n := x)) m)} = {m. denotes T p ((E(n := None)) m)} \<union> (if denotes T p x then {n} else {})"
    by (auto simp: denotes_def)
  moreover have "n \<notin> {m. denotes T p ((E(n := None)) m)}" by (simp add: denotes_def)
  ultimately show ?thesis by (auto simp: names_of_def)
qed

lemma names_of_split: "names_of T E p = names_of T (E(n := None)) p + (if denotes T p (E n) then 1 else 0)"
  using names_of_upd [of T E n "E n" p] by (simp only: fun_upd_triv)

lemma view_okD:
  assumes "view_ok sizes v"
  shows "rv_self v \<noteq> IS_NULL" "locked (rv_ports v) = {}"
    and "rv_entries v n = Some e \<Longrightarrow> entry_fits v n e"
    and "ports (rv_ports v) p = Some port \<Longrightarrow> port_fits sizes v p port"
  using assms unfolding view_ok_def by blast+

lemma entry_port:
  assumes "view_ok sizes v" and "rv_entries v n = Some e" and "ie_type e \<in> port_types"
  obtains port where "ports (rv_ports v) (ie_object e) = Some port" and "port_entry_ok (rv_self v) n e port"
    and "port_fits sizes v (ie_object e) port" and "IO_VALID (ie_object e)"
proof -
  have "ie_type e \<noteq> MACH_PORT_TYPE_DEAD_NAME" "ie_type e \<noteq> MACH_PORT_TYPE_PORT_SET"
    using assms(3) by (auto simp: type_sets type_values)
  then show ?thesis
    using view_okD(3) [OF assms(1,2)] view_okD(4) [OF assms(1)] that by (auto simp: entry_fits_def split: option.splits)
qed

lemma entry_refs:
  assumes "rv_entries v n = Some e" and "ie_type e \<in> port_types" and "ports (rv_ports v) (ie_object e) = Some port"
    and "port_fits sizes v (ie_object e) port"
  shows "0 < uint (ip_references port)" and "0 < unat (ip_references port)"
proof -
  have "denotes port_types (ie_object e) (rv_entries v n)" using assms by (simp add: denotes_def)
  then have "0 < names_of port_types (rv_entries v) (ie_object e)"
    using names_of_split [of port_types "rv_entries v" "ie_object e" n] by simp
  then show "0 < uint (ip_references port)" using assms(3,4) by (simp add: port_fits_def outside_def)
  then show "0 < unat (ip_references port)" using unat_eq_zero [of "ip_references port"] by (cases "ip_references port = 0") simp_all
qed

subsection \<open>Requests and dead ports\<close>

lemma upd_rule:
  assumes "rep its st R E H" and "E n = Some e" and "ptr = ptr_of (rs_space st) n"
    and "\<And>i. f (e\<lparr>ie_index := i\<rparr>) = (f e)\<lparr>ie_index := i\<rparr>" and "ie_bits (f e) AND IE_BITS_COLLISION = 0"
    and "n \<in> H \<Longrightarrow> ie_object (f e) = ie_object e" and "n \<in> R \<or> ie_type (f e) \<noteq> 0"
    and "\<And>st'. rep its st' R (E(n \<mapsto> f e)) H \<Longrightarrow> frame st st' \<Longrightarrow> Q st'"
  shows "returns (upd_entry st ptr f) Q"
  using assms upd_reserved_rule [of its st R E H n e ptr f Q] upd_entry_rule [of its st R E H n e ptr f Q] by blast

lemma frame_refl: "frame st st"
  by (simp add: frame_def)

lemma frame_trans: "frame st st' \<Longrightarrow> frame st' st'' \<Longrightarrow> frame st st''"
  by (simp add: frame_def)

lemma frame_ports: "frame st st' \<Longrightarrow> frame (st\<lparr>rs_ports := ps\<rparr>) (st'\<lparr>rs_ports := ps\<rparr>)"
  by (simp add: frame_def)

lemma dncancel_rule:
  assumes rep: "rep its st R E H" and e: "E n = Some e" and ptr: "ptr = ptr_of (rs_space st) n" and p: "p = ie_object e"
    and port: "ports (rs_ports st) p = Some port" "ip_active port" "port_dn_ok sizes port" "request_ok n e port"
    and new: "\<not> has (ie_bits e) IE_BITS_COMPAT"
    and Q: "\<And>st'. rep its st' R (E(n \<mapsto> e\<lparr>ie_request := 0\<rparr>)) H \<Longrightarrow>
      frame (st\<lparr>rs_ports := (rs_ports st)\<lparr>ports := (ports (rs_ports st))(p \<mapsto> cancel_request (ie_request e) port)\<rparr>\<rparr>) st' \<Longrightarrow>
      Q (request_port port (ie_request e), st')"
  shows "returns (ipc_right_dncancel_macro st p n ptr) Q"
proof (cases "ie_request e = 0")
  case True
  have "e\<lparr>ie_request := 0\<rparr> = e" using True by (cases e) simp
  then have E: "E(n \<mapsto> e\<lparr>ie_request := 0\<rparr>) = E" using e by auto
  have c: "cancel_request 0 port = port" "request_port port 0 = IP_NULL"
    by (simp_all add: cancel_request_def request_port_def port_requests_def dn_requests_def split: option.splits)
  have "(ports (rs_ports st))(p \<mapsto> port) = ports (rs_ports st)" using port(1) by auto
  then have "Q (IP_NULL, st)" using Q [of st] rep E True c frame_refl [of st] by simp
  then show ?thesis
    unfolding ipc_right_dncancel_macro_def using True by (auto intro: entry_at_rule [OF rep e ptr])
next
  case False
  obtain notify where req: "port_requests port (ie_request e) = Some (n, notify)" "\<not> ipr_spacep notify" "ie_request e < 2 ^ 32"
    using port(2,4) False by (auto simp: request_ok_def split: option.splits)
  note c = dncancel_exact(1) [OF port(1-3) req(1,3)]
  let ?st = "st\<lparr>rs_ports := (rs_ports st)\<lparr>ports := (ports (rs_ports st))(p \<mapsto> cancel_request (ie_request e) port)\<rparr>\<rparr>"
  have up: "returns (upd_entry ?st ptr (\<lambda>e. e\<lparr>ie_request := 0\<rparr>)) (\<lambda>st'. Q (notify, st'))"
    by (rule upd_rule [where its = its and R = R and E = E and H = H and e = e])
      (use rep e ptr rep_in_use [OF rep e] Q req in \<open>auto simp: request_port_def\<close>)
  show ?thesis
    unfolding ipc_right_dncancel_macro_def ipc_right_dncancel_def returns_bind
    by (intro entry_at_rule [OF rep e ptr]) (use False c p port req(2) new up in \<open>auto simp: port_at_def intro!: entry_at_rule [OF rep e ptr]\<close>)
qed

text \<open>What no operation changes that does not allocate: where the entries are, and other spaces.\<close>

definition kept :: "right_state \<Rightarrow> right_state \<Rightarrow> bool" where
  "kept st st' \<longleftrightarrow> frame (st\<lparr>rs_ports := rs_ports st'\<rparr>) st'"

lemma keptI: "frame (st\<lparr>rs_ports := ps\<rparr>) st' \<Longrightarrow> kept st st'" "frame st st' \<Longrightarrow> kept st st'"
  by (simp_all add: kept_def frame_def)

lemma kept_refl [simp]: "kept st st"
  by (simp add: kept_def frame_refl)

lemma kept_ports [simp]: "kept st (st'\<lparr>rs_ports := ps\<rparr>) = kept st st'"
  by (simp add: kept_def frame_def)

lemma kept_trans: "kept st st' \<Longrightarrow> kept st' st'' \<Longrightarrow> kept st st''"
  by (simp add: kept_def frame_def)

lemma kept_ptr: "kept st st' \<Longrightarrow> ptr_of (rs_space st') = ptr_of (rs_space st)" "kept st st' \<Longrightarrow> rs_self st' = rs_self st"
  by (simp_all add: kept_def frame_def)

lemma modelsD:
  assumes "models its st v"
  shows "rep its st {} (rv_entries v) (sends (rv_entries v))" "rs_ports st = rv_ports v" "rs_self st = rv_self v"
  using assms by (simp_all add: models_def)

lemma modelsI:
  assumes "rep its st' {} E' (sends E')" and "kept st st'" and "rs_self st = rv_self v" and "rs_ports st' = ps"
  shows "models its st' (v\<lparr>rv_entries := E', rv_ports := ps\<rparr>)"
  using assms kept_ptr(2) [of st st'] by (simp add: models_def)

lemma check_live_rule:
  assumes m: "models its st v" and ok: "view_ok sizes v" and e: "rv_entries v n = Some e"
    and ptr: "ptr = ptr_of (rs_space st) n" and p: "p = ie_object e"
    and port: "ports (rv_ports v) p = Some port" "ip_active port"
    and Q: "Q (False, st\<lparr>rs_ports := (rv_ports v)\<lparr>locked := {p}\<rparr>\<rparr>)"
  shows "returns (ipc_right_check its st p n ptr) Q"
proof -
  note rep = modelsD(1) [OF m]
  show ?thesis
    unfolding ipc_right_check_def returns_bind returns_assert
    by (rule conjI [OF rep_active [OF rep] entry_at_rule [OF rep e ptr]])
      (use m port p Q view_okD(2) [OF ok] in \<open>simp add: modelsD lock_port_step port_at_def\<close>)
qed

lemma type_tests:
  assumes "ie_type e = t"
  shows "ie_bits e AND MACH_PORT_TYPE_SEND = t AND MACH_PORT_TYPE_SEND"
    and "ie_bits e AND MACH_PORT_TYPE_RECEIVE = t AND MACH_PORT_TYPE_RECEIVE"
    and "ie_bits e AND MACH_PORT_TYPE_SEND_ONCE = t AND MACH_PORT_TYPE_SEND_ONCE"
    and "ie_bits e AND MACH_PORT_TYPE_PORT_SET = t AND MACH_PORT_TYPE_PORT_SET"
    and "ie_bits e AND MACH_PORT_TYPE_DEAD_NAME = t AND MACH_PORT_TYPE_DEAD_NAME"
    and "ie_bits e AND MACH_PORT_TYPE_SEND_RIGHTS = t AND MACH_PORT_TYPE_SEND_RIGHTS"
    and "ie_bits e AND MACH_PORT_TYPE_SEND_RECEIVE = t AND MACH_PORT_TYPE_SEND_RECEIVE"
    and "ie_bits e AND MACH_PORT_TYPE_PORT_RIGHTS = t AND MACH_PORT_TYPE_PORT_RIGHTS"
  unfolding assms [symmetric]
  by (rule has_type; simp add: type_values IE_BITS_TYPE_MASK_def)+

text \<open>The types are distinct, and which tests each of them passes.\<close>

lemma type_distinct [simp]:
  "MACH_PORT_TYPE_SEND \<noteq> MACH_PORT_TYPE_RECEIVE" "MACH_PORT_TYPE_SEND \<noteq> MACH_PORT_TYPE_SEND_ONCE"
  "MACH_PORT_TYPE_SEND \<noteq> MACH_PORT_TYPE_PORT_SET" "MACH_PORT_TYPE_SEND \<noteq> MACH_PORT_TYPE_DEAD_NAME"
  "MACH_PORT_TYPE_SEND \<noteq> MACH_PORT_TYPE_SEND_RECEIVE" "MACH_PORT_TYPE_SEND \<noteq> MACH_PORT_TYPE_NONE"
  "MACH_PORT_TYPE_RECEIVE \<noteq> MACH_PORT_TYPE_SEND" "MACH_PORT_TYPE_RECEIVE \<noteq> MACH_PORT_TYPE_SEND_ONCE"
  "MACH_PORT_TYPE_RECEIVE \<noteq> MACH_PORT_TYPE_PORT_SET" "MACH_PORT_TYPE_RECEIVE \<noteq> MACH_PORT_TYPE_DEAD_NAME"
  "MACH_PORT_TYPE_RECEIVE \<noteq> MACH_PORT_TYPE_SEND_RECEIVE" "MACH_PORT_TYPE_RECEIVE \<noteq> MACH_PORT_TYPE_NONE"
  "MACH_PORT_TYPE_SEND_ONCE \<noteq> MACH_PORT_TYPE_SEND" "MACH_PORT_TYPE_SEND_ONCE \<noteq> MACH_PORT_TYPE_RECEIVE"
  "MACH_PORT_TYPE_SEND_ONCE \<noteq> MACH_PORT_TYPE_PORT_SET" "MACH_PORT_TYPE_SEND_ONCE \<noteq> MACH_PORT_TYPE_DEAD_NAME"
  "MACH_PORT_TYPE_SEND_ONCE \<noteq> MACH_PORT_TYPE_SEND_RECEIVE" "MACH_PORT_TYPE_SEND_ONCE \<noteq> MACH_PORT_TYPE_NONE"
  "MACH_PORT_TYPE_PORT_SET \<noteq> MACH_PORT_TYPE_SEND" "MACH_PORT_TYPE_PORT_SET \<noteq> MACH_PORT_TYPE_RECEIVE"
  "MACH_PORT_TYPE_PORT_SET \<noteq> MACH_PORT_TYPE_SEND_ONCE" "MACH_PORT_TYPE_PORT_SET \<noteq> MACH_PORT_TYPE_DEAD_NAME"
  "MACH_PORT_TYPE_PORT_SET \<noteq> MACH_PORT_TYPE_SEND_RECEIVE" "MACH_PORT_TYPE_PORT_SET \<noteq> MACH_PORT_TYPE_NONE"
  "MACH_PORT_TYPE_DEAD_NAME \<noteq> MACH_PORT_TYPE_SEND" "MACH_PORT_TYPE_DEAD_NAME \<noteq> MACH_PORT_TYPE_RECEIVE"
  "MACH_PORT_TYPE_DEAD_NAME \<noteq> MACH_PORT_TYPE_SEND_ONCE" "MACH_PORT_TYPE_DEAD_NAME \<noteq> MACH_PORT_TYPE_PORT_SET"
  "MACH_PORT_TYPE_DEAD_NAME \<noteq> MACH_PORT_TYPE_SEND_RECEIVE" "MACH_PORT_TYPE_DEAD_NAME \<noteq> MACH_PORT_TYPE_NONE"
  "MACH_PORT_TYPE_SEND_RECEIVE \<noteq> MACH_PORT_TYPE_SEND" "MACH_PORT_TYPE_SEND_RECEIVE \<noteq> MACH_PORT_TYPE_RECEIVE"
  "MACH_PORT_TYPE_SEND_RECEIVE \<noteq> MACH_PORT_TYPE_SEND_ONCE" "MACH_PORT_TYPE_SEND_RECEIVE \<noteq> MACH_PORT_TYPE_PORT_SET"
  "MACH_PORT_TYPE_SEND_RECEIVE \<noteq> MACH_PORT_TYPE_DEAD_NAME" "MACH_PORT_TYPE_SEND_RECEIVE \<noteq> MACH_PORT_TYPE_NONE"
  "MACH_PORT_TYPE_NONE \<noteq> MACH_PORT_TYPE_SEND" "MACH_PORT_TYPE_NONE \<noteq> MACH_PORT_TYPE_RECEIVE"
  "MACH_PORT_TYPE_NONE \<noteq> MACH_PORT_TYPE_SEND_ONCE" "MACH_PORT_TYPE_NONE \<noteq> MACH_PORT_TYPE_PORT_SET"
  "MACH_PORT_TYPE_NONE \<noteq> MACH_PORT_TYPE_DEAD_NAME" "MACH_PORT_TYPE_NONE \<noteq> MACH_PORT_TYPE_SEND_RECEIVE"
  by (simp_all add: type_values)

lemma send_tests:
  assumes "ie_type e = MACH_PORT_TYPE_SEND"
  shows "ie_bits e AND MACH_PORT_TYPE_SEND \<noteq> 0" "ie_bits e AND MACH_PORT_TYPE_RECEIVE = 0"
    "ie_bits e AND MACH_PORT_TYPE_SEND_ONCE = 0" "ie_bits e AND MACH_PORT_TYPE_PORT_SET = 0"
    "ie_bits e AND MACH_PORT_TYPE_DEAD_NAME = 0" "ie_bits e AND MACH_PORT_TYPE_SEND_RECEIVE \<noteq> 0"
    "ie_bits e AND MACH_PORT_TYPE_SEND_RIGHTS \<noteq> 0" "ie_bits e AND MACH_PORT_TYPE_PORT_RIGHTS \<noteq> 0"
  unfolding type_tests [OF assms] by (simp_all add: type_values)

lemma receive_tests:
  assumes "ie_type e = MACH_PORT_TYPE_RECEIVE"
  shows "ie_bits e AND MACH_PORT_TYPE_SEND = 0" "ie_bits e AND MACH_PORT_TYPE_RECEIVE \<noteq> 0"
    "ie_bits e AND MACH_PORT_TYPE_SEND_ONCE = 0" "ie_bits e AND MACH_PORT_TYPE_PORT_SET = 0"
    "ie_bits e AND MACH_PORT_TYPE_DEAD_NAME = 0" "ie_bits e AND MACH_PORT_TYPE_SEND_RECEIVE \<noteq> 0"
    "ie_bits e AND MACH_PORT_TYPE_SEND_RIGHTS = 0" "ie_bits e AND MACH_PORT_TYPE_PORT_RIGHTS \<noteq> 0"
  unfolding type_tests [OF assms] by (simp_all add: type_values)

lemma once_tests:
  assumes "ie_type e = MACH_PORT_TYPE_SEND_ONCE"
  shows "ie_bits e AND MACH_PORT_TYPE_SEND = 0" "ie_bits e AND MACH_PORT_TYPE_RECEIVE = 0"
    "ie_bits e AND MACH_PORT_TYPE_SEND_ONCE \<noteq> 0" "ie_bits e AND MACH_PORT_TYPE_PORT_SET = 0"
    "ie_bits e AND MACH_PORT_TYPE_DEAD_NAME = 0" "ie_bits e AND MACH_PORT_TYPE_SEND_RECEIVE = 0"
    "ie_bits e AND MACH_PORT_TYPE_SEND_RIGHTS \<noteq> 0" "ie_bits e AND MACH_PORT_TYPE_PORT_RIGHTS \<noteq> 0"
  unfolding type_tests [OF assms] by (simp_all add: type_values)

lemma pset_tests:
  assumes "ie_type e = MACH_PORT_TYPE_PORT_SET"
  shows "ie_bits e AND MACH_PORT_TYPE_SEND = 0" "ie_bits e AND MACH_PORT_TYPE_RECEIVE = 0"
    "ie_bits e AND MACH_PORT_TYPE_SEND_ONCE = 0" "ie_bits e AND MACH_PORT_TYPE_PORT_SET \<noteq> 0"
    "ie_bits e AND MACH_PORT_TYPE_DEAD_NAME = 0" "ie_bits e AND MACH_PORT_TYPE_SEND_RECEIVE = 0"
    "ie_bits e AND MACH_PORT_TYPE_SEND_RIGHTS = 0" "ie_bits e AND MACH_PORT_TYPE_PORT_RIGHTS = 0"
  unfolding type_tests [OF assms] by (simp_all add: type_values)

lemma dead_tests:
  assumes "ie_type e = MACH_PORT_TYPE_DEAD_NAME"
  shows "ie_bits e AND MACH_PORT_TYPE_SEND = 0" "ie_bits e AND MACH_PORT_TYPE_RECEIVE = 0"
    "ie_bits e AND MACH_PORT_TYPE_SEND_ONCE = 0" "ie_bits e AND MACH_PORT_TYPE_PORT_SET = 0"
    "ie_bits e AND MACH_PORT_TYPE_DEAD_NAME \<noteq> 0" "ie_bits e AND MACH_PORT_TYPE_SEND_RECEIVE = 0"
    "ie_bits e AND MACH_PORT_TYPE_SEND_RIGHTS = 0" "ie_bits e AND MACH_PORT_TYPE_PORT_RIGHTS = 0"
  unfolding type_tests [OF assms] by (simp_all add: type_values)

lemma send_receive_tests:
  assumes "ie_type e = MACH_PORT_TYPE_SEND_RECEIVE"
  shows "ie_bits e AND MACH_PORT_TYPE_SEND \<noteq> 0" "ie_bits e AND MACH_PORT_TYPE_RECEIVE \<noteq> 0"
    "ie_bits e AND MACH_PORT_TYPE_SEND_ONCE = 0" "ie_bits e AND MACH_PORT_TYPE_PORT_SET = 0"
    "ie_bits e AND MACH_PORT_TYPE_DEAD_NAME = 0" "ie_bits e AND MACH_PORT_TYPE_SEND_RECEIVE \<noteq> 0"
    "ie_bits e AND MACH_PORT_TYPE_SEND_RIGHTS \<noteq> 0" "ie_bits e AND MACH_PORT_TYPE_PORT_RIGHTS \<noteq> 0"
  unfolding type_tests [OF assms] by (simp_all add: type_values)

lemma none_tests:
  assumes "ie_type e = MACH_PORT_TYPE_NONE"
  shows "ie_bits e AND MACH_PORT_TYPE_SEND = 0" "ie_bits e AND MACH_PORT_TYPE_RECEIVE = 0"
    "ie_bits e AND MACH_PORT_TYPE_SEND_ONCE = 0" "ie_bits e AND MACH_PORT_TYPE_PORT_SET = 0"
    "ie_bits e AND MACH_PORT_TYPE_DEAD_NAME = 0" "ie_bits e AND MACH_PORT_TYPE_SEND_RECEIVE = 0"
    "ie_bits e AND MACH_PORT_TYPE_SEND_RIGHTS = 0" "ie_bits e AND MACH_PORT_TYPE_PORT_RIGHTS = 0"
  unfolding type_tests [OF assms] by (simp_all add: type_values)

lemma sends_upd: "sends (E(n \<mapsto> e)) = (if ie_type e = MACH_PORT_TYPE_SEND then insert n (sends E) else sends E - {n})"
  by (auto simp: sends_def)

lemma sends_remove: "sends (E(n := None)) = sends E - {n}"
  by (auto simp: sends_def)

lemma in_sends: "E n = Some e \<Longrightarrow> n \<in> sends E \<longleftrightarrow> ie_type e = MACH_PORT_TYPE_SEND"
  by (auto simp: sends_def)

lemma unlocked: "locked ps = {} \<Longrightarrow> ps\<lparr>locked := {}\<rparr> = (ps :: port_state)"
  by (cases ps) simp

lemma emit_Nil [simp]: "emit [] ps = ps"
  by (simp add: emit_def)

lemma emit_upds [simp]:
  "(emit es ps)\<lparr>ports := x\<rparr> = emit es (ps\<lparr>ports := x\<rparr>)" "(emit es ps)\<lparr>locked := l\<rparr> = emit es (ps\<lparr>locked := l\<rparr>)"
  "emit es' (emit es ps) = emit (es @ es') ps" "ps\<lparr>locked := l, ports := x\<rparr> = ps\<lparr>ports := x, locked := l\<rparr>"
  by (simp_all add: emit_def)

lemma mask_absent: "b AND M = 0 \<Longrightarrow> b AND NOT M = (b :: u32)"
  by (rule bit_eqI) (metis bit_and_iff bit_not_iff bit_0_eq bot_apply bot_bool_def)

lemma dead_urefs:
  "IE_BITS_UREFS (b AND NOT IE_BITS_MAREQUEST) = IE_BITS_UREFS b"
  "IE_BITS_UREFS (b AND NOT IE_BITS_TYPE_MASK OR MACH_PORT_TYPE_DEAD_NAME) = IE_BITS_UREFS b"
  by (simp_all add: type_values IE_BITS_UREFS_def mask_values mask_rules)

lemma bury_rule:
  assumes rep: "rep its st {} E H" and e: "E n = Some e" and ptr: "ptr = ptr_of (rs_space st) n" and n: "n \<notin> H"
    and port: "ports (rs_ports st) (ie_object e) = Some port" "locked (rs_ports st) = {}" "0 < unat (ip_references port)"
    and b: "b = dead_bits (ie_bits e) (ie_request e \<noteq> 0)" and u: "ie_request e \<noteq> 0 \<Longrightarrow> IE_BITS_UREFS (ie_bits e) < MACH_PORT_UREFS_MAX"
    and Q: "\<And>st'. rep its st' {} (E(n \<mapsto> dead_name e)) H \<Longrightarrow>
      frame (st\<lparr>rs_ports := release_ref (ie_object e) (rs_ports st)\<rparr>) st' \<Longrightarrow> Q st'"
  shows "returns (on_ports st (\<lambda>ps. ipc_port_release ps (ie_object e)))
    (\<lambda>st. returns (upd_entry st ptr (\<lambda>e. e\<lparr>ie_bits := b, ie_object := IO_NULL, ie_request := 0\<rparr>)) Q)"
proof -
  note d = dead_bits [of "ie_request e \<noteq> 0" "ie_bits e", OF u]
  show ?thesis
    unfolding ipc_port_release_right [OF port] returns_Some
    by (rule upd_rule [where its = its and R = "{}" and E = E and H = H and e = e and n = n])
      (use rep e ptr n b d rep_in_use [OF rep e] Q in \<open>simp_all add: dead_name_def type_values\<close>)
qed

lemma check_dead_rule:
  assumes m: "models its st v" and ok: "view_ok sizes v" and e: "rv_entries v n = Some e"
    and ptr: "ptr = ptr_of (rs_space st) n" and p: "p = ie_object e"
    and port: "ports (rv_ports v) p = Some port" "\<not> ip_active port"
    and t: "ie_type e \<in> {MACH_PORT_TYPE_SEND, MACH_PORT_TYPE_SEND_ONCE}"
    and Q: "\<And>st'. models its st' (bury n e v) \<Longrightarrow> kept st st' \<Longrightarrow> Q (True, st')"
  shows "returns (ipc_right_check its st p n ptr) Q"
proof -
  note rep = modelsD(1) [OF m] and lk = view_okD(2) [OF ok]
  let ?E = "rv_entries v" and ?ma = "ma_event (rv_self v) n (ie_bits e)" and ?b = "ie_bits e AND NOT IE_BITS_MAREQUEST"
  let ?st = "st\<lparr>rs_ports := emit ?ma (rv_ports v)\<rparr>"
  have t': "ie_type e \<in> port_types" using t by (auto simp: type_sets)
  have pe: "port_entry_ok (rv_self v) n e port" and pf: "port_fits sizes v p port"
    using entry_port [OF ok e t'] p port by auto
  note refs = entry_refs(2) [OF e t', of port sizes, folded p, OF port(1) pf]
  have new: "\<not> has (ie_bits e) IE_BITS_COMPAT" using view_okD(3) [OF ok e] by (simp add: entry_fits_def)
  have u: "0 < IE_BITS_UREFS (ie_bits e)" "IE_BITS_UREFS (ie_bits e) < MACH_PORT_UREFS_MAX"
    using pe t by (auto simp: port_entry_ok_def Let_def type_values urefs_max)
  have fin: "Q (True, st')" if "rep its st' {} (?E(n \<mapsto> dead_name e)) (sends ?E - {n})"
    "frame (st0\<lparr>rs_ports := release_ref p (emit ?ma (rv_ports v))\<rparr>) st'" "kept st st0" for st0 st'
  proof (rule Q)
    have "ie_type (dead_name e) = MACH_PORT_TYPE_DEAD_NAME"
      using dead_bits(1) [of "ie_request e \<noteq> 0" "ie_bits e"] u by (simp add: dead_name_def)
    then have "sends (?E(n \<mapsto> dead_name e)) = sends ?E - {n}" by (simp add: sends_upd type_values)
    moreover show "kept st st'" using that(3) keptI(1) [OF that(2)] by (rule kept_trans)
    ultimately show "models its st' (bury n e v)"
      using modelsI [OF _ \<open>kept st st'\<close> modelsD(3) [OF m], of its "?E(n \<mapsto> dead_name e)"] that(1) frameD(1) [OF that(2)]
      by (simp add: bury_def Let_def view_defs p)
  qed
  let ?tail = "\<lambda>st. returns (on_ports st (\<lambda>ps. ipc_port_release ps p))
      (\<lambda>st. returns (upd_entry st ptr (\<lambda>x. x\<lparr>ie_bits := dead_bits (ie_bits e) (ie_request e \<noteq> 0), ie_object := IO_NULL,
         ie_request := 0\<rparr>)) (\<lambda>st. Q (True, st)))"
  have tail: "?tail st0"
    if "rep its st0 {} ?E (sends ?E - {n})" "frame ?st st0" for st0
    using bury_rule [OF that(1) e _ _ _ _ refs refl, of ptr "\<lambda>st. Q (True, st)"] frameD [OF that(2)] ptr port p lk u
      fin [OF _ _ keptI(1) [OF that(2)]] by simp
  have obj: "ie_object e = p" using p by simp
  have c: "(ie_bits e AND NOT IE_BITS_MAREQUEST) AND IE_BITS_COMPAT = 0" unfolding and_not_and using new by simp
  have start: "returns (ipc_right_check its st p n ptr) Q"
    if "ie_type e = MACH_PORT_TYPE_SEND \<Longrightarrow> returns (right_hash_delete ?st p n ptr) ?tail"
      and "ie_type e = MACH_PORT_TYPE_SEND_ONCE \<Longrightarrow> ?tail ?st"
    unfolding ipc_right_check_def returns_bind returns_assert
    by (rule conjI [OF rep_active [OF rep] entry_at_rule [OF rep e ptr]], insert t that pe, elim insertE emptyE;
        cases "has (ie_bits e) IE_BITS_MAREQUEST"; cases "ie_request e = 0")
      (simp_all add: modelsD [OF m] lock_port_step unlock_port_step port port_at_def obj unlocked [OF lk] lk
        send_tests once_tests u Let_def c new ma_event_def send_events_def dead_urefs dead_bits_def mask_absent port_entry_ok_def urefs_max)
  show ?thesis
  proof (rule start)
    show "returns (right_hash_delete ?st p n ptr) ?tail" if "ie_type e = MACH_PORT_TYPE_SEND"
      by (rule hash_delete_rule [of its _ "{}" ?E "sends ?E", OF _ e _ _ p]) (use rep ptr that in_sends [of ?E n e] e tail in auto)
    show "?tail ?st" if "ie_type e = MACH_PORT_TYPE_SEND_ONCE"
      by (rule tail) (use rep that in_sends [of ?E n e] e frame_refl in auto)
  qed
qed

subsection \<open>Giving up a right\<close>

lemma cancel_request_sel [simp]:
  "ip_references (cancel_request i port) = ip_references port" "ip_srights (cancel_request i port) = ip_srights port"
  "ip_sorights (cancel_request i port) = ip_sorights port" "ip_bits (cancel_request i port) = ip_bits port"
  "ip_data (cancel_request i port) = ip_data port" "ip_receiver_name (cancel_request i port) = ip_receiver_name port"
  by (simp_all add: cancel_request_def Let_def split: option.splits)

text \<open>The entry of a right whose object is cleared, and then the entry.\<close>

lemma clear_rule:
  assumes rep: "rep its st {} E H" and e: "E n = Some e" "ie_request e = 0" and ptr: "ptr = ptr_of (rs_space st) n"
    and n: "n \<notin> H" and dom: "H \<subseteq> dom E"
    and Q: "\<And>st'. rep its st' {} (E(n := None)) H \<Longrightarrow> frame st st' \<Longrightarrow> Q st'"
  shows "returns (upd_entry st ptr (\<lambda>e. e\<lparr>ie_object := IO_NULL\<rparr>)) (\<lambda>st. returns (free_entry its st n ptr) Q)"
proof (rule upd_rule [where its = its and R = "{}" and E = E and H = H and e = e and n = n])
  fix st' assume st': "rep its st' {} (E(n \<mapsto> e\<lparr>ie_object := IO_NULL\<rparr>)) H" "frame st st'"
  show "returns (free_entry its st' n ptr) Q"
    by (rule free_entry_rule [OF st'(1), of n "e\<lparr>ie_object := IO_NULL\<rparr>"]) (use e ptr dom Q frameD [OF st'(2)] frame_trans [OF st'(2)] in auto)
qed (use rep e ptr n rep_in_use [OF rep e(1)] in auto)

lemma give_up_sonce_rule:
  assumes rep: "rep its st {} E H" and e: "E n = Some e" and ptr: "ptr = ptr_of (rs_space st) n" and p: "p = ie_object e"
    and port: "ports (rs_ports st) p = Some port" "ip_active port" "port_dn_ok sizes port" "request_ok n e port"
      "locked (rs_ports st) = {p}"
    and new: "\<not> has (ie_bits e) IE_BITS_COMPAT" and n: "n \<notin> H" and dom: "H \<subseteq> dom E"
    and Q: "\<And>st'. rep its st' {} (E(n := None)) H \<Longrightarrow>
      frame (st\<lparr>rs_ports := emit (Send_once p # pd_event (request_port port (ie_request e)) n)
        ((rs_ports st)\<lparr>ports := (ports (rs_ports st))(p \<mapsto> cancel_request (ie_request e) port), locked := {}\<rparr>)\<rparr>) st' \<Longrightarrow>
      Q (KERN_SUCCESS, st')"
  shows "returns (give_up_sonce its st p n ptr) Q"
  unfolding give_up_sonce_def returns_bind
proof (rule dncancel_rule [OF rep e ptr p port(1-4) new], simp)
  let ?c = "cancel_request (ie_request e) port" and ?e = "e\<lparr>ie_request := 0\<rparr>"
  fix st1 assume rep1: "rep its st1 {} (E(n \<mapsto> ?e)) H"
    and f1: "frame (st\<lparr>rs_ports := (rs_ports st)\<lparr>ports := (ports (rs_ports st))(p \<mapsto> ?c)\<rparr>\<rparr>) st1"
  let ?st = "st1\<lparr>rs_ports := (rs_ports st1)\<lparr>locked := {}\<rparr>\<rparr>"
  have "returns (upd_entry ?st ptr (\<lambda>e. e\<lparr>ie_object := IO_NULL\<rparr>)) (\<lambda>st'. returns (free_entry its st' n ptr)
      (\<lambda>st'. Q (KERN_SUCCESS, send_events (Send_once p # pd_event (request_port port (ie_request e)) n) st')))"
    by (rule clear_rule [of _ _ "E(n \<mapsto> ?e)" H n ?e])
      (use rep1 n dom ptr frameD [OF f1] Q in \<open>auto simp: send_events_def frame_def\<close>)
  then show "returns (unlock_port st1 p) (\<lambda>x. returns (upd_entry x ptr (\<lambda>e. e\<lparr>ie_object := IO_NULL\<rparr>))
      (\<lambda>x. returns (free_entry its x n ptr)
        (\<lambda>x. Q (KERN_SUCCESS, send_events (Send_once p # pd_event (request_port port (ie_request e)) n) x))))"
    using frameD(1) [OF f1] port(5) by (simp add: unlock_port_step)
qed

lemma give_up_send_rule:
  assumes rep: "rep its st {} E H" and e: "E n = Some e" and ptr: "ptr = ptr_of (rs_space st) n" and p: "p = ie_object e"
    and port: "ports (rs_ports st) p = Some port" "ip_active port" "port_dn_ok sizes port" "request_ok n e port"
    and new: "\<not> has (ie_bits e) IE_BITS_COMPAT" and n: "n \<in> H" and dom: "H \<subseteq> dom E"
    and Q: "\<And>st'. rep its st' {} (E(n := None)) (H - {n}) \<Longrightarrow>
      frame (st\<lparr>rs_ports := emit (ma_event (rs_self st) n (ie_bits e)) ((rs_ports st)\<lparr>ports := (ports (rs_ports st))
        (p \<mapsto> (cancel_request (ie_request e) port)\<lparr>ip_references := ip_references port - 1\<rparr>)\<rparr>)\<rparr>) st' \<Longrightarrow>
      Q (request_port port (ie_request e), st')"
  shows "returns (give_up_send its st p n ptr (ie_bits e)) Q"
proof -
  let ?c = "cancel_request (ie_request e) port" and ?e = "e\<lparr>ie_request := 0\<rparr>" and ?ma = "ma_event (rs_self st) n (ie_bits e)"
  have delete: "returns (right_hash_delete st1 p n ptr) (\<lambda>st. returns
      (on_ports (if has (ie_bits e) IE_BITS_MAREQUEST then send_events [Marequest_cancel (rs_self st) n] st else st)
        (\<lambda>ps. ip_release ps p)) (\<lambda>st. returns (upd_entry st ptr (\<lambda>e. e\<lparr>ie_object := IO_NULL\<rparr>))
      (\<lambda>st. returns (free_entry its st n ptr) (\<lambda>st. Q (request_port port (ie_request e), st)))))"
    if rep1: "rep its st1 {} (E(n \<mapsto> ?e)) H"
      and f1: "frame (st\<lparr>rs_ports := (rs_ports st)\<lparr>ports := (ports (rs_ports st))(p \<mapsto> ?c)\<rparr>\<rparr>) st1" for st1
  proof (rule hash_delete_rule [OF rep1, of n ?e])
    fix st2 assume rep2: "rep its st2 {} (E(n \<mapsto> ?e)) (H - {n})" and f2: "frame st1 st2"
    let ?st = "st2\<lparr>rs_ports := emit ?ma ((rs_ports st)\<lparr>ports := (ports (rs_ports st))
        (p \<mapsto> ?c\<lparr>ip_references := ip_references port - 1\<rparr>)\<rparr>)\<rparr>"
    have "returns (upd_entry ?st ptr (\<lambda>e. e\<lparr>ie_object := IO_NULL\<rparr>)) (\<lambda>st'. returns (free_entry its st' n ptr)
        (\<lambda>st'. Q (request_port port (ie_request e), st')))"
      by (rule clear_rule [of _ _ "E(n \<mapsto> ?e)" "H - {n}" n ?e])
        (use rep2 n dom ptr frameD [OF f1] frameD [OF f2] Q in \<open>auto simp: frame_def\<close>)
    then show "returns
      (on_ports (if has (ie_bits e) IE_BITS_MAREQUEST then send_events [Marequest_cancel (rs_self st2) n] st2 else st2)
        (\<lambda>ps. ip_release ps p)) (\<lambda>st. returns (upd_entry st ptr (\<lambda>e. e\<lparr>ie_object := IO_NULL\<rparr>))
      (\<lambda>st. returns (free_entry its st n ptr) (\<lambda>st. Q (request_port port (ie_request e), st))))"
      using frameD [OF f1] frameD [OF f2]
      by (cases "has (ie_bits e) IE_BITS_MAREQUEST")
        (simp_all add: ip_release_right send_events_def ma_event_def)
  qed (use n ptr p frameD [OF f1] in auto)
  show ?thesis
    unfolding give_up_send_def returns_bind
    by (rule dncancel_rule [OF rep e ptr p port(1-4) new]) (use delete in \<open>simp add: Let_def\<close>)
qed

end
