(* ===== verification/Ipc_Right_Laws.thy ===== *)
theory Ipc_Right_Laws
  imports Ipc_Right_Ops
begin

text \<open>
  The specifications of the calls that give up rights (\<^verbatim>\<open>mach_port_deallocate\<close>,
  \<^verbatim>\<open>mach_port_mod_refs\<close>), and that they keep the invariant of views.
\<close>

subsection \<open>Specifications\<close>

definition live :: "rights_view \<Rightarrow> ptr \<Rightarrow> bool" where
  "live v p = (case ports (rv_ports v) p of None \<Rightarrow> False | Some port \<Rightarrow> ip_active port)"

definition the_port :: "rights_view \<Rightarrow> ptr \<Rightarrow> ipc_port" where
  "the_port v p = the (ports (rv_ports v) p)"

definition adjust_dead :: "mach_port \<Rightarrow> ipc_entry \<Rightarrow> u32 \<Rightarrow> rights_view \<Rightarrow> rights_view" where
  "adjust_dead n e d v =
     (if IE_BITS_UREFS (ie_bits e) + d = 0 then remove_entry n v else put_entry n (e\<lparr>ie_bits := ie_bits e + d\<rparr>) v)"

definition give_up_once :: "mach_port \<Rightarrow> ipc_entry \<Rightarrow> rights_view \<Rightarrow> rights_view" where
  "give_up_once n e v =
     (let p = ie_object e in
      post (Send_once p # pd_event (request_port (the_port v p) (ie_request e)) n)
        (map_port p (cancel_request (ie_request e)) (remove_entry n v)))"

definition give_up_last :: "mach_port \<Rightarrow> ipc_entry \<Rightarrow> rights_view \<Rightarrow> rights_view" where
  "give_up_last n e v =
     (let p = ie_object e; port = the_port v p in
      post (ma_event (rv_self v) n (ie_bits e) @ ns_event (ns_due port) @ pd_event (request_port port (ie_request e)) n)
        (map_port p (\<lambda>port. (cancel_request (ie_request e) (less_send port))\<lparr>ip_references := ip_references port - 1\<rparr>)
          (remove_entry n v)))"

text \<open>The name keeps its receive right.\<close>

definition receive_only :: "ipc_entry \<Rightarrow> ipc_entry" where
  "receive_only e = e\<lparr>ie_bits := ie_bits e AND NOT (IE_BITS_UREFS_MASK OR MACH_PORT_TYPE_SEND)\<rparr>"

definition give_up_sender :: "mach_port \<Rightarrow> ipc_entry \<Rightarrow> rights_view \<Rightarrow> rights_view" where
  "give_up_sender n e v =
     (let p = ie_object e in
      post (ns_event (ns_due (the_port v p))) (map_port p less_send (put_entry n (receive_only e) v)))"

definition adjust_send :: "mach_port \<Rightarrow> ipc_entry \<Rightarrow> u32 \<Rightarrow> rights_view \<Rightarrow> rights_view" where
  "adjust_send n e d v =
     (if IE_BITS_UREFS (ie_bits e) + d \<noteq> 0 then put_entry n (e\<lparr>ie_bits := ie_bits e + d\<rparr>) v
      else if ie_type e = MACH_PORT_TYPE_SEND then give_up_last n e v
      else give_up_sender n e v)"

definition dies :: "ipc_entry \<Rightarrow> rights_view \<Rightarrow> bool" where
  "dies e v \<longleftrightarrow> ie_type e \<in> {MACH_PORT_TYPE_SEND, MACH_PORT_TYPE_SEND_ONCE} \<and> \<not> live v (ie_object e)"

definition dealloc_spec :: "mach_port \<Rightarrow> rights_view \<Rightarrow> kern_return \<times> rights_view" where
  "dealloc_spec n v =
     (case rv_entries v n of
        None \<Rightarrow> (KERN_INVALID_NAME, v)
      | Some e \<Rightarrow>
          if ie_type e = MACH_PORT_TYPE_DEAD_NAME then (KERN_SUCCESS, adjust_dead n e (- 1) v)
          else if dies e v then (KERN_SUCCESS, adjust_dead n (dead_name e) (- 1) (bury n e v))
          else if ie_type e = MACH_PORT_TYPE_SEND_ONCE then (KERN_SUCCESS, give_up_once n e v)
          else if ie_type e \<in> send_types then (KERN_SUCCESS, adjust_send n e (- 1) v)
          else (KERN_INVALID_RIGHT, v))"

subsection \<open>Updates of one name and one port\<close>

lemma entry_fits_port:
  assumes "ie_type e \<in> port_types"
  shows "entry_fits v n e \<longleftrightarrow> \<not> has (ie_bits e) IE_BITS_COMPAT \<and> IO_VALID (ie_object e) \<and>
    (case ports (rv_ports v) (ie_object e) of None \<Rightarrow> False | Some port \<Rightarrow> port_entry_ok (rv_self v) n e port)"
proof -
  have "ie_type e \<noteq> MACH_PORT_TYPE_DEAD_NAME" "ie_type e \<noteq> MACH_PORT_TYPE_PORT_SET"
    using assms by (auto simp: type_sets)
  then show ?thesis using assms by (simp add: entry_fits_def)
qed

lemma entry_fits_other: "ie_type e \<notin> port_types \<Longrightarrow> entry_fits v n e = entry_fits v' n' e"
  by (simp add: entry_fits_def)

text \<open>A port after an operation on the name \<open>n\<close>: as far as other names are concerned, the same.\<close>

definition similar :: "mach_port \<Rightarrow> ipc_port \<Rightarrow> ipc_port \<Rightarrow> bool" where
  "similar n port port' \<longleftrightarrow>
     ip_bits port' = ip_bits port \<and> ip_data port' = ip_data port \<and> ip_receiver_name port' = ip_receiver_name port \<and>
     (\<forall>i m notify. port_requests port i = Some (m, notify) \<and> m \<noteq> n \<longrightarrow> port_requests port' i = Some (m, notify))"

lemma similar_entry:
  assumes "similar n port port'" and "m \<noteq> n" and "port_entry_ok self m e port"
  shows "port_entry_ok self m e port'"
  using assms by (auto simp: similar_def port_entry_ok_def request_ok_def Let_def split: option.splits)

lemma denotes_types: "denotes T p x \<Longrightarrow> T \<subseteq> T' \<Longrightarrow> denotes T' p x"
  by (auto simp: denotes_def split: option.splits)

lemma type_subsets: "send_types \<subseteq> port_types" "once_types \<subseteq> port_types" "receive_types \<subseteq> port_types" "port_types \<subseteq> port_types"
  by (auto simp: type_sets)

definition one_change :: "rights_view \<Rightarrow> mach_port \<Rightarrow> ipc_entry option \<Rightarrow> ptr \<Rightarrow> ipc_port option \<Rightarrow> rights_view \<Rightarrow> bool" where
  "one_change v n x p y v' \<longleftrightarrow>
     rv_self v' = rv_self v \<and> rv_entries v' = (rv_entries v)(n := x) \<and>
     ports (rv_ports v') = (ports (rv_ports v))(p := y) \<and>
     (\<forall>q. denotes port_types q (rv_entries v n) \<or> denotes port_types q x \<longrightarrow> q = p)"

lemma outside_change:
  assumes "one_change v n x p y v'" and T: "T \<subseteq> port_types"
  shows "outside T f v' q =
    (if q = p then case y of None \<Rightarrow> 0 | Some port \<Rightarrow>
       uint (f port) - int (names_of T ((rv_entries v)(n := None)) p) - (if denotes T p x then 1 else 0)
     else outside T f v q)"
proof (cases "q = p")
  case True
  then show ?thesis
    using assms(1) names_of_upd [of T "rv_entries v" n x p] by (simp add: outside_def one_change_def split: option.splits)
next
  case False
  then have "\<not> denotes T q (rv_entries v n)" "\<not> denotes T q x"
    using assms denotes_types [OF _ T] by (auto simp: one_change_def)
  then have "names_of T ((rv_entries v)(n := x)) q = names_of T (rv_entries v) q"
    using names_of_upd [of T "rv_entries v" n x q] names_of_split [of T "rv_entries v" q n] by simp
  moreover have "rv_entries v' = (rv_entries v)(n := x)" "ports (rv_ports v') q = ports (rv_ports v) q"
    using assms(1) False by (simp_all add: one_change_def)
  ultimately show ?thesis using False by (simp add: outside_def split: option.split)
qed

lemma view_ok_change:
  assumes ok: "view_ok sizes v" and ch: "one_change v n x p y v'" and lk: "locked (rv_ports v') = {}"
    and x: "\<And>e'. x = Some e' \<Longrightarrow> entry_fits v' n e'"
    and y: "\<And>port'. y = Some port' \<Longrightarrow> port_fits sizes v' p port'"
    and rest: "\<And>m e port. m \<noteq> n \<Longrightarrow> rv_entries v m = Some e \<Longrightarrow> denotes port_types p (Some e) \<Longrightarrow>
      ports (rv_ports v) p = Some port \<Longrightarrow> \<exists>port'. y = Some port' \<and> similar n port port'"
  shows "view_ok sizes v'"
proof -
  have c: "rv_self v' = rv_self v" "rv_entries v' = (rv_entries v)(n := x)"
      "ports (rv_ports v') = (ports (rv_ports v))(p := y)"
    and q: "\<And>q. denotes port_types q (rv_entries v n) \<Longrightarrow> q = p" "\<And>q. denotes port_types q x \<Longrightarrow> q = p"
    using ch by (auto simp: one_change_def)
  have "entry_fits v' m e" if m: "rv_entries v' m = Some e" for m e
  proof (cases "m = n")
    case True
    then show ?thesis using x m c(2) by simp
  next
    case False
    then have e: "rv_entries v m = Some e" using m c(2) by simp
    note fits = view_okD(3) [OF ok e]
    show ?thesis
    proof (cases "denotes port_types p (Some e)")
      case True
      then obtain port where port: "ports (rv_ports v) (ie_object e) = Some port" "port_entry_ok (rv_self v) m e port"
        using entry_port [OF ok e] by (auto simp: denotes_def)
      have p: "ie_object e = p" using True by (simp add: denotes_def)
      obtain port' where "y = Some port'" "similar n port port'" using rest [OF False e True] port p by auto
      then show ?thesis
        using fits port c similar_entry [of n port port' m "rv_self v" e] False p True
        by (simp add: entry_fits_port denotes_def)
    next
      case False
      then show ?thesis
        using fits c entry_fits_port [of e] entry_fits_other [of e v m v' m]
        by (cases "ie_type e \<in> port_types") (simp_all add: denotes_def split: option.splits)
    qed
  qed
  moreover have "port_fits sizes v' q port" if port: "ports (rv_ports v') q = Some port" for q port
  proof (cases "q = p")
    case True
    then show ?thesis using y port c(3) by simp
  next
    case False
    then have port': "ports (rv_ports v) q = Some port" using port c(3) by simp
    note fits = view_okD(4) [OF ok port']
    have "denotes receive_types q (rv_entries v' m) = denotes receive_types q (rv_entries v m)" for m
      using q False denotes_types [OF _ type_subsets(3), of q] c(2) by (cases "m = n") auto
    then show ?thesis
      using fits False by (simp add: port_fits_def outside_change [OF ch] type_subsets c(1))
  qed
  ultimately show ?thesis using view_okD(1) [OF ok] lk c by (simp add: view_ok_def)
qed

lemma outside_shift:
  assumes "one_change v n x p (Some port') v'" and "ports (rv_ports v) p = Some port" and "T \<subseteq> port_types"
  shows "outside T f v' p = outside T f v p + uint (f port') - uint (f port) +
    (if denotes T p (rv_entries v n) then 1 else 0) - (if denotes T p x then 1 else 0)"
  using outside_change [OF assms(1,3), of f p] names_of_split [of T "rv_entries v" p n] assms(2) by (simp add: outside_def)

lemma view_ok_port:
  assumes ok: "view_ok sizes v" and ch: "one_change v n x p (Some port') v'" and lk: "locked (rv_ports v') = {}"
    and port: "ports (rv_ports v) p = Some port" "similar n port port'" "port_fits sizes v' p port'"
    and x: "\<And>e'. x = Some e' \<Longrightarrow> entry_fits v' n e'"
  shows "view_ok sizes v'"
  by (rule view_ok_change [OF ok ch lk x]) (use port in auto)

lemma view_ok_entry:
  assumes ok: "view_ok sizes v" and v': "rv_self v' = rv_self v" "rv_entries v' = (rv_entries v)(n := x)"
    "ports (rv_ports v') = ports (rv_ports v)" "locked (rv_ports v') = {}"
    and old: "\<And>q. \<not> denotes port_types q (rv_entries v n)" and new: "\<And>q. \<not> denotes port_types q x"
    and x: "\<And>e'. x = Some e' \<Longrightarrow> entry_fits v' n e'"
  shows "view_ok sizes v'"
proof -
  have ch: "one_change v n x p (ports (rv_ports v) p) v'" for p using v' old new by (simp add: one_change_def)
  have out: "outside T f v' q = outside T f v q" if T: "T \<subseteq> port_types" for T f q
    using outside_change [OF ch T, of f q "q + 1"] by simp
  have rcv: "denotes receive_types q (rv_entries v' m) = denotes receive_types q (rv_entries v m)" for q m
    using old new denotes_types [OF _ type_subsets(3), of q] v'(2) by (cases "m = n") auto
  show ?thesis
  proof (rule view_ok_change [OF ok ch v'(4) x])
    show "port_fits sizes v' 0 port'" if "ports (rv_ports v) 0 = Some port'" for port'
      using view_okD(4) [OF ok that] by (simp add: port_fits_def out type_subsets rcv v'(1))
  qed (auto simp: similar_def)
qed

lemma less_send_sel [simp]:
  "ip_references (less_send port) = ip_references port" "ip_srights (less_send port) = ip_srights port - 1"
  "ip_sorights (less_send port) = ip_sorights port" "ip_bits (less_send port) = ip_bits port"
  "ip_data (less_send port) = ip_data port" "ip_receiver_name (less_send port) = ip_receiver_name port"
  "port_requests (less_send port) = port_requests port" "port_dn_ok sizes (less_send port) = port_dn_ok sizes port"
  "request_port (less_send port) i = request_port port i"
  by (simp_all add: less_send_def port_requests_def port_dn_ok_def request_port_def)

lemma request_ok_less_send [simp]: "request_ok n e (less_send port) = request_ok n e port"
  by (simp add: request_ok_def)

lemma cancel_ok:
  assumes "ip_active port" and "port_dn_ok sizes port" and "request_ok n e port"
  shows "port_dn_ok sizes (cancel_request (ie_request e) port)" and "similar n port (cancel_request (ie_request e) port)"
proof -
  define ps where "ps = \<lparr>ports = [0 \<mapsto> port], locked = {}, multiple = False, timestamp_data = 0, events = []\<rparr>"
  have "port_dn_ok sizes (cancel_request (ie_request e) port) \<and> similar n port (cancel_request (ie_request e) port)"
  proof (cases "ie_request e = 0")
    case True
    then have "cancel_request (ie_request e) port = port" by (simp add: cancel_request_def split: option.splits)
    then show ?thesis using assms by (simp add: similar_def)
  next
    case False
    then obtain notify where r: "port_requests port (ie_request e) = Some (n, notify)" "ie_request e < 2 ^ 32"
      using assms by (auto simp: request_ok_def split: option.splits)
    have "ports ps 0 = Some port" by (simp add: ps_def)
    from dncancel_exact(2,3) [OF this assms(1,2) r] show ?thesis using r(1) by (auto simp: similar_def)
  qed
  then show "port_dn_ok sizes (cancel_request (ie_request e) port)" and "similar n port (cancel_request (ie_request e) port)"
    by simp_all
qed

lemma similar_trans: "similar n a b \<Longrightarrow> similar n b c \<Longrightarrow> similar n a c"
  by (simp add: similar_def)

lemma similar_less_send [simp]: "similar n port (less_send port)"
  by (simp add: similar_def)

lemma similar_refs [simp]: "similar n port (port'\<lparr>ip_references := r\<rparr>) = similar n port port'"
  by (simp add: similar_def port_requests_def)

subsection \<open>Conservation\<close>

text \<open>
  An operation takes \<open>s\<close> send rights, \<open>so\<close> send-once rights and \<open>r\<close> references of \<open>p\<close> out of the space. The
  rights of a dead port are not counted any more.
\<close>

definition moved_out :: "ptr \<Rightarrow> int \<Rightarrow> int \<Rightarrow> int \<Rightarrow> rights_view \<Rightarrow> rights_view \<Rightarrow> bool" where
  "moved_out p s so r v v' \<longleftrightarrow>
     (\<forall>q. live v' q = live v q \<and>
        outside_refs v' q = outside_refs v q + (if q = p then r else 0) \<and>
        (live v q \<longrightarrow>
           outside_sends v' q = outside_sends v q + (if q = p then s else 0) \<and>
           outside_onces v' q = outside_onces v q + (if q = p then so else 0)))"

lemma moved_out_trans:
  "moved_out p 0 0 0 v v' \<Longrightarrow> moved_out q s so r v' v'' \<Longrightarrow> moved_out q s so r v v''"
  by (simp add: moved_out_def)

abbreviation counts :: "u32 set \<Rightarrow> ptr \<Rightarrow> ipc_entry option \<Rightarrow> int" where
  "counts T p x \<equiv> (if denotes T p x then 1 else 0)"

lemma change_ok:
  assumes ok: "view_ok sizes v" and ch: "one_change v n x p (Some port') v'" and lk: "locked (rv_ports v') = {}"
    and port: "ports (rv_ports v) p = Some port" "similar n port port'" "port_dn_ok sizes port'"
    and x: "\<And>e'. x = Some e' \<Longrightarrow> entry_fits v' n e'"
    and r: "uint (ip_references port') + counts port_types p (rv_entries v n) = uint (ip_references port) + counts port_types p x + r"
    and s: "ip_active port \<Longrightarrow>
      uint (ip_srights port') + counts send_types p (rv_entries v n) = uint (ip_srights port) + counts send_types p x + s"
    and so: "ip_active port \<Longrightarrow>
      uint (ip_sorights port') + counts once_types p (rv_entries v n) = uint (ip_sorights port) + counts once_types p x + so"
    and nonneg: "0 \<le> outside_refs v p + r" "ip_active port \<Longrightarrow> 0 \<le> outside_sends v p + s"
      "ip_active port \<Longrightarrow> 0 \<le> outside_onces v p + so"
      "ip_active port \<Longrightarrow> ip_data port \<noteq> rv_self v \<Longrightarrow> 0 < outside_refs v p + r"
    and rcv: "ip_active port \<Longrightarrow> ip_data port = rv_self v \<Longrightarrow> ip_receiver_name port = n \<Longrightarrow> denotes receive_types p x"
  shows "view_ok sizes v' \<and> moved_out p s so r v v'"
proof -
  have c: "rv_self v' = rv_self v" "rv_entries v' = (rv_entries v)(n := x)" "ports (rv_ports v') = (ports (rv_ports v))(p \<mapsto> port')"
    using ch by (simp_all add: one_change_def)
  have sim: "ip_bits port' = ip_bits port" "ip_data port' = ip_data port" "ip_receiver_name port' = ip_receiver_name port"
    using port(2) by (simp_all add: similar_def)
  note sh = outside_shift [OF ch port(1)]
  have out: "outside_refs v' p = outside_refs v p + r" "ip_active port \<Longrightarrow> outside_sends v' p = outside_sends v p + s"
    "ip_active port \<Longrightarrow> outside_onces v' p = outside_onces v p + so"
    using sh [OF type_subsets(4), of ip_references] sh [OF type_subsets(1), of ip_srights]
      sh [OF type_subsets(2), of ip_sorights] r s so by linarith+
  have "ip_active port \<Longrightarrow> ip_data port = rv_self v \<Longrightarrow> denotes receive_types p (rv_entries v' (ip_receiver_name port))"
    using view_okD(4) [OF ok port(1)] rcv by (simp add: port_fits_def c)
  then have "port_fits sizes v' p port'"
    using port(3) out nonneg by (simp add: port_fits_def sim c(1))
  then have "view_ok sizes v'" using port(1,2) x by (intro view_ok_port [OF ok ch lk]) auto
  moreover have "moved_out p s so r v v'"
    using out outside_change [OF ch type_subsets(4)] outside_change [OF ch type_subsets(1)] outside_change [OF ch type_subsets(2)]
    by (auto simp: moved_out_def live_def c port(1) sim)
  ultimately show ?thesis by simp
qed

lemma keep_ok:
  assumes ok: "view_ok sizes v" and v': "rv_self v' = rv_self v" "rv_entries v' = (rv_entries v)(n := x)"
    "ports (rv_ports v') = ports (rv_ports v)" "locked (rv_ports v') = {}"
    and old: "\<And>q. \<not> denotes port_types q (rv_entries v n)" and new: "\<And>q. \<not> denotes port_types q x"
    and x: "\<And>e'. x = Some e' \<Longrightarrow> entry_fits v' n e'"
  shows "view_ok sizes v' \<and> moved_out p 0 0 0 v v'"
proof -
  have ch: "one_change v n x p (ports (rv_ports v) p) v'" for p using v' old new by (simp add: one_change_def)
  have out: "outside T f v' q = outside T f v q" if T: "T \<subseteq> port_types" for T f q
    using outside_change [OF ch T, of f q "q + 1"] by simp
  show ?thesis
    using view_ok_entry [OF assms] by (simp add: moved_out_def live_def out type_subsets v'(3))
qed

lemma uint_dec: "0 < uint (x :: u32) \<Longrightarrow> uint (x - 1) = uint x - 1"
  using uint_u32_bounds [of x] by (simp add: uint_word_arith_bintrs take_bit_int_eq_self)

lemma uint_inc: "uint (x :: u32) + 1 < 2 ^ 32 \<Longrightarrow> uint (x + 1) = uint x + 1"
  using uint_u32_bounds [of x] by (simp add: uint_word_arith_bintrs take_bit_int_eq_self)

lemma not_ports [simp]:
  "MACH_PORT_TYPE_DEAD_NAME \<notin> port_types" "MACH_PORT_TYPE_PORT_SET \<notin> port_types" "MACH_PORT_TYPE_NONE \<notin> port_types"
  by (simp_all add: type_sets)

lemma denotes_simps [simp]: "denotes T p None = False" "denotes T p (Some e) \<longleftrightarrow> ie_object e = p \<and> ie_type e \<in> T"
  by (simp_all add: denotes_def)

lemma dead_name_sel:
  assumes "ie_request e \<noteq> 0 \<Longrightarrow> IE_BITS_UREFS (ie_bits e) < MACH_PORT_UREFS_MAX"
  shows "ie_type (dead_name e) = MACH_PORT_TYPE_DEAD_NAME" "ie_object (dead_name e) = IO_NULL" "ie_request (dead_name e) = 0"
    "ie_bits (dead_name e) AND IE_BITS_MAREQUEST = 0" "ie_bits (dead_name e) AND IE_BITS_COMPAT = ie_bits e AND IE_BITS_COMPAT"
    "IE_BITS_UREFS (ie_bits (dead_name e)) = IE_BITS_UREFS (ie_bits e) + (if ie_request e = 0 then 0 else 1)"
  using dead_bits [of "ie_request e \<noteq> 0" "ie_bits e"] assms by (simp_all add: dead_name_def)

lemma diesE:
  assumes ok: "view_ok sizes v" and e: "rv_entries v n = Some e" and d: "dies e v"
  obtains port where "ports (rv_ports v) (ie_object e) = Some port" and "\<not> ip_active port"
    and "ie_type e \<in> {MACH_PORT_TYPE_SEND, MACH_PORT_TYPE_SEND_ONCE}" and "ie_type e \<in> port_types"
    and "0 < IE_BITS_UREFS (ie_bits e)" and "IE_BITS_UREFS (ie_bits e) < MACH_PORT_UREFS_MAX"
    and "port_fits sizes v (ie_object e) port"
proof -
  have t: "ie_type e \<in> {MACH_PORT_TYPE_SEND, MACH_PORT_TYPE_SEND_ONCE}" "ie_type e \<in> port_types"
    using d by (auto simp: dies_def type_sets)
  obtain port where port: "ports (rv_ports v) (ie_object e) = Some port" "port_entry_ok (rv_self v) n e port"
    "port_fits sizes v (ie_object e) port" using entry_port [OF ok e t(2)] by blast
  have "\<not> ip_active port" using d port(1) by (simp add: dies_def live_def)
  moreover have "0 < IE_BITS_UREFS (ie_bits e) \<and> IE_BITS_UREFS (ie_bits e) < MACH_PORT_UREFS_MAX"
    using port(2) t(1) by (auto simp: port_entry_ok_def Let_def urefs_max)
  ultimately show ?thesis using that port t by blast
qed

lemma sole_name: "names_of T E p \<le> 1 \<Longrightarrow> denotes T p (E m) \<Longrightarrow> denotes T p (E n) \<Longrightarrow> m = n"
  using card_le_Suc0_iff_eq [of "{n. denotes T p (E n)}"] by (simp add: names_of_def)

lemma bury_sel:
  "rv_self (bury n e v) = rv_self v" "rv_entries (bury n e v) = (rv_entries v)(n \<mapsto> dead_name e)"
  "locked (rv_ports (bury n e v)) = locked (rv_ports v)"
  "ports (rv_ports v) (ie_object e) = Some port \<Longrightarrow>
   ports (rv_ports (bury n e v)) = (ports (rv_ports v))(ie_object e :=
     (if ip_references port = 1 then None else Some (port\<lparr>ip_references := ip_references port - 1\<rparr>)))"
  by (simp_all add: bury_def Let_def view_defs release_ref_def split: option.split)

lemma bury_ok:
  assumes ok: "view_ok sizes v" and e: "rv_entries v n = Some e" and d: "dies e v"
  shows "view_ok sizes (bury n e v) \<and> moved_out p 0 0 0 v (bury n e v)"
proof -
  obtain port where port: "ports (rv_ports v) (ie_object e) = Some port" "\<not> ip_active port" "ie_type e \<in> port_types"
    and u: "0 < IE_BITS_UREFS (ie_bits e)" "IE_BITS_UREFS (ie_bits e) < MACH_PORT_UREFS_MAX"
    and pf: "port_fits sizes v (ie_object e) port"
    using diesE [OF ok e d] by metis
  let ?y = "if ip_references port = 1 then None else Some (port\<lparr>ip_references := ip_references port - 1\<rparr>)"
  note sel = dead_name_sel [OF u(2)]
  have new: "\<not> has (ie_bits e) IE_BITS_COMPAT" using view_okD(3) [OF ok e] by (simp add: entry_fits_def)
  have refs: "0 < uint (ip_references port)" by (rule entry_refs(1) [OF e port(3,1) pf])
  have "0 < IE_BITS_UREFS (ie_bits (dead_name e))"
    using u sel(6) uint_inc [of "IE_BITS_UREFS (ie_bits e)"]
    by (auto simp: word_less_def urefs_max split: if_splits)
  then have fits: "entry_fits v' n (dead_name e)" for v' using sel new by (simp add: entry_fits_def)
  have ch: "one_change v n (Some (dead_name e)) (ie_object e) ?y (bury n e v)"
    using bury_sel(1-3) [of n e v] bury_sel(4) [OF port(1), of n] port e sel by (auto simp: one_change_def)
  have lk: "locked (rv_ports (bury n e v)) = {}" using view_okD(2) [OF ok] by (simp add: bury_sel)
  have dn: "port_dn_ok sizes port" "0 \<le> outside_refs v (ie_object e)" using pf by (simp_all add: port_fits_def)
  show ?thesis
  proof (cases "ip_references port = 1")
    case False
    have "view_ok sizes (bury n e v) \<and> moved_out (ie_object e) 0 0 0 v (bury n e v)"
      by (rule change_ok [OF ok _ lk port(1), where n = n and x = "Some (dead_name e)"
            and port' = "port\<lparr>ip_references := ip_references port - 1\<rparr>"])
        (use ch False port dn e sel fits uint_dec [OF refs] in \<open>simp_all add: similar_def\<close>)
    then show ?thesis by (simp add: moved_out_def)
  next
    case True
    have one: "names_of port_types (rv_entries v) (ie_object e) \<le> 1" using dn(2) port(1) True by (simp add: outside_def)
    have view: "view_ok sizes (bury n e v)"
    proof (rule view_ok_change [OF ok ch lk])
      fix m e' port' assume m: "m \<noteq> n" "rv_entries v m = Some e'" "denotes port_types (ie_object e) (Some e')"
      then have "m = n" using sole_name [OF one, of m n] e port(3) by simp
      with m(1) show "\<exists>port''. ?y = Some port'' \<and> similar n port' port''" by simp
    qed (use True fits in auto)
    have "outside_refs v (ie_object e) = 0"
      using one names_of_split [of port_types "rv_entries v" "ie_object e" n] e port True dn(2) by (simp add: outside_def)
    then have "moved_out p 0 0 0 v (bury n e v)"
      using True outside_change [OF ch type_subsets(4)] outside_change [OF ch type_subsets(1)] outside_change [OF ch type_subsets(2)]
        bury_sel(4) [OF port(1), of n] port(1,2)
      by (auto simp: moved_out_def live_def)
    with view show ?thesis by simp
  qed
qed

subsection \<open>The operations\<close>

text \<open>A name with a live port.\<close>

definition live_at :: "nat list \<Rightarrow> rights_view \<Rightarrow> mach_port \<Rightarrow> ipc_entry \<Rightarrow> ipc_port \<Rightarrow> bool" where
  "live_at sizes v n e port \<longleftrightarrow>
     rv_entries v n = Some e \<and> ports (rv_ports v) (ie_object e) = Some port \<and> ip_active port \<and>
     port_entry_ok (rv_self v) n e port \<and> port_fits sizes v (ie_object e) port \<and> IO_VALID (ie_object e) \<and>
     \<not> has (ie_bits e) IE_BITS_COMPAT \<and> ie_type e \<in> port_types"

lemma port_entry_request: "port_entry_ok self n e port \<Longrightarrow> request_ok n e port"
  by (simp add: port_entry_ok_def)

lemma live_atE:
  assumes ok: "view_ok sizes v" and e: "rv_entries v n = Some e" and t: "ie_type e \<in> port_types" and l: "\<not> dies e v"
  obtains port where "live_at sizes v n e port"
proof -
  obtain port where port: "ports (rv_ports v) (ie_object e) = Some port" "port_entry_ok (rv_self v) n e port"
    "port_fits sizes v (ie_object e) port" "IO_VALID (ie_object e)" using entry_port [OF ok e t] by blast
  have "ip_active port"
  proof (cases "ie_type e \<in> receive_types")
    case True
    then show ?thesis using port(2) by (simp add: port_entry_ok_def Let_def)
  next
    case False
    then have "ie_type e \<in> {MACH_PORT_TYPE_SEND, MACH_PORT_TYPE_SEND_ONCE}" using t by (auto simp: type_sets)
    then show ?thesis using l port(1) by (simp add: dies_def live_def)
  qed
  moreover have "\<not> has (ie_bits e) IE_BITS_COMPAT" using view_okD(3) [OF ok e] by (simp add: entry_fits_def)
  ultimately show ?thesis using that port e t by (simp add: live_at_def)
qed

lemma live_atD:
  assumes "live_at sizes v n e port"
  shows "rv_entries v n = Some e" "ports (rv_ports v) (ie_object e) = Some port" "ip_active port" "port_dn_ok sizes port"
    "request_ok n e port" "port_entry_ok (rv_self v) n e port" "\<not> has (ie_bits e) IE_BITS_COMPAT" "IO_VALID (ie_object e)"
    "0 \<le> outside_refs v (ie_object e)" "0 \<le> outside_sends v (ie_object e)" "0 \<le> outside_onces v (ie_object e)"
    "ip_data port \<noteq> rv_self v \<Longrightarrow> 0 < outside_refs v (ie_object e)" "ie_type e \<in> port_types"
    "ip_data port = rv_self v \<Longrightarrow> denotes receive_types (ie_object e) (rv_entries v (ip_receiver_name port))"
  using assms port_entry_request [of "rv_self v" n e port] by (simp_all add: live_at_def port_fits_def split: if_splits)

lemma live_at_counts:
  assumes "live_at sizes v n e port"
  shows "0 < uint (ip_references port)" and "ie_type e \<in> send_types \<Longrightarrow> 0 < uint (ip_srights port)"
    and "ie_type e \<in> once_types \<Longrightarrow> 0 < uint (ip_sorights port)"
proof -
  note d = live_atD [OF assms]
  have "0 < names_of T (rv_entries v) (ie_object e)" if "ie_type e \<in> T" for T
    using names_of_split [of T "rv_entries v" "ie_object e" n] d(1) that by simp
  from this [of port_types] this [of send_types] this [of once_types]
  show "0 < uint (ip_references port)" and "ie_type e \<in> send_types \<Longrightarrow> 0 < uint (ip_srights port)"
    and "ie_type e \<in> once_types \<Longrightarrow> 0 < uint (ip_sorights port)"
    using d(2,9-11,13) by (simp_all add: outside_def)
qed

lemma view_sel [simp]:
  "rv_self (put_entry n e v) = rv_self v" "rv_self (remove_entry n v) = rv_self v" "rv_self (map_port p f v) = rv_self v"
  "rv_self (post es v) = rv_self v"
  "rv_entries (put_entry n e v) = (rv_entries v)(n \<mapsto> e)" "rv_entries (remove_entry n v) = (rv_entries v)(n := None)"
  "rv_entries (map_port p f v) = rv_entries v" "rv_entries (post es v) = rv_entries v"
  "rv_ports (put_entry n e v) = rv_ports v" "rv_ports (remove_entry n v) = rv_ports v"
  "locked (rv_ports (map_port p f v)) = locked (rv_ports v)" "locked (rv_ports (post es v)) = locked (rv_ports v)"
  "ports (rv_ports (map_port p f v)) = (ports (rv_ports v))(p := map_option f (ports (rv_ports v) p))"
  "ports (rv_ports (post es v)) = ports (rv_ports v)"
  by (simp_all add: view_defs)

lemma give_up_once_ok:
  assumes ok: "view_ok sizes v" and live: "live_at sizes v n e port" and t: "ie_type e = MACH_PORT_TYPE_SEND_ONCE"
  shows "view_ok sizes (give_up_once n e v) \<and> moved_out (ie_object e) 0 1 1 v (give_up_once n e v)"
proof -
  note d = live_atD [OF live] and c = cancel_ok [OF live_atD(3-5) [OF live]]
  show ?thesis
    by (rule change_ok [OF ok _ _ d(2) c(2,1), where x = None])
      (use d t view_okD(2) [OF ok] in \<open>auto simp: give_up_once_def Let_def one_change_def type_sets\<close>)
qed

lemma give_up_last_ok:
  assumes ok: "view_ok sizes v" and live: "live_at sizes v n e port" and t: "ie_type e = MACH_PORT_TYPE_SEND"
  shows "view_ok sizes (give_up_last n e v) \<and> moved_out (ie_object e) 0 0 0 v (give_up_last n e v)"
proof -
  note d = live_atD [OF live] and cnt = live_at_counts [OF live]
  have "request_ok n e (less_send port)" "ip_active (less_send port)" "port_dn_ok sizes (less_send port)" using d by simp_all
  note c = cancel_ok [OF this(2,3,1)]
  let ?port = "(cancel_request (ie_request e) (less_send port))\<lparr>ip_references := ip_references port - 1\<rparr>"
  have sim: "similar n port ?port" using similar_trans [OF similar_less_send c(2)] by simp
  have dn: "port_dn_ok sizes ?port" using c(1) by (simp add: port_dn_ok_def)
  show ?thesis
    by (rule change_ok [OF ok _ _ d(2) sim dn, where x = None])
      (use d t view_okD(2) [OF ok] uint_dec [OF cnt(1)] uint_dec [OF cnt(2)] in
        \<open>auto simp: give_up_last_def Let_def one_change_def type_sets\<close>)
qed

lemma receive_only_sel:
  assumes "ie_type e = MACH_PORT_TYPE_SEND_RECEIVE"
  shows "ie_type (receive_only e) = MACH_PORT_TYPE_RECEIVE" "IE_BITS_UREFS (ie_bits (receive_only e)) = 0"
    "ie_object (receive_only e) = ie_object e" "ie_request (receive_only e) = ie_request e"
    "ie_bits (receive_only e) AND IE_BITS_COMPAT = ie_bits e AND IE_BITS_COMPAT"
    "ie_bits (receive_only e) AND IE_BITS_COLLISION = ie_bits e AND IE_BITS_COLLISION"
proof -
  have "ie_type (receive_only e) = ie_type e AND NOT (IE_BITS_UREFS_MASK OR MACH_PORT_TYPE_SEND)"
    using TYPE_and_not [of "ie_bits e" "IE_BITS_UREFS_MASK OR MACH_PORT_TYPE_SEND"] by (simp add: receive_only_def)
  then show "ie_type (receive_only e) = MACH_PORT_TYPE_RECEIVE" using assms by (simp add: mask_values type_values)
qed (simp_all add: receive_only_def IE_BITS_UREFS_def mask_values type_values mask_rules)

lemma give_up_sender_ok:
  assumes ok: "view_ok sizes v" and live: "live_at sizes v n e port" and t: "ie_type e = MACH_PORT_TYPE_SEND_RECEIVE"
  shows "view_ok sizes (give_up_sender n e v) \<and> moved_out (ie_object e) 0 0 0 v (give_up_sender n e v)"
proof -
  note d = live_atD [OF live] and cnt = live_at_counts [OF live] and r = receive_only_sel [OF t]
  have "port_entry_ok (rv_self v) n (receive_only e) (less_send port)"
    using d(6) r t by (auto simp: port_entry_ok_def request_ok_def Let_def type_sets split: option.splits)
  then have fits: "entry_fits (give_up_sender n e v) n (receive_only e)"
    using d r by (simp add: entry_fits_port give_up_sender_def Let_def type_sets)
  show ?thesis
    by (rule change_ok [OF ok _ _ d(2) similar_less_send, where x = "Some (receive_only e)"])
      (use d t r fits view_okD(2) [OF ok] uint_dec [OF cnt(2)] in
        \<open>auto simp: give_up_sender_def Let_def one_change_def type_sets\<close>)
qed

text \<open>User references that stay within their bounds.\<close>

lemma adjust_bits:
  assumes "\<not> MACH_PORT_UREFS_OVERFLOW (IE_BITS_UREFS (ie_bits e)) d" and "\<not> MACH_PORT_UREFS_UNDERFLOW (IE_BITS_UREFS (ie_bits e)) d"
  shows "ie_type (e\<lparr>ie_bits := ie_bits e + d\<rparr>) = ie_type e"
    and "IE_BITS_UREFS (ie_bits e + d) = IE_BITS_UREFS (ie_bits e) + d"
    and "(ie_bits e + d) AND IE_BITS_COMPAT = ie_bits e AND IE_BITS_COMPAT"
    and "(ie_bits e + d) AND IE_BITS_MAREQUEST = ie_bits e AND IE_BITS_MAREQUEST"
    and "(ie_bits e + d) AND IE_BITS_COLLISION = ie_bits e AND IE_BITS_COLLISION"
  using bits_adjust [OF assms] by simp_all

lemma overflow_next:
  assumes "\<not> MACH_PORT_UREFS_OVERFLOW (u + 1) d" and "\<not> MACH_PORT_UREFS_UNDERFLOW u d" and "u < MACH_PORT_UREFS_MAX"
  shows "\<not> MACH_PORT_UREFS_OVERFLOW u d" and "u + d < MACH_PORT_UREFS_MAX"
proof -
  have u: "uint u < 65535" using assms(3) by (simp add: word_less_def urefs_max)
  then have u1: "uint (u + 1) = uint u + 1" using uint_inc [of u] by simp
  have le: "u \<le> MACH_PORT_UREFS_MAX" "u + 1 \<le> MACH_PORT_UREFS_MAX"
    using u u1 by (simp_all add: word_le_def urefs_max)
  have b: "0 \<le> uint u + sint d" "uint u + sint d < 65535"
    using assms(1,2) u1 by (simp_all add: urefs_overflow_iff [OF le(2)] urefs_underflow_iff [OF le(1)])
  then show "\<not> MACH_PORT_UREFS_OVERFLOW u d" by (simp add: urefs_overflow_iff [OF le(1)])
  have "(uint u + uint d) mod 2 ^ 32 = (uint u + sint d) mod 2 ^ 32"
    using minus_mod_self2 [of "uint u + uint d" "2 ^ 32"] by (simp add: sint_u32 add_diff_eq)
  then have "uint (u + d) = uint u + sint d"
    using b by (simp add: uint_word_arith_bintrs take_bit_eq_mod)
  then show "u + d < MACH_PORT_UREFS_MAX" using b by (simp add: word_less_def urefs_max)
qed

lemma adjust_dead_ok:
  assumes ok: "view_ok sizes v" and e: "rv_entries v n = Some e" and t: "ie_type e = MACH_PORT_TYPE_DEAD_NAME"
    and d: "\<not> MACH_PORT_UREFS_OVERFLOW (IE_BITS_UREFS (ie_bits e)) d" "\<not> MACH_PORT_UREFS_UNDERFLOW (IE_BITS_UREFS (ie_bits e)) d"
  shows "view_ok sizes (adjust_dead n e d v) \<and> moved_out p 0 0 0 v (adjust_dead n e d v)"
proof -
  note b = adjust_bits [OF d]
  let ?x = "if IE_BITS_UREFS (ie_bits e) + d = 0 then None else Some (e\<lparr>ie_bits := ie_bits e + d\<rparr>)"
  have fits: "entry_fits (adjust_dead n e d v) n (e\<lparr>ie_bits := ie_bits e + d\<rparr>)" if "IE_BITS_UREFS (ie_bits e) + d \<noteq> 0"
    using view_okD(3) [OF ok e] b t that by (simp add: entry_fits_def word_neq_0_conv)
  show ?thesis
    by (rule keep_ok [OF ok, where n = n and x = ?x])
      (use e t b fits view_okD(2) [OF ok] in \<open>auto simp: adjust_dead_def split: if_splits\<close>)
qed

lemma adjust_send_ok:
  assumes ok: "view_ok sizes v" and live: "live_at sizes v n e port" and t: "ie_type e \<in> send_types"
    and d: "\<not> MACH_PORT_UREFS_OVERFLOW (IE_BITS_UREFS (ie_bits e) + 1) d" "\<not> MACH_PORT_UREFS_UNDERFLOW (IE_BITS_UREFS (ie_bits e)) d"
  shows "view_ok sizes (adjust_send n e d v) \<and> moved_out (ie_object e) 0 0 0 v (adjust_send n e d v)"
proof (cases "IE_BITS_UREFS (ie_bits e) + d = 0")
  case True
  then show ?thesis
    using give_up_last_ok [OF ok live] give_up_sender_ok [OF ok live] t by (auto simp: adjust_send_def send_types_def)
next
  case False
  note l = live_atD [OF live]
  have u: "IE_BITS_UREFS (ie_bits e) < MACH_PORT_UREFS_MAX"
    using l(6) t by (auto simp: port_entry_ok_def Let_def send_types_def)
  note o = overflow_next [OF d u] and b = adjust_bits [OF overflow_next(1) [OF d u] d(2)]
  let ?e = "e\<lparr>ie_bits := ie_bits e + d\<rparr>"
  have "port_entry_ok (rv_self v) n ?e port"
    using l(6) b o(2) False t by (auto simp: port_entry_ok_def request_ok_def Let_def send_types_def word_neq_0_conv)
  then have fits: "entry_fits (put_entry n ?e v) n ?e"
    using l b by (simp add: entry_fits_port)
  have "view_ok sizes (put_entry n ?e v) \<and> moved_out (ie_object e) 0 0 0 v (put_entry n ?e v)"
    by (rule change_ok [OF ok _ _ l(2) _ l(4), where x = "Some ?e"])
      (use l b fits view_okD(2) [OF ok] in \<open>auto simp: one_change_def similar_def\<close>)
  then show ?thesis using False by (simp add: adjust_send_def)
qed

end
