(* ===== verification/Ipc_Right_Refine.thy ===== *)
theory Ipc_Right_Refine
  imports Ipc_Right_Laws
begin

text \<open>The code of the calls that give up rights refines their specifications.\<close>

lemma sends_dom: "sends E \<subseteq> dom E"
  by (auto simp: sends_def)

lemma models_update:
  assumes "rep its st' {} (rv_entries v') (sends (rv_entries v'))" and "kept st st'" and "models its st v"
    and "rs_ports st' = rv_ports v'" and "rv_self v' = rv_self v"
  shows "models its st' v'"
  using assms kept_ptr(2) [of st st'] by (simp add: models_def)

text \<open>The result that a specification gives for a call.\<close>

definition achieves :: "nat list \<Rightarrow> right_state \<Rightarrow> 'r \<times> rights_view \<Rightarrow> 'r \<times> right_state \<Rightarrow> bool" where
  "achieves its st spec res \<longleftrightarrow> fst res = fst spec \<and> models its (snd res) (snd spec) \<and> kept st (snd res)"

lemma achievesI: "models its st' v' \<Longrightarrow> kept st st' \<Longrightarrow> achieves its st (r, v') (r, st')"
  by (simp add: achieves_def)

lemma achieves_kept: "kept st st1 \<Longrightarrow> achieves its st1 spec res \<Longrightarrow> achieves its st spec res"
  using kept_trans by (auto simp: achieves_def)

lemma dead_entryD:
  assumes "view_ok sizes v" and "rv_entries v n = Some e" and "ie_type e = MACH_PORT_TYPE_DEAD_NAME"
  shows "ie_object e = IO_NULL" "ie_request e = 0" "\<not> has (ie_bits e) IE_BITS_MAREQUEST" "0 < IE_BITS_UREFS (ie_bits e)"
    "\<not> has (ie_bits e) IE_BITS_COMPAT"
  using view_okD(3) [OF assms(1,2)] assms(3) by (simp_all add: entry_fits_def)

lemma adjust_dead_rule:
  assumes m: "models its st v" and ok: "view_ok sizes v" and e: "rv_entries v n = Some e"
    and t: "ie_type e = MACH_PORT_TYPE_DEAD_NAME" and ptr: "ptr = ptr_of (rs_space st) n"
    and d: "\<not> MACH_PORT_UREFS_OVERFLOW (IE_BITS_UREFS (ie_bits e)) d" "\<not> MACH_PORT_UREFS_UNDERFLOW (IE_BITS_UREFS (ie_bits e)) d"
    and Q: "\<And>st'. models its st' (adjust_dead n e d v) \<Longrightarrow> kept st st' \<Longrightarrow> Q st'"
  shows "returns (if IE_BITS_UREFS (ie_bits e) + d = 0 then free_entry its st n ptr
    else upd_entry st ptr (\<lambda>x. x\<lparr>ie_bits := ie_bits e + d\<rparr>)) Q"
proof -
  note rep = modelsD(1) [OF m] and b = adjust_bits [OF d] and dead = dead_entryD [OF ok e t]
  show ?thesis
  proof (rule returns_if)
    assume z: "IE_BITS_UREFS (ie_bits e) + d = 0"
    show "returns (free_entry its st n ptr) Q"
    proof (rule free_entry_rule [OF rep e ptr dead(1,2) sends_dom])
      fix st' assume st': "rep its st' {} ((rv_entries v)(n := None)) (sends (rv_entries v))" "frame st st'"
      have "sends ((rv_entries v)(n := None)) = sends (rv_entries v)" using e t by (auto simp: sends_def)
      then show "Q st'"
        using Q [OF models_update [OF _ keptI(2) [OF st'(2)] m]] st' z frameD(1) [OF st'(2)] modelsD(2) [OF m] keptI(2) [OF st'(2)]
        by (simp add: adjust_dead_def)
    qed simp
  next
    assume z: "IE_BITS_UREFS (ie_bits e) + d \<noteq> 0"
    show "returns (upd_entry st ptr (\<lambda>x. x\<lparr>ie_bits := ie_bits e + d\<rparr>)) Q"
    proof (rule upd_rule [where E = "rv_entries v" and R = "{}" and H = "sends (rv_entries v)" and n = n and e = e and its = its])
      fix st' assume st': "rep its st' {} ((rv_entries v)(n \<mapsto> e\<lparr>ie_bits := ie_bits e + d\<rparr>)) (sends (rv_entries v))" "frame st st'"
      have "sends ((rv_entries v)(n \<mapsto> e\<lparr>ie_bits := ie_bits e + d\<rparr>)) = sends (rv_entries v)"
        using e t b by (auto simp: sends_def)
      then show "Q st'"
        using Q [OF models_update [OF _ keptI(2) [OF st'(2)] m]] st' z frameD(1) [OF st'(2)] modelsD(2) [OF m] keptI(2) [OF st'(2)]
        by (simp add: adjust_dead_def)
    qed (use rep e ptr b t rep_in_use [OF rep e] in auto)
  qed
qed

lemma minus_one_bounds:
  assumes "0 < u" and "u \<le> MACH_PORT_UREFS_MAX"
  shows "\<not> MACH_PORT_UREFS_OVERFLOW u (- 1)" "\<not> MACH_PORT_UREFS_UNDERFLOW u (- 1)" "u + - 1 = 0 \<longleftrightarrow> u = 1"
  using assms(1)
  by (simp_all add: urefs_overflow_iff [OF assms(2)] urefs_underflow_iff [OF assms(2)] word_less_def)
    (use assms in \<open>simp_all add: word_le_def UREFS_MAX_uint\<close>)

lemma dealloc_dead_rule:
  assumes m: "models its st v" and ok: "view_ok sizes v" and e: "rv_entries v n = Some e"
    and t: "ie_type e = MACH_PORT_TYPE_DEAD_NAME" and ptr: "ptr = ptr_of (rs_space st) n"
  shows "returns (dealloc_dead its st n ptr) (achieves its st (KERN_SUCCESS, adjust_dead n e (- 1) v))"
proof -
  note rep = modelsD(1) [OF m] and dead = dead_entryD [OF ok e t]
  note u = minus_one_bounds [OF dead(4) urefs_le_max]
  have "returns (if IE_BITS_UREFS (ie_bits e) = 1 then free_entry its st n ptr
    else upd_entry st ptr (\<lambda>x. x\<lparr>ie_bits := ie_bits e - 1\<rparr>))
    (\<lambda>st'. achieves its st (KERN_SUCCESS, adjust_dead n e (- 1) v) (KERN_SUCCESS, st'))"
    using adjust_dead_rule [OF m ok e t ptr u(1,2), of "\<lambda>st'. achieves its st (KERN_SUCCESS, adjust_dead n e (- 1) v) (KERN_SUCCESS, st')"]
    by (cases "IE_BITS_UREFS (ie_bits e) = 1") (simp_all add: u(3) achievesI)
  then show ?thesis
    unfolding dealloc_dead_def returns_bind
    by (intro entry_at_rule [OF rep e ptr]) (use dead in \<open>simp add: Let_def\<close>)
qed

subsection \<open>Live ports\<close>

text \<open>The port \<open>p\<close> of a name is locked, and perhaps changed.\<close>

abbreviation at_port :: "right_state \<Rightarrow> rights_view \<Rightarrow> ptr \<Rightarrow> ipc_port \<Rightarrow> right_state" where
  "at_port st v p port \<equiv> st\<lparr>rs_ports := (rv_ports v)\<lparr>ports := (ports (rv_ports v))(p \<mapsto> port), locked := {p}\<rparr>\<rparr>"

lemma at_port_same: "ports (rv_ports v) p = Some port \<Longrightarrow>
    st\<lparr>rs_ports := (rv_ports v)\<lparr>locked := {p}\<rparr>\<rparr> = at_port st v p port"
  by (simp add: fun_upd_idem)

lemma sonce_rule:
  assumes m: "models its st v" and ok: "view_ok sizes v" and live: "live_at sizes v n e port"
    and t: "ie_type e = MACH_PORT_TYPE_SEND_ONCE" and ptr: "ptr = ptr_of (rs_space st) n" and p: "p = ie_object e"
  shows "returns (give_up_sonce its (at_port st v p port) p n ptr) (achieves its st (KERN_SUCCESS, give_up_once n e v))"
proof -
  note rep = modelsD(1) [OF m] and l = live_atD [OF live] and lk = view_okD(2) [OF ok]
  have n: "n \<notin> sends (rv_entries v)" using l(1) t by (simp add: in_sends)
  show ?thesis
  proof (rule give_up_sonce_rule [where E = "rv_entries v" and H = "sends (rv_entries v)" and e = e and port = port and sizes = sizes])
    fix st' assume st': "rep its st' {} ((rv_entries v)(n := None)) (sends (rv_entries v))"
      and f: "frame (at_port st v p port\<lparr>rs_ports := emit (Send_once p # pd_event (request_port port (ie_request e)) n)
        ((rs_ports (at_port st v p port))\<lparr>ports := (ports (rs_ports (at_port st v p port)))
          (p \<mapsto> cancel_request (ie_request e) port), locked := {}\<rparr>)\<rparr>) st'"
    have k: "kept st st'" using f by (simp add: kept_def frame_def)
    have "models its st' (give_up_once n e v)"
      by (rule models_update [OF _ k m])
        (use st' n frameD(1) [OF f] l p lk in
          \<open>simp_all add: give_up_once_def Let_def the_port_def sends_remove view_defs unlocked\<close>)
    then show "achieves its st (KERN_SUCCESS, give_up_once n e v) (KERN_SUCCESS, st')" using k by (rule achievesI)
  qed (use rep l n ptr p sends_dom in auto)
qed

lemma send_last_rule:
  assumes m: "models its st v" and ok: "view_ok sizes v" and live: "live_at sizes v n e port"
    and t: "ie_type e = MACH_PORT_TYPE_SEND" and ptr: "ptr = ptr_of (rs_space st) n" and p: "p = ie_object e"
  shows "returns (give_up_send its (at_port st v p (less_send port)) p n ptr (ie_bits e))
    (\<lambda>(dn, st'). returns (unlock_port st' p) (\<lambda>st'.
       achieves its st (KERN_SUCCESS, give_up_last n e v)
         (KERN_SUCCESS, send_events (ns_event (ns_due port) @ pd_event dn n) st')))"
proof -
  note rep = modelsD(1) [OF m] and l = live_atD [OF live] and lk = view_okD(2) [OF ok]
  have n: "n \<in> sends (rv_entries v)" using l(1) t by (simp add: in_sends)
  let ?port = "(cancel_request (ie_request e) (less_send port))\<lparr>ip_references := ip_references port - 1\<rparr>"
  show ?thesis
  proof (rule give_up_send_rule [where E = "rv_entries v" and H = "sends (rv_entries v)" and e = e and port = "less_send port" and sizes = sizes])
    fix st' assume st': "rep its st' {} ((rv_entries v)(n := None)) (sends (rv_entries v) - {n})"
      and f: "frame (at_port st v p (less_send port)\<lparr>rs_ports := emit (ma_event (rs_self (at_port st v p (less_send port))) n (ie_bits e))
        ((rs_ports (at_port st v p (less_send port)))\<lparr>ports := (ports (rs_ports (at_port st v p (less_send port))))
          (p \<mapsto> (cancel_request (ie_request e) (less_send port))\<lparr>ip_references := ip_references (less_send port) - 1\<rparr>)\<rparr>)\<rparr>) st'"
    let ?es = "ns_event (ns_due port) @ pd_event (request_port (less_send port) (ie_request e)) n"
    let ?st = "send_events ?es (st'\<lparr>rs_ports := (rs_ports st')\<lparr>locked := {}\<rparr>\<rparr>)"
    have k: "kept st ?st" using f by (simp add: kept_def frame_def send_events_def)
    have "models its ?st (give_up_last n e v)"
      by (rule models_update [OF _ k m])
        (use st' n frameD(1) [OF f] l p lk modelsD(3) [OF m] in
          \<open>simp_all add: give_up_last_def Let_def the_port_def sends_remove view_defs unlocked send_events_def\<close>)
    then show "case (request_port (less_send port) (ie_request e), st') of (dn, st') \<Rightarrow>
      returns (unlock_port st' p) (\<lambda>st'. achieves its st (KERN_SUCCESS, give_up_last n e v)
         (KERN_SUCCESS, send_events (ns_event (ns_due port) @ pd_event dn n) st'))"
      using k frameD(1) [OF f] by (simp add: unlock_port_step achievesI)
  qed (use rep l n ptr p sends_dom in auto)
qed

lemma sender_rule:
  assumes m: "models its st v" and ok: "view_ok sizes v" and live: "live_at sizes v n e port"
    and t: "ie_type e = MACH_PORT_TYPE_SEND_RECEIVE" and ptr: "ptr = ptr_of (rs_space st) n" and p: "p = ie_object e"
  shows "returns (upd_entry (at_port st v p (less_send port)) ptr
      (\<lambda>x. x\<lparr>ie_bits := ie_bits e AND NOT (IE_BITS_UREFS_MASK OR MACH_PORT_TYPE_SEND)\<rparr>))
    (\<lambda>st'. returns (unlock_port st' p) (\<lambda>st'.
       achieves its st (KERN_SUCCESS, give_up_sender n e v) (KERN_SUCCESS, send_events (ns_event (ns_due port)) st')))"
proof -
  note rep = modelsD(1) [OF m] and l = live_atD [OF live] and lk = view_okD(2) [OF ok] and r = receive_only_sel [OF t]
  have n: "n \<notin> sends (rv_entries v)" using l(1) t by (simp add: in_sends)
  have e: "e\<lparr>ie_bits := ie_bits e AND NOT (IE_BITS_UREFS_MASK OR MACH_PORT_TYPE_SEND)\<rparr> = receive_only e" by (simp add: receive_only_def)
  show ?thesis
  proof (rule upd_rule [where E = "rv_entries v" and R = "{}" and H = "sends (rv_entries v)" and n = n and e = e and its = its])
    fix st' assume st': "rep its st' {} ((rv_entries v)(n \<mapsto> e\<lparr>ie_bits := ie_bits e AND NOT (IE_BITS_UREFS_MASK OR MACH_PORT_TYPE_SEND)\<rparr>))
      (sends (rv_entries v))" and f: "frame (at_port st v p (less_send port)) st'"
    let ?st = "send_events (ns_event (ns_due port)) (st'\<lparr>rs_ports := (rs_ports st')\<lparr>locked := {}\<rparr>\<rparr>)"
    have k: "kept st ?st" using f by (simp add: kept_def frame_def send_events_def)
    have "models its ?st (give_up_sender n e v)"
      by (rule models_update [OF _ k m])
        (use st' [unfolded e] n frameD(1) [OF f] l p lk r in
          \<open>simp_all add: give_up_sender_def Let_def the_port_def sends_upd view_defs unlocked send_events_def\<close>)
    then show "returns (unlock_port st' p) (\<lambda>st'. achieves its st (KERN_SUCCESS, give_up_sender n e v)
         (KERN_SUCCESS, send_events (ns_event (ns_due port)) st'))"
      using k frameD(1) [OF f] by (simp add: unlock_port_step achievesI)
  qed (use rep l n ptr r [unfolded receive_only_def] rep_in_use [OF rep l(1)] in \<open>auto simp: type_values\<close>)
qed

lemma count_rule:
  assumes m: "models its st v" and ok: "view_ok sizes v" and live: "live_at sizes v n e port" and ptr: "ptr = ptr_of (rs_space st) n"
    and p: "p = ie_object e" and z: "IE_BITS_UREFS (ie_bits e) + d \<noteq> 0"
    and d: "\<not> MACH_PORT_UREFS_OVERFLOW (IE_BITS_UREFS (ie_bits e)) d" "\<not> MACH_PORT_UREFS_UNDERFLOW (IE_BITS_UREFS (ie_bits e)) d"
  shows "returns (upd_entry (at_port st v p port) ptr (\<lambda>x. x\<lparr>ie_bits := ie_bits e + d\<rparr>))
    (\<lambda>st'. returns (unlock_port st' p) (\<lambda>st'. achieves its st (KERN_SUCCESS, adjust_send n e d v) (KERN_SUCCESS, st')))"
proof -
  note rep = modelsD(1) [OF m] and l = live_atD [OF live] and lk = view_okD(2) [OF ok] and b = adjust_bits [OF d]
  have tz: "ie_type e \<noteq> 0" using l(13) by (auto simp: type_sets type_values)
  have E: "(rv_entries v)(n \<mapsto> e) = rv_entries v" using l(1) by auto
  have s: "sends ((rv_entries v)(n \<mapsto> e\<lparr>ie_bits := ie_bits e + d\<rparr>)) = sends (rv_entries v)"
    using sends_upd [of "rv_entries v" n e] b by (simp add: sends_upd E)
  show ?thesis
  proof (rule upd_rule [where E = "rv_entries v" and R = "{}" and H = "sends (rv_entries v)" and n = n and e = e and its = its])
    fix st' assume st': "rep its st' {} ((rv_entries v)(n \<mapsto> e\<lparr>ie_bits := ie_bits e + d\<rparr>)) (sends (rv_entries v))"
      and f: "frame (at_port st v p port) st'"
    let ?st = "st'\<lparr>rs_ports := (rs_ports st')\<lparr>locked := {}\<rparr>\<rparr>"
    have k: "kept st ?st" using f by (simp add: kept_def frame_def)
    have "models its ?st (adjust_send n e d v)"
      by (rule models_update [OF _ k m])
        (use st' frameD(1) [OF f] l p lk s z in \<open>simp_all add: adjust_send_def unlocked fun_upd_idem\<close>)
    then show "returns (unlock_port st' p) (\<lambda>st'. achieves its st (KERN_SUCCESS, adjust_send n e d v) (KERN_SUCCESS, st'))"
      using k frameD(1) [OF f] by (simp add: unlock_port_step achievesI)
  qed (use rep l ptr b tz rep_in_use [OF rep l(1)] in auto)
qed

subsection \<open>Deallocation\<close>

lemma entry_type_cases:
  assumes "view_ok sizes v" and "rv_entries v n = Some e"
  obtains "ie_type e = MACH_PORT_TYPE_DEAD_NAME" | "ie_type e = MACH_PORT_TYPE_PORT_SET" | "ie_type e = MACH_PORT_TYPE_SEND"
    | "ie_type e = MACH_PORT_TYPE_SEND_ONCE" | "ie_type e = MACH_PORT_TYPE_RECEIVE" | "ie_type e = MACH_PORT_TYPE_SEND_RECEIVE"
  using view_okD(3) [OF assms] by (auto simp: entry_fits_def type_sets split: if_splits)

lemma dying_dead:
  assumes ok: "view_ok sizes v" and e: "rv_entries v n = Some e" and d: "dies e v"
  shows "view_ok sizes (bury n e v)" "rv_entries (bury n e v) n = Some (dead_name e)"
    "ie_type (dead_name e) = MACH_PORT_TYPE_DEAD_NAME"
proof -
  obtain port where "IE_BITS_UREFS (ie_bits e) < MACH_PORT_UREFS_MAX" using diesE [OF ok e d] by metis
  then show "ie_type (dead_name e) = MACH_PORT_TYPE_DEAD_NAME" by (rule dead_name_sel)
qed (use bury_ok [OF assms] in \<open>simp_all add: bury_sel\<close>)

text \<open>A call that finds the port dead goes on with the dead name.\<close>

lemma dying_rule:
  assumes m: "models its st v" and ok: "view_ok sizes v" and e: "rv_entries v n = Some e" and d: "dies e v"
    and ptr: "ptr = ptr_of (rs_space st) n" and p: "p = ie_object e"
    and Q: "\<And>st'. models its st' (bury n e v) \<Longrightarrow> kept st st' \<Longrightarrow> ptr = ptr_of (rs_space st') n \<Longrightarrow> Q (True, st')"
  shows "returns (ipc_right_check its st p n ptr) Q"
proof -
  obtain port where port: "ports (rv_ports v) (ie_object e) = Some port" "\<not> ip_active port"
    "ie_type e \<in> {MACH_PORT_TYPE_SEND, MACH_PORT_TYPE_SEND_ONCE}" using diesE [OF ok e d] by metis
  show ?thesis
    by (rule check_dead_rule [OF m ok e ptr p _ port(2,3)]) (use port p Q ptr kept_ptr in auto)
qed

lemma dying_exact:
  assumes "models its st v" and "view_ok sizes v" and "rv_entries v n = Some e" and "dies e v"
    and "ptr = ptr_of (rs_space st) n" and "p = ie_object e"
  shows "\<exists>st'. ipc_right_check its st p n ptr = Some (True, st') \<and> models its st' (bury n e v) \<and> kept st st' \<and>
    ptr = ptr_of (rs_space st') n"
proof -
  have "returns (ipc_right_check its st p n ptr) (\<lambda>r. \<exists>st'. r = (True, st') \<and> models its st' (bury n e v) \<and> kept st st' \<and>
      ptr = ptr_of (rs_space st') n)"
    by (rule dying_rule [OF assms]) auto
  then show ?thesis by (auto simp: returns_def)
qed

lemma port_entryD:
  assumes "port_entry_ok self n e port"
  shows "ie_type e = MACH_PORT_TYPE_SEND \<Longrightarrow> 0 < IE_BITS_UREFS (ie_bits e) \<and> IE_BITS_UREFS (ie_bits e) < MACH_PORT_UREFS_MAX \<and>
      (ip_active port \<longrightarrow> ip_data port \<noteq> self)"
    and "ie_type e = MACH_PORT_TYPE_SEND_ONCE \<Longrightarrow> IE_BITS_UREFS (ie_bits e) = 1 \<and> \<not> has (ie_bits e) IE_BITS_MAREQUEST"
    and "ie_type e = MACH_PORT_TYPE_RECEIVE \<Longrightarrow>
      IE_BITS_UREFS (ie_bits e) = 0 \<and> ip_active port \<and> ip_receiver_name port = n \<and> ip_data port = self"
    and "ie_type e = MACH_PORT_TYPE_SEND_RECEIVE \<Longrightarrow> 0 < IE_BITS_UREFS (ie_bits e) \<and>
      IE_BITS_UREFS (ie_bits e) < MACH_PORT_UREFS_MAX \<and> ip_active port \<and> ip_receiver_name port = n \<and> ip_data port = self"
  using assms by (simp_all add: port_entry_ok_def Let_def receive_types_def)

lemma IO_VALID_nz: "IO_VALID p \<Longrightarrow> p \<noteq> IP_NULL"
  by (simp add: IO_VALID_def IP_NULL_def IO_NULL_def)

lemma dealloc_dying:
  assumes m: "models its st v" and ok: "view_ok sizes v" and e: "rv_entries v n = Some e" and d: "dies e v"
    and ptr: "ptr = ptr_of (rs_space st) n" and p: "p = ie_object e"
  shows "returns (ipc_right_check its st p n ptr) (\<lambda>(dead, st'). dead \<and>
    returns (after_check (ie_bits e) st' ptr (dealloc_dead its st' n ptr))
      (achieves its st (KERN_SUCCESS, adjust_dead n (dead_name e) (- 1) (bury n e v))))"
proof (rule dying_rule [OF m ok e d ptr p])
  fix st' assume m': "models its st' (bury n e v)" and k: "kept st st'" and ptr': "ptr = ptr_of (rs_space st') n"
  note dd = dying_dead [OF ok e d] and rep = modelsD(1) [OF m']
  have new: "\<not> has (ie_bits e) IE_BITS_COMPAT" using view_okD(3) [OF ok e] by (simp add: entry_fits_def)
  have "returns (dealloc_dead its st' n ptr) (achieves its st (KERN_SUCCESS, adjust_dead n (dead_name e) (- 1) (bury n e v)))"
    by (rule returns_mono [OF dealloc_dead_rule [OF m' dd(1,2,3) ptr']]) (rule achieves_kept [OF k])
  then show "case (True, st') of (dead, st') \<Rightarrow> dead \<and>
      returns (after_check (ie_bits e) st' ptr (dealloc_dead its st' n ptr))
      (achieves its st (KERN_SUCCESS, adjust_dead n (dead_name e) (- 1) (bury n e v)))"
    using new dd(3) by (auto simp: after_check_def intro!: entry_at_rule [OF rep dd(2) ptr'])
qed

lemma check_live:
  assumes m: "models its st v" and ok: "view_ok sizes v" and live: "live_at sizes v n e port"
    and ptr: "ptr = ptr_of (rs_space st) n" and p: "p = ie_object e" and Q: "Q (False, at_port st v p port)"
  shows "returns (ipc_right_check its st p n ptr) Q"
  using check_live_rule [OF m ok live_atD(1) [OF live] ptr p, of port Q] Q live_atD [OF live] p by (simp add: at_port_same)

lemma dealloc_refines:
  assumes m: "models its st v" and ok: "view_ok sizes v" and e: "rv_entries v n = Some e" and ptr: "ptr = ptr_of (rs_space st) n"
  shows "returns (ipc_right_dealloc its st n ptr) (achieves its st (dealloc_spec n v))"
proof (cases "dies e v")
  case True
  note rep = modelsD(1) [OF m]
  have t: "ie_type e \<in> {MACH_PORT_TYPE_SEND, MACH_PORT_TYPE_SEND_ONCE}" using True by (simp add: dies_def)
  have spec: "dealloc_spec n v = (KERN_SUCCESS, adjust_dead n (dead_name e) (- 1) (bury n e v))"
    using e True t by (auto simp: dealloc_spec_def)
  obtain port where "IO_VALID (ie_object e)" "port_entry_ok (rv_self v) n e port"
    using entry_port [OF ok e] t by (auto simp: type_sets)
  note a = IO_VALID_nz [OF this(1)] port_entryD(1,2) [OF this(2)]
  show ?thesis
    unfolding spec ipc_right_dealloc_def returns_bind
    by (rule entry_at_rule [OF rep e ptr], insert t a rep_active [OF rep], elim insertE emptyE)
      (use dealloc_dying [OF m ok e True ptr refl] in \<open>auto simp: Let_def elim!: returns_mono\<close>)
next
  case False
  note rep = modelsD(1) [OF m]
  show ?thesis
  proof (cases rule: entry_type_cases [OF ok e])
    case 1
    show ?thesis
      unfolding ipc_right_dealloc_def returns_bind
      by (rule entry_at_rule [OF rep e ptr])
        (use dealloc_dead_rule [OF m ok e 1 ptr] rep_active [OF rep] e 1 in \<open>simp add: dealloc_spec_def\<close>)
  next
    case 2
    show ?thesis
      unfolding ipc_right_dealloc_def returns_bind
      by (rule entry_at_rule [OF rep e ptr])
        (use rep_active [OF rep] e 2 m False in \<open>simp add: dealloc_spec_def type_sets achieves_def\<close>)
  next
    case 3
    then have "ie_type e \<in> port_types" by (simp add: type_sets)
    then obtain port where live: "live_at sizes v n e port" using live_atE [OF ok e _ False] by blast
    note l = live_atD [OF live] and c = live_at_counts(2) [OF live] and a = IO_VALID_nz [OF live_atD(8) [OF live]]
    note u = port_entryD(1) [OF l(6) 3] and b = minus_one_bounds [OF _ urefs_le_max, of "ie_bits e"]
    have send: "returns (if IE_BITS_UREFS (ie_bits e) = 1
        then drop_sright (at_port st v (ie_object e) port) (ie_object e) \<bind> (\<lambda>(ns, st). give_up_send its st (ie_object e) n ptr (ie_bits e) \<bind>
          (\<lambda>(dn, st). unlock_port st (ie_object e) \<bind> (\<lambda>st. Some (KERN_SUCCESS, send_events (ns_event ns @ pd_event dn n) st))))
        else upd_entry (at_port st v (ie_object e) port) ptr (\<lambda>x. x\<lparr>ie_bits := ie_bits e - 1\<rparr>) \<bind>
          (\<lambda>st. unlock_port st (ie_object e) \<bind> (\<lambda>st. Some (KERN_SUCCESS, st))))
      (achieves its st (KERN_SUCCESS, adjust_send n e (- 1) v))"
      using send_last_rule [OF m ok live 3 ptr refl] count_rule [OF m ok live ptr refl, of "- 1"] u b 3
      by (cases "IE_BITS_UREFS (ie_bits e) = 1")
        (auto simp: drop_sright_step adjust_send_def elim!: returns_mono)
    show ?thesis
      unfolding ipc_right_dealloc_def returns_bind
      by (rule entry_at_rule [OF rep e ptr])
        (use send rep_active [OF rep] e 3 False u a c in
          \<open>auto simp: dealloc_spec_def Let_def port_at_def type_sets word_less_def intro!: check_live [OF m ok live ptr]\<close>)
  next
    case 4
    then have "ie_type e \<in> port_types" by (simp add: type_sets)
    then obtain port where live: "live_at sizes v n e port" using live_atE [OF ok e _ False] by blast
    note l = live_atD [OF live] and c = live_at_counts(3) [OF live] and a = IO_VALID_nz [OF live_atD(8) [OF live]]
    show ?thesis
      unfolding ipc_right_dealloc_def returns_bind
      by (rule entry_at_rule [OF rep e ptr])
        (use sonce_rule [OF m ok live 4 ptr refl] rep_active [OF rep] e 4 False port_entryD(2) [OF l(6) 4] a c in
          \<open>auto simp: dealloc_spec_def Let_def port_at_def type_sets word_less_def intro!: check_live [OF m ok live ptr]\<close>)
  next
    case 5
    show ?thesis
      unfolding ipc_right_dealloc_def returns_bind
      by (rule entry_at_rule [OF rep e ptr])
        (use rep_active [OF rep] e 5 m False in \<open>simp add: dealloc_spec_def type_sets achieves_def\<close>)
  next
    case 6
    then have "ie_type e \<in> port_types" by (simp add: type_sets)
    then obtain port where live: "live_at sizes v n e port" using live_atE [OF ok e _ False] by blast
    note l = live_atD [OF live] and c = live_at_counts(2) [OF live] and a = IO_VALID_nz [OF live_atD(8) [OF live]]
    note u = port_entryD(4) [OF l(6) 6] and b = minus_one_bounds [OF _ urefs_le_max, of "ie_bits e"]
    have lock: "lock_port st (ie_object e) = Some (at_port st v (ie_object e) port)"
      using lock_port_step [of st "ie_object e" port] l(2) modelsD(2,3) [OF m] view_okD(2) [OF ok] by (simp add: at_port_same)
    show ?thesis
      unfolding ipc_right_dealloc_def returns_bind
      by (rule entry_at_rule [OF rep e ptr], cases "IE_BITS_UREFS (ie_bits e) = 1")
        (use sender_rule [OF m ok live 6 ptr refl] count_rule [OF m ok live ptr refl, of "- 1"] rep_active [OF rep] e 6 False u a b c
            modelsD(3) [OF m] in
          \<open>auto simp: dealloc_spec_def Let_def port_at_def type_sets word_less_def lock drop_sright_step adjust_send_def elim!: returns_mono\<close>)
  qed
qed

subsection \<open>User references\<close>

definition delta_spec :: "nat \<Rightarrow> u32 \<Rightarrow> mach_port \<Rightarrow> rights_view \<Rightarrow> kern_return \<times> rights_view" where
  "delta_spec rgt d n v =
     (case rv_entries v n of
        None \<Rightarrow> (KERN_INVALID_NAME, v)
      | Some e \<Rightarrow>
          let u = IE_BITS_UREFS (ie_bits e) in
          if rgt = MACH_PORT_RIGHT_PORT_SET then
            if ie_type e \<noteq> MACH_PORT_TYPE_PORT_SET then (KERN_INVALID_RIGHT, v)
            else if d = 0 then (KERN_SUCCESS, v)
            else if d \<noteq> - 1 then (KERN_INVALID_VALUE, v)
            else (KERN_SUCCESS, post [Pset_destroy (ie_object e)] (remove_entry n v))
          else if rgt = MACH_PORT_RIGHT_SEND_ONCE then
            if ie_type e \<noteq> MACH_PORT_TYPE_SEND_ONCE then (KERN_INVALID_RIGHT, v)
            else if d \<noteq> 0 \<and> d \<noteq> - 1 then (KERN_INVALID_VALUE, v)
            else if dies e v then (KERN_INVALID_RIGHT, bury n e v)
            else (KERN_SUCCESS, if d = 0 then v else give_up_once n e v)
          else if rgt = MACH_PORT_RIGHT_DEAD_NAME then
            let (e, v) = (if dies e v then (dead_name e, bury n e v) else (e, v)); u = IE_BITS_UREFS (ie_bits e) in
            if ie_type e \<noteq> MACH_PORT_TYPE_DEAD_NAME then (KERN_INVALID_RIGHT, v)
            else if MACH_PORT_UREFS_UNDERFLOW u d then (KERN_INVALID_VALUE, v)
            else if MACH_PORT_UREFS_OVERFLOW u d then (KERN_UREFS_OVERFLOW, v)
            else (KERN_SUCCESS, adjust_dead n e d v)
          else
            if ie_type e \<notin> send_types then (KERN_INVALID_RIGHT, v)
            else if MACH_PORT_UREFS_UNDERFLOW u d then (KERN_INVALID_VALUE, v)
            else if MACH_PORT_UREFS_OVERFLOW (u + 1) d then (KERN_UREFS_OVERFLOW, v)
            else if dies e v then (KERN_INVALID_RIGHT, bury n e v)
            else (KERN_SUCCESS, adjust_send n e d v))"

lemma right_distinct [simp]:
  "MACH_PORT_RIGHT_SEND \<noteq> MACH_PORT_RIGHT_PORT_SET" "MACH_PORT_RIGHT_SEND \<noteq> MACH_PORT_RIGHT_SEND_ONCE"
  "MACH_PORT_RIGHT_SEND \<noteq> MACH_PORT_RIGHT_DEAD_NAME" "MACH_PORT_RIGHT_SEND \<noteq> MACH_PORT_RIGHT_RECEIVE"
  "MACH_PORT_RIGHT_DEAD_NAME \<noteq> MACH_PORT_RIGHT_PORT_SET" "MACH_PORT_RIGHT_DEAD_NAME \<noteq> MACH_PORT_RIGHT_SEND_ONCE"
  "MACH_PORT_RIGHT_DEAD_NAME \<noteq> MACH_PORT_RIGHT_RECEIVE" "MACH_PORT_RIGHT_SEND_ONCE \<noteq> MACH_PORT_RIGHT_PORT_SET"
  "MACH_PORT_RIGHT_SEND_ONCE \<noteq> MACH_PORT_RIGHT_RECEIVE" "MACH_PORT_RIGHT_PORT_SET \<noteq> MACH_PORT_RIGHT_RECEIVE"
  by (simp_all add: MACH_PORT_RIGHT_SEND_def MACH_PORT_RIGHT_PORT_SET_def MACH_PORT_RIGHT_SEND_ONCE_def
      MACH_PORT_RIGHT_DEAD_NAME_def MACH_PORT_RIGHT_RECEIVE_def)

lemma not_pset: "ie_type e \<noteq> MACH_PORT_TYPE_PORT_SET \<Longrightarrow> view_ok sizes v \<Longrightarrow> rv_entries v n = Some e \<Longrightarrow>
    ie_bits e AND MACH_PORT_TYPE_PORT_SET = 0"
  by (erule (1) entry_type_cases) (simp_all add: dead_tests send_tests once_tests receive_tests send_receive_tests)

lemma not_once: "ie_type e \<noteq> MACH_PORT_TYPE_SEND_ONCE \<Longrightarrow> view_ok sizes v \<Longrightarrow> rv_entries v n = Some e \<Longrightarrow>
    ie_bits e AND MACH_PORT_TYPE_SEND_ONCE = 0"
  by (erule (1) entry_type_cases) (simp_all add: dead_tests send_tests pset_tests receive_tests send_receive_tests)

lemma not_send_type: "ie_type e \<notin> send_types \<Longrightarrow> view_ok sizes v \<Longrightarrow> rv_entries v n = Some e \<Longrightarrow>
    ie_bits e AND MACH_PORT_TYPE_SEND = 0"
  by (erule (1) entry_type_cases) (simp_all add: dead_tests once_tests pset_tests receive_tests send_types_def)

lemma delta_port_set_refines:
  assumes m: "models its st v" and ok: "view_ok sizes v" and e: "rv_entries v n = Some e" and ptr: "ptr = ptr_of (rs_space st) n"
    and its: "rw_its w = its"
  shows "returns (delta_port_set w st n ptr (e\<lparr>ie_index := i\<rparr>) d) (achieves its st (delta_spec MACH_PORT_RIGHT_PORT_SET d n v))"
proof (cases "ie_type e = MACH_PORT_TYPE_PORT_SET")
  case False
  then show ?thesis
    using not_pset [OF False ok e] m e by (simp add: delta_port_set_def delta_spec_def achieves_def Let_def)
next
  case True
  note rep = modelsD(1) [OF m]
  have fits: "ie_object e \<noteq> 0" "ie_request e = 0" "\<not> has (ie_bits e) IE_BITS_MAREQUEST" "IE_BITS_UREFS (ie_bits e) = 0"
    using view_okD(3) [OF ok e] True by (simp_all add: entry_fits_def IO_NULL_def)
  have n: "n \<notin> sends (rv_entries v)" using e True by (simp add: in_sends)
  have "returns (upd_entry st ptr (\<lambda>e. e\<lparr>ie_object := IO_NULL\<rparr>)) (\<lambda>st'. returns (free_entry its st' n ptr)
    (\<lambda>st'. achieves its st (KERN_SUCCESS, post [Pset_destroy (ie_object e)] (remove_entry n v))
      (KERN_SUCCESS, send_events [Pset_destroy (ie_object e)] st')))"
  proof (rule clear_rule [OF rep e fits(2) ptr n sends_dom])
    fix st' assume st': "rep its st' {} ((rv_entries v)(n := None)) (sends (rv_entries v))" and f: "frame st st'"
    let ?st = "send_events [Pset_destroy (ie_object e)] st'"
    have k: "kept st ?st" using f by (simp add: kept_def frame_def send_events_def)
    have "models its ?st (post [Pset_destroy (ie_object e)] (remove_entry n v))"
      by (rule models_update [OF _ k m])
        (use st' n frameD(1) [OF f] modelsD(2) [OF m] in \<open>simp_all add: sends_remove view_defs send_events_def\<close>)
    then show "achieves its st (KERN_SUCCESS, post [Pset_destroy (ie_object e)] (remove_entry n v)) (KERN_SUCCESS, ?st)"
      using k by (rule achievesI)
  qed
  then show ?thesis
    using True e m fits its by (simp add: delta_port_set_def delta_spec_def achieves_def [of _ _ _ "(KERN_SUCCESS, st)"]
      achieves_def [of _ _ _ "(KERN_INVALID_VALUE, st)"] Let_def pset_tests)
qed

lemma sint_cases: "0 < sint (d :: u32) \<or> sint d < - 1 \<longleftrightarrow> d \<noteq> 0 \<and> d \<noteq> - 1"
proof -
  have "sint d = 0 \<longleftrightarrow> d = 0" by (simp add: signed_eq_0_iff)
  moreover have "sint d = - 1 \<longleftrightarrow> d = - 1" by (metis sint_pm1(2) signed_word_eqI)
  ultimately show ?thesis by linarith
qed

lemma achieves_refl: "models its st v \<Longrightarrow> achieves its st (r, v) (r, st)"
  by (simp add: achieves_def)

lemma lock_live:
  assumes "models its st v" and "view_ok sizes v" and "live_at sizes v n e port"
  shows "lock_port st (ie_object e) = Some (at_port st v (ie_object e) port)"
  using lock_port_step [of st "ie_object e" port] live_atD(2) [OF assms(3)] modelsD(2) [OF assms(1)] view_okD(2) [OF assms(2)]
  by (simp add: at_port_same)

lemma unlock_live:
  assumes "models its st v" and "view_ok sizes v" and "live_at sizes v n e port"
  shows "\<exists>st'. unlock_port (at_port st v (ie_object e) port) (ie_object e) = Some st' \<and> models its st' v \<and> kept st st'"
proof -
  have "st\<lparr>rs_ports := rv_ports v\<rparr> = st" using modelsD(2) [OF assms(1)] by (cases st) simp
  then show ?thesis
    using live_atD(2) [OF assms(3)] view_okD(2) [OF assms(2)] assms(1)
    by (simp add: unlock_port_step unlocked fun_upd_idem)
qed

lemma delta_send_once_refines:
  assumes m: "models its st v" and ok: "view_ok sizes v" and e: "rv_entries v n = Some e" and ptr: "ptr = ptr_of (rs_space st) n"
  shows "returns (delta_send_once its st n ptr (e\<lparr>ie_index := i\<rparr>) d) (achieves its st (delta_spec MACH_PORT_RIGHT_SEND_ONCE d n v))"
proof (cases "ie_type e = MACH_PORT_TYPE_SEND_ONCE")
  case False
  then show ?thesis
    using not_once [OF False ok e] m e by (simp add: delta_send_once_def delta_spec_def achieves_def Let_def)
next
  case True
  then have t: "ie_type e \<in> port_types" by (simp add: type_sets)
  obtain port where "IO_VALID (ie_object e)" "port_entry_ok (rv_self v) n e port" using entry_port [OF ok e t] by metis
  note a = IO_VALID_nz [OF this(1)] port_entryD(2) [OF this(2) True] and tests = once_tests [OF True]
  have new: "\<not> has (ie_bits e) IE_BITS_COMPAT" using view_okD(3) [OF ok e] by (simp add: entry_fits_def)
  show ?thesis
  proof (cases "dies e v")
    case False
    then obtain port where live: "live_at sizes v n e port" using live_atE [OF ok e t] by blast
    obtain st1 where un: "unlock_port (at_port st v (ie_object e) port) (ie_object e) = Some st1" "models its st1 v" "kept st st1"
      using unlock_live [OF m ok live] by blast
    show ?thesis
      using sonce_rule [OF m ok live True ptr refl] un achieves_kept [OF un(3) achieves_refl [OF un(2)]]
        e True False m a tests live_at_counts(3) [OF live] achieves_refl [OF m]
      by (auto simp: delta_send_once_def delta_spec_def sint_cases Let_def port_at_def once_types_def word_less_def
          intro!: check_live [OF m ok live ptr])
  next
    case d: True
    have "returns (ipc_right_check its st (ie_object e) n ptr) (\<lambda>(dead, st'). dead \<and>
        returns (entry_at st' ptr) (\<lambda>x. ie_bits x AND MACH_PORT_TYPE_SEND_ONCE = 0 \<and>
          achieves its st (KERN_INVALID_RIGHT, bury n e v) (KERN_INVALID_RIGHT, st')))"
      by (rule dying_rule [OF m ok e d ptr refl])
        (auto intro!: entry_at_rule [OF modelsD(1) dying_dead(2) [OF ok e d]] achievesI simp: dead_tests dying_dead(3) [OF ok e d])
    then show ?thesis
      using e True d m a tests new achieves_refl [OF m]
      by (auto simp: delta_send_once_def delta_spec_def sint_cases Let_def elim!: returns_mono)
  qed
qed

lemma delta_send_refines:
  assumes m: "models its st v" and ok: "view_ok sizes v" and e: "rv_entries v n = Some e" and ptr: "ptr = ptr_of (rs_space st) n"
  shows "returns (delta_send its st n ptr (e\<lparr>ie_index := i\<rparr>) d) (achieves its st (delta_spec MACH_PORT_RIGHT_SEND d n v))"
proof (cases "ie_type e \<in> send_types")
  case False
  then show ?thesis
    using not_send_type [OF False ok e] m e by (simp add: delta_send_def delta_spec_def achieves_def Let_def)
next
  case True
  then have t: "ie_type e \<in> port_types" by (auto simp: type_sets)
  let ?u = "IE_BITS_UREFS (ie_bits e)" and ?p = "ie_object e"
  obtain port where "IO_VALID (ie_object e)" "port_entry_ok (rv_self v) n e port" using entry_port [OF ok e t] by metis
  note a = IO_VALID_nz [OF this(1)] and tests = send_tests [of e] send_receive_tests [of e]
  have new: "\<not> has (ie_bits e) IE_BITS_COMPAT" using view_okD(3) [OF ok e] by (simp add: entry_fits_def)
  have s: "has (ie_bits e) MACH_PORT_TYPE_SEND" using True tests by (auto simp: send_types_def)
  show ?thesis
  proof (cases "MACH_PORT_UREFS_UNDERFLOW ?u d \<or> MACH_PORT_UREFS_OVERFLOW (?u + 1) d")
    case True
    then show ?thesis
      using s \<open>ie_type e \<in> send_types\<close> e achieves_refl [OF m] by (auto simp: delta_send_def delta_spec_def Let_def)
  next
    case d: False
    show ?thesis
    proof (cases "dies e v")
      case False
      then obtain port where live: "live_at sizes v n e port" using live_atE [OF ok e t] by blast
      note l = live_atD [OF live] and pe = port_entryD [OF live_atD(6) [OF live]]
      have u: "?u < MACH_PORT_UREFS_MAX" using True pe by (auto simp: send_types_def)
      have o: "\<not> MACH_PORT_UREFS_OVERFLOW ?u d" using overflow_next(1) d u by blast
      show ?thesis
      proof (cases "ie_type e = MACH_PORT_TYPE_SEND")
        case t: True
        show ?thesis
          by (cases "?u + d = 0")
            (use send_last_rule [OF m ok live t ptr refl] count_rule [OF m ok live ptr refl _ o] e t False d a s
                live_at_counts(2) [OF live] send_tests [OF t] in
              \<open>auto simp: delta_send_def delta_spec_def Let_def port_at_def send_types_def word_less_def drop_sright_step
                adjust_send_def elim!: returns_mono intro!: check_live [OF m ok live ptr]\<close>)
      next
        case t: False
        then have t: "ie_type e = MACH_PORT_TYPE_SEND_RECEIVE" using True by (simp add: send_types_def)
        note run = sender_rule [OF m ok live t ptr refl] count_rule [OF m ok live ptr refl _ o]
        have spec: "delta_spec MACH_PORT_RIGHT_SEND d n v = (KERN_SUCCESS, adjust_send n e d v)"
          using e True False d by (simp add: delta_spec_def Let_def)
        show ?thesis
          unfolding spec using run d a s pe(4) [OF t] modelsD(3) [OF m] live_at_counts(2) [OF live] send_receive_tests [OF t] t
          by (cases "?u + d = 0")
            (simp add: delta_send_def Let_def, rule check_live [OF m ok live ptr refl],
              simp add: port_at_def send_types_def word_less_def drop_sright_step adjust_send_def pd_event_def)+
      qed
    next
      case dd: True
      have "returns (ipc_right_check its st ?p n ptr) (\<lambda>(dead, st'). dead \<and>
          returns (entry_at st' ptr) (\<lambda>x. ie_bits x AND MACH_PORT_TYPE_SEND = 0 \<and>
            achieves its st (KERN_INVALID_RIGHT, bury n e v) (KERN_INVALID_RIGHT, st')))"
        by (rule dying_rule [OF m ok e dd ptr refl])
          (auto intro!: entry_at_rule [OF modelsD(1) dying_dead(2) [OF ok e dd]] achievesI simp: dead_tests dying_dead(3) [OF ok e dd])
      then show ?thesis
        using e True d dd m a s new
        by (auto simp: delta_send_def delta_spec_def Let_def elim!: returns_mono)
    qed
  qed
qed

definition dead_spec :: "u32 \<Rightarrow> mach_port \<Rightarrow> ipc_entry \<Rightarrow> rights_view \<Rightarrow> kern_return \<times> rights_view" where
  "dead_spec d n e v =
     (let u = IE_BITS_UREFS (ie_bits e) in
      if MACH_PORT_UREFS_UNDERFLOW u d then (KERN_INVALID_VALUE, v)
      else if MACH_PORT_UREFS_OVERFLOW u d then (KERN_UREFS_OVERFLOW, v)
      else (KERN_SUCCESS, adjust_dead n e d v))"

lemma dead_tail:
  assumes m: "models its st v" and ok: "view_ok sizes v" and e: "rv_entries v n = Some e"
    and t: "ie_type e = MACH_PORT_TYPE_DEAD_NAME" and ptr: "ptr = ptr_of (rs_space st) n"
  shows "returns
    (do { entry \<leftarrow> entry_at st ptr;
          let bits = ie_bits entry;
          assert_that (IE_BITS_TYPE bits = MACH_PORT_TYPE_DEAD_NAME);
          assert_that (0 < IE_BITS_UREFS bits);
          assert_that (\<not> has bits IE_BITS_MAREQUEST);
          assert_that (ie_object entry = IO_NULL);
          assert_that (ie_request entry = 0);
          let urefs = IE_BITS_UREFS bits;
          if MACH_PORT_UREFS_UNDERFLOW urefs d then Some (KERN_INVALID_VALUE, st)
          else if MACH_PORT_UREFS_OVERFLOW urefs d then Some (KERN_UREFS_OVERFLOW, st)
          else
            do { st \<leftarrow> (if urefs + d = 0 then free_entry its st n ptr
                        else upd_entry st ptr (\<lambda>e. e\<lparr>ie_bits := bits + d\<rparr>));
                 Some (KERN_SUCCESS, st) } })
    (achieves its st (dead_spec d n e v))"
proof -
  note dead = dead_entryD [OF ok e t]
  have "returns (if IE_BITS_UREFS (ie_bits e) + d = 0 then free_entry its st n ptr
    else upd_entry st ptr (\<lambda>x. x\<lparr>ie_bits := ie_bits e + d\<rparr>)) (\<lambda>st'. achieves its st (KERN_SUCCESS, adjust_dead n e d v) (KERN_SUCCESS, st'))"
    if "\<not> MACH_PORT_UREFS_OVERFLOW (IE_BITS_UREFS (ie_bits e)) d" "\<not> MACH_PORT_UREFS_UNDERFLOW (IE_BITS_UREFS (ie_bits e)) d"
    by (rule adjust_dead_rule [OF m ok e t ptr that]) (rule achievesI)
  then show ?thesis
    unfolding returns_bind
    by (intro entry_at_rule [OF modelsD(1) [OF m] e ptr]) (use dead t achieves_refl [OF m] in \<open>auto simp: dead_spec_def Let_def\<close>)
qed

lemma delta_dead_name_refines:
  assumes m: "models its st v" and ok: "view_ok sizes v" and e: "rv_entries v n = Some e" and ptr: "ptr = ptr_of (rs_space st) n"
  shows "returns (delta_dead_name its st n ptr (e\<lparr>ie_index := i\<rparr>) d) (achieves its st (delta_spec MACH_PORT_RIGHT_DEAD_NAME d n v))"
proof (cases "ie_type e \<in> port_types \<and> ie_type e \<noteq> MACH_PORT_TYPE_RECEIVE")
  case False
  show ?thesis
  proof (cases rule: entry_type_cases [OF ok e])
    case 1
    then have "\<not> dies e v" by (simp add: dies_def)
    then have "delta_spec MACH_PORT_RIGHT_DEAD_NAME d n v = dead_spec d n e v"
      using 1 e by (simp add: delta_spec_def dead_spec_def Let_def)
    then show ?thesis
      using dead_tail [OF m ok e 1 ptr, of d] dead_tests [OF 1] by (simp add: delta_dead_name_def Let_def)
  qed (use False e m achieves_refl [OF m] pset_tests [of e] receive_tests [of e] in
      \<open>simp_all add: delta_dead_name_def delta_spec_def dies_def Let_def type_sets\<close>)
next
  case True
  then have t: "ie_type e \<in> port_types" "has (ie_bits e) MACH_PORT_TYPE_SEND_RIGHTS"
    using send_tests [of e] once_tests [of e] send_receive_tests [of e] by (auto simp: type_sets)
  obtain port where "IO_VALID (ie_object e)" using entry_port [OF ok e t(1)] by metis
  note a = IO_VALID_nz [OF this]
  have new: "\<not> has (ie_bits e) IE_BITS_COMPAT" using view_okD(3) [OF ok e] by (simp add: entry_fits_def)
  show ?thesis
  proof (cases "dies e v")
    case False
    then obtain port where live: "live_at sizes v n e port" using live_atE [OF ok e t(1)] by blast
    obtain st1 where un: "unlock_port (at_port st v (ie_object e) port) (ie_object e) = Some st1" "models its st1 v" "kept st st1"
      using unlock_live [OF m ok live] by blast
    have "delta_spec MACH_PORT_RIGHT_DEAD_NAME d n v = (KERN_INVALID_RIGHT, v)"
      using e False t(1) by (auto simp: delta_spec_def Let_def)
    then show ?thesis
      using t a new un achieves_kept [OF un(3) achieves_refl [OF un(2)]]
      by (simp add: delta_dead_name_def Let_def) (rule check_live [OF m ok live ptr refl], simp)
  next
    case dd: True
    note d = dying_dead [OF ok e dd]
    have spec: "delta_spec MACH_PORT_RIGHT_DEAD_NAME d n v = dead_spec d n (dead_name e) (bury n e v)"
      using e dd d(3) by (simp add: delta_spec_def dead_spec_def Let_def)
    obtain st1 where st1: "ipc_right_check its st (ie_object e) n ptr = Some (True, st1)" "models its st1 (bury n e v)" "kept st st1"
        "ptr = ptr_of (rs_space st1) n" using dying_exact [OF m ok e dd ptr refl] by blast
    note tail = returns_mono [OF dead_tail [OF st1(2) d st1(4)] achieves_kept [OF st1(3)]]
    show ?thesis
      unfolding spec using t a new st1(1) tail [of d] by (simp add: delta_dead_name_def Let_def split del: if_split)
  qed
qed

lemma delta_refines:
  assumes m: "models its st v" and ok: "view_ok sizes v" and e: "rv_entries v n = Some e" and ptr: "ptr = ptr_of (rs_space st) n"
    and its: "rw_its w = its" and rgt: "rgt < MACH_PORT_RIGHT_NUMBER" "rgt \<noteq> MACH_PORT_RIGHT_RECEIVE"
  shows "returns (ipc_right_delta w st n ptr rgt d) (achieves its st (delta_spec rgt d n v))"
proof -
  note rep = modelsD(1) [OF m]
  have "rgt \<in> {MACH_PORT_RIGHT_PORT_SET, MACH_PORT_RIGHT_SEND_ONCE, MACH_PORT_RIGHT_DEAD_NAME, MACH_PORT_RIGHT_SEND}"
    using rgt by (auto simp: MACH_PORT_RIGHT_NUMBER_def MACH_PORT_RIGHT_PORT_SET_def MACH_PORT_RIGHT_SEND_ONCE_def
        MACH_PORT_RIGHT_DEAD_NAME_def MACH_PORT_RIGHT_SEND_def MACH_PORT_RIGHT_RECEIVE_def)
  then show ?thesis
    unfolding ipc_right_delta_def returns_bind returns_assert
    by (intro entry_at_rule [OF rep e ptr] conjI rep_active [OF rep])
      (use delta_port_set_refines [OF m ok e ptr its] delta_send_once_refines [OF m ok e ptr]
        delta_dead_name_refines [OF m ok e ptr] delta_send_refines [OF m ok e ptr] its in auto)
qed

subsection \<open>Information\<close>

definition info_spec :: "mach_port \<Rightarrow> rights_view \<Rightarrow> (kern_return + u32 \<times> u32) \<times> rights_view" where
  "info_spec n v =
     (case rv_entries v n of
        None \<Rightarrow> (Inl KERN_INVALID_NAME, v)
      | Some e \<Rightarrow>
          let (e, v) = (if dies e v then (dead_name e, bury n e v) else (e, v));
              req = (if ie_request e \<noteq> 0 then MACH_PORT_TYPE_DNREQUEST else 0);
              mreq = (if has (ie_bits e) IE_BITS_MAREQUEST then MACH_PORT_TYPE_MAREQUEST else 0)
          in (Inr ((ie_type e OR req) OR mreq, IE_BITS_UREFS (ie_bits e)), v))"

lemma info_refines:
  assumes m: "models its st v" and ok: "view_ok sizes v" and e: "rv_entries v n = Some e" and ptr: "ptr = ptr_of (rs_space st) n"
  shows "returns (ipc_right_info its st n ptr) (achieves its st (info_spec n v))"
proof -
  note rep = modelsD(1) [OF m]
  have new: "\<not> has (ie_bits e) IE_BITS_COMPAT" using view_okD(3) [OF ok e] by (simp add: entry_fits_def)
  have sr: "has (ie_bits e) MACH_PORT_TYPE_SEND_RIGHTS \<longleftrightarrow> ie_type e \<in> port_types \<and> ie_type e \<noteq> MACH_PORT_TYPE_RECEIVE"
    using send_tests [of e] once_tests [of e] send_receive_tests [of e] receive_tests [of e] dead_tests [of e] pset_tests [of e]
    by (cases rule: entry_type_cases [OF ok e]) (simp_all add: type_sets)
  show ?thesis
  proof (cases "has (ie_bits e) MACH_PORT_TYPE_SEND_RIGHTS")
    case False
    then have "\<not> dies e v" using sr by (auto simp: dies_def type_sets)
    then show ?thesis
      unfolding ipc_right_info_def returns_bind
      by (intro entry_at_rule [OF rep e ptr])
        (use False new e achieves_refl [OF m] in \<open>auto simp: Let_def info_spec_def intro!: entry_at_rule [OF rep e ptr]\<close>)
  next
    case True
    then have t: "ie_type e \<in> port_types" using sr by simp
    show ?thesis
    proof (cases "dies e v")
      case False
      then obtain port where live: "live_at sizes v n e port" using live_atE [OF ok e t] by blast
      obtain st1 where un: "unlock_port (at_port st v (ie_object e) port) (ie_object e) = Some st1" "models its st1 v" "kept st st1"
        using unlock_live [OF m ok live] by blast
      have ptr1: "ptr = ptr_of (rs_space st1) n" using kept_ptr(1) [OF un(3)] ptr by simp
      show ?thesis
        unfolding ipc_right_info_def returns_bind
        by (intro entry_at_rule [OF rep e ptr])
          (use True False new e un achieves_kept [OF un(3) achieves_refl [OF un(2)]] in
            \<open>auto simp: Let_def info_spec_def intro!: check_live [OF m ok live ptr] entry_at_rule [OF modelsD(1) [OF un(2)] e ptr1]\<close>)
    next
      case dd: True
      note d = dying_dead [OF ok e dd]
      obtain st1 where st1: "ipc_right_check its st (ie_object e) n ptr = Some (True, st1)" "models its st1 (bury n e v)"
          "kept st st1" "ptr = ptr_of (rs_space st1) n" using dying_exact [OF m ok e dd ptr refl] by blast
      have new': "\<not> has (ie_bits (dead_name e)) IE_BITS_COMPAT" using view_okD(3) [OF d(1,2)] by (simp add: entry_fits_def)
      show ?thesis
        unfolding ipc_right_info_def returns_bind
        by (intro entry_at_rule [OF rep e ptr])
          (use True dd new new' e st1(1) d(3) achieves_kept [OF st1(3) achieves_refl [OF st1(2)]] in
            \<open>auto simp: Let_def info_spec_def intro!: entry_at_rule [OF modelsD(1) [OF st1(2)] d(2) st1(4)]\<close>)
    qed
  qed
qed

subsection \<open>Calls by name\<close>

lemma by_name_rule:
  assumes m: "models its st v" and ok: "view_ok sizes v"
    and none: "\<And>st'. rv_entries v n = None \<Longrightarrow> models its st' v \<Longrightarrow> kept st st' \<Longrightarrow> Q (err KERN_INVALID_NAME, st')"
    and some: "\<And>st' e. rv_entries v n = Some e \<Longrightarrow> models its st' v \<Longrightarrow> kept st st' \<Longrightarrow>
      returns (k st' (ptr_of (rs_space st') n)) Q"
  shows "returns (by_name err st n k) Q"
proof -
  have "returns (ipc_right_lookup_write st n) (\<lambda>x. returns (case x of (found, st) \<Rightarrow>
      (case found of Inl kr \<Rightarrow> Some (err kr, st) | Inr ptr \<Rightarrow> k st ptr)) Q)"
  proof (rule lookup_rule [OF modelsD(1) [OF m]], simp)
    fix st' assume st': "rep its st' {} (rv_entries v) (sends (rv_entries v))" "frame st st'"
    have k: "kept st st'" by (rule keptI(2) [OF st'(2)])
    have m': "models its st' v" by (rule models_update [OF st'(1) k m]) (use frameD(1) [OF st'(2)] modelsD(2) [OF m] in simp_all)
    show "returns (case (if rv_entries v n = None then Inl KERN_INVALID_NAME else Inr (ptr_of (rs_space st) n), st') of
      (found, st) \<Rightarrow> (case found of Inl kr \<Rightarrow> Some (err kr, st) | Inr ptr \<Rightarrow> k st ptr)) Q"
      using none [OF _ m' k] some [OF _ m' k] kept_ptr(1) [OF k] by auto
  qed
  then show ?thesis using view_okD(1) [OF ok] modelsD(3) [OF m] by (simp add: by_name_def)
qed

lemma by_name_refines:
  assumes m: "models its st v" and ok: "view_ok sizes v" and none: "rv_entries v n = None \<Longrightarrow> spec = (err KERN_INVALID_NAME, v)"
    and some: "\<And>st' e. rv_entries v n = Some e \<Longrightarrow> models its st' v \<Longrightarrow>
      returns (k st' (ptr_of (rs_space st') n)) (achieves its st' spec)"
  shows "returns (by_name err st n k) (achieves its st spec)"
  by (rule by_name_rule [OF m ok]) (use none in \<open>auto intro: achievesI returns_mono [OF some] elim: achieves_kept\<close>)

lemma spec_None:
  assumes "rv_entries v n = None"
  shows "dealloc_spec n v = (KERN_INVALID_NAME, v)" "delta_spec rgt d n v = (KERN_INVALID_NAME, v)"
    "info_spec n v = (Inl KERN_INVALID_NAME, v)"
  using assms by (simp_all add: dealloc_spec_def delta_spec_def info_spec_def)

lemma deallocate_refines:
  assumes m: "models its st v" and ok: "view_ok sizes v"
  shows "returns (mach_port_deallocate its st n) (achieves its st (dealloc_spec n v))"
  unfolding mach_port_deallocate_def
  by (rule by_name_refines [OF m ok]) (use dealloc_refines [OF _ ok] spec_None in auto)

lemma mod_refs_refines:
  assumes m: "models its st v" and ok: "view_ok sizes v" and its: "rw_its w = its"
    and rgt: "rgt < MACH_PORT_RIGHT_NUMBER" "rgt \<noteq> MACH_PORT_RIGHT_RECEIVE"
  shows "returns (mach_port_mod_refs w st n rgt d) (achieves its st (delta_spec rgt d n v))"
proof -
  have "returns (by_name id st n (\<lambda>st ptr. ipc_right_delta w st n ptr rgt d)) (achieves its st (delta_spec rgt d n v))"
    by (rule by_name_refines [OF m ok])
      (use delta_refines [OF _ ok _ refl its rgt] spec_None in auto)
  then show ?thesis using view_okD(1) [OF ok] modelsD(3) [OF m] rgt(1) by (simp add: mach_port_mod_refs_def)
qed

lemma type_refines:
  assumes m: "models its st v" and ok: "view_ok sizes v"
  shows "returns (mach_port_type its st n) (achieves its st (map_prod (map_sum id fst) id (info_spec n v)))"
proof -
  have "returns (ipc_right_info its st' n (ptr_of (rs_space st') n) \<bind> (\<lambda>(r, st). Some (map_sum id fst r, st)))
      (achieves its st' (map_prod (map_sum id fst) id (info_spec n v)))"
    if "rv_entries v n = Some e" "models its st' v" for st' e
    unfolding returns_bind
    by (rule returns_mono [OF info_refines [OF that(2) ok that(1) refl]]) (auto simp: achieves_def)
  then show ?thesis
    unfolding mach_port_type_def by (intro by_name_refines [OF m ok]) (auto simp: spec_None)
qed

subsection \<open>The invariant\<close>

text \<open>Nothing is moved out of the space except the send-once right that a send-once notification takes.\<close>

definition harmless :: "nat list \<Rightarrow> rights_view \<Rightarrow> rights_view \<Rightarrow> bool" where
  "harmless sizes v v' \<longleftrightarrow> view_ok sizes v' \<and> (\<exists>p k. k \<in> {0, 1} \<and> moved_out p 0 k k v v')"

lemma harmlessI: "view_ok sizes v' \<and> moved_out p 0 k k v v' \<Longrightarrow> k = 0 \<or> k = 1 \<Longrightarrow> harmless sizes v v'"
  by (auto simp: harmless_def)

lemma harmless_refl: "view_ok sizes v \<Longrightarrow> harmless sizes v v"
  by (rule harmlessI [of _ _ 0 0]) (simp_all add: moved_out_def)

lemma bury_harmless: "view_ok sizes v \<Longrightarrow> rv_entries v n = Some e \<Longrightarrow> dies e v \<Longrightarrow> harmless sizes v (bury n e v)"
  by (rule harmlessI [OF bury_ok]) simp_all

lemma bury_then:
  assumes "view_ok sizes v" "rv_entries v n = Some e" "dies e v" and "harmless sizes (bury n e v) v'"
  shows "harmless sizes v v'"
  using assms(4) moved_out_trans [OF conjunct2 [OF bury_ok [OF assms(1-3)]]] unfolding harmless_def by blast

lemma adjust_dead_harmless:
  assumes "view_ok sizes v" and "rv_entries v n = Some e" and "ie_type e = MACH_PORT_TYPE_DEAD_NAME"
    and "\<not> MACH_PORT_UREFS_OVERFLOW (IE_BITS_UREFS (ie_bits e)) d" and "\<not> MACH_PORT_UREFS_UNDERFLOW (IE_BITS_UREFS (ie_bits e)) d"
  shows "harmless sizes v (adjust_dead n e d v)"
  using harmlessI [OF adjust_dead_ok [OF assms, of 0]] by simp

lemma dead_dec_harmless:
  assumes "view_ok sizes v" and "rv_entries v n = Some e" and "ie_type e = MACH_PORT_TYPE_DEAD_NAME"
  shows "harmless sizes v (adjust_dead n e (- 1) v)"
  using adjust_dead_harmless [OF assms] minus_one_bounds [OF dead_entryD(4) [OF assms] urefs_le_max] by blast

lemma adjust_send_harmless:
  assumes ok: "view_ok sizes v" and e: "rv_entries v n = Some e" and t: "ie_type e \<in> send_types" and l: "\<not> dies e v"
    and d: "\<not> MACH_PORT_UREFS_OVERFLOW (IE_BITS_UREFS (ie_bits e) + 1) d" "\<not> MACH_PORT_UREFS_UNDERFLOW (IE_BITS_UREFS (ie_bits e)) d"
  shows "harmless sizes v (adjust_send n e d v)"
proof -
  have "ie_type e \<in> port_types" using t type_subsets(1) by blast
  then obtain port where "live_at sizes v n e port" using live_atE [OF ok e _ l] by blast
  from harmlessI [OF adjust_send_ok [OF ok this t d]] show ?thesis by simp
qed

lemma give_up_once_harmless:
  assumes ok: "view_ok sizes v" and e: "rv_entries v n = Some e" and t: "ie_type e = MACH_PORT_TYPE_SEND_ONCE" and l: "\<not> dies e v"
  shows "harmless sizes v (give_up_once n e v)"
proof -
  have "ie_type e \<in> port_types" using t by (simp add: type_sets)
  then obtain port where "live_at sizes v n e port" using live_atE [OF ok e _ l] by blast
  from harmlessI [OF give_up_once_ok [OF ok this t]] show ?thesis by simp
qed

lemma remove_pset_harmless:
  assumes ok: "view_ok sizes v" and e: "rv_entries v n = Some e" and t: "ie_type e = MACH_PORT_TYPE_PORT_SET"
  shows "harmless sizes v (post es (remove_entry n v))"
proof -
  have "view_ok sizes (post es (remove_entry n v)) \<and> moved_out 0 0 0 0 v (post es (remove_entry n v))"
    by (rule keep_ok [OF ok, where n = n and x = None]) (use e t view_okD(2) [OF ok] in auto)
  then show ?thesis by (rule harmlessI) simp
qed

lemma send_dec_bounds:
  assumes ok: "view_ok sizes v" and e: "rv_entries v n = Some e" and t: "ie_type e \<in> send_types"
  shows "\<not> MACH_PORT_UREFS_OVERFLOW (IE_BITS_UREFS (ie_bits e) + 1) (- 1)" "\<not> MACH_PORT_UREFS_UNDERFLOW (IE_BITS_UREFS (ie_bits e)) (- 1)"
proof -
  let ?u = "IE_BITS_UREFS (ie_bits e)"
  have "ie_type e \<in> port_types" using t type_subsets(1) by blast
  then obtain port where "port_entry_ok (rv_self v) n e port" using entry_port [OF ok e] by metis
  from port_entryD [OF this] have u: "0 < ?u" "?u < MACH_PORT_UREFS_MAX" using t by (auto simp: send_types_def)
  have "0 < ?u + 1" "?u + 1 \<le> MACH_PORT_UREFS_MAX"
    using u(2) uint_inc [of ?u] by (simp_all add: word_less_def word_le_def UREFS_MAX_uint)
  from minus_one_bounds(1) [OF this] minus_one_bounds(2) [OF u(1) urefs_le_max]
  show "\<not> MACH_PORT_UREFS_OVERFLOW (?u + 1) (- 1)" "\<not> MACH_PORT_UREFS_UNDERFLOW ?u (- 1)" .
qed

lemma dealloc_spec_ok:
  assumes ok: "view_ok sizes v"
  shows "harmless sizes v (snd (dealloc_spec n v))"
proof (cases "rv_entries v n")
  case None
  then show ?thesis using harmless_refl [OF ok] by (simp add: spec_None)
next
  case (Some e)
  then show ?thesis
    using harmless_refl [OF ok] dead_dec_harmless [OF ok Some] give_up_once_harmless [OF ok Some]
      bury_then [OF ok Some _ dead_dec_harmless] dying_dead [OF ok Some] adjust_send_harmless [OF ok Some] send_dec_bounds [OF ok Some]
    by (simp add: dealloc_spec_def)
qed

lemma delta_spec_ok:
  assumes ok: "view_ok sizes v"
  shows "harmless sizes v (snd (delta_spec rgt d n v))"
proof (cases "rv_entries v n")
  case None
  then show ?thesis using harmless_refl [OF ok] by (simp add: spec_None)
next
  case (Some e)
  note dd = dying_dead [OF ok Some]
  have "harmless sizes v (adjust_dead n (dead_name e) d (bury n e v))"
    if "dies e v" "\<not> MACH_PORT_UREFS_UNDERFLOW (IE_BITS_UREFS (ie_bits (dead_name e))) d"
      "\<not> MACH_PORT_UREFS_OVERFLOW (IE_BITS_UREFS (ie_bits (dead_name e))) d"
    by (rule bury_then [OF ok Some that(1) adjust_dead_harmless [OF dd]]) (use that in auto)
  then show ?thesis
    using harmless_refl [OF ok] adjust_dead_harmless [OF ok Some] give_up_once_harmless [OF ok Some] remove_pset_harmless [OF ok Some]
      bury_harmless [OF ok Some] adjust_send_harmless [OF ok Some] Some
    by (auto simp: delta_spec_def Let_def)
qed

lemma info_spec_ok:
  assumes ok: "view_ok sizes v"
  shows "harmless sizes v (snd (info_spec n v))"
  using harmless_refl [OF ok] bury_harmless [OF ok] by (auto simp: info_spec_def Let_def split: option.split)

end
