(* ===== verification/Ipc_Right_Copyin.thy ===== *)
theory Ipc_Right_Copyin
  imports Ipc_Right_Refine
begin

text \<open>Rights taken out of a space: \<^verbatim>\<open>ipc_right_copyin\<close> and \<^verbatim>\<open>ipc_object_copyin\<close>.\<close>

subsection \<open>Specification\<close>

definition one_send :: "ipc_port \<Rightarrow> ipc_port" where
  "one_send port = port\<lparr>ip_srights := ip_srights port + 1, ip_references := ip_references port + 1\<rparr>"

definition new_send :: "ipc_port \<Rightarrow> ipc_port" where
  "new_send port = (one_send port)\<lparr>ip_mscount := ip_mscount port + 1\<rparr>"

definition new_once :: "ipc_port \<Rightarrow> ipc_port" where
  "new_once port = port\<lparr>ip_sorights := ip_sorights port + 1, ip_references := ip_references port + 1\<rparr>"

definition one_ref :: "ipc_port \<Rightarrow> ipc_port" where
  "one_ref port = port\<lparr>ip_references := ip_references port + 1\<rparr>"

definition copy_types :: "msgt_name set" where
  "copy_types = {MACH_MSG_TYPE_MAKE_SEND, MACH_MSG_TYPE_MAKE_SEND_ONCE, MACH_MSG_TYPE_COPY_SEND, MACH_MSG_TYPE_MOVE_SEND,
     MACH_MSG_TYPE_MOVE_SEND_ONCE}"

text \<open>The right that a name with a live port gives, with the send-once right of its dead-name request.\<close>

definition take_right :: "msgt_name \<Rightarrow> mach_port \<Rightarrow> ipc_entry \<Rightarrow> rights_view \<Rightarrow> (kern_return + ptr \<times> ptr) \<times> rights_view" where
  "take_right msgt n e v =
     (let p = ie_object e; request = request_port (the_port v p) (ie_request e) in
      if msgt = MACH_MSG_TYPE_MOVE_SEND_ONCE then
        if ie_type e \<noteq> MACH_PORT_TYPE_SEND_ONCE then (Inl KERN_INVALID_RIGHT, v)
        else (Inr (p, request), map_port p (cancel_request (ie_request e)) (remove_entry n v))
      else if ie_type e \<notin> send_types then (Inl KERN_INVALID_RIGHT, v)
      else if msgt = MACH_MSG_TYPE_COPY_SEND then (Inr (p, IP_NULL), map_port p one_send v)
      else if IE_BITS_UREFS (ie_bits e) \<noteq> 1 then
        (Inr (p, IP_NULL), map_port p one_send (put_entry n (e\<lparr>ie_bits := ie_bits e - 1\<rparr>) v))
      else if ie_type e = MACH_PORT_TYPE_SEND then
        (Inr (p, request),
         post (ma_event (rv_self v) n (ie_bits e)) (map_port p (cancel_request (ie_request e)) (remove_entry n v)))
      else (Inr (p, IP_NULL), map_port p one_ref (put_entry n (receive_only e) v)))"

definition take_spec :: "msgt_name \<Rightarrow> mach_port \<Rightarrow> ipc_entry \<Rightarrow> rights_view \<Rightarrow> (kern_return + ptr \<times> ptr) \<times> rights_view" where
  "take_spec msgt n e v =
     (if msgt \<in> {MACH_MSG_TYPE_MAKE_SEND, MACH_MSG_TYPE_MAKE_SEND_ONCE} then
        if ie_type e \<notin> receive_types then (Inl KERN_INVALID_RIGHT, v)
        else (Inr (ie_object e, IP_NULL),
              map_port (ie_object e) (if msgt = MACH_MSG_TYPE_MAKE_SEND then new_send else new_once) v)
      else
        let (e, v) = (if dies e v then (dead_name e, bury n e v) else (e, v)) in
        if ie_type e = MACH_PORT_TYPE_DEAD_NAME then
          (Inr (IO_DEAD, IP_NULL), if msgt = MACH_MSG_TYPE_COPY_SEND then v else adjust_dead n e (- 1) v)
        else take_right msgt n e v)"

definition copyin_spec :: "msgt_name \<Rightarrow> mach_port \<Rightarrow> rights_view \<Rightarrow> (kern_return + ptr) \<times> rights_view" where
  "copyin_spec msgt n v =
     (case rv_entries v n of
        None \<Rightarrow> (Inl KERN_INVALID_NAME, v)
      | Some e \<Rightarrow>
          case take_spec msgt n e v of
            (Inl kr, v) \<Rightarrow> (Inl kr, v)
          | (Inr (obj, request), v) \<Rightarrow> (Inr obj, post (pd_event request n) v))"

subsection \<open>Entries of type none\<close>

text \<open>The state between a copyin and the deallocation of the entry that has lost its last right.\<close>

definition half_done :: "nat list \<Rightarrow> right_state \<Rightarrow> mach_port \<Rightarrow> rights_view \<Rightarrow> right_state \<Rightarrow> bool" where
  "half_done its st n v' st' \<longleftrightarrow>
     kept st st' \<and> rs_ports st' = rv_ports v' \<and> rs_self st = rv_self v' \<and>
     (\<exists>E e. rep its st' {n} E (sends E) \<and> E n = Some e \<and>
        (if ie_type e = MACH_PORT_TYPE_NONE
         then ie_object e = IO_NULL \<and> ie_request e = 0 \<and> rv_entries v' = E(n := None)
         else rv_entries v' = E))"

definition taken :: "nat list \<Rightarrow> right_state \<Rightarrow> mach_port \<Rightarrow> 'r \<times> rights_view \<Rightarrow> 'r \<times> right_state \<Rightarrow> bool" where
  "taken its st n spec res \<longleftrightarrow> fst res = fst spec \<and> half_done its st n (snd spec) (snd res)"

lemma takenI:
  assumes "models its st' v'" and "kept st st'" and "rv_entries v' n = Some e" and "ie_type e \<noteq> MACH_PORT_TYPE_NONE"
  shows "taken its st n (r, v') (r, st')"
  using rep_reserve [OF modelsD(1) [OF assms(1)] assms(3)] assms(2-4) modelsD(2,3) [OF assms(1)] kept_ptr(2) [OF assms(2)]
  by (auto simp: taken_def half_done_def)

lemma taken_kept: "kept st st1 \<Longrightarrow> taken its st1 n spec res \<Longrightarrow> taken its st n spec res"
  using kept_trans [of st st1] kept_ptr(2) [of st st1] by (auto simp: taken_def half_done_def)

text \<open>The entry after its last right is gone.\<close>

lemma last_rule:
  assumes rep: "rep its st {n} E (sends E)" and e: "E n = Some e" "ie_request e = 0" and ptr: "ptr = ptr_of (rs_space st) n"
    and f: "\<And>i. f (e\<lparr>ie_index := i\<rparr>) = (f e)\<lparr>ie_index := i\<rparr>" "ie_bits (f e) AND IE_BITS_COLLISION = 0"
      "ie_type (f e) = MACH_PORT_TYPE_NONE" "ie_object (f e) = IO_NULL" "ie_request (f e) = 0"
    and n: "n \<notin> sends E"
    and Q: "\<And>st'. half_done its st n v' st' \<Longrightarrow> frame st st' \<Longrightarrow> Q st'"
    and v': "rv_entries v' = E(n := None)" "rv_self v' = rs_self st" "rv_ports v' = rs_ports st"
  shows "returns (upd_entry st ptr f) Q"
proof (rule upd_rule [where E = E and R = "{n}" and H = "sends E" and n = n and e = e and its = its])
  fix st' assume st': "rep its st' {n} (E(n \<mapsto> f e)) (sends E)" and fr: "frame st st'"
  have "sends (E(n \<mapsto> f e)) = sends E" using n f(3) by (simp add: sends_upd)
  then have "half_done its st n v' st'"
    unfolding half_done_def using st' v' f keptI(2) [OF fr] frameD(1) [OF fr]
    by (intro conjI exI [of _ "E(n \<mapsto> f e)"] exI [of _ "f e"]) simp_all
  then show "Q st'" using fr by (rule Q)
qed (use assms in auto)

lemma finish_rule:
  assumes h: "half_done its st n v' st'" and ptr: "ptr = ptr_of (rs_space st) n"
    and Q: "\<And>st''. models its st'' v' \<Longrightarrow> kept st st'' \<Longrightarrow> Q st''"
  shows "returns (entry_at st' ptr) (\<lambda>entry.
    returns (if IE_BITS_TYPE (ie_bits entry) = MACH_PORT_TYPE_NONE then free_entry its st' n ptr else Some st') Q)"
proof -
  obtain E e where k: "kept st st'" and rep: "rep its st' {n} E (sends E)" and e: "E n = Some e"
    and c: "if ie_type e = MACH_PORT_TYPE_NONE then ie_object e = IO_NULL \<and> ie_request e = 0 \<and> rv_entries v' = E(n := None)
      else rv_entries v' = E" and v': "rs_ports st' = rv_ports v'" "rs_self st = rv_self v'"
    using h by (auto simp: half_done_def)
  have ptr': "ptr = ptr_of (rs_space st') n" using ptr kept_ptr(1) [OF k] by simp
  show ?thesis
  proof (rule entry_at_rule [OF rep e ptr'], simp, intro conjI impI)
    assume t: "ie_type e = MACH_PORT_TYPE_NONE"
    have s: "sends (E(n := None)) = sends E" using e t by (auto simp: sends_def)
    show "returns (free_entry its st' n ptr) Q"
    proof (rule free_entry_rule [OF rep e ptr' _ _ sends_dom])
      fix st'' assume st'': "rep its st'' {} (E(n := None)) (sends E)" and f: "frame st' st''"
      have k': "kept st st''" by (rule kept_trans [OF k keptI(2) [OF f]])
      have "models its st'' v'"
        using st'' c t s frameD(1,2) [OF f] v' kept_ptr(2) [OF k] by (simp add: models_def)
      then show "Q st''" by (rule Q [OF _ k'])
    qed (use c t in auto)
  next
    assume t: "ie_type e \<noteq> MACH_PORT_TYPE_NONE"
    then have "rep its st' {} E (sends E)" using rep_release [OF rep e] by (simp add: type_values)
    then have "models its st' v'" using c t v' kept_ptr(2) [OF k] by (simp add: models_def)
    then show "Q st'" by (rule Q [OF _ k])
  qed
qed

subsection \<open>Dead names\<close>

lemma not_dead_bits:
  assumes "ie_type e = t"
  shows "ie_type (e\<lparr>ie_bits := ie_bits e AND NOT t\<rparr>) = MACH_PORT_TYPE_NONE"
    and "(ie_bits e AND NOT t) AND IE_BITS_COLLISION = (ie_bits e AND IE_BITS_COLLISION) AND NOT t"
  using assms TYPE_and_not [of "ie_bits e" t] by (simp_all add: type_values and_not_and)

lemma copyin_dead_rule:
  assumes m: "models its st v" and ok: "view_ok sizes v" and e: "rv_entries v n = Some e"
    and t: "ie_type e = MACH_PORT_TYPE_DEAD_NAME" and ptr: "ptr = ptr_of (rs_space st) n"
  shows "returns (copyin_dead move True st ptr)
    (taken its st n (Inr (IO_DEAD, IP_NULL), if move then adjust_dead n e (- 1) v else v))"
proof -
  note rep = modelsD(1) [OF m] and dead = dead_entryD [OF ok e t]
  note u = minus_one_bounds [OF dead(4) urefs_le_max] and b = adjust_bits [OF minus_one_bounds(1,2) [OF dead(4) urefs_le_max]]
  have nz: "ie_type e \<noteq> MACH_PORT_TYPE_NONE" using t by simp
  have n: "n \<notin> sends (rv_entries v)" using e t by (simp add: in_sends)
  have stay: "taken its st n (Inr (IO_DEAD, IP_NULL), v) (Inr (IO_DEAD, IP_NULL), st)" by (rule takenI [OF m kept_refl e nz])
  have last: "returns (upd_entry st ptr (\<lambda>x. x\<lparr>ie_bits := ie_bits e AND NOT MACH_PORT_TYPE_DEAD_NAME\<rparr>))
      (\<lambda>st'. taken its st n (Inr (IO_DEAD, IP_NULL), adjust_dead n e (- 1) v) (Inr (IO_DEAD, IP_NULL), st'))"
    if "IE_BITS_UREFS (ie_bits e) = 1"
    by (rule last_rule [OF rep_reserve [OF rep e] e dead(2) ptr, where v' = "adjust_dead n e (- 1) v"])
      (use not_dead_bits [OF t] dead n modelsD(2,3) [OF m] rep_in_use [OF rep e] that in
        \<open>auto simp: adjust_dead_def taken_def u(3)\<close>)
  have less: "returns (upd_entry st ptr (\<lambda>x. x\<lparr>ie_bits := ie_bits e - 1\<rparr>))
      (\<lambda>st'. taken its st n (Inr (IO_DEAD, IP_NULL), adjust_dead n e (- 1) v) (Inr (IO_DEAD, IP_NULL), st'))"
    if c: "IE_BITS_UREFS (ie_bits e) \<noteq> 1"
  proof -
    have "taken its st n (Inr (IO_DEAD, IP_NULL), adjust_dead n e (- 1) v) (Inr (IO_DEAD, IP_NULL), st')"
      if "models its st' (adjust_dead n e (- 1) v)" "kept st st'" for st'
      by (rule takenI [OF that, of n "e\<lparr>ie_bits := ie_bits e - 1\<rparr>"]) (use c u(3) b(1) nz in \<open>simp_all add: adjust_dead_def\<close>)
    from adjust_dead_rule [OF m ok e t ptr u(1,2), OF this] show ?thesis using c u(3) by simp
  qed
  show ?thesis
    unfolding copyin_dead_def returns_bind
    by (rule entry_at_rule [OF rep e ptr]) (use dead t stay last less in \<open>auto simp: Let_def\<close>)
qed

subsection \<open>Live ports\<close>

lemma map_port_models:
  assumes "models its st v" and "ports (rv_ports v) p = Some port" and "ps = (rv_ports v)\<lparr>ports := (ports (rv_ports v))(p \<mapsto> g port)\<rparr>"
  shows "models its (st\<lparr>rs_ports := ps\<rparr>) (map_port p g v)"
  using assms by (simp add: models_def map_port_def)

lemma make_rule:
  assumes m: "models its st v" and ok: "view_ok sizes v" and live: "live_at sizes v n e port" and t: "ie_type e \<in> receive_types"
    and f: "ip_references (f port) = ip_references port" "g port = (f port)\<lparr>ip_references := ip_references port + 1\<rparr>"
  shows "returns (copyin_make st n (e\<lparr>ie_index := i\<rparr>) f) (taken its st n (Inr (ie_object e, IP_NULL), map_port (ie_object e) g v))"
proof -
  note l = live_atD [OF live] and lk = view_okD(2) [OF ok]
  have h: "has (ie_bits e) MACH_PORT_TYPE_RECEIVE" "ip_receiver_name port = n" "ip_data port = rv_self v" "ie_type e \<noteq> MACH_PORT_TYPE_NONE"
    using t receive_tests [of e] send_receive_tests [of e] l(6) by (auto simp: receive_types_def port_entry_ok_def Let_def)
  have "taken its st n (Inr (ie_object e, IP_NULL), map_port (ie_object e) g v) (Inr (ie_object e, IP_NULL),
      st\<lparr>rs_ports := (rv_ports v)\<lparr>ports := (ports (rv_ports v))(ie_object e \<mapsto> g port)\<rparr>\<rparr>)"
    by (rule takenI [OF map_port_models [OF m l(2) refl]]) (use l(1) h(4) in simp_all)
  then show ?thesis
    using h l IO_VALID_nz [OF l(8)] modelsD(3) [OF m] lock_live [OF m ok live] lk f
    by (simp add: copyin_make_def Let_def port_at_def right_step unlocked)
qed

lemma not_send_rule:
  assumes m: "models its st v" and ok: "view_ok sizes v" and live: "live_at sizes v n e port"
    and t: "ie_type e = MACH_PORT_TYPE_SEND_ONCE"
  shows "returns (not_send (at_port st v (ie_object e) port) (ie_object e) (ie_bits e)) (taken its st n (Inl KERN_INVALID_RIGHT, v))"
proof -
  obtain st1 where un: "unlock_port (at_port st v (ie_object e) port) (ie_object e) = Some st1" "models its st1 v" "kept st st1"
    using unlock_live [OF m ok live] by blast
  have "taken its st n (Inl KERN_INVALID_RIGHT, v) (Inl KERN_INVALID_RIGHT, st1)"
    by (rule takenI [OF un(2,3) live_atD(1) [OF live]]) (simp add: t)
  then show ?thesis
    using t un(1) live_at_counts(3) [OF live] by (simp add: not_send_def port_at_def once_types_def word_less_def)
qed

lemma copy_rule:
  assumes m: "models its st v" and ok: "view_ok sizes v" and live: "live_at sizes v n e port" and t: "ie_type e \<noteq> MACH_PORT_TYPE_RECEIVE"
  shows "returns (copyin_copy (at_port st v (ie_object e) port) (e\<lparr>ie_index := i\<rparr>))
    (taken its st n (take_right MACH_MSG_TYPE_COPY_SEND n e v))"
proof -
  note l = live_atD [OF live] and lk = view_okD(2) [OF ok] and c = live_at_counts [OF live]
  have nz: "ie_type e \<noteq> MACH_PORT_TYPE_NONE" using l(13) by auto
  show ?thesis
  proof (cases "ie_type e \<in> send_types")
    case True
    then have h: "has (ie_bits e) MACH_PORT_TYPE_SEND" using send_tests [of e] send_receive_tests [of e] by (auto simp: send_types_def)
    have "taken its st n (Inr (ie_object e, IP_NULL), map_port (ie_object e) one_send v) (Inr (ie_object e, IP_NULL),
        st\<lparr>rs_ports := (rv_ports v)\<lparr>ports := (ports (rv_ports v))(ie_object e \<mapsto> one_send port)\<rparr>\<rparr>)"
      by (rule takenI [OF map_port_models [OF m l(2) refl]]) (use l(1) nz in simp_all)
    then show ?thesis
      using True h l c lk
      by (simp add: copyin_copy_def take_right_def Let_def port_at_def right_step unlocked one_send_def word_less_def)
  next
    case False
    then have "ie_type e = MACH_PORT_TYPE_SEND_ONCE" using l(13) t by (auto simp: type_sets)
    with False show ?thesis
      using not_send_rule [OF m ok live] once_tests [of e] by (simp add: copyin_copy_def take_right_def Let_def)
  qed
qed

lemma move_once_rule:
  assumes m: "models its st v" and ok: "view_ok sizes v" and live: "live_at sizes v n e port" and ptr: "ptr = ptr_of (rs_space st) n"
    and t: "ie_type e \<noteq> MACH_PORT_TYPE_RECEIVE"
  shows "returns (copyin_move_once (at_port st v (ie_object e) port) n ptr (e\<lparr>ie_index := i\<rparr>))
    (taken its st n (take_right MACH_MSG_TYPE_MOVE_SEND_ONCE n e v))"
proof (cases "ie_type e = MACH_PORT_TYPE_SEND_ONCE")
  case False
  then have s: "ie_type e \<in> send_types" using live_atD(13) [OF live] t by (auto simp: type_sets)
  then have tests: "has (ie_bits e) MACH_PORT_TYPE_SEND" "ie_bits e AND MACH_PORT_TYPE_SEND_ONCE = 0" "ie_type e \<noteq> MACH_PORT_TYPE_NONE"
    using send_tests [of e] send_receive_tests [of e] by (auto simp: send_types_def)
  obtain st1 where un: "unlock_port (at_port st v (ie_object e) port) (ie_object e) = Some st1" "models its st1 v" "kept st st1"
    using unlock_live [OF m ok live] by blast
  have "taken its st n (Inl KERN_INVALID_RIGHT, v) (Inl KERN_INVALID_RIGHT, st1)"
    by (rule takenI [OF un(2,3) live_atD(1) [OF live] tests(3)])
  then show ?thesis
    using False tests un(1) live_at_counts(2) [OF live] s
    by (simp add: copyin_move_once_def take_right_def Let_def port_at_def word_less_def)
next
  case True
  note l = live_atD [OF live] and lk = view_okD(2) [OF ok] and rep = modelsD(1) [OF m]
  let ?p = "ie_object e" and ?r = "request_port port (ie_request e)" and ?c = "cancel_request (ie_request e) port"
  let ?v = "map_port ?p (cancel_request (ie_request e)) (remove_entry n v)" and ?e = "e\<lparr>ie_request := 0\<rparr>"
  have spec: "take_right MACH_MSG_TYPE_MOVE_SEND_ONCE n e v = (Inr (?p, ?r), ?v)"
    using True l(2) by (simp add: take_right_def Let_def the_port_def)
  have E: "sends ((rv_entries v)(n \<mapsto> ?e)) = sends (rv_entries v)" "n \<notin> sends (rv_entries v)"
    using l(1) True by (auto simp: sends_def)
  have "returns (ipc_right_dncancel_macro (at_port st v ?p port) ?p n ptr) (\<lambda>(dn, st'). dn = ?r \<and> returns (unlock_port st' ?p)
    (\<lambda>st'. returns (upd_entry st' ptr (\<lambda>x. x\<lparr>ie_object := IO_NULL, ie_bits := ie_bits e AND NOT MACH_PORT_TYPE_SEND_ONCE\<rparr>))
      (\<lambda>st'. taken its st n (Inr (?p, ?r), ?v) (Inr (?p, ?r), st'))))"
  proof (rule dncancel_rule [where its = its and R = "{n}" and E = "rv_entries v" and H = "sends (rv_entries v)" and e = e
        and port = port and sizes = sizes])
    fix st1 assume rep1: "rep its st1 {n} ((rv_entries v)(n \<mapsto> ?e)) (sends (rv_entries v))"
      and f: "frame (at_port st v ?p port\<lparr>rs_ports := (rs_ports (at_port st v ?p port))\<lparr>ports :=
        (ports (rs_ports (at_port st v ?p port)))(?p \<mapsto> ?c)\<rparr>\<rparr>) st1"
    let ?st = "st1\<lparr>rs_ports := (rs_ports st1)\<lparr>locked := {}\<rparr>\<rparr>"
    have k: "kept st ?st" using f by (simp add: kept_def frame_def)
    have "returns (upd_entry ?st ptr (\<lambda>x. x\<lparr>ie_object := IO_NULL, ie_bits := ie_bits e AND NOT MACH_PORT_TYPE_SEND_ONCE\<rparr>))
      (\<lambda>st'. taken its ?st n (Inr (?p, ?r), ?v) (Inr (?p, ?r), st'))"
      by (rule last_rule [where E = "(rv_entries v)(n \<mapsto> ?e)" and e = ?e and its = its and n = n and v' = ?v])
        (use rep1 E not_dead_bits [OF True] rep_in_use [OF rep l(1)] ptr frameD(1,2,4) [OF f] lk l modelsD(3) [OF m] in
          \<open>auto simp: taken_def view_defs unlocked\<close>)
    then have "returns (upd_entry ?st ptr (\<lambda>x. x\<lparr>ie_object := IO_NULL, ie_bits := ie_bits e AND NOT MACH_PORT_TYPE_SEND_ONCE\<rparr>))
      (\<lambda>st'. taken its st n (Inr (?p, ?r), ?v) (Inr (?p, ?r), st'))"
      by (rule returns_mono) (rule taken_kept [OF k])
    then show "case (?r, st1) of (dn, st') \<Rightarrow> dn = ?r \<and> returns (unlock_port st' ?p)
      (\<lambda>st'. returns (upd_entry st' ptr (\<lambda>x. x\<lparr>ie_object := IO_NULL, ie_bits := ie_bits e AND NOT MACH_PORT_TYPE_SEND_ONCE\<rparr>))
      (\<lambda>st'. taken its st n (Inr (?p, ?r), ?v) (Inr (?p, ?r), st')))"
      using frameD(1) [OF f] by (simp add: unlock_port_step)
  qed (use rep_reserve [OF rep l(1)] l ptr in auto)
  then show ?thesis
    unfolding spec
    using True once_tests [OF True] live_at_counts(3) [OF live] port_entryD(2) [OF l(6) True]
    by (auto simp: copyin_move_once_def Let_def port_at_def once_types_def word_less_def elim!: returns_mono)
qed

lemma no_send_bits:
  assumes "ie_type e = MACH_PORT_TYPE_SEND"
  shows "IE_BITS_TYPE (ie_bits e AND NOT (IE_BITS_UREFS_MASK OR MACH_PORT_TYPE_SEND)) = MACH_PORT_TYPE_NONE"
    and "(ie_bits e AND NOT (IE_BITS_UREFS_MASK OR MACH_PORT_TYPE_SEND)) AND IE_BITS_COLLISION = ie_bits e AND IE_BITS_COLLISION"
proof -
  show "IE_BITS_TYPE (ie_bits e AND NOT (IE_BITS_UREFS_MASK OR MACH_PORT_TYPE_SEND)) = MACH_PORT_TYPE_NONE"
    unfolding TYPE_and_not assms by (simp add: type_values mask_values)
qed (simp add: type_values mask_values mask_rules)

text \<open>The last user reference of a pure send right.\<close>

lemma move_last_rule:
  assumes m: "models its st v" and ok: "view_ok sizes v" and live: "live_at sizes v n e port" and ptr: "ptr = ptr_of (rs_space st) n"
    and t: "ie_type e = MACH_PORT_TYPE_SEND"
    and spec: "v' = post (ma_event (rv_self v) n (ie_bits e)) (map_port p (cancel_request (ie_request e)) (remove_entry n v))"
      "r = request_port port (ie_request e)" "p = ie_object e"
  shows "returns (ipc_right_dncancel_macro (at_port st v p port) p n ptr) (\<lambda>(dn, st'). dn = r \<and>
    returns (right_hash_delete st' p n ptr) (\<lambda>st'.
      returns (upd_entry (if has (ie_bits e) IE_BITS_MAREQUEST then send_events [Marequest_cancel (rs_self st') n] st' else st')
          ptr (\<lambda>e. e\<lparr>ie_object := IO_NULL\<rparr>)) (\<lambda>st'.
        returns (upd_entry st' ptr (\<lambda>x. x\<lparr>ie_bits := ie_bits e AND NOT (IE_BITS_UREFS_MASK OR MACH_PORT_TYPE_SEND)\<rparr>)) (\<lambda>st'.
          returns (unlock_port st' p) (\<lambda>st'. taken its st n (Inr (p, r), v') (Inr (p, r), st'))))))"
proof -
  note l = live_atD [OF live] and lk = view_okD(2) [OF ok] and rep = modelsD(1) [OF m] and nb = no_send_bits [OF t]
  let ?E = "rv_entries v" and ?c = "cancel_request (ie_request e) port" and ?e = "e\<lparr>ie_request := 0\<rparr>" and ?b = "ie_bits e"
  let ?e1 = "e\<lparr>ie_request := 0, ie_object := IO_NULL\<rparr>" and ?ma = "ma_event (rv_self v) n (ie_bits e)"
  let ?g = "\<lambda>x. x\<lparr>ie_bits := ie_bits e AND NOT (IE_BITS_UREFS_MASK OR MACH_PORT_TYPE_SEND)\<rparr>"
  let ?e2 = "?e1\<lparr>ie_bits := ie_bits e AND NOT (IE_BITS_UREFS_MASK OR MACH_PORT_TYPE_SEND)\<rparr>"
  have n: "n \<in> sends ?E" using l(1) t by (simp add: in_sends)
  show ?thesis
  proof (rule dncancel_rule [where its = its and R = "{n}" and E = ?E and H = "sends ?E" and e = e and port = port and sizes = sizes])
    fix st1 assume rep1: "rep its st1 {n} (?E(n \<mapsto> ?e)) (sends ?E)"
      and f: "frame (at_port st v p port\<lparr>rs_ports := (rs_ports (at_port st v p port))\<lparr>ports :=
        (ports (rs_ports (at_port st v p port)))(p \<mapsto> ?c)\<rparr>\<rparr>) st1"
    have "returns (right_hash_delete st1 p n ptr) (\<lambda>st'.
      returns (upd_entry (if has ?b IE_BITS_MAREQUEST then send_events [Marequest_cancel (rs_self st') n] st' else st')
          ptr (\<lambda>e. e\<lparr>ie_object := IO_NULL\<rparr>)) (\<lambda>st'. returns (upd_entry st' ptr ?g) (\<lambda>st'.
          returns (unlock_port st' p) (\<lambda>st'. taken its st n (Inr (p, r), v') (Inr (p, r), st')))))"
    proof (rule hash_delete_rule [OF rep1, of n ?e])
      fix st2 assume rep2: "rep its st2 {n} (?E(n \<mapsto> ?e)) (sends ?E - {n})" and f2: "frame st1 st2"
      let ?st = "if has ?b IE_BITS_MAREQUEST then send_events [Marequest_cancel (rs_self st2) n] st2 else st2"
      have st: "?st = st2\<lparr>rs_ports := emit ?ma (rs_ports st2)\<rparr>"
        using frameD(2) [OF f] frameD(2) [OF f2] modelsD(3) [OF m] by (simp add: send_events_def ma_event_def)
      show "returns (upd_entry ?st ptr (\<lambda>e. e\<lparr>ie_object := IO_NULL\<rparr>)) (\<lambda>st'. returns (upd_entry st' ptr ?g) (\<lambda>st'.
          returns (unlock_port st' p) (\<lambda>st'. taken its st n (Inr (p, r), v') (Inr (p, r), st'))))"
        unfolding st
      proof (rule upd_rule [where its = its and R = "{n}" and E = "?E(n \<mapsto> ?e)" and H = "sends ?E - {n}" and n = n and e = ?e])
        fix st3 assume rep3: "rep its st3 {n} (?E(n \<mapsto> ?e, n \<mapsto> ?e1)) (sends ?E - {n})"
          and f3: "frame (st2\<lparr>rs_ports := emit ?ma (rs_ports st2)\<rparr>) st3"
        have ptr3: "ptr = ptr_of (rs_space st3) n" using ptr frameD(4) [OF f] frameD(4) [OF f2] frameD(4) [OF f3] by simp
        show "returns (upd_entry st3 ptr ?g) (\<lambda>st'.
            returns (unlock_port st' p) (\<lambda>st'. taken its st n (Inr (p, r), v') (Inr (p, r), st')))"
        proof (rule upd_rule [where its = its and R = "{n}" and E = "?E(n \<mapsto> ?e1)" and H = "sends ?E - {n}" and n = n and e = ?e1])
          fix st4 assume rep4: "rep its st4 {n} (?E(n \<mapsto> ?e1, n \<mapsto> ?g ?e1)) (sends ?E - {n})" and f4: "frame st3 st4"
          let ?st4 = "st4\<lparr>rs_ports := (rs_ports st4)\<lparr>locked := {}\<rparr>\<rparr>"
          have k: "kept st ?st4" using f f2 f3 f4 by (simp add: kept_def frame_def)
          have p4: "rs_ports st4 = emit ?ma ((rv_ports v)\<lparr>ports := (ports (rv_ports v))(p \<mapsto> ?c), locked := {p}\<rparr>)"
            using frameD(1) [OF f] frameD(1) [OF f2] frameD(1) [OF f3] frameD(1) [OF f4] by simp
          have s4: "sends (?E(n \<mapsto> ?g ?e1)) = sends ?E - {n}" using nb by (simp add: sends_upd)
          have "half_done its st n v' ?st4"
            unfolding half_done_def using k p4 lk l(2) nb rep4 s4 modelsD(3) [OF m]
            by (intro conjI exI [of _ "?E(n \<mapsto> ?g ?e1)"] exI [of _ "?g ?e1"]) (simp_all add: spec view_defs unlocked)
          then show "returns (unlock_port st4 p) (\<lambda>st'. taken its st n (Inr (p, r), v') (Inr (p, r), st'))"
            using p4 by (simp add: unlock_port_step taken_def)
        qed (use rep3 ptr3 nb rep_in_use [OF rep l(1)] in auto)
      qed (use rep2 ptr frameD(4) [OF f] frameD(4) [OF f2] rep_in_use [OF rep l(1)] in auto)
    qed (use n ptr spec(3) frameD(4) [OF f] in auto)
    then show "case (request_port port (ie_request e), st1) of (dn, st') \<Rightarrow> dn = r \<and>
      returns (right_hash_delete st' p n ptr) (\<lambda>st'.
      returns (upd_entry (if has ?b IE_BITS_MAREQUEST then send_events [Marequest_cancel (rs_self st') n] st' else st')
          ptr (\<lambda>e. e\<lparr>ie_object := IO_NULL\<rparr>)) (\<lambda>st'. returns (upd_entry st' ptr ?g) (\<lambda>st'.
          returns (unlock_port st' p) (\<lambda>st'. taken its st n (Inr (p, r), v') (Inr (p, r), st')))))"
      using spec(2) by simp
  qed (use rep_reserve [OF rep l(1)] l ptr spec(3) in auto)
qed

lemma bits_rule:
  assumes m: "models its st v" and ok: "view_ok sizes v" and live: "live_at sizes v n e port" and ptr: "ptr = ptr_of (rs_space st) n"
    and b: "b AND IE_BITS_COLLISION = 0" "IE_BITS_TYPE b \<noteq> MACH_PORT_TYPE_NONE"
      "IE_BITS_TYPE b = MACH_PORT_TYPE_SEND \<longleftrightarrow> ie_type e = MACH_PORT_TYPE_SEND"
  shows "returns (upd_entry (at_port st v (ie_object e) (g port)) ptr (\<lambda>x. x\<lparr>ie_bits := b\<rparr>)) (\<lambda>st'. returns (unlock_port st' (ie_object e))
      (\<lambda>st'. taken its st n (r, map_port (ie_object e) g (put_entry n (e\<lparr>ie_bits := b\<rparr>) v)) (r, st')))"
proof -
  note l = live_atD [OF live] and lk = view_okD(2) [OF ok] and rep = modelsD(1) [OF m]
  let ?p = "ie_object e" and ?E = "rv_entries v"
  show ?thesis
  proof (rule upd_rule [where its = its and R = "{}" and E = ?E and H = "sends ?E" and n = n and e = e])
    fix st' assume st': "rep its st' {} (?E(n \<mapsto> e\<lparr>ie_bits := b\<rparr>)) (sends ?E)" and f: "frame (at_port st v ?p (g port)) st'"
    let ?v = "map_port ?p g (put_entry n (e\<lparr>ie_bits := b\<rparr>) v)" and ?st = "st'\<lparr>rs_ports := (rs_ports st')\<lparr>locked := {}\<rparr>\<rparr>"
    have k: "kept st ?st" using f by (simp add: kept_def frame_def)
    have "sends (?E(n \<mapsto> e\<lparr>ie_bits := b\<rparr>)) = sends ?E" using b(3) l(1) in_sends [of ?E n e] by (auto simp: sends_upd)
    then have "models its ?st ?v"
      using st' frameD(1) [OF f] lk l(2) by (intro models_update [OF _ k m]) (simp_all add: view_defs unlocked)
    from takenI [OF this k, of n "e\<lparr>ie_bits := b\<rparr>"] b(2)
    show "returns (unlock_port st' ?p) (\<lambda>st'. taken its st n (r, ?v) (r, st'))"
      using frameD(1) [OF f] by (simp add: unlock_port_step)
  qed (use rep l ptr b in \<open>auto simp: type_values\<close>)
qed

lemma move_rule:
  assumes m: "models its st v" and ok: "view_ok sizes v" and live: "live_at sizes v n e port" and ptr: "ptr = ptr_of (rs_space st) n"
    and t: "ie_type e \<noteq> MACH_PORT_TYPE_RECEIVE"
  shows "returns (copyin_move (at_port st v (ie_object e) port) n ptr (e\<lparr>ie_index := i\<rparr>))
    (taken its st n (take_right MACH_MSG_TYPE_MOVE_SEND n e v))"
proof (cases "ie_type e \<in> send_types")
  case False
  then have "ie_type e = MACH_PORT_TYPE_SEND_ONCE" using live_atD(13) [OF live] t by (auto simp: type_sets)
  with False show ?thesis
    using not_send_rule [OF m ok live] once_tests [of e] by (simp add: copyin_move_def take_right_def Let_def)
next
  case True
  note l = live_atD [OF live] and lk = view_okD(2) [OF ok] and rep = modelsD(1) [OF m] and c = live_at_counts(2) [OF live True]
  let ?p = "ie_object e" and ?E = "rv_entries v" and ?u = "IE_BITS_UREFS (ie_bits e)"
  have h: "has (ie_bits e) MACH_PORT_TYPE_SEND" using True send_tests [of e] send_receive_tests [of e] by (auto simp: send_types_def)
  have u: "0 < ?u" using port_entryD [OF l(6)] True by (auto simp: send_types_def)
  have nz: "ie_type e \<noteq> MACH_PORT_TYPE_NONE" using True by (auto simp: send_types_def)
  show ?thesis
  proof (cases "?u = 1")
    case False
    note b = bits_dec [OF u]
    have "returns (upd_entry (at_port st v ?p (one_send port)) ptr (\<lambda>x. x\<lparr>ie_bits := ie_bits e - 1\<rparr>)) (\<lambda>st'. returns (unlock_port st' ?p)
      (\<lambda>st'. taken its st n (Inr (?p, IP_NULL), map_port ?p one_send (put_entry n (e\<lparr>ie_bits := ie_bits e - 1\<rparr>) v)) (Inr (?p, IP_NULL), st')))"
      by (rule bits_rule [OF m ok live ptr]) (use b(2) [of IE_BITS_COLLISION] b(3) rep_in_use [OF rep l(1)] nz in auto)
    then show ?thesis
      using False True h l c by (simp add: copyin_move_def take_right_def Let_def port_at_def right_step one_send_def word_less_def)
  next
    case one: True
    show ?thesis
    proof (cases "ie_type e = MACH_PORT_TYPE_SEND")
      case s: True
      show ?thesis
        using move_last_rule [OF m ok live ptr s refl refl refl] one h True s l c send_tests [OF s]
        by (auto simp: copyin_move_def take_right_def Let_def port_at_def the_port_def word_less_def elim!: returns_mono split: prod.splits)
    next
      case False
      then have s: "ie_type e = MACH_PORT_TYPE_SEND_RECEIVE" using True by (simp add: send_types_def)
      note r = receive_only_sel [OF s] and pe = port_entryD(4) [OF l(6) s]
      have "returns (upd_entry (at_port st v ?p (one_ref port)) ptr
          (\<lambda>x. x\<lparr>ie_bits := ie_bits e AND NOT (IE_BITS_UREFS_MASK OR MACH_PORT_TYPE_SEND)\<rparr>)) (\<lambda>st'. returns (unlock_port st' ?p)
        (\<lambda>st'. taken its st n (Inr (?p, IP_NULL), map_port ?p one_ref (put_entry n (receive_only e) v)) (Inr (?p, IP_NULL), st')))"
        unfolding receive_only_def
        by (rule bits_rule [OF m ok live ptr]) (use r [unfolded receive_only_def] rep_in_use [OF rep l(1)] False in auto)
      then show ?thesis
        using one h True s l c pe modelsD(3) [OF m] send_receive_tests [OF s]
        by (simp add: copyin_move_def take_right_def Let_def port_at_def right_step one_ref_def word_less_def)
    qed
  qed
qed

subsection \<open>Refinement\<close>

text \<open>The common part of the cases for send and send-once rights; \<open>k\<close> is their rest.\<close>

lemma live_refines:
  assumes m: "models its st v" and ok: "view_ok sizes v" and e: "rv_entries v n = Some e" and ptr: "ptr = ptr_of (rs_space st) n"
    and msgt: "msgt \<in> {MACH_MSG_TYPE_COPY_SEND, MACH_MSG_TYPE_MOVE_SEND, MACH_MSG_TYPE_MOVE_SEND_ONCE}"
    and move: "move \<longleftrightarrow> msgt \<noteq> MACH_MSG_TYPE_COPY_SEND"
    and k: "\<And>port. live_at sizes v n e port \<Longrightarrow> ie_type e \<noteq> MACH_PORT_TYPE_RECEIVE \<Longrightarrow>
      returns (k (at_port st v (ie_object e) port)) (taken its st n (take_right msgt n e v))"
  shows "returns (copyin_live its move True st n ptr (e\<lparr>ie_index := i\<rparr>) k) (taken its st n (take_spec msgt n e v))"
proof (cases "dies e v")
  case True
  obtain port where t: "ie_type e \<in> {MACH_PORT_TYPE_SEND, MACH_PORT_TYPE_SEND_ONCE}" "ie_type e \<in> port_types" "0 < IE_BITS_UREFS (ie_bits e)"
    using diesE [OF ok e True] by metis
  then have h: "has (ie_bits e) MACH_PORT_TYPE_SEND_RIGHTS" "ie_bits e AND MACH_PORT_TYPE_DEAD_NAME = 0"
    using send_tests [of e] once_tests [of e] by auto
  obtain port' where "IO_VALID (ie_object e)" using entry_port [OF ok e t(2)] by metis
  note nz = IO_VALID_nz [OF this] and d = dying_dead [OF ok e True]
  have new: "\<not> has (ie_bits e) IE_BITS_COMPAT" using view_okD(3) [OF ok e] by (simp add: entry_fits_def)
  have spec: "take_spec msgt n e v = (Inr (IO_DEAD, IP_NULL), if move then adjust_dead n (dead_name e) (- 1) (bury n e v) else bury n e v)"
    using msgt move True d(3) by (auto simp: take_spec_def)
  obtain st1 where st1: "ipc_right_check its st (ie_object e) n ptr = Some (True, st1)" "models its st1 (bury n e v)" "kept st st1"
      "ptr = ptr_of (rs_space st1) n" using dying_exact [OF m ok e True ptr refl] by blast
  have "returns (copyin_dead move True st1 ptr) (taken its st n (take_spec msgt n e v))"
    unfolding spec by (rule returns_mono [OF copyin_dead_rule [OF st1(2) d st1(4)]]) (rule taken_kept [OF st1(3)])
  then show ?thesis using h nz t new st1(1) by (simp add: copyin_live_def Let_def)
next
  case False
  have spec: "take_spec msgt n e v = (if ie_type e = MACH_PORT_TYPE_DEAD_NAME
      then (Inr (IO_DEAD, IP_NULL), if move then adjust_dead n e (- 1) v else v) else take_right msgt n e v)"
    using msgt move False by (auto simp: take_spec_def)
  have bad: "taken its st n (Inl KERN_INVALID_RIGHT, v) (Inl KERN_INVALID_RIGHT, st)" if "ie_type e \<noteq> MACH_PORT_TYPE_NONE"
    by (rule takenI [OF m kept_refl e that])
  show ?thesis
  proof (cases "ie_type e \<in> port_types \<and> ie_type e \<noteq> MACH_PORT_TYPE_RECEIVE")
    case True
    then obtain port where live: "live_at sizes v n e port" using live_atE [OF ok e _ False] by blast
    have h: "has (ie_bits e) MACH_PORT_TYPE_SEND_RIGHTS" "ie_bits e AND MACH_PORT_TYPE_DEAD_NAME = 0" "0 < IE_BITS_UREFS (ie_bits e)"
      using True send_tests [of e] once_tests [of e] send_receive_tests [of e] port_entryD [OF live_atD(6) [OF live]]
      by (auto simp: type_sets)
    have "ie_type e \<noteq> MACH_PORT_TYPE_DEAD_NAME" using True by auto
    then show ?thesis
      unfolding spec using h IO_VALID_nz [OF live_atD(8) [OF live]] k [OF live] True
      by (simp add: copyin_live_def Let_def) (rule check_live [OF m ok live ptr refl], simp)
  next
    case other: False
    show ?thesis
      unfolding spec using copyin_dead_rule [OF m ok e _ ptr, of move] bad other msgt dead_tests [of e] pset_tests [of e] receive_tests [of e]
      by (cases rule: entry_type_cases [OF ok e]) (auto simp: copyin_live_def Let_def type_sets take_right_def)
  qed
qed

lemma make_refines:
  assumes m: "models its st v" and ok: "view_ok sizes v" and e: "rv_entries v n = Some e"
    and f: "\<And>port. ip_references (f port) = ip_references port" "\<And>port. g port = (f port)\<lparr>ip_references := ip_references port + 1\<rparr>"
  shows "returns (copyin_make st n (e\<lparr>ie_index := i\<rparr>) f) (taken its st n
    (if ie_type e \<notin> receive_types then (Inl KERN_INVALID_RIGHT, v) else (Inr (ie_object e, IP_NULL), map_port (ie_object e) g v)))"
proof (cases "ie_type e \<in> receive_types")
  case True
  then have t: "ie_type e \<in> port_types" "\<not> dies e v" using type_subsets(3) by (auto simp: dies_def receive_types_def)
  then obtain port where "live_at sizes v n e port" using live_atE [OF ok e] by blast
  from make_rule [OF m ok this True, of f g] show ?thesis using True f by simp
next
  case False
  have "ie_bits e AND MACH_PORT_TYPE_RECEIVE = 0" "ie_type e \<noteq> MACH_PORT_TYPE_NONE"
    using False send_tests [of e] once_tests [of e] dead_tests [of e] pset_tests [of e]
    by (cases rule: entry_type_cases [OF ok e]; simp add: receive_types_def)+
  then show ?thesis using False takenI [OF m kept_refl e] by (simp add: copyin_make_def)
qed

lemma take_refines:
  assumes m: "models its st v" and ok: "view_ok sizes v" and e: "rv_entries v n = Some e" and ptr: "ptr = ptr_of (rs_space st) n"
    and its: "rw_its w = its" and msgt: "msgt \<in> copy_types"
  shows "returns (ipc_right_copyin w st n ptr msgt True) (taken its st n (take_spec msgt n e v))"
proof -
  note rep = modelsD(1) [OF m]
  have make: "returns (copyin_make st n (e\<lparr>ie_index := i\<rparr>) f) (taken its st n (take_spec msgt n e v))"
    if "msgt = MACH_MSG_TYPE_MAKE_SEND \<and> f = (\<lambda>port. port\<lparr>ip_mscount := ip_mscount port + 1, ip_srights := ip_srights port + 1\<rparr>) \<or>
      msgt = MACH_MSG_TYPE_MAKE_SEND_ONCE \<and> f = (\<lambda>port. port\<lparr>ip_sorights := ip_sorights port + 1\<rparr>)" for f i
    using that make_refines [OF m ok e, of f new_send i] make_refines [OF m ok e, of f new_once i]
    by (auto simp: take_spec_def new_send_def one_send_def new_once_def)
  have sends: "returns (copyin_live its False True st n ptr (e\<lparr>ie_index := i\<rparr>) (\<lambda>st. copyin_copy st (e\<lparr>ie_index := i\<rparr>)))
      (taken its st n (take_spec MACH_MSG_TYPE_COPY_SEND n e v))"
    "returns (copyin_live its True True st n ptr (e\<lparr>ie_index := i\<rparr>) (\<lambda>st. copyin_move st n ptr (e\<lparr>ie_index := i\<rparr>)))
      (taken its st n (take_spec MACH_MSG_TYPE_MOVE_SEND n e v))"
    "returns (copyin_live its True True st n ptr (e\<lparr>ie_index := i\<rparr>) (\<lambda>st. copyin_move_once st n ptr (e\<lparr>ie_index := i\<rparr>)))
      (taken its st n (take_spec MACH_MSG_TYPE_MOVE_SEND_ONCE n e v))" for i
    by (rule live_refines [OF m ok e ptr], simp, simp,
        erule (1) copy_rule [OF m ok] move_rule [OF m ok _ ptr] move_once_rule [OF m ok _ ptr])+
  show ?thesis
    unfolding ipc_right_copyin_def returns_bind returns_assert
    by (intro entry_at_rule [OF rep e ptr] conjI rep_active [OF rep]) (use msgt make its sends in \<open>auto simp: copy_types_def\<close>)
qed

lemma copyin_refines:
  assumes m: "models its st v" and ok: "view_ok sizes v" and its: "rw_its w = its" and msgt: "msgt \<in> copy_types"
  shows "returns (ipc_object_copyin w st n msgt) (achieves its st (copyin_spec msgt n v))"
proof -
  have "returns (by_name Inl st n (\<lambda>st ptr.
     do { (r, st) \<leftarrow> ipc_right_copyin w st n ptr msgt True;
          entry \<leftarrow> entry_at st ptr;
          st \<leftarrow> (if IE_BITS_TYPE (ie_bits entry) = MACH_PORT_TYPE_NONE then free_entry (rw_its w) st n ptr else Some st);
          case r of
            Inl kr \<Rightarrow> Some (Inl kr, st)
          | Inr (obj, soright) \<Rightarrow> Some (Inr obj, send_events (pd_event soright n) st) }))
    (achieves its st (copyin_spec msgt n v))"
  proof (rule by_name_refines [OF m ok])
    show "copyin_spec msgt n v = (Inl KERN_INVALID_NAME, v)" if "rv_entries v n = None"
      using that by (simp add: copyin_spec_def)
    fix st1 e assume e: "rv_entries v n = Some e" and m1: "models its st1 v"
    let ?ptr = "ptr_of (rs_space st1) n"
    obtain r v' where spec: "take_spec msgt n e v = (r, v')" by fastforce
    have fin: "returns (entry_at st2 ?ptr) (\<lambda>entry.
        returns (if IE_BITS_TYPE (ie_bits entry) = MACH_PORT_TYPE_NONE then free_entry its st2 n ?ptr else Some st2)
        (\<lambda>st. returns (case r of Inl kr \<Rightarrow> Some (Inl kr, st)
            | Inr (obj, soright) \<Rightarrow> Some (Inr obj, send_events (pd_event soright n) st)) (achieves its st1 (copyin_spec msgt n v))))"
      if "taken its st1 n (r, v') (r, st2)" for st2
      by (rule finish_rule [where v' = v' and st = st1])
        (use that spec e in \<open>auto simp: taken_def copyin_spec_def achieves_def models_def post_def send_events_def split: sum.splits\<close>)
    show "returns (do { (r, st) \<leftarrow> ipc_right_copyin w st1 n ?ptr msgt True;
          entry \<leftarrow> entry_at st ?ptr;
          st \<leftarrow> (if IE_BITS_TYPE (ie_bits entry) = MACH_PORT_TYPE_NONE then free_entry (rw_its w) st n ?ptr else Some st);
          case r of
            Inl kr \<Rightarrow> Some (Inl kr, st)
          | Inr (obj, soright) \<Rightarrow> Some (Inr obj, send_events (pd_event soright n) st) }) (achieves its st1 (copyin_spec msgt n v))"
      unfolding returns_bind
      by (rule returns_mono [OF take_refines [OF m1 ok e refl its msgt]]) (use fin its in \<open>auto simp: spec taken_def\<close>)
  qed
  then show ?thesis
    using view_okD(1) [OF ok] modelsD(3) [OF m] by (simp add: ipc_object_copyin_def by_name_def)
qed

subsection \<open>Conservation\<close>

text \<open>No counter of a port is at its maximum.\<close>

definition room :: "rights_view \<Rightarrow> bool" where
  "room v \<longleftrightarrow> (\<forall>p port. ports (rv_ports v) p = Some port \<longrightarrow>
     uint (ip_references port) + 1 < 2 ^ 32 \<and> uint (ip_srights port) + 1 < 2 ^ 32 \<and> uint (ip_sorights port) + 1 < 2 ^ 32)"

lemma counter_sel [simp]:
  "ip_bits (one_send port) = ip_bits port" "ip_data (one_send port) = ip_data port" "ip_receiver_name (one_send port) = ip_receiver_name port"
  "ip_srights (one_send port) = ip_srights port + 1" "ip_sorights (one_send port) = ip_sorights port"
  "ip_references (one_send port) = ip_references port + 1"
  "ip_bits (new_send port) = ip_bits port" "ip_data (new_send port) = ip_data port" "ip_receiver_name (new_send port) = ip_receiver_name port"
  "ip_srights (new_send port) = ip_srights port + 1" "ip_sorights (new_send port) = ip_sorights port"
  "ip_references (new_send port) = ip_references port + 1"
  "ip_bits (new_once port) = ip_bits port" "ip_data (new_once port) = ip_data port" "ip_receiver_name (new_once port) = ip_receiver_name port"
  "ip_srights (new_once port) = ip_srights port" "ip_sorights (new_once port) = ip_sorights port + 1"
  "ip_references (new_once port) = ip_references port + 1"
  "ip_bits (one_ref port) = ip_bits port" "ip_data (one_ref port) = ip_data port" "ip_receiver_name (one_ref port) = ip_receiver_name port"
  "ip_srights (one_ref port) = ip_srights port" "ip_sorights (one_ref port) = ip_sorights port"
  "ip_references (one_ref port) = ip_references port + 1"
  by (simp_all add: one_send_def new_send_def new_once_def one_ref_def)

lemma counter_requests [simp]:
  "port_requests (one_send port) = port_requests port" "port_requests (new_send port) = port_requests port"
  "port_requests (new_once port) = port_requests port" "port_requests (one_ref port) = port_requests port"
  "port_dn_ok sizes (one_send port) = port_dn_ok sizes port" "port_dn_ok sizes (new_send port) = port_dn_ok sizes port"
  "port_dn_ok sizes (new_once port) = port_dn_ok sizes port" "port_dn_ok sizes (one_ref port) = port_dn_ok sizes port"
  by (simp_all add: port_requests_def port_dn_ok_def one_send_def new_send_def new_once_def one_ref_def)

lemma entry_ok_similar:
  assumes "port_entry_ok self n e port" and "ip_bits port' = ip_bits port" and "ip_data port' = ip_data port"
    and "ip_receiver_name port' = ip_receiver_name port" and "port_requests port' = port_requests port"
  shows "port_entry_ok self n e port'"
  using assms by (simp add: port_entry_ok_def request_ok_def)

lemma map_port_ok:
  assumes ok: "view_ok sizes v" and live: "live_at sizes v n e port"
    and g: "similar n port (g port)" "port_requests (g port) = port_requests port" "port_dn_ok sizes (g port)"
    and c: "uint (ip_references (g port)) = uint (ip_references port) + r" "uint (ip_srights (g port)) = uint (ip_srights port) + s"
      "uint (ip_sorights (g port)) = uint (ip_sorights port) + so" "0 \<le> r" "0 \<le> s" "0 \<le> so"
  shows "view_ok sizes (map_port (ie_object e) g v) \<and> moved_out (ie_object e) s so r v (map_port (ie_object e) g v)"
proof -
  note l = live_atD [OF live]
  have E: "(rv_entries v)(n \<mapsto> e) = rv_entries v" using l(1) by auto
  have "port_entry_ok (rv_self v) n e (g port)"
    using entry_ok_similar [OF l(6)] g by (simp add: similar_def)
  then have fits: "entry_fits (map_port (ie_object e) g v) n e"
    using l by (simp add: entry_fits_port)
  have rcv: "denotes receive_types (ie_object e) (Some e)" if "ip_data port = rv_self v" "ip_receiver_name port = n"
    using l(14) [OF that(1)] that(2) l(1) by simp
  show ?thesis
    by (rule change_ok [OF ok _ _ l(2) g(1,3), where x = "Some e"])
      (use l c fits view_okD(2) [OF ok] E rcv in \<open>auto simp: one_change_def\<close>)
qed

lemma post_outside [simp]: "outside T f (post es v) p = outside T f v p" "live (post es v) p = live v p"
  by (simp_all add: outside_def live_def split: option.split)

lemma post_fits [simp]: "entry_fits (post es v) n e = entry_fits v n e" "port_fits sizes (post es v) p port = port_fits sizes v p port"
  by (auto simp: entry_fits_def port_fits_def split: option.splits)

lemma post_ok [simp]: "view_ok sizes (post es v) = view_ok sizes v" "moved_out p s so r v (post es v') = moved_out p s so r v v'"
  by (simp_all add: view_ok_def moved_out_def)

lemma cancel_sending_ok:
  assumes ok: "view_ok sizes v" and live: "live_at sizes v n e port" and t: "ie_type e \<in> {MACH_PORT_TYPE_SEND, MACH_PORT_TYPE_SEND_ONCE}"
    and v': "v' = map_port (ie_object e) (cancel_request (ie_request e)) (remove_entry n v)"
    and k: "s = (if ie_type e = MACH_PORT_TYPE_SEND then 1 else 0)" "so = (if ie_type e = MACH_PORT_TYPE_SEND then 0 else 1)"
  shows "view_ok sizes v' \<and> moved_out (ie_object e) s so 1 v v'"
proof -
  note l = live_atD [OF live] and c = cancel_ok [OF live_atD(3-5) [OF live]]
  have "\<not> denotes receive_types (ie_object e) (Some e)" using t by (auto simp: receive_types_def)
  then have "ip_data port = rv_self v \<Longrightarrow> ip_receiver_name port \<noteq> n" using l(14) l(1) by auto
  then show ?thesis
    by (intro change_ok [OF ok _ _ l(2) c(2,1), where x = None])
      (use l t k view_okD(2) [OF ok] v' in \<open>auto simp: one_change_def type_sets\<close>)
qed

lemma move_some_ok:
  assumes ok: "view_ok sizes v" and live: "live_at sizes v n e port" and t: "ie_type e \<in> send_types"
    and u: "IE_BITS_UREFS (ie_bits e) \<noteq> 1" and room: "room v"
    and v': "v' = map_port (ie_object e) one_send (put_entry n (e\<lparr>ie_bits := ie_bits e - 1\<rparr>) v)"
  shows "view_ok sizes v' \<and> moved_out (ie_object e) 1 0 1 v v'"
proof -
  note l = live_atD [OF live]
  have r: "uint (ip_references port) + 1 < 2 ^ 32" "uint (ip_srights port) + 1 < 2 ^ 32" using room l(2) by (auto simp: room_def)
  note i = uint_inc [OF r(1)] uint_inc [OF r(2)]
  note d = send_dec_bounds [OF ok l(1) t]
  let ?u = "IE_BITS_UREFS (ie_bits e)" and ?e = "e\<lparr>ie_bits := ie_bits e - 1\<rparr>"
  have ub: "?u < MACH_PORT_UREFS_MAX" "0 < ?u" using port_entryD [OF l(6)] t by (auto simp: send_types_def)
  note o = overflow_next [OF d ub(1)] and b = adjust_bits [OF overflow_next(1) [OF d ub(1)] d(2)]
  have pos: "0 < ?u - 1" using u by (simp add: word_gt_0)
  have "port_entry_ok (rv_self v) n ?e port"
    using l(6) b o(2) pos t by (auto simp: port_entry_ok_def request_ok_def Let_def send_types_def)
  then have "port_entry_ok (rv_self v) n ?e (one_send port)" by (rule entry_ok_similar) simp_all
  then have fits: "entry_fits v' n ?e" using l b v' by (simp add: entry_fits_port)
  show ?thesis
    by (rule change_ok [OF ok _ _ l(2), where x = "Some ?e" and n = n and port' = "one_send port"])
      (use l b fits view_okD(2) [OF ok] v' i t in \<open>auto simp: one_change_def similar_def type_sets\<close>)
qed

lemma move_sender_ok:
  assumes ok: "view_ok sizes v" and live: "live_at sizes v n e port" and t: "ie_type e = MACH_PORT_TYPE_SEND_RECEIVE" and room: "room v"
    and v': "v' = map_port (ie_object e) one_ref (put_entry n (receive_only e) v)"
  shows "view_ok sizes v' \<and> moved_out (ie_object e) 1 0 1 v v'"
proof -
  note l = live_atD [OF live] and r = receive_only_sel [OF t]
  have "uint (ip_references port) + 1 < 2 ^ 32" using room l(2) by (auto simp: room_def)
  note i = uint_inc [OF this]
  have "port_entry_ok (rv_self v) n (receive_only e) (one_ref port)"
    using l(6) r t by (auto simp: port_entry_ok_def request_ok_def Let_def type_sets split: option.splits)
  then have fits: "entry_fits v' n (receive_only e)" using l r v' by (simp add: entry_fits_port type_sets)
  show ?thesis
    by (rule change_ok [OF ok _ _ l(2), where x = "Some (receive_only e)" and n = n and port' = "one_ref port"])
      (use l r fits view_okD(2) [OF ok] v' i t in \<open>auto simp: one_change_def similar_def type_sets\<close>)
qed

text \<open>What a copyin carries: a send or a send-once right.\<close>

definition carried_sends :: "msgt_name \<Rightarrow> int" where
  "carried_sends msgt = (if msgt = MACH_MSG_TYPE_PORT_SEND then 1 else 0)"

definition carried_onces :: "msgt_name \<Rightarrow> int" where
  "carried_onces msgt = (if msgt = MACH_MSG_TYPE_PORT_SEND_ONCE then 1 else 0)"

definition carries :: "nat list \<Rightarrow> msgt_name \<Rightarrow> rights_view \<Rightarrow> (kern_return + ptr) \<Rightarrow> rights_view \<Rightarrow> bool" where
  "carries sizes msgt v r v' \<longleftrightarrow> view_ok sizes v' \<and>
     (case r of
        Inl _ \<Rightarrow> moved_out 0 0 0 0 v v'
      | Inr p \<Rightarrow>
          if p = IO_DEAD then moved_out 0 0 0 0 v v'
          else moved_out p (carried_sends msgt) (carried_onces msgt) 1 v v')"

lemma take_right_ok:
  assumes ok: "view_ok sizes v" and live: "live_at sizes v n e port" and room: "room v"
    and msgt: "msgt \<in> {MACH_MSG_TYPE_COPY_SEND, MACH_MSG_TYPE_MOVE_SEND, MACH_MSG_TYPE_MOVE_SEND_ONCE}"
  shows "carries sizes (ipc_object_copyin_type msgt) v (map_sum id fst (fst (take_right msgt n e v))) (snd (take_right msgt n e v))"
proof -
  note l = live_atD [OF live]
  have r: "uint (ip_references port) + 1 < 2 ^ 32" "uint (ip_srights port) + 1 < 2 ^ 32" using room l(2) by (auto simp: room_def)
  have nd: "ie_object e \<noteq> IO_DEAD" using l(8) by (simp add: IO_VALID_def)
  have copy: "view_ok sizes (map_port (ie_object e) one_send v) \<and> moved_out (ie_object e) 1 0 1 v (map_port (ie_object e) one_send v)"
    by (rule map_port_ok [OF ok live]) (use uint_inc [OF r(1)] uint_inc [OF r(2)] l in \<open>simp_all add: similar_def\<close>)
  have stay: "moved_out 0 0 0 0 v v" by (simp add: moved_out_def)
  show ?thesis
    using msgt copy ok stay nd move_some_ok [OF ok live _ _ room refl] move_sender_ok [OF ok live _ room refl]
      cancel_sending_ok [OF ok live _ refl refl refl]
    by (auto simp: take_right_def carries_def carried_sends_def carried_onces_def Let_def send_types_def)
qed

lemma carries_after:
  assumes "moved_out 0 0 0 0 v v1" and "carries sizes msgt v1 r v'"
  shows "carries sizes msgt v r v'"
  using assms moved_out_trans [OF assms(1)] by (auto simp: carries_def split: sum.splits if_splits)

lemma take_spec_ok:
  assumes ok: "view_ok sizes v" and e: "rv_entries v n = Some e" and room: "room v" and msgt: "msgt \<in> copy_types"
  shows "carries sizes (ipc_object_copyin_type msgt) v (map_sum id fst (fst (take_spec msgt n e v))) (snd (take_spec msgt n e v))"
proof -
  have stay: "moved_out 0 0 0 0 v v" by (simp add: moved_out_def)
  show ?thesis
  proof (cases "msgt \<in> {MACH_MSG_TYPE_MAKE_SEND, MACH_MSG_TYPE_MAKE_SEND_ONCE}")
    case make: True
    show ?thesis
    proof (cases "ie_type e \<in> receive_types")
      case True
      then have t: "ie_type e \<in> port_types" "\<not> dies e v" using type_subsets(3) by (auto simp: dies_def receive_types_def)
      then obtain port where live: "live_at sizes v n e port" using live_atE [OF ok e] by blast
      note l = live_atD [OF live]
      have r: "uint (ip_references port) + 1 < 2 ^ 32" "uint (ip_srights port) + 1 < 2 ^ 32" "uint (ip_sorights port) + 1 < 2 ^ 32"
        using room l(2) by (auto simp: room_def)
      note i = uint_inc [OF r(1)] uint_inc [OF r(2)] uint_inc [OF r(3)]
      have nd: "ie_object e \<noteq> IO_DEAD" using l(8) by (simp add: IO_VALID_def)
      show ?thesis
        using make True nd map_port_ok [OF ok live, of new_send 1 1 0] map_port_ok [OF ok live, of new_once 1 0 1] i l
        by (auto simp: take_spec_def carries_def carried_sends_def carried_onces_def similar_def)
    next
      case False
      then show ?thesis using make ok stay by (simp add: take_spec_def carries_def)
    qed
  next
    case False
    then have msgt': "msgt \<in> {MACH_MSG_TYPE_COPY_SEND, MACH_MSG_TYPE_MOVE_SEND, MACH_MSG_TYPE_MOVE_SEND_ONCE}"
      using msgt by (auto simp: copy_types_def)
    have dead: "carries sizes msgt' v0 (Inr IO_DEAD) (if c then v0 else adjust_dead n e' (- 1) v0)"
      if "view_ok sizes v0" "rv_entries v0 n = Some e'" "ie_type e' = MACH_PORT_TYPE_DEAD_NAME" for v0 e' c msgt'
      using that adjust_dead_ok [OF that, of "- 1" 0] minus_one_bounds [OF dead_entryD(4) [OF that] urefs_le_max]
      by (auto simp: carries_def moved_out_def)
    show ?thesis
    proof (cases "dies e v")
      case True
      show ?thesis
        using False True dying_dead(3) [OF ok e True]
          carries_after [OF conjunct2 [OF bury_ok [OF ok e True]] dead [OF dying_dead [OF ok e True]]]
        by (simp add: take_spec_def)
    next
      case alive: False
      show ?thesis
      proof (cases "ie_type e \<in> port_types")
        case True
        then obtain port where live: "live_at sizes v n e port" using live_atE [OF ok e _ alive] by blast
        have "ie_type e \<noteq> MACH_PORT_TYPE_DEAD_NAME" using True by auto
        then show ?thesis using False alive take_right_ok [OF ok live room msgt'] by (simp add: take_spec_def)
      next
        case other: False
        show ?thesis
          using False alive dead [OF ok e] other ok stay
          by (cases rule: entry_type_cases [OF ok e])
            (auto simp: take_spec_def take_right_def carries_def type_sets Let_def)
      qed
    qed
  qed
qed

lemma copyin_spec_ok:
  assumes ok: "view_ok sizes v" and room: "room v" and msgt: "msgt \<in> copy_types"
  shows "carries sizes (ipc_object_copyin_type msgt) v (fst (copyin_spec msgt n v)) (snd (copyin_spec msgt n v))"
proof (cases "rv_entries v n")
  case None
  then show ?thesis using ok by (simp add: copyin_spec_def carries_def moved_out_def)
next
  case (Some e)
  then show ?thesis
    using take_spec_ok [OF ok Some room msgt]
    by (cases "take_spec msgt n e v") (auto simp: copyin_spec_def carries_def split: sum.splits)
qed

end
