(* ===== verification/Ipc_Right_Copyout.thy ===== *)
theory Ipc_Right_Copyout
  imports Ipc_Right_Copyin
begin

text \<open>Rights put into a space: \<^verbatim>\<open>ipc_right_reverse\<close>, \<^verbatim>\<open>ipc_right_copyout\<close> and \<^verbatim>\<open>ipc_object_copyout\<close>.\<close>

subsection \<open>Finding the name of a port\<close>

abbreviation named_types :: "u32 set" where
  "named_types \<equiv> insert MACH_PORT_TYPE_SEND receive_types"

lemma ports_last [simp]:
  "st\<lparr>rs_ports := ps, rs_space := space\<rparr> = st\<lparr>rs_space := space, rs_ports := ps\<rparr>"
  "st\<lparr>rs_ports := ps, rs_hash := g\<rparr> = st\<lparr>rs_hash := g, rs_ports := ps\<rparr>"
  by simp_all

lemma entry_lookup_rule:
  assumes rep: "rep its st R E H" and n: "n \<notin> R"
  shows "\<exists>space. ipc_entry_lookup (rs_space st) n = Some (if E n = None then None else Some (ptr_of (rs_space st) n), space) \<and>
    rep its (st\<lparr>rs_space := space\<rparr>) R E H \<and> frame st (st\<lparr>rs_space := space\<rparr>)"
proof -
  have ok: "space_ok its (rs_space st) R" and act: "is_active (rs_space st)" using rep by (simp_all add: rep_def)
  obtain s' where s': "ipc_entry_lookup (rs_space st) n =
      Some (if entries (rs_space st) n = None then None else Some (ptr_of (rs_space st) n), s')" "same_tree (rs_space st) s'"
    using entry_lookup_ok [OF ok act n] by blast
  have "entries (rs_space st) n = E n" using rep rview_entries [OF n] by (auto simp: rep_def)
  moreover have "rep its (st\<lparr>rs_space := s', rs_hash := rs_hash st\<rparr>) R E H"
    by (rule rep_same_space [OF rep same_tree_space [OF s'(2)] same_tree_hash [OF s'(2) ok]])
      (use rep in \<open>simp add: rep_def\<close>)
  ultimately show ?thesis using s'(1) same_index_frame [OF same_tree_index [OF s'(2)]] by auto
qed

lemma hash_lookup_rule:
  assumes rep: "rep its st R E H" and p: "p \<noteq> IO_NULL" and dom: "H \<subseteq> dom E"
  shows "\<exists>r g. ipc_hash_lookup (rs_space st) (rs_hash st) p = Some (r, g) \<and>
    rep its (st\<lparr>rs_hash := g\<rparr>) R E H \<and> frame st (st\<lparr>rs_hash := g\<rparr>) \<and>
    (case r of
       None \<Rightarrow> \<forall>n e. n \<in> H \<and> E n = Some e \<longrightarrow> ie_object e \<noteq> p
     | Some (n, ptr) \<Rightarrow> n \<in> H \<and> (\<exists>e. E n = Some e \<and> ie_object e = p) \<and> ptr = ptr_of (rs_space st) n)"
proof -
  have ok: "space_ok its (rs_space st) R" and inv: "hash_inv (rs_space st) (rs_hash st) H" using rep by (simp_all add: rep_def)
  from hash_lookup_ok [OF ok inv p] obtain r g where r: "ipc_hash_lookup (rs_space st) (rs_hash st) p = Some (r, g)"
      "hash_inv (rs_space st) g H" "glob_refs g = glob_refs (rs_hash st)"
    and c: "case r of None \<Rightarrow> \<forall>n \<in> H. obj_of (rs_space st) n \<noteq> p
       | Some (n, ptr) \<Rightarrow> n \<in> H \<and> obj_of (rs_space st) n = p \<and> ptr = ptr_of (rs_space st) n" by blast
  have "rep its (st\<lparr>rs_hash := g\<rparr>) R E H" "frame st (st\<lparr>rs_hash := g\<rparr>)" using rep r by (simp_all add: rep_def frame_def)
  moreover have "case r of
       None \<Rightarrow> \<forall>n e. n \<in> H \<and> E n = Some e \<longrightarrow> ie_object e \<noteq> p
     | Some (n, ptr) \<Rightarrow> n \<in> H \<and> (\<exists>e. E n = Some e \<and> ie_object e = p) \<and> ptr = ptr_of (rs_space st) n"
    using c obj_of_rep [OF rep] dom by (fastforce split: option.splits)
  ultimately show ?thesis using r(1) by blast
qed

text \<open>The result of \<^verbatim>\<open>ipc_right_reverse\<close>: if it finds a name, the port is left locked.\<close>

definition reversed :: "nat list \<Rightarrow> right_state \<Rightarrow> rights_view \<Rightarrow> ptr \<Rightarrow> (mach_port \<times> entry_ptr) option \<times> right_state \<Rightarrow> bool" where
  "reversed its st v p res \<longleftrightarrow>
     (case res of
        (None, st') \<Rightarrow> models its st' v \<and> kept st st' \<and> (live v p \<longrightarrow> (\<forall>m. \<not> denotes named_types p (rv_entries v m)))
      | (Some (m, ptr), st') \<Rightarrow> live v p \<and> denotes named_types p (rv_entries v m) \<and> ptr = ptr_of (rs_space st) m \<and>
          (\<exists>st0. models its st0 v \<and> kept st st0 \<and> st' = at_port st0 v p (the_port v p)))"

lemma reverse_rule:
  assumes m: "models its st v" and ok: "view_ok sizes v" and port: "ports (rv_ports v) p = Some port" and p: "IO_VALID p"
  shows "returns (ipc_right_reverse st p) (reversed its st v p)"
proof -
  note rep = modelsD(1) [OF m] and lk = view_okD(2) [OF ok]
  let ?st = "at_port st v p port"
  have lock: "lock_port st p = Some ?st"
    using lock_port_step [of st p port] port lk modelsD(2) [OF m] by (simp add: at_port_same)
  have self: "st\<lparr>rs_ports := rv_ports v\<rparr> = st" using modelsD(2) [OF m] by (cases st) simp
  have rep': "rep its ?st {} (rv_entries v) (sends (rv_entries v))" using rep by simp
  have un: "unlock_port (at_port st0 v p port) p = Some (st0\<lparr>rs_ports := rv_ports v\<rparr>)" for st0
    using port lk by (simp add: unlock_port_step unlocked fun_upd_idem)
  show ?thesis
  proof (cases "ip_active port")
    case False
    then have "reversed its st v p (None, st)" using m port by (simp add: reversed_def live_def)
    then show ?thesis using lock un False self rep_active [OF rep] port by (simp add: ipc_right_reverse_def port_at_def Let_def)
  next
    case act: True
    have fits: "port_fits sizes v p port" by (rule view_okD(4) [OF ok port])
    show ?thesis
    proof (cases "ip_data port = rv_self v")
      case True
      let ?n = "ip_receiver_name port"
      obtain e where e: "rv_entries v ?n = Some e" "ie_object e = p" "ie_type e \<in> receive_types"
        using fits act True by (auto simp: port_fits_def denotes_def split: option.splits)
      have tests: "has (ie_bits e) MACH_PORT_TYPE_RECEIVE"
        using e(3) receive_tests [of e] send_receive_tests [of e] by (auto simp: receive_types_def)
      obtain space where lu: "ipc_entry_lookup (rs_space ?st) ?n = Some (Some (ptr_of (rs_space st) ?n), space)"
          "rep its (?st\<lparr>rs_space := space\<rparr>) {} (rv_entries v) (sends (rv_entries v))" "frame ?st (?st\<lparr>rs_space := space\<rparr>)"
        using entry_lookup_rule [OF rep', of ?n] e(1) by auto
      let ?st0 = "st\<lparr>rs_space := space\<rparr>"
      have k: "kept st ?st0" using lu(3) modelsD(2) [OF m] by (simp add: kept_def frame_def)
      have m0: "models its ?st0 v" by (rule models_update [OF _ k m]) (use lu(2) modelsD(2) [OF m] in simp_all)
      have r: "reversed its st v p (Some (?n, ptr_of (rs_space st) ?n), at_port ?st0 v p port)"
        using act port e k m0 by (auto simp: reversed_def live_def the_port_def)
      have "returns (entry_at (at_port ?st0 v p port) (ptr_of (rs_space st) ?n)) (\<lambda>x. has (ie_bits x) MACH_PORT_TYPE_RECEIVE \<and>
          p = ie_object x \<and> reversed its st v p (Some (?n, ptr_of (rs_space st) ?n), at_port ?st0 v p port))"
        by (rule entry_at_rule [where E = "rv_entries v" and e = e and its = its and R = "{}" and H = "sends (rv_entries v)"])
          (use lu(2) e tests r kept_ptr(1) [OF k] in auto)
      then show ?thesis
        using lock act True modelsD(3) [OF m] rep_active [OF rep] port rep_nz [OF rep e(1)] lu(1)
        by (simp add: ipc_right_reverse_def port_at_def MACH_PORT_NULL_def Let_def)
    next
      case away: False
      have nn: "p \<noteq> IO_NULL" using p by (simp add: IO_VALID_def)
      obtain r g where lu: "ipc_hash_lookup (rs_space ?st) (rs_hash ?st) p = Some (r, g)"
          "rep its (?st\<lparr>rs_hash := g\<rparr>) {} (rv_entries v) (sends (rv_entries v))" "frame ?st (?st\<lparr>rs_hash := g\<rparr>)"
        and c: "case r of
             None \<Rightarrow> \<forall>n e. n \<in> sends (rv_entries v) \<and> rv_entries v n = Some e \<longrightarrow> ie_object e \<noteq> p
           | Some (n, ptr) \<Rightarrow> n \<in> sends (rv_entries v) \<and> (\<exists>e. rv_entries v n = Some e \<and> ie_object e = p) \<and> ptr = ptr_of (rs_space ?st) n"
        using hash_lookup_rule [OF rep' nn sends_dom] by blast
      let ?st0 = "st\<lparr>rs_hash := g\<rparr>"
      have k: "kept st ?st0" using lu(3) modelsD(2) [OF m] by (simp add: kept_def frame_def)
      have m0: "models its ?st0 v" by (rule models_update [OF _ k m]) (use lu(2) modelsD(2) [OF m] in simp_all)
      have self0: "?st0\<lparr>rs_ports := rv_ports v\<rparr> = ?st0" using modelsD(2) [OF m] by (cases st) simp
      note start = lock act away modelsD(3) [OF m] rep_active [OF rep] port lu(1)
      show ?thesis
      proof (cases r)
        case None
        have "\<not> denotes named_types p (rv_entries v n)" for n
        proof
          assume "denotes named_types p (rv_entries v n)"
          then obtain e where e: "rv_entries v n = Some e" "ie_object e = p" "ie_type e \<in> named_types"
            by (auto simp: denotes_def split: option.splits)
          then have "ie_type e \<noteq> MACH_PORT_TYPE_SEND" using c None in_sends [of "rv_entries v" n e] by auto
          then have t: "ie_type e \<in> receive_types" "ie_type e \<in> port_types" using e(3) by (auto simp: type_sets)
          then show False
            using entry_port [OF ok e(1) t(2)] e(2) port away by (auto simp: port_entry_ok_def Let_def)
        qed
        then have "reversed its st v p (None, ?st0)" using m0 k by (simp add: reversed_def)
        then show ?thesis using start None un [of ?st0] self0 by (simp add: ipc_right_reverse_def port_at_def Let_def)
      next
        case (Some found)
        obtain n ptr where found: "found = (n, ptr)" by fastforce
        obtain e where e: "rv_entries v n = Some e" "ie_object e = p" "ie_type e = MACH_PORT_TYPE_SEND" "ptr = ptr_of (rs_space st) n"
          using c Some found in_sends [of "rv_entries v" n] by auto
        have rv: "reversed its st v p (Some (n, ptr), at_port ?st0 v p port)"
          using act port e k m0 by (auto simp: reversed_def live_def the_port_def)
        have "returns (entry_at (at_port ?st0 v p port) ptr) (\<lambda>x. IE_BITS_TYPE (ie_bits x) = MACH_PORT_TYPE_SEND \<and>
            p = ie_object x \<and> reversed its st v p (Some (n, ptr), at_port ?st0 v p port))"
          by (rule entry_at_rule [where E = "rv_entries v" and e = e and its = its and R = "{}" and H = "sends (rv_entries v)"])
            (use lu(2) e rv in auto)
        then show ?thesis using start Some found by (simp add: ipc_right_reverse_def port_at_def Let_def)
      qed
    qed
  qed
qed

subsection \<open>A name that exists\<close>

text \<open>The entry with one more user reference of its send right.\<close>

definition sender :: "ipc_entry \<Rightarrow> ipc_entry" where
  "sender e = e\<lparr>ie_bits := (ie_bits e OR MACH_PORT_TYPE_SEND) + 1\<rparr>"

definition less_ref :: "ipc_port \<Rightarrow> ipc_port" where
  "less_ref port = port\<lparr>ip_references := ip_references port - 1\<rparr>"

definition merge_send :: "ipc_port \<Rightarrow> ipc_port" where
  "merge_send port = port\<lparr>ip_srights := ip_srights port - 1, ip_references := ip_references port - 1\<rparr>"

definition more_send :: "bool \<Rightarrow> mach_port \<Rightarrow> ipc_entry \<Rightarrow> rights_view \<Rightarrow> kern_return \<times> rights_view" where
  "more_send ovf n e v =
     (if ie_type e = MACH_PORT_TYPE_RECEIVE then (KERN_SUCCESS, map_port (ie_object e) less_ref (put_entry n (sender e) v))
      else if IE_BITS_UREFS (ie_bits e) + 1 = MACH_PORT_UREFS_MAX then
        if ovf then (KERN_SUCCESS, map_port (ie_object e) merge_send v) else (KERN_UREFS_OVERFLOW, v)
      else (KERN_SUCCESS, map_port (ie_object e) merge_send (put_entry n (sender e) v)))"

lemma sender_sel:
  assumes "IE_BITS_UREFS (ie_bits e) < MACH_PORT_UREFS_MAX"
  shows "ie_type (sender e) = ie_type e OR MACH_PORT_TYPE_SEND" "IE_BITS_UREFS (ie_bits (sender e)) = IE_BITS_UREFS (ie_bits e) + 1"
    "ie_object (sender e) = ie_object e" "ie_request (sender e) = ie_request e"
    "ie_bits (sender e) AND IE_BITS_COMPAT = ie_bits e AND IE_BITS_COMPAT"
    "ie_bits (sender e) AND IE_BITS_COLLISION = ie_bits e AND IE_BITS_COLLISION"
    "ie_bits (sender e) AND IE_BITS_MAREQUEST = ie_bits e AND IE_BITS_MAREQUEST"
proof -
  have u: "IE_BITS_UREFS (ie_bits e OR MACH_PORT_TYPE_SEND) = IE_BITS_UREFS (ie_bits e)"
    by (simp add: UREFS_or) (simp add: IE_BITS_UREFS_def mask_values type_values)
  have t: "IE_BITS_TYPE MACH_PORT_TYPE_SEND = MACH_PORT_TYPE_SEND" by (simp add: IE_BITS_TYPE_def mask_values type_values)
  note b = bits_inc [of "ie_bits e OR MACH_PORT_TYPE_SEND", unfolded u, OF assms]
  show "ie_type (sender e) = ie_type e OR MACH_PORT_TYPE_SEND" "IE_BITS_UREFS (ie_bits (sender e)) = IE_BITS_UREFS (ie_bits e) + 1"
    "ie_bits (sender e) AND IE_BITS_COMPAT = ie_bits e AND IE_BITS_COMPAT"
    "ie_bits (sender e) AND IE_BITS_COLLISION = ie_bits e AND IE_BITS_COLLISION"
    "ie_bits (sender e) AND IE_BITS_MAREQUEST = ie_bits e AND IE_BITS_MAREQUEST"
    using b(1,3) b(2) [OF high_masks(2)] b(2) [OF high_masks(3)] b(2) [OF high_masks(4)]
    by (simp_all add: sender_def TYPE_or t bit.conj_disj_distrib2) (simp_all add: mask_values type_values)
qed (simp_all add: sender_def)

lemma sender_type:
  assumes "IE_BITS_UREFS (ie_bits e) < MACH_PORT_UREFS_MAX"
  shows "ie_type e = MACH_PORT_TYPE_SEND \<Longrightarrow> ie_type (sender e) = MACH_PORT_TYPE_SEND"
    and "ie_type e \<in> receive_types \<Longrightarrow> ie_type (sender e) = MACH_PORT_TYPE_SEND_RECEIVE"
  using sender_sel(1) [OF assms] by (auto simp: receive_types_def type_values)

lemma put_rule:
  assumes m: "models its st v" and e: "rv_entries v n = Some e" and ptr: "ptr = ptr_of (rs_space st) n"
    and f: "\<And>i. f (e\<lparr>ie_index := i\<rparr>) = (f e)\<lparr>ie_index := i\<rparr>" "ie_bits (f e) AND IE_BITS_COLLISION = 0"
      "ie_object (f e) = ie_object e" "ie_type (f e) \<noteq> MACH_PORT_TYPE_NONE"
      "ie_type (f e) = MACH_PORT_TYPE_SEND \<longleftrightarrow> ie_type e = MACH_PORT_TYPE_SEND"
  shows "returns (upd_entry st ptr f) (\<lambda>st'. models its st' (put_entry n (f e) v) \<and> kept st st')"
proof (rule upd_rule [OF modelsD(1) [OF m] e ptr f(1,2)])
  fix st' assume st': "rep its st' {} ((rv_entries v)(n \<mapsto> f e)) (sends (rv_entries v))" and fr: "frame st st'"
  have "sends ((rv_entries v)(n \<mapsto> f e)) = sends (rv_entries v)" using e f(5) by (auto simp: sends_def)
  then show "models its st' (put_entry n (f e) v) \<and> kept st st'"
    using models_update [OF _ keptI(2) [OF fr] m, of "put_entry n (f e) v"] st' frameD(1) [OF fr] modelsD(2) [OF m] keptI(2) [OF fr]
    by simp
qed (use f in \<open>auto simp: type_values\<close>)

lemma put_map_port: "map_port p g (put_entry n e v) = put_entry n e (map_port p g v)"
  by (simp add: view_defs)

lemma spare_send:
  assumes "live_at sizes v n e port" and "1 \<le> outside_sends v (ie_object e)"
  shows "0 < ip_srights port" and "ie_type e \<in> send_types \<Longrightarrow> 1 < ip_srights port"
proof -
  note l = live_atD(1,2) [OF assms(1)]
  have "0 < names_of send_types (rv_entries v) (ie_object e)" if "ie_type e \<in> send_types"
    using names_of_split [of send_types "rv_entries v" "ie_object e" n] l that by simp
  then show "0 < ip_srights port" and "ie_type e \<in> send_types \<Longrightarrow> 1 < ip_srights port"
    using assms(2) l by (simp_all add: outside_def word_less_def)
qed

lemma merge_rule:
  assumes m: "models its st v" and live: "live_at sizes v n e port" and ptr: "ptr = ptr_of (rs_space st) n"
    and t: "ie_type e \<in> named_types" and u: "IE_BITS_UREFS (ie_bits e) < MACH_PORT_UREFS_MAX" and lk: "locked (rv_ports v) = {}"
  shows "returns (upd_entry (st\<lparr>rs_ports := (rv_ports v)\<lparr>ports := (ports (rv_ports v))(ie_object e \<mapsto> g port)\<rparr>\<rparr>) ptr
      (\<lambda>x. x\<lparr>ie_bits := (ie_bits e OR MACH_PORT_TYPE_SEND) + 1\<rparr>))
    (\<lambda>st'. achieves its st (KERN_SUCCESS, map_port (ie_object e) g (put_entry n (sender e) v)) (KERN_SUCCESS, st'))"
proof -
  note l = live_atD [OF live] and s = sender_sel [OF u] sender_type [OF u]
  let ?f = "\<lambda>x. x\<lparr>ie_bits := (ie_bits e OR MACH_PORT_TYPE_SEND) + 1\<rparr>"
  note m' = map_port_models [OF m l(2) refl, of g]
  have f: "?f e = sender e" "\<And>i. ?f (e\<lparr>ie_index := i\<rparr>) = (sender e)\<lparr>ie_index := i\<rparr>" by (simp_all add: sender_def)
  have "returns (upd_entry (st\<lparr>rs_ports := (rv_ports v)\<lparr>ports := (ports (rv_ports v))(ie_object e \<mapsto> g port)\<rparr>\<rparr>) ptr ?f)
    (\<lambda>st'. models its st' (put_entry n (?f e) (map_port (ie_object e) g v)) \<and>
      kept (st\<lparr>rs_ports := (rv_ports v)\<lparr>ports := (ports (rv_ports v))(ie_object e \<mapsto> g port)\<rparr>\<rparr>) st')"
    by (rule put_rule [OF m']) (use l(1) ptr t s rep_in_use [OF modelsD(1) [OF m] l(1)] in
      \<open>auto simp: f receive_types_def\<close>)
  then show ?thesis
    by (rule returns_mono) (auto simp: f put_map_port kept_def frame_def intro!: achievesI)
qed

lemma more_rule:
  assumes m: "models its st v" and ok: "view_ok sizes v" and live: "live_at sizes v n e port" and ptr: "ptr = ptr_of (rs_space st) n"
    and t: "ie_type e \<in> named_types" and out: "1 \<le> outside_sends v (ie_object e)" and p: "p = ie_object e"
  shows "returns (copyout_send (at_port st v p port) n ptr (ie_bits e) ovf p port) (achieves its st (more_send ovf n e v))"
proof -
  note l = live_atD [OF live] and lk = view_okD(2) [OF ok] and sp = spare_send [OF live out] and pe = port_entryD [OF l(6)]
  have u: "IE_BITS_UREFS (ie_bits e) < MACH_PORT_UREFS_MAX" using t pe by (auto simp: receive_types_def urefs_max)
  note mr = merge_rule [OF m live ptr t u lk]
  show ?thesis
  proof (cases "ie_type e = MACH_PORT_TYPE_RECEIVE")
    case True
    note tests = receive_tests [OF True]
    show ?thesis
      using mr [of less_ref] True tests pe sp l lk p
      by (simp add: copyout_send_def more_send_def right_step unlocked less_ref_def)
  next
    case False
    then have s: "ie_type e \<in> send_types" using t by (auto simp: type_sets)
    then have h: "has (ie_bits e) MACH_PORT_TYPE_SEND" "0 < IE_BITS_UREFS (ie_bits e)"
      using send_tests [of e] send_receive_tests [of e] pe by (auto simp: send_types_def)
    have over: "returns (unlock_port (at_port st v p port) p) (\<lambda>st'. achieves its st (KERN_UREFS_OVERFLOW, v) (KERN_UREFS_OVERFLOW, st'))"
      using unlock_live [OF m ok live] p by (auto intro: achievesI)
    have same: "achieves its st (KERN_SUCCESS, map_port p merge_send v) (KERN_SUCCESS,
        st\<lparr>rs_ports := (rv_ports v)\<lparr>ports := (ports (rv_ports v))(p \<mapsto> merge_send port)\<rparr>\<rparr>)"
      by (rule achievesI [OF map_port_models [OF m]]) (use l p in simp_all)
    show ?thesis
      using mr [of merge_send] over same h s sp u False l lk p
      by (simp add: copyout_send_def more_send_def Let_def right_step unlocked merge_send_def)
  qed
qed

subsection \<open>A new name\<close>

definition blank :: ipc_entry where
  "blank = \<lparr>ie_bits = 0, ie_object = IO_NULL, ie_request = 0, ie_index = 0\<rparr>"

definition new_entry :: "u32 \<Rightarrow> ptr \<Rightarrow> ipc_entry" where
  "new_entry t p = \<lparr>ie_bits = t OR 1, ie_object = p, ie_request = 0, ie_index = 0\<rparr>"

lemma reserve_rep:
  assumes m: "models its st v" and r: "reserves its (rs_space st) {} space n"
  shows "rep its (st\<lparr>rs_space := space\<rparr>) {n} ((rv_entries v)(n \<mapsto> blank)) (sends (rv_entries v))"
    and "frame st (st\<lparr>rs_space := space\<rparr>)" and "rv_entries v n = None" and "MACH_PORT_VALID n"
proof -
  note inv = rep_space_inv [OF modelsD(1) [OF m]]
  note al = allocates_reserves [OF conjunct1 [OF inv] r refl refl refl]
  obtain e where e: "raw_entry space n = Some e" "ie_bits e = 0" "ie_object e = IO_NULL" "ie_request e = 0"
    using r by (auto simp: reserves_def fresh_entry_def)
  show v: "MACH_PORT_VALID n" "rv_entries v n = None" using r inv by (simp_all add: reserves_def)
  show "frame st (st\<lparr>rs_space := space\<rparr>)" using r by (simp add: reserves_def same_index_frame)
  have ents: "entries space = rv_entries v" using al inv by (simp add: allocates_def)
  have "rview space {n} k = ((rv_entries v)(n \<mapsto> blank)) k" for k
    using e rview_entries [of k "{n}" space] ents by (cases "k = n") (auto simp: rview_def blank_def)
  then have "rview space {n} = (rv_entries v)(n \<mapsto> blank)" by (rule ext)
  moreover have "n \<noteq> 0" using v(1) by (auto simp: MACH_PORT_VALID_def MACH_PORT_NULL_def)
  ultimately show "rep its (st\<lparr>rs_space := space\<rparr>) {n} ((rv_entries v)(n \<mapsto> blank)) (sends (rv_entries v))"
    using al ents by (auto simp: rep_def allocates_def send_names_sends)
qed

lemma new_entry_sel:
  assumes "t \<in> {MACH_PORT_TYPE_SEND, MACH_PORT_TYPE_SEND_ONCE}"
  shows "ie_type (new_entry t p) = t" "IE_BITS_UREFS (ie_bits (new_entry t p)) = 1" "ie_bits (new_entry t p) AND IE_BITS_COLLISION = 0"
    "ie_bits (new_entry t p) AND IE_BITS_COMPAT = 0" "ie_bits (new_entry t p) AND IE_BITS_MAREQUEST = 0"
    "ie_object (new_entry t p) = p" "ie_request (new_entry t p) = 0"
  using assms by (auto simp: new_entry_def IE_BITS_TYPE_def IE_BITS_UREFS_def mask_values type_values)

lemma fill_rule:
  assumes rep: "rep its st {n} (E(n \<mapsto> blank\<lparr>ie_object := p\<rparr>)) H" and ptr: "ptr = ptr_of (rs_space st) n"
    and t: "t \<in> {MACH_PORT_TYPE_SEND, MACH_PORT_TYPE_SEND_ONCE}" and b: "b = t OR 1" and n: "E n = None"
    and H: "H = (if t = MACH_PORT_TYPE_SEND then insert n (sends E) else sends E)"
  shows "returns (upd_entry st ptr (\<lambda>e. e\<lparr>ie_bits := b\<rparr>))
    (\<lambda>st'. rep its st' {} (E(n \<mapsto> new_entry t p)) (sends (E(n \<mapsto> new_entry t p))) \<and> frame st st')"
proof -
  note s = new_entry_sel [OF t, of p]
  let ?f = "\<lambda>e. e\<lparr>ie_bits := b\<rparr> :: ipc_entry" and ?e = "blank\<lparr>ie_object := p\<rparr>"
  have f: "?f ?e = new_entry t p" "\<And>i. ?f (?e\<lparr>ie_index := i\<rparr>) = (new_entry t p)\<lparr>ie_index := i\<rparr>"
    by (simp_all add: blank_def new_entry_def b)
  have H': "H = sends (E(n \<mapsto> new_entry t p))" using H n s(1) by (auto simp: sends_def)
  show ?thesis
  proof (rule upd_reserved_rule [OF rep, of n ?e])
    fix st' assume st': "rep its st' {n} ((E(n \<mapsto> ?e))(n \<mapsto> ?f ?e)) H" "frame st st'"
    then show "rep its st' {} (E(n \<mapsto> new_entry t p)) (sends (E(n \<mapsto> new_entry t p))) \<and> frame st st'"
      using rep_release [of its st' "{n}" "E(n \<mapsto> new_entry t p)" H n "new_entry t p"] s(1) t H' f(1) by (auto simp: type_values)
  qed (simp_all add: ptr f s)
qed

lemma enter_rule:
  assumes rep: "rep its st {n} (E(n \<mapsto> blank\<lparr>ie_object := p\<rparr>)) (sends E)" and ptr: "ptr = ptr_of (rs_space st) n"
    and n: "E n = None" and p: "IO_VALID p" and no: "\<And>k. \<not> denotes named_types p (E k)"
  shows "returns (right_hash_insert st p n ptr) (\<lambda>st'. returns (upd_entry st' ptr (\<lambda>e. e\<lparr>ie_bits := (0 OR MACH_PORT_TYPE_SEND) + 1\<rparr>))
    (\<lambda>st'. rep its st' {} (E(n \<mapsto> new_entry MACH_PORT_TYPE_SEND p)) (sends (E(n \<mapsto> new_entry MACH_PORT_TYPE_SEND p))) \<and> frame st st'))"
proof -
  let ?e = "blank\<lparr>ie_object := p\<rparr>" and ?f = "\<lambda>e. e\<lparr>ie_bits := (0 OR MACH_PORT_TYPE_SEND) + 1\<rparr> :: ipc_entry"
  let ?E = "E(n \<mapsto> new_entry MACH_PORT_TYPE_SEND p)"
  have new: "ie_object e' \<noteq> p" if "k \<in> sends E" "(E(n \<mapsto> ?e)) k = Some e'" for k e'
    using no [of k] n that by (auto simp: sends_def split: if_splits)
  show ?thesis
  proof (rule hash_insert_rule [OF rep _ ptr, of ?e])
    fix st' assume st': "rep its st' {n} (E(n \<mapsto> ?e)) (insert n (sends E))" "frame st st'"
    have "returns (upd_entry st' ptr ?f) (\<lambda>st''. rep its st'' {} ?E (sends ?E) \<and> frame st' st'')"
      by (rule fill_rule [OF st'(1)]) (use ptr frameD(4) [OF st'(2)] n in \<open>simp_all add: type_values\<close>)
    then show "returns (upd_entry st' ptr ?f) (\<lambda>st''. rep its st'' {} ?E (sends ?E) \<and> frame st st'')"
      by (rule returns_mono) (use frame_trans [OF st'(2)] in auto)
  qed (use n p new in \<open>auto simp: IO_VALID_def blank_def sends_def\<close>)
qed

text \<open>The entry that was claimed for the port \<open>p\<close>, which is locked.\<close>

definition claimed :: "nat list \<Rightarrow> right_state \<Rightarrow> rights_view \<Rightarrow> mach_port \<Rightarrow> ptr \<Rightarrow> ipc_port \<Rightarrow> right_state \<Rightarrow> bool" where
  "claimed its st v n p port st' \<longleftrightarrow>
     rep its st' {n} ((rv_entries v)(n \<mapsto> blank\<lparr>ie_object := p\<rparr>)) (sends (rv_entries v)) \<and> frame (at_port st v p port) st' \<and>
     rv_entries v n = None"

lemma new_rule:
  assumes m: "models its st v" and ok: "view_ok sizes v" and cl: "claimed its st v n p port st1" and ptr: "ptr = ptr_of (rs_space st) n"
    and port: "ports (rv_ports v) p = Some port" "ip_active port" "IO_VALID p"
    and send: "msgt = MACH_MSG_TYPE_MOVE_SEND \<Longrightarrow>
      t = MACH_PORT_TYPE_SEND \<and> 0 < ip_srights port \<and> (\<forall>k. \<not> denotes named_types p (rv_entries v k))"
    and once: "msgt = MACH_MSG_TYPE_MOVE_SEND_ONCE \<Longrightarrow> t = MACH_PORT_TYPE_SEND_ONCE \<and> 0 < ip_sorights port"
    and msgt: "msgt = MACH_MSG_TYPE_MOVE_SEND \<or> msgt = MACH_MSG_TYPE_MOVE_SEND_ONCE"
  shows "returns (copyout_finish st1 p msgt ovf n ptr) (achieves its st (Inr n, put_entry n (new_entry t p) v))"
proof -
  let ?E = "rv_entries v" and ?e = "blank\<lparr>ie_object := p\<rparr>" and ?st = "st1\<lparr>rs_ports := rv_ports v\<rparr>"
  have rep1: "rep its st1 {n} (?E(n \<mapsto> ?e)) (sends ?E)" and fr: "frame (at_port st v p port) st1" and none: "?E n = None"
    using cl by (simp_all add: claimed_def)
  note lk = view_okD(2) [OF ok]
  have ports: "rs_ports st1 = (rv_ports v)\<lparr>ports := (ports (rv_ports v))(p \<mapsto> port), locked := {p}\<rparr>" using frameD(1) [OF fr] by simp
  then have un: "unlock_port st1 p = Some ?st" using port lk by (simp add: unlock_port_step unlocked fun_upd_idem)
  have rep: "rep its ?st {n} (?E(n \<mapsto> ?e)) (sends ?E)" using rep1 by simp
  have ptr1: "ptr = ptr_of (rs_space st1) n" "ptr = ptr_of (rs_space ?st) n" using ptr frameD(4) [OF fr] by simp_all
  have k: "kept st ?st" using fr by (simp add: kept_def frame_def)
  have fin: "achieves its st (r, put_entry n e v) (r, st')"
    if "rep its st' {} (?E(n \<mapsto> e)) (sends (?E(n \<mapsto> e)))" "frame ?st st'" for e st' r
  proof -
    have k': "kept st st'" by (rule kept_trans [OF k keptI(2) [OF that(2)]])
    show ?thesis
      by (rule achievesI [OF models_update [OF _ k' m] k']) (use that frameD(1) [OF that(2)] in simp_all)
  qed
  have ep: "ie_object ?e = p" "ie_bits ?e = 0" by (simp_all add: blank_def)
  have zero: "IE_BITS_TYPE 0 = MACH_PORT_TYPE_NONE" "IE_BITS_UREFS 0 = 0"
    by (simp_all add: IE_BITS_TYPE_def IE_BITS_UREFS_def MACH_PORT_TYPE_NONE_def)
  have start: "entry_at st1 ptr = Some x \<Longrightarrow> ie_object x = p \<Longrightarrow> ie_bits x = 0 \<Longrightarrow> ?thesis" for x
  proof -
    assume x: "entry_at st1 ptr = Some x" "ie_object x = p" "ie_bits x = 0"
    show ?thesis
    proof (cases "msgt = MACH_MSG_TYPE_MOVE_SEND")
      case True
      have t: "t = MACH_PORT_TYPE_SEND" and s0: "0 < ip_srights port" and no: "\<And>k. \<not> denotes named_types p (?E k)"
        using send [OF True] by auto
      have "returns (right_hash_insert ?st p n ptr) (\<lambda>st'. returns (upd_entry st' ptr (\<lambda>e. e\<lparr>ie_bits := (0 OR MACH_PORT_TYPE_SEND) + 1\<rparr>))
        (\<lambda>st'. achieves its st (Inr n, put_entry n (new_entry t p) v) (Inr n, st')))"
        using enter_rule [OF rep ptr1(2) none port(3) no] unfolding t by (auto intro: fin elim!: returns_mono)
      then show ?thesis
        using True x port ports zero s0 un
        by (simp add: copyout_finish_def ipc_right_copyout_def port_at_def copyout_send_def)
    next
      case False
      then have o: "msgt = MACH_MSG_TYPE_MOVE_SEND_ONCE" using msgt by simp
      then have t: "t = MACH_PORT_TYPE_SEND_ONCE" and s0: "0 < ip_sorights port" using once by auto
      have "returns (upd_entry ?st ptr (\<lambda>e. e\<lparr>ie_bits := 0 OR (MACH_PORT_TYPE_SEND_ONCE OR 1)\<rparr>))
          (\<lambda>st'. rep its st' {} (?E(n \<mapsto> new_entry t p)) (sends (?E(n \<mapsto> new_entry t p))) \<and> frame ?st st')"
        by (rule fill_rule [OF rep ptr1(2)]) (use none t in simp_all)
      then have "returns (upd_entry ?st ptr (\<lambda>e. e\<lparr>ie_bits := 0 OR (MACH_PORT_TYPE_SEND_ONCE OR 1)\<rparr>))
          (\<lambda>st'. achieves its st (Inr n, put_entry n (new_entry t p) v) (Inr n, st'))"
        by (rule returns_mono) (auto intro!: fin)
      then show ?thesis
        using o x port ports zero s0 un by (simp add: copyout_finish_def ipc_right_copyout_def port_at_def)
    qed
  qed
  show ?thesis using rep_entry [OF rep1, of n ?e] ptr1(1) start ep by auto
qed

lemma claim_rule:
  assumes m: "models its st v" and ok: "view_ok sizes v" and r: "reserves its (rs_space st) {} space n"
    and ptr: "ptr = ptr_of space n" and port: "ports (rv_ports v) p = Some port"
  shows "returns (claim_entry its (st\<lparr>rs_space := space\<rparr>) p n ptr (put_object p n ptr))
    (\<lambda>(r, st'). if ip_active port then r = Some (Inr (n, ptr)) \<and> claimed its st v n p port st'
       else r = Some (Inl KERN_INVALID_CAPABILITY) \<and> models its st' v \<and> kept st st')"
proof -
  note rr = reserve_rep [OF m r] and lk = view_okD(2) [OF ok]
  let ?E = "rv_entries v" and ?st = "st\<lparr>rs_space := space\<rparr>"
  have ptr': "ptr = ptr_of (rs_space ?st) n" using ptr by simp
  have ps: "rs_ports st = rv_ports v" by (rule modelsD(2) [OF m])
  have lock: "lock_port ?st p = Some (at_port ?st v p port)" using lk port ps by (simp add: lock_port_step at_port_same)
  have un: "unlock_port (at_port ?st v p port) p = Some (?st\<lparr>rs_ports := rv_ports v\<rparr>)"
    using port lk by (simp add: unlock_port_step unlocked fun_upd_idem)
  have self: "?st\<lparr>rs_ports := rv_ports v\<rparr> = ?st" using ps by (cases st) simp
  have free: "returns (free_entry its ?st n ptr) (\<lambda>st'. models its st' v \<and> kept st st')"
  proof (rule free_entry_rule [OF rr(1) _ ptr'])
    fix st' assume st': "rep its st' {} ((?E(n \<mapsto> blank))(n := None)) (sends ?E)" "frame ?st st'"
    have k: "kept st st'" by (rule kept_trans [OF keptI(2) [OF rr(2)] keptI(2) [OF st'(2)]])
    show "models its st' v \<and> kept st st'"
      using models_update [OF _ k m, of v] st'(1) rr(3) frameD(1) [OF st'(2)] ps k by (simp add: fun_upd_idem)
  qed (use sends_dom [of ?E] in \<open>auto simp: blank_def\<close>)
  have put: "returns (upd_entry (at_port ?st v p port) ptr (\<lambda>e. e\<lparr>ie_object := p\<rparr>)) (claimed its st v n p port)"
  proof (rule upd_reserved_rule [where its = its and R = "{n}" and E = "?E(n \<mapsto> blank)" and H = "sends ?E" and e = blank and n = n])
    fix st' assume st': "rep its st' {n} (?E(n \<mapsto> blank, n \<mapsto> blank\<lparr>ie_object := p\<rparr>)) (sends ?E)" "frame (at_port ?st v p port) st'"
    have "frame (at_port st v p port) st'" using frame_trans [OF frame_ports [OF rr(2)] st'(2)] by simp
    then show "claimed its st v n p port st'" using st'(1) rr(3) by (simp add: claimed_def)
  qed (use rr ptr in \<open>auto simp: blank_def sends_def\<close>)
  show ?thesis
    unfolding claim_entry_def returns_bind
    by (rule entry_at_rule [OF rr(1) _ ptr', of blank])
      (use lock un self free put port in \<open>auto simp: blank_def IE_BITS_TYPE_def MACH_PORT_TYPE_NONE_def port_at_def put_object_def\<close>)
qed

subsection \<open>The loop\<close>

text \<open>
  A right of \<open>p\<close> outside of the space, with its reference. A live port whose receive right is elsewhere has
  another reference for it.
\<close>

definition carried :: "msgt_name \<Rightarrow> ptr \<Rightarrow> rights_view \<Rightarrow> bool" where
  "carried msgt p v \<longleftrightarrow>
     (case ports (rv_ports v) p of
        None \<Rightarrow> False
      | Some port \<Rightarrow>
          1 \<le> outside_refs v p \<and>
          (ip_active port \<longrightarrow>
             1 \<le> (if msgt = MACH_MSG_TYPE_MOVE_SEND then outside_sends v p else outside_onces v p) \<and>
             (ip_data port \<noteq> rv_self v \<longrightarrow> 2 \<le> outside_refs v p)))"

definition copied_out ::
    "world \<Rightarrow> msgt_name \<Rightarrow> bool \<Rightarrow> ptr \<Rightarrow> rights_view \<Rightarrow> (kern_return + mach_port) \<Rightarrow> rights_view \<Rightarrow> bool" where
  "copied_out w msgt ovf p v r v' \<longleftrightarrow>
     (if live v p \<and> msgt = MACH_MSG_TYPE_MOVE_SEND \<and> (\<exists>n. denotes named_types p (rv_entries v n)) then
        \<exists>n e kr. rv_entries v n = Some e \<and> denotes named_types p (Some e) \<and> more_send ovf n e v = (kr, v') \<and>
          r = (if kr = KERN_SUCCESS then Inr n else Inl kr)
      else
        case r of
          Inr n \<Rightarrow>
            live v p \<and> MACH_PORT_VALID n \<and> rv_entries v n = None \<and>
            v' = put_entry n
              (new_entry (if msgt = MACH_MSG_TYPE_MOVE_SEND then MACH_PORT_TYPE_SEND else MACH_PORT_TYPE_SEND_ONCE) p) v
        | Inl kr \<Rightarrow>
            v' = v \<and> (kr = KERN_INVALID_CAPABILITY \<and> \<not> live v p \<or> kr = KERN_RESOURCE_SHORTAGE \<and> (\<exists>k. \<not> w_mem w k)))"

text \<open>Other spaces do not notice.\<close>

definition apart :: "right_state \<Rightarrow> right_state \<Rightarrow> bool" where
  "apart st st' \<longleftrightarrow> rs_self st' = rs_self st \<and> other_refs (rs_space st) (rs_hash st') = other_refs (rs_space st) (rs_hash st)"

lemma kept_apart: "kept st st' \<Longrightarrow> apart st st'"
  by (simp add: kept_def frame_def apart_def)

lemma apart_trans: "apart st st' \<Longrightarrow> apart st' st'' \<Longrightarrow> apart st st''"
  by (simp add: apart_def)

lemma ptr_of_size:
  assumes "ptr_of s' = ptr_of s" and "is_table_size s < 2 ^ 32" and "is_table_size s' < 2 ^ 32"
  shows "is_table_size s' = is_table_size s"
proof -
  have "\<not> is_table_size a < is_table_size b" if "ptr_of a = ptr_of b" "is_table_size b < 2 ^ 32" for a b
  proof
    assume l: "is_table_size a < is_table_size b"
    then have "unat (of_nat (is_table_size a) :: mach_port) = is_table_size a" using that(2) by (simp add: unat_of_nat take_bit_nat_eq_self)
    then show False using fun_cong [OF that(1), of "of_nat (is_table_size a)"] l by (simp add: ptr_of_def)
  qed
  from this [of s s'] this [of s' s] assms show ?thesis by simp
qed

lemma rep_size: "rep its st R E H \<Longrightarrow> is_table_size (rs_space st) < 2 ^ 32"
  using space_okD(2) [of its "rs_space st" R] by (simp add: rep_def table_ok_def)

lemma kept_size: "models its st v \<Longrightarrow> models its st' v' \<Longrightarrow> kept st st' \<Longrightarrow> is_table_size (rs_space st') = is_table_size (rs_space st)"
  by (rule ptr_of_size [OF kept_ptr(1)], assumption) (rule rep_size [OF modelsD(1)], assumption)+

lemma next_size:
  assumes ok: "space_ok its s {}" and ok': "space_ok its s' {}" and l: "is_table_next s < is_table_next s'"
  shows "is_table_size s < is_table_size s'"
proof -
  have "its_ok its" and n: "0 < is_table_next s" "is_table_next s' < length its" using ok ok' by (auto simp: space_ok_def)
  from its_nth_less [OF this(1), of "is_table_next s - 1" "is_table_next s' - 1"] l n ok ok' show ?thesis
    by (simp add: space_ok_def)
qed

lemma reverse_for_rule:
  assumes m: "models its st v" and ok: "view_ok sizes v" and port: "ports (rv_ports v) p = Some port" and p: "IO_VALID p"
  shows "returns (reverse_for st p msgt) (\<lambda>res. (msgt = MACH_MSG_TYPE_MOVE_SEND \<longrightarrow> reversed its st v p res) \<and>
    (msgt = MACH_MSG_TYPE_MOVE_SEND_ONCE \<longrightarrow> res = (None, st)))"
  using returns_mono [OF reverse_rule [OF assms], of "\<lambda>res. (msgt = MACH_MSG_TYPE_MOVE_SEND \<longrightarrow> reversed its st v p res)"]
  by (cases "msgt = MACH_MSG_TYPE_MOVE_SEND_ONCE") (simp_all add: reverse_for_def)

text \<open>What a copyout leaves behind.\<close>

definition delivers :: "nat list \<Rightarrow> right_state \<Rightarrow> (kern_return + mach_port \<Rightarrow> rights_view \<Rightarrow> bool) \<Rightarrow> (kern_return + mach_port) \<times> right_state \<Rightarrow> bool" where
  "delivers its st spec res \<longleftrightarrow> (\<exists>v'. spec (fst res) v' \<and> models its (snd res) v') \<and> apart st (snd res)"

lemma found_rule:
  assumes m: "models its st0 v" and ok: "view_ok sizes v" and c: "carried MACH_MSG_TYPE_MOVE_SEND p v" and p: "IO_VALID p"
    and n: "live v p" "denotes named_types p (rv_entries v n)" and ptr: "ptr = ptr_of (rs_space st0) n"
  shows "returns (entry_at (at_port st0 v p (the_port v p)) ptr) (\<lambda>entry. has (ie_bits entry) MACH_PORT_TYPE_SEND_RECEIVE)"
    and "returns (copyout_finish (at_port st0 v p (the_port v p)) p MACH_MSG_TYPE_MOVE_SEND ovf n ptr)
      (delivers its st0 (copied_out w MACH_MSG_TYPE_MOVE_SEND ovf p v))"
proof -
  obtain e where e: "rv_entries v n = Some e" "ie_object e = p" "ie_type e \<in> named_types"
    using n(2) by (auto simp: denotes_def split: option.splits)
  have t: "ie_type e \<in> port_types" "\<not> dies e v" using e n(1) by (auto simp: dies_def type_sets)
  obtain port where live: "live_at sizes v n e port" using live_atE [OF ok e(1) t] by blast
  note l = live_atD [OF live]
  have port: "the_port v p = port" using l(2) e(2) by (simp add: the_port_def)
  have rep: "rep its (at_port st0 v p port) {} (rv_entries v) (sends (rv_entries v))" using modelsD(1) [OF m] by simp
  have out: "1 \<le> outside_sends v (ie_object e)" using c l(2,3) e(2) by (simp add: carried_def)
  have h: "has (ie_bits e) MACH_PORT_TYPE_SEND_RECEIVE"
    using e(3) send_tests [of e] receive_tests [of e] send_receive_tests [of e] by (auto simp: receive_types_def)
  show "returns (entry_at (at_port st0 v p (the_port v p)) ptr) (\<lambda>entry. has (ie_bits entry) MACH_PORT_TYPE_SEND_RECEIVE)"
    unfolding port by (rule entry_at_rule [OF rep e(1)]) (use ptr h in simp_all)
  obtain kr v' where spec: "more_send ovf n e v = (kr, v')" by fastforce
  have co: "copied_out w MACH_MSG_TYPE_MOVE_SEND ovf p v (if kr = KERN_SUCCESS then Inr n else Inl kr) v'"
  proof -
    have ex: "\<exists>n. denotes named_types p (rv_entries v n)" using n(2) by blast
    have "\<exists>n e kr'. rv_entries v n = Some e \<and> denotes named_types p (Some e) \<and> more_send ovf n e v = (kr', v') \<and>
        (if kr = KERN_SUCCESS then Inr n' else Inl kr) = (if kr' = KERN_SUCCESS then Inr n else Inl kr')" if "n' = n" for n'
      by (rule exI [of _ n], rule exI [of _ e], rule exI [of _ kr]) (use e spec that in simp)
    then show ?thesis unfolding copied_out_def using n(1) ex by simp
  qed
  have "returns (entry_at (at_port st0 v p port) ptr) (\<lambda>x. ie_object x = p \<and>
      returns (copyout_send (at_port st0 v p port) n ptr (ie_bits x) ovf p port) (achieves its st0 (kr, v')))"
    by (rule entry_at_rule [OF rep e(1)]) (use ptr e more_rule [OF m ok live ptr e(3) out, of p ovf] spec in simp_all)
  then show "returns (copyout_finish (at_port st0 v p (the_port v p)) p MACH_MSG_TYPE_MOVE_SEND ovf n ptr)
      (delivers its st0 (copied_out w MACH_MSG_TYPE_MOVE_SEND ovf p v))"
    unfolding port copyout_finish_def ipc_right_copyout_def
    using p l(2,3) e(2) co
    by (auto simp: port_at_def Let_def achieves_def delivers_def kept_apart intro!: exI [of _ v'] elim!: returns_mono)
qed

text \<open>Worlds in which nobody else touches the space or its ports while its lock is dropped.\<close>

definition calm :: "nat list \<Rightarrow> object_world \<Rightarrow> bool" where
  "calm its w \<longleftrightarrow> ow_its w = its \<and> quiet (ow_space w) \<and> (\<forall>n ps. ow_ports w n ps = ps)"

definition has_room :: "nat list \<Rightarrow> rights_view \<Rightarrow> bool" where
  "has_room its v \<longleftrightarrow> card (dom (rv_entries v)) < its ! (length its - 1) - 1"

lemma get_cases:
  assumes m: "models its st v" and w: "calm its w" and room: "has_room its v"
  shows "(\<exists>n space. ipc_entry_get (rs_space st) = Some (Inr (n, ptr_of space n), space) \<and> reserves its (rs_space st) {} space n) \<or>
    ipc_entry_get (rs_space st) = Some (Inl KERN_NO_SPACE, rs_space st) \<and>
    (\<exists>kr st' k'. grow_entries w k st = Some (kr, st', k') \<and> models its st' v \<and> apart st st' \<and>
       (kr = KERN_SUCCESS \<and> is_table_size (rs_space st) < is_table_size (rs_space st') \<or>
        kr = KERN_RESOURCE_SHORTAGE \<and> (\<exists>k. \<not> w_mem (ow_space w) k)))"
proof -
  note rep = modelsD(1) [OF m]
  have ok: "space_ok its (rs_space st) {}" and act: "is_active (rs_space st)" using rep by (simp_all add: rep_def)
  have inv: "space_inv its (rs_space st) (rs_hash st)" and ents: "entries (rs_space st) = rv_entries v"
    using rep_space_inv [OF rep] by simp_all
  show ?thesis
  proof (cases "free_set (is_table (rs_space st)) {} = {}")
    case False
    then show ?thesis using entry_get_reserves [OF ok act] by auto
  next
    case True
    have get: "ipc_entry_get (rs_space st) = Some (Inl KERN_NO_SPACE, rs_space st)"
      using entry_get_empty [of "rs_space st" "{}"] space_okD(2) [OF ok] act True by simp
    have "Suc (is_table_next (rs_space st)) < length its"
      by (rule not_at_max [OF ok True]) (use room ents in \<open>simp_all add: has_room_def\<close>)
    then obtain kr s' g' k' where gt: "ipc_entry_grow_table its (ow_space w) k (rs_space st, rs_hash st) = Some (kr, (s', g'), k')"
        and s': "space_inv its s' g'" "entries s' = entries (rs_space st)" "is_self s' = rs_self st"
          "other_refs (rs_space st) g' = other_refs (rs_space st) (rs_hash st)"
        and kr: "kr = KERN_SUCCESS \<and> is_table_next (rs_space st) < is_table_next s' \<or>
          kr = KERN_RESOURCE_SHORTAGE \<and> (\<exists>k. \<not> w_mem (ow_space w) k)"
      using quiet_grow_table [of "ow_space w" its "rs_space st" "rs_hash st" k] w inv unfolding calm_def by blast
    let ?st = "st\<lparr>rs_space := s', rs_hash := g'\<rparr>"
    have "models its ?st v"
      using s' ents modelsD [OF m] space_inv_rep [of its ?st] by (simp add: models_def)
    moreover have "grow_entries w k st = Some (kr, ?st, k')"
      using gt w by (simp add: grow_entries_def calm_def with_space_def meanwhile_def)
    moreover have "apart st ?st" using s' by (simp add: apart_def)
    moreover have "is_table_size (rs_space st) < is_table_size s'" if "is_table_next (rs_space st) < is_table_next s'"
      by (rule next_size [OF ok _ that]) (use s'(1) in \<open>simp add: space_inv_def\<close>)
    ultimately show ?thesis using get kr by auto
  qed
qed

lemma delivers_apart: "apart st st1 \<Longrightarrow> delivers its st1 spec res \<Longrightarrow> delivers its st spec res"
  using apart_trans by (auto simp: delivers_def)

definition copyout_types :: "msgt_name set" where
  "copyout_types = {MACH_MSG_TYPE_PORT_SEND, MACH_MSG_TYPE_PORT_SEND_ONCE}"

text \<open>The rest of the copyout once the entry has been reserved.\<close>

lemma reserved_rule:
  assumes m: "models its st v" and ok: "view_ok sizes v" and c: "carried msgt p v" and p: "IO_VALID p" and msgt: "msgt \<in> copyout_types"
    and none: "msgt = MACH_MSG_TYPE_MOVE_SEND \<Longrightarrow> live v p \<Longrightarrow> \<forall>k. \<not> denotes named_types p (rv_entries v k)"
    and r: "reserves its (rs_space st) {} space n" and ptr: "ptr = ptr_of space n" and ap: "apart st0 st"
  shows "returns (claim_entry its (st\<lparr>rs_space := space\<rparr>) p n ptr (put_object p n ptr)) (\<lambda>(r, st').
      case r of
        None \<Rightarrow> False
      | Some (Inl kr) \<Rightarrow> delivers its st0 (copied_out w msgt ovf p v) (Inl kr, st')
      | Some (Inr (n, ptr)) \<Rightarrow> returns (copyout_finish st' p msgt ovf n ptr) (delivers its st0 (copied_out w msgt ovf p v)))"
proof -
  obtain port where port: "ports (rv_ports v) p = Some port" using c by (auto simp: carried_def split: option.splits)
  let ?t = "if msgt = MACH_MSG_TYPE_MOVE_SEND then MACH_PORT_TYPE_SEND else MACH_PORT_TYPE_SEND_ONCE"
  have live: "live v p = ip_active port" using port by (simp add: live_def)
  have ptr': "ptr = ptr_of (rs_space st) n" using ptr frameD(4) [OF reserve_rep(2) [OF m r]] by simp
  have fin: "returns (copyout_finish st' p msgt ovf n ptr) (delivers its st0 (copied_out w msgt ovf p v))"
    if cl: "claimed its st v n p port st'" and act: "ip_active port" for st'
  proof -
    have co: "copied_out w msgt ovf p v (Inr n) (put_entry n (new_entry ?t p) v)"
      unfolding copied_out_def using act live none reserve_rep(3,4) [OF m r] by auto
    have "returns (copyout_finish st' p msgt ovf n ptr) (achieves its st (Inr n, put_entry n (new_entry ?t p) v))"
      by (rule new_rule [OF m ok cl ptr' port act p])
        (use none live act c port msgt in \<open>auto simp: carried_def copyout_types_def word_less_def outside_def\<close>)
    then show ?thesis
      by (rule returns_mono) (use co in \<open>auto simp: achieves_def delivers_def apart_trans [OF ap kept_apart] intro!: exI [of _ "put_entry n (new_entry ?t p) v"]\<close>)
  qed
  have dead: "delivers its st0 (copied_out w msgt ovf p v) (Inl KERN_INVALID_CAPABILITY, st')"
    if "models its st' v" "kept st st'" "\<not> ip_active port" for st'
    using that live apart_trans [OF ap kept_apart] by (auto simp: delivers_def copied_out_def intro!: exI [of _ v])
  show ?thesis
    by (rule returns_mono [OF claim_rule [OF m ok r ptr port]]) (use fin dead in \<open>auto split: if_splits\<close>)
qed

lemma copyout_refines:
  assumes ok: "view_ok sizes v" and c: "carried msgt p v" and p: "IO_VALID p" and msgt: "msgt \<in> copyout_types"
    and w: "calm its w" and room: "has_room its v"
  shows "models its st v \<Longrightarrow>
    returns (ipc_object_copyout w k st p msgt ovf) (delivers its st (copied_out (ow_space w) msgt ovf p v))"
proof (induction "2 ^ 32 - is_table_size (rs_space st)" arbitrary: st k rule: less_induct)
  case (less st)
  note m = less.prems
  let ?ok = "delivers its st (copied_out (ow_space w) msgt ovf p v)"
  obtain port where port: "ports (rv_ports v) p = Some port" using c by (auto simp: carried_def split: option.splits)
  have its: "ow_its w = its" using w by (simp add: calm_def)
  note act = rep_active [OF modelsD(1) [OF m]]
  obtain found st1 where rev: "reverse_for st p msgt = Some (found, st1)"
    and r: "msgt = MACH_MSG_TYPE_MOVE_SEND \<Longrightarrow> reversed its st v p (found, st1)"
      "msgt = MACH_MSG_TYPE_MOVE_SEND_ONCE \<Longrightarrow> found = None \<and> st1 = st"
    using reverse_for_rule [OF m ok port p, of msgt] by (auto simp: returns_def)
  show ?case
  proof (cases found)
    case (Some a)
    obtain n ptr where a: "a = (n, ptr)" by fastforce
    have send: "msgt = MACH_MSG_TYPE_MOVE_SEND" using r(2) Some msgt by (auto simp: copyout_types_def)
    then obtain st0 where st0: "live v p" "denotes named_types p (rv_entries v n)" "ptr = ptr_of (rs_space st) n"
        "models its st0 v" "kept st st0" "st1 = at_port st0 v p (the_port v p)"
      using r(1) Some a by (auto simp: reversed_def)
    have ptr: "ptr = ptr_of (rs_space st0) n" using st0(3) kept_ptr(1) [OF st0(5)] by simp
    note f = found_rule [OF st0(4) ok c [unfolded send] p st0(1,2) ptr]
    have "returns (copyout_finish st1 p msgt ovf n ptr) ?ok"
      unfolding st0(6) send by (rule returns_mono [OF f(2)]) (rule delivers_apart [OF kept_apart [OF st0(5)]])
    then show ?thesis
      unfolding ipc_object_copyout.simps [of w k] copyout_round_def
      using p act rev Some a f(1) st0(6) by (auto elim!: returns_mono)
  next
    case None
    have st1: "models its st1 v" "kept st st1"
      and no: "msgt = MACH_MSG_TYPE_MOVE_SEND \<Longrightarrow> live v p \<Longrightarrow> \<forall>k. \<not> denotes named_types p (rv_entries v k)"
      using r msgt None m by (auto simp: copyout_types_def reversed_def)
    note ap = kept_apart [OF st1(2)] and size = kept_size [OF m st1]
    consider (new) n space where "ipc_entry_get (rs_space st1) = Some (Inr (n, ptr_of space n), space)"
        "reserves its (rs_space st1) {} space n"
      | (grow) kr st2 k' where "ipc_entry_get (rs_space st1) = Some (Inl KERN_NO_SPACE, rs_space st1)"
          "grow_entries w k st1 = Some (kr, st2, k')" "models its st2 v" "apart st1 st2"
          "kr = KERN_SUCCESS \<and> is_table_size (rs_space st1) < is_table_size (rs_space st2) \<or>
           kr = KERN_RESOURCE_SHORTAGE \<and> (\<exists>k. \<not> w_mem (ow_space w) k)"
      using get_cases [OF st1(1) w room, of k] by blast
    then show ?thesis
    proof cases
      case new
      show ?thesis
        unfolding ipc_object_copyout.simps [of w k] copyout_round_def
        using p act rev None new its reserved_rule [OF st1(1) ok c p msgt no new(2) refl ap, of "ow_space w" ovf]
        by (auto elim!: returns_mono split: option.splits sum.splits)
    next
      case grow
      have st1': "st1\<lparr>rs_space := rs_space st1\<rparr> = st1" by (cases st1) simp
      have again: "returns (ipc_object_copyout w k' st2 p msgt ovf) ?ok" if "kr = KERN_SUCCESS"
      proof (rule returns_mono [OF less.hyps [OF _ grow(3)]])
        show "2 ^ 32 - is_table_size (rs_space st2) < 2 ^ 32 - is_table_size (rs_space st)"
          using grow(5) that size rep_size [OF modelsD(1) [OF grow(3)]] by auto
      qed (rule delivers_apart [OF apart_trans [OF ap grow(4)]])
      have "?ok (Inl kr, st2)" if "kr \<noteq> KERN_SUCCESS"
        using that grow(5) grow(3) apart_trans [OF ap grow(4)] no by (auto simp: delivers_def copied_out_def intro!: exI [of _ v])
      then show ?thesis
        unfolding ipc_object_copyout.simps [of w k] copyout_round_def
        using p act rev None grow(1,2) again st1' by simp
    qed
  qed
qed

subsection \<open>Conservation\<close>

lemma less_sel [simp]:
  "ip_bits (less_ref port) = ip_bits port" "ip_data (less_ref port) = ip_data port" "ip_receiver_name (less_ref port) = ip_receiver_name port"
  "ip_srights (less_ref port) = ip_srights port" "ip_sorights (less_ref port) = ip_sorights port"
  "ip_references (less_ref port) = ip_references port - 1" "port_requests (less_ref port) = port_requests port"
  "port_dn_ok sizes (less_ref port) = port_dn_ok sizes port"
  "ip_bits (merge_send port) = ip_bits port" "ip_data (merge_send port) = ip_data port"
  "ip_receiver_name (merge_send port) = ip_receiver_name port"
  "ip_srights (merge_send port) = ip_srights port - 1" "ip_sorights (merge_send port) = ip_sorights port"
  "ip_references (merge_send port) = ip_references port - 1" "port_requests (merge_send port) = port_requests port"
  "port_dn_ok sizes (merge_send port) = port_dn_ok sizes port"
  by (simp_all add: less_ref_def merge_send_def port_requests_def port_dn_ok_def)

lemma similar_same: "ip_bits port' = ip_bits port \<Longrightarrow> ip_data port' = ip_data port \<Longrightarrow> ip_receiver_name port' = ip_receiver_name port \<Longrightarrow>
    port_requests port' = port_requests port \<Longrightarrow> similar n port port'"
  by (simp add: similar_def)

lemma sender_fits:
  assumes live: "live_at sizes v n e port" and t: "ie_type e \<in> named_types"
    and u: "ie_type e = MACH_PORT_TYPE_RECEIVE \<or> IE_BITS_UREFS (ie_bits e) + 1 \<noteq> MACH_PORT_UREFS_MAX"
    and v': "rv_self v' = rv_self v" "ports (rv_ports v') (ie_object e) = Some port'" "similar n port port'" "port_requests port' = port_requests port"
  shows "entry_fits v' n (sender e)"
proof -
  note l = live_atD [OF live] and pe = port_entryD [OF live_atD(6) [OF live]]
  have m: "IE_BITS_UREFS (ie_bits e) < MACH_PORT_UREFS_MAX" using t pe by (auto simp: receive_types_def urefs_max)
  note s = sender_sel [OF m] sender_type [OF m]
  have "uint (IE_BITS_UREFS (ie_bits e)) < 0xffff" using m by (simp add: word_less_def urefs_max)
  then have "uint (IE_BITS_UREFS (ie_bits e) + 1) = uint (IE_BITS_UREFS (ie_bits e)) + 1" by (intro uint_inc) simp
  then have b: "0 < IE_BITS_UREFS (ie_bits e) + 1" "IE_BITS_UREFS (ie_bits e) + 1 < MACH_PORT_UREFS_MAX"
    using m u pe by (auto simp: word_less_def urefs_max word_uint_eq_iff)
  have "port_entry_ok (rv_self v) n (sender e) port'"
    using l(3,6) s b t v'(3,4) by (auto simp: port_entry_ok_def request_ok_def Let_def receive_types_def similar_def)
  then show ?thesis
    using l(7,8) s t v'(1,2) by (subst entry_fits_port) (auto simp: type_sets)
qed

lemma more_send_ok:
  assumes ok: "view_ok sizes v" and live: "live_at sizes v n e port" and t: "ie_type e \<in> named_types"
    and c: "carried MACH_MSG_TYPE_MOVE_SEND (ie_object e) v" and spec: "more_send ovf n e v = (KERN_SUCCESS, v')"
  shows "view_ok sizes v' \<and> moved_out (ie_object e) (- 1) 0 (- 1) v v'"
proof -
  note l = live_atD [OF live] and cnt = live_at_counts [OF live] and lk = view_okD(2) [OF ok] and pe = port_entryD [OF live_atD(6) [OF live]]
  have m: "IE_BITS_UREFS (ie_bits e) < MACH_PORT_UREFS_MAX" using t pe by (auto simp: receive_types_def urefs_max)
  note s = sender_sel [OF m] sender_type [OF m]
  have out: "1 \<le> outside_refs v (ie_object e)" "1 \<le> outside_sends v (ie_object e)"
    "ip_data port \<noteq> rv_self v \<Longrightarrow> 2 \<le> outside_refs v (ie_object e)" using c l(2,3) by (simp_all add: carried_def)
  have sr: "0 < uint (ip_srights port)" using spare_send(1) [OF live out(2)] by (simp add: word_less_def)
  have E: "(rv_entries v)(n \<mapsto> e) = rv_entries v" using l(1) by auto
  note fits = sender_fits [OF live t, of v'] and d = uint_dec [OF cnt(1)] uint_dec [OF sr]
  have rcv: "denotes receive_types (ie_object e) (Some e)" if "ip_data port = rv_self v" "ip_receiver_name port = n"
    using l(14) [OF that(1)] that(2) l(1) by simp
  show ?thesis
  proof (cases "ie_type e = MACH_PORT_TYPE_RECEIVE")
    case True
    then have v': "v' = map_port (ie_object e) less_ref (put_entry n (sender e) v)" using spec by (simp add: more_send_def)
    show ?thesis
      by (rule change_ok [OF ok _ _ l(2), where x = "Some (sender e)" and port' = "less_ref port"])
        (use True l out s lk d fits v' similar_same [of "less_ref port" port] in \<open>auto simp: one_change_def type_sets\<close>)
  next
    case nr: False
    then have ts: "ie_type e \<in> send_types" using t by (auto simp: type_sets)
    show ?thesis
    proof (cases "IE_BITS_UREFS (ie_bits e) + 1 = MACH_PORT_UREFS_MAX")
      case True
      then have v': "v' = map_port (ie_object e) merge_send v" using spec nr by (simp add: more_send_def split: if_splits)
      have "port_entry_ok (rv_self v) n e (merge_send port)" by (rule entry_ok_similar [OF l(6)]) simp_all
      then have "entry_fits v' n e" using l v' by (simp add: entry_fits_port)
      then show ?thesis
        by (intro change_ok [OF ok _ _ l(2), where x = "Some e" and port' = "merge_send port"])
          (use l ts out lk d v' E rcv similar_same [of "merge_send port" port] in \<open>auto simp: one_change_def\<close>)
    next
      case False
      then have v': "v' = map_port (ie_object e) merge_send (put_entry n (sender e) v)" using spec nr by (simp add: more_send_def)
      have "ie_type (sender e) = ie_type e" using s ts t by (auto simp: send_types_def receive_types_def)
      then show ?thesis
        by (intro change_ok [OF ok _ _ l(2), where x = "Some (sender e)" and port' = "merge_send port"])
          (use l ts out lk d v' s fits False rcv similar_same [of "merge_send port" port] in \<open>auto simp: one_change_def\<close>)
    qed
  qed
qed

lemma new_name_ok:
  assumes ok: "view_ok sizes v" and live: "live v p" and p: "IO_VALID p" and c: "carried msgt p v" and n: "rv_entries v n = None"
    and t: "t = (if msgt = MACH_MSG_TYPE_MOVE_SEND then MACH_PORT_TYPE_SEND else MACH_PORT_TYPE_SEND_ONCE)"
    and none: "msgt = MACH_MSG_TYPE_MOVE_SEND \<Longrightarrow> \<forall>k. \<not> denotes named_types p (rv_entries v k)"
    and v': "v' = put_entry n (new_entry t p) v"
  shows "view_ok sizes v' \<and>
    moved_out p (if msgt = MACH_MSG_TYPE_MOVE_SEND then - 1 else 0) (if msgt = MACH_MSG_TYPE_MOVE_SEND then 0 else - 1) (- 1) v v'"
proof -
  obtain port where port: "ports (rv_ports v) p = Some port" "ip_active port" using live by (auto simp: live_def split: option.splits)
  have pf: "port_fits sizes v p port" by (rule view_okD(4) [OF ok port(1)])
  have s: "t \<in> {MACH_PORT_TYPE_SEND, MACH_PORT_TYPE_SEND_ONCE}" using t by simp
  note sel = new_entry_sel [OF s, of p]
  have away: "ip_data port \<noteq> rv_self v" if "t = MACH_PORT_TYPE_SEND"
  proof
    assume "ip_data port = rv_self v"
    then have "denotes receive_types p (rv_entries v (ip_receiver_name port))" using pf port(2) by (simp add: port_fits_def)
    then show False using none t that denotes_types [of receive_types p _ named_types] by (auto split: if_splits)
  qed
  have "port_entry_ok (rv_self v) n (new_entry t p) port"
    using sel s away by (auto simp: port_entry_ok_def request_ok_def Let_def receive_types_def urefs_max)
  moreover have "ie_type (new_entry t p) \<in> port_types" using sel(1) s by (auto simp: type_sets)
  ultimately have fits: "entry_fits v' n (new_entry t p)" using sel p port v' by (simp add: entry_fits_port)
  have rcv: "ip_receiver_name port \<noteq> n" if "ip_data port = rv_self v"
    using pf port(2) that n by (auto simp: port_fits_def)
  show ?thesis
    by (rule change_ok [OF ok _ _ port(1), where x = "Some (new_entry t p)" and port' = port])
      (use port n sel s t c pf fits rcv v' view_okD(2) [OF ok] in
        \<open>auto simp: one_change_def carried_def port_fits_def type_sets similar_def\<close>)
qed

lemma copied_out_ok:
  assumes ok: "view_ok sizes v" and c: "carried msgt p v" and p: "IO_VALID p" and msgt: "msgt \<in> copyout_types"
    and co: "copied_out w msgt ovf p v r v'"
  shows "view_ok sizes v'" and "case r of Inl _ \<Rightarrow> v' = v | Inr _ \<Rightarrow> moved_out p (- carried_sends msgt) (- carried_onces msgt) (- 1) v v'"
proof -
  have msgt': "msgt = MACH_MSG_TYPE_MOVE_SEND \<or> msgt = MACH_MSG_TYPE_MOVE_SEND_ONCE" using msgt by (auto simp: copyout_types_def)
  have "view_ok sizes v' \<and> (case r of Inl _ \<Rightarrow> v' = v | Inr _ \<Rightarrow> moved_out p (- carried_sends msgt) (- carried_onces msgt) (- 1) v v')"
  proof (cases "live v p \<and> msgt = MACH_MSG_TYPE_MOVE_SEND \<and> (\<exists>n. denotes named_types p (rv_entries v n))")
    case True
    then obtain n e kr where e: "rv_entries v n = Some e" "ie_object e = p" "ie_type e \<in> named_types" "more_send ovf n e v = (kr, v')"
        "r = (if kr = KERN_SUCCESS then Inr n else Inl kr)" using co by (auto simp: copied_out_def)
    have t: "ie_type e \<in> port_types" "\<not> dies e v" using e True by (auto simp: dies_def type_sets)
    obtain port where live: "live_at sizes v n e port" using live_atE [OF ok e(1) t] by blast
    have "kr \<noteq> KERN_SUCCESS \<Longrightarrow> v' = v" using e(4) by (auto simp: more_send_def split: if_splits)
    then show ?thesis
      using more_send_ok [OF ok live e(3), of ovf v'] e True c ok by (auto simp: carried_sends_def carried_onces_def)
  next
    case False
    then have r: "case r of Inr n \<Rightarrow> live v p \<and> MACH_PORT_VALID n \<and> rv_entries v n = None \<and>
            v' = put_entry n (new_entry (if msgt = MACH_MSG_TYPE_MOVE_SEND then MACH_PORT_TYPE_SEND else MACH_PORT_TYPE_SEND_ONCE) p) v
        | Inl kr \<Rightarrow> v' = v" using co by (auto simp: copied_out_def split: sum.splits)
    show ?thesis
    proof (cases r)
      case (Inl kr)
      then show ?thesis using r ok by simp
    next
      case (Inr n)
      then show ?thesis using new_name_ok [OF ok _ p c _ refl _ refl, of n] r False msgt' by (auto simp: carried_sends_def carried_onces_def)
    qed
  qed
  then show "view_ok sizes v'" and "case r of Inl _ \<Rightarrow> v' = v | Inr _ \<Rightarrow> moved_out p (- carried_sends msgt) (- carried_onces msgt) (- 1) v v'"
    by simp_all
qed

end
