(* ===== verification/Ipc_Right_Props.thy ===== *)
theory Ipc_Right_Props
  imports Ipc_Right_Copyout Ipc_Entry_Props
begin

text \<open>
  The properties of the rights in a space: what the calls on names return, what they do to the names and
  to the ports, and that rights are neither lost nor made up. The invariant \<open>rights_inv\<close> says that the space and
  the reverse hash table are well formed, that the names agree with the counters of the ports they denote, and that no entry
  belongs to the compatibility interface (\<^verbatim>\<open>IE_BITS_COMPAT\<close>).
\<close>

subsection \<open>The invariant of a space and its ports\<close>

definition view_of :: "right_state \<Rightarrow> rights_view" where
  "view_of st = \<lparr>rv_self = rs_self st, rv_entries = entries (rs_space st), rv_ports = rs_ports st\<rparr>"

text \<open>The space and the reverse hash table are well formed, and the names agree with the counters of the ports.\<close>

definition rights_inv :: "nat list \<Rightarrow> nat list \<Rightarrow> right_state \<Rightarrow> bool" where
  "rights_inv its sizes st \<longleftrightarrow> space_inv its (rs_space st) (rs_hash st) \<and> view_ok sizes (view_of st)"

lemma models_view: "models its st v \<longleftrightarrow> space_inv its (rs_space st) (rs_hash st) \<and> v = view_of st"
proof -
  have "models its st v \<Longrightarrow> v = view_of st"
    using rep_space_inv [of its st "rv_entries v"] by (cases v) (auto simp: models_def view_of_def)
  moreover have "models its st v \<Longrightarrow> space_inv its (rs_space st) (rs_hash st)"
    using rep_space_inv [of its st "rv_entries v"] by (simp add: models_def)
  moreover have "space_inv its (rs_space st) (rs_hash st) \<Longrightarrow> models its st (view_of st)"
    using space_inv_rep [of its st] by (simp add: models_def view_of_def)
  ultimately show ?thesis by blast
qed

lemma rights_invD:
  assumes "rights_inv its sizes st"
  shows "models its st (view_of st)" "view_ok sizes (view_of st)"
  using assms by (simp_all add: rights_inv_def models_view)

lemma rights_invI: "models its st v \<Longrightarrow> view_ok sizes v \<Longrightarrow> rights_inv its sizes st"
  by (auto simp: rights_inv_def models_view)

text \<open>A call that achieves its specification, seen through the views.\<close>

lemma achieves_view:
  assumes "returns m (achieves its st spec)" and "view_ok sizes (snd spec)"
  shows "\<exists>st'. m = Some (fst spec, st') \<and> view_of st' = snd spec \<and> rights_inv its sizes st' \<and> apart st st'"
proof -
  obtain r st' where st': "m = Some (r, st')" "achieves its st spec (r, st')" using assms(1) by (auto simp: returns_def)
  then have "models its st' (snd spec)" "r = fst spec" "kept st st'" by (simp_all add: achieves_def)
  then show ?thesis using st'(1) assms(2) rights_invI [of its st' "snd spec" sizes] kept_apart by (auto simp: models_view)
qed

lemma deallocate_view:
  assumes inv: "rights_inv its sizes st" and spec: "dealloc_spec n (view_of st) = (kr, v')"
  shows "\<exists>st'. mach_port_deallocate its st n = Some (kr, st') \<and> view_of st' = v' \<and> rights_inv its sizes st' \<and> apart st st'"
  using achieves_view [OF deallocate_refines [OF rights_invD [OF inv], of n], of sizes] dealloc_spec_ok [OF rights_invD(2) [OF inv], of n] spec
  by (simp add: harmless_def)

lemma mod_refs_view:
  assumes inv: "rights_inv its sizes st" and its: "rw_its w = its" and rgt: "rgt < MACH_PORT_RIGHT_NUMBER" "rgt \<noteq> MACH_PORT_RIGHT_RECEIVE"
    and spec: "delta_spec rgt d n (view_of st) = (kr, v')"
  shows "\<exists>st'. mach_port_mod_refs w st n rgt d = Some (kr, st') \<and> view_of st' = v' \<and> rights_inv its sizes st' \<and> apart st st'"
  using achieves_view [OF mod_refs_refines [OF rights_invD [OF inv] its rgt, of n d], of sizes]
    delta_spec_ok [OF rights_invD(2) [OF inv], of rgt d n] spec
  by (simp add: harmless_def)

lemma type_view:
  assumes inv: "rights_inv its sizes st" and spec: "info_spec n (view_of st) = (r, v')"
  shows "\<exists>st'. mach_port_type its st n = Some (map_sum id fst r, st') \<and> view_of st' = v' \<and> rights_inv its sizes st' \<and> apart st st'"
  using achieves_view [OF type_refines [OF rights_invD [OF inv], of n], of sizes] info_spec_ok [OF rights_invD(2) [OF inv], of n] spec
  by (simp add: harmless_def)

lemma copyin_view:
  assumes inv: "rights_inv its sizes st" and its: "rw_its w = its" and room: "room (view_of st)" and msgt: "msgt \<in> copy_types"
    and spec: "copyin_spec msgt n (view_of st) = (r, v')"
  shows "\<exists>st'. ipc_object_copyin w st n msgt = Some (r, st') \<and> view_of st' = v' \<and> rights_inv its sizes st' \<and> apart st st'"
  using achieves_view [OF copyin_refines [OF rights_invD [OF inv] its msgt, of n], of sizes]
    copyin_spec_ok [OF rights_invD(2) [OF inv] room msgt, of n] spec
  by (simp add: carries_def)

lemma copyout_view:
  assumes inv: "rights_inv its sizes st" and w: "calm its w" and room: "has_room its (view_of st)" and p: "IO_VALID p"
    and msgt: "msgt \<in> copyout_types" and c: "carried msgt p (view_of st)"
  shows "\<exists>r st'. ipc_object_copyout w k st p msgt ovf = Some (r, st') \<and> copied_out (ow_space w) msgt ovf p (view_of st) r (view_of st') \<and>
    rights_inv its sizes st' \<and> apart st st' \<and>
    (case r of Inl _ \<Rightarrow> view_of st' = view_of st
     | Inr _ \<Rightarrow> moved_out p (- carried_sends msgt) (- carried_onces msgt) (- 1) (view_of st) (view_of st'))"
proof -
  note d = rights_invD [OF inv]
  obtain r st' where st': "ipc_object_copyout w k st p msgt ovf = Some (r, st')"
      "delivers its st (copied_out (ow_space w) msgt ovf p (view_of st)) (r, st')"
    using copyout_refines [OF d(2) c p msgt w room d(1), of k ovf] by (auto simp: returns_def)
  then obtain v' where v': "copied_out (ow_space w) msgt ovf p (view_of st) r v'" "models its st' v'" "apart st st'"
    by (auto simp: delivers_def)
  have eq: "v' = view_of st'" using v'(2) by (simp add: models_view)
  note ok = copied_out_ok [OF d(2) c p msgt v'(1)]
  from st'(1) v'(1,3) ok(2) rights_invI [OF v'(2) ok(1)] show ?thesis unfolding eq by blast
qed

subsection \<open>Calls in any order\<close>

text \<open>
  The states that calls reach from \<open>st0\<close>, when a call is only made if its guard holds, and others
  change the state in between.
\<close>

inductive reach :: "('c \<Rightarrow> 's \<Rightarrow> 's option) \<Rightarrow> ('c \<Rightarrow> 's \<Rightarrow> bool) \<Rightarrow> ('s \<Rightarrow> 's \<Rightarrow> bool) \<Rightarrow> 's \<Rightarrow> 's \<Rightarrow> bool"
  for run :: "'c \<Rightarrow> 's \<Rightarrow> 's option" and guard :: "'c \<Rightarrow> 's \<Rightarrow> bool" and others :: "'s \<Rightarrow> 's \<Rightarrow> bool" and st0 :: 's where
  start: "reach run guard others st0 st0"
| call: "reach run guard others st0 st \<Longrightarrow> guard c st \<Longrightarrow> run c st = Some st' \<Longrightarrow> reach run guard others st0 st'"
| other: "reach run guard others st0 st \<Longrightarrow> others st st' \<Longrightarrow> reach run guard others st0 st'"

text \<open>The contract of a family of calls: a call whose guard holds returns and keeps the invariant, and so do the others.\<close>

locale guarded_calls =
  fixes run :: "'c \<Rightarrow> 's \<Rightarrow> 's option" and guard :: "'c \<Rightarrow> 's \<Rightarrow> bool" and others :: "'s \<Rightarrow> 's \<Rightarrow> bool" and inv :: "'s \<Rightarrow> bool"
  assumes call_ok: "inv st \<Longrightarrow> guard c st \<Longrightarrow> \<exists>st'. run c st = Some st' \<and> inv st'"
    and others_ok: "inv st \<Longrightarrow> others st st' \<Longrightarrow> inv st'"
begin

lemma reach_inv:
  assumes "reach run guard others st0 st" and "inv st0"
  shows "inv st"
  using assms
proof induction
  case (call st c st')
  then show ?case using call_ok [of st c] by auto
qed (auto intro: others_ok)

lemma reach_returns: "reach run guard others st0 st \<Longrightarrow> inv st0 \<Longrightarrow> guard c st \<Longrightarrow> \<exists>st'. run c st = Some st' \<and> inv st'"
  using reach_inv call_ok by blast

end

datatype name_call =
  Deallocate mach_port
| Mod_refs mach_port nat u32
| Type_of mach_port
| Copyin mach_port msgt_name
| Copyout ptr msgt_name bool

fun name_call_run :: "object_world \<Rightarrow> name_call \<Rightarrow> right_state \<Rightarrow> right_state option" where
  "name_call_run w (Deallocate n) st = map_option snd (mach_port_deallocate (ow_its w) st n)"
| "name_call_run w (Mod_refs n rgt d) st = map_option snd (mach_port_mod_refs (ow_right w) st n rgt d)"
| "name_call_run w (Type_of n) st = map_option snd (mach_port_type (ow_its w) st n)"
| "name_call_run w (Copyin n msgt) st = map_option snd (ipc_object_copyin (ow_right w) st n msgt)"
| "name_call_run w (Copyout p msgt ovf) st = map_option snd (ipc_object_copyout w 0 st p msgt ovf)"

text \<open>
  The guards: receive rights are not destroyed, a right is only copied in when no counter of a port is at
  its maximum, and only a right that was taken out of a space is copied out.
\<close>

fun name_call_ok :: "nat list \<Rightarrow> object_world \<Rightarrow> name_call \<Rightarrow> right_state \<Rightarrow> bool" where
  "name_call_ok its w (Deallocate n) st \<longleftrightarrow> ow_its w = its"
| "name_call_ok its w (Mod_refs n rgt d) st \<longleftrightarrow> ow_its w = its \<and> rgt < MACH_PORT_RIGHT_NUMBER \<and> rgt \<noteq> MACH_PORT_RIGHT_RECEIVE"
| "name_call_ok its w (Type_of n) st \<longleftrightarrow> ow_its w = its"
| "name_call_ok its w (Copyin n msgt) st \<longleftrightarrow> ow_its w = its \<and> msgt \<in> copy_types \<and> room (view_of st)"
| "name_call_ok its w (Copyout p msgt ovf) st \<longleftrightarrow>
     calm its w \<and> msgt \<in> copyout_types \<and> IO_VALID p \<and> carried msgt p (view_of st) \<and> has_room its (view_of st)"

text \<open>
  The other threads and spaces change the ports in any way that leaves the names of this space with the
  rights and references they count for; among others, ports die.
\<close>

definition other_spaces :: "nat list \<Rightarrow> right_state \<Rightarrow> right_state \<Rightarrow> bool" where
  "other_spaces sizes st st' \<longleftrightarrow> (\<exists>ps. st' = st\<lparr>rs_ports := ps\<rparr> \<and> view_ok sizes ((view_of st)\<lparr>rv_ports := ps\<rparr>))"

interpretation names: guarded_calls "name_call_run w" "name_call_ok its w" "other_spaces sizes" "rights_inv its sizes" for w its sizes
proof
  fix st c assume inv: "rights_inv its sizes st" and g: "name_call_ok its w c st"
  show "\<exists>st'. name_call_run w c st = Some st' \<and> rights_inv its sizes st'"
  proof (cases c)
    case (Deallocate n)
    obtain kr v' where "dealloc_spec n (view_of st) = (kr, v')" by fastforce
    from deallocate_view [OF inv this] show ?thesis using g Deallocate by auto
  next
    case (Mod_refs n rgt d)
    obtain kr v' where "delta_spec rgt d n (view_of st) = (kr, v')" by fastforce
    from mod_refs_view [OF inv _ _ _ this, of "ow_right w"] show ?thesis using g Mod_refs by auto
  next
    case (Type_of n)
    obtain r v' where "info_spec n (view_of st) = (r, v')" by fastforce
    from type_view [OF inv this] show ?thesis using g Type_of by auto
  next
    case (Copyin n msgt)
    obtain r v' where "copyin_spec msgt n (view_of st) = (r, v')" by fastforce
    from copyin_view [OF inv _ _ _ this, of "ow_right w"] show ?thesis using g Copyin by auto
  next
    case (Copyout p msgt ovf)
    then show ?thesis using copyout_view [OF inv, of w p msgt 0 ovf] g by auto
  qed
next
  fix st st' assume "rights_inv its sizes st" and "other_spaces sizes st st'"
  then show "rights_inv its sizes st'" by (auto simp: rights_inv_def other_spaces_def view_of_def)
qed

subsection \<open>Names of a port\<close>

lemma named_unique:
  assumes m: "models its st v" and ok: "view_ok sizes v" and live: "live v p"
    and n: "denotes named_types p (rv_entries v n)" and k: "denotes named_types p (rv_entries v k)"
  shows "n = k"
proof -
  obtain port where port: "ports (rv_ports v) p = Some port" "ip_active port" using live by (auto simp: live_def split: option.splits)
  have c: "(\<exists>e. rv_entries v j = Some e \<and> ie_object e = p \<and> ie_type e = MACH_PORT_TYPE_SEND) \<and> ip_data port \<noteq> rv_self v \<or>
      j = ip_receiver_name port \<and> ip_data port = rv_self v" if j: "denotes named_types p (rv_entries v j)" for j
  proof -
    obtain e where e: "rv_entries v j = Some e" "ie_object e = p" "ie_type e \<in> named_types"
      using j by (auto simp: denotes_def split: option.splits)
    then have "ie_type e \<in> port_types" by (auto simp: type_sets)
    from entry_port [OF ok e(1) this] obtain port' where "ports (rv_ports v) p = Some port'" "port_entry_ok (rv_self v) j e port'"
      using e(2) by metis
    then show ?thesis using port e by (auto simp: port_entry_ok_def Let_def)
  qed
  from c [OF n] c [OF k] show ?thesis
  proof (elim disjE conjE exE)
    fix e e' assume e: "rv_entries v n = Some e" "ie_object e = p" "ie_type e = MACH_PORT_TYPE_SEND"
      "rv_entries v k = Some e'" "ie_object e' = p" "ie_type e' = MACH_PORT_TYPE_SEND"
    have "hash_inv (rs_space st) (rs_hash st) (sends (rv_entries v))" using modelsD(1) [OF m] by (simp add: rep_def)
    from hash_invD(7) [OF this] have "inj_on (obj_of (rs_space st)) (sends (rv_entries v))" .
    then show "n = k"
      using e obj_of_rep [OF modelsD(1) [OF m]] by (auto simp: inj_on_def in_sends)
  qed auto
qed

lemma merge_one_send: "merge_send (one_send port) = port"
  by (simp add: merge_send_def one_send_def)

lemma merge_copied:
  assumes "ports (rv_ports v) p = Some port"
  shows "map_port p merge_send (put_entry n e (map_port p one_send v)) = put_entry n e v"
  using assms by (simp add: put_map_port [symmetric] view_defs merge_one_send fun_upd_idem)

lemma copied_carried:
  assumes ok: "view_ok sizes v" and live: "live_at sizes v n e port" and room: "room v"
  shows "carried MACH_MSG_TYPE_MOVE_SEND (ie_object e) (map_port (ie_object e) one_send v)"
proof -
  note l = live_atD [OF live]
  have r: "uint (ip_references port) + 1 < 2 ^ 32" "uint (ip_srights port) + 1 < 2 ^ 32" using room l(2) by (auto simp: room_def)
  have "outside T f (map_port (ie_object e) one_send v) (ie_object e) = outside T f v (ie_object e) + uint (f (one_send port)) - uint (f port)" for T f
    using l(2) by (simp add: outside_def)
  then show ?thesis
    using l uint_inc [OF r(1)] uint_inc [OF r(2)] by (auto simp: carried_def)
qed

lemma copy_send_back:
  assumes inv: "rights_inv its sizes st" and w: "calm its w" and room: "room (view_of st)" "has_room its (view_of st)"
    and e: "rv_entries (view_of st) n = Some e" and t: "ie_type e \<in> send_types" and live: "live (view_of st) (ie_object e)"
    and u: "IE_BITS_UREFS (ie_bits e) + 1 \<noteq> MACH_PORT_UREFS_MAX"
  shows "\<exists>st1 st2. ipc_object_copyin (ow_right w) st n MACH_MSG_TYPE_COPY_SEND = Some (Inr (ie_object e), st1) \<and>
    ipc_object_copyout w k st1 (ie_object e) MACH_MSG_TYPE_PORT_SEND ovf = Some (Inr n, st2) \<and>
    view_of st2 = put_entry n (sender e) (view_of st) \<and> rights_inv its sizes st2"
proof -
  let ?v = "view_of st" and ?p = "ie_object e" and ?v1 = "map_port (ie_object e) one_send (view_of st)"
  note d = rights_invD [OF inv]
  have t': "ie_type e \<in> port_types" "\<not> dies e ?v" "ie_type e \<notin> {MACH_PORT_TYPE_DEAD_NAME, MACH_PORT_TYPE_RECEIVE}" "ie_type e \<in> named_types"
    using t live by (auto simp: type_sets dies_def)
  obtain port where la: "live_at sizes ?v n e port" using live_atE [OF d(2) e t'(1,2)] by blast
  note l = live_atD [OF la]
  have its: "rw_its (ow_right w) = its" using w by (simp add: calm_def)
  have "copyin_spec MACH_MSG_TYPE_COPY_SEND n ?v = (Inr ?p, ?v1)"
    using e t t' by (simp add: copyin_spec_def take_spec_def take_right_def Let_def pd_event_def post_def)
  from copyin_view [OF inv its room(1) _ this] obtain st1 where st1: "ipc_object_copyin (ow_right w) st n MACH_MSG_TYPE_COPY_SEND = Some (Inr ?p, st1)"
      "view_of st1 = ?v1" "rights_inv its sizes st1" by (auto simp: copy_types_def)
  have c: "carried MACH_MSG_TYPE_PORT_SEND ?p (view_of st1)" unfolding st1(2) by (rule copied_carried [OF d(2) la room(1)])
  have hr: "has_room its (view_of st1)" using room(2) by (simp add: st1(2) has_room_def)
  obtain r st2 where st2: "ipc_object_copyout w k st1 ?p MACH_MSG_TYPE_PORT_SEND ovf = Some (r, st2)"
      "copied_out (ow_space w) MACH_MSG_TYPE_PORT_SEND ovf ?p (view_of st1) r (view_of st2)" "rights_inv its sizes st2"
    using copyout_view [OF st1(3) w hr l(8) _ c, of k ovf] by (auto simp: copyout_types_def)
  have lv: "live ?v1 ?p" using l by (simp add: live_def)
  have dn: "denotes named_types ?p (rv_entries ?v1 n)" using e t'(4) by simp
  obtain m e' kr where m: "rv_entries ?v1 m = Some e'" "denotes named_types ?p (Some e')" "more_send ovf m e' ?v1 = (kr, view_of st2)"
      "r = (if kr = KERN_SUCCESS then Inr m else Inl kr)"
    using st2(2) lv dn unfolding st1(2) copied_out_def by (auto split: if_splits)
  have "m = n" by (rule named_unique [OF rights_invD(1) [OF st1(3)] rights_invD(2) [OF st1(3)], unfolded st1(2), OF lv]) (use m dn in auto)
  then have "e' = e" using m(1) e by simp
  with \<open>m = n\<close> m(3) t' u have "kr = KERN_SUCCESS" "view_of st2 = put_entry n (sender e) ?v"
    using merge_copied [OF l(2)] by (auto simp: more_send_def)
  with st1(1) st2 m(4) \<open>m = n\<close> show ?thesis by auto
qed

subsection \<open>A concrete space with ports\<close>

definition port_with :: "u32 \<Rightarrow> u32 \<Rightarrow> ptr \<Rightarrow> mach_port \<Rightarrow> u32 \<Rightarrow> ipc_port" where
  "port_with bits refs data name srights =
     \<lparr>ip_bits = bits, ip_references = refs, ip_receiver_name = name, ip_data = data, ip_mscount = 0, ip_srights = srights,
      ip_sorights = 0, ip_nsrequest = 0, ip_pdrequest = 0, ip_dnrequests = None, ip_pset = 0, ip_seqno = 0, ip_msgcount = 0,
      ip_qlimit = 5, ip_messages = [], ip_blocked = []\<rparr>"

text \<open>
  The receivers of the ports \<open>0x40\<close> and \<open>0x100\<close> are elsewhere, a send right of the first is in a message, and
  the port \<open>0xc0\<close> is dead.
\<close>

definition ports_example :: port_state where
  "ports_example = \<lparr>ports = [0x40 \<mapsto> port_with IO_BITS_ACTIVE 3 0x30 7 2, 0x80 \<mapsto> port_with IO_BITS_ACTIVE 1 0x20 2 0,
       0xc0 \<mapsto> port_with 0 1 0 0 1, 0x100 \<mapsto> port_with IO_BITS_ACTIVE 2 0x30 8 1, 0x140 \<mapsto> port_with IO_BITS_ACTIVE 1 0x20 9 0],
     locked = {}, multiple = False, timestamp_data = 0, events = []\<rparr>"

definition rights_example :: right_state where
  "rights_example = \<lparr>rs_space = space_example, rs_hash = hash_global_example, rs_ports = ports_example\<rparr>"

abbreviation entry_example :: "u32 \<Rightarrow> ptr \<Rightarrow> ipc_entry" where
  "entry_example bits p \<equiv> \<lparr>ie_bits = bits, ie_object = p, ie_request = 0, ie_index = 0\<rparr>"

lemma all_entries_example:
  "entries space_example = [1 \<mapsto> entry_example 0x10001 0x40, 2 \<mapsto> entry_example 0x20000 0x80, 3 \<mapsto> entry_example 0x10001 0xc0,
     5 \<mapsto> entry_example 0x10001 0x100, 9 \<mapsto> entry_example 0x20000 0x140]"
proof
  fix n
  have u: "unat (1::mach_port) = 1" "unat (3::mach_port) = 3" "unat (9::mach_port) = 9" by code_simp+
  have tr: "ist_list (is_tree space_example) = ist_list tree_example" by (simp add: space_example_def)
  have "entries space_example 1 = Some (entry_example 0x10001 0x40)" "entries space_example 3 = Some (entry_example 0x10001 0xc0)"
    "entries space_example 9 = Some (entry_example 0x20000 0x140)"
    unfolding entries_def raw_entry_def space_example_nth(5) tr tree_example_ok(2) u type_example
    using space_example_nth type_example TYPE_SEND_nz by simp_all
  moreover have "entries space_example n = None" if "n \<notin> {1, 2, 3, 5, 9}" using dom_entries_example that by auto
  ultimately show "entries space_example n = [1 \<mapsto> entry_example 0x10001 0x40, 2 \<mapsto> entry_example 0x20000 0x80,
     3 \<mapsto> entry_example 0x10001 0xc0, 5 \<mapsto> entry_example 0x10001 0x100, 9 \<mapsto> entry_example 0x20000 0x140] n"
    using entries_example by (cases "n \<in> {1, 2, 3, 5, 9}") auto
qed

lemma bits_example:
  "IE_BITS_UREFS 0x10001 = 1" "IE_BITS_UREFS 0x20000 = 0" "(0x10001::u32) AND IE_BITS_COMPAT = 0" "(0x20000::u32) AND IE_BITS_COMPAT = 0"
  "(0x10001::u32) AND IE_BITS_MAREQUEST = 0" "io_active IO_BITS_ACTIVE" "\<not> io_active 0"
  "IO_VALID 0x40" "IO_VALID 0x80" "IO_VALID 0xc0" "IO_VALID 0x100" "IO_VALID 0x140" "(1 :: u32) < MACH_PORT_UREFS_MAX"
  by code_simp+

lemma names_example:
  "names_of T (entries space_example) 0x40 = (if MACH_PORT_TYPE_SEND \<in> T then 1 else 0)"
  "names_of T (entries space_example) 0x80 = (if MACH_PORT_TYPE_RECEIVE \<in> T then 1 else 0)"
  "names_of T (entries space_example) 0xc0 = (if MACH_PORT_TYPE_SEND \<in> T then 1 else 0)"
  "names_of T (entries space_example) 0x100 = (if MACH_PORT_TYPE_SEND \<in> T then 1 else 0)"
  "names_of T (entries space_example) 0x140 = (if MACH_PORT_TYPE_RECEIVE \<in> T then 1 else 0)"
proof -
  have "names_of T (entries space_example) p = card {n \<in> {1, 2, 3, 5, 9}. denotes T p (entries space_example n)}" for p
    unfolding names_of_def using dom_entries_example by (intro arg_cong [where f = card]) (auto simp: denotes_def split: option.splits)
  then show
    "names_of T (entries space_example) 0x40 = (if MACH_PORT_TYPE_SEND \<in> T then 1 else 0)"
    "names_of T (entries space_example) 0x80 = (if MACH_PORT_TYPE_RECEIVE \<in> T then 1 else 0)"
    "names_of T (entries space_example) 0xc0 = (if MACH_PORT_TYPE_SEND \<in> T then 1 else 0)"
    "names_of T (entries space_example) 0x100 = (if MACH_PORT_TYPE_SEND \<in> T then 1 else 0)"
    "names_of T (entries space_example) 0x140 = (if MACH_PORT_TYPE_RECEIVE \<in> T then 1 else 0)"
    by (simp_all add: all_entries_example type_example Collect_conv_if conj_disj_distribR Collect_disj_eq)
qed

lemma view_example: "view_of rights_example = \<lparr>rv_self = 0x20, rv_entries = entries space_example, rv_ports = ports_example\<rparr>"
  by (simp add: view_of_def rights_example_def space_example_def)

lemma outside_example:
  "outside T f (view_of rights_example) p =
    (if p = 0x40 then uint (f (port_with IO_BITS_ACTIVE 3 0x30 7 2)) - (if MACH_PORT_TYPE_SEND \<in> T then 1 else 0)
     else if p = 0x80 then uint (f (port_with IO_BITS_ACTIVE 1 0x20 2 0)) - (if MACH_PORT_TYPE_RECEIVE \<in> T then 1 else 0)
     else if p = 0xc0 then uint (f (port_with 0 1 0 0 1)) - (if MACH_PORT_TYPE_SEND \<in> T then 1 else 0)
     else if p = 0x100 then uint (f (port_with IO_BITS_ACTIVE 2 0x30 8 1)) - (if MACH_PORT_TYPE_SEND \<in> T then 1 else 0)
     else if p = 0x140 then uint (f (port_with IO_BITS_ACTIVE 1 0x20 9 0)) - (if MACH_PORT_TYPE_RECEIVE \<in> T then 1 else 0)
     else 0)"
  by (simp add: view_example outside_def ports_example_def names_example)

lemma rights_inv_example: "rights_inv its_example [] rights_example"
proof -
  let ?v = "view_of rights_example"
  have sel: "rv_self ?v = 0x20" "rv_entries ?v = entries space_example" "rv_ports ?v = ports_example" by (simp_all add: view_example)
  have "entry_fits ?v n e" if "rv_entries ?v n = Some e" for n e
    using that unfolding sel all_entries_example
    by (auto simp: sel entry_fits_def type_example bits_example type_sets ports_example_def port_with_def port_entry_ok_def
        request_ok_def Let_def split: if_splits)
  moreover have "port_fits [] ?v p port" if "ports (rv_ports ?v) p = Some port" for p port
    using that by (auto simp: sel ports_example_def port_fits_def outside_example port_dn_ok_def bits_example type_sets port_with_def
        all_entries_example type_example split: if_splits)
  ultimately have "view_ok [] ?v" by (auto simp: view_ok_def sel ports_example_def IS_NULL_def)
  then show ?thesis using space_inv_example by (simp add: rights_inv_def rights_example_def)
qed

definition object_world_example :: object_world where
  "object_world_example =
     \<lparr>ow_right = \<lparr>rw_its = its_example, rw_sizes = [], rw_free = True, rw_env = (\<lambda>ps. ps), rw_moved = (\<lambda>_. []), rw_notify = 0\<rparr>,
      ow_space = quiet_example, ow_ports = (\<lambda>n ps. ps), ow_mem = None\<rparr>"

lemma calm_example: "calm its_example object_world_example" "rw_its (ow_right object_world_example) = its_example"
  by (simp_all add: calm_def object_world_example_def quiet_example_ok)

lemma has_room_example: "has_room its_example (view_of rights_example)"
proof -
  have "card (dom (entries space_example)) \<le> card {1, 2, 3, 5, 9 :: mach_port}"
    by (rule card_mono [OF _ dom_entries_example]) simp
  then show ?thesis by (simp add: has_room_def view_example its_example_def)
qed

lemma live_example: "live (view_of rights_example) 0x40" "\<not> live (view_of rights_example) 0xc0" "live (view_of rights_example) 0x100"
  by (simp_all add: live_def view_example ports_example_def port_with_def bits_example)

lemma room_example: "room (view_of rights_example)"
  by (auto simp: room_def view_example ports_example_def port_with_def split: if_splits)

lemma carried_example: "carried MACH_MSG_TYPE_PORT_SEND 0x40 (view_of rights_example)"
  unfolding carried_def outside_example
  by (simp add: view_example ports_example_def bits_example type_sets port_with_def)

lemma sender_example: "sender (entry_example 0x10001 p) = entry_example 0x10002 p"
  by (simp add: sender_def type_values)

subsection \<open>Properties\<close>

text \<open>
  C9. In a space where \<open>rights_inv\<close> holds \<^verbatim>\<open>mach_port_deallocate\<close> returns for every name, without a failed assertion, with the
  result and the effect on names and ports of its specification: one user reference less, the last one of a
  send right with its no-senders, port-deleted and message-accepted consequences, a send-once right used up
  by a notification, a right on a dead port turned into a dead name first. The invariant holds again, no port dies, and what
  is held outside of the space stays the same, except for the send-once right that a notification carries.
\<close>

theorem deallocate_exact:
  assumes "rights_inv its sizes st"
  shows "\<exists>st'. mach_port_deallocate its st n = Some (fst (dealloc_spec n (view_of st)), st') \<and>
    view_of st' = snd (dealloc_spec n (view_of st)) \<and> rights_inv its sizes st' \<and>
    harmless sizes (view_of st) (view_of st') \<and> apart st st'"
  using deallocate_view [OF assms, of n "fst (dealloc_spec n (view_of st))" "snd (dealloc_spec n (view_of st))"]
    dealloc_spec_ok [OF rights_invD(2) [OF assms], of n] by auto

theorem deallocate_exact_witness:
  "\<exists>st'. mach_port_deallocate its_example rights_example 3 = Some (KERN_SUCCESS, st') \<and> entries (rs_space st') 3 = None \<and>
    ports (rs_ports st') 0xc0 = None \<and> rights_inv its_example [] st'"
proof -
  let ?e = "entry_example 0x10001 0xc0"
  have e: "rv_entries (view_of rights_example) 3 = Some ?e" by (simp add: view_example all_entries_example)
  have d: "dies ?e (view_of rights_example)" using live_example(2) by (simp add: dies_def type_example)
  have u: "IE_BITS_UREFS (ie_bits (dead_name ?e)) = 1" using dead_name_sel(6) [of ?e] by (simp add: bits_example)
  have spec: "dealloc_spec 3 (view_of rights_example) = (KERN_SUCCESS, remove_entry 3 (bury 3 ?e (view_of rights_example)))"
    using e d u by (simp add: dealloc_spec_def adjust_dead_def type_example)
  obtain st' where st': "mach_port_deallocate its_example rights_example 3 = Some (KERN_SUCCESS, st')"
      "view_of st' = remove_entry 3 (bury 3 ?e (view_of rights_example))" "rights_inv its_example [] st'"
    using deallocate_exact [OF rights_inv_example, of 3] unfolding spec by auto
  have port: "ports (rv_ports (view_of rights_example)) (ie_object ?e) = Some (port_with 0 1 0 0 1)" "ip_references (port_with 0 1 0 0 1) = 1"
    by (simp_all add: view_example ports_example_def port_with_def)
  have "entries (rs_space st') 3 = rv_entries (view_of st') 3" "ports (rs_ports st') 0xc0 = ports (rv_ports (view_of st')) 0xc0"
    by (simp_all add: view_of_def)
  then have "entries (rs_space st') 3 = None" "ports (rs_ports st') 0xc0 = None"
    unfolding st'(2) using bury_sel(4) [of "view_of rights_example" ?e, OF port(1), of 3] port(2) by simp_all
  with st' show ?thesis by blast
qed

text \<open>
  \<^verbatim>\<open>mach_port_mod_refs\<close> on send rights, send-once rights, dead names and port sets returns for every name and
  every delta with the result and the effect of its specification: underflow and overflow of the 16-bit user
  reference count are refused and change nothing, other deltas are added to it. The space and its
  ports stay consistent, and no right is lost or made up.
\<close>

theorem mod_refs_exact:
  assumes "rights_inv its sizes st" and "rw_its w = its" and "rgt < MACH_PORT_RIGHT_NUMBER" and "rgt \<noteq> MACH_PORT_RIGHT_RECEIVE"
  shows "\<exists>st'. mach_port_mod_refs w st n rgt d = Some (fst (delta_spec rgt d n (view_of st)), st') \<and>
    view_of st' = snd (delta_spec rgt d n (view_of st)) \<and> rights_inv its sizes st' \<and>
    harmless sizes (view_of st) (view_of st') \<and> apart st st'"
  using mod_refs_view [OF assms, of d n "fst (delta_spec rgt d n (view_of st))" "snd (delta_spec rgt d n (view_of st))"]
    delta_spec_ok [OF rights_invD(2) [OF assms(1)], of rgt d n] by auto

theorem mod_refs_exact_witness:
  "\<exists>st'. mach_port_mod_refs (ow_right object_world_example) rights_example 1 MACH_PORT_RIGHT_SEND 4 = Some (KERN_SUCCESS, st') \<and>
    entries (rs_space st') 1 = Some (entry_example 0x10005 0x40) \<and> rights_inv its_example [] st'"
proof -
  let ?e = "entry_example 0x10001 0x40" and ?e' = "entry_example 0x10005 0x40"
  have e: "rv_entries (view_of rights_example) 1 = Some ?e" by (simp add: view_example all_entries_example)
  have r: "MACH_PORT_RIGHT_SEND < MACH_PORT_RIGHT_NUMBER" "MACH_PORT_RIGHT_SEND \<noteq> MACH_PORT_RIGHT_RECEIVE"
    "MACH_PORT_RIGHT_SEND \<noteq> MACH_PORT_RIGHT_PORT_SET" "MACH_PORT_RIGHT_SEND \<noteq> MACH_PORT_RIGHT_SEND_ONCE"
    "MACH_PORT_RIGHT_SEND \<noteq> MACH_PORT_RIGHT_DEAD_NAME" by code_simp+
  have d: "\<not> dies ?e (view_of rights_example)" using live_example(1) by (simp add: dies_def)
  have u: "\<not> MACH_PORT_UREFS_UNDERFLOW 1 4" "\<not> MACH_PORT_UREFS_OVERFLOW 2 4" by code_simp+
  have spec: "delta_spec MACH_PORT_RIGHT_SEND 4 1 (view_of rights_example) = (KERN_SUCCESS, put_entry 1 ?e' (view_of rights_example))"
    using e d u r by (simp add: delta_spec_def adjust_send_def type_example bits_example type_sets Let_def)
  obtain st' where st': "mach_port_mod_refs (ow_right object_world_example) rights_example 1 MACH_PORT_RIGHT_SEND 4 = Some (KERN_SUCCESS, st')"
      "view_of st' = put_entry 1 ?e' (view_of rights_example)" "rights_inv its_example [] st'"
    using mod_refs_exact [OF rights_inv_example calm_example(2) r(1,2), of 1 4] unfolding spec by auto
  have "entries (rs_space st') 1 = rv_entries (view_of st') 1" by (simp add: view_of_def)
  then have "entries (rs_space st') 1 = Some ?e'" unfolding st'(2) by simp
  with st' show ?thesis by blast
qed

text \<open>
  C2. In a space where \<open>rights_inv\<close> holds and no counter of a port is at its maximum, \<^verbatim>\<open>ipc_object_copyin\<close> of a send or
  send-once right (made, copied or moved) returns for every name with the
  result and the effect of its specification. It conserves rights: a success takes exactly one right of the
  type it announces and one reference of the port out of the space, an error or a dead name takes nothing,
  and all other ports keep what they have.
\<close>

theorem copyin_exact:
  assumes "rights_inv its sizes st" and "rw_its w = its" and "room (view_of st)" and "msgt \<in> copy_types"
  shows "\<exists>r st'. ipc_object_copyin w st n msgt = Some (r, st') \<and> (r, view_of st') = copyin_spec msgt n (view_of st) \<and>
    rights_inv its sizes st' \<and> apart st st' \<and>
    (case r of
       Inl _ \<Rightarrow> moved_out 0 0 0 0 (view_of st) (view_of st')
     | Inr p \<Rightarrow>
         if p = IO_DEAD then moved_out 0 0 0 0 (view_of st) (view_of st')
         else moved_out p (carried_sends (ipc_object_copyin_type msgt)) (carried_onces (ipc_object_copyin_type msgt)) 1
                (view_of st) (view_of st'))"
proof -
  obtain r v' where spec: "copyin_spec msgt n (view_of st) = (r, v')" by fastforce
  from copyin_view [OF assms spec] obtain st' where st': "ipc_object_copyin w st n msgt = Some (r, st')" "view_of st' = v'"
      "rights_inv its sizes st'" "apart st st'" by blast
  note ok = copyin_spec_ok [OF rights_invD(2) [OF assms(1)] assms(3,4), of n, unfolded spec st'(2) [symmetric]]
  show ?thesis
    using ok st' spec unfolding st'(2) [symmetric]
    by (intro exI [of _ r] exI [of _ st']) (auto simp: carries_def split: sum.splits)
qed

theorem copyin_exact_witness:
  "\<exists>st'. ipc_object_copyin (ow_right object_world_example) rights_example 5 MACH_MSG_TYPE_MOVE_SEND = Some (Inr 0x100, st') \<and>
    entries (rs_space st') 5 = None \<and> moved_out 0x100 1 0 1 (view_of rights_example) (view_of st') \<and> rights_inv its_example [] st'"
proof -
  let ?v = "view_of rights_example" and ?e = "entry_example 0x10001 0x100"
  have e: "rv_entries ?v 5 = Some ?e" by (simp add: view_example all_entries_example)
  have p: "the_port ?v 0x100 = port_with IO_BITS_ACTIVE 2 0x30 8 1" by (simp add: the_port_def view_example ports_example_def)
  have r: "request_port (port_with IO_BITS_ACTIVE 2 0x30 8 1) 0 = IP_NULL"
    by (simp add: request_port_def port_requests_def port_with_def)
  have d: "\<not> dies ?e ?v" using live_example(3) by (simp add: dies_def)
  have spec: "\<exists>v'. copyin_spec MACH_MSG_TYPE_MOVE_SEND 5 ?v = (Inr 0x100, v') \<and> rv_entries v' 5 = None"
    using e d p r by (simp add: copyin_spec_def take_spec_def take_right_def Let_def type_example bits_example type_sets)
  have c: "MACH_MSG_TYPE_MOVE_SEND \<in> copy_types" "carried_sends (ipc_object_copyin_type MACH_MSG_TYPE_MOVE_SEND) = 1"
    "carried_onces (ipc_object_copyin_type MACH_MSG_TYPE_MOVE_SEND) = 0" "(0x100 :: ptr) \<noteq> IO_DEAD"
    using bits_example(11) by (simp_all add: copy_types_def carried_sends_def carried_onces_def IO_VALID_def)
  obtain st' where st': "ipc_object_copyin (ow_right object_world_example) rights_example 5 MACH_MSG_TYPE_MOVE_SEND = Some (Inr 0x100, st')"
      "rv_entries (view_of st') 5 = None" "moved_out 0x100 1 0 1 ?v (view_of st')" "rights_inv its_example [] st'"
    using copyin_exact [OF rights_inv_example calm_example(2) room_example c(1), of 5] spec c by auto
  then show ?thesis by (auto simp: view_of_def)
qed

text \<open>
  C1. In a space where \<open>rights_inv\<close> holds, \<^verbatim>\<open>ipc_object_copyout\<close> of a send or send-once right that is outside of the
  space terminates if nobody interferes and the largest table has room for another name. A send right goes to the name that has the port already, with one more user
  reference and the surplus right and reference of the port given back, or to a new name; a
  send-once right always to a new name. A dead port, a user reference count at its limit (unless overflow is allowed) and a memory shortage, only
  when the allocator has failed, are reported and change nothing. A
  success takes exactly the one right and its reference into the space, and the invariant holds again.
\<close>

theorem copyout_exact:
  assumes "rights_inv its sizes st" and "calm its w" and "has_room its (view_of st)" and "IO_VALID p"
    and "msgt \<in> copyout_types" and "carried msgt p (view_of st)"
  shows "\<exists>r st'. ipc_object_copyout w k st p msgt ovf = Some (r, st') \<and> copied_out (ow_space w) msgt ovf p (view_of st) r (view_of st') \<and>
    rights_inv its sizes st' \<and> apart st st' \<and>
    (case r of Inl _ \<Rightarrow> view_of st' = view_of st
     | Inr _ \<Rightarrow> moved_out p (- carried_sends msgt) (- carried_onces msgt) (- 1) (view_of st) (view_of st'))"
  by (rule copyout_view [OF assms])

theorem copyout_exact_witness:
  "\<exists>st'. ipc_object_copyout object_world_example 0 rights_example 0x40 MACH_MSG_TYPE_PORT_SEND False = Some (Inr 1, st') \<and>
    entries (rs_space st') 1 = Some (entry_example 0x10002 0x40) \<and> rights_inv its_example [] st'"
proof -
  let ?v = "view_of rights_example"
  obtain r st' where r: "ipc_object_copyout object_world_example 0 rights_example 0x40 MACH_MSG_TYPE_PORT_SEND False = Some (r, st')"
      "copied_out (ow_space object_world_example) MACH_MSG_TYPE_PORT_SEND False 0x40 ?v r (view_of st')" "rights_inv its_example [] st'"
    using copyout_exact [OF rights_inv_example calm_example(1) has_room_example bits_example(8) _ carried_example, of 0 False]
    by (auto simp: copyout_types_def)
  have one: "rv_entries ?v 1 = Some (entry_example 0x10001 0x40)" by (simp add: view_example all_entries_example)
  have only: "n = 1 \<and> e = entry_example 0x10001 0x40" if "rv_entries ?v n = Some e" "ie_object e = 0x40" for n e
    using that by (auto simp: view_example all_entries_example split: if_splits)
  have "\<exists>n. denotes named_types 0x40 (rv_entries ?v n)" by (rule exI [of _ 1]) (simp add: one type_example)
  then obtain n e kr where n: "rv_entries ?v n = Some e" "ie_object e = 0x40" "more_send False n e ?v = (kr, view_of st')"
      "r = (if kr = KERN_SUCCESS then Inr n else Inl kr)"
    using r(2) live_example(1) unfolding copied_out_def by auto
  note kr = n(3,4) [unfolded conjunct1 [OF only [OF n(1,2)]] conjunct2 [OF only [OF n(1,2)]]]
  have "(2 :: u32) \<noteq> MACH_PORT_UREFS_MAX" by (simp add: urefs_max)
  then have "kr = KERN_SUCCESS" and v': "view_of st' = map_port 0x40 merge_send (put_entry 1 (entry_example 0x10002 0x40) ?v)"
    using kr(1) by (simp_all add: more_send_def type_example bits_example sender_example)
  moreover have "entries (rs_space st') 1 = rv_entries (view_of st') 1" by (simp add: view_of_def)
  then have "entries (rs_space st') 1 = Some (entry_example 0x10002 0x40)" by (simp add: v')
  ultimately show ?thesis using r(1,3) kr(2) by auto
qed

text \<open>
  C12. Copying a send right out of a space and into it again, with \<open>rights_inv\<close>, room in the counters and the table, and no
  interference: if the name \<open>n\<close> has a send right on a live port, with a user reference count below its limit, the right that \<^verbatim>\<open>ipc_object_copyin\<close> copies comes back under the same name \<open>n\<close>, which has one user reference more; nothing else has changed,
  neither in the names nor in the ports.
\<close>

theorem copy_send_round_trip:
  assumes "rights_inv its sizes st" and "calm its w" and "room (view_of st)" and "has_room its (view_of st)"
    and "rv_entries (view_of st) n = Some e" and "ie_type e \<in> send_types" and "live (view_of st) (ie_object e)"
    and "IE_BITS_UREFS (ie_bits e) + 1 \<noteq> MACH_PORT_UREFS_MAX"
  shows "\<exists>st1 st2. ipc_object_copyin (ow_right w) st n MACH_MSG_TYPE_COPY_SEND = Some (Inr (ie_object e), st1) \<and>
    ipc_object_copyout w k st1 (ie_object e) MACH_MSG_TYPE_PORT_SEND ovf = Some (Inr n, st2) \<and>
    view_of st2 = put_entry n (e\<lparr>ie_bits := (ie_bits e OR MACH_PORT_TYPE_SEND) + 1\<rparr>) (view_of st) \<and> rights_inv its sizes st2"
  using copy_send_back [OF assms, of k ovf] unfolding sender_def .

theorem copy_send_round_trip_witness:
  "\<exists>st1 st2. ipc_object_copyin (ow_right object_world_example) rights_example 5 MACH_MSG_TYPE_COPY_SEND = Some (Inr 0x100, st1) \<and>
    ipc_object_copyout object_world_example 0 st1 0x100 MACH_MSG_TYPE_PORT_SEND False = Some (Inr 5, st2) \<and>
    view_of st2 = put_entry 5 (entry_example 0x10002 0x100) (view_of rights_example) \<and> rights_inv its_example [] st2"
proof -
  have e: "rv_entries (view_of rights_example) 5 = Some (entry_example 0x10001 0x100)" by (simp add: view_example all_entries_example)
  have "ie_type (entry_example 0x10001 0x100) \<in> send_types" by (simp add: type_example send_types_def)
  moreover have "IE_BITS_UREFS 0x10001 + 1 \<noteq> MACH_PORT_UREFS_MAX" by (simp add: bits_example urefs_max)
  ultimately show ?thesis
    using copy_send_round_trip [OF rights_inv_example calm_example(1) room_example has_room_example e, of 0 False] live_example(3)
    by (simp add: type_values)
qed

text \<open>
  C4. No sequence of calls on the names of a space makes the kernel fail: from a space with \<open>rights_inv\<close>, after any number of
  deallocations, changes of user references (not of receive rights), type queries, copyins and copyouts of send and send-once
  rights, with the ports changed by other spaces between the calls in any way that respects the rights and
  references of this space (ports may die), the invariant holds and each of these calls returns. A copyin must find no counter at
  its maximum, a copyout must bring a right that is outside of the space, with room for another name and nobody
  interfering during the call.
\<close>

theorem name_calls_never_fail:
  assumes "rights_inv its sizes st0" and "reach (name_call_run w) (name_call_ok its w) (other_spaces sizes) st0 st"
  shows "rights_inv its sizes st \<and> (name_call_ok its w c st \<longrightarrow> (\<exists>st'. name_call_run w c st = Some st' \<and> rights_inv its sizes st'))"
  using names.reach_inv [OF assms(2,1)] names.reach_returns [OF assms(2,1)] by blast

theorem name_calls_never_fail_witness:
  "\<exists>st st'. name_call_run object_world_example (Copyin 5 MACH_MSG_TYPE_COPY_SEND) rights_example = Some st \<and>
    name_call_run object_world_example (Deallocate 3) st = Some st' \<and> rights_inv its_example [] st'"
proof -
  let ?reach = "reach (name_call_run object_world_example) (name_call_ok its_example object_world_example) (other_spaces []) rights_example"
  have g: "name_call_ok its_example object_world_example (Copyin 5 MACH_MSG_TYPE_COPY_SEND) rights_example"
    "name_call_ok its_example object_world_example (Deallocate 3) st" for st
    using calm_example room_example by (simp_all add: copy_types_def)
  obtain st where st: "name_call_run object_world_example (Copyin 5 MACH_MSG_TYPE_COPY_SEND) rights_example = Some st"
    using name_calls_never_fail [OF rights_inv_example reach.start] g(1) by blast
  then have "?reach st" using reach.call [of "name_call_run object_world_example"] reach.start g(1) by metis
  from name_calls_never_fail [OF rights_inv_example this, of "Deallocate 3"] g(2) st show ?thesis by blast
qed

end
