(* ===== verification/Lmm.thy ===== *)
theory Lmm
  imports Mach_Prelude
begin

text \<open>
  The list memory manager of \<^verbatim>\<open>libmach/lmm\<close>, which hands out physical memory to the
  boot code and backs \<^verbatim>\<open>malloc\<close> in stand-alone programs.

  A pool is the list of its regions in list order. A region is its header: the address it lies at,
  its attributes, and the list of its free nodes, each with the address it lies at. The
  \<^verbatim>\<open>next\<close> links are the order of the lists, and a pointer to a link (\<^verbatim>\<open>nodep\<close>,
  \<^verbatim>\<open>rp\<close>) is a position in a list. Addresses and sizes are 32-bit words. The assertions
  are compiled in only when \<^verbatim>\<open>DEBUG\<close> is defined (\<^verbatim>\<open>lmm.h\<close>), so every
  operation takes the build as its first argument.
\<close>

unbundle bit_operations_syntax

subsection \<open>Headers and sizes\<close>

definition sizeof_lmm_region :: u32 where "sizeof_lmm_region = 24"

definition sizeof_lmm_node :: u32 where "sizeof_lmm_node = 8"

definition ALIGN_SIZE :: u32 where "ALIGN_SIZE = sizeof_lmm_node"

definition ALIGN_MASK :: u32 where "ALIGN_MASK = ALIGN_SIZE - 1"

record lmm_node =
  node_at :: u32
  node_size :: u32

record lmm_region =
  reg_at :: u32
  reg_nodes :: "lmm_node list"
  reg_flags :: u32
  reg_pri :: int
  reg_size :: u32
  reg_free :: u32

type_synonym lmm = "lmm_region list"

text \<open>The address a pointer to the first element of a list has: null when it is empty.\<close>

definition first_node :: "lmm_node list \<Rightarrow> u32" where
  "first_node ns = (case ns of [] \<Rightarrow> 0 | n # _ \<Rightarrow> node_at n)"

definition lmm_assert :: "bool \<Rightarrow> bool \<Rightarrow> unit option" where
  "lmm_assert DEBUG P = (if DEBUG then assert_that P else Some ())"

text \<open>The assertions that every search makes on a region and on a node.\<close>

definition region_checks :: "lmm_region \<Rightarrow> bool" where
  "region_checks reg \<longleftrightarrow>
     reg_at reg + sizeof_lmm_region \<le> first_node (reg_nodes reg) \<and>
     reg_free reg \<le> reg_size reg - sizeof_lmm_region"

definition node_checks :: "lmm_region \<Rightarrow> lmm_node \<Rightarrow> lmm_node list \<Rightarrow> bool" where
  "node_checks reg node rest \<longleftrightarrow>
     node_at node AND ALIGN_MASK = 0 \<and> node_size node AND ALIGN_MASK = 0 \<and>
     (first_node rest = 0 \<or> node_at node < first_node rest) \<and>
     node_at node < reg_at reg + reg_size reg"

subsection \<open>Setting up a pool\<close>

definition lmm_init :: lmm where "lmm_init = []"

definition lmm_add :: "lmm \<Rightarrow> u32 \<Rightarrow> u32 \<Rightarrow> u32 \<Rightarrow> int \<Rightarrow> lmm" where
  "lmm_add lmm min0 size0 flags pri =
     (let max1 = (min0 + size0) AND NOT ALIGN_MASK;
          min1 = (min0 + ALIGN_MASK) AND NOT ALIGN_MASK in
      if max1 < min1 \<or> max1 - min1 < sizeof_lmm_region + sizeof_lmm_node then lmm
      else let node = \<lparr>node_at = min1 + sizeof_lmm_region, node_size = max1 - (min1 + sizeof_lmm_region)\<rparr>;
               reg = \<lparr>reg_at = min1, reg_nodes = [node], reg_flags = flags, reg_pri = pri,
                      reg_size = max1 - min1, reg_free = node_size node\<rparr>;
               before = (\<lambda>r. pri < reg_pri r \<or> reg_pri r = pri \<and> reg_size reg < reg_size r) in
           if reg_at reg = 0 then takeWhile before lmm
           else takeWhile before lmm @ reg # dropWhile before lmm)"

subsection \<open>Allocation\<close>

text \<open>
  The loop over the nodes of a region gives the address found and the list that is left, or nothing
  when no node will do.
\<close>

fun alloc_nodes ::
  "bool \<Rightarrow> lmm_region \<Rightarrow> u32 \<Rightarrow> lmm_node list \<Rightarrow> (u32 \<times> lmm_node list) option option" where
  "alloc_nodes DEBUG reg sz [] = Some None"
| "alloc_nodes DEBUG reg sz (node # rest) =
     do { lmm_assert DEBUG (node_checks reg node rest);
          if sz \<le> node_size node
          then Some (Some (node_at node,
                 if sz < node_size node
                 then \<lparr>node_at = node_at node + sz, node_size = node_size node - sz\<rparr> # rest
                 else rest))
          else do { r \<leftarrow> alloc_nodes DEBUG reg sz rest;
                    Some (map_option (\<lambda>(addr, ns). (addr, node # ns)) r) } }"

fun alloc_regions :: "bool \<Rightarrow> u32 \<Rightarrow> u32 \<Rightarrow> lmm \<Rightarrow> (u32 \<times> lmm) option" where
  "alloc_regions DEBUG sz flags [] = Some (0, [])"
| "alloc_regions DEBUG sz flags (reg # regs) =
     do { lmm_assert DEBUG (region_checks reg);
          r \<leftarrow> (if flags AND NOT (reg_flags reg) \<noteq> 0 then Some None
                else alloc_nodes DEBUG reg sz (reg_nodes reg));
          case r of
            None \<Rightarrow> do { (addr, regs) \<leftarrow> alloc_regions DEBUG sz flags regs; Some (addr, reg # regs) }
          | Some (addr, ns) \<Rightarrow>
              do { lmm_assert DEBUG (sz \<le> reg_free reg);
                   Some (addr, reg\<lparr>reg_nodes := ns, reg_free := reg_free reg - sz\<rparr> # regs) } }"

definition lmm_alloc :: "bool \<Rightarrow> lmm \<Rightarrow> u32 \<Rightarrow> u32 \<Rightarrow> (u32 \<times> lmm) option" where
  "lmm_alloc DEBUG lmm sz flags =
     alloc_regions DEBUG ((sz + ALIGN_MASK) AND NOT ALIGN_MASK) flags lmm"

subsection \<open>Allocation with constraints\<close>

text \<open>The alignment loop, bit \<open>i\<close> up to \<open>align_bits\<close>.\<close>

fun align_loop :: "u32 \<Rightarrow> u32 \<Rightarrow> nat list \<Rightarrow> u32" where
  "align_loop addr align_ofs [] = addr"
| "align_loop addr align_ofs (i # is) =
     (let b = push_bit i 1 in
      align_loop (if (addr XOR align_ofs) AND b \<noteq> 0 then addr + b else addr) align_ofs is)"

text \<open>
  The body of the node loop once a node is chosen: split off what lies before the block, cut the
  block off the front of the rest. The result is the size taken and the nodes that are left.
\<close>

definition carve :: "bool \<Rightarrow> lmm_node \<Rightarrow> u32 \<Rightarrow> u32 \<Rightarrow> (u32 \<times> lmm_node list) option" where
  "carve DEBUG node addr sz =
     (let anode = addr AND NOT ALIGN_MASK in
      do { lmm_assert DEBUG (node_at node \<le> anode);
           let split_size = anode - node_at node;
           lmm_assert DEBUG (node_at node < anode \<longrightarrow> split_size AND ALIGN_MASK = 0);
           let (head, asize) = (if node_at node < anode
                                then ([node\<lparr>node_size := split_size\<rparr>], node_size node - split_size)
                                else ([], node_size node));
           let taken = ((addr AND ALIGN_MASK) + sz + ALIGN_MASK) AND NOT ALIGN_MASK;
           Some (taken, head @ (if taken < asize
                                then [\<lparr>node_at = anode + taken, node_size = asize - taken\<rparr>]
                                else [])) })"

fun alloc_gen_nodes ::
  "bool \<Rightarrow> lmm_region \<Rightarrow> u32 \<Rightarrow> nat \<Rightarrow> u32 \<Rightarrow> u32 \<Rightarrow> u32 \<Rightarrow> lmm_node list \<Rightarrow>
     (u32 \<times> u32 \<times> lmm_node list) option option" where
  "alloc_gen_nodes DEBUG reg sz align_bits align_ofs in_min in_max [] = Some None"
| "alloc_gen_nodes DEBUG reg sz align_bits align_ofs in_min in_max (node # rest) =
     do { lmm_assert DEBUG (node_checks reg node rest);
          let addr = align_loop (if node_at node < in_min then in_min else node_at node)
                       align_ofs [0..<align_bits];
          if node_size node < sz \<or> node_size node < addr - node_at node + sz
          then do { r \<leftarrow> alloc_gen_nodes DEBUG reg sz align_bits align_ofs in_min in_max rest;
                    Some (map_option (\<lambda>(addr, taken, ns). (addr, taken, node # ns)) r) }
          else if in_max < addr + sz then Some None
          else do { (taken, ns) \<leftarrow> carve DEBUG node addr sz;
                    Some (Some (addr, taken, ns @ rest)) } }"

fun alloc_gen_regions ::
  "bool \<Rightarrow> u32 \<Rightarrow> u32 \<Rightarrow> nat \<Rightarrow> u32 \<Rightarrow> u32 \<Rightarrow> u32 \<Rightarrow> lmm \<Rightarrow> (u32 \<times> lmm) option" where
  "alloc_gen_regions DEBUG sz flags align_bits align_ofs in_min in_max [] = Some (0, [])"
| "alloc_gen_regions DEBUG sz flags align_bits align_ofs in_min in_max (reg # regs) =
     do { lmm_assert DEBUG (region_checks reg);
          r \<leftarrow> (if flags AND NOT (reg_flags reg) \<noteq> 0 \<or> in_max \<le> reg_at reg \<or>
                    reg_at reg + reg_size reg \<le> in_min then Some None
                else alloc_gen_nodes DEBUG reg sz align_bits align_ofs in_min in_max (reg_nodes reg));
          case r of
            None \<Rightarrow> do { (addr, regs) \<leftarrow>
                           alloc_gen_regions DEBUG sz flags align_bits align_ofs in_min in_max regs;
                         Some (addr, reg # regs) }
          | Some (addr, taken, ns) \<Rightarrow>
              do { lmm_assert DEBUG (taken \<le> reg_free reg);
                   Some (addr, reg\<lparr>reg_nodes := ns, reg_free := reg_free reg - taken\<rparr> # regs) } }"

text \<open>Shifting by the width of the operand or more is undefined in C.\<close>

definition lmm_alloc_gen ::
  "bool \<Rightarrow> lmm \<Rightarrow> u32 \<Rightarrow> u32 \<Rightarrow> nat \<Rightarrow> u32 \<Rightarrow> u32 \<Rightarrow> u32 \<Rightarrow> (u32 \<times> lmm) option" where
  "lmm_alloc_gen DEBUG lmm sz flags align_bits align_ofs in_min in_size =
     do { assert_that (align_bits < 32);
          alloc_gen_regions DEBUG sz flags align_bits align_ofs in_min (in_min + in_size) lmm }"

definition lmm_alloc_aligned ::
  "bool \<Rightarrow> lmm \<Rightarrow> u32 \<Rightarrow> u32 \<Rightarrow> nat \<Rightarrow> u32 \<Rightarrow> (u32 \<times> lmm) option" where
  "lmm_alloc_aligned DEBUG lmm sz flags align_bits align_ofs =
     lmm_alloc_gen DEBUG lmm sz flags align_bits align_ofs 0 (- 1)"

definition lmm_alloc_page :: "bool \<Rightarrow> lmm \<Rightarrow> u32 \<Rightarrow> (u32 \<times> lmm) option" where
  "lmm_alloc_page DEBUG lmm flags = lmm_alloc_gen DEBUG lmm 4096 flags 12 0 0 (- 1)"

subsection \<open>Queries\<close>

fun avail_loop :: "bool \<Rightarrow> u32 \<Rightarrow> u32 \<Rightarrow> lmm \<Rightarrow> u32 option" where
  "avail_loop DEBUG flags c [] = Some c"
| "avail_loop DEBUG flags c (reg # regs) =
     (if flags AND NOT (reg_flags reg) \<noteq> 0 then avail_loop DEBUG flags c regs
      else do { lmm_assert DEBUG (region_checks reg);
                avail_loop DEBUG flags (c + reg_free reg) regs })"

definition lmm_avail :: "bool \<Rightarrow> lmm \<Rightarrow> u32 \<Rightarrow> u32 option" where
  "lmm_avail DEBUG lmm flags = avail_loop DEBUG flags 0 lmm"

text \<open>The running minimum of the search: address, size and flags.\<close>

fun find_nodes ::
  "bool \<Rightarrow> lmm_region \<Rightarrow> u32 \<Rightarrow> u32 \<times> u32 \<times> u32 \<Rightarrow> lmm_node list \<Rightarrow> (u32 \<times> u32 \<times> u32) option" where
  "find_nodes DEBUG reg start_addr low [] = Some low"
| "find_nodes DEBUG reg start_addr low (node # rest) =
     do { lmm_assert DEBUG (reg_at reg < node_at node);
          lmm_assert DEBUG (node_at node < reg_at reg + reg_size reg);
          if fst low \<le> node_at node then Some low
          else if start_addr < node_at node + node_size node
          then Some (if start_addr < node_at node
                     then (node_at node, node_size node, reg_flags reg)
                     else (start_addr, node_size node - (start_addr - node_at node), reg_flags reg))
          else find_nodes DEBUG reg start_addr low rest }"

fun find_regions :: "bool \<Rightarrow> u32 \<Rightarrow> u32 \<times> u32 \<times> u32 \<Rightarrow> lmm \<Rightarrow> (u32 \<times> u32 \<times> u32) option" where
  "find_regions DEBUG start_addr low [] = Some low"
| "find_regions DEBUG start_addr low (reg # regs) =
     (if reg_nodes reg = [] \<or> reg_at reg + reg_size reg \<le> start_addr \<or> fst low < reg_at reg
      then find_regions DEBUG start_addr low regs
      else do { low \<leftarrow> find_nodes DEBUG reg start_addr low (reg_nodes reg);
                find_regions DEBUG start_addr low regs })"

definition lmm_find_free :: "bool \<Rightarrow> lmm \<Rightarrow> u32 \<Rightarrow> (u32 \<times> u32 \<times> u32) option" where
  "lmm_find_free DEBUG lmm addr =
     find_regions DEBUG ((addr + ALIGN_MASK) AND NOT ALIGN_MASK) (- 1, 0, 0) lmm"

text \<open>\<^verbatim>\<open>lmm_dump\<close> without its output: the checks it makes.\<close>

fun dump_nodes :: "lmm_region \<Rightarrow> u32 \<Rightarrow> lmm_node list \<Rightarrow> u32 option" where
  "dump_nodes reg free_check [] = Some free_check"
| "dump_nodes reg free_check (node # rest) =
     do { assert_that (node_checks reg node rest);
          dump_nodes reg (free_check + node_size node) rest }"

fun lmm_dump :: "lmm \<Rightarrow> unit option" where
  "lmm_dump [] = Some ()"
| "lmm_dump (reg # regs) =
     do { assert_that (region_checks reg);
          free_check \<leftarrow> dump_nodes reg 0 (reg_nodes reg);
          assert_that (reg_free reg = free_check);
          lmm_dump regs }"

subsection \<open>Freeing\<close>

text \<open>
  Insertion into the list of free nodes: \<open>prevnode\<close> and the nodes from \<^verbatim>\<open>nextnode\<close> on.
  Both branches compare the end of the block with \<^verbatim>\<open>nextnode\<close> and follow it, also
  when it is null; a null pointer is address 0 and reading through it has no result.
\<close>

definition free_insert ::
  "bool \<Rightarrow> lmm_node list \<Rightarrow> u32 \<Rightarrow> u32 \<Rightarrow> lmm_node list \<Rightarrow> lmm_node list option" where
  "free_insert DEBUG prev node sz nextnodes =
     (if prev \<noteq> [] \<and> node \<le> node_at (last prev) + node_size (last prev)
      then do { lmm_assert DEBUG (node_at (last prev) + node_size (last prev) = node);
                if first_node nextnodes \<le> node + sz
                then do { lmm_assert DEBUG (node + sz = first_node nextnodes);
                          case nextnodes of
                            [] \<Rightarrow> None
                          | nextnode # rest \<Rightarrow>
                              Some (butlast prev @
                                (last prev)\<lparr>node_size := node_size (last prev) + (sz + node_size nextnode)\<rparr> # rest) }
                else Some (butlast prev @ (last prev)\<lparr>node_size := node_size (last prev) + sz\<rparr> # nextnodes) }
      else if first_node nextnodes \<le> node + sz
      then (case nextnodes of
              [] \<Rightarrow> None
            | nextnode # rest \<Rightarrow>
                Some (prev @ \<lparr>node_at = node, node_size = sz + node_size nextnode\<rparr> # rest))
      else Some (prev @ \<lparr>node_at = node, node_size = sz\<rparr> # nextnodes))"

text \<open>The loop over the regions has no exit at the end of the list.\<close>

fun free_regions :: "bool \<Rightarrow> u32 \<Rightarrow> u32 \<Rightarrow> lmm \<Rightarrow> lmm option" where
  "free_regions DEBUG node sz [] = None"
| "free_regions DEBUG node sz (reg # regs) =
     do { lmm_assert DEBUG (region_checks reg);
          if reg_at reg \<le> node \<and> node < reg_at reg + reg_size reg
          then do { let fre = reg_free reg + sz;
                    lmm_assert DEBUG (fre \<le> reg_size reg - sizeof_lmm_region);
                    ns \<leftarrow> free_insert DEBUG (takeWhile (\<lambda>n. node_at n < node) (reg_nodes reg)) node sz
                           (dropWhile (\<lambda>n. node_at n < node) (reg_nodes reg));
                    Some (reg\<lparr>reg_nodes := ns, reg_free := fre\<rparr> # regs) }
          else do { regs \<leftarrow> free_regions DEBUG node sz regs; Some (reg # regs) } }"

definition lmm_free :: "bool \<Rightarrow> lmm \<Rightarrow> u32 \<Rightarrow> u32 \<Rightarrow> lmm option" where
  "lmm_free DEBUG lmm block sz =
     free_regions DEBUG (block AND NOT ALIGN_MASK)
       (((block AND ALIGN_MASK) + sz + ALIGN_MASK) AND NOT ALIGN_MASK) lmm"

end
