(* ===== verification/Lmm_Inv.thy ===== *)
theory Lmm_Inv
  imports Lmm
begin

text \<open>
The invariant of a pool of the list memory manager and what an allocation does to it: free nodes are aligned, in address order and never adjacent, regions do not overlap, and the counter of a region is the size of its free nodes. First fit allocation (\<^verbatim>\<open>lmm_alloc\<close>) is proved against it.
\<close>

subsection \<open>Addresses as numbers\<close>

named_theorems addr_simps \<open>words as natural numbers\<close>

lemma uadd: "unat a + unat b < 4294967296 \<Longrightarrow> unat (a + b :: u32) = unat a + unat b"
  by (simp add: unat_plus_if')

lemma usub: "b \<le> a \<Longrightarrow> unat (a - b :: u32) = unat a - unat b"
  by (rule unat_sub)

lemma unat_bound: "unat (a :: u32) < 4294967296"
  using unsigned_less [of a] by simp

lemmas word_nat [addr_simps] = word_le_nat_alt word_less_nat_alt

lemma sizes [addr_simps]:
  "unat sizeof_lmm_region = 24" "unat sizeof_lmm_node = 8" "unat ALIGN_MASK = 7"
  by (simp_all add: sizeof_lmm_region_def sizeof_lmm_node_def ALIGN_MASK_def ALIGN_SIZE_def)

lemma ALIGN_MASK_mask: "ALIGN_MASK = mask 3"
  by (simp add: ALIGN_MASK_def ALIGN_SIZE_def sizeof_lmm_node_def mask_eq_exp_minus_1)

lemma unat_and_mask [addr_simps]: "unat (a AND ALIGN_MASK) = unat a mod 8"
  unfolding ALIGN_MASK_mask take_bit_eq_mask [symmetric] unsigned_take_bit_eq
  by (simp add: take_bit_eq_mod)

lemma unat_align_down [addr_simps]: "unat (a AND NOT ALIGN_MASK) = unat a - unat a mod 8"
proof -
  have "a AND NOT ALIGN_MASK = a AND NOT (a AND ALIGN_MASK)"
    by (rule bit_eqI) (auto simp: bit_and_iff bit_or_iff bit_not_iff)
  also have "\<dots> = a - (a AND ALIGN_MASK)"
    by (rule disjunctive_diff [symmetric]) (simp add: bit_and_iff)
  finally show ?thesis by (simp add: usub word_nat unat_and_mask)
qed

lemma unat_align_up:
  "unat a + 7 < 4294967296 \<Longrightarrow>
   unat ((a + ALIGN_MASK) AND NOT ALIGN_MASK) = (unat a + 7) - (unat a + 7) mod 8"
  by (simp add: unat_align_down uadd sizes)

lemma and_mask_0 [addr_simps]: "a AND ALIGN_MASK = 0 \<longleftrightarrow> 8 dvd unat a"
  by (simp add: dvd_eq_mod_eq_0 unat_and_mask [symmetric] unat_eq_0)

lemma dvd_align_down: "(8::nat) dvd a - a mod 8"
  by (rule dvd_minus_mod)

subsection \<open>The invariant of a pool\<close>

abbreviation node_end :: "lmm_node \<Rightarrow> nat" where
  "node_end n \<equiv> unat (node_at n) + unat (node_size n)"

definition node_bytes :: "lmm_node \<Rightarrow> nat set" where
  "node_bytes n = {unat (node_at n)..<node_end n}"

definition nodes_bytes :: "lmm_node list \<Rightarrow> nat set" where
  "nodes_bytes ns = (\<Union>n \<in> set ns. node_bytes n)"

text \<open>Free nodes are aligned, not empty, in address order, and never adjacent.\<close>

fun nodes_ok :: "nat \<Rightarrow> nat \<Rightarrow> lmm_node list \<Rightarrow> bool" where
  "nodes_ok lo hi [] \<longleftrightarrow> True"
| "nodes_ok lo hi (n # ns) \<longleftrightarrow>
     lo \<le> unat (node_at n) \<and> 8 dvd unat (node_at n) \<and> 8 dvd unat (node_size n) \<and>
     0 < unat (node_size n) \<and> node_end n \<le> hi \<and> nodes_ok (node_end n + 1) hi ns"

abbreviation region_end :: "lmm_region \<Rightarrow> nat" where
  "region_end r \<equiv> unat (reg_at r) + unat (reg_size r)"

abbreviation node_area :: "lmm_region \<Rightarrow> nat \<times> nat" where
  "node_area r \<equiv> (unat (reg_at r) + 24, region_end r)"

definition region_ok :: "lmm_region \<Rightarrow> bool" where
  "region_ok r \<longleftrightarrow>
     0 < unat (reg_at r) \<and> 8 dvd unat (reg_at r) \<and> 8 dvd unat (reg_size r) \<and>
     24 \<le> unat (reg_size r) \<and> region_end r < 4294967296 \<and>
     nodes_ok (unat (reg_at r) + 24) (region_end r) (reg_nodes r) \<and>
     unat (reg_free r) = (\<Sum>n \<leftarrow> reg_nodes r. unat (node_size n))"

definition region_bytes :: "lmm_region \<Rightarrow> nat set" where
  "region_bytes r = {unat (reg_at r)..<region_end r}"

text \<open>What the list order of the regions promises: descending priority, then descending size.\<close>

definition region_order :: "lmm_region \<Rightarrow> lmm_region \<Rightarrow> bool" where
  "region_order r s \<longleftrightarrow> reg_pri s < reg_pri r \<or> reg_pri r = reg_pri s \<and> reg_size s \<le> reg_size r"

definition lmm_ok :: "lmm \<Rightarrow> bool" where
  "lmm_ok lmm \<longleftrightarrow> list_all region_ok lmm \<and>
     sorted_wrt (\<lambda>r s. region_bytes r \<inter> region_bytes s = {}) lmm \<and> sorted_wrt region_order lmm"

definition free_bytes :: "lmm \<Rightarrow> nat set" where
  "free_bytes lmm = (\<Union>r \<in> set lmm. nodes_bytes (reg_nodes r))"

text \<open>The header of a region, which allocation and freeing do not touch.\<close>

definition header :: "lmm_region \<Rightarrow> u32 \<times> u32 \<times> int \<times> u32" where
  "header r = (reg_at r, reg_flags r, reg_pri r, reg_size r)"

subsection \<open>Lists of free nodes\<close>

lemma nodes_bytes_simps [simp]:
  "nodes_bytes [] = {}" "nodes_bytes (n # ns) = node_bytes n \<union> nodes_bytes ns"
  "nodes_bytes (xs @ ys) = nodes_bytes xs \<union> nodes_bytes ys"
  by (auto simp: nodes_bytes_def)

lemma nodes_ok_lower: "nodes_ok lo hi ns \<Longrightarrow> lo' \<le> lo \<Longrightarrow> nodes_ok lo' hi ns"
  by (cases ns) auto

lemma nodes_ok_bytes: "nodes_ok lo hi ns \<Longrightarrow> nodes_bytes ns \<subseteq> {lo..<hi}"
  by (induction ns arbitrary: lo) (fastforce simp: node_bytes_def)+

lemma nodes_ok_in:
  "nodes_ok lo hi ns \<Longrightarrow> n \<in> set ns \<Longrightarrow>
   lo \<le> unat (node_at n) \<and> 8 dvd unat (node_at n) \<and> 8 dvd unat (node_size n) \<and>
   0 < unat (node_size n) \<and> node_end n \<le> hi"
  by (induction ns arbitrary: lo) fastforce+

lemma nodes_ok_append:
  "nodes_ok lo hi (xs @ ys) \<longleftrightarrow>
   nodes_ok lo hi xs \<and> nodes_ok (if xs = [] then lo else node_end (last xs) + 1) hi ys"
  by (induction xs arbitrary: lo) auto

lemma node_bytes_card [simp]: "card (node_bytes n) = unat (node_size n)" "finite (node_bytes n)"
  by (simp_all add: node_bytes_def)

lemma nodes_bytes_finite [simp]: "finite (nodes_bytes ns)"
  by (simp add: nodes_bytes_def)

lemma nodes_ok_card:
  "nodes_ok lo hi ns \<Longrightarrow> card (nodes_bytes ns) = (\<Sum>n \<leftarrow> ns. unat (node_size n))"
proof (induction ns arbitrary: lo)
  case (Cons n ns)
  then have "node_bytes n \<inter> nodes_bytes ns = {}"
    using nodes_ok_bytes [of "node_end n + 1" hi ns] by (fastforce simp: node_bytes_def)
  moreover have "card (nodes_bytes ns) = (\<Sum>n \<leftarrow> ns. unat (node_size n))"
    using Cons.prems by (intro Cons.IH [of "node_end n + 1"]) simp
  ultimately show ?case by (simp add: card_Un_disjoint)
qed simp

text \<open>A list of free nodes is determined by the bytes it covers.\<close>

lemma nodes_ok_first:
  assumes "nodes_ok lo hi (n # ns)"
  shows "unat (node_at n) \<in> nodes_bytes (n # ns)" "\<forall>x \<in> nodes_bytes (n # ns). unat (node_at n) \<le> x"
    "node_end n \<notin> nodes_bytes (n # ns)"
    "\<forall>x. unat (node_at n) \<le> x \<and> x < node_end n \<longrightarrow> x \<in> nodes_bytes (n # ns)"
proof -
  have "nodes_bytes ns \<subseteq> {node_end n + 1..<hi}" using assms nodes_ok_bytes by auto
  then have "\<forall>x \<in> nodes_bytes ns. node_end n < x" by fastforce
  then show "unat (node_at n) \<in> nodes_bytes (n # ns)" "\<forall>x \<in> nodes_bytes (n # ns). unat (node_at n) \<le> x"
    "node_end n \<notin> nodes_bytes (n # ns)"
    "\<forall>x. unat (node_at n) \<le> x \<and> x < node_end n \<longrightarrow> x \<in> nodes_bytes (n # ns)"
    using assms by (auto simp: node_bytes_def)
qed

lemma nodes_ok_canonical:
  assumes "nodes_ok lo hi xs" "nodes_ok lo' hi' ys" "nodes_bytes xs = nodes_bytes ys"
  shows "xs = ys"
  using assms
proof (induction xs arbitrary: lo lo' ys)
  case Nil
  then show ?case by (cases ys) (auto simp: node_bytes_def)
next
  case (Cons x xs)
  obtain y ys' where ys: "ys = y # ys'"
    using Cons.prems nodes_ok_first(1) [OF Cons.prems(1)] by (cases ys) auto
  note fx = nodes_ok_first [OF Cons.prems(1)] and fy = nodes_ok_first [OF Cons.prems(2) [unfolded ys]]
  have same: "nodes_bytes (x # xs) = nodes_bytes (y # ys')" using Cons.prems(3) ys by simp
  have at: "unat (node_at x) = unat (node_at y)"
    using fx(1,2) fy(1,2) same by (metis order_antisym)
  have "node_end x = node_end y"
    by (rule ccontr) (metis fx(3,4) fy(3,4) same at le_add1 linorder_neqE_nat)
  with at have xy: "x = y" by (intro lmm_node.equality) (simp_all add: word_unat_eq_iff)
  have "nodes_bytes zs = nodes_bytes (x # zs) - node_bytes x" if "nodes_ok (node_end x + 1) h zs" for zs h
    using nodes_ok_bytes [OF that] by (fastforce simp: node_bytes_def)
  then have "nodes_bytes xs = nodes_bytes ys'"
    using Cons.prems(1,2) same unfolding ys xy by (metis nodes_ok.simps(2))
  with Cons.IH [of "node_end x + 1" "node_end x + 1" ys'] Cons.prems(1,2) ys xy show ?case by simp
qed

subsection \<open>Taking a block out of the free nodes\<close>

definition no_exhausted :: "bool \<Rightarrow> lmm \<Rightarrow> bool" where
  "no_exhausted DEBUG lmm \<longleftrightarrow> (DEBUG \<longrightarrow> (\<forall>r \<in> set lmm. reg_nodes r \<noteq> []))"

lemma lmm_assert_ok [simp]: "P \<Longrightarrow> lmm_assert DEBUG P = Some ()" "lmm_assert False P = Some ()"
  by (simp_all add: lmm_assert_def)

lemma region_ok_D:
  assumes "region_ok r"
  shows "nodes_ok (unat (reg_at r) + 24) (region_end r) (reg_nodes r)" "region_end r < 4294967296"
    "unat (reg_at r + reg_size r) = region_end r" "unat (reg_at r + sizeof_lmm_region) = unat (reg_at r) + 24"
    "card (nodes_bytes (reg_nodes r)) = unat (reg_free r)"
    "nodes_bytes (reg_nodes r) \<subseteq> {unat (reg_at r) + 24..<region_end r}"
proof -
  show nodes: "nodes_ok (unat (reg_at r) + 24) (region_end r) (reg_nodes r)"
    and lt: "region_end r < 4294967296" using assms by (auto simp: region_ok_def)
  show "unat (reg_at r + reg_size r) = region_end r" using lt by (simp add: uadd)
  show "unat (reg_at r + sizeof_lmm_region) = unat (reg_at r) + 24"
    using assms lt by (simp add: uadd sizes region_ok_def)
  show "card (nodes_bytes (reg_nodes r)) = unat (reg_free r)"
    using assms nodes_ok_card [OF nodes] by (simp add: region_ok_def)
  show "nodes_bytes (reg_nodes r) \<subseteq> {unat (reg_at r) + 24..<region_end r}"
    by (rule nodes_ok_bytes [OF nodes])
qed

lemma region_checks_ok:
  assumes "region_ok r" "reg_nodes r \<noteq> []"
  shows "region_checks r"
proof -
  obtain n ns where n: "reg_nodes r = n # ns" using assms(2) by (cases "reg_nodes r") auto
  have "unat (reg_at r) + 24 \<le> unat (node_at n)" using region_ok_D(1) [OF assms(1)] n by simp
  moreover have "card (nodes_bytes (reg_nodes r)) \<le> card {unat (reg_at r) + 24..<region_end r}"
    by (rule card_mono) (use region_ok_D(6) [OF assms(1)] in auto)
  then have "unat (reg_free r) \<le> unat (reg_size r) - 24" using region_ok_D(5) [OF assms(1)] by simp
  moreover have "24 \<le> unat (reg_size r)" using assms(1) by (simp add: region_ok_def)
  ultimately show ?thesis using region_ok_D(4) [OF assms(1)]
    by (simp add: region_checks_def first_node_def n word_nat sizes usub)
qed

lemma node_checks_ok:
  assumes "region_ok r" "nodes_ok lo (region_end r) (n # ns)"
  shows "node_checks r n ns"
proof -
  have "unat (node_at n) < unat (first_node ns)" if "ns \<noteq> []"
    using assms(2) that by (cases ns) (auto simp: first_node_def)
  then show ?thesis using assms(2) region_ok_D(3) [OF assms(1)]
    by (cases "ns = []") (auto simp: node_checks_def and_mask_0 word_nat first_node_def)
qed

text \<open>The nodes \<open>ns'\<close> are \<open>ns\<close> without the bytes \<open>B\<close>.\<close>

definition takes :: "nat \<Rightarrow> nat \<Rightarrow> lmm_node list \<Rightarrow> nat set \<Rightarrow> lmm_node list \<Rightarrow> bool" where
  "takes lo hi ns B ns' \<longleftrightarrow> nodes_ok lo hi ns' \<and> B \<subseteq> nodes_bytes ns \<and> nodes_bytes ns' = nodes_bytes ns - B"

lemma takes_Cons:
  assumes "nodes_ok lo hi (n # ns)" "takes (node_end n + 1) hi ns B ns'"
  shows "takes lo hi (n # ns) B (n # ns')"
proof -
  have "B \<inter> node_bytes n = {}"
    using assms nodes_ok_bytes [of "node_end n + 1" hi ns] by (fastforce simp: takes_def node_bytes_def)
  then show ?thesis using assms by (auto simp: takes_def)
qed

lemma takes_lower: "takes lo hi ns B ns' \<Longrightarrow> lo' \<le> lo \<Longrightarrow> takes lo' hi ns B ns'"
  by (auto simp: takes_def intro: nodes_ok_lower)

lemma takes_front:
  assumes "nodes_ok lo hi (n # ns)" "8 dvd k" "unat a = unat (node_at n) + k"
    "k + unat s = unat (node_size n)"
  shows "takes (unat (node_at n) + k) hi (n # ns) {unat (node_at n)..<unat (node_at n) + k}
           (if s = 0 then ns else \<lparr>node_at = a, node_size = s\<rparr> # ns)"
proof -
  have rest: "nodes_bytes ns \<subseteq> {node_end n + 1..<hi}" using assms(1) nodes_ok_bytes by auto
  have fin: "unat a + unat s = node_end n" using assms(3,4) by simp
  have s: "8 dvd unat s" using assms(1,2,4) by (metis dvd_add_right_iff nodes_ok.simps(2))
  have ok: "nodes_ok (unat (node_at n) + k) hi (if s = 0 then ns else \<lparr>node_at = a, node_size = s\<rparr> # ns)"
    using assms(1-3) s fin by (auto simp: unat_gt_0 intro: nodes_ok_lower)
  have new: "node_bytes \<lparr>node_at = a, node_size = s\<rparr> = {unat a..<node_end n}"
    using fin by (simp add: node_bytes_def)
  have old: "node_bytes n = {unat (node_at n)..<unat a} \<union> {unat a..<node_end n}"
    using assms(3) fin by (auto simp: node_bytes_def)
  have B: "{unat (node_at n)..<unat (node_at n) + k} = {unat (node_at n)..<unat a}" using assms(3) by simp
  have "unat a \<le> node_end n" using fin by simp
  then have out: "nodes_bytes ns \<inter> {unat (node_at n)..<unat a} = {}" using rest by fastforce
  have dis: "{unat a..<node_end n} \<inter> {unat (node_at n)..<unat a} = {}" by auto
  have z: "{unat a..<node_end n} = {}" if "s = 0" using that fin by simp
  show ?thesis unfolding takes_def B
  proof (intro conjI ok)
    show "nodes_bytes (if s = 0 then ns else \<lparr>node_at = a, node_size = s\<rparr> # ns) =
      nodes_bytes (n # ns) - {unat (node_at n)..<unat a}"
      using new old z by (cases "s = 0") (simp_all add: Un_Diff Diff_triv [OF out] Diff_triv [OF dis])
  qed (use old in auto)
qed

lemma alloc_nodes_ok:
  assumes "region_ok reg" "nodes_ok lo (region_end reg) ns" "8 dvd unat sz"
  shows "\<exists>r. alloc_nodes DEBUG reg sz ns = Some r \<and>
    (case r of None \<Rightarrow> \<forall>n \<in> set ns. node_size n < sz
     | Some (addr, ns') \<Rightarrow> (\<exists>n \<in> set ns. node_at n = addr \<and> sz \<le> node_size n) \<and>
          takes lo (region_end reg) ns {unat addr..<unat addr + unat sz} ns')"
  using assms(2)
proof (induction ns arbitrary: lo)
  case (Cons n ns)
  have chk: "node_checks reg n ns" by (rule node_checks_ok [OF assms(1) Cons.prems])
  show ?case
  proof (cases "sz \<le> node_size n")
    case True
    have hi: "region_end reg < 4294967296" using region_ok_D(2) [OF assms(1)] .
    have nsz: "node_end n \<le> region_end reg" using Cons.prems by simp
    have k: "unat (node_at n + sz) = unat (node_at n) + unat sz"
      using True hi nsz by (simp add: uadd word_nat)
    have s: "unat sz + unat (node_size n - sz) = unat (node_size n)"
      using True by (simp add: usub word_nat)
    have z: "node_size n - sz = 0 \<longleftrightarrow> \<not> sz < node_size n" using True by auto
    have "takes lo (region_end reg) (n # ns) {unat (node_at n)..<unat (node_at n) + unat sz}
      (if sz < node_size n then \<lparr>node_at = node_at n + sz, node_size = node_size n - sz\<rparr> # ns else ns)"
      using takes_lower [OF takes_front [OF Cons.prems assms(3) k s], of lo] Cons.prems unfolding z
      by (simp split: if_splits)
    with True chk show ?thesis by auto
  next
    case False
    have "nodes_ok (node_end n + 1) (region_end reg) ns" using Cons.prems by simp
    from Cons.IH [OF this] obtain r where r: "alloc_nodes DEBUG reg sz ns = Some r"
      "case r of None \<Rightarrow> \<forall>n \<in> set ns. node_size n < sz
       | Some (addr, ns') \<Rightarrow> (\<exists>n \<in> set ns. node_at n = addr \<and> sz \<le> node_size n) \<and>
          takes (node_end n + 1) (region_end reg) ns {unat addr..<unat addr + unat sz} ns'"
      by blast
    then show ?thesis using False chk takes_Cons [OF Cons.prems]
      by (cases r) (auto simp: not_le)
  qed
qed simp

subsection \<open>Taking a block out of a pool\<close>

definition lmm_takes :: "lmm \<Rightarrow> nat set \<Rightarrow> lmm \<Rightarrow> bool" where
  "lmm_takes lmm B lmm' \<longleftrightarrow> lmm_ok lmm' \<and> map header lmm' = map header lmm \<and>
     B \<subseteq> free_bytes lmm \<and> free_bytes lmm' = free_bytes lmm - B"

lemma lmm_ok_Cons:
  "lmm_ok (r # rs) \<longleftrightarrow> region_ok r \<and> (\<forall>s \<in> set rs. region_bytes r \<inter> region_bytes s = {}) \<and>
     (\<forall>s \<in> set rs. region_order r s) \<and> lmm_ok rs"
  by (auto simp: lmm_ok_def)

lemma lmm_ok_region: "lmm_ok lmm \<Longrightarrow> r \<in> set lmm \<Longrightarrow> region_ok r"
  by (simp add: lmm_ok_def list_all_iff)

lemma free_bytes_simps [simp]:
  "free_bytes [] = {}" "free_bytes (r # rs) = nodes_bytes (reg_nodes r) \<union> free_bytes rs"
  by (auto simp: free_bytes_def)

lemma header_eq:
  assumes "header r = header s"
  shows "region_bytes r = region_bytes s" "region_order q r = region_order q s" "reg_at r = reg_at s"
    "reg_flags r = reg_flags s" "reg_size r = reg_size s" "reg_pri r = reg_pri s"
  using assms by (auto simp: header_def region_bytes_def region_order_def)

lemma same_headers:
  assumes "map header rs' = map header rs" "s' \<in> set rs'"
  obtains s where "s \<in> set rs" "header s' = header s"
proof -
  have "header s' \<in> set (map header rs')" using assms(2) by simp
  then have "header s' \<in> set (map header rs)" unfolding assms(1) .
  then show ?thesis using that by auto
qed

lemma nodes_in_region: "region_ok r \<Longrightarrow> nodes_bytes (reg_nodes r) \<subseteq> region_bytes r"
  using region_ok_D(6) [of r] by (fastforce simp: region_bytes_def)

lemma free_bytes_apart:
  assumes "lmm_ok (r # rs)"
  shows "nodes_bytes (reg_nodes r) \<inter> free_bytes rs = {}"
proof -
  have "nodes_bytes (reg_nodes r) \<inter> nodes_bytes (reg_nodes s) = {}" if "s \<in> set rs" for s
    using assms that nodes_in_region [of r] nodes_in_region [of s] lmm_ok_region [of rs s]
    unfolding lmm_ok_Cons by blast
  then show ?thesis by (auto simp: free_bytes_def)
qed

lemma region_unique:
  "lmm_ok lmm \<Longrightarrow> r \<in> set lmm \<Longrightarrow> s \<in> set lmm \<Longrightarrow> x \<in> region_bytes r \<Longrightarrow> x \<in> region_bytes s \<Longrightarrow> r = s"
  by (induction lmm) (auto simp: lmm_ok_Cons)

lemma region_take:
  assumes "region_ok r" "takes (unat (reg_at r) + 24) (region_end r) (reg_nodes r) B ns'" "card B = unat sz"
  shows "sz \<le> reg_free r" "region_ok (r\<lparr>reg_nodes := ns', reg_free := reg_free r - sz\<rparr>)"
proof -
  have sub: "B \<subseteq> nodes_bytes (reg_nodes r)" and ok: "nodes_ok (unat (reg_at r) + 24) (region_end r) ns'"
    and eq: "nodes_bytes ns' = nodes_bytes (reg_nodes r) - B" using assms(2) by (auto simp: takes_def)
  show le: "sz \<le> reg_free r"
    using card_mono [OF nodes_bytes_finite sub] region_ok_D(5) [OF assms(1)] assms(3) by (simp add: word_nat)
  have "card (nodes_bytes ns') = unat (reg_free r) - unat sz"
    using sub eq region_ok_D(5) [OF assms(1)] assms(3) finite_subset [OF sub nodes_bytes_finite]
    by (simp add: card_Diff_subset)
  then show "region_ok (r\<lparr>reg_nodes := ns', reg_free := reg_free r - sz\<rparr>)"
    using assms(1) ok nodes_ok_card [OF ok] le by (simp add: region_ok_def usub)
qed

lemma lmm_takes_hd:
  assumes "lmm_ok (r # rs)" "takes (unat (reg_at r) + 24) (region_end r) (reg_nodes r) B ns'"
    "card B = unat sz"
  shows "lmm_takes (r # rs) B (r\<lparr>reg_nodes := ns', reg_free := reg_free r - sz\<rparr> # rs)"
proof -
  have r: "region_ok r" using assms(1) by (simp add: lmm_ok_Cons)
  have "lmm_ok (r\<lparr>reg_nodes := ns', reg_free := reg_free r - sz\<rparr> # rs)"
    using assms(1) region_take(2) [OF r assms(2,3)]
    by (simp add: lmm_ok_Cons region_bytes_def region_order_def)
  moreover have "B \<inter> free_bytes rs = {}" "B \<subseteq> nodes_bytes (reg_nodes r)"
    using free_bytes_apart [OF assms(1)] assms(2) by (auto simp: takes_def)
  ultimately show ?thesis using assms(2) by (auto simp: lmm_takes_def takes_def header_def)
qed

lemma lmm_takes_tl:
  assumes "lmm_ok (r # rs)" "lmm_takes rs B rs'"
  shows "lmm_takes (r # rs) B (r # rs')"
proof -
  have "region_bytes r \<inter> region_bytes s' = {} \<and> region_order r s'" if s': "s' \<in> set rs'" for s'
  proof -
    obtain s where "s \<in> set rs" "header s' = header s"
      using same_headers assms(2) s' unfolding lmm_takes_def by metis
    then show ?thesis using assms(1) header_eq [of s' s] by (simp add: lmm_ok_Cons)
  qed
  then have "lmm_ok (r # rs')" using assms by (simp add: lmm_ok_Cons lmm_takes_def)
  moreover have "B \<inter> nodes_bytes (reg_nodes r) = {}"
    using free_bytes_apart [OF assms(1)] assms(2) by (auto simp: lmm_takes_def)
  ultimately show ?thesis using assms(2) by (auto simp: lmm_takes_def)
qed

text \<open>A block of \<open>sz\<close> bytes at \<open>addr\<close> in one free node of a region with all of \<open>flags\<close>.\<close>

definition block_in :: "lmm \<Rightarrow> u32 \<Rightarrow> nat \<Rightarrow> nat \<Rightarrow> bool" where
  "block_in lmm flags addr sz \<longleftrightarrow> (\<exists>r \<in> set lmm. flags AND NOT (reg_flags r) = 0 \<and>
     (\<exists>n \<in> set (reg_nodes r). unat (node_at n) \<le> addr \<and> addr + sz \<le> node_end n))"

lemma block_in_Cons:
  "block_in (r # rs) flags addr sz \<longleftrightarrow>
     flags AND NOT (reg_flags r) = 0 \<and> (\<exists>n \<in> set (reg_nodes r). unat (node_at n) \<le> addr \<and> addr + sz \<le> node_end n) \<or>
     block_in rs flags addr sz"
  by (simp add: block_in_def)

lemma no_exhausted_Cons:
  "no_exhausted DEBUG (r # rs) \<longleftrightarrow> (DEBUG \<longrightarrow> reg_nodes r \<noteq> []) \<and> no_exhausted DEBUG rs"
  by (auto simp: no_exhausted_def)

lemma region_assert_ok:
  "region_ok r \<Longrightarrow> DEBUG \<longrightarrow> reg_nodes r \<noteq> [] \<Longrightarrow> lmm_assert DEBUG (region_checks r) = Some ()"
  by (cases DEBUG) (simp_all add: region_checks_ok)

lemma alloc_regions_ok:
  assumes "lmm_ok lmm" "no_exhausted DEBUG lmm" "8 dvd unat sz"
  shows "\<exists>addr lmm'. alloc_regions DEBUG sz flags lmm = Some (addr, lmm') \<and>
    (if addr = 0 then lmm' = lmm \<and> (\<nexists>x. block_in lmm flags x (unat sz))
     else 8 dvd unat addr \<and> block_in lmm flags (unat addr) (unat sz) \<and>
          lmm_takes lmm {unat addr..<unat addr + unat sz} lmm')"
  using assms(1,2)
proof (induction lmm)
  case Nil
  then show ?case by (simp add: block_in_def)
next
  case (Cons reg regs)
  have reg: "region_ok reg" and regs: "lmm_ok regs" "no_exhausted DEBUG regs"
    and chk: "lmm_assert DEBUG (region_checks reg) = Some ()"
    using Cons.prems by (auto simp: lmm_ok_Cons no_exhausted_Cons intro!: region_assert_ok)
  let ?res = "if flags AND NOT (reg_flags reg) \<noteq> 0 then Some None else alloc_nodes DEBUG reg sz (reg_nodes reg)"
  have nodes: "nodes_ok (unat (reg_at reg) + 24) (region_end reg) (reg_nodes reg)"
    by (rule region_ok_D(1) [OF reg])
  obtain r where r: "?res = Some r"
    "case r of None \<Rightarrow> flags AND NOT (reg_flags reg) = 0 \<longrightarrow> (\<forall>n \<in> set (reg_nodes reg). node_size n < sz)
     | Some (addr, ns') \<Rightarrow> flags AND NOT (reg_flags reg) = 0 \<and>
         (\<exists>n \<in> set (reg_nodes reg). node_at n = addr \<and> sz \<le> node_size n) \<and>
         takes (unat (reg_at reg) + 24) (region_end reg) (reg_nodes reg) {unat addr..<unat addr + unat sz} ns'"
    using alloc_nodes_ok [OF reg nodes assms(3), of DEBUG]
    by (cases "flags AND NOT (reg_flags reg) = 0") (auto split: option.splits)
  show ?case
  proof (cases r)
    case None
    obtain addr regs' where IH: "alloc_regions DEBUG sz flags regs = Some (addr, regs')"
      "if addr = 0 then regs' = regs \<and> (\<nexists>x. block_in regs flags x (unat sz))
       else 8 dvd unat addr \<and> block_in regs flags (unat addr) (unat sz) \<and>
          lmm_takes regs {unat addr..<unat addr + unat sz} regs'"
      using Cons.IH [OF regs] by blast
    have no: "\<not> (flags AND NOT (reg_flags reg) = 0 \<and>
      (\<exists>n \<in> set (reg_nodes reg). unat (node_at n) \<le> x \<and> x + unat sz \<le> node_end n))" for x
      using r(2) None by (fastforce simp: word_nat)
    show ?thesis using IH r(1) None chk no lmm_takes_tl [OF Cons.prems(1)]
      by (cases "addr = 0") (auto simp: block_in_Cons)
  next
    case (Some p)
    then obtain addr ns' where p: "r = Some (addr, ns')" by (cases p) auto
    note tk = r(2) [unfolded p, simplified]
    obtain n where n: "n \<in> set (reg_nodes reg)" "node_at n = addr" "sz \<le> node_size n" using tk by blast
    have "0 < unat addr" "8 dvd unat addr" using nodes_ok_in [OF nodes n(1)] n(2) by auto
    moreover have "block_in (reg # regs) flags (unat addr) (unat sz)"
      using tk n by (auto simp: block_in_Cons word_nat)
    moreover have card: "card {unat addr..<unat addr + unat sz} = unat sz" by simp
    note lmm_takes_hd [OF Cons.prems(1) conjunct2 [OF conjunct2 [OF tk]] card]
      region_take(1) [OF reg conjunct2 [OF conjunct2 [OF tk]] card]
    ultimately show ?thesis using r(1) p chk by (auto simp: unat_gt_0)
  qed
qed

end
