(* ===== verification/Lmm_Constrained.thy ===== *)
theory Lmm_Constrained
  imports Lmm_Inv
begin

text \<open>
Allocation with an alignment and bounds (\<^verbatim>\<open>lmm_alloc_gen\<close>): the alignment loop finds the least address, the search misses no block that fits, and cutting a block out of a node keeps the invariant.
\<close>

subsection \<open>Alignment\<close>

lemma parity: "odd p = odd q \<Longrightarrow> p mod 2 = q mod 2" "odd p \<noteq> odd q \<Longrightarrow> (p + 1) mod 2 = q mod 2"
  for p q :: nat
  by presburger+

lemma align_step:
  assumes "j < 32" "unat (a :: u32) mod 2 ^ j = unat ofs mod 2 ^ j"
  shows "unat (if (a XOR ofs) AND push_bit j 1 \<noteq> 0 then a + push_bit j 1 else a) mod 2 ^ Suc j =
         unat (ofs :: u32) mod 2 ^ Suc j"
proof -
  have bitj: "(a XOR ofs) AND push_bit j 1 \<noteq> 0 \<longleftrightarrow> bit a j \<noteq> bit ofs j"
    by (simp add: push_bit_eq_mult and_exp_eq_0_iff_not_bit bit_xor_iff)
  have odd: "bit w j \<longleftrightarrow> odd (unat w div 2 ^ j)" for w :: u32
    using bit_iff_odd [of "unat w" j] by (simp add: bit_unsigned_iff)
  have split: "m mod 2 ^ Suc j = 2 ^ j * (m div 2 ^ j mod 2) + m mod 2 ^ j" for m :: nat
    using mod_mult2_eq [of m "2 ^ j" 2] by (simp add: mult.commute)
  have "(2::nat) ^ j < 2 ^ 32" using assms(1) by (intro power_strict_increasing) auto
  then have "unat (push_bit j 1 :: u32) = 2 ^ j"
    using unat_of_nat [of "2 ^ j", where 'a = 32] by (simp add: push_bit_eq_mult)
  then have "unat (a + push_bit j 1) = (unat a + 2 ^ j) mod 2 ^ 32" by (simp add: unat_word_ariths)
  moreover have "(2::nat) ^ Suc j dvd 2 ^ 32" using assms(1) by (intro le_imp_power_dvd) simp
  ultimately have plus: "unat (a + push_bit j 1) mod 2 ^ Suc j = (unat a + 2 ^ j) mod 2 ^ Suc j"
    by (simp add: mod_mod_cancel)
  show ?thesis
  proof (cases "bit a j = bit ofs j")
    case True
    then have "unat a div 2 ^ j mod 2 = unat ofs div 2 ^ j mod 2" unfolding odd by (rule parity)
    then show ?thesis using True assms(2) unfolding bitj by (simp only: split) simp
  next
    case False
    then have "(unat a div 2 ^ j + 1) mod 2 = unat ofs div 2 ^ j mod 2" unfolding odd by (rule parity)
    then have "(unat a + 2 ^ j) mod 2 ^ Suc j = unat ofs mod 2 ^ Suc j"
      using assms(2) unfolding split by (simp add: div_add_self2)
    then show ?thesis using False plus unfolding bitj by simp
  qed
qed

lemma align_loop_ok:
  assumes "j \<le> k" "k \<le> 32" "unat (a :: u32) mod 2 ^ j = unat ofs mod 2 ^ j"
  shows "\<exists>d. align_loop a ofs [j..<k] = a + of_nat d \<and> d + 2 ^ j \<le> 2 ^ k \<and>
             unat (align_loop a ofs [j..<k]) mod 2 ^ k = unat ofs mod 2 ^ k"
  using assms(1,3)
proof (induction "k - j" arbitrary: j a)
  case 0
  then show ?case by (intro exI [of _ 0]) simp
next
  case (Suc m)
  then have jk: "j < k" by simp
  let ?a = "if (a XOR ofs) AND push_bit j 1 \<noteq> 0 then a + push_bit j 1 else a"
  have step: "unat ?a mod 2 ^ Suc j = unat ofs mod 2 ^ Suc j"
    using align_step [OF _ Suc.prems(2)] jk assms(2) by simp
  have unfold: "align_loop a ofs [j..<k] = align_loop ?a ofs [Suc j..<k]"
    using jk by (simp add: upt_conv_Cons Let_def)
  have m: "m = k - Suc j" using Suc.hyps(2) by simp
  obtain d where d: "align_loop ?a ofs [Suc j..<k] = ?a + of_nat d" "d + 2 ^ Suc j \<le> 2 ^ k"
    "unat (align_loop ?a ofs [Suc j..<k]) mod 2 ^ k = unat ofs mod 2 ^ k"
    using Suc.hyps(1) [OF m _ step] jk by auto
  have "?a + of_nat d = a + of_nat (if (a XOR ofs) AND push_bit j 1 \<noteq> 0 then d + 2 ^ j else d)"
    by (simp add: push_bit_eq_mult)
  moreover have "(if (a XOR ofs) AND push_bit j 1 \<noteq> 0 then d + 2 ^ j else d) + 2 ^ j \<le> 2 ^ k"
    using d(2) by simp
  ultimately show ?case using d unfolding unfold by metis
qed

text \<open>The loop goes to the first address from \<open>a\<close> on that has the alignment asked for.\<close>

lemma align_loop_least:
  assumes "k < 32"
  obtains d where "align_loop a ofs [0..<k] = a + of_nat d" "d < 2 ^ k"
    "(unat a + d) mod 2 ^ k = unat ofs mod 2 ^ k"
    "\<And>x. unat a \<le> x \<Longrightarrow> x mod 2 ^ k = unat ofs mod 2 ^ k \<Longrightarrow> unat a + d \<le> x"
proof -
  obtain d where d: "align_loop a ofs [0..<k] = a + of_nat d" "d + 2 ^ 0 \<le> 2 ^ k"
    "unat (align_loop a ofs [0..<k]) mod 2 ^ k = unat ofs mod 2 ^ k"
    using align_loop_ok [of 0 k a ofs] assms by auto
  have "(2::nat) ^ k \<le> 2 ^ 32" using assms by (intro power_increasing) auto
  then have lt: "d < 2 ^ 32" using d(2) by simp
  then have "unat (of_nat d :: u32) = d" by (simp add: unat_of_nat)
  then have "unat (a + of_nat d) = (unat a + d) mod 2 ^ 32" by (simp add: unat_word_ariths)
  moreover have "(2::nat) ^ k dvd 2 ^ 32" using assms by (intro le_imp_power_dvd) simp
  ultimately have mod: "(unat a + d) mod 2 ^ k = unat ofs mod 2 ^ k"
    using d(1,3) by (simp add: mod_mod_cancel)
  have "unat a + d \<le> x" if x: "unat a \<le> x" "x mod 2 ^ k = unat ofs mod 2 ^ k" for x
  proof (rule ccontr)
    assume "\<not> unat a + d \<le> x"
    then have "2 ^ k dvd (unat a + d) - x" "0 < (unat a + d) - x" "(unat a + d) - x \<le> d"
      using x mod by (auto intro!: mod_eq_dvd_iff_nat [THEN iffD1])
    then show False using d(2) dvd_imp_le [of "2 ^ k" "(unat a + d) - x"] by simp
  qed
  with d mod show ?thesis by (intro that [of d]) auto
qed

subsection \<open>Cutting a block out of a node\<close>

definition down8 :: "nat \<Rightarrow> nat" where "down8 x = x - x mod 8"

definition up8 :: "nat \<Rightarrow> nat" where "up8 x = x + 7 - (x + 7) mod 8"

text \<open>The aligned bytes around a block of \<open>sz\<close> bytes at \<open>addr\<close>.\<close>

definition cover :: "nat \<Rightarrow> nat \<Rightarrow> nat set" where
  "cover addr sz = {down8 addr..<up8 (addr + sz)}"

lemma dvd_down8 [simp]: "8 dvd down8 x" and dvd_up8 [simp]: "8 dvd up8 x"
  by (simp_all add: down8_def up8_def dvd_minus_mod)

lemma down8_le: "down8 x \<le> x" and up8_ge: "x \<le> up8 x" and up8_less: "up8 x \<le> x + 7"
  unfolding down8_def up8_def using mod_less_divisor [of 8 "x + 7"] by auto

lemma down8_ge: "8 dvd lo \<Longrightarrow> lo \<le> x \<Longrightarrow> lo \<le> down8 x"
  unfolding down8_def by presburger

lemma up8_le: "8 dvd hi \<Longrightarrow> x \<le> hi \<Longrightarrow> up8 x \<le> hi"
  unfolding up8_def by presburger

lemma up8_shift: "down8 x + up8 (x mod 8 + sz) = up8 (x + sz)"
proof -
  have "(x mod 8 + sz + 7) mod 8 = (x + sz + 7) mod 8"
    using mod_add_left_eq [of x 8 "sz + 7"] by (simp add: add.assoc)
  moreover have "(x mod 8 + sz + 7) mod 8 \<le> x mod 8 + sz + 7" "x mod 8 \<le> x" by simp_all
  ultimately show ?thesis unfolding down8_def up8_def by linarith
qed

lemma up8_aligned: "8 dvd x \<Longrightarrow> up8 x = x"
  unfolding up8_def by presburger

lemma unat_up8: "unat a + 7 < 4294967296 \<Longrightarrow> unat ((a + ALIGN_MASK) AND NOT ALIGN_MASK) = up8 (unat a)"
  by (simp add: unat_align_up up8_def)

lemma unat_down8: "unat (a AND NOT ALIGN_MASK) = down8 (unat a)"
  by (simp add: unat_align_down down8_def)

lemma card_cover: "card (cover addr sz) = up8 (addr mod 8 + sz)"
  using up8_shift [of addr sz] by (simp add: cover_def)

lemma takes_middle:
  assumes "nodes_ok lo hi (n # ns)" "8 dvd k" "0 < k" "unat (node_at n) < unat a" "8 dvd unat a"
    "takes (unat a + k) hi (\<lparr>node_at = a, node_size = s\<rparr> # ns) B ms"
    "unat a + unat s = node_end n" "unat sp = unat a - unat (node_at n)"
  shows "takes lo hi (n # ns) B (n\<lparr>node_size := sp\<rparr> # ms)"
proof -
  have sum: "unat (node_at n) + unat sp = unat a" using assms(4,8) by simp
  have old: "node_bytes n = node_bytes (n\<lparr>node_size := sp\<rparr>) \<union> node_bytes \<lparr>node_at = a, node_size = s\<rparr>"
    using assms(4,7,8) by (auto simp: node_bytes_def)
  have "nodes_bytes (\<lparr>node_at = a, node_size = s\<rparr> # ns) \<subseteq> {unat a..<hi}"
    using assms(1,7) nodes_ok_bytes [of "node_end n + 1" hi ns] by (fastforce simp: node_bytes_def)
  then have "B \<inter> node_bytes (n\<lparr>node_size := sp\<rparr>) = {}"
    using assms(6) sum by (fastforce simp: takes_def node_bytes_def)
  moreover have "8 dvd unat sp" using assms(1,5,8) by (simp add: dvd_diff_nat)
  then have "nodes_ok lo hi (n\<lparr>node_size := sp\<rparr> # ms)"
    using assms sum by (auto simp: takes_def intro: nodes_ok_lower)
  ultimately show ?thesis using assms(6) old unfolding takes_def by auto
qed

lemma carve_ok:
  assumes "nodes_ok lo hi (n # ns)" "hi < 4294967296" "8 dvd hi" "24 \<le> unat (node_at n)"
    "unat (node_at n) \<le> unat addr" "unat addr + unat sz \<le> node_end n" "0 < unat sz"
  shows "\<exists>taken ms. carve DEBUG n addr sz = Some (taken, ms) \<and>
    unat taken = card (cover (unat addr) (unat sz)) \<and> takes lo hi (n # ns) (cover (unat addr) (unat sz)) (ms @ ns)"
proof -
  let ?a = "addr AND NOT ALIGN_MASK" and ?taken = "((addr AND ALIGN_MASK) + sz + ALIGN_MASK) AND NOT ALIGN_MASK"
  let ?sp = "?a - node_at n"
  have n: "8 dvd unat (node_at n)" "8 dvd node_end n" "node_end n \<le> hi" using assms(1) by auto
  have a: "unat ?a = down8 (unat addr)" by (rule unat_down8)
  have ge: "unat (node_at n) \<le> down8 (unat addr)" by (rule down8_ge [OF n(1) assms(5)])
  have fits: "up8 (unat addr + unat sz) \<le> node_end n" by (rule up8_le [OF n(2) assms(6)])
  have "unat addr mod 8 + unat sz + 7 < 4294967296"
    using assms(2,4,5,6) n(3) mod_less_eq_dividend [of "unat addr" 8] mod_less_divisor [of 8 "unat addr"] by linarith
  then have t: "unat ?taken = up8 (unat addr mod 8 + unat sz)"
    by (simp add: unat_up8 uadd unat_and_mask)
  have k: "down8 (unat addr) + unat ?taken = up8 (unat addr + unat sz)" unfolding t by (rule up8_shift)
  have "unat sz \<le> unat ?taken" unfolding t using up8_ge [of "unat addr mod 8 + unat sz"] by simp
  then have pos: "0 < unat ?taken" "8 dvd unat ?taken" using assms(7) unfolding t by auto
  have sp: "unat ?sp = down8 (unat addr) - unat (node_at n)" using ge a by (simp add: usub word_nat)
  have as: "unat (node_size n - ?sp) = node_end n - down8 (unat addr)"
    using ge fits k sp by (subst usub) (auto simp: word_nat)
  have nx: "unat (?a + ?taken) = unat ?a + unat ?taken" using k fits n(3) assms(2) a by (simp add: uadd)
  have rest: "takes (unat ?a + unat ?taken) hi (\<lparr>node_at = ?a, node_size = node_size n - ?sp\<rparr> # ns)
      (cover (unat addr) (unat sz))
      (if ?taken < node_size n - ?sp
       then \<lparr>node_at = ?a + ?taken, node_size = node_size n - ?sp - ?taken\<rparr> # ns else ns)"
  proof -
    have le: "?taken \<le> node_size n - ?sp" using k fits as by (simp add: word_nat)
    have "nodes_ok (unat ?a) hi (\<lparr>node_at = ?a, node_size = node_size n - ?sp\<rparr> # ns)"
      using assms(1) a as k fits pos(1) n by (simp add: dvd_diff_nat)
    note takes_front [OF this pos(2), of "?a + ?taken" "node_size n - ?sp - ?taken"]
    moreover have "node_size n - ?sp - ?taken = 0 \<longleftrightarrow> \<not> ?taken < node_size n - ?sp" using le by auto
    moreover have "unat ?taken + unat (node_size n - ?sp - ?taken) = unat (node_size n - ?sp)"
      using le by (simp add: usub word_nat)
    ultimately show ?thesis using nx k a by (simp add: cover_def split: if_splits)
  qed
  have chk: "node_at n \<le> ?a" "?sp AND ALIGN_MASK = 0"
    using ge a sp n(1) by (simp_all add: word_nat and_mask_0 dvd_diff_nat)
  have res: "carve DEBUG n addr sz = Some (?taken,
      (if node_at n < ?a then [n\<lparr>node_size := ?sp\<rparr>] else []) @
      (if ?taken < node_size n - ?sp
       then [\<lparr>node_at = ?a + ?taken, node_size = node_size n - ?sp - ?taken\<rparr>] else []))"
    using chk by (auto simp: carve_def Let_def not_less)
  have "takes lo hi (n # ns) (cover (unat addr) (unat sz))
     (((if node_at n < ?a then [n\<lparr>node_size := ?sp\<rparr>] else []) @
      (if ?taken < node_size n - ?sp
       then [\<lparr>node_at = ?a + ?taken, node_size = node_size n - ?sp - ?taken\<rparr>] else [])) @ ns)"
  proof (cases "node_at n < ?a")
    case True
    have "unat (node_at n) < unat ?a" "8 dvd unat ?a" "unat ?a + unat (node_size n - ?sp) = node_end n"
      "unat ?sp = unat ?a - unat (node_at n)" using True a as sp k fits by (simp_all add: word_nat)
    from takes_middle [OF assms(1) pos(2,1) this(1,2) rest this(3,4)] True show ?thesis
      by (simp split: if_splits)
  next
    case False
    then have eq: "?a = node_at n" using chk(1) by simp
    have "\<lparr>node_at = ?a, node_size = node_size n - ?sp\<rparr> = n" unfolding eq by simp
    then show ?thesis using takes_lower [OF rest, of lo] False a ge assms(1) by (simp split: if_splits)
  qed
  with res t show ?thesis by (simp add: card_cover)
qed

subsection \<open>Allocation with constraints\<close>

text \<open>The constraints on the address \<open>x\<close> of a block of \<open>sz\<close> bytes.\<close>

definition meets :: "nat \<Rightarrow> nat \<Rightarrow> u32 \<Rightarrow> u32 \<Rightarrow> u32 \<Rightarrow> nat \<Rightarrow> bool" where
  "meets sz align_bits align_ofs in_min in_max x \<longleftrightarrow>
     x mod 2 ^ align_bits = unat align_ofs mod 2 ^ align_bits \<and> unat in_min \<le> x \<and> x + sz \<le> unat in_max"

text \<open>The address that the search computes for a node, and its two tests.\<close>

lemma gen_addr:
  assumes "nodes_ok lo hi (n # ns)" "hi < 4294967296" "unat in_min < hi" "k < 32"
    "unat sz + (hi - lo) + 2 ^ k \<le> 4294967296"
    "addr = align_loop (if node_at n < in_min then in_min else node_at n) ofs [0..<k]"
  shows "\<not> (node_size n < sz \<or> node_size n < addr - node_at n + sz) \<longleftrightarrow>
           unat (node_at n) \<le> unat addr \<and> unat addr + unat sz \<le> node_end n \<and>
           unat addr mod 2 ^ k = unat ofs mod 2 ^ k \<and> unat in_min \<le> unat addr" (is "?A \<longleftrightarrow> ?B")
    and "\<And>x. unat (node_at n) \<le> x \<Longrightarrow> x + unat sz \<le> node_end n \<Longrightarrow> unat in_min \<le> x \<Longrightarrow>
           x mod 2 ^ k = unat ofs mod 2 ^ k \<Longrightarrow>
           \<not> (node_size n < sz \<or> node_size n < addr - node_at n + sz) \<and> unat addr \<le> x"
proof -
  define a where "a = (if node_at n < in_min then in_min else node_at n)"
  obtain d where d: "addr = a + of_nat d" "d < 2 ^ k" "(unat a + d) mod 2 ^ k = unat ofs mod 2 ^ k"
    "\<And>x. unat a \<le> x \<Longrightarrow> x mod 2 ^ k = unat ofs mod 2 ^ k \<Longrightarrow> unat a + d \<le> x"
    using align_loop_least [OF assms(4), of a ofs] unfolding assms(6) a_def by blast
  have n: "lo \<le> unat (node_at n)" "node_end n \<le> hi" "0 < unat (node_size n)" using assms(1) by auto
  have a: "unat a = max (unat (node_at n)) (unat in_min)" by (auto simp: a_def word_nat)
  then have a_lt: "unat (node_at n) \<le> unat a" "unat in_min \<le> unat a" "unat a < hi" using n assms(3) by auto
  have d': "unat (of_nat d :: u32) = d" using d(2) assms(5) by (simp add: unat_of_nat)
  have "addr - node_at n = (a - node_at n) + of_nat d" unfolding d(1) by simp
  moreover have "unat ((a - node_at n) + of_nat d) = unat a - unat (node_at n) + d"
    using a_lt n d(2) assms(5) by (subst uadd) (simp_all add: usub word_nat d')
  ultimately have diff: "unat (addr - node_at n) = unat a - unat (node_at n) + d"
    by (rule ssubst [where P = "\<lambda>w. unat w = _"])
  then have "unat (addr - node_at n + sz) = unat a - unat (node_at n) + d + unat sz"
    using a_lt n d(2) assms(5) by (simp add: uadd)
  then have A: "?A \<longleftrightarrow> unat a + d + unat sz \<le> node_end n" using a_lt(1) by (auto simp: word_nat)
  have addr: "unat addr = unat a + d" if "unat a + d + unat sz \<le> node_end n"
    using that n assms(2) d(1) by (simp add: uadd d')
  show "?A \<longleftrightarrow> ?B"
  proof
    assume ?A
    then show ?B using A addr a_lt d(3) by simp
  next
    assume B: ?B
    then have "unat a \<le> unat addr" "unat a + d \<le> unat addr" using a d(4) by auto
    with B show ?A using A by linarith
  qed
  fix x assume x: "unat (node_at n) \<le> x" "x + unat sz \<le> node_end n" "unat in_min \<le> x"
    "x mod 2 ^ k = unat ofs mod 2 ^ k"
  then have "unat a + d \<le> x" using a d(4) by simp
  with x(2) have "unat a + d + unat sz \<le> node_end n" by simp
  with A addr \<open>unat a + d \<le> x\<close> show "?A \<and> unat addr \<le> x" by simp
qed

lemma alloc_gen_nodes_ok:
  assumes "region_ok reg" "nodes_ok lo (region_end reg) ns" "24 \<le> lo" "unat (reg_at reg) \<le> lo"
    "0 < unat sz" "k < 32" "unat in_min < region_end reg"
    "unat sz + unat (reg_size reg) + 2 ^ k \<le> 4294967296"
  shows "\<exists>r. alloc_gen_nodes DEBUG reg sz k ofs in_min in_max ns = Some r \<and>
    (case r of
       None \<Rightarrow> \<forall>n \<in> set ns. \<forall>x. unat (node_at n) \<le> x \<and> x + unat sz \<le> node_end n \<longrightarrow>
                 \<not> meets (unat sz) k ofs in_min in_max x
     | Some (addr, taken, ns') \<Rightarrow>
         (\<exists>n \<in> set ns. unat (node_at n) \<le> unat addr \<and> unat addr + unat sz \<le> node_end n) \<and>
         meets (unat sz) k ofs in_min in_max (unat addr) \<and>
         unat taken = card (cover (unat addr) (unat sz)) \<and>
         takes lo (region_end reg) ns (cover (unat addr) (unat sz)) ns')"
  using assms(2,3,4)
proof (induction ns arbitrary: lo)
  case (Cons n ns)
  let ?hi = "region_end reg"
  define addr where "addr = align_loop (if node_at n < in_min then in_min else node_at n) ofs [0..<k]"
  have hi: "?hi < 4294967296" "8 dvd ?hi" using assms(1) by (auto simp: region_ok_def)
  have bnd: "unat sz + (?hi - lo) + 2 ^ k \<le> 4294967296" using assms(8) Cons.prems(3) by simp
  note ga = gen_addr [OF Cons.prems(1) hi(1) assms(7,6) bnd addr_def]
  have chk: "node_checks reg n ns" by (rule node_checks_ok [OF assms(1) Cons.prems(1)])
  have later: "node_end n < x" if "m \<in> set ns" "unat (node_at m) \<le> x" for m x
    using nodes_ok_in [of "node_end n + 1" ?hi ns m] Cons.prems(1) that by simp
  show ?case
  proof (cases "node_size n < sz \<or> node_size n < addr - node_at n + sz")
    case True
    have "nodes_ok (node_end n + 1) ?hi ns" "24 \<le> node_end n + 1" "unat (reg_at reg) \<le> node_end n + 1"
      using Cons.prems by auto
    from Cons.IH [OF this] obtain r where r: "alloc_gen_nodes DEBUG reg sz k ofs in_min in_max ns = Some r"
      "case r of
       None \<Rightarrow> \<forall>n \<in> set ns. \<forall>x. unat (node_at n) \<le> x \<and> x + unat sz \<le> node_end n \<longrightarrow>
                 \<not> meets (unat sz) k ofs in_min in_max x
     | Some (addr, taken, ns') \<Rightarrow>
         (\<exists>n \<in> set ns. unat (node_at n) \<le> unat addr \<and> unat addr + unat sz \<le> node_end n) \<and>
         meets (unat sz) k ofs in_min in_max (unat addr) \<and>
         unat taken = card (cover (unat addr) (unat sz)) \<and>
         takes (node_end n + 1) ?hi ns (cover (unat addr) (unat sz)) ns'"
      by blast
    have "\<not> meets (unat sz) k ofs in_min in_max x" if "unat (node_at n) \<le> x" "x + unat sz \<le> node_end n" for x
      using ga(2) [OF that] True by (auto simp: meets_def)
    then show ?thesis using r True chk takes_Cons [OF Cons.prems(1)]
      by (cases r) (auto simp: addr_def [symmetric] Let_def)
  next
    case False
    then have B: "unat (node_at n) \<le> unat addr" "unat addr + unat sz \<le> node_end n"
      "unat addr mod 2 ^ k = unat ofs mod 2 ^ k" "unat in_min \<le> unat addr" using ga(1) by auto
    have sum: "unat (addr + sz) = unat addr + unat sz" using B(2) hi(1) Cons.prems(1) by (simp add: uadd)
    show ?thesis
    proof (cases "in_max < addr + sz")
      case over: True
      have "\<not> meets (unat sz) k ofs in_min in_max x"
        if m: "m \<in> set (n # ns)" "unat (node_at m) \<le> x" "x + unat sz \<le> node_end m" for m x
      proof
        assume meets: "meets (unat sz) k ofs in_min in_max x"
        have "unat addr \<le> x"
        proof (cases "m = n")
          case True
          then show ?thesis using ga(2) [of x] m meets by (simp add: meets_def)
        next
          case mn: False
          then show ?thesis using later [of m x] m B(2) by simp
        qed
        then show False using meets over sum by (simp add: meets_def word_nat)
      qed
      then show ?thesis using over False chk by (auto simp: addr_def [symmetric] Let_def)
    next
      case fits: False
      have "24 \<le> unat (node_at n)" using Cons.prems(1,2) by simp
      from carve_ok [OF Cons.prems(1) hi this B(1,2) assms(5), of DEBUG] obtain taken ms where c:
        "carve DEBUG n addr sz = Some (taken, ms)" "unat taken = card (cover (unat addr) (unat sz))"
        "takes lo ?hi (n # ns) (cover (unat addr) (unat sz)) (ms @ ns)" by blast
      have "meets (unat sz) k ofs in_min in_max (unat addr)"
        using B fits sum by (simp add: meets_def word_nat)
      with c B fits False chk show ?thesis by (auto simp: addr_def [symmetric] Let_def)
    qed
  qed
qed simp

text \<open>A block that meets the constraints lies in a region that the search does not reject.\<close>

lemma meets_region:
  assumes "region_ok r" "n \<in> set (reg_nodes r)" "unat (node_at n) \<le> x" "x + sz \<le> node_end n" "0 < sz"
    "meets sz k ofs in_min in_max x"
  shows "reg_at r < in_max" "in_min < reg_at r + reg_size r"
  using nodes_ok_in [OF region_ok_D(1) [OF assms(1)] assms(2)] region_ok_D(3) [OF assms(1)] assms(3-6)
  by (auto simp: meets_def word_nat)

lemma alloc_gen_region_ok:
  assumes "region_ok reg" "0 < unat sz" "k < 32" "unat sz + unat (reg_size reg) + 2 ^ k \<le> 4294967296"
  shows "\<exists>r. (if flags AND NOT (reg_flags reg) \<noteq> 0 \<or> in_max \<le> reg_at reg \<or> reg_at reg + reg_size reg \<le> in_min
              then Some None
              else alloc_gen_nodes DEBUG reg sz k ofs in_min in_max (reg_nodes reg)) = Some r \<and>
    (case r of
       None \<Rightarrow> flags AND NOT (reg_flags reg) = 0 \<longrightarrow>
         (\<forall>n \<in> set (reg_nodes reg). \<forall>x. unat (node_at n) \<le> x \<and> x + unat sz \<le> node_end n \<longrightarrow>
            \<not> meets (unat sz) k ofs in_min in_max x)
     | Some (addr, taken, ns') \<Rightarrow> flags AND NOT (reg_flags reg) = 0 \<and>
         (\<exists>n \<in> set (reg_nodes reg). unat (node_at n) \<le> unat addr \<and> unat addr + unat sz \<le> node_end n) \<and>
         meets (unat sz) k ofs in_min in_max (unat addr) \<and>
         unat taken = card (cover (unat addr) (unat sz)) \<and>
         takes (unat (reg_at reg) + 24) (region_end reg) (reg_nodes reg) (cover (unat addr) (unat sz)) ns')"
proof (cases "flags AND NOT (reg_flags reg) \<noteq> 0 \<or> in_max \<le> reg_at reg \<or> reg_at reg + reg_size reg \<le> in_min")
  case True
  have "\<not> meets (unat sz) k ofs in_min in_max x"
    if "flags AND NOT (reg_flags reg) = 0" "n \<in> set (reg_nodes reg)" "unat (node_at n) \<le> x"
      "x + unat sz \<le> node_end n" for n x
    using meets_region [OF assms(1) that(2,3,4) assms(2)] True that(1) by (auto simp: not_le [symmetric])
  with True show ?thesis by (intro exI [of _ None]) auto
next
  case False
  have "unat in_min < region_end reg"
    using False region_ok_D(3) [OF assms(1)] by (simp add: word_nat)
  from alloc_gen_nodes_ok [OF assms(1) region_ok_D(1) [OF assms(1)] _ _ assms(2,3) this assms(4),
      of DEBUG ofs in_max] False
  show ?thesis by (auto split: option.splits)
qed

lemma alloc_gen_regions_ok:
  assumes "lmm_ok lmm" "no_exhausted DEBUG lmm" "0 < unat sz" "k < 32"
    "\<forall>r \<in> set lmm. unat sz + unat (reg_size r) + 2 ^ k \<le> 4294967296"
  shows "\<exists>addr lmm'. alloc_gen_regions DEBUG sz flags k ofs in_min in_max lmm = Some (addr, lmm') \<and>
    (if addr = 0 then lmm' = lmm \<and> (\<nexists>x. block_in lmm flags x (unat sz) \<and> meets (unat sz) k ofs in_min in_max x)
     else block_in lmm flags (unat addr) (unat sz) \<and> meets (unat sz) k ofs in_min in_max (unat addr) \<and>
          lmm_takes lmm (cover (unat addr) (unat sz)) lmm')"
  using assms(1,2,5)
proof (induction lmm)
  case Nil
  then show ?case by (simp add: block_in_def)
next
  case (Cons reg regs)
  have reg: "region_ok reg" and regs: "lmm_ok regs" "no_exhausted DEBUG regs"
    "\<forall>r \<in> set regs. unat sz + unat (reg_size r) + 2 ^ k \<le> 4294967296"
    and big: "unat sz + unat (reg_size reg) + 2 ^ k \<le> 4294967296"
    and chk: "lmm_assert DEBUG (region_checks reg) = Some ()"
    using Cons.prems by (auto simp: lmm_ok_Cons no_exhausted_Cons intro!: region_assert_ok)
  from alloc_gen_region_ok [OF reg assms(3,4) big, of flags in_max in_min DEBUG ofs] obtain r where r:
    "(if flags AND NOT (reg_flags reg) \<noteq> 0 \<or> in_max \<le> reg_at reg \<or> reg_at reg + reg_size reg \<le> in_min
      then Some None else alloc_gen_nodes DEBUG reg sz k ofs in_min in_max (reg_nodes reg)) = Some r"
    "case r of
       None \<Rightarrow> flags AND NOT (reg_flags reg) = 0 \<longrightarrow>
         (\<forall>n \<in> set (reg_nodes reg). \<forall>x. unat (node_at n) \<le> x \<and> x + unat sz \<le> node_end n \<longrightarrow>
            \<not> meets (unat sz) k ofs in_min in_max x)
     | Some (addr, taken, ns') \<Rightarrow> flags AND NOT (reg_flags reg) = 0 \<and>
         (\<exists>n \<in> set (reg_nodes reg). unat (node_at n) \<le> unat addr \<and> unat addr + unat sz \<le> node_end n) \<and>
         meets (unat sz) k ofs in_min in_max (unat addr) \<and>
         unat taken = card (cover (unat addr) (unat sz)) \<and>
         takes (unat (reg_at reg) + 24) (region_end reg) (reg_nodes reg) (cover (unat addr) (unat sz)) ns'"
    by blast
  show ?case
  proof (cases r)
    case None
    from Cons.IH [OF regs] obtain addr regs' where IH:
      "alloc_gen_regions DEBUG sz flags k ofs in_min in_max regs = Some (addr, regs')"
      "if addr = 0 then regs' = regs \<and> (\<nexists>x. block_in regs flags x (unat sz) \<and> meets (unat sz) k ofs in_min in_max x)
       else block_in regs flags (unat addr) (unat sz) \<and> meets (unat sz) k ofs in_min in_max (unat addr) \<and>
          lmm_takes regs (cover (unat addr) (unat sz)) regs'"
      by blast
    have res: "alloc_gen_regions DEBUG sz flags k ofs in_min in_max (reg # regs) = Some (addr, reg # regs')"
      using r(1) IH(1) None chk by (simp only: alloc_gen_regions.simps) simp
    show ?thesis unfolding res using IH(2) r(2) None lmm_takes_tl [OF Cons.prems(1)]
      by (cases "addr = 0") (auto simp: block_in_Cons)
  next
    case (Some p)
    then obtain addr taken ns' where p: "r = Some (addr, taken, ns')" by (cases p) auto
    note tk = r(2) [unfolded p, simplified]
    obtain n where n: "n \<in> set (reg_nodes reg)" "unat (node_at n) \<le> unat addr"
      "unat addr + unat sz \<le> node_end n" using tk by blast
    have nz: "0 < unat addr" using nodes_ok_in [OF region_ok_D(1) [OF reg] n(1)] n(2) by simp
    have blk: "block_in (reg # regs) flags (unat addr) (unat sz)" using tk n by (auto simp: block_in_Cons)
    have tks: "takes (unat (reg_at reg) + 24) (region_end reg) (reg_nodes reg) (cover (unat addr) (unat sz)) ns'"
      and card: "card (cover (unat addr) (unat sz)) = unat taken" using tk by auto
    have res: "alloc_gen_regions DEBUG sz flags k ofs in_min in_max (reg # regs) =
        Some (addr, reg\<lparr>reg_nodes := ns', reg_free := reg_free reg - taken\<rparr> # regs)"
      using r(1) p chk region_take(1) [OF reg tks card] by (simp only: alloc_gen_regions.simps) simp
    show ?thesis unfolding res using nz blk tk lmm_takes_hd [OF Cons.prems(1) tks card]
      by (auto simp: unat_gt_0)
  qed
qed

end
