(* ===== verification/Lmm_Pool.thy ===== *)
theory Lmm_Pool
  imports Lmm_Constrained
begin

text \<open>
Freeing, adding and finding memory: \<^verbatim>\<open>lmm_free\<close> merges a block with its neighbours, a pool is determined by its regions and its free bytes, \<^verbatim>\<open>lmm_add\<close> keeps the order of the regions, and \<^verbatim>\<open>lmm_find_free\<close> finds the lowest free address.
\<close>

subsection \<open>Giving a block back\<close>

text \<open>The nodes \<open>ns'\<close> are \<open>ns\<close> together with the bytes \<open>B\<close>.\<close>

definition gives :: "nat \<Rightarrow> nat \<Rightarrow> lmm_node list \<Rightarrow> nat set \<Rightarrow> lmm_node list \<Rightarrow> bool" where
  "gives lo hi ns B ns' \<longleftrightarrow> nodes_ok lo hi ns' \<and> nodes_bytes ns' = nodes_bytes ns \<union> B"

lemma interval_apart:
  fixes a b c d :: nat
  assumes "{a..<b} \<inter> {c..<d} = {}" "a < b" "c < d" "a \<le> c"
  shows "b \<le> c"
proof (rule ccontr)
  assume "\<not> b \<le> c"
  then have "c \<in> {a..<b} \<inter> {c..<d}" using assms(3,4) by simp
  with assms(1) show False by blast
qed

lemma gives_neighbours:
  assumes "nodes_ok lo hi (prev @ next)" "{a..<a + s} \<inter> nodes_bytes (prev @ next) = {}" "0 < s"
    "\<forall>n \<in> set prev. unat (node_at n) < a" "\<forall>n \<in> set next. a \<le> unat (node_at n)"
  shows "prev \<noteq> [] \<Longrightarrow> node_end (last prev) \<le> a" "next \<noteq> [] \<Longrightarrow> a + s \<le> unat (node_at (hd next))"
proof -
  have apart: "{a..<a + s} \<inter> node_bytes n = {}" "0 < unat (node_size n)" if "n \<in> set (prev @ next)" for n
    using assms(2) that nodes_ok_in [OF assms(1) that] unfolding nodes_bytes_def by blast+
  show "node_end (last prev) \<le> a" if "prev \<noteq> []"
    using apart [of "last prev"] assms(3,4) that
      interval_apart [of "unat (node_at (last prev))" "node_end (last prev)" a "a + s"]
    by (simp add: node_bytes_def Int_commute less_imp_le)
  show "a + s \<le> unat (node_at (hd next))" if "next \<noteq> []"
    using apart [of "hd next"] assms(3,5) that
      interval_apart [of a "a + s" "unat (node_at (hd next))" "node_end (hd next)"]
    by (simp add: node_bytes_def)
qed

lemma free_insert_null: "free_insert DEBUG prev node sz [] = None"
  by (cases DEBUG) (auto simp: free_insert_def first_node_def lmm_assert_def)

lemma free_insert_ok:
  assumes ok: "nodes_ok lo hi (prev @ n # rest)" and hi: "hi < 4294967296"
    and apart: "{unat a..<unat a + unat s} \<inter> nodes_bytes (prev @ n # rest) = {}"
    and blk: "0 < unat s" "8 dvd unat a" "8 dvd unat s" "lo \<le> unat a"
    and prev: "\<forall>m \<in> set prev. unat (node_at m) < unat a" and nxt: "\<forall>m \<in> set (n # rest). unat a \<le> unat (node_at m)"
  shows "\<exists>ns'. free_insert DEBUG prev a s (n # rest) = Some ns' \<and>
           gives lo hi (prev @ n # rest) {unat a..<unat a + unat s} ns'"
proof -
  note nb = gives_neighbours [OF ok apart blk(1) prev nxt]
  have n: "unat a + unat s \<le> unat (node_at n)" "node_end n \<le> hi" "0 < unat (node_size n)"
    "8 dvd unat (node_at n)" "8 dvd unat (node_size n)"
    using nb(2) nodes_ok_in [OF ok, of n] by auto
  have as: "unat (a + s) = unat a + unat s" using n hi by (simp add: uadd)
  have sn: "unat (s + node_size n) = unat s + unat (node_size n)" using n hi by (simp add: uadd)
  have join: "node_at n \<le> a + s \<longleftrightarrow> unat (node_at n) = unat a + unat s" using n as by (auto simp: word_nat)
  show ?thesis
  proof (cases "prev \<noteq> [] \<and> node_end (last prev) = unat a")
    case True
    define p l where "p = butlast prev" and "l = last prev"
    have pl: "prev = p @ [l]" and l: "node_end l = unat a" using True by (simp_all add: p_def l_def)
    have lw: "unat (node_at l + node_size l) = unat a" using l by (simp add: uadd unat_bound)
    have ls: "unat (node_size l + s) = unat (node_size l) + unat s"
      "unat (node_size l + (s + node_size n)) = unat (node_size l) + unat s + unat (node_size n)"
      using l n hi sn by (simp_all add: uadd)
    have lw': "node_at l + node_size l = a" using lw by (simp add: word_unat_eq_iff)
    show ?thesis
    proof (cases "unat (node_at n) = unat a + unat s")
      case j: True
      have "node_at n = a + s" using j as by (simp add: word_unat_eq_iff)
      then have "free_insert DEBUG prev a s (n # rest) =
          Some (p @ l\<lparr>node_size := node_size l + (s + node_size n)\<rparr> # rest)"
        using lw' pl by (simp add: free_insert_def first_node_def)
      moreover have "gives lo hi (prev @ n # rest) {unat a..<unat a + unat s}
          (p @ l\<lparr>node_size := node_size l + (s + node_size n)\<rparr> # rest)"
        using ok l j ls n blk unfolding gives_def pl
        by (auto simp: nodes_ok_append node_bytes_def dvd_add intro: nodes_ok_lower)
      ultimately show ?thesis by blast
    next
      case j: False
      then have "free_insert DEBUG prev a s (n # rest) =
          Some (p @ l\<lparr>node_size := node_size l + s\<rparr> # n # rest)"
        using lw' pl join by (simp add: free_insert_def first_node_def)
      moreover have "gives lo hi (prev @ n # rest) {unat a..<unat a + unat s}
          (p @ l\<lparr>node_size := node_size l + s\<rparr> # n # rest)"
        using ok l j ls n blk unfolding gives_def pl
        by (auto simp: nodes_ok_append node_bytes_def dvd_add intro: nodes_ok_lower)
      ultimately show ?thesis by blast
    qed
  next
    case False
    then have gap: "prev \<noteq> [] \<Longrightarrow> node_end (last prev) < unat a" using nb(1) by fastforce
    then have nop: "\<not> (prev \<noteq> [] \<and> a \<le> node_at (last prev) + node_size (last prev))"
      using unat_bound [of a] by (auto simp: word_nat uadd)
    show ?thesis
    proof (cases "unat (node_at n) = unat a + unat s")
      case j: True
      then have "free_insert DEBUG prev a s (n # rest) =
          Some (prev @ \<lparr>node_at = a, node_size = s + node_size n\<rparr> # rest)"
        unfolding free_insert_def if_not_P [OF nop] using join by (simp add: first_node_def)
      moreover have "gives lo hi (prev @ n # rest) {unat a..<unat a + unat s}
          (prev @ \<lparr>node_at = a, node_size = s + node_size n\<rparr> # rest)"
        using ok j gap sn n blk unfolding gives_def
        by (auto simp: nodes_ok_append node_bytes_def dvd_add intro: nodes_ok_lower)
      ultimately show ?thesis by blast
    next
      case j: False
      then have "free_insert DEBUG prev a s (n # rest) =
          Some (prev @ \<lparr>node_at = a, node_size = s\<rparr> # n # rest)"
        unfolding free_insert_def if_not_P [OF nop] using join by (simp add: first_node_def)
      moreover have "gives lo hi (prev @ n # rest) {unat a..<unat a + unat s}
          (prev @ \<lparr>node_at = a, node_size = s\<rparr> # n # rest)"
        using ok j gap n blk unfolding gives_def
        by (auto simp: nodes_ok_append node_bytes_def)
      ultimately show ?thesis by blast
    qed
  qed
qed

definition lmm_gives :: "lmm \<Rightarrow> nat set \<Rightarrow> lmm \<Rightarrow> bool" where
  "lmm_gives lmm B lmm' \<longleftrightarrow> lmm_ok lmm' \<and> map header lmm' = map header lmm \<and>
     free_bytes lmm' = free_bytes lmm \<union> B"

lemma lmm_gives_hd:
  assumes "lmm_ok (r # rs)" "gives (unat (reg_at r) + 24) (region_end r) (reg_nodes r) B ns'"
    "card B = unat sz" "B \<inter> free_bytes (r # rs) = {}" "finite B"
  shows "unat (reg_free r + sz) \<le> unat (reg_size r) - 24"
    "lmm_gives (r # rs) B (r\<lparr>reg_nodes := ns', reg_free := reg_free r + sz\<rparr> # rs)"
proof -
  have r: "region_ok r" using assms(1) by (simp add: lmm_ok_Cons)
  have ok: "nodes_ok (unat (reg_at r) + 24) (region_end r) ns'"
    and eq: "nodes_bytes ns' = nodes_bytes (reg_nodes r) \<union> B" using assms(2) by (auto simp: gives_def)
  have card: "card (nodes_bytes ns') = unat (reg_free r) + unat sz"
    using assms(3-5) region_ok_D(5) [OF r] unfolding eq by (subst card_Un_disjoint) auto
  have "card (nodes_bytes ns') \<le> card {unat (reg_at r) + 24..<region_end r}"
    by (rule card_mono) (use nodes_ok_bytes [OF ok] in auto)
  then have le: "unat (reg_free r) + unat sz \<le> unat (reg_size r) - 24" using card by simp
  then have sum: "unat (reg_free r + sz) = unat (reg_free r) + unat sz"
    using unat_bound [of "reg_size r"] by (intro uadd) linarith
  with le show "unat (reg_free r + sz) \<le> unat (reg_size r) - 24" by simp
  have "region_ok (r\<lparr>reg_nodes := ns', reg_free := reg_free r + sz\<rparr>)"
    using r ok nodes_ok_card [OF ok] card sum by (simp add: region_ok_def)
  then have "lmm_ok (r\<lparr>reg_nodes := ns', reg_free := reg_free r + sz\<rparr> # rs)"
    using assms(1) by (simp add: lmm_ok_Cons region_bytes_def region_order_def)
  then show "lmm_gives (r # rs) B (r\<lparr>reg_nodes := ns', reg_free := reg_free r + sz\<rparr> # rs)"
    using eq by (auto simp: lmm_gives_def header_def)
qed

lemma lmm_ok_same_headers:
  assumes "lmm_ok (r # rs)" "lmm_ok rs'" "map header rs' = map header rs"
  shows "lmm_ok (r # rs')"
proof -
  have "region_bytes r \<inter> region_bytes s' = {} \<and> region_order r s'" if s': "s' \<in> set rs'" for s'
  proof -
    obtain s where "s \<in> set rs" "header s' = header s" by (rule same_headers [OF assms(3) s'])
    then show ?thesis using assms(1) header_eq [of s' s] by (simp add: lmm_ok_Cons)
  qed
  then show ?thesis using assms(1,2) by (simp add: lmm_ok_Cons)
qed

lemma lmm_gives_tl:
  "lmm_ok (r # rs) \<Longrightarrow> lmm_gives rs B rs' \<Longrightarrow> lmm_gives (r # rs) B (r # rs')"
  using lmm_ok_same_headers [of r rs rs'] by (auto simp: lmm_gives_def)

lemma dropWhile_above:
  "nodes_ok lo hi ns \<Longrightarrow> m \<in> set (dropWhile (\<lambda>n. node_at n < a) ns) \<Longrightarrow> unat a \<le> unat (node_at m)"
proof (induction ns arbitrary: lo)
  case (Cons n ns)
  show ?case
  proof (cases "node_at n < a")
    case True
    with Cons show ?thesis by auto
  next
    case False
    then show ?thesis using Cons.prems nodes_ok_in [of "node_end n + 1" hi ns m] by (auto simp: word_nat)
  qed
qed simp

text \<open>A block to be freed: aligned, in the region, and nowhere free.\<close>

definition freeable :: "lmm \<Rightarrow> lmm_region \<Rightarrow> nat \<Rightarrow> nat \<Rightarrow> bool" where
  "freeable lmm r a s \<longleftrightarrow> r \<in> set lmm \<and> 0 < s \<and> 8 dvd a \<and> 8 dvd s \<and>
     unat (reg_at r) + 24 \<le> a \<and> a + s \<le> region_end r \<and> {a..<a + s} \<inter> free_bytes lmm = {}"

lemma freeable_found:
  assumes "lmm_ok (reg # regs)" "freeable (reg # regs) r (unat a) (unat s)"
  shows "reg_at reg \<le> a \<and> a < reg_at reg + reg_size reg \<longleftrightarrow> r = reg"
    "r \<noteq> reg \<Longrightarrow> freeable regs r (unat a) (unat s)"
proof -
  have in_r: "unat a \<in> region_bytes r" using assms(2) by (auto simp: freeable_def region_bytes_def)
  have reg: "region_ok reg" and apart: "r \<noteq> reg \<Longrightarrow> region_bytes reg \<inter> region_bytes r = {}"
    using assms by (auto simp: lmm_ok_Cons freeable_def)
  have "reg_at reg \<le> a \<and> a < reg_at reg + reg_size reg \<longleftrightarrow> unat a \<in> region_bytes reg"
    using region_ok_D(3) [OF reg] by (simp add: region_bytes_def word_nat)
  then show "reg_at reg \<le> a \<and> a < reg_at reg + reg_size reg \<longleftrightarrow> r = reg" using in_r apart by blast
  show "r \<noteq> reg \<Longrightarrow> freeable regs r (unat a) (unat s)" using assms(2) by (auto simp: freeable_def)
qed

lemma free_in_region:
  assumes "lmm_ok (reg # regs)" "freeable (reg # regs) reg (unat a) (unat s)"
  defines "prev \<equiv> takeWhile (\<lambda>n. node_at n < a) (reg_nodes reg)"
    and "next \<equiv> dropWhile (\<lambda>n. node_at n < a) (reg_nodes reg)"
  shows "if \<exists>n \<in> set (reg_nodes reg). a < node_at n
         then \<exists>ns'. free_insert DEBUG prev a s next = Some ns' \<and>
            gives (unat (reg_at reg) + 24) (region_end reg) (reg_nodes reg) {unat a..<unat a + unat s} ns'
         else free_insert DEBUG prev a s next = None"
proof -
  have reg: "region_ok reg" using assms(1) by (simp add: lmm_ok_Cons)
  note ok = region_ok_D(1) [OF reg]
  have app: "reg_nodes reg = prev @ next" by (simp add: prev_def next_def)
  have f: "0 < unat s" "8 dvd unat a" "8 dvd unat s" "unat (reg_at reg) + 24 \<le> unat a"
    "{unat a..<unat a + unat s} \<inter> nodes_bytes (reg_nodes reg) = {}"
    using assms(2) by (auto simp: freeable_def)
  have below: "\<forall>m \<in> set prev. unat (node_at m) < unat a"
    by (auto simp: prev_def word_nat dest: set_takeWhileD)
  have above: "\<forall>m \<in> set next. unat a \<le> unat (node_at m)"
    using dropWhile_above [OF ok] by (auto simp: next_def)
  have strict: "a < node_at m" if "m \<in> set next" for m
  proof -
    have m: "m \<in> set (reg_nodes reg)" using that app by simp
    have "unat (node_at m) \<in> node_bytes m" using nodes_ok_in [OF ok m] by (simp add: node_bytes_def)
    then have "unat (node_at m) \<noteq> unat a" using f(1,5) m unfolding nodes_bytes_def by fastforce
    then show ?thesis using above that by (simp add: word_nat order.not_eq_order_implies_strict)
  qed
  show ?thesis
  proof (cases "next")
    case Nil
    then have "\<not> (\<exists>n \<in> set (reg_nodes reg). a < node_at n)" using below app by (auto simp: word_nat)
    then show ?thesis using Nil by (simp add: free_insert_null)
  next
    case (Cons n rest)
    have "\<exists>n \<in> set (reg_nodes reg). a < node_at n" using strict [of n] Cons app by auto
    moreover have "\<exists>ns'. free_insert DEBUG prev a s (n # rest) = Some ns' \<and>
       gives (unat (reg_at reg) + 24) (region_end reg) (prev @ n # rest) {unat a..<unat a + unat s} ns'"
      by (rule free_insert_ok) (use ok app Cons f below above region_ok_D(2) [OF reg] in simp_all)
    ultimately show ?thesis using Cons app by simp
  qed
qed

lemma free_regions_ok:
  assumes "lmm_ok lmm" "freeable lmm r (unat a) (unat s)" "no_exhausted DEBUG lmm"
    "\<exists>n \<in> set (reg_nodes r). a < node_at n"
  shows "\<exists>lmm'. free_regions DEBUG a s lmm = Some lmm' \<and> lmm_gives lmm {unat a..<unat a + unat s} lmm'"
  using assms(1,2,3)
proof (induction lmm)
  case Nil
  then show ?case by (simp add: freeable_def)
next
  case (Cons reg regs)
  note found = freeable_found [OF Cons.prems(1,2)]
  have reg: "region_ok reg" and regs: "lmm_ok regs" "no_exhausted DEBUG regs"
    and chk: "lmm_assert DEBUG (region_checks reg) = Some ()"
    using Cons.prems by (auto simp: lmm_ok_Cons no_exhausted_Cons intro!: region_assert_ok)
  show ?case
  proof (cases "r = reg")
    case True
    obtain ns' where ns': "free_insert DEBUG (takeWhile (\<lambda>n. node_at n < a) (reg_nodes reg)) a s
        (dropWhile (\<lambda>n. node_at n < a) (reg_nodes reg)) = Some ns'"
      "gives (unat (reg_at reg) + 24) (region_end reg) (reg_nodes reg) {unat a..<unat a + unat s} ns'"
      using free_in_region [OF Cons.prems(1) Cons.prems(2) [unfolded True], of DEBUG] assms(4) True by auto
    have "{unat a..<unat a + unat s} \<inter> free_bytes (reg # regs) = {}"
      using Cons.prems(2) by (simp add: freeable_def)
    note g = lmm_gives_hd [OF Cons.prems(1) ns'(2) _ this]
    have "24 \<le> unat (reg_size reg)" using reg by (simp add: region_ok_def)
    then have "reg_free reg + s \<le> reg_size reg - sizeof_lmm_region"
      using g(1) by (simp add: word_nat usub sizes)
    then show ?thesis using g(2) ns'(1) chk found(1) True by simp
  next
    case False
    from Cons.IH [OF regs(1) found(2) [OF False] regs(2)] obtain regs' where
      "free_regions DEBUG a s regs = Some regs'" "lmm_gives regs {unat a..<unat a + unat s} regs'" by blast
    then show ?thesis using lmm_gives_tl [OF Cons.prems(1)] chk found(1) False by auto
  qed
qed

lemma free_regions_null:
  assumes "lmm_ok lmm" "freeable lmm r (unat a) (unat s)" "\<not> (\<exists>n \<in> set (reg_nodes r). a < node_at n)"
  shows "free_regions DEBUG a s lmm = None"
  using assms(1,2)
proof (induction lmm)
  case (Cons reg regs)
  note found = freeable_found [OF Cons.prems(1,2)]
  show ?case
  proof (cases "r = reg")
    case True
    then show ?thesis
      using free_in_region [OF Cons.prems(1) Cons.prems(2) [unfolded True], of DEBUG] assms(3) found(1)
      by (auto split: bind_splits)
  next
    case False
    then show ?thesis using Cons.IH [OF _ found(2)] Cons.prems(1) found(1)
      by (auto simp: lmm_ok_Cons split: bind_splits)
  qed
qed simp

subsection \<open>A pool is determined by its regions and its free bytes\<close>

lemma region_free_bytes:
  assumes "lmm_ok lmm" "r \<in> set lmm"
  shows "nodes_bytes (reg_nodes r) = free_bytes lmm \<inter> region_bytes r"
  using assms
proof (induction lmm)
  case (Cons s rs)
  have s: "region_ok s" and rs: "lmm_ok rs" using Cons.prems(1) by (simp_all add: lmm_ok_Cons)
  show ?case
  proof (cases "r = s")
    case True
    have "free_bytes rs \<inter> region_bytes s = {}"
      using Cons.prems(1) lmm_ok_region [OF rs] nodes_in_region unfolding free_bytes_def lmm_ok_Cons by blast
    then show ?thesis using nodes_in_region [OF s] True by auto
  next
    case False
    then have r: "r \<in> set rs" using Cons.prems(2) by simp
    then have "nodes_bytes (reg_nodes s) \<inter> region_bytes r = {}"
      using Cons.prems(1) nodes_in_region [OF s] unfolding lmm_ok_Cons by blast
    then show ?thesis using Cons.IH [OF rs r] by auto
  qed
qed simp

lemma region_canonical:
  assumes "region_ok r" "region_ok s" "header r = header s" "nodes_bytes (reg_nodes r) = nodes_bytes (reg_nodes s)"
  shows "r = s"
proof (rule lmm_region.equality)
  note h = header_eq [OF assms(3)]
  show "reg_nodes r = reg_nodes s"
    by (rule nodes_ok_canonical [OF region_ok_D(1) [OF assms(1)] region_ok_D(1) [OF assms(2)] assms(4)])
  then show "reg_free r = reg_free s" using assms(1,2) by (simp add: region_ok_def word_unat_eq_iff)
qed (use header_eq [OF assms(3)] in simp_all)

lemma lmm_canonical:
  assumes "lmm_ok lmm" "lmm_ok lmm'" "map header lmm' = map header lmm" "free_bytes lmm' = free_bytes lmm"
  shows "lmm' = lmm"
proof (rule nth_equalityI)
  show len: "length lmm' = length lmm" using assms(3) by (rule map_eq_imp_length_eq)
  fix i assume i: "i < length lmm'"
  have mem: "lmm ! i \<in> set lmm" "lmm' ! i \<in> set lmm'" using i len by simp_all
  have h: "header (lmm' ! i) = header (lmm ! i)"
    using assms(3) i len by (metis nth_map)
  have "nodes_bytes (reg_nodes (lmm' ! i)) = nodes_bytes (reg_nodes (lmm ! i))"
    using region_free_bytes [OF assms(1) mem(1)] region_free_bytes [OF assms(2) mem(2)]
      header_eq(1) [OF h] assms(4) by simp
  then show "lmm' ! i = lmm ! i"
    by (intro region_canonical h lmm_ok_region [OF assms(2) mem(2)] lmm_ok_region [OF assms(1) mem(1)])
qed

subsection \<open>Adding memory\<close>

lemma lmm_ok_insert:
  assumes "lmm_ok (xs @ ys)" "region_ok r" "\<forall>s \<in> set (xs @ ys). region_bytes r \<inter> region_bytes s = {}"
    "\<forall>s \<in> set xs. region_order s r" "\<forall>s \<in> set ys. region_order r s"
  shows "lmm_ok (xs @ r # ys)"
  using assms unfolding lmm_ok_def by (auto simp: sorted_wrt_append)

lemma free_bytes_append: "free_bytes (xs @ ys) = free_bytes xs \<union> free_bytes ys"
  by (auto simp: free_bytes_def)

lemma region_order_trans: "region_order q r \<Longrightarrow> region_order r s \<Longrightarrow> region_order q s"
  by (auto simp: region_order_def)

lemma order_after:
  assumes "sorted_wrt region_order lmm"
    "s \<in> set (dropWhile (\<lambda>r. reg_pri reg < reg_pri r \<or> reg_pri r = reg_pri reg \<and> reg_size reg < reg_size r) lmm)"
  shows "region_order reg s"
  using assms
proof (induction lmm)
  case (Cons r rs)
  let ?before = "\<lambda>r. reg_pri reg < reg_pri r \<or> reg_pri r = reg_pri reg \<and> reg_size reg < reg_size r"
  show ?case
  proof (cases "?before r")
    case True
    with Cons show ?thesis by simp
  next
    case False
    then have r: "region_order reg r" by (auto simp: region_order_def)
    have "s = r \<or> region_order r s" using Cons.prems False by auto
    with r show ?thesis using region_order_trans by blast
  qed
qed simp

lemma lmm_add_ok:
  assumes "lmm_ok lmm" "0 < unat mn" "unat mn + 7 < 4294967296" "unat mn + unat sz < 4294967296"
    "\<forall>r \<in> set lmm. region_bytes r \<inter> {up8 (unat mn)..<down8 (unat mn + unat sz)} = {}"
  shows "lmm_ok (lmm_add lmm mn sz flags pri) \<and>
    free_bytes (lmm_add lmm mn sz flags pri) =
      free_bytes lmm \<union> (if up8 (unat mn) + 32 \<le> down8 (unat mn + unat sz)
                        then {up8 (unat mn) + 24..<down8 (unat mn + unat sz)} else {})"
proof -
  define lo hi where "lo = (mn + ALIGN_MASK) AND NOT ALIGN_MASK" and "hi = (mn + sz) AND NOT ALIGN_MASK"
  have hi: "unat hi = down8 (unat mn + unat sz)" using assms(4) by (simp add: hi_def unat_down8 uadd)
  have lo: "unat lo = up8 (unat mn)" using assms(3) by (simp add: lo_def unat_up8)
  have sz32: "unat (sizeof_lmm_region + sizeof_lmm_node) = 32" by (simp add: uadd sizes)
  have drop: "hi < lo \<or> hi - lo < sizeof_lmm_region + sizeof_lmm_node \<longleftrightarrow>
      \<not> up8 (unat mn) + 32 \<le> down8 (unat mn + unat sz)"
    using lo hi sz32 by (cases "lo \<le> hi") (auto simp: word_nat usub)
  show ?thesis
  proof (cases "hi < lo \<or> hi - lo < sizeof_lmm_region + sizeof_lmm_node")
    case True
    then have "lmm_add lmm mn sz flags pri = lmm" by (simp add: lmm_add_def lo_def hi_def Let_def)
    with True assms(1) drop show ?thesis by simp
  next
    case False
    then have ge: "unat lo + 32 \<le> unat hi" using drop lo hi by simp
    define node where "node = \<lparr>node_at = lo + sizeof_lmm_region, node_size = hi - (lo + sizeof_lmm_region)\<rparr>"
    define reg where "reg = \<lparr>reg_at = lo, reg_nodes = [node], reg_flags = flags, reg_pri = pri,
        reg_size = hi - lo, reg_free = node_size node\<rparr>"
    let ?before = "\<lambda>r. pri < reg_pri r \<or> reg_pri r = pri \<and> reg_size reg < reg_size r"
    have pos: "0 < unat lo" using lo assms(2) up8_ge [of "unat mn"] by simp
    have add: "lmm_add lmm mn sz flags pri = takeWhile ?before lmm @ reg # dropWhile ?before lmm"
      using False pos by (auto simp: lmm_add_def lo_def [symmetric] hi_def [symmetric] Let_def node_def reg_def)
    have at: "unat (lo + sizeof_lmm_region) = unat lo + 24"
      using ge unat_bound [of hi] by (simp add: uadd sizes)
    then have nsz: "unat (hi - (lo + sizeof_lmm_region)) = unat hi - (unat lo + 24)"
      using ge by (simp add: usub word_nat)
    have rsz: "unat (hi - lo) = unat hi - unat lo" using ge by (simp add: usub word_nat)
    have bytes: "region_bytes reg = {up8 (unat mn)..<down8 (unat mn + unat sz)}"
      using ge lo hi rsz by (simp add: region_bytes_def reg_def)
    have nodes: "node_bytes node = {up8 (unat mn) + 24..<down8 (unat mn + unat sz)}"
      using ge lo hi at nsz by (simp add: node_bytes_def node_def)
    have ok: "region_ok reg"
      using pos ge rsz at nsz lo hi unat_bound [of hi] unfolding region_ok_def
      by (simp add: reg_def node_def dvd_diff_nat)
    have before: "\<forall>s \<in> set (takeWhile ?before lmm). region_order s reg"
      by (auto simp: region_order_def reg_def dest: set_takeWhileD)
    have after: "\<forall>s \<in> set (dropWhile ?before lmm). region_order reg s"
      using order_after [of lmm _ reg] assms(1) by (auto simp: lmm_ok_def reg_def)
    have "lmm_ok (takeWhile ?before lmm @ reg # dropWhile ?before lmm)"
      by (rule lmm_ok_insert) (use assms(1,5) ok before after bytes in \<open>auto simp: Int_commute\<close>)
    moreover have "free_bytes (takeWhile ?before lmm @ reg # dropWhile ?before lmm) =
        free_bytes (takeWhile ?before lmm @ dropWhile ?before lmm) \<union> node_bytes node"
      unfolding free_bytes_append by (auto simp: reg_def)
    ultimately show ?thesis using add nodes drop False by simp
  qed
qed

subsection \<open>The lowest free block from an address on\<close>

definition tail_of :: "lmm_region \<Rightarrow> lmm_node list \<Rightarrow> u32 \<times> u32 \<times> u32 \<Rightarrow> bool" where
  "tail_of reg ns low \<longleftrightarrow> (case low of (a, s, f) \<Rightarrow> f = reg_flags reg \<and>
     (\<exists>n \<in> set ns. node_at n \<le> a \<and> unat a < node_end n \<and> unat a + unat s = node_end n))"

lemma find_nodes_ok:
  assumes "region_ok reg" "nodes_ok lo (region_end reg) ns" "unat (reg_at reg) < lo" "start \<le> fst low"
  shows "\<exists>low'. find_nodes DEBUG reg start low ns = Some low' \<and> start \<le> fst low' \<and> fst low' \<le> fst low \<and>
    (\<forall>x \<in> nodes_bytes ns. unat start \<le> x \<longrightarrow> unat (fst low') \<le> x) \<and> (low' = low \<or> tail_of reg ns low')"
  using assms(2,3)
proof (induction ns arbitrary: lo)
  case Nil
  then show ?case using assms(4) by simp
next
  case (Cons n ns)
  have n: "lo \<le> unat (node_at n)" "node_end n \<le> region_end reg" "0 < unat (node_size n)"
    using Cons.prems(1) by simp_all
  have chk: "reg_at reg < node_at n" "node_at n < reg_at reg + reg_size reg"
    using n Cons.prems(2) region_ok_D(3) [OF assms(1)] by (simp_all add: word_nat)
  have bytes: "\<forall>x \<in> nodes_bytes ns. node_end n < x"
    using Cons.prems(1) nodes_ok_bytes [of "node_end n + 1" "region_end reg" ns] by fastforce
  have fin: "unat (node_at n + node_size n) = node_end n"
    using n region_ok_D(2) [OF assms(1)] by (simp add: uadd)
  consider "fst low \<le> node_at n" | "\<not> fst low \<le> node_at n" "start < node_at n + node_size n"
    | "\<not> fst low \<le> node_at n" "\<not> start < node_at n + node_size n" by blast
  then show ?case
  proof cases
    case 1
    have "\<forall>x \<in> nodes_bytes (n # ns). unat (fst low) \<le> x"
      using nodes_ok_first(2) [OF Cons.prems(1)] 1 by (auto simp: word_nat intro: order_trans)
    then show ?thesis using chk 1 assms(4) by auto
  next
    case 2
    define low' where "low' = (if start < node_at n then (node_at n, node_size n, reg_flags reg)
      else (start, node_size n - (start - node_at n), reg_flags reg))"
    have "find_nodes DEBUG reg start low (n # ns) = Some low'" using chk 2 by (simp add: low'_def)
    moreover have "start \<le> fst low'" "fst low' \<le> fst low" using 2 assms(4) by (auto simp: low'_def)
    moreover have "\<forall>x \<in> nodes_bytes (n # ns). unat start \<le> x \<longrightarrow> unat (fst low') \<le> x"
      using nodes_ok_first(2) [OF Cons.prems(1)] by (auto simp: low'_def)
    moreover have "tail_of reg (n # ns) low'"
    proof (cases "start < node_at n")
      case True
      then show ?thesis using n by (simp add: tail_of_def low'_def)
    next
      case False
      have lt: "unat start < node_end n" using 2(2) fin by (simp add: word_nat)
      have d: "unat (start - node_at n) = unat start - unat (node_at n)" using False by (simp add: usub)
      then have "unat (node_size n - (start - node_at n)) = unat (node_size n) - (unat start - unat (node_at n))"
        using False lt by (subst usub) (auto simp: word_nat)
      then show ?thesis using False lt by (simp add: tail_of_def low'_def word_nat)
    qed
    ultimately show ?thesis by blast
  next
    case 3
    have "nodes_ok (node_end n + 1) (region_end reg) ns" "unat (reg_at reg) < node_end n + 1"
      using Cons.prems by simp_all
    from Cons.IH [OF this] obtain low' where IH: "find_nodes DEBUG reg start low ns = Some low'"
      "start \<le> fst low'" "fst low' \<le> fst low" "\<forall>x \<in> nodes_bytes ns. unat start \<le> x \<longrightarrow> unat (fst low') \<le> x"
      "low' = low \<or> tail_of reg ns low'" by blast
    have "find_nodes DEBUG reg start low (n # ns) = Some low'" using chk 3 IH(1) by simp
    moreover have "\<forall>x \<in> nodes_bytes (n # ns). unat start \<le> x \<longrightarrow> unat (fst low') \<le> x"
      using IH(4) 3(2) fin by (auto simp: node_bytes_def word_nat)
    moreover have "low' = low \<or> tail_of reg (n # ns) low'"
      using IH(5) by (auto simp: tail_of_def split: prod.splits)
    ultimately show ?thesis using IH(2,3) by blast
  qed
qed

definition lowest :: "nat \<Rightarrow> lmm \<Rightarrow> u32 \<times> u32 \<times> u32 \<Rightarrow> bool" where
  "lowest start lmm low \<longleftrightarrow> start \<le> unat (fst low) \<and>
     (\<forall>x \<in> free_bytes lmm. start \<le> x \<longrightarrow> unat (fst low) \<le> x) \<and>
     (low = (- 1, 0, 0) \<or> (\<exists>r \<in> set lmm. tail_of r (reg_nodes r) low))"

lemma find_region_step:
  assumes "region_ok reg" "lowest (unat start) seen low"
  shows "\<exists>low'. (if reg_nodes reg = [] \<or> reg_at reg + reg_size reg \<le> start \<or> fst low < reg_at reg then Some low
                 else find_nodes DEBUG reg start low (reg_nodes reg)) = Some low' \<and>
                lowest (unat start) (seen @ [reg]) low'"
proof (cases "reg_nodes reg = [] \<or> reg_at reg + reg_size reg \<le> start \<or> fst low < reg_at reg")
  case True
  have "\<forall>x \<in> nodes_bytes (reg_nodes reg). unat start \<le> x \<longrightarrow> unat (fst low) \<le> x"
    using True region_ok_D(3,6) [OF assms(1)] by (fastforce simp: word_nat)
  then show ?thesis using True assms(2) by (auto simp: lowest_def free_bytes_append)
next
  case False
  have "start \<le> fst low" using assms(2) by (simp add: lowest_def word_nat)
  from find_nodes_ok [OF assms(1) region_ok_D(1) [OF assms(1)] _ this, of DEBUG]
  obtain low' where low': "find_nodes DEBUG reg start low (reg_nodes reg) = Some low'"
    "start \<le> fst low'" "fst low' \<le> fst low"
    "\<forall>x \<in> nodes_bytes (reg_nodes reg). unat start \<le> x \<longrightarrow> unat (fst low') \<le> x"
    "low' = low \<or> tail_of reg (reg_nodes reg) low'" by auto
  have "\<forall>x \<in> free_bytes (seen @ [reg]). unat start \<le> x \<longrightarrow> unat (fst low') \<le> x"
    using low'(3,4) assms(2) by (auto simp: lowest_def free_bytes_append word_nat intro: order_trans)
  then have "lowest (unat start) (seen @ [reg]) low'"
    using low'(2,5) assms(2) by (auto simp: lowest_def word_nat)
  with low'(1) False show ?thesis by auto
qed

lemma find_regions_ok:
  assumes "lmm_ok lmm" "lowest (unat start) seen low"
  shows "\<exists>low'. find_regions DEBUG start low lmm = Some low' \<and> lowest (unat start) (seen @ lmm) low'"
  using assms
proof (induction lmm arbitrary: seen low)
  case (Cons reg regs)
  have "region_ok reg" and regs: "lmm_ok regs" using Cons.prems(1) by (simp_all add: lmm_ok_Cons)
  from find_region_step [OF this(1) Cons.prems(2), of DEBUG] obtain low' where l:
    "(if reg_nodes reg = [] \<or> reg_at reg + reg_size reg \<le> start \<or> fst low < reg_at reg then Some low
      else find_nodes DEBUG reg start low (reg_nodes reg)) = Some low'"
    "lowest (unat start) (seen @ [reg]) low'" by blast
  from Cons.IH [OF regs l(2)] l(1) show ?case by (auto split: if_splits)
qed simp

lemma free_bytes_bound:
  assumes "lmm_ok lmm" "x \<in> free_bytes lmm"
  shows "x < 4294967288"
proof -
  obtain r where r: "r \<in> set lmm" "x \<in> nodes_bytes (reg_nodes r)" using assms(2) by (auto simp: free_bytes_def)
  have "region_ok r" by (rule lmm_ok_region [OF assms(1) r(1)])
  then have "8 dvd region_end r" "region_end r < 4294967296" "x < region_end r"
    using region_ok_D(6) [of r] r(2) by (auto simp: region_ok_def)
  then show ?thesis by presburger
qed

lemma find_free_ok:
  assumes "lmm_ok lmm" "unat addr + 7 < 4294967296"
  shows "\<exists>a s f. lmm_find_free DEBUG lmm addr = Some (a, s, f) \<and>
    (if \<exists>x \<in> free_bytes lmm. up8 (unat addr) \<le> x
     then up8 (unat addr) \<le> unat a \<and> unat a \<in> free_bytes lmm \<and>
          (\<forall>x \<in> free_bytes lmm. up8 (unat addr) \<le> x \<longrightarrow> unat a \<le> x) \<and>
          (\<exists>r \<in> set lmm. \<exists>n \<in> set (reg_nodes r). f = reg_flags r \<and> node_at n \<le> a \<and> 0 < unat s \<and>
             unat a + unat s = node_end n)
     else a = - 1 \<and> s = 0 \<and> f = 0)"
proof -
  have m1: "unat (- 1 :: u32) = 4294967295" by (simp add: unsigned_minus_1_eq_mask mask_eq_exp_minus_1)
  have start: "unat ((addr + ALIGN_MASK) AND NOT ALIGN_MASK) = up8 (unat addr)" by (rule unat_up8 [OF assms(2)])
  have "lowest (unat ((addr + ALIGN_MASK) AND NOT ALIGN_MASK)) [] (- 1, 0, 0)"
    using assms(2) up8_less [of "unat addr"] by (simp add: lowest_def start m1)
  from find_regions_ok [OF assms(1) this, of DEBUG] obtain a s f where f:
    "lmm_find_free DEBUG lmm addr = Some (a, s, f)" "lowest (up8 (unat addr)) lmm (a, s, f)"
    by (auto simp: lmm_find_free_def start)
  show ?thesis
  proof (cases "\<exists>x \<in> free_bytes lmm. up8 (unat addr) \<le> x")
    case True
    then obtain x where x: "x \<in> free_bytes lmm" "up8 (unat addr) \<le> x" by blast
    have "unat a \<le> x" using f(2) x by (auto simp: lowest_def)
    then have "a \<noteq> - 1" using free_bytes_bound [OF assms(1) x(1)] m1 by auto
    then obtain r n where rn: "r \<in> set lmm" "f = reg_flags r" "n \<in> set (reg_nodes r)" "node_at n \<le> a"
      "unat a < node_end n" "unat a + unat s = node_end n"
      using f(2) by (auto simp: lowest_def tail_of_def)
    then have "unat a \<in> free_bytes lmm"
      by (auto simp: free_bytes_def nodes_bytes_def node_bytes_def word_nat)
    moreover have "0 < unat s" using rn(5,6) by simp
    ultimately show ?thesis using True f rn by (auto simp: lowest_def)
  next
    case False
    have "(a, s, f) = (- 1, 0, 0)"
    proof (rule ccontr)
      assume "(a, s, f) \<noteq> (- 1, 0, 0)"
      then obtain r n where rn: "r \<in> set lmm" "n \<in> set (reg_nodes r)" "node_at n \<le> a" "unat a < node_end n"
        using f(2) by (auto simp: lowest_def tail_of_def)
      then have "unat a \<in> free_bytes lmm"
        by (auto simp: free_bytes_def nodes_bytes_def node_bytes_def word_nat)
      then show False using False f(2) by (auto simp: lowest_def)
    qed
    with False f(1) show ?thesis by auto
  qed
qed

end
