(* ===== verification/Lmm_Malloc.thy ===== *)
theory Lmm_Malloc
  imports Lmm
begin

text \<open>
  The clients of the list memory manager: the C library's \<^verbatim>\<open>malloc\<close> family
  (\<^verbatim>\<open>libmach/c/malloc\<close>, \<^verbatim>\<open>libmach/c/calloc.c\<close>), the boot loader's
  \<^verbatim>\<open>malloc_reserve\<close> (\<^verbatim>\<open>i386/boot/malloc.c\<close>) and the registration of
  physical memory (\<^verbatim>\<open>i386/kernel/pc/phys_mem_add.c\<close>).

  All of them work on the pool \<^verbatim>\<open>malloc_lmm\<close>. The contents of allocated memory are
  a function from addresses to bytes; the memory of free blocks, where the memory manager keeps its
  nodes, is represented by the pool.
\<close>

unbundle bit_operations_syntax

type_synonym mem = "u32 \<Rightarrow> 8 word"

type_synonym heap = "lmm \<times> mem"

definition sizeof_size_t :: u32 where "sizeof_size_t = 4"

text \<open>A \<^verbatim>\<open>size_t\<close> in memory, low byte first.\<close>

definition store_size :: "mem \<Rightarrow> u32 \<Rightarrow> u32 \<Rightarrow> mem" where
  "store_size m a v = m(a := ucast v, a + 1 := ucast (drop_bit 8 v),
                        a + 2 := ucast (drop_bit 16 v), a + 3 := ucast (drop_bit 24 v))"

definition load_size :: "mem \<Rightarrow> u32 \<Rightarrow> u32" where
  "load_size m a = ucast (m a) OR push_bit 8 (ucast (m (a + 1))) OR
                   push_bit 16 (ucast (m (a + 2))) OR push_bit 24 (ucast (m (a + 3)))"

text \<open>Copying between blocks that overlap is not defined.\<close>

definition memcpy :: "mem \<Rightarrow> u32 \<Rightarrow> u32 \<Rightarrow> u32 \<Rightarrow> mem option" where
  "memcpy m dst src n =
     do { assert_that (n \<le> dst - src \<and> n \<le> src - dst);
          Some (\<lambda>a. if a - dst < n then m (src + (a - dst)) else m a) }"

definition bzero :: "mem \<Rightarrow> u32 \<Rightarrow> u32 \<Rightarrow> mem" where
  "bzero m p n = (\<lambda>a. if a - p < n then 0 else m a)"

subsection \<open>The malloc family\<close>

text \<open>
  \<^verbatim>\<open>morecore\<close> of the library finds no memory, so the loops of \<^verbatim>\<open>malloc\<close> and
  \<^verbatim>\<open>realloc\<close> return after the first failure.
\<close>

definition morecore :: "u32 \<Rightarrow> int" where "morecore sz = 0"

definition malloc_chunk :: "bool \<Rightarrow> lmm \<Rightarrow> u32 \<Rightarrow> (u32 \<times> lmm) option" where
  "malloc_chunk DEBUG lmm sz =
     do { (chunk, lmm) \<leftarrow> lmm_alloc DEBUG lmm sz 0;
          if chunk \<noteq> 0 then Some (chunk, lmm)
          else if morecore sz = 0 then Some (0, lmm) else None }"

definition malloc :: "bool \<Rightarrow> heap \<Rightarrow> u32 \<Rightarrow> (u32 \<times> heap) option" where
  "malloc DEBUG h sz0 =
     (let (lmm, m) = h; sz = sz0 + sizeof_size_t in
      do { (chunk, lmm) \<leftarrow> malloc_chunk DEBUG lmm sz;
           Some (if chunk = 0 then (0, (lmm, m))
                 else (chunk + sizeof_size_t, (lmm, store_size m chunk sz))) })"

definition free :: "bool \<Rightarrow> heap \<Rightarrow> u32 \<Rightarrow> heap option" where
  "free DEBUG h chunk_ptr =
     (let (lmm, m) = h; chunk = chunk_ptr - sizeof_size_t in
      do { lmm \<leftarrow> lmm_free DEBUG lmm chunk (load_size m chunk); Some (lmm, m) })"

definition realloc :: "bool \<Rightarrow> heap \<Rightarrow> u32 \<Rightarrow> u32 \<Rightarrow> (u32 \<times> heap) option" where
  "realloc DEBUG h buf new_size0 =
     (if buf = 0 then malloc DEBUG h new_size0
      else let (lmm, m) = h; op = buf - sizeof_size_t; old_size = load_size m op;
               new_size = new_size0 + sizeof_size_t in
           do { (np, lmm) \<leftarrow> malloc_chunk DEBUG lmm new_size;
                if np = 0 then Some (0, (lmm, m))
                else do { m \<leftarrow> memcpy m np op (if old_size < new_size then old_size else new_size);
                          lmm \<leftarrow> lmm_free DEBUG lmm op old_size;
                          Some (np + sizeof_size_t, (lmm, store_size m np new_size)) } })"

definition calloc :: "bool \<Rightarrow> heap \<Rightarrow> u32 \<Rightarrow> u32 \<Rightarrow> (u32 \<times> heap) option" where
  "calloc DEBUG h nelt eltsize =
     do { (ptr, h) \<leftarrow> malloc DEBUG h (nelt * eltsize);
          Some (if ptr = 0 then (0, h) else (ptr, (fst h, bzero (snd h) ptr (nelt * eltsize)))) }"

subsection \<open>Reserving a range\<close>

partial_function (option) malloc_reserve :: "bool \<Rightarrow> lmm \<Rightarrow> u32 \<Rightarrow> u32 \<Rightarrow> lmm option" where
  "malloc_reserve DEBUG lmm rstart rend =
     (if rstart < rend
      then Option.bind (lmm_find_free DEBUG lmm rstart) (\<lambda>(rstart, sz, flags).
             if sz = 0 \<or> rend \<le> rstart then Some lmm
             else let sz = (if rend < rstart + sz then rend - rstart else sz) in
                  Option.bind (lmm_alloc_gen DEBUG lmm sz flags 0 0 rstart sz) (\<lambda>(p, lmm).
                  Option.bind (assert_that (p = rstart)) (\<lambda>_.
                  malloc_reserve DEBUG lmm rstart rend)))
      else Some lmm)"

subsection \<open>Physical memory\<close>

definition LMM_PRI_1MB :: int where "LMM_PRI_1MB = - 2"

definition LMM_PRI_16MB :: int where "LMM_PRI_16MB = - 1"

definition LMMF_1MB :: u32 where "LMMF_1MB = 1"

definition LMMF_16MB :: u32 where "LMMF_16MB = 2"

text \<open>The pool, and the highest physical address seen; \<open>va\<close> is \<^verbatim>\<open>phys_mem_va\<close>.\<close>

definition phys_mem_add :: "u32 \<Rightarrow> lmm \<times> u32 \<Rightarrow> u32 \<Rightarrow> u32 \<Rightarrow> lmm \<times> u32" where
  "phys_mem_add va st mn sz =
     (let (lmm, phys_mem_max) = st; mx = mn + sz; lim = 16 * 1024 * 1024;
          lmm = (if mx \<le> 1 * 1024 * 1024
                 then lmm_add lmm (mn + va) sz (LMMF_1MB OR LMMF_16MB) LMM_PRI_1MB
                 else let lmm = (if mn < lim
                                 then let nmax = (if lim < mx then lim else mx) in
                                      lmm_add lmm (mn + va) (nmax - mn) LMMF_16MB LMM_PRI_16MB
                                 else lmm) in
                      if lim < mx
                      then let nmin = (if mn < lim then lim else mn) in
                           lmm_add lmm (nmin + va) (mx - nmin) 0 0
                      else lmm)
      in (lmm, if phys_mem_max < mx then mx else phys_mem_max))"

end
