(* ===== verification/Lmm_Reserve.thy ===== *)
theory Lmm_Reserve
  imports Lmm_Pool Lmm_Malloc
begin

text \<open>
The free space counter, the consistency check of \<^verbatim>\<open>lmm_dump\<close>, and the loop that reserves a range of memory.
\<close>

subsection \<open>Free space and the consistency check\<close>

lemma sorted_wrt_lmm_filter: "lmm_ok lmm \<Longrightarrow> lmm_ok (filter P lmm)"
  by (auto simp: lmm_ok_def sorted_wrt_filter list_all_iff)

lemma free_bytes_card:
  "lmm_ok lmm \<Longrightarrow> card (free_bytes lmm) = (\<Sum>r \<leftarrow> lmm. unat (reg_free r)) \<and> finite (free_bytes lmm)"
proof (induction lmm)
  case (Cons r rs)
  have "region_ok r" "lmm_ok rs" using Cons.prems by (simp_all add: lmm_ok_Cons)
  with Cons.IH show ?case
    using free_bytes_apart [OF Cons.prems] region_ok_D(5) by (simp add: card_Un_disjoint)
qed simp

lemma free_bytes_total: "lmm_ok lmm \<Longrightarrow> card (free_bytes lmm) < 4294967296"
  using card_mono [of "{..<4294967288}" "free_bytes lmm"] free_bytes_bound [of lmm] by fastforce

lemma avail_loop_ok:
  assumes "lmm_ok lmm" "no_exhausted DEBUG lmm"
  shows "avail_loop DEBUG flags c lmm =
    Some (c + of_nat (\<Sum>r \<leftarrow> filter (\<lambda>r. flags AND NOT (reg_flags r) = 0) lmm. unat (reg_free r)))"
  using assms
proof (induction lmm arbitrary: c)
  case (Cons r rs)
  then have "lmm_assert DEBUG (region_checks r) = Some ()"
    by (auto simp: lmm_ok_Cons no_exhausted_Cons intro!: region_assert_ok)
  then show ?case using Cons by (simp add: lmm_ok_Cons no_exhausted_Cons)
qed simp

lemma avail_ok:
  assumes "lmm_ok lmm" "no_exhausted DEBUG lmm"
  shows "\<exists>c. lmm_avail DEBUG lmm flags = Some c \<and>
    unat c = card (free_bytes (filter (\<lambda>r. flags AND NOT (reg_flags r) = 0) lmm))"
proof -
  let ?l = "filter (\<lambda>r. flags AND NOT (reg_flags r) = 0) lmm"
  have "lmm_ok ?l" by (rule sorted_wrt_lmm_filter [OF assms(1)])
  then have "(\<Sum>r \<leftarrow> ?l. unat (reg_free r)) = card (free_bytes ?l)" "card (free_bytes ?l) < 4294967296"
    using free_bytes_card [of ?l] free_bytes_total [of ?l] by auto
  then show ?thesis using avail_loop_ok [OF assms, of flags 0] by (simp add: lmm_avail_def unat_of_nat)
qed

lemma dump_nodes_ok:
  assumes "region_ok r" "nodes_ok lo (region_end r) ns"
  shows "dump_nodes r c ns = Some (c + of_nat (\<Sum>n \<leftarrow> ns. unat (node_size n)))"
  using assms(2)
proof (induction ns arbitrary: lo c)
  case (Cons n ns)
  have "node_checks r n ns" by (rule node_checks_ok [OF assms(1) Cons.prems])
  with Cons.IH [of "node_end n + 1"] Cons.prems show ?case by simp
qed simp

lemma dump_ok:
  "lmm_ok lmm \<Longrightarrow> lmm_dump lmm = (if \<forall>r \<in> set lmm. reg_nodes r \<noteq> [] then Some () else None)"
proof (induction lmm)
  case (Cons r rs)
  have r: "region_ok r" and rs: "lmm_ok rs" using Cons.prems by (simp_all add: lmm_ok_Cons)
  have "(\<Sum>n \<leftarrow> reg_nodes r. unat (node_size n)) = unat (reg_free r)"
    using r by (simp add: region_ok_def)
  then have free: "dump_nodes r 0 (reg_nodes r) = Some (reg_free r)"
    using dump_nodes_ok [OF r region_ok_D(1) [OF r], of 0] by (simp only:) simp
  show ?case
  proof (cases "reg_nodes r = []")
    case True
    have "\<not> region_checks r" using True region_ok_D(4) [OF r] by (simp add: region_checks_def first_node_def word_nat)
    with True show ?thesis by simp
  next
    case False
    with Cons.IH [OF rs] free region_checks_ok [OF r False] show ?thesis by simp
  qed
qed simp

text \<open>A debugging build refuses to search past a region that has no free memory left.\<close>

lemma debug_exhausted:
  assumes "region_ok r" "reg_nodes r = []"
  shows "alloc_regions True sz flags (r # rs) = None"
proof -
  have "\<not> region_checks r" using assms(2) region_ok_D(4) [OF assms(1)]
    by (simp add: region_checks_def first_node_def word_nat)
  then show ?thesis by (simp add: lmm_assert_def)
qed

subsection \<open>Reserving a range\<close>

lemma free_bytes_granules:
  assumes "lmm_ok lmm" "x \<in> free_bytes lmm"
  shows "{down8 x..<down8 x + 8} \<subseteq> free_bytes lmm"
proof -
  obtain r n where rn: "r \<in> set lmm" "n \<in> set (reg_nodes r)" "x \<in> node_bytes n"
    using assms(2) by (auto simp: free_bytes_def nodes_bytes_def)
  have ok: "8 dvd unat (node_at n)" "8 dvd unat (node_size n)"
    using nodes_ok_in [OF region_ok_D(1) [OF lmm_ok_region [OF assms(1) rn(1)]] rn(2)] by auto
  have x: "unat (node_at n) \<le> x" "x < node_end n" using rn(3) by (auto simp: node_bytes_def)
  have "unat (node_at n) \<le> down8 x" by (rule down8_ge [OF ok(1) x(1)])
  moreover have "down8 x + 8 \<le> node_end n" using ok x(2) unfolding down8_def by presburger
  ultimately have "{down8 x..<down8 x + 8} \<subseteq> node_bytes n" by (auto simp: node_bytes_def)
  then show ?thesis using rn by (auto simp: free_bytes_def nodes_bytes_def)
qed

lemma up8_mono: "x \<le> y \<Longrightarrow> up8 x \<le> up8 y"
  by (rule up8_le) (use up8_ge [of y] in auto)

lemma reserve_alloc:
  assumes "lmm_ok lmm" "no_exhausted DEBUG lmm" "\<forall>r \<in> set lmm. unat (reg_size r) < 2147483648"
    "r \<in> set lmm" "n \<in> set (reg_nodes r)" "node_at n \<le> a" "0 < unat s" "unat a + unat s \<le> node_end n"
  shows "\<exists>lmm'. lmm_alloc_gen DEBUG lmm s (reg_flags r) 0 0 a s = Some (a, lmm') \<and>
                lmm_takes lmm (cover (unat a) (unat s)) lmm'"
proof -
  have ok: "region_ok r" by (rule lmm_ok_region [OF assms(1,4)])
  note n = nodes_ok_in [OF region_ok_D(1) [OF ok] assms(5)]
  have bnd: "node_end n < 4294967296" "unat (node_size n) \<le> unat (reg_size r)" using n region_ok_D(2) [OF ok] by linarith+
  have as: "unat (a + s) = unat a + unat s" using assms(8) bnd by (intro uadd) linarith
  have "unat s < 2147483648" using assms(3,4,6,8) bnd(2) by (fastforce simp: word_nat)
  then have big: "\<forall>r \<in> set lmm. unat s + unat (reg_size r) + 2 ^ 0 \<le> 4294967296" using assms(3) by fastforce
  have meets: "meets (unat s) 0 0 a (a + s) x \<longleftrightarrow> x = unat a" for x by (auto simp: meets_def as)
  have blk: "block_in lmm (reg_flags r) (unat a) (unat s)"
    using assms(4-6,8) by (auto simp: block_in_def word_nat intro!: bexI [of _ r])
  from alloc_gen_regions_ok [OF assms(1,2,7) _ big, of "reg_flags r" 0 a "a + s"] obtain addr lmm' where al:
    "alloc_gen_regions DEBUG s (reg_flags r) 0 0 a (a + s) lmm = Some (addr, lmm')"
    "if addr = 0 then lmm' = lmm \<and> (\<nexists>x. block_in lmm (reg_flags r) x (unat s) \<and> meets (unat s) 0 0 a (a + s) x)
     else block_in lmm (reg_flags r) (unat addr) (unat s) \<and> meets (unat s) 0 0 a (a + s) (unat addr) \<and>
          lmm_takes lmm (cover (unat addr) (unat s)) lmm'" by auto
  have "addr \<noteq> 0" using al(2) blk meets by auto
  then have "addr = a" "lmm_takes lmm (cover (unat addr) (unat s)) lmm'"
    using al(2) unfolding meets by (auto simp: word_unat_eq_iff)
  then show ?thesis using al(1) by (auto simp: lmm_alloc_gen_def)
qed

lemma lowest_aligned:
  assumes "lmm_ok lmm" "8 dvd start" "start \<le> a" "a \<in> free_bytes lmm"
    "\<forall>x \<in> free_bytes lmm. start \<le> x \<longrightarrow> a \<le> x"
  shows "8 dvd a"
proof -
  have "down8 a \<in> free_bytes lmm" using free_bytes_granules [OF assms(1,4)] by auto
  moreover have "start \<le> down8 a" by (rule down8_ge [OF assms(2,3)])
  ultimately have "a = down8 a" using assms(5) down8_le [of a] by (simp add: order_antisym)
  then show ?thesis using dvd_down8 by metis
qed

lemma reserve_stop:
  assumes "lmm_ok lmm" "\<forall>x \<in> free_bytes lmm. up8 rstart \<le> x \<longrightarrow> rend \<le> x"
  shows "free_bytes lmm \<inter> {up8 rstart..<up8 rend} = {}"
proof -
  have False if x: "x \<in> free_bytes lmm" "up8 rstart \<le> x" "x < up8 rend" for x
  proof -
    have "down8 x \<in> free_bytes lmm" using free_bytes_granules [OF assms(1) x(1)] by auto
    moreover have "up8 rstart \<le> down8 x" by (rule down8_ge [OF _ x(2)]) simp
    ultimately have "rend \<le> down8 x" using assms(2) by blast
    then show False using up8_le [of "down8 x" rend] x(3) down8_le [of x] by simp
  qed
  then show ?thesis by fastforce
qed

lemma reserve_ok:
  assumes "lmm_ok lmm" "\<forall>r \<in> set lmm. unat (reg_size r) < 2147483648" "unat rend + 7 < 4294967296"
  shows "\<exists>lmm'. malloc_reserve False lmm rstart rend = Some lmm' \<and> lmm_ok lmm' \<and>
    map header lmm' = map header lmm \<and>
    free_bytes lmm' = free_bytes lmm - {up8 (unat rstart)..<up8 (unat rend)}"
  using assms(1,2)
proof (induction "card (free_bytes lmm)" arbitrary: lmm rstart rule: less_induct)
  case less
  show ?case
  proof (cases "rstart < rend")
    case False
    then have "{up8 (unat rstart)..<up8 (unat rend)} = {}" using up8_mono by (simp add: word_nat)
    then show ?thesis using False less.prems by (subst malloc_reserve.simps) simp
  next
    case True
    then have "unat rstart + 7 < 4294967296" using assms(3) by (simp add: word_nat)
    from find_free_ok [OF less.prems(1) this, of False] obtain a s f where f:
      "lmm_find_free False lmm rstart = Some (a, s, f)"
      "if \<exists>x \<in> free_bytes lmm. up8 (unat rstart) \<le> x
       then up8 (unat rstart) \<le> unat a \<and> unat a \<in> free_bytes lmm \<and>
          (\<forall>x \<in> free_bytes lmm. up8 (unat rstart) \<le> x \<longrightarrow> unat a \<le> x) \<and>
          (\<exists>r \<in> set lmm. \<exists>n \<in> set (reg_nodes r). f = reg_flags r \<and> node_at n \<le> a \<and> 0 < unat s \<and>
             unat a + unat s = node_end n)
       else a = - 1 \<and> s = 0 \<and> f = 0" by blast
    show ?thesis
    proof (cases "s = 0 \<or> rend \<le> a")
      case stop: True
      have "\<forall>x \<in> free_bytes lmm. up8 (unat rstart) \<le> x \<longrightarrow> unat rend \<le> x"
        using f(2) stop by (auto simp: word_nat split: if_splits)
      from reserve_stop [OF less.prems(1) this] less.prems(1) True f(1) stop show ?thesis
        by (subst malloc_reserve.simps) auto
    next
      case go: False
      define s' where "s' = (if rend < a + s then rend - a else s)"
      have ex: "\<exists>x \<in> free_bytes lmm. up8 (unat rstart) \<le> x" using f(2) go by (auto split: if_splits)
      then obtain r n where a: "up8 (unat rstart) \<le> unat a" "unat a \<in> free_bytes lmm"
        "\<forall>x \<in> free_bytes lmm. up8 (unat rstart) \<le> x \<longrightarrow> unat a \<le> x"
        and rn: "r \<in> set lmm" "n \<in> set (reg_nodes r)" "f = reg_flags r" "node_at n \<le> a" "0 < unat s"
        "unat a + unat s = node_end n" using f(2) by auto
      have lt: "node_end n < 4294967296"
        using nodes_ok_in [OF region_ok_D(1) rn(2)] region_ok_D(2) lmm_ok_region [OF less.prems(1) rn(1)]
        by (meson le_less_trans)
      have as: "unat (a + s) = unat a + unat s" using rn(6) lt by (simp add: uadd)
      have s': "0 < unat s'" "unat a + unat s' \<le> node_end n" "unat a + unat s' \<le> unat rend"
        using go rn(5,6) as by (auto simp: s'_def usub word_nat)
      have ne: "no_exhausted False lmm" by (simp add: no_exhausted_def)
      obtain lmm1 where al: "lmm_alloc_gen False lmm s' f 0 0 a s' = Some (a, lmm1)"
        "lmm_takes lmm (cover (unat a) (unat s')) lmm1"
        using reserve_alloc [OF less.prems(1) ne less.prems(2) rn(1,2,4) s'(1,2)] rn(3) by auto
      have a8: "8 dvd unat a" by (rule lowest_aligned [OF less.prems(1) _ a]) simp
      then have cov: "cover (unat a) (unat s') = {unat a..<up8 (unat a + unat s')}" "up8 (unat a) = unat a"
        using up8_aligned by (auto simp: cover_def down8_def)
      have ok1: "lmm_ok lmm1" "map header lmm1 = map header lmm"
        "free_bytes lmm1 = free_bytes lmm - {unat a..<up8 (unat a + unat s')}"
        using al(2) cov by (auto simp: lmm_takes_def)
      have size1: "\<forall>r \<in> set lmm1. unat (reg_size r) < 2147483648"
        using less.prems(2) same_headers [OF ok1(2)] header_eq(5) by metis
      have "unat a \<notin> free_bytes lmm1" using ok1(3) s'(1) up8_ge [of "unat a + unat s'"] by simp
      then have "free_bytes lmm1 \<subset> free_bytes lmm" using ok1(3) a(2) by blast
      then have dec: "card (free_bytes lmm1) < card (free_bytes lmm)"
        using free_bytes_card [OF less.prems(1)] by (intro psubset_card_mono) auto
      from less.hyps [OF dec ok1(1) size1, of a] obtain lmm' where IH:
        "malloc_reserve False lmm1 a rend = Some lmm'" "lmm_ok lmm'" "map header lmm' = map header lmm1"
        "free_bytes lmm' = free_bytes lmm1 - {unat a..<up8 (unat rend)}" using cov(2) by auto
      have "malloc_reserve False lmm rstart rend = Some lmm'"
        using True f(1) go al(1) IH(1) by (subst malloc_reserve.simps) (simp add: s'_def [symmetric] Let_def)
      moreover have "up8 (unat a + unat s') \<le> up8 (unat rend)" by (rule up8_mono [OF s'(3)])
      then have "free_bytes lmm' = free_bytes lmm - {up8 (unat rstart)..<up8 (unat rend)}"
        using IH(4) ok1(3) a(1,3) by fastforce
      ultimately show ?thesis using IH(2,3) ok1(2) by auto
    qed
  qed
qed

end
