(* ===== verification/Lmm_Props.thy ===== *)
theory Lmm_Props
  imports Lmm_Reserve
begin

text \<open>
What the list memory manager and its clients promise, stated over the translated functions.
\<close>

subsection \<open>A pool for the examples\<close>

definition lmm_example :: lmm where
  "lmm_example =
     [\<lparr>reg_at = 4096, reg_nodes = [\<lparr>node_at = 4120, node_size = 8\<rparr>, \<lparr>node_at = 4136, node_size = 4056\<rparr>],
       reg_flags = 2, reg_pri = 0, reg_size = 4096, reg_free = 4064\<rparr>]"

lemma lmm_example_ok:
  "lmm_ok lmm_example" "no_exhausted DEBUG lmm_example"
  "\<forall>r \<in> set lmm_example. unat (reg_size r) < 2147483648"
  by (simp_all add: lmm_ok_def region_ok_def lmm_example_def no_exhausted_def)

lemma free_bytes_example: "free_bytes lmm_example = {4120..<4128} \<union> {4136..<8192}"
  by (simp add: lmm_example_def free_bytes_def nodes_bytes_def node_bytes_def)

subsection \<open>Properties\<close>

text \<open>
  First fit. In a consistent pool, \<^verbatim>\<open>lmm_alloc\<close> returns. It yields null, without a
  change, exactly when no free node of a region with the flags asked for holds the rounded size;
  otherwise the address is aligned, the rounded block lies in one free node of such a region, exactly
  that block leaves the free memory, and the pool is consistent again.
\<close>

theorem lmm_alloc_exact:
  assumes "lmm_ok lmm" "no_exhausted DEBUG lmm" "unat sz + 7 < 4294967296"
  shows "\<exists>addr lmm'. lmm_alloc DEBUG lmm sz flags = Some (addr, lmm') \<and>
    (if addr = 0 then lmm' = lmm \<and> (\<nexists>x. block_in lmm flags x (up8 (unat sz)))
     else 8 dvd unat addr \<and> block_in lmm flags (unat addr) (up8 (unat sz)) \<and>
          lmm_takes lmm {unat addr..<unat addr + up8 (unat sz)} lmm')"
  using alloc_regions_ok [OF assms(1,2), of "(sz + ALIGN_MASK) AND NOT ALIGN_MASK" flags]
  unfolding lmm_alloc_def unat_up8 [OF assms(3)] by simp

theorem lmm_alloc_exact_witness:
  "\<exists>lmm'. lmm_alloc True lmm_example 20 2 = Some (4136, lmm') \<and> lmm_takes lmm_example {4136..<4160} lmm'"
proof -
  have "map_option fst (lmm_alloc True lmm_example 20 2) = Some 4136" by code_simp
  moreover have "up8 20 = 24" by (simp add: up8_def)
  ultimately show ?thesis
    using lmm_alloc_exact [OF lmm_example_ok(1,2), of 20 True 2] by auto
qed

text \<open>
  C7. Constrained allocation is exact. \<^verbatim>\<open>lmm_alloc_gen\<close> returns; it yields null, without a
  change, exactly when no free node of a region with the flags holds a block with the alignment and
  inside the bounds asked for; otherwise the block it returns has them, and the aligned bytes around
  it, at most 14 more than asked for, leave the free memory. The region and request sizes are small
  enough for the address computations not to wrap.
\<close>

theorem lmm_alloc_gen_exact:
  assumes "lmm_ok lmm" "no_exhausted DEBUG lmm" "0 < unat sz" "align_bits < 32"
    "unat in_min + unat in_size < 4294967296"
    "\<forall>r \<in> set lmm. unat sz + unat (reg_size r) + 2 ^ align_bits \<le> 4294967296"
  shows "\<exists>addr lmm'. lmm_alloc_gen DEBUG lmm sz flags align_bits align_ofs in_min in_size = Some (addr, lmm') \<and>
    (if addr = 0
     then lmm' = lmm \<and> (\<nexists>x. block_in lmm flags x (unat sz) \<and> x mod 2 ^ align_bits = unat align_ofs mod 2 ^ align_bits \<and>
                            unat in_min \<le> x \<and> x + unat sz \<le> unat in_min + unat in_size)
     else block_in lmm flags (unat addr) (unat sz) \<and>
          unat addr mod 2 ^ align_bits = unat align_ofs mod 2 ^ align_bits \<and>
          unat in_min \<le> unat addr \<and> unat addr + unat sz \<le> unat in_min + unat in_size \<and>
          lmm_takes lmm (cover (unat addr) (unat sz)) lmm' \<and>
          card (cover (unat addr) (unat sz)) \<le> unat sz + 14)"
proof -
  have m: "unat (in_min + in_size) = unat in_min + unat in_size" using assms(5) by (rule uadd)
  have "card (cover a s) \<le> s + 14" for a s
    using up8_less [of "a mod 8 + s"] mod_less_divisor [of 8 a] by (simp add: card_cover)
  then show ?thesis
    using alloc_gen_regions_ok [OF assms(1-4,6), of flags align_ofs in_min "in_min + in_size"] assms(4)
    by (fastforce simp: lmm_alloc_gen_def meets_def m)
qed

theorem lmm_alloc_gen_exact_witness:
  "\<exists>lmm'. lmm_alloc_gen True lmm_example 100 0 8 12 4200 2000 = Some (4364, lmm') \<and>
    block_in lmm_example 0 4364 100 \<and> lmm_takes lmm_example (cover 4364 100) lmm' \<and> card (cover 4364 100) \<le> 114"
proof -
  have "\<forall>r \<in> set lmm_example. unat (100 :: u32) + unat (reg_size r) + 2 ^ 8 \<le> 4294967296"
    by (simp add: lmm_example_def)
  moreover have "map_option fst (lmm_alloc_gen True lmm_example 100 0 8 12 4200 2000) = Some 4364" by code_simp
  ultimately show ?thesis
    using lmm_alloc_gen_exact [OF lmm_example_ok(1,2), of 100 8 4200 2000 True 0 12] by auto
qed

text \<open>
  C30. Freeing undoes allocating. When a block that \<^verbatim>\<open>lmm_alloc\<close> has just handed out is
  given back, and the region still has free memory above it, \<^verbatim>\<open>lmm_free\<close> merges it
  with its neighbours so that the very same pool results, list nodes and counters included.
\<close>

theorem lmm_alloc_free:
  assumes "lmm_ok lmm" "no_exhausted DEBUG lmm" "0 < unat sz" "unat sz + 7 < 4294967296"
    "lmm_alloc DEBUG lmm sz flags = Some (addr, lmm')" "addr \<noteq> 0" "no_exhausted DEBUG lmm'"
    "r \<in> set lmm'" "unat addr \<in> region_bytes r" "\<exists>n \<in> set (reg_nodes r). addr < node_at n"
  shows "lmm_free DEBUG lmm' addr sz = Some lmm"
proof -
  let ?B = "{unat addr..<unat addr + up8 (unat sz)}"
  have al: "8 dvd unat addr" "block_in lmm flags (unat addr) (up8 (unat sz))" "lmm_takes lmm ?B lmm'"
    using alloc_regions_ok [OF assms(1,2), of "(sz + ALIGN_MASK) AND NOT ALIGN_MASK" flags] assms(5,6)
    unfolding lmm_alloc_def unat_up8 [OF assms(4)] by auto
  have ok': "lmm_ok lmm'" "map header lmm' = map header lmm" "free_bytes lmm' = free_bytes lmm - ?B"
    "?B \<subseteq> free_bytes lmm" using al(3) by (auto simp: lmm_takes_def)
  have mask: "addr AND ALIGN_MASK = 0" using al(1) by (simp add: and_mask_0)
  have down: "addr AND NOT ALIGN_MASK = addr" using al(1) by (simp add: word_unat_eq_iff unat_down8 down8_def)
  have up: "unat ((sz + ALIGN_MASK) AND NOT ALIGN_MASK) = up8 (unat sz)" by (rule unat_up8 [OF assms(4)])
  obtain q n where q: "q \<in> set lmm" "n \<in> set (reg_nodes q)" "unat (node_at n) \<le> unat addr"
    "unat addr + up8 (unat sz) \<le> node_end n" using al(2) by (auto simp: block_in_def)
  have qok: "region_ok q" by (rule lmm_ok_region [OF assms(1) q(1)])
  note n = nodes_ok_in [OF region_ok_D(1) [OF qok] q(2)]
  obtain q' where q': "q' \<in> set lmm" "header r = header q'" by (rule same_headers [OF ok'(2) assms(8)])
  have pos: "0 < up8 (unat sz)" using assms(3) up8_ge [of "unat sz"] by simp
  have "unat addr \<in> nodes_bytes (reg_nodes q)"
    using q(2-4) pos by (auto simp: nodes_bytes_def node_bytes_def)
  then have "unat addr \<in> region_bytes q" "unat addr \<in> region_bytes q'"
    using nodes_in_region [OF qok] header_eq(1) [OF q'(2)] assms(9) by auto
  then have "q = q'" by (rule region_unique [OF assms(1) q(1) q'(1)])
  then have h: "header r = header q" using q'(2) by simp
  have "freeable lmm' r (unat addr) (up8 (unat sz))"
    using assms(8) al(1) pos n q(3,4) header_eq(3,5) [OF h] ok'(3) by (auto simp: freeable_def)
  then obtain lmm'' where f: "free_regions DEBUG addr ((sz + ALIGN_MASK) AND NOT ALIGN_MASK) lmm' = Some lmm''"
    "lmm_gives lmm' ?B lmm''"
    using free_regions_ok [OF ok'(1) _ assms(7,10), of "(sz + ALIGN_MASK) AND NOT ALIGN_MASK"] up by auto
  have "lmm'' = lmm"
    using f(2) ok' by (intro lmm_canonical [OF assms(1)]) (auto simp: lmm_gives_def)
  with f(1) show ?thesis by (simp add: lmm_free_def mask down)
qed

theorem lmm_alloc_free_witness:
  "\<exists>lmm'. lmm_alloc True lmm_example 20 2 = Some (4136, lmm') \<and> lmm_free True lmm' 4136 20 = Some lmm_example"
proof -
  let ?r = "\<lparr>reg_at = 4096, reg_nodes = [\<lparr>node_at = 4120, node_size = 8\<rparr>, \<lparr>node_at = 4160, node_size = 4032\<rparr>],
       reg_flags = 2, reg_pri = 0, reg_size = 4096, reg_free = 4040\<rparr>"
  have al: "lmm_alloc True lmm_example 20 2 = Some (4136, [?r])" by code_simp
  have "lmm_free True [?r] 4136 20 = Some lmm_example"
    by (rule lmm_alloc_free [OF lmm_example_ok(1,2) _ _ al, of ?r])
      (simp_all add: no_exhausted_def region_bytes_def)
  with al show ?thesis by blast
qed

lemma freeable_cover:
  assumes "lmm_ok lmm" "r \<in> set lmm" "0 < unat sz" "unat (reg_at r) + 24 \<le> unat block"
    "unat block + unat sz \<le> region_end r" "cover (unat block) (unat sz) \<inter> free_bytes lmm = {}"
  shows "freeable lmm r (unat (block AND NOT ALIGN_MASK))
           (unat (((block AND ALIGN_MASK) + sz + ALIGN_MASK) AND NOT ALIGN_MASK))"
    and "{unat (block AND NOT ALIGN_MASK)..<unat (block AND NOT ALIGN_MASK) +
           unat (((block AND ALIGN_MASK) + sz + ALIGN_MASK) AND NOT ALIGN_MASK)} = cover (unat block) (unat sz)"
proof -
  have ok: "region_ok r" by (rule lmm_ok_region [OF assms(1,2)])
  have r: "8 dvd unat (reg_at r) + 24" "8 dvd region_end r" "region_end r < 4294967296"
    using ok by (auto simp: region_ok_def)
  have "unat block mod 8 + unat sz + 7 < 4294967296"
    using assms(4,5) r(3) mod_less_divisor [of 8 "unat block"] by linarith
  then have s: "unat (((block AND ALIGN_MASK) + sz + ALIGN_MASK) AND NOT ALIGN_MASK) = up8 (unat block mod 8 + unat sz)"
    by (simp add: unat_up8 uadd unat_and_mask)
  have sum: "down8 (unat block) + up8 (unat block mod 8 + unat sz) = up8 (unat block + unat sz)" by (rule up8_shift)
  show cov: "{unat (block AND NOT ALIGN_MASK)..<unat (block AND NOT ALIGN_MASK) +
      unat (((block AND ALIGN_MASK) + sz + ALIGN_MASK) AND NOT ALIGN_MASK)} = cover (unat block) (unat sz)"
    unfolding s unfolding unat_down8 sum by (simp add: cover_def)
  have "unat (reg_at r) + 24 \<le> down8 (unat block)" by (rule down8_ge [OF r(1) assms(4)])
  moreover have "up8 (unat block + unat sz) \<le> region_end r" by (rule up8_le [OF r(2) assms(5)])
  moreover have "0 < up8 (unat block mod 8 + unat sz)" using up8_ge [of "unat block mod 8 + unat sz"] assms(3) by linarith
  ultimately show "freeable lmm r (unat (block AND NOT ALIGN_MASK))
      (unat (((block AND ALIGN_MASK) + sz + ALIGN_MASK) AND NOT ALIGN_MASK))"
    using assms(2,6) cov unfolding freeable_def s unfolding unat_down8 sum by simp
qed

lemma above_cover:
  "8 dvd unat (node_at n) \<Longrightarrow> (block AND NOT ALIGN_MASK < node_at n \<longleftrightarrow> block < node_at n)"
  unfolding word_nat unat_down8 down8_def by presburger

lemma node_aligned:
  "lmm_ok lmm \<Longrightarrow> r \<in> set lmm \<Longrightarrow> n \<in> set (reg_nodes r) \<Longrightarrow> 8 dvd unat (node_at n)"
  using nodes_ok_in region_ok_D(1) lmm_ok_region by blast

text \<open>
  C32. Freeing. A block inside the usable part of a region none of whose aligned bytes is free, with
  free memory of the same region above it, is given back by \<^verbatim>\<open>lmm_free\<close>: exactly its
  aligned bytes become free, and the pool stays consistent and merged.
\<close>

theorem lmm_free_exact:
  assumes "lmm_ok lmm" "no_exhausted DEBUG lmm" "r \<in> set lmm" "0 < unat sz"
    "unat (reg_at r) + 24 \<le> unat block" "unat block + unat sz \<le> region_end r"
    "cover (unat block) (unat sz) \<inter> free_bytes lmm = {}" "\<exists>n \<in> set (reg_nodes r). block < node_at n"
  shows "\<exists>lmm'. lmm_free DEBUG lmm block sz = Some lmm' \<and> lmm_gives lmm (cover (unat block) (unat sz)) lmm'"
proof -
  note f = freeable_cover [OF assms(1,3-7)]
  have "\<exists>n \<in> set (reg_nodes r). block AND NOT ALIGN_MASK < node_at n"
    using assms(8) above_cover node_aligned [OF assms(1,3)] by blast
  from free_regions_ok [OF assms(1) f(1) assms(2) this] show ?thesis
    unfolding lmm_free_def f(2) .
qed

theorem lmm_free_exact_witness:
  "\<exists>lmm'. lmm_free True lmm_example 4128 5 = Some lmm' \<and> lmm_gives lmm_example (cover 4128 5) lmm'"
proof -
  have "cover 4128 5 = {4128..<4136}" by (simp add: cover_def down8_def up8_def)
  then have "cover (unat (4128 :: u32)) (unat (5 :: u32)) \<inter> free_bytes lmm_example = {}"
    by (simp add: free_bytes_example) auto
  then show ?thesis
    using lmm_free_exact [OF lmm_example_ok(1,2), of "hd lmm_example" 5 4128 True] by (simp add: lmm_example_def)
qed

text \<open>
  C33. Freeing the topmost block of a region. In the build without assertions, giving back an allocated block has no
  result exactly when no free node of its region lies above the block. The cause is then always the same: \<^verbatim>\<open>nextnode\<close> is null,
  the end of the block is compared with address 0 all the same, and the size and link of a node at address 0
  are read; the insertion into the list of free nodes fails for no other reason. The debugging build does not get
  through such a call either: it makes the same read or stops at an assertion before.
\<close>

theorem lmm_free_null_next:
  assumes "lmm_ok lmm" "r \<in> set lmm" "0 < unat sz"
    "unat (reg_at r) + 24 \<le> unat block" "unat block + unat sz \<le> region_end r"
    "cover (unat block) (unat sz) \<inter> free_bytes lmm = {}"
  shows "(lmm_free False lmm block sz = None \<longleftrightarrow> (\<forall>n \<in> set (reg_nodes r). node_at n \<le> block)) \<and>
    (free_insert False prev node len nextnodes = None \<longleftrightarrow> nextnodes = []) \<and>
    ((\<forall>n \<in> set (reg_nodes r). node_at n \<le> block) \<longrightarrow> lmm_free True lmm block sz = None)"
proof -
  have "lmm_free DEBUG lmm block sz = None" if "\<forall>n \<in> set (reg_nodes r). node_at n \<le> block" for DEBUG
  proof -
    have "\<not> (\<exists>n \<in> set (reg_nodes r). block AND NOT ALIGN_MASK < node_at n)"
      using that above_cover node_aligned [OF assms(1,2)] by (meson leD)
    from free_regions_null [OF assms(1) freeable_cover(1) [OF assms] this] show ?thesis
      by (simp add: lmm_free_def)
  qed
  moreover have "lmm_free False lmm block sz \<noteq> None" if "n \<in> set (reg_nodes r)" "\<not> node_at n \<le> block" for n
  proof -
    note f = freeable_cover [OF assms]
    have "\<exists>n \<in> set (reg_nodes r). block AND NOT ALIGN_MASK < node_at n"
      using that above_cover node_aligned [OF assms(1,2)] by (meson not_le)
    from free_regions_ok [OF assms(1) f(1) _ this, of False] show ?thesis
      unfolding lmm_free_def f(2) by (auto simp: no_exhausted_def)
  qed
  moreover have "free_insert False prev node len nextnodes = None \<longleftrightarrow> nextnodes = []"
    by (auto simp: free_insert_def lmm_assert_def first_node_def split: list.splits)
  ultimately show ?thesis by blast
qed

theorem lmm_free_null_next_witness:
  "\<exists>lmm'. lmm_alloc False lmm_example 4056 2 = Some (4136, lmm') \<and> lmm_free False lmm' 4136 4056 = None"
proof -
  let ?r = "\<lparr>reg_at = 4096, reg_nodes = [\<lparr>node_at = 4120, node_size = 8\<rparr>],
       reg_flags = 2, reg_pri = 0, reg_size = 4096, reg_free = 8\<rparr>"
  have al: "lmm_alloc False lmm_example 4056 2 = Some (4136, [?r])" by code_simp
  have "lmm_ok [?r]" by (simp add: lmm_ok_def region_ok_def)
  moreover have "cover (unat (4136 :: u32)) (unat (4056 :: u32)) \<inter> free_bytes [?r] = {}"
    by (simp add: cover_def down8_def up8_def free_bytes_def nodes_bytes_def node_bytes_def)
  ultimately have "lmm_free False [?r] 4136 4056 = None"
    using lmm_free_null_next [of "[?r]" ?r 4056 4136] by simp
  with al show ?thesis by blast
qed

text \<open>
  \<^verbatim>\<open>lmm_find_free\<close> returns the lowest free address from the rounded start on, with
  the rest of the free node there and the flags of its region, or the address -1 and size 0 when
  nothing is free from there on.
\<close>

theorem lmm_find_free_lowest:
  assumes "lmm_ok lmm" "unat addr + 7 < 4294967296"
  shows "\<exists>a s f. lmm_find_free DEBUG lmm addr = Some (a, s, f) \<and>
    (if \<exists>x \<in> free_bytes lmm. up8 (unat addr) \<le> x
     then up8 (unat addr) \<le> unat a \<and> unat a \<in> free_bytes lmm \<and>
          (\<forall>x \<in> free_bytes lmm. up8 (unat addr) \<le> x \<longrightarrow> unat a \<le> x) \<and>
          (\<exists>r \<in> set lmm. \<exists>n \<in> set (reg_nodes r). f = reg_flags r \<and> node_at n \<le> a \<and> 0 < unat s \<and>
             unat a + unat s = node_end n)
     else a = - 1 \<and> s = 0 \<and> f = 0)"
  by (rule find_free_ok [OF assms])

theorem lmm_find_free_lowest_witness:
  "lmm_find_free True lmm_example 4125 = Some (4136, 4056, 2) \<and>
   4136 \<in> free_bytes lmm_example \<and> 4136 + 4056 = node_end \<lparr>node_at = 4136, node_size = 4056\<rparr>"
proof -
  have ev: "lmm_find_free True lmm_example 4125 = Some (4136, 4056, 2)" by code_simp
  have "up8 4125 = 4128" by (simp add: up8_def)
  with ev lmm_find_free_lowest [OF lmm_example_ok(1), of 4125 True] show ?thesis by (auto split: if_splits)
qed

text \<open>
  \<^verbatim>\<open>lmm_add\<close> of memory that overlaps no region keeps the pool consistent and its
  regions in the order of priority and size; the memory, less a header and rounded to whole nodes,
  becomes free, and memory too small for a header and a node is dropped.
\<close>

theorem lmm_add_exact:
  assumes "lmm_ok lmm" "0 < unat mn" "unat mn + 7 < 4294967296" "unat mn + unat sz < 4294967296"
    "\<forall>r \<in> set lmm. region_bytes r \<inter> {up8 (unat mn)..<down8 (unat mn + unat sz)} = {}"
  shows "lmm_ok (lmm_add lmm mn sz flags pri) \<and>
    free_bytes (lmm_add lmm mn sz flags pri) =
      free_bytes lmm \<union> (if up8 (unat mn) + 32 \<le> down8 (unat mn + unat sz)
                        then {up8 (unat mn) + 24..<down8 (unat mn + unat sz)} else {})"
  by (rule lmm_add_ok [OF assms])

theorem lmm_add_exact_witness:
  "lmm_ok (lmm_add lmm_example 8193 100 0 5) \<and>
   free_bytes (lmm_add lmm_example 8193 100 0 5) = free_bytes lmm_example \<union> {8224..<8288}"
proof -
  have "up8 8193 = 8200" "down8 8293 = 8288" by (simp_all add: up8_def down8_def)
  moreover from this have "\<forall>r \<in> set lmm_example. region_bytes r \<inter>
      {up8 (unat (8193 :: u32))..<down8 (unat (8193 :: u32) + unat (100 :: u32))} = {}"
    by (simp add: lmm_example_def region_bytes_def)
  ultimately show ?thesis
    using lmm_add_exact [OF lmm_example_ok(1), of 8193 100 0 5] by simp
qed



subsection \<open>Any sequence of requests\<close>

text \<open>
  What a client of an allocator relies on: a request that succeeds takes a block out of the free
  memory and nothing else. \<open>serve\<close> runs a list of requests and collects the blocks.
\<close>

fun serve :: "('q \<Rightarrow> 's \<Rightarrow> ('s \<times> nat set) option) \<Rightarrow> 'q list \<Rightarrow> 's \<Rightarrow> 's \<times> nat set list" where
  "serve alloc [] s = (s, [])"
| "serve alloc (q # qs) s =
     (case alloc q s of
        None \<Rightarrow> serve alloc qs s
      | Some (s', B) \<Rightarrow> (let (s'', Bs) = serve alloc qs s' in (s'', B # Bs)))"

locale allocator =
  fixes ok :: "'s \<Rightarrow> bool" and avail :: "'s \<Rightarrow> nat set" and valid :: "'q \<Rightarrow> 's \<Rightarrow> bool"
    and alloc :: "'q \<Rightarrow> 's \<Rightarrow> ('s \<times> nat set) option"
  assumes alloc_takes: "ok s \<Longrightarrow> valid q s \<Longrightarrow> alloc q s = Some (s', B) \<Longrightarrow>
      ok s' \<and> B \<subseteq> avail s \<and> avail s' = avail s - B"
    and alloc_valid: "ok s \<Longrightarrow> valid q s \<Longrightarrow> alloc q s = Some (s', B) \<Longrightarrow> valid p s \<Longrightarrow> valid p s'"
begin

lemma serve_disjoint:
  assumes "ok s" "\<forall>q \<in> set qs. valid q s" "serve alloc qs s = (s', Bs)"
  shows "ok s' \<and> sorted_wrt (\<lambda>A B. A \<inter> B = {}) Bs \<and> \<Union>(set Bs) \<subseteq> avail s \<and> avail s' = avail s - \<Union>(set Bs)"
  using assms
proof (induction qs arbitrary: s Bs)
  case (Cons q qs)
  show ?case
  proof (cases "alloc q s")
    case None
    then show ?thesis using Cons by simp
  next
    case (Some p)
    obtain t B where p: "p = (t, B)" by (cases p)
    obtain Cs where cs: "serve alloc qs t = (s', Cs)" "Bs = B # Cs"
      using Cons.prems(3) Some p by (auto split: prod.splits)
    have t: "ok t" "B \<subseteq> avail s" "avail t = avail s - B" "\<forall>q \<in> set qs. valid q t"
      using alloc_takes [of s q t B] alloc_valid [of s q t B] Cons.prems(1,2) Some p by auto
    from Cons.IH [OF t(1,4) cs(1)] t(2,3) show ?thesis unfolding cs(2) by auto
  qed
qed simp

end

datatype lmm_request =
    Alloc u32 u32
  | Alloc_gen u32 u32 nat u32 u32 u32

text \<open>The blocks are the bytes that leave the pool.\<close>

definition lmm_serve :: "lmm_request \<Rightarrow> lmm \<Rightarrow> (lmm \<times> nat set) option" where
  "lmm_serve q lmm =
     (case q of
        Alloc sz flags \<Rightarrow>
          do { (addr, lmm') \<leftarrow> lmm_alloc False lmm sz flags;
               if addr = 0 then None else Some (lmm', cover (unat addr) (unat sz)) }
      | Alloc_gen sz flags align_bits align_ofs in_min in_size \<Rightarrow>
          do { (addr, lmm') \<leftarrow> lmm_alloc_gen False lmm sz flags align_bits align_ofs in_min in_size;
               if addr = 0 then None else Some (lmm', cover (unat addr) (unat sz)) })"

fun lmm_valid :: "lmm_request \<Rightarrow> lmm \<Rightarrow> bool" where
  "lmm_valid (Alloc sz flags) lmm \<longleftrightarrow> unat sz + 7 < 4294967296"
| "lmm_valid (Alloc_gen sz flags align_bits align_ofs in_min in_size) lmm \<longleftrightarrow>
     0 < unat sz \<and> align_bits < 32 \<and>
     (\<forall>r \<in> set lmm. unat sz + unat (reg_size r) + 2 ^ align_bits \<le> 4294967296)"

lemma lmm_serve_takes:
  assumes "lmm_ok lmm" "lmm_valid q lmm" "lmm_serve q lmm = Some (lmm', B)"
  shows "lmm_takes lmm B lmm'"
proof (cases q)
  case (Alloc sz flags)
  have up: "unat sz + 7 < 4294967296" using assms(2) Alloc by simp
  obtain addr where al: "lmm_alloc False lmm sz flags = Some (addr, lmm')" "addr \<noteq> 0" "B = cover (unat addr) (unat sz)"
    using assms(3) Alloc by (auto simp: lmm_serve_def split: bind_splits if_splits)
  have tk: "8 dvd unat addr" "lmm_takes lmm {unat addr..<unat addr + up8 (unat sz)} lmm'"
    using alloc_regions_ok [OF assms(1), of False "(sz + ALIGN_MASK) AND NOT ALIGN_MASK" flags] al(1,2)
    unfolding lmm_alloc_def unat_up8 [OF up] by (auto simp: no_exhausted_def)
  have "up8 (unat addr + unat sz) = unat addr + up8 (unat sz)"
    using up8_shift [of "unat addr" "unat sz"] tk(1) by (simp add: down8_def)
  then show ?thesis using tk al(3) by (simp add: cover_def down8_def)
next
  case (Alloc_gen sz flags k ofs in_min in_size)
  obtain addr where al: "lmm_alloc_gen False lmm sz flags k ofs in_min in_size = Some (addr, lmm')" "addr \<noteq> 0"
    "B = cover (unat addr) (unat sz)"
    using assms(3) Alloc_gen by (auto simp: lmm_serve_def split: bind_splits if_splits)
  then show ?thesis
    using alloc_gen_regions_ok [OF assms(1), of False sz k flags ofs in_min "in_min + in_size"] assms(2) Alloc_gen
    by (auto simp: lmm_alloc_gen_def no_exhausted_def)
qed

lemma lmm_valid_headers: "map header lmm' = map header lmm \<Longrightarrow> lmm_valid q lmm \<Longrightarrow> lmm_valid q lmm'"
proof (cases q)
  case (Alloc_gen sz flags k ofs in_min in_size)
  assume h: "map header lmm' = map header lmm" and q: "lmm_valid q lmm"
  have "unat sz + unat (reg_size r) + 2 ^ k \<le> 4294967296" if r: "r \<in> set lmm'" for r
  proof -
    obtain s where "s \<in> set lmm" "header r = header s" by (rule same_headers [OF h r])
    then show ?thesis using q Alloc_gen header_eq(5) [of r s] by simp
  qed
  then show ?thesis using q Alloc_gen by simp
qed simp

interpretation lmm_requests: allocator lmm_ok free_bytes lmm_valid lmm_serve
proof
  fix s q s' B p
  assume s: "lmm_ok s" "lmm_valid q s" "lmm_serve q s = Some (s', B)"
  note tk = lmm_serve_takes [OF s, unfolded lmm_takes_def]
  show "lmm_ok s' \<and> B \<subseteq> free_bytes s \<and> free_bytes s' = free_bytes s - B" using tk by blast
  show "lmm_valid p s'" if "lmm_valid p s" using lmm_valid_headers [OF _ that] tk by blast
qed

text \<open>
  C34. Whatever sequence of plain and constrained requests is made on a pool, the blocks handed out
  are pairwise disjoint parts of the memory that was free before, and what is free afterwards is the
  rest. The requests must be such that no 32-bit sum wraps around: a plain request is for less than
  0xfffffff9 bytes, a constrained one for at least one byte, with an alignment below 32 bits, and its size, its
  alignment and the size of any region add up to at most 4 GB.
\<close>

theorem lmm_blocks_disjoint:
  assumes "lmm_ok lmm" "\<forall>q \<in> set qs. lmm_valid q lmm" "serve lmm_serve qs lmm = (lmm', Bs)"
  shows "lmm_ok lmm' \<and> sorted_wrt (\<lambda>A B. A \<inter> B = {}) Bs \<and> \<Union>(set Bs) \<subseteq> free_bytes lmm \<and>
         free_bytes lmm' = free_bytes lmm - \<Union>(set Bs)"
  by (rule lmm_requests.serve_disjoint [OF assms])

theorem lmm_blocks_disjoint_witness:
  "\<exists>lmm' Bs. serve lmm_serve [Alloc 20 2, Alloc_gen 100 0 8 12 4200 2000] lmm_example = (lmm', Bs) \<and>
     sorted_wrt (\<lambda>A B. A \<inter> B = {}) Bs"
proof -
  let ?qs = "[Alloc 20 2, Alloc_gen 100 0 8 12 4200 2000]"
  have "\<forall>q \<in> set ?qs. lmm_valid q lmm_example" by (simp add: lmm_example_def)
  then show ?thesis
    using lmm_blocks_disjoint [OF lmm_example_ok(1), of ?qs] by (cases "serve lmm_serve ?qs lmm_example") auto
qed

text \<open>Without the first condition the claim fails: a request that is rounded up to 0 gets a block that stays free.\<close>

lemma lmm_alloc_wraps: "lmm_alloc False lmm_example 0xffffffff 2 = Some (4120, lmm_example)"
  by code_simp

text \<open>
  The checks of \<^verbatim>\<open>lmm_dump\<close> and the invariant agree, except for one: on a
  consistent pool they succeed exactly when every region has free memory left. A region that is
  completely allocated has the null pointer as its list of nodes, which the check compares with the
  end of the region header.
\<close>

theorem lmm_dump_exact:
  assumes "lmm_ok lmm"
  shows "lmm_dump lmm = Some () \<longleftrightarrow> (\<forall>r \<in> set lmm. reg_nodes r \<noteq> [])"
  using dump_ok [OF assms] by simp

theorem lmm_dump_exact_witness:
  "lmm_dump lmm_example = Some () \<and>
   (\<exists>lmm'. lmm_alloc False [\<lparr>reg_at = 4096, reg_nodes = [\<lparr>node_at = 4120, node_size = 8\<rparr>],
       reg_flags = 2, reg_pri = 0, reg_size = 32, reg_free = 8\<rparr>] 8 0 = Some (4120, lmm') \<and> lmm_dump lmm' \<noteq> Some ())"
proof -
  let ?r = "\<lparr>reg_at = 4096, reg_nodes = [], reg_flags = 2, reg_pri = 0, reg_size = 32, reg_free = 0\<rparr>"
  have "lmm_alloc False [\<lparr>reg_at = 4096, reg_nodes = [\<lparr>node_at = 4120, node_size = 8\<rparr>],
       reg_flags = 2, reg_pri = 0, reg_size = 32, reg_free = 8\<rparr>] 8 0 = Some (4120, [?r])" by code_simp
  moreover have "lmm_ok [?r]" by (simp add: lmm_ok_def region_ok_def)
  ultimately show ?thesis
    using lmm_dump_exact [OF lmm_example_ok(1)] lmm_dump_exact [of "[?r]"] by (auto simp: lmm_example_def)
qed

text \<open>
  \<^verbatim>\<open>lmm_avail\<close> is the number of free bytes in the regions with the flags asked for;
  the 32-bit sum of the counters does not overflow.
\<close>

theorem lmm_avail_exact:
  assumes "lmm_ok lmm" "no_exhausted DEBUG lmm"
  shows "\<exists>c. lmm_avail DEBUG lmm flags = Some c \<and>
    unat c = card (\<Union>r \<in> {r \<in> set lmm. flags AND NOT (reg_flags r) = 0}. nodes_bytes (reg_nodes r))"
  using avail_ok [OF assms, of flags] by (simp add: free_bytes_def)

theorem lmm_avail_exact_witness:
  "unat (the (lmm_avail True lmm_example 2)) =
     card (\<Union>r \<in> {r \<in> set lmm_example. 2 AND NOT (reg_flags r) = 0}. nodes_bytes (reg_nodes r))"
  using lmm_avail_exact [OF lmm_example_ok(1,2), of True 2] by auto

subsection \<open>The malloc family\<close>

lemma load_store: "load_size (store_size m a v) a = v"
proof (rule bit_word_eqI)
  fix n assume "n < LENGTH(32)"
  then consider "n < 8" | "8 \<le> n" "n < 16" | "16 \<le> n" "n < 24" | "24 \<le> n" "n < 32" by fastforce
  then show "bit (load_size (store_size m a v) a) n = bit v n"
    by cases (auto simp: load_size_def store_size_def bit_or_iff bit_push_bit_iff bit_ucast_iff bit_drop_bit_eq)
qed

lemma malloc_chunk_ok:
  assumes "lmm_ok lmm" "no_exhausted DEBUG lmm" "unat sz + 7 < 4294967296"
  shows "\<exists>chunk lmm'. malloc_chunk DEBUG lmm sz = Some (chunk, lmm') \<and>
    (if chunk = 0 then lmm' = lmm \<and> (\<nexists>x. block_in lmm 0 x (up8 (unat sz)))
     else 8 dvd unat chunk \<and> block_in lmm 0 (unat chunk) (up8 (unat sz)) \<and>
          lmm_takes lmm {unat chunk..<unat chunk + up8 (unat sz)} lmm')"
proof -
  from alloc_regions_ok [OF assms(1,2), of "(sz + ALIGN_MASK) AND NOT ALIGN_MASK" 0]
  obtain chunk lmm' where al: "lmm_alloc DEBUG lmm sz 0 = Some (chunk, lmm')"
    "if chunk = 0 then lmm' = lmm \<and> (\<nexists>x. block_in lmm 0 x (up8 (unat sz)))
     else 8 dvd unat chunk \<and> block_in lmm 0 (unat chunk) (up8 (unat sz)) \<and>
          lmm_takes lmm {unat chunk..<unat chunk + up8 (unat sz)} lmm'"
    unfolding lmm_alloc_def unat_up8 [OF assms(3)] by auto
  then show ?thesis by (cases "chunk = 0") (auto simp: malloc_chunk_def morecore_def)
qed

text \<open>
  \<^verbatim>\<open>malloc\<close> returns null only when no free node holds the request with its header.
  Otherwise the bytes from four before the pointer on, rounded up to whole nodes, were free and no
  longer are, the header holds the size that \<^verbatim>\<open>free\<close> will read, and no other byte of
  memory changes.
\<close>

theorem malloc_exact:
  assumes "lmm_ok lmm" "no_exhausted DEBUG lmm" "unat sz + 11 < 4294967296"
  shows "\<exists>p lmm' m'. malloc DEBUG (lmm, m) sz = Some (p, (lmm', m')) \<and>
    (if p = 0 then lmm' = lmm \<and> m' = m \<and> (\<nexists>x. block_in lmm 0 x (up8 (unat sz + 4)))
     else unat p mod 8 = 4 \<and> lmm_takes lmm {unat p - 4..<unat p - 4 + up8 (unat sz + 4)} lmm' \<and>
          load_size m' (p - 4) = sz + 4 \<and> (\<forall>a. 4 \<le> a - (p - 4) \<longrightarrow> m' a = m a))"
proof -
  have sz: "unat (sz + sizeof_size_t) = unat sz + 4" using assms(3) by (simp add: uadd sizeof_size_t_def)
  then have "unat (sz + sizeof_size_t) + 7 < 4294967296" using assms(3) by simp
  from malloc_chunk_ok [OF assms(1,2) this] obtain chunk lmm' where c:
    "malloc_chunk DEBUG lmm (sz + sizeof_size_t) = Some (chunk, lmm')"
    "if chunk = 0 then lmm' = lmm \<and> (\<nexists>x. block_in lmm 0 x (up8 (unat sz + 4)))
     else 8 dvd unat chunk \<and> block_in lmm 0 (unat chunk) (up8 (unat sz + 4)) \<and>
          lmm_takes lmm {unat chunk..<unat chunk + up8 (unat sz + 4)} lmm'"
    unfolding sz by blast
  show ?thesis
  proof (cases "chunk = 0")
    case True
    then show ?thesis using c by (simp add: malloc_def)
  next
    case False
    have "{unat chunk..<unat chunk + up8 (unat sz + 4)} \<subseteq> free_bytes lmm" using c(2) False by (simp add: lmm_takes_def)
    moreover have "0 < up8 (unat sz + 4)" using up8_ge [of "unat sz + 4"] by simp
    ultimately have "unat chunk \<in> free_bytes lmm" by auto
    then have "unat chunk < 4294967288" by (rule free_bytes_bound [OF assms(1)])
    then have c4: "unat (chunk + 4) = unat chunk + 4" by (simp add: uadd)
    have "8 dvd unat chunk" using c(2) False by simp
    then have "unat (chunk + 4) mod 8 = 4" unfolding c4 by presburger
    moreover have "chunk + 4 \<noteq> 0" using c4 by auto
    moreover have "store_size m chunk v a = m a" if "4 \<le> a - chunk" for a v
      using that by (auto simp: store_size_def word_nat)
    ultimately show ?thesis using c False load_store c4
      by (simp add: malloc_def sizeof_size_t_def)
  qed
qed

theorem malloc_exact_witness:
  "\<exists>p lmm' m'. malloc True (lmm_example, \<lambda>_. 0) 16 = Some (p, (lmm', m')) \<and> p = 4140 \<and>
     lmm_takes lmm_example {4136..<4160} lmm' \<and> load_size m' 4136 = 20"
proof -
  have "map_option fst (malloc True (lmm_example, \<lambda>_. 0) 16) = Some 4140" by code_simp
  moreover have "up8 20 = 24" by (simp add: up8_def)
  ultimately show ?thesis using malloc_exact [OF lmm_example_ok(1,2), of 16 True "\<lambda>_. 0"] by auto
qed

text \<open>
  The size with the header is computed in 32 bits: a request for at least 2^32 - 4 bytes wraps
  around, so on any pool with free memory it succeeds and takes at most eight bytes.
\<close>

theorem malloc_wraps:
  assumes "lmm_ok lmm" "no_exhausted DEBUG lmm" "4294967292 \<le> unat sz" "free_bytes lmm \<noteq> {}"
  shows "\<exists>p lmm' m'. malloc DEBUG (lmm, m) sz = Some (p, (lmm', m')) \<and> p \<noteq> 0 \<and>
           card (free_bytes lmm) \<le> card (free_bytes lmm') + 8"
proof -
  let ?w = "sz + sizeof_size_t"
  have w: "unat ?w \<le> 3" using assms(3) unat_bound [of sz] by (simp add: sizeof_size_t_def unat_plus_if')
  then have "unat ?w + 7 < 4294967296" and up: "up8 (unat ?w) \<le> 8" using up8_le [of 8 "unat ?w"] by auto
  from malloc_chunk_ok [OF assms(1,2) this(1)] obtain chunk lmm' where c:
    "malloc_chunk DEBUG lmm ?w = Some (chunk, lmm')"
    "if chunk = 0 then lmm' = lmm \<and> (\<nexists>x. block_in lmm 0 x (up8 (unat ?w)))
     else 8 dvd unat chunk \<and> block_in lmm 0 (unat chunk) (up8 (unat ?w)) \<and>
          lmm_takes lmm {unat chunk..<unat chunk + up8 (unat ?w)} lmm'" by blast
  obtain r n where rn: "r \<in> set lmm" "n \<in> set (reg_nodes r)" using assms(4) by (auto simp: free_bytes_def nodes_bytes_def)
  have "8 dvd unat (node_size n)" "0 < unat (node_size n)"
    using nodes_ok_in [OF region_ok_D(1) [OF lmm_ok_region [OF assms(1) rn(1)]] rn(2)] by auto
  then have "up8 (unat ?w) \<le> unat (node_size n)" using up dvd_imp_le by fastforce
  then have "block_in lmm 0 (unat (node_at n)) (up8 (unat ?w))"
    using rn by (auto simp: block_in_def intro!: bexI [of _ r] bexI [of _ n])
  then have nz: "chunk \<noteq> 0" using c(2) by auto
  then have dvd: "8 dvd unat chunk" and tk: "lmm_takes lmm {unat chunk..<unat chunk + up8 (unat ?w)} lmm'"
    using c(2) by auto
  have "unat chunk + 4 < 4294967296" using dvd unat_bound [of chunk] by presburger
  then have "unat (chunk + sizeof_size_t) = unat chunk + 4" by (simp add: uadd sizeof_size_t_def)
  then have p: "chunk + sizeof_size_t \<noteq> 0" by auto
  have "card (free_bytes lmm') = card (free_bytes lmm) - card {unat chunk..<unat chunk + up8 (unat ?w)}"
    using tk by (simp add: lmm_takes_def card_Diff_subset)
  then show ?thesis using c(1) nz p up by (simp add: malloc_def Let_def)
qed

theorem malloc_wraps_witness:
  "\<exists>p lmm' m'. malloc False (lmm_example, \<lambda>_. 0) (- 1) = Some (p, (lmm', m')) \<and> p \<noteq> 0 \<and>
           card (free_bytes lmm_example) \<le> card (free_bytes lmm') + 8"
proof (rule malloc_wraps [OF lmm_example_ok(1,2)])
  show "4294967292 \<le> unat (- 1 :: u32)" by (simp add: unsigned_minus_1_eq_mask mask_eq_exp_minus_1)
  show "free_bytes lmm_example \<noteq> {}" by (simp add: free_bytes_example)
qed

lemma store_kept: "4 \<le> k \<Longrightarrow> store_size m a v (a + k) = m (a + k)"
  by (auto simp: store_size_def word_nat)

lemma word_apart:
  fixes x y n :: u32
  assumes "unat x + unat n \<le> unat y \<or> unat y + unat n \<le> unat x" "unat x + unat n < 4294967296"
    "unat y + unat n < 4294967296"
  shows "n \<le> x - y \<and> n \<le> y - x"
  using assms by (auto simp: word_nat unat_sub_if')

text \<open>
  \<^verbatim>\<open>realloc\<close> of an allocated block with a header, when there is room for the new
  block and free memory above the old one, moves it: the copy reads and writes disjoint blocks, the
  contents up to the smaller of the sizes are at the new address, the new block leaves the free
  memory and the old one returns to it.
\<close>

theorem realloc_moves:
  assumes "lmm_ok lmm" "unat (reg_at r) + 24 \<le> unat (buf - 4)" "r \<in> set lmm'"
    "0 < unat (load_size m (buf - 4))" "unat (buf - 4) + unat (load_size m (buf - 4)) \<le> region_end r"
    "cover (unat (buf - 4)) (unat (load_size m (buf - 4))) \<inter> free_bytes lmm = {}"
    "unat sz + 11 < 4294967296" "lmm_alloc False lmm (sz + 4) 0 = Some (np, lmm')" "np \<noteq> 0"
    "\<exists>n \<in> set (reg_nodes r). buf - 4 < node_at n" "buf \<noteq> 0"
  shows "\<exists>lmm'' m'. realloc False (lmm, m) buf sz = Some (np + 4, (lmm'', m')) \<and> lmm_ok lmm'' \<and>
    free_bytes lmm'' = free_bytes lmm - {unat np..<unat np + up8 (unat sz + 4)} \<union>
                       cover (unat (buf - 4)) (unat (load_size m (buf - 4))) \<and>
    (\<forall>i. unat i < unat sz \<and> unat i + 4 < unat (load_size m (buf - 4)) \<longrightarrow> m' (np + 4 + i) = m (buf + i))"
proof -
  let ?op = "buf - 4" and ?old = "load_size m (buf - 4)" and ?B = "{unat np..<unat np + up8 (unat sz + 4)}"
  have sz: "unat (sz + 4) = unat sz + 4" using assms(7) by (simp add: uadd)
  have up: "unat (sz + 4) + 7 < 4294967296" using assms(7) sz by simp
  from alloc_regions_ok [OF assms(1), of False "(sz + 4 + ALIGN_MASK) AND NOT ALIGN_MASK" 0] assms(8,9)
  have tk: "lmm_takes lmm ?B lmm'"
    unfolding lmm_alloc_def unat_up8 [OF up] sz by (auto simp: no_exhausted_def)
  then have ok': "lmm_ok lmm'" "free_bytes lmm' = free_bytes lmm - ?B" "?B \<subseteq> free_bytes lmm"
    by (auto simp: lmm_takes_def)
  have "cover (unat ?op) (unat ?old) \<inter> free_bytes lmm' = {}" using assms(6) ok'(2) by auto
  from freeable_cover [OF ok'(1) assms(3,4,2,5) this] have f:
    "\<exists>lmm''. lmm_free False lmm' ?op ?old = Some lmm'' \<and> lmm_gives lmm' (cover (unat ?op) (unat ?old)) lmm''"
    using free_regions_ok [OF ok'(1), of r _ _ False] above_cover [OF node_aligned [OF ok'(1) assms(3)]] assms(10)
    unfolding lmm_free_def by (metis no_exhausted_def)
  then obtain lmm'' where fr: "lmm_free False lmm' ?op ?old = Some lmm''"
    "lmm_ok lmm''" "free_bytes lmm'' = free_bytes lmm' \<union> cover (unat ?op) (unat ?old)"
    by (auto simp: lmm_gives_def)
  let ?n = "if ?old < sz + 4 then ?old else sz + 4"
  have n: "unat ?n \<le> unat ?old" "unat ?n \<le> unat sz + 4" using sz by (auto simp: word_nat)
  have pos: "0 < unat ?n" using assms(4) sz by (auto simp: word_nat)
  have top: "region_end r < 4294967296" by (rule region_ok_D(2) [OF lmm_ok_region [OF ok'(1) assms(3)]])
  have "unat np + up8 (unat sz + 4) - 1 \<in> ?B" using up8_ge [of "unat sz + 4"] by auto
  then have "unat np + up8 (unat sz + 4) - 1 < 4294967288" using ok'(3) free_bytes_bound [OF assms(1)] by blast
  then have np: "unat np + unat ?n < 4294967296" using n(2) up8_ge [of "unat sz + 4"] by linarith
  have "{unat np..<unat np + unat ?n} \<subseteq> free_bytes lmm" using n(2) up8_ge [of "unat sz + 4"] ok'(3) by fastforce
  moreover have "{unat ?op..<unat ?op + unat ?n} \<subseteq> cover (unat ?op) (unat ?old)"
    using n(1) down8_le [of "unat ?op"] up8_ge [of "unat ?op + unat ?old"] by (auto simp: cover_def)
  ultimately have apart: "{unat np..<unat np + unat ?n} \<inter> {unat ?op..<unat ?op + unat ?n} = {}" using assms(6) by blast
  have "unat np + unat ?n \<le> unat ?op \<or> unat ?op + unat ?n \<le> unat np"
    using interval_apart [OF apart] interval_apart [of "unat ?op" "unat ?op + unat ?n"] apart pos
    by (metis Int_commute le_cases less_add_same_cancel1)
  then have "?n \<le> np - ?op \<and> ?n \<le> ?op - np" using np n(1) top assms(5) by (intro word_apart) linarith+
  then have cp: "memcpy m np ?op ?n = Some (\<lambda>a. if a - np < ?n then m (?op + (a - np)) else m a)"
    by (simp add: memcpy_def)
  let ?m = "store_size (\<lambda>a. if a - np < ?n then m (?op + (a - np)) else m a) np (sz + 4)"
  have "realloc False (lmm, m) buf sz = Some (np + 4, (lmm'', ?m))"
    using assms(8,9,11) fr(1) cp by (simp add: realloc_def malloc_chunk_def sizeof_size_t_def Let_def)
  moreover have "?m (np + 4 + i) = m (buf + i)" if i: "unat i < unat sz" "unat i + 4 < unat ?old" for i
  proof -
    have u: "unat (4 + i) = 4 + unat i" using i(1) assms(7) by (simp add: uadd)
    then have lt: "4 + i < ?n" and ge: "4 \<le> 4 + i" using i sz by (auto simp: word_nat)
    have "?m (np + (4 + i)) = m (?op + (4 + i))" unfolding store_kept [OF ge] using lt by simp
    then show ?thesis by (simp add: add.assoc)
  qed
  ultimately show ?thesis using fr(2,3) ok'(2) by auto
qed

theorem realloc_moves_witness:
  "\<exists>lmm'' m'. realloc False (lmm_example, store_size (\<lambda>_. 7) 4128 8) 4132 20 = Some (4140, (lmm'', m')) \<and>
     m' 4140 = 7 \<and> lmm_ok lmm''"
proof -
  let ?m = "store_size (\<lambda>_. 7) 4128 8" and ?r = "\<lparr>reg_at = 4096,
    reg_nodes = [\<lparr>node_at = 4120, node_size = 8\<rparr>, \<lparr>node_at = 4160, node_size = 4032\<rparr>],
    reg_flags = 2, reg_pri = 0, reg_size = 4096, reg_free = 4040\<rparr>"
  have al: "lmm_alloc False lmm_example (20 + 4) 0 = Some (4136, [?r])" by code_simp
  have ld: "load_size ?m (4132 - 4) = 8" using load_store [of "\<lambda>_. 7" 4128 8] by simp
  have cov: "cover (unat (4132 - 4 :: u32)) (unat (load_size ?m (4132 - 4))) \<inter> free_bytes lmm_example = {}"
    unfolding ld by (auto simp: cover_def down8_def up8_def free_bytes_example)
  obtain lmm'' m' where r: "realloc False (lmm_example, ?m) 4132 20 = Some (4136 + 4, (lmm'', m'))" "lmm_ok lmm''"
    "\<forall>i. unat i < unat (20 :: u32) \<and> unat i + 4 < unat (load_size ?m (4132 - 4)) \<longrightarrow>
       m' (4136 + 4 + i) = ?m (4132 + i)"
    using realloc_moves [OF lmm_example_ok(1), of ?r 4132 "[?r]" ?m 20 4136] al ld cov by auto
  have "m' (4136 + 4 + 0) = ?m (4132 + 0)" using r(3) [rule_format, of 0] ld by simp
  then show ?thesis using r(1,2) by (auto simp: store_size_def)
qed

subsection \<open>Physical memory\<close>

text \<open>Memory with a flag lies below the limit that the flag stands for.\<close>

definition flags_below :: "u32 \<Rightarrow> lmm \<Rightarrow> bool" where
  "flags_below va lmm \<longleftrightarrow> (\<forall>r \<in> set lmm.
     (reg_flags r AND LMMF_1MB \<noteq> 0 \<longrightarrow> region_end r \<le> unat va + 1048576) \<and>
     (reg_flags r AND LMMF_16MB \<noteq> 0 \<longrightarrow> region_end r \<le> unat va + 16777216))"

lemma lmm_add_regions:
  assumes "unat mn + 7 < 4294967296" "unat mn + unat sz < 4294967296" "r \<in> set (lmm_add lmm mn sz flags pri)"
  shows "r \<in> set lmm \<or>
    reg_flags r = flags \<and> unat (reg_at r) = up8 (unat mn) \<and> region_end r = down8 (unat mn + unat sz)"
proof -
  define lo hi where "lo = (mn + ALIGN_MASK) AND NOT ALIGN_MASK" and "hi = (mn + sz) AND NOT ALIGN_MASK"
  have hi: "unat hi = down8 (unat mn + unat sz)" using assms(2) by (simp add: hi_def unat_down8 uadd)
  have lo: "unat lo = up8 (unat mn)" using assms(1) by (simp add: lo_def unat_up8)
  have "r \<in> set lmm \<or> lo \<le> hi \<and> reg_flags r = flags \<and> reg_at r = lo \<and> reg_size r = hi - lo"
    using assms(3) unfolding lmm_add_def lo_def [symmetric] hi_def [symmetric] Let_def
    by (auto simp: not_less split: if_splits dest: set_takeWhileD set_dropWhileD)
  then show ?thesis using lo hi by (auto simp: usub word_nat)
qed

definition grows :: "u32 \<Rightarrow> lmm \<Rightarrow> nat set \<Rightarrow> lmm \<Rightarrow> bool" where
  "grows va lmm R lmm' \<longleftrightarrow> lmm_ok lmm' \<and> flags_below va lmm' \<and> free_bytes lmm \<subseteq> free_bytes lmm' \<and>
     free_bytes lmm' \<subseteq> free_bytes lmm \<union> R \<and> (\<forall>r \<in> set lmm'. r \<in> set lmm \<or> region_bytes r \<subseteq> R)"

lemma grows_trans: "grows va lmm R lmm' \<Longrightarrow> grows va lmm' S lmm'' \<Longrightarrow> grows va lmm (R \<union> S) lmm''"
  unfolding grows_def by (intro conjI ballI; blast)

lemma add_range:
  assumes "lmm_ok lmm" "flags_below va lmm" "0 < unat mn" "unat mn + unat sz + 8 \<le> 4294967296"
    "\<forall>r \<in> set lmm. region_bytes r \<inter> {unat mn..<unat mn + unat sz} = {}"
    "flags AND LMMF_1MB \<noteq> 0 \<Longrightarrow> unat mn + unat sz \<le> unat va + 1048576"
    "flags AND LMMF_16MB \<noteq> 0 \<Longrightarrow> unat mn + unat sz \<le> unat va + 16777216"
    "lmm' = lmm_add lmm mn sz flags pri"
  shows "grows va lmm {unat mn..<unat mn + unat sz} lmm'"
proof -
  have sub: "{up8 (unat mn)..<down8 (unat mn + unat sz)} \<subseteq> {unat mn..<unat mn + unat sz}"
    using up8_ge [of "unat mn"] down8_le [of "unat mn + unat sz"] by auto
  have "\<forall>r \<in> set lmm. region_bytes r \<inter> {up8 (unat mn)..<down8 (unat mn + unat sz)} = {}"
    using assms(5) sub by blast
  with assms(1,3,4) have ok: "lmm_ok lmm'" and free: "free_bytes lmm' = free_bytes lmm \<union>
      (if up8 (unat mn) + 32 \<le> down8 (unat mn + unat sz)
       then {up8 (unat mn) + 24..<down8 (unat mn + unat sz)} else {})"
    using lmm_add_ok [of lmm mn sz flags pri] unfolding assms(8) by auto
  have regs: "r \<in> set lmm \<or> reg_flags r = flags \<and> unat (reg_at r) = up8 (unat mn) \<and>
      region_end r = down8 (unat mn + unat sz)" if "r \<in> set lmm'" for r
    using lmm_add_regions [of mn sz r lmm flags pri] that assms(4) by (simp add: assms(8))
  have "region_bytes r \<subseteq> {unat mn..<unat mn + unat sz}" if "unat (reg_at r) = up8 (unat mn)"
    "region_end r = down8 (unat mn + unat sz)" for r using sub that unfolding region_bytes_def by simp
  then have inside: "\<forall>r \<in> set lmm'. r \<in> set lmm \<or> region_bytes r \<subseteq> {unat mn..<unat mn + unat sz}"
    using regs by blast
  have "region_end r \<le> unat mn + unat sz" if "region_end r = down8 (unat mn + unat sz)" for r
    using that down8_le [of "unat mn + unat sz"] by simp
  then have "flags_below va lmm'"
    using assms(2,6,7) regs unfolding flags_below_def by (intro ballI) (fastforce intro: order_trans)
  moreover have "free_bytes lmm' \<subseteq> free_bytes lmm \<union> {unat mn..<unat mn + unat sz}" 
    using free sub by (cases "up8 (unat mn) + 32 \<le> down8 (unat mn + unat sz)") auto
  ultimately show ?thesis using ok free inside by (auto simp: grows_def)
qed

lemma phys_low_range:
  assumes "lmm_ok lmm" "flags_below va lmm" "0 < unat va + unat mn" "unat va + unat mn + unat sz + 8 \<le> 4294967296"
    "\<forall>r \<in> set lmm. region_bytes r \<inter> {unat va + unat mn..<unat va + unat mn + unat sz} = {}"
    "nmax = (if 16777216 < mn + sz then 16777216 else mn + sz)"
  shows "grows va lmm {x \<in> {unat va + unat mn..<unat va + unat mn + unat sz}. x < unat va + 16777216}
    (if mn < 16777216 then lmm_add lmm (mn + va) (nmax - mn) LMMF_16MB LMM_PRI_16MB else lmm)"
    (is "grows va lmm ?R ?lmm")
proof (cases "mn < 16777216")
  case lt: True
  have mx: "unat (mn + sz) = unat mn + unat sz" using assms(4) by (simp add: uadd)
  have va: "unat (mn + va) = unat va + unat mn" using assms(4) by (simp add: uadd)
  have d: "unat (nmax - mn) = min 16777216 (unat mn + unat sz) - unat mn"
    using lt mx by (simp add: assms(6) usub word_nat min_def)
  have R: "?R = {unat (mn + va)..<unat (mn + va) + unat (nmax - mn)}"
    using lt va d by (auto simp: word_nat)
  have "?R \<subseteq> {unat va + unat mn..<unat va + unat mn + unat sz}" by auto
  then have apart: "\<forall>r \<in> set lmm. region_bytes r \<inter> {unat (mn + va)..<unat (mn + va) + unat (nmax - mn)} = {}"
    using assms(5) unfolding R by blast
  show ?thesis unfolding R
    by (rule add_range [OF assms(1,2) _ _ apart])
      (use assms(3,4) va d lt in \<open>auto simp: LMMF_1MB_def LMMF_16MB_def word_nat\<close>)
next
  case False
  then have "?R = {}" by (auto simp: word_nat)
  with False show ?thesis using assms(1,2) by (simp add: grows_def)
qed

lemma phys_high_range:
  assumes "lmm_ok lmm" "flags_below va lmm" "unat va + unat mn + unat sz + 8 \<le> 4294967296"
    "\<forall>r \<in> set lmm. region_bytes r \<inter>
       {x \<in> {unat va + unat mn..<unat va + unat mn + unat sz}. unat va + 16777216 \<le> x} = {}"
    "nmin = (if mn < 16777216 then 16777216 else mn)"
  shows "grows va lmm {x \<in> {unat va + unat mn..<unat va + unat mn + unat sz}. unat va + 16777216 \<le> x}
    (if 16777216 < mn + sz then lmm_add lmm (nmin + va) (mn + sz - nmin) 0 0 else lmm)"
    (is "grows va lmm ?R ?lmm")
proof (cases "16777216 < mn + sz")
  case lt: True
  have mx: "unat (mn + sz) = unat mn + unat sz" using assms(3) by (simp add: uadd)
  have d: "unat (nmin + va) = unat va + max 16777216 (unat mn)"
    "unat (mn + sz - nmin) = unat mn + unat sz - max 16777216 (unat mn)"
    using lt mx assms(3) by (auto simp: assms(5) usub uadd word_nat max_def)
  have R: "?R = {unat (nmin + va)..<unat (nmin + va) + unat (mn + sz - nmin)}"
    using lt mx unfolding d by (auto simp: word_nat)
  show ?thesis using assms(4) unfolding R
    by (intro add_range [OF assms(1,2)]) (use assms(3) lt mx d in \<open>auto simp: word_nat\<close>)
next
  case False
  have mx: "unat (mn + sz) = unat mn + unat sz" using assms(3) by (simp add: uadd)
  have "?R = {}" using mx False by (auto simp: word_nat)
  with False show ?thesis using assms(1,2) by (simp add: grows_def)
qed

text \<open>
  \<^verbatim>\<open>phys_mem_add\<close> of a range of physical memory that overlaps no region splits it
  at 16 MB so that memory obtained with \<^verbatim>\<open>LMMF_1MB\<close> always lies below 1 MB and memory
  obtained with \<^verbatim>\<open>LMMF_16MB\<close> below 16 MB; the pool stays consistent, only memory of the
  range is added, and the highest address is recorded.
\<close>

theorem phys_mem_add_flags:
  assumes "lmm_ok lmm" "flags_below va lmm" "0 < unat va + unat mn"
    "unat va + unat mn + unat sz + 8 \<le> 4294967296"
    "\<forall>r \<in> set lmm. region_bytes r \<inter> {unat va + unat mn..<unat va + unat mn + unat sz} = {}"
  shows "case phys_mem_add va (lmm, pmax) mn sz of (lmm', pmax') \<Rightarrow>
    lmm_ok lmm' \<and> flags_below va lmm' \<and> unat pmax' = max (unat pmax) (unat mn + unat sz) \<and>
    free_bytes lmm \<subseteq> free_bytes lmm' \<and>
    free_bytes lmm' \<subseteq> free_bytes lmm \<union> {unat va + unat mn..<unat va + unat mn + unat sz}"
proof -
  have mx: "unat (mn + sz) = unat mn + unat sz" using assms(4) by (simp add: uadd)
  have va: "unat (mn + va) = unat va + unat mn" using assms(4) by (simp add: uadd)
  have top: "unat (if pmax < mn + sz then mn + sz else pmax) = max (unat pmax) (unat mn + unat sz)"
    using mx by (auto simp: word_nat max_def)
  let ?R = "{unat va + unat mn..<unat va + unat mn + unat sz}"
  have "grows va lmm ?R (fst (phys_mem_add va (lmm, pmax) mn sz))"
  proof (cases "mn + sz \<le> 1048576")
    case True
    have "grows va lmm {unat (mn + va)..<unat (mn + va) + unat sz}
        (lmm_add lmm (mn + va) sz (LMMF_1MB OR LMMF_16MB) LMM_PRI_1MB)"
      by (rule add_range [OF assms(1,2)]) (use assms(3-5) va mx True in \<open>simp_all add: word_nat\<close>)
    then show ?thesis using True va by (simp add: phys_mem_add_def Let_def)
  next
    case False
    define nmax nmin where "nmax = (if 16777216 < mn + sz then 16777216 else mn + sz)"
      and "nmin = (if mn < 16777216 then 16777216 else mn)"
    define lmm1 where "lmm1 = (if mn < 16777216 then lmm_add lmm (mn + va) (nmax - mn) LMMF_16MB LMM_PRI_16MB else lmm)"
    let ?R1 = "{x \<in> ?R. x < unat va + 16777216}" and ?R2 = "{x \<in> ?R. unat va + 16777216 \<le> x}"
    have g1: "grows va lmm ?R1 lmm1" unfolding lmm1_def by (rule phys_low_range [OF assms nmax_def])
    have "region_bytes r \<inter> ?R2 = {}" if "r \<in> set lmm1" for r
      using g1 that assms(5) by (fastforce simp: grows_def)
    then have g2: "grows va lmm1 ?R2
        (if 16777216 < mn + sz then lmm_add lmm1 (nmin + va) (mn + sz - nmin) 0 0 else lmm1)"
      using g1 by (intro phys_high_range [OF _ _ assms(4) _ nmin_def]) (auto simp: grows_def)
    have "?R1 \<union> ?R2 = ?R" by auto
    moreover have "fst (phys_mem_add va (lmm, pmax) mn sz) =
        (if 16777216 < mn + sz then lmm_add lmm1 (nmin + va) (mn + sz - nmin) 0 0 else lmm1)"
      using False by (simp add: phys_mem_add_def Let_def lmm1_def nmax_def nmin_def)
    ultimately show ?thesis using grows_trans [OF g1 g2] by simp
  qed
  then show ?thesis using top by (simp add: phys_mem_add_def Let_def grows_def)
qed

theorem phys_mem_add_flags_witness:
  "flags_below 0 (fst (phys_mem_add 0 ([], 0) 1048576 31457280)) \<and>
   length (fst (phys_mem_add 0 ([], 0) 1048576 31457280)) = 2"
proof -
  have "length (fst (phys_mem_add 0 ([], 0) 1048576 31457280)) = 2" by code_simp
  moreover have "flags_below 0 (fst (phys_mem_add 0 ([], 0) 1048576 31457280))"
    using phys_mem_add_flags [of "[]" 0 1048576 31457280 0]
    by (simp add: lmm_ok_def flags_below_def split: prod.splits)
  ultimately show ?thesis by blast
qed

end
