(* ===== verification/Cirbuf.thy ===== *)
theory Cirbuf
  imports Mach_Prelude
begin

text \<open>
  The circular character buffers of the terminal drivers (\<^verbatim>\<open>kernel/device/cirbuf.c\<close>).

  The character space from \<^verbatim>\<open>c_start\<close> to \<^verbatim>\<open>c_end\<close> is a list of bytes and the
  pointers \<^verbatim>\<open>c_cf\<close> and \<^verbatim>\<open>c_cl\<close> are offsets into it. \<^verbatim>\<open>c_cc\<close> is a
  \<^verbatim>\<open>short\<close>, kept modulo \<open>2^16\<close>. Characters that are copied out are the result of the
  operation; an access outside the space has no result. Counts are natural numbers: no caller passes
  a negative one. The first group of definitions is the code, the second the queue that it implements.
\<close>

unbundle bit_operations_syntax

type_synonym byte = "8 word"

record cirbuf =
  c_space :: "byte list"
  c_cf :: nat
  c_cl :: nat
  c_cc :: "16 word"
  c_hog :: "16 word"

abbreviation c_end :: "cirbuf \<Rightarrow> nat" where "c_end cb \<equiv> length (c_space cb)"

subsection \<open>Operations\<close>

definition putc :: "u32 \<Rightarrow> cirbuf \<Rightarrow> (int \<times> cirbuf) option" where
  "putc c cb =
     (let ow = c_cl cb; nw = ow + 1; nw = (if nw = c_end cb then 0 else nw) in
      if nw = c_cf cb then Some (1, cb)
      else do { space \<leftarrow> arr_set (c_space cb) ow (ucast c);
                Some (0, cb\<lparr>c_space := space, c_cl := nw, c_cc := c_cc cb + 1\<rparr>) })"

definition getc :: "cirbuf \<Rightarrow> (int \<times> cirbuf) option" where
  "getc cb =
     (let nr = c_cf cb in
      if nr = c_cl cb then Some (- 1, cb)
      else do { c \<leftarrow> arr_get (c_space cb) nr;
                let nr = (if nr + 1 = c_end cb then 0 else nr + 1);
                Some (uint c, cb\<lparr>c_cf := nr, c_cc := c_cc cb - 1\<rparr>) })"

text \<open>The characters from the read pointer on that lie next to each other.\<close>

definition read_run :: "cirbuf \<Rightarrow> nat" where
  "read_run cb = (if c_cl cb < c_cf cb then c_end cb - c_cf cb else c_cl cb - c_cf cb)"

definition advance_read :: "cirbuf \<Rightarrow> nat \<Rightarrow> cirbuf" where
  "advance_read cb i =
     (let cf = c_cf cb + i in
      cb\<lparr>c_cf := (if cf = c_end cb then 0 else cf), c_cc := c_cc cb - of_nat i\<rparr>)"

definition bcopy_from :: "byte list \<Rightarrow> nat \<Rightarrow> nat \<Rightarrow> byte list option" where
  "bcopy_from xs from n =
     (if from + n \<le> length xs then Some (take n (drop from xs)) else None)"

definition bcopy_to :: "byte list \<Rightarrow> nat \<Rightarrow> byte list \<Rightarrow> byte list option" where
  "bcopy_to xs to src =
     (if to + length src \<le> length xs then Some (take to xs @ src @ drop (to + length src) xs) else None)"

partial_function (option) q_to_b_loop :: "cirbuf \<Rightarrow> byte list \<Rightarrow> nat \<Rightarrow> (byte list \<times> cirbuf) option" where
  "q_to_b_loop cb out cnt =
     (if cnt = 0 \<or> c_cl cb = c_cf cb then Some (out, cb)
      else let i = min (read_run cb) cnt in
           Option.bind (bcopy_from (c_space cb) (c_cf cb) i) (\<lambda>chars.
           q_to_b_loop (advance_read cb i) (out @ chars) (cnt - i)))"

definition q_to_b :: "cirbuf \<Rightarrow> nat \<Rightarrow> (byte list \<times> cirbuf) option" where
  "q_to_b cb cnt = q_to_b_loop cb [] cnt"

text \<open>The last offset that may be written, and the room next to the write pointer.\<close>

definition write_lim :: "cirbuf \<Rightarrow> nat" where
  "write_lim cb = (if c_cf cb = 0 then c_end cb - 1 else c_cf cb - 1)"

definition write_run :: "cirbuf \<Rightarrow> nat" where
  "write_run cb = (if c_cl cb < write_lim cb then write_lim cb - c_cl cb else c_end cb - c_cl cb)"

definition advance_write :: "cirbuf \<Rightarrow> nat \<Rightarrow> cirbuf" where
  "advance_write cb i =
     (let cl = c_cl cb + i in
      cb\<lparr>c_cl := (if cl = c_end cb then 0 else cl), c_cc := c_cc cb + of_nat i\<rparr>)"

partial_function (option) b_to_q :: "byte list \<Rightarrow> cirbuf \<Rightarrow> (nat \<times> cirbuf) option" where
  "b_to_q cp cb =
     (if cp = [] \<or> c_cl cb = write_lim cb then Some (length cp, cb)
      else let i = min (write_run cb) (length cp) in
           Option.bind (bcopy_to (c_space cb) (c_cl cb) (take i cp)) (\<lambda>space.
           b_to_q (drop i cp) (advance_write (cb\<lparr>c_space := space\<rparr>) i)))"

fun ndqb_loop :: "byte list \<Rightarrow> u32 \<Rightarrow> nat" where
  "ndqb_loop [] msk = 0"
| "ndqb_loop (c # cs) msk = (if scast c AND msk \<noteq> 0 then 0 else 1 + ndqb_loop cs msk)"

definition ndqb :: "cirbuf \<Rightarrow> u32 \<Rightarrow> nat option" where
  "ndqb cb msk =
     (let lim = (if c_cl cb < c_cf cb then c_end cb else c_cl cb) in
      if msk = 0 then Some (lim - c_cf cb)
      else do { chars \<leftarrow> bcopy_from (c_space cb) (c_cf cb) (lim - c_cf cb); Some (ndqb_loop chars msk) })"

partial_function (option) ndflush :: "cirbuf \<Rightarrow> nat \<Rightarrow> cirbuf option" where
  "ndflush cb cnt =
     (if cnt = 0 \<or> c_cl cb = c_cf cb then Some cb
      else let i = min (read_run cb) cnt in ndflush (advance_read cb i) (cnt - i))"

definition cb_clear :: "cirbuf \<Rightarrow> cirbuf" where
  "cb_clear cb = cb\<lparr>c_cf := 0, c_cl := 0, c_cc := 0\<rparr>"

text \<open>\<open>buf\<close> is the memory that \<^verbatim>\<open>kalloc\<close> returns.\<close>

definition cb_alloc :: "byte list \<Rightarrow> cirbuf" where
  "cb_alloc buf = \<lparr>c_space = buf, c_cf = 0, c_cl = 0, c_cc = 0, c_hog = of_nat (length buf) - 1\<rparr>"

text \<open>The check of the debugging build; \<open>None\<close> is a panic.\<close>

definition cb_check :: "cirbuf \<Rightarrow> unit option" where
  "cb_check cb =
     do { assert_that (c_cf cb < c_end cb);
          assert_that (c_cl cb < c_end cb);
          if c_cf cb \<le> c_cl cb then assert_that (sint (c_cc cb) = int (c_cl cb) - int (c_cf cb))
          else assert_that (sint (c_cc cb) = int (c_end cb) - int (c_cf cb) + int (c_cl cb)) }"

subsection \<open>The queue\<close>

text \<open>The characters from the read pointer to the write pointer, around the end of the space.\<close>

definition chars :: "cirbuf \<Rightarrow> byte list" where
  "chars cb = (if c_cf cb \<le> c_cl cb then take (c_cl cb - c_cf cb) (drop (c_cf cb) (c_space cb))
               else drop (c_cf cb) (c_space cb) @ take (c_cl cb) (c_space cb))"

definition cb_ok :: "cirbuf \<Rightarrow> bool" where
  "cb_ok cb \<longleftrightarrow> c_cf cb < c_end cb \<and> c_cl cb < c_end cb \<and> c_cc cb = of_nat (length (chars cb))"

lemma length_chars:
  "c_cf cb < c_end cb \<Longrightarrow> c_cl cb < c_end cb \<Longrightarrow>
   length (chars cb) = (if c_cf cb \<le> c_cl cb then c_cl cb - c_cf cb else c_end cb - c_cf cb + c_cl cb)"
  by (simp add: chars_def)

lemma chars_room: "cb_ok cb \<Longrightarrow> length (chars cb) < c_end cb"
  by (auto simp: cb_ok_def length_chars)

subsection \<open>Moving the pointers\<close>

lemma advance_read_ok:
  assumes "cb_ok cb" "i \<le> read_run cb"
  shows "cb_ok (advance_read cb i)" "chars (advance_read cb i) = drop i (chars cb)" "i \<le> length (chars cb)"
    "bcopy_from (c_space cb) (c_cf cb) i = Some (take i (chars cb))" "c_end (advance_read cb i) = c_end cb"
proof -
  have b: "c_cf cb < c_end cb" "c_cl cb < c_end cb" "c_cc cb = of_nat (length (chars cb))"
    using assms(1) by (simp_all add: cb_ok_def)
  show len: "i \<le> length (chars cb)" using assms(2) b by (auto simp: length_chars read_run_def)
  show eq: "chars (advance_read cb i) = drop i (chars cb)"
    using assms(2) b by (auto simp: chars_def advance_read_def read_run_def Let_def drop_take add.commute)
  show "bcopy_from (c_space cb) (c_cf cb) i = Some (take i (chars cb))"
    using assms(2) b by (auto simp: chars_def bcopy_from_def read_run_def min_absorb1)
  show "c_end (advance_read cb i) = c_end cb" by (simp add: advance_read_def Let_def)
  have "c_cf (advance_read cb i) < c_end cb" using assms(2) b
    by (auto simp: advance_read_def read_run_def Let_def split: if_splits)
  then show "cb_ok (advance_read cb i)"
    using b len unfolding cb_ok_def eq by (simp add: advance_read_def Let_def of_nat_diff)
qed

lemma write_ok:
  assumes "cb_ok cb" "c_cl cb \<noteq> write_lim cb" "length xs \<le> write_run cb"
  defines "space \<equiv> take (c_cl cb) (c_space cb) @ xs @ drop (c_cl cb + length xs) (c_space cb)"
  shows "bcopy_to (c_space cb) (c_cl cb) xs = Some space"
    "cb_ok (advance_write (cb\<lparr>c_space := space\<rparr>) (length xs))"
    "chars (advance_write (cb\<lparr>c_space := space\<rparr>) (length xs)) = chars cb @ xs"
    "c_end (advance_write (cb\<lparr>c_space := space\<rparr>) (length xs)) = c_end cb"
proof -
  let ?cb = "advance_write (cb\<lparr>c_space := space\<rparr>) (length xs)"
  have b: "c_cf cb < c_end cb" "c_cl cb < c_end cb" "c_cc cb = of_nat (length (chars cb))"
    using assms(1) by (simp_all add: cb_ok_def)
  have le: "c_cl cb + length xs \<le> c_end cb" using assms(3) b by (auto simp: write_run_def write_lim_def split: if_splits)
  then show "bcopy_to (c_space cb) (c_cl cb) xs = Some space" by (simp add: bcopy_to_def space_def)
  have len: "length space = c_end cb" using le b by (simp add: space_def)
  then show "c_end ?cb = c_end cb" by (simp add: advance_write_def Let_def)
  consider (inside) "c_cf cb \<le> c_cl cb" "c_cl cb + length xs < c_end cb"
    | (wrap) "c_cf cb \<le> c_cl cb" "c_cl cb + length xs = c_end cb" "0 < c_cf cb"
    | (below) "c_cl cb < c_cf cb" "c_cl cb + length xs < c_cf cb"
    using assms(2,3) b le by (auto simp: write_run_def write_lim_def split: if_splits) linarith+
  then show eq: "chars ?cb = chars cb @ xs"
  proof cases
    case inside
    then show ?thesis using b len unfolding chars_def advance_write_def Let_def
      by (simp add: space_def take_drop)
  next
    case wrap
    then show ?thesis using b len unfolding chars_def advance_write_def Let_def
      by (simp add: space_def drop_take)
  next
    case below
    then show ?thesis using b len unfolding chars_def advance_write_def Let_def
      by (simp add: space_def)
  qed
  have "c_cl ?cb < c_end cb" using le len b by (auto simp: advance_write_def Let_def)
  then show "cb_ok ?cb"
    using b len unfolding cb_ok_def eq by (simp add: advance_write_def Let_def)
qed

lemma write_room:
  assumes "cb_ok cb"
  shows "c_cl cb = write_lim cb \<longleftrightarrow> length (chars cb) = c_end cb - 1"
    "c_cl cb \<noteq> write_lim cb \<Longrightarrow> 0 < write_run cb \<and> write_run cb + length (chars cb) \<le> c_end cb"
proof -
  have b: "c_cf cb < c_end cb" "c_cl cb < c_end cb" using assms by (simp_all add: cb_ok_def)
  show "c_cl cb = write_lim cb \<longleftrightarrow> length (chars cb) = c_end cb - 1"
    using b by (auto simp: length_chars write_lim_def)
  show "c_cl cb \<noteq> write_lim cb \<Longrightarrow> 0 < write_run cb \<and> write_run cb + length (chars cb) \<le> c_end cb"
    using b by (auto simp: length_chars write_lim_def write_run_def split: if_splits)
qed

lemma read_empty:
  assumes "cb_ok cb"
  shows "c_cl cb = c_cf cb \<longleftrightarrow> chars cb = []" "c_cl cb \<noteq> c_cf cb \<Longrightarrow> 0 < read_run cb"
proof -
  have b: "c_cf cb < c_end cb" "c_cl cb < c_end cb" using assms by (simp_all add: cb_ok_def)
  then have "chars cb = [] \<longleftrightarrow> length (chars cb) = 0" by simp
  with b show "c_cl cb = c_cf cb \<longleftrightarrow> chars cb = []" by (auto simp only: length_chars split: if_splits)
  show "c_cl cb \<noteq> c_cf cb \<Longrightarrow> 0 < read_run cb" using b by (auto simp: read_run_def)
qed

subsection \<open>One character\<close>

lemma getc_spec:
  assumes "cb_ok cb"
  shows "\<exists>cb'. getc cb = Some (case chars cb of [] \<Rightarrow> - 1 | c # _ \<Rightarrow> uint c, cb') \<and> cb_ok cb' \<and>
    chars cb' = tl (chars cb) \<and> c_end cb' = c_end cb"
proof (cases "c_cl cb = c_cf cb")
  case True
  then show ?thesis using assms read_empty(1) [OF assms] by (simp add: getc_def)
next
  case False
  then have one: "1 \<le> read_run cb" using read_empty(2) [OF assms] by simp
  note adv = advance_read_ok [OF assms one]
  have cf: "c_cf cb < c_end cb" using assms by (simp add: cb_ok_def)
  have "take 1 (chars cb) = [c_space cb ! c_cf cb]"
    using adv(4) cf by (simp add: bcopy_from_def take_Suc_conv_app_nth hd_drop_conv_nth take_Suc split: if_splits)
  then obtain cs where cs: "chars cb = c_space cb ! c_cf cb # cs" by (cases "chars cb") auto
  have "getc cb = Some (uint (c_space cb ! c_cf cb), advance_read cb 1)"
    using False cf by (simp add: getc_def advance_read_def Let_def)
  with adv cs show ?thesis by (simp add: drop_Suc)
qed

lemma putc_spec:
  assumes "cb_ok cb"
  shows "\<exists>cb'. putc c cb = Some (if length (chars cb) < c_end cb - 1 then 0 else 1, cb') \<and> cb_ok cb' \<and>
    chars cb' = (if length (chars cb) < c_end cb - 1 then chars cb @ [ucast c] else chars cb) \<and>
    c_end cb' = c_end cb"
proof -
  have b: "c_cf cb < c_end cb" "c_cl cb < c_end cb" using assms by (simp_all add: cb_ok_def)
  have full: "(if c_cl cb + 1 = c_end cb then 0 else c_cl cb + 1) = c_cf cb \<longleftrightarrow> c_cl cb = write_lim cb"
    using b by (auto simp: write_lim_def)
  show ?thesis
  proof (cases "c_cl cb = write_lim cb")
    case True
    then have "putc c cb = Some (1, cb)" using full by (simp only: putc_def Let_def if_True refl)
    with True show ?thesis using assms write_room(1) [OF assms] by simp
  next
    case False
    let ?space = "take (c_cl cb) (c_space cb) @ [ucast c] @ drop (c_cl cb + length [ucast c :: byte]) (c_space cb)"
    have "length [ucast c :: byte] \<le> write_run cb" using write_room(2) [OF assms False] by simp
    note w = write_ok [OF assms False this]
    have upd: "(c_space cb)[c_cl cb := ucast c] = ?space" using b by (simp add: upd_conv_take_nth_drop)
    have "putc c cb = Some (0, advance_write (cb\<lparr>c_space := ?space\<rparr>) (length [ucast c :: byte]))"
      using False full b unfolding upd [symmetric] putc_def Let_def by (simp add: advance_write_def)
    moreover have "length (chars cb) < c_end cb - 1"
      using write_room(1) [OF assms] chars_room [OF assms] False by linarith
    ultimately show ?thesis using w by auto
  qed
qed

subsection \<open>Many characters\<close>

lemma q_to_b_loop_spec:
  assumes "cb_ok cb"
  shows "\<exists>cb'. q_to_b_loop cb out cnt = Some (out @ take cnt (chars cb), cb') \<and> cb_ok cb' \<and>
    chars cb' = drop cnt (chars cb) \<and> c_end cb' = c_end cb"
  using assms
proof (induction cnt arbitrary: cb out rule: less_induct)
  case (less cnt)
  show ?case
  proof (cases "cnt = 0 \<or> c_cl cb = c_cf cb")
    case True
    then show ?thesis using less.prems read_empty(1) [OF less.prems] by (subst q_to_b_loop.simps) auto
  next
    case False
    let ?i = "min (read_run cb) cnt"
    have i: "?i \<le> read_run cb" by simp
    note adv = advance_read_ok [OF less.prems i]
    have pos: "0 < ?i" using read_empty(2) [OF less.prems] False by simp
    then have "cnt - ?i < cnt" by linarith
    from less.IH [OF this adv(1), of "out @ take ?i (chars cb)"] obtain cb' where IH:
      "q_to_b_loop (advance_read cb ?i) (out @ take ?i (chars cb)) (cnt - ?i) =
         Some ((out @ take ?i (chars cb)) @ take (cnt - ?i) (drop ?i (chars cb)), cb')"
      "cb_ok cb'" "chars cb' = drop (cnt - ?i) (drop ?i (chars cb))" "c_end cb' = c_end cb"
      unfolding adv(2,5) by blast
    have sum: "?i + (cnt - ?i) = cnt" by simp
    have "take ?i (chars cb) @ take (cnt - ?i) (drop ?i (chars cb)) = take cnt (chars cb)"
      using take_add [of ?i "cnt - ?i" "chars cb"] sum by simp
    moreover have "drop (cnt - ?i) (drop ?i (chars cb)) = drop cnt (chars cb)" using sum by (simp add: add.commute)
    ultimately show ?thesis using IH False adv(4) by (subst q_to_b_loop.simps) (simp add: Let_def)
  qed
qed

lemma ndflush_spec:
  assumes "cb_ok cb"
  shows "\<exists>cb'. ndflush cb cnt = Some cb' \<and> cb_ok cb' \<and> chars cb' = drop cnt (chars cb) \<and> c_end cb' = c_end cb"
  using assms
proof (induction cnt arbitrary: cb rule: less_induct)
  case (less cnt)
  show ?case
  proof (cases "cnt = 0 \<or> c_cl cb = c_cf cb")
    case True
    then show ?thesis using less.prems read_empty(1) [OF less.prems] by (subst ndflush.simps) auto
  next
    case False
    let ?i = "min (read_run cb) cnt"
    have i: "?i \<le> read_run cb" by simp
    note adv = advance_read_ok [OF less.prems i]
    have "0 < ?i" using read_empty(2) [OF less.prems] False by simp
    then have "cnt - ?i < cnt" by linarith
    from less.IH [OF this adv(1)] have "\<exists>cb'. ndflush (advance_read cb ?i) (cnt - ?i) = Some cb' \<and> cb_ok cb' \<and>
        chars cb' = drop (cnt - ?i) (drop ?i (chars cb)) \<and> c_end cb' = c_end cb" unfolding adv(2,5) .
    moreover have "drop (cnt - ?i) (drop ?i (chars cb)) = drop cnt (chars cb)" by simp
    ultimately show ?thesis using False by (subst ndflush.simps) (simp add: Let_def)
  qed
qed

lemma b_to_q_spec:
  assumes "cb_ok cb"
  shows "\<exists>cb'. b_to_q cp cb = Some (length cp - (c_end cb - 1 - length (chars cb)), cb') \<and> cb_ok cb' \<and>
    chars cb' = chars cb @ take (c_end cb - 1 - length (chars cb)) cp \<and> c_end cb' = c_end cb"
  using assms
proof (induction "length cp" arbitrary: cp cb rule: less_induct)
  case less
  let ?room = "c_end cb - 1 - length (chars cb)"
  show ?case
  proof (cases "cp = [] \<or> c_cl cb = write_lim cb")
    case True
    then show ?thesis using less.prems write_room(1) [OF less.prems] by (subst b_to_q.simps) auto
  next
    case False
    let ?i = "min (write_run cb) (length cp)"
    let ?cb = "advance_write (cb\<lparr>c_space := take (c_cl cb) (c_space cb) @ take ?i cp @
        drop (c_cl cb + length (take ?i cp)) (c_space cb)\<rparr>) (length (take ?i cp))"
    have run: "0 < write_run cb" "write_run cb + length (chars cb) \<le> c_end cb"
      using write_room(2) [OF less.prems] False by auto
    have ne: "c_cl cb \<noteq> write_lim cb" and le: "length (take ?i cp) \<le> write_run cb" using False by auto
    note w = write_ok [OF less.prems ne le]
    have lt: "length (drop ?i cp) < length cp" using run(1) False by (cases cp) auto
    have room: "?i \<le> ?room" using chars_room [OF w(2)] unfolding w(3,4) by simp
    from less.hyps [OF lt w(2)] obtain cb' where IH:
      "b_to_q (drop ?i cp) ?cb = Some (length (drop ?i cp) - (?room - ?i), cb')" "cb_ok cb'"
      "chars cb' = (chars cb @ take ?i cp) @ take (?room - ?i) (drop ?i cp)" "c_end cb' = c_end cb"
      unfolding w(3,4) by (auto simp: diff_diff_left add.commute)
    have sum: "?i + (?room - ?i) = ?room" using room by simp
    have "take ?i cp @ take (?room - ?i) (drop ?i cp) = take ?room cp"
      using take_add [of ?i "?room - ?i" cp] sum by simp
    then have "chars cb' = chars cb @ take ?room cp" using IH(3) by simp
    moreover have "length (drop ?i cp) - (?room - ?i) = length cp - ?room" using room by simp
    moreover have "b_to_q cp cb = b_to_q (drop ?i cp) ?cb"
      using False w(1) by (subst b_to_q.simps) (simp add: Let_def)
    ultimately show ?thesis using IH(1,2,4) by simp
  qed
qed

lemma ndqb_loop_takeWhile: "ndqb_loop cs msk = length (takeWhile (\<lambda>c. scast c AND msk = 0) cs)"
  by (induction cs) auto

lemma ndqb_spec:
  assumes "cb_ok cb"
  shows "ndqb cb msk = Some (length (takeWhile (\<lambda>c. scast c AND msk = 0) (take (read_run cb) (chars cb))))"
proof -
  have run: "(if c_cl cb < c_cf cb then c_end cb else c_cl cb) - c_cf cb = read_run cb"
    by (simp add: read_run_def)
  note adv = advance_read_ok [OF assms order.refl]
  show ?thesis
  proof (cases "msk = 0")
    case True
    have all: "takeWhile (\<lambda>c. True) cs = cs" for cs :: "byte list" by (induction cs) auto
    show ?thesis using True adv(3) unfolding ndqb_def Let_def run by (simp add: all)
  next
    case False
    then show ?thesis using adv(4) by (simp add: ndqb_def run Let_def ndqb_loop_takeWhile)
  qed
qed

lemma cb_clear_spec:
  assumes "cb_ok cb"
  shows "cb_ok (cb_clear cb)" "chars (cb_clear cb) = []" "c_end (cb_clear cb) = c_end cb"
proof -
  have "0 < c_end cb" using assms by (auto simp: cb_ok_def)
  then show "cb_ok (cb_clear cb)" "chars (cb_clear cb) = []" "c_end (cb_clear cb) = c_end cb"
    by (simp_all add: cb_ok_def cb_clear_def chars_def)
qed

lemma cb_alloc_ok: "buf \<noteq> [] \<Longrightarrow> cb_ok (cb_alloc buf) \<and> chars (cb_alloc buf) = [] \<and> c_end (cb_alloc buf) = length buf"
  by (simp add: cb_ok_def cb_alloc_def chars_def)

lemma cb_check_ok:
  assumes "cb_ok cb" "c_end cb \<le> 32768"
  shows "cb_check cb = Some ()"
proof -
  have b: "c_cf cb < c_end cb" "c_cl cb < c_end cb" "c_cc cb = of_nat (length (chars cb))"
    using assms(1) by (simp_all add: cb_ok_def)
  have "length (chars cb) < 32768" using chars_room [OF assms(1)] assms(2) by simp
  then have "sint (c_cc cb) = int (length (chars cb))"
    unfolding b(3) by (simp add: signed_of_nat signed_take_bit_int_eq_self)
  then show ?thesis using b by (auto simp: cb_check_def length_chars)
qed

subsection \<open>Sequences of operations\<close>

text \<open>
  What a driver sees of a character queue: the results of the operations. \<open>room\<close> is the capacity.
\<close>

datatype cb_op = Put u32 | Get | Write "byte list" | Read nat | Flush nat | Clear

datatype cb_result = Code int | Left_over nat | Chars "byte list" | Done

fun queue_step :: "nat \<Rightarrow> cb_op \<Rightarrow> byte list \<Rightarrow> cb_result \<times> byte list" where
  "queue_step room (Put c) q = (if length q < room then (Code 0, q @ [ucast c]) else (Code 1, q))"
| "queue_step room Get q = (case q of [] \<Rightarrow> (Code (- 1), []) | c # cs \<Rightarrow> (Code (uint c), cs))"
| "queue_step room (Write cs) q = (Left_over (length cs - (room - length q)), q @ take (room - length q) cs)"
| "queue_step room (Read n) q = (Chars (take n q), drop n q)"
| "queue_step room (Flush n) q = (Done, drop n q)"
| "queue_step room Clear q = (Done, [])"

fun cb_step :: "cb_op \<Rightarrow> cirbuf \<Rightarrow> (cb_result \<times> cirbuf) option" where
  "cb_step (Put c) cb = map_option (map_prod Code id) (putc c cb)"
| "cb_step Get cb = map_option (map_prod Code id) (getc cb)"
| "cb_step (Write cs) cb = map_option (map_prod Left_over id) (b_to_q cs cb)"
| "cb_step (Read n) cb = map_option (map_prod Chars id) (q_to_b cb n)"
| "cb_step (Flush n) cb = map_option (Pair Done) (ndflush cb n)"
| "cb_step Clear cb = Some (Done, cb_clear cb)"

lemma cb_step_refines:
  assumes "cb_ok cb"
  shows "\<exists>cb'. cb_step oper cb = Some (fst (queue_step (c_end cb - 1) oper (chars cb)), cb') \<and> cb_ok cb' \<and>
    chars cb' = snd (queue_step (c_end cb - 1) oper (chars cb)) \<and> c_end cb' = c_end cb"
proof (cases oper)
  case (Put c)
  show ?thesis using putc_spec [OF assms, of c] Put by auto
next
  case Get
  show ?thesis using getc_spec [OF assms] Get by (auto split: list.splits)
next
  case (Write cs)
  show ?thesis using b_to_q_spec [OF assms, of cs] Write by auto
next
  case (Read n)
  show ?thesis using q_to_b_loop_spec [OF assms, of "[]" n] Read by (auto simp: q_to_b_def)
next
  case (Flush n)
  show ?thesis using ndflush_spec [OF assms, of n] Flush by auto
next
  case Clear
  show ?thesis using cb_clear_spec [OF assms] Clear by simp
qed

text \<open>
  A state machine with an abstraction function simulates another when every step agrees on the
  result; then every sequence of steps does.
\<close>

fun run_concrete :: "('o \<Rightarrow> 's \<Rightarrow> ('r \<times> 's) option) \<Rightarrow> 'o list \<Rightarrow> 's \<Rightarrow> ('r list \<times> 's) option" where
  "run_concrete step [] s = Some ([], s)"
| "run_concrete step (x # xs) s =
     do { (r, s) \<leftarrow> step x s; (rs, s) \<leftarrow> run_concrete step xs s; Some (r # rs, s) }"

fun run_abstract :: "('o \<Rightarrow> 'a \<Rightarrow> 'r \<times> 'a) \<Rightarrow> 'o list \<Rightarrow> 'a \<Rightarrow> 'r list \<times> 'a" where
  "run_abstract step [] a = ([], a)"
| "run_abstract step (x # xs) a =
     (let (r, a) = step x a; (rs, a) = run_abstract step xs a in (r # rs, a))"

locale simulation =
  fixes ok :: "'s \<Rightarrow> bool" and abs :: "'s \<Rightarrow> 'a" and step :: "'o \<Rightarrow> 's \<Rightarrow> ('r \<times> 's) option"
    and spec :: "'o \<Rightarrow> 'a \<Rightarrow> 'r \<times> 'a"
  assumes step_spec: "ok s \<Longrightarrow> \<exists>s'. step x s = Some (fst (spec x (abs s)), s') \<and> ok s' \<and> abs s' = snd (spec x (abs s))"
begin

lemma run_spec:
  "ok s \<Longrightarrow> \<exists>s'. run_concrete step xs s = Some (fst (run_abstract spec xs (abs s)), s') \<and> ok s' \<and>
     abs s' = snd (run_abstract spec xs (abs s))"
proof (induction xs arbitrary: s)
  case (Cons x xs)
  obtain s1 where s1: "step x s = Some (fst (spec x (abs s)), s1)" "ok s1" "abs s1 = snd (spec x (abs s))"
    using step_spec [OF Cons.prems] by blast
  from Cons.IH [OF s1(2)] s1 show ?case by (auto simp: split_beta Let_def)
qed simp

end

interpretation tty: simulation "\<lambda>cb. cb_ok cb \<and> c_end cb = Suc room" chars cb_step "queue_step room" for room
  using cb_step_refines by unfold_locales fastforce

text \<open>
  C28. A circular buffer of \<open>n + 1\<close> bytes is a queue of at most \<open>n\<close> characters. Whatever sequence
  of \<^verbatim>\<open>putc\<close>, \<^verbatim>\<open>getc\<close>, \<^verbatim>\<open>b_to_q\<close>, \<^verbatim>\<open>q_to_b\<close>,
  \<^verbatim>\<open>ndflush\<close> and \<^verbatim>\<open>cb_clear\<close> a driver performs, every operation returns with
  the result of the queue, no access leaves the character space, and the buffer holds the characters
  of the queue.
\<close>

theorem cirbuf_refines_queue:
  assumes "cb_ok cb" "c_end cb = Suc room"
  shows "\<exists>cb'. run_concrete cb_step opers cb = Some (fst (run_abstract (queue_step room) opers (chars cb)), cb') \<and>
    cb_ok cb' \<and> c_end cb' = Suc room \<and> chars cb' = snd (run_abstract (queue_step room) opers (chars cb))"
  using tty.run_spec [of cb room opers] assms by auto

theorem cirbuf_refines_queue_witness:
  "\<exists>cb'. run_concrete cb_step [Write [1, 2, 3], Read 2, Write [4, 5], Get, Put 6, Read 9] (cb_alloc (replicate 4 0)) =
     Some ([Left_over 0, Chars [1, 2], Left_over 0, Code 3, Code 0, Chars [4, 5, 6]], cb') \<and> chars cb' = []"
proof -
  let ?opers = "[Write [1, 2, 3], Read 2, Write [4, 5], Get, Put 6, Read 9]"
  have "run_abstract (queue_step 3) ?opers [] =
      ([Left_over 0, Chars [1, 2], Left_over 0, Code 3, Code 0, Chars [4, 5, 6]], [])"
    by (simp add: Let_def)
  moreover have "cb_ok (cb_alloc (replicate 4 0))" "chars (cb_alloc (replicate 4 0)) = []"
    "c_end (cb_alloc (replicate 4 0)) = Suc 3" using cb_alloc_ok [of "replicate 4 0"] by auto
  ultimately show ?thesis
    using cirbuf_refines_queue [of "cb_alloc (replicate 4 0)" 3 ?opers] by (auto simp del: run_concrete.simps)
qed

text \<open>The block operations as loops of the single ones.\<close>

fun putcs :: "byte list \<Rightarrow> cirbuf \<Rightarrow> (nat \<times> cirbuf) option" where
  "putcs [] cb = Some (0, cb)"
| "putcs (c # cs) cb =
     do { (r, cb) \<leftarrow> putc (ucast c) cb; if r = 1 then Some (length (c # cs), cb) else putcs cs cb }"

fun getcs :: "nat \<Rightarrow> cirbuf \<Rightarrow> (byte list \<times> cirbuf) option" where
  "getcs 0 cb = Some ([], cb)"
| "getcs (Suc n) cb =
     do { (r, cb) \<leftarrow> getc cb;
          if r = - 1 then Some ([], cb) else do { (cs, cb) \<leftarrow> getcs n cb; Some (word_of_int r # cs, cb) } }"

lemma putcs_spec:
  assumes "cb_ok cb"
  shows "\<exists>cb'. putcs cs cb = Some (length cs - (c_end cb - 1 - length (chars cb)), cb') \<and> cb_ok cb' \<and>
    chars cb' = chars cb @ take (c_end cb - 1 - length (chars cb)) cs"
  using assms
proof (induction cs arbitrary: cb)
  case (Cons c cs)
  have u: "ucast (ucast c :: u32) = c" by (rule bit_word_eqI) (auto simp: bit_ucast_iff)
  from putc_spec [OF Cons.prems, of "ucast c"] obtain cb1 where p:
    "putc (ucast c) cb = Some (if length (chars cb) < c_end cb - 1 then 0 else 1, cb1)" "cb_ok cb1"
    "chars cb1 = (if length (chars cb) < c_end cb - 1 then chars cb @ [c] else chars cb)" "c_end cb1 = c_end cb"
    unfolding u by blast
  show ?case
  proof (cases "length (chars cb) < c_end cb - 1")
    case True
    from Cons.IH [OF p(2)] p True show ?thesis by (auto simp: take_Cons' Suc_diff_Suc)
  next
    case False
    then show ?thesis using p chars_room [OF Cons.prems] by auto
  qed
qed simp

lemma getcs_spec:
  assumes "cb_ok cb"
  shows "\<exists>cb'. getcs n cb = Some (take n (chars cb), cb') \<and> cb_ok cb' \<and> chars cb' = drop n (chars cb)"
  using assms
proof (induction n arbitrary: cb)
  case (Suc n)
  from getc_spec [OF Suc.prems] obtain cb1 where g:
    "getc cb = Some (case chars cb of [] \<Rightarrow> - 1 | c # _ \<Rightarrow> uint c, cb1)" "cb_ok cb1" "chars cb1 = tl (chars cb)" by blast
  show ?case
  proof (cases "chars cb")
    case Nil
    then show ?thesis using g by simp
  next
    case (Cons c cs)
    have "uint c \<noteq> - 1" using uint_nonnegative [of c] by linarith
    with Suc.IH [OF g(2)] g Cons show ?thesis by auto
  qed
qed simp

text \<open>
  The block operations agree with the single ones: \<^verbatim>\<open>b_to_q\<close> enters as many
  characters as a loop of \<^verbatim>\<open>putc\<close> and leaves the same queue, and \<^verbatim>\<open>q_to_b\<close>
  delivers the characters that a loop of \<^verbatim>\<open>getc\<close> delivers and leaves the same queue.
\<close>

theorem block_operations_agree:
  assumes "cb_ok cb"
  shows "map_option (map_prod id chars) (b_to_q cs cb) = map_option (map_prod id chars) (putcs cs cb) \<and>
    map_option (map_prod id chars) (q_to_b cb n) = map_option (map_prod id chars) (getcs n cb) \<and>
    b_to_q cs cb \<noteq> None \<and> q_to_b cb n \<noteq> None"
  using b_to_q_spec [OF assms, of cs] putcs_spec [OF assms, of cs] q_to_b_loop_spec [OF assms, of "[]" n]
    getcs_spec [OF assms, of n] by (auto simp: q_to_b_def)

theorem block_operations_agree_witness:
  "map_option (map_prod id chars) (b_to_q [1, 2, 3, 4] (cb_alloc (replicate 4 0))) = Some (1, [1, 2, 3])"
proof -
  have "map_option (map_prod id chars) (putcs [1, 2, 3, 4] (cb_alloc (replicate 4 0))) = Some (1, [1, 2, 3])"
    by code_simp
  then show ?thesis
    using block_operations_agree [of "cb_alloc (replicate 4 0)" "[1, 2, 3, 4]" 0] cb_alloc_ok [of "replicate 4 0"]
    by simp
qed

end
