(* ===== verification/Net_Filter.thy ===== *)
theory Net_Filter
  imports Mach_Prelude
begin

text \<open>
  The packet filters of \<^verbatim>\<open>kernel/device/net_io.c\<close> in the CMU/Stanford language: the check
  \<^verbatim>\<open>parse_net_filter\<close> that a filter passes when it is installed, and the stack machine
  \<^verbatim>\<open>net_do_filter\<close> that runs it on every packet. The array \<^verbatim>\<open>stack\<close> is a list of which the machine
  uses the end first, as the code does, and \<open>sp\<close> an index into it; an access outside the array has no
  result. The uninitialised contents of the array are an argument. Packet and header are lists of bytes that
  the machine reads as little-endian 16-bit words. Shifts take the low five bits of the count, as the
  i386 does.
\<close>

type_synonym byte = "8 word"
type_synonym filter_t = "16 word"

subsection \<open>Instruction words\<close>

definition NET_MAX_FILTER :: nat where "NET_MAX_FILTER = 128"
definition NET_FILTER_STACK_DEPTH :: nat where "NET_FILTER_STACK_DEPTH = 32"
definition NET_HDW_HDR_MAX :: nat where "NET_HDW_HDR_MAX = 64"

definition NETF_ARG :: "filter_t \<Rightarrow> nat" where
  "NETF_ARG w = unat (and w 0x3ff)"

definition NETF_OP :: "filter_t \<Rightarrow> nat" where
  "NETF_OP w = unat (and (drop_bit 10 w) 0x3f)"

text \<open>The operators, by the value of \<^verbatim>\<open>NETF_OP\<close>.\<close>

datatype netf_op =
    NETF_NOP | NETF_EQ | NETF_LT | NETF_LE | NETF_GT | NETF_GE | NETF_AND | NETF_OR | NETF_XOR | NETF_COR | NETF_CAND | NETF_CNOR | NETF_CNAND | NETF_NEQ | NETF_LSH | NETF_RSH | NETF_ADD | NETF_SUB

definition netf_ops :: "netf_op list" where
  "netf_ops = [NETF_NOP, NETF_EQ, NETF_LT, NETF_LE, NETF_GT, NETF_GE, NETF_AND, NETF_OR, NETF_XOR, NETF_COR, NETF_CAND, NETF_CNOR, NETF_CNAND, NETF_NEQ, NETF_LSH, NETF_RSH, NETF_ADD, NETF_SUB]"

definition netf_op :: "filter_t \<Rightarrow> netf_op option" where
  "netf_op w = arr_get netf_ops (NETF_OP w)"

definition NETF_NOPUSH :: nat where "NETF_NOPUSH = 0"
definition NETF_PUSHLIT :: nat where "NETF_PUSHLIT = 1"
definition NETF_PUSHZERO :: nat where "NETF_PUSHZERO = 2"
definition NETF_PUSHIND :: nat where "NETF_PUSHIND = 14"
definition NETF_PUSHHDRIND :: nat where "NETF_PUSHHDRIND = 15"
definition NETF_PUSHWORD :: nat where "NETF_PUSHWORD = 16"
definition NETF_PUSHHDR :: nat where "NETF_PUSHHDR = 960"
definition NETF_PUSHSTK :: nat where "NETF_PUSHSTK = 992"

lemmas netf_arg_defs =
  NETF_NOPUSH_def NETF_PUSHLIT_def NETF_PUSHZERO_def NETF_PUSHIND_def NETF_PUSHHDRIND_def
  NETF_PUSHWORD_def NETF_PUSHHDR_def NETF_PUSHSTK_def

text \<open>\<^verbatim>\<open>((unsigned short *)bytes)[i]\<close> on a little-endian machine.\<close>

definition short_word :: "byte list \<Rightarrow> nat \<Rightarrow> u32 option" where
  "short_word bytes i =
     do { lo \<leftarrow> arr_get bytes (2 * i);
          hi \<leftarrow> arr_get bytes (2 * i + 1);
          Some (or (ucast lo) (push_bit 8 (ucast hi))) }"

subsection \<open>The machine\<close>

text \<open>
  The first switch: fetch the argument. The result is \<open>Inl b\<close> if the function returns \<open>b\<close> here,
  and otherwise the argument, the stack pointer and the rest of the program.
\<close>

definition fetch_arg ::
    "byte list \<Rightarrow> nat \<Rightarrow> byte list \<Rightarrow> u32 list \<Rightarrow> nat \<Rightarrow> nat \<Rightarrow> filter_t list \<Rightarrow>
     (bool + u32 \<times> nat \<times> filter_t list) option" where
  "fetch_arg data data_count header stack sp arg fp =
     (if arg = NETF_NOPUSH then
        do { x \<leftarrow> arr_get stack sp; Some (Inr (x, sp + 1, fp)) }
      else if arg = NETF_PUSHZERO then Some (Inr (0, sp, fp))
      else if arg = NETF_PUSHLIT then
        (case fp of [] \<Rightarrow> None | lit # fp \<Rightarrow> Some (Inr (ucast lit, sp, fp)))
      else if arg = NETF_PUSHIND then
        do { x \<leftarrow> arr_get stack sp;
             if unat x \<ge> data_count then Some (Inl False)
             else do { x \<leftarrow> short_word data (unat x); Some (Inr (x, sp + 1, fp)) } }
      else if arg = NETF_PUSHHDRIND then
        do { x \<leftarrow> arr_get stack sp;
             if unat x \<ge> NET_HDW_HDR_MAX div 2 then Some (Inl False)
             else do { x \<leftarrow> short_word header (unat x); Some (Inr (x, sp + 1, fp)) } }
      else if arg \<ge> NETF_PUSHSTK then
        do { x \<leftarrow> arr_get stack (sp + (arg - NETF_PUSHSTK)); Some (Inr (x, sp, fp)) }
      else if arg \<ge> NETF_PUSHHDR then
        do { x \<leftarrow> short_word header (arg - NETF_PUSHHDR); Some (Inr (x, sp, fp)) }
      else
        let x = of_nat arg - of_nat NETF_PUSHWORD :: u32 in
        if unat x \<ge> data_count then Some (Inl False)
        else do { x \<leftarrow> short_word data (unat x); Some (Inr (x, sp, fp)) })"

text \<open>The operators that replace the top of the stack, and those that may return.\<close>

fun netf_binary :: "netf_op \<Rightarrow> (u32 \<Rightarrow> u32 \<Rightarrow> u32) option" where
  "netf_binary NETF_AND = Some and"
| "netf_binary NETF_OR = Some or"
| "netf_binary NETF_XOR = Some xor"
| "netf_binary NETF_EQ = Some (\<lambda>x arg. of_bool (x = arg))"
| "netf_binary NETF_NEQ = Some (\<lambda>x arg. of_bool (x \<noteq> arg))"
| "netf_binary NETF_LT = Some (\<lambda>x arg. of_bool (x < arg))"
| "netf_binary NETF_LE = Some (\<lambda>x arg. of_bool (x \<le> arg))"
| "netf_binary NETF_GT = Some (\<lambda>x arg. of_bool (x > arg))"
| "netf_binary NETF_GE = Some (\<lambda>x arg. of_bool (x \<ge> arg))"
| "netf_binary NETF_LSH = Some (\<lambda>x arg. push_bit (unat arg mod 32) x)"
| "netf_binary NETF_RSH = Some (\<lambda>x arg. signed_drop_bit (unat arg mod 32) x)"
| "netf_binary NETF_ADD = Some (+)"
| "netf_binary NETF_SUB = Some (-)"
| "netf_binary _ = None"

fun netf_return :: "netf_op \<Rightarrow> u32 \<Rightarrow> u32 \<Rightarrow> bool option" where
  "netf_return NETF_COR x arg = (if x = arg then Some True else None)"
| "netf_return NETF_CAND x arg = (if x \<noteq> arg then Some False else None)"
| "netf_return NETF_CNOR x arg = (if x = arg then Some False else None)"
| "netf_return NETF_CNAND x arg = (if x \<noteq> arg then Some True else None)"
| "netf_return _ _ _ = None"

text \<open>The second switch. An operator that is not in the list does nothing.\<close>

definition apply_op ::
    "netf_op option \<Rightarrow> u32 \<Rightarrow> u32 list \<Rightarrow> nat \<Rightarrow> (bool + u32 list \<times> nat) option" where
  "apply_op op arg stack sp =
     (case op of
        None \<Rightarrow> Some (Inr (stack, sp))
      | Some NETF_NOP \<Rightarrow>
          do { assert_that (0 < sp);
               stack \<leftarrow> arr_set stack (sp - 1) arg;
               Some (Inr (stack, sp - 1)) }
      | Some op \<Rightarrow>
          do { x \<leftarrow> arr_get stack sp;
               case netf_binary op of
                 Some f \<Rightarrow> do { stack \<leftarrow> arr_set stack sp (f x arg); Some (Inr (stack, sp)) }
               | None \<Rightarrow>
                   (case netf_return op x arg of
                      Some b \<Rightarrow> Some (Inl b)
                    | None \<Rightarrow> Some (Inr (stack, sp + 1))) })"

lemma fetch_arg_shorter:
  "fetch_arg data data_count header stack sp arg fp = Some (Inr (x, sp', fp')) \<Longrightarrow> length fp' \<le> length fp"
  by (auto simp: fetch_arg_def Let_def split: if_splits list.splits bind_splits)

text \<open>The loop over the program.\<close>

function net_filter_loop ::
    "byte list \<Rightarrow> nat \<Rightarrow> byte list \<Rightarrow> u32 list \<Rightarrow> nat \<Rightarrow> filter_t list \<Rightarrow> bool option" where
  "net_filter_loop data data_count header stack sp [] =
     do { x \<leftarrow> arr_get stack sp; Some (x \<noteq> 0) }"
| "net_filter_loop data data_count header stack sp (w # fp) =
     (case fetch_arg data data_count header stack sp (NETF_ARG w) fp of
        None \<Rightarrow> None
      | Some (Inl b) \<Rightarrow> Some b
      | Some (Inr (arg, sp, fp)) \<Rightarrow>
          (case apply_op (netf_op w) arg stack sp of
             None \<Rightarrow> None
           | Some (Inl b) \<Rightarrow> Some b
           | Some (Inr (stack, sp)) \<Rightarrow> net_filter_loop data data_count header stack sp fp))"
  by pat_completeness auto
termination
  by (relation "measure (\<lambda>(data, data_count, header, stack, sp, fp). length fp)")
    (auto dest: fetch_arg_shorter)

text \<open>\<open>stack\<close> is the uninitialised array, \<open>data_count\<close> the length of the packet in bytes.\<close>

definition net_do_filter ::
    "u32 list \<Rightarrow> filter_t list \<Rightarrow> byte list \<Rightarrow> nat \<Rightarrow> byte list \<Rightarrow> bool option" where
  "net_do_filter stack fp data data_count header =
     do { let data_count = data_count div 2;
          stack \<leftarrow> arr_set stack NET_FILTER_STACK_DEPTH 1;
          net_filter_loop data data_count header stack NET_FILTER_STACK_DEPTH fp }"

subsection \<open>The check\<close>

text \<open>The switch over the argument: the new depth and the rest, or nothing if the function returns false.\<close>

definition parse_arg :: "int \<Rightarrow> nat \<Rightarrow> filter_t list \<Rightarrow> (int \<times> filter_t list) option" where
  "parse_arg sp arg fp =
     (if arg = NETF_NOPUSH then Some (sp, fp)
      else if arg = NETF_PUSHZERO then Some (sp - 1, fp)
      else if arg = NETF_PUSHLIT then
        (case fp of [] \<Rightarrow> None | _ # fp \<Rightarrow> Some (sp - 1, fp))
      else if arg = NETF_PUSHIND \<or> arg = NETF_PUSHHDRIND then Some (sp, fp)
      else if arg \<ge> NETF_PUSHSTK then
        (if int arg - int NETF_PUSHSTK + sp > int NET_FILTER_STACK_DEPTH then None else Some (sp - 1, fp))
      else if arg \<ge> NETF_PUSHHDR then
        (if arg - NETF_PUSHHDR \<ge> NET_HDW_HDR_MAX div 2 then None else Some (sp - 1, fp))
      else Some (sp - 1, fp))"

lemma parse_arg_shorter: "parse_arg sp arg fp = Some (sp', fp') \<Longrightarrow> length fp' \<le> length fp"
  by (auto simp: parse_arg_def split: if_splits list.splits)

function parse_loop :: "int \<Rightarrow> filter_t list \<Rightarrow> bool" where
  "parse_loop sp [] \<longleftrightarrow> True"
| "parse_loop sp (w # fp) \<longleftrightarrow>
     (case parse_arg sp (NETF_ARG w) fp of
        None \<Rightarrow> False
      | Some (sp, fp) \<Rightarrow>
          if sp < 2 then False
          else if NETF_OP w = 0 then parse_loop sp fp
          else if sp > int NET_MAX_FILTER - 2 then False
          else if netf_op w = None then False
          else parse_loop (sp + 1) fp)"
  by pat_completeness auto
termination
  by (relation "measure (\<lambda>(sp, fp). length fp)") (auto dest!: parse_arg_shorter simp: less_Suc_eq_le)

definition parse_net_filter :: "filter_t list \<Rightarrow> bool" where
  "parse_net_filter fp \<longleftrightarrow> parse_loop (int NET_FILTER_STACK_DEPTH) fp"

end
