(* ===== verification/Net_Filter_Props.thy ===== *)
theory Net_Filter_Props
  imports Net_Filter
begin

text \<open>
  What the check of the CMU/Stanford filters guarantees. \<open>depth_ok\<close> plays the part of a type system: it
  reads off the program how far the machine goes into the stack. An accepted program that passes it cannot
  go wrong; the check alone does not ensure it.
\<close>

subsection \<open>The depth of the stack\<close>

text \<open>
  What an instruction does to the stack pointer, read off the machine: the arguments that pop, and
  the operators that push, leave or pop. \<open>depth_ok hi sp fp\<close> says that a program started at \<open>sp\<close>
  never looks at the stack above the index \<open>hi\<close>.
\<close>

definition pops_arg :: "nat \<Rightarrow> bool" where
  "pops_arg arg \<longleftrightarrow> arg = NETF_NOPUSH \<or> arg = NETF_PUSHIND \<or> arg = NETF_PUSHHDRIND"

definition arg_top :: "nat \<Rightarrow> nat \<Rightarrow> nat" where
  "arg_top sp arg = (if pops_arg arg then sp else if arg \<ge> NETF_PUSHSTK then sp + (arg - NETF_PUSHSTK) else 0)"

definition short_circuit :: "netf_op \<Rightarrow> bool" where
  "short_circuit op \<longleftrightarrow> op \<in> {NETF_COR, NETF_CAND, NETF_CNOR, NETF_CNAND}"

definition arg_rest :: "nat \<Rightarrow> filter_t list \<Rightarrow> filter_t list" where
  "arg_rest arg fp = (if arg = NETF_PUSHLIT then tl fp else fp)"

function depth_ok :: "nat \<Rightarrow> nat \<Rightarrow> filter_t list \<Rightarrow> bool" where
  "depth_ok hi sp [] \<longleftrightarrow> sp \<le> hi"
| "depth_ok hi sp (w # fp) \<longleftrightarrow>
     arg_top sp (NETF_ARG w) \<le> hi \<and>
     (let sp = (if pops_arg (NETF_ARG w) then sp + 1 else sp);
          fp = arg_rest (NETF_ARG w) fp
      in case netf_op w of
           None \<Rightarrow> depth_ok hi sp fp
         | Some op \<Rightarrow>
             if op = NETF_NOP then depth_ok hi (sp - 1) fp
             else sp \<le> hi \<and> depth_ok hi (if short_circuit op then sp + 1 else sp) fp)"
  by pat_completeness auto
termination
  by (relation "measure (\<lambda>(hi, sp, fp). length fp)") (auto simp: arg_rest_def less_Suc_eq_le)

lemma netf_op_nop: "netf_op w = Some NETF_NOP \<longleftrightarrow> NETF_OP w = 0"
proof -
  have *: "n < length netf_ops \<and> netf_ops ! n = NETF_NOP \<longleftrightarrow> n = 0" for n
  proof (cases "n < 18")
    case True
    then have "n \<in> set [0..<18]" by simp
    then show ?thesis
      by (simp add: upt_rec netf_ops_def del: upt_Suc set_upt) auto
  next
    case False
    then show ?thesis by (simp add: netf_ops_def)
  qed
  show ?thesis unfolding netf_op_def arr_get_eq_Some using * [of "NETF_OP w"] by simp
qed

lemma netf_op_cases:
  assumes "op \<noteq> NETF_NOP"
  shows "(\<exists>f. netf_binary op = Some f) \<and> \<not> short_circuit op \<or> netf_binary op = None \<and> short_circuit op"
  using assms by (cases op) (simp_all add: short_circuit_def)

lemma short_word_in: "2 * i + 1 < length bytes \<Longrightarrow> \<exists>x. short_word bytes i = Some x"
  by (simp add: short_word_def)

text \<open>The two switches, on a program that the check accepts.\<close>

lemma fetch_arg_ok:
  assumes "parse_arg psp arg fp = Some (psp', fp')" and "arg_top sp arg < length stack"
    and "2 * data_count \<le> length data" and "length header = NET_HDW_HDR_MAX" and "arg < 1024"
  shows "(\<exists>b. fetch_arg data data_count header stack sp arg fp = Some (Inl b)) \<or>
    (\<exists>x. fetch_arg data data_count header stack sp arg fp =
       Some (Inr (x, if pops_arg arg then sp + 1 else sp, fp'))) \<and> fp' = arg_rest arg fp"
proof -
  have d: "\<exists>x. short_word data i = Some x" if "i < data_count" for i
    using assms(3) that by (intro short_word_in) simp
  have h: "\<exists>x. short_word header i = Some x" if "i < 32" for i
    using assms(4) that by (intro short_word_in) (simp add: NET_HDW_HDR_MAX_def)
  consider "arg = 0" | "arg = 1" | "arg = 2" | "arg = 14" | "arg = 15" | "992 \<le> arg" | "960 \<le> arg" "arg < 992"
    | "arg < 960" "arg \<notin> {0, 1, 2, 14, 15}" by fastforce
  then show ?thesis
  proof cases
    case 4
    then have "sp < length stack" using assms(2) by (simp add: arg_top_def pops_arg_def netf_arg_defs)
    then show ?thesis using 4 assms(1) d [of "unat (stack ! sp)"]
      by (auto simp: fetch_arg_def parse_arg_def pops_arg_def arg_rest_def netf_arg_defs not_le)
  next
    case 5
    then have "sp < length stack" using assms(2) by (simp add: arg_top_def pops_arg_def netf_arg_defs)
    then show ?thesis using 5 assms(1) h [of "unat (stack ! sp)"]
      by (auto simp: fetch_arg_def parse_arg_def pops_arg_def arg_rest_def netf_arg_defs not_le NET_HDW_HDR_MAX_def)
  next
    case 7
    then have "arg - 960 < 32" by simp
    with 7 assms(1) h [of "arg - 960"] show ?thesis
      by (auto simp: fetch_arg_def parse_arg_def pops_arg_def arg_rest_def netf_arg_defs split: if_splits)
  next
    case 8
    then show ?thesis using assms(1) d [of "unat (of_nat arg - 16 :: u32)"]
      by (auto simp: fetch_arg_def parse_arg_def pops_arg_def arg_rest_def netf_arg_defs Let_def not_le split: if_splits)
  qed (use assms(1,2) in \<open>auto simp: fetch_arg_def parse_arg_def pops_arg_def arg_top_def arg_rest_def
      netf_arg_defs split: if_splits list.splits\<close>)
qed

lemma apply_op_ok:
  assumes "op = NETF_NOP \<Longrightarrow> 0 < sp \<and> sp - 1 < length stack" and "op \<noteq> NETF_NOP \<Longrightarrow> sp < length stack"
  shows "(\<exists>b. apply_op (Some op) arg stack sp = Some (Inl b)) \<or>
    (\<exists>stack'. apply_op (Some op) arg stack sp =
       Some (Inr (stack', if op = NETF_NOP then sp - 1 else if short_circuit op then sp + 1 else sp)) \<and>
     length stack' = length stack)"
proof (cases "op = NETF_NOP")
  case True
  then show ?thesis using assms(1) by (simp add: apply_op_def)
next
  case False
  have "apply_op (Some op) arg stack sp =
    (case netf_binary op of
       Some f \<Rightarrow> Some (Inr (stack[sp := f (stack ! sp) arg], sp))
     | None \<Rightarrow> (case netf_return op (stack ! sp) arg of Some b \<Rightarrow> Some (Inl b) | None \<Rightarrow> Some (Inr (stack, sp + 1))))"
    using assms(2) False by (cases op) (simp_all add: apply_op_def)
  then show ?thesis
    using netf_op_cases [OF False] False by (auto split: option.splits)
qed

lemma NETF_ARG_less: "NETF_ARG w < 1024"
proof -
  have "and w 0x3ff \<le> 0x3ff" by (rule word_and_le1)
  then show ?thesis by (simp add: NETF_ARG_def word_le_nat_alt)
qed

lemma parse_arg_depth:
  "parse_arg psp arg fp = Some (psp', fp') \<Longrightarrow> psp' = (if pops_arg arg then psp else psp - 1)"
  by (auto simp: parse_arg_def pops_arg_def netf_arg_defs split: if_splits list.splits)

lemma net_filter_loop_safe:
  assumes "parse_loop psp fp" and "depth_ok hi sp fp" and "psp \<le> int sp" and "hi < length stack"
    and "sp \<le> Suc hi" and "2 * data_count \<le> length data" and "length header = NET_HDW_HDR_MAX"
  shows "\<exists>b. net_filter_loop data data_count header stack sp fp = Some b"
  using assms(1-5)
proof (induction "length fp" arbitrary: psp sp stack fp rule: less_induct)
  case less
  show ?case
  proof (cases fp)
    case Nil
    then show ?thesis using less.prems by simp
  next
    case (Cons w ws)
    let ?arg = "NETF_ARG w"
    obtain psp' fp' where pa: "parse_arg psp ?arg ws = Some (psp', fp')" and "2 \<le> psp'"
      using less.prems(1) Cons by (auto split: option.splits if_splits)
    let ?sp = "if pops_arg ?arg then sp + 1 else sp"
    have at: "arg_top sp ?arg < length stack" using less.prems(2,4) Cons by auto
    have psp': "psp' + 1 \<le> int ?sp" using parse_arg_depth [OF pa] less.prems(3) by auto
    obtain op where op: "netf_op w = Some op"
    proof (cases "NETF_OP w = 0")
      case True
      then show ?thesis using netf_op_nop that by blast
    next
      case False
      then show ?thesis using less.prems(1) Cons pa that by (auto split: if_splits)
    qed
    have rest: "parse_loop (if op = NETF_NOP then psp' else psp' + 1) fp'"
      using less.prems(1) Cons pa op netf_op_nop [of w] by (auto split: if_splits)
    consider b where "fetch_arg data data_count header stack sp ?arg ws = Some (Inl b)"
      | x where "fetch_arg data data_count header stack sp ?arg ws = Some (Inr (x, ?sp, fp'))" "fp' = arg_rest ?arg ws"
      using fetch_arg_ok [OF pa at assms(6,7) NETF_ARG_less] by blast
    then show ?thesis
    proof cases
      case 1
      then show ?thesis using Cons by simp
    next
      case 2
      let ?sp2 = "if op = NETF_NOP then ?sp - 1 else if short_circuit op then ?sp + 1 else ?sp"
      have depth: "depth_ok hi ?sp2 fp'" and le: "op \<noteq> NETF_NOP \<Longrightarrow> ?sp \<le> hi"
        using less.prems(2) Cons op 2(2) by (auto simp: Let_def)
      have sp2: "op = NETF_NOP \<Longrightarrow> 0 < ?sp \<and> ?sp - 1 < length stack"
        using psp' \<open>2 \<le> psp'\<close> at less.prems(4,5) by (auto simp: arg_top_def)
      have "op \<noteq> NETF_NOP \<Longrightarrow> ?sp < length stack" using le less.prems(4) by simp
      from apply_op_ok [of op ?sp stack x, OF sp2 this] consider b where "apply_op (Some op) x stack ?sp = Some (Inl b)"
        | stack' where "apply_op (Some op) x stack ?sp = Some (Inr (stack', ?sp2))" "length stack' = length stack"
        by blast
      then show ?thesis
      proof cases
        case 1
        then show ?thesis using Cons 2(1) op by simp
      next
        case s: 2
        have "length fp' < length fp" using parse_arg_shorter [OF pa] Cons by simp
        moreover have "(if op = NETF_NOP then psp' else psp' + 1) \<le> int ?sp2" using psp' \<open>2 \<le> psp'\<close> by auto
        ultimately have "\<exists>b. net_filter_loop data data_count header stack' ?sp2 fp' = Some b"
          using less.hyps [of fp'] rest depth s(2) less.prems(4,5) le at by (auto simp: arg_top_def)
        then show ?thesis using Cons 2(1) op s(1) by (auto split: if_splits)
      qed
    qed
  qed
qed

lemma depth_ok_mono:
  assumes "depth_ok hi sp fp" and "hi \<le> hi'"
  shows "depth_ok hi' sp fp"
  using assms(1)
proof (induction "length fp" arbitrary: sp fp rule: less_induct)
  case less
  show ?case
  proof (cases fp)
    case Nil
    then show ?thesis using less.prems assms(2) by simp
  next
    case (Cons w ws)
    have "length (arg_rest (NETF_ARG w) ws) < length fp"
      using Cons by (auto simp: arg_rest_def less_Suc_eq_le)
    note IH = less.hyps [OF this]
    show ?thesis
    proof (cases "netf_op w")
      case None
      then show ?thesis using less.prems Cons assms(2) IH by (simp add: Let_def split: if_splits)
    next
      case (Some op)
      then show ?thesis
        using less.prems Cons assms(2) IH by (cases "op = NETF_NOP") (auto simp: Let_def split: if_splits)
    qed
  qed
qed

lemma parse_stack_arg:
  "parse_arg psp arg fp = Some (psp', fp') \<Longrightarrow> int sp = psp + int c \<Longrightarrow> psp \<le> 127 \<Longrightarrow>
   int (arg_top sp arg) \<le> 127 + int c"
  by (auto simp: parse_arg_def arg_top_def pops_arg_def netf_arg_defs NET_FILTER_STACK_DEPTH_def
      split: if_splits list.splits)

text \<open>
  The check counts a short-circuit operator as leaving one result, but the machine leaves none. So the
  machine's stack pointer is above the one of the check by the number of these operators.
\<close>

lemma parse_depth_bound:
  assumes "parse_loop psp fp" and "psp \<le> 127" and "int sp = psp + int c" and "2 \<le> psp"
  shows "depth_ok (127 + c + length fp) sp fp"
  using assms
proof (induction "length fp" arbitrary: psp sp c fp rule: less_induct)
  case less
  show ?case
  proof (cases fp)
    case Nil
    then show ?thesis using less.prems by simp
  next
    case (Cons w ws)
    let ?arg = "NETF_ARG w" and ?hi = "127 + c + length fp"
    obtain psp' fp' where pa: "parse_arg psp ?arg ws = Some (psp', fp')" and two: "2 \<le> psp'"
      using less.prems(1) Cons by (auto split: option.splits if_splits)
    have shorter: "length fp' < length fp" using parse_arg_shorter [OF pa] Cons by simp
    have fp': "fp' = arg_rest ?arg ws"
      using pa by (auto simp: parse_arg_def arg_rest_def netf_arg_defs split: if_splits list.splits)
    let ?sp = "if pops_arg ?arg then sp + 1 else sp"
    have sp: "int ?sp = psp' + 1 + int c" "psp' \<le> 127"
      using parse_arg_depth [OF pa] less.prems(2,3) by auto
    have at: "arg_top sp ?arg \<le> ?hi" using parse_stack_arg [OF pa less.prems(3,2)] by simp
    show ?thesis
    proof (cases "NETF_OP w = 0")
      case True
      then have op: "netf_op w = Some NETF_NOP" by (simp add: netf_op_nop)
      have "parse_loop psp' fp'" using less.prems(1) Cons pa True by (auto split: if_splits)
      then have "depth_ok (127 + c + length fp') (?sp - 1) fp'"
        using less.hyps [OF shorter, of psp' "?sp - 1" c] sp two by auto
      then have "depth_ok ?hi (?sp - 1) fp'" using shorter by (elim depth_ok_mono) simp
      then show ?thesis using Cons at op fp' by (simp add: Let_def)
    next
      case False
      then obtain op where op: "netf_op w = Some op" "op \<noteq> NETF_NOP"
        using less.prems(1) Cons pa netf_op_nop [of w] by (auto split: if_splits)
      have rest: "parse_loop (psp' + 1) fp'" "psp' + 1 \<le> 127"
        using less.prems(1) Cons pa False by (auto split: if_splits simp: NET_MAX_FILTER_def)
      let ?c = "if short_circuit op then c + 1 else c"
      let ?sp2 = "if short_circuit op then ?sp + 1 else ?sp"
      have "int ?sp2 = (psp' + 1) + int ?c" using sp(1) by auto
      then have "depth_ok (127 + ?c + length fp') ?sp2 fp'"
        using less.hyps [OF shorter rest] two by simp
      moreover have "127 + ?c + length fp' \<le> ?hi" using shorter by simp
      ultimately have "depth_ok ?hi ?sp2 fp'" by (rule depth_ok_mono)
      moreover have "?sp \<le> ?hi" using sp rest(2) by (simp split: if_splits)
      ultimately show ?thesis using Cons at op fp' by (simp add: Let_def)
    qed
  qed
qed

subsection \<open>Properties\<close>

text \<open>
  C13. A checked filter does not go wrong, as far as its stack stays in the array: if
  \<^verbatim>\<open>parse_net_filter\<close> accepts the filter and no instruction looks at the stack above its last
  element, then \<^verbatim>\<open>net_do_filter\<close> returns on every packet, whatever the contents of the packet, of the
  header and of the uninitialised stack. No instruction reads or writes outside the stack, the packet, the header or
  the program.
\<close>

theorem cspf_accepted_safe:
  assumes "parse_net_filter fp" and "depth_ok NET_FILTER_STACK_DEPTH NET_FILTER_STACK_DEPTH fp"
    and "length stack = NET_FILTER_STACK_DEPTH + 1" and "data_count \<le> length data"
    and "length header = NET_HDW_HDR_MAX"
  shows "\<exists>b. net_do_filter stack fp data data_count header = Some b"
proof -
  have "2 * (data_count div 2) \<le> length data" using assms(4) by simp
  then have "\<exists>b. net_filter_loop data (data_count div 2) header (stack[NET_FILTER_STACK_DEPTH := 1])
      NET_FILTER_STACK_DEPTH fp = Some b"
    using assms unfolding parse_net_filter_def by (intro net_filter_loop_safe) auto
  then show ?thesis using assms(3) by (simp add: net_do_filter_def)
qed

text \<open>A filter that accepts the packets whose first word is 8.\<close>

theorem cspf_accepted_safe_witness:
  "\<exists>b. net_do_filter (replicate 33 0xdead) [0x0010, 0x2801, 0x0008] [8, 0, 1] 3 (replicate 64 0) = Some b"
  by (rule cspf_accepted_safe) code_simp+

text \<open>
  How far a checked filter can go wrong: a filter of at most \<^verbatim>\<open>NET_MAX_FILTER\<close> words that
  \<^verbatim>\<open>parse_net_filter\<close> accepts never uses the stack below its start, and never above index 255, although the
  array ends at index 32: on an array of 256 elements it always returns.
\<close>

theorem cspf_overrun_bounded:
  assumes "parse_net_filter fp" and "length fp \<le> NET_MAX_FILTER" and "length stack = 256"
    and "data_count \<le> length data" and "length header = NET_HDW_HDR_MAX"
  shows "\<exists>b. net_do_filter stack fp data data_count header = Some b"
proof -
  have "depth_ok (127 + 0 + length fp) NET_FILTER_STACK_DEPTH fp"
    using assms(1) unfolding parse_net_filter_def
    by (rule parse_depth_bound) (simp_all add: NET_FILTER_STACK_DEPTH_def)
  then have "depth_ok 255 NET_FILTER_STACK_DEPTH fp"
    using assms(2) by (elim depth_ok_mono) (simp add: NET_MAX_FILTER_def)
  moreover have "2 * (data_count div 2) \<le> length data" using assms(4) by simp
  ultimately have "\<exists>b. net_filter_loop data (data_count div 2) header (stack[NET_FILTER_STACK_DEPTH := 1])
      NET_FILTER_STACK_DEPTH fp = Some b"
    using assms unfolding parse_net_filter_def
    by (intro net_filter_loop_safe) (auto simp: NET_FILTER_STACK_DEPTH_def)
  then show ?thesis using assms(3) by (simp add: net_do_filter_def NET_FILTER_STACK_DEPTH_def)
qed

theorem cspf_overrun_bounded_witness:
  "\<exists>b. net_do_filter (replicate 256 0) [0x1800] [8, 0, 1] 3 (replicate 64 0) = Some b"
  by (rule cspf_overrun_bounded) code_simp+

text \<open>
  C26. The check does not keep filters inside the stack. It compares the depth with
  \<^verbatim>\<open>NET_MAX_FILTER\<close>, 128, where the stack has 33 elements, and it counts short-circuit operators
  as leaving a result. It accepts the one-word filter that combines the top of the stack with the element above it,
  and the filter of two short-circuit comparisons with a literal; on a stack of 33 elements both go
  outside the array on every packet.
\<close>

theorem cspf_accepted_escapes:
  assumes "length stack = NET_FILTER_STACK_DEPTH + 1"
  shows "parse_net_filter [0x1800] \<and> net_do_filter stack [0x1800] data data_count header = None \<and>
    parse_net_filter [0x2401, 2, 0x2401, 2] \<and>
    net_do_filter stack [0x2401, 2, 0x2401, 2] data data_count header = None"
proof -
  have acc: "parse_net_filter [0x1800]" "parse_net_filter [0x2401, 2, 0x2401, 2]" by code_simp+
  have op: "NETF_ARG 0x1800 = 0" "netf_op 0x1800 = Some NETF_AND" "NETF_ARG 0x2401 = 1"
    "netf_op 0x2401 = Some NETF_COR"
    by code_simp+
  show ?thesis
    using acc assms
    by (simp add: net_do_filter_def Let_def op fetch_arg_def apply_op_def netf_arg_defs
        NET_FILTER_STACK_DEPTH_def arr_get_def)
qed

theorem cspf_accepted_escapes_witness:
  "parse_net_filter [0x1800] \<and> net_do_filter (replicate 33 0) [0x1800] [8, 0] 2 (replicate 64 0) = None"
  using cspf_accepted_escapes [of "replicate 33 0" "[8, 0]" 2 "replicate 64 0"]
  by (simp add: NET_FILTER_STACK_DEPTH_def)

end
