(* ===== verification/Bpf.thy ===== *)
theory Bpf
  imports Net_Filter
begin

text \<open>
  The Berkeley packet filters of \<^verbatim>\<open>kernel/device/net_io.c\<close>: the check \<^verbatim>\<open>bpf_validate\<close>, the machine
  \<^verbatim>\<open>bpf_do_filter\<close> and the hash tables with which one filter serves many sessions. A program is
  the whole array \<^verbatim>\<open>filter\<close> of a \<^verbatim>\<open>struct net_rcv_port\<close> read as instructions, of which the first \<open>bytes\<close>
  bytes are in use. The packet and its header are parts of one message, a list of bytes laid out as
  \<^verbatim>\<open>struct net_rcv_msg\<close>; an access outside the message, the scratch memory or the program has no result, and
  neither has a run that does not end. The uninitialised registers and scratch memory are arguments.
  Shifts take the low five bits of the count, and \<^verbatim>\<open>char\<close> is signed, as on the i386.
\<close>

subsection \<open>Instructions\<close>

record bpf_insn =
  bi_code :: "16 word"
  bi_jt :: byte
  bi_jf :: byte
  bi_k :: u32

datatype bpf_size = BPF_W | BPF_H | BPF_B
datatype bpf_src = BPF_K | BPF_X
datatype bpf_jump = BPF_JGT | BPF_JGE | BPF_JEQ | BPF_JSET
datatype bpf_alu = BPF_ADD | BPF_SUB | BPF_MUL | BPF_DIV | BPF_AND | BPF_OR | BPF_LSH | BPF_RSH

text \<open>One constructor for each case label of \<^verbatim>\<open>bpf_do_filter\<close>, with its code.\<close>

datatype bpf_op =
    RET_K | RET_A | RET_MATCH_IMM
  | LD_ABS bpf_size | LD_IND bpf_size | LD_W_LEN | LDX_W_LEN | LDX_MSH_B
  | LD_IMM | LDX_IMM | LD_MEM | LDX_MEM | ST | STX
  | JMP_JA | JMP bpf_jump bpf_src
  | ALU bpf_alu bpf_src | ALU_NEG
  | MISC_TAX | MISC_TXA

definition bpf_codes :: "(16 word \<times> bpf_op) list" where
  "bpf_codes =
    [(0x06, RET_K), (0x16, RET_A), (0x1e, RET_MATCH_IMM),
     (0x20, LD_ABS BPF_W), (0x28, LD_ABS BPF_H), (0x30, LD_ABS BPF_B),
     (0x80, LD_W_LEN), (0x81, LDX_W_LEN),
     (0x40, LD_IND BPF_W), (0x48, LD_IND BPF_H), (0x50, LD_IND BPF_B),
     (0xb1, LDX_MSH_B), (0x00, LD_IMM), (0x01, LDX_IMM), (0x60, LD_MEM), (0x61, LDX_MEM),
     (0x02, ST), (0x03, STX), (0x05, JMP_JA),
     (0x25, JMP BPF_JGT BPF_K), (0x35, JMP BPF_JGE BPF_K), (0x15, JMP BPF_JEQ BPF_K), (0x45, JMP BPF_JSET BPF_K),
     (0x2d, JMP BPF_JGT BPF_X), (0x3d, JMP BPF_JGE BPF_X), (0x1d, JMP BPF_JEQ BPF_X), (0x4d, JMP BPF_JSET BPF_X),
     (0x0c, ALU BPF_ADD BPF_X), (0x1c, ALU BPF_SUB BPF_X), (0x2c, ALU BPF_MUL BPF_X), (0x3c, ALU BPF_DIV BPF_X),
     (0x5c, ALU BPF_AND BPF_X), (0x4c, ALU BPF_OR BPF_X), (0x6c, ALU BPF_LSH BPF_X), (0x7c, ALU BPF_RSH BPF_X),
     (0x04, ALU BPF_ADD BPF_K), (0x14, ALU BPF_SUB BPF_K), (0x24, ALU BPF_MUL BPF_K), (0x34, ALU BPF_DIV BPF_K),
     (0x54, ALU BPF_AND BPF_K), (0x44, ALU BPF_OR BPF_K), (0x64, ALU BPF_LSH BPF_K), (0x74, ALU BPF_RSH BPF_K),
     (0x84, ALU_NEG), (0x07, MISC_TAX), (0x87, MISC_TXA)]"

definition bpf_decode :: "16 word \<Rightarrow> bpf_op option" where
  "bpf_decode code = map_of bpf_codes code"

text \<open>The first instruction, which tells a Berkeley filter from the other kind.\<close>

definition BPF_BEGIN :: "16 word" where "BPF_BEGIN = 0xfc00"

definition BPF_MISC_KEY :: "16 word" where "BPF_MISC_KEY = 0x17"

definition BPF_CLASS :: "16 word \<Rightarrow> 16 word" where "BPF_CLASS code = and code 0x07"
definition BPF_OP :: "16 word \<Rightarrow> 16 word" where "BPF_OP code = and code 0xf0"

definition BPF_MEMWORDS :: nat where "BPF_MEMWORDS = 16"
definition BPF_DLBASE :: u32 where "BPF_DLBASE = push_bit 30 1"
definition NET_RCV_MAX :: u32 where "NET_RCV_MAX = 4095"

definition NET_MAX_BPF :: nat where "NET_MAX_BPF = NET_MAX_FILTER * 2 div 8"

definition BPF_BYTES2LEN :: "nat \<Rightarrow> nat" where "BPF_BYTES2LEN n = n div 8"

subsection \<open>Messages\<close>

text \<open>The offsets of \<^verbatim>\<open>header\<close> and \<^verbatim>\<open>packet\<close> in \<^verbatim>\<open>struct net_rcv_msg\<close>, and its size.\<close>

definition header_offset :: int where "header_offset = 28"
definition packet_offset :: int where "packet_offset = 96"
definition sizeof_net_rcv_msg :: nat where "sizeof_net_rcv_msg = 4192"

definition msg_byte :: "byte list \<Rightarrow> int \<Rightarrow> byte option" where
  "msg_byte msg i = (if i < 0 then None else arr_get msg (nat i))"

text \<open>\<^verbatim>\<open>EXTRACT_SHORT\<close> and \<^verbatim>\<open>ntohl(*(long *)p)\<close>: big-endian reads.\<close>

definition extract_short :: "byte list \<Rightarrow> int \<Rightarrow> u32 option" where
  "extract_short msg i =
     do { b0 \<leftarrow> msg_byte msg i;
          b1 \<leftarrow> msg_byte msg (i + 1);
          Some (or (push_bit 8 (ucast b0)) (ucast b1)) }"

definition extract_long :: "byte list \<Rightarrow> int \<Rightarrow> u32 option" where
  "extract_long msg i =
     do { hi \<leftarrow> extract_short msg i;
          lo \<leftarrow> extract_short msg (i + 2);
          Some (or (push_bit 16 hi) lo) }"

fun sizeof_load :: "bpf_size \<Rightarrow> u32" where
  "sizeof_load BPF_W = 4"
| "sizeof_load BPF_H = 2"
| "sizeof_load BPF_B = 1"

text \<open>
  The load of the given size at \<open>base + k\<close>; a single byte is sign-extended. \<open>in_buffer\<close> is the
  bounds check of each case, which for words and shorts adds the size to \<open>k\<close> modulo \<open>2^32\<close>.
\<close>

fun load :: "bpf_size \<Rightarrow> byte list \<Rightarrow> int \<Rightarrow> u32 \<Rightarrow> u32 option" where
  "load BPF_W msg base k = extract_long msg (base + sint k)"
| "load BPF_H msg base k = extract_short msg (base + sint k)"
| "load BPF_B msg base k = map_option scast (msg_byte msg (base + sint k))"

fun in_buffer :: "bpf_size \<Rightarrow> u32 \<Rightarrow> u32 \<Rightarrow> bool" where
  "in_buffer BPF_B k buflen \<longleftrightarrow> k < buflen"
| "in_buffer sz k buflen \<longleftrightarrow> k + sizeof_load sz \<le> buflen"

subsection \<open>Sessions\<close>

record net_hash_entry =
  he_rcv_port :: ptr
  he_rcv_qlimit :: u32
  he_keys :: "u32 list"

text \<open>A chain is the list of its entries from the head on.\<close>

record net_hash_header =
  n_keys :: nat
  ref_count :: nat
  hash_table :: "net_hash_entry list list"

definition NET_HASH_SIZE :: nat where "NET_HASH_SIZE = 256"
definition N_NET_HASH_KEYS :: nat where "N_NET_HASH_KEYS = 4"

fun sum_keys :: "nat \<Rightarrow> u32 list \<Rightarrow> u32 \<Rightarrow> u32 option" where
  "sum_keys 0 ks hval = Some hval"
| "sum_keys (Suc n) [] hval = None"
| "sum_keys (Suc n) (key # ks) hval = sum_keys n ks (hval + key)"

definition bpf_hash :: "nat \<Rightarrow> u32 list \<Rightarrow> nat option" where
  "bpf_hash n ks = do { hval \<leftarrow> sum_keys n ks 0; Some (unat hval mod NET_HASH_SIZE) }"

text \<open>
  The comparison of \<open>n\<close> keys, and the search of a chain for an entry with the same keys. The result is
  the position of the entry in the chain.
\<close>

fun same_keys :: "nat \<Rightarrow> u32 list \<Rightarrow> u32 list \<Rightarrow> bool option" where
  "same_keys 0 ks ks' = Some True"
| "same_keys (Suc n) (key # ks) (key' # ks') = (if key \<noteq> key' then Some False else same_keys n ks ks')"
| "same_keys (Suc n) _ _ = None"

fun search_chain :: "nat \<Rightarrow> u32 list \<Rightarrow> net_hash_entry list \<Rightarrow> nat \<Rightarrow> nat option option" where
  "search_chain n ks [] j = Some None"
| "search_chain n ks (entp # chain) j =
     do { same \<leftarrow> same_keys n ks (he_keys entp);
          if same then Some (Some j) else search_chain n ks chain (j + 1) }"

text \<open>An entry is addressed by the number of its chain and its position there.\<close>

type_synonym hash_ref = "nat \<times> nat"

definition hash_entry :: "net_hash_header \<Rightarrow> hash_ref \<Rightarrow> net_hash_entry option" where
  "hash_entry hash entp = do { chain \<leftarrow> arr_get (hash_table hash) (fst entp); arr_get chain (snd entp) }"

definition bpf_match :: "net_hash_header \<Rightarrow> nat \<Rightarrow> u32 list \<Rightarrow> hash_ref option option" where
  "bpf_match hash n ks =
     (if n \<noteq> n_keys hash then Some None
      else
        do { h \<leftarrow> bpf_hash n ks;
             chain \<leftarrow> arr_get (hash_table hash) h;
             found \<leftarrow> search_chain n ks chain 0;
             Some (map_option (Pair h) found) })"

text \<open>The end of \<^verbatim>\<open>net_set_filter\<close>, which enters a session at the tail of its chain.\<close>

definition hash_insert :: "net_hash_entry \<Rightarrow> net_hash_header \<Rightarrow> net_hash_header option" where
  "hash_insert entp hash =
     do { h \<leftarrow> bpf_hash (n_keys hash) (he_keys entp);
          chain \<leftarrow> arr_get (hash_table hash) h;
          table \<leftarrow> arr_set (hash_table hash) h (chain @ [entp]);
          Some (hash\<lparr>hash_table := table, ref_count := ref_count hash + 1\<rparr>) }"

text \<open>
  \<^verbatim>\<open>hash_ent_remove\<close> returns whether the filter has no session left and must be taken off the list
  of filters, and the entry that it has taken out.
\<close>

definition hash_ent_remove ::
    "net_hash_header \<Rightarrow> bool \<Rightarrow> hash_ref \<Rightarrow> (bool \<times> net_hash_entry \<times> net_hash_header) option" where
  "hash_ent_remove hp used entp =
     do { let hp = hp\<lparr>ref_count := ref_count hp - 1\<rparr>;
          chain \<leftarrow> arr_get (hash_table hp) (fst entp);
          e \<leftarrow> arr_get chain (snd entp);
          table \<leftarrow> arr_set (hash_table hp) (fst entp) (take (snd entp) chain @ drop (snd entp + 1) chain);
          let hp = hp\<lparr>hash_table := table\<rparr>;
          if length chain = 1 \<and> ref_count hp = 0 \<and> \<not> used then Some (True, e, hp\<lparr>n_keys := 0\<rparr>)
          else Some (False, e, hp) }"

subsection \<open>The machine\<close>

text \<open>
  The pointer \<^verbatim>\<open>pc\<close> is an index into the program, without bounds: a jump so far that the address itself would
  wrap around, 2 GB or more away, leaves the program in the model.
\<close>

record bpf_state =
  bs_pc :: int
  bs_A :: u32
  bs_X :: u32
  bs_mem :: "u32 list"

text \<open>
  What the machine is given: the port of the filter and its hash table, the message and the length of the
  packet.
\<close>

record bpf_input =
  in_rcv_port :: ptr
  in_hash :: net_hash_header
  in_msg :: "byte list"
  in_wirelen :: u32

type_synonym bpf_result = "u32 \<times> hash_ref option"

definition ret_value :: "bpf_input \<Rightarrow> u32 \<Rightarrow> u32" where
  "ret_value i v = (if v \<le> in_wirelen i then v else in_wirelen i)"

definition operand :: "bpf_src \<Rightarrow> bpf_insn \<Rightarrow> bpf_state \<Rightarrow> u32" where
  "operand src insn st = (case src of BPF_K \<Rightarrow> bi_k insn | BPF_X \<Rightarrow> bs_X st)"

fun jump_taken :: "bpf_jump \<Rightarrow> u32 \<Rightarrow> u32 \<Rightarrow> bool" where
  "jump_taken BPF_JGT a x \<longleftrightarrow> a > x"
| "jump_taken BPF_JGE a x \<longleftrightarrow> a \<ge> x"
| "jump_taken BPF_JEQ a x \<longleftrightarrow> a = x"
| "jump_taken BPF_JSET a x \<longleftrightarrow> and a x \<noteq> 0"

fun alu :: "bpf_alu \<Rightarrow> u32 \<Rightarrow> u32 \<Rightarrow> u32" where
  "alu BPF_ADD a x = a + x"
| "alu BPF_SUB a x = a - x"
| "alu BPF_MUL a x = a * x"
| "alu BPF_DIV a x = a div x"
| "alu BPF_AND a x = and a x"
| "alu BPF_OR a x = or a x"
| "alu BPF_LSH a x = push_bit (unat x mod 32) a"
| "alu BPF_RSH a x = drop_bit (unat x mod 32) a"

definition mem_index :: "u32 \<Rightarrow> nat option" where
  "mem_index k = (if sint k < 0 then None else Some (nat (sint k)))"

text \<open>
  One instruction: \<open>Inl\<close> the result if the function returns, and otherwise the state from which
  the loop goes on, with the increment of \<^verbatim>\<open>pc\<close> still to come.
\<close>

fun bpf_step :: "bpf_input \<Rightarrow> bpf_op option \<Rightarrow> bpf_insn \<Rightarrow> bpf_state \<Rightarrow> (bpf_result + bpf_state) option" where
  "bpf_step i None insn st = Some (Inl (0, None))"
| "bpf_step i (Some RET_K) insn st =
     Some (Inl (if in_rcv_port i = 0 then 0 else ret_value i (bi_k insn), None))"
| "bpf_step i (Some RET_A) insn st =
     Some (Inl (if in_rcv_port i = 0 then 0 else ret_value i (bs_A st), None))"
| "bpf_step i (Some RET_MATCH_IMM) insn st =
     do { m \<leftarrow> bpf_match (in_hash i) (unat (bi_jt insn)) (bs_mem st);
          case m of
            Some entp \<Rightarrow> Some (Inl (ret_value i (bi_k insn), Some entp))
          | None \<Rightarrow> Some (Inl (0, None)) }"
| "bpf_step i (Some (LD_ABS sz)) insn st =
     (let k = bi_k insn in
      if in_buffer sz k NET_RCV_MAX then
        do { a \<leftarrow> load sz (in_msg i) packet_offset k; Some (Inr (st\<lparr>bs_A := a\<rparr>)) }
      else
        let k = k - BPF_DLBASE in
        if in_buffer sz k (of_nat NET_HDW_HDR_MAX) then
          do { a \<leftarrow> load sz (in_msg i) header_offset k; Some (Inr (st\<lparr>bs_A := a\<rparr>)) }
        else Some (Inl (0, None)))"
| "bpf_step i (Some LD_W_LEN) insn st = Some (Inr (st\<lparr>bs_A := in_wirelen i\<rparr>))"
| "bpf_step i (Some LDX_W_LEN) insn st = Some (Inr (st\<lparr>bs_X := in_wirelen i\<rparr>))"
| "bpf_step i (Some (LD_IND sz)) insn st =
     (let k = bs_X st + bi_k insn in
      if in_buffer sz k NET_RCV_MAX then
        do { a \<leftarrow> load sz (in_msg i) packet_offset k; Some (Inr (st\<lparr>bs_A := a\<rparr>)) }
      else Some (Inl (0, None)))"
| "bpf_step i (Some LDX_MSH_B) insn st =
     (let k = bi_k insn in
      if k \<ge> NET_RCV_MAX then Some (Inl (0, None))
      else
        do { b \<leftarrow> load BPF_B (in_msg i) packet_offset k;
             Some (Inr (st\<lparr>bs_X := push_bit 2 (and b 0xf)\<rparr>)) })"
| "bpf_step i (Some LD_IMM) insn st = Some (Inr (st\<lparr>bs_A := bi_k insn\<rparr>))"
| "bpf_step i (Some LDX_IMM) insn st = Some (Inr (st\<lparr>bs_X := bi_k insn\<rparr>))"
| "bpf_step i (Some LD_MEM) insn st =
     do { j \<leftarrow> mem_index (bi_k insn); a \<leftarrow> arr_get (bs_mem st) j; Some (Inr (st\<lparr>bs_A := a\<rparr>)) }"
| "bpf_step i (Some LDX_MEM) insn st =
     do { j \<leftarrow> mem_index (bi_k insn); x \<leftarrow> arr_get (bs_mem st) j; Some (Inr (st\<lparr>bs_X := x\<rparr>)) }"
| "bpf_step i (Some ST) insn st =
     do { j \<leftarrow> mem_index (bi_k insn); mem \<leftarrow> arr_set (bs_mem st) j (bs_A st); Some (Inr (st\<lparr>bs_mem := mem\<rparr>)) }"
| "bpf_step i (Some STX) insn st =
     do { j \<leftarrow> mem_index (bi_k insn); mem \<leftarrow> arr_set (bs_mem st) j (bs_X st); Some (Inr (st\<lparr>bs_mem := mem\<rparr>)) }"
| "bpf_step i (Some JMP_JA) insn st = Some (Inr (st\<lparr>bs_pc := bs_pc st + sint (bi_k insn)\<rparr>))"
| "bpf_step i (Some (JMP j src)) insn st =
     Some (Inr (st\<lparr>bs_pc := bs_pc st +
       int (unat (if jump_taken j (bs_A st) (operand src insn st) then bi_jt insn else bi_jf insn))\<rparr>))"
| "bpf_step i (Some (ALU op src)) insn st =
     (let x = operand src insn st in
      if op = BPF_DIV \<and> x = 0 then (case src of BPF_X \<Rightarrow> Some (Inl (0, None)) | BPF_K \<Rightarrow> None)
      else Some (Inr (st\<lparr>bs_A := alu op (bs_A st) x\<rparr>)))"
| "bpf_step i (Some ALU_NEG) insn st = Some (Inr (st\<lparr>bs_A := - bs_A st\<rparr>))"
| "bpf_step i (Some MISC_TAX) insn st = Some (Inr (st\<lparr>bs_X := bs_A st\<rparr>))"
| "bpf_step i (Some MISC_TXA) insn st = Some (Inr (st\<lparr>bs_A := bs_X st\<rparr>))"

definition insn_at :: "bpf_insn list \<Rightarrow> int \<Rightarrow> bpf_insn option" where
  "insn_at f pc = (if pc < 0 then None else arr_get f (nat pc))"

partial_function (option) bpf_loop ::
    "bpf_input \<Rightarrow> bpf_insn list \<Rightarrow> nat \<Rightarrow> bpf_state \<Rightarrow> bpf_result option" where
  "bpf_loop i f bytes st =
     (if 8 * bs_pc st < int bytes then
        do { insn \<leftarrow> insn_at f (bs_pc st);
             r \<leftarrow> bpf_step i (bpf_decode (bi_code insn)) insn st;
             case r of
               Inl result \<Rightarrow> Some result
             | Inr st \<Rightarrow> bpf_loop i f bytes (st\<lparr>bs_pc := bs_pc st + 1\<rparr>) }
      else Some (0, None))"

text \<open>\<open>a\<close>, \<open>x\<close> and \<open>mem\<close> are the uninitialised registers and scratch memory.\<close>

definition bpf_do_filter ::
    "bpf_input \<Rightarrow> bpf_insn list \<Rightarrow> nat \<Rightarrow> u32 \<Rightarrow> u32 \<Rightarrow> u32 list \<Rightarrow> bpf_result option" where
  "bpf_do_filter i f bytes a x mem =
     bpf_loop i f bytes \<lparr>bs_pc = 1, bs_A = a, bs_X = x, bs_mem = mem\<rparr>"

subsection \<open>The check\<close>

text \<open>
  The tests on the instruction at \<open>i\<close>, apart from the match instruction. The sum \<^verbatim>\<open>from + p->k\<close> is a
  32-bit integer.
\<close>

definition insn_checked :: "nat \<Rightarrow> nat \<Rightarrow> bpf_insn \<Rightarrow> bool" where
  "insn_checked len i p \<longleftrightarrow>
     (BPF_CLASS (bi_code p) = 0x05 \<longrightarrow>
        (if BPF_OP (bi_code p) = 0x00 then sint (of_nat (i + 1) + bi_k p) < int len
         else i + 1 + unat (bi_jt p) < len \<and> i + 1 + unat (bi_jf p) < len)) \<and>
     (BPF_CLASS (bi_code p) = 0x02 \<or> BPF_CLASS (bi_code p) = 0x00 \<and> and (bi_code p) 0xe0 = 0x60 \<longrightarrow>
        0 \<le> sint (bi_k p) \<and> sint (bi_k p) < int BPF_MEMWORDS) \<and>
     (bi_code p = 0x34 \<longrightarrow> bi_k p \<noteq> 0)"

text \<open>
  The loop. The result is \<open>None\<close> for an access outside the program, \<open>Some (Inl ())\<close> if the function
  returns 0, and otherwise the index of the match instruction, if there is one.
\<close>

function validate_loop :: "bpf_insn list \<Rightarrow> nat \<Rightarrow> nat \<Rightarrow> nat option \<Rightarrow> (unit + nat option) option" where
  "validate_loop f len i match =
     (if i < len then
        do { p \<leftarrow> arr_get f i;
             if \<not> insn_checked len i p then Some (Inl ())
             else if bi_code p = 0x1e then
               (let n = unat (bi_jt p) in
                if match \<noteq> None \<or> n = 0 \<or> n > N_NET_HASH_KEYS then Some (Inl ())
                else if i + n + 1 > len then Some (Inl ())
                else
                  do { ks \<leftarrow> those (map (\<lambda>j. arr_get f (i + j)) [1..<n + 1]);
                       if list_all (\<lambda>q. bi_code q = BPF_MISC_KEY) ks
                       then validate_loop f len (i + n + 1) (Some i)
                       else Some (Inl ()) })
             else validate_loop f len (i + 1) match }
      else Some (Inr match))"
  by pat_completeness auto
termination by (relation "measure (\<lambda>(f, len, i, match). len - i)") auto

declare validate_loop.simps [simp del]

definition bpf_validate :: "bpf_insn list \<Rightarrow> nat \<Rightarrow> (nat \<times> nat option) option" where
  "bpf_validate f bytes =
     do { let len = BPF_BYTES2LEN bytes;
          r \<leftarrow> validate_loop f len 1 None;
          case r of
            Inl _ \<Rightarrow> Some (0, None)
          | Inr match \<Rightarrow>
              do { assert_that (0 < len);
                   p \<leftarrow> arr_get f (len - 1);
                   Some (if BPF_CLASS (bi_code p) = 0x06 then (if match = None then 1 else 2) else 0, match) } }"

subsection \<open>Equality of filters\<close>

definition BPF_INSN_EQ :: "bpf_insn \<Rightarrow> bpf_insn \<Rightarrow> bool" where
  "BPF_INSN_EQ p q \<longleftrightarrow>
     bi_code p = bi_code q \<and> bi_jt p = bi_jt q \<and> bi_jf p = bi_jf q \<and> bi_k p = bi_k q"

fun bpf_eq_loop :: "nat \<Rightarrow> bpf_insn list \<Rightarrow> bpf_insn list \<Rightarrow> bool option" where
  "bpf_eq_loop 0 f1 f2 = Some True"
| "bpf_eq_loop (Suc n) (p # f1) (q # f2) =
     (if \<not> BPF_INSN_EQ p q \<and> \<not> (bi_code p = BPF_MISC_KEY \<and> bi_code q = BPF_MISC_KEY) then Some False
      else bpf_eq_loop n f1 f2)"
| "bpf_eq_loop (Suc n) _ _ = None"

definition bpf_eq :: "bpf_insn list \<Rightarrow> bpf_insn list \<Rightarrow> nat \<Rightarrow> bool option" where
  "bpf_eq f1 f2 bytes = bpf_eq_loop (BPF_BYTES2LEN bytes) f1 f2"

end
