(* ===== verification/Bpf_Props.thy ===== *)
theory Bpf_Props
  imports Bpf
begin

text \<open>
  What the check of the Berkeley filters guarantees: safety and termination of accepted programs
  under the conditions \<open>insn_strict\<close> that the check should also test, and programs that show that it
  must. The chains of a hash table are compared with the list of the sessions entered.
\<close>

subsection \<open>What the codes say\<close>

text \<open>The facts about a code that the check relies on, for every code of the machine.\<close>

fun code_fact :: "16 word \<Rightarrow> bpf_op \<Rightarrow> bool" where
  "code_fact c (JMP j src) \<longleftrightarrow> BPF_CLASS c = 0x05 \<and> BPF_OP c \<noteq> 0x00"
| "code_fact c JMP_JA \<longleftrightarrow> c = 0x05"
| "code_fact c ST \<longleftrightarrow> BPF_CLASS c = 0x02"
| "code_fact c STX \<longleftrightarrow> c = 0x03"
| "code_fact c LD_MEM \<longleftrightarrow> BPF_CLASS c = 0x00 \<and> and c 0xe0 = 0x60"
| "code_fact c LDX_MEM \<longleftrightarrow> c = 0x61"
| "code_fact c (ALU op src) \<longleftrightarrow> (op = BPF_DIV \<and> src = BPF_K \<longrightarrow> c = 0x34)"
| "code_fact c RET_MATCH_IMM \<longleftrightarrow> c = 0x1e"
| "code_fact c _ \<longleftrightarrow> True"

definition returns_op :: "bpf_op \<Rightarrow> bool" where
  "returns_op op \<longleftrightarrow> op \<in> {RET_K, RET_A, RET_MATCH_IMM}"

lemma decode_fact:
  assumes "bpf_decode c = Some op"
  shows "code_fact c op" and "BPF_CLASS c = 0x06 \<Longrightarrow> returns_op op"
proof -
  have "list_all (\<lambda>(c, op). code_fact c op \<and> (BPF_CLASS c = 0x06 \<longrightarrow> returns_op op)) bpf_codes"
    by (simp add: bpf_codes_def BPF_CLASS_def BPF_OP_def returns_op_def)
  moreover have "(c, op) \<in> set bpf_codes" using assms by (simp add: bpf_decode_def map_of_SomeD)
  ultimately show "code_fact c op" and "BPF_CLASS c = 0x06 \<Longrightarrow> returns_op op"
    by (auto simp: list_all_iff)
qed

lemma key_returns: "bpf_decode BPF_MISC_KEY = None"
  by (simp add: bpf_decode_def bpf_codes_def BPF_MISC_KEY_def)

subsection \<open>Loads stay in the message\<close>

lemma sint_sub:
  fixes k :: u32
  assumes "unat (k + of_nat s) \<le> n" and "n \<le> 4095" and "s \<le> 4"
  obtains m where "m \<le> n" and "sint k = int m - int s" and "unat (k + of_nat s) = m"
proof -
  define m where "m = unat (k + of_nat s)"
  have "k + of_nat s = of_nat m" by (simp add: m_def)
  then have "k = word_of_int (int m - int s)" by (simp add: of_int_diff eq_diff_eq)
  then have "sint k = signed_take_bit 31 (int m - int s)" by (simp only: signed_of_int) simp
  also have "\<dots> = int m - int s"
    using assms(1) [folded m_def] assms(2,3) by (intro signed_take_bit_int_eq_self) auto
  finally show ?thesis using assms(1) by (intro that [of m]) (simp_all add: m_def)
qed

lemma extract_short_in: "0 \<le> i \<Longrightarrow> i + 1 < int (length msg) \<Longrightarrow> \<exists>x. extract_short msg i = Some x"
  by (auto simp: extract_short_def msg_byte_def arr_get_def nat_less_iff)

lemma extract_long_in: "0 \<le> i \<Longrightarrow> i + 3 < int (length msg) \<Longrightarrow> \<exists>x. extract_long msg i = Some x"
  using extract_short_in [of i msg] extract_short_in [of "i + 2" msg] by (auto simp: extract_long_def)

lemma load_in:
  assumes "in_buffer sz k n" and "unat n = N" and "N \<le> 4095" and "4 \<le> base" and "base + int N \<le> int (length msg)"
  shows "\<exists>a. load sz msg base k = Some a"
proof (cases sz)
  case BPF_W
  have "unat (k + of_nat 4) \<le> N" using assms(1,2) BPF_W by (simp add: word_le_nat_alt)
  then obtain m where "m \<le> N" "sint k = int m - int 4" using assms(3) by (rule sint_sub) simp
  then show ?thesis using BPF_W assms(4,5) extract_long_in [of "base + sint k" msg] by simp
next
  case BPF_H
  have "unat (k + of_nat 2) \<le> N" using assms(1,2) BPF_H by (simp add: word_le_nat_alt)
  then obtain m where "m \<le> N" "sint k = int m - int 2" using assms(3) by (rule sint_sub) simp
  then show ?thesis using BPF_H assms(4,5) extract_short_in [of "base + sint k" msg] by simp
next
  case BPF_B
  have less: "unat k < N" using assms(1,2) BPF_B by (simp add: word_less_nat_alt)
  then have "unat (k + of_nat 0) \<le> N" by simp
  then obtain m where "sint k = int m - int 0" "unat (k + of_nat 0) = m" using assms(3) by (rule sint_sub) simp
  then have "0 \<le> base + sint k" "base + sint k < int (length msg)" using less assms(4,5) by simp_all
  then show ?thesis using BPF_B by (simp add: msg_byte_def arr_get_def nat_less_iff)
qed

subsection \<open>The hash tables\<close>

definition hash_shape :: "net_hash_header \<Rightarrow> bool" where
  "hash_shape hash \<longleftrightarrow>
     n_keys hash \<le> N_NET_HASH_KEYS \<and> length (hash_table hash) = NET_HASH_SIZE \<and>
     list_all (list_all (\<lambda>entp. length (he_keys entp) = N_NET_HASH_KEYS)) (hash_table hash)"

lemma sum_keys_in: "n \<le> length ks \<Longrightarrow> sum_keys n ks hval = Some (hval + sum_list (take n ks))"
  by (induction n ks hval rule: sum_keys.induct) (auto simp: ac_simps)

lemma bpf_hash_in:
  "n \<le> length ks \<Longrightarrow> bpf_hash n ks = Some (unat (sum_list (take n ks)) mod NET_HASH_SIZE)"
  by (simp add: bpf_hash_def sum_keys_in)

lemma same_keys_in:
  "n \<le> length ks \<Longrightarrow> n \<le> length ks' \<Longrightarrow> same_keys n ks ks' = Some (take n ks = take n ks')"
  by (induction n ks ks' rule: same_keys.induct) auto

lemma search_chain_in:
  assumes "n \<le> length ks" and "list_all (\<lambda>entp. n \<le> length (he_keys entp)) chain"
  shows "\<exists>r. search_chain n ks chain j = Some r \<and>
    map_option (\<lambda>l. chain ! (l - j)) r = List.find (\<lambda>entp. take n (he_keys entp) = take n ks) chain \<and>
    (\<forall>l. r = Some l \<longrightarrow> j \<le> l \<and> l < j + length chain)"
  using assms(2)
proof (induction chain arbitrary: j)
  case (Cons entp chain)
  have same: "same_keys n ks (he_keys entp) = Some (take n ks = take n (he_keys entp))"
    using Cons.prems assms(1) by (simp add: same_keys_in)
  show ?case
  proof (cases "take n (he_keys entp) = take n ks")
    case True
    then show ?thesis using same by simp
  next
    case False
    obtain r where r: "search_chain n ks chain (j + 1) = Some r"
      "map_option (\<lambda>l. chain ! (l - (j + 1))) r = List.find (\<lambda>entp. take n (he_keys entp) = take n ks) chain"
      "\<forall>l. r = Some l \<longrightarrow> j + 1 \<le> l \<and> l < j + 1 + length chain"
      using Cons.IH [of "j + 1"] Cons.prems by auto
    then show ?thesis using same False by (cases r) (auto simp: nth_Cons')
  qed
qed simp

lemma bpf_match_in:
  assumes "hash_shape hash" and "N_NET_HASH_KEYS \<le> length ks"
  shows "\<exists>m. bpf_match hash n ks = Some m"
proof (cases "n = n_keys hash")
  case True
  have n: "n \<le> length ks" using assms True by (simp add: hash_shape_def)
  let ?h = "unat (sum_list (take n ks)) mod NET_HASH_SIZE"
  have h: "?h < length (hash_table hash)" using assms(1) by (simp add: hash_shape_def NET_HASH_SIZE_def)
  have "list_all (\<lambda>entp. n \<le> length (he_keys entp)) (hash_table hash ! ?h)"
    using assms(1) True nth_mem [OF h] by (auto simp: hash_shape_def list_all_iff)
  from search_chain_in [OF n this, of 0] show ?thesis
    using True h n by (auto simp: bpf_match_def bpf_hash_in)
qed (simp add: bpf_match_def)

subsection \<open>Checked programs\<close>

text \<open>
  What \<^verbatim>\<open>bpf_validate\<close> does not test: that unconditional jumps go forward, and that the
  index register is loaded from and stored to addresses inside the scratch memory.
\<close>

definition insn_strict :: "bpf_insn \<Rightarrow> bool" where
  "insn_strict p \<longleftrightarrow>
     (bi_code p = 0x05 \<longrightarrow> 0 \<le> sint (bi_k p) \<and> sint (bi_k p) < 2 ^ 30) \<and>
     (bi_code p = 0x03 \<or> bi_code p = 0x61 \<longrightarrow> 0 \<le> sint (bi_k p) \<and> sint (bi_k p) < int BPF_MEMWORDS)"

lemma those_Some: "those xs = Some ys \<Longrightarrow> length ys = length xs \<and> (\<forall>i < length xs. xs ! i = Some (ys ! i))"
proof (induction xs arbitrary: ys)
  case (Cons x xs)
  then show ?case by (cases x; cases "those xs") (auto simp: nth_Cons split: nat.splits)
qed simp

lemma validate_loop_sound:
  assumes "validate_loop f len i m = Some (Inr m')" and "i \<le> j" and "j < len"
  shows "j < length f \<and> (insn_checked len j (f ! j) \<or> bi_code (f ! j) = BPF_MISC_KEY)"
  using assms
proof (induction "len - i" arbitrary: i m rule: less_induct)
  case less
  then have i: "i < len" by simp
  obtain p where p: "i < length f" "f ! i = p" "insn_checked len i p"
    using less.prems(1) i by (subst (asm) validate_loop.simps) (auto split: bind_splits if_splits)
  show ?case
  proof (cases "bi_code p = 0x1e")
    case False
    then have rest: "validate_loop f len (i + 1) m = Some (Inr m')"
      using less.prems(1) i p by (subst (asm) validate_loop.simps) simp
    show ?thesis
    proof (cases "j = i")
      case True
      then show ?thesis using p by simp
    next
      case False
      then show ?thesis using less.hyps [OF _ rest] less.prems i by simp
    qed
  next
    case True
    let ?n = "unat (bi_jt p)"
    obtain ks where ks: "those (map (\<lambda>j. arr_get f (i + j)) [1..<?n + 1]) = Some ks"
      "list_all (\<lambda>q. bi_code q = BPF_MISC_KEY) ks"
      and rest: "validate_loop f len (i + ?n + 1) (Some i) = Some (Inr m')"
      using less.prems(1) i p True
      by (subst (asm) validate_loop.simps) (auto simp: Let_def split: bind_splits if_splits)
    have keys: "i + d < length f \<and> bi_code (f ! (i + d)) = BPF_MISC_KEY" if "0 < d" "d \<le> ?n" for d
    proof -
      have "d - 1 < length [1..<?n + 1]" "[1..<?n + 1] ! (d - 1) = d" using that by (auto simp del: upt_Suc)
      then have "arr_get f (i + d) = Some (ks ! (d - 1))" "d - 1 < length ks"
        using those_Some [OF ks(1)] by (auto simp del: upt_Suc)
      then show ?thesis using ks(2) by (auto simp: list_all_iff)
    qed
    consider "j = i" | "i < j" "j \<le> i + ?n" | "i + ?n + 1 \<le> j" using less.prems(2) by linarith
    then show ?thesis
    proof cases
      case 1
      then show ?thesis using p by simp
    next
      case 2
      then show ?thesis using keys [of "j - i"] by simp
    next
      case 3
      then show ?thesis using less.hyps [OF _ rest] less.prems(3) i by simp
    qed
  qed
qed

subsection \<open>Steps and runs of checked programs\<close>

definition input_ok :: "bpf_input \<Rightarrow> bool" where
  "input_ok i \<longleftrightarrow> length (in_msg i) = sizeof_net_rcv_msg \<and> hash_shape (in_hash i)"

definition step_ok :: "bpf_input \<Rightarrow> nat \<Rightarrow> int \<Rightarrow> (bpf_result + bpf_state) option \<Rightarrow> bool" where
  "step_ok i len pc r \<longleftrightarrow>
     (case r of
        None \<Rightarrow> False
      | Some (Inl result) \<Rightarrow> fst result \<le> in_wirelen i
      | Some (Inr st) \<Rightarrow> pc \<le> bs_pc st \<and> bs_pc st + 1 < int len \<and> length (bs_mem st) = BPF_MEMWORDS)"

lemma ret_value_le [simp]: "ret_value i v \<le> in_wirelen i"
  by (simp add: ret_value_def)

lemma load_packet:
  assumes "input_ok i" and "in_buffer sz k NET_RCV_MAX"
  shows "\<exists>a. load sz (in_msg i) packet_offset k = Some a"
proof -
  have "unat NET_RCV_MAX = 4095" by (simp add: NET_RCV_MAX_def)
  from load_in [OF assms(2) this] assms(1) show ?thesis
    by (simp add: input_ok_def packet_offset_def sizeof_net_rcv_msg_def)
qed

lemma load_header:
  assumes "input_ok i" and "in_buffer sz k (of_nat NET_HDW_HDR_MAX)"
  shows "\<exists>a. load sz (in_msg i) header_offset k = Some a"
proof -
  have "unat (of_nat NET_HDW_HDR_MAX :: u32) = 64" by (simp add: NET_HDW_HDR_MAX_def)
  from load_in [OF assms(2) this] assms(1) show ?thesis
    by (simp add: input_ok_def header_offset_def sizeof_net_rcv_msg_def)
qed

lemma mem_index_in:
  assumes "0 \<le> sint k" and "sint k < int BPF_MEMWORDS"
  shows "\<exists>j. mem_index k = Some j \<and> j < BPF_MEMWORDS"
  using assms by (auto simp: mem_index_def nat_less_iff)

lemma jump_forward:
  fixes k :: u32
  assumes "sint (of_nat (n + 1) + k) < int len" and "0 \<le> sint k" and "sint k < 2 ^ 30" and "n < 2 ^ 30"
  shows "int n + 1 + sint k < int len"
proof -
  have "of_nat (n + 1) + k = word_of_int (int n + 1 + sint k)" by simp
  then have "sint (of_nat (n + 1) + k) = signed_take_bit 31 (int n + 1 + sint k)" by (simp only: signed_of_int) simp
  also have "\<dots> = int n + 1 + sint k" using assms(2-4) by (intro signed_take_bit_int_eq_self) auto
  finally show ?thesis using assms(1) by simp
qed

text \<open>Instructions that only compute, load or store go on with the next one.\<close>

lemma bpf_step_ok:
  assumes "input_ok i" and "insn_checked len n p" and "insn_strict p" and "bs_pc st = int n"
    and "length (bs_mem st) = BPF_MEMWORDS" and "n < 2 ^ 30" and "n < len"
    and "n + 1 = len \<Longrightarrow> BPF_CLASS (bi_code p) = 0x06"
  shows "step_ok i len (int n) (bpf_step i (bpf_decode (bi_code p)) p st)"
proof (cases "bpf_decode (bi_code p)")
  case None
  then show ?thesis by (simp add: step_ok_def)
next
  case (Some op)
  note fact = decode_fact [OF Some]
  have more: "returns_op op \<or> n + 1 < len" using fact(2) assms(7,8) by linarith
  show ?thesis
  proof (cases op)
    case RET_MATCH_IMM
    have "N_NET_HASH_KEYS \<le> length (bs_mem st)" using assms(5) by (simp add: N_NET_HASH_KEYS_def BPF_MEMWORDS_def)
    then obtain m where "bpf_match (in_hash i) (unat (bi_jt p)) (bs_mem st) = Some m"
      using bpf_match_in [of "in_hash i" "bs_mem st"] assms(1) by (auto simp: input_ok_def)
    then show ?thesis using Some RET_MATCH_IMM by (cases m) (simp_all add: step_ok_def)
  next
    case (LD_ABS sz)
    then show ?thesis
      using Some more assms(4,5) load_packet [OF assms(1), of sz "bi_k p"]
        load_header [OF assms(1), of sz "bi_k p - BPF_DLBASE"]
      by (auto simp: step_ok_def Let_def returns_op_def)
  next
    case (LD_IND sz)
    then show ?thesis
      using Some more assms(4,5) load_packet [OF assms(1), of sz "bs_X st + bi_k p"]
      by (auto simp: step_ok_def Let_def returns_op_def)
  next
    case LDX_MSH_B
    then show ?thesis
      using Some more assms(4,5) load_packet [OF assms(1), of BPF_B "bi_k p"]
      by (auto simp: step_ok_def Let_def returns_op_def not_le)
  next
    case LD_MEM
    then have "0 \<le> sint (bi_k p)" "sint (bi_k p) < int BPF_MEMWORDS"
      using fact(1) assms(2) by (auto simp: insn_checked_def)
    from mem_index_in [OF this] LD_MEM Some more assms(4,5) show ?thesis by (auto simp: step_ok_def returns_op_def)
  next
    case LDX_MEM
    then have "0 \<le> sint (bi_k p)" "sint (bi_k p) < int BPF_MEMWORDS"
      using fact(1) assms(3) by (auto simp: insn_strict_def)
    from mem_index_in [OF this] LDX_MEM Some more assms(4,5) show ?thesis by (auto simp: step_ok_def returns_op_def)
  next
    case ST
    then have "0 \<le> sint (bi_k p)" "sint (bi_k p) < int BPF_MEMWORDS"
      using fact(1) assms(2) by (auto simp: insn_checked_def)
    from mem_index_in [OF this] ST Some more assms(4,5) show ?thesis by (auto simp: step_ok_def returns_op_def)
  next
    case STX
    then have "0 \<le> sint (bi_k p)" "sint (bi_k p) < int BPF_MEMWORDS"
      using fact(1) assms(3) by (auto simp: insn_strict_def)
    from mem_index_in [OF this] STX Some more assms(4,5) show ?thesis by (auto simp: step_ok_def returns_op_def)
  next
    case JMP_JA
    then have code: "bi_code p = 0x05" using fact(1) by simp
    then have k: "0 \<le> sint (bi_k p)" "sint (bi_k p) < 2 ^ 30" using assms(3) by (auto simp: insn_strict_def)
    have "sint (of_nat (n + 1) + bi_k p) < int len"
      using assms(2) code by (simp add: insn_checked_def BPF_CLASS_def BPF_OP_def)
    from jump_forward [OF this k assms(6)] JMP_JA Some assms(4,5) k show ?thesis by (simp add: step_ok_def)
  next
    case (JMP j src)
    then have "n + 1 + unat (bi_jt p) < len" "n + 1 + unat (bi_jf p) < len"
      using fact(1) assms(2) by (auto simp: insn_checked_def)
    then have "int (n + 1 + unat (bi_jt p)) < int len" "int (n + 1 + unat (bi_jf p)) < int len"
      by (simp_all only: of_nat_less_iff)
    then show ?thesis using JMP Some assms(4,5) by (auto simp: step_ok_def)
  next
    case (ALU alu src)
    then have "alu = BPF_DIV \<and> src = BPF_K \<longrightarrow> bi_k p \<noteq> 0" using fact(1) assms(2) by (auto simp: insn_checked_def)
    then show ?thesis
      using ALU Some more assms(4,5)
      by (auto simp: step_ok_def Let_def operand_def returns_op_def split: bpf_src.splits)
  qed (use Some more assms(4,5) in \<open>auto simp: step_ok_def returns_op_def\<close>)
qed

lemma bpf_loop_ok:
  assumes "input_ok i" and "len = bytes div 8" and "len < 2 ^ 30"
    and check: "\<And>j. 1 \<le> j \<Longrightarrow> j < len \<Longrightarrow> j < length f \<and>
      (insn_checked len j (f ! j) \<or> bi_code (f ! j) = BPF_MISC_KEY)"
    and strict: "list_all insn_strict f" and last: "BPF_CLASS (bi_code (f ! (len - 1))) = 0x06"
    and "bs_pc st = int n" and "1 \<le> n" and "n < len" and "length (bs_mem st) = BPF_MEMWORDS"
  shows "\<exists>r. bpf_loop i f bytes st = Some r \<and> fst r \<le> in_wirelen i"
  using assms(7-10)
proof (induction "len - n" arbitrary: n st rule: less_induct)
  case less
  let ?p = "f ! n"
  have n: "n < length f" and ck: "insn_checked len n ?p \<or> bi_code ?p = BPF_MISC_KEY"
    using check [of n] less.prems by auto
  have in_use: "8 * int n < int bytes" using less.prems(3) assms(2) by linarith
  have run: "bpf_loop i f bytes st =
    do { r \<leftarrow> bpf_step i (bpf_decode (bi_code ?p)) ?p st;
         case r of Inl result \<Rightarrow> Some result | Inr st \<Rightarrow> bpf_loop i f bytes (st\<lparr>bs_pc := bs_pc st + 1\<rparr>) }"
    using less.prems(1) in_use n by (subst bpf_loop.simps) (simp add: insn_at_def)
  have "step_ok i len (int n) (bpf_step i (bpf_decode (bi_code ?p)) ?p st)"
  proof (cases "bi_code ?p = BPF_MISC_KEY")
    case True
    then show ?thesis by (simp add: key_returns step_ok_def)
  next
    case False
    have "insn_strict ?p" using strict n by (simp add: list_all_length)
    moreover have "n + 1 = len \<Longrightarrow> BPF_CLASS (bi_code ?p) = 0x06" using last by auto
    ultimately show ?thesis using bpf_step_ok assms(1,3) ck False less.prems by simp
  qed
  then consider r where "bpf_step i (bpf_decode (bi_code ?p)) ?p st = Some (Inl r)" "fst r \<le> in_wirelen i"
    | st' where "bpf_step i (bpf_decode (bi_code ?p)) ?p st = Some (Inr st')" "int n \<le> bs_pc st'"
        "bs_pc st' + 1 < int len" "length (bs_mem st') = BPF_MEMWORDS"
    by (auto simp: step_ok_def split: option.splits sum.splits)
  then show ?case
  proof cases
    case 1
    then show ?thesis using run by simp
  next
    case 2
    let ?m = "nat (bs_pc st' + 1)"
    have "len - ?m < len - n" "1 \<le> ?m" "?m < len" using 2(2,3) less.prems(3) by auto
    then show ?thesis using less.hyps [of ?m "st'\<lparr>bs_pc := bs_pc st' + 1\<rparr>"] run 2 by simp
  qed
qed

lemma find_filter:
  "(\<And>x. P x \<Longrightarrow> Q x) \<Longrightarrow> List.find P (List.filter Q xs) = List.find P xs"
  by (induction xs) auto

fun hash_inserts :: "net_hash_entry list \<Rightarrow> net_hash_header \<Rightarrow> net_hash_header option" where
  "hash_inserts [] hash = Some hash"
| "hash_inserts (entp # es) hash = do { hash \<leftarrow> hash_insert entp hash; hash_inserts es hash }"

definition empty_hash :: "nat \<Rightarrow> net_hash_header" where
  "empty_hash n = \<lparr>n_keys = n, ref_count = 0, hash_table = replicate NET_HASH_SIZE []\<rparr>"

definition key_hash :: "nat \<Rightarrow> u32 list \<Rightarrow> nat" where
  "key_hash n ks = unat (sum_list (take n ks)) mod NET_HASH_SIZE"

lemma key_hash_less: "key_hash n ks < NET_HASH_SIZE"
  by (simp add: key_hash_def NET_HASH_SIZE_def)

text \<open>The table after the sessions \<open>es\<close> have been entered in this order.\<close>

definition holds_sessions :: "nat \<Rightarrow> net_hash_entry list \<Rightarrow> net_hash_header \<Rightarrow> bool" where
  "holds_sessions n es hash \<longleftrightarrow>
     n_keys hash = n \<and> ref_count hash = length es \<and> length (hash_table hash) = NET_HASH_SIZE \<and>
     (\<forall>h < NET_HASH_SIZE. hash_table hash ! h = List.filter (\<lambda>entp. key_hash n (he_keys entp) = h) es)"

lemma hash_insert_holds:
  assumes "holds_sessions n es hash" and "n \<le> length (he_keys entp)"
  shows "\<exists>hash'. hash_insert entp hash = Some hash' \<and> holds_sessions n (es @ [entp]) hash'"
proof -
  have "bpf_hash n (he_keys entp) = Some (key_hash n (he_keys entp))"
    using assms(2) by (simp add: bpf_hash_in key_hash_def)
  then show ?thesis
    using assms(1) key_hash_less [of n "he_keys entp"]
    by (auto simp: hash_insert_def holds_sessions_def nth_list_update_if)
qed

lemma hash_inserts_hold:
  assumes "holds_sessions n es hash" and "\<forall>entp \<in> set es'. n \<le> length (he_keys entp)"
  shows "\<exists>hash'. hash_inserts es' hash = Some hash' \<and> holds_sessions n (es @ es') hash'"
  using assms
proof (induction es' arbitrary: es hash)
  case (Cons entp es')
  obtain hash1 where h: "hash_insert entp hash = Some hash1" "holds_sessions n (es @ [entp]) hash1"
    using hash_insert_holds [OF Cons.prems(1)] Cons.prems(2) by auto
  from Cons.IH [OF h(2)] Cons.prems(2) h(1) show ?case by auto
qed simp

subsection \<open>Properties\<close>

text \<open>
  C10. A program that \<^verbatim>\<open>bpf_validate\<close> accepts, whose unconditional jumps go forward and which uses
  the index register only with scratch memory addresses 0 to 15, terminates on every packet. Whatever the
  packet, the registers and the scratch memory hold, no instruction reads outside the message,
  reads or writes outside the scratch memory, divides by zero or leaves the program, and the number of bytes to
  deliver is at most the length of the packet.
\<close>

theorem bpf_accepted_safe:
  assumes "bpf_validate f bytes = Some (r, match)" and "r \<noteq> 0" and "list_all insn_strict f"
    and "length f = NET_MAX_BPF" and "bytes \<le> 8 * NET_MAX_BPF" and "input_ok i"
    and "length mem = BPF_MEMWORDS" and "bi_code (f ! 0) = BPF_BEGIN"
  shows "\<exists>result. bpf_do_filter i f bytes a x mem = Some result \<and> fst result \<le> in_wirelen i"
proof -
  let ?len = "bytes div 8"
  obtain m where loop: "validate_loop f ?len 1 None = Some (Inr m)" and pos: "0 < ?len"
    and last: "BPF_CLASS (bi_code (f ! (?len - 1))) = 0x06"
    using assms(1,2) by (auto simp: bpf_validate_def BPF_BYTES2LEN_def Let_def split: bind_splits sum.splits if_splits)
  have len: "?len < 2 ^ 30" using assms(5) by (simp add: NET_MAX_BPF_def NET_MAX_FILTER_def)
  have "?len \<noteq> 1" using last assms(8) by (auto simp: BPF_BEGIN_def BPF_CLASS_def)
  then have "1 < ?len" using pos by linarith
  then show ?thesis
    unfolding bpf_do_filter_def using validate_loop_sound [OF loop] assms(3,6,7) len last
    by (intro bpf_loop_ok [where n = 1 and len = ?len]) auto
qed

text \<open>
  A filter for the packets with the protocol 17 in byte 9, which counts in the scratch memory on its way.
\<close>

definition ex_bpf :: "bpf_insn list" where
  "ex_bpf =
    [\<lparr>bi_code = BPF_BEGIN, bi_jt = 0, bi_jf = 0, bi_k = 0\<rparr>,
     \<lparr>bi_code = 0x30, bi_jt = 0, bi_jf = 0, bi_k = 9\<rparr>,
     \<lparr>bi_code = 0x02, bi_jt = 0, bi_jf = 0, bi_k = 3\<rparr>,
     \<lparr>bi_code = 0x15, bi_jt = 1, bi_jf = 0, bi_k = 17\<rparr>,
     \<lparr>bi_code = 0x06, bi_jt = 0, bi_jf = 0, bi_k = 0\<rparr>,
     \<lparr>bi_code = 0x06, bi_jt = 0, bi_jf = 0, bi_k = 0xffff\<rparr>] @
    replicate 26 \<lparr>bi_code = 0, bi_jt = 0, bi_jf = 0, bi_k = 0\<rparr>"

theorem bpf_accepted_safe_witness:
  "\<exists>result. bpf_do_filter \<lparr>in_rcv_port = 0x4000, in_hash = empty_hash 0,
      in_msg = replicate sizeof_net_rcv_msg 17, in_wirelen = 60\<rparr> ex_bpf 48 0 0 (replicate 16 0) = Some result \<and>
    fst result \<le> 60"
proof -
  let ?i = "\<lparr>in_rcv_port = 0x4000, in_hash = empty_hash 0, in_msg = replicate sizeof_net_rcv_msg 17, in_wirelen = 60\<rparr>"
  have val: "bpf_validate ex_bpf 48 = Some (1, None)" by code_simp
  have strict: "list_all insn_strict ex_bpf" by code_simp
  have sizes: "length ex_bpf = NET_MAX_BPF" "48 \<le> 8 * NET_MAX_BPF" "bi_code (ex_bpf ! 0) = BPF_BEGIN"
    by (simp_all add: ex_bpf_def NET_MAX_BPF_def NET_MAX_FILTER_def)
  have "input_ok ?i" by (simp add: input_ok_def hash_shape_def empty_hash_def list_all_iff)
  then show ?thesis
    using bpf_accepted_safe [OF val _ strict sizes(1,2), of ?i "replicate 16 0" 0 0] sizes(3)
    by (simp add: BPF_MEMWORDS_def)
qed

text \<open>Three programs that the check should refuse.\<close>

definition bad_store :: "bpf_insn list" where
  "bad_store =
    [\<lparr>bi_code = BPF_BEGIN, bi_jt = 0, bi_jf = 0, bi_k = 0\<rparr>,
     \<lparr>bi_code = 0x03, bi_jt = 0, bi_jf = 0, bi_k = 16\<rparr>, \<lparr>bi_code = 0x06, bi_jt = 0, bi_jf = 0, bi_k = 0\<rparr>]"

definition bad_load :: "bpf_insn list" where
  "bad_load =
    [\<lparr>bi_code = BPF_BEGIN, bi_jt = 0, bi_jf = 0, bi_k = 0\<rparr>,
     \<lparr>bi_code = 0x61, bi_jt = 0, bi_jf = 0, bi_k = 16\<rparr>, \<lparr>bi_code = 0x06, bi_jt = 0, bi_jf = 0, bi_k = 0\<rparr>]"

definition bad_jump :: "bpf_insn list" where
  "bad_jump =
    [\<lparr>bi_code = BPF_BEGIN, bi_jt = 0, bi_jf = 0, bi_k = 0\<rparr>,
     \<lparr>bi_code = 0x05, bi_jt = 0, bi_jf = 0, bi_k = -1\<rparr>, \<lparr>bi_code = 0x06, bi_jt = 0, bi_jf = 0, bi_k = 0\<rparr>]"

lemma bad_jump_diverges:
  assumes "bpf_loop i f bytes st = Some r"
  shows "f = bad_jump \<and> bytes = 24 \<longrightarrow> bs_pc st \<noteq> 1"
proof (rule bpf_loop.raw_induct [where P = "\<lambda>i f bytes st r. f = bad_jump \<and> bytes = 24 \<longrightarrow> bs_pc st \<noteq> 1",
      OF _ assms], intro impI notI, elim conjE)
  fix loop :: "bpf_input \<Rightarrow> bpf_insn list \<Rightarrow> nat \<Rightarrow> bpf_state \<Rightarrow> bpf_result option" and i f bytes st r
  assume IH: "\<And>i f bytes st r. loop i f bytes st = Some r \<Longrightarrow> f = bad_jump \<and> bytes = 24 \<longrightarrow> bs_pc st \<noteq> 1"
    and body: "(if 8 * bs_pc st < int bytes then
        do { insn \<leftarrow> insn_at f (bs_pc st);
             r \<leftarrow> bpf_step i (bpf_decode (bi_code insn)) insn st;
             case r of Inl result \<Rightarrow> Some result
             | Inr st \<Rightarrow> loop i f bytes (st\<lparr>bs_pc := bs_pc st + 1\<rparr>) }
      else Some (0, None)) = Some r"
    and f: "f = bad_jump" "bytes = 24" and pc: "bs_pc st = 1"
  have dec: "bpf_decode 0x05 = Some JMP_JA" by code_simp
  have "insn_at bad_jump 1 = Some \<lparr>bi_code = 0x05, bi_jt = 0, bi_jf = 0, bi_k = -1\<rparr>"
    by (simp add: bad_jump_def insn_at_def)
  then have "loop i bad_jump 24 (st\<lparr>bs_pc := 1\<rparr>) = Some r" using body pc f dec by simp
  then show False using IH by fastforce
qed

text \<open>
  C25. The check lets programs through that corrupt the kernel or never end. It accepts a program
  that stores the index register at scratch memory address 16, just outside the array of
  16 words, a program that loads the index register from there, and a program that jumps to itself. None of them
  has a result, on any packet.
\<close>

theorem bpf_accepted_escapes:
  assumes "length mem = BPF_MEMWORDS"
  shows "bpf_validate bad_store 24 = Some (1, None) \<and> bpf_do_filter i bad_store 24 a x mem = None \<and>
    bpf_validate bad_load 24 = Some (1, None) \<and> bpf_do_filter i bad_load 24 a x mem = None \<and>
    bpf_validate bad_jump 24 = Some (1, None) \<and> bpf_do_filter i bad_jump 24 a x mem = None"
proof -
  have val: "bpf_validate bad_store 24 = Some (1, None)" "bpf_validate bad_load 24 = Some (1, None)"
    "bpf_validate bad_jump 24 = Some (1, None)"
    by code_simp+
  have dec: "bpf_decode 0x03 = Some STX" "bpf_decode 0x61 = Some LDX_MEM" by code_simp+
  have "bpf_do_filter i bad_store 24 a x mem = None" "bpf_do_filter i bad_load 24 a x mem = None"
    using assms
    by (simp_all add: bpf_do_filter_def bpf_loop.simps [of i _ 24] bad_store_def bad_load_def insn_at_def dec mem_index_def
        arr_get_def arr_set_def BPF_MEMWORDS_def)
  moreover have "bpf_do_filter i bad_jump 24 a x mem = None"
    unfolding bpf_do_filter_def using bad_jump_diverges [of i bad_jump 24 "\<lparr>bs_pc = 1, bs_A = a, bs_X = x, bs_mem = mem\<rparr>"]
    by (cases "bpf_loop i bad_jump 24 \<lparr>bs_pc = 1, bs_A = a, bs_X = x, bs_mem = mem\<rparr>") auto
  ultimately show ?thesis using val by simp
qed

theorem bpf_accepted_escapes_witness:
  "bpf_validate bad_store 24 = Some (1, None) \<and>
   bpf_do_filter \<lparr>in_rcv_port = 0x4000, in_hash = empty_hash 0, in_msg = [], in_wirelen = 60\<rparr>
     bad_store 24 0 0 (replicate 16 0) = None"
  using bpf_accepted_escapes [of "replicate 16 0"] by (simp add: BPF_MEMWORDS_def)

text \<open>
  C31. Session lookup. After any sessions have been entered into an empty hash table, in any number
  and with any keys, \<^verbatim>\<open>bpf_match\<close> returns the first of them whose keys are the first words of the scratch memory,
  and nothing exactly if there is none; the reference count is the number of sessions.
\<close>

theorem bpf_match_exact:
  assumes "n \<le> N_NET_HASH_KEYS" and "list_all (\<lambda>entp. length (he_keys entp) = N_NET_HASH_KEYS) es"
    and "N_NET_HASH_KEYS \<le> length ks"
  shows "\<exists>hash m. hash_inserts es (empty_hash n) = Some hash \<and> ref_count hash = length es \<and>
    bpf_match hash n ks = Some m \<and>
    (case m of
       None \<Rightarrow> \<not> (\<exists>entp \<in> set es. take n (he_keys entp) = take n ks)
     | Some entp \<Rightarrow> hash_entry hash entp = List.find (\<lambda>entp. take n (he_keys entp) = take n ks) es)"
proof -
  have "holds_sessions n [] (empty_hash n)" by (simp add: holds_sessions_def empty_hash_def)
  then obtain hash where h: "hash_inserts es (empty_hash n) = Some hash" "holds_sessions n es hash"
    using hash_inserts_hold [of n "[]" "empty_hash n" es] assms(1,2) by (auto simp: list_all_iff)
  let ?h = "key_hash n ks" and ?P = "\<lambda>entp. take n (he_keys entp) = take n ks"
  let ?chain = "List.filter (\<lambda>entp. key_hash n (he_keys entp) = ?h) es"
  have n: "n \<le> length ks" using assms(1,3) by simp
  have len: "list_all (\<lambda>entp. n \<le> length (he_keys entp)) ?chain" using assms(1,2) by (auto simp: list_all_iff)
  obtain r where r: "search_chain n ks ?chain 0 = Some r" "map_option (\<lambda>l. ?chain ! l) r = List.find ?P ?chain"
    "\<forall>l. r = Some l \<longrightarrow> l < length ?chain"
    using search_chain_in [OF n len, of 0] by auto
  have find: "List.find ?P ?chain = List.find ?P es" by (rule find_filter) (simp add: key_hash_def)
  have tab: "hash_table hash ! ?h = ?chain" "length (hash_table hash) = NET_HASH_SIZE"
    using h(2) key_hash_less by (auto simp: holds_sessions_def)
  have run: "bpf_match hash n ks = Some (map_option (Pair ?h) r)"
    using h(2) n key_hash_less [of n ks] r(1) tab
    by (simp add: bpf_match_def holds_sessions_def bpf_hash_in flip: key_hash_def)
  show ?thesis
  proof (cases r)
    case None
    then have "List.find ?P es = None" using r(2) find by simp
    then show ?thesis using h run None by (auto simp: holds_sessions_def find_None_iff)
  next
    case (Some l)
    then show ?thesis
      using h run r(2,3) find tab key_hash_less [of n ks] by (auto simp: holds_sessions_def hash_entry_def)
  qed
qed

theorem bpf_match_exact_witness:
  "\<exists>hash m. hash_inserts [\<lparr>he_rcv_port = 0x4000, he_rcv_qlimit = 5, he_keys = [1, 2, 0, 0]\<rparr>, \<lparr>he_rcv_port = 0x5000, he_rcv_qlimit = 5, he_keys = [2, 1, 0, 0]\<rparr>]
      (empty_hash 2) = Some hash \<and> bpf_match hash 2 [2, 1, 7, 8] = Some m \<and>
    (case m of None \<Rightarrow> False | Some entp \<Rightarrow> hash_entry hash entp = Some \<lparr>he_rcv_port = 0x5000, he_rcv_qlimit = 5, he_keys = [2, 1, 0, 0]\<rparr>)"
  using bpf_match_exact [of 2 "[\<lparr>he_rcv_port = 0x4000, he_rcv_qlimit = 5, he_keys = [1, 2, 0, 0]\<rparr>, \<lparr>he_rcv_port = 0x5000, he_rcv_qlimit = 5, he_keys = [2, 1, 0, 0]\<rparr>]" "[2, 1, 7, 8]"]
  by (simp add: N_NET_HASH_KEYS_def numeral_2_eq_2) (auto split: option.splits)

end
