(* ===== verification/Net_Io.thy ===== *)
theory Net_Io
  imports Ipc_Port Bpf
begin

text \<open>
  The filters of a network interface (\<^verbatim>\<open>kernel/device/net_io.c\<close>): \<^verbatim>\<open>net_set_filter\<close> installs a
  filter, \<^verbatim>\<open>net_filter\<close> runs a packet through them and decides who gets a copy. The list
  \<^verbatim>\<open>if_rcv_port_list\<close> is a list of records. A \<^verbatim>\<open>struct net_hash_header\<close>, the filter of many sessions, is
  a record with a null port and its hash table in \<open>np_hash\<close>; the field has no meaning for other filters. Of
  the global array \<^verbatim>\<open>filter_hash_header\<close> the model keeps the number of headers that are not in use.
  Ports are those of \<^verbatim>\<open>Ipc_Port\<close>.
\<close>

subsection \<open>State\<close>

datatype io_return = D_SUCCESS | D_INVALID_OPERATION | D_NO_MEMORY

record net_rcv_port =
  np_rcv_port :: ptr
  np_rcv_qlimit :: u32
  np_rcv_count :: u32
  np_priority :: int
  np_filter :: "filter_t list"
  np_count :: nat
  np_hash :: net_hash_header

record net_if =
  if_filters :: "net_rcv_port list"
  free_headers :: nat
  net_queue_free_min :: u32
  net_kmsg_max :: u32

definition NETF_BPF :: filter_t where "NETF_BPF = 0xfc00"
definition NET_HI_PRI :: int where "NET_HI_PRI = 100"

text \<open>The cast from filter words to instructions, \<^verbatim>\<open>(bpf_insn_t) filter\<close>.\<close>

fun insns_of :: "filter_t list \<Rightarrow> bpf_insn list" where
  "insns_of (w0 # w1 # w2 # w3 # ws) =
     \<lparr>bi_code = w0, bi_jt = ucast w1, bi_jf = ucast (drop_bit 8 w1),
      bi_k = or (ucast w2) (push_bit 16 (ucast w3))\<rparr> # insns_of ws"
| "insns_of _ = []"

subsection \<open>Running the filters\<close>

text \<open>
  What a call of a filter finds on the kernel stack: the uninitialised arrays and registers of
  the two machines.
\<close>

record junk =
  junk_stack :: "u32 list"
  junk_A :: u32
  junk_X :: u32
  junk_mem :: "u32 list"

definition run_filter :: "junk \<Rightarrow> byte list \<Rightarrow> nat \<Rightarrow> net_rcv_port \<Rightarrow> bpf_result option" where
  "run_filter junk msg cnt infp =
     do { w \<leftarrow> arr_get (np_filter infp) 0;
          if w = NETF_BPF then
            bpf_do_filter \<lparr>in_rcv_port = np_rcv_port infp, in_hash = np_hash infp, in_msg = msg,
                in_wirelen = of_nat cnt\<rparr>
              (insns_of (np_filter infp)) (2 * np_count infp) (junk_A junk) (junk_X junk) (junk_mem junk)
          else
            do { ok \<leftarrow> net_do_filter (junk_stack junk) (take (np_count infp) (np_filter infp))
                        (drop (nat packet_offset) msg) cnt
                        (take NET_HDW_HDR_MAX (drop (nat header_offset) msg));
                 Some (if ok then of_nat cnt else 0, None) } }"

record net_delivery =
  nd_filters :: "net_rcv_port list"
  nd_ports :: port_state
  nd_sends :: "(ptr \<times> u32) list"
  nd_dead_infp :: "net_rcv_port list"
  nd_dead_entp :: "net_hash_entry list"
  nd_freed :: nat

text \<open>The promotion of a high-priority filter over its predecessor; \<open>passed\<close> is in reverse order.\<close>

definition reorder_filters ::
    "bool \<Rightarrow> net_rcv_port list \<Rightarrow> net_rcv_port \<Rightarrow> net_rcv_port list \<Rightarrow> net_rcv_port list" where
  "reorder_filters reorder passed infp todo =
     (case passed of
        prevfp # front \<Rightarrow>
          if np_priority infp = np_priority prevfp \<and> reorder \<and>
             sint (100 + np_rcv_count prevfp) < sint (np_rcv_count infp)
          then rev front @ infp # prevfp # todo else rev passed @ infp # todo
      | [] \<Rightarrow> infp # todo)"

text \<open>
  The loop over the filters. \<open>avail n\<close> says whether \<^verbatim>\<open>net_kmsg_get\<close> has a message for the copy when \<open>n\<close>
  messages are already to be sent, \<open>reorder\<close> is \<^verbatim>\<open>net_filter_queue_reorder\<close>. A message is
  represented by its destination and the number of bytes copied.
\<close>

fun filter_iterate ::
    "junk \<Rightarrow> byte list \<Rightarrow> nat \<Rightarrow> (nat \<Rightarrow> bool) \<Rightarrow> bool \<Rightarrow> net_rcv_port list \<Rightarrow> net_rcv_port list \<Rightarrow>
     net_delivery \<Rightarrow> net_delivery option" where
  "filter_iterate junk msg cnt avail reorder passed [] nd = Some (nd\<lparr>nd_filters := rev passed\<rparr>)"
| "filter_iterate junk msg cnt avail reorder passed (infp # todo) nd =
     do { (ret_count, entp) \<leftarrow> run_filter junk msg cnt infp;
          if ret_count = 0 then filter_iterate junk msg cnt avail reorder (infp # passed) todo nd
          else
            do { dest \<leftarrow> (case entp of
                           None \<Rightarrow> Some (np_rcv_port infp)
                         | Some e \<Rightarrow> map_option he_rcv_port (hash_entry (np_hash infp) e));
                 (dest, ports) \<leftarrow> ipc_port_copy_send (nd_ports nd) dest;
                 let nd = nd\<lparr>nd_ports := ports\<rparr>;
                 if \<not> IP_VALID dest then
                   (case entp of
                      None \<Rightarrow>
                        filter_iterate junk msg cnt avail reorder passed todo
                          (nd\<lparr>nd_dead_infp := infp # nd_dead_infp nd\<rparr>)
                    | Some e \<Rightarrow>
                        do { (gone, ent, hp) \<leftarrow> hash_ent_remove (np_hash infp) False e;
                             filter_iterate junk msg cnt avail reorder
                               (if gone then passed else infp\<lparr>np_hash := hp\<rparr> # passed) todo
                               (nd\<lparr>nd_dead_entp := ent # nd_dead_entp nd,
                                   nd_freed := nd_freed nd + (if gone then 1 else 0)\<rparr>) })
                 else if nd_sends nd \<noteq> [] \<and> \<not> avail (length (nd_sends nd)) then
                   do { ports \<leftarrow> ipc_port_release_send (nd_ports nd) dest;
                        Some (nd\<lparr>nd_ports := ports, nd_filters := rev passed @ infp # todo\<rparr>) }
                 else
                   do { assert_that (nd_sends nd = [] \<or> ret_count \<le> NET_RCV_MAX);
                        let nd = nd\<lparr>nd_sends := nd_sends nd @ [(dest, ret_count)]\<rparr>;
                        let infp = infp\<lparr>np_rcv_count := np_rcv_count infp + 1\<rparr>;
                        if np_priority infp \<ge> NET_HI_PRI then
                          Some (nd\<lparr>nd_filters := reorder_filters reorder passed infp todo\<rparr>)
                        else filter_iterate junk msg cnt avail reorder (infp # passed) todo nd } } }"

subsection \<open>Freeing dead filters\<close>

definition net_add_q_info :: "port_state \<Rightarrow> ptr \<Rightarrow> net_if \<Rightarrow> (u32 \<times> port_state \<times> net_if) option" where
  "net_add_q_info st rcv_port ifp =
     do { (qlimit, st) \<leftarrow>
            (if IP_VALID rcv_port then
               do { st \<leftarrow> ip_lock st rcv_port;
                    port \<leftarrow> ports st rcv_port;
                    st \<leftarrow> ip_unlock st rcv_port;
                    Some (if ip_active port then ip_qlimit port else 0, st) }
             else Some (0, st));
          Some (qlimit, st, ifp\<lparr>net_queue_free_min := net_queue_free_min ifp + 1,
                               net_kmsg_max := net_kmsg_max ifp + qlimit + 1\<rparr>) }"

definition net_del_q_info :: "u32 \<Rightarrow> net_if \<Rightarrow> net_if" where
  "net_del_q_info qlimit ifp =
     ifp\<lparr>net_queue_free_min := net_queue_free_min ifp - 1, net_kmsg_max := net_kmsg_max ifp - (qlimit + 1)\<rparr>"

fun net_free_dead_infp :: "net_rcv_port list \<Rightarrow> port_state \<Rightarrow> net_if \<Rightarrow> (port_state \<times> net_if) option" where
  "net_free_dead_infp [] st ifp = Some (st, ifp)"
| "net_free_dead_infp (infp # dead) st ifp =
     do { st \<leftarrow> ipc_port_release_send st (np_rcv_port infp);
          net_free_dead_infp dead st (net_del_q_info (np_rcv_qlimit infp) ifp) }"

fun net_free_dead_entp :: "net_hash_entry list \<Rightarrow> port_state \<Rightarrow> net_if \<Rightarrow> (port_state \<times> net_if) option" where
  "net_free_dead_entp [] st ifp = Some (st, ifp)"
| "net_free_dead_entp (entp # dead) st ifp =
     do { st \<leftarrow> ipc_port_release_send st (he_rcv_port entp);
          net_free_dead_entp dead st (net_del_q_info (he_rcv_qlimit entp) ifp) }"

definition free_dead :: "net_rcv_port list \<Rightarrow> net_hash_entry list \<Rightarrow> port_state \<Rightarrow> net_if \<Rightarrow> (port_state \<times> net_if) option" where
  "free_dead dead_infp dead_entp st ifp =
     do { (st, ifp) \<leftarrow> net_free_dead_infp dead_infp st ifp; net_free_dead_entp dead_entp st ifp }"

text \<open>The loop from the start of the list, and the whole of \<^verbatim>\<open>net_filter\<close>, which returns the messages to send.\<close>

definition filter_packet ::
    "junk \<Rightarrow> byte list \<Rightarrow> nat \<Rightarrow> (nat \<Rightarrow> bool) \<Rightarrow> bool \<Rightarrow> net_rcv_port list \<Rightarrow> port_state \<Rightarrow> net_delivery option" where
  "filter_packet junk msg cnt avail reorder fs st =
     filter_iterate junk msg cnt avail reorder [] fs
       \<lparr>nd_filters = fs, nd_ports = st, nd_sends = [], nd_dead_infp = [], nd_dead_entp = [], nd_freed = 0\<rparr>"

definition net_filter ::
    "junk \<Rightarrow> byte list \<Rightarrow> nat \<Rightarrow> (nat \<Rightarrow> bool) \<Rightarrow> bool \<Rightarrow> net_if \<Rightarrow> port_state \<Rightarrow>
     ((ptr \<times> u32) list \<times> net_if \<times> port_state) option" where
  "net_filter junk msg cnt avail reorder ifp st =
     do { nd \<leftarrow> filter_packet junk msg cnt avail reorder (if_filters ifp) st;
          (st, ifp) \<leftarrow> free_dead (nd_dead_infp nd) (nd_dead_entp nd) (nd_ports nd)
            (ifp\<lparr>if_filters := nd_filters nd, free_headers := free_headers ifp + nd_freed nd\<rparr>);
          Some (nd_sends nd, ifp, st) }"

subsection \<open>Installing a filter\<close>

text \<open>The check of the filter: an error, or the match instruction.\<close>

definition check_filter :: "filter_t list \<Rightarrow> (io_return + nat option) option" where
  "check_filter fp =
     (if fp \<noteq> [] \<and> hd fp = NETF_BPF then
        do { (ret, match) \<leftarrow> bpf_validate (insns_of fp) (2 * length fp);
             Some (if ret = 0 then Inl D_INVALID_OPERATION else Inr match) }
      else Some (if parse_net_filter fp then Inr None else Inl D_INVALID_OPERATION))"

text \<open>A filter is stale if it is for the port that is being set, or its port is dead.\<close>

definition stale :: "port_state \<Rightarrow> ptr \<Rightarrow> ptr \<Rightarrow> bool option" where
  "stale st rcv_port p =
     (if p = rcv_port \<or> \<not> IP_VALID p then Some True
      else do { port \<leftarrow> ports st p; Some (\<not> ip_active port) })"

text \<open>
  The loop over one chain: \<open>j\<close> is the position of the entry \<^verbatim>\<open>entp\<close>, the list argument the chain from
  there on. The loop stops when \<^verbatim>\<open>entp\<close> is the head of the chain again; after the removal of the
  head that is the case at once, because the next entry has become the head.
\<close>

fun gc_chain ::
    "(ptr \<Rightarrow> bool option) \<Rightarrow> bool \<Rightarrow> nat \<Rightarrow> nat \<Rightarrow> net_hash_entry list \<Rightarrow> net_hash_header \<Rightarrow> net_hash_entry list \<Rightarrow>
     (bool \<times> net_hash_header \<times> net_hash_entry list) option" where
  "gc_chain is_stale used h j [] hp dead = Some (False, hp, dead)"
| "gc_chain is_stale used h j (e # rest) hp dead =
     do { s \<leftarrow> is_stale (he_rcv_port e);
          if s then
            do { (gone, e, hp) \<leftarrow> hash_ent_remove hp used (h, j);
                 if gone then Some (True, hp, e # dead)
                 else if j = 0 then Some (False, hp, e # dead)
                 else gc_chain is_stale used h j rest hp (e # dead) }
          else gc_chain is_stale used h (j + 1) rest hp dead }"

fun gc_table ::
    "(ptr \<Rightarrow> bool option) \<Rightarrow> bool \<Rightarrow> nat list \<Rightarrow> net_hash_header \<Rightarrow> net_hash_entry list \<Rightarrow>
     (bool \<times> net_hash_header \<times> net_hash_entry list) option" where
  "gc_table is_stale used [] hp dead = Some (False, hp, dead)"
| "gc_table is_stale used (h # hs) hp dead =
     do { chain \<leftarrow> arr_get (hash_table hp) h;
          (gone, hp, dead) \<leftarrow> gc_chain is_stale used h 0 chain hp dead;
          if gone then Some (True, hp, dead) else gc_table is_stale used hs hp dead }"

text \<open>
  The loop over the list of filters. \<open>same infp\<close> says whether \<open>infp\<close> can take the new session,
  \<open>my\<close> whether \<^verbatim>\<open>my_infp\<close> is set. Each filter that stays is returned with a mark on \<^verbatim>\<open>my_infp\<close>; \<open>freed\<close>
  counts the headers that are no longer in use.
\<close>

record net_scan =
  sc_filters :: "(net_rcv_port \<times> bool) list"
  sc_my :: bool
  sc_dead_infp :: "net_rcv_port list"
  sc_dead_entp :: "net_hash_entry list"
  sc_freed :: nat

fun scan_filters ::
    "(ptr \<Rightarrow> bool option) \<Rightarrow> (net_rcv_port \<Rightarrow> bool option) \<Rightarrow> net_rcv_port list \<Rightarrow> net_scan \<Rightarrow> net_scan option" where
  "scan_filters is_stale same [] sc = Some sc"
| "scan_filters is_stale same (infp # fs) sc =
     (if np_rcv_port infp = 0 then
        do { mine \<leftarrow> (if sc_my sc then Some False else same infp);
             (gone, hp, dead) \<leftarrow> gc_table is_stale mine [0..<NET_HASH_SIZE] (np_hash infp) (sc_dead_entp sc);
             scan_filters is_stale same fs
               (sc\<lparr>sc_filters := sc_filters sc @ (if gone then [] else [(infp\<lparr>np_hash := hp\<rparr>, mine)]),
                   sc_my := sc_my sc \<or> mine, sc_dead_entp := dead,
                   sc_freed := sc_freed sc + (if gone then 1 else 0)\<rparr>) }
      else
        do { s \<leftarrow> is_stale (np_rcv_port infp);
             scan_filters is_stale same fs
               (if s then sc\<lparr>sc_dead_infp := infp # sc_dead_infp sc\<rparr>
                else sc\<lparr>sc_filters := sc_filters sc @ [(infp, False)]\<rparr>) })"

text \<open>The test whether a session filter has the same code except for the keys.\<close>

definition same_filter :: "nat option \<Rightarrow> int \<Rightarrow> filter_t list \<Rightarrow> net_rcv_port \<Rightarrow> bool option" where
  "same_filter match priority fp infp =
     (if match \<noteq> None \<and> np_priority infp = priority \<and> np_count infp = length fp
      then bpf_eq (insns_of (np_filter infp)) (insns_of fp) (2 * length fp) else Some False)"

text \<open>Insertion behind all filters with at least the same priority.\<close>

fun insert_filter :: "net_rcv_port \<times> bool \<Rightarrow> (net_rcv_port \<times> bool) list \<Rightarrow> (net_rcv_port \<times> bool) list" where
  "insert_filter my [] = [my]"
| "insert_filter my (infp # fs) =
     (if np_priority (fst my) > np_priority (fst infp) then my # infp # fs else infp # insert_filter my fs)"

text \<open>The session that the match instruction \<open>m\<close> describes; \<open>keys0\<close> is the uninitialised array of keys.\<close>

definition session_keys :: "bpf_insn list \<Rightarrow> nat \<Rightarrow> u32 list \<Rightarrow> u32 list option" where
  "session_keys f m keys0 =
     do { p \<leftarrow> arr_get f m;
          let n = unat (bi_jt p);
          ks \<leftarrow> those (map (\<lambda>i. arr_get f (m + i + 1)) [0..<n]);
          assert_that (n \<le> length keys0);
          Some (map bi_k ks @ drop n keys0) }"

text \<open>
  The part of \<^verbatim>\<open>net_set_filter\<close> up to \<^verbatim>\<open>clean_and_return\<close>, with the dead filters and sessions that are to be
  freed there. \<open>array0\<close> is the uninitialised array for the program.
\<close>

definition set_filter_locked ::
    "filter_t list \<Rightarrow> u32 list \<Rightarrow> net_if \<Rightarrow> port_state \<Rightarrow> ptr \<Rightarrow> int \<Rightarrow> filter_t list \<Rightarrow>
     (io_return \<times> net_if \<times> port_state \<times> net_rcv_port list \<times> net_hash_entry list) option" where
  "set_filter_locked array0 keys0 ifp st rcv_port priority fp =
     do { c \<leftarrow> check_filter fp;
          case c of
            Inl e \<Rightarrow> Some (e, ifp, st, [], [])
          | Inr match \<Rightarrow>
              do { sc \<leftarrow> scan_filters (stale st rcv_port) (same_filter match priority fp) (if_filters ifp)
                         \<lparr>sc_filters = [], sc_my = False, sc_dead_infp = [], sc_dead_entp = [], sc_freed = 0\<rparr>;
                   let free = free_headers ifp + sc_freed sc;
                   if match \<noteq> None \<and> \<not> sc_my sc \<and> free = 0 then
                     do { st \<leftarrow> ipc_port_release_send st rcv_port;
                          Some (D_NO_MEMORY, ifp\<lparr>if_filters := map fst (sc_filters sc)\<rparr>, st,
                                sc_dead_infp sc, sc_dead_entp sc) }
                   else
                     do { assert_that (length fp \<le> NET_MAX_FILTER);
                          n \<leftarrow> (case match of None \<Rightarrow> Some 0
                                | Some m \<Rightarrow> do { p \<leftarrow> arr_get (insns_of fp) m; Some (unat (bi_jt p)) });
                          (qlimit, st, ifp) \<leftarrow> net_add_q_info st rcv_port ifp;
                          let new = \<lparr>np_rcv_port = (if match = None then rcv_port else 0),
                                     np_rcv_qlimit = (if match = None then qlimit else 0), np_rcv_count = 0,
                                     np_priority = priority, np_filter = fp @ drop (length fp) array0,
                                     np_count = length fp,
                                     np_hash = \<lparr>n_keys = n, ref_count = 0,
                                                hash_table = replicate NET_HASH_SIZE []\<rparr>\<rparr>;
                          let fs = (if sc_my sc then sc_filters sc
                                    else insert_filter (new, True) (sc_filters sc));
                          fs \<leftarrow> (case match of
                                   None \<Rightarrow> Some (map fst fs)
                                 | Some m \<Rightarrow>
                                     do { ks \<leftarrow> session_keys (insns_of fp) m keys0;
                                          let e = \<lparr>he_rcv_port = rcv_port, he_rcv_qlimit = qlimit, he_keys = ks\<rparr>;
                                          those (map (\<lambda>(f, mine). if mine
                                              then do { hp \<leftarrow> hash_insert e (np_hash f); Some (f\<lparr>np_hash := hp\<rparr>) }
                                              else Some f) fs) });
                          Some (D_SUCCESS,
                            ifp\<lparr>if_filters := fs,
                               free_headers := free - (if match \<noteq> None \<and> \<not> sc_my sc then 1 else 0)\<rparr>,
                            st, sc_dead_infp sc, sc_dead_entp sc) } } }"

definition net_set_filter ::
    "filter_t list \<Rightarrow> u32 list \<Rightarrow> net_if \<Rightarrow> port_state \<Rightarrow> ptr \<Rightarrow> int \<Rightarrow> filter_t list \<Rightarrow>
     (io_return \<times> net_if \<times> port_state) option" where
  "net_set_filter array0 keys0 ifp st rcv_port priority fp =
     do { (rval, ifp, st, dead_infp, dead_entp) \<leftarrow> set_filter_locked array0 keys0 ifp st rcv_port priority fp;
          (st, ifp) \<leftarrow> free_dead dead_infp dead_entp st ifp;
          Some (rval, ifp, st) }"

end
