(* ===== verification/Net_Dead.thy ===== *)
theory Net_Dead
  imports Net_Io "HOL-Library.Multiset"
begin

text \<open>
  What the release of dead filters and sessions does: \<open>given_back\<close> describes the ports after the release of a list of
  send rights, \<open>without_limits\<close> the accounts of the interface, and \<open>free_dead_exact\<close> the whole of
  \<^verbatim>\<open>net_free_dead_infp\<close> and \<^verbatim>\<open>net_free_dead_entp\<close>. The order in which rights are given back does not matter.
\<close>

subsection \<open>Rights given back\<close>

text \<open>
  A port after the release of \<open>d\<close> send rights: a live port loses a send right and a reference for each,
  a dead one a reference, and it is freed with the last.
\<close>

definition minus_rights :: "nat \<Rightarrow> ipc_port \<Rightarrow> ipc_port option" where
  "minus_rights d port =
     (if d = 0 then Some port
      else if ip_active port then
        Some (port\<lparr>ip_references := ip_references port - of_nat d, ip_srights := ip_srights port - of_nat d\<rparr>)
      else if ip_references port = of_nat d then None
      else Some (port\<lparr>ip_references := ip_references port - of_nat d\<rparr>))"

definition given_back :: "ptr list \<Rightarrow> (ptr \<Rightarrow> ipc_port option) \<Rightarrow> ptr \<Rightarrow> ipc_port option" where
  "given_back ps pm p = do { port \<leftarrow> pm p; minus_rights (count_list ps p) port }"

text \<open>
  A dead port has a reference for each of the rights. A live one has as many send rights, and more if a notification
  was asked for when there are no more.
\<close>

definition spare :: "nat \<Rightarrow> ipc_port \<Rightarrow> bool" where
  "spare d port \<longleftrightarrow>
     (if ip_active port then
        d < unat (ip_srights port) \<or> d = unat (ip_srights port) \<and> ip_nsrequest port = IP_NULL
      else d \<le> unat (ip_references port))"

definition releasable :: "ptr list \<Rightarrow> (ptr \<Rightarrow> ipc_port option) \<Rightarrow> bool" where
  "releasable ps pm \<longleftrightarrow> list_all (\<lambda>p. IP_VALID p \<and>
     (case pm p of None \<Rightarrow> False | Some port \<Rightarrow> spare (count_list ps p) port)) ps"

lemma releasableD:
  "releasable ps pm \<Longrightarrow> p \<in> set ps \<Longrightarrow> IP_VALID p \<and> (\<exists>port. pm p = Some port \<and> spare (count_list ps p) port)"
  by (auto simp: releasable_def list_all_iff split: option.splits)

lemma releasableI:
  "(\<And>p. p \<in> set ps \<Longrightarrow> IP_VALID p \<and> (\<exists>port. pm p = Some port \<and> spare (count_list ps p) port)) \<Longrightarrow> releasable ps pm"
  by (fastforce simp: releasable_def list_all_iff split: option.splits)

lemma minus_rights_0 [simp]: "minus_rights 0 port = Some port"
  by (simp add: minus_rights_def)

lemma given_back_Nil [simp]: "given_back [] pm = pm"
  by (simp add: given_back_def fun_eq_iff)

lemma count_list_mset: "count_list xs x = count (mset xs) x"
  by (induction xs) auto

lemma given_back_perm: "mset ps = mset qs \<Longrightarrow> given_back ps = given_back qs"
  by (simp add: given_back_def fun_eq_iff count_list_mset)

lemma spare_le: "spare d port \<Longrightarrow> d' \<le> d \<Longrightarrow> spare d' port"
  by (auto simp: spare_def split: if_splits)

lemma releasable_sub:
  assumes "mset ps \<subseteq># mset qs" and "releasable qs pm"
  shows "releasable ps pm"
proof (rule releasableI)
  fix p
  assume "p \<in> set ps"
  then have "p \<in> set qs" using set_mset_mono [OF assms(1)] by auto
  moreover have "count_list ps p \<le> count_list qs p"
    using assms(1) by (simp add: count_list_mset mset_subset_eq_count)
  ultimately show "IP_VALID p \<and> (\<exists>port. pm p = Some port \<and> spare (count_list ps p) port)"
    using releasableD [OF assms(2)] spare_le by blast
qed

lemma minus_rights_Suc:
  assumes "spare (Suc d) port"
  shows "minus_rights (Suc d) port = do { port \<leftarrow> minus_rights 1 port; minus_rights d port }"
    and "d \<noteq> 0 \<Longrightarrow> \<exists>port'. minus_rights 1 port = Some port' \<and> spare d port'"
proof -
  have pos: "0 < unat (if ip_active port then ip_srights port else ip_references port)"
    using assms by (auto simp: spare_def split: if_splits)
  then have one: "unat ((if ip_active port then ip_srights port else ip_references port) - 1) =
      unat (if ip_active port then ip_srights port else ip_references port) - 1"
    by (metis less_numeral_extra(3) unat_0 unat_minus_one)
  then show "d \<noteq> 0 \<Longrightarrow> \<exists>port'. minus_rights 1 port = Some port' \<and> spare d port'"
    using assms by (cases "ip_active port") (auto simp: minus_rights_def spare_def)
  show "minus_rights (Suc d) port = do { port \<leftarrow> minus_rights 1 port; minus_rights d port }"
    using assms by (cases "ip_active port"; cases "d = 0") (auto simp: minus_rights_def spare_def algebra_simps)
qed

lemma given_back_Cons:
  assumes "releasable (p # ps) pm"
  shows "given_back (p # ps) pm = given_back ps (given_back [p] pm)" "releasable ps (given_back [p] pm)"
    "releasable [p] pm"
proof -
  obtain port where port: "pm p = Some port" "spare (Suc (count_list ps p)) port" and valid: "IP_VALID p"
    using releasableD [OF assms, of p] by auto
  show "given_back (p # ps) pm = given_back ps (given_back [p] pm)"
    using minus_rights_Suc(1) [OF port(2)] port(1) by (auto simp: given_back_def fun_eq_iff)
  show "releasable [p] pm" using port valid spare_le [OF port(2), of 1] by (auto intro!: releasableI)
  show "releasable ps (given_back [p] pm)"
  proof (rule releasableI)
    fix q
    assume q: "q \<in> set ps"
    show "IP_VALID q \<and> (\<exists>port. given_back [p] pm q = Some port \<and> spare (count_list ps q) port)"
    proof (cases "q = p")
      case True
      then have "count_list ps p \<noteq> 0" using q by (simp add: count_list_0_iff)
      from minus_rights_Suc(2) [OF port(2) this] show ?thesis
        using True port(1) valid by (simp add: given_back_def)
    next
      case False
      then show ?thesis using releasableD [OF assms, of q] q by (auto simp: given_back_def)
    qed
  qed
qed

lemma release_one:
  assumes "releasable [p] (ports st)" and "locked st = {}"
  shows "\<exists>fs. ipc_port_release_send st p =
      Some (st\<lparr>ports := given_back [p] (ports st), events := events st @ map Port_freed fs\<rparr>) \<and>
    distinct fs \<and> set fs = dom (ports st) - dom (given_back [p] (ports st))"
proof -
  obtain port where port: "ports st p = Some port" and valid: "IP_VALID p" and room: "spare 1 port"
    using releasableD [OF assms(1), of p] by auto
  have gb: "given_back [p] (ports st) = (ports st)(p := minus_rights 1 port)"
    using port by (auto simp: given_back_def)
  show ?thesis
  proof (cases "ip_active port")
    case True
    then have "0 < ip_srights port" and ns: "ip_srights port = 1 \<Longrightarrow> ip_nsrequest port = IP_NULL"
      using room by (auto simp: spare_def word_less_nat_alt)
    then have "ipc_port_release_send st p = Some (st\<lparr>ports := given_back [p] (ports st)\<rparr>)"
      using port valid True assms(2) unfolding gb
      by (cases st) (simp add: ipc_port_release_send_def ip_lock_def ip_unlock_def ip_release_def upd_port_def Let_def
          minus_rights_def)
    moreover have "dom (ports st) - dom (given_back [p] (ports st)) = {}"
      using True unfolding gb by (auto simp: minus_rights_def)
    ultimately show ?thesis by (intro exI [of _ "[]"]) simp
  next
    case False
    let ?fs = "if ip_references port = 1 then [p] else []"
    have "ipc_port_release_send st p =
        Some (st\<lparr>ports := given_back [p] (ports st), events := events st @ map Port_freed ?fs\<rparr>)"
      using port valid False assms(2) unfolding gb
      by (cases st) (simp add: ipc_port_release_send_def ip_lock_def ip_unlock_def ip_release_def ip_check_unlock_def
          upd_port_def emit_def Let_def minus_rights_def)
    moreover have "dom (ports st) - dom (given_back [p] (ports st)) = set ?fs"
      using False port unfolding gb by (auto simp: minus_rights_def split: if_splits)
    ultimately show ?thesis by (intro exI [of _ ?fs]) simp
  qed
qed

text \<open>The send rights are given back one after the other.\<close>

fun release_all :: "ptr list \<Rightarrow> port_state \<Rightarrow> port_state option" where
  "release_all [] st = Some st"
| "release_all (p # ps) st = do { st \<leftarrow> ipc_port_release_send st p; release_all ps st }"

lemma release_all_exact:
  assumes "releasable ps (ports st)" and "locked st = {}"
  shows "\<exists>fs. release_all ps st =
      Some (st\<lparr>ports := given_back ps (ports st), events := events st @ map Port_freed fs\<rparr>) \<and>
    distinct fs \<and> set fs = dom (ports st) - dom (given_back ps (ports st))"
  using assms
proof (induction ps arbitrary: st)
  case Nil
  then show ?case by (intro exI [of _ "[]"]) simp
next
  case (Cons p ps)
  note gb = given_back_Cons [OF Cons.prems(1)]
  obtain fs where fs: "ipc_port_release_send st p =
      Some (st\<lparr>ports := given_back [p] (ports st), events := events st @ map Port_freed fs\<rparr>)"
      "distinct fs" "set fs = dom (ports st) - dom (given_back [p] (ports st))"
    using release_one [OF gb(3) Cons.prems(2)] by blast
  let ?st = "st\<lparr>ports := given_back [p] (ports st), events := events st @ map Port_freed fs\<rparr>"
  obtain gs where gs: "release_all ps ?st =
      Some (?st\<lparr>ports := given_back ps (ports ?st), events := events ?st @ map Port_freed gs\<rparr>)"
      "distinct gs" "set gs = dom (ports ?st) - dom (given_back ps (ports ?st))"
    using Cons.IH [of ?st] gb(2) Cons.prems(2) by auto
  have "dom (given_back [p] (ports st)) \<subseteq> dom (ports st)" "dom (given_back ps (ports ?st)) \<subseteq> dom (ports ?st)"
    by (auto simp: given_back_def split: bind_splits)
  then show ?case
    using fs gs gb(1) by (intro exI [of _ "fs @ gs"]) auto
qed

text \<open>The accounts of the interface without filters or sessions of the queue limits \<open>qs\<close>.\<close>

definition without_limits :: "u32 list \<Rightarrow> net_if \<Rightarrow> net_if" where
  "without_limits qs ifp = ifp\<lparr>net_queue_free_min := net_queue_free_min ifp - of_nat (length qs),
     net_kmsg_max := net_kmsg_max ifp - (\<Sum>q\<leftarrow>qs. q + 1)\<rparr>"

lemma without_limits_Nil [simp]: "without_limits [] ifp = ifp"
  by (simp add: without_limits_def)

lemma del_q_info_without: "without_limits qs (net_del_q_info q ifp) = without_limits (q # qs) ifp"
  by (simp add: without_limits_def net_del_q_info_def algebra_simps)

lemma without_limits_perm:
  assumes "mset qs = mset rs"
  shows "without_limits qs = without_limits rs"
proof -
  have "(\<Sum>q\<leftarrow>qs. q + 1) = (\<Sum>q\<leftarrow>rs. q + 1)"
    using assms by (metis mset_map sum_mset_sum_list)
  then show ?thesis using mset_eq_length [OF assms] by (simp add: without_limits_def fun_eq_iff)
qed

text \<open>What a dead filter or session gives back: the right for its port, and its queue limit.\<close>

definition infp_right :: "net_rcv_port \<Rightarrow> ptr \<times> u32" where
  "infp_right infp = (np_rcv_port infp, np_rcv_qlimit infp)"

definition entp_right :: "net_hash_entry \<Rightarrow> ptr \<times> u32" where
  "entp_right entp = (he_rcv_port entp, he_rcv_qlimit entp)"

lemma free_dead_infp_release:
  "net_free_dead_infp dead st ifp =
     map_option (\<lambda>st. (st, without_limits (map np_rcv_qlimit dead) ifp)) (release_all (map np_rcv_port dead) st)"
  by (induction dead arbitrary: st ifp) (auto simp: del_q_info_without split: bind_splits)

lemma free_dead_entp_release:
  "net_free_dead_entp dead st ifp =
     map_option (\<lambda>st. (st, without_limits (map he_rcv_qlimit dead) ifp)) (release_all (map he_rcv_port dead) st)"
  by (induction dead arbitrary: st ifp) (auto simp: del_q_info_without split: bind_splits)

lemma release_all_append: "release_all (ps @ qs) st = do { st \<leftarrow> release_all ps st; release_all qs st }"
  by (induction ps arbitrary: st) (auto split: bind_splits)

lemma without_limits_append: "without_limits qs (without_limits ps ifp) = without_limits (ps @ qs) ifp"
  by (simp add: without_limits_def algebra_simps)

lemma free_dead_exact:
  assumes "mset rights = mset (map infp_right dead_infp @ map entp_right dead_entp)"
    and "releasable (map fst rights) (ports st)" and "locked st = {}"
  shows "\<exists>fs. free_dead dead_infp dead_entp st ifp =
      Some (st\<lparr>ports := given_back (map fst rights) (ports st), events := events st @ map Port_freed fs\<rparr>,
            without_limits (map snd rights) ifp) \<and>
    distinct fs \<and> set fs = dom (ports st) - dom (given_back (map fst rights) (ports st))"
proof -
  let ?rs = "map infp_right dead_infp @ map entp_right dead_entp"
  have perm: "mset (map fst rights) = mset (map fst ?rs)" "mset (map snd rights) = mset (map snd ?rs)"
    using assms(1) by (metis mset_map)+
  have ports: "map fst ?rs = map np_rcv_port dead_infp @ map he_rcv_port dead_entp"
    and limits: "map snd ?rs = map np_rcv_qlimit dead_infp @ map he_rcv_qlimit dead_entp"
    by (simp_all add: infp_right_def entp_right_def)
  have "free_dead dead_infp dead_entp st ifp =
      map_option (\<lambda>st. (st, without_limits (map snd ?rs) ifp)) (release_all (map fst ?rs) st)"
    unfolding ports limits free_dead_def free_dead_infp_release free_dead_entp_release release_all_append
    by (auto simp: without_limits_append split: bind_splits)
  moreover have "releasable (map fst ?rs) (ports st)"
    using releasable_sub [OF _ assms(2)] perm(1) by simp
  ultimately show ?thesis
    using release_all_exact [OF _ assms(3), of "map fst ?rs"]
    unfolding given_back_perm [OF perm(1)] without_limits_perm [OF perm(2)] by auto
qed

end
