(* ===== verification/Net_Delivery.thy ===== *)
theory Net_Delivery
  imports Net_Dead "HOL-Library.Sublist"
begin

text \<open>
  What \<^verbatim>\<open>net_filter\<close> does with a packet. The specification starts from the verdict of each filter: it rejects the
  packet, has it delivered to a port, or turns out to be dead, as a whole or with the session that the packet belongs to.
  From the verdicts follow the messages (\<open>deliveries\<close>), the part of the list that the loop gets through
  (\<open>examined\<close>), the filters that stay (\<open>left_over\<close>) and the rights that are given back (\<open>dead_of\<close>).
  \<open>with_sends\<close> describes the ports after the deliveries.
\<close>

subsection \<open>Verdicts\<close>

text \<open>
  What becomes of a packet at a filter: \<open>run\<close> is the result of its program, \<open>alive\<close> says which ports are alive.
\<close>

datatype verdict = Reject | Deliver ptr u32 | Dead_filter | Dead_session hash_ref net_hash_entry

definition verdict_of :: "(net_rcv_port \<Rightarrow> bpf_result option) \<Rightarrow> (ptr \<Rightarrow> bool) \<Rightarrow> net_rcv_port \<Rightarrow> verdict" where
  "verdict_of run alive infp =
     (case run infp of
        None \<Rightarrow> Reject
      | Some (n, entp) \<Rightarrow>
          if n = 0 then Reject
          else
            (case entp of
               None \<Rightarrow> if alive (np_rcv_port infp) then Deliver (np_rcv_port infp) n else Dead_filter
             | Some e \<Rightarrow>
                 (case hash_entry (np_hash infp) e of
                    None \<Rightarrow> Reject
                  | Some ent \<Rightarrow> if alive (he_rcv_port ent) then Deliver (he_rcv_port ent) n else Dead_session e ent)))"

text \<open>The messages: one for each verdict of delivery, up to the first filter of high priority.\<close>

fun deliveries :: "(net_rcv_port \<Rightarrow> verdict) \<Rightarrow> net_rcv_port list \<Rightarrow> (ptr \<times> u32) list" where
  "deliveries v [] = []"
| "deliveries v (infp # fs) =
     (case v infp of
        Deliver dest n \<Rightarrow> (dest, n) # (if np_priority infp \<ge> NET_HI_PRI then [] else deliveries v fs)
      | _ \<Rightarrow> deliveries v fs)"

text \<open>The filters that the loop gets through if it sends \<open>k\<close> messages.\<close>

fun examined :: "(net_rcv_port \<Rightarrow> verdict) \<Rightarrow> nat \<Rightarrow> net_rcv_port list \<Rightarrow> net_rcv_port list" where
  "examined v k [] = []"
| "examined v k (infp # fs) =
     (case v infp of
        Deliver dest n \<Rightarrow>
          if k = 0 then []
          else infp # (if np_priority infp \<ge> NET_HI_PRI then [] else examined v (k - 1) fs)
      | _ \<Rightarrow> infp # examined v k fs)"

text \<open>The sessions without the one at \<open>e\<close>, and whether it is the last.\<close>

definition without_session :: "net_hash_header \<Rightarrow> hash_ref \<Rightarrow> net_hash_header" where
  "without_session hp e = (let chain = hash_table hp ! fst e in
     hp\<lparr>ref_count := ref_count hp - 1,
        hash_table := (hash_table hp)[fst e := take (snd e) chain @ drop (snd e + 1) chain]\<rparr>)"

definition last_session :: "net_hash_header \<Rightarrow> hash_ref \<Rightarrow> bool" where
  "last_session hp e \<longleftrightarrow> length (hash_table hp ! fst e) = 1 \<and> ref_count hp \<le> 1"

text \<open>
  What stays of an examined filter, whether its hash header becomes free, and what it gives back. A filter that accepts
  the packet counts it.
\<close>

definition left_over :: "(net_rcv_port \<Rightarrow> verdict) \<Rightarrow> net_rcv_port \<Rightarrow> net_rcv_port list" where
  "left_over v infp =
     (case v infp of
        Reject \<Rightarrow> [infp]
      | Deliver dest n \<Rightarrow> [infp\<lparr>np_rcv_count := np_rcv_count infp + 1\<rparr>]
      | Dead_filter \<Rightarrow> []
      | Dead_session e ent \<Rightarrow>
          if last_session (np_hash infp) e then [] else [infp\<lparr>np_hash := without_session (np_hash infp) e\<rparr>])"

definition header_freed :: "(net_rcv_port \<Rightarrow> verdict) \<Rightarrow> net_rcv_port \<Rightarrow> bool" where
  "header_freed v infp = (case v infp of Dead_session e ent \<Rightarrow> last_session (np_hash infp) e | _ \<Rightarrow> False)"

definition dead_of :: "(net_rcv_port \<Rightarrow> verdict) \<Rightarrow> net_rcv_port \<Rightarrow> (ptr \<times> u32) list" where
  "dead_of v infp =
     (case v infp of Dead_filter \<Rightarrow> [infp_right infp] | Dead_session e ent \<Rightarrow> [entp_right ent] | _ \<Rightarrow> [])"

text \<open>
  The order of the list: a filter of high priority that gets the packet changes places with its predecessor if that
  has the same priority and has got fewer packets by more than 100.
\<close>

definition promoted :: "bool \<Rightarrow> net_rcv_port list \<Rightarrow> net_rcv_port list" where
  "promoted reorder fs =
     (case rev fs of
        infp # prevfp # front \<Rightarrow>
          if reorder \<and> np_priority infp = np_priority prevfp \<and>
             sint (100 + np_rcv_count prevfp) < sint (np_rcv_count infp)
          then rev front @ [infp, prevfp] else fs
      | _ \<Rightarrow> fs)"

definition high_hit :: "(net_rcv_port \<Rightarrow> verdict) \<Rightarrow> net_rcv_port \<Rightarrow> bool" where
  "high_hit v infp = (case v infp of Deliver dest n \<Rightarrow> np_priority infp \<ge> NET_HI_PRI | _ \<Rightarrow> False)"

definition list_after :: "(net_rcv_port \<Rightarrow> verdict) \<Rightarrow> bool \<Rightarrow> nat \<Rightarrow> net_rcv_port list \<Rightarrow> net_rcv_port list \<Rightarrow> net_rcv_port list" where
  "list_after v reorder k passed fs =
     (let seen = examined v k fs; kept = rev passed @ concat (map (left_over v) seen) in
      (if seen \<noteq> [] \<and> high_hit v (last seen) then promoted reorder kept else kept) @ drop (length seen) fs)"

lemma reorder_promoted: "reorder_filters reorder passed infp todo = promoted reorder (rev passed @ [infp]) @ todo"
  by (auto simp: reorder_filters_def promoted_def split: list.splits)

text \<open>The functions along the list.\<close>

lemma list_after_Nil [simp]: "list_after v reorder k passed [] = rev passed"
  by (simp add: list_after_def)

lemma list_after_skip:
  assumes "examined v k (infp # fs) = infp # examined v k' fs" and "\<not> high_hit v infp"
  shows "list_after v reorder k passed (infp # fs) = list_after v reorder k' (rev (left_over v infp) @ passed) fs"
  using assms by (auto simp: list_after_def Let_def)

subsection \<open>The loop\<close>

definition port_alive :: "port_state \<Rightarrow> ptr \<Rightarrow> bool" where
  "port_alive st p \<longleftrightarrow> IP_VALID p \<and> (case ports st p of None \<Rightarrow> False | Some port \<Rightarrow> ip_active port)"

text \<open>The ports with a new send right and reference for each message.\<close>

definition sent_to :: "(ptr \<times> u32) list \<Rightarrow> ptr \<Rightarrow> nat" where
  "sent_to sends p = length (filter (\<lambda>s. fst s = p) sends)"

definition with_sends :: "port_state \<Rightarrow> (ptr \<times> u32) list \<Rightarrow> port_state" where
  "with_sends st sends = st\<lparr>ports := (\<lambda>p. map_option (\<lambda>port. port
      \<lparr>ip_references := ip_references port + of_nat (sent_to sends p),
       ip_srights := ip_srights port + of_nat (sent_to sends p)\<rparr>) (ports st p))\<rparr>"

lemma sent_to_simps [simp]:
  "sent_to [] p = 0" "sent_to (sends @ [(q, n)]) p = sent_to sends p + (if q = p then 1 else 0)"
  by (simp_all add: sent_to_def)

lemma sent_to_le: "sent_to sends p \<le> length sends"
  by (simp add: sent_to_def)

lemma with_sends_Nil [simp]: "with_sends st [] = st"
proof -
  have "(\<lambda>p. map_option (\<lambda>port. port) (ports st p)) = ports st" by (simp add: fun_eq_iff option.map_ident)
  then show ?thesis by (simp add: with_sends_def)
qed

lemma locked_with_sends [simp]: "locked (with_sends st sends) = locked st"
  by (simp add: with_sends_def)

text \<open>What a port needs for the delivery of up to \<open>n\<close> messages.\<close>

definition port_ready :: "port_state \<Rightarrow> nat \<Rightarrow> ptr \<Rightarrow> bool" where
  "port_ready st n p \<longleftrightarrow> \<not> IP_VALID p \<or>
     (case ports st p of
        None \<Rightarrow> False
      | Some port \<Rightarrow> ip_active port \<longrightarrow> 0 < ip_srights port \<and> uint (ip_srights port) + int n < 2 ^ 32)"

lemma srights_positive:
  assumes "0 < (x :: u32)" and "uint x + int n < 2 ^ 32"
  shows "0 < x + of_nat n"
proof -
  have "int (unat x + n) < int (2 ^ 32)" using assms(2) by simp
  then have "unat x + n < 2 ^ 32" by (simp only: of_nat_less_iff)
  then have "unat (x + of_nat n) = unat x + n" by (simp add: unat_word_ariths unat_of_nat)
  then show ?thesis using assms(1) by (simp add: word_less_nat_alt)
qed

lemma copy_send_alive:
  assumes "port_ready st n p" and "port_alive st p" and "length sends \<le> n" and "locked st = {}"
  shows "ipc_port_copy_send (with_sends st sends) p = Some (p, with_sends st (sends @ [(p, m)]))"
proof -
  obtain port where port: "ports st p = Some port" and valid: "IP_VALID p" and act: "ip_active port"
    and pos: "0 < ip_srights port" "uint (ip_srights port) + int n < 2 ^ 32"
    using assms(1,2) by (auto simp: port_ready_def port_alive_def split: option.splits)
  have "0 < ip_srights port + of_nat (sent_to sends p)"
    using pos sent_to_le [of sends p] assms(3) by (intro srights_positive) auto
  then show ?thesis
    using port valid act assms(4)
    by (cases st, cases port)
      (simp add: ipc_port_copy_send_def ip_lock_def ip_unlock_def ip_reference_def upd_port_def with_sends_def
        fun_eq_iff io_active_def)
qed

lemma copy_send_dead:
  assumes "port_ready st n p" and "\<not> port_alive st p" and "locked st = {}"
  shows "\<exists>p'. ipc_port_copy_send (with_sends st sends) p = Some (p', with_sends st sends) \<and> \<not> IP_VALID p'"
proof (cases "IP_VALID p")
  case False
  then show ?thesis by (simp add: ipc_port_copy_send_def)
next
  case True
  then obtain port where port: "ports st p = Some port" and "\<not> ip_active port"
    using assms(1,2) by (auto simp: port_ready_def port_alive_def split: option.splits)
  then show ?thesis
    using True assms(3)
    by (cases st) (simp add: ipc_port_copy_send_def ip_lock_def ip_unlock_def with_sends_def
        IP_VALID_def IO_VALID_def IP_DEAD_def IO_DEAD_def)
qed

lemma release_send_alive:
  assumes "port_ready st n p" and "port_alive st p" and "length sends < n" and "locked st = {}"
  shows "ipc_port_release_send (with_sends st (sends @ [(p, m)])) p = Some (with_sends st sends)"
proof -
  obtain port where port: "ports st p = Some port" and valid: "IP_VALID p" and act: "ip_active port"
    and pos: "0 < ip_srights port" "uint (ip_srights port) + int n < 2 ^ 32"
    using assms(1,2) by (auto simp: port_ready_def port_alive_def split: option.splits)
  have "0 < ip_srights port + of_nat (sent_to sends p)" "0 < ip_srights port + of_nat (sent_to sends p + 1)"
    using pos sent_to_le [of sends p] assms(3) by (intro srights_positive; simp)+
  then have "ip_srights port + of_nat (sent_to sends p) \<noteq> 0"
    "0 < ip_srights port + (of_nat (sent_to sends p) + 1)"
    by (auto simp: add.commute)
  then show ?thesis
    using port valid act assms(4)
    by (cases st, cases port) (simp add: ipc_port_release_send_def ip_lock_def ip_unlock_def ip_release_def
        upd_port_def with_sends_def fun_eq_iff Let_def add.assoc)
qed

text \<open>The destination of a packet that the filter accepts.\<close>

definition filter_dest :: "net_rcv_port \<Rightarrow> hash_ref option \<Rightarrow> ptr option" where
  "filter_dest infp entp =
     (case entp of None \<Rightarrow> Some (np_rcv_port infp) | Some e \<Rightarrow> map_option he_rcv_port (hash_entry (np_hash infp) e))"

text \<open>The number of messages sent: all, or up to the first one for which there is no buffer.\<close>

definition cut_at :: "(nat \<Rightarrow> bool) \<Rightarrow> nat \<Rightarrow> nat \<Rightarrow> nat \<Rightarrow> bool" where
  "cut_at avail n0 n k \<longleftrightarrow>
     n0 \<le> k \<and> k \<le> n \<and> (k = n \<or> 0 < k \<and> \<not> avail k) \<and> list_all (\<lambda>i. 0 < i \<longrightarrow> avail i) [n0..<k]"

lemma cut_at_step: "cut_at avail (Suc n0) n k \<Longrightarrow> n0 = 0 \<or> avail n0 \<Longrightarrow> cut_at avail n0 n k"
  by (auto simp: cut_at_def list_all_iff) (metis Suc_leI atLeastLessThan_iff le_neq_implies_less)+

text \<open>A filter whose program returns, with a destination that can get up to \<open>n\<close> messages.\<close>

definition filter_ready :: "junk \<Rightarrow> byte list \<Rightarrow> nat \<Rightarrow> port_state \<Rightarrow> nat \<Rightarrow> net_rcv_port \<Rightarrow> bool" where
  "filter_ready junk msg cnt st n infp \<longleftrightarrow>
     (case run_filter junk msg cnt infp of
        None \<Rightarrow> False
      | Some (ret, entp) \<Rightarrow>
          ret \<le> NET_RCV_MAX \<and>
          (case filter_dest infp entp of None \<Rightarrow> False | Some dest \<Rightarrow> port_ready st n dest))"

lemma hash_ent_remove_entry:
  assumes "hash_entry hp e = Some ent"
  shows "\<exists>hp'. hash_ent_remove hp False e = Some (last_session hp e, ent, hp') \<and>
    (\<not> last_session hp e \<longrightarrow> hp' = without_session hp e)"
  using assms
  by (cases e) (auto simp: hash_entry_def hash_ent_remove_def last_session_def without_session_def
      arr_get_def arr_set_def Let_def split: if_splits bind_splits)

text \<open>The rights that the dead filters and sessions set aside give back.\<close>

definition dead_rights :: "net_delivery \<Rightarrow> (ptr \<times> u32) multiset" where
  "dead_rights nd = mset (map infp_right (nd_dead_infp nd) @ map entp_right (nd_dead_entp nd))"

text \<open>A filter that does not send: the loop goes on with what is left of it.\<close>

lemma filter_step_skip:
  assumes run: "run_filter junk msg cnt infp = Some (ret, entp)" and dest: "filter_dest infp entp = Some dest"
    and ready: "port_ready st n dest" and "locked st = {}" and nd: "nd_ports nd = with_sends st (nd_sends nd)"
    and dead: "ret = 0 \<or> \<not> port_alive st dest"
    and v: "v = verdict_of (run_filter junk msg cnt) (port_alive st)"
  shows "\<exists>nd2. filter_iterate junk msg cnt avail reorder passed (infp # fs) nd =
      filter_iterate junk msg cnt avail reorder (rev (left_over v infp) @ passed) fs nd2 \<and>
    nd_sends nd2 = nd_sends nd \<and> nd_ports nd2 = nd_ports nd \<and>
    dead_rights nd2 = dead_rights nd + mset (dead_of v infp) \<and>
    nd_freed nd2 = nd_freed nd + of_bool (header_freed v infp)"
proof (cases "ret = 0")
  case True
  then show ?thesis
    using run by (intro exI [of _ nd]) (simp add: v verdict_of_def left_over_def dead_of_def header_freed_def)
next
  case False
  obtain p' where copy: "ipc_port_copy_send (nd_ports nd) dest = Some (p', nd_ports nd)" "\<not> IP_VALID p'"
    using copy_send_dead [OF ready _ assms(4), of "nd_sends nd"] nd dead False by auto
  show ?thesis
  proof (cases entp)
    case None
    then have "v infp = Dead_filter" using run dest dead False by (simp add: v verdict_of_def filter_dest_def)
    then show ?thesis
      using run dest copy False None
      by (intro exI [of _ "nd\<lparr>nd_ports := nd_ports nd, nd_dead_infp := infp # nd_dead_infp nd\<rparr>"])
        (simp add: filter_dest_def left_over_def dead_of_def header_freed_def dead_rights_def)
  next
    case (Some e)
    then obtain ent where ent: "hash_entry (np_hash infp) e = Some ent" "he_rcv_port ent = dest"
      using dest by (auto simp: filter_dest_def)
    obtain hp where rm: "hash_ent_remove (np_hash infp) False e = Some (last_session (np_hash infp) e, ent, hp)"
        "\<not> last_session (np_hash infp) e \<longrightarrow> hp = without_session (np_hash infp) e"
      using hash_ent_remove_entry [OF ent(1)] by blast
    have "v infp = Dead_session e ent" using run ent Some dead False by (simp add: v verdict_of_def)
    then show ?thesis
      using run copy Some ent rm False
      by (intro exI [of _ "nd\<lparr>nd_ports := nd_ports nd, nd_dead_entp := ent # nd_dead_entp nd,
          nd_freed := nd_freed nd + (if last_session (np_hash infp) e then 1 else 0)\<rparr>"])
        (simp add: left_over_def dead_of_def header_freed_def dead_rights_def)
  qed
qed

text \<open>An accepting filter with a live destination gets a message unless there is no buffer for it.\<close>

lemma filter_step_send:
  assumes run: "run_filter junk msg cnt infp = Some (ret, entp)" and dest: "filter_dest infp entp = Some dest"
    and ready: "port_ready st n dest" and "locked st = {}" and nd: "nd_ports nd = with_sends st (nd_sends nd)"
    and live: "ret \<noteq> 0" "port_alive st dest" and max: "ret \<le> NET_RCV_MAX" and "length (nd_sends nd) < n"
    and nd1: "nd1 = nd\<lparr>nd_ports := with_sends st (nd_sends nd @ [(dest, ret)]), nd_sends := nd_sends nd @ [(dest, ret)]\<rparr>"
    and infp1: "infp1 = infp\<lparr>np_rcv_count := np_rcv_count infp + 1\<rparr>"
  shows "filter_iterate junk msg cnt avail reorder passed (infp # fs) nd =
    (if nd_sends nd \<noteq> [] \<and> \<not> avail (length (nd_sends nd))
     then Some (nd\<lparr>nd_ports := nd_ports nd, nd_filters := rev passed @ infp # fs\<rparr>)
     else if np_priority infp \<ge> NET_HI_PRI then Some (nd1\<lparr>nd_filters := reorder_filters reorder passed infp1 fs\<rparr>)
     else filter_iterate junk msg cnt avail reorder (infp1 # passed) fs nd1)"
proof -
  have copy: "ipc_port_copy_send (nd_ports nd) dest = Some (dest, with_sends st (nd_sends nd @ [(dest, ret)]))"
    using copy_send_alive [OF ready live(2) _ assms(4)] nd assms(9) by simp
  have release: "ipc_port_release_send (with_sends st (nd_sends nd @ [(dest, ret)])) dest = Some (nd_ports nd)"
    using release_send_alive [OF ready live(2) assms(9,4)] nd by simp
  have valid: "IP_VALID dest" using live(2) by (simp add: port_alive_def)
  show ?thesis
    using run dest [unfolded filter_dest_def] live copy valid max
    by (cases "nd_sends nd \<noteq> [] \<and> \<not> avail (length (nd_sends nd))"; simp add: Let_def nd1 infp1 release; blast)
qed

text \<open>The state at the end of the loop over \<open>fs\<close>, if \<open>k\<close> messages are sent in all.\<close>

definition loop_result ::
    "(net_rcv_port \<Rightarrow> verdict) \<Rightarrow> (nat \<Rightarrow> bool) \<Rightarrow> bool \<Rightarrow> net_rcv_port list \<Rightarrow> net_rcv_port list \<Rightarrow> port_state \<Rightarrow>
     net_delivery \<Rightarrow> nat \<Rightarrow> net_delivery \<Rightarrow> bool" where
  "loop_result v avail reorder passed fs st nd k nd' \<longleftrightarrow>
     (let n = length (nd_sends nd); seen = examined v (k - n) fs; sends = nd_sends nd @ deliveries v fs in
      cut_at avail n (length sends) k \<and> nd_sends nd' = take k sends \<and> nd_ports nd' = with_sends st (nd_sends nd') \<and>
      nd_filters nd' = list_after v reorder (k - n) passed fs \<and>
      dead_rights nd' = dead_rights nd + mset (concat (map (dead_of v) seen)) \<and>
      nd_freed nd' = nd_freed nd + length (filter (header_freed v) seen))"

lemma loop_result_skip:
  assumes "loop_result v avail reorder (rev (left_over v infp) @ passed) fs st nd2 k nd'"
    and "nd_sends nd2 = nd_sends nd" "dead_rights nd2 = dead_rights nd + mset (dead_of v infp)"
    "nd_freed nd2 = nd_freed nd + of_bool (header_freed v infp)"
    and "\<nexists>dest n. v infp = Deliver dest n"
  shows "loop_result v avail reorder passed (infp # fs) st nd k nd'"
proof -
  have "examined v j (infp # fs) = infp # examined v j fs" "deliveries v (infp # fs) = deliveries v fs"
    "\<not> high_hit v infp" for j
    using assms(5) by (auto simp: high_hit_def split: verdict.splits)
  then show ?thesis
    using assms(1-4) by (simp add: loop_result_def Let_def list_after_skip ac_simps)
qed

lemma loop_result_send:
  assumes "loop_result v avail reorder (infp\<lparr>np_rcv_count := np_rcv_count infp + 1\<rparr> # passed) fs st nd1 k nd'"
    and "nd_sends nd1 = nd_sends nd @ [(dest, n)]" "dead_rights nd1 = dead_rights nd" "nd_freed nd1 = nd_freed nd"
    and "v infp = Deliver dest n" "np_priority infp < NET_HI_PRI" "nd_sends nd = [] \<or> avail (length (nd_sends nd))"
  shows "loop_result v avail reorder passed (infp # fs) st nd k nd'"
proof -
  let ?n = "length (nd_sends nd)"
  have k: "Suc ?n \<le> k" using assms(1,2) by (simp add: loop_result_def Let_def cut_at_def)
  then have ex: "examined v (k - ?n) (infp # fs) = infp # examined v (k - Suc ?n) fs" "\<not> high_hit v infp"
    "deliveries v (infp # fs) = (dest, n) # deliveries v fs"
    using assms(5,6) by (auto simp: high_hit_def)
  have dead: "dead_of v infp = []" "\<not> header_freed v infp"
    "left_over v infp = [infp\<lparr>np_rcv_count := np_rcv_count infp + 1\<rparr>]"
    using assms(5) by (simp_all add: dead_of_def header_freed_def left_over_def)
  have "cut_at avail ?n m k" if "cut_at avail (Suc ?n) m k" for m
    using cut_at_step [OF that] assms(7) by simp
  then show ?thesis
    using assms(1-4) unfolding loop_result_def Let_def list_after_skip [OF ex(1,2)] ex(1,3) by (simp add: dead)
qed

lemma filter_iterate_exact:
  assumes "list_all (filter_ready junk msg cnt st n) fs" and "locked st = {}"
    and "nd_ports nd = with_sends st (nd_sends nd)" and "length (nd_sends nd) + length fs \<le> n"
    and v: "v = verdict_of (run_filter junk msg cnt) (port_alive st)"
  shows "\<exists>nd' k. filter_iterate junk msg cnt avail reorder passed fs nd = Some nd' \<and>
    loop_result v avail reorder passed fs st nd k nd'"
  using assms(1-4)
proof (induction fs arbitrary: passed nd)
  case Nil
  then show ?case
    by (intro exI [of _ "nd\<lparr>nd_filters := rev passed\<rparr>"] exI [of _ "length (nd_sends nd)"])
      (simp add: loop_result_def cut_at_def dead_rights_def)
next
  case (Cons infp fs)
  obtain ret entp dest where run: "run_filter junk msg cnt infp = Some (ret, entp)" and max: "ret \<le> NET_RCV_MAX"
    and dest: "filter_dest infp entp = Some dest" and ready: "port_ready st n dest"
    using Cons.prems(1) by (auto simp: filter_ready_def split: option.splits)
  note filter_iterate.simps(2) [simp del]
  show ?case
  proof (cases "ret = 0 \<or> \<not> port_alive st dest")
    case True
    then have none: "\<nexists>dest n. v infp = Deliver dest n"
      using run dest by (auto simp: v verdict_of_def filter_dest_def split: option.splits if_splits)
    obtain nd2 where "filter_iterate junk msg cnt avail reorder passed (infp # fs) nd =
        filter_iterate junk msg cnt avail reorder (rev (left_over v infp) @ passed) fs nd2"
      and nd2: "nd_sends nd2 = nd_sends nd" "nd_ports nd2 = nd_ports nd"
        "dead_rights nd2 = dead_rights nd + mset (dead_of v infp)"
        "nd_freed nd2 = nd_freed nd + of_bool (header_freed v infp)"
      using filter_step_skip [OF run dest ready Cons.prems(2,3) True v] by blast
    then show ?thesis
      using Cons.IH [of nd2] Cons.prems loop_result_skip [OF _ nd2(1,3,4) none] by fastforce
  next
    case False
    then have hit: "v infp = Deliver dest ret"
      using run dest by (auto simp: v verdict_of_def filter_dest_def split: option.splits)
    let ?infp = "infp\<lparr>np_rcv_count := np_rcv_count infp + 1\<rparr>"
    let ?nd = "nd\<lparr>nd_ports := with_sends st (nd_sends nd @ [(dest, ret)]), nd_sends := nd_sends nd @ [(dest, ret)]\<rparr>"
    note step = filter_step_send [OF run dest ready Cons.prems(2,3) _ _ max _ refl refl]
    note facts = loop_result_def Let_def cut_at_def list_after_def hit dead_rights_def high_hit_def left_over_def
      dead_of_def header_freed_def reorder_promoted
    consider "nd_sends nd \<noteq> []" "\<not> avail (length (nd_sends nd))"
      | "nd_sends nd = [] \<or> avail (length (nd_sends nd))" "np_priority infp \<ge> NET_HI_PRI"
      | "nd_sends nd = [] \<or> avail (length (nd_sends nd))" "np_priority infp < NET_HI_PRI" by fastforce
    then show ?thesis
    proof cases
      case 1
      then show ?thesis
        using step False Cons.prems by (auto simp: facts intro!: exI [of _ "length (nd_sends nd)"])
    next
      case 2
      then show ?thesis
        using step False Cons.prems by (auto simp: facts intro!: exI [of _ "Suc (length (nd_sends nd))"])
    next
      case 3
      have "filter_iterate junk msg cnt avail reorder passed (infp # fs) nd =
          filter_iterate junk msg cnt avail reorder (?infp # passed) fs ?nd"
        using step False Cons.prems(4) 3 by auto
      moreover obtain nd' k where "filter_iterate junk msg cnt avail reorder (?infp # passed) fs ?nd = Some nd'"
          "loop_result v avail reorder (?infp # passed) fs st ?nd k nd'"
        using Cons.IH [of ?nd "?infp # passed"] Cons.prems by auto
      ultimately show ?thesis
        using loop_result_send [of v avail reorder infp passed fs st ?nd k nd' nd dest ret] hit 3
        by (auto simp: dead_rights_def)
    qed
  qed
qed

subsection \<open>The whole of \<^verbatim>\<open>net_filter\<close>\<close>

lemma examined_prefix: "examined v k fs @ drop (length (examined v k fs)) fs = fs"
  by (induction fs arbitrary: k) (auto split: verdict.splits)

lemma deliveries_alive: "(p, n) \<in> set (deliveries (verdict_of run alive) fs) \<Longrightarrow> alive p"
  by (induction fs) (auto simp: verdict_of_def split: option.splits if_splits)

lemma dead_of_dead: "(p, q) \<in> set (dead_of (verdict_of run alive) infp) \<Longrightarrow> \<not> alive p"
  by (auto simp: dead_of_def verdict_of_def infp_right_def entp_right_def split: option.splits if_splits)

lemma promoted_priorities [simp]: "map np_priority (promoted reorder fs) = map np_priority fs"
proof -
  have "fs = rev front @ [prevfp, infp]" if "rev fs = infp # prevfp # front" for infp prevfp front
    using that by (metis rev.simps(2) rev_rev_ident append_assoc append_Cons append_Nil)
  then show ?thesis by (fastforce simp: promoted_def split: list.splits)
qed

lemma left_over_priorities: "subseq (map np_priority (left_over v infp)) [np_priority infp]"
  by (auto simp: left_over_def split: verdict.splits)

text \<open>The list stays in the order of priorities.\<close>

lemma list_after_priorities: "subseq (map np_priority (list_after v reorder k [] fs)) (map np_priority fs)"
proof -
  let ?seen = "examined v k fs"
  have kept: "subseq (map np_priority (concat (map (left_over v) gs))) (map np_priority gs)" for gs
  proof (induction gs)
    case (Cons g gs)
    then show ?case using list_emb_append_mono [OF left_over_priorities Cons.IH, of v g] by simp
  qed simp
  have "map np_priority (list_after v reorder k [] fs) =
      map np_priority (concat (map (left_over v) ?seen)) @ map np_priority (drop (length ?seen) fs)"
    by (simp add: list_after_def Let_def)
  moreover have "map np_priority fs = map np_priority ?seen @ map np_priority (drop (length ?seen) fs)"
    using examined_prefix [of v k fs] by (metis map_append)
  ultimately show ?thesis using list_emb_append_mono [OF kept] by (metis subseq_order.order_refl)
qed

lemma with_sends_other: "p \<notin> fst ` set sends \<Longrightarrow> ports (with_sends st sends) p = ports st p"
proof -
  assume "p \<notin> fst ` set sends"
  then have "filter (\<lambda>s. fst s = p) sends = []" by (force simp: filter_empty_conv)
  then have "sent_to sends p = 0" by (simp add: sent_to_def)
  then show ?thesis by (cases "ports st p") (simp_all add: with_sends_def)
qed

lemma dom_with_sends [simp]: "dom (ports (with_sends st sends)) = dom (ports st)"
  by (auto simp: with_sends_def)

text \<open>The ports of dead filters get no message, so their references are still there after the deliveries.\<close>

lemma dead_releasable:
  assumes "releasable (map fst (concat (map (dead_of v) fs))) (ports st)" and "v = verdict_of run (port_alive st)"
    and "set sends \<subseteq> set (deliveries v fs)"
  shows "releasable (map fst (concat (map (dead_of v) (examined v k fs)))) (ports (with_sends st sends))"
proof -
  let ?dead = "map fst (concat (map (dead_of v) (examined v k fs)))"
  have "map fst (concat (map (dead_of v) fs)) =
      ?dead @ map fst (concat (map (dead_of v) (drop (length (examined v k fs)) fs)))"
    using examined_prefix [of v k fs] by (metis concat_append map_append)
  then have "releasable ?dead (ports st)"
    using releasable_sub [OF _ assms(1)] by (metis mset_append mset_subset_eq_add_left)
  moreover have "ports (with_sends st sends) p = ports st p" if "p \<in> set ?dead" for p
  proof (rule with_sends_other)
    have "\<not> port_alive st p" using that dead_of_dead unfolding assms(2) by fastforce
    then show "p \<notin> fst ` set sends" using assms(3) deliveries_alive unfolding assms(2) by fastforce
  qed
  ultimately show ?thesis using releasableD by (fastforce intro!: releasableI)
qed

text \<open>
  C6. \<^verbatim>\<open>net_filter\<close> delivers a packet to the right ports and changes nothing else. The program of every filter must return, the
  destination of a filter that accepts the packet must be a live port with a send right for the filter, or a dead one that
  still has a reference for each filter and session that is found dead. Then the call returns. The messages go
  to the destinations of the accepting filters with a live destination, in the order of the list, up to the first filter
  of high priority; if buffers run out, to the first \<open>k\<close> of them, where the \<open>k\<close>-th copy is the first
  for which there is no buffer. The list of filters afterwards: of the filters that the loop has got through, those that
  reject the packet stay as they are, those that get it count it, a filter with a dead port is gone, a session with a
  dead port is taken out of its filter, and the filter goes with its last session; all others are untouched, and the only change of
  order is the promotion of a filter of high priority. Each message holds one new send right and
  reference for its destination, each dead filter or session gives its right back, which frees a port with
  its last reference, and its queue limit is taken off the accounts. No other port changes.
\<close>

theorem net_filter_delivers:
  assumes "if_filters ifp = fs" and "list_all (filter_ready junk msg cnt st (length fs)) fs" and "locked st = {}"
    and "v = verdict_of (run_filter junk msg cnt) (port_alive st)"
    and "releasable (map fst (concat (map (dead_of v) fs))) (ports st)"
  shows "\<exists>k seen dead sends ports' freed.
    cut_at avail 0 (length (deliveries v fs)) k \<and> sends = take k (deliveries v fs) \<and>
    seen = examined v k fs \<and> dead = concat (map (dead_of v) seen) \<and>
    ports' = given_back (map fst dead) (ports (with_sends st sends)) \<and>
    distinct freed \<and> set freed = dom (ports st) - dom ports' \<and>
    net_filter junk msg cnt avail reorder ifp st =
      Some (sends,
        without_limits (map snd dead) (ifp\<lparr>if_filters := list_after v reorder k [] fs,
          free_headers := free_headers ifp + length (filter (header_freed v) seen)\<rparr>),
        st\<lparr>ports := ports', events := events st @ map Port_freed freed\<rparr>) \<and>
    subseq (map np_priority (list_after v reorder k [] fs)) (map np_priority fs)"
proof -
  let ?nd = "\<lparr>nd_filters = fs, nd_ports = st, nd_sends = [], nd_dead_infp = [], nd_dead_entp = [], nd_freed = 0\<rparr>"
  obtain nd k where nd: "filter_packet junk msg cnt avail reorder fs st = Some nd"
      "loop_result v avail reorder [] fs st ?nd k nd"
    using filter_iterate_exact [OF assms(2,3), of ?nd v avail reorder "[]"] assms(4)
    by (auto simp: filter_packet_def)
  let ?sends = "take k (deliveries v fs)"
  let ?dead = "concat (map (dead_of v) (examined v k fs))"
  have res: "cut_at avail 0 (length (deliveries v fs)) k" "nd_sends nd = ?sends" "nd_ports nd = with_sends st ?sends"
    "nd_filters nd = list_after v reorder k [] fs" "nd_freed nd = length (filter (header_freed v) (examined v k fs))"
    "mset ?dead = mset (map infp_right (nd_dead_infp nd) @ map entp_right (nd_dead_entp nd))"
    using nd(2) by (simp_all add: loop_result_def Let_def dead_rights_def)
  have rel: "releasable (map fst ?dead) (ports (with_sends st ?sends))"
    using dead_releasable [OF assms(5,4), of ?sends k] by (simp add: set_take_subset)
  have "events (with_sends st ?sends) = events st" by (simp add: with_sends_def)
  moreover have "(with_sends st ?sends)\<lparr>ports := f, events := es\<rparr> = st\<lparr>ports := f, events := es\<rparr>" for f es
    by (simp add: with_sends_def)
  ultimately show ?thesis
    using free_dead_exact [OF res(6) rel, of "ifp\<lparr>if_filters := list_after v reorder k [] fs,
        free_headers := free_headers ifp + length (filter (header_freed v) (examined v k fs))\<rparr>"]
      nd(1) res(1-5) assms(1,3) list_after_priorities
    by (fastforce simp: net_filter_def)
qed

definition sample_port :: "bool \<Rightarrow> ipc_port" where
  "sample_port active = \<lparr>ip_bits = if active then 0x80000000 else 0, ip_references = 3, ip_receiver_name = 0x103,
     ip_data = 0, ip_mscount = 0, ip_srights = 2, ip_sorights = 0, ip_nsrequest = 0, ip_pdrequest = 0,
     ip_dnrequests = None, ip_pset = 0, ip_seqno = 0, ip_msgcount = 0, ip_qlimit = 5, ip_messages = [], ip_blocked = []\<rparr>"

definition sample_ports :: port_state where
  "sample_ports = \<lparr>ports = [0x100 \<mapsto> sample_port True, 0x200 \<mapsto> sample_port False, 0x300 \<mapsto> sample_port True], locked = {},
     multiple = False, timestamp_data = 0, events = []\<rparr>"

definition sample_filter :: "ptr \<Rightarrow> int \<Rightarrow> filter_t \<Rightarrow> net_rcv_port" where
  "sample_filter p priority w = \<lparr>np_rcv_port = p, np_rcv_qlimit = 5, np_rcv_count = 0, np_priority = priority,
     np_filter = [0x0010, 0x2801, w] @ replicate 125 0, np_count = 3,
     np_hash = \<lparr>n_keys = 0, ref_count = 0, hash_table = []\<rparr>\<rparr>"

definition sample_junk :: junk where
  "sample_junk = \<lparr>junk_stack = replicate 33 0xdead, junk_A = 0, junk_X = 0, junk_mem = replicate 16 0\<rparr>"

definition sample_filters :: "net_rcv_port list" where
  "sample_filters = [sample_filter 0x200 90 8, sample_filter 0x100 50 8, sample_filter 0x300 40 9, sample_filter 0x300 30 8]"

definition sample_msg :: "byte list" where
  "sample_msg = replicate 96 0 @ [8, 0, 1] @ replicate 61 0"

text \<open>
  Of four filters the first has a dead port and the third rejects the packet; the other two get a message.
\<close>

theorem net_filter_delivers_witness:
  "\<exists>st'. net_filter sample_junk sample_msg 3 (\<lambda>n. True) False
      \<lparr>if_filters = sample_filters, free_headers = 4, net_queue_free_min = 9, net_kmsg_max = 40\<rparr> sample_ports =
    Some ([(0x100, 3), (0x300, 3)],
      \<lparr>if_filters = [(sample_filter 0x100 50 8)\<lparr>np_rcv_count := 1\<rparr>, sample_filter 0x300 40 9,
         (sample_filter 0x300 30 8)\<lparr>np_rcv_count := 1\<rparr>],
       free_headers = 4, net_queue_free_min = 8, net_kmsg_max = 34\<rparr>, st') \<and>
    ports st' 0x100 = Some ((sample_port True)\<lparr>ip_references := 4, ip_srights := 3\<rparr>) \<and>
    ports st' 0x200 = Some ((sample_port False)\<lparr>ip_references := 2\<rparr>) \<and> events st' = []"
proof -
  let ?ifp = "\<lparr>if_filters = sample_filters, free_headers = 4, net_queue_free_min = 9, net_kmsg_max = 40\<rparr>"
  let ?v = "verdict_of (run_filter sample_junk sample_msg 3) (port_alive sample_ports)"
  have ready: "list_all (filter_ready sample_junk sample_msg 3 sample_ports (length sample_filters)) sample_filters"
    by code_simp
  have rel: "releasable (map fst (concat (map (dead_of ?v) sample_filters))) (ports sample_ports)" by code_simp
  have fs: "if_filters ?ifp = sample_filters" and "locked sample_ports = {}" by (simp_all add: sample_ports_def)
  note facts = net_filter_delivers [OF fs ready this(2) refl rel, of "\<lambda>n. True" False]
  have spec: "deliveries ?v sample_filters = [(0x100, 3), (0x300, 3)]"
    "map fst (concat (map (dead_of ?v) (examined ?v 2 sample_filters))) = [0x200]"
    "map snd (concat (map (dead_of ?v) (examined ?v 2 sample_filters))) = [5]"
    "filter (header_freed ?v) (examined ?v 2 sample_filters) = []"
    "list_after ?v False 2 [] sample_filters = [(sample_filter 0x100 50 8)\<lparr>np_rcv_count := 1\<rparr>, sample_filter 0x300 40 9,
         (sample_filter 0x300 30 8)\<lparr>np_rcv_count := 1\<rparr>]"
    by code_simp+
  let ?ports = "given_back [0x200] (ports (with_sends sample_ports [(0x100, 3), (0x300, 3)]))"
  have ports: "?ports 0x100 = Some ((sample_port True)\<lparr>ip_references := 4, ip_srights := 3\<rparr>)"
    "?ports 0x200 = Some ((sample_port False)\<lparr>ip_references := 2\<rparr>)"
    by code_simp+
  have "dom ?ports = dom (ports sample_ports)"
    by (auto simp: given_back_def with_sends_def sent_to_def sample_ports_def sample_port_def minus_rights_def split: if_splits)
  then have none: "freed = []" if "set freed = dom (ports sample_ports) - dom ?ports" for freed
    using that by simp
  let ?given = "\<lambda>k. given_back (map fst (concat (map (dead_of ?v) (examined ?v k sample_filters))))
    (ports (with_sends sample_ports (take k (deliveries ?v sample_filters))))"
  obtain k freed where k: "cut_at (\<lambda>n. True) 0 (length (deliveries ?v sample_filters)) k"
    and freed: "set freed = dom (ports sample_ports) - dom (?given k)"
    and run: "net_filter sample_junk sample_msg 3 (\<lambda>n. True) False ?ifp sample_ports =
      Some (take k (deliveries ?v sample_filters),
        without_limits (map snd (concat (map (dead_of ?v) (examined ?v k sample_filters))))
          (?ifp\<lparr>if_filters := list_after ?v False k [] sample_filters,
            free_headers := free_headers ?ifp + length (filter (header_freed ?v) (examined ?v k sample_filters))\<rparr>),
        sample_ports\<lparr>ports := ?given k, events := events sample_ports @ map Port_freed freed\<rparr>)"
    using facts by blast
  have "k = 2" using k unfolding spec by (simp add: cut_at_def)
  moreover have "events sample_ports = []" by (simp add: sample_ports_def)
  ultimately show ?thesis
    using run freed none ports unfolding \<open>k = 2\<close> spec by (simp add: without_limits_def)
qed

end
