(* ===== verification/Net_Io_Props.thy ===== *)
theory Net_Io_Props
  imports Net_Delivery
begin

text \<open>
  What the installation of a filter does to the list of filters, to the ports and to the accounts of the interface. The lemmas
  on \<^verbatim>\<open>net_set_filter\<close> are for interfaces whose sessions have live ports other than the one that is being set;
  \<open>gc_stops_after_head\<close> shows what happens to sessions otherwise.
\<close>

subsection \<open>The scan of the list\<close>

text \<open>The filters that the call removes.\<close>

definition stale_filter :: "port_state \<Rightarrow> ptr \<Rightarrow> net_rcv_port \<Rightarrow> bool" where
  "stale_filter st rcv_port infp \<longleftrightarrow>
     np_rcv_port infp \<noteq> 0 \<and> (np_rcv_port infp = rcv_port \<or> \<not> port_alive st (np_rcv_port infp))"

text \<open>A filter of one port, whose port has not been freed.\<close>

definition plain_filter :: "port_state \<Rightarrow> net_rcv_port \<Rightarrow> bool" where
  "plain_filter st infp \<longleftrightarrow> np_rcv_port infp \<noteq> 0 \<and> (IP_VALID (np_rcv_port infp) \<longrightarrow> ports st (np_rcv_port infp) \<noteq> None)"

text \<open>
  A filter of many sessions, none of them stale, that does not take the new session itself.
\<close>

definition quiet_sessions :: "port_state \<Rightarrow> ptr \<Rightarrow> (net_rcv_port \<Rightarrow> bool option) \<Rightarrow> net_rcv_port \<Rightarrow> bool" where
  "quiet_sessions st rcv_port same infp \<longleftrightarrow>
     np_rcv_port infp = 0 \<and> same infp = Some False \<and> length (hash_table (np_hash infp)) = NET_HASH_SIZE \<and>
     list_all (list_all (\<lambda>e. he_rcv_port e \<noteq> rcv_port \<and> port_alive st (he_rcv_port e))) (hash_table (np_hash infp))"

definition scannable :: "port_state \<Rightarrow> ptr \<Rightarrow> (net_rcv_port \<Rightarrow> bool option) \<Rightarrow> net_rcv_port list \<Rightarrow> bool" where
  "scannable st rcv_port same fs \<longleftrightarrow>
     list_all (\<lambda>infp. plain_filter st infp \<or> quiet_sessions st rcv_port same infp) fs"

lemma stale_plain:
  "plain_filter st infp \<Longrightarrow> stale st rcv_port (np_rcv_port infp) = Some (stale_filter st rcv_port infp)"
  by (auto simp: plain_filter_def stale_def stale_filter_def port_alive_def)

lemma stale_alive: "p \<noteq> rcv_port \<and> port_alive st p \<Longrightarrow> stale st rcv_port p = Some False"
  by (auto simp: stale_def port_alive_def split: option.splits)

lemma gc_chain_quiet:
  "list_all (\<lambda>e. he_rcv_port e \<noteq> rcv_port \<and> port_alive st (he_rcv_port e)) chain \<Longrightarrow>
   gc_chain (stale st rcv_port) used h j chain hp dead = Some (False, hp, dead)"
  by (induction chain arbitrary: j) (auto simp: stale_alive)

lemma gc_table_quiet:
  assumes "list_all (list_all (\<lambda>e. he_rcv_port e \<noteq> rcv_port \<and> port_alive st (he_rcv_port e))) (hash_table hp)"
    and "list_all (\<lambda>h. h < length (hash_table hp)) hs"
  shows "gc_table (stale st rcv_port) used hs hp dead = Some (False, hp, dead)"
  using assms(2)
proof (induction hs)
  case (Cons h hs)
  then have "hash_table hp ! h \<in> set (hash_table hp)" by simp
  then have "gc_chain (stale st rcv_port) used h 0 (hash_table hp ! h) hp dead = Some (False, hp, dead)"
    using assms(1) by (intro gc_chain_quiet) (simp add: list_all_iff)
  then show ?case using Cons by (simp add: arr_get_def)
qed simp

lemma scan_exact:
  "scannable st rcv_port same fs \<Longrightarrow> \<not> sc_my sc \<Longrightarrow>
   scan_filters (stale st rcv_port) same fs sc =
     Some (sc\<lparr>sc_filters := sc_filters sc @ map (\<lambda>f. (f, False)) (filter (\<lambda>f. \<not> stale_filter st rcv_port f) fs),
              sc_dead_infp := rev (filter (stale_filter st rcv_port) fs) @ sc_dead_infp sc\<rparr>)"
proof (induction fs arbitrary: sc)
  case Nil
  then show ?case by simp
next
  case (Cons f fs)
  show ?case
  proof (cases "plain_filter st f")
    case True
    then have "np_rcv_port f \<noteq> 0" "stale st rcv_port (np_rcv_port f) = Some (stale_filter st rcv_port f)"
      by (simp_all add: stale_plain) (simp add: plain_filter_def)
    then show ?thesis using Cons by (simp add: scannable_def)
  next
    case False
    then have quiet: "quiet_sessions st rcv_port same f" using Cons.prems by (simp add: scannable_def)
    then have "gc_table (stale st rcv_port) False [0..<NET_HASH_SIZE] (np_hash f) (sc_dead_entp sc) =
        Some (False, np_hash f, sc_dead_entp sc)"
      by (intro gc_table_quiet) (simp_all add: quiet_sessions_def list_all_iff)
    then show ?thesis
      using Cons quiet by (simp add: scannable_def quiet_sessions_def stale_filter_def)
  qed
qed

definition descending :: "net_rcv_port list \<Rightarrow> bool" where
  "descending fs \<longleftrightarrow> sorted_wrt (\<ge>) (map np_priority fs)"

lemma insert_filter_mid:
  assumes "descending (map fst fs)"
  shows "map fst (insert_filter (new, True) fs) =
    filter (\<lambda>f. np_priority f \<ge> np_priority new) (map fst fs) @ new #
    filter (\<lambda>f. np_priority f < np_priority new) (map fst fs)"
  using assms
proof (induction fs)
  case Nil
  then show ?case by simp
next
  case (Cons f fs)
  then have le: "\<forall>g \<in> set fs. np_priority (fst g) \<le> np_priority (fst f)" by (auto simp: descending_def)
  show ?case
  proof (cases "np_priority new > np_priority (fst f)")
    case True
    then have "filter (\<lambda>g. np_priority g \<ge> np_priority new) (map fst fs) = []"
      "filter (\<lambda>g. np_priority g < np_priority new) (map fst fs) = map fst fs"
      using le by (force simp: filter_empty_conv filter_id_conv)+
    then show ?thesis using True by simp
  next
    case False
    then show ?thesis using Cons by (simp add: descending_def)
  qed
qed

lemma descending_filter: "descending fs \<Longrightarrow> descending (filter P fs)"
  by (induction fs) (auto simp: descending_def)

lemma add_q_info:
  assumes "locked st = {}" and "port_alive st rcv_port"
  shows "net_add_q_info st rcv_port ifp = Some (ip_qlimit (the (ports st rcv_port)), st,
    ifp\<lparr>net_queue_free_min := net_queue_free_min ifp + 1,
        net_kmsg_max := net_kmsg_max ifp + ip_qlimit (the (ports st rcv_port)) + 1\<rparr>)"
  using assms
  by (cases st) (auto simp: net_add_q_info_def port_alive_def ip_lock_def ip_unlock_def split: option.splits)

subsection \<open>Installing a filter\<close>

text \<open>
  C23. \<^verbatim>\<open>net_set_filter\<close> with a valid filter without a match instruction for a live port, on an interface whose filters are
  sorted by priority and whose sessions, if it has any, have live ports other than this one. It removes exactly the
  filters of the same port and those with a dead port, and puts the new filter, with its program, behind all remaining
  filters of at least its priority; session filters stay as they are and the list stays sorted. Each
  removed filter gives its send right back, which frees a dead port with its last reference; all other ports
  are as before. The accounts grow by the new filter and shrink by the removed ones.
\<close>

theorem set_filter_replaces:
  assumes "check_filter fp = Some (Inr None)" and "length fp \<le> NET_MAX_FILTER" and "length array0 = NET_MAX_FILTER"
    and "scannable st rcv_port (\<lambda>f. Some False) (if_filters ifp)" and "descending (if_filters ifp)"
    and "locked st = {}" and "port_alive st rcv_port" and "qlimit = ip_qlimit (the (ports st rcv_port))"
    and "olds = filter (stale_filter st rcv_port) (if_filters ifp)"
    and "releasable (map np_rcv_port olds) (ports st)"
  shows "\<exists>new fs' ports' freed.
    np_rcv_port new = rcv_port \<and> np_rcv_qlimit new = qlimit \<and> np_rcv_count new = 0 \<and> np_priority new = priority \<and>
    take (np_count new) (np_filter new) = fp \<and>
    fs' = filter (\<lambda>f. \<not> stale_filter st rcv_port f \<and> np_priority f \<ge> priority) (if_filters ifp) @ new #
          filter (\<lambda>f. \<not> stale_filter st rcv_port f \<and> np_priority f < priority) (if_filters ifp) \<and>
    descending fs' \<and>
    ports' = given_back (map np_rcv_port olds) (ports st) \<and>
    distinct freed \<and> set freed = dom (ports st) - dom ports' \<and>
    net_set_filter array0 keys0 ifp st rcv_port priority fp =
      Some (D_SUCCESS,
        without_limits (map np_rcv_qlimit olds) (ifp\<lparr>if_filters := fs',
          net_queue_free_min := net_queue_free_min ifp + 1, net_kmsg_max := net_kmsg_max ifp + qlimit + 1\<rparr>),
        st\<lparr>ports := ports', events := events st @ map Port_freed freed\<rparr>)"
proof -
  let ?live = "filter (\<lambda>f. \<not> stale_filter st rcv_port f) (if_filters ifp)"
  have live: "descending (map fst (map (\<lambda>f. (f, False)) ?live))"
    using descending_filter [OF assms(5)] by (simp add: comp_def)
  let ?new = "\<lparr>np_rcv_port = rcv_port, np_rcv_qlimit = qlimit, np_rcv_count = 0,
    np_priority = priority, np_filter = fp @ drop (length fp) array0, np_count = length fp,
    np_hash = \<lparr>n_keys = 0, ref_count = 0, hash_table = replicate NET_HASH_SIZE []\<rparr>\<rparr>"
  have ins: "map fst (insert_filter (?new, True) (map (\<lambda>f. (f, False)) ?live)) =
    filter (\<lambda>f. \<not> stale_filter st rcv_port f \<and> np_priority f \<ge> priority) (if_filters ifp) @ ?new #
    filter (\<lambda>f. \<not> stale_filter st rcv_port f \<and> np_priority f < priority) (if_filters ifp)" (is "_ = ?fs")
    unfolding insert_filter_mid [OF live] by (simp add: comp_def conj_commute)
  have sorted: "descending ?fs"
    using assms(5) by (auto simp: descending_def sorted_wrt_append sorted_wrt_map intro: sorted_wrt_filter)
  have same: "same_filter None priority fp = (\<lambda>f. Some False)" by (simp add: same_filter_def fun_eq_iff)
  let ?ifp = "ifp\<lparr>if_filters := ?fs, net_queue_free_min := net_queue_free_min ifp + 1,
    net_kmsg_max := net_kmsg_max ifp + qlimit + 1\<rparr>"
  have "set_filter_locked array0 keys0 ifp st rcv_port priority fp = Some (D_SUCCESS, ?ifp, st, rev olds, [])"
    using assms(1,2,4,6-9) ins by (simp add: set_filter_locked_def scan_exact same add_q_info Let_def)
  moreover obtain freed where "free_dead (rev olds) [] st ?ifp =
      Some (st\<lparr>ports := given_back (map np_rcv_port olds) (ports st), events := events st @ map Port_freed freed\<rparr>,
        without_limits (map np_rcv_qlimit olds) ?ifp)"
    "distinct freed" "set freed = dom (ports st) - dom (given_back (map np_rcv_port olds) (ports st))"
    using free_dead_exact [of "map infp_right olds" "rev olds" "[]" st ?ifp] assms(6,10)
    by (auto simp: comp_def infp_right_def)
  ultimately show ?thesis
    using sorted assms(3) by (intro exI [of _ ?new] exI [of _ ?fs] exI [of _ "given_back (map np_rcv_port olds) (ports st)"] exI [of _ freed])
      (simp add: net_set_filter_def)
qed

text \<open>
  An interface with four filters of one port each and a session filter with one live session: the new filter takes
  the place of two filters of its port and of one with a dead port.
\<close>

definition sample_sessions :: net_rcv_port where
  "sample_sessions = \<lparr>np_rcv_port = 0, np_rcv_qlimit = 0, np_rcv_count = 0, np_priority = 55,
     np_filter = [0xfc00] @ replicate 127 0, np_count = 1,
     np_hash = \<lparr>n_keys = 1, ref_count = 1,
       hash_table = [\<lparr>he_rcv_port = 0x400, he_rcv_qlimit = 5, he_keys = [7, 0, 0, 0]\<rparr>] # replicate 255 []\<rparr>\<rparr>"

definition sample_if :: "nat \<Rightarrow> net_if" where
  "sample_if free = \<lparr>if_filters = [sample_filter 0x200 90 8, sample_sessions, sample_filter 0x100 50 8, sample_filter 0x300 40 9,
     sample_filter 0x300 30 8], free_headers = free, net_queue_free_min = 9, net_kmsg_max = 40\<rparr>"

definition session_ports :: port_state where
  "session_ports = sample_ports\<lparr>ports := (ports sample_ports)
     (0x400 \<mapsto> sample_port True, 0x300 \<mapsto> (sample_port True)\<lparr>ip_references := 4, ip_srights := 3\<rparr>)\<rparr>"

theorem set_filter_replaces_witness:
  "\<exists>ifp' new st'. net_set_filter (replicate 128 0) [0, 0, 0, 0] (sample_if 4) session_ports 0x300 60 [0x0010] =
      Some (D_SUCCESS, ifp', st') \<and>
    np_rcv_port new = 0x300 \<and> np_priority new = 60 \<and> take (np_count new) (np_filter new) = [0x0010] \<and>
    ifp' = \<lparr>if_filters = [new, sample_sessions, sample_filter 0x100 50 8], free_headers = 4,
      net_queue_free_min = 7, net_kmsg_max = 28\<rparr> \<and>
    ports st' 0x300 = Some ((sample_port True)\<lparr>ip_references := 2, ip_srights := 1\<rparr>) \<and>
    ports st' 0x200 = Some ((sample_port False)\<lparr>ip_references := 2\<rparr>)"
proof -
  have check: "check_filter [0x0010] = Some (Inr None)" by code_simp
  have len: "length [0x0010 :: filter_t] \<le> NET_MAX_FILTER" "length (replicate 128 (0 :: filter_t)) = NET_MAX_FILTER"
    by (simp_all add: NET_MAX_FILTER_def)
  have scan: "scannable session_ports 0x300 (\<lambda>f. Some False) (if_filters (sample_if 4))" by code_simp
  have desc: "descending (if_filters (sample_if 4))"
    by (simp add: descending_def sample_if_def sample_sessions_def sample_filter_def)
  have alive: "port_alive session_ports 0x300" by code_simp
  have q: "locked session_ports = {}" "5 = ip_qlimit (the (ports session_ports 0x300))"
    by (simp_all add: session_ports_def sample_ports_def sample_port_def)
  have olds: "[sample_filter 0x200 90 8, sample_filter 0x300 40 9, sample_filter 0x300 30 8] =
      filter (stale_filter session_ports 0x300) (if_filters (sample_if 4))" (is "?olds = _")
    by code_simp
  have rel: "releasable (map np_rcv_port ?olds) (ports session_ports)" by code_simp
  have fs: "filter (\<lambda>f. \<not> stale_filter session_ports 0x300 f \<and> np_priority f \<ge> 60) (if_filters (sample_if 4)) = []"
    "filter (\<lambda>f. \<not> stale_filter session_ports 0x300 f \<and> np_priority f < 60) (if_filters (sample_if 4)) =
      [sample_sessions, sample_filter 0x100 50 8]"
    "map np_rcv_port ?olds = [0x200, 0x300, 0x300]" "map np_rcv_qlimit ?olds = [5, 5, 5]"
    by code_simp+
  have ports: "given_back [0x200, 0x300, 0x300] (ports session_ports) 0x300 =
      Some ((sample_port True)\<lparr>ip_references := 2, ip_srights := 1\<rparr>)"
    "given_back [0x200, 0x300, 0x300] (ports session_ports) 0x200 = Some ((sample_port False)\<lparr>ip_references := 2\<rparr>)"
    by code_simp+
  show ?thesis
    using set_filter_replaces [OF check len scan desc q(1) alive q(2) olds rel, of 60 "[0, 0, 0, 0]"] ports
    unfolding fs by (auto simp: without_limits_def sample_if_def)
qed

text \<open>
  C27. What \<^verbatim>\<open>net_set_filter\<close> has done when it fails for want of a hash header. The filter has a match instruction, no
  session filter of the interface has the same program, no hash header is free, and the sessions
  of the interface have live ports other than the one given. The result is \<^verbatim>\<open>D_NO_MEMORY\<close>; the send right that the call
  was given is consumed, although the comment says that only a successful call does so, and the
  filters that the port already had are removed, with those of dead ports.
\<close>

theorem set_filter_no_memory:
  assumes "check_filter fp = Some (Inr (Some m))"
    and "scannable st rcv_port (same_filter (Some m) priority fp) (if_filters ifp)"
    and "free_headers ifp = 0" and "locked st = {}" and "olds = filter (stale_filter st rcv_port) (if_filters ifp)"
    and "releasable (rcv_port # map np_rcv_port olds) (ports st)"
  shows "\<exists>ports' freed. ports' = given_back (rcv_port # map np_rcv_port olds) (ports st) \<and>
    distinct freed \<and> set freed = dom (ports st) - dom ports' \<and>
    net_set_filter array0 keys0 ifp st rcv_port priority fp =
      Some (D_NO_MEMORY,
        without_limits (map np_rcv_qlimit olds)
          (ifp\<lparr>if_filters := filter (\<lambda>f. \<not> stale_filter st rcv_port f) (if_filters ifp)\<rparr>),
        st\<lparr>ports := ports', events := events st @ map Port_freed freed\<rparr>)"
proof -
  let ?ps = "rcv_port # map np_rcv_port (rev olds)"
  let ?ifp = "ifp\<lparr>if_filters := filter (\<lambda>f. \<not> stale_filter st rcv_port f) (if_filters ifp)\<rparr>"
  have perm: "mset ?ps = mset (rcv_port # map np_rcv_port olds)"
    "mset (map np_rcv_qlimit (rev olds)) = mset (map np_rcv_qlimit olds)"
    by (simp_all only: mset.simps mset_map mset_rev)
  have "set_filter_locked array0 keys0 ifp st rcv_port priority fp =
      do { st \<leftarrow> ipc_port_release_send st rcv_port; Some (D_NO_MEMORY, ?ifp, st, rev olds, []) }"
    using assms(1-3,5) by (simp add: set_filter_locked_def scan_exact Let_def comp_def)
  then have "net_set_filter array0 keys0 ifp st rcv_port priority fp =
      map_option (\<lambda>st. (D_NO_MEMORY, without_limits (map np_rcv_qlimit olds) ?ifp, st)) (release_all ?ps st)"
    by (auto simp: net_set_filter_def free_dead_def free_dead_infp_release without_limits_perm [OF perm(2)]
        split: bind_splits)
  moreover have "releasable ?ps (ports st)" using releasable_sub [OF _ assms(6)] perm(1) by simp
  ultimately show ?thesis
    using release_all_exact [OF _ assms(4), of ?ps] unfolding given_back_perm [OF perm(1)] by auto
qed

text \<open>A program with one key: the word at offset 2 of the packet must be 7.\<close>

theorem set_filter_no_memory_witness:
  "\<exists>ifp' st'. net_set_filter (replicate 128 0) [0, 0, 0, 0] (sample_if 0) session_ports 0x300 60
      [0xfc00, 0, 0, 0, 0x28, 0, 2, 0, 0x02, 0, 0, 0, 0x1e, 1, 64, 0, 0x17, 0, 7, 0, 0x06, 0, 0, 0] =
    Some (D_NO_MEMORY, ifp', st') \<and>
    if_filters ifp' = [sample_sessions, sample_filter 0x100 50 8] \<and>
    ports st' 0x300 = Some ((sample_port True)\<lparr>ip_references := 1, ip_srights := 0\<rparr>)"
proof -
  let ?fp = "[0xfc00, 0, 0, 0, 0x28, 0, 2, 0, 0x02, 0, 0, 0, 0x1e, 1, 64, 0, 0x17, 0, 7, 0, 0x06, 0, 0, 0] :: filter_t list"
  have check: "check_filter ?fp = Some (Inr (Some 3))" by code_simp
  have scan: "scannable session_ports 0x300 (same_filter (Some 3) 60 ?fp) (if_filters (sample_if 0))" by code_simp
  have q: "free_headers (sample_if 0) = 0" "locked session_ports = {}"
    by (simp_all add: sample_if_def session_ports_def sample_ports_def)
  have olds: "[sample_filter 0x200 90 8, sample_filter 0x300 40 9, sample_filter 0x300 30 8] =
      filter (stale_filter session_ports 0x300) (if_filters (sample_if 0))" (is "?olds = _")
    by code_simp
  have rel: "releasable (0x300 # map np_rcv_port ?olds) (ports session_ports)" by code_simp
  have fs: "filter (\<lambda>f. \<not> stale_filter session_ports 0x300 f) (if_filters (sample_if 0)) =
      [sample_sessions, sample_filter 0x100 50 8]"
    "map np_rcv_port ?olds = [0x200, 0x300, 0x300]" "map np_rcv_qlimit ?olds = [5, 5, 5]"
    by code_simp+
  have ports: "given_back [0x300, 0x200, 0x300, 0x300] (ports session_ports) 0x300 =
      Some ((sample_port True)\<lparr>ip_references := 1, ip_srights := 0\<rparr>)"
    by code_simp
  show ?thesis
    using set_filter_no_memory [OF check scan q olds rel, of "replicate 128 0" "[0, 0, 0, 0]"] ports
    unfolding fs by (auto simp: without_limits_def)
qed

text \<open>
  The garbage collection of a chain ends with the removal of its first session: another session of the same
  port in the chain stays.
\<close>

theorem gc_stops_after_head:
  assumes "he_rcv_port e = rcv_port" and "he_rcv_port f = rcv_port" and "h < length (hash_table hp)"
    and "hash_table hp ! h = e # f # rest"
  shows "\<exists>hp'. gc_chain (stale st rcv_port) used h 0 (hash_table hp ! h) hp dead = Some (False, hp', e # dead) \<and>
    hash_table hp' ! h = f # rest"
  using assms by (simp add: hash_ent_remove_def arr_get_def arr_set_def stale_def Let_def)

end
