(* ===== verification/Vm_External.thy ===== *)
theory Vm_External
  imports Mach_Prelude
begin

text \<open>
  The maps of pages written to external storage (\<^verbatim>\<open>kernel/vm/vm_external.c\<close>): a bit per
  page in a byte array, as a hint to the fault handler. A null \<^verbatim>\<open>vm_external_t\<close> and a
  null \<^verbatim>\<open>existence_map\<close> are \<open>None\<close>; the memory that \<^verbatim>\<open>zalloc\<close> returns
  for a new map, which is not cleared, is an argument of the creation, \<open>None\<close> if the zone is exhausted. An
  index outside the map has no result.
\<close>

unbundle bit_operations_syntax

definition SMALL_SIZE :: nat where "SMALL_SIZE = 128 div 8"

definition LARGE_SIZE :: nat where "LARGE_SIZE = 8192 div 8"

datatype vm_external_state = STATE_EXISTS | STATE_UNKNOWN | STATE_ABSENT

record vm_external =
  existence_size :: nat
  existence_map :: "8 word list option"

definition atop :: "u32 \<Rightarrow> u32" where "atop x = drop_bit 12 x"

text \<open>
  \<open>small\<close> and \<open>large\<close> are the elements that the two zones of maps hand out, which are exhaustible: \<open>None\<close> is the
  address 0 that \<^verbatim>\<open>zalloc\<close> returns then. \<open>zone\<close> tells whether the module has been initialized. The size of a map too
  large for both zones is left as it was.
\<close>

definition vm_external_create ::
  "bool \<Rightarrow> nat \<Rightarrow> 8 word list option \<Rightarrow> 8 word list option \<Rightarrow> u32 \<Rightarrow> vm_external option" where
  "vm_external_create zone junk small large sz =
     (if \<not> zone then None
      else let bytes = unat (drop_bit 3 (atop sz + 7)) in
           Some (if bytes \<le> SMALL_SIZE then \<lparr>existence_size = SMALL_SIZE, existence_map = small\<rparr>
                 else if bytes \<le> LARGE_SIZE then \<lparr>existence_size = LARGE_SIZE, existence_map = large\<rparr>
                 else \<lparr>existence_size = junk, existence_map = None\<rparr>))"

text \<open>The zones that an object returns its memory to: small, large, and the one for the headers.\<close>

datatype zone = Small_zone | Large_zone | External_zone

definition vm_external_destroy :: "vm_external option \<Rightarrow> zone list" where
  "vm_external_destroy e =
     (case e of
        None \<Rightarrow> []
      | Some e \<Rightarrow> (if existence_map e = None then []
                   else if existence_size e \<le> SMALL_SIZE then [Small_zone] else [Large_zone]) @ [External_zone])"

definition vm_external_state_get :: "bool \<Rightarrow> vm_external option \<Rightarrow> u32 \<Rightarrow> vm_external_state option" where
  "vm_external_state_get unsafe e offset =
     (case e of
        None \<Rightarrow> Some STATE_UNKNOWN
      | Some e \<Rightarrow>
          (case existence_map e of
             None \<Rightarrow> Some STATE_UNKNOWN
           | Some m \<Rightarrow>
               if unsafe then Some STATE_UNKNOWN
               else let b = atop offset; byte = unat (drop_bit 3 b) in
                    if existence_size e \<le> byte then Some STATE_UNKNOWN
                    else do { x \<leftarrow> arr_get m byte;
                              Some (if x AND push_bit (unat (b AND 7)) 1 \<noteq> 0 then STATE_EXISTS else STATE_ABSENT) }))"

definition vm_external_state_set ::
  "vm_external option \<Rightarrow> u32 \<Rightarrow> vm_external_state \<Rightarrow> vm_external option option" where
  "vm_external_state_set e offset state =
     (case e of
        None \<Rightarrow> Some None
      | Some v \<Rightarrow>
          (case existence_map v of
             None \<Rightarrow> Some e
           | Some m \<Rightarrow>
               if state \<noteq> STATE_EXISTS then Some e
               else let b = atop offset; byte = unat (drop_bit 3 b) in
                    if existence_size v \<le> byte then Some e
                    else do { x \<leftarrow> arr_get m byte;
                              m \<leftarrow> arr_set m byte (x OR push_bit (unat (b AND 7)) 1);
                              Some (Some (v\<lparr>existence_map := Some m\<rparr>)) }))"

subsection \<open>The map as a set of pages\<close>

text \<open>A map is as long as it says; the pages with their bit set.\<close>

definition external_ok :: "vm_external option \<Rightarrow> bool" where
  "external_ok e \<longleftrightarrow> (case e of None \<Rightarrow> True | Some v \<Rightarrow>
     (case existence_map v of None \<Rightarrow> True | Some m \<Rightarrow> length m = existence_size v))"

definition mapped :: "vm_external option \<Rightarrow> u32 \<Rightarrow> bool" where
  "mapped e offset \<longleftrightarrow> (case e of None \<Rightarrow> False | Some v \<Rightarrow>
     (case existence_map v of None \<Rightarrow> False | Some m \<Rightarrow> unat (atop offset) div 8 < length m))"

definition written :: "vm_external option \<Rightarrow> u32 \<Rightarrow> bool" where
  "written e offset \<longleftrightarrow> (case e of None \<Rightarrow> False | Some v \<Rightarrow>
     (case existence_map v of None \<Rightarrow> False | Some m \<Rightarrow>
        bit (m ! (unat (atop offset) div 8)) (unat (atop offset) mod 8)))"

lemma unat_byte: "unat (drop_bit 3 (x :: u32)) = unat x div 8"
  unfolding unat_drop_bit_eq by (simp add: drop_bit_eq_div)

lemma unat_low: "unat ((x :: u32) AND 7) = unat x mod 8"
proof -
  have "7 = (mask 3 :: u32)" by (simp add: mask_eq_exp_minus_1)
  then have "x AND 7 = take_bit 3 x" by (simp only: take_bit_eq_mask)
  then have "unat (x AND 7) = take_bit 3 (unat x)" by (simp only: unsigned_take_bit_eq)
  then show ?thesis by (simp only: take_bit_eq_mod) simp
qed

lemma test_bit: "(x :: 8 word) AND push_bit n 1 \<noteq> 0 \<longleftrightarrow> bit x n"
  by (simp add: push_bit_eq_mult and_exp_eq_0_iff_not_bit)

lemma get_ok:
  assumes "external_ok e"
  shows "vm_external_state_get False e offset =
    Some (if \<not> mapped e offset then STATE_UNKNOWN else if written e offset then STATE_EXISTS else STATE_ABSENT)"
  using assms
  by (auto simp: vm_external_state_get_def external_ok_def mapped_def written_def unat_byte unat_low test_bit
      Let_def arr_get_def and_exp_eq_0_iff_not_bit split: option.splits)

lemma set_ok:
  assumes "external_ok e"
  shows "\<exists>e'. vm_external_state_set e offset state = Some e' \<and> external_ok e' \<and> mapped e' = mapped e \<and>
    (\<forall>x. mapped e x \<longrightarrow>
      written e' x = (written e x \<or> state = STATE_EXISTS \<and> atop x = atop offset))"
proof (cases "mapped e offset \<and> state = STATE_EXISTS")
  case False
  have "vm_external_state_set e offset state = Some e"
    using False assms
    by (auto simp: vm_external_state_set_def mapped_def external_ok_def unat_byte Let_def split: option.splits)
  moreover have "written e x = (written e x \<or> state = STATE_EXISTS \<and> atop x = atop offset)" if "mapped e x" for x
    using False that by (auto simp: mapped_def split: option.splits)
  ultimately show ?thesis using assms by blast
next
  case True
  then obtain v m where v: "e = Some v" "existence_map v = Some m" "unat (atop offset) div 8 < length m"
    by (auto simp: mapped_def split: option.splits)
  let ?i = "unat (atop offset) div 8" and ?k = "unat (atop offset) mod 8"
  let ?m = "m[?i := m ! ?i OR push_bit ?k 1]"
  have len: "length m = existence_size v" using assms v by (simp add: external_ok_def)
  have "vm_external_state_set e offset state = Some (Some (v\<lparr>existence_map := Some ?m\<rparr>))"
    using v len True by (simp add: vm_external_state_set_def unat_byte unat_low Let_def)
  moreover have "written (Some (v\<lparr>existence_map := Some ?m\<rparr>)) x =
      (written e x \<or> state = STATE_EXISTS \<and> atop x = atop offset)" if x: "mapped e x" for x
  proof -
    have same: "atop x = atop offset \<longleftrightarrow> unat (atop x) div 8 = ?i \<and> unat (atop x) mod 8 = ?k"
      by (metis div_mult_mod_eq word_unat_eq_iff)
    have "unat (atop x) mod 8 < LENGTH(8)" by simp
    then show ?thesis using v True x same
      by (auto simp: written_def mapped_def nth_list_update bit_or_iff bit_push_bit_iff bit_exp_iff possible_bit_def)
  qed
  ultimately show ?thesis using v len by (auto simp: external_ok_def mapped_def fun_eq_iff)
qed

text \<open>An element of a zone is as long as the zone says.\<close>

definition element :: "nat \<Rightarrow> 8 word list option \<Rightarrow> bool" where
  "element n x \<longleftrightarrow> (case x of None \<Rightarrow> True | Some m \<Rightarrow> length m = n)"

lemma create_ok:
  assumes "element SMALL_SIZE small" "element LARGE_SIZE large"
  shows "external_ok (vm_external_create zone junk small large sz)"
  using assms by (auto simp: vm_external_create_def external_ok_def element_def Let_def split: option.splits)

fun record_states :: "(u32 \<times> vm_external_state) list \<Rightarrow> vm_external option \<Rightarrow> vm_external option option" where
  "record_states [] e = Some e"
| "record_states ((offset, state) # xs) e = do { e \<leftarrow> vm_external_state_set e offset state; record_states xs e }"

lemma record_states_ok:
  assumes "external_ok e"
  shows "\<exists>e'. record_states xs e = Some e' \<and> external_ok e' \<and> mapped e' = mapped e \<and>
    (\<forall>x. mapped e x \<longrightarrow>
      written e' x = (written e x \<or> (\<exists>offset. (offset, STATE_EXISTS) \<in> set xs \<and> atop x = atop offset)))"
  using assms
proof (induction xs arbitrary: e)
  case (Cons p xs)
  obtain offset state where p: "p = (offset, state)" by (cases p)
  from set_ok [OF Cons.prems, of offset state] obtain e1 where e1:
    "vm_external_state_set e offset state = Some e1" "external_ok e1" "mapped e1 = mapped e"
    "\<forall>x. mapped e x \<longrightarrow> written e1 x = (written e x \<or> state = STATE_EXISTS \<and> atop x = atop offset)" by blast
  from Cons.IH [OF e1(2)] obtain e2 where e2: "record_states xs e1 = Some e2" "external_ok e2" "mapped e2 = mapped e"
    "\<forall>x. mapped e x \<longrightarrow>
      written e2 x = (written e1 x \<or> (\<exists>offset. (offset, STATE_EXISTS) \<in> set xs \<and> atop x = atop offset))"
    unfolding e1(3) by blast
  have "written e2 x = (written e x \<or> (\<exists>offset. (offset, STATE_EXISTS) \<in> set (p # xs) \<and> atop x = atop offset))"
    if "mapped e x" for x using e1(4) e2(4) that p by auto
  with e1(1) e2 p show ?case by auto
qed simp

text \<open>
  C36. The hints are sound. Whatever states have been recorded in a new map, and whatever the memory of
  the map held before, every operation returns, a page outside the map is unknown, a page recorded as
  existing is never reported absent, and a page is reported as existing only if it was recorded or its
  bit was set in the uncleared memory. All pages are unknown if the zone of the map was exhausted.
\<close>

theorem external_hints_sound:
  assumes "element SMALL_SIZE small" and "element LARGE_SIZE large"
    and "e = vm_external_create zone junk small large sz"
  shows "\<exists>e'. record_states xs e = Some e' \<and>
    vm_external_state_get False e' x =
      Some (if \<not> mapped e x then STATE_UNKNOWN
            else if written e x \<or> (\<exists>offset. (offset, STATE_EXISTS) \<in> set xs \<and> atop x = atop offset)
            then STATE_EXISTS else STATE_ABSENT) \<and>
    (small = None \<and> large = None \<longrightarrow> \<not> mapped e x)"
proof -
  have none: "small = None \<and> large = None \<longrightarrow> \<not> mapped e x"
    unfolding assms(3) by (simp add: vm_external_create_def mapped_def Let_def)
  have "external_ok e" unfolding assms(3) by (rule create_ok [OF assms(1,2)])
  from record_states_ok [OF this, of xs] obtain e' where e': "record_states xs e = Some e'" "external_ok e'"
    "mapped e' = mapped e"
    "\<forall>x. mapped e x \<longrightarrow>
      written e' x = (written e x \<or> (\<exists>offset. (offset, STATE_EXISTS) \<in> set xs \<and> atop x = atop offset))" by blast
  then show ?thesis using get_ok [OF e'(2), of x] none by auto
qed

theorem external_hints_sound_witness:
  "\<exists>e'. record_states [(8192, STATE_EXISTS), (4096, STATE_ABSENT)]
      (vm_external_create True 0 (Some (replicate 16 0)) None 65536) = Some e' \<and>
    vm_external_state_get False e' 8200 = Some STATE_EXISTS"
proof -
  let ?e = "vm_external_create True 0 (Some (replicate 16 0)) None 65536"
  have "vm_external_state_get False ?e 8200 = Some STATE_ABSENT" by code_simp
  then have "mapped ?e 8200"
    using get_ok [OF create_ok [of "Some (replicate 16 0)" None True 0 65536], of 8200]
    by (auto simp: element_def SMALL_SIZE_def split: if_splits)
  moreover have "atop 8200 = atop 8192" by code_simp
  ultimately show ?thesis
    using external_hints_sound [of "Some (replicate 16 0)" None ?e True 0 65536
        "[(8192, STATE_EXISTS), (4096, STATE_ABSENT)]" 8200]
    by (simp add: element_def SMALL_SIZE_def del: record_states.simps)
qed

end
