(* ===== verification/Spec2Isabelle.thy ===== *)
theory Spec2Isabelle
  imports Ipc_Entry_Props Ipc_Port_Destroy Ipc_Right_Props Lmm_Props Cirbuf Net_Filter_Props Bpf_Props Net_Io_Props Vm_External
begin

text \<open>
  This development verifies parts of the Mach 4 microkernel and of the libraries that boot it. The theories
  translate C functions into HOL functions, one definition for each function or each loop and branch
  that the proofs need by itself, and prove what the functions promise. Paths are relative to \<^verbatim>\<open>src/\<close>.

  \<^bold>\<open>The parts of the program and how they interact.\<close> A task names ports by 32-bit names. The
  names of a task form an IPC space: an array of entries, a splay tree for the names that do not fit the array,
  and a reverse hash from ports to names, local for the array and global for the tree. Each entry
  holds a right for a port, a queue of messages with reference counts, rights counts and
  registered notifications; receive rights travel in messages, which puts a port in transit to
  another. Device drivers deliver packets to ports through filters that user programs supply and the kernel checks and
  interprets; terminal drivers keep characters in circular buffers; the pager remembers in
  bit maps which pages it has written. Below all this the boot code hands out physical memory with the
  list memory manager, on which the C library's \<^verbatim>\<open>malloc\<close> is built.

  \<^bold>\<open>How C is translated\<close> (\<^verbatim>\<open>Mach_Prelude\<close>). An \<^verbatim>\<open>unsigned int\<close> or pointer is a 32-bit word with
  wrap-around; a structure is a record, an array a list, a linked list the list of its elements. A function
  that can fail an assertion, access memory outside an array or through a wild pointer, or run forever returns
  an option, and \<open>None\<close> is each of these; so \<open>f x = Some y\<close> says that the call returns, without failed
  assertion or stray access. Loops without an evident bound are \<open>partial_function (option)\<close>, and their return is
  part of the theorems; there is no fuel. Uninitialised memory, the result of allocators, and what other threads do while
  a lock is not held are arguments of the definitions, and the theorems quantify over them.

  \<^bold>\<open>Theories.\<close>

  \<^item> \<^verbatim>\<open>Ipc_Names\<close>: the macros of \<^verbatim>\<open>kernel/ipc/port.h\<close>, \<^verbatim>\<open>kernel/ipc/ipc_entry.h\<close> and
    \<^verbatim>\<open>include/mach/port.h\<close>; the user-reference checks are exact.
  \<^item> \<^verbatim>\<open>Name_Map\<close>, \<^verbatim>\<open>Ipc_Splay\<close>, \<^verbatim>\<open>Ipc_Traverse\<close>: \<^verbatim>\<open>kernel/ipc/ipc_splay.c\<close>. The locale of
    \<^verbatim>\<open>Name_Map\<close> is the contract of a finite map; the top-down splay tree implements it, and
    the pointer-reversing traversal visits every binding in order and restores the tree.
  \<^item> \<^verbatim>\<open>Ipc_State\<close>, \<^verbatim>\<open>Ipc_Hash_Local\<close>, \<^verbatim>\<open>Ipc_Hash\<close>: \<^verbatim>\<open>kernel/ipc/ipc_hash.c\<close>, the local
    open-addressing table with deletion by moving entries, and the global chains.
  \<^item> \<^verbatim>\<open>Ipc_Table\<close>: \<^verbatim>\<open>kernel/ipc/ipc_table.c\<close>, the sizes through which tables grow.
  \<^item> \<^verbatim>\<open>Ipc_Entry\<close> with \<^verbatim>\<open>Ipc_Entry_Inv\<close>, \<^verbatim>\<open>Ipc_Entry_Hash\<close>, \<^verbatim>\<open>Ipc_Entry_Grow\<close>, \<^verbatim>\<open>Ipc_Entry_Alloc\<close> and
    \<^verbatim>\<open>Ipc_Entry_Props\<close>: \<^verbatim>\<open>kernel/ipc/ipc_entry.c\<close>. The abstraction \<open>entries\<close> is the map from names
    to entries, in the table or in the tree; lookup, allocation and deallocation act on it as on a map,
    growing changes nothing, the reverse lookup is its inverse, and everything terminates under
    interference by other threads that keep the invariant.
  \<^item> \<^verbatim>\<open>Ipc_Port\<close> with \<^verbatim>\<open>Ipc_Port_Requests\<close>, \<^verbatim>\<open>Ipc_Port_Transit\<close>, \<^verbatim>\<open>Ipc_Port_Rights\<close> and
    \<^verbatim>\<open>Ipc_Port_Destroy\<close>: \<^verbatim>\<open>kernel/ipc/ipc_port.c\<close> and \<^verbatim>\<open>kernel/ipc/ipc_object.h\<close>. The state is a store of
    ports, the set of locks held and the list of calls to other parts (notifications, destroyed
    messages, woken threads). Dead-name requests are a map from slots to requests; the transit graph stays acyclic;
    rights and no-senders notifications are conserved; destruction notifies everybody once.
  \<^item> \<^verbatim>\<open>Ipc_Right\<close>, \<^verbatim>\<open>Ipc_Right_Copy\<close>, \<^verbatim>\<open>Ipc_Object\<close> and \<^verbatim>\<open>Mach_Port\<close>: \<^verbatim>\<open>kernel/ipc/ipc_right.c\<close>,
    \<^verbatim>\<open>kernel/ipc/ipc_object.c\<close> and the calls of \<^verbatim>\<open>kernel/ipc/mach_port.c\<close> on names. The state is a space, the global
    reverse hash and the ports; it is where entries, hashes and ports meet.
  \<^item> \<^verbatim>\<open>Ipc_Bits\<close>, \<^verbatim>\<open>Ipc_Right_Rules\<close>, \<^verbatim>\<open>Ipc_Right_View\<close>, \<^verbatim>\<open>Ipc_Right_Ops\<close>, \<^verbatim>\<open>Ipc_Right_Laws\<close>,
    \<^verbatim>\<open>Ipc_Right_Refine\<close>, \<^verbatim>\<open>Ipc_Right_Copyin\<close>, \<^verbatim>\<open>Ipc_Right_Copyout\<close> and \<^verbatim>\<open>Ipc_Right_Props\<close>: what these calls do. A
    view forgets locks, tables and hashes: it is the map from names to entries with the ports. Rules of total
    correctness for the primitives give, for deallocation, changes of user references, type queries, copyin and copyout
    of send and send-once rights, that the code implements a function or relation on views; on views it is shown that names
    and counters of ports keep agreeing and that rights are conserved. The hypotheses are that no entry belongs to
    the compatibility interface, for copyin that no counter is at its maximum, and for copyout that there is room for a name
    and nobody interferes during the call. Receive rights, renaming, dead-name requests and the compatibility calls
    are translated, without theorems of their own.
  \<^item> \<^verbatim>\<open>Net_Filter\<close>, \<^verbatim>\<open>Bpf\<close> and \<^verbatim>\<open>Net_Io\<close>, each with its \<^verbatim>\<open>_Props\<close>, \<^verbatim>\<open>Net_Dead\<close> and \<^verbatim>\<open>Net_Delivery\<close>: the packet
    filters of \<^verbatim>\<open>kernel/device/net_io.c\<close>. Two interpreters and the checks of their programs: what the checks guarantee
    and which programs they should refuse; the hash tables of sessions; who gets a packet, what becomes of each filter, and
    which rights are made and given back; how a new filter changes the list.
  \<^item> \<^verbatim>\<open>Cirbuf\<close>: \<^verbatim>\<open>kernel/device/cirbuf.c\<close>. A buffer refines a bounded queue.
  \<^item> \<^verbatim>\<open>Vm_External\<close>: \<^verbatim>\<open>kernel/vm/vm_external.c\<close>. The hints are sound, also when there was no memory for the map.
  \<^item> \<^verbatim>\<open>Lmm\<close> with \<^verbatim>\<open>Lmm_Inv\<close>, \<^verbatim>\<open>Lmm_Constrained\<close>, \<^verbatim>\<open>Lmm_Pool\<close>, \<^verbatim>\<open>Lmm_Malloc\<close>, \<^verbatim>\<open>Lmm_Reserve\<close> and
    \<^verbatim>\<open>Lmm_Props\<close>: \<^verbatim>\<open>libmach/lmm\<close>, \<^verbatim>\<open>libmach/c/malloc\<close>, \<^verbatim>\<open>i386/boot/malloc.c\<close> and
    \<^verbatim>\<open>i386/kernel/pc/phys_mem_add.c\<close>. The abstraction is the set of free bytes: allocations take exactly
    their block and fail only when nothing fits, blocks are disjoint, freeing gives back exactly the block.

  \<^bold>\<open>Bounds.\<close> Table sizes are those that \<^verbatim>\<open>ipc_table_init\<close> computes, so that names and sizes stay below
  \<open>2^32\<close>; memory pools lie below the last page of the address space; runs on a port are shorter than the distance of its
  reference count from \<open>2^32\<close>; the arrays of the filters have the sizes of
  \<^verbatim>\<open>include/device/net_status.h\<close>. Every such bound is a hypothesis of the theorem that needs it.

  \<^bold>\<open>Not modelled.\<close> Of IPC: messages and their queues, port sets, the creation and destruction of whole spaces, the calls that
  copy lists of names to the caller, and the remote-procedure-call paths, which need the scheduler and virtual memory. The
  program counter of the Berkeley machine is unbounded, so a jump whose address computation wraps around is not
  represented. The rest of the
  kernel (\<^verbatim>\<open>kernel/vm\<close>, \<^verbatim>\<open>kernel/kern\<close>, device drivers, \<^verbatim>\<open>kernel/ddb\<close>, \<^verbatim>\<open>i386\<close>) manipulates page
  tables, processors and hardware registers, or is input and output; the interface generator \<^verbatim>\<open>mig\<close>, the bootstrap
  server and the thread library are programs of their own. Within the modelled files, code that only prints, initialises zones
  or sits in branches that the build switches off is left out; \<^verbatim>\<open>Ipc_Entry\<close> keeps one such branch
  because the generation numbers it serves are part of the data.
\<close>

end
